(* ===== verification/Prelude.thy ===== *)
theory Prelude
  imports Main "HOL-Library.Word" "HOL-Library.Log_Nat"
begin

text \<open>
  Shared vocabulary of the LumoDB development: the fixed-width integer types of the C++
  sources, byte strings, and the generic lemmas on lists and words that several components
  use.  Every byte sequence of the program (file contents, \<open>std::string\<close> columns and keys,
  \<open>std::span\<close> payloads) is a list of 8-bit words.
\<close>

unbundle bit_operations_syntax

type_synonym u8 = "8 word"
type_synonym u16 = "16 word"
type_synonym u32 = "32 word"
type_synonym u64 = "64 word"
type_synonym byte = "8 word"
type_synonym bytes = "byte list"

named_theorems bytes_simps "slicing and overwriting of byte lists"
named_theorems unat_simps "unsigned values of 64-bit arithmetic"

subsection \<open>Unsigned 64-bit arithmetic\<close>

lemma unat_bound64 [simp]: "unat (x :: u64) < 18446744073709551616"
  using unsigned_less [of x, where 'a = nat] by simp

lemma unat_add64 [unat_simps]:
  "unat a + unat b < 18446744073709551616 \<Longrightarrow> unat (a + b :: u64) = unat a + unat b"
  by (simp add: unat_word_ariths)

lemma unat_of_nat64 [unat_simps]:
  "n < 18446744073709551616 \<Longrightarrow> unat (of_nat n :: u64) = n"
  by (simp add: unat_of_nat take_bit_eq_mod)

lemma unat_sub64 [unat_simps]: "unat b \<le> unat a \<Longrightarrow> unat (a - b :: u64) = unat a - unat b"
  by (simp add: unat_sub word_le_nat_alt)

lemma unat_mult64 [unat_simps]:
  "unat a * unat b < 18446744073709551616 \<Longrightarrow> unat (a * b :: u64) = unat a * unat b"
  by (simp add: unat_word_ariths)

lemma unat_ucast32 [simp]: "unat (ucast (x :: u32) :: u64) = unat x"
  by transfer (simp add: take_bit_of_mask)

lemma unat_bound32 [simp]: "unat (x :: u32) < 4294967296"
  using unsigned_less [of x, where 'a = nat] by simp

lemma unat_pow2 [simp]: "k < 64 \<Longrightarrow> unat ((2 :: u64) ^ k) = 2 ^ k"
proof -
  assume "k < 64"
  then have "(2 :: nat) ^ k < 2 ^ 64" by (intro power_strict_increasing) simp_all
  then show ?thesis using unat_of_nat64 [of "2 ^ k"] by simp
qed

lemma unat_add_of_nat64 [unat_simps]:
  "unat a + n < 18446744073709551616 \<Longrightarrow> unat (a + of_nat n :: u64) = unat a + n"
  by (simp add: unat_add64 unat_of_nat64)

subsection \<open>First match in a list\<close>

lemma find_SomeI:
  "x \<in> set xs \<Longrightarrow> P x \<Longrightarrow> (\<forall>y \<in> set (takeWhile (\<lambda>y. y \<noteq> x) xs). \<not> P y) \<Longrightarrow>
    find P xs = Some x"
proof (induction xs)
  case Nil
  then show ?case by simp
next
  case (Cons a xs)
  then show ?case by (cases "a = x") simp_all
qed

lemma find_SomeD: "find P xs = Some x \<Longrightarrow> x \<in> set xs \<and> P x"
  by (induction xs) (simp_all split: if_splits)

lemma find_Some_before:
  "find P xs = Some x \<Longrightarrow> y \<in> set (takeWhile (\<lambda>y. y \<noteq> x) xs) \<Longrightarrow> \<not> P y"
proof (induction xs)
  case Nil
  then show ?case by simp
next
  case (Cons a xs)
  then show ?case by (cases "P a"; cases "a = x") auto
qed

lemma find_exists: "x \<in> set xs \<Longrightarrow> P x \<Longrightarrow> \<exists>y. find P xs = Some y"
  by (induction xs) auto

lemma find_cong_set: "(\<And>x. x \<in> set xs \<Longrightarrow> P x = Q x) \<Longrightarrow> find P xs = find Q xs"
  by (induction xs) auto

lemma length_filter_update:
  assumes "i < length xs"
  shows "length (filter P (xs[i := x])) + (if P (xs ! i) then 1 else 0) =
    length (filter P xs) + (if P x then 1 else 0)"
  using assms
proof (induction xs arbitrary: i)
  case Nil
  then show ?case by simp
next
  case (Cons a xs)
  then show ?case by (cases i) auto
qed

lemma filter_shorter_ex:
  "length (filter P xs) < length xs \<Longrightarrow> \<exists>i < length xs. \<not> P (xs ! i)"
proof (rule ccontr)
  assume less: "length (filter P xs) < length xs" and none: "\<not> (\<exists>i < length xs. \<not> P (xs ! i))"
  from none have "\<forall>x \<in> set xs. P x" by (auto simp: in_set_conv_nth)
  then have "filter P xs = xs" by (simp add: filter_id_conv)
  with less show False by simp
qed

subsection \<open>Arrays of fixed-size elements\<close>

lemma length_concat_uniform:
  "(\<And>x. x \<in> set xs \<Longrightarrow> length (f x) = n) \<Longrightarrow> length (concat (map f xs)) = n * length xs"
  by (induction xs) simp_all

lemma drop_concat_uniform:
  "(\<And>x. x \<in> set xs \<Longrightarrow> length (f x) = n) \<Longrightarrow> i < length xs \<Longrightarrow>
    drop (n * i) (concat (map f xs)) = f (xs ! i) @ concat (map f (drop (Suc i) xs))"
proof (induction xs arbitrary: i)
  case Nil
  then show ?case by simp
next
  case (Cons a xs)
  then show ?case by (cases i) simp_all
qed

lemma length_filter_nth: "length (filter (\<lambda>i. P (xs ! i)) [0..<length xs]) = length (filter P xs)"
proof -
  have "filter P xs = filter P (map (\<lambda>i. xs ! i) [0..<length xs])" by (simp add: map_nth)
  also have "\<dots> = map (\<lambda>i. xs ! i) (filter (P \<circ> (\<lambda>i. xs ! i)) [0..<length xs])" by (rule filter_map)
  finally show ?thesis by (simp add: comp_def)
qed

end
