(* ===== verification/Doubles.thy ===== *)
theory Doubles
  imports Prelude
begin

text \<open>
  The \<open>double\<close> arithmetic of the load-factor checks.  A finite double is a rational number; an
  operation computes the exact result and rounds it to 53 significant bits, half to even.  The
  exponent range is not bounded: the program converts 64-bit counts, divides them by each other
  or by the load factor, compares, and casts back to \<open>uint64_t\<close>, so neither overflow to infinity
  nor subnormals arise below the bounds of the cast.  NaN is a value of its own, because the
  option check of \<open>OpenInternal\<close> lets it through; every comparison with it is false.
\<close>

datatype double = Fin rat | PInf | NInf | NaN

definition round_even :: "rat \<Rightarrow> int" where
  "round_even x =
     (let f = \<lfloor>x\<rfloor>; r = x - of_int f
      in if r < 1 / 2 then f else if r > 1 / 2 then f + 1 else if even f then f else f + 1)"

text \<open>The power of two that scales a positive number into \<open>[2 ^ 52, 2 ^ 53]\<close>, then rounding.\<close>

definition round53 :: "rat \<Rightarrow> rat" where
  "round53 x =
     (if x = 0 then 0
      else if 1 \<le> x then
        (let k = bitlen \<lfloor>x\<rfloor>
         in if k \<le> 53 then of_int (round_even (x * 2 ^ nat (53 - k))) / 2 ^ nat (53 - k)
            else of_int (round_even (x / 2 ^ nat (k - 53))) * 2 ^ nat (k - 53))
      else
        (let j = bitlen \<lfloor>1 / x\<rfloor>
         in of_int (round_even (x * 2 ^ nat (52 + j))) / 2 ^ nat (52 + j)))"

definition fl :: "rat \<Rightarrow> rat" where
  "fl x = (if x < 0 then - round53 (- x) else round53 x)"

definition double_of_u64 :: "u64 \<Rightarrow> double" where
  "double_of_u64 n = Fin (fl (of_nat (unat n)))"

fun ddiv :: "double \<Rightarrow> double \<Rightarrow> double" where
  "ddiv (Fin x) (Fin y) =
     (if y = 0 then (if x = 0 then NaN else if x > 0 then PInf else NInf) else Fin (fl (x / y)))"
| "ddiv NaN _ = NaN"
| "ddiv _ NaN = NaN"
| "ddiv (Fin x) _ = Fin 0"
| "ddiv PInf (Fin y) = (if y \<ge> 0 then PInf else NInf)"
| "ddiv NInf (Fin y) = (if y \<ge> 0 then NInf else PInf)"
| "ddiv _ _ = NaN"

fun dgt :: "double \<Rightarrow> double \<Rightarrow> bool" where
  "dgt (Fin x) (Fin y) = (x > y)"
| "dgt NaN _ = False"
| "dgt _ NaN = False"
| "dgt PInf y = (y \<noteq> PInf)"
| "dgt NInf _ = False"
| "dgt (Fin _) PInf = False"
| "dgt (Fin _) NInf = True"

fun dge :: "double \<Rightarrow> double \<Rightarrow> bool" where
  "dge NaN _ = False"
| "dge _ NaN = False"
| "dge x y = (x = y \<or> dgt x y)"

definition dle :: "double \<Rightarrow> double \<Rightarrow> bool" where
  "dle x y = dge y x"

text \<open>
  \<open>static_cast<uint64_t>\<close> of a double truncates; outside the range of the type (and for NaN)
  the C++ standard leaves the behaviour undefined, which is \<open>None\<close>.
\<close>

fun u64_of_double :: "double \<Rightarrow> u64 option" where
  "u64_of_double (Fin x) = (if -1 < x \<and> x < 2 ^ 64 then Some (of_nat (nat \<lfloor>x\<rfloor>)) else None)"
| "u64_of_double _ = None"

subsection \<open>Rounding never crosses a representable threshold\<close>

lemma round_even_ge: "of_int n \<le> x \<Longrightarrow> n \<le> round_even x"
  using le_floor_iff [of n x] by (auto simp: round_even_def Let_def)

lemma round_even_of_int [simp]: "round_even (of_int n) = n"
  by (simp add: round_even_def)

lemma bitlen_floor:
  assumes "1 \<le> (x :: rat)"
  shows "2 ^ nat (bitlen \<lfloor>x\<rfloor> - 1) \<le> x" and "1 \<le> bitlen \<lfloor>x\<rfloor>"
proof -
  have pos: "0 < \<lfloor>x\<rfloor>" using assms by (simp add: zero_less_floor)
  then have "2 ^ nat (bitlen \<lfloor>x\<rfloor> - 1) \<le> \<lfloor>x\<rfloor>"
    using bitlen_bounds by blast
  then have "of_int (2 ^ nat (bitlen \<lfloor>x\<rfloor> - 1)) \<le> x"
    by (simp only: le_floor_iff)
  then show "2 ^ nat (bitlen \<lfloor>x\<rfloor> - 1) \<le> x" by simp
  show "1 \<le> bitlen \<lfloor>x\<rfloor>"
    using pos bitlen_eq_zero_iff [of "\<lfloor>x\<rfloor>"] bitlen_nonneg [of "\<lfloor>x\<rfloor>"] by linarith
qed

lemma round53_small:
  assumes "1 \<le> x" and "bitlen \<lfloor>x\<rfloor> \<le> 53"
  shows "round53 x = of_int (round_even (x * 2 ^ nat (53 - bitlen \<lfloor>x\<rfloor>))) / 2 ^ nat (53 - bitlen \<lfloor>x\<rfloor>)"
  using assms by (simp add: round53_def Let_def)

lemma round53_ge_small:
  assumes "1 \<le> x" and k: "bitlen \<lfloor>x\<rfloor> \<le> 53" and n: "of_int n \<le> x"
  shows "of_int n \<le> round53 x"
proof -
  let ?s = "2 ^ nat (53 - bitlen \<lfloor>x\<rfloor>) :: rat"
  have "of_int (n * 2 ^ nat (53 - bitlen \<lfloor>x\<rfloor>)) \<le> x * ?s"
    using n by simp
  then have "n * 2 ^ nat (53 - bitlen \<lfloor>x\<rfloor>) \<le> round_even (x * ?s)"
    by (rule round_even_ge)
  then have "rat_of_int (n * 2 ^ nat (53 - bitlen \<lfloor>x\<rfloor>)) \<le> of_int (round_even (x * ?s))"
    by (simp only: of_int_le_iff)
  then show ?thesis
    using assms(1) k by (simp add: round53_small pos_le_divide_eq)
qed

lemma round53_ge_large:
  assumes x: "1 \<le> x" and k: "53 < bitlen \<lfloor>x\<rfloor>"
  shows "2 ^ nat (bitlen \<lfloor>x\<rfloor> - 1) \<le> round53 x"
proof -
  let ?d = "nat (bitlen \<lfloor>x\<rfloor> - 53)"
  have split: "nat (bitlen \<lfloor>x\<rfloor> - 1) = 52 + ?d" using k by simp
  have "(2 :: rat) ^ (52 + ?d) \<le> x"
    using bitlen_floor(1) [OF x] by (simp only: split)
  then have "of_int (2 ^ 52) \<le> x / 2 ^ ?d"
    by (simp add: power_add pos_le_divide_eq)
  then have "2 ^ 52 \<le> round_even (x / 2 ^ ?d)"
    by (rule round_even_ge)
  then have "rat_of_int (2 ^ 52) \<le> of_int (round_even (x / 2 ^ ?d))"
    by (simp only: of_int_le_iff)
  then have "rat_of_int (2 ^ 52) * 2 ^ ?d \<le> of_int (round_even (x / 2 ^ ?d)) * 2 ^ ?d"
    by (rule mult_right_mono) simp
  moreover have "round53 x = of_int (round_even (x / 2 ^ ?d)) * 2 ^ ?d"
    using x k by (simp add: round53_def Let_def)
  ultimately show ?thesis
    by (simp add: split power_add)
qed

lemma fl_ge_pow2:
  assumes "2 ^ m \<le> x"
  shows "2 ^ m \<le> fl x"
proof -
  have one: "1 \<le> x"
    using assms one_le_power [of "2 :: rat" m] by linarith
  have "2 ^ m \<le> round53 x"
  proof (cases "bitlen \<lfloor>x\<rfloor> \<le> 53")
    case True
    have "of_int (2 ^ m) \<le> x" using assms by simp
    from round53_ge_small [OF one True this] show ?thesis by simp
  next
    case False
    have "2 ^ m \<le> \<lfloor>x\<rfloor>" using assms by (simp add: le_floor_iff)
    moreover have "\<lfloor>x\<rfloor> < 2 ^ nat (bitlen \<lfloor>x\<rfloor>)"
      using one by (intro conjunct2 [OF bitlen_bounds]) simp
    ultimately have "(2 :: int) ^ m < 2 ^ nat (bitlen \<lfloor>x\<rfloor>)" by linarith
    then have "m \<le> nat (bitlen \<lfloor>x\<rfloor> - 1)"
      using False by simp
    then have "(2 :: rat) ^ m \<le> 2 ^ nat (bitlen \<lfloor>x\<rfloor> - 1)"
      by (rule power_increasing) simp
    also have "\<dots> \<le> round53 x"
      using one False by (intro round53_ge_large) simp_all
    finally show ?thesis .
  qed
  then show ?thesis using one by (simp add: fl_def)
qed

lemma fl_ge_nat:
  assumes n: "of_nat n \<le> x" and small: "n \<le> 2 ^ 53" and pos: "0 < n"
  shows "of_nat n \<le> fl x"
proof -
  have one: "1 \<le> x" using n pos by (metis Suc_leI of_nat_1 of_nat_le_iff One_nat_def order_trans)
  have "of_nat n \<le> round53 x"
  proof (cases "bitlen \<lfloor>x\<rfloor> \<le> 53")
    case True
    have "of_int (int n) \<le> x" using n by simp
    from round53_ge_small [OF one True this] show ?thesis by simp
  next
    case False
    have "rat_of_nat n \<le> of_nat (2 ^ 53)" using small by (simp only: of_nat_le_iff)
    also have "\<dots> = 2 ^ 53" by simp
    also have "\<dots> \<le> 2 ^ nat (bitlen \<lfloor>x\<rfloor> - 1)"
      using False by (intro power_increasing) simp_all
    also have "\<dots> \<le> round53 x"
      using one False by (intro round53_ge_large) simp_all
    finally show ?thesis .
  qed
  then show ?thesis using one by (simp add: fl_def)
qed

subsection \<open>Exactness on dyadic quotients below 2 to the 53\<close>

lemma bitlen_floor_upper:
  assumes "1 \<le> (x :: rat)"
  shows "x < 2 ^ nat (bitlen \<lfloor>x\<rfloor>)"
proof -
  have "\<lfloor>x\<rfloor> < 2 ^ nat (bitlen \<lfloor>x\<rfloor>)"
    using assms by (intro conjunct2 [OF bitlen_bounds]) (simp add: zero_less_floor)
  then show ?thesis by (simp add: floor_less_iff)
qed

lemma scaled_dyadic: "rat_of_nat n / 2 ^ k * 2 ^ (k + d) = of_int (int n * 2 ^ d)"
  by (simp add: power_add)

lemma round53_dyadic_large:
  assumes n: "n < 2 ^ 53" and x: "x = of_nat n / 2 ^ k" and one: "1 \<le> x"
  shows "round53 x = x"
proof -
  define b where "b = bitlen \<lfloor>x\<rfloor>"
  have "(2 :: rat) ^ nat (b - 1) \<le> of_nat n / 2 ^ k"
    using bitlen_floor(1) [OF one] by (simp add: b_def x)
  then have "(2 :: rat) ^ (nat (b - 1) + k) \<le> of_nat n"
    by (simp add: power_add pos_le_divide_eq)
  also have "\<dots> < of_nat (2 ^ 53)" using n by (simp only: of_nat_less_iff)
  also have "\<dots> = 2 ^ 53" by simp
  finally have exp: "nat (b - 1) + k < 53"
    by (rule power_less_imp_less_exp [rotated]) simp
  moreover have "1 \<le> b" using bitlen_floor(2) [OF one] by (simp add: b_def)
  ultimately have "k \<le> nat (53 - b)" by linarith
  then obtain d where d: "nat (53 - b) = k + d" using le_Suc_ex by blast
  have "b \<le> 53" using exp by linarith
  then have "round53 x = of_int (round_even (x * 2 ^ (k + d))) / 2 ^ (k + d)"
    using round53_small [OF one] by (simp add: b_def [symmetric] d)
  also have "x * 2 ^ (k + d) = of_int (int n * 2 ^ d)"
    by (simp only: x scaled_dyadic)
  also have "of_int (round_even (of_int (int n * 2 ^ d))) / 2 ^ (k + d) = x"
    unfolding round_even_of_int by (simp add: x power_add)
  finally show ?thesis .
qed

lemma round53_dyadic_small:
  assumes n: "n < 2 ^ 53" and pos: "0 < n" and x: "x = of_nat n / 2 ^ k" and one: "x < 1"
  shows "round53 x = x"
proof -
  define j where "j = bitlen \<lfloor>1 / x\<rfloor>"
  have xpos: "0 < x" using pos by (simp add: x)
  have "1 \<le> 1 / x" using one xpos by simp
  then have "1 / x < 2 ^ nat j" and j0: "0 \<le> j"
    unfolding j_def by (rule bitlen_floor_upper) (rule bitlen_nonneg)
  then have "(2 :: rat) ^ k < of_nat n * 2 ^ nat j"
    using pos by (simp add: x pos_divide_less_eq mult.commute)
  also have "\<dots> < of_nat (2 ^ 53) * 2 ^ nat j"
    using n by (intro mult_strict_right_mono) (simp_all only: of_nat_less_iff zero_less_power zero_less_numeral)
  also have "\<dots> = 2 ^ (53 + nat j)" by (simp add: power_add)
  finally have "k < 53 + nat j"
    by (rule power_less_imp_less_exp [rotated]) simp
  then have "k \<le> nat (52 + j)" using j0 by linarith
  then obtain d where d: "nat (52 + j) = k + d" using le_Suc_ex by blast
  have "round53 x = of_int (round_even (x * 2 ^ (k + d))) / 2 ^ (k + d)"
    using one xpos d by (simp add: round53_def Let_def j_def)
  also have "x * 2 ^ (k + d) = of_int (int n * 2 ^ d)"
    by (simp only: x scaled_dyadic)
  also have "of_int (round_even (of_int (int n * 2 ^ d))) / 2 ^ (k + d) = x"
    unfolding round_even_of_int by (simp add: x power_add)
  finally show ?thesis .
qed

lemma fl_dyadic:
  assumes "n < 2 ^ 53"
  shows "fl (of_nat n / 2 ^ k) = of_nat n / 2 ^ k"
proof (cases "n = 0")
  case True
  then show ?thesis by (simp add: fl_def round53_def)
next
  case False
  then have pos: "0 < n" by simp
  have "round53 (of_nat n / 2 ^ k) = of_nat n / 2 ^ k"
  proof (cases "1 \<le> rat_of_nat n / 2 ^ k")
    case True
    then show ?thesis by (rule round53_dyadic_large [OF assms refl])
  next
    case False
    then show ?thesis by (intro round53_dyadic_small [OF assms pos refl]) simp
  qed
  moreover have "\<not> rat_of_nat n / 2 ^ k < 0" by (simp add: not_less)
  ultimately show ?thesis by (simp only: fl_def if_False)
qed

lemma fl_of_nat: "n < 2 ^ 53 \<Longrightarrow> fl (of_nat n) = of_nat n"
  using fl_dyadic [of n 0] by simp

lemma fl_pow2: "fl (2 ^ k) = 2 ^ k"
proof -
  have "k \<le> 52 \<or> 52 < k" by linarith
  then show ?thesis
  proof
    assume "k \<le> 52"
    then have "(2 :: nat) ^ k < 2 ^ 53" by (intro power_strict_increasing) simp_all
    from fl_of_nat [OF this] show ?thesis by simp
  next
    assume k: "52 < k"
    have floor: "\<lfloor>(2 :: rat) ^ k\<rfloor> = 2 ^ k" by (simp add: floor_eq_iff)
    obtain d where d: "k = 53 + d" using k by (metis Suc_leI le_Suc_ex add.commute numeral_eq_Suc
          pred_numeral_simps)
    have "bitlen (2 ^ k) = int k + 1" using bitlen_pow2 [of 1 k] by (simp add: compute_bitlen)
    then have "round53 (2 ^ k) = of_int (round_even (2 ^ k / 2 ^ (1 + d))) * 2 ^ (1 + d)"
      using d by (simp add: round53_def Let_def floor nat_add_distrib)
    also have "(2 :: rat) ^ k / 2 ^ (1 + d) = of_int (2 ^ 52)"
      by (simp add: d power_add)
    finally have "round53 (2 ^ k) = of_int (2 ^ 52) * 2 ^ (1 + d)"
      by (simp only: round_even_of_int)
    then show ?thesis by (simp add: fl_def d power_add)
  qed
qed

subsection \<open>Upper bounds\<close>

lemma round_even_le: "x \<le> of_int n \<Longrightarrow> round_even x \<le> n"
proof -
  assume x: "x \<le> of_int n"
  have floor: "\<lfloor>x\<rfloor> \<le> n" using x by (metis floor_mono floor_of_int)
  show ?thesis
  proof (cases "\<lfloor>x\<rfloor> = n")
    case True
    then have "x = of_int n" using x of_int_floor_le [of x] by linarith
    then show ?thesis by simp
  next
    case False
    then have "\<lfloor>x\<rfloor> + 1 \<le> n" using floor by linarith
    then show ?thesis by (simp add: round_even_def Let_def)
  qed
qed

lemma fl_le_nat:
  assumes x: "1 \<le> x" "x \<le> of_nat n" and small: "n < 2 ^ 53"
  shows "fl x \<le> of_nat n"
proof -
  have fl: "\<lfloor>x\<rfloor> < 2 ^ 53"
  proof -
    have "rat_of_nat n < of_nat (2 ^ 53)" using small by (simp only: of_nat_less_iff)
    then have "x < 2 ^ 53" using x(2) by simp
    then show ?thesis by (simp add: floor_less_iff)
  qed
  have "2 ^ nat (bitlen \<lfloor>x\<rfloor> - 1) \<le> \<lfloor>x\<rfloor>"
    using x(1) by (intro conjunct1 [OF bitlen_bounds]) (simp add: zero_less_floor)
  then have "(2 :: int) ^ nat (bitlen \<lfloor>x\<rfloor> - 1) < 2 ^ 53" using fl by linarith
  then have "nat (bitlen \<lfloor>x\<rfloor> - 1) < 53" by (rule power_less_imp_less_exp [rotated]) simp
  then have k: "bitlen \<lfloor>x\<rfloor> \<le> 53" by linarith
  let ?s = "nat (53 - bitlen \<lfloor>x\<rfloor>)"
  have "x * 2 ^ ?s \<le> of_int (int n * 2 ^ ?s)" using x(2) by simp
  then have "round_even (x * 2 ^ ?s) \<le> int n * 2 ^ ?s" by (rule round_even_le)
  then have "rat_of_int (round_even (x * 2 ^ ?s)) \<le> of_int (int n * 2 ^ ?s)" by (simp only: of_int_le_iff)
  then have "round53 x \<le> of_nat n"
    unfolding round53_small [OF x(1) k] by (simp add: pos_divide_le_eq)
  then show ?thesis using x(1) by (simp add: fl_def)
qed

end
