(* ===== verification/Hashing.thy ===== *)
theory Hashing
  imports Prelude
begin

text \<open>
  The hash functions of \<open>src/lumodb/hash.cpp\<close>, on 64-bit words with the wrap-around of the C++
  arithmetic: the byte-wise multiplicative string hash and the mixing finaliser that combines a
  column hash with a key hash (or with a row id).
\<close>

definition kOffsetBasis :: u64 where
  "kOffsetBasis = 14695981039346656037"

definition kPrime :: u64 where
  "kPrime = 1099511628211"

definition hash_byte :: "u64 \<Rightarrow> byte \<Rightarrow> u64" where
  "hash_byte hash ch = (hash XOR ucast ch) * kPrime"

definition HashString :: "bytes \<Rightarrow> u64" where
  "HashString value = foldl hash_byte kOffsetBasis value"

definition MixHashes :: "u64 \<Rightarrow> u64 \<Rightarrow> u64" where
  "MixHashes columnHash keyHash =
     (let v0 = columnHash XOR word_rotl 23 keyHash;
          v1 = v0 XOR drop_bit 30 v0;
          v2 = v1 * 0xbf58476d1ce4e5b9;
          v3 = v2 XOR drop_bit 27 v2;
          v4 = v3 * 0x94d049bb133111eb;
          v5 = v4 XOR drop_bit 31 v4
      in v5)"

definition ObjectIndexHash :: "u64 \<Rightarrow> u64 \<Rightarrow> u64" where
  "ObjectIndexHash columnHash keyHash =
     (let hash = MixHashes columnHash keyHash in if hash = 0 then 1 else hash)"

subsection \<open>Invertibility of the mixing steps\<close>

lemma drop_bit_64 [simp]:
  fixes z :: u64
  assumes "64 \<le> n"
  shows "drop_bit n z = 0"
  by (rule bit_eqI) (use assms in \<open>auto simp: bit_drop_bit_eq dest: bit_imp_le_length\<close>)

lemma xor_shift_zero:
  fixes z :: u64
  assumes z: "z = drop_bit n z" and n: "n \<noteq> 0"
  shows "z = 0"
proof -
  have iter: "z = drop_bit (k * n) z" for k
  proof (induction k)
    case 0
    show ?case by simp
  next
    case (Suc k)
    have "drop_bit (Suc k * n) z = drop_bit n (drop_bit (k * n) z)"
      by (simp add: drop_bit_drop_bit)
    also have "\<dots> = z"
      using Suc.IH [symmetric] z [symmetric] by (simp only:)
    finally show ?case by (rule sym)
  qed
  have "drop_bit (64 * n) z = 0"
    using n by simp
  with iter [of 64] show ?thesis by (simp only:)
qed

lemma xor_shift_inj:
  fixes x y :: u64
  assumes eq: "x XOR drop_bit n x = y XOR drop_bit n y" and n: "n \<noteq> 0"
  shows "x = y"
proof -
  have "x XOR y = drop_bit n x XOR drop_bit n y"
    using arg_cong [OF eq, of "\<lambda>w. w XOR y XOR drop_bit n x"]
    by (simp add: ac_simps)
  also have "\<dots> = drop_bit n (x XOR y)"
    by simp
  finally have "x XOR y = 0"
    using n by (rule xor_shift_zero)
  have "x = (x XOR y) XOR y"
    by (simp only: xor.assoc xor_self_eq xor.right_neutral)
  also have "\<dots> = y"
    by (simp only: \<open>x XOR y = 0\<close> xor.left_neutral)
  finally show ?thesis .
qed

lemma times_unit_inj:
  fixes x y m i :: u64
  assumes eq: "x * m = y * m" and unit: "m * i = 1"
  shows "x = y"
proof -
  have "x * (m * i) = y * (m * i)"
    using eq by (metis mult.assoc)
  then show ?thesis
    by (simp only: unit mult_1_right)
qed

lemma xor_left_inj:
  fixes x y a :: u64
  assumes "a XOR x = a XOR y"
  shows "x = y"
proof -
  have "a XOR (a XOR x) = a XOR (a XOR y)"
    using assms by (simp only:)
  then show ?thesis
    by (simp only: xor.assoc [symmetric] xor_self_eq xor.left_neutral)
qed

lemma xor_right_inj:
  fixes x y a :: u64
  assumes "x XOR a = y XOR a"
  shows "x = y"
  using assms xor_left_inj by (metis xor.commute)

lemma rotl_inj:
  fixes x y :: u64
  assumes "word_rotl 23 x = word_rotl 23 y"
  shows "x = y"
  using arg_cong [OF assms, of "word_rotr 23"] by simp

lemma mix_core_inj:
  fixes v w :: u64
  assumes "MixHashes v 0 = MixHashes w 0"
  shows "v = w"
proof -
  define a where "a = (v XOR drop_bit 30 v) * 0xbf58476d1ce4e5b9"
  define b where "b = (w XOR drop_bit 30 w) * 0xbf58476d1ce4e5b9"
  define c where "c = (a XOR drop_bit 27 a) * 0x94d049bb133111eb"
  define d where "d = (b XOR drop_bit 27 b) * 0x94d049bb133111eb"
  have "c XOR drop_bit 31 c = d XOR drop_bit 31 d"
    using assms by (simp add: MixHashes_def Let_def a_def b_def c_def d_def)
  then have "c = d"
    by (rule xor_shift_inj) simp
  then have "a XOR drop_bit 27 a = b XOR drop_bit 27 b"
    unfolding c_def d_def
    by (rule times_unit_inj [where i = 3573116690164977347]) simp_all
  then have "a = b"
    by (rule xor_shift_inj) simp
  then have "v XOR drop_bit 30 v = w XOR drop_bit 30 w"
    unfolding a_def b_def
    by (rule times_unit_inj [where i = 10871156337175269513]) simp_all
  then show ?thesis
    by (rule xor_shift_inj) simp
qed

lemma MixHashes_core: "MixHashes c k = MixHashes (c XOR word_rotl 23 k) 0"
  by (simp add: MixHashes_def)

text \<open>For a fixed column hash the mixing function is injective in the key hash, and for a
  fixed key hash it is injective in the column hash: two keys of one column share an index hash
  only when their 64-bit string hashes agree (or one of the two mixes to the reserved 0).\<close>

theorem MixHashes_injective:
  "(MixHashes c k = MixHashes c k' \<longleftrightarrow> k = k') \<and> (MixHashes c k = MixHashes c' k \<longleftrightarrow> c = c')"
proof
  show "MixHashes c k = MixHashes c k' \<longleftrightarrow> k = k'"
    using MixHashes_core mix_core_inj xor_left_inj rotl_inj by metis
  show "MixHashes c k = MixHashes c' k \<longleftrightarrow> c = c'"
    using MixHashes_core mix_core_inj xor_right_inj by metis
qed

subsection \<open>The string hash\<close>

lemma HashString_append: "HashString (xs @ ys) = foldl hash_byte (HashString xs) ys"
  by (simp add: HashString_def)

lemma hash_byte_state_inj: "hash_byte h c = hash_byte h' c \<longleftrightarrow> h = h'"
proof
  assume "hash_byte h c = hash_byte h' c"
  then have "h XOR ucast c = h' XOR ucast c"
    unfolding hash_byte_def
    by (rule times_unit_inj [where i = 14886173955864302971]) (simp add: kPrime_def)
  then show "h = h'" by (rule xor_right_inj)
qed simp

lemma hash_byte_char_inj: "hash_byte h c = hash_byte h c' \<longleftrightarrow> c = c'"
proof
  assume "hash_byte h c = hash_byte h c'"
  then have "h XOR ucast c = h XOR ucast c'"
    unfolding hash_byte_def
    by (rule times_unit_inj [where i = 14886173955864302971]) (simp add: kPrime_def)
  then have "(ucast c :: u64) = ucast c'" by (rule xor_left_inj)
  then have "(ucast (ucast c :: u64) :: byte) = ucast (ucast c' :: u64)" by (simp only:)
  then show "c = c'" by (simp add: ucast_up_ucast_id is_up)
qed simp

lemma foldl_hash_byte_inj: "foldl hash_byte h xs = foldl hash_byte h' xs \<longleftrightarrow> h = h'"
  by (induction xs arbitrary: h h') (simp_all add: hash_byte_state_inj)

text \<open>Two strings of equal length that differ in exactly one byte never have the same
  string hash.\<close>

theorem HashString_single_byte:
  assumes "c \<noteq> c'"
  shows "HashString (xs @ c # ys) \<noteq> HashString (xs @ c' # ys)"
  using assms
  by (simp add: HashString_append foldl_hash_byte_inj hash_byte_char_inj)

theorem HashString_single_byte_witness:
  "HashString ([1, 2] @ 3 # [4]) \<noteq> HashString ([1, 2] @ 5 # [4])"
  by (rule HashString_single_byte) simp

text \<open>The index hash is never 0, the value that marks an empty bucket.\<close>

theorem ObjectIndexHash_nonzero: "ObjectIndexHash c k \<noteq> 0"
  by (simp add: ObjectIndexHash_def Let_def)

end
