(* ===== verification/Storage_Format.thy ===== *)
theory Storage_Format
  imports Prelude
begin

text \<open>
  The on-disk structures of \<open>src/lumodb/storage_format.h\<close>: magic numbers, the header records and
  the bucket records with their default values, and for each its byte layout.  The C++ code reads
  and writes the structs as they lie in memory on a little-endian machine; \<open>encode_X\<close> lists those
  bytes and \<open>decode_X\<close> reinterprets them.  For every structure the encoding has the size the
  \<open>static_assert\<close>s fix, and decoding inverts it.
\<close>

subsection \<open>Little-endian integers\<close>

fun le_bytes :: "nat \<Rightarrow> nat \<Rightarrow> bytes" where
  "le_bytes 0 x = []"
| "le_bytes (Suc n) x = of_nat (x mod 256) # le_bytes n (x div 256)"

fun le_nat :: "bytes \<Rightarrow> nat" where
  "le_nat [] = 0"
| "le_nat (b # bs) = unat b + 256 * le_nat bs"

lemma length_le_bytes [simp]: "length (le_bytes n x) = n"
  by (induction n arbitrary: x) simp_all

lemma le_nat_le_bytes [simp]: "le_nat (le_bytes n x) = x mod 256 ^ n"
proof (induction n arbitrary: x)
  case 0
  then show ?case by simp
next
  case (Suc n)
  have "unat (of_nat (x mod 256) :: byte) = x mod 256"
    by (simp add: unat_of_nat take_bit_eq_mod)
  with Suc show ?case by (simp add: mod_mult2_eq)
qed

definition put8 :: "u8 \<Rightarrow> bytes" where "put8 x = le_bytes 1 (unat x)"

definition put16 :: "u16 \<Rightarrow> bytes" where "put16 x = le_bytes 2 (unat x)"

definition put32 :: "u32 \<Rightarrow> bytes" where "put32 x = le_bytes 4 (unat x)"

definition put64 :: "u64 \<Rightarrow> bytes" where "put64 x = le_bytes 8 (unat x)"

definition field :: "nat \<Rightarrow> nat \<Rightarrow> bytes \<Rightarrow> bytes" where
  "field off n bs = take n (drop off bs)"

definition get8 :: "nat \<Rightarrow> bytes \<Rightarrow> u8" where "get8 off bs = of_nat (le_nat (field off 1 bs))"

definition get16 :: "nat \<Rightarrow> bytes \<Rightarrow> u16" where "get16 off bs = of_nat (le_nat (field off 2 bs))"

definition get32 :: "nat \<Rightarrow> bytes \<Rightarrow> u32" where "get32 off bs = of_nat (le_nat (field off 4 bs))"

definition get64 :: "nat \<Rightarrow> bytes \<Rightarrow> u64" where "get64 off bs = of_nat (le_nat (field off 8 bs))"

lemma length_put [simp]:
  "length (put8 a) = 1" "length (put16 b) = 2" "length (put32 c) = 4" "length (put64 d) = 8"
  by (simp_all add: put8_def put16_def put32_def put64_def)

lemma unat_bound16: "unat (x :: u16) < 65536"
  using unsigned_less [of x, where 'a = nat] by simp

lemma unat_bound8: "unat (x :: u8) < 256"
  using unsigned_less [of x, where 'a = nat] by simp

lemma of_le_nat_put [simp]:
  "of_nat (le_nat (put8 a)) = a" "of_nat (le_nat (put16 b)) = b"
  "of_nat (le_nat (put32 c)) = c" "of_nat (le_nat (put64 d)) = d"
  using unat_bound8 [of a] unat_bound16 [of b] unat_bound32 [of c] unat_bound64 [of d]
  by (simp_all add: put8_def put16_def put32_def put64_def del: unat_bound32 unat_bound64)

lemma field_append_skip [bytes_simps]:
  "length a \<le> off \<Longrightarrow> field off n (a @ b) = field (off - length a) n b"
  by (simp add: field_def)

lemma field_append_hit [bytes_simps]: "length a = n \<Longrightarrow> field 0 n (a @ b) = a"
  by (simp add: field_def)

lemma field_all [bytes_simps]: "length a = n \<Longrightarrow> field 0 n a = a"
  by (simp add: field_def)

subsection \<open>Constants\<close>

definition kValueFileMagic :: bytes where
  "kValueFileMagic = [0x4C, 0x55, 0x4D, 0x56, 0x30, 0x30, 0x30, 0x32]"

definition kLegacyValueFileMagic :: bytes where
  "kLegacyValueFileMagic = [0x4C, 0x55, 0x4D, 0x56, 0x30, 0x30, 0x30, 0x31]"

definition kIndexFileMagic :: bytes where
  "kIndexFileMagic = [0x4C, 0x55, 0x4D, 0x49, 0x30, 0x30, 0x30, 0x32]"

definition kRowValueFileMagic :: bytes where
  "kRowValueFileMagic = [0x4C, 0x55, 0x4D, 0x52, 0x56, 0x30, 0x30, 0x31]"

definition kRowIndexFileMagic :: bytes where
  "kRowIndexFileMagic = [0x4C, 0x55, 0x4D, 0x52, 0x49, 0x30, 0x30, 0x32]"

definition kStorageVersion :: nat where
  "kStorageVersion = 1"

definition kRecordMagic :: u32 where
  "kRecordMagic = 0x43455256"

definition kRowBlockMagic :: u32 where
  "kRowBlockMagic = 0x424C4F52"

definition kBucketEmpty :: u8 where
  "kBucketEmpty = 0"

definition kBucketFilled :: u8 where
  "kBucketFilled = 1"

definition kRowBucketEmpty :: u32 where
  "kRowBucketEmpty = 0"

definition kRowBucketFilled :: u32 where
  "kRowBucketFilled = 1"

definition kRowBucketWriting :: u32 where
  "kRowBucketWriting = 2"

lemmas magic_defs = kValueFileMagic_def kLegacyValueFileMagic_def kIndexFileMagic_def
  kRowValueFileMagic_def kRowIndexFileMagic_def

subsection \<open>Structures, default values and layouts\<close>

record ValueFileHeader =
  vf_magic :: bytes
  vf_version :: u32
  vf_headerSize :: u32
  vf_reserved :: u64

definition ValueFileHeader_default :: ValueFileHeader where
  "ValueFileHeader_default =
     \<lparr>vf_magic = kValueFileMagic,
      vf_version = of_nat kStorageVersion,
      vf_headerSize = 24,
      vf_reserved = 0\<rparr>"

definition encode_ValueFileHeader :: "ValueFileHeader \<Rightarrow> bytes" where
  "encode_ValueFileHeader h =
     vf_magic h @
     put32 (vf_version h) @
     put32 (vf_headerSize h) @
     put64 (vf_reserved h)"

definition decode_ValueFileHeader :: "bytes \<Rightarrow> ValueFileHeader" where
  "decode_ValueFileHeader bs =
     \<lparr>vf_magic = field 0 8 bs,
      vf_version = get32 8 bs,
      vf_headerSize = get32 12 bs,
      vf_reserved = get64 16 bs\<rparr>"

lemma length_encode_ValueFileHeader [simp]: "length (vf_magic h) = 8 \<Longrightarrow> length (encode_ValueFileHeader h) = 24"
  by (simp add: encode_ValueFileHeader_def)

lemma decode_encode_ValueFileHeader [simp]: "length (vf_magic h) = 8 \<Longrightarrow> decode_ValueFileHeader (encode_ValueFileHeader h @ rest) = h"
  by (simp add: decode_ValueFileHeader_def encode_ValueFileHeader_def get8_def get16_def get32_def get64_def bytes_simps)

record ValueRecordHeader =
  vr_magic :: u32
  vr_version :: u16
  vr_headerSize :: u16
  vr_columnSize :: u32
  vr_keySize :: u32
  vr_valueSize :: u64

definition ValueRecordHeader_default :: ValueRecordHeader where
  "ValueRecordHeader_default =
     \<lparr>vr_magic = kRecordMagic,
      vr_version = of_nat kStorageVersion,
      vr_headerSize = 24,
      vr_columnSize = 0,
      vr_keySize = 0,
      vr_valueSize = 0\<rparr>"

definition encode_ValueRecordHeader :: "ValueRecordHeader \<Rightarrow> bytes" where
  "encode_ValueRecordHeader h =
     put32 (vr_magic h) @
     put16 (vr_version h) @
     put16 (vr_headerSize h) @
     put32 (vr_columnSize h) @
     put32 (vr_keySize h) @
     put64 (vr_valueSize h)"

definition decode_ValueRecordHeader :: "bytes \<Rightarrow> ValueRecordHeader" where
  "decode_ValueRecordHeader bs =
     \<lparr>vr_magic = get32 0 bs,
      vr_version = get16 4 bs,
      vr_headerSize = get16 6 bs,
      vr_columnSize = get32 8 bs,
      vr_keySize = get32 12 bs,
      vr_valueSize = get64 16 bs\<rparr>"

lemma length_encode_ValueRecordHeader [simp]: "length (encode_ValueRecordHeader h) = 24"
  by (simp add: encode_ValueRecordHeader_def)

lemma decode_encode_ValueRecordHeader [simp]: "decode_ValueRecordHeader (encode_ValueRecordHeader h @ rest) = h"
  by (simp add: decode_ValueRecordHeader_def encode_ValueRecordHeader_def get8_def get16_def get32_def get64_def bytes_simps)

record LegacyValueRecordHeader =
  lr_magic :: u32
  lr_version :: u16
  lr_headerSize :: u16
  lr_sequence :: u64
  lr_columnHash :: u64
  lr_keyHash :: u64
  lr_columnSize :: u32
  lr_keySize :: u32
  lr_valueSize :: u64

definition LegacyValueRecordHeader_default :: LegacyValueRecordHeader where
  "LegacyValueRecordHeader_default =
     \<lparr>lr_magic = kRecordMagic,
      lr_version = of_nat kStorageVersion,
      lr_headerSize = 48,
      lr_sequence = 0,
      lr_columnHash = 0,
      lr_keyHash = 0,
      lr_columnSize = 0,
      lr_keySize = 0,
      lr_valueSize = 0\<rparr>"

definition encode_LegacyValueRecordHeader :: "LegacyValueRecordHeader \<Rightarrow> bytes" where
  "encode_LegacyValueRecordHeader h =
     put32 (lr_magic h) @
     put16 (lr_version h) @
     put16 (lr_headerSize h) @
     put64 (lr_sequence h) @
     put64 (lr_columnHash h) @
     put64 (lr_keyHash h) @
     put32 (lr_columnSize h) @
     put32 (lr_keySize h) @
     put64 (lr_valueSize h)"

definition decode_LegacyValueRecordHeader :: "bytes \<Rightarrow> LegacyValueRecordHeader" where
  "decode_LegacyValueRecordHeader bs =
     \<lparr>lr_magic = get32 0 bs,
      lr_version = get16 4 bs,
      lr_headerSize = get16 6 bs,
      lr_sequence = get64 8 bs,
      lr_columnHash = get64 16 bs,
      lr_keyHash = get64 24 bs,
      lr_columnSize = get32 32 bs,
      lr_keySize = get32 36 bs,
      lr_valueSize = get64 40 bs\<rparr>"

lemma length_encode_LegacyValueRecordHeader [simp]: "length (encode_LegacyValueRecordHeader h) = 48"
  by (simp add: encode_LegacyValueRecordHeader_def)

lemma decode_encode_LegacyValueRecordHeader [simp]: "decode_LegacyValueRecordHeader (encode_LegacyValueRecordHeader h @ rest) = h"
  by (simp add: decode_LegacyValueRecordHeader_def encode_LegacyValueRecordHeader_def get8_def get16_def get32_def get64_def bytes_simps)

record IndexFileHeader =
  ih_magic :: bytes
  ih_version :: u32
  ih_headerSize :: u32
  ih_bucketCount :: u64
  ih_itemCount :: u64
  ih_nextSequence :: u64
  ih_reserved :: bytes

definition IndexFileHeader_default :: IndexFileHeader where
  "IndexFileHeader_default =
     \<lparr>ih_magic = kIndexFileMagic,
      ih_version = of_nat kStorageVersion,
      ih_headerSize = 64,
      ih_bucketCount = 0,
      ih_itemCount = 0,
      ih_nextSequence = 1,
      ih_reserved = replicate 24 0\<rparr>"

definition encode_IndexFileHeader :: "IndexFileHeader \<Rightarrow> bytes" where
  "encode_IndexFileHeader h =
     ih_magic h @
     put32 (ih_version h) @
     put32 (ih_headerSize h) @
     put64 (ih_bucketCount h) @
     put64 (ih_itemCount h) @
     put64 (ih_nextSequence h) @
     ih_reserved h"

definition decode_IndexFileHeader :: "bytes \<Rightarrow> IndexFileHeader" where
  "decode_IndexFileHeader bs =
     \<lparr>ih_magic = field 0 8 bs,
      ih_version = get32 8 bs,
      ih_headerSize = get32 12 bs,
      ih_bucketCount = get64 16 bs,
      ih_itemCount = get64 24 bs,
      ih_nextSequence = get64 32 bs,
      ih_reserved = field 40 24 bs\<rparr>"

lemma length_encode_IndexFileHeader [simp]: "length (ih_magic h) = 8 \<Longrightarrow> length (ih_reserved h) = 24 \<Longrightarrow> length (encode_IndexFileHeader h) = 64"
  by (simp add: encode_IndexFileHeader_def)

lemma decode_encode_IndexFileHeader [simp]: "length (ih_magic h) = 8 \<Longrightarrow> length (ih_reserved h) = 24 \<Longrightarrow> decode_IndexFileHeader (encode_IndexFileHeader h @ rest) = h"
  by (simp add: decode_IndexFileHeader_def encode_IndexFileHeader_def get8_def get16_def get32_def get64_def bytes_simps)

record IndexBucket =
  ib_hash :: u64
  ib_recordOffset :: u64

definition IndexBucket_default :: IndexBucket where
  "IndexBucket_default =
     \<lparr>ib_hash = 0,
      ib_recordOffset = 0\<rparr>"

definition encode_IndexBucket :: "IndexBucket \<Rightarrow> bytes" where
  "encode_IndexBucket h =
     put64 (ib_hash h) @
     put64 (ib_recordOffset h)"

definition decode_IndexBucket :: "bytes \<Rightarrow> IndexBucket" where
  "decode_IndexBucket bs =
     \<lparr>ib_hash = get64 0 bs,
      ib_recordOffset = get64 8 bs\<rparr>"

lemma length_encode_IndexBucket [simp]: "length (encode_IndexBucket h) = 16"
  by (simp add: encode_IndexBucket_def)

lemma decode_encode_IndexBucket [simp]: "decode_IndexBucket (encode_IndexBucket h @ rest) = h"
  by (simp add: decode_IndexBucket_def encode_IndexBucket_def get8_def get16_def get32_def get64_def bytes_simps)

record RowValueFileHeader =
  rf_magic :: bytes
  rf_version :: u32
  rf_headerSize :: u32
  rf_reserved :: u64

definition RowValueFileHeader_default :: RowValueFileHeader where
  "RowValueFileHeader_default =
     \<lparr>rf_magic = kRowValueFileMagic,
      rf_version = of_nat kStorageVersion,
      rf_headerSize = 24,
      rf_reserved = 0\<rparr>"

definition encode_RowValueFileHeader :: "RowValueFileHeader \<Rightarrow> bytes" where
  "encode_RowValueFileHeader h =
     rf_magic h @
     put32 (rf_version h) @
     put32 (rf_headerSize h) @
     put64 (rf_reserved h)"

definition decode_RowValueFileHeader :: "bytes \<Rightarrow> RowValueFileHeader" where
  "decode_RowValueFileHeader bs =
     \<lparr>rf_magic = field 0 8 bs,
      rf_version = get32 8 bs,
      rf_headerSize = get32 12 bs,
      rf_reserved = get64 16 bs\<rparr>"

lemma length_encode_RowValueFileHeader [simp]: "length (rf_magic h) = 8 \<Longrightarrow> length (encode_RowValueFileHeader h) = 24"
  by (simp add: encode_RowValueFileHeader_def)

lemma decode_encode_RowValueFileHeader [simp]: "length (rf_magic h) = 8 \<Longrightarrow> decode_RowValueFileHeader (encode_RowValueFileHeader h @ rest) = h"
  by (simp add: decode_RowValueFileHeader_def encode_RowValueFileHeader_def get8_def get16_def get32_def get64_def bytes_simps)

record RowIndexFileHeader =
  rih_magic :: bytes
  rih_version :: u32
  rih_headerSize :: u32
  rih_bucketCount :: u64
  rih_itemCount :: u64
  rih_nextSequence :: u64
  rih_shardCount :: u32
  rih_reserved32 :: u32
  rih_reserved :: bytes

definition RowIndexFileHeader_default :: RowIndexFileHeader where
  "RowIndexFileHeader_default =
     \<lparr>rih_magic = kRowIndexFileMagic,
      rih_version = of_nat kStorageVersion,
      rih_headerSize = 64,
      rih_bucketCount = 0,
      rih_itemCount = 0,
      rih_nextSequence = 1,
      rih_shardCount = 0,
      rih_reserved32 = 0,
      rih_reserved = replicate 16 0\<rparr>"

definition encode_RowIndexFileHeader :: "RowIndexFileHeader \<Rightarrow> bytes" where
  "encode_RowIndexFileHeader h =
     rih_magic h @
     put32 (rih_version h) @
     put32 (rih_headerSize h) @
     put64 (rih_bucketCount h) @
     put64 (rih_itemCount h) @
     put64 (rih_nextSequence h) @
     put32 (rih_shardCount h) @
     put32 (rih_reserved32 h) @
     rih_reserved h"

definition decode_RowIndexFileHeader :: "bytes \<Rightarrow> RowIndexFileHeader" where
  "decode_RowIndexFileHeader bs =
     \<lparr>rih_magic = field 0 8 bs,
      rih_version = get32 8 bs,
      rih_headerSize = get32 12 bs,
      rih_bucketCount = get64 16 bs,
      rih_itemCount = get64 24 bs,
      rih_nextSequence = get64 32 bs,
      rih_shardCount = get32 40 bs,
      rih_reserved32 = get32 44 bs,
      rih_reserved = field 48 16 bs\<rparr>"

lemma length_encode_RowIndexFileHeader [simp]: "length (rih_magic h) = 8 \<Longrightarrow> length (rih_reserved h) = 16 \<Longrightarrow> length (encode_RowIndexFileHeader h) = 64"
  by (simp add: encode_RowIndexFileHeader_def)

lemma decode_encode_RowIndexFileHeader [simp]: "length (rih_magic h) = 8 \<Longrightarrow> length (rih_reserved h) = 16 \<Longrightarrow> decode_RowIndexFileHeader (encode_RowIndexFileHeader h @ rest) = h"
  by (simp add: decode_RowIndexFileHeader_def encode_RowIndexFileHeader_def get8_def get16_def get32_def get64_def bytes_simps)

record RowIndexBucket =
  rib_state :: u32
  rib_shardId :: u32
  rib_columnHash :: u64
  rib_rowId :: u64
  rib_blockOffset :: u64
  rib_blockSize :: u64
  rib_sequence :: u64
  rib_reserved64 :: u64
  rib_reserved65 :: u64

definition RowIndexBucket_default :: RowIndexBucket where
  "RowIndexBucket_default =
     \<lparr>rib_state = kRowBucketEmpty,
      rib_shardId = 0,
      rib_columnHash = 0,
      rib_rowId = 0,
      rib_blockOffset = 0,
      rib_blockSize = 0,
      rib_sequence = 0,
      rib_reserved64 = 0,
      rib_reserved65 = 0\<rparr>"

definition encode_RowIndexBucket :: "RowIndexBucket \<Rightarrow> bytes" where
  "encode_RowIndexBucket h =
     put32 (rib_state h) @
     put32 (rib_shardId h) @
     put64 (rib_columnHash h) @
     put64 (rib_rowId h) @
     put64 (rib_blockOffset h) @
     put64 (rib_blockSize h) @
     put64 (rib_sequence h) @
     put64 (rib_reserved64 h) @
     put64 (rib_reserved65 h)"

definition decode_RowIndexBucket :: "bytes \<Rightarrow> RowIndexBucket" where
  "decode_RowIndexBucket bs =
     \<lparr>rib_state = get32 0 bs,
      rib_shardId = get32 4 bs,
      rib_columnHash = get64 8 bs,
      rib_rowId = get64 16 bs,
      rib_blockOffset = get64 24 bs,
      rib_blockSize = get64 32 bs,
      rib_sequence = get64 40 bs,
      rib_reserved64 = get64 48 bs,
      rib_reserved65 = get64 56 bs\<rparr>"

lemma length_encode_RowIndexBucket [simp]: "length (encode_RowIndexBucket h) = 64"
  by (simp add: encode_RowIndexBucket_def)

lemma decode_encode_RowIndexBucket [simp]: "decode_RowIndexBucket (encode_RowIndexBucket h @ rest) = h"
  by (simp add: decode_RowIndexBucket_def encode_RowIndexBucket_def get8_def get16_def get32_def get64_def bytes_simps)

record RowBlockHeader =
  rb_magic :: u32
  rb_version :: u16
  rb_headerSize :: u16
  rb_sequence :: u64
  rb_columnHash :: u64
  rb_rowId :: u64
  rb_columnSize :: u32
  rb_itemCount :: u32
  rb_bucketCount :: u32
  rb_reserved32 :: u32
  rb_keyBytesSize :: u64
  rb_valueBytesSize :: u64
  rb_blockSize :: u64

definition RowBlockHeader_default :: RowBlockHeader where
  "RowBlockHeader_default =
     \<lparr>rb_magic = kRowBlockMagic,
      rb_version = of_nat kStorageVersion,
      rb_headerSize = 72,
      rb_sequence = 0,
      rb_columnHash = 0,
      rb_rowId = 0,
      rb_columnSize = 0,
      rb_itemCount = 0,
      rb_bucketCount = 0,
      rb_reserved32 = 0,
      rb_keyBytesSize = 0,
      rb_valueBytesSize = 0,
      rb_blockSize = 0\<rparr>"

definition encode_RowBlockHeader :: "RowBlockHeader \<Rightarrow> bytes" where
  "encode_RowBlockHeader h =
     put32 (rb_magic h) @
     put16 (rb_version h) @
     put16 (rb_headerSize h) @
     put64 (rb_sequence h) @
     put64 (rb_columnHash h) @
     put64 (rb_rowId h) @
     put32 (rb_columnSize h) @
     put32 (rb_itemCount h) @
     put32 (rb_bucketCount h) @
     put32 (rb_reserved32 h) @
     put64 (rb_keyBytesSize h) @
     put64 (rb_valueBytesSize h) @
     put64 (rb_blockSize h)"

definition decode_RowBlockHeader :: "bytes \<Rightarrow> RowBlockHeader" where
  "decode_RowBlockHeader bs =
     \<lparr>rb_magic = get32 0 bs,
      rb_version = get16 4 bs,
      rb_headerSize = get16 6 bs,
      rb_sequence = get64 8 bs,
      rb_columnHash = get64 16 bs,
      rb_rowId = get64 24 bs,
      rb_columnSize = get32 32 bs,
      rb_itemCount = get32 36 bs,
      rb_bucketCount = get32 40 bs,
      rb_reserved32 = get32 44 bs,
      rb_keyBytesSize = get64 48 bs,
      rb_valueBytesSize = get64 56 bs,
      rb_blockSize = get64 64 bs\<rparr>"

lemma length_encode_RowBlockHeader [simp]: "length (encode_RowBlockHeader h) = 72"
  by (simp add: encode_RowBlockHeader_def)

lemma decode_encode_RowBlockHeader [simp]: "decode_RowBlockHeader (encode_RowBlockHeader h @ rest) = h"
  by (simp add: decode_RowBlockHeader_def encode_RowBlockHeader_def get8_def get16_def get32_def get64_def bytes_simps)

record RowKeyBucket =
  rk_state :: u8
  rk_reserved :: bytes
  rk_keyHash :: u64
  rk_keyOffset :: u64
  rk_keySize :: u64
  rk_valueOffset :: u64
  rk_valueSize :: u64

definition RowKeyBucket_default :: RowKeyBucket where
  "RowKeyBucket_default =
     \<lparr>rk_state = kBucketEmpty,
      rk_reserved = replicate 7 0,
      rk_keyHash = 0,
      rk_keyOffset = 0,
      rk_keySize = 0,
      rk_valueOffset = 0,
      rk_valueSize = 0\<rparr>"

definition encode_RowKeyBucket :: "RowKeyBucket \<Rightarrow> bytes" where
  "encode_RowKeyBucket h =
     put8 (rk_state h) @
     rk_reserved h @
     put64 (rk_keyHash h) @
     put64 (rk_keyOffset h) @
     put64 (rk_keySize h) @
     put64 (rk_valueOffset h) @
     put64 (rk_valueSize h)"

definition decode_RowKeyBucket :: "bytes \<Rightarrow> RowKeyBucket" where
  "decode_RowKeyBucket bs =
     \<lparr>rk_state = get8 0 bs,
      rk_reserved = field 1 7 bs,
      rk_keyHash = get64 8 bs,
      rk_keyOffset = get64 16 bs,
      rk_keySize = get64 24 bs,
      rk_valueOffset = get64 32 bs,
      rk_valueSize = get64 40 bs\<rparr>"

lemma length_encode_RowKeyBucket [simp]: "length (rk_reserved h) = 7 \<Longrightarrow> length (encode_RowKeyBucket h) = 48"
  by (simp add: encode_RowKeyBucket_def)

lemma decode_encode_RowKeyBucket [simp]: "length (rk_reserved h) = 7 \<Longrightarrow> decode_RowKeyBucket (encode_RowKeyBucket h @ rest) = h"
  by (simp add: decode_RowKeyBucket_def encode_RowKeyBucket_def get8_def get16_def get32_def get64_def bytes_simps)

text \<open>The array fields of the default headers have the lengths of their C++ arrays.\<close>

lemma default_array_lengths [simp]:
  "length (vf_magic ValueFileHeader_default) = 8"
  "length (ih_magic IndexFileHeader_default) = 8"
  "length (ih_reserved IndexFileHeader_default) = 24"
  "length (rf_magic RowValueFileHeader_default) = 8"
  "length (rih_magic RowIndexFileHeader_default) = 8"
  "length (rih_reserved RowIndexFileHeader_default) = 16"
  "length (rk_reserved RowKeyBucket_default) = 7"
  by (simp_all add: ValueFileHeader_default_def IndexFileHeader_default_def RowValueFileHeader_default_def RowIndexFileHeader_default_def RowKeyBucket_default_def magic_defs)

end
