(* ===== verification/Status_Codes.thy ===== *)
theory Status_Codes
  imports Prelude
begin

text \<open>
  The status values of \<open>src/lumodb/status.h\<close>: an enumeration of codes and a record of a code
  and a message.  An operation that delivers a value returns \<open>Status + 'a\<close> (\<open>Inl\<close> is every
  return of a non-OK status, \<open>Inr\<close> the value stored through the out-parameter); an operation
  that changes state returns the status together with the new state, since the C++ code keeps
  the changes it made before an early return.
\<close>

datatype StatusCode = kOk | kNotFound | kInvalidArgument | kIoError | kCorruption | kNotOpen

record Status =
  status_code :: StatusCode
  status_message :: string

definition Ok :: Status where
  "Ok = \<lparr>status_code = kOk, status_message = []\<rparr>"

definition NotFound :: "string \<Rightarrow> Status" where
  "NotFound message = \<lparr>status_code = kNotFound, status_message = message\<rparr>"

definition InvalidArgument :: "string \<Rightarrow> Status" where
  "InvalidArgument message = \<lparr>status_code = kInvalidArgument, status_message = message\<rparr>"

definition IoError :: "string \<Rightarrow> Status" where
  "IoError message = \<lparr>status_code = kIoError, status_message = message\<rparr>"

definition Corruption :: "string \<Rightarrow> Status" where
  "Corruption message = \<lparr>status_code = kCorruption, status_message = message\<rparr>"

definition NotOpen :: "string \<Rightarrow> Status" where
  "NotOpen message = \<lparr>status_code = kNotOpen, status_message = message\<rparr>"

definition IsOk :: "Status \<Rightarrow> bool" where
  "IsOk s = (status_code s = kOk)"

lemma IsOk_simps [simp]:
  "IsOk Ok"
  "\<not> IsOk (NotFound m)"
  "\<not> IsOk (InvalidArgument m)"
  "\<not> IsOk (IoError m)"
  "\<not> IsOk (Corruption m)"
  "\<not> IsOk (NotOpen m)"
  by (simp_all add: IsOk_def Ok_def NotFound_def InvalidArgument_def IoError_def Corruption_def
      NotOpen_def)

lemma status_code_simps [simp]:
  "status_code Ok = kOk"
  "status_code (NotFound m) = kNotFound"
  "status_code (InvalidArgument m) = kInvalidArgument"
  "status_code (IoError m) = kIoError"
  "status_code (Corruption m) = kCorruption"
  "status_code (NotOpen m) = kNotOpen"
  by (simp_all add: Ok_def NotFound_def InvalidArgument_def IoError_def Corruption_def NotOpen_def)

lemma not_ok_distinct [simp]:
  "NotFound m \<noteq> Ok" "InvalidArgument m \<noteq> Ok" "IoError m \<noteq> Ok" "Corruption m \<noteq> Ok" "NotOpen m \<noteq> Ok"
  "Ok \<noteq> NotFound m" "Ok \<noteq> InvalidArgument m" "Ok \<noteq> IoError m" "Ok \<noteq> Corruption m" "Ok \<noteq> NotOpen m"
  by (metis IsOk_simps)+

end
