(* ===== verification/File_IO.thy ===== *)
theory File_IO
  imports Status_Codes
begin

text \<open>
  The file layer \<open>src/lumodb/file.cpp\<close>: the loops around \<open>pread\<close>, \<open>pwrite\<close> and \<open>pwritev\<close> that
  retry interrupted and short transfers, and the thin wrappers around the other system calls.

  The operating system is a parameter, the record \<open>os\<close>.  For each transfer it supplies the list
  of replies the successive system calls give (an interruption, an error, or a transfer of at
  most \<open>k\<close> bytes); when the list is used up every further call transfers all it can, so the
  model covers every execution in which the disturbances are finite in number.  The remaining
  calls carry an optional error text.  A file is its content, a file descriptor is the path it
  was opened on (\<open>None\<close> is the invalid descriptor -1).
\<close>

datatype sys_reply = Complete | Partial nat | Interrupted | Failed string

datatype 'a sys_result = Moved 'a | Eintr | Errno string

record fs =
  files :: "string \<Rightarrow> bytes option"
  dirs :: "string \<Rightarrow> bool"

record os =
  pread_replies :: "string \<Rightarrow> nat \<Rightarrow> u64 \<Rightarrow> sys_reply list"
  pwrite_replies :: "string \<Rightarrow> nat \<Rightarrow> u64 \<Rightarrow> sys_reply list"
  pwritev_replies :: "string \<Rightarrow> nat \<Rightarrow> u64 \<Rightarrow> sys_reply list"
  iov_max :: int
  open_error :: "string \<Rightarrow> string option"
  fstat_error :: "string \<Rightarrow> string option"
  ftruncate_error :: "string \<Rightarrow> u64 \<Rightarrow> string option"
  fsync_error :: "string \<Rightarrow> string option"
  mmap_error :: "string \<Rightarrow> u64 \<Rightarrow> string option"
  msync_error :: "string \<Rightarrow> string option"
  mkdir_error :: "string \<Rightarrow> string option"
  rename_error :: "string \<Rightarrow> string option"
  remove_error :: "string \<Rightarrow> string option"

definition ErrnoMessage :: "string \<Rightarrow> string \<Rightarrow> string" where
  "ErrnoMessage operation err = operation @ '': '' @ err"

subsection \<open>Byte-level effect of the system calls\<close>

text \<open>\<open>static_cast<off_t>\<close> of an offset from 2 to the 63 on is negative, which the calls reject.\<close>

definition off_negative :: "u64 \<Rightarrow> bool" where
  "off_negative off \<longleftrightarrow> 2 ^ 63 \<le> unat off"

definition overwrite :: "bytes \<Rightarrow> nat \<Rightarrow> bytes \<Rightarrow> bytes" where
  "overwrite content off bs =
     (if bs = [] then content
      else take off (content @ replicate (off - length content) 0) @ bs @ drop (off + length bs) content)"

definition next_reply :: "sys_reply list \<Rightarrow> sys_reply" where
  "next_reply replies = (case replies of [] \<Rightarrow> Complete | r # _ \<Rightarrow> r)"

definition pread :: "sys_reply \<Rightarrow> bytes \<Rightarrow> nat \<Rightarrow> u64 \<Rightarrow> bytes sys_result" where
  "pread reply content n off =
     (case reply of
        Interrupted \<Rightarrow> Eintr
      | Failed e \<Rightarrow> Errno e
      | Complete \<Rightarrow>
          if off_negative off then Errno ''Invalid argument''
          else Moved (take n (drop (unat off) content))
      | Partial k \<Rightarrow>
          if off_negative off then Errno ''Invalid argument''
          else Moved (take (max 1 (min k n)) (drop (unat off) content)))"

text \<open>A write that would end beyond the largest file offset is rejected.\<close>

definition pwrite :: "sys_reply \<Rightarrow> bytes \<Rightarrow> bytes \<Rightarrow> u64 \<Rightarrow> (nat \<times> bytes) sys_result" where
  "pwrite reply content data off =
     (case reply of
        Interrupted \<Rightarrow> Eintr
      | Failed e \<Rightarrow> Errno e
      | Complete \<Rightarrow>
          if off_negative off then Errno ''Invalid argument''
          else if 2 ^ 63 \<le> unat off + length data then Errno ''File too large''
          else Moved (length data, overwrite content (unat off) data)
      | Partial k \<Rightarrow>
          if off_negative off then Errno ''Invalid argument''
          else if 2 ^ 63 \<le> unat off + length data then Errno ''File too large''
          else Moved (min k (length data), overwrite content (unat off) (take k data)))"

definition pwritev :: "sys_reply \<Rightarrow> bytes \<Rightarrow> bytes list \<Rightarrow> u64 \<Rightarrow> (nat \<times> bytes) sys_result" where
  "pwritev reply content vectors off = pwrite reply content (concat vectors) off"

lemma next_reply_interrupted: "next_reply replies = Interrupted \<Longrightarrow> length (tl replies) < length replies"
  by (cases replies) (simp_all add: next_reply_def)

lemma next_reply_partial: "next_reply replies = Partial k \<Longrightarrow> length (tl replies) < length replies"
  by (cases replies) (simp_all add: next_reply_def)

lemma length_tl_le: "length (tl replies) \<le> length replies"
  by simp

lemma pread_Eintr: "pread r content n off = Eintr \<longleftrightarrow> r = Interrupted"
  by (simp add: pread_def split: sys_reply.splits)

lemma pread_Moved:
  assumes "pread r content n off = Moved bs"
  shows "\<exists>m \<le> max 1 n. (0 < n \<longrightarrow> 0 < m) \<and> bs = take m (drop (unat off) content) \<and> \<not> off_negative off \<and>
      (r = Complete \<longrightarrow> m = n)"
proof (cases r)
  case Complete
  with assms show ?thesis by (auto simp: pread_def split: if_splits)
next
  case (Partial k)
  with assms have "bs = take (max 1 (min k n)) (drop (unat off) content)" and "\<not> off_negative off"
    by (simp_all add: pread_def split: if_splits)
  with Partial show ?thesis by (intro exI [of _ "max 1 (min k n)"]) auto
qed (use assms in \<open>simp_all add: pread_def\<close>)

lemma take_min_length: "take (min k (length xs)) xs = take k xs"
  by (simp add: min_def)

lemma pwrite_Eintr: "pwrite r content data off = Eintr \<longleftrightarrow> r = Interrupted"
  by (simp add: pwrite_def split: sys_reply.splits)

lemma pwrite_Moved:
  "pwrite r content data off = Moved (n, content') \<Longrightarrow>
    n \<le> length data \<and> content' = overwrite content (unat off) (take n data) \<and>
    unat off + length data < 2 ^ 63 \<and> (r = Complete \<and> n = length data \<or> (\<exists>k. r = Partial k \<and> n = min k (length data)))"
  by (auto simp: pwrite_def take_min_length split: sys_reply.splits if_splits)

subsection \<open>The transfer loops\<close>

function pread_loop :: "sys_reply list \<Rightarrow> bytes \<Rightarrow> nat \<Rightarrow> u64 \<Rightarrow> Status + bytes" where
  "pread_loop replies content remaining currentOffset =
     (if remaining = 0 then Inr []
      else case pread (next_reply replies) content remaining currentOffset of
        Eintr \<Rightarrow> pread_loop (tl replies) content remaining currentOffset
      | Errno e \<Rightarrow> Inl (IoError (ErrnoMessage ''pread'' e))
      | Moved bs \<Rightarrow>
          if bs = [] then Inl (Corruption ''unexpected end of file'')
          else map_sum id (\<lambda>rest. bs @ rest)
            (pread_loop (tl replies) content (remaining - length bs)
               (currentOffset + of_nat (length bs))))"
  by pat_completeness auto
termination
proof (relation "measure (\<lambda>(replies, _, remaining, _). length replies + remaining)", goal_cases)
  case 1
  show ?case by simp
next
  case (2 replies content remaining off bs)
  then have "length bs \<le> remaining"
    by (auto dest!: pread_Moved)
  moreover have "0 < length bs" using 2 by simp
  ultimately show ?case using length_tl_le [of replies] by (simp del: length_tl length_greater_0_conv)
next
  case (3 replies content remaining off)
  then show ?case by (simp add: pread_Eintr next_reply_interrupted del: length_tl)
qed

function pwrite_loop :: "sys_reply list \<Rightarrow> bytes \<Rightarrow> bytes \<Rightarrow> u64 \<Rightarrow> Status \<times> bytes" where
  "pwrite_loop replies content data currentOffset =
     (if data = [] then (Ok, content)
      else case pwrite (next_reply replies) content data currentOffset of
        Eintr \<Rightarrow> pwrite_loop (tl replies) content data currentOffset
      | Errno e \<Rightarrow> (IoError (ErrnoMessage ''pwrite'' e), content)
      | Moved (n, content') \<Rightarrow>
          pwrite_loop (tl replies) content' (drop n data) (currentOffset + of_nat n))"
  by pat_completeness auto
termination
proof (relation "measure (\<lambda>(replies, _, data, _). length replies + length data)", goal_cases)
  case 1
  show ?case by simp
next
  case (2 replies content data off r n content')
  then have "n \<le> length data \<and> (n = length data \<or> (\<exists>k. next_reply replies = Partial k))"
    by (auto dest!: pwrite_Moved)
  moreover have "1 \<le> length data" using 2(1) by (cases data) simp_all
  ultimately show ?case
    using length_tl_le [of replies] next_reply_partial [of replies]
    by (auto simp del: length_tl)
next
  case (3 replies content data off)
  then show ?case by (simp add: pwrite_Eintr next_reply_interrupted del: length_tl)
qed

text \<open>Moving the vector cursor forward by the bytes a \<open>pwritev\<close> consumed.\<close>

fun advance_vectors :: "nat \<Rightarrow> bytes list \<Rightarrow> bytes list" where
  "advance_vectors consumed [] = []"
| "advance_vectors consumed (v # vs) =
     (if consumed = 0 then v # vs
      else if consumed < length v then drop consumed v # vs
      else advance_vectors (consumed - length v) vs)"

lemma concat_advance: "concat (advance_vectors n vs) = drop n (concat vs)"
  by (induction n vs rule: advance_vectors.induct) auto

function pwritev_loop ::
  "sys_reply list \<Rightarrow> nat \<Rightarrow> bytes \<Rightarrow> bytes list \<Rightarrow> u64 \<Rightarrow> Status \<times> bytes" where
  "pwritev_loop replies maxVectors content vectors currentOffset =
     (if vectors = [] then (Ok, content)
      else case pwritev (next_reply replies) content (take maxVectors vectors) currentOffset of
        Eintr \<Rightarrow> pwritev_loop (tl replies) maxVectors content vectors currentOffset
      | Errno e \<Rightarrow> (IoError (ErrnoMessage ''pwritev'' e), content)
      | Moved (n, content') \<Rightarrow>
          if n = 0 then (IoError ''pwritev wrote zero bytes'', content')
          else pwritev_loop (tl replies) maxVectors content' (advance_vectors n vectors)
            (currentOffset + of_nat n))"
  by pat_completeness auto
termination
proof (relation "measure (\<lambda>(replies, _, _, vectors, _). length replies + length (concat vectors))",
    goal_cases)
  case 1
  show ?case by simp
next
  case (2 replies m content vectors off r n content')
  then have "n \<le> length (concat (take m vectors))" and pos: "0 < n"
    by (auto simp: pwritev_def dest!: pwrite_Moved)
  moreover have "length (concat (take m vectors)) \<le> length (concat vectors)"
    by (metis append_take_drop_id concat_append length_append le_add1)
  ultimately show ?case
    using length_tl_le [of replies] by (simp add: concat_advance)
next
  case (3 replies m content vectors off)
  then show ?case by (simp add: pwritev_def pwrite_Eintr next_reply_interrupted del: length_tl)
qed

declare pread_loop.simps [simp del] pwrite_loop.simps [simp del] pwritev_loop.simps [simp del]

subsection \<open>Overwriting a range of a file\<close>

lemma overwrite_Nil [simp]: "overwrite c off [] = c"
  by (simp add: overwrite_def)

lemma length_pad [simp]: "length (take off (c @ replicate (off - length c) x)) = off"
  by (simp add: min_def)

lemma overwrite_overwrite:
  "overwrite (overwrite c off a) (off + length a) b = overwrite c off (a @ b)"
proof (cases "a = [] \<or> b = []")
  case True
  then show ?thesis by auto
next
  case False
  define p where "p = take off (c @ replicate (off - length c) 0)"
  have p: "length p = off" by (simp add: p_def)
  have "overwrite c off a = p @ a @ drop (off + length a) c"
    using False by (simp add: overwrite_def p_def)
  then have "overwrite (overwrite c off a) (off + length a) b =
      p @ a @ b @ drop (off + length a + length b) c"
    using False p by (simp add: overwrite_def ac_simps)
  then show ?thesis
    using False by (simp add: overwrite_def p_def add.assoc)
qed

lemma length_overwrite:
  "bs \<noteq> [] \<Longrightarrow> length (overwrite c off bs) = max (length c) (off + length bs)"
  by (auto simp: overwrite_def max_def min_def)

lemma length_overwrite_ge: "length c \<le> length (overwrite c off bs)"
  by (cases "bs = []") (simp_all add: length_overwrite)

lemma overwrite_end [simp]: "overwrite c (length c) bs = c @ bs"
  by (simp add: overwrite_def)

lemma take_overwrite:
  assumes "n \<le> off" and "n \<le> length c"
  shows "take n (overwrite c off bs) = take n c"
  using assms by (simp add: overwrite_def min_def)

lemma overwrite_read:
  "take (length bs) (drop off (overwrite c off bs)) = bs"
  by (cases "bs = []") (simp_all add: overwrite_def)

lemma overwrite_read_before:
  assumes "o1 + n \<le> off" and "o1 + n \<le> length c"
  shows "take n (drop o1 (overwrite c off bs)) = take n (drop o1 c)"
proof -
  have "take n (drop o1 (overwrite c off bs)) = drop o1 (take (o1 + n) (overwrite c off bs))"
    by (simp add: drop_take)
  also have "take (o1 + n) (overwrite c off bs) = take (o1 + n) c"
    by (rule take_overwrite) (use assms in simp_all)
  finally show ?thesis by (simp add: drop_take)
qed

subsection \<open>Correctness of the transfer loops\<close>

text \<open>Replies that neither fail nor stall; they may interrupt and cut transfers short.\<close>

fun benign_reply :: "sys_reply \<Rightarrow> bool" where
  "benign_reply Complete = True"
| "benign_reply (Partial k) = (0 < k)"
| "benign_reply Interrupted = True"
| "benign_reply (Failed e) = False"

lemma benign_next: "list_all benign_reply rs \<Longrightarrow> benign_reply (next_reply rs)"
  by (cases rs) (simp_all add: next_reply_def)

lemma benign_tl: "list_all benign_reply rs \<Longrightarrow> list_all benign_reply (tl rs)"
  by (cases rs) simp_all

lemma pread_benign_cases:
  assumes "benign_reply r"
  shows "pread r c n off = Eintr \<or> off_negative off \<and> pread r c n off = Errno ''Invalid argument'' \<or>
    (\<exists>bs. pread r c n off = Moved bs)"
  using assms by (cases r) (auto simp: pread_def)

lemma take_drop_split:
  assumes "bs = take m (drop o1 xs)" and "length bs \<le> n"
  shows "bs @ take (n - length bs) (drop (o1 + length bs) xs) = take n (drop o1 xs)"
proof -
  have "bs = take (length bs) (drop o1 xs)"
    using assms(1) by (metis length_take take_take min.idem min.commute take_all_iff nle_le)
  then have "bs @ take (n - length bs) (drop (length bs) (drop o1 xs)) = take n (drop o1 xs)"
    using assms(2) by (metis le_add_diff_inverse take_add)
  then show ?thesis by (simp add: add.commute)
qed

lemma pread_loop_sound:
  assumes "length c < 2 ^ 63" and "pread_loop rs c n off = Inr bs"
  shows "bs = take n (drop (unat off) c) \<and> length bs = n"
  using assms
proof (induction rs c n off arbitrary: bs rule: pread_loop.induct)
  case (1 rs c n off)
  show ?case
  proof (cases "n = 0")
    case True
    with 1(4) show ?thesis by (simp add: pread_loop.simps [of rs c 0 off])
  next
    case False
    show ?thesis
    proof (cases "pread (next_reply rs) c n off")
      case (Moved b)
      from pread_Moved [OF Moved] obtain m where m: "m \<le> max 1 n" "b = take m (drop (unat off) c)"
        by blast
      have b: "b \<noteq> []"
        using 1(4) False Moved by (auto simp: pread_loop.simps [of rs c n off])
      obtain rest where rest: "pread_loop (tl rs) c (n - length b) (off + of_nat (length b)) = Inr rest"
        and bs: "bs = b @ rest"
        using 1(4) False Moved b
        by (cases "pread_loop (tl rs) c (n - length b) (off + of_nat (length b))")
          (auto simp: pread_loop.simps [of rs c n off])
      have len: "unat off + length b \<le> length c" using m(2) b by (auto simp: min_def split: if_splits)
      then have off: "unat (off + of_nat (length b)) = unat off + length b"
        using "1.prems"(1) by (intro unat_add_of_nat64) simp
      have ih: "rest = take (n - length b) (drop (unat (off + of_nat (length b))) c)"
          "length rest = n - length b"
        using "1.IH"(1) [OF False Moved b "1.prems"(1) rest] by blast+
      have le: "length b \<le> n" using m False by (simp add: min_def split: if_splits)
      have "bs = take n (drop (unat off) c)"
        using take_drop_split [OF m(2) le] by (simp only: bs ih(1) off)
      moreover have "length bs = n" using le by (simp only: bs length_append ih(2))
      ultimately show ?thesis by simp
    next
      case Eintr
      with 1(4) False have "pread_loop (tl rs) c n off = Inr bs"
        by (simp add: pread_loop.simps [of rs c n off])
      with "1.IH"(2) [OF False Eintr "1.prems"(1)] show ?thesis by blast
    next
      case (Errno e)
      with 1(4) False show ?thesis by (simp add: pread_loop.simps [of rs c n off])
    qed
  qed
qed

text \<open>What a read delivers when the system calls do not fail.\<close>

definition read_result :: "bytes \<Rightarrow> nat \<Rightarrow> u64 \<Rightarrow> Status + bytes" where
  "read_result content n off =
     (if n = 0 then Inr []
      else if off_negative off then Inl (IoError (ErrnoMessage ''pread'' ''Invalid argument''))
      else if unat off + n \<le> length content then Inr (take n (drop (unat off) content))
      else Inl (Corruption ''unexpected end of file''))"

lemma pread_loop_benign:
  assumes "length c < 2 ^ 63" and "list_all benign_reply rs"
  shows "pread_loop rs c n off = read_result c n off"
  using assms
proof (induction rs c n off rule: pread_loop.induct)
  case (1 rs c n off)
  show ?case
  proof (cases "n = 0")
    case True
    then show ?thesis by (simp add: pread_loop.simps [of rs c 0 off] read_result_def)
  next
    case False
    note benign_tl = benign_tl [OF "1.prems"(2)]
    consider (intr) "pread (next_reply rs) c n off = Eintr"
      | (neg) "off_negative off" "pread (next_reply rs) c n off = Errno ''Invalid argument''"
      | (moved) bs where "pread (next_reply rs) c n off = Moved bs"
      using pread_benign_cases [OF benign_next [OF "1.prems"(2)], of c n off] by blast
    then show ?thesis
    proof cases
      case intr
      with "1.IH"(2) [OF False intr "1.prems"(1) benign_tl] False show ?thesis
        by (simp add: pread_loop.simps [of rs c n off])
    next
      case neg
      with False show ?thesis by (simp add: pread_loop.simps [of rs c n off] read_result_def)
    next
      case (moved bs)
      from pread_Moved [OF moved] obtain m where m: "m \<le> max 1 n" "0 < m"
          "bs = take m (drop (unat off) c)" "\<not> off_negative off"
        using False by auto
      show ?thesis
      proof (cases "bs = []")
        case True
        with m have "length c \<le> unat off" by simp
        with False True moved m(4) show ?thesis
          by (simp add: pread_loop.simps [of rs c n off] read_result_def)
      next
        case nonempty: False
        have len: "unat off + length bs \<le> length c"
          using m(3) nonempty by (auto simp: min_def split: if_splits)
        then have off: "unat (off + of_nat (length bs)) = unat off + length bs"
          using "1.prems"(1) by (intro unat_add_of_nat64) simp
        have neg: "\<not> off_negative (off + of_nat (length bs))"
          using len "1.prems"(1) by (simp add: off_negative_def off)
        have le: "length bs \<le> n" using m(1,3) False by (simp add: min_def split: if_splits)
        have "pread_loop rs c n off =
            map_sum id (\<lambda>rest. bs @ rest) (read_result c (n - length bs) (off + of_nat (length bs)))"
          using "1.IH"(1) [OF False moved nonempty "1.prems"(1) benign_tl] False moved nonempty
          by (simp add: pread_loop.simps [of rs c n off])
        also have "\<dots> = read_result c n off"
          using le len m(4) neg False nonempty take_drop_split [OF m(3) le]
          by (auto simp: read_result_def off m(3) [symmetric])
        finally show ?thesis .
      qed
    qed
  qed
qed

text \<open>A write loop leaves a prefix of its data in the file; all of it when it returns OK.\<close>

definition wrote_prefix :: "bytes \<Rightarrow> nat \<Rightarrow> bytes \<Rightarrow> Status \<Rightarrow> bytes \<Rightarrow> bool" where
  "wrote_prefix content off data status content' \<longleftrightarrow>
     (\<exists>k \<le> length data. content' = overwrite content off (take k data) \<and> (IsOk status \<longrightarrow> k = length data))"

lemma wrote_prefix_step:
  assumes "wrote_prefix (overwrite c off (take n data)) (off + n) (drop n data) st c'"
    and "n \<le> length data"
  shows "wrote_prefix c off data st c'"
proof -
  obtain k where k: "k \<le> length data - n" "c' = overwrite (overwrite c off (take n data)) (off + n) (take k (drop n data))"
      "IsOk st \<longrightarrow> k = length data - n"
    using assms(1) unfolding wrote_prefix_def by auto
  have "c' = overwrite c off (take n data @ take k (drop n data))"
    using overwrite_overwrite [of c off "take n data" "take k (drop n data)"] k(2) assms(2) by simp
  also have "take n data @ take k (drop n data) = take (n + k) data"
    by (simp add: take_add)
  finally show ?thesis
    unfolding wrote_prefix_def using k assms(2) by (intro exI [of _ "n + k"]) auto
qed

lemma wrote_prefix_ok: "wrote_prefix c off data st c' \<Longrightarrow> IsOk st \<Longrightarrow> c' = overwrite c off data"
  by (auto simp: wrote_prefix_def)

lemma wrote_prefix_none [intro]: "\<not> IsOk st \<Longrightarrow> wrote_prefix c off data st c"
  unfolding wrote_prefix_def by (intro exI [of _ 0]) simp

lemma pwrite_loop_prefix:
  "wrote_prefix c (unat off) data (fst (pwrite_loop rs c data off)) (snd (pwrite_loop rs c data off))"
proof (induction rs c data off rule: pwrite_loop.induct)
  case (1 rs c data off)
  show ?case
  proof (cases "data = []")
    case True
    then show ?thesis by (simp add: pwrite_loop.simps [of rs c "[]" off] wrote_prefix_def)
  next
    case False
    show ?thesis
    proof (cases "pwrite (next_reply rs) c data off")
      case (Moved p)
      obtain n c' where p: "p = (n, c')" by (cases p)
      from pwrite_Moved [OF Moved [unfolded p]] have n: "n \<le> length data"
          "c' = overwrite c (unat off) (take n data)" "unat off + length data < 2 ^ 63"
        by blast+
      have off: "unat (off + of_nat n) = unat off + n"
        using n(1,3) by (intro unat_add_of_nat64) simp
      show ?thesis
        using wrote_prefix_step [OF "1.IH"(1) [OF False Moved p [symmetric], unfolded off n(2)] n(1)] False
        by (simp add: pwrite_loop.simps [of rs c data off] Moved p n(2))
    next
      case Eintr
      with "1.IH"(2) [OF False Eintr] False show ?thesis
        by (simp add: pwrite_loop.simps [of rs c data off])
    next
      case (Errno e)
      with False show ?thesis
        by (simp add: pwrite_loop.simps [of rs c data off] wrote_prefix_none)
    qed
  qed
qed

lemma pwrite_benign_cases:
  assumes "benign_reply r" and "unat off + length data < 2 ^ 63"
  shows "pwrite r c data off = Eintr \<or> (\<exists>n c'. pwrite r c data off = Moved (n, c') \<and> (data \<noteq> [] \<longrightarrow> 0 < n))"
  using assms by (cases r) (simp_all add: pwrite_def off_negative_def)

lemma pwrite_loop_benign_ok:
  assumes "list_all benign_reply rs" and "unat off + length data < 2 ^ 63"
  shows "fst (pwrite_loop rs c data off) = Ok"
  using assms
proof (induction rs c data off rule: pwrite_loop.induct)
  case (1 rs c data off)
  show ?case
  proof (cases "data = []")
    case True
    then show ?thesis by (simp add: pwrite_loop.simps [of rs c "[]" off])
  next
    case False
    note benign_tl = benign_tl [OF "1.prems"(1)]
    from pwrite_benign_cases [OF benign_next [OF "1.prems"(1)] "1.prems"(2), of c]
    show ?thesis
    proof (elim disjE exE conjE)
      assume intr: "pwrite (next_reply rs) c data off = Eintr"
      with "1.IH"(2) [OF False intr benign_tl "1.prems"(2)] False show ?thesis
        by (simp add: pwrite_loop.simps [of rs c data off])
    next
      fix n c'
      assume moved: "pwrite (next_reply rs) c data off = Moved (n, c')"
      from pwrite_Moved [OF moved] have n: "n \<le> length data" by blast
      have off: "unat (off + of_nat n) = unat off + n"
        using n "1.prems"(2) by (intro unat_add_of_nat64) simp
      have "fst (pwrite_loop (tl rs) c' (drop n data) (off + of_nat n)) = Ok"
        using "1.IH"(1) [OF False moved refl benign_tl] n "1.prems"(2) by (simp add: off)
      with False moved show ?thesis by (simp add: pwrite_loop.simps [of rs c data off])
    qed
  qed
qed

lemma pwrite_loop_benign:
  assumes "list_all benign_reply rs" and "unat off + length data < 2 ^ 63"
  shows "pwrite_loop rs c data off = (Ok, overwrite c (unat off) data)"
proof (rule prod_eqI)
  show "fst (pwrite_loop rs c data off) = fst (Ok, overwrite c (unat off) data)"
    using pwrite_loop_benign_ok [OF assms] by simp
  show "snd (pwrite_loop rs c data off) = snd (Ok, overwrite c (unat off) data)"
    using pwrite_loop_prefix [of c off data rs] pwrite_loop_benign_ok [OF assms, of c]
    by (auto simp: wrote_prefix_def)
qed

lemma concat_take_le: "length (concat (take m vs)) \<le> length (concat vs)"
  by (metis append_take_drop_id concat_append length_append le_add1)

lemma take_concat_take: "n \<le> length (concat (take m vs)) \<Longrightarrow> take n (concat (take m vs)) = take n (concat vs)"
  by (metis append_take_drop_id concat_append append_Nil2 diff_is_0_eq' take0 take_append)

lemma pwritev_loop_prefix:
  "wrote_prefix c (unat off) (concat vs) (fst (pwritev_loop rs m c vs off)) (snd (pwritev_loop rs m c vs off))"
proof (induction rs m c vs off rule: pwritev_loop.induct)
  case (1 rs m c vs off)
  show ?case
  proof (cases "vs = []")
    case True
    then show ?thesis by (simp add: pwritev_loop.simps [of rs m c "[]" off] wrote_prefix_def)
  next
    case False
    show ?thesis
    proof (cases "pwritev (next_reply rs) c (take m vs) off")
      case (Moved p)
      obtain n c' where p: "p = (n, c')" by (cases p)
      from pwrite_Moved [OF Moved [unfolded p pwritev_def]]
      have n: "n \<le> length (concat (take m vs))"
          "c' = overwrite c (unat off) (take n (concat (take m vs)))"
          "unat off + length (concat (take m vs)) < 2 ^ 63"
        by blast+
      have c': "c' = overwrite c (unat off) (take n (concat vs))"
        using n(1,2) take_concat_take by metis
      have le: "n \<le> length (concat vs)" using n(1) concat_take_le le_trans by blast
      have off: "unat (off + of_nat n) = unat off + n"
        using n(1,3) by (intro unat_add_of_nat64) simp
      show ?thesis
      proof (cases "n = 0")
        case True
        with False Moved p c' show ?thesis
          by (simp add: pwritev_loop.simps [of rs m c vs off] wrote_prefix_none)
      next
        case n0: False
        show ?thesis
          using wrote_prefix_step [OF "1.IH"(1) [OF False Moved p [symmetric] n0, unfolded off c' concat_advance] le]
            False n0
          by (simp add: pwritev_loop.simps [of rs m c vs off] Moved p c')
      qed
    next
      case Eintr
      with "1.IH"(2) [OF False Eintr] False show ?thesis
        by (simp add: pwritev_loop.simps [of rs m c vs off])
    next
      case (Errno e)
      with False show ?thesis
        by (simp add: pwritev_loop.simps [of rs m c vs off] wrote_prefix_none)
    qed
  qed
qed

lemma advance_nonempty: "\<forall>v \<in> set vs. v \<noteq> [] \<Longrightarrow> \<forall>v \<in> set (advance_vectors n vs). v \<noteq> []"
  by (induction n vs rule: advance_vectors.induct) auto

lemma pwritev_loop_benign_ok:
  assumes "list_all benign_reply rs" and "unat off + length (concat vs) < 2 ^ 63"
    and "\<forall>v \<in> set vs. v \<noteq> []" and "0 < m"
  shows "fst (pwritev_loop rs m c vs off) = Ok"
  using assms
proof (induction rs m c vs off rule: pwritev_loop.induct)
  case (1 rs m c vs off)
  show ?case
  proof (cases "vs = []")
    case True
    then show ?thesis by (simp add: pwritev_loop.simps [of rs m c "[]" off])
  next
    case False
    note benign_tl = benign_tl [OF "1.prems"(1)]
    have batch: "concat (take m vs) \<noteq> []"
      using False "1.prems"(3,4) by (cases vs; cases m) auto
    have bound: "unat off + length (concat (take m vs)) < 2 ^ 63"
      using "1.prems"(2) concat_take_le [of m vs] by linarith
    from pwrite_benign_cases [OF benign_next [OF "1.prems"(1)] bound, of c, folded pwritev_def]
    show ?thesis
    proof (elim disjE exE conjE)
      assume intr: "pwritev (next_reply rs) c (take m vs) off = Eintr"
      with "1.IH"(2) [OF False intr benign_tl "1.prems"(2-4)] False show ?thesis
        by (simp add: pwritev_loop.simps [of rs m c vs off])
    next
      fix n c'
      assume moved: "pwritev (next_reply rs) c (take m vs) off = Moved (n, c')"
        and pos: "concat (take m vs) \<noteq> [] \<longrightarrow> 0 < n"
      from pwrite_Moved [OF moved [unfolded pwritev_def]] have n: "n \<le> length (concat vs)"
        using concat_take_le le_trans by blast
      have n0: "n \<noteq> 0" using pos batch by blast
      have off: "unat (off + of_nat n) = unat off + n"
        using n "1.prems"(2) by (intro unat_add_of_nat64) simp
      have "fst (pwritev_loop (tl rs) m c' (advance_vectors n vs) (off + of_nat n)) = Ok"
        using "1.IH"(1) [OF False moved refl n0 benign_tl _ advance_nonempty [OF "1.prems"(3)] "1.prems"(4)]
          n "1.prems"(2) by (simp add: off concat_advance)
      with False moved n0 show ?thesis by (simp add: pwritev_loop.simps [of rs m c vs off])
    qed
  qed
qed

subsection \<open>The functions of the file layer\<close>

definition file_content :: "fs \<Rightarrow> string \<Rightarrow> bytes" where
  "file_content fs path = (case files fs path of None \<Rightarrow> [] | Some content \<Rightarrow> content)"

definition set_file :: "fs \<Rightarrow> string \<Rightarrow> bytes \<Rightarrow> fs" where
  "set_file fs path content = fs\<lparr>files := (files fs)(path \<mapsto> content)\<rparr>"

definition ReadAllAt :: "os \<Rightarrow> fs \<Rightarrow> string option \<Rightarrow> nat \<Rightarrow> u64 \<Rightarrow> Status + bytes" where
  "ReadAllAt os fs fd n off =
     (case fd of
        None \<Rightarrow> if n = 0 then Inr [] else Inl (IoError (ErrnoMessage ''pread'' ''Bad file descriptor''))
      | Some path \<Rightarrow> pread_loop (pread_replies os path n off) (file_content fs path) n off)"

definition WriteAllAt :: "os \<Rightarrow> fs \<Rightarrow> string option \<Rightarrow> bytes \<Rightarrow> u64 \<Rightarrow> Status \<times> fs" where
  "WriteAllAt os fs fd data off =
     (case fd of
        None \<Rightarrow>
          (if data = [] then Ok else IoError (ErrnoMessage ''pwrite'' ''Bad file descriptor''), fs)
      | Some path \<Rightarrow>
          (let (status, content) =
             pwrite_loop (pwrite_replies os path (length data) off) (file_content fs path) data off
           in (status, set_file fs path content)))"

definition WriteVAllAt :: "os \<Rightarrow> fs \<Rightarrow> string option \<Rightarrow> bytes list \<Rightarrow> u64 \<Rightarrow> Status \<times> fs" where
  "WriteVAllAt os fs fd slices off =
     (let vectors = filter (\<lambda>slice. slice \<noteq> []) slices;
          maxVectors = (if 0 < iov_max os then nat (iov_max os) else 16)
      in if vectors = [] then (Ok, fs)
         else case fd of
             None \<Rightarrow> (IoError (ErrnoMessage ''pwritev'' ''Bad file descriptor''), fs)
           | Some path \<Rightarrow>
               (let (status, content) =
                  pwritev_loop (pwritev_replies os path (length (concat vectors)) off) maxVectors
                    (file_content fs path) vectors off
                in (status, set_file fs path content)))"

text \<open>
  \<open>EnsureDirectory\<close>: the test and the creation of a directory.  A path exists when it is a
  directory or a file.
\<close>

definition EnsureDirectory :: "os \<Rightarrow> fs \<Rightarrow> string \<Rightarrow> Status \<times> fs" where
  "EnsureDirectory os fs directory =
     (if dirs fs directory \<or> files fs directory \<noteq> None then
        (if \<not> dirs fs directory then (InvalidArgument (directory @ '' is not a directory''), fs)
         else (Ok, fs))
      else case mkdir_error os directory of
          Some e \<Rightarrow> (IoError (''create_directories '' @ directory @ '': '' @ e), fs)
        | None \<Rightarrow> (Ok, fs\<lparr>dirs := (dirs fs)(directory := True)\<rparr>))"

definition OpenReadWriteCreate :: "os \<Rightarrow> fs \<Rightarrow> string \<Rightarrow> Status \<times> string option \<times> fs" where
  "OpenReadWriteCreate os fs path =
     (case open_error os path of
        Some e \<Rightarrow> (IoError (ErrnoMessage (''open '' @ path) e), None, fs)
      | None \<Rightarrow>
          (Ok, Some path, (if files fs path = None then set_file fs path [] else fs)))"

definition OpenReadOnlyFile :: "os \<Rightarrow> fs \<Rightarrow> string \<Rightarrow> Status \<times> string option" where
  "OpenReadOnlyFile os fs path =
     (case open_error os path of
        Some e \<Rightarrow> (IoError (ErrnoMessage (''open '' @ path) e), None)
      | None \<Rightarrow>
          (if files fs path = None
           then (IoError (ErrnoMessage (''open '' @ path) ''No such file or directory''), None)
           else (Ok, Some path)))"

definition GetFileSize :: "os \<Rightarrow> fs \<Rightarrow> string option \<Rightarrow> Status + u64" where
  "GetFileSize os fs fd =
     (case fd of
        None \<Rightarrow> Inl (IoError (ErrnoMessage ''fstat'' ''Bad file descriptor''))
      | Some path \<Rightarrow>
          (case fstat_error os path of
             Some e \<Rightarrow> Inl (IoError (ErrnoMessage ''fstat'' e))
           | None \<Rightarrow> Inr (of_nat (length (file_content fs path)))))"

definition resize_content :: "bytes \<Rightarrow> nat \<Rightarrow> bytes" where
  "resize_content content n = take n content @ replicate (n - length content) 0"

definition TruncateFile :: "os \<Rightarrow> fs \<Rightarrow> string option \<Rightarrow> u64 \<Rightarrow> Status \<times> fs" where
  "TruncateFile os fs fd n =
     (case fd of
        None \<Rightarrow> (IoError (ErrnoMessage ''ftruncate'' ''Bad file descriptor''), fs)
      | Some path \<Rightarrow>
          (case ftruncate_error os path n of
             Some e \<Rightarrow> (IoError (ErrnoMessage ''ftruncate'' e), fs)
           | None \<Rightarrow>
               if off_negative n then (IoError (ErrnoMessage ''ftruncate'' ''Invalid argument''), fs)
               else (Ok, set_file fs path (resize_content (file_content fs path) (unat n)))))"

definition SyncFile :: "os \<Rightarrow> string option \<Rightarrow> Status" where
  "SyncFile os fd =
     (case fd of
        None \<Rightarrow> IoError (ErrnoMessage ''fsync'' ''Bad file descriptor'')
      | Some path \<Rightarrow>
          (case fsync_error os path of
             Some e \<Rightarrow> IoError (ErrnoMessage ''fsync'' e)
           | None \<Rightarrow> Ok))"

text \<open>
  \<open>MappedFile\<close>: the mapped data (as the typed view the program takes of it), its size and the
  protection it was mapped with.
\<close>

record 'a MappedFile =
  mapped_data :: "'a option"
  mapped_size :: u64
  mapped_writable :: bool

definition Unmapped :: "'a MappedFile" where
  "Unmapped = \<lparr>mapped_data = None, mapped_size = 0, mapped_writable = False\<rparr>"

definition MapWithProtection ::
  "os \<Rightarrow> string option \<Rightarrow> 'a \<Rightarrow> u64 \<Rightarrow> bool \<Rightarrow> Status \<times> 'a MappedFile" where
  "MapWithProtection os fd view n protection_write =
     (if n = 0 then (InvalidArgument ''cannot mmap an empty file'', Unmapped)
      else case fd of
          None \<Rightarrow> (IoError (ErrnoMessage ''mmap'' ''Bad file descriptor''), Unmapped)
        | Some path \<Rightarrow>
            (case mmap_error os path n of
               Some e \<Rightarrow> (IoError (ErrnoMessage ''mmap'' e), Unmapped)
             | None \<Rightarrow>
                 (Ok, \<lparr>mapped_data = Some view, mapped_size = n, mapped_writable = protection_write\<rparr>)))"

definition IsMapped :: "'a MappedFile \<Rightarrow> bool" where
  "IsMapped m \<longleftrightarrow> mapped_data m \<noteq> None"

definition SyncMapping :: "os \<Rightarrow> string \<Rightarrow> 'a MappedFile \<Rightarrow> Status" where
  "SyncMapping os path m =
     (if mapped_data m = None then Ok
      else if \<not> mapped_writable m then InvalidArgument ''cannot sync a read-only mapping''
      else case msync_error os path of
          Some e \<Rightarrow> IoError (ErrnoMessage ''msync'' e)
        | None \<Rightarrow> Ok)"

subsection \<open>A system that does not fail\<close>

definition reads_ok :: "os \<Rightarrow> bool" where
  "reads_ok os \<longleftrightarrow> (\<forall>path n off. list_all benign_reply (pread_replies os path n off))"

definition writes_ok :: "os \<Rightarrow> bool" where
  "writes_ok os \<longleftrightarrow>
     (\<forall>path n off. list_all benign_reply (pwrite_replies os path n off) \<and>
        list_all benign_reply (pwritev_replies os path n off))"

definition calls_ok :: "os \<Rightarrow> bool" where
  "calls_ok os \<longleftrightarrow>
     (\<forall>path n. open_error os path = None \<and> fstat_error os path = None \<and>
        ftruncate_error os path n = None \<and> fsync_error os path = None \<and>
        mmap_error os path n = None \<and> msync_error os path = None \<and>
        mkdir_error os path = None \<and> rename_error os path = None \<and> remove_error os path = None)"

definition os_ok :: "os \<Rightarrow> bool" where
  "os_ok os \<longleftrightarrow> reads_ok os \<and> writes_ok os \<and> calls_ok os"

text \<open>The system in which every call succeeds at once.\<close>

definition calm_os :: os where
  "calm_os =
     \<lparr>pread_replies = \<lambda>_ _ _. [], pwrite_replies = \<lambda>_ _ _. [], pwritev_replies = \<lambda>_ _ _. [],
      iov_max = 1024, open_error = \<lambda>_. None, fstat_error = \<lambda>_. None,
      ftruncate_error = \<lambda>_ _. None, fsync_error = \<lambda>_. None, mmap_error = \<lambda>_ _. None,
      msync_error = \<lambda>_. None, mkdir_error = \<lambda>_. None, rename_error = \<lambda>_. None,
      remove_error = \<lambda>_. None\<rparr>"

lemma calm_os_ok [simp]: "os_ok calm_os" "reads_ok calm_os" "writes_ok calm_os" "calls_ok calm_os"
  by (simp_all add: os_ok_def reads_ok_def writes_ok_def calls_ok_def calm_os_def)

lemma file_content_set_file [simp]: "file_content (set_file fs p c) p = c"
  by (simp add: file_content_def set_file_def)

lemma file_content_set_file_other [simp]: "p \<noteq> q \<Longrightarrow> file_content (set_file fs p c) q = file_content fs q"
  by (simp add: file_content_def set_file_def)

lemma dirs_set_file [simp]: "dirs (set_file fs p c) = dirs fs"
  by (simp add: set_file_def)

lemma files_set_file [simp]: "files (set_file fs p c) q = (if q = p then Some c else files fs q)"
  by (simp add: set_file_def)

lemma set_file_twice [simp]: "set_file (set_file fs p c) p d = set_file fs p d"
  by (simp add: set_file_def)

lemma ReadAllAt_ok:
  assumes "reads_ok os" and "length (file_content fs path) < 2 ^ 63"
  shows "ReadAllAt os fs (Some path) n off = read_result (file_content fs path) n off"
  using assms by (simp add: ReadAllAt_def reads_ok_def pread_loop_benign)

text \<open>A read loop that returns OK delivers exactly the requested range of the file, whatever
  interruptions, short reads and errors the system calls produced on the way.\<close>

theorem ReadAllAt_sound:
  assumes "ReadAllAt os fs (Some path) n off = Inr bs" and "length (file_content fs path) < 2 ^ 63"
  shows "bs = take n (drop (unat off) (file_content fs path)) \<and> length bs = n"
  using assms pread_loop_sound by (simp add: ReadAllAt_def)

lemma concat_filter_nonempty: "concat (filter (\<lambda>slice. slice \<noteq> []) slices) = concat slices"
  by (induction slices) auto

definition nonempty_slices :: "bytes list \<Rightarrow> bytes list" where
  "nonempty_slices slices = filter (\<lambda>slice. slice \<noteq> []) slices"

lemma nonempty_slices_Nil: "nonempty_slices slices = [] \<longleftrightarrow> concat slices = []"
  by (auto simp: nonempty_slices_def filter_empty_conv)

lemma nonempty_slices_concat [simp]: "concat (nonempty_slices slices) = concat slices"
  by (simp add: nonempty_slices_def concat_filter_nonempty)

lemma WriteVAllAt_empty: "concat slices = [] \<Longrightarrow> WriteVAllAt os fs fd slices off = (Ok, fs)"
  using nonempty_slices_Nil [of slices] by (simp add: WriteVAllAt_def Let_def nonempty_slices_def)

lemma WriteVAllAt_loop:
  fixes os fs path slices off
  defines "r \<equiv> pwritev_loop (pwritev_replies os path (length (concat slices)) off)
      (if 0 < iov_max os then nat (iov_max os) else 16) (file_content fs path) (nonempty_slices slices) off"
  assumes "concat slices \<noteq> []"
  shows "WriteVAllAt os fs (Some path) slices off = (fst r, set_file fs path (snd r))"
proof -
  have "nonempty_slices slices \<noteq> []" using assms(2) by (simp add: nonempty_slices_Nil)
  then show ?thesis
    by (simp add: WriteVAllAt_def Let_def r_def case_prod_beta flip: nonempty_slices_def)
qed

lemma WriteVAllAt_prefix:
  assumes "WriteVAllAt os fs (Some path) slices off = (status, fs')"
  shows "wrote_prefix (file_content fs path) (unat off) (concat slices) status (file_content fs' path) \<and>
    (\<forall>q. q \<noteq> path \<longrightarrow> files fs' q = files fs q)"
proof (cases "concat slices = []")
  case True
  then have "status = Ok" and "fs' = fs"
    using assms WriteVAllAt_empty [OF True, of os fs "Some path" off] by simp_all
  then show ?thesis by (simp only: wrote_prefix_def True) simp
next
  case False
  then show ?thesis
    using assms WriteVAllAt_loop [OF False, of os fs path off]
      pwritev_loop_prefix [of "file_content fs path" off "nonempty_slices slices"]
    by auto
qed

lemma WriteVAllAt_dirs: "WriteVAllAt os fs fd slices off = (status, fs') \<Longrightarrow> dirs fs' = dirs fs"
  by (auto simp: WriteVAllAt_def Let_def split: if_splits option.splits prod.splits)

text \<open>C38. The gathering write leaves the file with a prefix of the concatenated slices at its
  offset, under every sequence of short writes, interruptions and errors, and with all of them
  when it returns OK.  Other files are untouched.\<close>

theorem WriteVAllAt_sound:
  assumes "WriteVAllAt os fs (Some path) slices off = (status, fs')"
  shows "wrote_prefix (file_content fs path) (unat off) (concat slices) status (file_content fs' path) \<and>
    (\<forall>q. q \<noteq> path \<longrightarrow> files fs' q = files fs q)"
  using assms by (rule WriteVAllAt_prefix)

lemma WriteVAllAt_ok:
  assumes "writes_ok os" and "unat off + length (concat slices) < 2 ^ 63" and "concat slices \<noteq> []"
  shows "WriteVAllAt os fs (Some path) slices off =
    (Ok, set_file fs path (overwrite (file_content fs path) (unat off) (concat slices)))"
proof -
  define m where "m = (if 0 < iov_max os then nat (iov_max os) else 16)"
  define r where "r = pwritev_loop (pwritev_replies os path (length (concat slices)) off) m
      (file_content fs path) (nonempty_slices slices) off"
  have "fst r = Ok"
    unfolding r_def
  proof (rule pwritev_loop_benign_ok)
    show "list_all benign_reply (pwritev_replies os path (length (concat slices)) off)"
      using assms(1) by (simp add: writes_ok_def)
    show "\<forall>v \<in> set (nonempty_slices slices). v \<noteq> []" by (simp add: nonempty_slices_def)
  qed (use assms(2) in \<open>simp_all add: m_def\<close>)
  moreover have "wrote_prefix (file_content fs path) (unat off) (concat slices) (fst r) (snd r)"
    unfolding r_def by (rule pwritev_loop_prefix [where vs = "nonempty_slices slices", simplified])
  then have "snd r = overwrite (file_content fs path) (unat off) (concat slices)"
    by (rule wrote_prefix_ok) (simp only: \<open>fst r = Ok\<close> IsOk_simps)
  ultimately show ?thesis
    using WriteVAllAt_loop [OF assms(3), of os fs path off] by (simp add: r_def m_def)
qed

text \<open>When the system calls do not fail and the data ends below the largest file offset, the
  gathering write returns OK and has written all slices, for every split into short writes and
  every limit on the number of vectors per call.\<close>

theorem WriteVAllAt_complete:
  assumes "writes_ok os" and "unat off + length (concat slices) < 2 ^ 63" and "concat slices \<noteq> []"
  shows "WriteVAllAt os fs (Some path) slices off =
    (Ok, set_file fs path (overwrite (file_content fs path) (unat off) (concat slices)))"
  using assms by (rule WriteVAllAt_ok)

lemma set_file_same: "files fs path = Some c \<Longrightarrow> set_file fs path c = fs"
  by (simp add: set_file_def fun_upd_idem)

lemma file_content_Some: "files fs path = Some c \<Longrightarrow> file_content fs path = c"
  by (simp add: file_content_def)

lemma WriteAllAt_end:
  assumes "writes_ok os" and "files fs path = Some content" and "unat off = length content"
    and "length content + length data < 2 ^ 63"
  shows "WriteAllAt os fs (Some path) data off = (Ok, set_file fs path (content @ data))"
proof -
  have "file_content fs path = content" using assms(2) by (simp add: file_content_def)
  moreover have "list_all benign_reply (pwrite_replies os path (length data) off)"
    using assms(1) by (simp add: writes_ok_def)
  ultimately show ?thesis
    using pwrite_loop_benign [of "pwrite_replies os path (length data) off" off data content] assms(3,4)
    by (simp add: WriteAllAt_def)
qed

lemma ReadAllAt_within:
  assumes "reads_ok os" and "files fs path = Some content" and "length content < 2 ^ 63"
    and "unat off + n \<le> length content"
  shows "ReadAllAt os fs (Some path) n off = Inr (take n (drop (unat off) content))"
  using assms ReadAllAt_ok [OF assms(1), of fs path n off]
  by (auto simp: file_content_def read_result_def off_negative_def)

subsection \<open>Concrete runs\<close>

text \<open>A system whose first transfer is interrupted and whose second is short by all but one byte.\<close>

definition choppy_os :: os where
  "choppy_os = calm_os\<lparr>pread_replies := \<lambda>_ _ _. [Interrupted, Partial 1],
     pwritev_replies := \<lambda>_ _ _. [Interrupted, Partial 1, Partial 2], iov_max := 2\<rparr>"

definition sample_fs :: fs where
  "sample_fs = \<lparr>files = [''a'' \<mapsto> [1, 2, 3]], dirs = \<lambda>_. False\<rparr>"

lemma ReadAllAt_sound_witness:
  "ReadAllAt choppy_os sample_fs (Some ''a'') 2 1 = Inr [2, 3] \<and>
   [2, 3] = take 2 (drop (unat (1 :: u64)) (file_content sample_fs ''a''))"
proof -
  have run: "ReadAllAt choppy_os sample_fs (Some ''a'') 2 1 = Inr [2, 3]"
    by (simp add: ReadAllAt_def choppy_os_def calm_os_def sample_fs_def file_content_def pread_loop.simps
        next_reply_def pread_def off_negative_def)
  have len: "length (file_content sample_fs ''a'') < 2 ^ 63"
    by (simp add: sample_fs_def file_content_def)
  show ?thesis using ReadAllAt_sound [OF run len] run by simp
qed

lemma WriteVAllAt_sound_witness:
  "wrote_prefix [1, 2, 3] 3 [4, 5, 6, 7] (fst (WriteVAllAt choppy_os sample_fs (Some ''a'') [[4], [5, 6], [7]] 3))
    (file_content (snd (WriteVAllAt choppy_os sample_fs (Some ''a'') [[4], [5, 6], [7]] 3)) ''a'')"
  using WriteVAllAt_sound [of choppy_os sample_fs "''a''" "[[4], [5, 6], [7]]" 3, OF prod.collapse [symmetric]]
  by (simp add: sample_fs_def file_content_def)

lemma choppy_writes_ok: "writes_ok choppy_os"
  by (simp add: writes_ok_def choppy_os_def calm_os_def)

lemma WriteVAllAt_complete_witness:
  "WriteVAllAt choppy_os sample_fs (Some ''a'') [[4], [5, 6], [7]] 3 =
    (Ok, set_file sample_fs ''a'' [1, 2, 3, 4, 5, 6, 7])"
  using WriteVAllAt_complete [OF choppy_writes_ok, of 3 "[[4], [5, 6], [7]]" sample_fs "''a''"]
  by (simp add: sample_fs_def file_content_def overwrite_def)

end
