(* ===== verification/Probing.thy ===== *)
theory Probing
  imports Prelude "HOL-Library.Multiset"
begin

text \<open>
  Open addressing with linear probing, shared by the object index, the row index and the key
  table inside a row block.  \<open>RoundUpPowerOfTwo\<close> sizes every table; the seven probing loops of
  \<open>database.cpp\<close> all visit \<open>(start + probe) & mask\<close> for \<open>probe = 0, 1, ..., bucketCount - 1\<close>, which
  is the list \<open>probe_indices\<close>.  The locale \<open>open_addressing\<close> holds the laws every such table
  keeps: the probe-chain invariant, the effect of a placement, and what a search finds.
\<close>

definition kMinimumBucketCount :: u64 where
  "kMinimumBucketCount = 16"

text \<open>The doubling loop; \<open>None\<close> is a loop that never ends.\<close>

partial_function (option) round_up_loop :: "u64 \<Rightarrow> u64 \<Rightarrow> u64 option" where
  "round_up_loop result value =
     (if result < value then round_up_loop (push_bit 1 result) value else Some result)"

definition RoundUpPowerOfTwo :: "u64 \<Rightarrow> u64 option" where
  "RoundUpPowerOfTwo value = round_up_loop kMinimumBucketCount value"

definition probe_indices :: "u64 \<Rightarrow> u64 \<Rightarrow> nat list" where
  "probe_indices start bucketCount =
     map (\<lambda>probe. unat ((start + of_nat probe) AND (bucketCount - 1))) [0..<unat bucketCount]"

subsection \<open>Rounding up to a power of two\<close>

lemma push_bit_pow2: "push_bit 1 ((2 :: u64) ^ k) = 2 ^ Suc k"
  by (simp add: push_bit_eq_mult)

lemma round_up_loop_pow2:
  assumes "k \<le> 63" and "unat v \<le> 2 ^ 63"
  shows "\<exists>j. k \<le> j \<and> j \<le> 63 \<and> round_up_loop (2 ^ k) v = Some (2 ^ j) \<and> unat v \<le> 2 ^ j \<and>
    (j = k \<or> 2 ^ (j - 1) < unat v)"
  using assms
proof (induction "63 - k" arbitrary: k)
  case 0
  then have k: "k = 63" by simp
  with 0 have "\<not> (2 :: u64) ^ k < v"
    by (simp add: word_less_nat_alt not_less)
  then have "round_up_loop (2 ^ k) v = Some (2 ^ k)"
    by (simp only: round_up_loop.simps [of "2 ^ k"] if_False)
  with k 0 show ?case by (intro exI [of _ k]) simp
next
  case (Suc d)
  show ?case
  proof (cases "(2 :: u64) ^ k < v")
    case True
    have "d = 63 - Suc k" and "Suc k \<le> 63" using Suc.hyps(2) by simp_all
    from Suc.hyps(1) [OF this Suc.prems(2)] obtain j where
      j: "Suc k \<le> j" "j \<le> 63" "round_up_loop (2 ^ Suc k) v = Some (2 ^ j)"
        "unat v \<le> 2 ^ j" "j = Suc k \<or> 2 ^ (j - 1) < unat v"
      by blast
    have "round_up_loop (2 ^ k) v = Some (2 ^ j)"
      using True j(3) by (simp only: round_up_loop.simps [of "2 ^ k"] if_True push_bit_pow2)
    moreover have "2 ^ (j - 1) < unat v"
      using j(5) True Suc.prems(1) by (auto simp: word_less_nat_alt)
    ultimately show ?thesis using j by (intro exI [of _ j]) simp
  next
    case False
    then have "round_up_loop (2 ^ k) v = Some (2 ^ k)"
      by (simp only: round_up_loop.simps [of "2 ^ k"] if_False)
    moreover have "unat v \<le> 2 ^ k"
      using False Suc.prems(1) by (simp add: word_less_nat_alt not_less)
    ultimately show ?thesis using Suc.prems(1) by (intro exI [of _ k]) simp
  qed
qed

lemma round_up_loop_zero: "0 < v \<Longrightarrow> round_up_loop 0 v \<noteq> Some r"
proof
  assume pos: "0 < v" and ret: "round_up_loop 0 v = Some r"
  have "0 < v \<longrightarrow> (0 :: u64) \<noteq> 0"
  proof (rule round_up_loop.raw_induct [where P = "\<lambda>x v r. 0 < v \<longrightarrow> x \<noteq> 0", OF _ ret])
    fix f and x v r :: u64
    assume IH: "\<And>x v r. f x v = Some r \<Longrightarrow> 0 < v \<longrightarrow> x \<noteq> 0"
      and eq: "(if x < v then f (push_bit 1 x) v else Some x) = Some r"
    show "0 < v \<longrightarrow> x \<noteq> 0"
    proof (intro impI notI)
      assume v: "0 < v" and x: "x = 0"
      with eq have "f 0 v = Some r" by simp
      with IH v show False by blast
    qed
  qed
  with pos show False by simp
qed

lemma round_up_loop_diverges:
  assumes "k \<le> 63" and "2 ^ 63 < unat v"
  shows "round_up_loop (2 ^ k) v = None"
  using assms
proof (induction "63 - k" arbitrary: k)
  case 0
  then have k: "k = 63" by simp
  have "(2 :: u64) ^ 63 < v" using 0 by (simp add: word_less_nat_alt)
  then have "round_up_loop (2 ^ k) v = round_up_loop (2 ^ Suc 63) v"
    by (simp only: round_up_loop.simps [of "2 ^ 63"] k if_True push_bit_pow2)
  also have "(2 :: u64) ^ Suc 63 = 0" by simp
  finally have "round_up_loop (2 ^ k) v = round_up_loop 0 v" .
  moreover have "0 < v" using 0 by (simp add: word_less_nat_alt)
  ultimately show ?case using round_up_loop_zero by (metis not_Some_eq)
next
  case (Suc d)
  have "d = 63 - Suc k" and "Suc k \<le> 63" using Suc.hyps(2) by simp_all
  from Suc.hyps(1) [OF this Suc.prems(2)] have IH: "round_up_loop (2 ^ Suc k) v = None" .
  have "(2 :: nat) ^ k < 2 ^ 63" using Suc.hyps(2) by (intro power_strict_increasing) simp_all
  then have "(2 :: u64) ^ k < v" using Suc.prems by (simp add: word_less_nat_alt)
  then show ?case
    using IH by (simp only: round_up_loop.simps [of "2 ^ k"] if_True push_bit_pow2)
qed

lemma kMinimum_pow2: "kMinimumBucketCount = 2 ^ 4"
  by (simp add: kMinimumBucketCount_def)

lemma RoundUpPowerOfTwo_cases:
  assumes "unat v \<le> 2 ^ 63"
  obtains j where "4 \<le> j" "j \<le> 63" "RoundUpPowerOfTwo v = Some (2 ^ j)" "unat v \<le> 2 ^ j"
    "j = 4 \<or> 2 ^ (j - 1) < unat v"
  using round_up_loop_pow2 [of 4 v] assms
  by (auto simp: RoundUpPowerOfTwo_def kMinimum_pow2)

lemma RoundUpPowerOfTwo_diverges: "2 ^ 63 < unat v \<Longrightarrow> RoundUpPowerOfTwo v = None"
  by (simp only: RoundUpPowerOfTwo_def kMinimum_pow2 round_up_loop_diverges)

lemma RoundUpPowerOfTwo_iff:
  "RoundUpPowerOfTwo v = Some r \<longleftrightarrow>
     unat v \<le> 2 ^ 63 \<and>
     (\<exists>j. 4 \<le> j \<and> j \<le> 63 \<and> r = 2 ^ j \<and> unat v \<le> 2 ^ j \<and> (j = 4 \<or> 2 ^ (j - 1) < unat v))"
proof (cases "unat v \<le> 2 ^ 63")
  case True
  then obtain j where j: "4 \<le> j" "j \<le> 63" "RoundUpPowerOfTwo v = Some (2 ^ j)"
    "unat v \<le> 2 ^ j" "j = 4 \<or> 2 ^ (j - 1) < unat v"
    by (rule RoundUpPowerOfTwo_cases)
  have unique: "i = j" if i: "4 \<le> i" "unat v \<le> 2 ^ i" "i = 4 \<or> 2 ^ (i - 1) < unat v" for i
  proof (rule antisym)
    show "i \<le> j"
    proof (rule ccontr)
      assume "\<not> i \<le> j"
      then have "j \<le> i - 1" and "i \<noteq> 4" using j(1) by simp_all
      from this(1) have "(2 :: nat) ^ j \<le> 2 ^ (i - 1)" by (intro power_increasing) simp_all
      moreover have "2 ^ (i - 1) < unat v" using i(3) \<open>i \<noteq> 4\<close> by blast
      ultimately show False using j(4) by linarith
    qed
    show "j \<le> i"
    proof (rule ccontr)
      assume "\<not> j \<le> i"
      then have "i \<le> j - 1" and "j \<noteq> 4" using i(1) by simp_all
      from this(1) have "(2 :: nat) ^ i \<le> 2 ^ (j - 1)" by (intro power_increasing) simp_all
      moreover have "2 ^ (j - 1) < unat v" using j(5) \<open>j \<noteq> 4\<close> by blast
      ultimately show False using i(2) by linarith
    qed
  qed
  have "RoundUpPowerOfTwo v = Some r \<longleftrightarrow> r = 2 ^ j" using j(3) by auto
  also have "\<dots> \<longleftrightarrow> (\<exists>i. 4 \<le> i \<and> i \<le> 63 \<and> r = 2 ^ i \<and> unat v \<le> 2 ^ i \<and>
      (i = 4 \<or> 2 ^ (i - 1) < unat v))"
    using j(1,2,4,5) unique by blast
  finally show ?thesis using True by simp
next
  case False
  then show ?thesis by (simp add: RoundUpPowerOfTwo_diverges)
qed

text \<open>C39. \<open>RoundUpPowerOfTwo\<close> returns exactly for the arguments up to 2 to the 63, and then
  returns the least power of two that is at least 16 and at least its argument; above that bound
  the doubling wraps to 0 and the loop never ends.\<close>

theorem RoundUpPowerOfTwo_spec:
  "RoundUpPowerOfTwo v = Some r \<longleftrightarrow>
     unat v \<le> 2 ^ 63 \<and>
     (\<exists>j. 4 \<le> j \<and> j \<le> 63 \<and> r = 2 ^ j \<and> unat v \<le> 2 ^ j \<and> (j = 4 \<or> 2 ^ (j - 1) < unat v))"
  by (rule RoundUpPowerOfTwo_iff)

subsection \<open>The probe sequence\<close>

definition probe_path :: "u64 \<Rightarrow> nat \<Rightarrow> nat list" where
  "probe_path h n = map (\<lambda>p. (unat h + p) mod n) [0..<n]"

lemma and_mask_mod:
  fixes x :: u64
  assumes "k < 64"
  shows "unat (x AND (2 ^ k - 1)) = unat x mod 2 ^ k"
proof -
  have "x AND (2 ^ k - 1) = take_bit k x"
    by (simp add: take_bit_eq_mask mask_eq_exp_minus_1)
  then have "unat (x AND (2 ^ k - 1)) = take_bit k (unat x)"
    by (simp only: unsigned_take_bit_eq)
  then show ?thesis
    by (simp only: take_bit_eq_mod)
qed

lemma pow2_and_pred: "k < 64 \<Longrightarrow> (2 :: u64) ^ k AND (2 ^ k - 1) = 0"
  using and_mask_mod [of k "2 ^ k"] by (simp add: unat_eq_0)

lemma unat_add_of_nat_mod:
  fixes x :: u64
  assumes "k < 64"
  shows "unat (x + of_nat p) mod 2 ^ k = (unat x + p) mod 2 ^ k"
proof -
  have "unat (x + of_nat p) = (unat x + p) mod 2 ^ 64"
    by (simp add: unat_word_ariths unat_of_nat take_bit_eq_mod mod_simps)
  moreover have "(2 :: nat) ^ k dvd 2 ^ 64"
    using assms by (intro le_imp_power_dvd) simp
  ultimately show ?thesis by (simp add: mod_mod_cancel)
qed

lemma probe_indices_pow2:
  assumes "k < 64"
  shows "probe_indices (h AND (2 ^ k - 1)) (2 ^ k) = probe_path h (2 ^ k)"
  using assms
  by (simp add: probe_indices_def probe_path_def and_mask_mod unat_add_of_nat_mod mod_simps)

lemma set_probe_path [simp]: "set (probe_path h n) = {..<n}"
proof (cases "n = 0")
  case True
  then show ?thesis by (simp add: probe_path_def)
next
  case False
  have "i \<in> set (probe_path h n)" if "i < n" for i
  proof -
    define p where "p = (i + (n - unat h mod n)) mod n"
    have "unat h mod n \<le> n" using False by (simp add: less_imp_le)
    then have "unat h mod n + (i + (n - unat h mod n)) = i + n" by simp
    then have "(unat h + p) mod n = (i + n) mod n"
      unfolding p_def by (metis mod_add_eq mod_mod_trivial)
    then have "(unat h + p) mod n = i" using that by simp
    moreover have "p < n" using False by (simp add: p_def)
    ultimately show ?thesis by (force simp: probe_path_def)
  qed
  then show ?thesis using False by (auto simp: probe_path_def)
qed

abbreviation probed_before :: "nat list \<Rightarrow> nat \<Rightarrow> nat set" where
  "probed_before path i \<equiv> set (takeWhile (\<lambda>j. j \<noteq> i) path)"

lemma probed_before_not [simp]: "i \<notin> probed_before path i"
  by (auto dest: set_takeWhileD)

lemma probed_before_less: "j \<in> probed_before (probe_path h n) i \<Longrightarrow> j < n"
  by (metis set_takeWhileD set_probe_path lessThan_iff)

subsection \<open>Tables\<close>

text \<open>
  \<open>occupied\<close> lists the buckets in use.  \<open>chained\<close> is the invariant that makes a search stop at
  the first empty bucket: every bucket probed before a bucket in use, on the path of its own
  hash, is in use.  \<open>keyed\<close> says that the stored hash is the hash of the key a bucket stands
  for, and \<open>unique\<close> that no two buckets stand for the same key.
\<close>

definition occupied :: "('b \<Rightarrow> bool) \<Rightarrow> 'b list \<Rightarrow> 'b list" where
  "occupied vacant slots = filter (\<lambda>b. \<not> vacant b) slots"

definition chained :: "('b \<Rightarrow> bool) \<Rightarrow> ('b \<Rightarrow> u64) \<Rightarrow> 'b list \<Rightarrow> bool" where
  "chained vacant hash slots =
     (\<forall>i < length slots. \<not> vacant (slots ! i) \<longrightarrow>
        (\<forall>j \<in> probed_before (probe_path (hash (slots ! i)) (length slots)) i. \<not> vacant (slots ! j)))"

definition keyed :: "('b \<Rightarrow> bool) \<Rightarrow> ('b \<Rightarrow> u64) \<Rightarrow> ('b \<Rightarrow> 'k) \<Rightarrow> ('k \<Rightarrow> u64) \<Rightarrow> 'b list \<Rightarrow> bool" where
  "keyed vacant hash key key_hash slots =
     (\<forall>b \<in> set slots. \<not> vacant b \<longrightarrow> hash b = key_hash (key b))"

definition unique_keys :: "('b \<Rightarrow> bool) \<Rightarrow> ('b \<Rightarrow> 'k) \<Rightarrow> 'b list \<Rightarrow> bool" where
  "unique_keys vacant key slots = distinct (map key (occupied vacant slots))"

definition first_vacant :: "('b \<Rightarrow> bool) \<Rightarrow> 'b list \<Rightarrow> u64 \<Rightarrow> nat option" where
  "first_vacant vacant slots h =
     find (\<lambda>i. vacant (slots ! i)) (probe_path h (length slots))"

definition search_key :: "('b \<Rightarrow> bool) \<Rightarrow> ('b \<Rightarrow> 'k) \<Rightarrow> 'b list \<Rightarrow> u64 \<Rightarrow> 'k \<Rightarrow> nat option" where
  "search_key vacant key slots h k =
     find (\<lambda>i. vacant (slots ! i) \<or> key (slots ! i) = k) (probe_path h (length slots))"

definition table_map :: "('b \<Rightarrow> bool) \<Rightarrow> ('b \<Rightarrow> 'k) \<Rightarrow> ('b \<Rightarrow> 'v) \<Rightarrow> 'b list \<Rightarrow> ('k \<rightharpoonup> 'v)" where
  "table_map vacant key val slots = map_of (map (\<lambda>b. (key b, val b)) (occupied vacant slots))"

lemma occupied_length_le: "length (occupied vacant slots) \<le> length slots"
  by (simp add: occupied_def)

lemma occupied_replicate [simp]: "vacant b \<Longrightarrow> occupied vacant (replicate n b) = []"
  by (simp add: occupied_def)

lemma occupied_room: "length (occupied vacant slots) < length slots \<Longrightarrow> \<exists>i < length slots. vacant (slots ! i)"
  unfolding occupied_def by (drule filter_shorter_ex) blast

lemma mset_occupied_update_vacant:
  assumes "i < length slots" and "vacant (slots ! i)" and "\<not> vacant b"
  shows "mset (occupied vacant (slots[i := b])) = add_mset b (mset (occupied vacant slots))"
  using assms unfolding occupied_def
proof (induction slots arbitrary: i)
  case Nil
  then show ?case by simp
next
  case (Cons a slots)
  then show ?case by (cases i) simp_all
qed

lemma mset_occupied_update_taken:
  assumes "i < length slots" and "\<not> vacant (slots ! i)" and "\<not> vacant b"
  shows "add_mset (slots ! i) (mset (occupied vacant (slots[i := b]))) =
    add_mset b (mset (occupied vacant slots))"
  using assms unfolding occupied_def
proof (induction slots arbitrary: i)
  case Nil
  then show ?case by simp
next
  case (Cons a slots)
  then show ?case by (cases i) (simp_all add: add_mset_commute)
qed

lemma occupied_update_vacant:
  assumes "i < length slots" and "vacant (slots ! i)" and "\<not> vacant b"
  shows "length (occupied vacant (slots[i := b])) = Suc (length (occupied vacant slots))"
  using mset_occupied_update_vacant [of i slots vacant, OF assms]
  by (metis size_mset size_add_mset)

lemma occupied_update_taken:
  assumes "i < length slots" and "\<not> vacant (slots ! i)" and "\<not> vacant b"
  shows "length (occupied vacant (slots[i := b])) = length (occupied vacant slots)"
  using mset_occupied_update_taken [of i slots vacant, OF assms]
  by (metis size_mset size_add_mset nat.inject)

lemma set_occupied: "set (occupied vacant slots) = {b \<in> set slots. \<not> vacant b}"
  by (auto simp: occupied_def)

lemma in_occupied_nth:
  "b \<in> set (occupied vacant slots) \<longleftrightarrow> (\<exists>i < length slots. slots ! i = b \<and> \<not> vacant b)"
  by (auto simp: set_occupied in_set_conv_nth)

lemma unique_keys_Cons:
  "unique_keys vacant key (a # slots) \<longleftrightarrow>
     unique_keys vacant key slots \<and>
     (vacant a \<or> (\<forall>j < length slots. \<not> vacant (slots ! j) \<longrightarrow> key (slots ! j) \<noteq> key a))"
  by (auto simp: unique_keys_def occupied_def in_set_conv_nth image_iff)

lemma unique_keysI:
  "(\<And>i j. i < length slots \<Longrightarrow> j < length slots \<Longrightarrow> \<not> vacant (slots ! i) \<Longrightarrow> \<not> vacant (slots ! j) \<Longrightarrow>
      key (slots ! i) = key (slots ! j) \<Longrightarrow> i = j) \<Longrightarrow> unique_keys vacant key slots"
proof (induction slots)
  case Nil
  then show ?case by (simp add: unique_keys_def occupied_def)
next
  case (Cons a slots)
  have "unique_keys vacant key slots"
  proof (rule Cons.IH)
    fix i j assume "i < length slots" "j < length slots" "\<not> vacant (slots ! i)" "\<not> vacant (slots ! j)" "key (slots ! i) = key (slots ! j)"
    then show "i = j" using Cons.prems [of "Suc i" "Suc j"] by simp
  qed
  then show ?case unfolding unique_keys_Cons using Cons.prems [of _ 0] by force
qed

lemma unique_keys_index:
  "unique_keys vacant key slots \<Longrightarrow> i < length slots \<Longrightarrow> j < length slots \<Longrightarrow>
    \<not> vacant (slots ! i) \<Longrightarrow> \<not> vacant (slots ! j) \<Longrightarrow> key (slots ! i) = key (slots ! j) \<Longrightarrow> i = j"
proof (induction slots arbitrary: i j)
  case Nil
  then show ?case by simp
next
  case (Cons a slots)
  note facts = Cons.prems(1) [unfolded unique_keys_Cons]
  show ?case
  proof (cases i)
    case 0
    show ?thesis
    proof (cases j)
      case (Suc j')
      with 0 Cons.prems facts show ?thesis by auto
    qed (use 0 in simp)
  next
    case i: (Suc i')
    show ?thesis
    proof (cases j)
      case 0
      with i Cons.prems facts show ?thesis by auto
    next
      case j: (Suc j')
      have "i' = j'"
        by (rule Cons.IH) (use i j Cons.prems facts in simp_all)
      with i j show ?thesis by simp
    qed
  qed
qed

lemma table_map_Some:
  assumes "unique_keys vacant key slots"
  shows "table_map vacant key val slots k = Some v \<longleftrightarrow>
    (\<exists>b \<in> set (occupied vacant slots). key b = k \<and> val b = v)"
proof -
  have "distinct (map fst (map (\<lambda>b. (key b, val b)) (occupied vacant slots)))"
    using assms by (simp add: unique_keys_def comp_def)
  then have "table_map vacant key val slots k = Some v \<longleftrightarrow>
    (k, v) \<in> set (map (\<lambda>b. (key b, val b)) (occupied vacant slots))"
    unfolding table_map_def by (rule map_of_eq_Some_iff)
  then show ?thesis by auto
qed

lemma table_map_None:
  "table_map vacant key val slots k = None \<longleftrightarrow> (\<forall>b \<in> set (occupied vacant slots). key b \<noteq> k)"
  by (auto simp: table_map_def map_of_eq_None_iff image_iff)

text \<open>The table has exactly as many occupied slots as the map has keys.\<close>

lemma table_map_card:
  assumes "unique_keys vacant key slots"
  shows "card (dom (table_map vacant key val slots)) = length (occupied vacant slots)"
proof -
  have "dom (table_map vacant key val slots) = set (map key (occupied vacant slots))"
    by (auto simp: table_map_def dom_map_of_conv_image_fst image_image)
  then show ?thesis using distinct_card [OF assms [unfolded unique_keys_def]] by simp
qed

lemma table_map_eqI:
  assumes "unique_keys vacant key slots" and "unique_keys vacant key slots'"
    and "set (occupied vacant slots) = set (occupied vacant slots')"
  shows "table_map vacant key val slots = table_map vacant key val slots'"
proof
  fix k
  show "table_map vacant key val slots k = table_map vacant key val slots' k"
    using table_map_Some [OF assms(1), of val k] table_map_Some [OF assms(2), of val k] assms(3)
    by (cases "table_map vacant key val slots k") (metis option.exhaust)+
qed

lemma unique_keys_mset:
  assumes "mset (occupied vacant slots) = mset (occupied vacant slots')"
  shows "unique_keys vacant key slots = unique_keys vacant key slots'"
  unfolding unique_keys_def
  by (rule mset_eq_imp_distinct_iff) (simp only: mset_map assms)

lemma unique_keys_insert:
  assumes "i < length slots" and "vacant (slots ! i)" and "\<not> vacant b"
    and "unique_keys vacant key slots" and "\<forall>b' \<in> set (occupied vacant slots). key b' \<noteq> key b"
  shows "unique_keys vacant key (slots[i := b])"
proof -
  have "mset (map key (occupied vacant (slots[i := b]))) = mset (map key (b # occupied vacant slots))"
    using mset_occupied_update_vacant [of i slots vacant b] assms(1-3) by simp
  moreover have "distinct (map key (b # occupied vacant slots))"
    using assms(4,5) by (auto simp: unique_keys_def)
  ultimately show ?thesis
    unfolding unique_keys_def by (metis mset_eq_imp_distinct_iff)
qed

lemma unique_keys_replace:
  assumes "i < length slots" and "\<not> vacant (slots ! i)" and "\<not> vacant b"
    and "unique_keys vacant key slots" and same: "key (slots ! i) = key b"
  shows "unique_keys vacant key (slots[i := b])"
proof -
  have "image_mset key (add_mset (slots ! i) (mset (occupied vacant (slots[i := b])))) =
    image_mset key (add_mset b (mset (occupied vacant slots)))"
    using mset_occupied_update_taken [of i slots vacant b] assms(1-3) by simp
  then have "mset (map key (occupied vacant (slots[i := b]))) = mset (map key (occupied vacant slots))"
    by (simp add: same)
  then show ?thesis
    using assms(4) unfolding unique_keys_def by (metis mset_eq_imp_distinct_iff)
qed

lemma table_map_insert:
  assumes "i < length slots" and "vacant (slots ! i)" and "\<not> vacant b"
    and "unique_keys vacant key slots" and "\<forall>b' \<in> set (occupied vacant slots). key b' \<noteq> key b"
  shows "table_map vacant key val (slots[i := b]) = (table_map vacant key val slots)(key b \<mapsto> val b)"
proof
  fix k
  have set: "set (occupied vacant (slots[i := b])) = insert b (set (occupied vacant slots))"
    using mset_occupied_update_vacant [of i slots vacant b] assms(1-3)
    by (metis set_mset_mset set_mset_add_mset_insert)
  note new = table_map_Some [OF unique_keys_insert [OF assms], of val k, unfolded set]
  note old = table_map_Some [OF assms(4), of val k]
  show "table_map vacant key val (slots[i := b]) k = ((table_map vacant key val slots)(key b \<mapsto> val b)) k"
  proof (cases "k = key b")
    case True
    then show ?thesis using new by auto
  next
    case False
    have "\<And>v. table_map vacant key val (slots[i := b]) k = Some v \<longleftrightarrow>
        table_map vacant key val slots k = Some v"
      using new old False by auto
    then show ?thesis using False by (metis fun_upd_other option.exhaust)
  qed
qed

lemma table_map_replace:
  assumes "i < length slots" and "\<not> vacant (slots ! i)" and "\<not> vacant b"
    and "unique_keys vacant key slots" and same: "key (slots ! i) = key b"
  shows "table_map vacant key val (slots[i := b]) = (table_map vacant key val slots)(key b \<mapsto> val b)"
proof
  fix k
  note new = table_map_Some [OF unique_keys_replace [OF assms], of val k]
  note old = table_map_Some [OF assms(4), of val k]
  show "table_map vacant key val (slots[i := b]) k = ((table_map vacant key val slots)(key b \<mapsto> val b)) k"
  proof (cases "k = key b")
    case True
    have "b \<in> set (occupied vacant (slots[i := b]))"
      using assms(1,3) by (auto simp: in_occupied_nth nth_list_update)
    then show ?thesis using True new by auto
  next
    case False
    have other: "(b' \<in> set (occupied vacant (slots[i := b])) \<and> key b' = k) \<longleftrightarrow>
        (b' \<in> set (occupied vacant slots) \<and> key b' = k)" for b'
    proof -
      have "(slots[i := b]) ! j = b' \<and> key b' = k \<longleftrightarrow> slots ! j = b' \<and> key b' = k" if "j < length slots" for j
        using False same that by (cases "j = i") auto
      then show ?thesis by (auto simp: in_occupied_nth)
    qed
    have "\<And>v. table_map vacant key val (slots[i := b]) k = Some v \<longleftrightarrow>
        table_map vacant key val slots k = Some v"
      using new old other by blast
    then show ?thesis using False by (metis fun_upd_other option.exhaust)
  qed
qed

text \<open>Placing a list of buckets one after the other, as the resize loops do.\<close>

fun place_all :: "('b \<Rightarrow> bool) \<Rightarrow> ('b \<Rightarrow> u64) \<Rightarrow> 'b list \<Rightarrow> 'b list \<Rightarrow> 'b list option" where
  "place_all vacant hash [] slots = Some slots"
| "place_all vacant hash (b # bs) slots =
     (case first_vacant vacant slots (hash b) of
        None \<Rightarrow> None
      | Some i \<Rightarrow> place_all vacant hash bs (slots[i := b]))"

lemma first_vacant_SomeD:
  assumes "first_vacant vacant slots h = Some i"
  shows "i < length slots" and "vacant (slots ! i)"
    and "\<And>j. j \<in> probed_before (probe_path h (length slots)) i \<Longrightarrow> \<not> vacant (slots ! j)"
  using find_SomeD [OF assms [unfolded first_vacant_def]]
    find_Some_before [OF assms [unfolded first_vacant_def]]
  by auto

lemma first_vacant_exists:
  assumes "length (occupied vacant slots) < length slots"
  obtains i where "first_vacant vacant slots h = Some i"
proof -
  obtain j where "j < length slots" "vacant (slots ! j)"
    using occupied_room [OF assms] by blast
  then show ?thesis
    using find_exists [of j "probe_path h (length slots)" "\<lambda>i. vacant (slots ! i)"] that
    by (auto simp: first_vacant_def)
qed

lemma chainedD:
  "chained vacant hash slots \<Longrightarrow> i < length slots \<Longrightarrow> \<not> vacant (slots ! i) \<Longrightarrow>
    j \<in> probed_before (probe_path (hash (slots ! i)) (length slots)) i \<Longrightarrow> \<not> vacant (slots ! j)"
  unfolding chained_def by blast

subsection \<open>The laws of open addressing\<close>

locale open_addressing =
  fixes vacant :: "'b \<Rightarrow> bool"
    and hash :: "'b \<Rightarrow> u64"
    and blank :: 'b
  assumes vacant_blank: "vacant blank"
begin

lemma chained_blank: "chained vacant hash (replicate n blank)"
  by (simp add: chained_def vacant_blank)

lemma occupied_blank: "occupied vacant (replicate n blank) = []"
  by (simp add: vacant_blank)

lemma chained_insert:
  assumes ch: "chained vacant hash slots" and free: "first_vacant vacant slots (hash b) = Some i"
    and b: "\<not> vacant b"
  shows "chained vacant hash (slots[i := b])"
  unfolding chained_def length_list_update
proof (intro allI impI ballI)
  fix j k
  assume j: "j < length slots" and occ: "\<not> vacant ((slots[i := b]) ! j)"
    and k: "k \<in> probed_before (probe_path (hash ((slots[i := b]) ! j)) (length slots)) j"
  note i = first_vacant_SomeD [OF free]
  have "\<not> vacant (slots ! k)" if "k \<noteq> i"
  proof (cases "j = i")
    case True
    with k i(1,3) show ?thesis by simp
  next
    case False
    then show ?thesis using chainedD [OF ch j, of k] occ k by simp
  qed
  then show "\<not> vacant ((slots[i := b]) ! k)"
    using b i(1) by (cases "k = i") simp_all
qed

lemma chained_replace:
  assumes ch: "chained vacant hash slots" and i: "i < length slots" and "\<not> vacant (slots ! i)"
    and b: "\<not> vacant b" and same: "hash b = hash (slots ! i)"
  shows "chained vacant hash (slots[i := b])"
  unfolding chained_def length_list_update
proof (intro allI impI ballI)
  fix j k
  assume j: "j < length slots" and occ: "\<not> vacant ((slots[i := b]) ! j)"
    and k: "k \<in> probed_before (probe_path (hash ((slots[i := b]) ! j)) (length slots)) j"
  have "\<not> vacant (slots ! k)"
    using chainedD [OF ch j, of k] occ k same assms(3) i by (cases "j = i") simp_all
  then show "\<not> vacant ((slots[i := b]) ! k)"
    using b i by (cases "k = i") simp_all
qed

lemma search_hit:
  assumes ch: "chained vacant hash slots" and kd: "keyed vacant hash key key_hash slots"
    and un: "unique_keys vacant key slots"
    and i: "i < length slots" "\<not> vacant (slots ! i)" "key (slots ! i) = k"
  shows "search_key vacant key slots (key_hash k) k = Some i"
  unfolding search_key_def
proof (rule find_SomeI)
  have h: "hash (slots ! i) = key_hash k"
    using kd i unfolding keyed_def by auto
  show "\<forall>j \<in> probed_before (probe_path (key_hash k) (length slots)) i.
      \<not> (vacant (slots ! j) \<or> key (slots ! j) = k)"
  proof
    fix j
    assume j: "j \<in> probed_before (probe_path (key_hash k) (length slots)) i"
    then have occ: "\<not> vacant (slots ! j)" and len: "j < length slots"
      using chainedD [OF ch i(1,2)] probed_before_less by (auto simp: h)
    have "j \<noteq> i" using j by auto
    then have "key (slots ! j) \<noteq> k"
      using unique_keys_index [OF un len i(1) occ i(2)] i(3) by auto
    with occ show "\<not> (vacant (slots ! j) \<or> key (slots ! j) = k)" by simp
  qed
qed (use i in simp_all)

lemma search_miss:
  assumes none: "\<forall>b \<in> set (occupied vacant slots). key b \<noteq> k"
  shows "search_key vacant key slots h k = first_vacant vacant slots h"
  unfolding search_key_def first_vacant_def
  by (rule find_cong_set) (use none in \<open>auto simp: in_occupied_nth\<close>)

lemma place_all_ok:
  assumes "chained vacant hash slots" and "\<forall>b \<in> set bs. \<not> vacant b"
    and "length (occupied vacant slots) + length bs \<le> length slots"
  shows "\<exists>slots'. place_all vacant hash bs slots = Some slots' \<and> length slots' = length slots \<and>
    chained vacant hash slots' \<and> mset (occupied vacant slots') = mset (occupied vacant slots) + mset bs"
  using assms
proof (induction bs arbitrary: slots)
  case Nil
  then show ?case by simp
next
  case (Cons b bs)
  have "length (occupied vacant slots) < length slots" using Cons.prems(3) by simp
  then obtain i where free: "first_vacant vacant slots (hash b) = Some i"
    by (rule first_vacant_exists)
  note i = first_vacant_SomeD [OF free]
  have b: "\<not> vacant b" using Cons.prems(2) by simp
  have mset: "mset (occupied vacant (slots[i := b])) = add_mset b (mset (occupied vacant slots))"
    using i(1,2) b by (rule mset_occupied_update_vacant)
  have "\<exists>slots'. place_all vacant hash bs (slots[i := b]) = Some slots' \<and>
      length slots' = length (slots[i := b]) \<and> chained vacant hash slots' \<and>
      mset (occupied vacant slots') = mset (occupied vacant (slots[i := b])) + mset bs"
  proof (rule Cons.IH)
    show "chained vacant hash (slots[i := b])"
      using Cons.prems(1) free b by (rule chained_insert)
    show "length (occupied vacant (slots[i := b])) + length bs \<le> length (slots[i := b])"
      using occupied_update_vacant [of i slots vacant b] i(1,2) b Cons.prems(3) by simp
  qed (use Cons.prems(2) in simp)
  then show ?case using free mset by auto
qed

text \<open>Moving all buckets of a table to a larger empty one keeps the map it stands for.\<close>

lemma rehash_ok:
  assumes "length (occupied vacant slots) \<le> n"
  shows "\<exists>slots'. place_all vacant hash (occupied vacant slots) (replicate n blank) = Some slots' \<and>
    length slots' = n \<and> chained vacant hash slots' \<and>
    mset (occupied vacant slots') = mset (occupied vacant slots)"
  using place_all_ok [OF chained_blank, of "occupied vacant slots" n] assms
  by (simp add: set_occupied occupied_blank)

end

subsection \<open>Two presentations of one table\<close>

text \<open>
  Two tables that agree slot by slot on vacancy, hash, key and value are interchangeable, whatever
  the types of their slots.
\<close>

definition same_slots ::
  "('a \<Rightarrow> bool) \<Rightarrow> ('a \<Rightarrow> u64) \<Rightarrow> ('a \<Rightarrow> 'k) \<Rightarrow> ('a \<Rightarrow> 'v) \<Rightarrow> 'a list \<Rightarrow>
   ('b \<Rightarrow> bool) \<Rightarrow> ('b \<Rightarrow> u64) \<Rightarrow> ('b \<Rightarrow> 'k) \<Rightarrow> ('b \<Rightarrow> 'v) \<Rightarrow> 'b list \<Rightarrow> bool" where
  "same_slots va ha ka xa as vb hb kb xb bs \<longleftrightarrow>
     list_all2 (\<lambda>a b. va a = vb b \<and> (\<not> va a \<longrightarrow> ha a = hb b \<and> ka a = kb b \<and> xa a = xb b)) as bs"

lemma same_slots_occupied:
  assumes "same_slots va ha ka xa as vb hb kb xb bs"
  shows "map (\<lambda>a. (ka a, xa a)) (occupied va as) = map (\<lambda>b. (kb b, xb b)) (occupied vb bs)"
  using assms unfolding same_slots_def occupied_def
  by (induction rule: list_all2_induct) auto

lemma same_slots_transfer:
  assumes "same_slots va ha ka xa as vb hb kb xb bs"
  shows "length as = length bs" and "length (occupied va as) = length (occupied vb bs)"
    and "unique_keys va ka as = unique_keys vb kb bs"
    and "table_map va ka xa as = table_map vb kb xb bs"
    and "chained va ha as \<Longrightarrow> chained vb hb bs"
proof -
  note occ = same_slots_occupied [OF assms]
  show len: "length as = length bs"
    using assms unfolding same_slots_def by (rule list_all2_lengthD)
  show "length (occupied va as) = length (occupied vb bs)"
    using arg_cong [OF occ, of length] by simp
  have "map fst (map (\<lambda>a. (ka a, xa a)) (occupied va as)) = map fst (map (\<lambda>b. (kb b, xb b)) (occupied vb bs))"
    by (simp only: occ)
  then show "unique_keys va ka as = unique_keys vb kb bs" by (simp add: unique_keys_def comp_def)
  show "table_map va ka xa as = table_map vb kb xb bs" by (simp only: table_map_def occ)
  have nth: "va (as ! i) = vb (bs ! i)" "\<not> va (as ! i) \<Longrightarrow> ha (as ! i) = hb (bs ! i)" if "i < length as" for i
    using assms that unfolding same_slots_def by (auto simp: list_all2_conv_all_nth)
  show "chained vb hb bs" if "chained va ha as"
    unfolding chained_def
  proof (intro allI impI ballI)
    fix i k
    assume i: "i < length bs" and occ: "\<not> vb (bs ! i)"
      and k: "k \<in> probed_before (probe_path (hb (bs ! i)) (length bs)) i"
    have "k < length as" using probed_before_less [OF k] len by simp
    moreover have "\<not> va (as ! k)"
      using chainedD [OF that, of i k] i occ k nth [of i] by (simp add: len)
    ultimately show "\<not> vb (bs ! k)" using nth(1) by simp
  qed
qed

end
