(* ===== verification/Db_State.thy ===== *)
theory Db_State
  imports Doubles Hashing Storage_Format File_IO Probing
begin

text \<open>
  The state of \<open>Database::Impl\<close>: the options, the open descriptors and mappings, the append
  offsets and the flags, together with the files the process sees.  A memory-mapped index is kept
  as the typed view the accessors \<open>IndexHeader()\<close>/\<open>Buckets()\<close> take of the mapped bytes; its bytes
  go back to the file when the mapping ends, as the pages of a shared mapping do.
\<close>

record DatabaseOptions =
  initialBucketCount :: u64
  initialRowBucketCount :: u64
  rowShardCount :: u32
  maxLoadFactor :: double

text \<open>The defaults: 65536 buckets, 8 shards, the double nearest to 0.80.\<close>

definition DatabaseOptions_default :: DatabaseOptions where
  "DatabaseOptions_default =
     \<lparr>initialBucketCount = 65536, initialRowBucketCount = 65536, rowShardCount = 8,
      maxLoadFactor = Fin (fl (4 / 5))\<rparr>"

record StructEntry =
  se_key :: bytes
  se_bytes :: bytes

record RowStructEntry =
  re_key :: bytes
  re_bytes :: bytes

record object_index =
  oi_header :: IndexFileHeader
  oi_buckets :: "IndexBucket list"

record row_index =
  ri_header :: RowIndexFileHeader
  ri_buckets :: "RowIndexBucket list"

record Impl =
  filesys :: fs
  directory :: string
  valuePath :: string
  indexPath :: string
  rowIndexPath :: string
  options :: DatabaseOptions
  valueFile :: "string option"
  indexFile :: "string option"
  rowIndexFile :: "string option"
  valueMap :: "bytes MappedFile"
  indexMap :: "object_index MappedFile"
  rowIndexMap :: "row_index MappedFile"
  rowValueFiles :: "string option list"
  rowValueMaps :: "bytes MappedFile list"
  rowAppendOffsets :: "u64 list"
  rowPendingInsertCount :: u64
  appendOffset :: u64
  opened :: bool
  readOnly :: bool

definition FitsUint32 :: "nat \<Rightarrow> bool" where
  "FitsUint32 n \<longleftrightarrow> n \<le> 4294967295"

definition MagicEquals :: "bytes \<Rightarrow> bytes \<Rightarrow> bool" where
  "MagicEquals lhs rhs \<longleftrightarrow> lhs = rhs"

subsection \<open>Typed views of the mapped indexes\<close>

text \<open>
  The code calls these accessors only while the index is mapped; through an unmapped index they would follow
  a null pointer.  In the model their value is then unspecified, and no theorem depends on it.
\<close>

definition encode_object_index :: "object_index \<Rightarrow> bytes" where
  "encode_object_index v = encode_IndexFileHeader (oi_header v) @ concat (map encode_IndexBucket (oi_buckets v))"

definition decode_object_index :: "bytes \<Rightarrow> object_index" where
  "decode_object_index bs =
     \<lparr>oi_header = decode_IndexFileHeader bs,
      oi_buckets = map (\<lambda>i. decode_IndexBucket (drop (64 + 16 * i) bs)) [0..<(length bs - 64) div 16]\<rparr>"

definition encode_row_index :: "row_index \<Rightarrow> bytes" where
  "encode_row_index v = encode_RowIndexFileHeader (ri_header v) @ concat (map encode_RowIndexBucket (ri_buckets v))"

definition decode_row_index :: "bytes \<Rightarrow> row_index" where
  "decode_row_index bs =
     \<lparr>ri_header = decode_RowIndexFileHeader bs,
      ri_buckets = map (\<lambda>i. decode_RowIndexBucket (drop (64 + 64 * i) bs)) [0..<(length bs - 64) div 64]\<rparr>"

lemma decode_encode_object_index:
  assumes "length (ih_magic (oi_header v)) = 8" and "length (ih_reserved (oi_header v)) = 24"
  shows "decode_object_index (encode_object_index v) = v"
proof -
  define bs where "bs = concat (map encode_IndexBucket (oi_buckets v))"
  have e: "encode_object_index v = encode_IndexFileHeader (oi_header v) @ bs"
    by (simp add: encode_object_index_def bs_def)
  have len: "length bs = 16 * length (oi_buckets v)"
    unfolding bs_def by (rule length_concat_uniform) simp
  have "decode_IndexBucket (drop (16 * i) bs) = oi_buckets v ! i" if "i < length (oi_buckets v)" for i
  proof -
    have "drop (16 * i) bs = encode_IndexBucket (oi_buckets v ! i) @
        concat (map encode_IndexBucket (drop (Suc i) (oi_buckets v)))"
      unfolding bs_def using that by (intro drop_concat_uniform) simp_all
    then show ?thesis by simp
  qed
  then have "map (\<lambda>i. decode_IndexBucket (drop (16 * i) bs)) [0..<length (oi_buckets v)] = oi_buckets v"
    by (intro nth_equalityI) simp_all
  then show ?thesis
    using assms by (simp add: e decode_object_index_def len)
qed

lemma length_encode_object_index:
  assumes "length (ih_magic (oi_header v)) = 8" and "length (ih_reserved (oi_header v)) = 24"
  shows "length (encode_object_index v) = 64 + 16 * length (oi_buckets v)"
  using assms by (simp add: encode_object_index_def length_concat_uniform [where n = 16])

lemma decode_encode_row_index:
  assumes "length (rih_magic (ri_header v)) = 8" and "length (rih_reserved (ri_header v)) = 16"
  shows "decode_row_index (encode_row_index v) = v"
proof -
  define bs where "bs = concat (map encode_RowIndexBucket (ri_buckets v))"
  have e: "encode_row_index v = encode_RowIndexFileHeader (ri_header v) @ bs"
    by (simp add: encode_row_index_def bs_def)
  have len: "length bs = 64 * length (ri_buckets v)"
    unfolding bs_def by (rule length_concat_uniform) simp
  have "decode_RowIndexBucket (drop (64 * i) bs) = ri_buckets v ! i" if "i < length (ri_buckets v)" for i
  proof -
    have "drop (64 * i) bs = encode_RowIndexBucket (ri_buckets v ! i) @
        concat (map encode_RowIndexBucket (drop (Suc i) (ri_buckets v)))"
      unfolding bs_def using that by (intro drop_concat_uniform) simp_all
    then show ?thesis by simp
  qed
  then have "map (\<lambda>i. decode_RowIndexBucket (drop (64 * i) bs)) [0..<length (ri_buckets v)] = ri_buckets v"
    by (intro nth_equalityI) simp_all
  then show ?thesis
    using assms by (simp add: e decode_row_index_def len)
qed

lemma length_encode_row_index:
  assumes "length (rih_magic (ri_header v)) = 8" and "length (rih_reserved (ri_header v)) = 16"
  shows "length (encode_row_index v) = 64 + 64 * length (ri_buckets v)"
  using assms by (simp add: encode_row_index_def length_concat_uniform [where n = 64])

definition IndexHeader :: "Impl \<Rightarrow> IndexFileHeader" where
  "IndexHeader db = oi_header (the (mapped_data (indexMap db)))"

definition Buckets :: "Impl \<Rightarrow> IndexBucket list" where
  "Buckets db = oi_buckets (the (mapped_data (indexMap db)))"

definition RowIndexHeader :: "Impl \<Rightarrow> RowIndexFileHeader" where
  "RowIndexHeader db = ri_header (the (mapped_data (rowIndexMap db)))"

definition RowBuckets :: "Impl \<Rightarrow> RowIndexBucket list" where
  "RowBuckets db = ri_buckets (the (mapped_data (rowIndexMap db)))"

definition set_IndexHeader :: "IndexFileHeader \<Rightarrow> Impl \<Rightarrow> Impl" where
  "set_IndexHeader h db =
     db\<lparr>indexMap := (indexMap db)\<lparr>mapped_data := map_option (\<lambda>v. v\<lparr>oi_header := h\<rparr>) (mapped_data (indexMap db))\<rparr>\<rparr>"

definition set_Bucket :: "nat \<Rightarrow> IndexBucket \<Rightarrow> Impl \<Rightarrow> Impl" where
  "set_Bucket i b db =
     db\<lparr>indexMap := (indexMap db)\<lparr>mapped_data :=
       map_option (\<lambda>v. v\<lparr>oi_buckets := (oi_buckets v)[i := b]\<rparr>) (mapped_data (indexMap db))\<rparr>\<rparr>"

definition set_RowIndexHeader :: "RowIndexFileHeader \<Rightarrow> Impl \<Rightarrow> Impl" where
  "set_RowIndexHeader h db =
     db\<lparr>rowIndexMap := (rowIndexMap db)\<lparr>mapped_data :=
       map_option (\<lambda>v. v\<lparr>ri_header := h\<rparr>) (mapped_data (rowIndexMap db))\<rparr>\<rparr>"

definition set_RowBucket :: "nat \<Rightarrow> RowIndexBucket \<Rightarrow> Impl \<Rightarrow> Impl" where
  "set_RowBucket i b db =
     db\<lparr>rowIndexMap := (rowIndexMap db)\<lparr>mapped_data :=
       map_option (\<lambda>v. v\<lparr>ri_buckets := (ri_buckets v)[i := b]\<rparr>) (mapped_data (rowIndexMap db))\<rparr>\<rparr>"

text \<open>\<open>++IndexHeader()->itemCount\<close>\<close>

definition increment_itemCount :: "Impl \<Rightarrow> Impl" where
  "increment_itemCount db =
     set_IndexHeader ((IndexHeader db)\<lparr>ih_itemCount := ih_itemCount (IndexHeader db) + 1\<rparr>) db"

definition increment_rowItemCount :: "Impl \<Rightarrow> Impl" where
  "increment_rowItemCount db =
     set_RowIndexHeader ((RowIndexHeader db)\<lparr>rih_itemCount := rih_itemCount (RowIndexHeader db) + 1\<rparr>) db"

subsection \<open>Unmapping and closing\<close>

definition unmap_index :: "Impl \<Rightarrow> Impl" where
  "unmap_index db =
     (case (mapped_data (indexMap db), indexFile db) of
        (Some v, Some path) \<Rightarrow>
          (if mapped_writable (indexMap db)
           then db\<lparr>filesys := set_file (filesys db) path (encode_object_index v), indexMap := Unmapped\<rparr>
           else db\<lparr>indexMap := Unmapped\<rparr>)
      | _ \<Rightarrow> db\<lparr>indexMap := Unmapped\<rparr>)"

definition unmap_row_index :: "Impl \<Rightarrow> Impl" where
  "unmap_row_index db =
     (case (mapped_data (rowIndexMap db), rowIndexFile db) of
        (Some v, Some path) \<Rightarrow>
          (if mapped_writable (rowIndexMap db)
           then db\<lparr>filesys := set_file (filesys db) path (encode_row_index v), rowIndexMap := Unmapped\<rparr>
           else db\<lparr>rowIndexMap := Unmapped\<rparr>)
      | _ \<Rightarrow> db\<lparr>rowIndexMap := Unmapped\<rparr>)"

definition CloseFiles :: "Impl \<Rightarrow> Impl" where
  "CloseFiles db =
     (let db1 = unmap_row_index (db\<lparr>rowValueMaps := []\<rparr>);
          db2 = db1\<lparr>rowIndexFile := None, rowValueFiles := [], rowAppendOffsets := [],
                    rowPendingInsertCount := 0\<rparr>;
          db3 = unmap_index db2
      in db3\<lparr>indexFile := None, valueMap := Unmapped, valueFile := None, appendOffset := 0\<rparr>)"

subsection \<open>Reading value bytes\<close>

definition ReadValueAt :: "os \<Rightarrow> Impl \<Rightarrow> nat \<Rightarrow> u64 \<Rightarrow> Status + bytes" where
  "ReadValueAt os db n off =
     (case mapped_data (valueMap db) of
        None \<Rightarrow> ReadAllAt os (filesys db) (valueFile db) n off
      | Some data \<Rightarrow>
          (if off > mapped_size (valueMap db) \<or> n > unat (mapped_size (valueMap db) - off)
           then Inl (Corruption ''value read extends beyond file size'')
           else Inr (if n \<noteq> 0 then take n (drop (unat off) data) else [])))"

definition ReadRowValueAt :: "os \<Rightarrow> Impl \<Rightarrow> u32 \<Rightarrow> nat \<Rightarrow> u64 \<Rightarrow> Status + bytes" where
  "ReadRowValueAt os db shardId n off =
     (let s = unat shardId in
      if s \<ge> length (rowValueFiles db) then Inl (Corruption ''row index points to an invalid shard'')
      else if s \<ge> length (rowValueMaps db) \<or> \<not> IsMapped (rowValueMaps db ! s)
      then ReadAllAt os (filesys db) (rowValueFiles db ! s) n off
      else
        let m = rowValueMaps db ! s in
        if off > mapped_size m \<or> n > unat (mapped_size m - off)
        then Inl (Corruption ''row value read extends beyond file size'')
        else Inr (if n \<noteq> 0 then take n (drop (unat off) (the (mapped_data m))) else []))"

subsection \<open>Counters\<close>

definition IsOpen :: "Impl \<Rightarrow> bool" where
  "IsOpen db = opened db"

definition EntryCount :: "Impl \<Rightarrow> u64" where
  "EntryCount db = (if \<not> IsMapped (indexMap db) then 0 else ih_itemCount (IndexHeader db))"

definition BucketCount :: "Impl \<Rightarrow> u64" where
  "BucketCount db = (if \<not> IsMapped (indexMap db) then 0 else ih_bucketCount (IndexHeader db))"

definition RowCount :: "Impl \<Rightarrow> u64" where
  "RowCount db = (if \<not> IsMapped (rowIndexMap db) then 0 else rih_itemCount (RowIndexHeader db))"

definition RowBucketCount :: "Impl \<Rightarrow> u64" where
  "RowBucketCount db = (if \<not> IsMapped (rowIndexMap db) then 0 else rih_bucketCount (RowIndexHeader db))"

end
