(* ===== verification/Object_Index.thy ===== *)
theory Object_Index
  imports Db_State
begin

text \<open>
  The object index of \<open>database.cpp\<close>: the open-addressing table of (hash, record offset) buckets,
  the search that confirms a hash hit against the record in the value file, placement, creation,
  validation, and growth.  A function that may run forever returns an option, \<open>None\<close> being a
  call that does not return; the other result shapes are those of \<open>Status_Codes\<close>.
\<close>

record BucketLookup =
  lookup_index :: nat
  lookup_found :: bool

definition IsValidRecordHeader :: "ValueRecordHeader \<Rightarrow> bool" where
  "IsValidRecordHeader recordHeader \<longleftrightarrow>
     vr_magic recordHeader = kRecordMagic \<and>
     vr_version recordHeader = of_nat kStorageVersion \<and>
     vr_headerSize recordHeader = 24"

definition ReadRecordColumnKey ::
  "os \<Rightarrow> Impl \<Rightarrow> u64 \<Rightarrow> ValueRecordHeader \<Rightarrow> Status + bytes \<times> bytes" where
  "ReadRecordColumnKey os db recordOffset recordHeader =
     (let columnSize = unat (vr_columnSize recordHeader);
          keySize = unat (vr_keySize recordHeader);
          off = recordOffset + 24
      in case ReadValueAt os db columnSize off of
           Inl status \<Rightarrow> Inl status
         | Inr column \<Rightarrow>
             (case ReadValueAt os db keySize (off + of_nat columnSize) of
                Inl status \<Rightarrow> Inl status
              | Inr key \<Rightarrow> Inr (column, key)))"

definition RecordMatches :: "os \<Rightarrow> Impl \<Rightarrow> IndexBucket \<Rightarrow> bytes \<Rightarrow> bytes \<Rightarrow> Status + bool" where
  "RecordMatches os db bucket column key =
     (case ReadValueAt os db 24 (ib_recordOffset bucket) of
        Inl status \<Rightarrow> Inl status
      | Inr bs \<Rightarrow>
          (let recordHeader = decode_ValueRecordHeader bs in
           if \<not> IsValidRecordHeader recordHeader
           then Inl (Corruption ''index points to an invalid value record'')
           else if unat (vr_columnSize recordHeader) \<noteq> length column \<or>
                   unat (vr_keySize recordHeader) \<noteq> length key
           then Inr False
           else case ReadRecordColumnKey os db (ib_recordOffset bucket) recordHeader of
               Inl status \<Rightarrow> Inl status
             | Inr (storedColumn, storedKey) \<Rightarrow> Inr (storedColumn = column \<and> storedKey = key)))"

text \<open>The probing loop of \<open>FindBucket\<close>, over the remaining probe indices.\<close>

fun find_bucket_loop ::
  "os \<Rightarrow> Impl \<Rightarrow> bytes \<Rightarrow> bytes \<Rightarrow> u64 \<Rightarrow> nat list \<Rightarrow> Status + BucketLookup" where
  "find_bucket_loop os db column key hash [] = Inl (Corruption ''index table is full'')"
| "find_bucket_loop os db column key hash (index # probes) =
     (let bucket = Buckets db ! index in
      if ib_hash bucket = 0 then Inr \<lparr>lookup_index = index, lookup_found = False\<rparr>
      else if ib_hash bucket \<noteq> hash then find_bucket_loop os db column key hash probes
      else case RecordMatches os db bucket column key of
          Inl status \<Rightarrow> Inl status
        | Inr matches \<Rightarrow>
            (if matches then Inr \<lparr>lookup_index = index, lookup_found = True\<rparr>
             else find_bucket_loop os db column key hash probes))"

definition FindBucket :: "os \<Rightarrow> Impl \<Rightarrow> bytes \<Rightarrow> bytes \<Rightarrow> u64 \<Rightarrow> u64 \<Rightarrow> Status + BucketLookup" where
  "FindBucket os db column key columnHash keyHash =
     (let bucketCount = ih_bucketCount (IndexHeader db);
          mask = bucketCount - 1;
          hash = ObjectIndexHash columnHash keyHash;
          start = hash AND mask
      in find_bucket_loop os db column key hash (probe_indices start bucketCount))"

text \<open>\<open>PlaceExistingBucket\<close> and \<open>PlaceNewBucket\<close> differ in their error text only.\<close>

definition PlaceExistingBucket :: "Impl \<Rightarrow> IndexBucket \<Rightarrow> Status \<times> Impl" where
  "PlaceExistingBucket db bucket =
     (let bucketCount = ih_bucketCount (IndexHeader db);
          mask = bucketCount - 1;
          start = ib_hash bucket AND mask
      in case find (\<lambda>index. ib_hash (Buckets db ! index) = 0) (probe_indices start bucketCount) of
           Some index \<Rightarrow> (Ok, set_Bucket index bucket db)
         | None \<Rightarrow> (Corruption ''index table is full during resize'', db))"

definition PlaceNewBucket :: "Impl \<Rightarrow> IndexBucket \<Rightarrow> Status \<times> Impl" where
  "PlaceNewBucket db bucket =
     (let bucketCount = ih_bucketCount (IndexHeader db);
          mask = bucketCount - 1;
          start = ib_hash bucket AND mask
      in case find (\<lambda>index. ib_hash (Buckets db ! index) = 0) (probe_indices start bucketCount) of
           Some index \<Rightarrow> (Ok, set_Bucket index bucket db)
         | None \<Rightarrow> (Corruption ''index table is full during unique insert'', db))"

text \<open>
  The mapped region of \<open>CreateEmptyIndex\<close> holds as many buckets as fit in the (64-bit) file size;
  \<open>memset\<close> makes them empty and the header is written over it.
\<close>

definition CreateEmptyIndex :: "os \<Rightarrow> Impl \<Rightarrow> u64 \<Rightarrow> (Status \<times> Impl) option" where
  "CreateEmptyIndex os db requested =
     (case RoundUpPowerOfTwo requested of
        None \<Rightarrow> None
      | Some bucketCount \<Rightarrow>
          (let fileSize = 64 + bucketCount * 16;
               db1 = unmap_index db;
               (status, fs) = TruncateFile os (filesys db1) (indexFile db1) fileSize;
               db2 = db1\<lparr>filesys := fs\<rparr>
           in if \<not> IsOk status then Some (status, db2)
              else
                let view = \<lparr>oi_header = IndexFileHeader_default\<lparr>ih_bucketCount := bucketCount\<rparr>,
                            oi_buckets = replicate ((unat fileSize - 64) div 16) IndexBucket_default\<rparr>;
                    (status, m) = MapWithProtection os (indexFile db2) view fileSize True
                in Some (status, db2\<lparr>indexMap := m\<rparr>)))"

text \<open>
  The size of the file is compared with a product taken in 64 bits.  Where it wraps, the count below reads
  buckets behind the mapping, which is undefined behaviour: \<open>None\<close>.
\<close>

definition HasValidIndexLayout :: "Impl \<Rightarrow> u64 \<Rightarrow> bool option" where
  "HasValidIndexLayout db fileSize =
     (if fileSize < 64 then Some False
      else
        let header = IndexHeader db in
        if \<not> MagicEquals (ih_magic header) kIndexFileMagic \<or>
           ih_version header \<noteq> of_nat kStorageVersion \<or> ih_headerSize header \<noteq> 64
        then Some False
        else if ih_bucketCount header = 0 \<or>
                ih_bucketCount header AND (ih_bucketCount header - 1) \<noteq> 0
        then Some False
        else
          let expectedSize = 64 + ih_bucketCount header * 16 in
          if expectedSize \<noteq> fileSize \<or> ih_itemCount header > ih_bucketCount header
          then Some False
          else if length (Buckets db) < unat (ih_bucketCount header) then None
          else Some
            ((of_nat (length (filter (\<lambda>index. ib_hash (Buckets db ! index) \<noteq> 0)
               [0..<unat (ih_bucketCount header)])) :: u64) = ih_itemCount header))"

text \<open>The loop that re-places the old buckets after a resize.\<close>

fun place_existing_all :: "IndexBucket list \<Rightarrow> Impl \<Rightarrow> Status \<times> Impl" where
  "place_existing_all [] db = (Ok, db)"
| "place_existing_all (bucket # rest) db =
     (let (status, db1) = PlaceExistingBucket db bucket in
      if \<not> IsOk status then (status, db1)
      else place_existing_all rest (increment_itemCount db1))"

definition ResizeIndex :: "os \<Rightarrow> Impl \<Rightarrow> u64 \<Rightarrow> (Status \<times> Impl) option" where
  "ResizeIndex os db newBucketCount =
     (let oldBuckets = filter (\<lambda>bucket. ib_hash bucket \<noteq> 0)
            (map (\<lambda>index. Buckets db ! index) [0..<unat (ih_bucketCount (IndexHeader db))]);
          nextSequence = ih_nextSequence (IndexHeader db)
      in case CreateEmptyIndex os db newBucketCount of
           None \<Rightarrow> None
         | Some (status, db1) \<Rightarrow>
             if \<not> IsOk status then Some (status, db1)
             else Some (place_existing_all oldBuckets
                    (set_IndexHeader ((IndexHeader db1)\<lparr>ih_nextSequence := nextSequence\<rparr>) db1)))"

text \<open>The doubling loop of \<open>EnsureCapacityForInsert\<close>; the product wraps as in the code.\<close>

partial_function (option) capacity_loop :: "u64 \<Rightarrow> double \<Rightarrow> u64 \<Rightarrow> u64 option" where
  "capacity_loop itemTotal maxLoad bucketCount =
     (if dgt (ddiv (double_of_u64 itemTotal) (double_of_u64 bucketCount)) maxLoad
      then capacity_loop itemTotal maxLoad (bucketCount * 2)
      else Some bucketCount)"

definition EnsureCapacityForInsert :: "os \<Rightarrow> Impl \<Rightarrow> u64 \<Rightarrow> (Status \<times> Impl) option" where
  "EnsureCapacityForInsert os db insertCount =
     (let header = IndexHeader db in
      case capacity_loop (ih_itemCount header + insertCount) (maxLoadFactor (options db))
             (ih_bucketCount header) of
        None \<Rightarrow> None
      | Some bucketCount \<Rightarrow>
          if bucketCount = ih_bucketCount header then Some (Ok, db)
          else ResizeIndex os db bucketCount)"

subsection \<open>Records of the value file\<close>

text \<open>
  \<open>record_at\<close> is the specification of what an index bucket stands for: the column, key and value of
  the record that starts at an offset, if a valid record lies there.
\<close>

definition header_at :: "bytes \<Rightarrow> nat \<Rightarrow> ValueRecordHeader" where
  "header_at content off = decode_ValueRecordHeader (take 24 (drop off content))"

definition record_end :: "bytes \<Rightarrow> nat \<Rightarrow> nat" where
  "record_end content off =
     (let h = header_at content off
      in off + 24 + unat (vr_columnSize h) + unat (vr_keySize h) + unat (vr_valueSize h))"

definition record_at :: "bytes \<Rightarrow> nat \<Rightarrow> (bytes \<times> bytes \<times> bytes) option" where
  "record_at content off =
     (let h = header_at content off; cs = unat (vr_columnSize h); ks = unat (vr_keySize h);
          vs = unat (vr_valueSize h)
      in if off + 24 \<le> length content \<and> IsValidRecordHeader h \<and> record_end content off \<le> length content
         then Some (take cs (drop (off + 24) content), take ks (drop (off + 24 + cs) content),
                    take vs (drop (off + 24 + cs + ks) content))
         else None)"

definition bucket_record :: "bytes \<Rightarrow> IndexBucket \<Rightarrow> (bytes \<times> bytes \<times> bytes) option" where
  "bucket_record content b = record_at content (unat (ib_recordOffset b))"

definition bucket_key :: "bytes \<Rightarrow> IndexBucket \<Rightarrow> bytes \<times> bytes" where
  "bucket_key content b =
     (case bucket_record content b of None \<Rightarrow> ([], []) | Some (column, key, _) \<Rightarrow> (column, key))"

definition bucket_value :: "bytes \<Rightarrow> IndexBucket \<Rightarrow> bytes" where
  "bucket_value content b =
     (case bucket_record content b of None \<Rightarrow> [] | Some (_, _, value) \<Rightarrow> value)"

definition object_hash :: "bytes \<times> bytes \<Rightarrow> u64" where
  "object_hash = (\<lambda>(column, key). ObjectIndexHash (HashString column) (HashString key))"

abbreviation vacant_bucket :: "IndexBucket \<Rightarrow> bool" where
  "vacant_bucket b \<equiv> ib_hash b = 0"

definition object_map :: "bytes \<Rightarrow> IndexBucket list \<Rightarrow> (bytes \<times> bytes \<rightharpoonup> bytes)" where
  "object_map content buckets = table_map vacant_bucket (bucket_key content) (bucket_value content) buckets"

text \<open>The table invariant of the object index, relative to the records of a value file.\<close>

definition object_table_ok :: "bytes \<Rightarrow> IndexBucket list \<Rightarrow> bool" where
  "object_table_ok content buckets \<longleftrightarrow>
     (\<forall>b \<in> set buckets. \<not> vacant_bucket b \<longrightarrow> bucket_record content b \<noteq> None) \<and>
     chained vacant_bucket ib_hash buckets \<and>
     keyed vacant_bucket ib_hash (bucket_key content) object_hash buckets \<and>
     unique_keys vacant_bucket (bucket_key content) buckets"

text \<open>The fields of the index header that no operation changes.\<close>

definition index_header_ok :: "IndexFileHeader \<Rightarrow> bool" where
  "index_header_ok h \<longleftrightarrow>
     ih_magic h = kIndexFileMagic \<and> ih_version h = of_nat kStorageVersion \<and> ih_headerSize h = 64 \<and>
     length (ih_reserved h) = 24"

lemma index_header_ok_simps [simp]:
  "index_header_ok (h\<lparr>ih_itemCount := n\<rparr>) = index_header_ok h"
  "index_header_ok (h\<lparr>ih_bucketCount := n\<rparr>) = index_header_ok h"
  "index_header_ok (h\<lparr>ih_nextSequence := n\<rparr>) = index_header_ok h"
  "index_header_ok IndexFileHeader_default"
  by (simp_all add: index_header_ok_def IndexFileHeader_default_def)

definition object_index_ok :: "bytes \<Rightarrow> object_index \<Rightarrow> bool" where
  "object_index_ok content v \<longleftrightarrow>
     index_header_ok (oi_header v) \<and>
     (\<exists>k \<le> 58. ih_bucketCount (oi_header v) = 2 ^ k \<and> length (oi_buckets v) = 2 ^ k) \<and>
     unat (ih_itemCount (oi_header v)) = length (occupied vacant_bucket (oi_buckets v)) \<and>
     length (occupied vacant_bucket (oi_buckets v)) < length (oi_buckets v) \<and>
     object_table_ok content (oi_buckets v)"

interpretation object_table: open_addressing vacant_bucket ib_hash IndexBucket_default
  by unfold_locales (simp add: IndexBucket_default_def)

subsection \<open>Extending the value file keeps its records\<close>

lemma record_at_extend:
  assumes "record_at c off = Some r" and "take (length c) c' = c"
  shows "record_at c' off = Some r"
proof -
  have len: "length c \<le> length c'"
    using assms(2) by (metis length_take min.cobounded1)
  have slice: "take n (drop o1 c') = take n (drop o1 c)" if "o1 + n \<le> length c" for o1 n
  proof -
    have "take n (drop o1 (take (length c) c')) = take n (drop o1 c')"
      using that by (simp add: drop_take min_def)
    then show ?thesis by (simp add: assms(2))
  qed
  have off: "off + 24 \<le> length c"
    using assms(1) by (auto simp: record_at_def Let_def split: if_splits)
  have h: "header_at c' off = header_at c off"
    using off by (simp add: header_at_def slice)
  then have e: "record_end c' off = record_end c off" by (simp add: record_end_def)
  have "record_end c off \<le> length c"
    using assms(1) by (auto simp: record_at_def Let_def split: if_splits)
  then show ?thesis
    using assms(1) len off by (auto simp: record_at_def Let_def h e record_end_def slice split: if_splits)
qed

lemma bucket_extend:
  assumes "bucket_record c b \<noteq> None" and "take (length c) c' = c"
  shows "bucket_record c' b = bucket_record c b" and "bucket_key c' b = bucket_key c b"
    and "bucket_value c' b = bucket_value c b"
proof -
  obtain r where r: "bucket_record c b = Some r" using assms(1) by blast
  then show "bucket_record c' b = bucket_record c b"
    unfolding bucket_record_def using record_at_extend [OF _ assms(2)] by simp
  then show "bucket_key c' b = bucket_key c b" and "bucket_value c' b = bucket_value c b"
    by (simp_all add: bucket_key_def bucket_value_def)
qed

lemma unique_keys_cong:
  assumes "\<And>b. b \<in> set slots \<Longrightarrow> \<not> vacant b \<Longrightarrow> f b = g b"
  shows "unique_keys vacant f slots = unique_keys vacant g slots"
proof -
  have "map f (occupied vacant slots) = map g (occupied vacant slots)"
    using assms by (intro map_cong) (auto simp: set_occupied)
  then show ?thesis by (simp only: unique_keys_def)
qed

lemma keyed_cong:
  assumes "\<And>b. b \<in> set slots \<Longrightarrow> \<not> vacant b \<Longrightarrow> f b = g b"
  shows "keyed vacant hash f kh slots = keyed vacant hash g kh slots"
  using assms by (auto simp: keyed_def)

lemma table_map_cong:
  assumes "\<And>b. b \<in> set slots \<Longrightarrow> \<not> vacant b \<Longrightarrow> f b = g b \<and> v b = w b"
  shows "table_map vacant f v slots = table_map vacant g w slots"
proof -
  have "map (\<lambda>b. (f b, v b)) (occupied vacant slots) = map (\<lambda>b. (g b, w b)) (occupied vacant slots)"
    using assms by (intro map_cong) (auto simp: set_occupied)
  then show ?thesis by (simp only: table_map_def)
qed

lemma object_table_extend:
  assumes "object_table_ok c buckets" and "take (length c) c' = c"
  shows "object_table_ok c' buckets \<and> object_map c' buckets = object_map c buckets"
proof -
  have rec: "bucket_record c b \<noteq> None" if "b \<in> set buckets" "\<not> vacant_bucket b" for b
    using assms(1) that by (auto simp: object_table_ok_def)
  note ext = bucket_extend [OF rec assms(2)]
  have "unique_keys vacant_bucket (bucket_key c') buckets = unique_keys vacant_bucket (bucket_key c) buckets"
    by (rule unique_keys_cong) (rule ext(2))
  moreover have "keyed vacant_bucket ib_hash (bucket_key c') object_hash buckets =
      keyed vacant_bucket ib_hash (bucket_key c) object_hash buckets"
    by (rule keyed_cong) (rule ext(2))
  moreover have "object_map c' buckets = object_map c buckets"
    unfolding object_map_def by (rule table_map_cong) (simp add: ext(2,3))
  moreover have "\<forall>b \<in> set buckets. \<not> vacant_bucket b \<longrightarrow> bucket_record c' b \<noteq> None"
    using rec ext(1) by simp
  ultimately show ?thesis using assms(1) by (simp add: object_table_ok_def)
qed

lemma object_index_extend:
  assumes "object_index_ok c v" and "take (length c) c' = c"
  shows "object_index_ok c' v"
  using assms(1) object_table_extend [OF _ assms(2)] unfolding object_index_ok_def by blast

subsection \<open>Reading the value file\<close>

definition value_bytes :: "Impl \<Rightarrow> bytes" where
  "value_bytes db =
     (case mapped_data (valueMap db) of
        Some data \<Rightarrow> data
      | None \<Rightarrow> file_content (filesys db) (the (valueFile db)))"

definition value_readable :: "Impl \<Rightarrow> bool" where
  "value_readable db \<longleftrightarrow>
     (case mapped_data (valueMap db) of
        Some data \<Rightarrow> unat (mapped_size (valueMap db)) = length data
      | None \<Rightarrow> valueFile db \<noteq> None) \<and>
     length (value_bytes db) < 2 ^ 63"

lemma ReadValueAt_ok:
  assumes "reads_ok os" and "value_readable db" and "unat off + n \<le> length (value_bytes db)"
  shows "ReadValueAt os db n off = Inr (take n (drop (unat off) (value_bytes db)))"
proof (cases "mapped_data (valueMap db)")
  case None
  then obtain path where path: "valueFile db = Some path"
    using assms(2) by (auto simp: value_readable_def)
  then have bytes: "value_bytes db = file_content (filesys db) path"
    using None by (simp add: value_bytes_def)
  then have "length (file_content (filesys db) path) < 2 ^ 63"
    using assms(2) by (simp add: value_readable_def)
  then show ?thesis
    using None path bytes assms(1,3)
    by (auto simp: ReadValueAt_def ReadAllAt_ok read_result_def off_negative_def)
next
  case (Some data)
  then have "unat (mapped_size (valueMap db)) = length data" and bytes: "value_bytes db = data"
    using assms(2) by (simp_all add: value_readable_def value_bytes_def)
  then show ?thesis
    using Some assms(3) by (auto simp: ReadValueAt_def word_less_nat_alt unat_sub64)
qed

lemma record_at_bounds:
  assumes "record_at c off = Some (column, key, v)" and "length c < 2 ^ 63"
  shows "off + 24 + length column + length key + length v \<le> length c"
    and "unat (vr_columnSize (header_at c off)) = length column"
    and "unat (vr_keySize (header_at c off)) = length key"
    and "unat (vr_valueSize (header_at c off)) = length v"
    and "IsValidRecordHeader (header_at c off)"
    and "take (length column) (drop (off + 24) c) = column"
    and "take (length key) (drop (off + 24 + length column) c) = key"
    and "take (length v) (drop (off + 24 + length column + length key) c) = v"
  using assms by (auto simp: record_at_def Let_def record_end_def split: if_splits)

lemma ReadRecordColumnKey_ok:
  assumes "reads_ok os" and readable: "value_readable db"
    and rec: "record_at (value_bytes db) (unat off) = Some (column, key, v)"
  shows "ReadRecordColumnKey os db off (header_at (value_bytes db) (unat off)) = Inr (column, key)"
proof -
  have len: "length (value_bytes db) < 2 ^ 63" using readable by (simp add: value_readable_def)
  note b = record_at_bounds [OF rec len]
  have o1: "unat (off + 24) = unat off + 24"
    using b(1) len unat_add_of_nat64 [of off 24] by simp
  have o2: "unat (off + 24 + of_nat (length column)) = unat off + 24 + length column"
    using b(1) len unat_add_of_nat64 [of "off + 24" "length column"] by (simp add: o1)
  show ?thesis
    using b(1) by (simp add: ReadRecordColumnKey_def Let_def b(2,3,6,7)
        ReadValueAt_ok [OF assms(1) readable] o1 o2)
qed

lemma RecordMatches_ok:
  assumes "reads_ok os" and readable: "value_readable db"
    and rec: "bucket_record (value_bytes db) b = Some (c, k, v)"
  shows "RecordMatches os db b column key = Inr (c = column \<and> k = key)"
proof -
  have len: "length (value_bytes db) < 2 ^ 63" using readable by (simp add: value_readable_def)
  note rec' = rec [unfolded bucket_record_def]
  note b = record_at_bounds [OF rec' len]
  have h: "decode_ValueRecordHeader (take 24 (drop (unat (ib_recordOffset b)) (value_bytes db))) =
      header_at (value_bytes db) (unat (ib_recordOffset b))"
    by (simp add: header_at_def)
  have "unat (ib_recordOffset b) + 24 \<le> length (value_bytes db)" using b(1) by simp
  from ReadValueAt_ok [OF assms(1) readable this]
  show ?thesis
    using ReadRecordColumnKey_ok [OF assms(1) readable rec']
    by (auto simp: RecordMatches_def Let_def h b(2,3,5))
qed

subsection \<open>What \<open>FindBucket\<close> finds\<close>

lemma find_bucket_loop_ok:
  assumes "reads_ok os" and "value_readable db" and ok: "object_table_ok (value_bytes db) (Buckets db)"
    and "\<forall>i \<in> set probes. i < length (Buckets db)"
  shows "find_bucket_loop os db column key (object_hash (column, key)) probes =
    (case find (\<lambda>i. vacant_bucket (Buckets db ! i) \<or>
              bucket_key (value_bytes db) (Buckets db ! i) = (column, key)) probes of
       None \<Rightarrow> Inl (Corruption ''index table is full'')
     | Some i \<Rightarrow> Inr \<lparr>lookup_index = i, lookup_found = \<not> vacant_bucket (Buckets db ! i)\<rparr>)"
  using assms(4)
proof (induction probes)
  case Nil
  then show ?case by simp
next
  case (Cons i probes)
  define b where "b = Buckets db ! i"
  have b: "b \<in> set (Buckets db)" using Cons.prems by (simp add: b_def)
  have IH: "find_bucket_loop os db column key (object_hash (column, key)) probes =
    (case find (\<lambda>i. vacant_bucket (Buckets db ! i) \<or>
              bucket_key (value_bytes db) (Buckets db ! i) = (column, key)) probes of
       None \<Rightarrow> Inl (Corruption ''index table is full'')
     | Some i \<Rightarrow> Inr \<lparr>lookup_index = i, lookup_found = \<not> vacant_bucket (Buckets db ! i)\<rparr>)"
    using Cons by simp
  show ?case
  proof (cases "vacant_bucket b")
    case True
    then show ?thesis by (simp add: b_def Let_def)
  next
    case False
    then obtain c k v where rec: "bucket_record (value_bytes db) b = Some (c, k, v)"
      using ok b by (fastforce simp: object_table_ok_def)
    then have bk: "bucket_key (value_bytes db) b = (c, k)" by (simp add: bucket_key_def)
    have h: "ib_hash b = object_hash (c, k)"
      using ok b False bk by (auto simp: object_table_ok_def keyed_def)
    show ?thesis
    proof (cases "ib_hash b = object_hash (column, key)")
      case True
      then show ?thesis
        using RecordMatches_ok [OF assms(1,2) rec, of column key] False IH bk
        by (auto simp: Let_def b_def [symmetric])
    next
      case neq: False
      then have "(c, k) \<noteq> (column, key)" using h by auto
      then show ?thesis
        using neq False IH bk by (auto simp: Let_def b_def [symmetric])
    qed
  qed
qed

lemma object_hash_nonzero [simp]: "object_hash k \<noteq> 0"
  by (simp add: object_hash_def ObjectIndexHash_def Let_def split: prod.split)

lemma object_index_okD:
  assumes "object_index_ok c v"
  obtains k where "k \<le> 58" "ih_bucketCount (oi_header v) = 2 ^ k" "length (oi_buckets v) = 2 ^ k"
  using assms unfolding object_index_ok_def by blast

lemma object_probes:
  assumes "object_index_ok c v"
  shows "probe_indices (h AND (ih_bucketCount (oi_header v) - 1)) (ih_bucketCount (oi_header v)) =
    probe_path h (length (oi_buckets v))"
proof -
  obtain k where "k \<le> 58" "ih_bucketCount (oi_header v) = 2 ^ k" "length (oi_buckets v) = 2 ^ k"
    using assms by (rule object_index_okD)
  then show ?thesis using probe_indices_pow2 [of k h] by simp
qed

lemma FindBucket_ok:
  assumes "reads_ok os" and "value_readable db" and v: "mapped_data (indexMap db) = Some v"
    and ok: "object_index_ok (value_bytes db) v"
  shows "FindBucket os db column key (HashString column) (HashString key) =
    (case search_key vacant_bucket (bucket_key (value_bytes db)) (oi_buckets v)
            (object_hash (column, key)) (column, key) of
       None \<Rightarrow> Inl (Corruption ''index table is full'')
     | Some i \<Rightarrow> Inr \<lparr>lookup_index = i, lookup_found = \<not> vacant_bucket (oi_buckets v ! i)\<rparr>)"
proof -
  have B: "Buckets db = oi_buckets v" and H: "IndexHeader db = oi_header v"
    using v by (simp_all add: Buckets_def IndexHeader_def)
  have "object_table_ok (value_bytes db) (Buckets db)"
    using ok by (simp add: object_index_ok_def B)
  from find_bucket_loop_ok [OF assms(1,2) this, of "probe_path (object_hash (column, key)) (length (oi_buckets v))" column key,
      unfolded B]
  show ?thesis
    using object_probes [OF ok, of "object_hash (column, key)"]
    by (simp add: FindBucket_def Let_def B H search_key_def object_hash_def)
qed

text \<open>
  The two outcomes of a search: the bucket of the key, or the first empty bucket of its path.
\<close>

lemma FindBucket_cases:
  assumes "reads_ok os" and "value_readable db" and v: "mapped_data (indexMap db) = Some v"
    and ok: "object_index_ok (value_bytes db) v"
  obtains
    (hit) i where "i < length (oi_buckets v)" "\<not> vacant_bucket (oi_buckets v ! i)"
      "bucket_key (value_bytes db) (oi_buckets v ! i) = (column, key)"
      "FindBucket os db column key (HashString column) (HashString key) =
        Inr \<lparr>lookup_index = i, lookup_found = True\<rparr>"
      "object_map (value_bytes db) (oi_buckets v) (column, key) =
        Some (bucket_value (value_bytes db) (oi_buckets v ! i))"
  | (miss) i where "first_vacant vacant_bucket (oi_buckets v) (object_hash (column, key)) = Some i"
      "FindBucket os db column key (HashString column) (HashString key) =
        Inr \<lparr>lookup_index = i, lookup_found = False\<rparr>"
      "\<forall>b \<in> set (occupied vacant_bucket (oi_buckets v)). bucket_key (value_bytes db) b \<noteq> (column, key)"
      "object_map (value_bytes db) (oi_buckets v) (column, key) = None"
proof -
  let ?key = "bucket_key (value_bytes db)" and ?bs = "oi_buckets v"
  have tab: "chained vacant_bucket ib_hash ?bs" "keyed vacant_bucket ib_hash ?key object_hash ?bs"
      "unique_keys vacant_bucket ?key ?bs" and room: "length (occupied vacant_bucket ?bs) < length ?bs"
    using ok by (simp_all add: object_index_ok_def object_table_ok_def)
  note find = FindBucket_ok [OF assms, of column key]
  show ?thesis
  proof (cases "\<exists>i < length ?bs. \<not> vacant_bucket (?bs ! i) \<and> ?key (?bs ! i) = (column, key)")
    case True
    then obtain i where i: "i < length ?bs" "\<not> vacant_bucket (?bs ! i)" "?key (?bs ! i) = (column, key)"
      by blast
    have "object_map (value_bytes db) ?bs (column, key) = Some (bucket_value (value_bytes db) (?bs ! i))"
      unfolding object_map_def table_map_Some [OF tab(3)] using i by (intro bexI [of _ "?bs ! i"]) (auto simp: in_occupied_nth)
    then show ?thesis
      using hit [OF i] find object_table.search_hit [OF tab i] i(2) by simp
  next
    case False
    then have none: "\<forall>b \<in> set (occupied vacant_bucket ?bs). ?key b \<noteq> (column, key)"
      by (auto simp: in_occupied_nth)
    obtain i where i: "first_vacant vacant_bucket ?bs (object_hash (column, key)) = Some i"
      using room by (rule first_vacant_exists)
    have "object_map (value_bytes db) ?bs (column, key) = None"
      using none by (simp add: object_map_def table_map_None)
    then show ?thesis
      using miss [OF i _ none] find object_table.search_miss [OF none] i first_vacant_SomeD(2) [OF i]
      by simp
  qed
qed

subsection \<open>Changing one bucket\<close>

definition with_index :: "object_index \<Rightarrow> Impl \<Rightarrow> Impl" where
  "with_index v db = db\<lparr>indexMap := (indexMap db)\<lparr>mapped_data := Some v\<rparr>\<rparr>"

lemma with_index_simps [simp]:
  "mapped_data (indexMap (with_index v db)) = Some v"
  "with_index w (with_index v db) = with_index w db"
  "Buckets (with_index v db) = oi_buckets v"
  "IndexHeader (with_index v db) = oi_header v"
  by (simp_all add: with_index_def Buckets_def IndexHeader_def)

lemma with_index_frame [simp]:
  "filesys (with_index v db) = filesys db" "valueFile (with_index v db) = valueFile db"
  "valueMap (with_index v db) = valueMap db" "appendOffset (with_index v db) = appendOffset db"
  "options (with_index v db) = options db" "indexFile (with_index v db) = indexFile db"
  "opened (with_index v db) = opened db" "readOnly (with_index v db) = readOnly db"
  "mapped_writable (indexMap (with_index v db)) = mapped_writable (indexMap db)"
  "mapped_size (indexMap (with_index v db)) = mapped_size (indexMap db)"
  by (simp_all add: with_index_def)

lemma value_bytes_with_index [simp]: "value_bytes (with_index v db) = value_bytes db"
  unfolding value_bytes_def with_index_frame ..

lemma value_readable_with_index [simp]: "value_readable (with_index v db) = value_readable db"
  unfolding value_readable_def with_index_frame value_bytes_with_index ..

lemma ReadValueAt_with_index [simp]: "ReadValueAt os (with_index v db) n off = ReadValueAt os db n off"
  unfolding ReadValueAt_def with_index_frame ..

lemma set_Bucket_with_index:
  "mapped_data (indexMap db) = Some v \<Longrightarrow>
    set_Bucket i b db = with_index (v\<lparr>oi_buckets := (oi_buckets v)[i := b]\<rparr>) db"
  by (simp add: set_Bucket_def with_index_def)

lemma set_IndexHeader_with_index:
  "mapped_data (indexMap db) = Some v \<Longrightarrow> set_IndexHeader h db = with_index (v\<lparr>oi_header := h\<rparr>) db"
  by (simp add: set_IndexHeader_def with_index_def)

definition count_item :: "object_index \<Rightarrow> object_index" where
  "count_item v = v\<lparr>oi_header := (oi_header v)\<lparr>ih_itemCount := ih_itemCount (oi_header v) + 1\<rparr>\<rparr>"

lemma increment_with_index:
  "mapped_data (indexMap db) = Some v \<Longrightarrow> increment_itemCount db = with_index (count_item v) db"
  by (simp add: increment_itemCount_def set_IndexHeader_with_index IndexHeader_def count_item_def)

lemma count_item_simps [simp]:
  "oi_buckets (count_item v) = oi_buckets v"
  "ih_itemCount (oi_header (count_item v)) = ih_itemCount (oi_header v) + 1"
  "ih_bucketCount (oi_header (count_item v)) = ih_bucketCount (oi_header v)"
  "index_header_ok (oi_header (count_item v)) = index_header_ok (oi_header v)"
  by (simp_all add: count_item_def)

text \<open>Writing a record's bucket into the first empty slot of its path adds the record to the map.\<close>

lemma object_insert:
  assumes ok: "object_index_ok c v"
    and room: "length (occupied vacant_bucket (oi_buckets v)) + 1 < length (oi_buckets v)"
    and free: "first_vacant vacant_bucket (oi_buckets v) (object_hash (column, key)) = Some i"
    and hash: "ib_hash b = object_hash (column, key)"
    and rec: "bucket_record c b = Some (column, key, val)"
    and new: "\<forall>b' \<in> set (occupied vacant_bucket (oi_buckets v)). bucket_key c b' \<noteq> (column, key)"
  shows "object_index_ok c (count_item (v\<lparr>oi_buckets := (oi_buckets v)[i := b]\<rparr>)) \<and>
    object_map c ((oi_buckets v)[i := b]) = (object_map c (oi_buckets v))((column, key) \<mapsto> val)"
proof -
  let ?bs = "oi_buckets v"
  have b: "\<not> vacant_bucket b" by (simp add: hash)
  have key: "bucket_key c b = (column, key)" and val: "bucket_value c b = val"
    by (simp_all add: bucket_key_def bucket_value_def rec)
  note i = first_vacant_SomeD [OF free]
  have tab: "\<forall>b \<in> set ?bs. \<not> vacant_bucket b \<longrightarrow> bucket_record c b \<noteq> None"
      "chained vacant_bucket ib_hash ?bs"
      "keyed vacant_bucket ib_hash (bucket_key c) object_hash ?bs"
      "unique_keys vacant_bucket (bucket_key c) ?bs"
    using ok by (simp_all add: object_index_ok_def object_table_ok_def)
  have sub: "set (?bs[i := b]) \<subseteq> insert b (set ?bs)" by (rule set_update_subset_insert)
  have occ: "length (occupied vacant_bucket (?bs[i := b])) = Suc (length (occupied vacant_bucket ?bs))"
    by (rule occupied_update_vacant [of i ?bs vacant_bucket b, OF i(1,2) b])
  have cnt: "unat (ih_itemCount (oi_header v) + 1) = Suc (unat (ih_itemCount (oi_header v)))"
  proof -
    obtain k where "k \<le> 58" "length ?bs = 2 ^ k" using ok by (rule object_index_okD)
    moreover have "(2 :: nat) ^ k \<le> 2 ^ 58" using \<open>k \<le> 58\<close> by (intro power_increasing) simp_all
    ultimately have "unat (ih_itemCount (oi_header v)) < 2 ^ 58"
      using ok room by (simp add: object_index_ok_def)
    then show ?thesis using unat_add_of_nat64 [of "ih_itemCount (oi_header v)" 1] by simp
  qed
  have "object_table_ok c (?bs[i := b])"
    unfolding object_table_ok_def
  proof (intro conjI)
    show "\<forall>b' \<in> set (?bs[i := b]). \<not> vacant_bucket b' \<longrightarrow> bucket_record c b' \<noteq> None"
      using tab(1) rec sub by auto
    show "chained vacant_bucket ib_hash (?bs[i := b])"
      using tab(2) free b by (intro object_table.chained_insert) (simp_all add: hash)
    show "keyed vacant_bucket ib_hash (bucket_key c) object_hash (?bs[i := b])"
      using tab(3) hash key sub unfolding keyed_def by auto
    show "unique_keys vacant_bucket (bucket_key c) (?bs[i := b])"
      by (rule unique_keys_insert [OF i(1,2) b tab(4)]) (simp add: key new)
  qed
  moreover have "object_map c (?bs[i := b]) = (object_map c ?bs)((column, key) \<mapsto> val)"
    using table_map_insert [where vacant = vacant_bucket, OF i(1,2) b tab(4), of "bucket_value c"] new
    by (simp add: object_map_def key val)
  ultimately show ?thesis
    using ok occ cnt room by (simp add: object_index_ok_def)
qed

text \<open>Replacing the bucket of a key makes the map return the new record's value.\<close>

lemma object_replace:
  assumes ok: "object_index_ok c v"
    and i: "i < length (oi_buckets v)" "\<not> vacant_bucket (oi_buckets v ! i)"
      "bucket_key c (oi_buckets v ! i) = (column, key)"
    and hash: "ib_hash b = object_hash (column, key)"
    and rec: "bucket_record c b = Some (column, key, val)"
  shows "object_index_ok c (v\<lparr>oi_buckets := (oi_buckets v)[i := b]\<rparr>) \<and>
    object_map c ((oi_buckets v)[i := b]) = (object_map c (oi_buckets v))((column, key) \<mapsto> val)"
proof -
  let ?bs = "oi_buckets v"
  have b: "\<not> vacant_bucket b" by (simp add: hash)
  have key: "bucket_key c b = (column, key)" and val: "bucket_value c b = val"
    by (simp_all add: bucket_key_def bucket_value_def rec)
  have tab: "\<forall>b \<in> set ?bs. \<not> vacant_bucket b \<longrightarrow> bucket_record c b \<noteq> None"
      "chained vacant_bucket ib_hash ?bs"
      "keyed vacant_bucket ib_hash (bucket_key c) object_hash ?bs"
      "unique_keys vacant_bucket (bucket_key c) ?bs"
    using ok by (simp_all add: object_index_ok_def object_table_ok_def)
  have sub: "set (?bs[i := b]) \<subseteq> insert b (set ?bs)" by (rule set_update_subset_insert)
  have same: "bucket_key c (?bs ! i) = bucket_key c b" by (simp add: i(3) key)
  have old: "ib_hash (?bs ! i) = object_hash (column, key)"
    using tab(3) i unfolding keyed_def by auto
  have occ: "length (occupied vacant_bucket (?bs[i := b])) = length (occupied vacant_bucket ?bs)"
    by (rule occupied_update_taken [of i ?bs vacant_bucket b, OF i(1,2) b])
  have "object_table_ok c (?bs[i := b])"
    unfolding object_table_ok_def
  proof (intro conjI)
    show "\<forall>b' \<in> set (?bs[i := b]). \<not> vacant_bucket b' \<longrightarrow> bucket_record c b' \<noteq> None"
      using tab(1) rec sub by auto
    show "chained vacant_bucket ib_hash (?bs[i := b])"
      by (rule object_table.chained_replace [OF tab(2) i(1,2) b]) (simp add: hash old)
    show "keyed vacant_bucket ib_hash (bucket_key c) object_hash (?bs[i := b])"
      using tab(3) hash key sub unfolding keyed_def by auto
    show "unique_keys vacant_bucket (bucket_key c) (?bs[i := b])"
      by (rule unique_keys_replace [where vacant = vacant_bucket, OF i(1,2) b tab(4) same])
  qed
  moreover have "object_map c (?bs[i := b]) = (object_map c ?bs)((column, key) \<mapsto> val)"
    using table_map_replace [where vacant = vacant_bucket, OF i(1,2) b tab(4) same, of "bucket_value c"]
    by (simp add: object_map_def key val)
  ultimately show ?thesis
    using ok occ by (simp add: object_index_ok_def)
qed

subsection \<open>Placing buckets\<close>

lemma PlaceExistingBucket_first_vacant:
  assumes v: "mapped_data (indexMap db) = Some v" and j: "j < 64"
    and n: "ih_bucketCount (oi_header v) = 2 ^ j" "length (oi_buckets v) = 2 ^ j"
  shows "PlaceExistingBucket db b =
    (case first_vacant vacant_bucket (oi_buckets v) (ib_hash b) of
       Some i \<Rightarrow> (Ok, with_index (v\<lparr>oi_buckets := (oi_buckets v)[i := b]\<rparr>) db)
     | None \<Rightarrow> (Corruption ''index table is full during resize'', db))"
  using v n probe_indices_pow2 [OF j, of "ib_hash b"]
  by (simp add: PlaceExistingBucket_def Let_def Buckets_def IndexHeader_def first_vacant_def
      set_Bucket_with_index cong: option.case_cong)

lemma PlaceNewBucket_first_vacant:
  assumes v: "mapped_data (indexMap db) = Some v" and j: "j < 64"
    and n: "ih_bucketCount (oi_header v) = 2 ^ j" "length (oi_buckets v) = 2 ^ j"
  shows "PlaceNewBucket db b =
    (case first_vacant vacant_bucket (oi_buckets v) (ib_hash b) of
       Some i \<Rightarrow> (Ok, with_index (v\<lparr>oi_buckets := (oi_buckets v)[i := b]\<rparr>) db)
     | None \<Rightarrow> (Corruption ''index table is full during unique insert'', db))"
  using v n probe_indices_pow2 [OF j, of "ib_hash b"]
  by (simp add: PlaceNewBucket_def Let_def Buckets_def IndexHeader_def first_vacant_def
      set_Bucket_with_index cong: option.case_cong)

definition add_items :: "nat \<Rightarrow> IndexFileHeader \<Rightarrow> IndexFileHeader" where
  "add_items n h = h\<lparr>ih_itemCount := ih_itemCount h + of_nat n\<rparr>"

lemma add_items_simps [simp]:
  "add_items 0 h = h" "index_header_ok (add_items n h) = index_header_ok h" "ih_bucketCount (add_items n h) = ih_bucketCount h"
  "ih_itemCount (add_items n h) = ih_itemCount h + of_nat n"
  by (simp_all add: add_items_def)

lemma place_existing_all_ok:
  assumes "mapped_data (indexMap db) = Some v" and j: "j < 64"
    and "ih_bucketCount (oi_header v) = 2 ^ j" and "length (oi_buckets v) = 2 ^ j"
    and "place_all vacant_bucket ib_hash bs (oi_buckets v) = Some slots"
  shows "place_existing_all bs db =
    (Ok, with_index (v\<lparr>oi_header := add_items (length bs) (oi_header v), oi_buckets := slots\<rparr>) db)"
  using assms
proof (induction bs arbitrary: db v)
  case Nil
  have "with_index v db = db" using Nil.prems(1) by (simp add: with_index_def)
  moreover have "slots = oi_buckets v" using Nil.prems(5) by simp
  ultimately show ?case by simp
next
  case (Cons b bs)
  then obtain i where i: "first_vacant vacant_bucket (oi_buckets v) (ib_hash b) = Some i"
    by (auto split: option.splits)
  define w where "w = count_item (v\<lparr>oi_buckets := (oi_buckets v)[i := b]\<rparr>)"
  have step: "place_existing_all (b # bs) db = place_existing_all bs (with_index w db)"
    using Cons.prems(1)
    by (simp add: PlaceExistingBucket_first_vacant [OF Cons.prems(1-4)] i increment_with_index w_def)
  have "place_existing_all bs (with_index w db) =
      (Ok, with_index (w\<lparr>oi_header := add_items (length bs) (oi_header w), oi_buckets := slots\<rparr>) (with_index w db))"
    using Cons.prems i by (intro Cons.IH) (simp_all add: w_def)
  then show ?case
    unfolding step by (simp add: w_def count_item_def add_items_def algebra_simps)
qed

subsection \<open>Growing the index\<close>

text \<open>What an index operation may change besides the mapping itself: the content of its file.\<close>

definition index_frame :: "Impl \<Rightarrow> Impl \<Rightarrow> bool" where
  "index_frame db db' \<longleftrightarrow>
     (\<exists>fs m. db' = db\<lparr>filesys := fs, indexMap := m\<rparr> \<and> dirs fs = dirs (filesys db) \<and>
        (\<forall>path. indexFile db \<noteq> Some path \<longrightarrow> files fs path = files (filesys db) path))"

lemma index_frameI:
  "db' = db\<lparr>filesys := fs, indexMap := m\<rparr> \<Longrightarrow> dirs fs = dirs (filesys db) \<Longrightarrow>
    (\<forall>path. indexFile db \<noteq> Some path \<longrightarrow> files fs path = files (filesys db) path) \<Longrightarrow> index_frame db db'"
  unfolding index_frame_def by blast

lemma index_frame_refl [simp]: "index_frame db db"
  unfolding index_frame_def by (intro exI [of _ "filesys db"] exI [of _ "indexMap db"]) simp

lemma index_frameD:
  assumes "index_frame db db'"
  shows "valueFile db' = valueFile db" "indexFile db' = indexFile db" "valueMap db' = valueMap db"
    "appendOffset db' = appendOffset db" "options db' = options db" "opened db' = opened db"
    "readOnly db' = readOnly db"
    "\<And>path. indexFile db \<noteq> Some path \<Longrightarrow> files (filesys db') path = files (filesys db) path"
  using assms by (auto simp: index_frame_def)

lemma index_frame_trans:
  assumes "index_frame a b" and "index_frame b c"
  shows "index_frame a c"
proof -
  obtain fs m fs' m' where "b = a\<lparr>filesys := fs, indexMap := m\<rparr>"
    and "c = b\<lparr>filesys := fs', indexMap := m'\<rparr>"
    and "dirs fs = dirs (filesys a)" and "dirs fs' = dirs (filesys b)"
    and "\<forall>path. indexFile a \<noteq> Some path \<longrightarrow> files fs path = files (filesys a) path"
    and "\<forall>path. indexFile b \<noteq> Some path \<longrightarrow> files fs' path = files (filesys b) path"
    using assms unfolding index_frame_def by blast
  then show ?thesis
    unfolding index_frame_def by (intro exI [of _ fs'] exI [of _ m']) simp
qed

lemma index_frame_with_index [simp]: "index_frame db (with_index v db)"
  unfolding index_frame_def with_index_def
  by (intro exI [of _ "filesys db"] exI [of _ "(indexMap db)\<lparr>mapped_data := Some v\<rparr>"]) simp

lemma index_frame_value_bytes:
  assumes "index_frame db db'" and "valueFile db \<noteq> indexFile db" and "valueFile db \<noteq> None"
  shows "value_bytes db' = value_bytes db"
proof -
  obtain path where "valueFile db = Some path" using assms(3) by blast
  then show ?thesis
    using index_frameD [OF assms(1)] assms(2)
    by (auto simp: value_bytes_def file_content_def split: option.split)
qed

text \<open>The index \<open>CreateEmptyIndex\<close> leaves behind.\<close>

definition empty_index :: "u64 \<Rightarrow> object_index" where
  "empty_index n =
     \<lparr>oi_header = IndexFileHeader_default\<lparr>ih_bucketCount := n\<rparr>,
      oi_buckets = replicate (unat n) IndexBucket_default\<rparr>"

lemma IndexBucket_default_vacant [simp]: "ib_hash IndexBucket_default = 0"
  by (simp add: IndexBucket_default_def)

lemma pow2_le_58: "j \<le> 58 \<Longrightarrow> (2 :: nat) ^ j \<le> 288230376151711744"
  using power_increasing [of j 58 "2 :: nat"] by simp

lemma index_file_size:
  assumes "j \<le> 58"
  shows "unat (64 + 2 ^ j * 16 :: u64) = 64 + 16 * 2 ^ j"
proof -
  have p: "unat ((2 :: u64) ^ j) = 2 ^ j" using assms by simp
  have "unat ((2 :: u64) ^ j * 16) = 2 ^ j * 16"
    using unat_mult64 [of "2 ^ j" 16] pow2_le_58 [OF assms] by (simp only: p) simp
  then show ?thesis
    using unat_add64 [of 64 "2 ^ j * 16"] pow2_le_58 [OF assms] by simp
qed

lemma unmap_index_frame:
  "index_frame db (unmap_index db) \<and> indexMap (unmap_index db) = Unmapped"
proof (cases "mapped_data (indexMap db)")
  case None
  then have "unmap_index db = db\<lparr>filesys := filesys db, indexMap := Unmapped\<rparr>"
    by (simp add: unmap_index_def)
  from index_frameI [OF this] show ?thesis by (simp add: \<open>unmap_index db = _\<close>)
next
  case (Some v)
  show ?thesis
  proof (cases "indexFile db")
    case None
    then have "unmap_index db = db\<lparr>filesys := filesys db, indexMap := Unmapped\<rparr>"
      by (simp add: unmap_index_def Some)
    from index_frameI [OF this] show ?thesis by (simp add: \<open>unmap_index db = _\<close>)
  next
    case path: (Some path)
    define fs where "fs = (if mapped_writable (indexMap db)
        then set_file (filesys db) path (encode_object_index v) else filesys db)"
    have "unmap_index db = db\<lparr>filesys := fs, indexMap := Unmapped\<rparr>"
      by (simp add: unmap_index_def Some path fs_def)
    from index_frameI [OF this] show ?thesis
      by (simp add: \<open>unmap_index db = _\<close> fs_def path)
  qed
qed

lemma RoundUpPowerOfTwo_pow2:
  assumes "4 \<le> j" and "j \<le> 58"
  shows "RoundUpPowerOfTwo (2 ^ j) = Some (2 ^ j)"
proof -
  have "j = 4 \<or> (2 :: nat) ^ (j - 1) < 2 ^ j"
    using assms power_strict_increasing [of "j - 1" j "2 :: nat"] by simp
  moreover have "(2 :: nat) ^ j \<le> 2 ^ 63" using assms by (intro power_increasing) simp_all
  ultimately show ?thesis
    using assms unfolding RoundUpPowerOfTwo_iff
    by (intro conjI exI [of _ j]) simp_all
qed

lemma CreateEmptyIndex_ok:
  assumes "calls_ok os" and ipath: "indexFile db = Some path" and j: "4 \<le> j" "j \<le> 58"
  shows "\<exists>db'. CreateEmptyIndex os db (2 ^ j) = Some (Ok, db') \<and> index_frame db db' \<and>
    indexMap db' = \<lparr>mapped_data = Some (empty_index (2 ^ j)), mapped_size = 64 + 2 ^ j * 16, mapped_writable = True\<rparr>"
proof -
  define sz where "sz = (64 + 2 ^ j * 16 :: u64)"
  define db1 where "db1 = unmap_index db"
  have fr: "index_frame db db1" by (simp add: db1_def unmap_index_frame)
  have ipath1: "indexFile db1 = Some path" using index_frameD(2) [OF fr] ipath by simp
  have sz: "unat sz = 64 + 16 * 2 ^ j"
    using index_file_size [OF j(2)] by (simp add: sz_def)
  then have nz: "sz \<noteq> 0" by (metis add_is_0 unat_0 zero_neq_numeral)
  have "\<not> off_negative sz"
    using pow2_le_58 [OF j(2)] by (simp add: off_negative_def sz)
  then have trunc: "TruncateFile os (filesys db1) (Some path) sz =
      (Ok, set_file (filesys db1) path (resize_content (file_content (filesys db1) path) (unat sz)))"
    using assms(1) by (simp add: TruncateFile_def calls_ok_def)
  have n: "(unat sz - 64) div 16 = unat ((2 :: u64) ^ j)" using j by (simp add: sz)
  define db2 where "db2 = db1\<lparr>filesys := set_file (filesys db1) path
      (resize_content (file_content (filesys db1) path) (unat sz))\<rparr>"
  define m where "m = \<lparr>mapped_data = Some (empty_index (2 ^ j)), mapped_size = sz, mapped_writable = True\<rparr>"
  have "CreateEmptyIndex os db (2 ^ j) = Some (Ok, db2\<lparr>indexMap := m\<rparr>)"
    using assms(1) nz
    by (simp add: CreateEmptyIndex_def RoundUpPowerOfTwo_pow2 [OF j] Let_def trunc n calls_ok_def
        MapWithProtection_def db2_def ipath1 m_def empty_index_def
        flip: db1_def sz_def)
  moreover have "index_frame db1 (db2\<lparr>indexMap := m\<rparr>)"
    unfolding index_frame_def db2_def
    by (intro exI [of _ "set_file (filesys db1) path (resize_content (file_content (filesys db1) path) (unat sz))"]
        exI [of _ m]) (simp add: ipath1)
  ultimately show ?thesis
    using index_frame_trans [OF fr] by (intro exI [of _ "db2\<lparr>indexMap := m\<rparr>"]) (simp add: m_def sz_def)
qed

lemma occupied_by_index:
  "filter (\<lambda>b. \<not> vacant b) (map (\<lambda>i. slots ! i) [0..<length slots]) = occupied vacant slots"
  by (simp add: occupied_def map_nth)

lemma object_index_okI:
  assumes j: "j \<le> 58" "ih_bucketCount (oi_header v) = 2 ^ j" "length (oi_buckets v) = 2 ^ j"
    and "index_header_ok (oi_header v)"
    and "unat (ih_itemCount (oi_header v)) = length (occupied vacant_bucket (oi_buckets v))"
    and "length (occupied vacant_bucket (oi_buckets v)) < length (oi_buckets v)"
    and "object_table_ok content (oi_buckets v)"
  shows "object_index_ok content v"
  using assms unfolding object_index_ok_def by blast

text \<open>
  A resize keeps the map, the item count and the sequence number, and the new table is well formed.
\<close>

lemma ResizeIndex_ok:
  assumes os: "calls_ok os" and ipath: "indexFile db = Some path" and j: "4 \<le> j" "j \<le> 58"
    and v: "mapped_data (indexMap db) = Some v" and ok: "object_index_ok c v"
    and room: "length (occupied vacant_bucket (oi_buckets v)) < 2 ^ j"
  shows "\<exists>db' v'. ResizeIndex os db (2 ^ j) = Some (Ok, db') \<and> index_frame db db' \<and>
    mapped_data (indexMap db') = Some v' \<and> mapped_writable (indexMap db') \<and> object_index_ok c v' \<and>
    length (oi_buckets v') = 2 ^ j \<and> object_map c (oi_buckets v') = object_map c (oi_buckets v) \<and>
    length (occupied vacant_bucket (oi_buckets v')) = length (occupied vacant_bucket (oi_buckets v)) \<and>
    ih_nextSequence (oi_header v') = ih_nextSequence (oi_header v)"
proof -
  let ?old = "occupied vacant_bucket (oi_buckets v)"
  have old: "filter (\<lambda>b. ib_hash b \<noteq> 0)
      (map (\<lambda>index. Buckets db ! index) [0..<unat (ih_bucketCount (IndexHeader db))]) = ?old"
  proof -
    obtain k where "k \<le> 58" "ih_bucketCount (oi_header v) = 2 ^ k" "length (oi_buckets v) = 2 ^ k"
      using ok by (rule object_index_okD)
    then have "unat (ih_bucketCount (oi_header v)) = length (oi_buckets v)" by simp
    then show ?thesis
      using occupied_by_index [of vacant_bucket "oi_buckets v"] v by (simp add: Buckets_def IndexHeader_def)
  qed
  have tab: "\<forall>b \<in> set (oi_buckets v). \<not> vacant_bucket b \<longrightarrow> bucket_record c b \<noteq> None"
      "keyed vacant_bucket ib_hash (bucket_key c) object_hash (oi_buckets v)"
      "unique_keys vacant_bucket (bucket_key c) (oi_buckets v)"
      "unat (ih_itemCount (oi_header v)) = length ?old"
    using ok by (simp_all add: object_index_ok_def object_table_ok_def)
  obtain db1 where c1: "CreateEmptyIndex os db (2 ^ j) = Some (Ok, db1)" and fr: "index_frame db db1"
    and m1: "indexMap db1 = \<lparr>mapped_data = Some (empty_index (2 ^ j)), mapped_size = 64 + 2 ^ j * 16, mapped_writable = True\<rparr>"
    using CreateEmptyIndex_ok [OF os ipath j] by blast
  define e where "e = (empty_index (2 ^ j))\<lparr>oi_header := (oi_header (empty_index (2 ^ j)))
      \<lparr>ih_nextSequence := ih_nextSequence (oi_header v)\<rparr>\<rparr>"
  have e: "ih_bucketCount (oi_header e) = 2 ^ j" "oi_buckets e = replicate (2 ^ j) IndexBucket_default"
      "ih_itemCount (oi_header e) = 0" "index_header_ok (oi_header e)" "ih_nextSequence (oi_header e) = ih_nextSequence (oi_header v)"
    using j by (simp_all add: e_def empty_index_def) (simp add: IndexFileHeader_default_def)
  define db2 where "db2 = with_index e db1"
  have db2: "set_IndexHeader ((IndexHeader db1)\<lparr>ih_nextSequence := ih_nextSequence (IndexHeader db)\<rparr>) db1 = db2"
    using m1 v by (simp add: set_IndexHeader_with_index db2_def e_def IndexHeader_def)
  obtain slots where slots: "place_all vacant_bucket ib_hash ?old (replicate (2 ^ j) IndexBucket_default) = Some slots"
      "length slots = 2 ^ j" "chained vacant_bucket ib_hash slots"
      "mset (occupied vacant_bucket slots) = mset ?old"
    using object_table.rehash_ok [of "oi_buckets v" "2 ^ j"] room by auto
  define w where "w = e\<lparr>oi_header := add_items (length ?old) (oi_header e), oi_buckets := slots\<rparr>"
  have place: "place_existing_all ?old db2 = (Ok, with_index w db2)"
    unfolding w_def using j e slots
    by (intro place_existing_all_ok [where j = j]) (simp_all add: db2_def)
  have res: "ResizeIndex os db (2 ^ j) = Some (Ok, with_index w db2)"
    by (simp add: ResizeIndex_def Let_def old c1 db2 place)
  have set: "set (occupied vacant_bucket slots) = set ?old"
    using slots(4) by (rule mset_eq_setD)
  have sub: "b \<in> set (oi_buckets v)" if "b \<in> set slots" "\<not> vacant_bucket b" for b
    using that set by (auto simp: set_occupied)
  have len: "length (occupied vacant_bucket slots) = length ?old"
    using slots(4) by (rule mset_eq_length)
  have un: "unique_keys vacant_bucket (bucket_key c) slots"
    using tab(3) unique_keys_mset [OF slots(4), of "bucket_key c"] by blast
  have "object_index_ok c w"
  proof (rule object_index_okI [OF j(2)])
    have "length ?old < 2 ^ 64"
      using room pow2_le_58 [OF j(2)] by (simp add: less_le_trans)
    then have "unat (of_nat (length ?old) :: u64) = length ?old"
      by (simp add: unat_of_nat64)
    then show "unat (ih_itemCount (oi_header w)) = length (occupied vacant_bucket (oi_buckets w))"
      by (simp add: w_def e len)
    show "object_table_ok c (oi_buckets w)"
      unfolding object_table_ok_def
      using tab sub slots(3) un by (auto simp: w_def keyed_def)
  qed (use slots(2) e room len in \<open>simp_all add: w_def\<close>)
  moreover have "object_map c slots = object_map c (oi_buckets v)"
    unfolding object_map_def by (rule table_map_eqI [OF un tab(3) set])
  moreover have "index_frame db (with_index w db2)"
    using index_frame_trans [OF fr index_frame_with_index] by (simp add: db2_def)
  ultimately show ?thesis
    using res len slots(2) m1 e(5)
    by (intro exI [of _ "with_index w db2"] exI [of _ w]) (simp add: w_def db2_def add_items_def)
qed

subsection \<open>The capacity loop\<close>

lemma capacity_loop_step:
  assumes "k \<le> 58" and f: "f < 1"
    and small: "unat itemTotal < 2 ^ 53" and cap: "rat_of_nat (unat itemTotal) \<le> f * 2 ^ 58"
  shows "\<exists>j \<ge> k. j \<le> 58 \<and> capacity_loop itemTotal (Fin f) (2 ^ k) = Some (2 ^ j) \<and> unat itemTotal < 2 ^ j"
  using assms(1)
proof (induction "58 - k" arbitrary: k rule: less_induct)
  case less
  define q where "q = fl (rat_of_nat (unat itemTotal) / 2 ^ k)"
  have load: "ddiv (double_of_u64 itemTotal) (double_of_u64 (2 ^ k)) = Fin q"
    using less.prems fl_of_nat [OF small] by (simp add: double_of_u64_def fl_pow2 q_def)
  show ?case
  proof (cases "q > f")
    case True
    have "k \<noteq> 58"
    proof
      assume "k = 58"
      then have "q = rat_of_nat (unat itemTotal) / 2 ^ 58" using small by (simp only: q_def fl_dyadic)
      with True cap show False by (simp add: field_simps)
    qed
    with less.prems have k: "Suc k \<le> 58" "58 - Suc k < 58 - k" by simp_all
    have "(2 :: u64) ^ k * 2 = 2 ^ Suc k" by simp
    then have "capacity_loop itemTotal (Fin f) (2 ^ k) = capacity_loop itemTotal (Fin f) (2 ^ Suc k)"
      using True load by (subst capacity_loop.simps) (simp only: dgt.simps if_True)
    then show ?thesis using less.hyps [OF k(2) k(1)] by (metis Suc_leD)
  next
    case False
    have "unat itemTotal < 2 ^ k"
    proof (rule ccontr)
      assume "\<not> unat itemTotal < 2 ^ k"
      then have "(2 :: rat) ^ k \<le> of_nat (unat itemTotal)"
        by (metis not_less of_nat_le_iff of_nat_numeral of_nat_power)
      then have "(2 :: rat) ^ 0 \<le> rat_of_nat (unat itemTotal) / 2 ^ k" by simp
      then have "2 ^ 0 \<le> q" unfolding q_def by (rule fl_ge_pow2)
      then have "1 \<le> q" by simp
      with False f show False by simp
    qed
    moreover have "capacity_loop itemTotal (Fin f) (2 ^ k) = Some (2 ^ k)"
      using False load by (subst capacity_loop.simps) simp
    ultimately show ?thesis using less.prems by blast
  qed
qed

text \<open>
  Room for \<open>n\<close> more items: the load factor is a number below 1, the counts are below the 53 bits
  a double holds exactly, and the table needs at most \<open>2 ^ 58\<close> buckets.
\<close>

definition index_capacity :: "DatabaseOptions \<Rightarrow> object_index \<Rightarrow> nat \<Rightarrow> bool" where
  "index_capacity opts v n \<longleftrightarrow>
     (\<exists>f. maxLoadFactor opts = Fin f \<and> f < 1 \<and>
        unat (ih_itemCount (oi_header v)) + n < 2 ^ 53 \<and>
        rat_of_nat (unat (ih_itemCount (oi_header v)) + n) \<le> f * 2 ^ 58)"

lemma EnsureCapacity_ok:
  assumes os: "calls_ok os" and ipath: "indexFile db = Some path"
    and v: "mapped_data (indexMap db) = Some v" "mapped_writable (indexMap db)"
    and ok: "object_index_ok c v" and big: "16 \<le> length (oi_buckets v)"
    and cap: "index_capacity (options db) v n"
  shows "\<exists>db' v'. EnsureCapacityForInsert os db (of_nat n) = Some (Ok, db') \<and> index_frame db db' \<and>
    mapped_data (indexMap db') = Some v' \<and> mapped_writable (indexMap db') \<and> object_index_ok c v' \<and>
    length (oi_buckets v) \<le> length (oi_buckets v') \<and>
    object_map c (oi_buckets v') = object_map c (oi_buckets v) \<and>
    length (occupied vacant_bucket (oi_buckets v')) = length (occupied vacant_bucket (oi_buckets v)) \<and>
    length (occupied vacant_bucket (oi_buckets v')) + n < length (oi_buckets v')"
proof -
  let ?items = "ih_itemCount (oi_header v)"
  obtain f where f: "maxLoadFactor (options db) = Fin f" "f < 1" and small: "unat ?items + n < 2 ^ 53"
    and le: "rat_of_nat (unat ?items + n) \<le> f * 2 ^ 58"
    using cap by (auto simp: index_capacity_def)
  have tot: "unat (?items + of_nat n) = unat ?items + n"
    using small by (intro unat_add_of_nat64) simp
  obtain k where k: "k \<le> 58" "ih_bucketCount (oi_header v) = 2 ^ k" "length (oi_buckets v) = 2 ^ k"
    using ok by (rule object_index_okD)
  have "(2 :: nat) ^ 4 \<le> 2 ^ k" using big k(3) by simp
  then have k4: "4 \<le> k" by (rule power_le_imp_le_exp [rotated]) simp
  have items: "unat ?items = length (occupied vacant_bucket (oi_buckets v))"
    using ok by (simp add: object_index_ok_def)
  obtain j where j: "k \<le> j" "j \<le> 58"
      "capacity_loop (?items + of_nat n) (Fin f) (2 ^ k) = Some (2 ^ j)" "unat (?items + of_nat n) < 2 ^ j"
    using capacity_loop_step [OF k(1) f(2), of "?items + of_nat n"] small le unfolding tot by blast
  have room: "length (occupied vacant_bucket (oi_buckets v)) + n < 2 ^ j"
    using j(4) tot items by simp
  have inj: "(2 :: u64) ^ j = 2 ^ k \<longleftrightarrow> j = k"
  proof
    assume "(2 :: u64) ^ j = 2 ^ k"
    then have "unat ((2 :: u64) ^ j) = unat ((2 :: u64) ^ k)" by (rule arg_cong)
    then show "j = k" using j(2) k(1) by simp
  qed simp
  have H: "IndexHeader db = oi_header v" using v by (simp add: IndexHeader_def)
  show ?thesis
  proof (cases "j = k")
    case True
    then have "EnsureCapacityForInsert os db (of_nat n) = Some (Ok, db)"
      using j(3) by (simp add: EnsureCapacityForInsert_def Let_def H f(1) k(2))
    then show ?thesis
      using v ok room True k(3) by (intro exI [of _ db] exI [of _ v]) simp
  next
    case False
    then have "EnsureCapacityForInsert os db (of_nat n) = ResizeIndex os db (2 ^ j)"
      using j(3) inj by (simp add: EnsureCapacityForInsert_def Let_def H f(1) k(2))
    moreover have "length (occupied vacant_bucket (oi_buckets v)) < 2 ^ j" "4 \<le> j"
      using room k4 j(1) by simp_all
    moreover have "(2 :: nat) ^ k \<le> 2 ^ j" using j(1) by (intro power_increasing) simp_all
    ultimately show ?thesis
      using ResizeIndex_ok [OF os ipath _ j(2) v(1) ok] room k(3) by auto
  qed
qed

end
