(* ===== verification/Interfaces.thy ===== *)
theory Interfaces
  imports Prelude
begin

text \<open>
  The contract of a keyed store: an invariant, the map a state stands for, a batch write and a
  lookup.  The object API and the row API are instances; the lemmas here are what a client may
  rely on, whatever file layout and index lie underneath.
\<close>

definition put_all :: "('k \<times> 'v) list \<Rightarrow> ('k \<rightharpoonup> 'v) \<Rightarrow> ('k \<rightharpoonup> 'v)" where
  "put_all kvs m = fold (\<lambda>(k, v) m. m(k \<mapsto> v)) kvs m"

lemma put_all_simps [simp]:
  "put_all [] m = m" "put_all ((k, v) # kvs) m = put_all kvs (m(k \<mapsto> v))"
  by (simp_all add: put_all_def)

lemma put_all_append: "put_all (xs @ ys) m = put_all ys (put_all xs m)"
  by (simp add: put_all_def)

lemma put_all_map_of: "put_all kvs m = m ++ map_of (rev kvs)"
  by (induction kvs arbitrary: m) (auto simp: map_add_def split: option.split)

lemma put_all_last: "put_all (xs @ [(k, v)]) m k = Some v"
  by (simp add: put_all_append)

lemma put_all_other: "k \<notin> fst ` set kvs \<Longrightarrow> put_all kvs m k = m k"
  by (induction kvs arbitrary: m) auto

text \<open>
  A component with an abstract state: every operation that fits succeeds, keeps the invariant and
  acts on the abstract state as its specification says.  Histories of operations then do the same.
\<close>

fun run_steps :: "('s \<Rightarrow> 'op \<Rightarrow> 's option) \<Rightarrow> 's \<Rightarrow> 'op list \<Rightarrow> 's option" where
  "run_steps step s [] = Some s"
| "run_steps step s (x # xs) = (case step s x of None \<Rightarrow> None | Some s' \<Rightarrow> run_steps step s' xs)"

fun steps_fit :: "('s \<Rightarrow> 'op \<Rightarrow> bool) \<Rightarrow> ('s \<Rightarrow> 'op \<Rightarrow> 's option) \<Rightarrow> 's \<Rightarrow> 'op list \<Rightarrow> bool" where
  "steps_fit fits step s [] \<longleftrightarrow> True"
| "steps_fit fits step s (x # xs) \<longleftrightarrow>
     fits s x \<and> (case step s x of None \<Rightarrow> True | Some t \<Rightarrow> steps_fit fits step t xs)"

locale refinement =
  fixes invar :: "'s \<Rightarrow> bool"
    and abstract :: "'s \<Rightarrow> 'a"
    and fits :: "'s \<Rightarrow> 'op \<Rightarrow> bool"
    and step :: "'s \<Rightarrow> 'op \<Rightarrow> 's option"
    and spec :: "'op \<Rightarrow> 'a \<Rightarrow> 'a"
  assumes step_refines: "invar s \<Longrightarrow> fits s x \<Longrightarrow>
      \<exists>s'. step s x = Some s' \<and> invar s' \<and> abstract s' = spec x (abstract s)"
begin

lemma run_refines:
  assumes "invar s" and "steps_fit fits step s xs"
  shows "\<exists>s'. run_steps step s xs = Some s' \<and> invar s' \<and> abstract s' = fold spec xs (abstract s)"
  using assms
proof (induction xs arbitrary: s)
  case Nil
  then show ?case by simp
next
  case (Cons x xs)
  have "fits s x" using Cons.prems(2) by simp
  then obtain t where t: "step s x = Some t" "invar t" "abstract t = spec x (abstract s)"
    using step_refines [OF Cons.prems(1)] by blast
  have "steps_fit fits step t xs" using Cons.prems(2) t(1) by simp
  then show ?case using Cons.IH [OF t(2)] t by simp
qed

end

locale keyed_store =
  fixes invar :: "'s \<Rightarrow> bool"
    and contents :: "'s \<Rightarrow> ('k \<rightharpoonup> 'v)"
    and fits :: "'s \<Rightarrow> ('k \<times> 'v) list \<Rightarrow> bool"
    and write_batch :: "'s \<Rightarrow> ('k \<times> 'v) list \<Rightarrow> 's option"
    and lookup :: "'s \<Rightarrow> 'k \<Rightarrow> 'v option"
  assumes write_stores: "invar s \<Longrightarrow> fits s kvs \<Longrightarrow>
      \<exists>s'. write_batch s kvs = Some s' \<and> invar s' \<and> contents s' = put_all kvs (contents s)"
    and lookup_contents: "invar s \<Longrightarrow> lookup s k = contents s k"
begin

lemma lookup_after_write:
  assumes "invar s" and "fits s kvs"
  shows "\<exists>s'. write_batch s kvs = Some s' \<and> invar s' \<and> lookup s' k = put_all kvs (lookup s) k"
proof -
  have "lookup s = contents s" using lookup_contents [OF assms(1)] by blast
  then show ?thesis using write_stores [OF assms] lookup_contents by metis
qed

lemma last_write_wins:
  assumes "invar s" and "fits s (kvs @ [(k, v)])"
  shows "\<exists>s'. write_batch s (kvs @ [(k, v)]) = Some s' \<and> invar s' \<and> lookup s' k = Some v"
  using lookup_after_write [OF assms, of k] by (simp add: put_all_last)

lemma untouched_keys:
  assumes "invar s" and "fits s kvs" and "k \<notin> fst ` set kvs"
  shows "\<exists>s'. write_batch s kvs = Some s' \<and> invar s' \<and> lookup s' k = lookup s k"
  using lookup_after_write [OF assms(1,2), of k] assms(3) by (simp add: put_all_other)

end

text \<open>A keyed store refines its map, so what is proved of histories holds for batches.\<close>

sublocale keyed_store \<subseteq> refinement invar contents fits write_batch put_all
  by unfold_locales (rule write_stores)

context keyed_store
begin

lemma run_lookup:
  assumes "invar s" and "steps_fit fits write_batch s batches"
  shows "\<exists>s'. run_steps write_batch s batches = Some s' \<and>
    (\<forall>k. lookup s' k = put_all (concat batches) (lookup s) k)"
proof -
  have "lookup s = contents s" using lookup_contents [OF assms(1)] by blast
  moreover have "fold put_all batches = put_all (concat batches)"
    by (induction batches) (auto simp: put_all_append)
  ultimately show ?thesis using run_refines [OF assms] lookup_contents by metis
qed

end

end
