(* ===== verification/Object_Api.thy ===== *)
theory Object_Api
  imports Object_Index Interfaces
begin

text \<open>
  The object API of \<open>database.cpp\<close>: \<open>WriteStructs\<close> with its wrappers, \<open>GetStruct\<close>, \<open>GetMany\<close>
  and the string layer \<open>Put\<close>/\<open>Get\<close>.  The theorems state them as a finite map from column and key
  to value, which the value file and the index represent together.
\<close>

definition kStringColumn :: bytes where
  "kStringColumn = [0x1F, 0x4C, 0x75, 0x6D, 0x6F, 0x44, 0x42, 0x3A, 0x73, 0x74, 0x72, 0x69, 0x6E, 0x67]"

record PendingRecord =
  pr_header :: ValueRecordHeader
  pr_key :: bytes
  pr_value :: bytes
  pr_keyHash :: u64
  pr_recordOffset :: u64
  pr_recordSize :: u64

definition pending_record :: "bytes \<Rightarrow> u64 \<Rightarrow> StructEntry \<Rightarrow> PendingRecord" where
  "pending_record column nextAppendOffset entry =
     \<lparr>pr_header = ValueRecordHeader_default
        \<lparr>vr_columnSize := of_nat (length column), vr_keySize := of_nat (length (se_key entry)),
         vr_valueSize := of_nat (length (se_bytes entry))\<rparr>,
      pr_key = se_key entry, pr_value = se_bytes entry,
      pr_keyHash = HashString (se_key entry), pr_recordOffset = nextAppendOffset,
      pr_recordSize = of_nat (24 + length column + length (se_key entry) + length (se_bytes entry))\<rparr>"

text \<open>The loop that lays the records out: pending records, write slices, next append offset.\<close>

fun build_pending ::
  "bytes \<Rightarrow> u64 \<Rightarrow> StructEntry list \<Rightarrow> PendingRecord list \<times> bytes list \<times> u64" where
  "build_pending column nextAppendOffset [] = ([], [], nextAppendOffset)"
| "build_pending column nextAppendOffset (entry # entries) =
     (let record = pending_record column nextAppendOffset entry;
          (pending, slices, end) = build_pending column (nextAppendOffset + pr_recordSize record) entries
      in (record # pending,
          [encode_ValueRecordHeader (pr_header record), column, se_key entry, se_bytes entry] @ slices,
          end))"

text \<open>The loop that enters the written records into the index.\<close>

fun index_pending ::
  "os \<Rightarrow> bytes \<Rightarrow> u64 \<Rightarrow> bool \<Rightarrow> PendingRecord list \<Rightarrow> Impl \<Rightarrow> Status \<times> Impl" where
  "index_pending os column columnHash keysAreUnique [] db = (Ok, db)"
| "index_pending os column columnHash keysAreUnique (record # pending) db =
     (let bucket = \<lparr>ib_hash = ObjectIndexHash columnHash (pr_keyHash record),
                    ib_recordOffset = pr_recordOffset record\<rparr>
      in if keysAreUnique then
           (let (status, db1) = PlaceNewBucket db bucket in
            if \<not> IsOk status then (status, db1)
            else index_pending os column columnHash keysAreUnique pending (increment_itemCount db1))
         else
           (case FindBucket os db column (pr_key record) columnHash (pr_keyHash record) of
              Inl status \<Rightarrow> (status, db)
            | Inr lookup \<Rightarrow>
                (let db1 = set_Bucket (lookup_index lookup) bucket db;
                     db2 = (if \<not> lookup_found lookup then increment_itemCount db1 else db1)
                 in index_pending os column columnHash keysAreUnique pending db2)))"

definition WriteStructs ::
  "os \<Rightarrow> Impl \<Rightarrow> bytes \<Rightarrow> StructEntry list \<Rightarrow> bool \<Rightarrow> (Status \<times> Impl) option" where
  "WriteStructs os db column entries keysAreUnique =
     (if \<not> opened db then Some (NotOpen ''database is not open'', db)
      else if readOnly db then Some (InvalidArgument ''database is read-only'', db)
      else if \<not> FitsUint32 (length column)
      then Some (InvalidArgument ''column must fit in uint32 length'', db)
      else if entries = [] then Some (Ok, db)
      else if \<not> list_all (\<lambda>entry. FitsUint32 (length (se_key entry))) entries
      then Some (InvalidArgument ''key must fit in uint32 length'', db)
      else case EnsureCapacityForInsert os db (of_nat (length entries)) of
          None \<Rightarrow> None
        | Some (status, db1) \<Rightarrow>
            if \<not> IsOk status then Some (status, db1)
            else
              let columnHash = HashString column;
                  (pending, slices, nextAppendOffset) = build_pending column (appendOffset db1) entries;
                  (status, fs) = WriteVAllAt os (filesys db1) (valueFile db1) slices (appendOffset db1);
                  db2 = db1\<lparr>filesys := fs\<rparr>
              in if \<not> IsOk status then Some (status, db2)
                 else
                   let (status, db3) = index_pending os column columnHash keysAreUnique pending db2
                   in if \<not> IsOk status then Some (status, db3)
                      else Some (Ok, db3\<lparr>appendOffset := nextAppendOffset\<rparr>))"

definition PutStructs :: "os \<Rightarrow> Impl \<Rightarrow> bytes \<Rightarrow> StructEntry list \<Rightarrow> (Status \<times> Impl) option" where
  "PutStructs os db column entries = WriteStructs os db column entries False"

definition PutUniqueStructs :: "os \<Rightarrow> Impl \<Rightarrow> bytes \<Rightarrow> StructEntry list \<Rightarrow> (Status \<times> Impl) option" where
  "PutUniqueStructs os db column entries = WriteStructs os db column entries True"

definition PutStruct :: "os \<Rightarrow> Impl \<Rightarrow> bytes \<Rightarrow> bytes \<Rightarrow> bytes \<Rightarrow> (Status \<times> Impl) option" where
  "PutStruct os db column key flatBufferBytes =
     PutStructs os db column [\<lparr>se_key = key, se_bytes = flatBufferBytes\<rparr>]"

definition GetStruct :: "os \<Rightarrow> Impl \<Rightarrow> bytes \<Rightarrow> bytes \<Rightarrow> Status + bytes" where
  "GetStruct os db column key =
     (if \<not> opened db then Inl (NotOpen ''database is not open'')
      else
        case FindBucket os db column key (HashString column) (HashString key) of
          Inl status \<Rightarrow> Inl status
        | Inr lookup \<Rightarrow>
            if \<not> lookup_found lookup then Inl (NotFound ''key not found'')
            else
              let bucket = Buckets db ! lookup_index lookup in
              case ReadValueAt os db 24 (ib_recordOffset bucket) of
                Inl status \<Rightarrow> Inl status
              | Inr bs \<Rightarrow>
                  let recordHeader = decode_ValueRecordHeader bs in
                  if \<not> IsValidRecordHeader recordHeader
                  then Inl (Corruption ''index points to an invalid value record'')
                  else
                    let valueOffset = ib_recordOffset bucket + 24 + ucast (vr_columnSize recordHeader) +
                          ucast (vr_keySize recordHeader)
                    in ReadValueAt os db (unat (vr_valueSize recordHeader)) valueOffset)"

fun get_many_loop :: "os \<Rightarrow> Impl \<Rightarrow> bytes \<Rightarrow> bytes list \<Rightarrow> Status + bytes list" where
  "get_many_loop os db column [] = Inr []"
| "get_many_loop os db column (key # keys) =
     (case GetStruct os db column key of
        Inl status \<Rightarrow> Inl status
      | Inr val \<Rightarrow>
          (case get_many_loop os db column keys of
             Inl status \<Rightarrow> Inl status
           | Inr result \<Rightarrow> Inr (val # result)))"

definition GetMany :: "os \<Rightarrow> Impl \<Rightarrow> bytes \<Rightarrow> bytes list \<Rightarrow> Status + bytes list" where
  "GetMany os db column keys =
     (if \<not> opened db then Inl (NotOpen ''database is not open'')
      else get_many_loop os db column keys)"

definition Put :: "os \<Rightarrow> Impl \<Rightarrow> bytes \<Rightarrow> bytes \<Rightarrow> (Status \<times> Impl) option" where
  "Put os db key val = PutStruct os db kStringColumn key val"

definition Get :: "os \<Rightarrow> Impl \<Rightarrow> bytes \<Rightarrow> Status + bytes" where
  "Get os db key = GetStruct os db kStringColumn key"

subsection \<open>Reading\<close>

text \<open>A database whose objects can be read, and the map it holds.\<close>

definition object_readable :: "Impl \<Rightarrow> bool" where
  "object_readable db \<longleftrightarrow>
     opened db \<and> value_readable db \<and>
     (\<exists>v. mapped_data (indexMap db) = Some v \<and> object_index_ok (value_bytes db) v)"

definition objects :: "Impl \<Rightarrow> (bytes \<times> bytes \<rightharpoonup> bytes)" where
  "objects db = object_map (value_bytes db) (Buckets db)"

definition lookup_result :: "'a option \<Rightarrow> Status + 'a" where
  "lookup_result r = (case r of None \<Rightarrow> Inl (NotFound ''key not found'') | Some v \<Rightarrow> Inr v)"

lemma lookup_result_simps [simp]:
  "lookup_result None = Inl (NotFound ''key not found'')" "lookup_result (Some v) = Inr v"
  by (simp_all add: lookup_result_def)

lemma GetStruct_record:
  assumes os: "reads_ok os" and readable: "value_readable db" and open_db: "opened db"
    and rec: "bucket_record (value_bytes db) (Buckets db ! i) = Some (column, key, val)"
    and find: "FindBucket os db column key (HashString column) (HashString key) =
        Inr \<lparr>lookup_index = i, lookup_found = True\<rparr>"
  shows "GetStruct os db column key = Inr val"
proof -
  define off where "off = ib_recordOffset (Buckets db ! i)"
  define h where "h = header_at (value_bytes db) (unat off)"
  have len: "length (value_bytes db) < 2 ^ 63" using readable by (simp add: value_readable_def)
  note b = record_at_bounds [OF rec [unfolded bucket_record_def, folded off_def] len, folded h_def]
  have o1: "unat (off + 24) = unat off + 24"
    using b(1) len unat_add_of_nat64 [of off 24] by simp
  have o2: "unat (off + 24 + ucast (vr_columnSize h)) = unat off + 24 + length column"
    using b(1,2) len o1 unat_add64 [of "off + 24" "ucast (vr_columnSize h)"] by simp
  have o3: "unat (off + 24 + ucast (vr_columnSize h) + ucast (vr_keySize h)) =
      unat off + 24 + length column + length key"
    using b(1,3) len o2 unat_add64 [of "off + 24 + ucast (vr_columnSize h)" "ucast (vr_keySize h)"] by simp
  have "ReadValueAt os db 24 off = Inr (take 24 (drop (unat off) (value_bytes db)))"
    using b(1) by (intro ReadValueAt_ok [OF os readable]) simp
  moreover have "ReadValueAt os db (length val) (off + 24 + ucast (vr_columnSize h) + ucast (vr_keySize h)) = Inr val"
    using b(1,8) o3 ReadValueAt_ok [OF os readable] by simp
  ultimately show ?thesis
    using open_db find b(4,5)
    by (simp add: GetStruct_def Let_def h_def header_at_def flip: off_def)
qed

lemma GetStruct_ok:
  assumes os: "reads_ok os" and db: "object_readable db"
  shows "GetStruct os db column key = lookup_result (objects db (column, key))"
proof -
  obtain v where v: "mapped_data (indexMap db) = Some v" and ok: "object_index_ok (value_bytes db) v"
    and readable: "value_readable db" and open_db: "opened db"
    using db by (auto simp: object_readable_def)
  have B: "Buckets db = oi_buckets v" using v by (simp add: Buckets_def)
  show ?thesis
  proof (cases rule: FindBucket_cases [OF os readable v ok, where column = column and key = key])
    case (1 i)
    obtain c k val where rec: "bucket_record (value_bytes db) (oi_buckets v ! i) = Some (c, k, val)"
      using ok 1(1,2) by (fastforce simp: object_index_ok_def object_table_ok_def)
    then have "c = column" "k = key" using 1(3) by (simp_all add: bucket_key_def)
    with rec have "GetStruct os db column key = Inr val"
      by (intro GetStruct_record [OF os readable open_db _ 1(4)]) (simp add: B)
    then show ?thesis
      using 1(5) rec by (simp add: objects_def B bucket_value_def)
  next
    case (2 i)
    then show ?thesis
      using open_db by (simp add: GetStruct_def objects_def B)
  qed
qed

lemma GetMany_ok:
  assumes os: "reads_ok os" and db: "object_readable db"
  shows "GetMany os db column keys =
    (if \<forall>key \<in> set keys. objects db (column, key) \<noteq> None
     then Inr (map (\<lambda>key. the (objects db (column, key))) keys)
     else Inl (NotFound ''key not found''))"
proof -
  have "get_many_loop os db column keys =
    (if \<forall>key \<in> set keys. objects db (column, key) \<noteq> None
     then Inr (map (\<lambda>key. the (objects db (column, key))) keys)
     else Inl (NotFound ''key not found''))"
  proof (induction keys)
    case (Cons key keys)
    then show ?case
      by (cases "objects db (column, key)") (auto simp: GetStruct_ok [OF os db])
  qed simp
  then show ?thesis using db by (simp add: GetMany_def object_readable_def)
qed

subsection \<open>The records a write lays out\<close>

definition entry_record :: "bytes \<Rightarrow> StructEntry \<Rightarrow> bytes" where
  "entry_record column entry =
     encode_ValueRecordHeader (pr_header (pending_record column 0 entry)) @ column @ se_key entry @ se_bytes entry"

definition entries_bytes :: "bytes \<Rightarrow> StructEntry list \<Rightarrow> bytes" where
  "entries_bytes column entries = concat (map (entry_record column) entries)"

lemma length_entry_record:
  "length (entry_record column entry) = 24 + length column + length (se_key entry) + length (se_bytes entry)"
  by (simp add: entry_record_def)

lemma unat_of_nat32: "FitsUint32 n \<Longrightarrow> unat (of_nat n :: u32) = n"
  by (simp add: FitsUint32_def unat_of_nat take_bit_eq_mod)

lemma record_at_entry:
  assumes "FitsUint32 (length column)" and "FitsUint32 (length (se_key entry))"
    and "length (se_bytes entry) < 2 ^ 63"
  shows "record_at (pre @ entry_record column entry @ post) (length pre) =
    Some (column, se_key entry, se_bytes entry)"
proof -
  define h where "h = pr_header (pending_record column 0 entry)"
  have h: "header_at (pre @ entry_record column entry @ post) (length pre) = h"
    using decode_encode_ValueRecordHeader [of h "[]"]
    by (simp add: header_at_def entry_record_def h_def)
  have sizes: "unat (vr_columnSize h) = length column" "unat (vr_keySize h) = length (se_key entry)"
      "unat (vr_valueSize h) = length (se_bytes entry)" "IsValidRecordHeader h"
    using assms
    by (simp_all add: h_def pending_record_def unat_of_nat32 unat_of_nat64 IsValidRecordHeader_def
        ValueRecordHeader_default_def)
  show ?thesis
    by (simp add: record_at_def Let_def h sizes record_end_def) (simp add: entry_record_def)
qed

definition pending_ok :: "bytes \<Rightarrow> bytes \<Rightarrow> PendingRecord \<Rightarrow> StructEntry \<Rightarrow> bool" where
  "pending_ok content column p e \<longleftrightarrow>
     pr_key p = se_key e \<and> pr_keyHash p = HashString (se_key e) \<and>
     record_at content (unat (pr_recordOffset p)) = Some (column, se_key e, se_bytes e)"

lemma build_pending_concat:
  "concat (fst (snd (build_pending column off entries))) = entries_bytes column entries"
  by (induction entries arbitrary: off)
    (simp_all add: entries_bytes_def entry_record_def pending_record_def Let_def case_prod_beta)

lemma build_pending_ok:
  assumes "FitsUint32 (length column)" and "list_all (\<lambda>e. FitsUint32 (length (se_key e))) entries"
    and "length pre + length (entries_bytes column entries) < 2 ^ 63" and "unat off = length pre"
    and "build_pending column off entries = (pending, slices, nxt)"
  shows "concat slices = entries_bytes column entries \<and>
    unat nxt = length pre + length (entries_bytes column entries) \<and>
    list_all2 (pending_ok (pre @ entries_bytes column entries) column) pending entries"
  using assms
proof (induction entries arbitrary: pre off pending slices nxt)
  case Nil
  then show ?case by (simp add: entries_bytes_def)
next
  case (Cons e es)
  define p where "p = pending_record column off e"
  define r where "r = entry_record column e"
  have split: "entries_bytes column (e # es) = r @ entries_bytes column es"
    by (simp add: entries_bytes_def r_def)
  obtain ps ss n where rest: "build_pending column (off + pr_recordSize p) es = (ps, ss, n)"
    by (metis prod_cases3)
  have size: "pr_recordSize p = of_nat (length r)"
    by (simp add: p_def pending_record_def r_def length_entry_record)
  have off: "unat (off + pr_recordSize p) = length (pre @ r)"
    using Cons.prems(3,4) unat_add_of_nat64 [of off "length r"] by (simp add: size split)
  have IH: "concat ss = entries_bytes column es \<and>
      unat n = length (pre @ r) + length (entries_bytes column es) \<and>
      list_all2 (pending_ok ((pre @ r) @ entries_bytes column es) column) ps es"
    by (rule Cons.IH [OF _ _ _ off rest]) (use Cons.prems in \<open>simp_all add: split\<close>)
  have enc: "encode_ValueRecordHeader (pr_header p) @ column @ se_key e @ se_bytes e = r"
    by (simp add: r_def entry_record_def p_def pending_record_def)
  have out: "pending = p # ps" "slices = [encode_ValueRecordHeader (pr_header p), column, se_key e, se_bytes e] @ ss"
      "nxt = n"
    using Cons.prems(5) rest by (simp_all add: Let_def flip: p_def)
  have "pending_ok (pre @ r @ entries_bytes column es) column p e"
    using Cons.prems record_at_entry [of column e pre "entries_bytes column es"]
    by (simp add: pending_ok_def p_def pending_record_def split flip: r_def)
      (simp add: r_def length_entry_record)
  then show ?case using IH enc out by (simp add: split)
qed

subsection \<open>Entering the records into the index\<close>

text \<open>The batch as an update of the map: entries apply in order, so the last duplicate wins.\<close>

definition store_entry :: "bytes \<Rightarrow> StructEntry \<Rightarrow> (bytes \<times> bytes \<rightharpoonup> bytes) \<Rightarrow> (bytes \<times> bytes \<rightharpoonup> bytes)" where
  "store_entry column e m = m((column, se_key e) \<mapsto> se_bytes e)"

definition store_entries :: "bytes \<Rightarrow> StructEntry list \<Rightarrow> (bytes \<times> bytes \<rightharpoonup> bytes) \<Rightarrow> (bytes \<times> bytes \<rightharpoonup> bytes)" where
  "store_entries column entries m = fold (store_entry column) entries m"

lemma store_entries_simps [simp]:
  "store_entries column [] m = m"
  "store_entries column (e # es) m = store_entries column es (m((column, se_key e) \<mapsto> se_bytes e))"
  by (simp_all add: store_entries_def store_entry_def)

text \<open>The outcome of a search, stated over a prefix of the value file.\<close>

lemma FindBucket_prefix:
  assumes os: "reads_ok os" and db: "value_readable db" and v: "mapped_data (indexMap db) = Some v"
    and ok: "object_index_ok c v" and pre: "take (length c) (value_bytes db) = c"
  obtains
    (hit) i where "i < length (oi_buckets v)" "\<not> vacant_bucket (oi_buckets v ! i)"
      "bucket_key c (oi_buckets v ! i) = (column, key)"
      "FindBucket os db column key (HashString column) (HashString key) =
        Inr \<lparr>lookup_index = i, lookup_found = True\<rparr>"
  | (miss) i where "first_vacant vacant_bucket (oi_buckets v) (object_hash (column, key)) = Some i"
      "FindBucket os db column key (HashString column) (HashString key) =
        Inr \<lparr>lookup_index = i, lookup_found = False\<rparr>"
      "\<forall>b \<in> set (occupied vacant_bucket (oi_buckets v)). bucket_key c b \<noteq> (column, key)"
proof (cases rule: FindBucket_cases [OF os db v object_index_extend [OF ok pre], where column = column and key = key])
  have same: "bucket_key (value_bytes db) b = bucket_key c b"
    if "b \<in> set (oi_buckets v)" "\<not> vacant_bucket b" for b
    using ok that bucket_extend(2) [OF _ pre] by (simp add: object_index_ok_def object_table_ok_def)
  {
    case (1 i)
    then show ?thesis using hit same [of "oi_buckets v ! i"] by simp
  next
    case (2 i)
    then show ?thesis using miss same by (simp add: set_occupied)
  }
qed

definition index_room :: "object_index \<Rightarrow> nat \<Rightarrow> bool" where
  "index_room v n \<longleftrightarrow> length (occupied vacant_bucket (oi_buckets v)) + n < length (oi_buckets v)"

text \<open>One record: its bucket is in the table afterwards, and the map is updated at its key.\<close>

definition record_bucket :: "bytes \<Rightarrow> PendingRecord \<Rightarrow> IndexBucket" where
  "record_bucket column p =
     \<lparr>ib_hash = ObjectIndexHash (HashString column) (pr_keyHash p), ib_recordOffset = pr_recordOffset p\<rparr>"

lemma record_bucket_ok:
  assumes "pending_ok c column p e"
  shows "ib_hash (record_bucket column p) = object_hash (column, se_key e)"
    and "bucket_record c (record_bucket column p) = Some (column, se_key e, se_bytes e)"
  using assms by (simp_all add: record_bucket_def pending_ok_def object_hash_def bucket_record_def)

lemma insert_step:
  assumes v: "mapped_data (indexMap db) = Some v" and ok: "object_index_ok c v" and room: "index_room v (Suc n)"
    and p: "pending_ok c column p e"
    and free: "first_vacant vacant_bucket (oi_buckets v) (object_hash (column, se_key e)) = Some i"
    and new: "\<forall>b \<in> set (occupied vacant_bucket (oi_buckets v)). bucket_key c b \<noteq> (column, se_key e)"
  shows "\<exists>v'. increment_itemCount (set_Bucket i (record_bucket column p) db) = with_index v' db \<and>
    object_index_ok c v' \<and> index_room v' n \<and> length (oi_buckets v') = length (oi_buckets v) \<and>
    object_map c (oi_buckets v') = (object_map c (oi_buckets v))((column, se_key e) \<mapsto> se_bytes e) \<and>
    length (occupied vacant_bucket (oi_buckets v')) \<le> Suc (length (occupied vacant_bucket (oi_buckets v)))"
proof -
  define w where "w = v\<lparr>oi_buckets := (oi_buckets v)[i := record_bucket column p]\<rparr>"
  note b = record_bucket_ok [OF p]
  have r: "length (occupied vacant_bucket (oi_buckets v)) + 1 < length (oi_buckets v)"
    using room by (simp add: index_room_def)
  have ins: "object_index_ok c (count_item w) \<and>
      object_map c (oi_buckets w) = (object_map c (oi_buckets v))((column, se_key e) \<mapsto> se_bytes e)"
    using object_insert [OF ok r free b new] by (simp add: w_def)
  have "length (occupied vacant_bucket (oi_buckets w)) = Suc (length (occupied vacant_bucket (oi_buckets v)))"
    using first_vacant_SomeD [OF free] b(1)
    by (simp add: w_def occupied_update_vacant [where vacant = vacant_bucket])
  moreover from this have "index_room (count_item w) n" using room by (simp add: index_room_def w_def)
  ultimately show ?thesis
    using ins v by (intro exI [of _ "count_item w"]) (simp add: set_Bucket_with_index increment_with_index w_def)
qed

lemma replace_step:
  assumes v: "mapped_data (indexMap db) = Some v" and ok: "object_index_ok c v" and room: "index_room v (Suc n)"
    and p: "pending_ok c column p e"
    and i: "i < length (oi_buckets v)" "\<not> vacant_bucket (oi_buckets v ! i)"
      "bucket_key c (oi_buckets v ! i) = (column, se_key e)"
  shows "\<exists>v'. set_Bucket i (record_bucket column p) db = with_index v' db \<and>
    object_index_ok c v' \<and> index_room v' n \<and> length (oi_buckets v') = length (oi_buckets v) \<and>
    object_map c (oi_buckets v') = (object_map c (oi_buckets v))((column, se_key e) \<mapsto> se_bytes e) \<and>
    length (occupied vacant_bucket (oi_buckets v')) \<le> Suc (length (occupied vacant_bucket (oi_buckets v)))"
proof -
  define w where "w = v\<lparr>oi_buckets := (oi_buckets v)[i := record_bucket column p]\<rparr>"
  note b = record_bucket_ok [OF p]
  have "object_index_ok c w \<and>
      object_map c (oi_buckets w) = (object_map c (oi_buckets v))((column, se_key e) \<mapsto> se_bytes e)"
    using object_replace [OF ok i b] by (simp add: w_def)
  moreover have occ: "length (occupied vacant_bucket (oi_buckets w)) = length (occupied vacant_bucket (oi_buckets v))"
    using i b(1) by (simp add: w_def occupied_update_taken [where vacant = vacant_bucket])
  then have "index_room w n" using room by (simp add: index_room_def w_def)
  ultimately show ?thesis
    using v occ by (intro exI [of _ w]) (simp add: set_Bucket_with_index w_def)
qed

lemma index_pending_find_ok:
  assumes "list_all2 (pending_ok c column) ps entries"
    and "reads_ok os" and "value_readable db" and "mapped_data (indexMap db) = Some v"
    and "object_index_ok c v" and "take (length c) (value_bytes db) = c" and "index_room v (length entries)"
  shows "\<exists>v'. index_pending os column (HashString column) False ps db = (Ok, with_index v' db) \<and>
    object_index_ok c v' \<and> length (oi_buckets v') = length (oi_buckets v) \<and>
    object_map c (oi_buckets v') = store_entries column entries (object_map c (oi_buckets v))"
  using assms
proof (induction ps entries arbitrary: db v rule: list_all2_induct)
  case Nil
  then show ?case by (intro exI [of _ v]) (simp add: with_index_def)
next
  case (Cons p ps e es)
  have key: "pr_key p = se_key e" "pr_keyHash p = HashString (se_key e)"
    using Cons.hyps(1) by (simp_all add: pending_ok_def)
  note room = Cons.prems(6) [simplified]
  define b where "b = record_bucket column p"
  have "\<exists>v'. index_pending os column (HashString column) False (p # ps) db =
        index_pending os column (HashString column) False ps (with_index v' db) \<and>
      object_index_ok c v' \<and> index_room v' (length es) \<and> length (oi_buckets v') = length (oi_buckets v) \<and>
      object_map c (oi_buckets v') = (object_map c (oi_buckets v))((column, se_key e) \<mapsto> se_bytes e)"
  proof (cases rule: FindBucket_prefix [OF Cons.prems(1-5), where column = column and key = "se_key e"])
    case (1 i)
    then show ?thesis
      using replace_step [OF Cons.prems(3,4) room Cons.hyps(1) 1(1-3)]
      by (auto simp: key Let_def record_bucket_def)
  next
    case (2 i)
    then show ?thesis
      using insert_step [OF Cons.prems(3,4) room Cons.hyps(1) 2(1,3)]
      by (auto simp: key Let_def record_bucket_def)
  qed
  then obtain v' where v': "index_pending os column (HashString column) False (p # ps) db =
        index_pending os column (HashString column) False ps (with_index v' db)"
      "object_index_ok c v'" "index_room v' (length es)" "length (oi_buckets v') = length (oi_buckets v)"
      "object_map c (oi_buckets v') = (object_map c (oi_buckets v))((column, se_key e) \<mapsto> se_bytes e)"
    by blast
  have "\<exists>v''. index_pending os column (HashString column) False ps (with_index v' db) = (Ok, with_index v'' (with_index v' db)) \<and>
    object_index_ok c v'' \<and> length (oi_buckets v'') = length (oi_buckets v') \<and>
    object_map c (oi_buckets v'') = store_entries column es (object_map c (oi_buckets v'))"
    by (rule Cons.IH) (use Cons.prems v'(2,3) in simp_all)
  then show ?case using v' by auto
qed

text \<open>The unique variant places each bucket without a search, so its keys must be new and distinct.\<close>

definition fresh_keys :: "bytes \<Rightarrow> StructEntry list \<Rightarrow> (bytes \<times> bytes \<rightharpoonup> bytes) \<Rightarrow> bool" where
  "fresh_keys column entries m \<longleftrightarrow>
     distinct (map se_key entries) \<and> (\<forall>e \<in> set entries. m (column, se_key e) = None)"

lemma fresh_keys_Cons:
  "fresh_keys column (e # es) m \<Longrightarrow> fresh_keys column es (m((column, se_key e) \<mapsto> val))"
  by (auto simp: fresh_keys_def) (metis imageI)

lemma object_map_None_iff:
  "object_map c bs k = None \<longleftrightarrow> (\<forall>b \<in> set (occupied vacant_bucket bs). bucket_key c b \<noteq> k)"
  by (simp add: object_map_def table_map_None)

lemma index_pending_unique_ok:
  assumes "list_all2 (pending_ok c column) ps entries"
    and "mapped_data (indexMap db) = Some v"
    and "object_index_ok c v" and "index_room v (length entries)"
    and "fresh_keys column entries (object_map c (oi_buckets v))"
  shows "\<exists>v'. index_pending os column (HashString column) True ps db = (Ok, with_index v' db) \<and>
    object_index_ok c v' \<and> length (oi_buckets v') = length (oi_buckets v) \<and>
    object_map c (oi_buckets v') = store_entries column entries (object_map c (oi_buckets v))"
  using assms
proof (induction ps entries arbitrary: db v rule: list_all2_induct)
  case Nil
  then show ?case by (intro exI [of _ v]) (simp add: with_index_def)
next
  case (Cons p ps e es)
  obtain k where k: "k \<le> 58" "ih_bucketCount (oi_header v) = 2 ^ k" "length (oi_buckets v) = 2 ^ k"
    using Cons.prems(2) by (rule object_index_okD)
  note room = Cons.prems(3) [simplified]
  have "length (occupied vacant_bucket (oi_buckets v)) < length (oi_buckets v)"
    using room by (simp add: index_room_def)
  then obtain i where i: "first_vacant vacant_bucket (oi_buckets v) (object_hash (column, se_key e)) = Some i"
    by (rule first_vacant_exists)
  have new: "\<forall>b \<in> set (occupied vacant_bucket (oi_buckets v)). bucket_key c b \<noteq> (column, se_key e)"
    using Cons.prems(4) by (simp add: fresh_keys_def object_map_None_iff)
  obtain v' where v': "increment_itemCount (set_Bucket i (record_bucket column p) db) = with_index v' db"
      "object_index_ok c v'" "index_room v' (length es)" "length (oi_buckets v') = length (oi_buckets v)"
      "object_map c (oi_buckets v') = (object_map c (oi_buckets v))((column, se_key e) \<mapsto> se_bytes e)"
    using insert_step [OF Cons.prems(1,2) room Cons.hyps(1) i new] by blast
  have place: "PlaceNewBucket db (record_bucket column p) = (Ok, set_Bucket i (record_bucket column p) db)"
    using PlaceNewBucket_first_vacant [OF Cons.prems(1) _ k(2,3), of "record_bucket column p"] k(1) i
      record_bucket_ok(1) [OF Cons.hyps(1)] Cons.prems(1)
    by (simp add: set_Bucket_with_index)
  have step: "index_pending os column (HashString column) True (p # ps) db =
      index_pending os column (HashString column) True ps (with_index v' db)"
    using place v'(1) by (simp flip: record_bucket_def)
  have "\<exists>v''. index_pending os column (HashString column) True ps (with_index v' db) = (Ok, with_index v'' (with_index v' db)) \<and>
    object_index_ok c v'' \<and> length (oi_buckets v'') = length (oi_buckets v') \<and>
    object_map c (oi_buckets v'') = store_entries column es (object_map c (oi_buckets v'))"
  proof (rule Cons.IH)
    show "fresh_keys column es (object_map c (oi_buckets v'))"
      unfolding v'(5) by (rule fresh_keys_Cons [OF Cons.prems(4)])
  qed (use v' in simp_all)
  then show ?case unfolding step using v' by auto
qed

lemma index_pending_ok:
  assumes "list_all2 (pending_ok c column) ps entries"
    and "reads_ok os" and "value_readable db" and "mapped_data (indexMap db) = Some v"
    and "object_index_ok c v" and "take (length c) (value_bytes db) = c" and "index_room v (length entries)"
    and "unique \<Longrightarrow> fresh_keys column entries (object_map c (oi_buckets v))"
  shows "\<exists>v'. index_pending os column (HashString column) unique ps db = (Ok, with_index v' db) \<and>
    object_index_ok c v' \<and> length (oi_buckets v') = length (oi_buckets v) \<and>
    object_map c (oi_buckets v') = store_entries column entries (object_map c (oi_buckets v))"
proof (cases unique)
  case True
  then show ?thesis
    using index_pending_unique_ok [OF assms(1,4,5,7)] assms(8) by simp
next
  case False
  then show ?thesis using index_pending_find_ok [OF assms(1-7)] by simp
qed

subsection \<open>The database invariant\<close>

text \<open>
  A database open for writing: the value file up to the append offset holds the records, bytes
  beyond it (left by a failed write) belong to nothing, and the mapped index describes the records.
\<close>

definition object_ok :: "Impl \<Rightarrow> bool" where
  "object_ok db \<longleftrightarrow>
     opened db \<and> \<not> readOnly db \<and> mapped_data (valueMap db) = None \<and>
     valueFile db \<noteq> None \<and> indexFile db \<noteq> None \<and> valueFile db \<noteq> indexFile db \<and>
     mapped_writable (indexMap db) \<and>
     unat (appendOffset db) \<le> length (value_bytes db) \<and> length (value_bytes db) < 2 ^ 63 \<and>
     (\<exists>v. mapped_data (indexMap db) = Some v \<and> 16 \<le> length (oi_buckets v) \<and>
        object_index_ok (take (unat (appendOffset db)) (value_bytes db)) v)"

lemma object_okD:
  assumes "object_ok db"
  obtains v vp ip where "opened db" "\<not> readOnly db" "mapped_data (valueMap db) = None"
    "valueFile db = Some vp" "indexFile db = Some ip" "vp \<noteq> ip" "mapped_writable (indexMap db)"
    "unat (appendOffset db) \<le> length (value_bytes db)" "length (value_bytes db) < 2 ^ 63"
    "mapped_data (indexMap db) = Some v" "16 \<le> length (oi_buckets v)"
    "object_index_ok (take (unat (appendOffset db)) (value_bytes db)) v"
    "value_bytes db = file_content (filesys db) vp" "value_readable db"
proof -
  obtain v vp ip where *: "opened db" "\<not> readOnly db" "mapped_data (valueMap db) = None"
    "valueFile db = Some vp" "indexFile db = Some ip" "vp \<noteq> ip" "mapped_writable (indexMap db)"
    "unat (appendOffset db) \<le> length (value_bytes db)" "length (value_bytes db) < 2 ^ 63"
    "mapped_data (indexMap db) = Some v" "16 \<le> length (oi_buckets v)"
    "object_index_ok (take (unat (appendOffset db)) (value_bytes db)) v"
    using assms unfolding object_ok_def by auto
  have "value_bytes db = file_content (filesys db) vp" using *(3,4) by (simp add: value_bytes_def)
  moreover have "value_readable db" using *(3,4,9) by (simp add: value_readable_def)
  ultimately show ?thesis using that * by blast
qed

lemma object_ok_readable:
  assumes "object_ok db"
  shows "object_readable db"
    and "objects db = object_map (take (unat (appendOffset db)) (value_bytes db)) (Buckets db)"
proof -
  obtain v where v: "opened db" "value_readable db" "mapped_data (indexMap db) = Some v"
      "object_index_ok (take (unat (appendOffset db)) (value_bytes db)) v"
    using assms by (rule object_okD)
  let ?c = "take (unat (appendOffset db)) (value_bytes db)"
  have pre: "take (length ?c) (value_bytes db) = ?c" by (simp add: min_def)
  show "object_readable db"
    using v object_index_extend [OF v(4) pre] by (auto simp: object_readable_def)
  have "object_table_ok ?c (oi_buckets v)" using v(4) by (simp add: object_index_ok_def)
  then show "objects db = object_map ?c (Buckets db)"
    using object_table_extend [OF _ pre] v(3) by (simp add: objects_def Buckets_def)
qed

subsection \<open>Writing\<close>

text \<open>The part of the value file that belongs to the database.\<close>

definition log_bytes :: "Impl \<Rightarrow> bytes" where
  "log_bytes db = take (unat (appendOffset db)) (value_bytes db)"

text \<open>No bytes of a failed write lie behind the append offset.\<close>

definition no_tail :: "Impl \<Rightarrow> bool" where
  "no_tail db \<longleftrightarrow> unat (appendOffset db) = length (value_bytes db)"

text \<open>Two states with the same object part.\<close>

definition same_objects :: "Impl \<Rightarrow> Impl \<Rightarrow> bool" where
  "same_objects db db' \<longleftrightarrow>
     opened db' = opened db \<and> readOnly db' = readOnly db \<and> valueMap db' = valueMap db \<and>
     valueFile db' = valueFile db \<and> indexFile db' = indexFile db \<and> indexMap db' = indexMap db \<and>
     appendOffset db' = appendOffset db \<and> value_bytes db' = value_bytes db"

lemma same_objects:
  assumes "same_objects db db'"
  shows "object_ok db' = object_ok db" "objects db' = objects db" "log_bytes db' = log_bytes db"
    "no_tail db' = no_tail db"
  using assms
  by (simp_all add: same_objects_def object_ok_def objects_def log_bytes_def no_tail_def Buckets_def)

text \<open>A batch the formats and the index can take.\<close>

definition write_fits :: "Impl \<Rightarrow> bytes \<Rightarrow> StructEntry list \<Rightarrow> bool" where
  "write_fits db column entries \<longleftrightarrow>
     FitsUint32 (length column) \<and> list_all (\<lambda>e. FitsUint32 (length (se_key e))) entries \<and>
     unat (appendOffset db) + length (entries_bytes column entries) < 2 ^ 63 \<and>
     index_capacity (options db) (the (mapped_data (indexMap db))) (length entries)"

text \<open>What an object write may touch.\<close>

definition object_frame :: "Impl \<Rightarrow> Impl \<Rightarrow> bool" where
  "object_frame db db' \<longleftrightarrow>
     (\<exists>fs m off. db' = db\<lparr>filesys := fs, indexMap := m, appendOffset := off\<rparr> \<and>
        dirs fs = dirs (filesys db) \<and>
        (\<forall>path. indexFile db \<noteq> Some path \<and> valueFile db \<noteq> Some path \<longrightarrow>
           files fs path = files (filesys db) path))"

lemma object_frame_refl [simp]: "object_frame db db"
  unfolding object_frame_def
  by (intro exI [of _ "filesys db"] exI [of _ "indexMap db"] exI [of _ "appendOffset db"]) simp

lemma index_frame_object_frame: "index_frame db db' \<Longrightarrow> object_frame db db'"
  unfolding index_frame_def object_frame_def
  by (elim exE, rename_tac fs m, rule_tac x = fs in exI, rule_tac x = m in exI,
      rule_tac x = "appendOffset db" in exI) simp

lemma object_frame_trans:
  assumes "object_frame a b" and "object_frame b c"
  shows "object_frame a c"
proof -
  obtain fs m n fs' m' n' where "b = a\<lparr>filesys := fs, indexMap := m, appendOffset := n\<rparr>"
    and "c = b\<lparr>filesys := fs', indexMap := m', appendOffset := n'\<rparr>"
    and "dirs fs = dirs (filesys a)" and "dirs fs' = dirs (filesys b)"
    and "\<forall>path. indexFile a \<noteq> Some path \<and> valueFile a \<noteq> Some path \<longrightarrow> files fs path = files (filesys a) path"
    and "\<forall>path. indexFile b \<noteq> Some path \<and> valueFile b \<noteq> Some path \<longrightarrow> files fs' path = files (filesys b) path"
    using assms unfolding object_frame_def by blast
  then show ?thesis
    unfolding object_frame_def by (intro exI [of _ fs'] exI [of _ m'] exI [of _ n']) simp
qed

lemma entries_bytes_Nil: "entries_bytes column entries = [] \<longleftrightarrow> entries = []"
proof (cases entries)
  case (Cons e es)
  then have "0 < length (entries_bytes column entries)"
    by (simp add: entries_bytes_def length_entry_record)
  then show ?thesis using Cons by auto
qed (simp add: entries_bytes_def)

lemma prefix_overwrite:
  assumes "off \<le> length c"
  shows "take (off + length data) (overwrite c off data) = take off c @ data"
  using assms by (cases "data = []") (simp_all add: overwrite_def)

lemma value_bytes_appendOffset [simp]: "value_bytes (db\<lparr>appendOffset := n\<rparr>) = value_bytes db"
  by (simp add: value_bytes_def cong: option.case_cong)

text \<open>The part of a write that follows the capacity check.\<close>

lemma write_records_ok:
  assumes os: "reads_ok os" and db: "object_ok db" and entries: "entries \<noteq> []"
    and fit: "FitsUint32 (length column)" "list_all (\<lambda>e. FitsUint32 (length (se_key e))) entries"
    and room: "unat (appendOffset db) + length (entries_bytes column entries) < 2 ^ 63"
    and free: "index_room (the (mapped_data (indexMap db))) (length entries)"
    and fresh: "unique \<Longrightarrow> fresh_keys column entries (objects db)"
    and wr: "WriteVAllAt os (filesys db) (valueFile db) slices (appendOffset db) = (st, fs)" "IsOk st"
    and build: "build_pending column (appendOffset db) entries = (pending, slices, nxt)"
  shows "\<exists>db3.
    index_pending os column (HashString column) unique pending (db\<lparr>filesys := fs\<rparr>) = (Ok, db3) \<and>
    object_ok (db3\<lparr>appendOffset := nxt\<rparr>) \<and> object_frame db (db3\<lparr>appendOffset := nxt\<rparr>) \<and>
    objects (db3\<lparr>appendOffset := nxt\<rparr>) = store_entries column entries (objects db) \<and>
    log_bytes (db3\<lparr>appendOffset := nxt\<rparr>) = log_bytes db @ entries_bytes column entries \<and>
    (no_tail db \<longrightarrow> no_tail (db3\<lparr>appendOffset := nxt\<rparr>))"
proof -
  obtain v vp ip where d: "opened db" "\<not> readOnly db" "mapped_data (valueMap db) = None"
    "valueFile db = Some vp" "indexFile db = Some ip" "vp \<noteq> ip" "mapped_writable (indexMap db)"
    "unat (appendOffset db) \<le> length (value_bytes db)" "length (value_bytes db) < 2 ^ 63"
    "mapped_data (indexMap db) = Some v" "16 \<le> length (oi_buckets v)"
    "object_index_ok (take (unat (appendOffset db)) (value_bytes db)) v"
    "value_bytes db = file_content (filesys db) vp" "value_readable db"
    using db by (rule object_okD)
  define c where "c = value_bytes db"
  define n where "n = unat (appendOffset db)"
  define data where "data = entries_bytes column entries"
  define P where "P = take n c @ data"
  have n: "n \<le> length c" using d(8) by (simp add: c_def n_def)
  have len: "length (take n c) = n" using n by simp
  have off: "unat (appendOffset db) = length (take n c)" by (simp only: len n_def [symmetric])
  have room': "length (take n c) + length (entries_bytes column entries) < 2 ^ 63"
    using room by (simp only: len n_def [symmetric])
  have b: "concat slices = data" "unat nxt = n + length data"
      "list_all2 (pending_ok P column) pending entries"
    using build_pending_ok [OF fit room' off build] by (simp_all only: len data_def P_def)
  have data: "data \<noteq> []" using entries by (simp add: data_def entries_bytes_Nil)
  have "wrote_prefix c n data st (file_content fs vp)"
      and other: "\<forall>q. q \<noteq> vp \<longrightarrow> files fs q = files (filesys db) q" and dirs: "dirs fs = dirs (filesys db)"
    using WriteVAllAt_prefix [of os "filesys db" vp slices "appendOffset db" st fs]
      WriteVAllAt_dirs [OF wr(1)] wr(1) d(4,13)
    by (simp_all add: b(1) c_def n_def)
  from wrote_prefix_ok [OF this(1)] have fs: "file_content fs vp = overwrite c n data"
    using wr(2) by simp
  define db2 where "db2 = db\<lparr>filesys := fs\<rparr>"
  have v2: "value_bytes db2 = overwrite c n data" "mapped_data (indexMap db2) = Some v"
    using d by (simp_all add: db2_def value_bytes_def fs)
  have len2: "length (overwrite c n data) < 2 ^ 63"
    using d(9) room by (simp add: length_overwrite [OF data]) (simp add: c_def n_def data_def)
  have readable2: "value_readable db2"
    using d(3,4) len2 v2(1) by (simp add: value_readable_def db2_def)
  have "take (length (take n c)) P = take n c" using n by (simp add: P_def min_absorb2)
  then have ext: "object_index_ok P v" "object_map P (oi_buckets v) = object_map (take n c) (oi_buckets v)"
    using object_index_extend [of "take n c" v P] object_table_extend [of "take n c" "oi_buckets v" P] d(12)
    by (simp_all add: object_index_ok_def c_def n_def)
  have pre: "take (length P) (value_bytes db2) = P"
    using prefix_overwrite [OF n, of data] n by (simp add: P_def v2(1) min_def)
  have objs: "objects db = object_map P (oi_buckets v)"
    using object_ok_readable(2) [OF db] d(10) by (simp add: ext(2) c_def n_def Buckets_def)
  have "\<exists>v'. index_pending os column (HashString column) unique pending db2 = (Ok, with_index v' db2) \<and>
    object_index_ok P v' \<and> length (oi_buckets v') = length (oi_buckets v) \<and>
    object_map P (oi_buckets v') = store_entries column entries (object_map P (oi_buckets v))"
  proof (rule index_pending_ok [OF b(3)])
    show "reads_ok os" by (rule os)
    show "index_room v (length entries)" using free d(10) by simp
    show "fresh_keys column entries (object_map P (oi_buckets v))" if unique
      using fresh [OF that] by (simp add: objs)
  qed (use ext readable2 v2 pre in simp_all)
  then obtain v' where v': "index_pending os column (HashString column) unique pending db2 = (Ok, with_index v' db2)"
      "object_index_ok P v'" "length (oi_buckets v') = length (oi_buckets v)"
      "object_map P (oi_buckets v') = store_entries column entries (object_map P (oi_buckets v))"
    by blast
  define db' where "db' = (with_index v' db2)\<lparr>appendOffset := nxt\<rparr>"
  have bytes': "value_bytes db' = overwrite c n data"
    using v2(1) by (simp add: db'_def)
  have P: "take (unat (appendOffset db')) (value_bytes db') = P"
    using prefix_overwrite [OF n, of data] by (simp add: bytes') (simp add: db'_def b(2) P_def)
  have "object_ok db'"
    unfolding object_ok_def P
    using d v' len2 n
    by (simp add: bytes') (auto simp: db'_def db2_def with_index_def b(2) length_overwrite [OF data])
  moreover have "object_frame db db'"
    unfolding object_frame_def
    by (intro exI [of _ fs] exI [of _ "indexMap db'"] exI [of _ nxt])
      (use other in \<open>auto simp: db'_def db2_def with_index_def dirs d(4)\<close>)
  moreover have "objects db' = store_entries column entries (objects db)"
    using object_ok_readable(2) [OF \<open>object_ok db'\<close>] unfolding P objs
    by (simp add: v'(4) [symmetric]) (simp add: db'_def Buckets_def with_index_def)
  moreover have "log_bytes db' = log_bytes db @ entries_bytes column entries"
    unfolding log_bytes_def P by (simp add: P_def c_def n_def data_def)
  moreover have "no_tail db'" if "no_tail db"
  proof -
    have "length c = n" using that by (simp add: no_tail_def c_def n_def)
    then show ?thesis
      using length_overwrite [OF data, of c n] unfolding no_tail_def bytes' by (simp add: db'_def b(2))
  qed
  ultimately show ?thesis
    using v'(1) by (intro exI [of _ "with_index v' db2"]) (simp add: db'_def db2_def)
qed

text \<open>After a failed write the map is what it was: the append offset has not moved.\<close>

lemma failed_write_keeps:
  assumes db: "object_ok db" and room: "unat (appendOffset db) + length (concat slices) < 2 ^ 63"
    and wr: "WriteVAllAt os (filesys db) (valueFile db) slices (appendOffset db) = (status, fs)"
  shows "object_ok (db\<lparr>filesys := fs\<rparr>) \<and> objects (db\<lparr>filesys := fs\<rparr>) = objects db \<and>
    object_frame db (db\<lparr>filesys := fs\<rparr>) \<and> log_bytes (db\<lparr>filesys := fs\<rparr>) = log_bytes db"
proof -
  obtain v vp ip where d: "opened db" "\<not> readOnly db" "mapped_data (valueMap db) = None"
    "valueFile db = Some vp" "indexFile db = Some ip" "vp \<noteq> ip" "mapped_writable (indexMap db)"
    "unat (appendOffset db) \<le> length (value_bytes db)" "length (value_bytes db) < 2 ^ 63"
    "mapped_data (indexMap db) = Some v" "16 \<le> length (oi_buckets v)"
    "object_index_ok (take (unat (appendOffset db)) (value_bytes db)) v"
    "value_bytes db = file_content (filesys db) vp" "value_readable db"
    using db by (rule object_okD)
  define c where "c = value_bytes db"
  define n where "n = unat (appendOffset db)"
  define db' where "db' = db\<lparr>filesys := fs\<rparr>"
  obtain k where k: "k \<le> length (concat slices)" "file_content fs vp = overwrite c n (take k (concat slices))"
      and other: "\<forall>q. q \<noteq> vp \<longrightarrow> files fs q = files (filesys db) q" and dirs: "dirs fs = dirs (filesys db)"
    using WriteVAllAt_prefix [of os "filesys db" vp slices "appendOffset db" status fs]
      WriteVAllAt_dirs [OF wr] wr d(4,13)
    by (auto simp: wrote_prefix_def c_def n_def)
  have bytes: "value_bytes db' = overwrite c n (take k (concat slices))"
    using d(3,4) k(2) by (simp add: db'_def value_bytes_def)
  have n: "n \<le> length c" using d(8) by (simp add: c_def n_def)
  have grow: "n \<le> length (value_bytes db')"
    using length_overwrite_ge [of c n "take k (concat slices)"] n by (simp add: bytes)
  have len: "length (value_bytes db') < 2 ^ 63"
  proof (cases "take k (concat slices) = []")
    case True
    have "value_bytes db' = c" unfolding bytes True by (rule overwrite_Nil)
    then show ?thesis using d(9) by (simp add: c_def)
  next
    case False
    have "n + length (take k (concat slices)) < 2 ^ 63" using room unfolding n_def by simp
    then show ?thesis using length_overwrite [OF False, of c n] d(9) unfolding bytes c_def by simp
  qed
  have P: "take n (value_bytes db') = take n c"
    unfolding bytes using n by (intro take_overwrite) simp_all
  have ok: "object_ok db'"
    unfolding object_ok_def
    using d len grow P by (simp add: db'_def c_def n_def)
  moreover have "objects db' = objects db"
    using object_ok_readable(2) [OF ok] object_ok_readable(2) [OF db] P
    by (simp add: c_def n_def) (simp add: db'_def Buckets_def)
  moreover have "object_frame db db'"
    unfolding object_frame_def
    by (intro exI [of _ fs] exI [of _ "indexMap db"] exI [of _ "appendOffset db"])
      (use other in \<open>auto simp: db'_def dirs d(4)\<close>)
  moreover have "log_bytes db' = log_bytes db"
    using P by (simp add: log_bytes_def c_def n_def) (simp add: db'_def)
  ultimately show ?thesis by (simp add: db'_def)
qed

text \<open>The capacity check keeps the invariant and the map and leaves room for the batch.\<close>

lemma ensure_capacity_keeps:
  assumes os: "calls_ok os" and db: "object_ok db"
    and cap: "index_capacity (options db) (the (mapped_data (indexMap db))) n"
  shows "\<exists>db'. EnsureCapacityForInsert os db (of_nat n) = Some (Ok, db') \<and> object_ok db' \<and>
    index_frame db db' \<and> objects db' = objects db \<and> log_bytes db' = log_bytes db \<and>
    no_tail db' = no_tail db \<and> index_room (the (mapped_data (indexMap db'))) n"
proof -
  obtain v vp ip where d: "opened db" "\<not> readOnly db" "mapped_data (valueMap db) = None"
    "valueFile db = Some vp" "indexFile db = Some ip" "vp \<noteq> ip" "mapped_writable (indexMap db)"
    "unat (appendOffset db) \<le> length (value_bytes db)" "length (value_bytes db) < 2 ^ 63"
    "mapped_data (indexMap db) = Some v" "16 \<le> length (oi_buckets v)"
    "object_index_ok (take (unat (appendOffset db)) (value_bytes db)) v"
    "value_bytes db = file_content (filesys db) vp" "value_readable db"
    using db by (rule object_okD)
  have cap': "index_capacity (options db) v n" using cap d(10) by simp
  obtain db' v' where e: "EnsureCapacityForInsert os db (of_nat n) = Some (Ok, db')" "index_frame db db'"
    "mapped_data (indexMap db') = Some v'" "mapped_writable (indexMap db')"
    "object_index_ok (take (unat (appendOffset db)) (value_bytes db)) v'"
    "length (oi_buckets v) \<le> length (oi_buckets v')"
    "object_map (take (unat (appendOffset db)) (value_bytes db)) (oi_buckets v') =
      object_map (take (unat (appendOffset db)) (value_bytes db)) (oi_buckets v)"
    "length (occupied vacant_bucket (oi_buckets v')) + n < length (oi_buckets v')"
    using EnsureCapacity_ok [OF os d(5,10,7,12,11) cap'] by blast
  have bytes: "value_bytes db' = value_bytes db"
    using d by (intro index_frame_value_bytes [OF e(2)]) simp_all
  note fr = index_frameD [OF e(2)]
  have ok: "object_ok db'"
    unfolding object_ok_def bytes fr using d e by auto
  have "objects db' = objects db"
    unfolding object_ok_readable(2) [OF ok] object_ok_readable(2) [OF db] bytes fr
    using e(3,7) d(10) by (simp add: Buckets_def)
  then show ?thesis
    using e ok by (simp add: index_room_def log_bytes_def no_tail_def bytes fr)
qed

text \<open>
  A write of a batch: under any behaviour of the data transfer it either stores the whole batch or
  reports an error and leaves the map alone, and the database stays well formed.
\<close>

lemma WriteStructs_atomic:
  assumes os: "calls_ok os" "reads_ok os" and db: "object_ok db" and fits: "write_fits db column entries"
    and fresh: "unique \<Longrightarrow> fresh_keys column entries (objects db)"
  shows "\<exists>status db'. WriteStructs os db column entries unique = Some (status, db') \<and>
    object_ok db' \<and> object_frame db db' \<and>
    (status = Ok \<and> objects db' = store_entries column entries (objects db) \<and>
       log_bytes db' = log_bytes db @ entries_bytes column entries \<and> (no_tail db \<longrightarrow> no_tail db') \<or>
     \<not> IsOk status \<and> objects db' = objects db \<and> log_bytes db' = log_bytes db) \<and>
    (writes_ok os \<longrightarrow> status = Ok)"
proof (cases "entries = []")
  case True
  then show ?thesis
    using db fits by (auto simp: WriteStructs_def write_fits_def object_ok_def entries_bytes_def)
next
  case False
  have open_db: "opened db" "\<not> readOnly db" using db by (simp_all add: object_ok_def)
  have fit: "FitsUint32 (length column)" "list_all (\<lambda>e. FitsUint32 (length (se_key e))) entries"
    and room: "unat (appendOffset db) + length (entries_bytes column entries) < 2 ^ 63"
    and cap: "index_capacity (options db) (the (mapped_data (indexMap db))) (length entries)"
    using fits by (simp_all add: write_fits_def)
  obtain db1 where e: "EnsureCapacityForInsert os db (of_nat (length entries)) = Some (Ok, db1)"
    "object_ok db1" "index_frame db db1" "objects db1 = objects db" "log_bytes db1 = log_bytes db" "no_tail db1 = no_tail db"
    "index_room (the (mapped_data (indexMap db1))) (length entries)"
    using ensure_capacity_keeps [OF os(1) db cap] by blast
  have app: "appendOffset db1 = appendOffset db" using index_frameD [OF e(3)] by simp
  note room1 = room [folded app]
  have fr1: "object_frame db db1" using e(3) by (rule index_frame_object_frame)
  obtain ps ss nxt where b: "build_pending column (appendOffset db1) entries = (ps, ss, nxt)"
    by (metis prod_cases3)
  obtain st fs where wr: "WriteVAllAt os (filesys db1) (valueFile db1) ss (appendOffset db1) = (st, fs)"
    by (metis surj_pair)
  have start: "WriteStructs os db column entries unique =
    (if \<not> IsOk st then Some (st, db1\<lparr>filesys := fs\<rparr>)
     else let (status, db3) = index_pending os column (HashString column) unique ps (db1\<lparr>filesys := fs\<rparr>)
          in if \<not> IsOk status then Some (status, db3) else Some (Ok, db3\<lparr>appendOffset := nxt\<rparr>))"
    using False open_db fit by (simp add: WriteStructs_def e(1) b wr)
  show ?thesis
  proof (cases "IsOk st")
    case True
    from write_records_ok [OF os(2) e(2) False fit room1 e(7) _ wr True b] fresh
    obtain db3 where "index_pending os column (HashString column) unique ps (db1\<lparr>filesys := fs\<rparr>) = (Ok, db3)"
      and w: "object_ok (db3\<lparr>appendOffset := nxt\<rparr>)" "object_frame db1 (db3\<lparr>appendOffset := nxt\<rparr>)"
        "objects (db3\<lparr>appendOffset := nxt\<rparr>) = store_entries column entries (objects db1)"
        "log_bytes (db3\<lparr>appendOffset := nxt\<rparr>) = log_bytes db1 @ entries_bytes column entries"
        "no_tail db1 \<longrightarrow> no_tail (db3\<lparr>appendOffset := nxt\<rparr>)"
      unfolding e(4) by blast
    then have "WriteStructs os db column entries unique = Some (Ok, db3\<lparr>appendOffset := nxt\<rparr>)"
      by (simp add: start True)
    then show ?thesis
      using w object_frame_trans [OF fr1 w(2)] by (simp add: e(4-6))
  next
    case err: False
    have ss: "concat ss = entries_bytes column entries"
      using build_pending_concat [of column "appendOffset db1" entries] by (simp add: b)
    have "\<not> writes_ok os"
    proof
      assume w: "writes_ok os"
      obtain vp where "valueFile db1 = Some vp" using e(2) by (rule object_okD)
      then have "st = Ok"
        using WriteVAllAt_ok [OF w, of "appendOffset db1" ss "filesys db1" vp] room1 wr False
        by (simp add: ss entries_bytes_Nil)
      with err show False by simp
    qed
    moreover from ss have "object_ok (db1\<lparr>filesys := fs\<rparr>) \<and> objects (db1\<lparr>filesys := fs\<rparr>) = objects db1 \<and>
        object_frame db1 (db1\<lparr>filesys := fs\<rparr>) \<and> log_bytes (db1\<lparr>filesys := fs\<rparr>) = log_bytes db1"
      using room1 by (intro failed_write_keeps [OF e(2) _ wr]) simp
    moreover have "WriteStructs os db column entries unique = Some (st, db1\<lparr>filesys := fs\<rparr>)"
      by (simp add: start err)
    ultimately show ?thesis
      using err e(4,5) object_frame_trans [OF fr1]
      by (intro exI [of _ st] exI [of _ "db1\<lparr>filesys := fs\<rparr>"]) simp
  qed
qed

lemma object_put_ok:
  assumes "os_ok os" and "object_ok db" and "write_fits db column entries"
  shows "\<exists>db'. PutStructs os db column entries = Some (Ok, db') \<and> object_ok db' \<and>
    object_frame db db' \<and> objects db' = store_entries column entries (objects db) \<and>
    log_bytes db' = log_bytes db @ entries_bytes column entries \<and> (no_tail db \<longrightarrow> no_tail db')"
proof -
  have os: "calls_ok os" "reads_ok os" "writes_ok os" using assms(1) by (simp_all add: os_ok_def)
  from WriteStructs_atomic [OF os(1,2) assms(2,3), of False] os(3)
  show ?thesis by (auto simp: PutStructs_def)
qed

subsection \<open>The object API as a keyed store\<close>

definition as_entries :: "(bytes \<times> bytes) list \<Rightarrow> StructEntry list" where
  "as_entries kvs = map (\<lambda>(k, v). \<lparr>se_key = k, se_bytes = v\<rparr>) kvs"

definition column_map :: "Impl \<Rightarrow> bytes \<Rightarrow> bytes \<Rightarrow> bytes option" where
  "column_map db column key = objects db (column, key)"

definition put_batch :: "os \<Rightarrow> bytes \<Rightarrow> Impl \<Rightarrow> (bytes \<times> bytes) list \<Rightarrow> Impl option" where
  "put_batch os column db kvs =
     (case PutStructs os db column (as_entries kvs) of
        Some (status, db') \<Rightarrow> if IsOk status then Some db' else None
      | None \<Rightarrow> None)"

definition get_option :: "os \<Rightarrow> bytes \<Rightarrow> Impl \<Rightarrow> bytes \<Rightarrow> bytes option" where
  "get_option os column db key = (case GetStruct os db column key of Inl _ \<Rightarrow> None | Inr v \<Rightarrow> Some v)"

lemma store_as_entries:
  "(\<lambda>key. store_entries column (as_entries kvs) m (column, key)) = put_all kvs (\<lambda>key. m (column, key))"
proof (induction kvs arbitrary: m)
  case (Cons kv kvs)
  have "(\<lambda>key. (m((column, fst kv) \<mapsto> snd kv)) (column, key)) = (\<lambda>key. m (column, key))(fst kv \<mapsto> snd kv)"
    by auto
  then show ?case using Cons by (cases kv) (simp add: as_entries_def)
qed (simp add: as_entries_def)

lemma store_other_column:
  "column' \<noteq> column \<Longrightarrow> store_entries column entries m (column', key) = m (column', key)"
  by (induction entries arbitrary: m) auto

interpretation object_store: keyed_store
  "\<lambda>db. os_ok os \<and> object_ok db" "\<lambda>db. column_map db column"
  "\<lambda>db kvs. write_fits db column (as_entries kvs)" "put_batch os column" "get_option os column"
  for os column
proof
  fix db kvs
  assume "os_ok os \<and> object_ok db" and fits: "write_fits db column (as_entries kvs)"
  then obtain db' where w: "PutStructs os db column (as_entries kvs) = Some (Ok, db')"
    "object_ok db'" "objects db' = store_entries column (as_entries kvs) (objects db)" and os: "os_ok os"
    using object_put_ok [of os db column "as_entries kvs"] by auto
  have "column_map db' column = put_all kvs (column_map db column)"
    using store_as_entries [of column kvs "objects db"] w(3) by (simp add: column_map_def [abs_def])
  then show "\<exists>db'. put_batch os column db kvs = Some db' \<and> (os_ok os \<and> object_ok db') \<and>
      column_map db' column = put_all kvs (column_map db column)"
    using w os by (simp add: put_batch_def)
next
  fix db key
  assume "os_ok os \<and> object_ok db"
  then show "get_option os column db key = column_map db column key"
    using GetStruct_ok [OF _ object_ok_readable(1), of os db column key]
    by (cases "objects db (column, key)") (simp_all add: get_option_def column_map_def os_ok_def)
qed

subsection \<open>The empty index\<close>

lemma empty_index_ok:
  assumes "j \<le> 58"
  shows "object_index_ok c (empty_index (2 ^ j))"
proof (rule object_index_okI [OF assms])
  have "chained vacant_bucket ib_hash (replicate n IndexBucket_default)" for n
    by (rule object_table.chained_blank)
  then show "object_table_ok c (oi_buckets (empty_index (2 ^ j)))"
    by (auto simp: object_table_ok_def empty_index_def keyed_def unique_keys_def)
qed (use assms in \<open>simp_all add: empty_index_def index_header_ok_def IndexFileHeader_default_def\<close>)

lemma object_map_empty [simp]: "object_map c (oi_buckets (empty_index n)) = (\<lambda>_. None)"
  by (rule ext) (simp add: object_map_None_iff empty_index_def)

end
