(* ===== verification/Value_File.thy ===== *)
theory Value_File
  imports Object_Api
begin

text \<open>
  Opening the value file and the object index: header checks, migration of the legacy record
  format, validation of a stored index and its reconstruction from the records.
\<close>

definition IsValidLegacyRecordHeader :: "LegacyValueRecordHeader \<Rightarrow> bool" where
  "IsValidLegacyRecordHeader recordHeader \<longleftrightarrow>
     lr_magic recordHeader = kRecordMagic \<and>
     lr_version recordHeader = of_nat kStorageVersion \<and>
     lr_headerSize recordHeader = 48"

text \<open>Copying the data of one record in chunks of at most 1 MiB.\<close>

function copy_chunks ::
  "os \<Rightarrow> fs \<Rightarrow> string option \<Rightarrow> string option \<Rightarrow> u64 \<Rightarrow> u64 \<Rightarrow> u64 \<Rightarrow> Status \<times> fs" where
  "copy_chunks os fs source target remaining recordSourceOffset recordDestinationOffset =
     (if remaining = 0 then (Ok, fs)
      else
        let chunkSize = min (unat remaining) 1048576 in
        case ReadAllAt os fs source chunkSize recordSourceOffset of
          Inl status \<Rightarrow> (status, fs)
        | Inr copyBuffer \<Rightarrow>
            (let (status, fs1) = WriteAllAt os fs target copyBuffer recordDestinationOffset in
             if \<not> IsOk status then (status, fs1)
             else copy_chunks os fs1 source target (remaining - of_nat chunkSize)
                    (recordSourceOffset + of_nat chunkSize) (recordDestinationOffset + of_nat chunkSize)))"
  by pat_completeness auto
termination
proof (relation "measure (\<lambda>(_, _, _, _, remaining, _, _). unat remaining)", goal_cases)
  case 1
  show ?case by simp
next
  case (2 os fs source target remaining src dst chunkSize buf st fs1)
  have pos: "0 < unat remaining" using 2(1) by (simp add: unat_gt_0)
  have "unat (of_nat chunkSize :: u64) = chunkSize"
    using 2(2) by (intro unat_of_nat64) (simp add: min_def)
  then have "unat (remaining - of_nat chunkSize) = unat remaining - chunkSize"
    using 2(2) by (intro unat_sub64 [THEN trans]) (simp_all add: min_def)
  then show ?case using pos 2(2) by simp
qed

text \<open>
  The loop over the legacy records.  The first sum of the record size is taken in 32 bits, as the
  C++ operand types make it; all other sums wrap at 64 bits.  \<open>None\<close> is a loop that never ends.
\<close>

partial_function (option) migrate_loop ::
  "os \<Rightarrow> fs \<Rightarrow> string option \<Rightarrow> string option \<Rightarrow> u64 \<Rightarrow> u64 \<Rightarrow> u64 \<Rightarrow> (Status \<times> fs \<times> u64) option" where
  "migrate_loop os fs source target legacyFileSize sourceOffset destinationOffset =
     (if \<not> sourceOffset < legacyFileSize then Some (Ok, fs, destinationOffset)
      else case ReadAllAt os fs source 48 sourceOffset of
          Inl status \<Rightarrow> Some (status, fs, destinationOffset)
        | Inr bs \<Rightarrow>
            let legacyHeader = decode_LegacyValueRecordHeader bs in
            if \<not> IsValidLegacyRecordHeader legacyHeader
            then Some (Corruption ''legacy value record header is invalid'', fs, destinationOffset)
            else
              let recordDataSize = ucast (lr_columnSize legacyHeader + lr_keySize legacyHeader) +
                    lr_valueSize legacyHeader;
                  legacyRecordSize = 48 + recordDataSize
              in if legacyRecordSize > legacyFileSize - sourceOffset
                 then Some (Corruption ''legacy value record extends beyond file size'', fs, destinationOffset)
                 else
                   let recordHeader = ValueRecordHeader_default
                         \<lparr>vr_columnSize := lr_columnSize legacyHeader, vr_keySize := lr_keySize legacyHeader,
                          vr_valueSize := lr_valueSize legacyHeader\<rparr>;
                       (status, fs1) = WriteAllAt os fs target (encode_ValueRecordHeader recordHeader) destinationOffset
                   in if \<not> IsOk status then Some (status, fs1, destinationOffset)
                      else
                        let (status, fs2) = copy_chunks os fs1 source target recordDataSize
                              (sourceOffset + 48) (destinationOffset + 24)
                        in if \<not> IsOk status then Some (status, fs2, destinationOffset)
                           else migrate_loop os fs2 source target legacyFileSize
                                  (sourceOffset + legacyRecordSize) (destinationOffset + (24 + recordDataSize)))"

definition rename_file :: "os \<Rightarrow> fs \<Rightarrow> string \<Rightarrow> string \<Rightarrow> string option \<times> fs" where
  "rename_file os fs from_path to_path =
     (case rename_error os from_path of
        Some e \<Rightarrow> (Some e, fs)
      | None \<Rightarrow> (None, fs\<lparr>files := (files fs)(from_path := None, to_path := files fs from_path)\<rparr>))"

definition remove_file :: "os \<Rightarrow> fs \<Rightarrow> string \<Rightarrow> string option \<times> fs" where
  "remove_file os fs path =
     (case remove_error os path of
        Some e \<Rightarrow> (Some e, fs)
      | None \<Rightarrow> (None, fs\<lparr>files := (files fs)(path := None)\<rparr>))"

definition MigrateLegacyValueFile :: "os \<Rightarrow> Impl \<Rightarrow> u64 \<Rightarrow> (Status \<times> Impl) option" where
  "MigrateLegacyValueFile os db legacyFileSize =
     (let migrationPath = valuePath db @ ''.migrating'';
          (status, migrationFile, fs1) = OpenReadWriteCreate os (filesys db) migrationPath
      in if \<not> IsOk status then Some (status, db\<lparr>filesys := fs1\<rparr>)
         else
           let (status, fs2) = TruncateFile os fs1 migrationFile 0 in
           if \<not> IsOk status then Some (status, db\<lparr>filesys := fs2\<rparr>)
           else
             let (status, fs3) =
                   WriteAllAt os fs2 migrationFile (encode_ValueFileHeader ValueFileHeader_default) 0
             in if \<not> IsOk status then Some (status, db\<lparr>filesys := fs3\<rparr>)
                else case migrate_loop os fs3 (valueFile db) migrationFile legacyFileSize 24 24 of
                    None \<Rightarrow> None
                  | Some (status, fs4, destinationOffset) \<Rightarrow>
                      if \<not> IsOk status then Some (status, db\<lparr>filesys := fs4\<rparr>)
                      else
                        let status = SyncFile os migrationFile in
                        if \<not> IsOk status then Some (status, db\<lparr>filesys := fs4\<rparr>)
                        else
                          let (error, fs5) = rename_file os fs4 migrationPath (valuePath db) in
                          case error of
                            Some e \<Rightarrow>
                              Some (IoError (''rename migrated value file: '' @ e),
                                    db\<lparr>filesys := fs5, valueFile := None\<rparr>)
                          | None \<Rightarrow>
                              let (error, fs6) = remove_file os fs5 (indexPath db) in
                              case error of
                                Some e \<Rightarrow>
                                  Some (IoError (''remove stale object index: '' @ e),
                                        db\<lparr>filesys := fs6, valueFile := None\<rparr>)
                              | None \<Rightarrow>
                                  let (status, fd, fs7) = OpenReadWriteCreate os fs6 (valuePath db) in
                                  if \<not> IsOk status
                                  then Some (status, db\<lparr>filesys := fs7, valueFile := fd\<rparr>)
                                  else Some (Ok, db\<lparr>filesys := fs7, valueFile := fd,
                                         appendOffset := destinationOffset\<rparr>))"

definition OpenValueFile :: "os \<Rightarrow> Impl \<Rightarrow> (Status \<times> Impl) option" where
  "OpenValueFile os db =
     (let (status, fd, fs1) =
        (if readOnly db
         then (case OpenReadOnlyFile os (filesys db) (valuePath db) of (st, fd) \<Rightarrow> (st, fd, filesys db))
         else OpenReadWriteCreate os (filesys db) (valuePath db))
      in if \<not> IsOk status then Some (status, db\<lparr>filesys := fs1\<rparr>)
         else
           let db1 = db\<lparr>filesys := fs1, valueFile := fd\<rparr> in
           case GetFileSize os (filesys db1) (valueFile db1) of
             Inl status \<Rightarrow> Some (status, db1)
           | Inr fileSize \<Rightarrow>
               if fileSize = 0 then
                 (if readOnly db1 then Some (Corruption ''value file is empty'', db1)
                  else
                    let (status, fs2) = WriteAllAt os (filesys db1) (valueFile db1)
                          (encode_ValueFileHeader ValueFileHeader_default) 0
                    in if \<not> IsOk status then Some (status, db1\<lparr>filesys := fs2\<rparr>)
                       else Some (Ok, db1\<lparr>filesys := fs2, appendOffset := 24\<rparr>))
               else if fileSize < 24 then Some (Corruption ''value file header is truncated'', db1)
               else case ReadAllAt os (filesys db1) (valueFile db1) 24 0 of
                   Inl status \<Rightarrow> Some (status, db1)
                 | Inr bs \<Rightarrow>
                     let header = decode_ValueFileHeader bs in
                     if MagicEquals (vf_magic header) kLegacyValueFileMagic \<and>
                        vf_version header = of_nat kStorageVersion \<and> vf_headerSize header = 24
                     then
                       (if readOnly db1
                        then Some (InvalidArgument ''legacy value file requires a read-write open for migration'', db1)
                        else MigrateLegacyValueFile os db1 fileSize)
                     else if \<not> MagicEquals (vf_magic header) kValueFileMagic \<or>
                        vf_version header \<noteq> of_nat kStorageVersion \<or> vf_headerSize header \<noteq> 24
                     then Some (Corruption ''value file header is invalid'', db1)
                     else
                       let db2 = db1\<lparr>appendOffset := fileSize\<rparr> in
                       if readOnly db2 then
                         (let (status, m) = MapWithProtection os (valueFile db2)
                                (file_content (filesys db2) (the (valueFile db2))) fileSize False
                          in Some (status, db2\<lparr>valueMap := m\<rparr>))
                       else Some (Ok, db2))"

text \<open>The loop of \<open>RebuildIndexFromValues\<close>; \<open>None\<close> is a loop that never ends.\<close>

partial_function (option) rebuild_loop :: "os \<Rightarrow> u64 \<Rightarrow> u64 \<Rightarrow> Impl \<Rightarrow> (Status \<times> Impl) option" where
  "rebuild_loop os fileSize offset db =
     (if \<not> offset < fileSize then Some (Ok, db)
      else case ReadAllAt os (filesys db) (valueFile db) 24 offset of
          Inl status \<Rightarrow> Some (status, db)
        | Inr bs \<Rightarrow>
            let recordHeader = decode_ValueRecordHeader bs in
            if \<not> IsValidRecordHeader recordHeader
            then Some (Corruption ''value record header is invalid'', db)
            else
              let recordSize = 24 + ucast (vr_columnSize recordHeader) + ucast (vr_keySize recordHeader) +
                    vr_valueSize recordHeader
              in if recordSize > fileSize - offset
                 then Some (Corruption ''value record extends beyond file size'', db)
                 else case ReadRecordColumnKey os db offset recordHeader of
                     Inl status \<Rightarrow> Some (status, db)
                   | Inr ck \<Rightarrow>
                       (case EnsureCapacityForInsert os db 1 of
                          None \<Rightarrow> None
                        | Some r \<Rightarrow>
                            if \<not> IsOk (fst r) then Some r
                            else
                              let db1 = snd r; columnHash = HashString (fst ck); keyHash = HashString (snd ck) in
                              case FindBucket os db1 (fst ck) (snd ck) columnHash keyHash of
                                Inl status \<Rightarrow> Some (status, db1)
                              | Inr lookup \<Rightarrow>
                                  let bucket = \<lparr>ib_hash = ObjectIndexHash columnHash keyHash,
                                                ib_recordOffset = offset\<rparr>;
                                      db2 = set_Bucket (lookup_index lookup) bucket db1;
                                      db3 = (if \<not> lookup_found lookup then increment_itemCount db2 else db2)
                                  in rebuild_loop os fileSize (offset + recordSize) db3))"

definition RebuildIndexFromValues :: "os \<Rightarrow> Impl \<Rightarrow> (Status \<times> Impl) option" where
  "RebuildIndexFromValues os db =
     (case GetFileSize os (filesys db) (valueFile db) of
        Inl status \<Rightarrow> Some (status, db)
      | Inr fileSize \<Rightarrow>
          (case rebuild_loop os fileSize 24 db of
             None \<Rightarrow> None
           | Some (status, db1) \<Rightarrow>
               if \<not> IsOk status then Some (status, db1)
               else Some (Ok, db1\<lparr>appendOffset := fileSize\<rparr>)))"

text \<open>
  An index that fails the layout check is unmapped without having been written, so its file keeps
  its bytes until \<open>CreateEmptyIndex\<close> replaces them.
\<close>

definition OpenIndexFile :: "os \<Rightarrow> Impl \<Rightarrow> (Status \<times> Impl) option" where
  "OpenIndexFile os db =
     (let (status, fd, fs1) =
        (if readOnly db
         then (case OpenReadOnlyFile os (filesys db) (indexPath db) of (st, fd) \<Rightarrow> (st, fd, filesys db))
         else OpenReadWriteCreate os (filesys db) (indexPath db))
      in if \<not> IsOk status then Some (status, db\<lparr>filesys := fs1\<rparr>)
         else
           let db1 = db\<lparr>filesys := fs1, indexFile := fd\<rparr> in
           case GetFileSize os (filesys db1) (indexFile db1) of
             Inl status \<Rightarrow> Some (status, db1)
           | Inr fileSize \<Rightarrow>
               if readOnly db1 \<and> fileSize = 0 then Some (Corruption ''index file is empty'', db1)
               else
                 case
                   (if fileSize = 0 then Some (Ok, db1, True)
                    else
                      let (status, m) = MapWithProtection os (indexFile db1)
                            (decode_object_index (file_content (filesys db1) (the (indexFile db1))))
                            fileSize (\<not> readOnly db1);
                          db2 = db1\<lparr>indexMap := m\<rparr>
                      in if \<not> IsOk status then Some (status, db2, False)
                         else map_option (\<lambda>valid. if \<not> valid then (Ok, db2\<lparr>indexMap := Unmapped\<rparr>, True) else (Ok, db2, False))
                                (HasValidIndexLayout db2 fileSize)) of
                   None \<Rightarrow> None
                 | Some (status, db2, shouldRebuild) \<Rightarrow>
                    if \<not> IsOk status then Some (status, db2)
                    else if shouldRebuild then
                      (if readOnly db2 then Some (Corruption ''index file must be valid in read-only mode'', db2)
                       else case CreateEmptyIndex os db2 (initialBucketCount (options db2)) of
                           None \<Rightarrow> None
                         | Some (status, db3) \<Rightarrow>
                             if \<not> IsOk status then Some (status, db3)
                             else RebuildIndexFromValues os db3)
                    else Some (Ok, db2))"

subsection \<open>The value file as a log\<close>

lemma record_end_less: "off < record_end content off"
  by (simp add: record_end_def Let_def)

text \<open>All records from an offset to the end of the content, if they fill it exactly.\<close>

function records_from :: "bytes \<Rightarrow> nat \<Rightarrow> (bytes \<times> bytes \<times> bytes) list option" where
  "records_from content off =
     (if length content \<le> off then Some []
      else case record_at content off of
          None \<Rightarrow> None
        | Some r \<Rightarrow> map_option ((#) r) (records_from content (record_end content off)))"
  by pat_completeness auto
termination
  by (relation "measure (\<lambda>(content, off). length content - off)") (auto simp: record_end_less diff_less_mono2)

declare records_from.simps [simp del]

definition replay :: "(bytes \<times> bytes \<times> bytes) list \<Rightarrow> (bytes \<times> bytes \<rightharpoonup> bytes) \<Rightarrow> (bytes \<times> bytes \<rightharpoonup> bytes)" where
  "replay rs m = fold (\<lambda>(column, key, v) m. m((column, key) \<mapsto> v)) rs m"

lemma replay_simps [simp]:
  "replay [] m = m" "replay ((column, key, v) # rs) m = replay rs (m((column, key) \<mapsto> v))"
  by (simp_all add: replay_def)

lemma replay_append: "replay (xs @ ys) m = replay ys (replay xs m)"
  by (simp add: replay_def)

definition entry_triples :: "bytes \<Rightarrow> StructEntry list \<Rightarrow> (bytes \<times> bytes \<times> bytes) list" where
  "entry_triples column entries = map (\<lambda>e. (column, se_key e, se_bytes e)) entries"

lemma replay_entries: "replay (entry_triples column entries) m = store_entries column entries m"
  by (induction entries arbitrary: m) (simp_all add: entry_triples_def)

lemma records_from_end: "records_from c (length c) = Some []"
  by (simp add: records_from.simps)

lemma record_end_entry:
  assumes "FitsUint32 (length column)" and "FitsUint32 (length (se_key e))" and "length (se_bytes e) < 2 ^ 63"
  shows "record_end (pre @ entry_record column e @ post) (length pre) = length pre + length (entry_record column e)"
proof -
  have "header_at (pre @ entry_record column e @ post) (length pre) = pr_header (pending_record column 0 e)"
    using decode_encode_ValueRecordHeader [of "pr_header (pending_record column 0 e)" "[]"]
    by (simp add: header_at_def entry_record_def)
  then show ?thesis
    using assms
    by (simp add: record_end_def length_entry_record pending_record_def unat_of_nat32 unat_of_nat64)
qed

lemma records_from_entries:
  assumes "FitsUint32 (length column)" and "list_all (\<lambda>e. FitsUint32 (length (se_key e))) entries"
    and "length pre + length (entries_bytes column entries) < 2 ^ 63"
  shows "records_from (pre @ entries_bytes column entries) (length pre) = Some (entry_triples column entries)"
  using assms(2,3)
proof (induction entries arbitrary: pre)
  case Nil
  then show ?case using records_from_end [of pre] by (simp add: entries_bytes_def entry_triples_def)
next
  case (Cons e es)
  define r where "r = entry_record column e"
  define c where "c = pre @ r @ entries_bytes column es"
  have split: "entries_bytes column (e # es) = r @ entries_bytes column es"
    by (simp add: entries_bytes_def r_def)
  have len: "24 \<le> length r" "length (se_bytes e) \<le> length r"
    by (simp_all add: r_def length_entry_record)
  have val: "length (se_bytes e) < 2 ^ 63" and key: "FitsUint32 (length (se_key e))"
    using Cons.prems len(2) by (simp_all add: split)
  have rec: "record_at c (length pre) = Some (column, se_key e, se_bytes e)"
    using record_at_entry [OF assms(1) key val] by (simp add: c_def r_def)
  have "record_end c (length pre) = length (pre @ r)"
    using record_end_entry [OF assms(1) key val] by (simp add: c_def r_def)
  moreover have "records_from c (length (pre @ r)) = Some (entry_triples column es)"
    using Cons.IH [of "pre @ r"] Cons.prems by (simp add: c_def split)
  moreover have nonempty: "\<not> length c \<le> length pre" using len(1) by (auto simp: c_def)
  ultimately have "records_from c (length pre) = Some ((column, se_key e, se_bytes e) # entry_triples column es)"
    using rec len(1) nonempty by (simp add: records_from.simps [of c "length pre"])
  then show ?case by (simp add: split entry_triples_def flip: c_def)
qed

lemma record_end_extend:
  assumes "off + 24 \<le> length c"
  shows "record_end (c @ d) off = record_end c off"
  using assms by (simp add: record_end_def header_at_def)

lemma records_from_append:
  "records_from c off = Some rs \<Longrightarrow> off \<le> length c \<Longrightarrow> records_from (c @ d) (length c) = Some rs' \<Longrightarrow>
    records_from (c @ d) off = Some (rs @ rs')"
proof (induction c off arbitrary: rs rule: records_from.induct)
  case (1 c off)
  show ?case
  proof (cases "off = length c")
    case True
    then show ?thesis using "1.prems" by (simp add: records_from_end)
  next
    case False
    then have less: "\<not> length c \<le> off" using "1.prems"(2) by simp
    obtain r rs0 where r: "record_at c off = Some r" "records_from c (record_end c off) = Some rs0" "rs = r # rs0"
      using "1.prems"(1) less by (auto simp: records_from.simps [of c off] split: option.splits)
    have bounds: "off + 24 \<le> length c" "record_end c off \<le> length c"
      using r(1) by (auto simp: record_at_def Let_def split: if_splits)
    have "records_from (c @ d) (record_end c off) = Some (rs0 @ rs')"
      by (rule "1.IH" [OF less r(1,2) bounds(2) "1.prems"(3)])
    moreover have "record_at (c @ d) off = Some r"
      by (rule record_at_extend [OF r(1)]) simp
    ultimately show ?thesis
      using less bounds(1) r(3)
      by (simp add: records_from.simps [of "c @ d" off] record_end_extend)
  qed
qed

subsection \<open>The log invariant\<close>

definition value_header_ok :: "bytes \<Rightarrow> bool" where
  "value_header_ok content \<longleftrightarrow>
     24 \<le> length content \<and>
     (let h = decode_ValueFileHeader (take 24 content) in
      vf_magic h = kValueFileMagic \<and> vf_version h = of_nat kStorageVersion \<and> vf_headerSize h = 24)"

text \<open>
  The records up to the append offset are a log whose replay is the stored map: this is what makes
  the index disposable.
\<close>

definition object_log_ok :: "Impl \<Rightarrow> bool" where
  "object_log_ok db \<longleftrightarrow>
     value_header_ok (log_bytes db) \<and>
     (\<exists>rs. records_from (log_bytes db) 24 = Some rs \<and> objects db = replay rs (\<lambda>_. None))"

lemma value_header_ok_append: "value_header_ok c \<Longrightarrow> value_header_ok (c @ d)"
  by (simp add: value_header_ok_def)

lemma log_append:
  assumes "object_log_ok db" and "objects db' = store_entries column entries (objects db)"
    and app: "log_bytes db' = log_bytes db @ entries_bytes column entries"
    and fit: "FitsUint32 (length column)" "list_all (\<lambda>e. FitsUint32 (length (se_key e))) entries"
    and room: "length (log_bytes db) + length (entries_bytes column entries) < 2 ^ 63"
  shows "object_log_ok db'"
proof -
  obtain rs where rs: "value_header_ok (log_bytes db)" "records_from (log_bytes db) 24 = Some rs"
      "objects db = replay rs (\<lambda>_. None)"
    using assms(1) by (auto simp: object_log_ok_def)
  have "records_from (log_bytes db') 24 = Some (rs @ entry_triples column entries)"
    unfolding app
    by (rule records_from_append [OF rs(2) _ records_from_entries [OF fit room]])
      (use rs(1) in \<open>simp add: value_header_ok_def\<close>)
  moreover have "objects db' = replay (rs @ entry_triples column entries) (\<lambda>_. None)"
    by (simp add: assms(2) rs(3) replay_append replay_entries)
  moreover have "value_header_ok (log_bytes db')"
    unfolding app using rs(1) by (rule value_header_ok_append)
  ultimately show ?thesis by (auto simp: object_log_ok_def)
qed

lemma length_log_bytes: "object_ok db \<Longrightarrow> length (log_bytes db) = unat (appendOffset db)"
  by (auto simp: log_bytes_def object_ok_def)

text \<open>Every write, failed ones included, keeps the log invariant.\<close>

lemma WriteStructs_log:
  assumes "calls_ok os" and "reads_ok os" and db: "object_ok db" and fits: "write_fits db column entries"
    and "unique \<Longrightarrow> fresh_keys column entries (objects db)" and logged: "object_log_ok db"
  shows "\<exists>status db'. WriteStructs os db column entries unique = Some (status, db') \<and>
    object_ok db' \<and> object_log_ok db'"
proof -
  obtain status db' where w: "WriteStructs os db column entries unique = Some (status, db')" "object_ok db'"
    "status = Ok \<and> objects db' = store_entries column entries (objects db) \<and>
       log_bytes db' = log_bytes db @ entries_bytes column entries \<and> (no_tail db \<longrightarrow> no_tail db') \<or>
     \<not> IsOk status \<and> objects db' = objects db \<and> log_bytes db' = log_bytes db"
    using WriteStructs_atomic [OF assms(1-5)] by blast
  from w(3) have "object_log_ok db'"
  proof (elim disjE conjE)
    assume "objects db' = store_entries column entries (objects db)"
      and "log_bytes db' = log_bytes db @ entries_bytes column entries"
    then show ?thesis
      using log_append [OF logged] fits length_log_bytes [OF db] by (simp add: write_fits_def)
  next
    assume "objects db' = objects db" and "log_bytes db' = log_bytes db"
    then show ?thesis using logged by (simp add: object_log_ok_def)
  qed
  with w(1,2) show ?thesis by blast
qed

subsection \<open>Rebuilding the index\<close>

lemma index_capacity_mono:
  assumes "index_capacity opts v (Suc n)"
    and "unat (ih_itemCount (oi_header v')) \<le> Suc (unat (ih_itemCount (oi_header v)))"
  shows "index_capacity opts v' n" and "index_capacity opts v 1"
proof -
  obtain f where f: "maxLoadFactor opts = Fin f" "f < 1" "unat (ih_itemCount (oi_header v)) + Suc n < 2 ^ 53"
    "rat_of_nat (unat (ih_itemCount (oi_header v)) + Suc n) \<le> f * 2 ^ 58"
    using assms(1) by (auto simp: index_capacity_def)
  have le: "rat_of_nat m \<le> f * 2 ^ 58" if "m \<le> unat (ih_itemCount (oi_header v)) + Suc n" for m
    using that f(4) by (meson of_nat_le_iff order_trans)
  show "index_capacity opts v' n"
    unfolding index_capacity_def
    using f assms(2) by (intro exI [of _ f] conjI le) simp_all
  show "index_capacity opts v 1"
    unfolding index_capacity_def
    using f by (intro exI [of _ f] conjI le) simp_all
qed

definition index_state :: "bytes \<Rightarrow> object_index \<Rightarrow> Impl \<Rightarrow> bool" where
  "index_state c v db \<longleftrightarrow>
     mapped_data (valueMap db) = None \<and> valueFile db \<noteq> None \<and> indexFile db \<noteq> None \<and>
     valueFile db \<noteq> indexFile db \<and> value_bytes db = c \<and> length c < 2 ^ 63 \<and>
     mapped_data (indexMap db) = Some v \<and> mapped_writable (indexMap db) \<and>
     16 \<le> length (oi_buckets v) \<and> object_index_ok c v"

lemma index_stateD:
  assumes "index_state c v db"
  obtains vp ip where "mapped_data (valueMap db) = None" "valueFile db = Some vp" "indexFile db = Some ip"
    "vp \<noteq> ip" "value_bytes db = c" "length c < 2 ^ 63" "mapped_data (indexMap db) = Some v"
    "mapped_writable (indexMap db)" "16 \<le> length (oi_buckets v)" "object_index_ok c v"
    "value_readable db" "file_content (filesys db) vp = c"
proof -
  obtain vp ip where *: "mapped_data (valueMap db) = None" "valueFile db = Some vp" "indexFile db = Some ip"
    "vp \<noteq> ip" "value_bytes db = c" "length c < 2 ^ 63" "mapped_data (indexMap db) = Some v"
    "mapped_writable (indexMap db)" "16 \<le> length (oi_buckets v)" "object_index_ok c v"
    using assms unfolding index_state_def by auto
  have "value_readable db" "file_content (filesys db) vp = c"
    using * by (simp_all add: value_readable_def) (simp add: value_bytes_def)
  then show ?thesis using that * by blast
qed

text \<open>Entering the record at one offset of the log.\<close>

lemma rebuild_step:
  assumes os: "calls_ok os" "reads_ok os" and st: "index_state c v db"
    and rec: "record_at c (unat off) = Some (column, key, val)"
    and cap: "index_capacity (options db) v (Suc n)"
  shows "\<exists>db' v'. rebuild_loop os (of_nat (length c)) off db =
      rebuild_loop os (of_nat (length c)) (of_nat (record_end c (unat off))) db' \<and>
    index_state c v' db' \<and> index_frame db db' \<and> index_capacity (options db') v' n \<and>
    object_map c (oi_buckets v') = (object_map c (oi_buckets v))((column, key) \<mapsto> val)"
proof -
  obtain vp ip where d: "mapped_data (valueMap db) = None" "valueFile db = Some vp" "indexFile db = Some ip"
    "vp \<noteq> ip" "value_bytes db = c" "length c < 2 ^ 63" "mapped_data (indexMap db) = Some v"
    "mapped_writable (indexMap db)" "16 \<le> length (oi_buckets v)" "object_index_ok c v"
    "value_readable db" "file_content (filesys db) vp = c"
    using st by (rule index_stateD)
  define h where "h = header_at c (unat off)"
  note b = record_at_bounds [OF rec d(6), folded h_def]
  have re: "record_end c (unat off) = unat off + 24 + length column + length key + length val"
    by (simp add: record_end_def Let_def b(2-4) flip: h_def)
  define size where "size = 24 + ucast (vr_columnSize h) + ucast (vr_keySize h) + vr_valueSize h"
  have s1: "unat (24 + ucast (vr_columnSize h) :: u64) = 24 + length column"
    using b(1,2) d(6) unat_add64 [of 24 "ucast (vr_columnSize h)"] by simp
  have s2: "unat (24 + ucast (vr_columnSize h) + ucast (vr_keySize h) :: u64) = 24 + length column + length key"
    using b(1,3) d(6) s1 unat_add64 [of "24 + ucast (vr_columnSize h)" "ucast (vr_keySize h)"] by simp
  have s3: "unat size = 24 + length column + length key + length val"
    using b(1,4) d(6) s2 unat_add64 [of "24 + ucast (vr_columnSize h) + ucast (vr_keySize h)" "vr_valueSize h"]
    by (simp add: size_def)
  have fs: "unat (of_nat (length c) :: u64) = length c" using d(6) by (intro unat_of_nat64) simp
  have lt: "off < of_nat (length c)" using b(1) by (simp add: word_less_nat_alt fs)
  have fits: "\<not> size > of_nat (length c) - off"
    using b(1) by (simp add: word_less_nat_alt unat_sub64 fs s3)
  have "unat (off + size) = record_end c (unat off)"
    using b(1) d(6) by (simp add: unat_add64 s3 re)
  then have nextoff: "off + size = of_nat (record_end c (unat off))"
    by (metis of_nat_unat ucast_id)
  have read: "ReadAllAt os (filesys db) (valueFile db) 24 off = Inr (take 24 (drop (unat off) c))"
    using b(1) d(2,6,12) ReadAllAt_ok [OF os(2), of "filesys db" vp 24 off]
    by (simp add: read_result_def off_negative_def)
  have ck: "ReadRecordColumnKey os db off h = Inr (column, key)"
    using ReadRecordColumnKey_ok [OF os(2) d(11), of off column key val] rec by (simp add: d(5) h_def)
  have cap1: "index_capacity (options db) v 1" using index_capacity_mono(2) [OF cap, of v] by simp
  obtain db1 v1 where e: "EnsureCapacityForInsert os db 1 = Some (Ok, db1)" "index_frame db db1"
    "mapped_data (indexMap db1) = Some v1" "mapped_writable (indexMap db1)" "object_index_ok c v1"
    "length (oi_buckets v) \<le> length (oi_buckets v1)"
    "object_map c (oi_buckets v1) = object_map c (oi_buckets v)"
    "length (occupied vacant_bucket (oi_buckets v1)) = length (occupied vacant_bucket (oi_buckets v))"
    "length (occupied vacant_bucket (oi_buckets v1)) + 1 < length (oi_buckets v1)"
    using EnsureCapacity_ok [OF os(1) d(3,7,8,10,9) cap1] by auto
  note fr = index_frameD [OF e(2)]
  have bytes1: "value_bytes db1 = c"
    using d index_frame_value_bytes [OF e(2)] by simp
  have readable1: "value_readable db1" using d(1,2,6) bytes1 by (simp add: value_readable_def fr)
  define p where "p = \<lparr>pr_header = h, pr_key = key, pr_value = val, pr_keyHash = HashString key,
      pr_recordOffset = off, pr_recordSize = size\<rparr>"
  define en where "en = \<lparr>se_key = key, se_bytes = val\<rparr>"
  have p: "pending_ok c column p en" using rec by (simp add: pending_ok_def p_def en_def)
  have bucket: "record_bucket column p =
      \<lparr>ib_hash = ObjectIndexHash (HashString column) (HashString key), ib_recordOffset = off\<rparr>"
    by (simp add: record_bucket_def p_def)
  have room: "index_room v1 (Suc 0)" using e(9) by (simp add: index_room_def)
  have step: "\<exists>v'. (case FindBucket os db1 column key (HashString column) (HashString key) of
        Inl status \<Rightarrow> None
      | Inr lookup \<Rightarrow> Some (let db2 = set_Bucket (lookup_index lookup) (record_bucket column p) db1
          in if \<not> lookup_found lookup then increment_itemCount db2 else db2)) = Some (with_index v' db1) \<and>
      object_index_ok c v' \<and> length (oi_buckets v') = length (oi_buckets v1) \<and>
      object_map c (oi_buckets v') = (object_map c (oi_buckets v1))((column, key) \<mapsto> val) \<and>
      length (occupied vacant_bucket (oi_buckets v')) \<le> Suc (length (occupied vacant_bucket (oi_buckets v1)))"
  proof (cases rule: FindBucket_cases [OF os(2) readable1 e(3), unfolded bytes1, OF e(5), where column = column and key = key])
    case (1 i)
    then show ?thesis
      using replace_step [OF e(3,5) room p, of i] by (auto simp: en_def Let_def)
  next
    case (2 i)
    then show ?thesis
      using insert_step [OF e(3,5) room p, of i] by (auto simp: en_def Let_def)
  qed
  then obtain v' lookup where f: "FindBucket os db1 column key (HashString column) (HashString key) = Inr lookup"
      "(let db2 = set_Bucket (lookup_index lookup) (record_bucket column p) db1
          in if \<not> lookup_found lookup then increment_itemCount db2 else db2) = with_index v' db1"
      "object_index_ok c v'" "length (oi_buckets v') = length (oi_buckets v1)"
      "object_map c (oi_buckets v') = (object_map c (oi_buckets v1))((column, key) \<mapsto> val)"
      "length (occupied vacant_bucket (oi_buckets v')) \<le> Suc (length (occupied vacant_bucket (oi_buckets v1)))"
    by (auto split: sum.splits)
  have "rebuild_loop os (of_nat (length c)) off db =
      rebuild_loop os (of_nat (length c)) (off + size) (with_index v' db1)"
    using f(2) b(5)
    by (subst rebuild_loop.simps)
      (simp add: Let_def lt read ck e(1) f(1) fits bucket flip: header_at_def h_def size_def)
  moreover have "index_state c v' (with_index v' db1)"
    using d e f(3,4) bytes1 by (simp add: index_state_def fr)
  moreover have "index_frame db (with_index v' db1)"
    using index_frame_trans [OF e(2)] by simp
  moreover have "index_capacity (options (with_index v' db1)) v' n"
  proof -
    have "unat (ih_itemCount (oi_header v')) \<le> Suc (unat (ih_itemCount (oi_header v)))"
      using f(3,6) d(10) e(8) by (simp add: object_index_ok_def)
    from index_capacity_mono(1) [OF cap this] show ?thesis by (simp add: fr)
  qed
  ultimately show ?thesis
    using f(5) e(7) nextoff by (intro exI [of _ "with_index v' db1"] exI [of _ v']) simp
qed

lemma rebuild_loop_ok:
  assumes os: "calls_ok os" "reads_ok os"
  shows "index_state c v db \<Longrightarrow> records_from c off = Some rs \<Longrightarrow> off \<le> length c \<Longrightarrow>
    index_capacity (options db) v (length rs) \<Longrightarrow>
    \<exists>db' v'. rebuild_loop os (of_nat (length c)) (of_nat off) db = Some (Ok, db') \<and>
      index_state c v' db' \<and> index_frame db db' \<and>
      object_map c (oi_buckets v') = replay rs (object_map c (oi_buckets v))"
proof (induction rs arbitrary: off db v)
  case Nil
  have len: "length c < 2 ^ 63" using Nil.prems(1) by (simp add: index_state_def)
  have "length c \<le> off"
    using Nil.prems(2) by (auto simp: records_from.simps [of c off] split: if_splits option.splits)
  then have "rebuild_loop os (of_nat (length c)) (of_nat off) db = Some (Ok, db)"
    using Nil.prems(3) by (subst rebuild_loop.simps) simp
  then show ?case using Nil.prems(1) by (intro exI [of _ db] exI [of _ v]) simp
next
  case (Cons r rs)
  obtain column key val where r: "r = (column, key, val)" by (cases r)
  have len: "length c < 2 ^ 63" using Cons.prems(1) by (simp add: index_state_def)
  have off: "unat (of_nat off :: u64) = off" using Cons.prems(3) len by (intro unat_of_nat64) simp
  have rec: "record_at c off = Some (column, key, val)" "records_from c (record_end c off) = Some rs"
    using Cons.prems(2) r by (auto simp: records_from.simps [of c off] split: if_splits option.splits)
  have le: "record_end c off \<le> length c"
    using rec(1) by (auto simp: record_at_def Let_def split: if_splits)
  have "index_capacity (options db) v (Suc (length rs))" using Cons.prems(4) by simp
  from rebuild_step [OF os Cons.prems(1), of "of_nat off", unfolded off, OF rec(1) this]
  obtain db1 v1 where s: "rebuild_loop os (of_nat (length c)) (of_nat off) db =
      rebuild_loop os (of_nat (length c)) (of_nat (record_end c off)) db1"
    "index_state c v1 db1" "index_frame db db1" "index_capacity (options db1) v1 (length rs)"
    "object_map c (oi_buckets v1) = (object_map c (oi_buckets v))((column, key) \<mapsto> val)"
    by blast
  obtain db' v' where t: "rebuild_loop os (of_nat (length c)) (of_nat (record_end c off)) db1 = Some (Ok, db')"
    "index_state c v' db'" "index_frame db1 db'"
    "object_map c (oi_buckets v') = replay rs (object_map c (oi_buckets v1))"
    using Cons.IH [OF s(2) rec(2) le s(4)] by blast
  show ?case
    using t index_frame_trans [OF s(3) t(3)]
    by (intro exI [of _ db'] exI [of _ v']) (simp add: s(1,5) r)
qed

text \<open>
  Rebuilding from an intact value file: the index describes exactly the replay of the log.  The
  flag \<open>open_\<close> is set by the caller once all files are open.
\<close>

lemma opened_update_simps [simp]:
  "value_bytes (db\<lparr>opened := b\<rparr>) = value_bytes db" "log_bytes (db\<lparr>opened := b\<rparr>) = log_bytes db"
  by (simp_all add: value_bytes_def log_bytes_def cong: option.case_cong)

lemma RebuildIndex_ok:
  assumes os: "calls_ok os" "reads_ok os" and st: "index_state c v db" and rw: "\<not> readOnly db"
    and hdr: "value_header_ok c" and rs: "records_from c 24 = Some rs"
    and cap: "index_capacity (options db) v (length rs)" and fresh: "object_map c (oi_buckets v) = (\<lambda>_. None)"
  shows "\<exists>db'. RebuildIndexFromValues os db = Some (Ok, db') \<and> object_ok (db'\<lparr>opened := True\<rparr>) \<and>
    object_log_ok (db'\<lparr>opened := True\<rparr>) \<and> objects (db'\<lparr>opened := True\<rparr>) = replay rs (\<lambda>_. None) \<and>
    log_bytes db' = c \<and> object_frame db db' \<and> no_tail db'"
proof -
  have c24: "24 \<le> length c" using hdr by (simp add: value_header_ok_def)
  obtain vp ip where d: "mapped_data (valueMap db) = None" "valueFile db = Some vp" "indexFile db = Some ip"
    "vp \<noteq> ip" "value_bytes db = c" "length c < 2 ^ 63" "mapped_data (indexMap db) = Some v"
    "mapped_writable (indexMap db)" "16 \<le> length (oi_buckets v)" "object_index_ok c v"
    "value_readable db" "file_content (filesys db) vp = c"
    using st by (rule index_stateD)
  obtain db1 v1 where r: "rebuild_loop os (of_nat (length c)) (of_nat 24) db = Some (Ok, db1)"
    "index_state c v1 db1" "index_frame db db1" "object_map c (oi_buckets v1) = replay rs (object_map c (oi_buckets v))"
    using rebuild_loop_ok [OF os st rs c24 cap] by blast
  have n: "unat (of_nat (length c) :: u64) = length c" using d(6) by (intro unat_of_nat64) simp
  define db' where "db' = db1\<lparr>appendOffset := of_nat (length c)\<rparr>"
  define db2 where "db2 = db'\<lparr>opened := True\<rparr>"
  have "RebuildIndexFromValues os db = Some (Ok, db')"
    using os(1) d(2,12) r(1) by (simp add: RebuildIndexFromValues_def GetFileSize_def calls_ok_def db'_def)
  moreover have bytes: "value_bytes db2 = c" using r(2) by (simp add: db2_def db'_def index_state_def)
  have log: "log_bytes db2 = c" unfolding log_bytes_def bytes by (simp add: db2_def db'_def n)
  note fr = index_frameD [OF r(3)]
  have ok: "object_ok db2"
    unfolding object_ok_def bytes using r(2) rw by (simp add: db2_def db'_def n index_state_def fr)
  have "objects db2 = replay rs (\<lambda>_. None)"
    unfolding object_ok_readable(2) [OF ok] using log r(2,4) fresh
    by (simp add: log_bytes_def) (simp add: db2_def db'_def Buckets_def index_state_def)
  moreover from this have "object_log_ok db2"
    using hdr rs by (simp add: object_log_ok_def log)
  moreover have "object_frame db db'"
  proof -
    have "object_frame db1 db'"
      unfolding object_frame_def db'_def
      by (intro exI [of _ "filesys db1"] exI [of _ "indexMap db1"] exI [of _ "of_nat (length c)"]) simp
    then show ?thesis using object_frame_trans index_frame_object_frame [OF r(3)] by blast
  qed
  moreover have "no_tail db2" unfolding no_tail_def bytes by (simp add: db2_def db'_def n)
  ultimately show ?thesis using ok log by (intro exI [of _ db']) (simp add: db2_def no_tail_def)
qed

subsection \<open>Opening a value file and an index\<close>

lemma object_index_file:
  assumes ok: "object_index_ok c v" and k: "ih_bucketCount (oi_header v) = 2 ^ k" "k \<le> 58"
  shows "length (encode_object_index v) = 64 + 16 * 2 ^ k"
    and "unat (of_nat (length (encode_object_index v)) :: u64) = 64 + 16 * 2 ^ k"
proof -
  obtain m where m: "m \<le> 58" "ih_bucketCount (oi_header v) = 2 ^ m" "length (oi_buckets v) = 2 ^ m"
    using ok by (rule object_index_okD)
  have "unat ((2 :: u64) ^ m) = unat ((2 :: u64) ^ k)" using m(2) k(1) by simp
  then have "length (oi_buckets v) = 2 ^ k" using m k(2) by simp
  moreover have "index_header_ok (oi_header v)" using ok by (simp add: object_index_ok_def)
  ultimately show len: "length (encode_object_index v) = 64 + 16 * 2 ^ k"
    using length_encode_object_index [of v] by (simp add: index_header_ok_def magic_defs)
  show "unat (of_nat (length (encode_object_index v)) :: u64) = 64 + 16 * 2 ^ k"
    unfolding len [symmetric] by (rule unat_of_nat64) (use pow2_le_58 [OF k(2)] in \<open>simp add: len\<close>)
qed

lemma HasValidIndexLayout_ok:
  assumes ok: "object_index_ok c v" and v: "mapped_data (indexMap db) = Some v"
    and size: "fileSize = of_nat (length (encode_object_index v))"
  shows "HasValidIndexLayout db fileSize = Some True"
proof -
  obtain k where k: "k \<le> 58" "ih_bucketCount (oi_header v) = 2 ^ k" "length (oi_buckets v) = 2 ^ k"
    using ok by (rule object_index_okD)
  have hdr: "index_header_ok (oi_header v)" and items: "unat (ih_itemCount (oi_header v)) =
      length (occupied vacant_bucket (oi_buckets v))"
    using ok by (simp_all add: object_index_ok_def)
  have fs: "unat fileSize = 64 + 16 * 2 ^ k"
    unfolding size by (rule object_index_file(2) [OF ok k(2,1)])
  have expected: "64 + ih_bucketCount (oi_header v) * 16 = fileSize"
  proof -
    have "unat (64 + 2 ^ k * 16 :: u64) = unat fileSize"
      unfolding fs by (rule index_file_size [OF k(1)])
    then show ?thesis unfolding k(2) by (metis of_nat_unat ucast_id)
  qed
  have count: "of_nat (length (filter (\<lambda>i. ib_hash (oi_buckets v ! i) \<noteq> 0) [0..<unat (ih_bucketCount (oi_header v))])) =
      ih_itemCount (oi_header v)"
  proof -
    have "unat (ih_bucketCount (oi_header v)) = length (oi_buckets v)" using k by simp
    then have "length (filter (\<lambda>i. ib_hash (oi_buckets v ! i) \<noteq> 0) [0..<unat (ih_bucketCount (oi_header v))]) =
        length (occupied vacant_bucket (oi_buckets v))"
      by (simp only: length_filter_nth [of "\<lambda>b. ib_hash b \<noteq> 0"] occupied_def)
    then show ?thesis using items by (metis of_nat_unat ucast_id)
  qed
  have le: "\<not> ih_itemCount (oi_header v) > ih_bucketCount (oi_header v)"
  proof -
    have "unat (ih_itemCount (oi_header v)) \<le> unat (ih_bucketCount (oi_header v))"
      using items occupied_length_le [of vacant_bucket "oi_buckets v"] k by simp
    then show ?thesis by (simp add: not_less word_le_nat_alt)
  qed
  have big: "\<not> fileSize < 64" by (simp add: word_less_nat_alt fs)
  have nz: "ih_bucketCount (oi_header v) \<noteq> 0"
  proof
    assume "ih_bucketCount (oi_header v) = 0"
    then have "unat ((2 :: u64) ^ k) = 0" by (simp only: k(2) unat_0)
    then show False using k(1) by simp
  qed
  have mask: "ih_bucketCount (oi_header v) AND (ih_bucketCount (oi_header v) - 1) = 0"
    using k(1) by (simp add: k(2) pow2_and_pred)
  show ?thesis
    using hdr big nz mask expected le count v k
    by (simp add: HasValidIndexLayout_def Let_def IndexHeader_def Buckets_def MagicEquals_def index_header_ok_def)
qed

lemma OpenIndexFile_valid:
  assumes os: "calls_ok os" and stored: "files (filesys db) (indexPath db) = Some (encode_object_index v)"
    and ok: "object_index_ok c v"
  shows "OpenIndexFile os db = Some (Ok, db\<lparr>indexFile := Some (indexPath db), indexMap :=
    \<lparr>mapped_data = Some v, mapped_size = of_nat (length (encode_object_index v)), mapped_writable = \<not> readOnly db\<rparr>\<rparr>)"
proof -
  define size where "size = (of_nat (length (encode_object_index v)) :: u64)"
  define db2 where "db2 = db\<lparr>indexFile := Some (indexPath db), indexMap :=
    \<lparr>mapped_data = Some v, mapped_size = size, mapped_writable = \<not> readOnly db\<rparr>\<rparr>"
  obtain k where k: "k \<le> 58" "ih_bucketCount (oi_header v) = 2 ^ k" "length (oi_buckets v) = 2 ^ k"
    using ok by (rule object_index_okD)
  have hdr: "index_header_ok (oi_header v)" using ok by (simp add: object_index_ok_def)
  have "unat size = 64 + 16 * 2 ^ k"
    unfolding size_def by (rule object_index_file(2) [OF ok k(2,1)])
  then have nz: "size \<noteq> 0" by (metis add_is_0 unat_0 zero_neq_numeral)
  have dec: "decode_object_index (encode_object_index v) = v"
    using hdr by (intro decode_encode_object_index) (simp_all add: index_header_ok_def magic_defs)
  have content: "file_content (filesys db) (indexPath db) = encode_object_index v"
    using stored by (simp add: file_content_def)
  have valid: "HasValidIndexLayout db2 size = Some True"
    by (rule HasValidIndexLayout_ok [OF ok]) (simp_all add: db2_def size_def)
  have open_fd: "(if readOnly db
         then (case OpenReadOnlyFile os (filesys db) (indexPath db) of (st, fd) \<Rightarrow> (st, fd, filesys db))
         else OpenReadWriteCreate os (filesys db) (indexPath db)) = (Ok, Some (indexPath db), filesys db)"
    using os stored by (simp add: OpenReadOnlyFile_def OpenReadWriteCreate_def calls_ok_def)
  show ?thesis
    using os nz valid
    by (simp add: OpenIndexFile_def open_fd GetFileSize_def calls_ok_def content dec MapWithProtection_def Let_def
        db2_def flip: size_def)
qed

lemma OpenValueFile_valid:
  assumes os: "calls_ok os" "reads_ok os" and stored: "files (filesys db) (valuePath db) = Some c"
    and hdr: "value_header_ok c" and len: "length c < 2 ^ 63"
  shows "OpenValueFile os db = Some (Ok, db\<lparr>valueFile := Some (valuePath db), appendOffset := of_nat (length c),
    valueMap := if readOnly db then \<lparr>mapped_data = Some c, mapped_size = of_nat (length c), mapped_writable = False\<rparr>
      else valueMap db\<rparr>)"
proof -
  define size where "size = (of_nat (length c) :: u64)"
  have n: "unat size = length c" using len by (simp add: size_def unat_of_nat64)
  have c24: "24 \<le> length c" using hdr by (simp add: value_header_ok_def)
  have big: "\<not> size < 24" "size \<noteq> 0" using c24 n by (auto simp: word_less_nat_alt)
  have content: "file_content (filesys db) (valuePath db) = c"
    using stored by (simp add: file_content_def)
  have open_fd: "(if readOnly db
         then (case OpenReadOnlyFile os (filesys db) (valuePath db) of (st, fd) \<Rightarrow> (st, fd, filesys db))
         else OpenReadWriteCreate os (filesys db) (valuePath db)) = (Ok, Some (valuePath db), filesys db)"
    using os(1) stored by (simp add: OpenReadOnlyFile_def OpenReadWriteCreate_def calls_ok_def)
  have read: "ReadAllAt os (filesys db) (Some (valuePath db)) 24 0 = Inr (take 24 c)"
    using ReadAllAt_ok [OF os(2), of "filesys db" "valuePath db" 24 0] len c24
    by (simp add: content read_result_def off_negative_def)
  have magic: "kValueFileMagic \<noteq> kLegacyValueFileMagic" by (simp add: magic_defs)
  show ?thesis
    using os big hdr magic
    by (simp add: OpenValueFile_def open_fd GetFileSize_def calls_ok_def content read MapWithProtection_def
        MagicEquals_def value_header_ok_def Let_def flip: size_def)
qed

text \<open>Creating an empty index and filling it from the log.\<close>

lemma create_and_rebuild:
  assumes os: "calls_ok os" "reads_ok os"
    and db: "\<not> readOnly db" "mapped_data (valueMap db) = None" "valueFile db = Some vp" "indexFile db = Some ip"
      "vp \<noteq> ip" "value_bytes db = c" "length c < 2 ^ 63"
    and j: "4 \<le> j" "j \<le> 58"
    and hdr: "value_header_ok c" and rs: "records_from c 24 = Some rs"
    and cap: "index_capacity (options db) (empty_index (2 ^ j)) (length rs)"
  shows "\<exists>db3 db'. CreateEmptyIndex os db (2 ^ j) = Some (Ok, db3) \<and>
    RebuildIndexFromValues os db3 = Some (Ok, db') \<and> object_ok (db'\<lparr>opened := True\<rparr>) \<and>
    object_log_ok (db'\<lparr>opened := True\<rparr>) \<and> objects (db'\<lparr>opened := True\<rparr>) = replay rs (\<lambda>_. None) \<and>
    log_bytes db' = c \<and> object_frame db db' \<and> no_tail db'"
proof -
  obtain db3 where c3: "CreateEmptyIndex os db (2 ^ j) = Some (Ok, db3)" "index_frame db db3"
    "indexMap db3 = \<lparr>mapped_data = Some (empty_index (2 ^ j)), mapped_size = 64 + 2 ^ j * 16, mapped_writable = True\<rparr>"
    using CreateEmptyIndex_ok [OF os(1) db(4) j] by blast
  note fr = index_frameD [OF c3(2)]
  have bytes: "value_bytes db3 = c"
    using db index_frame_value_bytes [OF c3(2)] by simp
  have "(2 :: nat) ^ 4 \<le> 2 ^ j" using j by (intro power_increasing) simp_all
  then have "16 \<le> length (oi_buckets (empty_index (2 ^ j)))" using j by (simp add: empty_index_def)
  then have st: "index_state c (empty_index (2 ^ j)) db3"
    using db c3(3) bytes empty_index_ok [OF j(2), of c] by (simp add: index_state_def fr)
  have "\<not> readOnly db3" "index_capacity (options db3) (empty_index (2 ^ j)) (length rs)"
    using db(1) cap by (simp_all add: fr)
  from RebuildIndex_ok [OF os st this(1) hdr rs this(2)]
  obtain db' where "RebuildIndexFromValues os db3 = Some (Ok, db')" "object_ok (db'\<lparr>opened := True\<rparr>)"
    "object_log_ok (db'\<lparr>opened := True\<rparr>)" "objects (db'\<lparr>opened := True\<rparr>) = replay rs (\<lambda>_. None)"
    "log_bytes db' = c" "object_frame db3 db'" "no_tail db'"
    by auto
  then show ?thesis
    using c3(1) object_frame_trans [OF index_frame_object_frame [OF c3(2)]] by blast
qed

text \<open>An index file that is missing, empty or not valid.\<close>

definition index_file_unusable :: "Impl \<Rightarrow> bool" where
  "index_file_unusable db \<longleftrightarrow>
     (case files (filesys db) (indexPath db) of
        None \<Rightarrow> True
      | Some bs \<Rightarrow>
          bs = [] \<or>
          0 < length bs \<and> length bs < 2 ^ 63 \<and>
          HasValidIndexLayout (db\<lparr>indexMap := \<lparr>mapped_data = Some (decode_object_index bs),
             mapped_size = of_nat (length bs), mapped_writable = True\<rparr>\<rparr>) (of_nat (length bs)) = Some False)"

lemma HasValidIndexLayout_cong:
  "indexMap db = indexMap db' \<Longrightarrow> HasValidIndexLayout db n = HasValidIndexLayout db' n"
  by (simp add: HasValidIndexLayout_def IndexHeader_def Buckets_def Let_def)

lemma OpenIndexFile_rebuild_path:
  assumes os: "calls_ok os" and rw: "\<not> readOnly db" and unmapped: "indexMap db = Unmapped"
    and bad: "index_file_unusable db"
  shows "\<exists>fs. OpenIndexFile os db =
      (case CreateEmptyIndex os (db\<lparr>filesys := fs, indexFile := Some (indexPath db)\<rparr>)
              (initialBucketCount (options db)) of
         None \<Rightarrow> None
       | Some (status, db3) \<Rightarrow> if \<not> IsOk status then Some (status, db3) else RebuildIndexFromValues os db3) \<and>
    dirs fs = dirs (filesys db) \<and> (\<forall>p. p \<noteq> indexPath db \<longrightarrow> files fs p = files (filesys db) p)"
proof -
  define fs where "fs = (if files (filesys db) (indexPath db) = None
      then set_file (filesys db) (indexPath db) [] else filesys db)"
  have fd: "OpenReadWriteCreate os (filesys db) (indexPath db) = (Ok, Some (indexPath db), fs)"
    using os by (simp add: OpenReadWriteCreate_def calls_ok_def fs_def)
  define bs where "bs = file_content fs (indexPath db)"
  have stat: "GetFileSize os fs (Some (indexPath db)) = Inr (of_nat (length bs))"
    using os by (simp add: GetFileSize_def calls_ok_def bs_def)
  define db1 where "db1 = db\<lparr>filesys := fs, indexFile := Some (indexPath db)\<rparr>"
  have same: "db1\<lparr>indexMap := Unmapped\<rparr> = db1" by (simp add: db1_def flip: unmapped)
  show ?thesis
  proof (cases "bs = []")
    case True
    then show ?thesis
      using rw stat
      by (intro exI [of _ fs]) (simp add: OpenIndexFile_def fd Let_def fs_def)
  next
    case False
    then have stored: "files (filesys db) (indexPath db) = Some bs" "fs = filesys db"
      by (auto simp: bs_def fs_def file_content_def split: if_splits option.splits)
    have len: "length bs < 2 ^ 63" and inv: "HasValidIndexLayout (db\<lparr>indexMap := \<lparr>mapped_data = Some (decode_object_index bs),
             mapped_size = of_nat (length bs), mapped_writable = True\<rparr>\<rparr>) (of_nat (length bs)) = Some False"
      using bad False by (simp_all add: index_file_unusable_def stored)
    have "unat (of_nat (length bs) :: u64) = length bs" using len by (intro unat_of_nat64) simp
    then have nz: "(of_nat (length bs) :: u64) \<noteq> 0" using False by (metis length_0_conv unat_0)
    have inv': "HasValidIndexLayout (db1\<lparr>indexMap := \<lparr>mapped_data = Some (decode_object_index bs),
             mapped_size = of_nat (length bs), mapped_writable = True\<rparr>\<rparr>) (of_nat (length bs)) = Some False"
      using inv by (subst HasValidIndexLayout_cong) simp_all
    have "OpenIndexFile os db =
      (case CreateEmptyIndex os db1 (initialBucketCount (options db)) of
         None \<Rightarrow> None
       | Some (status, db3) \<Rightarrow> if \<not> IsOk status then Some (status, db3) else RebuildIndexFromValues os db3)"
      using rw stat nz inv' os same
      by (simp add: OpenIndexFile_def fd Let_def MapWithProtection_def calls_ok_def bs_def flip: db1_def)
        (simp add: db1_def)
    then show ?thesis
      by (intro exI [of _ fs]) (simp add: db1_def stored(2))
  qed
qed

end
