(* ===== verification/Object_Theorems.thy ===== *)
theory Object_Theorems
  imports Object_Api
begin

text \<open>
  The correctness statements of the object API, each with a run on a concrete database: a fresh
  file pair with the smallest index, the default options, and system calls that are interrupted
  and cut short but do not fail.
\<close>

subsection \<open>A concrete database\<close>

definition sample_value_file :: bytes where
  "sample_value_file = encode_ValueFileHeader ValueFileHeader_default"

definition sample_db :: Impl where
  "sample_db =
     \<lparr>filesys = \<lparr>files = [''d/values.dat'' \<mapsto> sample_value_file, ''d/index.dat'' \<mapsto> []], dirs = \<lambda>p. p = ''d''\<rparr>,
      directory = ''d'', valuePath = ''d/values.dat'', indexPath = ''d/index.dat'',
      rowIndexPath = ''d/row_index.dat'', options = DatabaseOptions_default,
      valueFile = Some ''d/values.dat'', indexFile = Some ''d/index.dat'', rowIndexFile = None,
      valueMap = Unmapped,
      indexMap = \<lparr>mapped_data = Some (empty_index 16), mapped_size = 320, mapped_writable = True\<rparr>,
      rowIndexMap = Unmapped, rowValueFiles = [], rowValueMaps = [], rowAppendOffsets = [],
      rowPendingInsertCount = 0, appendOffset = 24, opened = True, readOnly = False\<rparr>"

lemma length_sample_value_file [simp]: "length sample_value_file = 24"
  by (simp add: sample_value_file_def length_encode_ValueFileHeader default_array_lengths)

lemma sample_bytes: "value_bytes sample_db = sample_value_file"
  by (simp add: sample_db_def value_bytes_def Unmapped_def file_content_def)

lemma sample_db_ok: "object_ok sample_db"
proof -
  have "object_index_ok c (empty_index 16)" for c
    using empty_index_ok [of 4 c] by simp
  then show ?thesis
    unfolding object_ok_def sample_bytes
    by (simp add: sample_db_def Unmapped_def) (simp add: empty_index_def)
qed

lemma objects_sample: "objects sample_db = (\<lambda>_. None)"
  by (simp add: objects_def Buckets_def sample_bytes) (simp add: sample_db_def)

lemma fl_four_fifths: "fl (4 / 5) = 7205759403792794 / 9007199254740992"
proof -
  have one: "\<lfloor>5 / 4 :: rat\<rfloor> = 1" by (simp add: floor_eq_iff)
  have len: "bitlen 1 = 1" using compute_bitlen [of 1] by simp
  have whole: "\<lfloor>4 / 5 * 9007199254740992 :: rat\<rfloor> = 7205759403792793" by (simp add: floor_eq_iff)
  have "round_even (4 / 5 * 9007199254740992) = 7205759403792794"
    unfolding round_even_def whole Let_def by simp
  then show ?thesis
    by (simp add: fl_def round53_def Let_def one len)
qed

lemma default_load_factor: "fl (4 / 5) < 1" "1 / 2 \<le> fl (4 / 5)"
  by (simp_all add: fl_four_fifths)

definition sample_entries :: "StructEntry list" where
  "sample_entries =
     [\<lparr>se_key = [1], se_bytes = [10]\<rparr>, \<lparr>se_key = [2], se_bytes = []\<rparr>, \<lparr>se_key = [1], se_bytes = [11, 12]\<rparr>]"

lemma sample_fits:
  assumes "length entries \<le> 100" and "length (entries_bytes [7] entries) \<le> 10000"
    and "list_all (\<lambda>e. FitsUint32 (length (se_key e))) entries"
  shows "write_fits sample_db [7] entries"
proof -
  have "rat_of_nat (length entries) \<le> 100"
    using assms(1) by (metis of_nat_le_iff of_nat_numeral)
  moreover have "(100 :: rat) \<le> fl (4 / 5) * 2 ^ 58" using default_load_factor(2) by simp
  ultimately have "rat_of_nat (length entries) \<le> fl (4 / 5) * 2 ^ 58" by (rule order_trans)
  then show ?thesis
    using assms default_load_factor(1)
    by (simp add: write_fits_def sample_db_def FitsUint32_def index_capacity_def
        DatabaseOptions_default_def empty_index_def IndexFileHeader_default_def)
qed

lemma sample_entries_fit: "write_fits sample_db [7] sample_entries"
  by (rule sample_fits)
    (simp_all add: sample_entries_def entries_bytes_def length_entry_record FitsUint32_def)

lemma choppy_os_ok: "os_ok choppy_os"
  by (simp add: os_ok_def reads_ok_def writes_ok_def calls_ok_def choppy_os_def calm_os_def)

subsection \<open>Writes and reads refine a finite map\<close>

text \<open>C8. When the system calls do not fail, \<open>PutStructs\<close> on a well-formed database returns OK,
  keeps the database well formed, touches no file but the value file and the index, and turns the
  stored map into the map updated by the batch in order, so the last of several entries of one
  key wins; entries of other columns and keys keep their values.\<close>

theorem PutStructs_refines_map:
  assumes "os_ok os" and "object_ok db" and "write_fits db column entries"
  shows "\<exists>db'. PutStructs os db column entries = Some (Ok, db') \<and> object_ok db' \<and>
    object_frame db db' \<and> objects db' = store_entries column entries (objects db)"
  using object_put_ok [OF assms] by blast

lemma PutStructs_refines_map_witness:
  "\<exists>db'. PutStructs choppy_os sample_db [7] sample_entries = Some (Ok, db') \<and>
     objects db' ([7], [1]) = Some [11, 12] \<and> objects db' ([7], [2]) = Some [] \<and> objects db' ([8], [1]) = None"
  using PutStructs_refines_map [OF choppy_os_ok sample_db_ok sample_entries_fit]
  by (auto simp: sample_entries_def objects_sample)

text \<open>C9. A write is all or nothing under every outcome of the data transfer: with interrupted,
  short or failing writes the call returns either OK with the whole batch stored, or an error
  with the stored map unchanged, and the database is well formed afterwards in both cases.\<close>

theorem WriteStructs_all_or_nothing:
  assumes "calls_ok os" and "reads_ok os" and "object_ok db" and "write_fits db column entries"
    and "keysAreUnique \<Longrightarrow> fresh_keys column entries (objects db)"
  shows "\<exists>status db'. WriteStructs os db column entries keysAreUnique = Some (status, db') \<and>
    object_ok db' \<and>
    objects db' = (if IsOk status then store_entries column entries (objects db) else objects db)"
proof -
  obtain status db' where "WriteStructs os db column entries keysAreUnique = Some (status, db')"
    "object_ok db'" "status = Ok \<and> objects db' = store_entries column entries (objects db) \<or>
      \<not> IsOk status \<and> objects db' = objects db"
    using WriteStructs_atomic [OF assms] by blast
  then show ?thesis by (intro exI [of _ status] exI [of _ db']) auto
qed

definition full_disk_os :: os where
  "full_disk_os = choppy_os\<lparr>pwritev_replies := \<lambda>_ _ _. [Partial 30, Failed ''No space left on device'']\<rparr>"

lemma WriteStructs_all_or_nothing_witness:
  "\<exists>status db'. WriteStructs full_disk_os sample_db [7] sample_entries False = Some (status, db') \<and>
     (objects db' ([7], [1]) = (if IsOk status then Some [11, 12] else None))"
proof -
  have "calls_ok full_disk_os" "reads_ok full_disk_os"
    using choppy_os_ok by (simp_all add: full_disk_os_def os_ok_def calls_ok_def reads_ok_def)
  from WriteStructs_all_or_nothing [OF this sample_db_ok sample_entries_fit, of False]
  show ?thesis by (auto simp: sample_entries_def objects_sample)
qed

text \<open>C10. \<open>GetStruct\<close> returns the stored value of the column and key, and NotFound exactly when
  there is none; hash collisions never confuse two keys.\<close>

theorem GetStruct_refines_map:
  assumes "reads_ok os" and "object_readable db"
  shows "GetStruct os db column key =
    (case objects db (column, key) of None \<Rightarrow> Inl (NotFound ''key not found'') | Some v \<Rightarrow> Inr v)"
  using GetStruct_ok [OF assms] by (simp add: lookup_result_def)

lemma GetStruct_refines_map_witness:
  "\<exists>db'. PutStructs choppy_os sample_db [7] sample_entries = Some (Ok, db') \<and>
     GetStruct choppy_os db' [7] [1] = Inr [11, 12] \<and>
     GetStruct choppy_os db' [7] [3] = Inl (NotFound ''key not found'')"
proof -
  obtain db' where w: "PutStructs choppy_os sample_db [7] sample_entries = Some (Ok, db')"
    and ok: "object_ok db'" and m: "objects db' = store_entries [7] sample_entries (objects sample_db)"
    using object_put_ok [OF choppy_os_ok sample_db_ok sample_entries_fit] by blast
  have "reads_ok choppy_os" using choppy_os_ok by (simp add: os_ok_def)
  from GetStruct_refines_map [OF this object_ok_readable(1) [OF ok], of "[7]"] w
  show ?thesis by (simp add: m sample_entries_def objects_sample)
qed

text \<open>\<open>GetMany\<close> returns the values of all keys, in the order of the keys, or NotFound as soon
  as one key is missing.\<close>

theorem GetMany_refines_map:
  assumes "reads_ok os" and "object_readable db"
  shows "GetMany os db column keys =
    (if \<forall>key \<in> set keys. objects db (column, key) \<noteq> None
     then Inr (map (\<lambda>key. the (objects db (column, key))) keys)
     else Inl (NotFound ''key not found''))"
  using assms by (rule GetMany_ok)

lemma GetMany_refines_map_witness:
  "\<exists>db'. PutStructs choppy_os sample_db [7] sample_entries = Some (Ok, db') \<and>
     GetMany choppy_os db' [7] [[2], [1], [2]] = Inr [[], [11, 12], []]"
proof -
  obtain db' where w: "PutStructs choppy_os sample_db [7] sample_entries = Some (Ok, db')"
    and ok: "object_ok db'" and m: "objects db' = store_entries [7] sample_entries (objects sample_db)"
    using object_put_ok [OF choppy_os_ok sample_db_ok sample_entries_fit] by blast
  have "reads_ok choppy_os" using choppy_os_ok by (simp add: os_ok_def)
  from GetMany_refines_map [OF this object_ok_readable(1) [OF ok], of "[7]"] w
  show ?thesis by (simp add: m sample_entries_def objects_sample)
qed

text \<open>After any sequence of successful batches to a column, a read of a key returns the value of
  the last entry of that key over the whole history, and the value from before the history when
  no batch names the key.\<close>

theorem history_last_write_wins:
  assumes "os_ok os" and "object_ok db"
    and "steps_fit (\<lambda>db kvs. write_fits db column (as_entries kvs)) (put_batch os column) db batches"
  shows "\<exists>db'. run_steps (put_batch os column) db batches = Some db' \<and>
    (\<forall>key. get_option os column db' key = put_all (concat batches) (get_option os column db) key)"
  using object_store.run_lookup [of os db column batches] assms by blast

lemma history_last_write_wins_witness:
  "\<exists>db'. run_steps (put_batch choppy_os [7]) sample_db [[([1], [10]), ([2], [])]] = Some db' \<and>
    get_option choppy_os [7] db' [1] = Some [10]"
proof -
  have "steps_fit (\<lambda>db kvs. write_fits db [7] (as_entries kvs)) (put_batch choppy_os [7]) sample_db
      [[([1], [10]), ([2], [])]]"
    by (auto intro!: sample_fits split: option.split
        simp: as_entries_def entries_bytes_def length_entry_record FitsUint32_def)
  from history_last_write_wins [OF choppy_os_ok sample_db_ok this] show ?thesis by auto
qed

text \<open>The string layer is a round trip: \<open>Put\<close> followed by \<open>Get\<close> returns the value, and the
  values of all other keys are the ones from before.\<close>

theorem Put_Get_roundtrip:
  assumes "os_ok os" and "object_ok db" and "write_fits db kStringColumn [\<lparr>se_key = key, se_bytes = val\<rparr>]"
  shows "\<exists>db'. Put os db key val = Some (Ok, db') \<and> object_ok db' \<and> Get os db' key = Inr val \<and>
    (\<forall>other. other \<noteq> key \<longrightarrow> Get os db' other = Get os db other)"
proof -
  obtain db' where "Put os db key val = Some (Ok, db')" "object_ok db'"
      "objects db' = (objects db)((kStringColumn, key) \<mapsto> val)"
    using object_put_ok [OF assms] by (auto simp: Put_def PutStruct_def)
  moreover have "reads_ok os" using assms(1) by (simp add: os_ok_def)
  ultimately show ?thesis
    using GetStruct_ok [OF _ object_ok_readable(1)] assms(2) by (intro exI [of _ db']) (simp add: Get_def)
qed

lemma sample_string_fits: "write_fits sample_db kStringColumn [\<lparr>se_key = [1], se_bytes = [2, 3]\<rparr>]"
proof -
  have "write_fits sample_db [7] [\<lparr>se_key = [1], se_bytes = [2, 3]\<rparr>]"
    by (rule sample_fits) (simp_all add: entries_bytes_def length_entry_record FitsUint32_def)
  then show ?thesis
    by (simp add: write_fits_def kStringColumn_def entries_bytes_def length_entry_record FitsUint32_def sample_db_def)
qed

lemma Put_Get_roundtrip_witness:
  "\<exists>db'. Put choppy_os sample_db [1] [2, 3] = Some (Ok, db') \<and> Get choppy_os db' [1] = Inr [2, 3] \<and>
    Get choppy_os db' [4] = Get choppy_os sample_db [4]"
  using Put_Get_roundtrip [OF choppy_os_ok sample_db_ok sample_string_fits] by auto

text \<open>C12. For keys that are new and distinct, the unique insert, which places buckets without
  searching, stores exactly the map the searching write stores.\<close>

theorem PutUniqueStructs_equivalent:
  assumes "os_ok os" and "object_ok db" and "write_fits db column entries"
    and "fresh_keys column entries (objects db)"
  shows "\<exists>db1 db2. PutUniqueStructs os db column entries = Some (Ok, db1) \<and>
    PutStructs os db column entries = Some (Ok, db2) \<and> objects db1 = objects db2 \<and>
    object_ok db1 \<and> object_ok db2"
proof -
  have os: "calls_ok os" "reads_ok os" "writes_ok os" using assms(1) by (simp_all add: os_ok_def)
  obtain db1 where "WriteStructs os db column entries True = Some (Ok, db1)" "object_ok db1"
      "objects db1 = store_entries column entries (objects db)"
    using WriteStructs_atomic [OF os(1,2) assms(2,3), of True] assms(4) os(3) by auto
  moreover obtain db2 where "PutStructs os db column entries = Some (Ok, db2)" "object_ok db2"
      "objects db2 = store_entries column entries (objects db)"
    using object_put_ok [OF assms(1-3)] by blast
  ultimately show ?thesis by (simp add: PutUniqueStructs_def)
qed

lemma PutUniqueStructs_equivalent_witness:
  "\<exists>db1. PutUniqueStructs choppy_os sample_db [7] (take 2 sample_entries) = Some (Ok, db1) \<and> object_ok db1"
proof -
  have "write_fits sample_db [7] (take 2 sample_entries)"
    by (rule sample_fits)
      (simp_all add: sample_entries_def entries_bytes_def length_entry_record FitsUint32_def)
  moreover have "fresh_keys [7] (take 2 sample_entries) (objects sample_db)"
    by (simp add: fresh_keys_def objects_sample sample_entries_def)
  ultimately show ?thesis
    using PutUniqueStructs_equivalent [OF choppy_os_ok sample_db_ok, of "[7]" "take 2 sample_entries"] by auto
qed

subsection \<open>Rejected and failing writes\<close>

text \<open>The guards of a write, in their order: a closed database, a read-only one, a column or a
  key of 4 GiB or more are rejected without any change, and an empty batch is accepted without any.\<close>

theorem WriteStructs_guards:
  "WriteStructs os db column entries u =
    (if \<not> opened db then Some (NotOpen ''database is not open'', db)
     else if readOnly db then Some (InvalidArgument ''database is read-only'', db)
     else if 4294967296 \<le> length column
     then Some (InvalidArgument ''column must fit in uint32 length'', db)
     else if entries = [] then Some (Ok, db)
     else if \<exists>e \<in> set entries. 4294967296 \<le> length (se_key e)
     then Some (InvalidArgument ''key must fit in uint32 length'', db)
     else WriteStructs os db column entries u)"
  by (auto simp: WriteStructs_def FitsUint32_def list_all_iff)

subsection \<open>The append offset only moves with a complete batch\<close>

lemma set_Bucket_appendOffset [simp]: "appendOffset (set_Bucket i b db) = appendOffset db"
  by (simp add: set_Bucket_def)

lemma increment_appendOffset [simp]: "appendOffset (increment_itemCount db) = appendOffset db"
  by (simp add: increment_itemCount_def set_IndexHeader_def)

lemma PlaceNewBucket_appendOffset: "PlaceNewBucket db b = (st, db') \<Longrightarrow> appendOffset db' = appendOffset db"
  by (auto simp: PlaceNewBucket_def Let_def split: option.splits)

lemma PlaceExistingBucket_appendOffset:
  "PlaceExistingBucket db b = (st, db') \<Longrightarrow> appendOffset db' = appendOffset db"
  by (auto simp: PlaceExistingBucket_def Let_def split: option.splits)

lemma place_existing_all_appendOffset:
  "place_existing_all bs db = (st, db') \<Longrightarrow> appendOffset db' = appendOffset db"
proof (induction bs arbitrary: db)
  case (Cons b bs)
  obtain st1 db1 where p: "PlaceExistingBucket db b = (st1, db1)" by (rule prod.exhaust)
  then show ?case
    using Cons PlaceExistingBucket_appendOffset [OF p] by (auto split: if_splits)
qed simp

lemma index_pending_appendOffset:
  "index_pending os column ch u ps db = (st, db') \<Longrightarrow> appendOffset db' = appendOffset db"
proof (induction ps arbitrary: db)
  case (Cons p ps)
  show ?case
  proof (cases u)
    case True
    define b where "b = \<lparr>ib_hash = ObjectIndexHash ch (pr_keyHash p), ib_recordOffset = pr_recordOffset p\<rparr>"
    obtain st1 db1 where p: "PlaceNewBucket db b = (st1, db1)" by (rule prod.exhaust)
    then show ?thesis
      using Cons PlaceNewBucket_appendOffset [OF p] True by (auto simp: b_def split: if_splits)
  next
    case False
    then show ?thesis
      using Cons by (cases "FindBucket os db column (pr_key p) ch (pr_keyHash p)") (auto simp: Let_def)
  qed
qed simp

lemma unmap_index_appendOffset [simp]: "appendOffset (unmap_index db) = appendOffset db"
  by (simp add: unmap_index_def split: option.split)

lemma EnsureCapacity_appendOffset:
  assumes "EnsureCapacityForInsert os db n = Some (st, db')"
  shows "appendOffset db' = appendOffset db"
proof -
  have create: "CreateEmptyIndex os db k = Some (st1, db1) \<Longrightarrow> appendOffset db1 = appendOffset db" for k st1 db1
    by (auto simp: CreateEmptyIndex_def Let_def split: option.splits prod.splits if_splits)
  have "ResizeIndex os db k = Some (st1, db1) \<Longrightarrow> appendOffset db1 = appendOffset db" for k st1 db1
    using create [of k] place_existing_all_appendOffset
    by (fastforce simp: ResizeIndex_def Let_def set_IndexHeader_def split: option.splits prod.splits if_splits)
  then show ?thesis
    using assms by (auto simp: EnsureCapacityForInsert_def Let_def split: option.splits if_splits)
qed

text \<open>Whatever goes wrong (capacity, write or index), a write that returns an error has not
  moved the append offset: the next write reuses the space of the failed one.\<close>

theorem WriteStructs_error_keeps_offset:
  assumes "WriteStructs os db column entries u = Some (status, db')" and "\<not> IsOk status"
  shows "appendOffset db' = appendOffset db"
proof -
  consider "db' = db"
    | st db1 where "EnsureCapacityForInsert os db (of_nat (length entries)) = Some (st, db1)"
        "appendOffset db' = appendOffset db1"
    using assms
    by (auto simp: WriteStructs_def Let_def split: if_splits option.splits prod.splits
        dest!: index_pending_appendOffset)
  then show ?thesis using EnsureCapacity_appendOffset by cases auto
qed

subsection \<open>A growth that fails\<close>

lemma unmap_index_unmaps [simp]:
  "indexMap (unmap_index db) = Unmapped" "indexFile (unmap_index db) = indexFile db"
  "opened (unmap_index db) = opened db"
  using unmap_index_frame [of db] index_frameD(2,6) [of db "unmap_index db"] by simp_all

lemma failed_growth:
  assumes "opened db" and "\<not> readOnly db" and "FitsUint32 (length column)" and "entries \<noteq> []"
    and "list_all (\<lambda>e. FitsUint32 (length (se_key e))) entries"
    and "capacity_loop (ih_itemCount (IndexHeader db) + of_nat (length entries)) (maxLoadFactor (options db))
      (ih_bucketCount (IndexHeader db)) = Some n"
    and "n \<noteq> ih_bucketCount (IndexHeader db)" and "RoundUpPowerOfTwo n = Some m"
    and "indexFile db = Some path" and "ftruncate_error os path (64 + m * 16) = Some e"
  shows "\<exists>db'. WriteStructs os db column entries u = Some (IoError (ErrnoMessage ''ftruncate'' e), db') \<and>
    IsOpen db' \<and> \<not> IsMapped (indexMap db') \<and> EntryCount db' = 0"
proof -
  define db' where "db' = unmap_index db"
  have "CreateEmptyIndex os db n = Some (IoError (ErrnoMessage ''ftruncate'' e), db')"
    using assms(8-10) by (simp add: CreateEmptyIndex_def Let_def TruncateFile_def db'_def)
  then have "EnsureCapacityForInsert os db (of_nat (length entries)) =
      Some (IoError (ErrnoMessage ''ftruncate'' e), db')"
    using assms(6,7) by (simp add: EnsureCapacityForInsert_def Let_def ResizeIndex_def)
  then have "WriteStructs os db column entries u = Some (IoError (ErrnoMessage ''ftruncate'' e), db')"
    using assms(1-5) by (simp add: WriteStructs_def)
  then show ?thesis
    using assms(1) by (simp add: db'_def IsOpen_def IsMapped_def EntryCount_def Unmapped_def)
qed

text \<open>C13. When the index has to grow and the file cannot be extended, the write reports the error
  but leaves the database open without a mapped index: its entry count reads 0 and every later
  lookup goes through a null mapping.\<close>

theorem failed_growth_loses_index:
  assumes "opened db" and "\<not> readOnly db" and "FitsUint32 (length column)" and "entries \<noteq> []"
    and "list_all (\<lambda>e. FitsUint32 (length (se_key e))) entries"
    and "capacity_loop (ih_itemCount (IndexHeader db) + of_nat (length entries)) (maxLoadFactor (options db))
      (ih_bucketCount (IndexHeader db)) = Some n"
    and "n \<noteq> ih_bucketCount (IndexHeader db)" and "RoundUpPowerOfTwo n = Some m"
    and "indexFile db = Some path" and "ftruncate_error os path (64 + m * 16) = Some e"
  shows "\<exists>db'. WriteStructs os db column entries u = Some (IoError (ErrnoMessage ''ftruncate'' e), db') \<and>
    IsOpen db' \<and> \<not> IsMapped (indexMap db') \<and> EntryCount db' = 0"
  using assms by (rule failed_growth)

definition no_truncate_os :: os where
  "no_truncate_os = calm_os\<lparr>ftruncate_error := \<lambda>_ _. Some ''No space left on device''\<rparr>"

definition many_entries :: "StructEntry list" where
  "many_entries = replicate 20 \<lparr>se_key = [1], se_bytes = []\<rparr>"

lemma fl_20_16: "fl (5 / 4) = 5 / 4" and fl_20_32: "fl (5 / 8) = 5 / 8"
  using fl_dyadic [of 5 2] fl_dyadic [of 5 3] by simp_all

lemma sample_growth: "capacity_loop 20 (Fin (fl (4 / 5))) 16 = Some 32"
  using fl_of_nat [of 20] fl_pow2 [of 4] fl_pow2 [of 5]
  by (simp add: capacity_loop.simps [of 20 _ 16] capacity_loop.simps [of 20 _ 32] double_of_u64_def
      fl_20_16 fl_20_32 fl_four_fifths)

lemma sample_growth_facts:
  "opened sample_db" "\<not> readOnly sample_db" "FitsUint32 (length [7 :: byte])" "many_entries \<noteq> []"
  "list_all (\<lambda>e. FitsUint32 (length (se_key e))) many_entries"
  "capacity_loop (ih_itemCount (IndexHeader sample_db) + of_nat (length many_entries))
      (maxLoadFactor (options sample_db)) (ih_bucketCount (IndexHeader sample_db)) = Some 32"
  "(32 :: u64) \<noteq> ih_bucketCount (IndexHeader sample_db)" "RoundUpPowerOfTwo 32 = Some 32"
  "indexFile sample_db = Some ''d/index.dat''"
  "ftruncate_error no_truncate_os ''d/index.dat'' (64 + 32 * 16) = Some ''No space left on device''"
proof -
  have H: "IndexHeader sample_db = oi_header (empty_index 16)" and o: "options sample_db = DatabaseOptions_default"
    by (simp_all add: IndexHeader_def) (simp_all add: sample_db_def)
  show "capacity_loop (ih_itemCount (IndexHeader sample_db) + of_nat (length many_entries))
      (maxLoadFactor (options sample_db)) (ih_bucketCount (IndexHeader sample_db)) = Some 32"
    using sample_growth
    by (simp add: H o) (simp add: DatabaseOptions_default_def empty_index_def IndexFileHeader_default_def many_entries_def)
  show "RoundUpPowerOfTwo 32 = Some 32" using RoundUpPowerOfTwo_pow2 [of 5] by simp
  show "(32 :: u64) \<noteq> ih_bucketCount (IndexHeader sample_db)" by (simp add: H empty_index_def)
  show "list_all (\<lambda>e. FitsUint32 (length (se_key e))) many_entries"
    by (simp add: many_entries_def list_all_iff FitsUint32_def)
qed (simp_all add: sample_db_def many_entries_def FitsUint32_def no_truncate_os_def)

lemma failed_growth_loses_index_witness:
  "\<exists>db'. WriteStructs no_truncate_os sample_db [7] many_entries False =
      Some (IoError (ErrnoMessage ''ftruncate'' ''No space left on device''), db') \<and>
    IsOpen db' \<and> \<not> IsMapped (indexMap db')"
  using failed_growth_loses_index [OF sample_growth_facts, of False] by blast

lemma WriteStructs_error_keeps_offset_witness:
  "\<exists>db'. WriteStructs no_truncate_os sample_db [7] many_entries False =
      Some (IoError (ErrnoMessage ''ftruncate'' ''No space left on device''), db') \<and> appendOffset db' = 24"
proof -
  obtain db' where w: "WriteStructs no_truncate_os sample_db [7] many_entries False =
      Some (IoError (ErrnoMessage ''ftruncate'' ''No space left on device''), db')"
    using failed_growth [OF sample_growth_facts, of False] by blast
  have "appendOffset db' = appendOffset sample_db"
    by (rule WriteStructs_error_keeps_offset [OF w]) (rule IsOk_simps)
  with w show ?thesis by (simp add: sample_db_def)
qed

end
