(* ===== verification/Recovery_Theorems.thy ===== *)
theory Recovery_Theorems
  imports Value_File Object_Theorems
begin

text \<open>
  What survives closing and reopening: the stored map through a valid index file, and through the
  value file alone when the index is lost or damaged.
\<close>

lemma index_file_unusable_cong:
  assumes "files (filesys db) (indexPath db) = files (filesys db') (indexPath db')"
  shows "index_file_unusable db = index_file_unusable db'"
proof -
  have "HasValidIndexLayout (db\<lparr>indexMap := m\<rparr>) n = HasValidIndexLayout (db'\<lparr>indexMap := m\<rparr>) n" for m n
    by (rule HasValidIndexLayout_cong) simp
  then show ?thesis by (simp add: index_file_unusable_def assms cong: option.case_cong)
qed

lemma recover_index:
  assumes os: "calls_ok os" "reads_ok os" and rw: "\<not> readOnly db" and unmapped: "indexMap db = Unmapped"
    and vm: "mapped_data (valueMap db) = None" and vf: "valueFile db = Some (valuePath db)"
    and ne: "valuePath db \<noteq> indexPath db" and stored: "files (filesys db) (valuePath db) = Some c"
    and len: "length c < 2 ^ 63" and hdr: "value_header_ok c" and rs: "records_from c 24 = Some rs"
    and j: "initialBucketCount (options db) = 2 ^ j" "4 \<le> j" "j \<le> 58"
    and cap: "index_capacity (options db) (empty_index (2 ^ j)) (length rs)"
    and bad: "index_file_unusable db"
  shows "\<exists>db' fs. OpenIndexFile os db = Some (Ok, db') \<and> object_ok (db'\<lparr>opened := True\<rparr>) \<and>
    object_log_ok (db'\<lparr>opened := True\<rparr>) \<and> objects (db'\<lparr>opened := True\<rparr>) = replay rs (\<lambda>_. None) \<and>
    log_bytes db' = c \<and> no_tail db' \<and> object_frame (db\<lparr>filesys := fs, indexFile := Some (indexPath db)\<rparr>) db' \<and>
    dirs fs = dirs (filesys db) \<and> (\<forall>p. p \<noteq> indexPath db \<longrightarrow> files fs p = files (filesys db) p)"
proof -
  obtain fs where fs: "OpenIndexFile os db =
      (case CreateEmptyIndex os (db\<lparr>filesys := fs, indexFile := Some (indexPath db)\<rparr>)
              (initialBucketCount (options db)) of
         None \<Rightarrow> None
       | Some (status, db3) \<Rightarrow> if \<not> IsOk status then Some (status, db3) else RebuildIndexFromValues os db3)"
    "dirs fs = dirs (filesys db)" "\<forall>p. p \<noteq> indexPath db \<longrightarrow> files fs p = files (filesys db) p"
    using OpenIndexFile_rebuild_path [OF os(1) rw unmapped bad] by blast
  define db1 where "db1 = db\<lparr>filesys := fs, indexFile := Some (indexPath db)\<rparr>"
  have bytes: "value_bytes db1 = c"
    using vm vf fs(3) ne stored by (simp add: db1_def value_bytes_def file_content_Some)
  have "\<exists>db3 db'. CreateEmptyIndex os db1 (2 ^ j) = Some (Ok, db3) \<and>
    RebuildIndexFromValues os db3 = Some (Ok, db') \<and> object_ok (db'\<lparr>opened := True\<rparr>) \<and>
    object_log_ok (db'\<lparr>opened := True\<rparr>) \<and> objects (db'\<lparr>opened := True\<rparr>) = replay rs (\<lambda>_. None) \<and>
    log_bytes db' = c \<and> object_frame db1 db' \<and> no_tail db'"
    by (rule create_and_rebuild [OF os _ _ _ _ ne bytes len j(2,3) hdr rs])
      (use rw vm vf cap in \<open>simp_all add: db1_def\<close>)
  then obtain db3 db' where b: "CreateEmptyIndex os db1 (2 ^ j) = Some (Ok, db3)"
    "RebuildIndexFromValues os db3 = Some (Ok, db')" and rest: "object_ok (db'\<lparr>opened := True\<rparr>)"
    "object_log_ok (db'\<lparr>opened := True\<rparr>)" "objects (db'\<lparr>opened := True\<rparr>) = replay rs (\<lambda>_. None)"
    "log_bytes db' = c" "object_frame db1 db'" "no_tail db'"
    by blast
  have "OpenIndexFile os db = Some (Ok, db')" using fs(1) j(1) b by (simp flip: db1_def)
  then show ?thesis
    using rest fs(2,3) by (intro exI [of _ db'] exI [of _ fs]) (simp flip: db1_def)
qed

subsection \<open>Opening the object files\<close>

text \<open>Opening the object files the way \<open>OpenInternal\<close> does: values first, then the index.\<close>

definition open_object_files :: "os \<Rightarrow> Impl \<Rightarrow> (Status \<times> Impl) option" where
  "open_object_files os db =
     (case OpenValueFile os db of
        None \<Rightarrow> None
      | Some (status, db1) \<Rightarrow> if \<not> IsOk status then Some (status, db1) else OpenIndexFile os db1)"

text \<open>The value file before opening: absent, empty, or with a valid header; and after.\<close>

definition fresh_value_file :: bytes where
  "fresh_value_file = encode_ValueFileHeader ValueFileHeader_default"

lemma fresh_value_file: "length fresh_value_file = 24" "value_header_ok fresh_value_file"
proof -
  show len: "length fresh_value_file = 24"
    by (simp add: fresh_value_file_def encode_ValueFileHeader_def default_array_lengths)
  have "decode_ValueFileHeader fresh_value_file = ValueFileHeader_default"
    using decode_encode_ValueFileHeader [of ValueFileHeader_default "[]"]
    by (simp add: fresh_value_file_def default_array_lengths)
  then show "value_header_ok fresh_value_file"
    by (simp add: value_header_ok_def len) (simp add: ValueFileHeader_default_def)
qed

definition value_contents :: "Impl \<Rightarrow> bytes" where
  "value_contents db =
     (let c = file_content (filesys db) (valuePath db) in if c = [] then fresh_value_file else c)"

definition object_files_openable :: "os \<Rightarrow> Impl \<Rightarrow> bool" where
  "object_files_openable os db \<longleftrightarrow>
     \<not> readOnly db \<and> valuePath db \<noteq> indexPath db \<and> indexMap db = Unmapped \<and> mapped_data (valueMap db) = None \<and>
     (file_content (filesys db) (valuePath db) = [] \<longrightarrow> writes_ok os) \<and>
     value_header_ok (value_contents db) \<and> length (value_contents db) < 2 ^ 63"

text \<open>What opening the object files may change.\<close>

definition object_open_frame :: "Impl \<Rightarrow> Impl \<Rightarrow> bool" where
  "object_open_frame db db' \<longleftrightarrow>
     (\<exists>fs fd ifd m off. db' = db\<lparr>filesys := fs, valueFile := fd, indexFile := ifd, indexMap := m, appendOffset := off\<rparr> \<and>
        dirs fs = dirs (filesys db) \<and>
        (\<forall>p. p \<noteq> valuePath db \<and> p \<noteq> indexPath db \<longrightarrow> files fs p = files (filesys db) p))"

lemma open_values:
  assumes os: "calls_ok os" "reads_ok os" and db: "object_files_openable os db"
  shows "OpenValueFile os db = Some (Ok, db\<lparr>filesys := set_file (filesys db) (valuePath db) (value_contents db),
    valueFile := Some (valuePath db), appendOffset := of_nat (length (value_contents db))\<rparr>)"
proof -
  have rw: "\<not> readOnly db" using db by (simp add: object_files_openable_def)
  show ?thesis
  proof (cases "file_content (filesys db) (valuePath db) = []")
    case False
    then have stored: "files (filesys db) (valuePath db) = Some (value_contents db)"
      by (auto simp: value_contents_def file_content_def split: option.splits)
    then show ?thesis
      using OpenValueFile_valid [OF os stored] db rw by (simp add: object_files_openable_def set_file_same)
  next
    case True
    define fs where "fs = set_file (filesys db) (valuePath db) []"
    have fd: "OpenReadWriteCreate os (filesys db) (valuePath db) = (Ok, Some (valuePath db), fs)"
      using os(1) True by (auto simp: OpenReadWriteCreate_def calls_ok_def fs_def file_content_def set_file_same
          split: option.splits)
    have "writes_ok os" using db True by (simp add: object_files_openable_def)
    then have wr: "WriteAllAt os fs (Some (valuePath db)) fresh_value_file 0 =
        (Ok, set_file (filesys db) (valuePath db) fresh_value_file)"
      using WriteAllAt_end [of os fs "valuePath db" "[]" 0 fresh_value_file] by (simp add: fs_def fresh_value_file)
    have "GetFileSize os fs (Some (valuePath db)) = Inr 0"
      using os(1) by (simp add: GetFileSize_def calls_ok_def fs_def)
    then show ?thesis
      using rw True wr by (simp add: OpenValueFile_def fd value_contents_def fresh_value_file(1) flip: fresh_value_file_def)
  qed
qed

text \<open>With a valid index file the objects are the ones the index describes.\<close>

lemma open_object_files_valid:
  assumes os: "calls_ok os" "reads_ok os" and db: "object_files_openable os db"
    and stored: "files (filesys db) (indexPath db) = Some (encode_object_index v)"
    and ok: "object_index_ok (value_contents db) v" and big: "16 \<le> length (oi_buckets v)"
  shows "\<exists>db'. open_object_files os db = Some (Ok, db') \<and> object_ok (db'\<lparr>opened := True\<rparr>) \<and>
    objects (db'\<lparr>opened := True\<rparr>) = object_map (value_contents db) (oi_buckets v) \<and>
    log_bytes db' = value_contents db \<and> object_open_frame db db' \<and>
    valueFile db' = Some (valuePath db) \<and> indexFile db' = Some (indexPath db) \<and> no_tail db'"
proof -
  define c where "c = value_contents db"
  define db1 where "db1 = db\<lparr>filesys := set_file (filesys db) (valuePath db) c, valueFile := Some (valuePath db),
    appendOffset := of_nat (length c)\<rparr>"
  have p: "\<not> readOnly db" "valuePath db \<noteq> indexPath db" "mapped_data (valueMap db) = None" "length c < 2 ^ 63"
    using db by (simp_all add: object_files_openable_def c_def)
  have o1: "OpenValueFile os db = Some (Ok, db1)" using open_values [OF os db] by (simp add: db1_def c_def)
  define db2 where "db2 = db1\<lparr>indexFile := Some (indexPath db1), indexMap :=
    \<lparr>mapped_data = Some v, mapped_size = of_nat (length (encode_object_index v)), mapped_writable = \<not> readOnly db1\<rparr>\<rparr>"
  have "files (filesys db1) (indexPath db1) = Some (encode_object_index v)"
    using stored p(2) by (simp add: db1_def)
  then have "OpenIndexFile os db1 = Some (Ok, db2)"
    unfolding db2_def by (rule OpenIndexFile_valid [OF os(1) _ ok])
  then have run: "open_object_files os db = Some (Ok, db2)" by (simp add: open_object_files_def o1)
  define db3 where "db3 = db2\<lparr>opened := True\<rparr>"
  have n: "unat (of_nat (length c) :: u64) = length c" using p(4) by (intro unat_of_nat64) simp
  have bytes: "value_bytes db3 = c" "value_bytes db2 = c"
    using p(3) by (simp_all add: value_bytes_def db3_def db2_def db1_def)
  have "object_ok db3"
    unfolding object_ok_def bytes
    using p ok big n by (simp add: db3_def db2_def db1_def c_def)
  moreover have "objects db3 = object_map c (oi_buckets v)"
    by (simp add: objects_def bytes) (simp add: Buckets_def db3_def db2_def)
  moreover have "log_bytes db2 = c" "no_tail db2"
    unfolding log_bytes_def no_tail_def bytes by (simp_all add: db2_def db1_def n)
  moreover have "object_open_frame db db2"
    unfolding object_open_frame_def
    by (intro exI [of _ "filesys db2"] exI [of _ "valueFile db2"] exI [of _ "indexFile db2"] exI [of _ "indexMap db2"]
        exI [of _ "appendOffset db2"]) (simp add: db2_def db1_def)
  ultimately show ?thesis
    using run by (intro exI [of _ db2]) (simp add: db3_def c_def, simp add: db2_def db1_def)
qed

text \<open>Without one they are the replay of the records.\<close>

lemma open_object_files_rebuild:
  assumes os: "calls_ok os" "reads_ok os" and db: "object_files_openable os db"
    and bad: "index_file_unusable db" and rs: "records_from (value_contents db) 24 = Some rs"
    and j: "initialBucketCount (options db) = 2 ^ j" "4 \<le> j" "j \<le> 58"
    and cap: "index_capacity (options db) (empty_index (2 ^ j)) (length rs)"
  shows "\<exists>db'. open_object_files os db = Some (Ok, db') \<and> object_ok (db'\<lparr>opened := True\<rparr>) \<and>
    objects (db'\<lparr>opened := True\<rparr>) = replay rs (\<lambda>_. None) \<and>
    log_bytes db' = value_contents db \<and> object_open_frame db db' \<and>
    valueFile db' = Some (valuePath db) \<and> indexFile db' = Some (indexPath db) \<and> no_tail db'"
proof -
  define c where "c = value_contents db"
  define db1 where "db1 = db\<lparr>filesys := set_file (filesys db) (valuePath db) c, valueFile := Some (valuePath db),
    appendOffset := of_nat (length c)\<rparr>"
  have p: "\<not> readOnly db" "valuePath db \<noteq> indexPath db" "mapped_data (valueMap db) = None" "indexMap db = Unmapped"
    "length c < 2 ^ 63" "value_header_ok c"
    using db by (simp_all add: object_files_openable_def c_def)
  have o1: "OpenValueFile os db = Some (Ok, db1)" using open_values [OF os db] by (simp add: db1_def c_def)
  have bad1: "index_file_unusable db1"
    using bad p(2) index_file_unusable_cong [of db1 db] by (simp add: db1_def)
  have f1: "\<not> readOnly db1" "indexMap db1 = Unmapped" "mapped_data (valueMap db1) = None"
    "valueFile db1 = Some (valuePath db1)" "valuePath db1 \<noteq> indexPath db1"
    "files (filesys db1) (valuePath db1) = Some c" "initialBucketCount (options db1) = 2 ^ j"
    "index_capacity (options db1) (empty_index (2 ^ j)) (length rs)"
    using p cap j(1) by (simp_all add: db1_def)
  have rs': "records_from c 24 = Some rs" using rs by (simp add: c_def)
  from recover_index [OF os f1(1-6) p(5,6) rs' f1(7) j(2,3) f1(8) bad1]
  obtain db' fs where b: "OpenIndexFile os db1 = Some (Ok, db')" "object_ok (db'\<lparr>opened := True\<rparr>)"
    "objects (db'\<lparr>opened := True\<rparr>) = replay rs (\<lambda>_. None)" "log_bytes db' = c" "no_tail db'"
    "object_frame (db1\<lparr>filesys := fs, indexFile := Some (indexPath db1)\<rparr>) db'" "dirs fs = dirs (filesys db1)"
    "\<forall>p. p \<noteq> indexPath db1 \<longrightarrow> files fs p = files (filesys db1) p"
    by blast
  define db2 where "db2 = db1\<lparr>filesys := fs, indexFile := Some (indexPath db1)\<rparr>"
  have run: "open_object_files os db = Some (Ok, db')" using b(1) by (simp add: open_object_files_def o1)
  obtain fs' m off where fr: "db' = db2\<lparr>filesys := fs', indexMap := m, appendOffset := off\<rparr>" "dirs fs' = dirs (filesys db2)"
    "\<forall>path. indexFile db2 \<noteq> Some path \<and> valueFile db2 \<noteq> Some path \<longrightarrow> files fs' path = files (filesys db2) path"
    using b(6) [folded db2_def] unfolding object_frame_def by blast
  have other: "files fs' p = files (filesys db) p" if "p \<noteq> valuePath db" "p \<noteq> indexPath db" for p
    using fr(3) [rule_format, of p] b(8) [rule_format, of p] that by (simp add: db2_def db1_def)
  have "object_open_frame db db'"
    unfolding object_open_frame_def
    by (rule exI [of _ fs'], rule exI [of _ "Some (valuePath db)"], rule exI [of _ "Some (indexPath db)"],
        rule exI [of _ m], rule exI [of _ off]) (use fr(1,2) b(7) other in \<open>simp add: db2_def db1_def\<close>)
  moreover have "valueFile db' = Some (valuePath db)" "indexFile db' = Some (indexPath db)"
    by (simp_all add: fr(1) db2_def db1_def)
  ultimately show ?thesis using run b(2-5) by (intro exI [of _ db']) (simp add: c_def)
qed

subsection \<open>Closing\<close>

lemma unmap_row_index_frame:
  "\<exists>fs. unmap_row_index db = db\<lparr>filesys := fs, rowIndexMap := Unmapped\<rparr> \<and>
    (\<forall>p. rowIndexFile db \<noteq> Some p \<longrightarrow> files fs p = files (filesys db) p)"
proof (cases "mapped_data (rowIndexMap db)")
  case None
  then show ?thesis by (intro exI [of _ "filesys db"]) (simp add: unmap_row_index_def)
next
  case (Some v)
  show ?thesis
  proof (cases "rowIndexFile db")
    case None
    then show ?thesis by (intro exI [of _ "filesys db"]) (simp add: unmap_row_index_def Some)
  next
    case path: (Some path)
    then show ?thesis
      by (intro exI [of _ "if mapped_writable (rowIndexMap db)
          then set_file (filesys db) path (encode_row_index v) else filesys db"])
        (simp add: unmap_row_index_def Some)
  qed
qed

lemma CloseFiles_object:
  assumes "indexFile db = Some ip" and "mapped_data (indexMap db) = Some v" and "mapped_writable (indexMap db)"
    and "rowIndexFile db \<noteq> Some ip"
  shows "files (filesys (CloseFiles db)) ip = Some (encode_object_index v)"
    and "\<And>p. p \<noteq> ip \<Longrightarrow> rowIndexFile db \<noteq> Some p \<Longrightarrow> files (filesys (CloseFiles db)) p = files (filesys db) p"
    and "valuePath (CloseFiles db) = valuePath db" "indexPath (CloseFiles db) = indexPath db"
    "indexMap (CloseFiles db) = Unmapped" "valueMap (CloseFiles db) = Unmapped"
    "readOnly (CloseFiles db) = readOnly db" "options (CloseFiles db) = options db"
proof -
  obtain fs where fs: "unmap_row_index (db\<lparr>rowValueMaps := []\<rparr>) =
      db\<lparr>rowValueMaps := [], filesys := fs, rowIndexMap := Unmapped\<rparr>"
    "\<forall>p. rowIndexFile db \<noteq> Some p \<longrightarrow> files fs p = files (filesys db) p"
    using unmap_row_index_frame [of "db\<lparr>rowValueMaps := []\<rparr>"] by auto
  show "files (filesys (CloseFiles db)) ip = Some (encode_object_index v)"
    and "\<And>p. p \<noteq> ip \<Longrightarrow> rowIndexFile db \<noteq> Some p \<Longrightarrow> files (filesys (CloseFiles db)) p = files (filesys db) p"
    and "valuePath (CloseFiles db) = valuePath db" "indexPath (CloseFiles db) = indexPath db"
    "indexMap (CloseFiles db) = Unmapped" "valueMap (CloseFiles db) = Unmapped"
    "readOnly (CloseFiles db) = readOnly db" "options (CloseFiles db) = options db"
    using assms fs(2) by (simp_all add: CloseFiles_def Let_def fs(1) unmap_index_def)
qed

text \<open>The files of a database that was closed cleanly.\<close>

definition at_rest :: "Impl \<Rightarrow> Impl \<Rightarrow> bool" where
  "at_rest db db0 \<longleftrightarrow>
     files (filesys db0) (valuePath db) = Some (value_bytes db) \<and>
     valuePath db0 = valuePath db \<and> indexPath db0 = indexPath db \<and>
     indexMap db0 = Unmapped \<and> valueMap db0 = Unmapped \<and> \<not> readOnly db0"

text \<open>
  The paths as \<open>OpenInternal\<close> sets them, and a value file without a tail from a failed write.
\<close>

definition closeable :: "Impl \<Rightarrow> bool" where
  "closeable db \<longleftrightarrow>
     object_ok db \<and> object_log_ok db \<and> no_tail db \<and>
     valueFile db = Some (valuePath db) \<and> indexFile db = Some (indexPath db) \<and>
     rowIndexFile db \<noteq> Some (valuePath db) \<and> rowIndexFile db \<noteq> Some (indexPath db)"

lemma closeable_log: "closeable db \<Longrightarrow> log_bytes db = value_bytes db"
  by (simp add: closeable_def log_bytes_def no_tail_def)

lemma closeable_paths: "closeable db \<Longrightarrow> valuePath db \<noteq> indexPath db"
  by (auto simp: closeable_def object_ok_def)

lemma CloseFiles_at_rest:
  assumes db: "closeable db" and v: "mapped_data (indexMap db) = Some v"
  shows "at_rest db (CloseFiles db)" "files (filesys (CloseFiles db)) (indexPath db) = Some (encode_object_index v)"
proof -
  have ok: "object_ok db" using db by (simp add: closeable_def)
  have f: "indexFile db = Some (indexPath db)" "mapped_writable (indexMap db)" "rowIndexFile db \<noteq> Some (indexPath db)"
    "rowIndexFile db \<noteq> Some (valuePath db)" "valueFile db = Some (valuePath db)" "\<not> readOnly db"
    "mapped_data (valueMap db) = None"
    using db ok by (auto simp: closeable_def object_ok_def)
  have "value_header_ok (value_bytes db)"
    using db closeable_log [OF db] by (simp add: closeable_def object_log_ok_def)
  then have "value_bytes db \<noteq> []" by (auto simp: value_header_ok_def)
  then have "files (filesys db) (valuePath db) \<noteq> None"
    using f by (auto simp: value_bytes_def file_content_def split: option.splits)
  with f have "files (filesys db) (valuePath db) = Some (value_bytes db)"
    by (auto simp: value_bytes_def file_content_def)
  then show "at_rest db (CloseFiles db)"
    using CloseFiles_object [OF f(1) v f(2,3)] f closeable_paths [OF db] by (simp add: at_rest_def)
  show "files (filesys (CloseFiles db)) (indexPath db) = Some (encode_object_index v)"
    by (rule CloseFiles_object [OF f(1) v f(2,3)])
qed

lemma at_rest_openable:
  assumes db: "closeable db" and rest: "at_rest db db0"
  shows "object_files_openable os db0" and "value_contents db0 = value_bytes db"
proof -
  have hdr: "value_header_ok (value_bytes db)"
    using db closeable_log [OF db] by (simp add: closeable_def object_log_ok_def)
  then have "value_bytes db \<noteq> []" by (auto simp: value_header_ok_def)
  moreover have "file_content (filesys db0) (valuePath db0) = value_bytes db"
    using rest by (simp add: at_rest_def file_content_Some)
  ultimately have c: "value_contents db0 = value_bytes db" "file_content (filesys db0) (valuePath db0) \<noteq> []"
    by (simp_all add: value_contents_def)
  then show "value_contents db0 = value_bytes db" by simp
  have "length (value_bytes db) < 2 ^ 63" using db by (simp add: closeable_def object_ok_def)
  then show "object_files_openable os db0"
    using c hdr rest closeable_paths [OF db] by (simp add: object_files_openable_def at_rest_def Unmapped_def)
qed

subsection \<open>Reopening\<close>

definition log_length :: "Impl \<Rightarrow> nat" where
  "log_length db = (case records_from (log_bytes db) 24 of None \<Rightarrow> 0 | Some rs \<Rightarrow> length rs)"

text \<open>Closing and reopening keeps the stored map: the index written back by the unmapping is
  found valid and describes the same values.\<close>

theorem reopen_keeps_objects:
  assumes "calls_ok os" and "reads_ok os" and "closeable db"
  shows "\<exists>db'. open_object_files os (CloseFiles db) = Some (Ok, db') \<and>
    object_ok (db'\<lparr>opened := True\<rparr>) \<and> object_log_ok (db'\<lparr>opened := True\<rparr>) \<and>
    objects (db'\<lparr>opened := True\<rparr>) = objects db"
proof -
  have ok: "object_ok db" and logged: "object_log_ok db" using assms(3) by (simp_all add: closeable_def)
  obtain v where v: "mapped_data (indexMap db) = Some v" "16 \<le> length (oi_buckets v)"
    "object_index_ok (log_bytes db) v"
    using ok by (auto simp: object_ok_def log_bytes_def)
  have rest: "at_rest db (CloseFiles db)" and
    stored: "files (filesys (CloseFiles db)) (indexPath (CloseFiles db)) = Some (encode_object_index v)"
    using CloseFiles_at_rest [OF assms(3) v(1)] by (simp_all add: at_rest_def)
  note c = at_rest_openable(2) [OF assms(3) rest, folded closeable_log [OF assms(3)]]
  obtain db' where o: "open_object_files os (CloseFiles db) = Some (Ok, db')" "object_ok (db'\<lparr>opened := True\<rparr>)"
    "objects (db'\<lparr>opened := True\<rparr>) = object_map (log_bytes db) (oi_buckets v)" "log_bytes db' = log_bytes db"
    using open_object_files_valid [OF assms(1,2) at_rest_openable(1) [OF assms(3) rest] stored, unfolded c, OF v(3,2)]
    by blast
  moreover have "objects db = object_map (log_bytes db) (oi_buckets v)"
    using object_ok_readable(2) [OF ok] v(1) by (simp add: Buckets_def log_bytes_def)
  ultimately show ?thesis using logged by (simp add: object_log_ok_def)
qed

text \<open>Losing the index loses nothing: with the index file deleted, emptied or damaged, opening
  the database rebuilds it from the value file, and the stored map is the one from before.\<close>

theorem lost_index_is_rebuilt:
  assumes "calls_ok os" and "reads_ok os" and "closeable db" and "at_rest db db0"
    and "index_file_unusable db0" and "initialBucketCount (options db0) = 2 ^ j" and "4 \<le> j" and "j \<le> 58"
    and "index_capacity (options db0) (empty_index (2 ^ j)) (log_length db)"
  shows "\<exists>db'. open_object_files os db0 = Some (Ok, db') \<and>
    object_ok (db'\<lparr>opened := True\<rparr>) \<and> object_log_ok (db'\<lparr>opened := True\<rparr>) \<and>
    objects (db'\<lparr>opened := True\<rparr>) = objects db"
proof -
  obtain rs where rs: "records_from (log_bytes db) 24 = Some rs" "objects db = replay rs (\<lambda>_. None)"
    "value_header_ok (log_bytes db)"
    using assms(3) by (auto simp: closeable_def object_log_ok_def)
  have n: "log_length db = length rs" by (simp add: log_length_def rs(1))
  note c = at_rest_openable(2) [OF assms(3,4), folded closeable_log [OF assms(3)]]
  obtain db' where "open_object_files os db0 = Some (Ok, db')" "object_ok (db'\<lparr>opened := True\<rparr>)"
    "objects (db'\<lparr>opened := True\<rparr>) = replay rs (\<lambda>_. None)" "log_bytes db' = log_bytes db"
    using open_object_files_rebuild [OF assms(1,2) at_rest_openable(1) [OF assms(3,4)] assms(5), unfolded c,
        OF rs(1) assms(6-8) assms(9) [unfolded n]]
    by blast
  then show ?thesis using rs by (simp add: object_log_ok_def)
qed

text \<open>C11. Writes keep the object log: a write that fits (\<open>write_fits\<close>, and with fresh keys when
  they are declared unique), whether the transfer of its data succeeds, is cut short
  or fails, ends with records up to the append offset that still replay to the stored map.  Reads and the other system calls do not
  fail: a read that fails in the index loop leaves buckets behind the append offset, and a growth of the index that fails
  leaves no index.\<close>

theorem writes_keep_log:
  assumes "calls_ok os" and "reads_ok os" and "object_ok db" and "write_fits db column entries"
    and "keysAreUnique \<Longrightarrow> fresh_keys column entries (objects db)" and "object_log_ok db"
  shows "\<exists>status db'. WriteStructs os db column entries keysAreUnique = Some (status, db') \<and>
    object_ok db' \<and> object_log_ok db'"
  using assms by (rule WriteStructs_log)

text \<open>A successful write keeps a database that can be closed without loss.\<close>

lemma object_frame_paths:
  assumes "object_frame db db'"
  shows "valuePath db' = valuePath db" "indexPath db' = indexPath db" "valueFile db' = valueFile db"
    "indexFile db' = indexFile db" "rowIndexFile db' = rowIndexFile db" "options db' = options db"
  using assms by (auto simp: object_frame_def)

lemma put_keeps_closeable:
  assumes os: "os_ok os" and db: "closeable db" and fits: "write_fits db column entries"
  shows "\<exists>db'. PutStructs os db column entries = Some (Ok, db') \<and> closeable db' \<and>
    objects db' = store_entries column entries (objects db) \<and>
    log_bytes db' = log_bytes db @ entries_bytes column entries"
proof -
  have ok: "object_ok db" and logged: "object_log_ok db" and nt: "no_tail db" using db by (simp_all add: closeable_def)
  obtain db' where w: "PutStructs os db column entries = Some (Ok, db')" "object_ok db'"
    "object_frame db db'" "objects db' = store_entries column entries (objects db)"
    "log_bytes db' = log_bytes db @ entries_bytes column entries" "no_tail db'"
    using object_put_ok [OF os ok fits] nt by blast
  have "object_log_ok db'"
    using log_append [OF logged w(4,5)] fits length_log_bytes [OF ok] by (simp add: write_fits_def)
  then have "closeable db'"
    using w db object_frame_paths [OF w(3)] by (simp add: closeable_def)
  with w show ?thesis by blast
qed

subsection \<open>Concrete runs\<close>

lemma sample_header_ok: "value_header_ok sample_value_file"
  using decode_encode_ValueFileHeader [of ValueFileHeader_default "[]"]
  by (simp add: value_header_ok_def) (simp add: sample_value_file_def ValueFileHeader_default_def)

lemma log_bytes_sample [simp]: "log_bytes sample_db = sample_value_file"
  by (simp add: log_bytes_def sample_bytes) (simp add: sample_db_def)

lemma records_sample: "records_from sample_value_file 24 = Some []"
  using records_from_end [of sample_value_file] by simp

lemma sample_log_ok: "object_log_ok sample_db"
  using sample_header_ok by (simp add: object_log_ok_def records_sample objects_sample)

lemma sample_closeable: "closeable sample_db"
  using sample_db_ok sample_log_ok
  by (simp add: closeable_def no_tail_def sample_bytes) (simp add: sample_db_def)

lemma choppy_calls: "calls_ok choppy_os" "reads_ok choppy_os"
  using choppy_os_ok by (simp_all add: os_ok_def)

text \<open>A database with three written records.\<close>

lemma sample_written:
  obtains db' where "PutStructs choppy_os sample_db [7] sample_entries = Some (Ok, db')" "closeable db'"
    "objects db' = store_entries [7] sample_entries (objects sample_db)" "log_length db' = 3"
proof -
  obtain db' where w: "PutStructs choppy_os sample_db [7] sample_entries = Some (Ok, db')" "closeable db'"
    "objects db' = store_entries [7] sample_entries (objects sample_db)"
    "log_bytes db' = log_bytes sample_db @ entries_bytes [7] sample_entries"
    using put_keeps_closeable [OF choppy_os_ok sample_closeable sample_entries_fit] by blast
  have "records_from (log_bytes db') 24 = Some (entry_triples [7] sample_entries)"
    using records_from_entries [of "[7]" sample_entries sample_value_file] sample_entries_fit
    by (simp add: w(4) write_fits_def)
      (simp add: entries_bytes_def length_entry_record sample_entries_def)
  then have "log_length db' = 3" by (simp add: log_length_def entry_triples_def sample_entries_def)
  then show ?thesis using that w by blast
qed

lemma reopen_keeps_objects_witness:
  "\<exists>db' db2. PutStructs choppy_os sample_db [7] sample_entries = Some (Ok, db') \<and>
     open_object_files choppy_os (CloseFiles db') = Some (Ok, db2) \<and>
     objects (db2\<lparr>opened := True\<rparr>) ([7], [1]) = Some [11, 12]"
proof -
  obtain db' where w: "PutStructs choppy_os sample_db [7] sample_entries = Some (Ok, db')" "closeable db'"
    "objects db' = store_entries [7] sample_entries (objects sample_db)"
    by (rule sample_written)
  from reopen_keeps_objects [OF choppy_calls w(2)] w(1,3)
  show ?thesis by (auto simp: sample_entries_def objects_sample)
qed

text \<open>The closed database with the index file deleted, about to be opened with the default options.\<close>

definition drop_index :: "Impl \<Rightarrow> Impl" where
  "drop_index db = db\<lparr>filesys := (filesys db)\<lparr>files := (files (filesys db))(indexPath db := None)\<rparr>,
     options := DatabaseOptions_default\<rparr>"

lemma default_capacity: "index_capacity DatabaseOptions_default (empty_index (2 ^ 16)) 3"
proof -
  have "(3 :: rat) \<le> fl (4 / 5) * 2 ^ 58" using default_load_factor(2) by simp
  then show ?thesis
    using default_load_factor(1)
    by (simp add: index_capacity_def DatabaseOptions_default_def empty_index_def IndexFileHeader_default_def)
qed

lemma lost_index_is_rebuilt_witness:
  "\<exists>db' db2. PutStructs choppy_os sample_db [7] sample_entries = Some (Ok, db') \<and>
     open_object_files choppy_os (drop_index (CloseFiles db')) = Some (Ok, db2) \<and>
     objects (db2\<lparr>opened := True\<rparr>) ([7], [1]) = Some [11, 12]"
proof -
  obtain db' where w: "PutStructs choppy_os sample_db [7] sample_entries = Some (Ok, db')" "closeable db'"
    "objects db' = store_entries [7] sample_entries (objects sample_db)" "log_length db' = 3"
    by (rule sample_written)
  have "object_ok db'" using w(2) by (simp add: closeable_def)
  then obtain v where v: "mapped_data (indexMap db') = Some v" by (rule object_okD)
  define db0 where "db0 = drop_index (CloseFiles db')"
  have "at_rest db' (CloseFiles db')" by (rule CloseFiles_at_rest [OF w(2) v])
  then have rest: "at_rest db' db0"
    using closeable_paths [OF w(2)] by (simp add: at_rest_def db0_def drop_index_def)
  have bad: "index_file_unusable db0" by (simp add: index_file_unusable_def db0_def drop_index_def)
  have opts: "options db0 = DatabaseOptions_default" by (simp add: db0_def drop_index_def)
  have "\<exists>db2. open_object_files choppy_os db0 = Some (Ok, db2) \<and>
    object_ok (db2\<lparr>opened := True\<rparr>) \<and> object_log_ok (db2\<lparr>opened := True\<rparr>) \<and>
    objects (db2\<lparr>opened := True\<rparr>) = objects db'"
    by (rule lost_index_is_rebuilt [OF choppy_calls w(2) rest bad, of 16])
      (use default_capacity in \<open>simp_all only: opts w(4)\<close>, simp_all add: DatabaseOptions_default_def)
  then show ?thesis using w(1,3) by (auto simp: sample_entries_def objects_sample db0_def)
qed

lemma writes_keep_log_witness:
  "\<exists>status db'. WriteStructs full_disk_os sample_db [7] sample_entries False = Some (status, db') \<and> object_log_ok db'"
proof -
  have "calls_ok full_disk_os" "reads_ok full_disk_os"
    using choppy_os_ok by (simp_all add: full_disk_os_def os_ok_def calls_ok_def reads_ok_def)
  from writes_keep_log [OF this sample_db_ok sample_entries_fit _ sample_log_ok, of False] show ?thesis by auto
qed

end
