(* ===== verification/Migration.thy ===== *)
theory Migration
  imports Recovery_Theorems
begin

text \<open>
  The migration of a legacy value file: every record is rewritten with the short header and its
  data is copied unchanged, so the log of the new file holds the same records in the same order.
\<close>

type_synonym legacy_item = "(u64 \<times> u64 \<times> u64) \<times> bytes \<times> StructEntry"

definition legacy_header :: "u64 \<times> u64 \<times> u64 \<Rightarrow> bytes \<Rightarrow> StructEntry \<Rightarrow> LegacyValueRecordHeader" where
  "legacy_header = (\<lambda>(sequence, columnHash, keyHash) column e. LegacyValueRecordHeader_default
     \<lparr>lr_sequence := sequence, lr_columnHash := columnHash, lr_keyHash := keyHash,
      lr_columnSize := of_nat (length column), lr_keySize := of_nat (length (se_key e)),
      lr_valueSize := of_nat (length (se_bytes e))\<rparr>)"

definition item_data :: "legacy_item \<Rightarrow> bytes" where
  "item_data = (\<lambda>(meta, column, e). column @ se_key e @ se_bytes e)"

definition legacy_record :: "legacy_item \<Rightarrow> bytes" where
  "legacy_record = (\<lambda>(meta, column, e). encode_LegacyValueRecordHeader (legacy_header meta column e) @
     column @ se_key e @ se_bytes e)"

definition migrated_record :: "legacy_item \<Rightarrow> bytes" where
  "migrated_record = (\<lambda>(meta, column, e). entry_record column e)"

definition item_triple :: "legacy_item \<Rightarrow> bytes \<times> bytes \<times> bytes" where
  "item_triple = (\<lambda>(meta, column, e). (column, se_key e, se_bytes e))"

definition legacy_bytes :: "legacy_item list \<Rightarrow> bytes" where
  "legacy_bytes items = concat (map legacy_record items)"

definition migrated_bytes :: "legacy_item list \<Rightarrow> bytes" where
  "migrated_bytes items = concat (map migrated_record items)"

text \<open>The sum of column and key size must fit the 32 bits the code adds them in.\<close>

definition item_fits :: "legacy_item \<Rightarrow> bool" where
  "item_fits = (\<lambda>(meta, column, e). length column + length (se_key e) < 4294967296)"

lemma length_legacy_record: "length (legacy_record it) = 48 + length (item_data it)"
  by (simp add: legacy_record_def item_data_def split: prod.split)

lemma length_migrated_record: "length (migrated_record it) = 24 + length (item_data it)"
  by (simp add: migrated_record_def item_data_def length_entry_record split: prod.split)

lemma migrated_le_legacy: "length (migrated_bytes items) \<le> length (legacy_bytes items)"
  by (induction items)
    (simp_all add: migrated_bytes_def legacy_bytes_def length_legacy_record length_migrated_record)

declare copy_chunks.simps [simp del]

lemma copy_chunks_ok:
  assumes os: "reads_ok os" "writes_ok os" and ne: "source \<noteq> target" and src: "length content < 2 ^ 63"
  shows "files fs source = Some content \<Longrightarrow> files fs target = Some out \<Longrightarrow>
    unat so + unat remaining \<le> length content \<Longrightarrow> unat dst = length out \<Longrightarrow>
    length out + unat remaining < 2 ^ 63 \<Longrightarrow>
    copy_chunks os fs (Some source) (Some target) remaining so dst =
      (Ok, set_file fs target (out @ take (unat remaining) (drop (unat so) content)))"
proof (induction "unat remaining" arbitrary: fs out remaining so dst rule: less_induct)
  case less
  show ?case
  proof (cases "remaining = 0")
    case True
    then show ?thesis using less.prems(2) by (simp add: copy_chunks.simps [of os fs] set_file_same)
  next
    case False
    define k where "k = min (unat remaining) 1048576"
    define chunk where "chunk = take k (drop (unat so) content)"
    have pos: "0 < k" and le: "k \<le> unat remaining" using False by (simp_all add: k_def unat_gt_0)
    have wk: "unat (of_nat k :: u64) = k" using le by (intro unat_of_nat64) (simp add: k_def)
    have clen: "length chunk = k" using less.prems(3) le by (simp add: chunk_def)
    have read: "ReadAllAt os fs (Some source) k so = Inr chunk"
      unfolding chunk_def using less.prems(3) le
      by (intro ReadAllAt_within [OF os(1) less.prems(1) src]) simp
    define fs1 where "fs1 = set_file fs target (out @ chunk)"
    have wr: "WriteAllAt os fs (Some target) chunk dst = (Ok, fs1)"
      unfolding fs1_def using less.prems(5) le
      by (intro WriteAllAt_end [OF os(2) less.prems(2,4)]) (simp add: clen)
    have rem: "unat (remaining - of_nat k) = unat remaining - k"
      using le wk by (simp add: unat_sub64)
    have so: "unat (so + of_nat k) = unat so + k"
      using less.prems(3) le src by (intro unat_add_of_nat64) simp
    have dst: "unat (dst + of_nat k) = length (out @ chunk)"
      using less.prems(4,5) le unat_add_of_nat64 [of dst k] by (simp add: clen)
    have "copy_chunks os fs1 (Some source) (Some target) (remaining - of_nat k) (so + of_nat k) (dst + of_nat k) =
      (Ok, set_file fs1 target ((out @ chunk) @ take (unat (remaining - of_nat k)) (drop (unat (so + of_nat k)) content)))"
    proof (rule less.hyps)
      show "unat (remaining - of_nat k) < unat remaining" using rem pos le by simp
      show "files fs1 source = Some content" using less.prems(1) ne by (simp add: fs1_def)
      show "files fs1 target = Some (out @ chunk)" by (simp add: fs1_def)
      show "unat (so + of_nat k) + unat (remaining - of_nat k) \<le> length content"
        using less.prems(3) le by (simp add: so rem)
      show "length (out @ chunk) + unat (remaining - of_nat k) < 2 ^ 63"
        using less.prems(5) le by (simp add: rem clen)
    qed (rule dst)
    moreover have "chunk @ take (unat remaining - k) (drop (unat so + k) content) =
        take (unat remaining) (drop (unat so) content)"
      using le take_add [of k "unat remaining - k" "drop (unat so) content"]
      by (simp add: chunk_def add.commute)
    ultimately show ?thesis
      using False read wr
      by (simp add: copy_chunks.simps [of os fs] Let_def rem so fs1_def flip: k_def)
  qed
qed

lemma legacy_sizes:
  assumes "item_fits (meta, column, e)" and "length (se_bytes e) < 2 ^ 63"
  shows "unat (ucast (lr_columnSize (legacy_header meta column e) + lr_keySize (legacy_header meta column e)) +
      lr_valueSize (legacy_header meta column e) :: u64) = length (item_data (meta, column, e))"
    and "IsValidLegacyRecordHeader (legacy_header meta column e)"
    and "ValueRecordHeader_default\<lparr>vr_columnSize := lr_columnSize (legacy_header meta column e),
      vr_keySize := lr_keySize (legacy_header meta column e),
      vr_valueSize := lr_valueSize (legacy_header meta column e)\<rparr> = pr_header (pending_record column 0 e)"
proof -
  have small: "length column + length (se_key e) < 4294967296" using assms(1) by (simp add: item_fits_def)
  have f: "lr_columnSize (legacy_header meta column e) = of_nat (length column)"
    "lr_keySize (legacy_header meta column e) = of_nat (length (se_key e))"
    "lr_valueSize (legacy_header meta column e) = of_nat (length (se_bytes e))"
    by (simp_all add: legacy_header_def split: prod.split)
  have "unat (of_nat (length column) + of_nat (length (se_key e)) :: u32) = length column + length (se_key e)"
    using small unat_of_nat32 [of "length column + length (se_key e)"] by (simp add: FitsUint32_def)
  then have "unat (ucast (of_nat (length column) + of_nat (length (se_key e)) :: u32) :: u64) =
      length column + length (se_key e)" by simp
  then show "unat (ucast (lr_columnSize (legacy_header meta column e) + lr_keySize (legacy_header meta column e)) +
      lr_valueSize (legacy_header meta column e) :: u64) = length (item_data (meta, column, e))"
    unfolding f using small assms(2)
    by (subst unat_add64) (simp_all add: unat_of_nat64 item_data_def)
  show "IsValidLegacyRecordHeader (legacy_header meta column e)"
    by (simp add: IsValidLegacyRecordHeader_def legacy_header_def LegacyValueRecordHeader_default_def split: prod.split)
  show "ValueRecordHeader_default\<lparr>vr_columnSize := lr_columnSize (legacy_header meta column e),
      vr_keySize := lr_keySize (legacy_header meta column e),
      vr_valueSize := lr_valueSize (legacy_header meta column e)\<rparr> = pr_header (pending_record column 0 e)"
    by (simp add: f pending_record_def)
qed

lemma migrate_step:
  assumes os: "reads_ok os" "writes_ok os" and ne: "source \<noteq> target"
    and src: "content = pre @ legacy_record it @ rest" "length content < 2 ^ 63" and fits: "item_fits it"
    and files: "files fs source = Some content" "files fs target = Some out"
    and off: "unat off = length pre" and dst: "unat dst = length out"
    and room: "length out + length (migrated_record it) < 2 ^ 63"
  shows "migrate_loop os fs (Some source) (Some target) (of_nat (length content)) off dst =
    migrate_loop os (set_file fs target (out @ migrated_record it)) (Some source) (Some target)
      (of_nat (length content)) (off + of_nat (length (legacy_record it))) (dst + of_nat (length (migrated_record it)))"
proof -
  obtain meta column e where it: "it = (meta, column, e)" by (cases it)
  define h where "h = legacy_header meta column e"
  have enc: "legacy_record it = encode_LegacyValueRecordHeader h @ item_data it"
    by (simp add: legacy_record_def item_data_def it h_def)
  have total: "length pre + (48 + length (item_data it)) + length rest = length content"
    by (simp add: src(1) enc)
  have "length (se_bytes e) \<le> length (item_data it)" by (simp add: item_data_def it)
  then have val: "length (se_bytes e) < 2 ^ 63" using total src(2) by simp
  define data where "data = ucast (lr_columnSize h + lr_keySize h) + lr_valueSize h"
  have data: "unat data = length (item_data it)"
    unfolding data_def h_def it using legacy_sizes(1) fits val by (simp add: it)
  have fs: "unat (of_nat (length content) :: u64) = length content" using src(2) by (intro unat_of_nat64) simp
  have s48: "unat (48 + data) = 48 + length (item_data it)"
    using total src(2) unat_add64 [of 48 data] by (simp add: data)
  have sizes: "48 + data = of_nat (length (legacy_record it))" "24 + data = of_nat (length (migrated_record it))"
    using data by (simp_all add: length_legacy_record length_migrated_record flip: data)
  have lt: "off < of_nat (length content)" using total by (simp add: word_less_nat_alt fs off)
  have fits': "\<not> 48 + data > of_nat (length content) - off"
    using total by (simp add: word_less_nat_alt unat_sub64 fs off s48)
  have "ReadAllAt os fs (Some source) 48 off = Inr (take 48 (drop (unat off) content))"
    using total off by (intro ReadAllAt_within [OF os(1) files(1) src(2)]) simp
  then have read: "ReadAllAt os fs (Some source) 48 off = Inr (encode_LegacyValueRecordHeader h)"
    by (simp add: off src(1) enc)
  have dec: "decode_LegacyValueRecordHeader (encode_LegacyValueRecordHeader h) = h"
    using decode_encode_LegacyValueRecordHeader [of h "[]"] by simp
  define new where "new = pr_header (pending_record column 0 e)"
  have hdr: "ValueRecordHeader_default\<lparr>vr_columnSize := lr_columnSize h, vr_keySize := lr_keySize h,
      vr_valueSize := lr_valueSize h\<rparr> = new"
    unfolding h_def new_def using legacy_sizes(3) fits val by (simp add: it)
  have mig: "migrated_record it = encode_ValueRecordHeader new @ item_data it"
    by (simp add: migrated_record_def entry_record_def item_data_def it new_def)
  define fs1 where "fs1 = set_file fs target (out @ encode_ValueRecordHeader new)"
  have wr: "WriteAllAt os fs (Some target) (encode_ValueRecordHeader new) dst = (Ok, fs1)"
    unfolding fs1_def using room by (intro WriteAllAt_end [OF os(2) files(2) dst]) (simp add: mig)
  have so: "unat (off + 48) = length pre + 48"
    using total src(2) unat_add64 [of off 48] by (simp add: off)
  have copy: "copy_chunks os fs1 (Some source) (Some target) data (off + 48) (dst + 24) =
      (Ok, set_file fs1 target ((out @ encode_ValueRecordHeader new) @ take (unat data) (drop (unat (off + 48)) content)))"
  proof (rule copy_chunks_ok [OF os ne src(2)])
    show "files fs1 source = Some content" using files(1) ne by (simp add: fs1_def)
    show "files fs1 target = Some (out @ encode_ValueRecordHeader new)" by (simp add: fs1_def)
    show "unat (off + 48) + unat data \<le> length content" using total by (simp add: so data)
    show "unat (dst + 24) = length (out @ encode_ValueRecordHeader new)"
      using room dst unat_add64 [of dst 24] by (simp add: mig)
    show "length (out @ encode_ValueRecordHeader new) + unat data < 2 ^ 63"
      using room by (simp add: mig data)
  qed
  have slice: "take (unat data) (drop (unat (off + 48)) content) = item_data it"
    by (simp add: so data src(1) enc)
  have copy': "copy_chunks os fs1 (Some source) (Some target) data (off + 48) (dst + 24) =
      (Ok, set_file fs target (out @ migrated_record it))"
    unfolding copy slice mig by (simp add: fs1_def)
  have valid: "IsValidLegacyRecordHeader h"
    unfolding h_def using legacy_sizes(2) fits val by (simp add: it)
  show ?thesis
    unfolding sizes [symmetric]
    by (subst migrate_loop.simps)
      (simp add: lt read dec hdr wr copy' fits' Let_def valid flip: data_def)
qed

lemma migrate_loop_ok:
  assumes os: "reads_ok os" "writes_ok os" and ne: "source \<noteq> target"
  shows "content = pre @ legacy_bytes items \<Longrightarrow> length content < 2 ^ 63 \<Longrightarrow> list_all item_fits items \<Longrightarrow>
    files fs source = Some content \<Longrightarrow> files fs target = Some out \<Longrightarrow>
    unat off = length pre \<Longrightarrow> unat dst = length out \<Longrightarrow>
    length out + length (migrated_bytes items) < 2 ^ 63 \<Longrightarrow>
    migrate_loop os fs (Some source) (Some target) (of_nat (length content)) off dst =
      Some (Ok, set_file fs target (out @ migrated_bytes items), dst + of_nat (length (migrated_bytes items)))"
proof (induction items arbitrary: pre fs out off dst)
  case Nil
  have "unat (of_nat (length content) :: u64) = length content" using Nil.prems(2) by (intro unat_of_nat64) simp
  then have "\<not> off < of_nat (length content)"
    using Nil.prems(1,6) by (simp add: word_less_nat_alt legacy_bytes_def)
  then show ?case
    using Nil.prems(5) by (subst migrate_loop.simps) (simp add: migrated_bytes_def set_file_same)
next
  case (Cons it items)
  define leg where "leg = legacy_record it"
  define mig where "mig = migrated_record it"
  have split: "legacy_bytes (it # items) = leg @ legacy_bytes items"
    "migrated_bytes (it # items) = mig @ migrated_bytes items"
    by (simp_all add: legacy_bytes_def migrated_bytes_def leg_def mig_def)
  have content: "content = pre @ leg @ legacy_bytes items" using Cons.prems(1) by (simp add: split)
  have total: "length content = length pre + length leg + length (legacy_bytes items)" by (simp add: content)
  have fits: "item_fits it" "list_all item_fits items" using Cons.prems(3) by simp_all
  have room: "length out + length mig + length (migrated_bytes items) < 2 ^ 63"
    using Cons.prems(8) by (simp add: split)
  have step: "migrate_loop os fs (Some source) (Some target) (of_nat (length content)) off dst =
    migrate_loop os (set_file fs target (out @ mig)) (Some source) (Some target)
      (of_nat (length content)) (off + of_nat (length leg)) (dst + of_nat (length mig))"
    unfolding leg_def mig_def
    by (rule migrate_step [OF os ne content [unfolded leg_def] Cons.prems(2) fits(1) Cons.prems(4-7)])
      (use room in \<open>simp add: mig_def\<close>)
  have off: "unat (off + of_nat (length leg)) = length (pre @ leg)"
    using total Cons.prems(2,6) unat_add_of_nat64 [of off "length leg"] by simp
  have dst: "unat (dst + of_nat (length mig)) = length (out @ mig)"
    using room Cons.prems(7) unat_add_of_nat64 [of dst "length mig"] by simp
  have "migrate_loop os (set_file fs target (out @ mig)) (Some source) (Some target) (of_nat (length content))
      (off + of_nat (length leg)) (dst + of_nat (length mig)) =
    Some (Ok, set_file (set_file fs target (out @ mig)) target ((out @ mig) @ migrated_bytes items),
      dst + of_nat (length mig) + of_nat (length (migrated_bytes items)))"
    by (rule Cons.IH [OF _ Cons.prems(2) fits(2) _ _ off dst])
      (use content ne Cons.prems(4) room in simp_all)
  then show ?case by (simp add: step split add.assoc)
qed

subsection \<open>The migrated file holds the same log\<close>

lemma migrated_records:
  assumes "list_all item_fits items" and "length pre + length (migrated_bytes items) < 2 ^ 63"
  shows "records_from (pre @ migrated_bytes items) (length pre) = Some (map item_triple items)"
  using assms
proof (induction items arbitrary: pre)
  case Nil
  then show ?case using records_from_end [of pre] by (simp add: migrated_bytes_def)
next
  case (Cons it items)
  obtain meta column e where it: "it = (meta, column, e)" by (cases it)
  define r where "r = entry_record column e"
  have split: "migrated_bytes (it # items) = r @ migrated_bytes items"
    by (simp add: migrated_bytes_def migrated_record_def it r_def)
  have fit: "FitsUint32 (length column)" "list_all (\<lambda>e. FitsUint32 (length (se_key e))) [e]"
    using Cons.prems(1) by (simp_all add: it item_fits_def FitsUint32_def)
  have one: "records_from (pre @ r) (length pre) = Some [(column, se_key e, se_bytes e)]"
    using records_from_entries [OF fit, of pre] Cons.prems(2)
    by (simp add: entries_bytes_def entry_triples_def split r_def)
  have rest: "records_from ((pre @ r) @ migrated_bytes items) (length (pre @ r)) = Some (map item_triple items)"
    by (rule Cons.IH) (use Cons.prems in \<open>simp_all add: split\<close>)
  from records_from_append [OF one _ rest] show ?case
    unfolding split by (simp add: it item_triple_def)
qed

definition legacy_file :: "legacy_item list \<Rightarrow> bytes" where
  "legacy_file items =
     encode_ValueFileHeader (ValueFileHeader_default\<lparr>vf_magic := kLegacyValueFileMagic\<rparr>) @ legacy_bytes items"

definition migrated_file :: "legacy_item list \<Rightarrow> bytes" where
  "migrated_file items = encode_ValueFileHeader ValueFileHeader_default @ migrated_bytes items"

lemma migrated_file_ok:
  assumes "list_all item_fits items" and "length (legacy_file items) < 2 ^ 63"
  shows "value_header_ok (migrated_file items)"
    and "records_from (migrated_file items) 24 = Some (map item_triple items)"
    and "length (migrated_file items) = 24 + length (migrated_bytes items)"
    and "length (migrated_file items) < 2 ^ 63"
proof -
  let ?h = "encode_ValueFileHeader ValueFileHeader_default"
  have "length ?h = 24" by simp
  then show len: "length (migrated_file items) = 24 + length (migrated_bytes items)"
    by (simp add: migrated_file_def)
  show small: "length (migrated_file items) < 2 ^ 63"
    using assms(2) migrated_le_legacy [of items] by (simp add: len legacy_file_def magic_defs)
  show "value_header_ok (migrated_file items)"
    using decode_encode_ValueFileHeader [of ValueFileHeader_default "[]"]
    by (simp add: value_header_ok_def migrated_file_def) (simp add: ValueFileHeader_default_def)
  show "records_from (migrated_file items) 24 = Some (map item_triple items)"
    using migrated_records [OF assms(1), of ?h] small by (simp add: len migrated_file_def)
qed

lemma OpenValueFile_legacy:
  assumes "os_ok os" and rw: "\<not> readOnly db"
    and stored: "files (filesys db) (valuePath db) = Some (legacy_file items)"
    and fits: "list_all item_fits items" and len: "length (legacy_file items) < 2 ^ 63"
    and ne: "valuePath db \<noteq> indexPath db"
  shows "\<exists>fs. OpenValueFile os db = Some (Ok, db\<lparr>filesys := fs, valueFile := Some (valuePath db),
      appendOffset := of_nat (length (migrated_file items))\<rparr>) \<and>
    files fs (valuePath db) = Some (migrated_file items) \<and> files fs (indexPath db) = None"
proof -
  have os: "reads_ok os" "writes_ok os" "calls_ok os" using assms(1) by (simp_all add: os_ok_def)
  define vp where "vp = valuePath db"
  define mp where "mp = vp @ ''.migrating''"
  define c where "c = legacy_file items"
  define hd0 where "hd0 = ValueFileHeader_default\<lparr>vf_magic := kLegacyValueFileMagic\<rparr>"
  have hlen: "length (encode_ValueFileHeader hd0) = 24" by (simp add: hd0_def magic_defs)
  have c: "c = encode_ValueFileHeader hd0 @ legacy_bytes items" by (simp add: c_def legacy_file_def hd0_def)
  have mv: "vp \<noteq> mp" "mp \<noteq> vp" by (simp_all add: mp_def)
  have st: "files (filesys db) vp = Some c" using stored by (simp add: vp_def c_def)
  have size: "unat (of_nat (length c) :: u64) = length c" using len by (intro unat_of_nat64) (simp add: c_def)
  have big: "\<not> (of_nat (length c) :: u64) < 24" "(of_nat (length c) :: u64) \<noteq> 0"
    using size c hlen by (auto simp: word_less_nat_alt)
  have dec: "decode_ValueFileHeader (encode_ValueFileHeader hd0) = hd0"
    using decode_encode_ValueFileHeader [of hd0 "[]"] by (simp add: hd0_def magic_defs)
  have read: "ReadAllAt os (filesys db) (Some vp) 24 0 = Inr (encode_ValueFileHeader hd0)"
    using ReadAllAt_within [OF os(1) st, of 0 24] len by (simp add: c hlen) (simp add: c_def [symmetric] c hlen)
  define fs3 where "fs3 = set_file (filesys db) mp (encode_ValueFileHeader ValueFileHeader_default)"
  have fs3: "files fs3 vp = Some c" "files fs3 mp = Some (encode_ValueFileHeader ValueFileHeader_default)"
    using st mv by (simp_all add: fs3_def)
  have trunc: "\<exists>fs1. OpenReadWriteCreate os (filesys db) mp = (Ok, Some mp, fs1) \<and>
      TruncateFile os fs1 (Some mp) 0 = (Ok, set_file (filesys db) mp [])"
    using os(3)
    by (auto simp: OpenReadWriteCreate_def TruncateFile_def calls_ok_def off_negative_def resize_content_def)
  then obtain fs1 where o1: "OpenReadWriteCreate os (filesys db) mp = (Ok, Some mp, fs1)"
      "TruncateFile os fs1 (Some mp) 0 = (Ok, set_file (filesys db) mp [])"
    by blast
  have w1: "WriteAllAt os (set_file (filesys db) mp []) (Some mp) (encode_ValueFileHeader ValueFileHeader_default) 0 = (Ok, fs3)"
    using WriteAllAt_end [OF os(2), of "set_file (filesys db) mp []" mp "[]" 0] by (simp add: fs3_def)
  have small: "length (migrated_file items) < 2 ^ 63" "length (migrated_file items) = 24 + length (migrated_bytes items)"
    using migrated_file_ok [OF fits len] by simp_all
  define fs4 where "fs4 = set_file fs3 mp (migrated_file items)"
  have loop: "migrate_loop os fs3 (Some vp) (Some mp) (of_nat (length c)) 24 24 =
      Some (Ok, fs4, of_nat (length (migrated_file items)))"
    using migrate_loop_ok [OF os(1,2) mv(1) c _ fits fs3, of 24 24] len small hlen
    by (simp add: c_def fs4_def migrated_file_def)
  define fs5 where "fs5 = fs4\<lparr>files := (files fs4)(mp := None, vp := files fs4 mp)\<rparr>"
  define fs6 where "fs6 = fs5\<lparr>files := (files fs5)(indexPath db := None)\<rparr>"
  have fs6: "files fs6 vp = Some (migrated_file items)" "files fs6 (indexPath db) = None"
    using ne by (simp_all add: fs6_def fs5_def fs4_def vp_def)
  have ren: "rename_file os fs4 mp vp = (None, fs5)" "remove_file os fs5 (indexPath db) = (None, fs6)"
    "SyncFile os (Some mp) = Ok" "OpenReadWriteCreate os fs6 vp = (Ok, Some vp, fs6)"
    using os(3) fs6(1)
    by (simp_all add: rename_file_def remove_file_def SyncFile_def OpenReadWriteCreate_def calls_ok_def fs5_def fs6_def)
  define db1 where "db1 = db\<lparr>filesys := filesys db, valueFile := Some vp\<rparr>"
  have mig: "MigrateLegacyValueFile os db1 (of_nat (length c)) = Some (Ok, db1\<lparr>filesys := fs6, valueFile := Some vp,
      appendOffset := of_nat (length (migrated_file items))\<rparr>)"
    using o1 w1 loop ren
    by (simp add: MigrateLegacyValueFile_def Let_def db1_def flip: vp_def mp_def)
  have open_fd: "OpenReadWriteCreate os (filesys db) vp = (Ok, Some vp, filesys db)"
    using os(3) st by (simp add: OpenReadWriteCreate_def calls_ok_def)
  have stat: "GetFileSize os (filesys db) (Some vp) = Inr (of_nat (length c))"
    using os(3) st by (simp add: GetFileSize_def calls_ok_def file_content_def)
  have "OpenValueFile os db = Some (Ok, db1\<lparr>filesys := fs6, valueFile := Some vp,
      appendOffset := of_nat (length (migrated_file items))\<rparr>)"
    using rw big mig
    by (simp add: OpenValueFile_def open_fd stat read dec db1_def MagicEquals_def flip: vp_def)
      (simp add: hd0_def ValueFileHeader_default_def)
  then show ?thesis
    using fs6 by (intro exI [of _ fs6]) (simp add: db1_def vp_def)
qed

text \<open>C17. Opening a database whose value file has the legacy format migrates it: the new value file
  holds the same records in the same order under the current headers, the stale index is removed
  and rebuilt, and the database stores the replay of the legacy records.\<close>

theorem legacy_file_is_migrated:
  assumes "os_ok os" and "\<not> readOnly db" and "indexMap db = Unmapped" and "valueMap db = Unmapped"
    and "files (filesys db) (valuePath db) = Some (legacy_file items)" and "valuePath db \<noteq> indexPath db"
    and "list_all item_fits items" and "length (legacy_file items) < 2 ^ 63"
    and "initialBucketCount (options db) = 2 ^ j" and "4 \<le> j" and "j \<le> 58"
    and "index_capacity (options db) (empty_index (2 ^ j)) (length items)"
  shows "\<exists>db'. open_object_files os db = Some (Ok, db') \<and> object_ok (db'\<lparr>opened := True\<rparr>) \<and>
    log_bytes db' = migrated_file items \<and>
    objects (db'\<lparr>opened := True\<rparr>) = replay (map item_triple items) (\<lambda>_. None)"
proof -
  have os: "reads_ok os" "calls_ok os" using assms(1) by (simp_all add: os_ok_def)
  note m = migrated_file_ok [OF assms(7,8)]
  obtain fs where o1: "OpenValueFile os db = Some (Ok, db\<lparr>filesys := fs, valueFile := Some (valuePath db),
      appendOffset := of_nat (length (migrated_file items))\<rparr>)"
    and fs: "files fs (valuePath db) = Some (migrated_file items)" "files fs (indexPath db) = None"
    using OpenValueFile_legacy [OF assms(1,2,5,7,8,6)] by blast
  define db1 where "db1 = db\<lparr>filesys := fs, valueFile := Some (valuePath db),
      appendOffset := of_nat (length (migrated_file items))\<rparr>"
  have bad: "index_file_unusable db1" by (simp add: index_file_unusable_def db1_def fs)
  have f1: "\<not> readOnly db1" "indexMap db1 = Unmapped" "mapped_data (valueMap db1) = None"
    "valueFile db1 = Some (valuePath db1)" "valuePath db1 \<noteq> indexPath db1"
    "files (filesys db1) (valuePath db1) = Some (migrated_file items)" "initialBucketCount (options db1) = 2 ^ j"
    "index_capacity (options db1) (empty_index (2 ^ j)) (length (map item_triple items))"
    using assms fs by (simp_all add: db1_def Unmapped_def)
  obtain db' where "OpenIndexFile os db1 = Some (Ok, db')" "object_ok (db'\<lparr>opened := True\<rparr>)"
    "objects (db'\<lparr>opened := True\<rparr>) = replay (map item_triple items) (\<lambda>_. None)" "log_bytes db' = migrated_file items"
    using recover_index [OF os(2,1) f1(1-6) m(4,1,2) f1(7) assms(10,11) f1(8) bad] by blast
  then show ?thesis using o1 by (simp add: open_object_files_def flip: db1_def)
qed

definition sample_items :: "legacy_item list" where
  "sample_items = map (\<lambda>e. ((1, 2, 3), [7], e)) sample_entries"

definition legacy_db :: Impl where
  "legacy_db = sample_db\<lparr>indexMap := Unmapped, valueFile := None, indexFile := None,
     filesys := \<lparr>files = [''d/values.dat'' \<mapsto> legacy_file sample_items], dirs = \<lambda>p. p = ''d''\<rparr>\<rparr>"

lemma legacy_file_is_migrated_witness:
  "\<exists>db'. open_object_files choppy_os legacy_db = Some (Ok, db') \<and>
     objects (db'\<lparr>opened := True\<rparr>) ([7], [1]) = Some [11, 12]"
proof -
  have f: "\<not> readOnly legacy_db" "indexMap legacy_db = Unmapped" "valueMap legacy_db = Unmapped"
    "files (filesys legacy_db) (valuePath legacy_db) = Some (legacy_file sample_items)"
    "valuePath legacy_db \<noteq> indexPath legacy_db" "options legacy_db = DatabaseOptions_default"
    by (simp_all add: legacy_db_def sample_db_def)
  have fits: "list_all item_fits sample_items"
    by (simp add: sample_items_def sample_entries_def item_fits_def)
  have len: "length (legacy_file sample_items) < 2 ^ 63"
    by (simp add: legacy_file_def legacy_bytes_def sample_items_def sample_entries_def length_legacy_record
        item_data_def magic_defs)
  have three: "length sample_items = 3" by (simp add: sample_items_def sample_entries_def)
  have opts: "initialBucketCount (options legacy_db) = 2 ^ 16"
    "index_capacity (options legacy_db) (empty_index (2 ^ 16)) (length sample_items)"
    using default_capacity by (simp_all only: f(6) three) (simp add: DatabaseOptions_default_def)
  from legacy_file_is_migrated [OF choppy_os_ok f(1-5) fits len opts(1) _ _ opts(2)]
  show ?thesis by (auto simp: sample_items_def sample_entries_def item_triple_def)
qed

end
