(* ===== verification/Row_Block.thy ===== *)
theory Row_Block
  imports Object_Index
begin

text \<open>
  The row block: one self-contained hash table per row, with its header, key buckets, column name,
  key bytes and value bytes.  \<open>BuildRowBlockLayout\<close> lays it out, \<open>FindValueInRowBlockAt\<close> probes it
  in the file, \<open>DecodeRowBlockEntries\<close> reads a whole block that was loaded into memory.  A read of
  the in-memory block outside its bounds is undefined behaviour and gives \<open>None\<close>.
\<close>

record RowBlockLayout =
  rl_header :: RowBlockHeader
  rl_keyBuckets :: "RowKeyBucket list"
  rl_keyBytes :: bytes
  rl_valueEntries :: "RowStructEntry list"

definition IsValidRowBlockHeader :: "RowBlockHeader \<Rightarrow> bool" where
  "IsValidRowBlockHeader blockHeader =
     (if rb_magic blockHeader \<noteq> kRowBlockMagic \<or> rb_version blockHeader \<noteq> of_nat kStorageVersion \<or>
         rb_headerSize blockHeader \<noteq> 72
      then False
      else if rb_bucketCount blockHeader = 0 \<or>
         rb_bucketCount blockHeader AND (rb_bucketCount blockHeader - 1) \<noteq> 0
      then False
      else
        let minimumSize = 72 + ucast (rb_bucketCount blockHeader) * 48 +
              ucast (rb_columnSize blockHeader) + rb_keyBytesSize blockHeader + rb_valueBytesSize blockHeader
        in rb_blockSize blockHeader = minimumSize)"

definition ReadRowBlockColumn :: "os \<Rightarrow> Impl \<Rightarrow> u32 \<Rightarrow> u64 \<Rightarrow> RowBlockHeader \<Rightarrow> Status + bytes" where
  "ReadRowBlockColumn os db shardId blockOffset blockHeader =
     (let columnOffset = blockOffset + 72 + ucast (rb_bucketCount blockHeader) * 48
      in ReadRowValueAt os db shardId (unat (rb_columnSize blockHeader)) columnOffset)"

definition LoadRowBlock :: "os \<Rightarrow> Impl \<Rightarrow> RowIndexBucket \<Rightarrow> Status + bytes" where
  "LoadRowBlock os db bucket =
     (if unat (rib_shardId bucket) \<ge> length (rowValueFiles db)
      then Inl (Corruption ''row index points to an invalid shard'')
      else ReadRowValueAt os db (rib_shardId bucket) (unat (rib_blockSize bucket)) (rib_blockOffset bucket))"

subsection \<open>Decoding a block in memory\<close>

definition slice_at :: "bytes \<Rightarrow> nat \<Rightarrow> nat \<Rightarrow> bytes option" where
  "slice_at block off n = (if off + n \<le> length block then Some (take n (drop off block)) else None)"

fun decode_entries_loop ::
  "bytes \<Rightarrow> RowBlockHeader \<Rightarrow> u64 \<Rightarrow> u64 \<Rightarrow> nat list \<Rightarrow> (Status + (bytes \<times> bytes) list) option" where
  "decode_entries_loop block header keyBytesOffset valueBytesOffset [] = Some (Inr [])"
| "decode_entries_loop block header keyBytesOffset valueBytesOffset (index # rest) =
     (case slice_at block (72 + 48 * index) 48 of
        None \<Rightarrow> None
      | Some bs \<Rightarrow>
          let bucket = decode_RowKeyBucket bs in
          if rk_state bucket = kBucketEmpty
          then decode_entries_loop block header keyBytesOffset valueBytesOffset rest
          else if rk_state bucket \<noteq> kBucketFilled
          then Some (Inl (Corruption ''row key bucket state is invalid''))
          else if rk_keyOffset bucket + rk_keySize bucket > rb_keyBytesSize header \<or>
                  rk_valueOffset bucket + rk_valueSize bucket > rb_valueBytesSize header
          then Some (Inl (Corruption ''row key bucket points outside block''))
          else
            case (slice_at block (unat keyBytesOffset + unat (rk_keyOffset bucket)) (unat (rk_keySize bucket)),
                  slice_at block (unat valueBytesOffset + unat (rk_valueOffset bucket)) (unat (rk_valueSize bucket))) of
              (Some storedKey, Some val) \<Rightarrow>
                map_option (map_sum id ((#) (storedKey, val)))
                  (decode_entries_loop block header keyBytesOffset valueBytesOffset rest)
            | _ \<Rightarrow> None)"

definition DecodeRowBlockEntries ::
  "bytes \<Rightarrow> bytes \<Rightarrow> u64 \<Rightarrow> (Status + bytes list \<times> bytes list) option" where
  "DecodeRowBlockEntries block column rowId =
     (if length block < 72 then Some (Inl (Corruption ''row block is truncated''))
      else
        let header = decode_RowBlockHeader block in
        if \<not> IsValidRowBlockHeader header \<or> unat (rb_blockSize header) \<noteq> length block \<or>
           rb_rowId header \<noteq> rowId \<or> rb_columnHash header \<noteq> HashString column
        then Some (Inl (Corruption ''row block header does not match requested row''))
        else
          let columnOffset = 72 + ucast (rb_bucketCount header) * 48 :: u64;
              keyBytesOffset = columnOffset + ucast (rb_columnSize header);
              valueBytesOffset = keyBytesOffset + rb_keyBytesSize header
          in case slice_at block (unat columnOffset) (unat (rb_columnSize header)) of
               None \<Rightarrow> None
             | Some storedColumn \<Rightarrow>
                 if storedColumn \<noteq> column
                 then Some (Inl (Corruption ''row block column does not match requested column''))
                 else
                   case decode_entries_loop block header keyBytesOffset valueBytesOffset
                          [0..<unat (rb_bucketCount header)] of
                     None \<Rightarrow> None
                   | Some (Inl status) \<Rightarrow> Some (Inl status)
                   | Some (Inr kvs) \<Rightarrow>
                       (if length kvs \<noteq> unat (rb_itemCount header)
                        then Some (Inl (Corruption ''row block item count does not match key buckets''))
                        else Some (Inr (map fst kvs, map snd kvs))))"

subsection \<open>Laying out a block\<close>

record RowBuild =
  bd_keyBuckets :: "RowKeyBucket list"
  bd_keyBytes :: bytes
  bd_selectedEntries :: "nat list"
  bd_itemCount :: u32

definition row_key_matches :: "bytes \<Rightarrow> RowKeyBucket \<Rightarrow> u64 \<Rightarrow> bytes \<Rightarrow> bool" where
  "row_key_matches keyBytes bucket keyHash key \<longleftrightarrow>
     rk_keyHash bucket = keyHash \<and> unat (rk_keySize bucket) = length key \<and>
     take (unat (rk_keySize bucket)) (drop (unat (rk_keyOffset bucket)) keyBytes) = key"

text \<open>One round of the placing loop: the first probed bucket that is empty or holds the key.\<close>

definition place_row_key ::
  "u64 \<Rightarrow> u64 \<Rightarrow> nat \<Rightarrow> RowStructEntry \<Rightarrow> RowBuild \<Rightarrow> RowBuild option" where
  "place_row_key rowId bucketCount entryIndex entry b =
     (let keyHash = HashString (re_key entry);
          mask = bucketCount - 1;
          start = MixHashes keyHash rowId AND mask
      in case find (\<lambda>i. rk_state (bd_keyBuckets b ! i) = kBucketEmpty \<or>
                row_key_matches (bd_keyBytes b) (bd_keyBuckets b ! i) keyHash (re_key entry))
              (probe_indices start bucketCount) of
           None \<Rightarrow> None
         | Some bucketIndex \<Rightarrow>
             let bucket = bd_keyBuckets b ! bucketIndex in
             if rk_state bucket = kBucketEmpty then
               Some (b\<lparr>bd_keyBytes := bd_keyBytes b @ re_key entry,
                       bd_keyBuckets := (bd_keyBuckets b)[bucketIndex := bucket
                         \<lparr>rk_state := kBucketFilled, rk_keyHash := keyHash,
                          rk_keyOffset := of_nat (length (bd_keyBytes b)),
                          rk_keySize := of_nat (length (re_key entry))\<rparr>],
                       bd_selectedEntries := (bd_selectedEntries b)[bucketIndex := entryIndex],
                       bd_itemCount := bd_itemCount b + 1\<rparr>)
             else Some (b\<lparr>bd_selectedEntries := (bd_selectedEntries b)[bucketIndex := entryIndex]\<rparr>))"

fun place_row_keys :: "u64 \<Rightarrow> u64 \<Rightarrow> nat \<Rightarrow> RowStructEntry list \<Rightarrow> RowBuild \<Rightarrow> RowBuild option" where
  "place_row_keys rowId bucketCount entryIndex [] b = Some b"
| "place_row_keys rowId bucketCount entryIndex (entry # rest) b =
     (case place_row_key rowId bucketCount entryIndex entry b of
        None \<Rightarrow> None
      | Some b' \<Rightarrow> place_row_keys rowId bucketCount (Suc entryIndex) rest b')"

text \<open>The second loop: value offsets and sizes, in bucket order.\<close>

fun assign_values ::
  "RowStructEntry list \<Rightarrow> (RowKeyBucket \<times> nat) list \<Rightarrow> u64 \<Rightarrow> RowKeyBucket list \<times> RowStructEntry list \<times> u64" where
  "assign_values entries [] valueBytesSize = ([], [], valueBytesSize)"
| "assign_values entries ((bucket, selected) # rest) valueBytesSize =
     (if rk_state bucket = kBucketEmpty then
        (let (buckets, valueEntries, n) = assign_values entries rest valueBytesSize
         in (bucket # buckets, valueEntries, n))
      else
        (let entry = entries ! selected;
             bucket' = bucket\<lparr>rk_valueOffset := valueBytesSize, rk_valueSize := of_nat (length (re_bytes entry))\<rparr>;
             (buckets, valueEntries, n) =
               assign_values entries rest (valueBytesSize + of_nat (length (re_bytes entry)))
         in (bucket' # buckets, entry # valueEntries, n)))"

text \<open>
  The conversion of the quotient to \<open>uint64_t\<close> is undefined when it does not fit; that and a
  rounding loop that never ends give \<open>None\<close>.
\<close>

definition BuildRowBlockLayout ::
  "Impl \<Rightarrow> bytes \<Rightarrow> u64 \<Rightarrow> RowStructEntry list \<Rightarrow> u64 \<Rightarrow> u64 \<Rightarrow> (Status + RowBlockLayout) option" where
  "BuildRowBlockLayout db column rowId entries sequence columnHash =
     (if length entries > 4294967295
      then Some (Inl (InvalidArgument ''row entry count must fit in uint32''))
      else case u64_of_double (ddiv (double_of_u64 (of_nat (length entries))) (maxLoadFactor (options db))) of
          None \<Rightarrow> None
        | Some q \<Rightarrow>
            (case RoundUpPowerOfTwo (q + 1) of
               None \<Rightarrow> None
             | Some bucketCount \<Rightarrow>
                 if bucketCount > 4294967295
                 then Some (Inl (InvalidArgument ''row key bucket count must fit in uint32''))
                 else case place_row_keys rowId bucketCount 0 entries
                        \<lparr>bd_keyBuckets = replicate (unat bucketCount) RowKeyBucket_default, bd_keyBytes = [],
                         bd_selectedEntries = replicate (unat bucketCount) (length entries), bd_itemCount = 0\<rparr> of
                     None \<Rightarrow> Some (Inl (Corruption ''row key table is full''))
                   | Some b \<Rightarrow>
                       let (keyBuckets, valueEntries, valueBytesSize) =
                             assign_values entries (zip (bd_keyBuckets b) (bd_selectedEntries b)) 0;
                           header = RowBlockHeader_default
                             \<lparr>rb_sequence := sequence, rb_columnHash := columnHash, rb_rowId := rowId,
                              rb_columnSize := of_nat (length column), rb_itemCount := bd_itemCount b,
                              rb_bucketCount := ucast bucketCount,
                              rb_keyBytesSize := of_nat (length (bd_keyBytes b)),
                              rb_valueBytesSize := valueBytesSize,
                              rb_blockSize := 72 + bucketCount * 48 + of_nat (length column) +
                                of_nat (length (bd_keyBytes b)) + valueBytesSize\<rparr>
                       in Some (Inr \<lparr>rl_header = header, rl_keyBuckets = keyBuckets,
                                     rl_keyBytes = bd_keyBytes b, rl_valueEntries = valueEntries\<rparr>)))"

text \<open>The bytes of a block, in the order of the write slices of \<open>WriteRowStructs\<close>.\<close>

definition block_slices :: "bytes \<Rightarrow> RowBlockLayout \<Rightarrow> bytes list" where
  "block_slices column layout =
     [encode_RowBlockHeader (rl_header layout), concat (map encode_RowKeyBucket (rl_keyBuckets layout)),
      column, rl_keyBytes layout] @ map re_bytes (rl_valueEntries layout)"

subsection \<open>Probing a block in the file\<close>

fun find_value_loop ::
  "os \<Rightarrow> Impl \<Rightarrow> RowIndexBucket \<Rightarrow> RowBlockHeader \<Rightarrow> bytes \<Rightarrow> u64 \<Rightarrow> u64 \<Rightarrow> nat list \<Rightarrow> Status + bytes" where
  "find_value_loop os db rowBucket blockHeader key keyBytesOffset valueBytesOffset [] =
     Inl (NotFound ''key not found in row'')"
| "find_value_loop os db rowBucket blockHeader key keyBytesOffset valueBytesOffset (bucketIndex # probes) =
     (case ReadRowValueAt os db (rib_shardId rowBucket) 48
             (rib_blockOffset rowBucket + 72 + of_nat bucketIndex * 48) of
        Inl status \<Rightarrow> Inl status
      | Inr bs \<Rightarrow>
          let bucket = decode_RowKeyBucket bs in
          if rk_state bucket = kBucketEmpty then Inl (NotFound ''key not found in row'')
          else if rk_state bucket \<noteq> kBucketFilled then Inl (Corruption ''row key bucket state is invalid'')
          else if rk_keyHash bucket \<noteq> HashString key \<or> unat (rk_keySize bucket) \<noteq> length key
          then find_value_loop os db rowBucket blockHeader key keyBytesOffset valueBytesOffset probes
          else if rk_keyOffset bucket > rb_keyBytesSize blockHeader \<or>
                  rk_keySize bucket > rb_keyBytesSize blockHeader - rk_keyOffset bucket \<or>
                  rk_valueOffset bucket > rb_valueBytesSize blockHeader \<or>
                  rk_valueSize bucket > rb_valueBytesSize blockHeader - rk_valueOffset bucket
          then Inl (Corruption ''row key bucket points outside block'')
          else
            case ReadRowValueAt os db (rib_shardId rowBucket) (length key)
                   (rib_blockOffset rowBucket + keyBytesOffset + rk_keyOffset bucket) of
              Inl status \<Rightarrow> Inl status
            | Inr storedKey \<Rightarrow>
                if storedKey \<noteq> key
                then find_value_loop os db rowBucket blockHeader key keyBytesOffset valueBytesOffset probes
                else ReadRowValueAt os db (rib_shardId rowBucket) (unat (rk_valueSize bucket))
                       (rib_blockOffset rowBucket + valueBytesOffset + rk_valueOffset bucket))"

definition FindValueInRowBlockAt ::
  "os \<Rightarrow> Impl \<Rightarrow> RowIndexBucket \<Rightarrow> RowBlockHeader \<Rightarrow> bytes \<Rightarrow> Status + bytes" where
  "FindValueInRowBlockAt os db rowBucket blockHeader key =
     (if unat (rib_shardId rowBucket) \<ge> length (rowValueFiles db)
      then Inl (Corruption ''row index points to an invalid shard'')
      else if \<not> IsValidRowBlockHeader blockHeader \<or> rb_blockSize blockHeader \<noteq> rib_blockSize rowBucket
      then Inl (Corruption ''row index points to an invalid row block'')
      else
        let columnOffset = 72 + ucast (rb_bucketCount blockHeader) * 48 :: u64;
            keyBytesOffset = columnOffset + ucast (rb_columnSize blockHeader);
            valueBytesOffset = keyBytesOffset + rb_keyBytesSize blockHeader;
            mask = ucast (rb_bucketCount blockHeader - 1) :: u64;
            start = MixHashes (HashString key) (rb_rowId blockHeader) AND mask
        in find_value_loop os db rowBucket blockHeader key keyBytesOffset valueBytesOffset
             (probe_indices start (ucast (rb_bucketCount blockHeader))))"

subsection \<open>The key table while it is being built\<close>

abbreviation vacant_slot :: "RowKeyBucket \<times> nat \<Rightarrow> bool" where
  "vacant_slot s \<equiv> rk_state (fst s) = kBucketEmpty"

definition bucket_row_key :: "bytes \<Rightarrow> RowKeyBucket \<Rightarrow> bytes" where
  "bucket_row_key keyBytes b = take (unat (rk_keySize b)) (drop (unat (rk_keyOffset b)) keyBytes)"

definition slot_key :: "bytes \<Rightarrow> RowKeyBucket \<times> nat \<Rightarrow> bytes" where
  "slot_key keyBytes s = bucket_row_key keyBytes (fst s)"

definition row_key_hash :: "u64 \<Rightarrow> bytes \<Rightarrow> u64" where
  "row_key_hash rowId key = MixHashes (HashString key) rowId"

definition slot_hash :: "u64 \<Rightarrow> RowKeyBucket \<times> nat \<Rightarrow> u64" where
  "slot_hash rowId s = MixHashes (rk_keyHash (fst s)) rowId"

interpretation row_slots: open_addressing vacant_slot "slot_hash rowId" "(RowKeyBucket_default, n)" for rowId n
  by unfold_locales (simp add: RowKeyBucket_default_def)

text \<open>The map a list of entries stands for: the last entry of a key wins.\<close>

definition row_map :: "RowStructEntry list \<Rightarrow> (bytes \<rightharpoonup> bytes)" where
  "row_map entries = fold (\<lambda>e m. m(re_key e \<mapsto> re_bytes e)) entries (\<lambda>_. None)"

lemma row_map_snoc: "row_map (es @ [e]) = (row_map es)(re_key e \<mapsto> re_bytes e)"
  by (simp add: row_map_def)

definition key_bucket_ok :: "bytes \<Rightarrow> RowKeyBucket \<Rightarrow> bool" where
  "key_bucket_ok keyBytes b \<longleftrightarrow>
     rk_state b = kBucketFilled \<and> rk_keyHash b = HashString (bucket_row_key keyBytes b) \<and>
     unat (rk_keyOffset b) + unat (rk_keySize b) \<le> length keyBytes"

definition slots_of :: "RowBuild \<Rightarrow> (RowKeyBucket \<times> nat) list" where
  "slots_of b = zip (bd_keyBuckets b) (bd_selectedEntries b)"

definition key_bytes_total :: "RowStructEntry list \<Rightarrow> nat" where
  "key_bytes_total entries = sum_list (map (\<lambda>e. length (re_key e)) entries)"

definition build_ok :: "u64 \<Rightarrow> nat \<Rightarrow> RowStructEntry list \<Rightarrow> nat \<Rightarrow> RowBuild \<Rightarrow> bool" where
  "build_ok rowId j entries m b \<longleftrightarrow>
     length (bd_keyBuckets b) = 2 ^ j \<and> length (bd_selectedEntries b) = 2 ^ j \<and>
     (\<forall>s \<in> set (slots_of b). rk_reserved (fst s) = replicate 7 0) \<and>
     (\<forall>s \<in> set (slots_of b). \<not> vacant_slot s \<longrightarrow> key_bucket_ok (bd_keyBytes b) (fst s) \<and> snd s < length entries \<and>
        slot_key (bd_keyBytes b) s = re_key (entries ! snd s)) \<and>
     chained vacant_slot (slot_hash rowId) (slots_of b) \<and>
     unique_keys vacant_slot (slot_key (bd_keyBytes b)) (slots_of b) \<and>
     length (occupied vacant_slot (slots_of b)) \<le> m \<and>
     unat (bd_itemCount b) = length (occupied vacant_slot (slots_of b)) \<and>
     length (bd_keyBytes b) \<le> key_bytes_total (take m entries) \<and>
     table_map vacant_slot (slot_key (bd_keyBytes b)) (\<lambda>s. re_bytes (entries ! snd s)) (slots_of b) =
       row_map (take m entries)"

lemma key_bucket_ok_extend:
  assumes "key_bucket_ok kb b"
  shows "key_bucket_ok (kb @ ext) b \<and> bucket_row_key (kb @ ext) b = bucket_row_key kb b"
proof -
  have le: "unat (rk_keyOffset b) + unat (rk_keySize b) \<le> length kb"
    using assms by (simp add: key_bucket_ok_def)
  then have "bucket_row_key (kb @ ext) b = bucket_row_key kb b" by (simp add: bucket_row_key_def)
  with assms show ?thesis by (simp add: key_bucket_ok_def)
qed

lemma length_bucket_row_key: "key_bucket_ok kb b \<Longrightarrow> length (bucket_row_key kb b) = unat (rk_keySize b)"
  by (auto simp: key_bucket_ok_def bucket_row_key_def min_def)

lemma row_key_matches_iff:
  assumes "key_bucket_ok kb b"
  shows "row_key_matches kb b (HashString key) key \<longleftrightarrow> bucket_row_key kb b = key"
proof
  assume "row_key_matches kb b (HashString key) key"
  then show "bucket_row_key kb b = key" unfolding row_key_matches_def bucket_row_key_def by blast
next
  assume "bucket_row_key kb b = key"
  then show "row_key_matches kb b (HashString key) key"
    using assms length_bucket_row_key [OF assms]
    by (auto simp: row_key_matches_def bucket_row_key_def key_bucket_ok_def)
qed

lemma slots_of_keyed:
  assumes "build_ok rowId j entries m b"
  shows "keyed vacant_slot (slot_hash rowId) (slot_key (bd_keyBytes b)) (row_key_hash rowId) (slots_of b)"
  using assms by (auto simp: build_ok_def keyed_def slot_hash_def row_key_hash_def slot_key_def key_bucket_ok_def)

lemma build_ok_start:
  "build_ok rowId j entries 0 \<lparr>bd_keyBuckets = replicate (2 ^ j) RowKeyBucket_default, bd_keyBytes = [],
     bd_selectedEntries = replicate (2 ^ j) n, bd_itemCount = 0\<rparr>"
proof -
  have z: "zip (replicate (2 ^ j) RowKeyBucket_default) (replicate (2 ^ j) n) =
      replicate (2 ^ j) (RowKeyBucket_default, n)"
    by (simp add: zip_replicate)
  have "occupied vacant_slot (replicate (2 ^ j) (RowKeyBucket_default, n)) = []"
    by (rule row_slots.occupied_blank)
  then show ?thesis
    using row_slots.chained_blank [of rowId "2 ^ j" n]
    by (auto simp: build_ok_def slots_of_def z unique_keys_def table_map_def row_map_def
        RowKeyBucket_default_def)
qed

lemma row_search:
  assumes ok: "build_ok rowId j entries m b" and j: "j < 64"
  shows "find (\<lambda>i. rk_state (bd_keyBuckets b ! i) = kBucketEmpty \<or>
        row_key_matches (bd_keyBytes b) (bd_keyBuckets b ! i) (HashString key) key)
      (probe_indices (MixHashes (HashString key) rowId AND (2 ^ j - 1)) (2 ^ j)) =
    search_key vacant_slot (slot_key (bd_keyBytes b)) (slots_of b) (row_key_hash rowId key) key"
proof -
  have len: "length (slots_of b) = 2 ^ j" "length (bd_keyBuckets b) = 2 ^ j" "length (bd_selectedEntries b) = 2 ^ j"
    using ok by (simp_all add: build_ok_def slots_of_def)
  have nth: "fst (slots_of b ! i) = bd_keyBuckets b ! i" if "i < 2 ^ j" for i
    using that len by (simp add: slots_of_def)
  have kb: "key_bucket_ok (bd_keyBytes b) (bd_keyBuckets b ! i)"
    if "i < 2 ^ j" "rk_state (bd_keyBuckets b ! i) \<noteq> kBucketEmpty" for i
  proof -
    have "slots_of b ! i \<in> set (slots_of b)" using that(1) len(1) by simp
    moreover have "\<forall>s \<in> set (slots_of b). \<not> vacant_slot s \<longrightarrow> key_bucket_ok (bd_keyBytes b) (fst s)"
      using ok by (simp add: build_ok_def)
    ultimately show ?thesis using that(2) nth [OF that(1)] by metis
  qed
  have "find (\<lambda>i. rk_state (bd_keyBuckets b ! i) = kBucketEmpty \<or>
        row_key_matches (bd_keyBytes b) (bd_keyBuckets b ! i) (HashString key) key)
      (probe_path (row_key_hash rowId key) (2 ^ j)) =
    find (\<lambda>i. vacant_slot (slots_of b ! i) \<or> slot_key (bd_keyBytes b) (slots_of b ! i) = key)
      (probe_path (row_key_hash rowId key) (2 ^ j))"
  proof (rule find_cong_set)
    fix i
    assume "i \<in> set (probe_path (row_key_hash rowId key) (2 ^ j))"
    then have i: "i < 2 ^ j" by simp
    show "(rk_state (bd_keyBuckets b ! i) = kBucketEmpty \<or>
        row_key_matches (bd_keyBytes b) (bd_keyBuckets b ! i) (HashString key) key) \<longleftrightarrow>
      (vacant_slot (slots_of b ! i) \<or> slot_key (bd_keyBytes b) (slots_of b ! i) = key)"
      using row_key_matches_iff [OF kb [OF i]] by (auto simp: slot_key_def nth [OF i])
  qed
  then show ?thesis
    using probe_indices_pow2 [OF j] by (simp add: search_key_def len row_key_hash_def)
qed

lemma build_okD:
  assumes "build_ok rowId j entries m b"
  shows "length (slots_of b) = 2 ^ j" "length (bd_keyBuckets b) = 2 ^ j" "length (bd_selectedEntries b) = 2 ^ j"
    "\<And>s. s \<in> set (slots_of b) \<Longrightarrow> rk_reserved (fst s) = replicate 7 0"
    "\<And>s. s \<in> set (slots_of b) \<Longrightarrow> \<not> vacant_slot s \<Longrightarrow> key_bucket_ok (bd_keyBytes b) (fst s)"
    "\<And>s. s \<in> set (slots_of b) \<Longrightarrow> \<not> vacant_slot s \<Longrightarrow> snd s < length entries"
    "chained vacant_slot (slot_hash rowId) (slots_of b)"
    "unique_keys vacant_slot (slot_key (bd_keyBytes b)) (slots_of b)"
    "length (occupied vacant_slot (slots_of b)) \<le> m"
    "unat (bd_itemCount b) = length (occupied vacant_slot (slots_of b))"
    "length (bd_keyBytes b) \<le> key_bytes_total (take m entries)"
    "table_map vacant_slot (slot_key (bd_keyBytes b)) (\<lambda>s. re_bytes (entries ! snd s)) (slots_of b) =
       row_map (take m entries)"
    "\<And>s. s \<in> set (slots_of b) \<Longrightarrow> \<not> vacant_slot s \<Longrightarrow> slot_key (bd_keyBytes b) s = re_key (entries ! snd s)"
  using assms unfolding build_ok_def slots_of_def by auto

lemma key_bytes_total_take:
  assumes "m < length entries"
  shows "key_bytes_total (take (Suc m) entries) = key_bytes_total (take m entries) + length (re_key (entries ! m))"
  using assms by (simp add: key_bytes_total_def take_Suc_conv_app_nth)

lemma key_bytes_total_le: "key_bytes_total (take m entries) \<le> key_bytes_total entries"
  by (metis append_take_drop_id key_bytes_total_def le_add1 map_append sum_list_append)

lemma filled_not_empty [simp]: "kBucketFilled \<noteq> kBucketEmpty" "kBucketEmpty \<noteq> kBucketFilled"
  by (simp_all add: kBucketFilled_def kBucketEmpty_def)

lemma place_new_key:
  assumes ok: "build_ok rowId j entries m b" and j: "j \<le> 31" and m: "m < length entries" "m < 2 ^ j"
    and small: "key_bytes_total entries < 2 ^ 63"
    and key: "re_key (entries ! m) = key"
    and free: "first_vacant vacant_slot (slots_of b) (row_key_hash rowId key) = Some i"
    and new: "\<forall>s \<in> set (occupied vacant_slot (slots_of b)). slot_key (bd_keyBytes b) s \<noteq> key"
  shows "build_ok rowId j entries (Suc m) (b\<lparr>bd_keyBytes := bd_keyBytes b @ key,
       bd_keyBuckets := (bd_keyBuckets b)[i := (bd_keyBuckets b ! i)
         \<lparr>rk_state := kBucketFilled, rk_keyHash := HashString key,
          rk_keyOffset := of_nat (length (bd_keyBytes b)), rk_keySize := of_nat (length key)\<rparr>],
       bd_selectedEntries := (bd_selectedEntries b)[i := m], bd_itemCount := bd_itemCount b + 1\<rparr>)"
proof -
  note d = build_okD [OF ok]
  define kb where "kb = bd_keyBytes b @ key"
  define nb where "nb = (bd_keyBuckets b ! i)\<lparr>rk_state := kBucketFilled, rk_keyHash := HashString key,
          rk_keyOffset := of_nat (length (bd_keyBytes b)), rk_keySize := of_nat (length key)\<rparr>"
  note i = first_vacant_SomeD [OF free]
  have i': "i < 2 ^ j" using i(1) d(1) by simp
  have total: "length (bd_keyBytes b) + length key < 2 ^ 63"
    using d(11) key_bytes_total_take [OF m(1)] key_bytes_total_le [of "Suc m" entries] small key by simp
  have words: "unat (of_nat (length (bd_keyBytes b)) :: u64) = length (bd_keyBytes b)"
    "unat (of_nat (length key) :: u64) = length key"
    using total by (simp_all add: unat_of_nat64)
  have nkey: "bucket_row_key kb nb = key" by (simp add: bucket_row_key_def nb_def words kb_def)
  have nok: "key_bucket_ok kb nb"
    using nkey by (simp add: key_bucket_ok_def) (simp add: nb_def words kb_def)
  define slots where "slots = (slots_of b)[i := (nb, m)]"
  have "slots_of b ! i \<in> set (slots_of b)" using i(1) by simp
  moreover have "fst (slots_of b ! i) = bd_keyBuckets b ! i" using i' d(2,3) by (simp add: slots_of_def)
  ultimately have res: "rk_reserved nb = replicate 7 0"
    using d(4) [of "slots_of b ! i"] by (simp add: nb_def)
  have nv: "\<not> vacant_slot (nb, m)" by (simp add: nb_def)
  have ext: "slot_key kb s = slot_key (bd_keyBytes b) s" "key_bucket_ok kb (fst s)"
    if "s \<in> set (slots_of b)" "\<not> vacant_slot s" for s
    using key_bucket_ok_extend [OF d(5) [OF that], of key] by (simp_all add: slot_key_def kb_def)
  have uniq: "unique_keys vacant_slot (slot_key kb) (slots_of b)"
    using d(8) unique_keys_cong [of "slots_of b" vacant_slot "slot_key kb" "slot_key (bd_keyBytes b)"] ext(1) by simp
  have new': "\<forall>s \<in> set (occupied vacant_slot (slots_of b)). slot_key kb s \<noteq> slot_key kb (nb, m)"
    using new ext(1) nkey by (auto simp: set_occupied slot_key_def)
  have sub: "set slots \<subseteq> insert (nb, m) (set (slots_of b))"
    unfolding slots_def by (rule set_update_subset_insert)
  have occ: "length (occupied vacant_slot slots) = Suc (length (occupied vacant_slot (slots_of b)))"
    unfolding slots_def by (rule occupied_update_vacant [where vacant = vacant_slot, OF i(1,2) nv])
  have ch: "chained vacant_slot (slot_hash rowId) slots"
    unfolding slots_def
    by (rule row_slots.chained_insert [OF d(7) _ nv]) (use free in \<open>simp add: slot_hash_def row_key_hash_def nb_def\<close>)
  have un: "unique_keys vacant_slot (slot_key kb) slots"
    unfolding slots_def by (rule unique_keys_insert [where vacant = vacant_slot, OF i(1,2) nv uniq new'])
  have tm: "table_map vacant_slot (slot_key kb) (\<lambda>s. re_bytes (entries ! snd s)) slots = row_map (take (Suc m) entries)"
  proof -
    have "table_map vacant_slot (slot_key kb) (\<lambda>s. re_bytes (entries ! snd s)) (slots_of b) = row_map (take m entries)"
      unfolding d(12) [symmetric] by (rule table_map_cong) (simp add: ext(1))
    then show ?thesis
      unfolding slots_def table_map_insert [where vacant = vacant_slot, OF i(1,2) nv uniq new']
      using nkey key by (simp add: slot_key_def take_Suc_conv_app_nth [OF m(1)] row_map_snoc)
  qed
  have cnt: "unat (bd_itemCount b + 1) = Suc (unat (bd_itemCount b))"
  proof -
    have "unat (bd_itemCount b) < 2 ^ j" using d(9,10) m(2) by simp
    also have "(2 :: nat) ^ j \<le> 2 ^ 31" using j by (intro power_increasing) simp_all
    finally show ?thesis by (simp add: unat_word_ariths)
  qed
  have keys: "slot_key kb (nb, m) = re_key (entries ! m)"
    "\<And>s. s \<in> set (slots_of b) \<Longrightarrow> \<not> vacant_slot s \<Longrightarrow> slot_key kb s = re_key (entries ! snd s)"
    using nkey key ext(1) d(13) by (simp_all add: slot_key_def)
  have "bd_keyBytes b @ key = kb" by (simp add: kb_def)
  moreover have "zip ((bd_keyBuckets b)[i := nb]) ((bd_selectedEntries b)[i := m]) = slots"
    by (simp add: slots_def slots_of_def zip_update)
  ultimately show ?thesis
    unfolding nb_def [symmetric] build_ok_def slots_of_def
    using d(2,3,9,10,11) occ cnt ch un tm sub res nok ext(2) d(4,6) m(1) key_bytes_total_take [OF m(1)] key keys
    by (auto simp: kb_def)
qed

lemma place_known_key:
  assumes ok: "build_ok rowId j entries m b" and m: "m < length entries" and key: "re_key (entries ! m) = key"
    and i: "i < length (slots_of b)" "\<not> vacant_slot (slots_of b ! i)" "slot_key (bd_keyBytes b) (slots_of b ! i) = key"
  shows "build_ok rowId j entries (Suc m) (b\<lparr>bd_selectedEntries := (bd_selectedEntries b)[i := m]\<rparr>)"
proof -
  note d = build_okD [OF ok]
  define nb where "nb = bd_keyBuckets b ! i"
  define slots where "slots = (slots_of b)[i := (nb, m)]"
  have i': "i < 2 ^ j" using i(1) d(1) by simp
  have old: "slots_of b ! i = (nb, bd_selectedEntries b ! i)"
    using i' d(2,3) by (simp add: slots_of_def nb_def)
  have mem: "slots_of b ! i \<in> set (slots_of b)" using i(1) by simp
  have nv: "\<not> vacant_slot (nb, m)" using i(2) by (simp add: old)
  have same: "slot_key (bd_keyBytes b) (slots_of b ! i) = slot_key (bd_keyBytes b) (nb, m)"
    by (simp add: old slot_key_def)
  have nok: "key_bucket_ok (bd_keyBytes b) nb" "rk_reserved nb = replicate 7 0"
    using d(5) [OF mem i(2)] d(4) [OF mem] by (simp_all add: old)
  have sub: "set slots \<subseteq> insert (nb, m) (set (slots_of b))"
    unfolding slots_def by (rule set_update_subset_insert)
  have occ: "length (occupied vacant_slot slots) = length (occupied vacant_slot (slots_of b))"
    unfolding slots_def by (rule occupied_update_taken [where vacant = vacant_slot, OF i(1,2) nv])
  have ch: "chained vacant_slot (slot_hash rowId) slots"
    unfolding slots_def
    by (rule row_slots.chained_replace [OF d(7) i(1,2) nv]) (simp add: slot_hash_def old)
  have un: "unique_keys vacant_slot (slot_key (bd_keyBytes b)) slots"
    unfolding slots_def by (rule unique_keys_replace [where vacant = vacant_slot, OF i(1,2) nv d(8) same])
  have tm: "table_map vacant_slot (slot_key (bd_keyBytes b)) (\<lambda>s. re_bytes (entries ! snd s)) slots =
      row_map (take (Suc m) entries)"
    unfolding slots_def table_map_replace [where vacant = vacant_slot, OF i(1,2) nv d(8) same]
    using i(3) same d(12) key by (simp add: take_Suc_conv_app_nth [OF m] row_map_snoc)
  have "zip (bd_keyBuckets b) ((bd_selectedEntries b)[i := m]) = slots"
    using zip_update [of "bd_keyBuckets b" i nb "bd_selectedEntries b" m]
    by (simp add: slots_def slots_of_def nb_def)
  moreover have "slot_key (bd_keyBytes b) (nb, m) = re_key (entries ! m)" using i(3) same key by simp
  ultimately show ?thesis
    unfolding build_ok_def slots_of_def
    using d(2,3,9,10,11) occ ch un tm sub nok d(4,5,6,13) m key_bytes_total_take [OF m] key
    by auto
qed

lemma place_row_keys_ok:
  assumes j: "j \<le> 31" and room: "length entries < 2 ^ j" and small: "key_bytes_total entries < 2 ^ 63"
  shows "rest = drop m entries \<Longrightarrow> build_ok rowId j entries m b \<Longrightarrow>
    \<exists>b'. place_row_keys rowId (2 ^ j) m rest b = Some b' \<and> build_ok rowId j entries (m + length rest) b'"
proof (induction rest arbitrary: m b)
  case Nil
  then show ?case by simp
next
  case (Cons e rest)
  have m: "m < length entries" using Cons.prems(1) by (metis drop_all list.distinct(1) not_le)
  have e: "entries ! m = e" "rest = drop (Suc m) entries"
    using Cons.prems(1) m by (simp_all add: Cons_nth_drop_Suc [symmetric])
  note d = build_okD [OF Cons.prems(2)]
  note kd = slots_of_keyed [OF Cons.prems(2)]
  have j64: "j < 64" using j by simp
  have m2: "m < 2 ^ j" using m room by simp
  note find = row_search [OF Cons.prems(2) j64, of "re_key e"]
  have "\<exists>b'. place_row_key rowId (2 ^ j) m e b = Some b' \<and> build_ok rowId j entries (Suc m) b'"
  proof (cases "\<exists>i < length (slots_of b). \<not> vacant_slot (slots_of b ! i) \<and> slot_key (bd_keyBytes b) (slots_of b ! i) = re_key e")
    case True
    then obtain i where i: "i < length (slots_of b)" "\<not> vacant_slot (slots_of b ! i)"
      "slot_key (bd_keyBytes b) (slots_of b ! i) = re_key e" by blast
    have "bd_keyBuckets b ! i = fst (slots_of b ! i)" using i(1) d(1,2,3) by (simp add: slots_of_def)
    then have "rk_state (bd_keyBuckets b ! i) \<noteq> kBucketEmpty" using i(2) by simp
    then have "place_row_key rowId (2 ^ j) m e b = Some (b\<lparr>bd_selectedEntries := (bd_selectedEntries b)[i := m]\<rparr>)"
      using find row_slots.search_hit [OF d(7) kd d(8) i] by (simp add: place_row_key_def Let_def)
    then show ?thesis using place_known_key [OF Cons.prems(2) m _ i] e(1) by simp
  next
    case False
    then have new: "\<forall>s \<in> set (occupied vacant_slot (slots_of b)). slot_key (bd_keyBytes b) s \<noteq> re_key e"
      unfolding Ball_def in_occupied_nth by blast
    have "length (occupied vacant_slot (slots_of b)) < length (slots_of b)" using d(1,9) m2 by simp
    then obtain i where i: "first_vacant vacant_slot (slots_of b) (row_key_hash rowId (re_key e)) = Some i"
      by (rule first_vacant_exists)
    have "bd_keyBuckets b ! i = fst (slots_of b ! i)"
      using first_vacant_SomeD(1) [OF i] d(1,2,3) by (simp add: slots_of_def)
    then have "rk_state (bd_keyBuckets b ! i) = kBucketEmpty" using first_vacant_SomeD(2) [OF i] by simp
    then show ?thesis
      using find row_slots.search_miss [OF new] i place_new_key [OF Cons.prems(2) j m m2 small _ i new] e(1)
      by (simp add: place_row_key_def Let_def)
  qed
  then obtain b' where b': "place_row_key rowId (2 ^ j) m e b = Some b'" "build_ok rowId j entries (Suc m) b'"
    by blast
  then show ?case using Cons.IH [OF e(2) b'(2)] by simp
qed

subsection \<open>The finished table\<close>

definition bucket_row_value :: "bytes \<Rightarrow> RowKeyBucket \<Rightarrow> bytes" where
  "bucket_row_value valueBytes b = take (unat (rk_valueSize b)) (drop (unat (rk_valueOffset b)) valueBytes)"

definition value_bucket_ok :: "bytes \<Rightarrow> RowKeyBucket \<Rightarrow> bool" where
  "value_bucket_ok valueBytes b \<longleftrightarrow> unat (rk_valueOffset b) + unat (rk_valueSize b) \<le> length valueBytes"

abbreviation vacant_key :: "RowKeyBucket \<Rightarrow> bool" where
  "vacant_key b \<equiv> rk_state b = kBucketEmpty"

definition key_hash_of :: "u64 \<Rightarrow> RowKeyBucket \<Rightarrow> u64" where
  "key_hash_of rowId b = MixHashes (rk_keyHash b) rowId"

definition row_table_ok :: "u64 \<Rightarrow> bytes \<Rightarrow> bytes \<Rightarrow> RowKeyBucket list \<Rightarrow> bool" where
  "row_table_ok rowId keyBytes valueBytes buckets \<longleftrightarrow>
     (\<exists>j \<le> 31. length buckets = 2 ^ j) \<and>
     (\<forall>b \<in> set buckets. length (rk_reserved b) = 7) \<and>
     (\<forall>b \<in> set buckets. \<not> vacant_key b \<longrightarrow> key_bucket_ok keyBytes b \<and> value_bucket_ok valueBytes b) \<and>
     chained vacant_key (key_hash_of rowId) buckets \<and>
     unique_keys vacant_key (bucket_row_key keyBytes) buckets \<and>
     length (occupied vacant_key buckets) < length buckets"

definition row_table_map :: "bytes \<Rightarrow> bytes \<Rightarrow> RowKeyBucket list \<Rightarrow> (bytes \<rightharpoonup> bytes)" where
  "row_table_map keyBytes valueBytes buckets =
     table_map vacant_key (bucket_row_key keyBytes) (bucket_row_value valueBytes) buckets"

definition values_of :: "RowStructEntry list \<Rightarrow> bytes" where
  "values_of entries = concat (map re_bytes entries)"

text \<open>The bucket a slot turns into when its value has been assigned.\<close>

definition value_slot :: "RowStructEntry list \<Rightarrow> bytes \<Rightarrow> RowKeyBucket \<times> nat \<Rightarrow> RowKeyBucket \<Rightarrow> bool" where
  "value_slot entries valueBytes s b \<longleftrightarrow>
     (if vacant_slot s then b = fst s
      else (\<exists>o1 n. b = (fst s)\<lparr>rk_valueOffset := o1, rk_valueSize := n\<rparr>) \<and>
        value_bucket_ok valueBytes b \<and> bucket_row_value valueBytes b = re_bytes (entries ! snd s))"

lemma assign_values_ok:
  assumes "assign_values entries slots off = (buckets, ves, n)"
    and "unat off + length (values_of (map (\<lambda>s. entries ! snd s) (occupied vacant_slot slots))) < 2 ^ 63"
    and "unat off = length pre"
  shows "ves = map (\<lambda>s. entries ! snd s) (occupied vacant_slot slots) \<and>
    unat n = unat off + length (values_of ves) \<and>
    list_all2 (value_slot entries (pre @ values_of ves)) slots buckets"
  using assms
proof (induction slots arbitrary: off pre buckets ves n)
  case Nil
  then show ?case by (simp add: occupied_def values_of_def)
next
  case (Cons s slots)
  obtain b0 k where s: "s = (b0, k)" by (cases s)
  show ?case
  proof (cases "rk_state b0 = kBucketEmpty")
    case True
    obtain bs vs m where rest: "assign_values entries slots off = (bs, vs, m)" by (metis prod_cases3)
    have out: "buckets = b0 # bs" "ves = vs" "n = m"
      using Cons.prems(1) True rest by (simp_all add: s)
    have "occupied vacant_slot (s # slots) = occupied vacant_slot slots" using True by (simp add: occupied_def s)
    note occ = this
    have "vs = map (\<lambda>s. entries ! snd s) (occupied vacant_slot slots) \<and> unat m = unat off + length (values_of vs) \<and>
      list_all2 (value_slot entries (pre @ values_of vs)) slots bs"
      by (rule Cons.IH [OF rest _ Cons.prems(3)]) (use Cons.prems(2) in \<open>simp only: occ\<close>)
    moreover have "value_slot entries (pre @ values_of vs) s b0" using True by (simp add: value_slot_def s)
    ultimately show ?thesis unfolding out occ list_all2_Cons by blast
  next
    case False
    define v where "v = re_bytes (entries ! k)"
    obtain bs vs m where rest: "assign_values entries slots (off + of_nat (length v)) = (bs, vs, m)" by (metis prod_cases3)
    define b where "b = b0\<lparr>rk_valueOffset := off, rk_valueSize := of_nat (length v)\<rparr>"
    have out: "buckets = b # bs" "ves = (entries ! k) # vs" "n = m"
      using Cons.prems(1) False rest by (auto simp: s v_def b_def Let_def)
    have occ: "occupied vacant_slot (s # slots) = s # occupied vacant_slot slots" using False by (simp add: occupied_def s)
    have room: "unat off + length v + length (values_of (map (\<lambda>s. entries ! snd s) (occupied vacant_slot slots))) < 2 ^ 63"
      using Cons.prems(2) unfolding occ by (simp add: s values_of_def v_def)
    have off: "unat (off + of_nat (length v)) = length (pre @ v)"
      using room Cons.prems(3) unat_add_of_nat64 [of off "length v"] by simp
    have IH: "vs = map (\<lambda>s. entries ! snd s) (occupied vacant_slot slots) \<and>
      unat m = unat (off + of_nat (length v)) + length (values_of vs) \<and>
      list_all2 (value_slot entries ((pre @ v) @ values_of vs)) slots bs"
      by (rule Cons.IH [OF rest _ off]) (use room off Cons.prems(3) in simp)
    have full: "(pre @ v) @ values_of vs = pre @ values_of ves" by (simp add: out values_of_def v_def)
    have tail: "vs = map (\<lambda>s. entries ! snd s) (occupied vacant_slot slots)"
      "unat m = unat (off + of_nat (length v)) + length (values_of vs)"
      "list_all2 (value_slot entries (pre @ values_of ves)) slots bs"
      using IH unfolding full by blast+
    have vlen: "unat (of_nat (length v) :: u64) = length v" using room by (intro unat_of_nat64) simp
    have "value_bucket_ok (pre @ values_of ves) b" "bucket_row_value (pre @ values_of ves) b = v"
      unfolding full [symmetric]
      by (simp_all add: value_bucket_ok_def bucket_row_value_def b_def vlen Cons.prems(3))
    moreover have "b = b0\<lparr>rk_valueOffset := off, rk_valueSize := rk_valueSize b\<rparr>" by (simp add: b_def)
    ultimately have "value_slot entries (pre @ values_of ves) s b"
      using False unfolding value_slot_def s v_def by auto
    moreover have "unat n = unat off + length (values_of ves)"
      using tail(2) off Cons.prems(3) by (simp add: out values_of_def v_def)
    moreover have "ves = map (\<lambda>s. entries ! snd s) (occupied vacant_slot (s # slots))"
      unfolding occ by (simp add: out(2) s tail(1))
    ultimately show ?thesis using tail(3) unfolding out(1) list_all2_Cons by blast
  qed
qed

end
