(* ===== verification/Row_Layout.thy ===== *)
theory Row_Layout
  imports Row_Block
begin

text \<open>
  What a row block means.  \<open>layout_ok\<close> is the invariant of a block: its key table is a probe
  table of unique keys, and the sizes in its header are the sizes of its parts.  The layout that
  \<open>BuildRowBlockLayout\<close> returns keeps it and stands for the map of the entries, last entry of a
  key first.
\<close>

definition layout_values :: "RowBlockLayout \<Rightarrow> bytes" where
  "layout_values L = values_of (rl_valueEntries L)"

definition layout_map :: "RowBlockLayout \<Rightarrow> (bytes \<rightharpoonup> bytes)" where
  "layout_map L = row_table_map (rl_keyBytes L) (layout_values L) (rl_keyBuckets L)"

definition layout_size :: "bytes \<Rightarrow> RowBlockLayout \<Rightarrow> nat" where
  "layout_size column L =
     72 + 48 * length (rl_keyBuckets L) + length column + length (rl_keyBytes L) + length (layout_values L)"

definition layout_ok :: "bytes \<Rightarrow> u64 \<Rightarrow> RowBlockLayout \<Rightarrow> bool" where
  "layout_ok column rowId L \<longleftrightarrow>
     (let h = rl_header L in
      row_table_ok rowId (rl_keyBytes L) (layout_values L) (rl_keyBuckets L) \<and>
      rb_magic h = kRowBlockMagic \<and> rb_version h = of_nat kStorageVersion \<and> rb_headerSize h = 72 \<and>
      rb_rowId h = rowId \<and> rb_columnHash h = HashString column \<and>
      unat (rb_columnSize h) = length column \<and> unat (rb_bucketCount h) = length (rl_keyBuckets L) \<and>
      unat (rb_itemCount h) = length (occupied vacant_key (rl_keyBuckets L)) \<and>
      unat (rb_keyBytesSize h) = length (rl_keyBytes L) \<and>
      unat (rb_valueBytesSize h) = length (layout_values L) \<and>
      unat (rb_blockSize h) = layout_size column L \<and> layout_size column L < 2 ^ 63)"

definition block_bytes :: "bytes \<Rightarrow> RowBlockLayout \<Rightarrow> bytes" where
  "block_bytes column L = concat (block_slices column L)"

lemma block_bytes_parts:
  "block_bytes column L = encode_RowBlockHeader (rl_header L) @ concat (map encode_RowKeyBucket (rl_keyBuckets L)) @
     column @ rl_keyBytes L @ layout_values L"
  by (simp add: block_bytes_def block_slices_def layout_values_def values_of_def)

text \<open>The entries of one row that a block can hold under a given load factor.\<close>

definition row_fits :: "rat \<Rightarrow> bytes \<Rightarrow> RowStructEntry list \<Rightarrow> bool" where
  "row_fits f column entries \<longleftrightarrow>
     0 < f \<and> f < 1 \<and> of_nat (length entries) \<le> f * (2 ^ 31 - 1) \<and> length column < 2 ^ 32 \<and>
     length column + key_bytes_total entries + length (values_of entries) < 2 ^ 61"

subsection \<open>The values a table selects\<close>

lemma selected_distinct:
  assumes ok: "build_ok rowId j entries m b"
  shows "distinct (map snd (occupied vacant_slot (slots_of b)))"
proof -
  note d = build_okD [OF ok]
  have "map (slot_key (bd_keyBytes b)) (occupied vacant_slot (slots_of b)) =
      map ((\<lambda>i. re_key (entries ! i)) \<circ> snd) (occupied vacant_slot (slots_of b))"
    by (rule map_cong [OF refl]) (use d(13) in \<open>simp add: set_occupied\<close>)
  with d(8) [unfolded unique_keys_def]
  have "distinct (map (\<lambda>i. re_key (entries ! i)) (map snd (occupied vacant_slot (slots_of b))))"
    by (simp only: map_map)
  then show ?thesis by (rule conjunct1 [OF iffD1 [OF distinct_map]])
qed

lemma selected_total:
  assumes ok: "build_ok rowId j entries m b"
  shows "length (values_of (map (\<lambda>s. entries ! snd s) (occupied vacant_slot (slots_of b)))) \<le> length (values_of entries)"
proof -
  let ?occ = "occupied vacant_slot (slots_of b)" and ?f = "\<lambda>i. length (re_bytes (entries ! i))"
  have len: "length (values_of es) = sum_list (map (\<lambda>e. length (re_bytes e)) es)" for es
    by (simp add: values_of_def length_concat comp_def)
  have "length (values_of (map (\<lambda>s. entries ! snd s) ?occ)) = sum_list (map ?f (map snd ?occ))"
    by (simp add: len comp_def)
  also have "\<dots> = sum ?f (set (map snd ?occ))"
    by (rule sum_list_distinct_conv_sum_set [OF selected_distinct [OF ok]])
  also have "\<dots> \<le> sum ?f {..<length entries}"
    by (rule sum_mono2) (use build_okD(6) [OF ok] in \<open>auto simp: set_occupied\<close>)
  also have "\<dots> = length (values_of entries)"
    by (simp add: len sum_list_sum_nth atLeast0LessThan)
  finally show ?thesis .
qed

subsection \<open>From slots to buckets\<close>

lemma table_of_slots:
  assumes ok: "build_ok rowId j entries m b" and j: "j \<le> 31" and room: "m < 2 ^ j"
    and rel: "list_all2 (value_slot entries vb) (slots_of b) buckets"
  shows "row_table_ok rowId (bd_keyBytes b) vb buckets \<and>
    row_table_map (bd_keyBytes b) vb buckets = row_map (take m entries) \<and>
    length buckets = 2 ^ j \<and> length (occupied vacant_key buckets) = length (occupied vacant_slot (slots_of b))"
proof -
  note d = build_okD [OF ok]
  have same: "same_slots vacant_slot (slot_hash rowId) (slot_key (bd_keyBytes b)) (\<lambda>s. re_bytes (entries ! snd s)) (slots_of b)
      vacant_key (key_hash_of rowId) (bucket_row_key (bd_keyBytes b)) (bucket_row_value vb) buckets"
    unfolding same_slots_def using rel
    by (rule list_all2_mono)
      (auto simp: value_slot_def slot_hash_def key_hash_of_def slot_key_def bucket_row_key_def split: if_splits)
  note tr = same_slots_transfer [OF same]
  have len: "length buckets = 2 ^ j" using tr(1) d(1) by simp
  have each: "length (rk_reserved c) = 7 \<and> (\<not> vacant_key c \<longrightarrow> key_bucket_ok (bd_keyBytes b) c \<and> value_bucket_ok vb c)"
    if c: "c \<in> set buckets" for c
  proof -
    obtain i where i: "i < length buckets" "buckets ! i = c" using c by (auto simp: in_set_conv_nth)
    have s: "slots_of b ! i \<in> set (slots_of b)" using i(1) tr(1) by simp
    have v: "value_slot entries vb (slots_of b ! i) c" using list_all2_nthD2 [OF rel i(1)] i(2) by simp
    show ?thesis
      using v d(4,5) [OF s]
      by (auto simp: value_slot_def key_bucket_ok_def bucket_row_key_def split: if_splits)
  qed
  have "length (occupied vacant_key buckets) < length buckets"
    using tr(2) d(9) room len by simp
  then have "row_table_ok rowId (bd_keyBytes b) vb buckets"
    unfolding row_table_ok_def using len j each tr(3) d(8) tr(5) [OF d(7)] by blast
  moreover have "row_table_map (bd_keyBytes b) vb buckets = row_map (take m entries)"
    using tr(4) d(12) by (simp add: row_table_map_def)
  ultimately show ?thesis using len tr(2) by simp
qed

subsection \<open>The size of the table\<close>

lemma row_bucket_count:
  assumes f: "0 < f" "f < 1" and n: "rat_of_nat n \<le> f * (2 ^ 31 - 1)"
  obtains q j where "u64_of_double (ddiv (double_of_u64 (of_nat n)) (Fin f)) = Some q"
    "RoundUpPowerOfTwo (q + 1) = Some (2 ^ j)" "j \<le> 31" "n < 2 ^ j"
proof -
  define x where "x = rat_of_nat n / f"
  have le: "x \<le> rat_of_nat (2 ^ 31 - 1)" using n f(1) by (simp add: x_def pos_divide_le_eq mult.commute)
  have ge: "rat_of_nat n \<le> x"
    using f by (simp add: x_def pos_le_divide_eq mult_left_le)
  have "rat_of_nat n \<le> of_nat (2 ^ 31 - 1)" using ge le by linarith
  then have n31: "n \<le> 2 ^ 31 - 1" by (simp only: of_nat_le_iff)
  have "fl (rat_of_nat n) = of_nat n" using n31 by (intro fl_of_nat) simp
  then have dbl: "ddiv (double_of_u64 (of_nat n)) (Fin f) = Fin (fl x)"
    using n31 f(1) by (simp add: double_of_u64_def unat_of_nat64 x_def)
  have bounds: "rat_of_nat n \<le> fl x" "fl x \<le> rat_of_nat (2 ^ 31 - 1)"
  proof -
    have "rat_of_nat n \<le> fl x \<and> fl x \<le> rat_of_nat (2 ^ 31 - 1)"
    proof (cases "n = 0")
      case True
      then show ?thesis by (simp add: x_def fl_def round53_def)
    next
      case False
      then have "1 \<le> x" using ge by (metis Suc_leI neq0_conv of_nat_1 of_nat_le_iff One_nat_def order_trans)
      then show ?thesis
        using fl_ge_nat [OF ge] fl_le_nat [OF _ le] n31 False by simp
    qed
    then show "rat_of_nat n \<le> fl x" "fl x \<le> rat_of_nat (2 ^ 31 - 1)" by blast+
  qed
  define q where "q = nat \<lfloor>fl x\<rfloor>"
  have "int n \<le> \<lfloor>fl x\<rfloor>" using bounds(1) by (simp add: le_floor_iff)
  then have q: "n \<le> q" "q \<le> 2 ^ 31 - 1"
    using bounds(2) unfolding q_def by (simp_all add: nat_le_iff floor_le_iff)
  have "0 \<le> fl x" using bounds(1) of_nat_0_le_iff order_trans by blast
  moreover have "fl x < 2 ^ 64" using bounds(2) by simp
  ultimately have cast: "u64_of_double (ddiv (double_of_u64 (of_nat n)) (Fin f)) = Some (of_nat q)"
    unfolding dbl by (simp add: q_def)
  have v: "unat (of_nat q + 1 :: u64) = q + 1"
    using q(2) by (simp add: unat_add64 unat_of_nat64)
  have "unat (of_nat q + 1 :: u64) \<le> 2 ^ 63" using v q(2) by simp
  then obtain j where j: "RoundUpPowerOfTwo (of_nat q + 1) = Some (2 ^ j)"
    "unat (of_nat q + 1 :: u64) \<le> 2 ^ j" "j = 4 \<or> 2 ^ (j - 1) < unat (of_nat q + 1 :: u64)"
    by (rule RoundUpPowerOfTwo_cases)
  have "j \<le> 31"
  proof (rule ccontr)
    assume "\<not> j \<le> 31"
    then have "(2 :: nat) ^ 31 \<le> 2 ^ (j - 1)" by (intro power_increasing) simp_all
    then show False using j(3) v q(2) \<open>\<not> j \<le> 31\<close> by auto
  qed
  moreover have "n < 2 ^ j" using j(2) v q(1) by simp
  ultimately show ?thesis using that cast j(1) by blast
qed

lemma block_size_word:
  assumes j: "j \<le> 31" and small: "c + k + unat v < 2 ^ 62"
  shows "unat (72 + 2 ^ j * 48 + of_nat c + of_nat k + v :: u64) = 72 + 48 * 2 ^ j + c + k + unat v \<and>
    72 + 48 * 2 ^ j + c + k + unat v < (2 :: nat) ^ 63"
proof -
  have "(2 :: nat) ^ j \<le> 2 ^ 31" using j by (intro power_increasing) simp_all
  then have le: "72 + 48 * 2 ^ j + c + k + unat v < (2 :: nat) ^ 63" using small by simp
  have "72 + 2 ^ j * 48 + of_nat c + of_nat k + v = (of_nat (72 + 48 * 2 ^ j + c + k + unat v) :: u64)"
    by simp
  moreover have "unat (of_nat (72 + 48 * 2 ^ j + c + k + unat v) :: u64) = 72 + 48 * 2 ^ j + c + k + unat v"
    by (rule unat_of_nat64) (use le in simp)
  ultimately show ?thesis using le by (simp only:)
qed

lemma BuildRowBlockLayout_sized:
  assumes f: "maxLoadFactor (options db) = Fin f" and fits: "row_fits f column entries"
  obtains L where "BuildRowBlockLayout db column rowId entries sequence (HashString column) = Some (Inr L)"
    "layout_ok column rowId L" "layout_map L = row_map entries" "rb_sequence (rl_header L) = sequence"
    "layout_size column L \<le> 72 + 48 * 2 ^ 31 + length column + key_bytes_total entries + length (values_of entries)"
proof -
  have f01: "0 < f" "f < 1" and n: "rat_of_nat (length entries) \<le> f * (2 ^ 31 - 1)"
    and small: "length column < 2 ^ 32" "length column + key_bytes_total entries + length (values_of entries) < 2 ^ 61"
    using fits by (simp_all add: row_fits_def)
  obtain q j where q: "u64_of_double (ddiv (double_of_u64 (of_nat (length entries))) (Fin f)) = Some q"
    "RoundUpPowerOfTwo (q + 1) = Some (2 ^ j)" "j \<le> 31" "length entries < 2 ^ j"
    by (rule row_bucket_count [OF f01 n])
  have pow: "(2 :: nat) ^ j \<le> 2 ^ 31" using q(3) by (intro power_increasing) simp_all
  have few: "\<not> 4294967295 < length entries" using q(4) pow by simp
  have cnt: "unat ((2 :: u64) ^ j) = 2 ^ j" using q(3) by simp
  have "\<not> (4294967295 :: u64) < 2 ^ j" unfolding word_less_nat_alt cnt using pow by simp
  define b0 where "b0 = \<lparr>bd_keyBuckets = replicate (2 ^ j) RowKeyBucket_default, bd_keyBytes = [],
     bd_selectedEntries = replicate (2 ^ j) (length entries), bd_itemCount = 0 :: u32\<rparr>"
  have keys: "key_bytes_total entries < 2 ^ 63" using small by simp
  have "entries = drop 0 entries" by simp
  from place_row_keys_ok [OF q(3,4) keys this build_ok_start [of rowId j entries "length entries"]]
  obtain b where b: "place_row_keys rowId (2 ^ j) 0 entries b0 = Some b" "build_ok rowId j entries (length entries) b"
    by (auto simp: b0_def)
  note d = build_okD [OF b(2)]
  obtain buckets ves w where av: "assign_values entries (slots_of b) 0 = (buckets, ves, w)" by (metis prod_cases3)
  note total = selected_total [OF b(2)]
  have vals: "ves = map (\<lambda>s. entries ! snd s) (occupied vacant_slot (slots_of b))"
    "unat w = length (values_of ves)" "list_all2 (value_slot entries (values_of ves)) (slots_of b) buckets"
    using assign_values_ok [OF av, of "[]"] total small by auto
  have tab: "row_table_ok rowId (bd_keyBytes b) (values_of ves) buckets"
    "row_table_map (bd_keyBytes b) (values_of ves) buckets = row_map entries"
    "length buckets = 2 ^ j" "length (occupied vacant_key buckets) = length (occupied vacant_slot (slots_of b))"
    using table_of_slots [OF b(2) q(3,4) vals(3)] by simp_all
  define L where "L = \<lparr>rl_header = RowBlockHeader_default
                             \<lparr>rb_sequence := sequence, rb_columnHash := HashString column, rb_rowId := rowId,
                              rb_columnSize := of_nat (length column), rb_itemCount := bd_itemCount b,
                              rb_bucketCount := ucast ((2 :: u64) ^ j),
                              rb_keyBytesSize := of_nat (length (bd_keyBytes b)),
                              rb_valueBytesSize := w,
                              rb_blockSize := 72 + 2 ^ j * 48 + of_nat (length column) +
                                of_nat (length (bd_keyBytes b)) + w\<rparr>,
     rl_keyBuckets = buckets, rl_keyBytes = bd_keyBytes b, rl_valueEntries = ves\<rparr>"
  have "BuildRowBlockLayout db column rowId entries sequence (HashString column) = Some (Inr L)"
    using few q(1,2) \<open>\<not> 4294967295 < 2 ^ j\<close> b(1) av
    by (simp add: BuildRowBlockLayout_def f cnt b0_def slots_of_def L_def)
  moreover have "layout_ok column rowId L"
  proof -
    have kb: "length (bd_keyBytes b) \<le> key_bytes_total entries" using d(11) by simp
    have sum: "length column + length (bd_keyBytes b) + unat w < 2 ^ 62"
      using kb total vals(1,2) small(2) by simp
    have "unat (ucast ((2 :: u64) ^ j) :: u32) = 2 ^ j"
      using pow by (simp add: unsigned_ucast_eq cnt take_bit_eq_mod)
    moreover have "unat (of_nat (length column) :: u32) = length column"
      using small(1) by (simp add: unat_of_nat take_bit_eq_mod)
    moreover have "unat (of_nat (length (bd_keyBytes b)) :: u64) = length (bd_keyBytes b)"
      using sum by (intro unat_of_nat64) simp
    ultimately show ?thesis
      using tab d(10) vals(2) block_size_word [OF q(3) sum]
      by (simp add: layout_ok_def L_def layout_size_def layout_values_def RowBlockHeader_default_def)
  qed
  moreover have "layout_map L = row_map entries"
    using tab(2) by (simp add: layout_map_def L_def layout_values_def)
  moreover have "rb_sequence (rl_header L) = sequence" by (simp add: L_def)
  moreover have "layout_size column L \<le> 72 + 48 * 2 ^ 31 + length column + key_bytes_total entries + length (values_of entries)"
    using d(11) total vals(1) tab(3) pow by (simp add: layout_size_def L_def layout_values_def)
  ultimately show ?thesis by (rule that)
qed

lemma BuildRowBlockLayout_ok:
  assumes f: "maxLoadFactor (options db) = Fin f" and fits: "row_fits f column entries"
  obtains L where "BuildRowBlockLayout db column rowId entries sequence (HashString column) = Some (Inr L)"
    "layout_ok column rowId L" "layout_map L = row_map entries" "rb_sequence (rl_header L) = sequence"
    "layout_size column L < 2 ^ 62"
proof -
  obtain L where L: "BuildRowBlockLayout db column rowId entries sequence (HashString column) = Some (Inr L)"
    "layout_ok column rowId L" "layout_map L = row_map entries" "rb_sequence (rl_header L) = sequence"
    "layout_size column L \<le> 72 + 48 * 2 ^ 31 + length column + key_bytes_total entries + length (values_of entries)"
    by (rule BuildRowBlockLayout_sized [OF f fits])
  then have "layout_size column L < 2 ^ 62" using fits by (simp add: row_fits_def)
  with L(1-4) show ?thesis by (rule that)
qed

subsection \<open>The parts of a block\<close>

lemma row_table_okD:
  assumes "row_table_ok rowId kb vb bs"
  obtains j where "j \<le> 31" "length bs = 2 ^ j"
    "\<And>b. b \<in> set bs \<Longrightarrow> length (rk_reserved b) = 7"
    "\<And>b. b \<in> set bs \<Longrightarrow> \<not> vacant_key b \<Longrightarrow> key_bucket_ok kb b \<and> value_bucket_ok vb b"
    "chained vacant_key (key_hash_of rowId) bs" "unique_keys vacant_key (bucket_row_key kb) bs"
    "length (occupied vacant_key bs) < length bs"
  using assms unfolding row_table_ok_def by blast

lemma layout_okD:
  assumes "layout_ok column rowId L"
  shows "row_table_ok rowId (rl_keyBytes L) (layout_values L) (rl_keyBuckets L)"
    "rb_magic (rl_header L) = kRowBlockMagic" "rb_version (rl_header L) = of_nat kStorageVersion"
    "rb_headerSize (rl_header L) = 72" "rb_rowId (rl_header L) = rowId"
    "rb_columnHash (rl_header L) = HashString column" "unat (rb_columnSize (rl_header L)) = length column"
    "unat (rb_bucketCount (rl_header L)) = length (rl_keyBuckets L)"
    "unat (rb_itemCount (rl_header L)) = length (occupied vacant_key (rl_keyBuckets L))"
    "unat (rb_keyBytesSize (rl_header L)) = length (rl_keyBytes L)"
    "unat (rb_valueBytesSize (rl_header L)) = length (layout_values L)"
    "unat (rb_blockSize (rl_header L)) = layout_size column L" "layout_size column L < 2 ^ 63"
  using assms by (simp_all add: layout_ok_def Let_def)

lemma layout_reserved:
  assumes "layout_ok column rowId L" and "b \<in> set (rl_keyBuckets L)"
  shows "length (rk_reserved b) = 7"
  using layout_okD(1) [OF assms(1)] assms(2) unfolding row_table_ok_def by blast

lemma length_buckets_bytes:
  assumes "layout_ok column rowId L"
  shows "length (concat (map encode_RowKeyBucket (rl_keyBuckets L))) = 48 * length (rl_keyBuckets L)"
  by (rule length_concat_uniform) (simp add: layout_reserved [OF assms])

lemma length_block_bytes:
  assumes "layout_ok column rowId L"
  shows "length (block_bytes column L) = layout_size column L"
  using length_buckets_bytes [OF assms] by (simp add: block_bytes_parts layout_size_def)

text \<open>Where each part of a block lies.\<close>

lemma block_parts:
  assumes ok: "layout_ok column rowId L"
  shows "take 72 (block_bytes column L) = encode_RowBlockHeader (rl_header L)"
    and "i < length (rl_keyBuckets L) \<Longrightarrow>
      take 48 (drop (72 + 48 * i) (block_bytes column L)) = encode_RowKeyBucket (rl_keyBuckets L ! i)"
    and "take (length column) (drop (72 + 48 * length (rl_keyBuckets L)) (block_bytes column L)) = column"
    and "p + n \<le> length (rl_keyBytes L) \<Longrightarrow>
      take n (drop (72 + 48 * length (rl_keyBuckets L) + length column + p) (block_bytes column L)) =
        take n (drop p (rl_keyBytes L))"
    and "p + n \<le> length (layout_values L) \<Longrightarrow>
      take n (drop (72 + 48 * length (rl_keyBuckets L) + length column + length (rl_keyBytes L) + p)
        (block_bytes column L)) = take n (drop p (layout_values L))"
proof -
  note len = length_buckets_bytes [OF ok]
  show "take 72 (block_bytes column L) = encode_RowBlockHeader (rl_header L)" by (simp add: block_bytes_parts)
  show "take 48 (drop (72 + 48 * i) (block_bytes column L)) = encode_RowKeyBucket (rl_keyBuckets L ! i)"
    if i: "i < length (rl_keyBuckets L)"
  proof -
    have "drop (48 * i) (concat (map encode_RowKeyBucket (rl_keyBuckets L))) =
        encode_RowKeyBucket (rl_keyBuckets L ! i) @ concat (map encode_RowKeyBucket (drop (Suc i) (rl_keyBuckets L)))"
      by (rule drop_concat_uniform) (simp_all add: layout_reserved [OF ok] i)
    moreover have "length (encode_RowKeyBucket (rl_keyBuckets L ! i)) = 48"
      by (rule length_encode_RowKeyBucket) (simp add: layout_reserved [OF ok] i)
    moreover have "48 * i - length (concat (map encode_RowKeyBucket (rl_keyBuckets L))) = 0"
      using i len by simp
    ultimately show ?thesis by (simp add: block_bytes_parts)
  qed
  show "take (length column) (drop (72 + 48 * length (rl_keyBuckets L)) (block_bytes column L)) = column"
    using len by (simp add: block_bytes_parts)
  show "take n (drop (72 + 48 * length (rl_keyBuckets L) + length column + p) (block_bytes column L)) =
        take n (drop p (rl_keyBytes L))" if "p + n \<le> length (rl_keyBytes L)"
    using len that by (simp add: block_bytes_parts)
  show "take n (drop (72 + 48 * length (rl_keyBuckets L) + length column + length (rl_keyBytes L) + p)
        (block_bytes column L)) = take n (drop p (layout_values L))" if "p + n \<le> length (layout_values L)"
    using len that by (simp add: block_bytes_parts)
qed

lemma and_pow2_pred: "(2 :: u32) ^ j AND (2 ^ j - 1) = 0"
proof -
  have "(2 :: u32) ^ j AND (2 ^ j - 1) = take_bit j (2 ^ j)"
    by (simp add: take_bit_eq_mask mask_eq_exp_minus_1)
  also have "\<dots> = 0" by (rule bit_eqI) (auto simp: bit_take_bit_iff bit_exp_iff)
  finally show ?thesis .
qed

lemma bucket_count_word:
  assumes ok: "layout_ok column rowId L" and j: "j \<le> 31" "length (rl_keyBuckets L) = 2 ^ j"
  shows "rb_bucketCount (rl_header L) = 2 ^ j" and "ucast (rb_bucketCount (rl_header L)) = (2 :: u64) ^ j"
    and "ucast (rb_bucketCount (rl_header L) - 1) = (2 :: u64) ^ j - 1"
proof -
  have pow: "(2 :: nat) ^ j < 2 ^ 32" using j(1) by (intro power_strict_increasing) simp_all
  have u: "unat (rb_bucketCount (rl_header L)) = 2 ^ j" using layout_okD(8) [OF ok] j(2) by simp
  have "unat ((2 :: u32) ^ j) = 2 ^ j"
    using unat_of_nat [where 'a = 32, of "2 ^ j"] pow by (simp add: take_bit_eq_mod)
  then show r: "rb_bucketCount (rl_header L) = 2 ^ j" by (metis u word_unat_eq_iff)
  have two: "unat ((2 :: u64) ^ j) = 2 ^ j" using j(1) by simp
  then show "ucast (rb_bucketCount (rl_header L)) = (2 :: u64) ^ j"
    unfolding word_unat_eq_iff unat_ucast32 u ..
  have "unat (rb_bucketCount (rl_header L) - 1) = 2 ^ j - 1"
    using unat_sub [of 1 "rb_bucketCount (rl_header L)"] u by (simp add: word_le_nat_alt)
  moreover have "unat ((2 :: u64) ^ j - 1) = 2 ^ j - 1" using unat_sub64 [of 1 "2 ^ j"] two by simp
  ultimately show "ucast (rb_bucketCount (rl_header L) - 1) = (2 :: u64) ^ j - 1"
    unfolding word_unat_eq_iff unat_ucast32 by simp
qed

text \<open>The offsets the readers compute from a header.\<close>

lemma layout_offsets:
  assumes ok: "layout_ok column rowId L"
  shows "unat (72 + ucast (rb_bucketCount (rl_header L)) * 48 :: u64) = 72 + 48 * length (rl_keyBuckets L)"
    and "unat (72 + ucast (rb_bucketCount (rl_header L)) * 48 + ucast (rb_columnSize (rl_header L)) :: u64) =
      72 + 48 * length (rl_keyBuckets L) + length column"
    and "unat (72 + ucast (rb_bucketCount (rl_header L)) * 48 + ucast (rb_columnSize (rl_header L)) +
      rb_keyBytesSize (rl_header L)) = 72 + 48 * length (rl_keyBuckets L) + length column + length (rl_keyBytes L)"
    and "72 + ucast (rb_bucketCount (rl_header L)) * 48 + ucast (rb_columnSize (rl_header L)) +
      rb_keyBytesSize (rl_header L) + rb_valueBytesSize (rl_header L) = rb_blockSize (rl_header L)"
proof -
  note d = layout_okD [OF ok]
  have size: "72 + 48 * length (rl_keyBuckets L) + length column + length (rl_keyBytes L) + length (layout_values L) < 2 ^ 63"
    using d(13) by (simp add: layout_size_def)
  have m: "unat (ucast (rb_bucketCount (rl_header L)) * 48 :: u64) = 48 * length (rl_keyBuckets L)"
    using unat_mult64 [of "ucast (rb_bucketCount (rl_header L))" 48] d(8) size by simp
  show a: "unat (72 + ucast (rb_bucketCount (rl_header L)) * 48 :: u64) = 72 + 48 * length (rl_keyBuckets L)"
    using unat_add64 [of 72 "ucast (rb_bucketCount (rl_header L)) * 48"] m size by simp
  show b: "unat (72 + ucast (rb_bucketCount (rl_header L)) * 48 + ucast (rb_columnSize (rl_header L)) :: u64) =
      72 + 48 * length (rl_keyBuckets L) + length column"
    using unat_add64 [OF _, of "72 + ucast (rb_bucketCount (rl_header L)) * 48" "ucast (rb_columnSize (rl_header L))"]
      a d(7) size by simp
  show c: "unat (72 + ucast (rb_bucketCount (rl_header L)) * 48 + ucast (rb_columnSize (rl_header L)) +
      rb_keyBytesSize (rl_header L)) = 72 + 48 * length (rl_keyBuckets L) + length column + length (rl_keyBytes L)"
    using unat_add64 [OF _, of "72 + ucast (rb_bucketCount (rl_header L)) * 48 + ucast (rb_columnSize (rl_header L))"
        "rb_keyBytesSize (rl_header L)"] b d(10) size by simp
  show "72 + ucast (rb_bucketCount (rl_header L)) * 48 + ucast (rb_columnSize (rl_header L)) +
      rb_keyBytesSize (rl_header L) + rb_valueBytesSize (rl_header L) = rb_blockSize (rl_header L)"
    unfolding word_unat_eq_iff
    using unat_add64 [OF _, of "72 + ucast (rb_bucketCount (rl_header L)) * 48 + ucast (rb_columnSize (rl_header L)) +
        rb_keyBytesSize (rl_header L)" "rb_valueBytesSize (rl_header L)"] c d(11,12) size
    by (simp add: layout_size_def)
qed

lemma layout_header_valid:
  assumes ok: "layout_ok column rowId L"
  shows "IsValidRowBlockHeader (rl_header L)"
proof -
  note d = layout_okD [OF ok]
  obtain j where j: "j \<le> 31" "length (rl_keyBuckets L) = 2 ^ j" using d(1) by (rule row_table_okD)
  have "unat (rb_bucketCount (rl_header L)) \<noteq> 0" using d(8) j(2) by simp
  then have "rb_bucketCount (rl_header L) \<noteq> 0" by (metis unat_0)
  then show ?thesis
    using d(2,3,4) bucket_count_word(1) [OF ok j] and_pow2_pred [of j] layout_offsets(4) [OF ok]
    by (simp add: IsValidRowBlockHeader_def Let_def)
qed

subsection \<open>Reading a block from its shard\<close>

text \<open>The bytes a read of a shard sees: its mapping, or the file behind its descriptor.\<close>

definition row_bytes :: "Impl \<Rightarrow> nat \<Rightarrow> bytes" where
  "row_bytes db s =
     (if s < length (rowValueMaps db) \<and> IsMapped (rowValueMaps db ! s)
      then the (mapped_data (rowValueMaps db ! s))
      else file_content (filesys db) (the (rowValueFiles db ! s)))"

definition row_readable :: "Impl \<Rightarrow> bool" where
  "row_readable db \<longleftrightarrow>
     (\<forall>s < length (rowValueFiles db).
        length (row_bytes db s) < 2 ^ 63 \<and>
        (if s < length (rowValueMaps db) \<and> IsMapped (rowValueMaps db ! s)
         then unat (mapped_size (rowValueMaps db ! s)) = length (row_bytes db s)
         else rowValueFiles db ! s \<noteq> None))"

definition block_at :: "bytes \<Rightarrow> nat \<Rightarrow> bytes \<Rightarrow> RowBlockLayout \<Rightarrow> bool" where
  "block_at content off column L \<longleftrightarrow>
     off + layout_size column L \<le> length content \<and>
     take (layout_size column L) (drop off content) = block_bytes column L"

lemma ReadRowValueAt_ok:
  assumes os: "reads_ok os" and readable: "row_readable db" and s: "unat shardId < length (rowValueFiles db)"
    and off: "unat off = p" "p + n \<le> length (row_bytes db (unat shardId))"
  shows "ReadRowValueAt os db shardId n off = Inr (take n (drop p (row_bytes db (unat shardId))))"
proof -
  let ?s = "unat shardId"
  have len: "length (row_bytes db ?s) < 2 ^ 63"
    and src: "if ?s < length (rowValueMaps db) \<and> IsMapped (rowValueMaps db ! ?s)
         then unat (mapped_size (rowValueMaps db ! ?s)) = length (row_bytes db ?s)
         else rowValueFiles db ! ?s \<noteq> None"
    using readable s unfolding row_readable_def by blast+
  show ?thesis
  proof (cases "?s < length (rowValueMaps db) \<and> IsMapped (rowValueMaps db ! ?s)")
    case True
    then have n: "unat (mapped_size (rowValueMaps db ! ?s)) = length (row_bytes db ?s)" using src by simp
    then have "\<not> mapped_size (rowValueMaps db ! ?s) < off" "unat (mapped_size (rowValueMaps db ! ?s) - off) = length (row_bytes db ?s) - p"
      using off unat_sub64 [of off "mapped_size (rowValueMaps db ! ?s)"] by (simp_all add: word_less_nat_alt not_less)
    moreover have "\<not> length (row_bytes db ?s) - p < n" using off(2) by linarith
    ultimately show ?thesis
      using True s off(1) by (simp add: ReadRowValueAt_def Let_def row_bytes_def)
  next
    case False
    then obtain path where path: "rowValueFiles db ! ?s = Some path" using src by auto
    have c: "row_bytes db ?s = file_content (filesys db) path" using False path by (auto simp: row_bytes_def)
    have "ReadRowValueAt os db shardId n off = ReadAllAt os (filesys db) (Some path) n off"
      using False s path by (auto simp: ReadRowValueAt_def Let_def)
    also have "\<dots> = read_result (row_bytes db ?s) n off"
      unfolding c by (rule ReadAllAt_ok [OF os]) (use len c in simp)
    also have "\<dots> = Inr (take n (drop p (row_bytes db ?s)))"
      using off len by (simp add: read_result_def off_negative_def)
    finally show ?thesis .
  qed
qed

lemma take_in_block:
  assumes "block_at content off column L" and "p + n \<le> layout_size column L"
  shows "take n (drop (off + p) content) = take n (drop p (block_bytes column L))"
proof -
  have "take n (drop p (take (layout_size column L) (drop off content))) = take n (drop p (drop off content))"
    using assms(2) by (simp add: drop_take)
  moreover have "take (layout_size column L) (drop off content) = block_bytes column L"
    using assms(1) by (simp add: block_at_def)
  ultimately show ?thesis by (simp add: add.commute)
qed

lemma read_in_block:
  assumes os: "reads_ok os" and readable: "row_readable db" and s: "unat shardId < length (rowValueFiles db)"
    and blk: "block_at (row_bytes db (unat shardId)) (unat off) column L"
    and p: "unat p = q" "q + n \<le> layout_size column L"
  shows "ReadRowValueAt os db shardId n (off + p) = Inr (take n (drop q (block_bytes column L)))"
proof -
  have len: "length (row_bytes db (unat shardId)) < 2 ^ 63" using readable s by (simp add: row_readable_def)
  have le: "unat off + layout_size column L \<le> length (row_bytes db (unat shardId))" using blk by (simp add: block_at_def)
  have u: "unat (off + p) = unat off + q" using unat_add64 [of off p] p le len by simp
  show ?thesis
    using ReadRowValueAt_ok [OF os readable s u, of n] take_in_block [OF blk p(2)] le p(2) by simp
qed

subsection \<open>Probing a block\<close>

interpretation row_table: open_addressing vacant_key "key_hash_of rowId" RowKeyBucket_default for rowId
  by unfold_locales (simp add: RowKeyBucket_default_def)

lemma row_table_keyed:
  "row_table_ok rowId kb vb bs \<Longrightarrow> keyed vacant_key (key_hash_of rowId) (bucket_row_key kb) (row_key_hash rowId) bs"
  by (auto simp: row_table_ok_def keyed_def key_hash_of_def row_key_hash_def key_bucket_ok_def)

text \<open>One probe of the reading loop, with every bound check of the code passed.\<close>

lemma find_value_loop_ok:
  assumes os: "reads_ok os" and readable: "row_readable db"
    and s: "unat (rib_shardId rb) < length (rowValueFiles db)"
    and blk: "block_at (row_bytes db (unat (rib_shardId rb))) (unat (rib_blockOffset rb)) column L"
    and ok: "layout_ok column rowId L"
    and ko: "unat ko = 72 + 48 * length (rl_keyBuckets L) + length column"
    and vo: "unat vo = 72 + 48 * length (rl_keyBuckets L) + length column + length (rl_keyBytes L)"
    and probes: "set probes \<subseteq> {..<length (rl_keyBuckets L)}"
  shows "find_value_loop os db rb (rl_header L) key ko vo probes =
    (case find (\<lambda>i. vacant_key (rl_keyBuckets L ! i) \<or> bucket_row_key (rl_keyBytes L) (rl_keyBuckets L ! i) = key) probes of
       None \<Rightarrow> Inl (NotFound ''key not found in row'')
     | Some i \<Rightarrow> if vacant_key (rl_keyBuckets L ! i) then Inl (NotFound ''key not found in row'')
                 else Inr (bucket_row_value (layout_values L) (rl_keyBuckets L ! i)))"
  using probes
proof (induction probes)
  case Nil
  then show ?case by simp
next
  case (Cons i probes)
  note d = layout_okD [OF ok]
  define b where "b = rl_keyBuckets L ! i"
  have i: "i < length (rl_keyBuckets L)" using Cons.prems by simp
  have size: "layout_size column L = 72 + 48 * length (rl_keyBuckets L) + length column + length (rl_keyBytes L) + length (layout_values L)"
    by (simp add: layout_size_def)
  have mem: "b \<in> set (rl_keyBuckets L)" using i by (simp add: b_def)
  note read = read_in_block [OF os readable s blk]
  have pos: "unat (72 + of_nat i * 48 :: u64) = 72 + 48 * i"
  proof -
    have "72 + of_nat i * 48 = (of_nat (72 + 48 * i) :: u64)" by simp
    moreover have "unat (of_nat (72 + 48 * i) :: u64) = 72 + 48 * i"
      by (rule unat_of_nat64) (use i d(13) size in simp)
    ultimately show ?thesis by (simp only:)
  qed
  have "ReadRowValueAt os db (rib_shardId rb) 48 (rib_blockOffset rb + (72 + of_nat i * 48)) = Inr (encode_RowKeyBucket b)"
    using read [OF pos, of 48] i block_parts(2) [OF ok i] by (simp add: size b_def)
  then have bucket: "ReadRowValueAt os db (rib_shardId rb) 48 (rib_blockOffset rb + 72 + of_nat i * 48) = Inr (encode_RowKeyBucket b)"
    by (simp only: add.assoc)
  have dec: "decode_RowKeyBucket (encode_RowKeyBucket b) = b"
    using decode_encode_RowKeyBucket [of b "[]"] layout_reserved [OF ok mem] by simp
  have IH: "find_value_loop os db rb (rl_header L) key ko vo probes =
    (case find (\<lambda>i. vacant_key (rl_keyBuckets L ! i) \<or> bucket_row_key (rl_keyBytes L) (rl_keyBuckets L ! i) = key) probes of
       None \<Rightarrow> Inl (NotFound ''key not found in row'')
     | Some i \<Rightarrow> if vacant_key (rl_keyBuckets L ! i) then Inl (NotFound ''key not found in row'')
                 else Inr (bucket_row_value (layout_values L) (rl_keyBuckets L ! i)))"
    by (rule Cons.IH) (use Cons.prems in simp)
  show ?case
  proof (cases "vacant_key b")
    case True
    then show ?thesis by (simp add: bucket dec b_def [symmetric])
  next
    case False
    have kok: "key_bucket_ok (rl_keyBytes L) b" and vok: "value_bucket_ok (layout_values L) b"
      using d(1) mem False unfolding row_table_ok_def by blast+
    have st: "rk_state b = kBucketFilled" using kok by (simp add: key_bucket_ok_def)
    have kin: "unat (rk_keyOffset b) + unat (rk_keySize b) \<le> length (rl_keyBytes L)"
      using kok by (simp add: key_bucket_ok_def)
    have vin: "unat (rk_valueOffset b) + unat (rk_valueSize b) \<le> length (layout_values L)"
      using vok by (simp add: value_bucket_ok_def)
    show ?thesis
    proof (cases "rk_keyHash b \<noteq> HashString key \<or> unat (rk_keySize b) \<noteq> length key")
      case True
      then have "bucket_row_key (rl_keyBytes L) b \<noteq> key"
        using kok length_bucket_row_key [OF kok] by (auto simp: key_bucket_ok_def)
      then show ?thesis using True False st IH by (simp add: bucket dec b_def [symmetric])
    next
      case same: False
      have bounds: "\<not> rb_keyBytesSize (rl_header L) < rk_keyOffset b"
        "\<not> rb_keyBytesSize (rl_header L) - rk_keyOffset b < rk_keySize b"
        "\<not> rb_valueBytesSize (rl_header L) < rk_valueOffset b"
        "\<not> rb_valueBytesSize (rl_header L) - rk_valueOffset b < rk_valueSize b"
        using kin vin d(10,11) unat_sub64 [of "rk_keyOffset b" "rb_keyBytesSize (rl_header L)"]
          unat_sub64 [of "rk_valueOffset b" "rb_valueBytesSize (rl_header L)"]
        by (simp_all add: word_less_nat_alt)
      have kp: "unat (ko + rk_keyOffset b) = 72 + 48 * length (rl_keyBuckets L) + length column + unat (rk_keyOffset b)"
        using unat_add64 [of ko "rk_keyOffset b"] ko kin d(13) size by simp
      have vp: "unat (vo + rk_valueOffset b) = 72 + 48 * length (rl_keyBuckets L) + length column + length (rl_keyBytes L) + unat (rk_valueOffset b)"
        using unat_add64 [of vo "rk_valueOffset b"] vo vin d(13) size by simp
      have key: "ReadRowValueAt os db (rib_shardId rb) (length key) (rib_blockOffset rb + ko + rk_keyOffset b) =
          Inr (bucket_row_key (rl_keyBytes L) b)"
        using read [OF kp, of "length key"] block_parts(4) [OF ok, of "unat (rk_keyOffset b)" "length key"] kin same size
        by (simp add: bucket_row_key_def add.assoc)
      have val: "ReadRowValueAt os db (rib_shardId rb) (unat (rk_valueSize b)) (rib_blockOffset rb + vo + rk_valueOffset b) =
          Inr (bucket_row_value (layout_values L) b)"
        using read [OF vp, of "unat (rk_valueSize b)"]
          block_parts(5) [OF ok, of "unat (rk_valueOffset b)" "unat (rk_valueSize b)"] vin size
        by (simp add: bucket_row_value_def add.assoc)
      show ?thesis
        using False same st bounds IH by (simp add: bucket dec key val b_def [symmetric])
    qed
  qed
qed

definition row_lookup :: "bytes option \<Rightarrow> Status + bytes" where
  "row_lookup r = (case r of None \<Rightarrow> Inl (NotFound ''key not found in row'') | Some v \<Rightarrow> Inr v)"

lemma find_in_table:
  assumes tab: "row_table_ok rowId kb vb bs" and j: "length bs = 2 ^ j" "j \<le> 31"
  shows "(case find (\<lambda>i. vacant_key (bs ! i) \<or> bucket_row_key kb (bs ! i) = key)
        (probe_path (row_key_hash rowId key) (2 ^ j)) of
       None \<Rightarrow> Inl (NotFound ''key not found in row'')
     | Some i \<Rightarrow> if vacant_key (bs ! i) then Inl (NotFound ''key not found in row'')
                 else Inr (bucket_row_value vb (bs ! i))) = row_lookup (row_table_map kb vb bs key)"
proof -
  obtain ch: "chained vacant_key (key_hash_of rowId) bs" and un: "unique_keys vacant_key (bucket_row_key kb) bs"
    and room: "length (occupied vacant_key bs) < length bs"
    using tab by (rule row_table_okD)
  note kd = row_table_keyed [OF tab]
  show ?thesis
  proof (cases "\<exists>i < length bs. \<not> vacant_key (bs ! i) \<and> bucket_row_key kb (bs ! i) = key")
    case True
    then obtain i where i: "i < length bs" "\<not> vacant_key (bs ! i)" "bucket_row_key kb (bs ! i) = key" by blast
    have "row_table_map kb vb bs key = Some (bucket_row_value vb (bs ! i))"
    proof -
      have "bs ! i \<in> set (occupied vacant_key bs)" using i(1,2) by (simp add: set_occupied)
      then show ?thesis unfolding row_table_map_def table_map_Some [OF un] using i(3) by blast
    qed
    then show ?thesis
      using row_table.search_hit [OF ch kd un i] i(2) by (simp add: search_key_def j(1) row_lookup_def)
  next
    case False
    then have none: "\<forall>b \<in> set (occupied vacant_key bs). bucket_row_key kb b \<noteq> key"
      unfolding Ball_def in_occupied_nth by blast
    obtain i where i: "first_vacant vacant_key bs (row_key_hash rowId key) = Some i"
      by (rule first_vacant_exists [OF room])
    have "row_table_map kb vb bs key = None"
      unfolding row_table_map_def table_map_None by (rule none)
    then show ?thesis
      using row_table.search_miss [OF none, of "row_key_hash rowId key"] i first_vacant_SomeD(2) [OF i]
      by (simp add: search_key_def j(1) row_lookup_def)
  qed
qed

lemma FindValueInRowBlockAt_ok:
  assumes os: "reads_ok os" and readable: "row_readable db"
    and s: "unat (rib_shardId rb) < length (rowValueFiles db)"
    and blk: "block_at (row_bytes db (unat (rib_shardId rb))) (unat (rib_blockOffset rb)) column L"
    and ok: "layout_ok column rowId L" and size: "rib_blockSize rb = rb_blockSize (rl_header L)"
  shows "FindValueInRowBlockAt os db rb (rl_header L) key = row_lookup (layout_map L key)"
proof -
  note d = layout_okD [OF ok]
  note off = layout_offsets [OF ok]
  obtain j where j: "j \<le> 31" "length (rl_keyBuckets L) = 2 ^ j" using d(1) by (rule row_table_okD)
  have "j < 64" using j(1) by simp
  note path = probe_indices_pow2 [OF this, of "MixHashes (HashString key) rowId"]
  have sub: "set (probe_path (row_key_hash rowId key) (2 ^ j)) \<subseteq> {..<length (rl_keyBuckets L)}"
    by (simp add: j(2))
  have "FindValueInRowBlockAt os db rb (rl_header L) key =
      find_value_loop os db rb (rl_header L) key
        (72 + ucast (rb_bucketCount (rl_header L)) * 48 + ucast (rb_columnSize (rl_header L)))
        (72 + ucast (rb_bucketCount (rl_header L)) * 48 + ucast (rb_columnSize (rl_header L)) + rb_keyBytesSize (rl_header L))
        (probe_path (row_key_hash rowId key) (2 ^ j))"
    using s layout_header_valid [OF ok] size d(5)
    by (simp add: FindValueInRowBlockAt_def Let_def bucket_count_word(2,3) [OF ok j] path row_key_hash_def)
  also have "\<dots> = row_lookup (layout_map L key)"
    unfolding find_value_loop_ok [OF os readable s blk ok off(2,3) sub] layout_map_def
    by (rule find_in_table [OF d(1) j(2,1)])
  finally show ?thesis .
qed

subsection \<open>Decoding a block\<close>

definition layout_entries :: "RowBlockLayout \<Rightarrow> (bytes \<times> bytes) list" where
  "layout_entries L =
     map (\<lambda>b. (bucket_row_key (rl_keyBytes L) b, bucket_row_value (layout_values L) b)) (occupied vacant_key (rl_keyBuckets L))"

lemma layout_entries_map:
  assumes "layout_ok column rowId L"
  shows "layout_map L = map_of (layout_entries L)" and "distinct (map fst (layout_entries L))"
proof -
  show "layout_map L = map_of (layout_entries L)"
    by (simp add: layout_map_def row_table_map_def table_map_def layout_entries_def)
  have "unique_keys vacant_key (bucket_row_key (rl_keyBytes L)) (rl_keyBuckets L)"
    using layout_okD(1) [OF assms] by (simp add: row_table_ok_def)
  then show "distinct (map fst (layout_entries L))"
    by (simp add: layout_entries_def unique_keys_def comp_def)
qed

lemma decode_entries_loop_ok:
  assumes ok: "layout_ok column rowId L"
    and ko: "unat ko = 72 + 48 * length (rl_keyBuckets L) + length column"
    and vo: "unat vo = 72 + 48 * length (rl_keyBuckets L) + length column + length (rl_keyBytes L)"
    and idx: "set is \<subseteq> {..<length (rl_keyBuckets L)}"
  shows "decode_entries_loop (block_bytes column L) (rl_header L) ko vo is =
    Some (Inr (map (\<lambda>b. (bucket_row_key (rl_keyBytes L) b, bucket_row_value (layout_values L) b))
      (occupied vacant_key (map (\<lambda>i. rl_keyBuckets L ! i) is))))"
  using idx
proof (induction "is")
  case Nil
  then show ?case by (simp add: occupied_def)
next
  case (Cons i "is")
  note d = layout_okD [OF ok]
  define b where "b = rl_keyBuckets L ! i"
  have i: "i < length (rl_keyBuckets L)" using Cons.prems by simp
  have mem: "b \<in> set (rl_keyBuckets L)" using i by (simp add: b_def)
  have size: "length (block_bytes column L) = 72 + 48 * length (rl_keyBuckets L) + length column +
      length (rl_keyBytes L) + length (layout_values L)"
    using length_block_bytes [OF ok] by (simp add: layout_size_def)
  have bucket: "slice_at (block_bytes column L) (72 + 48 * i) 48 = Some (encode_RowKeyBucket b)"
    using block_parts(2) [OF ok i] i size by (simp add: slice_at_def b_def)
  have dec: "decode_RowKeyBucket (encode_RowKeyBucket b) = b"
    using decode_encode_RowKeyBucket [of b "[]"] layout_reserved [OF ok mem] by simp
  have IH: "decode_entries_loop (block_bytes column L) (rl_header L) ko vo is =
    Some (Inr (map (\<lambda>b. (bucket_row_key (rl_keyBytes L) b, bucket_row_value (layout_values L) b))
      (occupied vacant_key (map (\<lambda>i. rl_keyBuckets L ! i) is))))"
    by (rule Cons.IH) (use Cons.prems in simp)
  show ?case
  proof (cases "vacant_key b")
    case True
    then show ?thesis using IH by (simp add: bucket dec b_def [symmetric] occupied_def)
  next
    case False
    have kok: "key_bucket_ok (rl_keyBytes L) b" and vok: "value_bucket_ok (layout_values L) b"
      using d(1) mem False unfolding row_table_ok_def by blast+
    have st: "rk_state b = kBucketFilled" using kok by (simp add: key_bucket_ok_def)
    have kin: "unat (rk_keyOffset b) + unat (rk_keySize b) \<le> length (rl_keyBytes L)"
      using kok by (simp add: key_bucket_ok_def)
    have vin: "unat (rk_valueOffset b) + unat (rk_valueSize b) \<le> length (layout_values L)"
      using vok by (simp add: value_bucket_ok_def)
    have bounds: "\<not> rb_keyBytesSize (rl_header L) < rk_keyOffset b + rk_keySize b"
      "\<not> rb_valueBytesSize (rl_header L) < rk_valueOffset b + rk_valueSize b"
      using kin vin d(10,11,13) unat_add64 [of "rk_keyOffset b" "rk_keySize b"]
        unat_add64 [of "rk_valueOffset b" "rk_valueSize b"]
      by (simp_all add: word_less_nat_alt layout_size_def)
    have key: "slice_at (block_bytes column L) (unat ko + unat (rk_keyOffset b)) (unat (rk_keySize b)) =
        Some (bucket_row_key (rl_keyBytes L) b)"
      using block_parts(4) [OF ok kin] kin size by (simp add: slice_at_def ko bucket_row_key_def)
    have val: "slice_at (block_bytes column L) (unat vo + unat (rk_valueOffset b)) (unat (rk_valueSize b)) =
        Some (bucket_row_value (layout_values L) b)"
      using block_parts(5) [OF ok vin] vin size by (simp add: slice_at_def vo bucket_row_value_def)
    show ?thesis
      using False st bounds IH by (simp add: bucket dec key val b_def [symmetric] occupied_def)
  qed
qed

lemma DecodeRowBlockEntries_ok:
  assumes ok: "layout_ok column rowId L"
  shows "DecodeRowBlockEntries (block_bytes column L) column rowId =
    Some (Inr (map fst (layout_entries L), map snd (layout_entries L)))"
proof -
  note d = layout_okD [OF ok]
  note off = layout_offsets [OF ok]
  have size: "length (block_bytes column L) = 72 + 48 * length (rl_keyBuckets L) + length column +
      length (rl_keyBytes L) + length (layout_values L)"
    using length_block_bytes [OF ok] by (simp add: layout_size_def)
  have hdr: "decode_RowBlockHeader (block_bytes column L) = rl_header L" by (simp add: block_bytes_parts)
  have bs: "unat (rb_blockSize (rl_header L)) = length (block_bytes column L)"
    using d(12) length_block_bytes [OF ok] by simp
  have col: "slice_at (block_bytes column L) (72 + 48 * length (rl_keyBuckets L)) (length column) = Some column"
    using block_parts(3) [OF ok] size by (simp add: slice_at_def)
  have loop: "decode_entries_loop (block_bytes column L) (rl_header L)
      (72 + ucast (rb_bucketCount (rl_header L)) * 48 + ucast (rb_columnSize (rl_header L)))
      (72 + ucast (rb_bucketCount (rl_header L)) * 48 + ucast (rb_columnSize (rl_header L)) + rb_keyBytesSize (rl_header L))
      [0..<length (rl_keyBuckets L)] = Some (Inr (layout_entries L))"
    using decode_entries_loop_ok [OF ok off(2,3), of "[0..<length (rl_keyBuckets L)]"]
    by (simp add: map_nth layout_entries_def atLeast0LessThan)
  show ?thesis
    unfolding DecodeRowBlockEntries_def hdr Let_def off(1) d(7,8) col loop
    using layout_header_valid [OF ok] bs d(5,6,9) size by (simp add: layout_entries_def)
qed

end
