(* ===== verification/Row_Index.thy ===== *)
theory Row_Index
  imports Row_Layout
begin

text \<open>
  The row index: an open-addressing table of row buckets with a state word each, its snapshots,
  search, insertion and growth.  The state words make the table a lock per bucket; here one call
  runs alone, so a compare-and-exchange that expects the state it has just read succeeds.  A pass
  that meets a bucket in the state "writing" retries, and with nobody to finish that write it
  retries for ever, which is the value \<open>None\<close>.
\<close>

datatype RowBucketSnapshotState = kEmpty | kFilled | kWriting

record RowBucketLookup =
  rlk_index :: nat
  rlk_found :: bool
  rlk_bucket :: RowIndexBucket
  rlk_blockHeader :: RowBlockHeader

record RowBucketData =
  rd_columnHash :: u64
  rd_rowId :: u64
  rd_shardId :: u32
  rd_blockOffset :: u64
  rd_blockSize :: u64
  rd_sequence :: u64

text \<open>The result of one pass over the probe sequence: done, or to be run again.\<close>

datatype 'a attempt = Retry | Done 'a

definition ShardForRow :: "Impl \<Rightarrow> u64 \<Rightarrow> u64 \<Rightarrow> u32" where
  "ShardForRow db columnHash rowId =
     of_nat (unat (MixHashes columnHash rowId) mod length (rowValueFiles db))"

definition RowBlockMatches ::
  "os \<Rightarrow> Impl \<Rightarrow> RowIndexBucket \<Rightarrow> bytes \<Rightarrow> u64 \<Rightarrow> Status + RowBlockHeader option" where
  "RowBlockMatches os db bucket column rowId =
     (if unat (rib_shardId bucket) \<ge> length (rowValueFiles db)
      then Inl (Corruption ''row index points to an invalid shard'')
      else case ReadRowValueAt os db (rib_shardId bucket) 72 (rib_blockOffset bucket) of
          Inl status \<Rightarrow> Inl status
        | Inr bs \<Rightarrow>
            let blockHeader = decode_RowBlockHeader bs in
            if \<not> IsValidRowBlockHeader blockHeader \<or> rb_columnHash blockHeader \<noteq> rib_columnHash bucket \<or>
               rb_rowId blockHeader \<noteq> rowId \<or> rb_blockSize blockHeader \<noteq> rib_blockSize bucket
            then Inl (Corruption ''row index points to an invalid row block'')
            else if unat (rb_columnSize blockHeader) \<noteq> length column then Inr None
            else case ReadRowBlockColumn os db (rib_shardId bucket) (rib_blockOffset bucket) blockHeader of
                Inl status \<Rightarrow> Inl status
              | Inr storedColumn \<Rightarrow> Inr (if storedColumn = column then Some blockHeader else None))"

subsection \<open>Snapshots\<close>

definition LoadRowBucketSnapshot :: "Impl \<Rightarrow> nat \<Rightarrow> Status + RowBucketSnapshotState \<times> RowIndexBucket" where
  "LoadRowBucketSnapshot db index =
     (let bucket = RowBuckets db ! index; state = rib_state bucket in
      if state = kRowBucketEmpty then Inr (kEmpty, RowIndexBucket_default)
      else if state = kRowBucketWriting then Inr (kWriting, RowIndexBucket_default)
      else if state \<noteq> kRowBucketFilled then Inl (Corruption ''row index bucket state is invalid'')
      else
        let snapshot = RowIndexBucket_default
              \<lparr>rib_state := kRowBucketFilled, rib_shardId := rib_shardId bucket,
               rib_columnHash := rib_columnHash bucket, rib_rowId := rib_rowId bucket,
               rib_blockOffset := rib_blockOffset bucket, rib_blockSize := rib_blockSize bucket,
               rib_sequence := rib_sequence bucket\<rparr>;
            stateAfter = rib_state bucket
        in if stateAfter \<noteq> kRowBucketFilled then Inr (kWriting, snapshot)
           else Inr (kFilled, snapshot))"

partial_function (option) LoadFilledRowBucketSnapshot :: "Impl \<Rightarrow> nat \<Rightarrow> (Status + RowIndexBucket) option" where
  "LoadFilledRowBucketSnapshot db index =
     (case LoadRowBucketSnapshot db index of
        Inl status \<Rightarrow> Some (Inl status)
      | Inr (snapshotState, snapshot) \<Rightarrow>
          if snapshotState = kFilled then Some (Inr snapshot)
          else if snapshotState = kEmpty then Some (Inl (Corruption ''row index bucket is empty''))
          else LoadFilledRowBucketSnapshot db index)"

partial_function (option) LoadFilledRowBucketSnapshotIfPresent ::
  "Impl \<Rightarrow> nat \<Rightarrow> (Status + RowIndexBucket) option" where
  "LoadFilledRowBucketSnapshotIfPresent db index =
     (case LoadRowBucketSnapshot db index of
        Inl status \<Rightarrow> Some (Inl status)
      | Inr (snapshotState, snapshot) \<Rightarrow>
          if snapshotState = kFilled then Some (Inr snapshot)
          else if snapshotState = kEmpty then Some (Inr RowIndexBucket_default)
          else LoadFilledRowBucketSnapshotIfPresent db index)"

definition StoreRowBucketData :: "RowIndexBucket \<Rightarrow> RowBucketData \<Rightarrow> RowIndexBucket" where
  "StoreRowBucketData bucket data = bucket
     \<lparr>rib_shardId := rd_shardId data, rib_columnHash := rd_columnHash data, rib_rowId := rd_rowId data,
      rib_blockOffset := rd_blockOffset data, rib_blockSize := rd_blockSize data,
      rib_sequence := rd_sequence data\<rparr>"

subsection \<open>Searching\<close>

fun find_row_pass ::
  "os \<Rightarrow> Impl \<Rightarrow> bytes \<Rightarrow> u64 \<Rightarrow> u64 \<Rightarrow> nat list \<Rightarrow> (Status + RowBucketLookup) attempt" where
  "find_row_pass os db column rowId columnHash [] = Done (Inl (Corruption ''row index table is full''))"
| "find_row_pass os db column rowId columnHash (index # probes) =
     (case LoadRowBucketSnapshot db index of
        Inl status \<Rightarrow> Done (Inl status)
      | Inr (snapshotState, bucket) \<Rightarrow>
          if snapshotState = kEmpty
          then Done (Inr \<lparr>rlk_index = index, rlk_found = False, rlk_bucket = RowIndexBucket_default,
                          rlk_blockHeader = RowBlockHeader_default\<rparr>)
          else if snapshotState = kWriting then Retry
          else if rib_columnHash bucket \<noteq> columnHash \<or> rib_rowId bucket \<noteq> rowId
          then find_row_pass os db column rowId columnHash probes
          else case RowBlockMatches os db bucket column rowId of
              Inl status \<Rightarrow> Done (Inl status)
            | Inr None \<Rightarrow> find_row_pass os db column rowId columnHash probes
            | Inr (Some blockHeader) \<Rightarrow>
                Done (Inr \<lparr>rlk_index = index, rlk_found = True, rlk_bucket = bucket,
                           rlk_blockHeader = blockHeader\<rparr>))"

partial_function (option) find_row_retry ::
  "os \<Rightarrow> Impl \<Rightarrow> bytes \<Rightarrow> u64 \<Rightarrow> u64 \<Rightarrow> nat list \<Rightarrow> (Status + RowBucketLookup) option" where
  "find_row_retry os db column rowId columnHash probes =
     (case find_row_pass os db column rowId columnHash probes of
        Retry \<Rightarrow> find_row_retry os db column rowId columnHash probes
      | Done r \<Rightarrow> Some r)"

definition FindRowBucket ::
  "os \<Rightarrow> Impl \<Rightarrow> bytes \<Rightarrow> u64 \<Rightarrow> u64 \<Rightarrow> (Status + RowBucketLookup) option" where
  "FindRowBucket os db column rowId columnHash =
     (let bucketCount = rih_bucketCount (RowIndexHeader db);
          start = MixHashes columnHash rowId AND (bucketCount - 1)
      in find_row_retry os db column rowId columnHash (probe_indices start bucketCount))"

subsection \<open>Inserting\<close>

text \<open>The store of a bucket whose state was taken: the data, then the state "filled".\<close>

definition publish_row_bucket :: "nat \<Rightarrow> RowBucketData \<Rightarrow> Impl \<Rightarrow> Impl" where
  "publish_row_bucket index data db =
     set_RowBucket index ((StoreRowBucketData (RowBuckets db ! index) data)\<lparr>rib_state := kRowBucketFilled\<rparr>) db"

fun insert_row_pass ::
  "os \<Rightarrow> Impl \<Rightarrow> bytes \<Rightarrow> RowBucketData \<Rightarrow> nat list \<Rightarrow> (Status \<times> bool \<times> Impl) attempt" where
  "insert_row_pass os db column data [] = Done (Corruption ''row index table is full'', False, db)"
| "insert_row_pass os db column data (index # probes) =
     (case LoadRowBucketSnapshot db index of
        Inl status \<Rightarrow> Done (status, False, db)
      | Inr (snapshotState, snapshot) \<Rightarrow>
          if snapshotState = kEmpty then Done (Ok, True, publish_row_bucket index data db)
          else if snapshotState = kWriting then Retry
          else if rib_columnHash snapshot \<noteq> rd_columnHash data \<or> rib_rowId snapshot \<noteq> rd_rowId data
          then insert_row_pass os db column data probes
          else case RowBlockMatches os db snapshot column (rd_rowId data) of
              Inl status \<Rightarrow> Done (status, False, db)
            | Inr None \<Rightarrow> insert_row_pass os db column data probes
            | Inr (Some _) \<Rightarrow> Done (Ok, False, publish_row_bucket index data db))"

partial_function (option) insert_row_retry ::
  "os \<Rightarrow> Impl \<Rightarrow> bytes \<Rightarrow> RowBucketData \<Rightarrow> nat list \<Rightarrow> (Status \<times> bool \<times> Impl) option" where
  "insert_row_retry os db column data probes =
     (case insert_row_pass os db column data probes of
        Retry \<Rightarrow> insert_row_retry os db column data probes
      | Done r \<Rightarrow> Some r)"

definition InsertOrUpdateRowBucket ::
  "os \<Rightarrow> Impl \<Rightarrow> bytes \<Rightarrow> RowBucketData \<Rightarrow> (Status \<times> bool \<times> Impl) option" where
  "InsertOrUpdateRowBucket os db column data =
     (let bucketCount = rih_bucketCount (RowIndexHeader db);
          start = MixHashes (rd_columnHash data) (rd_rowId data) AND (bucketCount - 1)
      in insert_row_retry os db column data (probe_indices start bucketCount))"

subsection \<open>Capacity\<close>

definition ReserveRowIndexInsertSlot :: "Impl \<Rightarrow> Status \<times> Impl" where
  "ReserveRowIndexInsertSlot db =
     (let bucketCount = rih_bucketCount (RowIndexHeader db);
          itemCount = rih_itemCount (RowIndexHeader db);
          pending = rowPendingInsertCount db;
          loadAfterInsert = ddiv (double_of_u64 (itemCount + pending + 1)) (double_of_u64 bucketCount)
      in if dgt loadAfterInsert (maxLoadFactor (options db))
         then (InvalidArgument ''row index capacity exceeded; increase initialRowBucketCount'', db)
         else (Ok, db\<lparr>rowPendingInsertCount := pending + 1\<rparr>))"

definition ReleaseRowIndexInsertSlot :: "Impl \<Rightarrow> Impl" where
  "ReleaseRowIndexInsertSlot db = db\<lparr>rowPendingInsertCount := rowPendingInsertCount db - 1\<rparr>"

definition CreateEmptyRowIndex :: "os \<Rightarrow> Impl \<Rightarrow> u64 \<Rightarrow> (Status \<times> Impl) option" where
  "CreateEmptyRowIndex os db requested =
     (case RoundUpPowerOfTwo requested of
        None \<Rightarrow> None
      | Some bucketCount \<Rightarrow>
          (let fileSize = 64 + bucketCount * 64;
               db1 = unmap_row_index db;
               (status, fs) = TruncateFile os (filesys db1) (rowIndexFile db1) fileSize;
               db2 = db1\<lparr>filesys := fs\<rparr>
           in if \<not> IsOk status then Some (status, db2)
              else
                let view = \<lparr>ri_header = RowIndexFileHeader_default\<lparr>rih_bucketCount := bucketCount,
                              rih_shardCount := rowShardCount (options db2)\<rparr>,
                            ri_buckets = replicate ((unat fileSize - 64) div 64) RowIndexBucket_default\<rparr>;
                    (status, m) = MapWithProtection os (rowIndexFile db2) view fileSize True
                in Some (status, db2\<lparr>rowIndexMap := m\<rparr>)))"

definition PlaceExistingRowBucket :: "Impl \<Rightarrow> RowIndexBucket \<Rightarrow> Status \<times> Impl" where
  "PlaceExistingRowBucket db bucket =
     (let bucketCount = rih_bucketCount (RowIndexHeader db);
          start = MixHashes (rib_columnHash bucket) (rib_rowId bucket) AND (bucketCount - 1)
      in case find (\<lambda>index. rib_state (RowBuckets db ! index) = kRowBucketEmpty) (probe_indices start bucketCount) of
           Some index \<Rightarrow> (Ok, set_RowBucket index bucket db)
         | None \<Rightarrow> (Corruption ''row index table is full during resize'', db))"

fun place_existing_rows :: "RowIndexBucket list \<Rightarrow> Impl \<Rightarrow> Status \<times> Impl" where
  "place_existing_rows [] db = (Ok, db)"
| "place_existing_rows (bucket # rest) db =
     (let (status, db1) = PlaceExistingRowBucket db bucket in
      if \<not> IsOk status then (status, db1)
      else place_existing_rows rest (increment_rowItemCount db1))"

definition ResizeRowIndex :: "os \<Rightarrow> Impl \<Rightarrow> u64 \<Rightarrow> (Status \<times> Impl) option" where
  "ResizeRowIndex os db newBucketCount =
     (let oldBuckets = filter (\<lambda>bucket. rib_state bucket = kRowBucketFilled)
            (map (\<lambda>index. RowBuckets db ! index) [0..<unat (rih_bucketCount (RowIndexHeader db))]);
          nextSequence = rih_nextSequence (RowIndexHeader db)
      in case CreateEmptyRowIndex os db newBucketCount of
           None \<Rightarrow> None
         | Some (status, db1) \<Rightarrow>
             if \<not> IsOk status then Some (status, db1)
             else Some (place_existing_rows oldBuckets
                    (set_RowIndexHeader ((RowIndexHeader db1)\<lparr>rih_nextSequence := nextSequence\<rparr>) db1)))"

definition EnsureRowCapacityForInsert :: "os \<Rightarrow> Impl \<Rightarrow> (Status \<times> Impl) option" where
  "EnsureRowCapacityForInsert os db =
     (let header = RowIndexHeader db;
          loadAfterInsert = ddiv (double_of_u64 (rih_itemCount header + 1)) (double_of_u64 (rih_bucketCount header))
      in if dle loadAfterInsert (maxLoadFactor (options db)) then Some (Ok, db)
         else ResizeRowIndex os db (rih_bucketCount header * 2))"

text \<open>As in the object index, a wrapped size check lets the loop leave the mapping, unless it stops before.\<close>

definition HasValidRowIndexLayout :: "Impl \<Rightarrow> u64 \<Rightarrow> bool option" where
  "HasValidRowIndexLayout db fileSize =
     (if fileSize < 64 then Some False
      else
        let header = RowIndexHeader db in
        if \<not> MagicEquals (rih_magic header) kRowIndexFileMagic \<or>
           rih_version header \<noteq> of_nat kStorageVersion \<or> rih_headerSize header \<noteq> 64
        then Some False
        else if rih_shardCount header \<noteq> rowShardCount (options db) \<or> rih_bucketCount header = 0 \<or>
                rih_bucketCount header AND (rih_bucketCount header - 1) \<noteq> 0
        then Some False
        else
          let expectedSize = 64 + rih_bucketCount header * 64 in
          if expectedSize \<noteq> fileSize \<or> rih_itemCount header > rih_bucketCount header
          then Some False
          else
            let states = map rib_state (take (unat (rih_bucketCount header)) (RowBuckets db)) in
            if \<not> list_all (\<lambda>state. state = kRowBucketFilled \<or> state = kRowBucketEmpty) states then Some False
            else if length (RowBuckets db) < unat (rih_bucketCount header) then None
            else Some ((of_nat (length (filter (\<lambda>state. state = kRowBucketFilled) states)) :: u64) = rih_itemCount header))"

subsection \<open>What a row bucket stands for\<close>

text \<open>
  A bucket stands for the column stored in its block, its row id, and the row the block decodes
  to.  The shards are the contents of the row value files, in shard order.
\<close>

definition block_header :: "bytes \<Rightarrow> nat \<Rightarrow> RowBlockHeader" where
  "block_header content off = decode_RowBlockHeader (take 72 (drop off content))"

definition block_column :: "bytes \<Rightarrow> nat \<Rightarrow> bytes" where
  "block_column content off =
     (let h = block_header content off
      in take (unat (rb_columnSize h)) (drop (off + (72 + 48 * unat (rb_bucketCount h))) content))"

definition block_row :: "bytes \<Rightarrow> nat \<Rightarrow> u64 \<Rightarrow> (bytes \<rightharpoonup> bytes)" where
  "block_row content off rowId =
     (case DecodeRowBlockEntries (take (unat (rb_blockSize (block_header content off))) (drop off content))
             (block_column content off) rowId of
        Some (Inr (keys, vals)) \<Rightarrow> map_of (zip keys vals)
      | _ \<Rightarrow> Map.empty)"

definition row_bucket_key :: "bytes list \<Rightarrow> RowIndexBucket \<Rightarrow> bytes \<times> u64" where
  "row_bucket_key shards b =
     (block_column (shards ! unat (rib_shardId b)) (unat (rib_blockOffset b)), rib_rowId b)"

definition row_bucket_row :: "bytes list \<Rightarrow> RowIndexBucket \<Rightarrow> (bytes \<rightharpoonup> bytes)" where
  "row_bucket_row shards b =
     block_row (shards ! unat (rib_shardId b)) (unat (rib_blockOffset b)) (rib_rowId b)"

definition row_bucket_hash :: "RowIndexBucket \<Rightarrow> u64" where
  "row_bucket_hash b = MixHashes (rib_columnHash b) (rib_rowId b)"

definition row_hash :: "bytes \<times> u64 \<Rightarrow> u64" where
  "row_hash = (\<lambda>(column, rowId). MixHashes (HashString column) rowId)"

abbreviation vacant_row :: "RowIndexBucket \<Rightarrow> bool" where
  "vacant_row b \<equiv> rib_state b = kRowBucketEmpty"

definition row_bucket_at :: "bytes list \<Rightarrow> RowIndexBucket \<Rightarrow> bytes \<Rightarrow> RowBlockLayout \<Rightarrow> bool" where
  "row_bucket_at shards b column L \<longleftrightarrow>
     rib_state b = kRowBucketFilled \<and> unat (rib_shardId b) < length shards \<and>
     block_at (shards ! unat (rib_shardId b)) (unat (rib_blockOffset b)) column L \<and>
     layout_ok column (rib_rowId b) L \<and> rib_columnHash b = HashString column \<and>
     rib_blockSize b = rb_blockSize (rl_header L) \<and> rib_sequence b = rb_sequence (rl_header L) \<and>
     rib_reserved64 b = 0 \<and> rib_reserved65 b = 0"

definition row_bucket_ok :: "bytes list \<Rightarrow> RowIndexBucket \<Rightarrow> bool" where
  "row_bucket_ok shards b \<longleftrightarrow> (\<exists>column L. row_bucket_at shards b column L)"

definition rows_map :: "bytes list \<Rightarrow> RowIndexBucket list \<Rightarrow> (bytes \<times> u64 \<rightharpoonup> (bytes \<rightharpoonup> bytes))" where
  "rows_map shards buckets = table_map vacant_row (row_bucket_key shards) (row_bucket_row shards) buckets"

definition rows_table_ok :: "bytes list \<Rightarrow> RowIndexBucket list \<Rightarrow> bool" where
  "rows_table_ok shards buckets \<longleftrightarrow>
     (\<forall>b \<in> set buckets. \<not> vacant_row b \<longrightarrow> row_bucket_ok shards b) \<and>
     (\<forall>b \<in> set buckets. rib_reserved64 b = 0 \<and> rib_reserved65 b = 0) \<and>
     chained vacant_row row_bucket_hash buckets \<and>
     unique_keys vacant_row (row_bucket_key shards) buckets"

definition row_header_ok :: "RowIndexFileHeader \<Rightarrow> bool" where
  "row_header_ok h \<longleftrightarrow>
     rih_magic h = kRowIndexFileMagic \<and> rih_version h = of_nat kStorageVersion \<and> rih_headerSize h = 64 \<and>
     length (rih_reserved h) = 16"

lemma row_header_ok_simps [simp]:
  "row_header_ok (h\<lparr>rih_itemCount := n\<rparr>) = row_header_ok h"
  "row_header_ok (h\<lparr>rih_bucketCount := n\<rparr>) = row_header_ok h"
  "row_header_ok (h\<lparr>rih_nextSequence := n\<rparr>) = row_header_ok h"
  "row_header_ok (h\<lparr>rih_shardCount := s\<rparr>) = row_header_ok h"
  "row_header_ok RowIndexFileHeader_default"
  by (simp_all add: row_header_ok_def RowIndexFileHeader_default_def)

definition row_index_ok :: "bytes list \<Rightarrow> row_index \<Rightarrow> bool" where
  "row_index_ok shards v \<longleftrightarrow>
     row_header_ok (ri_header v) \<and> unat (rih_shardCount (ri_header v)) = length shards \<and>
     (\<exists>k \<le> 56. rih_bucketCount (ri_header v) = 2 ^ k \<and> length (ri_buckets v) = 2 ^ k) \<and>
     unat (rih_itemCount (ri_header v)) = length (occupied vacant_row (ri_buckets v)) \<and>
     length (occupied vacant_row (ri_buckets v)) < length (ri_buckets v) \<and>
     rows_table_ok shards (ri_buckets v)"

lemma row_index_okD:
  assumes "row_index_ok shards v"
  obtains k where "k \<le> 56" "rih_bucketCount (ri_header v) = 2 ^ k" "length (ri_buckets v) = 2 ^ k"
  using assms unfolding row_index_ok_def by blast

lemma row_states [simp]:
  "kRowBucketFilled \<noteq> kRowBucketEmpty" "kRowBucketEmpty \<noteq> kRowBucketFilled"
  "kRowBucketWriting \<noteq> kRowBucketEmpty" "kRowBucketWriting \<noteq> kRowBucketFilled"
  "kRowBucketFilled \<noteq> kRowBucketWriting" "kRowBucketEmpty \<noteq> kRowBucketWriting"
  by (simp_all add: kRowBucketFilled_def kRowBucketEmpty_def kRowBucketWriting_def)

interpretation row_index_table: open_addressing vacant_row row_bucket_hash RowIndexBucket_default
  by unfold_locales (simp add: RowIndexBucket_default_def)

lemma block_at_header:
  assumes blk: "block_at content off column L" and ok: "layout_ok column rowId L"
  shows "take 72 (drop off content) = encode_RowBlockHeader (rl_header L)"
    and "block_header content off = rl_header L" and "block_column content off = column"
    and "take (unat (rb_blockSize (rl_header L))) (drop off content) = block_bytes column L"
proof -
  have size: "layout_size column L = 72 + 48 * length (rl_keyBuckets L) + length column + length (rl_keyBytes L) + length (layout_values L)"
    by (simp add: layout_size_def)
  show h: "take 72 (drop off content) = encode_RowBlockHeader (rl_header L)"
    using take_in_block [OF blk, of 0 72] block_parts(1) [OF ok] by (simp add: size)
  then show hd: "block_header content off = rl_header L"
    using decode_encode_RowBlockHeader [of "rl_header L" "[]"] by (simp add: block_header_def)
  show "block_column content off = column"
    using take_in_block [OF blk, of "72 + 48 * length (rl_keyBuckets L)" "length column"] block_parts(3) [OF ok]
    by (simp add: block_column_def Let_def hd layout_okD(7,8) [OF ok] size)
  show "take (unat (rb_blockSize (rl_header L))) (drop off content) = block_bytes column L"
    using blk layout_okD(12) [OF ok] by (simp add: block_at_def)
qed

lemma row_bucket_atD:
  assumes "row_bucket_at shards b column L"
  shows "row_bucket_key shards b = (column, rib_rowId b)" and "row_bucket_row shards b = layout_map L"
    and "row_bucket_hash b = row_hash (column, rib_rowId b)"
proof -
  have blk: "block_at (shards ! unat (rib_shardId b)) (unat (rib_blockOffset b)) column L"
    and ok: "layout_ok column (rib_rowId b) L" and h: "rib_columnHash b = HashString column"
    using assms by (simp_all add: row_bucket_at_def)
  note hd = block_at_header [OF blk ok]
  show "row_bucket_key shards b = (column, rib_rowId b)" by (simp add: row_bucket_key_def hd(3))
  have "zip (map fst (layout_entries L)) (map snd (layout_entries L)) = layout_entries L"
    by (rule zip_map_fst_snd)
  then show "row_bucket_row shards b = layout_map L"
    by (simp add: row_bucket_row_def block_row_def hd DecodeRowBlockEntries_ok [OF ok] layout_entries_map(1) [OF ok])
  show "row_bucket_hash b = row_hash (column, rib_rowId b)"
    by (simp add: row_bucket_hash_def row_hash_def h)
qed

lemma rows_table_keyed:
  assumes "rows_table_ok shards buckets"
  shows "keyed vacant_row row_bucket_hash (row_bucket_key shards) row_hash buckets"
  unfolding keyed_def
proof (intro ballI impI)
  fix b
  assume "b \<in> set buckets" "\<not> vacant_row b"
  then obtain column L where "row_bucket_at shards b column L"
    using assms unfolding rows_table_ok_def row_bucket_ok_def by blast
  from row_bucket_atD [OF this] show "row_bucket_hash b = row_hash (row_bucket_key shards b)" by simp
qed

subsection \<open>Growing shards keep their blocks\<close>

definition shards_extend :: "bytes list \<Rightarrow> bytes list \<Rightarrow> bool" where
  "shards_extend shards shards' \<longleftrightarrow>
     list_all2 (\<lambda>c c'. take (length c) c' = c) shards shards'"

lemma block_at_extend:
  assumes "block_at c off column L" and "take (length c) c' = c"
  shows "block_at c' off column L"
proof -
  have len: "length c \<le> length c'" using assms(2) by (metis length_take min.cobounded1)
  have le: "off + layout_size column L \<le> length c" using assms(1) by (simp add: block_at_def)
  have "take (layout_size column L) (drop off (take (length c) c')) = take (layout_size column L) (drop off c')"
    using le by (simp add: drop_take)
  then show ?thesis using assms le len by (simp add: block_at_def)
qed

lemma row_bucket_extend:
  assumes "row_bucket_at shards b column L" and "shards_extend shards shards'"
  shows "row_bucket_at shards' b column L"
proof -
  have s: "unat (rib_shardId b) < length shards" using assms(1) by (simp add: row_bucket_at_def)
  have "take (length (shards ! unat (rib_shardId b))) (shards' ! unat (rib_shardId b)) = shards ! unat (rib_shardId b)"
    using list_all2_nthD [OF assms(2) [unfolded shards_extend_def] s] .
  then show ?thesis
    using assms(1) list_all2_lengthD [OF assms(2) [unfolded shards_extend_def]] block_at_extend
    by (auto simp: row_bucket_at_def)
qed

lemma row_bucket_extend_key:
  assumes "row_bucket_ok shards b" and "shards_extend shards shards'"
  shows "row_bucket_ok shards' b" and "row_bucket_key shards' b = row_bucket_key shards b"
    and "row_bucket_row shards' b = row_bucket_row shards b"
proof -
  obtain column L where at: "row_bucket_at shards b column L" using assms(1) by (auto simp: row_bucket_ok_def)
  note at' = row_bucket_extend [OF at assms(2)]
  show "row_bucket_ok shards' b" using at' by (auto simp: row_bucket_ok_def)
  show "row_bucket_key shards' b = row_bucket_key shards b" "row_bucket_row shards' b = row_bucket_row shards b"
    using row_bucket_atD [OF at] row_bucket_atD [OF at'] by simp_all
qed

lemma rows_table_extend:
  assumes ok: "rows_table_ok shards buckets" and ext: "shards_extend shards shards'"
  shows "rows_table_ok shards' buckets \<and> rows_map shards' buckets = rows_map shards buckets"
proof -
  have each: "row_bucket_ok shards b" if "b \<in> set buckets" "\<not> vacant_row b" for b
    using ok that by (auto simp: rows_table_ok_def)
  note e = row_bucket_extend_key [OF each ext]
  have "unique_keys vacant_row (row_bucket_key shards') buckets = unique_keys vacant_row (row_bucket_key shards) buckets"
    by (rule unique_keys_cong) (rule e(2))
  moreover have "rows_map shards' buckets = rows_map shards buckets"
    unfolding rows_map_def by (rule table_map_cong) (simp add: e(2,3))
  ultimately show ?thesis using ok e(1) by (simp add: rows_table_ok_def)
qed

lemma row_index_extend:
  assumes "row_index_ok shards v" and ext: "shards_extend shards shards'"
  shows "row_index_ok shards' v"
  using assms rows_table_extend [OF _ ext] list_all2_lengthD [OF ext [unfolded shards_extend_def]]
  unfolding row_index_ok_def by auto

subsection \<open>What \<open>FindRowBucket\<close> finds\<close>

definition shards_of :: "Impl \<Rightarrow> bytes list" where
  "shards_of db = map (row_bytes db) [0..<length (rowValueFiles db)]"

lemma shards_of_simps [simp]:
  "length (shards_of db) = length (rowValueFiles db)"
  "s < length (rowValueFiles db) \<Longrightarrow> shards_of db ! s = row_bytes db s"
  by (simp_all add: shards_of_def)

lemma ReadRowBlockColumn_ok:
  assumes os: "reads_ok os" and readable: "row_readable db" and at: "row_bucket_at (shards_of db) b column L"
  shows "ReadRowBlockColumn os db (rib_shardId b) (rib_blockOffset b) (rl_header L) = Inr column"
proof -
  have s: "unat (rib_shardId b) < length (rowValueFiles db)"
    and blk: "block_at (row_bytes db (unat (rib_shardId b))) (unat (rib_blockOffset b)) column L"
    and ok: "layout_ok column (rib_rowId b) L"
    using at by (auto simp: row_bucket_at_def)
  have "72 + 48 * length (rl_keyBuckets L) + length column \<le> layout_size column L" by (simp add: layout_size_def)
  note r = read_in_block [OF os readable s blk layout_offsets(1) [OF ok] this]
  show ?thesis
    using r block_parts(3) [OF ok] by (simp add: ReadRowBlockColumn_def Let_def layout_okD(7) [OF ok] add.assoc)
qed

lemma RowBlockMatches_ok:
  assumes os: "reads_ok os" and readable: "row_readable db" and at: "row_bucket_at (shards_of db) b c L"
    and r: "rib_rowId b = rowId"
  shows "RowBlockMatches os db b column rowId = Inr (if c = column then Some (rl_header L) else None)"
proof -
  have s: "unat (rib_shardId b) < length (rowValueFiles db)"
    and blk: "block_at (row_bytes db (unat (rib_shardId b))) (unat (rib_blockOffset b)) c L"
    and ok: "layout_ok c (rib_rowId b) L" and h: "rib_columnHash b = HashString c"
    and bsz: "rib_blockSize b = rb_blockSize (rl_header L)"
    using at by (auto simp: row_bucket_at_def)
  note d = layout_okD [OF ok]
  have le: "unat (rib_blockOffset b) + 72 \<le> length (row_bytes db (unat (rib_shardId b)))"
    using blk by (simp add: block_at_def layout_size_def)
  have hdr: "ReadRowValueAt os db (rib_shardId b) 72 (rib_blockOffset b) = Inr (encode_RowBlockHeader (rl_header L))"
    using ReadRowValueAt_ok [OF os readable s refl le] block_at_header(1) [OF blk ok] by simp
  have dec: "decode_RowBlockHeader (encode_RowBlockHeader (rl_header L)) = rl_header L"
    using decode_encode_RowBlockHeader [of "rl_header L" "[]"] by simp
  show ?thesis
    using s layout_header_valid [OF ok] d(5,6,7) h bsz r ReadRowBlockColumn_ok [OF os readable at]
    by (auto simp: RowBlockMatches_def hdr dec Let_def)
qed

lemma LoadRowBucketSnapshot_filled:
  assumes "row_bucket_at shards b c L" and "RowBuckets db ! i = b"
  shows "LoadRowBucketSnapshot db i = Inr (kFilled, b)"
  using assms by (simp add: LoadRowBucketSnapshot_def Let_def row_bucket_at_def RowIndexBucket_default_def)

lemma LoadRowBucketSnapshot_empty:
  "vacant_row (RowBuckets db ! i) \<Longrightarrow> LoadRowBucketSnapshot db i = Inr (kEmpty, RowIndexBucket_default)"
  by (simp add: LoadRowBucketSnapshot_def Let_def)

text \<open>What a probe of a table in order meets: the row searched for, an empty bucket, or neither.\<close>

lemma row_probe:
  assumes os: "reads_ok os" and readable: "row_readable db" and ok: "row_bucket_ok (shards_of db) b"
    and b: "RowBuckets db ! i = b" and rowId: "rib_rowId b = rowId" and h: "rib_columnHash b = HashString column"
  obtains (same) L where "row_bucket_key (shards_of db) b = (column, rowId)" "row_bucket_at (shards_of db) b column L"
      "RowBlockMatches os db b column rowId = Inr (Some (rl_header L))"
  | (other) "row_bucket_key (shards_of db) b \<noteq> (column, rowId)" "RowBlockMatches os db b column rowId = Inr None"
proof -
  obtain c L where at: "row_bucket_at (shards_of db) b c L" using ok by (auto simp: row_bucket_ok_def)
  note m = RowBlockMatches_ok [OF os readable at rowId, of column]
  show ?thesis
  proof (cases "c = column")
    case True
    then show ?thesis using same at m row_bucket_atD(1) [OF at] rowId by simp
  next
    case False
    then show ?thesis using other m row_bucket_atD(1) [OF at] by simp
  qed
qed

definition row_found :: "Impl \<Rightarrow> bytes \<Rightarrow> u64 \<Rightarrow> nat \<Rightarrow> RowBucketLookup \<Rightarrow> bool" where
  "row_found db column rowId i r \<longleftrightarrow>
     rlk_index r = i \<and> rlk_found r = (\<not> vacant_row (RowBuckets db ! i)) \<and>
     (rlk_found r \<longrightarrow> rlk_bucket r = RowBuckets db ! i \<and>
        (\<exists>L. row_bucket_at (shards_of db) (RowBuckets db ! i) column L \<and> rlk_blockHeader r = rl_header L))"

lemma find_row_pass_ok:
  assumes os: "reads_ok os" and readable: "row_readable db"
    and ok: "\<forall>b \<in> set (RowBuckets db). \<not> vacant_row b \<longrightarrow> row_bucket_ok (shards_of db) b"
    and "set probes \<subseteq> {..<length (RowBuckets db)}"
    and "find (\<lambda>i. vacant_row (RowBuckets db ! i) \<or> row_bucket_key (shards_of db) (RowBuckets db ! i) = (column, rowId)) probes = Some i"
  shows "\<exists>r. find_row_pass os db column rowId (HashString column) probes = Done (Inr r) \<and> row_found db column rowId i r"
  using assms(4,5)
proof (induction probes)
  case Nil
  then show ?case by simp
next
  case (Cons k probes)
  define b where "b = RowBuckets db ! k"
  have mem: "b \<in> set (RowBuckets db)" using Cons.prems(1) by (simp add: b_def)
  have IH: "\<exists>r. find_row_pass os db column rowId (HashString column) probes = Done (Inr r) \<and> row_found db column rowId i r"
    if "\<not> vacant_row b" "row_bucket_key (shards_of db) b \<noteq> (column, rowId)"
    using Cons.IH Cons.prems that by (simp add: b_def)
  show ?case
  proof (cases "vacant_row b")
    case True
    then have "i = k" using Cons.prems(2) by (simp add: b_def)
    then show ?thesis
      using True LoadRowBucketSnapshot_empty [of db k] by (simp add: row_found_def b_def)
  next
    case False
    have bok: "row_bucket_ok (shards_of db) b" using ok mem False by blast
    then obtain c L where at: "row_bucket_at (shards_of db) b c L" by (auto simp: row_bucket_ok_def)
    note snap = LoadRowBucketSnapshot_filled [OF at b_def [symmetric]]
    show ?thesis
    proof (cases "rib_columnHash b \<noteq> HashString column \<or> rib_rowId b \<noteq> rowId")
      case True
      have "rib_columnHash b = HashString c" using at by (simp add: row_bucket_at_def)
      then have "row_bucket_key (shards_of db) b \<noteq> (column, rowId)"
        using True row_bucket_atD(1) [OF at] by auto
      then show ?thesis using IH [OF False] snap True by simp
    next
      case same: False
      then have r: "rib_rowId b = rowId" "rib_columnHash b = HashString column" by simp_all
      show ?thesis
      proof (cases rule: row_probe [OF os readable bok b_def [symmetric] r])
        case (1 M)
        then have "i = k" using Cons.prems(2) by (simp add: b_def)
        then show ?thesis
          using 1 snap same False by (auto simp: row_found_def b_def [symmetric])
      next
        case 2
        then show ?thesis using IH [OF False] snap same by simp
      qed
    qed
  qed
qed

lemma find_row_retry_done:
  "find_row_pass os db column rowId columnHash probes = Done r \<Longrightarrow>
    find_row_retry os db column rowId columnHash probes = Some r"
  by (subst find_row_retry.simps) simp

lemma row_probes:
  assumes "row_index_ok shards v"
  shows "probe_indices (h AND (rih_bucketCount (ri_header v) - 1)) (rih_bucketCount (ri_header v)) =
    probe_path h (length (ri_buckets v))"
proof -
  obtain k where "k \<le> 56" "rih_bucketCount (ri_header v) = 2 ^ k" "length (ri_buckets v) = 2 ^ k"
    using assms by (rule row_index_okD)
  then show ?thesis using probe_indices_pow2 [of k h] by simp
qed

lemma FindRowBucket_cases:
  assumes os: "reads_ok os" and readable: "row_readable db" and v: "mapped_data (rowIndexMap db) = Some v"
    and ok: "row_index_ok (shards_of db) v"
  obtains
    (hit) i L where "i < length (ri_buckets v)" "\<not> vacant_row (ri_buckets v ! i)"
      "row_bucket_key (shards_of db) (ri_buckets v ! i) = (column, rowId)"
      "row_bucket_at (shards_of db) (ri_buckets v ! i) column L"
      "FindRowBucket os db column rowId (HashString column) =
        Some (Inr \<lparr>rlk_index = i, rlk_found = True, rlk_bucket = ri_buckets v ! i, rlk_blockHeader = rl_header L\<rparr>)"
      "rows_map (shards_of db) (ri_buckets v) (column, rowId) = Some (layout_map L)"
  | (miss) i r where "first_vacant vacant_row (ri_buckets v) (row_hash (column, rowId)) = Some i"
      "FindRowBucket os db column rowId (HashString column) = Some (Inr r)" "rlk_index r = i" "\<not> rlk_found r"
      "\<forall>b \<in> set (occupied vacant_row (ri_buckets v)). row_bucket_key (shards_of db) b \<noteq> (column, rowId)"
      "rows_map (shards_of db) (ri_buckets v) (column, rowId) = None"
proof -
  let ?S = "shards_of db" and ?bs = "ri_buckets v"
  have B: "RowBuckets db = ?bs" and H: "RowIndexHeader db = ri_header v"
    using v by (simp_all add: RowBuckets_def RowIndexHeader_def)
  have tab: "rows_table_ok ?S ?bs" and room: "length (occupied vacant_row ?bs) < length ?bs"
    using ok by (simp_all add: row_index_ok_def)
  have each: "\<forall>b \<in> set ?bs. \<not> vacant_row b \<longrightarrow> row_bucket_ok ?S b"
    and ch: "chained vacant_row row_bucket_hash ?bs" and un: "unique_keys vacant_row (row_bucket_key ?S) ?bs"
    using tab by (simp_all add: rows_table_ok_def)
  note kd = rows_table_keyed [OF tab]
  have path: "probe_indices (MixHashes (HashString column) rowId AND (rih_bucketCount (ri_header v) - 1)) (rih_bucketCount (ri_header v)) =
      probe_path (row_hash (column, rowId)) (length ?bs)"
    using row_probes [OF ok] by (simp add: row_hash_def)
  have pass: "\<exists>r. FindRowBucket os db column rowId (HashString column) = Some (Inr r) \<and> row_found db column rowId i r"
    if i: "search_key vacant_row (row_bucket_key ?S) ?bs (row_hash (column, rowId)) (column, rowId) = Some i" for i
  proof -
    have "\<exists>r. find_row_pass os db column rowId (HashString column) (probe_path (row_hash (column, rowId)) (length ?bs)) =
        Done (Inr r) \<and> row_found db column rowId i r"
      by (rule find_row_pass_ok [OF os readable]) (use each i B in \<open>simp_all add: search_key_def\<close>)
    then show ?thesis
      using find_row_retry_done [of os db column rowId "HashString column" "probe_path (row_hash (column, rowId)) (length ?bs)"]
      by (auto simp: FindRowBucket_def H path)
  qed
  show ?thesis
  proof (cases "\<exists>i < length ?bs. \<not> vacant_row (?bs ! i) \<and> row_bucket_key ?S (?bs ! i) = (column, rowId)")
    case True
    then obtain i where i: "i < length ?bs" "\<not> vacant_row (?bs ! i)" "row_bucket_key ?S (?bs ! i) = (column, rowId)"
      by blast
    obtain r where r: "FindRowBucket os db column rowId (HashString column) = Some (Inr r)" "row_found db column rowId i r"
      using pass [OF row_index_table.search_hit [OF ch kd un i]] by blast
    obtain L where L: "row_bucket_at ?S (?bs ! i) column L"
      "r = \<lparr>rlk_index = i, rlk_found = True, rlk_bucket = ?bs ! i, rlk_blockHeader = rl_header L\<rparr>"
      using r(2) i(2) by (cases r) (auto simp: row_found_def B)
    have "?bs ! i \<in> set (occupied vacant_row ?bs)" using i(1,2) by (simp add: set_occupied)
    then have "rows_map ?S ?bs (column, rowId) = Some (layout_map L)"
      unfolding rows_map_def table_map_Some [OF un] using i(3) row_bucket_atD(2) [OF L(1)] by blast
    then show ?thesis using hit [OF i L(1)] r(1) L(2) by simp
  next
    case False
    then have none: "\<forall>b \<in> set (occupied vacant_row ?bs). row_bucket_key ?S b \<noteq> (column, rowId)"
      unfolding Ball_def in_occupied_nth by blast
    obtain i where i: "first_vacant vacant_row ?bs (row_hash (column, rowId)) = Some i"
      using room by (rule first_vacant_exists)
    obtain r where r: "FindRowBucket os db column rowId (HashString column) = Some (Inr r)" "row_found db column rowId i r"
      using pass row_index_table.search_miss [OF none] i by metis
    have "rows_map ?S ?bs (column, rowId) = None" unfolding rows_map_def table_map_None by (rule none)
    then show ?thesis
      using miss [OF i r(1)] r(2) first_vacant_SomeD(2) [OF i] none by (auto simp: row_found_def B)
  qed
qed

end
