(* ===== verification/Row_Update.thy ===== *)
theory Row_Update
  imports Row_Index
begin

text \<open>
  The effect of the row index operations on the map it stands for: insertion, replacement, the
  reservation of a slot.
\<close>

definition with_row_index :: "row_index \<Rightarrow> Impl \<Rightarrow> Impl" where
  "with_row_index v db = db\<lparr>rowIndexMap := (rowIndexMap db)\<lparr>mapped_data := Some v\<rparr>\<rparr>"

lemma with_row_index_simps [simp]:
  "mapped_data (rowIndexMap (with_row_index v db)) = Some v"
  "with_row_index w (with_row_index v db) = with_row_index w db"
  "RowBuckets (with_row_index v db) = ri_buckets v"
  "RowIndexHeader (with_row_index v db) = ri_header v"
  by (simp_all add: with_row_index_def RowBuckets_def RowIndexHeader_def)

lemma with_row_index_frame [simp]:
  "filesys (with_row_index v db) = filesys db" "rowValueFiles (with_row_index v db) = rowValueFiles db"
  "rowValueMaps (with_row_index v db) = rowValueMaps db" "rowAppendOffsets (with_row_index v db) = rowAppendOffsets db"
  "options (with_row_index v db) = options db" "rowIndexFile (with_row_index v db) = rowIndexFile db"
  "opened (with_row_index v db) = opened db" "readOnly (with_row_index v db) = readOnly db"
  "rowPendingInsertCount (with_row_index v db) = rowPendingInsertCount db"
  "mapped_writable (rowIndexMap (with_row_index v db)) = mapped_writable (rowIndexMap db)"
  "mapped_size (rowIndexMap (with_row_index v db)) = mapped_size (rowIndexMap db)"
  by (simp_all add: with_row_index_def)

lemma row_bytes_with_row_index [simp]: "row_bytes (with_row_index v db) s = row_bytes db s"
  unfolding row_bytes_def with_row_index_frame ..

lemma row_readable_with_row_index [simp]: "row_readable (with_row_index v db) = row_readable db"
  unfolding row_readable_def with_row_index_frame row_bytes_with_row_index ..

lemma shards_of_with_row_index [simp]: "shards_of (with_row_index v db) = shards_of db"
  unfolding shards_of_def with_row_index_frame by simp

lemma set_RowBucket_with:
  "mapped_data (rowIndexMap db) = Some v \<Longrightarrow>
    set_RowBucket i b db = with_row_index (v\<lparr>ri_buckets := (ri_buckets v)[i := b]\<rparr>) db"
  by (simp add: set_RowBucket_def with_row_index_def)

lemma set_RowIndexHeader_with:
  "mapped_data (rowIndexMap db) = Some v \<Longrightarrow> set_RowIndexHeader h db = with_row_index (v\<lparr>ri_header := h\<rparr>) db"
  by (simp add: set_RowIndexHeader_def with_row_index_def)

definition count_row :: "row_index \<Rightarrow> row_index" where
  "count_row v = v\<lparr>ri_header := (ri_header v)\<lparr>rih_itemCount := rih_itemCount (ri_header v) + 1\<rparr>\<rparr>"

lemma increment_row_with:
  "mapped_data (rowIndexMap db) = Some v \<Longrightarrow> increment_rowItemCount db = with_row_index (count_row v) db"
  by (simp add: increment_rowItemCount_def set_RowIndexHeader_with RowIndexHeader_def count_row_def)

lemma count_row_simps [simp]:
  "ri_buckets (count_row v) = ri_buckets v"
  "rih_itemCount (ri_header (count_row v)) = rih_itemCount (ri_header v) + 1"
  "rih_bucketCount (ri_header (count_row v)) = rih_bucketCount (ri_header v)"
  "rih_shardCount (ri_header (count_row v)) = rih_shardCount (ri_header v)"
  "row_header_ok (ri_header (count_row v)) = row_header_ok (ri_header v)"
  by (simp_all add: count_row_def)

subsection \<open>One bucket changes\<close>

lemma row_insert:
  assumes ok: "row_index_ok shards v"
    and room: "length (occupied vacant_row (ri_buckets v)) + 1 < length (ri_buckets v)"
    and free: "first_vacant vacant_row (ri_buckets v) (row_hash (column, rowId)) = Some i"
    and at: "row_bucket_at shards b column L" and r: "rib_rowId b = rowId"
    and new: "\<forall>b' \<in> set (occupied vacant_row (ri_buckets v)). row_bucket_key shards b' \<noteq> (column, rowId)"
  shows "row_index_ok shards (count_row (v\<lparr>ri_buckets := (ri_buckets v)[i := b]\<rparr>)) \<and>
    rows_map shards ((ri_buckets v)[i := b]) = (rows_map shards (ri_buckets v))((column, rowId) \<mapsto> layout_map L)"
proof -
  let ?bs = "ri_buckets v"
  have b: "\<not> vacant_row b" using at by (simp add: row_bucket_at_def)
  note bk = row_bucket_atD [OF at, unfolded r]
  note i = first_vacant_SomeD [OF free]
  have tab: "\<forall>b \<in> set ?bs. \<not> vacant_row b \<longrightarrow> row_bucket_ok shards b"
      "chained vacant_row row_bucket_hash ?bs" "unique_keys vacant_row (row_bucket_key shards) ?bs"
      "\<forall>b \<in> set ?bs. rib_reserved64 b = 0 \<and> rib_reserved65 b = 0"
    using ok by (simp_all add: row_index_ok_def rows_table_ok_def)
  have sub: "set (?bs[i := b]) \<subseteq> insert b (set ?bs)" by (rule set_update_subset_insert)
  have occ: "length (occupied vacant_row (?bs[i := b])) = Suc (length (occupied vacant_row ?bs))"
    by (rule occupied_update_vacant [of i ?bs vacant_row b, OF i(1,2) b])
  have cnt: "unat (rih_itemCount (ri_header v) + 1) = Suc (unat (rih_itemCount (ri_header v)))"
  proof -
    obtain k where "k \<le> 56" "length ?bs = 2 ^ k" using ok by (rule row_index_okD)
    moreover have "(2 :: nat) ^ k \<le> 2 ^ 56" using \<open>k \<le> 56\<close> by (intro power_increasing) simp_all
    ultimately have "unat (rih_itemCount (ri_header v)) < 2 ^ 56"
      using ok room by (simp add: row_index_ok_def)
    then show ?thesis using unat_add_of_nat64 [of "rih_itemCount (ri_header v)" 1] by simp
  qed
  have new': "\<forall>b' \<in> set (occupied vacant_row ?bs). row_bucket_key shards b' \<noteq> row_bucket_key shards b"
    using new bk(1) by simp
  have un: "unique_keys vacant_row (row_bucket_key shards) (?bs[i := b])"
    by (rule unique_keys_insert [where vacant = vacant_row, OF i(1,2) b tab(3) new'])
  have ch: "chained vacant_row row_bucket_hash (?bs[i := b])"
    by (rule row_index_table.chained_insert [OF tab(2) _ b]) (use free bk(3) in simp)
  have bok: "row_bucket_ok shards b" "rib_reserved64 b = 0 \<and> rib_reserved65 b = 0"
    using at by (auto simp: row_bucket_ok_def row_bucket_at_def)
  have "rows_table_ok shards (?bs[i := b])"
    unfolding rows_table_ok_def using sub tab(1,4) bok ch un by auto
  then have "row_index_ok shards (count_row (v\<lparr>ri_buckets := ?bs[i := b]\<rparr>))"
    using ok room occ cnt unfolding row_index_ok_def by simp
  moreover have "rows_map shards (?bs[i := b]) = (rows_map shards ?bs)((column, rowId) \<mapsto> layout_map L)"
    unfolding rows_map_def table_map_insert [where vacant = vacant_row, OF i(1,2) b tab(3) new'] bk ..
  ultimately show ?thesis by blast
qed

lemma row_replace:
  assumes ok: "row_index_ok shards v"
    and i: "i < length (ri_buckets v)" "\<not> vacant_row (ri_buckets v ! i)"
      "row_bucket_key shards (ri_buckets v ! i) = (column, rowId)"
    and at: "row_bucket_at shards b column L" and r: "rib_rowId b = rowId"
  shows "row_index_ok shards (v\<lparr>ri_buckets := (ri_buckets v)[i := b]\<rparr>) \<and>
    rows_map shards ((ri_buckets v)[i := b]) = (rows_map shards (ri_buckets v))((column, rowId) \<mapsto> layout_map L)"
proof -
  let ?bs = "ri_buckets v"
  have b: "\<not> vacant_row b" using at by (simp add: row_bucket_at_def)
  note bk = row_bucket_atD [OF at, unfolded r]
  have rt: "rows_table_ok shards ?bs" using ok by (simp add: row_index_ok_def)
  have tab: "\<forall>b \<in> set ?bs. \<not> vacant_row b \<longrightarrow> row_bucket_ok shards b"
      "chained vacant_row row_bucket_hash ?bs" "unique_keys vacant_row (row_bucket_key shards) ?bs"
      "\<forall>b \<in> set ?bs. rib_reserved64 b = 0 \<and> rib_reserved65 b = 0"
    using rt by (simp_all add: rows_table_ok_def)
  have same: "row_bucket_key shards (?bs ! i) = row_bucket_key shards b" using i(3) bk(1) by simp
  have "row_bucket_hash (?bs ! i) = row_hash (column, rowId)"
    using rows_table_keyed [OF rt] i by (auto simp: keyed_def)
  then have hash: "row_bucket_hash b = row_bucket_hash (?bs ! i)" using bk(3) by simp
  have sub: "set (?bs[i := b]) \<subseteq> insert b (set ?bs)" by (rule set_update_subset_insert)
  have occ: "length (occupied vacant_row (?bs[i := b])) = length (occupied vacant_row ?bs)"
    by (rule occupied_update_taken [of i ?bs vacant_row b, OF i(1,2) b])
  have un: "unique_keys vacant_row (row_bucket_key shards) (?bs[i := b])"
    by (rule unique_keys_replace [where vacant = vacant_row, OF i(1,2) b tab(3) same])
  have ch: "chained vacant_row row_bucket_hash (?bs[i := b])"
    by (rule row_index_table.chained_replace [OF tab(2) i(1,2) b hash])
  have bok: "row_bucket_ok shards b" "rib_reserved64 b = 0 \<and> rib_reserved65 b = 0"
    using at by (auto simp: row_bucket_ok_def row_bucket_at_def)
  have "rows_table_ok shards (?bs[i := b])"
    unfolding rows_table_ok_def using sub tab(1,4) bok ch un by auto
  then have "row_index_ok shards (v\<lparr>ri_buckets := ?bs[i := b]\<rparr>)"
    using ok occ unfolding row_index_ok_def by simp
  moreover have "rows_map shards (?bs[i := b]) = (rows_map shards ?bs)((column, rowId) \<mapsto> layout_map L)"
    unfolding rows_map_def table_map_replace [where vacant = vacant_row, OF i(1,2) b tab(3) same] bk ..
  ultimately show ?thesis by blast
qed

subsection \<open>\<open>InsertOrUpdateRowBucket\<close>\<close>

lemma insert_row_pass_ok:
  assumes os: "reads_ok os" and readable: "row_readable db"
    and ok: "\<forall>b \<in> set (RowBuckets db). \<not> vacant_row b \<longrightarrow> row_bucket_ok (shards_of db) b"
    and data: "rd_columnHash data = HashString column"
    and "set probes \<subseteq> {..<length (RowBuckets db)}"
    and "find (\<lambda>i. vacant_row (RowBuckets db ! i) \<or>
        row_bucket_key (shards_of db) (RowBuckets db ! i) = (column, rd_rowId data)) probes = Some i"
  shows "insert_row_pass os db column data probes =
    Done (Ok, vacant_row (RowBuckets db ! i), publish_row_bucket i data db)"
  using assms(5,6)
proof (induction probes)
  case Nil
  then show ?case by simp
next
  case (Cons k probes)
  define b where "b = RowBuckets db ! k"
  have mem: "b \<in> set (RowBuckets db)" using Cons.prems(1) by (simp add: b_def)
  have IH: "insert_row_pass os db column data probes =
      Done (Ok, vacant_row (RowBuckets db ! i), publish_row_bucket i data db)"
    if "\<not> vacant_row b" "row_bucket_key (shards_of db) b \<noteq> (column, rd_rowId data)"
    using Cons.IH Cons.prems that by (simp add: b_def)
  show ?case
  proof (cases "vacant_row b")
    case True
    then have "i = k" using Cons.prems(2) by (simp add: b_def)
    then show ?thesis using True LoadRowBucketSnapshot_empty [of db k] by (simp add: b_def)
  next
    case False
    have bok: "row_bucket_ok (shards_of db) b" using ok mem False by blast
    then obtain c L where at: "row_bucket_at (shards_of db) b c L" by (auto simp: row_bucket_ok_def)
    note snap = LoadRowBucketSnapshot_filled [OF at b_def [symmetric]]
    show ?thesis
    proof (cases "rib_columnHash b \<noteq> rd_columnHash data \<or> rib_rowId b \<noteq> rd_rowId data")
      case True
      have "rib_columnHash b = HashString c" using at by (simp add: row_bucket_at_def)
      then have "row_bucket_key (shards_of db) b \<noteq> (column, rd_rowId data)"
        using True data row_bucket_atD(1) [OF at] by auto
      then show ?thesis using IH [OF False] snap True by simp
    next
      case same: False
      then have r: "rib_rowId b = rd_rowId data" "rib_columnHash b = HashString column" using data by simp_all
      show ?thesis
      proof (cases rule: row_probe [OF os readable bok b_def [symmetric] r])
        case (1 M)
        then have "i = k" using Cons.prems(2) by (simp add: b_def)
        then show ?thesis using 1 snap same False by (simp add: b_def [symmetric])
      next
        case 2
        then show ?thesis using IH [OF False] snap same by simp
      qed
    qed
  qed
qed

lemma insert_row_retry_done:
  "insert_row_pass os db column data probes = Done r \<Longrightarrow> insert_row_retry os db column data probes = Some r"
  by (subst insert_row_retry.simps) simp

text \<open>The bucket a publication leaves behind.\<close>

definition data_bucket :: "RowBucketData \<Rightarrow> RowIndexBucket" where
  "data_bucket data =
     (StoreRowBucketData RowIndexBucket_default data)\<lparr>rib_state := kRowBucketFilled\<rparr>"

lemma publish_row_bucket_with:
  assumes v: "mapped_data (rowIndexMap db) = Some v"
    and res: "rib_reserved64 (ri_buckets v ! i) = 0" "rib_reserved65 (ri_buckets v ! i) = 0"
  shows "publish_row_bucket i data db = with_row_index (v\<lparr>ri_buckets := (ri_buckets v)[i := data_bucket data]\<rparr>) db"
proof -
  have "RowBuckets db = ri_buckets v" using v by (simp add: RowBuckets_def)
  moreover have "(StoreRowBucketData (ri_buckets v ! i) data)\<lparr>rib_state := kRowBucketFilled\<rparr> = data_bucket data"
    using res by (simp add: StoreRowBucketData_def data_bucket_def RowIndexBucket_default_def)
  ultimately show ?thesis by (simp add: publish_row_bucket_def set_RowBucket_with [OF v])
qed

lemma InsertOrUpdateRowBucket_cases:
  assumes os: "reads_ok os" and readable: "row_readable db" and v: "mapped_data (rowIndexMap db) = Some v"
    and ok: "row_index_ok (shards_of db) v" and col: "rd_columnHash data = HashString column"
    and room: "rows_map (shards_of db) (ri_buckets v) (column, rd_rowId data) = None \<longrightarrow>
      length (occupied vacant_row (ri_buckets v)) + 1 < length (ri_buckets v)"
    and at: "row_bucket_at (shards_of db) (data_bucket data) column L"
  obtains (hit) w where
      "InsertOrUpdateRowBucket os db column data = Some (Ok, False, with_row_index w db)"
      "row_index_ok (shards_of db) w"
      "rows_map (shards_of db) (ri_buckets w) =
        (rows_map (shards_of db) (ri_buckets v))((column, rd_rowId data) \<mapsto> layout_map L)"
      "rows_map (shards_of db) (ri_buckets v) (column, rd_rowId data) \<noteq> None"
      "ri_header w = ri_header v"
  | (miss) w where
      "InsertOrUpdateRowBucket os db column data = Some (Ok, True, with_row_index w db)"
      "row_index_ok (shards_of db) (count_row w)"
      "rows_map (shards_of db) (ri_buckets w) =
        (rows_map (shards_of db) (ri_buckets v))((column, rd_rowId data) \<mapsto> layout_map L)"
      "rows_map (shards_of db) (ri_buckets v) (column, rd_rowId data) = None"
      "ri_header w = ri_header v"
proof -
  let ?S = "shards_of db" and ?bs = "ri_buckets v" and ?r = "rd_rowId data"
  have B: "RowBuckets db = ?bs" and H: "RowIndexHeader db = ri_header v"
    using v by (simp_all add: RowBuckets_def RowIndexHeader_def)
  have r: "rib_rowId (data_bucket data) = ?r" by (simp add: data_bucket_def StoreRowBucketData_def)
  have tab: "rows_table_ok ?S ?bs" and free: "length (occupied vacant_row ?bs) < length ?bs"
    using ok by (simp_all add: row_index_ok_def)
  have each: "\<forall>b \<in> set ?bs. \<not> vacant_row b \<longrightarrow> row_bucket_ok ?S b"
    and res: "\<forall>b \<in> set ?bs. rib_reserved64 b = 0 \<and> rib_reserved65 b = 0"
    and ch: "chained vacant_row row_bucket_hash ?bs" and un: "unique_keys vacant_row (row_bucket_key ?S) ?bs"
    using tab by (simp_all add: rows_table_ok_def)
  note kd = rows_table_keyed [OF tab]
  have path: "probe_indices (MixHashes (rd_columnHash data) ?r AND (rih_bucketCount (ri_header v) - 1)) (rih_bucketCount (ri_header v)) =
      probe_path (row_hash (column, ?r)) (length ?bs)"
    using row_probes [OF ok] by (simp add: row_hash_def col)
  have run: "InsertOrUpdateRowBucket os db column data =
      Some (Ok, vacant_row (?bs ! i), with_row_index (v\<lparr>ri_buckets := ?bs[i := data_bucket data]\<rparr>) db)"
    if i: "search_key vacant_row (row_bucket_key ?S) ?bs (row_hash (column, ?r)) (column, ?r) = Some i"
      and lt: "i < length ?bs" for i
  proof -
    have "insert_row_pass os db column data (probe_path (row_hash (column, ?r)) (length ?bs)) =
        Done (Ok, vacant_row (RowBuckets db ! i), publish_row_bucket i data db)"
      by (rule insert_row_pass_ok [OF os readable _ col]) (use each i B in \<open>simp_all add: search_key_def\<close>)
    moreover have "publish_row_bucket i data db = with_row_index (v\<lparr>ri_buckets := ?bs[i := data_bucket data]\<rparr>) db"
      by (rule publish_row_bucket_with [OF v]) (use res lt in simp_all)
    ultimately show ?thesis
      by (simp add: InsertOrUpdateRowBucket_def H path insert_row_retry_done B)
  qed
  show ?thesis
  proof (cases "\<exists>i < length ?bs. \<not> vacant_row (?bs ! i) \<and> row_bucket_key ?S (?bs ! i) = (column, ?r)")
    case True
    then obtain i where i: "i < length ?bs" "\<not> vacant_row (?bs ! i)" "row_bucket_key ?S (?bs ! i) = (column, ?r)"
      by blast
    have "?bs ! i \<in> set (occupied vacant_row ?bs)" using i(1,2) by (simp add: set_occupied)
    then have "rows_map ?S ?bs (column, ?r) \<noteq> None" unfolding rows_map_def table_map_None using i(3) by blast
    then show ?thesis
      using hit [of "v\<lparr>ri_buckets := ?bs[i := data_bucket data]\<rparr>"] i(2)
        run [OF row_index_table.search_hit [OF ch kd un i] i(1)] row_replace [OF ok i at r] by simp
  next
    case False
    then have none: "\<forall>b \<in> set (occupied vacant_row ?bs). row_bucket_key ?S b \<noteq> (column, ?r)"
      unfolding Ball_def in_occupied_nth by blast
    obtain i where i: "first_vacant vacant_row ?bs (row_hash (column, ?r)) = Some i"
      using free by (rule first_vacant_exists)
    have s: "search_key vacant_row (row_bucket_key ?S) ?bs (row_hash (column, ?r)) (column, ?r) = Some i"
      using row_index_table.search_miss [OF none] i by simp
    have none': "rows_map ?S ?bs (column, ?r) = None" unfolding rows_map_def table_map_None by (rule none)
    have room': "length (occupied vacant_row ?bs) + 1 < length ?bs" using room none' by blast
    show ?thesis
      using miss [of "v\<lparr>ri_buckets := ?bs[i := data_bucket data]\<rparr>"] none' first_vacant_SomeD(2) [OF i]
        run [OF s first_vacant_SomeD(1) [OF i]] row_insert [OF ok room' i at r none] by simp
  qed
qed

end
