(* ===== verification/Row_Api.thy ===== *)
theory Row_Api
  imports Row_Update Interfaces
begin

text \<open>
  The row operations of \<open>Database::Impl\<close>: writing a whole row, changing one key of a row, and
  reading a key of a row.  Each write appends one block to a shard and points the bucket of the
  row at it.
\<close>

definition NextRowSequence :: "Impl \<Rightarrow> u64 \<times> Impl" where
  "NextRowSequence db =
     (let h = RowIndexHeader db
      in (rih_nextSequence h, set_RowIndexHeader (h\<lparr>rih_nextSequence := rih_nextSequence h + 1\<rparr>) db))"

text \<open>
  The append offset moves before the block is written, so a failed write leaves a hole.  \<open>None\<close>
  is a call that does not return or whose behaviour C++ leaves undefined.
\<close>

definition WriteRowStructs ::
  "os \<Rightarrow> Impl \<Rightarrow> bytes \<Rightarrow> u64 \<Rightarrow> RowStructEntry list \<Rightarrow> bool \<Rightarrow> (Status \<times> Impl) option" where
  "WriteRowStructs os db column rowId entries reserveInsertSlot =
     (if \<not> opened db then Some (NotOpen ''database is not open'', db)
      else if readOnly db then Some (InvalidArgument ''database is read-only'', db)
      else if \<not> FitsUint32 (length column)
      then Some (InvalidArgument ''column must fit in uint32 length'', db)
      else if entries = [] then Some (InvalidArgument ''row entries must not be empty'', db)
      else
        let columnHash = HashString column;
            (status, db1) = (if reserveInsertSlot then ReserveRowIndexInsertSlot db else (Ok, db));
            release = (\<lambda>d. if reserveInsertSlot then ReleaseRowIndexInsertSlot d else d)
        in if \<not> IsOk status then Some (status, db1)
           else
             let (sequence, db2) = NextRowSequence db1
             in case BuildRowBlockLayout db2 column rowId entries sequence columnHash of
                 None \<Rightarrow> None
               | Some (Inl status) \<Rightarrow> Some (status, release db2)
               | Some (Inr layout) \<Rightarrow>
                   let shardId = ShardForRow db2 columnHash rowId;
                       blockOffset = rowAppendOffsets db2 ! unat shardId;
                       db3 = db2\<lparr>rowAppendOffsets := (rowAppendOffsets db2)
                               [unat shardId := blockOffset + rb_blockSize (rl_header layout)]\<rparr>;
                       (status, fs) = WriteVAllAt os (filesys db3) (rowValueFiles db3 ! unat shardId)
                                        (block_slices column layout) blockOffset;
                       db4 = db3\<lparr>filesys := fs\<rparr>
                   in if \<not> IsOk status then Some (status, release db4)
                      else
                        let bucket = \<lparr>rd_columnHash = columnHash, rd_rowId = rowId, rd_shardId = shardId,
                              rd_blockOffset = blockOffset, rd_blockSize = rb_blockSize (rl_header layout),
                              rd_sequence = sequence\<rparr>
                        in case InsertOrUpdateRowBucket os db4 column bucket of
                            None \<Rightarrow> None
                          | Some (status, inserted, db5) \<Rightarrow>
                              if \<not> IsOk status then Some (status, release db5)
                              else Some (Ok, release (if inserted then increment_rowItemCount db5 else db5)))"

definition PutRowStructs ::
  "os \<Rightarrow> Impl \<Rightarrow> bytes \<Rightarrow> u64 \<Rightarrow> RowStructEntry list \<Rightarrow> (Status \<times> Impl) option" where
  "PutRowStructs os db column rowId entries = WriteRowStructs os db column rowId entries True"

text \<open>\<open>Inr (found, entries)\<close>: the keys and values of the row, in bucket order.\<close>

definition LoadRowEntries ::
  "os \<Rightarrow> Impl \<Rightarrow> bytes \<Rightarrow> u64 \<Rightarrow> u64 \<Rightarrow> (Status + bool \<times> bytes list \<times> bytes list) option" where
  "LoadRowEntries os db column rowId columnHash =
     (case FindRowBucket os db column rowId columnHash of
        None \<Rightarrow> None
      | Some (Inl status) \<Rightarrow> Some (Inl status)
      | Some (Inr lookup) \<Rightarrow>
          if \<not> rlk_found lookup then Some (Inr (False, [], []))
          else case LoadFilledRowBucketSnapshot db (rlk_index lookup) of
              None \<Rightarrow> None
            | Some (Inl status) \<Rightarrow> Some (Inl status)
            | Some (Inr bucket) \<Rightarrow>
                (case LoadRowBlock os db bucket of
                   Inl status \<Rightarrow> Some (Inl status)
                 | Inr block \<Rightarrow>
                     (case DecodeRowBlockEntries block column rowId of
                        None \<Rightarrow> None
                      | Some (Inl status) \<Rightarrow> Some (Inl status)
                      | Some (Inr (keys, vals)) \<Rightarrow> Some (Inr (True, keys, vals)))))"

text \<open>The first value whose key is the given one is replaced; otherwise the pair is appended.\<close>

definition replace_or_add :: "bytes \<Rightarrow> bytes \<Rightarrow> bytes list \<Rightarrow> bytes list \<Rightarrow> bytes list \<times> bytes list" where
  "replace_or_add key flatBufferBytes keys vals =
     (case find (\<lambda>index. keys ! index = key) [0..<length keys] of
        Some index \<Rightarrow> (keys, vals[index := flatBufferBytes])
      | None \<Rightarrow> (keys @ [key], vals @ [flatBufferBytes]))"

definition row_entries :: "bytes list \<Rightarrow> bytes list \<Rightarrow> RowStructEntry list" where
  "row_entries keys vals = map (\<lambda>(key, bs). \<lparr>re_key = key, re_bytes = bs\<rparr>) (zip keys vals)"

definition PutRowStruct ::
  "os \<Rightarrow> Impl \<Rightarrow> bytes \<Rightarrow> u64 \<Rightarrow> bytes \<Rightarrow> bytes \<Rightarrow> (Status \<times> Impl) option" where
  "PutRowStruct os db column rowId key flatBufferBytes =
     (if \<not> opened db then Some (NotOpen ''database is not open'', db)
      else if readOnly db then Some (InvalidArgument ''database is read-only'', db)
      else if \<not> FitsUint32 (length column) \<or> \<not> FitsUint32 (length key)
      then Some (InvalidArgument ''column and key must fit in uint32 length'', db)
      else case LoadRowEntries os db column rowId (HashString column) of
          None \<Rightarrow> None
        | Some (Inl status) \<Rightarrow> Some (status, db)
        | Some (Inr (found, keys, vals)) \<Rightarrow>
            let (keys', vals') = replace_or_add key flatBufferBytes keys vals
            in WriteRowStructs os db column rowId (row_entries keys' vals') (\<not> found))"

definition GetRowStruct :: "os \<Rightarrow> Impl \<Rightarrow> bytes \<Rightarrow> u64 \<Rightarrow> bytes \<Rightarrow> (Status + bytes) option" where
  "GetRowStruct os db column rowId key =
     (if \<not> opened db then Some (Inl (NotOpen ''database is not open''))
      else case FindRowBucket os db column rowId (HashString column) of
          None \<Rightarrow> None
        | Some (Inl status) \<Rightarrow> Some (Inl status)
        | Some (Inr lookup) \<Rightarrow>
            if \<not> rlk_found lookup then Some (Inl (NotFound ''row not found''))
            else Some (FindValueInRowBlockAt os db (rlk_bucket lookup) (rlk_blockHeader lookup) key))"

subsection \<open>The rows of a database\<close>

definition rows :: "Impl \<Rightarrow> (bytes \<times> u64 \<rightharpoonup> (bytes \<rightharpoonup> bytes))" where
  "rows db = rows_map (shards_of db) (RowBuckets db)"

text \<open>A database whose rows can be read.\<close>

definition rows_readable :: "Impl \<Rightarrow> bool" where
  "rows_readable db \<longleftrightarrow>
     opened db \<and> row_readable db \<and>
     (\<exists>v. mapped_data (rowIndexMap db) = Some v \<and> row_index_ok (shards_of db) v)"

definition row_result :: "(bytes \<rightharpoonup> bytes) option \<Rightarrow> bytes \<Rightarrow> Status + bytes" where
  "row_result row key =
     (case row of None \<Rightarrow> Inl (NotFound ''row not found'') | Some m \<Rightarrow> row_lookup (m key))"

lemma GetRowStruct_ok:
  assumes os: "reads_ok os" and db: "rows_readable db"
  shows "GetRowStruct os db column rowId key = Some (row_result (rows db (column, rowId)) key)"
proof -
  obtain v where v: "mapped_data (rowIndexMap db) = Some v" and ok: "row_index_ok (shards_of db) v"
    and op: "opened db" and readable: "row_readable db"
    using db by (auto simp: rows_readable_def)
  have B: "RowBuckets db = ri_buckets v" using v by (simp add: RowBuckets_def)
  show ?thesis
  proof (cases rule: FindRowBucket_cases [OF os readable v ok, where column = column and rowId = rowId])
    case (1 i L)
    let ?b = "ri_buckets v ! i"
    have s: "unat (rib_shardId ?b) < length (rowValueFiles db)"
      and blk: "block_at (row_bytes db (unat (rib_shardId ?b))) (unat (rib_blockOffset ?b)) column L"
      and lok: "layout_ok column (rib_rowId ?b) L" and size: "rib_blockSize ?b = rb_blockSize (rl_header L)"
      using 1(4) by (auto simp: row_bucket_at_def)
    show ?thesis
      using op 1(6) FindValueInRowBlockAt_ok [OF os readable s blk lok size, of key]
      by (simp add: GetRowStruct_def 1(5) rows_def B row_result_def)
  next
    case (2 i r)
    then show ?thesis using op by (simp add: GetRowStruct_def rows_def B row_result_def)
  qed
qed

lemma LoadRowEntries_ok:
  assumes os: "reads_ok os" and db: "rows_readable db"
  obtains (found) keys vals m where "rows db (column, rowId) = Some m"
      "LoadRowEntries os db column rowId (HashString column) = Some (Inr (True, keys, vals))"
      "distinct keys" "length vals = length keys" "m = map_of (zip keys vals)"
  | (absent) "rows db (column, rowId) = None"
      "LoadRowEntries os db column rowId (HashString column) = Some (Inr (False, [], []))"
proof -
  obtain v where v: "mapped_data (rowIndexMap db) = Some v" and ok: "row_index_ok (shards_of db) v"
    and readable: "row_readable db"
    using db by (auto simp: rows_readable_def)
  have B: "RowBuckets db = ri_buckets v" using v by (simp add: RowBuckets_def)
  show ?thesis
  proof (cases rule: FindRowBucket_cases [OF os readable v ok, where column = column and rowId = rowId])
    case (1 i L)
    define b where "b = ri_buckets v ! i"
    have at: "row_bucket_at (shards_of db) b column L" using 1(4) by (simp add: b_def)
    have s: "unat (rib_shardId b) < length (rowValueFiles db)"
      and blk: "block_at (row_bytes db (unat (rib_shardId b))) (unat (rib_blockOffset b)) column L"
      and lok: "layout_ok column (rib_rowId b) L" and size: "rib_blockSize b = rb_blockSize (rl_header L)"
      using at by (auto simp: row_bucket_at_def)
    have rid: "rib_rowId b = rowId" using 1(3) by (simp add: row_bucket_key_def b_def)
    have "LoadRowBucketSnapshot db i = Inr (kFilled, b)"
      by (rule LoadRowBucketSnapshot_filled [OF at]) (simp add: B b_def)
    then have snap: "LoadFilledRowBucketSnapshot db i = Some (Inr b)"
      by (subst LoadFilledRowBucketSnapshot.simps) simp
    have le: "unat (rib_blockOffset b) + unat (rib_blockSize b) \<le> length (row_bytes db (unat (rib_shardId b)))"
      using blk size layout_okD(12) [OF lok] by (simp add: block_at_def)
    have load: "LoadRowBlock os db b = Inr (block_bytes column L)"
      using ReadRowValueAt_ok [OF os readable s refl le] s block_at_header(4) [OF blk lok] size
      by (simp add: LoadRowBlock_def)
    have dec: "DecodeRowBlockEntries (block_bytes column L) column rowId =
        Some (Inr (map fst (layout_entries L), map snd (layout_entries L)))"
      using DecodeRowBlockEntries_ok [OF lok] by (simp add: rid)
    show ?thesis
    proof (rule found)
      show "rows db (column, rowId) = Some (layout_map L)" using 1(6) by (simp add: rows_def B)
      show "LoadRowEntries os db column rowId (HashString column) =
          Some (Inr (True, map fst (layout_entries L), map snd (layout_entries L)))"
        by (simp add: LoadRowEntries_def 1(5) snap load dec)
      show "distinct (map fst (layout_entries L))" by (rule layout_entries_map(2) [OF lok])
      show "layout_map L = map_of (zip (map fst (layout_entries L)) (map snd (layout_entries L)))"
        using layout_entries_map(1) [OF lok] by (simp only: zip_map_fst_snd)
    qed simp
  next
    case (2 i r)
    then show ?thesis using absent by (simp add: LoadRowEntries_def rows_def B)
  qed
qed

end
