(* ===== verification/Row_Writes.thy ===== *)
theory Row_Writes
  imports Row_Api
begin

text \<open>
  The invariant of an open, writable row store, and the proof that a row write either replaces
  the row or leaves all rows as they were.
\<close>

definition row_core_ok :: "Impl \<Rightarrow> bool" where
  "row_core_ok db \<longleftrightarrow>
     opened db \<and> \<not> readOnly db \<and>
     0 < length (rowValueFiles db) \<and> length (rowValueFiles db) < 2 ^ 32 \<and>
     length (rowAppendOffsets db) = length (rowValueFiles db) \<and>
     None \<notin> set (rowValueFiles db) \<and> distinct (rowValueFiles db) \<and>
     (\<forall>m \<in> set (rowValueMaps db). \<not> IsMapped m) \<and>
     (\<forall>s < length (rowValueFiles db). length (row_bytes db s) \<le> unat (rowAppendOffsets db ! s) \<and>
        unat (rowAppendOffsets db ! s) < 2 ^ 63) \<and>
     rowIndexFile db \<noteq> None \<and> rowIndexFile db \<notin> set (rowValueFiles db) \<and>
     mapped_writable (rowIndexMap db) \<and>
     (\<exists>v. mapped_data (rowIndexMap db) = Some v \<and> row_index_ok (shards_of db) v)"

text \<open>Between calls no insertion is pending.\<close>

definition row_ok :: "Impl \<Rightarrow> bool" where
  "row_ok db \<longleftrightarrow> row_core_ok db \<and> rowPendingInsertCount db = 0"

lemma row_core_ok_readable:
  assumes "row_core_ok db"
  shows "rows_readable db"
proof -
  have "row_readable db"
    unfolding row_readable_def
  proof (intro allI impI conjI)
    fix s
    assume s: "s < length (rowValueFiles db)"
    show "length (row_bytes db s) < 2 ^ 63" using assms s unfolding row_core_ok_def by (meson le_less_trans)
    have "\<not> (s < length (rowValueMaps db) \<and> IsMapped (rowValueMaps db ! s))"
      using assms unfolding row_core_ok_def by (meson nth_mem)
    moreover have "rowValueFiles db ! s \<noteq> None" using assms s unfolding row_core_ok_def by (metis nth_mem)
    ultimately show "if s < length (rowValueMaps db) \<and> IsMapped (rowValueMaps db ! s)
         then unat (mapped_size (rowValueMaps db ! s)) = length (row_bytes db s)
         else rowValueFiles db ! s \<noteq> None" by auto
  qed
  then show ?thesis using assms by (simp add: row_core_ok_def rows_readable_def)
qed

lemma row_ok_readable: "row_ok db \<Longrightarrow> rows_readable db"
  by (simp add: row_ok_def row_core_ok_readable)

lemma rows_with_row_index [simp]: "rows (with_row_index w db) = rows_map (shards_of db) (ri_buckets w)"
  by (simp add: rows_def)

lemma row_core_ok_with_row_index:
  "row_core_ok db \<Longrightarrow> row_index_ok (shards_of db) w \<Longrightarrow> row_core_ok (with_row_index w db)"
  by (simp add: row_core_ok_def)

lemma row_bytes_pending [simp]: "row_bytes (db\<lparr>rowPendingInsertCount := n\<rparr>) s = row_bytes db s"
  by (simp add: row_bytes_def)

lemma shards_of_pending [simp]: "shards_of (db\<lparr>rowPendingInsertCount := n\<rparr>) = shards_of db"
  by (simp add: shards_of_def)

lemma row_core_ok_pending: "row_core_ok (db\<lparr>rowPendingInsertCount := n\<rparr>) = row_core_ok db"
  by (simp add: row_core_ok_def)

lemma rows_pending: "rows (db\<lparr>rowPendingInsertCount := n\<rparr>) = rows db"
  by (simp add: rows_def RowBuckets_def)

text \<open>Two states with the same row part.\<close>

definition same_rows :: "Impl \<Rightarrow> Impl \<Rightarrow> bool" where
  "same_rows db db' \<longleftrightarrow>
     opened db' = opened db \<and> readOnly db' = readOnly db \<and> rowValueFiles db' = rowValueFiles db \<and>
     rowValueMaps db' = rowValueMaps db \<and> rowAppendOffsets db' = rowAppendOffsets db \<and>
     rowIndexFile db' = rowIndexFile db \<and> rowIndexMap db' = rowIndexMap db \<and>
     rowPendingInsertCount db' = rowPendingInsertCount db \<and>
     (\<forall>s < length (rowValueFiles db). row_bytes db' s = row_bytes db s)"

lemma same_rows:
  assumes "same_rows db db'"
  shows "shards_of db' = shards_of db" "row_ok db' = row_ok db" "rows db' = rows db"
proof -
  show sh: "shards_of db' = shards_of db" using assms by (simp add: same_rows_def shards_of_def)
  show "row_ok db' = row_ok db"
    unfolding row_ok_def row_core_ok_def sh using assms by (simp add: same_rows_def)
  show "rows db' = rows db" unfolding rows_def sh using assms by (simp add: same_rows_def RowBuckets_def)
qed

text \<open>A row that fits the formats and the files.\<close>

definition row_write_fits :: "Impl \<Rightarrow> bytes \<Rightarrow> RowStructEntry list \<Rightarrow> bool" where
  "row_write_fits db column entries \<longleftrightarrow>
     entries \<noteq> [] \<and> (\<forall>off \<in> set (rowAppendOffsets db). unat off < 2 ^ 62) \<and>
     (case maxLoadFactor (options db) of Fin f \<Rightarrow> row_fits f column entries | _ \<Rightarrow> False)"

text \<open>What a row write may touch.\<close>

definition row_frame :: "Impl \<Rightarrow> Impl \<Rightarrow> bool" where
  "row_frame db db' \<longleftrightarrow>
     (\<exists>fs m offs. db' = db\<lparr>filesys := fs, rowIndexMap := m, rowAppendOffsets := offs\<rparr> \<and>
        dirs fs = dirs (filesys db) \<and>
        (\<forall>path. Some path \<notin> set (rowValueFiles db) \<longrightarrow> files fs path = files (filesys db) path))"

lemma row_frame_refl: "row_frame db db"
  unfolding row_frame_def
  by (intro exI [of _ "filesys db"] exI [of _ "rowIndexMap db"] exI [of _ "rowAppendOffsets db"]) simp

subsection \<open>Reserving a slot\<close>

lemma reserve_room:
  assumes ok: "row_index_ok shards v" and v: "mapped_data (rowIndexMap db) = Some v"
    and pend: "rowPendingInsertCount db = 0" and f: "maxLoadFactor (options db) = Fin f" "f < 1"
    and res: "ReserveRowIndexInsertSlot db = (st, db1)"
  shows "(IsOk st \<longrightarrow> st = Ok \<and> db1 = db\<lparr>rowPendingInsertCount := 1\<rparr> \<and>
      length (occupied vacant_row (ri_buckets v)) + 1 < length (ri_buckets v)) \<and>
    (\<not> IsOk st \<longrightarrow> db1 = db)"
proof -
  have H: "RowIndexHeader db = ri_header v" using v by (simp add: RowIndexHeader_def)
  obtain k where k: "k \<le> 56" "rih_bucketCount (ri_header v) = 2 ^ k" "length (ri_buckets v) = 2 ^ k"
    using ok by (rule row_index_okD)
  define n where "n = length (occupied vacant_row (ri_buckets v))"
  have n: "unat (rih_itemCount (ri_header v)) = n" "n < 2 ^ k"
    using ok k(3) by (simp_all add: row_index_ok_def n_def)
  have pow: "(2 :: nat) ^ k \<le> 2 ^ 56" using k(1) by (intro power_increasing) simp_all
  have "n + 1 < 2 ^ k" if room: "\<not> dgt (ddiv (double_of_u64 (rih_itemCount (ri_header v) + 1)) (double_of_u64 (2 ^ k))) (Fin f)"
  proof (rule ccontr)
    assume "\<not> n + 1 < 2 ^ k"
    then have "n + 1 = 2 ^ k" using n(2) by simp
    then have "unat (rih_itemCount (ri_header v) + 1) = 2 ^ k"
      using unat_add_of_nat64 [of "rih_itemCount (ri_header v)" 1] n pow by simp
    then have "double_of_u64 (rih_itemCount (ri_header v) + 1) = Fin (2 ^ k)"
      by (simp add: double_of_u64_def fl_pow2)
    moreover have "double_of_u64 (2 ^ k) = Fin (2 ^ k)" using k(1) by (simp add: double_of_u64_def fl_pow2)
    moreover have "fl 1 = 1" using fl_pow2 [of 0] by simp
    ultimately have "ddiv (double_of_u64 (rih_itemCount (ri_header v) + 1)) (double_of_u64 (2 ^ k)) = Fin 1" by simp
    then show False using room f(2) by simp
  qed
  note less = this [folded k(3), unfolded n_def]
  have eq: "ReserveRowIndexInsertSlot db =
      (if dgt (ddiv (double_of_u64 (rih_itemCount (ri_header v) + 1)) (double_of_u64 (2 ^ k))) (Fin f)
       then (InvalidArgument ''row index capacity exceeded; increase initialRowBucketCount'', db)
       else (Ok, db\<lparr>rowPendingInsertCount := 1\<rparr>))"
    by (simp add: ReserveRowIndexInsertSlot_def Let_def H k(2) pend f(1))
  show ?thesis
  proof (cases "dgt (ddiv (double_of_u64 (rih_itemCount (ri_header v) + 1)) (double_of_u64 (2 ^ k))) (Fin f)")
    case True
    then show ?thesis using res unfolding eq if_P [OF True] by auto
  next
    case False
    then show ?thesis using res less unfolding eq if_not_P [OF False] by auto
  qed
qed

subsection \<open>Appending a block\<close>

lemma shard_index:
  assumes "0 < length (rowValueFiles db)" and "length (rowValueFiles db) < 2 ^ 32"
  shows "unat (ShardForRow db columnHash rowId) < length (rowValueFiles db)"
proof -
  have "unat (MixHashes columnHash rowId) mod length (rowValueFiles db) < length (rowValueFiles db)"
    using assms(1) by simp
  then show ?thesis using assms(2) by (simp add: ShardForRow_def unat_of_nat take_bit_eq_mod)
qed

text \<open>The state after the block of a layout, or a prefix of it, went to the end of a shard.\<close>

definition appended :: "Impl \<Rightarrow> nat \<Rightarrow> u64 \<Rightarrow> fs \<Rightarrow> Impl" where
  "appended db s sz fs =
     db\<lparr>rowAppendOffsets := (rowAppendOffsets db)[s := rowAppendOffsets db ! s + sz], filesys := fs\<rparr>"

lemma append_block:
  assumes db: "row_core_ok db" and s: "s < length (rowValueFiles db)"
    and wr: "WriteVAllAt os (filesys db) (rowValueFiles db ! s) slices (rowAppendOffsets db ! s) = (st, fs)"
    and size: "unat sz = length (concat slices)" "unat (rowAppendOffsets db ! s) + length (concat slices) < 2 ^ 63"
    and v: "mapped_data (rowIndexMap db) = Some v"
  defines "db' \<equiv> appended db s sz fs"
  shows "row_core_ok db'" and "rows db' = rows db" and "row_frame db db'" and "row_index_ok (shards_of db') v"
    and "rows_map (shards_of db') (ri_buckets v) = rows db"
    and "IsOk st \<Longrightarrow> row_bytes db' s = overwrite (row_bytes db s) (unat (rowAppendOffsets db ! s)) (concat slices)"
    and "\<And>t. t < length (rowValueFiles db) \<Longrightarrow> t \<noteq> s \<Longrightarrow> row_bytes db' t = row_bytes db t"
proof -
  let ?n = "unat (rowAppendOffsets db ! s)"
  have d: "opened db" "\<not> readOnly db" "0 < length (rowValueFiles db)" "length (rowValueFiles db) < 2 ^ 32"
    "length (rowAppendOffsets db) = length (rowValueFiles db)" "None \<notin> set (rowValueFiles db)"
    "distinct (rowValueFiles db)" "\<forall>m \<in> set (rowValueMaps db). \<not> IsMapped m"
    "\<And>s. s < length (rowValueFiles db) \<Longrightarrow> length (row_bytes db s) \<le> unat (rowAppendOffsets db ! s)"
    "\<And>s. s < length (rowValueFiles db) \<Longrightarrow> unat (rowAppendOffsets db ! s) < 2 ^ 63"
    "rowIndexFile db \<noteq> None" "rowIndexFile db \<notin> set (rowValueFiles db)"
    "mapped_writable (rowIndexMap db)"
    and ok: "row_index_ok (shards_of db) v"
    using db v unfolding row_core_ok_def by auto
  have unmapped: "\<not> (t < length (rowValueMaps db) \<and> IsMapped (rowValueMaps db ! t))" for t
    using d(8) by (meson nth_mem)
  obtain path where path: "rowValueFiles db ! s = Some path" using d(6) s by (metis nth_mem option.exhaust)
  have bytes: "row_bytes db t = file_content (filesys db) (the (rowValueFiles db ! t))" for t
    using unmapped [of t] by (auto simp: row_bytes_def)
  have bytes': "row_bytes db' t = file_content fs (the (rowValueFiles db ! t))" for t
    using unmapped [of t] by (auto simp: row_bytes_def db'_def appended_def)
  have pre: "wrote_prefix (row_bytes db s) ?n (concat slices) st (row_bytes db' s)"
    and other: "\<And>q. q \<noteq> path \<Longrightarrow> files fs q = files (filesys db) q"
    using WriteVAllAt_prefix [OF wr [unfolded path]] by (simp_all add: bytes bytes' path)
  obtain k where k: "row_bytes db' s = overwrite (row_bytes db s) ?n (take k (concat slices))"
    using pre by (auto simp: wrote_prefix_def)
  have keep: "row_bytes db' t = row_bytes db t" if t: "t < length (rowValueFiles db)" "t \<noteq> s" for t
  proof -
    have "rowValueFiles db ! t \<noteq> Some path" using d(7) t s path by (metis nth_eq_iff_index_eq)
    moreover have "rowValueFiles db ! t \<noteq> None" using d(6) t(1) by (metis nth_mem)
    ultimately show ?thesis using other by (auto simp: bytes bytes' file_content_def)
  qed
  have grow: "take (length (row_bytes db s)) (row_bytes db' s) = row_bytes db s"
    unfolding k using take_overwrite [of "length (row_bytes db s)" ?n "row_bytes db s"] d(9) [OF s] by simp
  have len: "length (row_bytes db' s) \<le> ?n + length (concat slices)"
  proof (cases "take k (concat slices) = []")
    case True
    show ?thesis unfolding k True using d(9) [OF s] by simp
  next
    case False
    show ?thesis unfolding k length_overwrite [OF False] using d(9) [OF s] by simp
  qed
  have off: "unat (rowAppendOffsets db ! s + sz) = ?n + length (concat slices)"
    using unat_add64 [of "rowAppendOffsets db ! s" sz] size by simp
  have fld: "rowValueFiles db' = rowValueFiles db"
    "rowAppendOffsets db' = (rowAppendOffsets db)[s := rowAppendOffsets db ! s + sz]"
    "rowIndexMap db' = rowIndexMap db" "RowBuckets db' = RowBuckets db"
    by (simp_all add: db'_def appended_def RowBuckets_def)
  have ext: "shards_extend (shards_of db) (shards_of db')"
    unfolding shards_extend_def list_all2_conv_all_nth
  proof (intro conjI allI impI)
    show "length (shards_of db) = length (shards_of db')" by (simp add: fld)
    fix t
    assume t: "t < length (shards_of db)"
    then show "take (length (shards_of db ! t)) (shards_of db' ! t) = shards_of db ! t"
      using keep grow by (cases "t = s") (simp_all add: fld)
  qed
  show ok': "row_index_ok (shards_of db') v" by (rule row_index_extend [OF ok ext])
  have B: "RowBuckets db = ri_buckets v" using v by (simp add: RowBuckets_def)
  show m: "rows_map (shards_of db') (ri_buckets v) = rows db"
    using rows_table_extend [OF _ ext, of "ri_buckets v"] ok by (simp add: row_index_ok_def rows_def B)
  then show "rows db' = rows db" by (simp add: rows_def fld(4) B)
  show "row_core_ok db'"
    unfolding row_core_ok_def
  proof (intro conjI)
    show "\<forall>t < length (rowValueFiles db'). length (row_bytes db' t) \<le> unat (rowAppendOffsets db' ! t) \<and>
        unat (rowAppendOffsets db' ! t) < 2 ^ 63"
    proof (intro allI impI)
      fix t
      assume t: "t < length (rowValueFiles db')"
      show "length (row_bytes db' t) \<le> unat (rowAppendOffsets db' ! t) \<and> unat (rowAppendOffsets db' ! t) < 2 ^ 63"
        using t len off size(2) keep d(5,9,10) by (cases "t = s") (simp_all add: fld(1,2))
    qed
    show "\<exists>v. mapped_data (rowIndexMap db') = Some v \<and> row_index_ok (shards_of db') v"
      using v ok' by (simp add: fld(3))
  qed (use d in \<open>simp_all add: db'_def appended_def\<close>)
  show "row_frame db db'"
    unfolding row_frame_def
    by (intro exI [of _ fs] exI [of _ "rowIndexMap db"] exI [of _ "rowAppendOffsets db'"])
      (use other WriteVAllAt_dirs [OF wr] path s in \<open>auto simp: db'_def appended_def in_set_conv_nth\<close>)
  show "row_bytes db' s = overwrite (row_bytes db s) ?n (concat slices)" if "IsOk st"
    by (rule wrote_prefix_ok [OF pre that])
  show "row_bytes db' t = row_bytes db t" if "t < length (rowValueFiles db)" "t \<noteq> s" for t
    using that by (rule keep)
qed

lemma row_frame_trans:
  assumes "row_frame a b" and "row_frame b c"
  shows "row_frame a c"
proof -
  obtain fs m offs fs' m' offs' where "b = a\<lparr>filesys := fs, rowIndexMap := m, rowAppendOffsets := offs\<rparr>"
    and "c = b\<lparr>filesys := fs', rowIndexMap := m', rowAppendOffsets := offs'\<rparr>"
    and "dirs fs = dirs (filesys a)" and "dirs fs' = dirs (filesys b)"
    and "\<forall>path. Some path \<notin> set (rowValueFiles a) \<longrightarrow> files fs path = files (filesys a) path"
    and "\<forall>path. Some path \<notin> set (rowValueFiles b) \<longrightarrow> files fs' path = files (filesys b) path"
    using assms unfolding row_frame_def by blast
  then show ?thesis
    unfolding row_frame_def by (intro exI [of _ fs'] exI [of _ m'] exI [of _ offs']) simp
qed

lemma row_frame_with_row_index: "row_frame db (with_row_index w db)"
  unfolding row_frame_def
  by (intro exI [of _ "filesys db"] exI [of _ "rowIndexMap (with_row_index w db)"] exI [of _ "rowAppendOffsets db"])
    (simp add: with_row_index_def)

text \<open>The part of a row write that lies between reserving a slot and releasing it.\<close>

definition append_row ::
  "os \<Rightarrow> Impl \<Rightarrow> bytes \<Rightarrow> u64 \<Rightarrow> RowStructEntry list \<Rightarrow> (Status \<times> Impl) option" where
  "append_row os db column rowId entries =
     (let columnHash = HashString column; (sequence, db2) = NextRowSequence db
      in case BuildRowBlockLayout db2 column rowId entries sequence columnHash of
          None \<Rightarrow> None
        | Some (Inl status) \<Rightarrow> Some (status, db2)
        | Some (Inr layout) \<Rightarrow>
            let shardId = ShardForRow db2 columnHash rowId;
                blockOffset = rowAppendOffsets db2 ! unat shardId;
                (status, fs) = WriteVAllAt os (filesys db2) (rowValueFiles db2 ! unat shardId)
                                 (block_slices column layout) blockOffset;
                db4 = appended db2 (unat shardId) (rb_blockSize (rl_header layout)) fs
            in if \<not> IsOk status then Some (status, db4)
               else
                 let bucket = \<lparr>rd_columnHash = columnHash, rd_rowId = rowId, rd_shardId = shardId,
                       rd_blockOffset = blockOffset, rd_blockSize = rb_blockSize (rl_header layout),
                       rd_sequence = sequence\<rparr>
                 in case InsertOrUpdateRowBucket os db4 column bucket of
                     None \<Rightarrow> None
                   | Some (status, inserted, db5) \<Rightarrow>
                       if \<not> IsOk status then Some (status, db5)
                       else Some (Ok, if inserted then increment_rowItemCount db5 else db5))"

lemma WriteRowStructs_append_row:
  assumes "opened db" and "\<not> readOnly db" and "FitsUint32 (length column)" and "entries \<noteq> []"
  shows "WriteRowStructs os db column rowId entries rsv =
    (let (status, db1) = (if rsv then ReserveRowIndexInsertSlot db else (Ok, db))
     in if \<not> IsOk status then Some (status, db1)
        else map_option (\<lambda>(st, d). (st, if rsv then ReleaseRowIndexInsertSlot d else d))
               (append_row os db1 column rowId entries))"
  using assms
  by (cases rsv) (simp_all add: WriteRowStructs_def append_row_def appended_def Let_def split: option.split sum.split prod.split)

text \<open>A write that succeeds has put the block of the row at the end of its shard.\<close>

definition row_appended :: "Impl \<Rightarrow> Impl \<Rightarrow> bytes \<Rightarrow> u64 \<Rightarrow> (bytes \<rightharpoonup> bytes) \<Rightarrow> bool" where
  "row_appended db db' column rowId m \<longleftrightarrow>
     (\<exists>L s. s = unat (ShardForRow db (HashString column) rowId) \<and> s < length (rowValueFiles db) \<and>
        layout_ok column rowId L \<and> layout_map L = m \<and> layout_size column L < 2 ^ 62 \<and>
        unat (rowAppendOffsets db ! s) < 2 ^ 62 \<and>
        shards_of db' = (shards_of db)
          [s := overwrite (shards_of db ! s) (unat (rowAppendOffsets db ! s)) (block_bytes column L)] \<and>
        rowAppendOffsets db' = (rowAppendOffsets db)[s := rowAppendOffsets db ! s + rb_blockSize (rl_header L)])"

lemma row_appended_with_row_index [simp]:
  "row_appended db (with_row_index w db') column rowId m = row_appended db db' column rowId m"
  by (simp add: row_appended_def)

lemma row_appended_pending [simp]:
  "row_appended (db\<lparr>rowPendingInsertCount := n\<rparr>) db' column rowId m = row_appended db db' column rowId m"
  "row_appended db (db'\<lparr>rowPendingInsertCount := n\<rparr>) column rowId m = row_appended db db' column rowId m"
  by (simp_all add: row_appended_def ShardForRow_def)

lemma append_row_ok:
  assumes os: "reads_ok os" and db: "row_core_ok db" and fits: "row_write_fits db column entries"
    and room: "rows db (column, rowId) = None \<longrightarrow>
      length (occupied vacant_row (RowBuckets db)) + 1 < length (RowBuckets db)"
  shows "\<exists>st db'. append_row os db column rowId entries = Some (st, db') \<and> row_core_ok db' \<and> row_frame db db' \<and>
    rows db' = (if IsOk st then (rows db)((column, rowId) \<mapsto> row_map entries) else rows db) \<and>
    (writes_ok os \<longrightarrow> IsOk st) \<and> (IsOk st \<longrightarrow> st = Ok \<and> row_appended db db' column rowId (row_map entries))"
proof -
  obtain v where v: "mapped_data (rowIndexMap db) = Some v" and ok: "row_index_ok (shards_of db) v"
    using db by (auto simp: row_core_ok_def)
  obtain f where f: "maxLoadFactor (options db) = Fin f" and rf: "row_fits f column entries"
    and offs: "\<forall>off \<in> set (rowAppendOffsets db). unat off < 2 ^ 62" and ne: "entries \<noteq> []"
    using fits by (auto simp: row_write_fits_def split: double.splits)
  have B: "RowBuckets db = ri_buckets v" and H: "RowIndexHeader db = ri_header v"
    using v by (simp_all add: RowBuckets_def RowIndexHeader_def)
  define v2 where "v2 = v\<lparr>ri_header := (ri_header v)\<lparr>rih_nextSequence := rih_nextSequence (ri_header v) + 1\<rparr>\<rparr>"
  define seq where "seq = rih_nextSequence (ri_header v)"
  define db2 where "db2 = with_row_index v2 db"
  have sq: "NextRowSequence db = (seq, db2)"
    by (simp add: NextRowSequence_def Let_def H set_RowIndexHeader_with [OF v] db2_def v2_def seq_def)
  have ok2: "row_index_ok (shards_of db) v2" using ok by (simp add: row_index_ok_def v2_def)
  have core2: "row_core_ok db2" unfolding db2_def by (rule row_core_ok_with_row_index [OF db ok2])
  have rows2: "rows db2 = rows db" by (simp add: db2_def v2_def rows_def B)
  have v2m: "mapped_data (rowIndexMap db2) = Some v2" by (simp add: db2_def)
  have f2: "maxLoadFactor (options db2) = Fin f" using f by (simp add: db2_def)
  obtain L where L: "BuildRowBlockLayout db2 column rowId entries seq (HashString column) = Some (Inr L)"
    "layout_ok column rowId L" "layout_map L = row_map entries" "rb_sequence (rl_header L) = seq" "layout_size column L < 2 ^ 62"
    by (rule BuildRowBlockLayout_ok [OF f2 rf])
  define shardId where "shardId = ShardForRow db2 (HashString column) rowId"
  define s where "s = unat shardId"
  have s: "s < length (rowValueFiles db2)"
    using core2 shard_index unfolding s_def shardId_def row_core_ok_def by blast
  define off where "off = rowAppendOffsets db2 ! s"
  have lenoffs: "length (rowAppendOffsets db2) = length (rowValueFiles db2)" using core2 by (simp add: row_core_ok_def)
  have off: "unat off < 2 ^ 62"
    using offs s lenoffs nth_mem [of s "rowAppendOffsets db2"] by (simp add: off_def db2_def)
  have bytes: "length (concat (block_slices column L)) = layout_size column L"
    using length_block_bytes [OF L(2)] by (simp add: block_bytes_def)
  obtain st fs where wr: "WriteVAllAt os (filesys db2) (rowValueFiles db2 ! s) (block_slices column L) off = (st, fs)"
    by (metis prod.collapse)
  define db4 where "db4 = appended db2 s (rb_blockSize (rl_header L)) fs"
  have size: "unat (rb_blockSize (rl_header L)) = length (concat (block_slices column L))"
    "unat (rowAppendOffsets db2 ! s) + length (concat (block_slices column L)) < 2 ^ 63"
    using layout_okD(12) [OF L(2)] bytes off L(5) by (simp_all add: off_def)
  note ab = append_block [OF core2 s wr [unfolded off_def] size v2m, folded db4_def]
  have fr: "row_frame db db4" using row_frame_trans [OF row_frame_with_row_index ab(3) [unfolded db2_def]] by (simp add: db2_def)
  have wok: "IsOk st" if w: "writes_ok os"
  proof -
    obtain path where path: "rowValueFiles db2 ! s = Some path"
      using core2 s unfolding row_core_ok_def by (metis nth_mem option.exhaust)
    have "block_bytes column L \<noteq> []" using length_block_bytes [OF L(2)] by (auto simp: layout_size_def)
    then show ?thesis
      using WriteVAllAt_ok [OF w, of off "block_slices column L" "filesys db2" path] size(2) wr path
      by (simp add: off_def block_bytes_def)
  qed
  show ?thesis
  proof (cases "IsOk st")
    case False
    have "append_row os db column rowId entries = Some (st, db4)"
      using False wr by (simp add: append_row_def sq L(1) Let_def shardId_def [symmetric] s_def [symmetric]
          off_def [symmetric] db4_def)
    then show ?thesis using False wok ab(1,2) fr rows2 by (intro exI [of _ st] exI [of _ db4]) auto
  next
    case True
    define data where "data = \<lparr>rd_columnHash = HashString column, rd_rowId = rowId, rd_shardId = shardId,
      rd_blockOffset = off, rd_blockSize = rb_blockSize (rl_header L), rd_sequence = seq\<rparr>"
    have b4: "row_bytes db4 s = overwrite (row_bytes db2 s) (unat off) (block_bytes column L)"
      using ab(6) [OF True] by (simp add: off_def block_bytes_def)
    have read4: "row_readable db4" using row_core_ok_readable [OF ab(1)] by (simp add: rows_readable_def)
    have files4: "rowValueFiles db4 = rowValueFiles db2" by (simp add: db4_def appended_def)
    have bb: "block_bytes column L \<noteq> []" "length (block_bytes column L) = layout_size column L"
      using length_block_bytes [OF L(2)] by (auto simp: layout_size_def)
    have blk: "block_at (row_bytes db4 s) (unat off) column L"
      using overwrite_read [of "block_bytes column L" "unat off" "row_bytes db2 s"]
        length_overwrite [OF bb(1), of "row_bytes db2 s" "unat off"] bb(2)
      by (simp add: block_at_def b4)
    have "row_bytes db4 t = ((shards_of db2)[s := overwrite (shards_of db2 ! s) (unat off) (block_bytes column L)]) ! t"
      if "t < length (rowValueFiles db2)" for t
      using that b4 s ab(7) by (cases "t = s") simp_all
    then have "shards_of db4 = (shards_of db2)[s := overwrite (shards_of db2 ! s) (unat off) (block_bytes column L)]"
      by (intro nth_equalityI) (simp_all add: files4)
    then have app: "row_appended db db4 column rowId (row_map entries)"
      unfolding row_appended_def
      using s off L(2,3,5) by (intro exI [of _ L] exI [of _ s])
        (simp add: off_def s_def shardId_def db2_def ShardForRow_def db4_def appended_def)
    have at: "row_bucket_at (shards_of db4) (data_bucket data) column L"
      using blk s L(2,4) by (simp add: row_bucket_at_def data_bucket_def StoreRowBucketData_def data_def
          RowIndexBucket_default_def files4 s_def [symmetric])
    have m4: "mapped_data (rowIndexMap db4) = Some v2" using v2m by (simp add: db4_def appended_def)
    have col: "rd_columnHash data = HashString column" by (simp add: data_def)
    have bs2: "ri_buckets v2 = RowBuckets db" by (simp add: v2_def B)
    have rd: "rd_rowId data = rowId" by (simp add: data_def)
    have room4: "rows_map (shards_of db4) (ri_buckets v2) (column, rd_rowId data) = None \<longrightarrow>
        length (occupied vacant_row (ri_buckets v2)) + 1 < length (ri_buckets v2)"
      unfolding ab(5) rows2 rd unfolding bs2 by (rule room)
    have start: "append_row os db column rowId entries =
        (case InsertOrUpdateRowBucket os db4 column data of
           None \<Rightarrow> None
         | Some (status, inserted, db5) \<Rightarrow>
             if \<not> IsOk status then Some (status, db5)
             else Some (Ok, if inserted then increment_rowItemCount db5 else db5))"
      using True wr by (simp add: append_row_def sq L(1) Let_def shardId_def [symmetric] s_def [symmetric]
          off_def [symmetric] db4_def data_def cong: option.case_cong)
    show ?thesis
    proof (cases rule: InsertOrUpdateRowBucket_cases [OF os read4 m4 ab(4) col room4 at])
      case (1 w)
      have "rows (with_row_index w db4) = (rows db)((column, rowId) \<mapsto> row_map entries)"
        using 1(3) unfolding rows_with_row_index ab(5) rows2 rd L(3) .
      then show ?thesis
        using start 1(1) app row_core_ok_with_row_index [OF ab(1) 1(2)] row_frame_trans [OF fr row_frame_with_row_index]
        by (intro exI [of _ Ok] exI [of _ "with_row_index w db4"]) simp
    next
      case (2 w)
      have "rows (with_row_index (count_row w) db4) = (rows db)((column, rowId) \<mapsto> row_map entries)"
        using 2(3) unfolding rows_with_row_index ab(5) rows2 rd L(3) count_row_simps .
      moreover have "increment_rowItemCount (with_row_index w db4) = with_row_index (count_row w) db4"
        by (simp add: increment_row_with)
      ultimately show ?thesis
        using start 2(1) app row_core_ok_with_row_index [OF ab(1) 2(2)] row_frame_trans [OF fr row_frame_with_row_index]
        by (intro exI [of _ Ok] exI [of _ "with_row_index (count_row w) db4"]) simp
    qed
  qed
qed

subsection \<open>A whole row write\<close>

definition row_slot_free :: "Impl \<Rightarrow> bool" where
  "row_slot_free db \<longleftrightarrow> IsOk (fst (ReserveRowIndexInsertSlot db))"

lemma release_frame:
  assumes "row_frame (db\<lparr>rowPendingInsertCount := 1\<rparr>) db'" and "rowPendingInsertCount db = 0"
  shows "row_frame db (ReleaseRowIndexInsertSlot db')" and "rowPendingInsertCount (ReleaseRowIndexInsertSlot db') = 0"
    and "ReleaseRowIndexInsertSlot db' = db'\<lparr>rowPendingInsertCount := 0\<rparr>"
proof -
  obtain fs m offs where d: "db' = db\<lparr>rowPendingInsertCount := 1, filesys := fs, rowIndexMap := m, rowAppendOffsets := offs\<rparr>"
      "dirs fs = dirs (filesys db)"
      "\<forall>path. Some path \<notin> set (rowValueFiles db) \<longrightarrow> files fs path = files (filesys db) path"
    using assms(1) unfolding row_frame_def by auto
  show rel: "ReleaseRowIndexInsertSlot db' = db'\<lparr>rowPendingInsertCount := 0\<rparr>"
    by (simp add: ReleaseRowIndexInsertSlot_def d(1))
  then show "rowPendingInsertCount (ReleaseRowIndexInsertSlot db') = 0" by simp
  have "ReleaseRowIndexInsertSlot db' = db\<lparr>filesys := fs, rowIndexMap := m, rowAppendOffsets := offs\<rparr>"
    unfolding ReleaseRowIndexInsertSlot_def d(1) using assms(2) by (cases db) simp
  then show "row_frame db (ReleaseRowIndexInsertSlot db')" using d(2,3) unfolding row_frame_def by blast
qed

lemma WriteRowStructs_atomic:
  assumes os: "reads_ok os" and db: "row_ok db" and fits: "row_write_fits db column entries"
    and known: "\<not> rsv \<Longrightarrow> rows db (column, rowId) \<noteq> None"
  shows "\<exists>st db'. WriteRowStructs os db column rowId entries rsv = Some (st, db') \<and> row_ok db' \<and> row_frame db db' \<and>
    rows db' = (if IsOk st then (rows db)((column, rowId) \<mapsto> row_map entries) else rows db) \<and>
    (writes_ok os \<and> (rsv \<longrightarrow> row_slot_free db) \<longrightarrow> IsOk st) \<and>
    (IsOk st \<longrightarrow> st = Ok \<and> row_appended db db' column rowId (row_map entries))"
proof -
  obtain v where v: "mapped_data (rowIndexMap db) = Some v" and ok: "row_index_ok (shards_of db) v"
    and core: "row_core_ok db" and pend: "rowPendingInsertCount db = 0" and op: "opened db" "\<not> readOnly db"
    using db by (auto simp: row_ok_def row_core_ok_def)
  obtain f where f: "maxLoadFactor (options db) = Fin f" and rf: "row_fits f column entries" and ne: "entries \<noteq> []"
    using fits by (auto simp: row_write_fits_def split: double.splits)
  have f1: "f < 1" and col: "FitsUint32 (length column)" using rf by (simp_all add: row_fits_def FitsUint32_def)
  have B: "RowBuckets db = ri_buckets v" using v by (simp add: RowBuckets_def)
  note eq = WriteRowStructs_append_row [OF op col ne]
  show ?thesis
  proof (cases rsv)
    case False
    have "rows db (column, rowId) = None \<longrightarrow> length (occupied vacant_row (RowBuckets db)) + 1 < length (RowBuckets db)"
      using known [OF False] by blast
    from append_row_ok [OF os core fits this] obtain st db' where w:
      "append_row os db column rowId entries = Some (st, db')" "row_core_ok db'" "row_frame db db'"
      "rows db' = (if IsOk st then (rows db)((column, rowId) \<mapsto> row_map entries) else rows db)" "writes_ok os \<longrightarrow> IsOk st"
      "IsOk st \<longrightarrow> st = Ok \<and> row_appended db db' column rowId (row_map entries)"
      by blast
    have "rowPendingInsertCount db' = 0" using w(3) pend by (auto simp: row_frame_def)
    then show ?thesis
      using w False by (intro exI [of _ st] exI [of _ db']) (simp add: eq row_ok_def)
  next
    case True
    obtain st0 db1 where r: "ReserveRowIndexInsertSlot db = (st0, db1)" by (metis prod.collapse)
    note res = reserve_room [OF ok v pend f f1 r]
    show ?thesis
    proof (cases "IsOk st0")
      case False
      then have "WriteRowStructs os db column rowId entries rsv = Some (st0, db)" using True res r by (simp add: eq)
      then show ?thesis
        using True False r db row_frame_refl by (intro exI [of _ st0] exI [of _ db]) (simp add: row_slot_free_def)
    next
      case ok0: True
      have db1: "db1 = db\<lparr>rowPendingInsertCount := 1\<rparr>" and room: "length (occupied vacant_row (RowBuckets db)) + 1 < length (RowBuckets db)"
        using res ok0 by (simp_all add: B)
      have core1: "row_core_ok db1" using core by (simp add: db1 row_core_ok_pending)
      have fits1: "row_write_fits db1 column entries" using fits by (simp add: row_write_fits_def db1)
      have B1: "RowBuckets db1 = RowBuckets db" and R1: "rows db1 = rows db" by (simp_all add: db1 rows_pending RowBuckets_def)
      have "rows db1 (column, rowId) = None \<longrightarrow> length (occupied vacant_row (RowBuckets db1)) + 1 < length (RowBuckets db1)"
        using room by (simp add: B1)
      from append_row_ok [OF os core1 fits1 this] obtain st db' where w:
        "append_row os db1 column rowId entries = Some (st, db')" "row_core_ok db'" "row_frame db1 db'"
        "rows db' = (if IsOk st then (rows db)((column, rowId) \<mapsto> row_map entries) else rows db)" "writes_ok os \<longrightarrow> IsOk st"
        "IsOk st \<longrightarrow> st = Ok \<and> row_appended db db' column rowId (row_map entries)"
        unfolding R1 by (auto simp: db1)
      note rel = release_frame [OF w(3) [unfolded db1] pend]
      have "WriteRowStructs os db column rowId entries rsv = Some (st, ReleaseRowIndexInsertSlot db')"
        using True r ok0 w(1) by (simp add: eq)
      moreover have "row_ok (ReleaseRowIndexInsertSlot db')"
        using rel(2) w(2) row_core_ok_pending by (simp add: row_ok_def rel(3))
      moreover have "rows (ReleaseRowIndexInsertSlot db') = rows db'" by (simp add: rel(3) rows_pending)
      ultimately show ?thesis
        using w(4,5,6) rel(1) by (intro exI [of _ st] exI [of _ "ReleaseRowIndexInsertSlot db'"]) (simp add: rel(3))
    qed
  qed
qed

subsection \<open>Changing one key\<close>

lemma row_map_pairs: "row_map es = map_of (rev (map (\<lambda>e. (re_key e, re_bytes e)) es))"
  by (induction es rule: rev_induct) (simp_all add: row_map_def)

lemma map_of_rev_distinct:
  assumes "distinct (map fst xs)"
  shows "map_of (rev xs) = map_of xs"
proof
  fix k
  have "map_of (rev xs) k = Some v \<longleftrightarrow> map_of xs k = Some v" for v
    using map_of_eq_Some_iff [of xs] map_of_eq_Some_iff [of "rev xs"] assms by (simp add: rev_map [symmetric])
  then show "map_of (rev xs) k = map_of xs k" by (metis option.exhaust)
qed

lemma row_map_entries:
  assumes "distinct keys" and "length vals = length keys"
  shows "row_map (row_entries keys vals) = map_of (zip keys vals)"
proof -
  have e: "map (\<lambda>e. (re_key e, re_bytes e)) (row_entries keys vals) = zip keys vals"
    by (simp add: row_entries_def comp_def case_prod_unfold)
  have "distinct (map fst (zip keys vals))" using assms by simp
  then show ?thesis unfolding row_map_pairs e by (rule map_of_rev_distinct)
qed

lemma replace_or_add_ok:
  assumes "distinct keys" and len: "length vals = length keys" and r: "replace_or_add key v keys vals = (ks, vs)"
  shows "row_map (row_entries ks vs) = (map_of (zip keys vals))(key \<mapsto> v)" and "ks \<noteq> []"
proof -
  have "distinct ks \<and> length vs = length ks \<and> map_of (zip ks vs) = (map_of (zip keys vals))(key \<mapsto> v) \<and> ks \<noteq> []"
  proof (cases "find (\<lambda>index. keys ! index = key) [0..<length keys]")
    case None
    have "keys ! i \<noteq> key" if "i < length keys" for i
      using None that by (simp add: find_None_iff)
    then have new: "key \<notin> set keys" by (auto simp: in_set_conv_nth)
    have none: "map_of (zip keys vals) key = None" using map_of_zip_is_None [of keys vals key] len new by simp
    have "map_of (zip (keys @ [key]) (vals @ [v])) k = ((map_of (zip keys vals))(key \<mapsto> v)) k" for k
      using len none by (cases "map_of (zip keys vals) k"; cases "k = key") (simp_all add: map_add_def del: map_of_zip_is_None)
    then have "map_of (zip (keys @ [key]) (vals @ [v])) = (map_of (zip keys vals))(key \<mapsto> v)" by (rule ext)
    then show ?thesis using None r new assms(1) len by (auto simp: replace_or_add_def)
  next
    case (Some i)
    then have i: "i < length keys" "keys ! i = key" using find_SomeD [OF Some] by auto
    have "map_of (zip keys (vals[i := v])) k = ((map_of (zip keys vals))(key \<mapsto> v)) k" for k
    proof (cases "k \<in> set keys")
      case True
      then obtain j where j: "j < length keys" "keys ! j = k" by (auto simp: in_set_conv_nth)
      have "map_of (zip keys (vals[i := v])) k = Some (vals[i := v] ! j)" "map_of (zip keys vals) k = Some (vals ! j)"
        using map_of_zip_nth [of keys "vals[i := v]" j] map_of_zip_nth [of keys vals j] assms(1) len j by simp_all
      moreover have "k = key \<longleftrightarrow> j = i" using i j nth_eq_iff_index_eq [OF assms(1)] by auto
      ultimately show ?thesis using i(1) len by auto
    next
      case False
      then have "k \<noteq> key" using i by (metis nth_mem)
      moreover have "map_of (zip keys (vals[i := v])) k = None" "map_of (zip keys vals) k = None"
        using map_of_zip_is_None [of keys "vals[i := v]" k] map_of_zip_is_None [of keys vals k] False len by simp_all
      ultimately show ?thesis by (simp del: map_of_zip_is_None)
    qed
    then have "map_of (zip keys (vals[i := v])) = (map_of (zip keys vals))(key \<mapsto> v)" by (rule ext)
    then show ?thesis using Some r assms(1) len i by (auto simp: replace_or_add_def)
  qed
  then show "row_map (row_entries ks vs) = (map_of (zip keys vals))(key \<mapsto> v)" "ks \<noteq> []"
    using row_map_entries [of ks vs] by simp_all
qed

definition put_row_fits :: "os \<Rightarrow> Impl \<Rightarrow> bytes \<Rightarrow> u64 \<Rightarrow> bytes \<Rightarrow> bytes \<Rightarrow> bool" where
  "put_row_fits os db column rowId key v \<longleftrightarrow>
     FitsUint32 (length key) \<and>
     (case LoadRowEntries os db column rowId (HashString column) of
        Some (Inr (found, keys, vals)) \<Rightarrow>
          (let (ks, vs) = replace_or_add key v keys vals in row_write_fits db column (row_entries ks vs)) \<and>
          (\<not> found \<longrightarrow> row_slot_free db)
      | _ \<Rightarrow> False)"

definition row_or_empty :: "(bytes \<rightharpoonup> bytes) option \<Rightarrow> (bytes \<rightharpoonup> bytes)" where
  "row_or_empty r = (case r of None \<Rightarrow> Map.empty | Some m \<Rightarrow> m)"

lemma row_write_fits_column: "row_write_fits db column entries \<Longrightarrow> FitsUint32 (length column)"
  by (auto simp: row_write_fits_def row_fits_def FitsUint32_def split: double.splits)

lemma PutRowStruct_ok:
  assumes os: "reads_ok os" "writes_ok os" and db: "row_ok db" and fits: "put_row_fits os db column rowId key v"
  shows "\<exists>db'. PutRowStruct os db column rowId key v = Some (Ok, db') \<and> row_ok db' \<and> row_frame db db' \<and>
    rows db' = (rows db)((column, rowId) \<mapsto> (row_or_empty (rows db (column, rowId)))(key \<mapsto> v)) \<and>
    row_appended db db' column rowId ((row_or_empty (rows db (column, rowId)))(key \<mapsto> v))"
proof -
  have op: "opened db" "\<not> readOnly db" using db by (simp_all add: row_ok_def row_core_ok_def)
  have key: "FitsUint32 (length key)" using fits by (simp add: put_row_fits_def)
  have store: ?thesis
    if load: "LoadRowEntries os db column rowId (HashString column) = Some (Inr (found, keys, vals))"
      and keys: "distinct keys" "length vals = length keys" "row_or_empty (rows db (column, rowId)) = map_of (zip keys vals)"
      and found: "found = (rows db (column, rowId) \<noteq> None)" for found keys vals
  proof -
    obtain ks vs where kv: "replace_or_add key v keys vals = (ks, vs)" by fastforce
    have wf: "row_write_fits db column (row_entries ks vs)" and slot: "\<not> found \<longrightarrow> row_slot_free db"
      using fits load by (simp_all add: put_row_fits_def kv)
    note map = replace_or_add_ok(1) [OF keys(1,2) kv]
    have "\<not> \<not> found \<Longrightarrow> rows db (column, rowId) \<noteq> None" using found by simp
    from WriteRowStructs_atomic [OF os(1) db wf this] obtain st db' where w:
      "WriteRowStructs os db column rowId (row_entries ks vs) (\<not> found) = Some (st, db')" "row_ok db'" "row_frame db db'"
      "rows db' = (if IsOk st then (rows db)((column, rowId) \<mapsto> row_map (row_entries ks vs)) else rows db)"
      "writes_ok os \<and> (\<not> found \<longrightarrow> row_slot_free db) \<longrightarrow> IsOk st"
      "IsOk st \<longrightarrow> st = Ok \<and> row_appended db db' column rowId (row_map (row_entries ks vs))"
      by blast
    have st: "IsOk st" using w(5) os(2) slot by blast
    have "st = Ok" using w(6) st by blast
    moreover have "row_appended db db' column rowId ((map_of (zip keys vals))(key \<mapsto> v))"
      using w(6) st map by simp
    ultimately show ?thesis
      using w(1-5) st op key row_write_fits_column [OF wf] by (simp add: PutRowStruct_def load kv map keys(3))
  qed
  show ?thesis
  proof (cases rule: LoadRowEntries_ok [OF os(1) row_ok_readable [OF db], where column = column and rowId = rowId])
    case (1 keys vals m)
    then show ?thesis by (intro store [OF 1(2)]) (simp_all add: row_or_empty_def)
  next
    case 2
    then show ?thesis by (intro store [OF 2(2)]) (simp_all add: row_or_empty_def)
  qed
qed

subsection \<open>The row API as a keyed store\<close>

text \<open>The cells of all rows: a map from column, row id and key.\<close>

definition cells :: "Impl \<Rightarrow> (bytes \<times> u64 \<times> bytes \<rightharpoonup> bytes)" where
  "cells db = (\<lambda>(column, rowId, key). row_or_empty (rows db (column, rowId)) key)"

fun put_cells :: "os \<Rightarrow> Impl \<Rightarrow> ((bytes \<times> u64 \<times> bytes) \<times> bytes) list \<Rightarrow> Impl option" where
  "put_cells os db [] = Some db"
| "put_cells os db (((column, rowId, key), v) # kvs) =
     (case PutRowStruct os db column rowId key v of
        Some (status, db') \<Rightarrow> if IsOk status then put_cells os db' kvs else None
      | None \<Rightarrow> None)"

fun cells_fit :: "os \<Rightarrow> Impl \<Rightarrow> ((bytes \<times> u64 \<times> bytes) \<times> bytes) list \<Rightarrow> bool" where
  "cells_fit os db [] \<longleftrightarrow> True"
| "cells_fit os db (((column, rowId, key), v) # kvs) \<longleftrightarrow>
     put_row_fits os db column rowId key v \<and>
     (case PutRowStruct os db column rowId key v of
        Some (status, db') \<Rightarrow> cells_fit os db' kvs
      | None \<Rightarrow> True)"

definition get_cell :: "os \<Rightarrow> Impl \<Rightarrow> bytes \<times> u64 \<times> bytes \<Rightarrow> bytes option" where
  "get_cell os db = (\<lambda>(column, rowId, key).
     case GetRowStruct os db column rowId key of Some (Inr v) \<Rightarrow> Some v | _ \<Rightarrow> None)"

lemma cells_upd:
  assumes "rows db' = (rows db)((column, rowId) \<mapsto> (row_or_empty (rows db (column, rowId)))(key \<mapsto> v))"
  shows "cells db' = (cells db)((column, rowId, key) \<mapsto> v)"
proof
  fix k :: "bytes \<times> u64 \<times> bytes"
  obtain c r k' where k: "k = (c, r, k')" by (metis prod_cases3)
  show "cells db' k = ((cells db)((column, rowId, key) \<mapsto> v)) k"
    by (cases "c = column \<and> r = rowId") (auto simp: k cells_def assms row_or_empty_def)
qed

lemma put_cells_ok:
  assumes os: "reads_ok os" "writes_ok os"
  shows "row_ok db \<Longrightarrow> cells_fit os db kvs \<Longrightarrow>
    \<exists>db'. put_cells os db kvs = Some db' \<and> row_ok db' \<and> cells db' = put_all kvs (cells db)"
proof (induction kvs arbitrary: db)
  case Nil
  then show ?case by simp
next
  case (Cons kv kvs)
  obtain column rowId key v where kv: "kv = ((column, rowId, key), v)" by (metis prod_cases3 prod.collapse)
  have "put_row_fits os db column rowId key v" using Cons.prems(2) by (simp add: kv)
  from PutRowStruct_ok [OF os Cons.prems(1) this] obtain db1 where p:
    "PutRowStruct os db column rowId key v = Some (Ok, db1)" "row_ok db1"
    "cells db1 = (cells db)((column, rowId, key) \<mapsto> v)"
    using cells_upd by blast
  have "cells_fit os db1 kvs" using Cons.prems(2) p(1) by (simp add: kv)
  note IH = Cons.IH [OF p(2) this]
  have "put_cells os db (kv # kvs) = put_cells os db1 kvs" by (simp add: kv p(1))
  moreover have "put_all (kv # kvs) (cells db) = put_all kvs (cells db1)" by (simp only: kv put_all_simps p(3))
  ultimately show ?case using IH by (simp only:)
qed

lemma get_cell_ok:
  assumes "reads_ok os" and "row_ok db"
  shows "get_cell os db k = cells db k"
proof -
  obtain column rowId key where k: "k = (column, rowId, key)" by (metis prod_cases3)
  show ?thesis
    using GetRowStruct_ok [OF assms(1) row_ok_readable [OF assms(2)], of column rowId key]
    by (auto simp: k get_cell_def cells_def row_result_def row_or_empty_def row_lookup_def split: option.split)
qed

interpretation row_store: keyed_store
  "\<lambda>db. reads_ok os \<and> writes_ok os \<and> row_ok db" cells "cells_fit os" "put_cells os" "get_cell os" for os
proof
  fix db kvs
  assume "reads_ok os \<and> writes_ok os \<and> row_ok db" "cells_fit os db kvs"
  then show "\<exists>db'. put_cells os db kvs = Some db' \<and> (reads_ok os \<and> writes_ok os \<and> row_ok db') \<and>
      cells db' = put_all kvs (cells db)"
    using put_cells_ok by blast
next
  fix db k
  assume "reads_ok os \<and> writes_ok os \<and> row_ok db"
  then show "get_cell os db k = cells db k" by (intro get_cell_ok) simp_all
qed

subsection \<open>The empty row index\<close>

definition empty_row_index :: "u64 \<Rightarrow> u32 \<Rightarrow> row_index" where
  "empty_row_index n shards =
     \<lparr>ri_header = RowIndexFileHeader_default\<lparr>rih_bucketCount := n, rih_shardCount := shards\<rparr>,
      ri_buckets = replicate (unat n) RowIndexBucket_default\<rparr>"

lemma empty_row_index_ok:
  assumes "k \<le> 56" and "unat n = length shards"
  shows "row_index_ok shards (empty_row_index (2 ^ k) n)"
proof -
  have pow: "unat ((2 :: u64) ^ k) = 2 ^ k" using assms(1) by simp
  have "chained vacant_row row_bucket_hash (replicate m RowIndexBucket_default)" for m
    by (rule row_index_table.chained_blank)
  moreover have occ: "occupied vacant_row (replicate m RowIndexBucket_default) = []" for m
    by (rule row_index_table.occupied_blank)
  ultimately have "rows_table_ok shards (replicate m RowIndexBucket_default)" for m
    by (auto simp: rows_table_ok_def unique_keys_def RowIndexBucket_default_def)
  then show ?thesis
    using assms pow occ unfolding row_index_ok_def by (auto simp: empty_row_index_def RowIndexFileHeader_default_def row_header_ok_def)
qed

lemma rows_map_empty [simp]: "rows_map shards (ri_buckets (empty_row_index n s)) = (\<lambda>_. None)"
  by (rule ext) (simp add: rows_map_def table_map_def empty_row_index_def RowIndexBucket_default_def)

end
