(* ===== verification/Row_Growth.thy ===== *)
theory Row_Growth
  imports Row_Writes
begin

text \<open>
  Growth of the row index while its rows are rebuilt: a larger table keeps the rows, and the table
  always has a vacant bucket left for the next row.
\<close>

text \<open>What an operation on the row index may change besides the mapping: the content of its file.\<close>

definition row_index_frame :: "Impl \<Rightarrow> Impl \<Rightarrow> bool" where
  "row_index_frame db db' \<longleftrightarrow>
     (\<exists>fs m. db' = db\<lparr>filesys := fs, rowIndexMap := m\<rparr> \<and> dirs fs = dirs (filesys db) \<and>
        (\<forall>path. rowIndexFile db \<noteq> Some path \<longrightarrow> files fs path = files (filesys db) path))"

lemma row_index_frameI:
  "db' = db\<lparr>filesys := fs, rowIndexMap := m\<rparr> \<Longrightarrow> dirs fs = dirs (filesys db) \<Longrightarrow>
    (\<forall>path. rowIndexFile db \<noteq> Some path \<longrightarrow> files fs path = files (filesys db) path) \<Longrightarrow> row_index_frame db db'"
  unfolding row_index_frame_def by blast

lemma row_index_frame_refl [simp]: "row_index_frame db db"
  by (rule row_index_frameI [where fs = "filesys db" and m = "rowIndexMap db"]) simp_all

lemma row_index_frame_with [simp]: "row_index_frame db (with_row_index v db)"
  by (rule row_index_frameI [where fs = "filesys db" and m = "(rowIndexMap db)\<lparr>mapped_data := Some v\<rparr>"])
    (simp_all add: with_row_index_def)

lemma row_index_frame_trans:
  assumes "row_index_frame a b" and "row_index_frame b c"
  shows "row_index_frame a c"
proof -
  obtain fs m fs' m' where "b = a\<lparr>filesys := fs, rowIndexMap := m\<rparr>"
    and "c = b\<lparr>filesys := fs', rowIndexMap := m'\<rparr>"
    and "dirs fs = dirs (filesys a)" and "dirs fs' = dirs (filesys b)"
    and "\<forall>path. rowIndexFile a \<noteq> Some path \<longrightarrow> files fs path = files (filesys a) path"
    and "\<forall>path. rowIndexFile b \<noteq> Some path \<longrightarrow> files fs' path = files (filesys b) path"
    using assms unfolding row_index_frame_def by blast
  then show ?thesis by (intro row_index_frameI [where fs = fs' and m = m']) simp_all
qed

lemma row_index_frameD:
  assumes "row_index_frame db db'"
  shows "rowIndexFile db' = rowIndexFile db" "rowValueFiles db' = rowValueFiles db"
    "rowValueMaps db' = rowValueMaps db" "rowAppendOffsets db' = rowAppendOffsets db"
    "options db' = options db" "opened db' = opened db" "readOnly db' = readOnly db"
    "rowPendingInsertCount db' = rowPendingInsertCount db"
    "\<And>path. rowIndexFile db \<noteq> Some path \<Longrightarrow> files (filesys db') path = files (filesys db) path"
  using assms by (auto simp: row_index_frame_def)

text \<open>The shards keep their bytes as long as the row index has a file of its own.\<close>

definition row_files_apart :: "Impl \<Rightarrow> bool" where
  "row_files_apart db \<longleftrightarrow>
     None \<notin> set (rowValueFiles db) \<and> rowIndexFile db \<noteq> None \<and> rowIndexFile db \<notin> set (rowValueFiles db)"

lemma row_index_frame_bytes:
  assumes fr: "row_index_frame db db'" and apart: "row_files_apart db" and s: "s < length (rowValueFiles db)"
  shows "row_bytes db' s = row_bytes db s"
proof -
  have "rowValueFiles db ! s \<in> set (rowValueFiles db)" using s by simp
  then obtain path where path: "rowValueFiles db ! s = Some path" "rowIndexFile db \<noteq> Some path"
    using apart unfolding row_files_apart_def by (metis option.exhaust)
  have "file_content (filesys db') path = file_content (filesys db) path"
    using row_index_frameD(9) [OF fr path(2)] by (simp add: file_content_def)
  then show ?thesis
    by (simp add: row_bytes_def row_index_frameD(2,3) [OF fr] path(1))
qed

lemma row_index_frame_shards:
  assumes "row_index_frame db db'" and "row_files_apart db"
  shows "shards_of db' = shards_of db"
  using assms row_index_frame_bytes by (simp add: shards_of_def row_index_frameD(2))

lemma row_index_frame_readable:
  assumes fr: "row_index_frame db db'" and "row_files_apart db" and "row_readable db"
  shows "row_readable db'"
  using assms row_index_frame_bytes [OF fr] by (simp add: row_readable_def row_index_frameD(2,3))

lemma row_files_apart_frame: "row_index_frame db db' \<Longrightarrow> row_files_apart db' = row_files_apart db"
  by (simp add: row_files_apart_def row_index_frameD)

subsection \<open>Placing buckets\<close>

lemma PlaceExistingRowBucket_first_vacant:
  assumes v: "mapped_data (rowIndexMap db) = Some v" and j: "j < 64"
    and n: "rih_bucketCount (ri_header v) = 2 ^ j" "length (ri_buckets v) = 2 ^ j"
  shows "PlaceExistingRowBucket db b =
    (case first_vacant vacant_row (ri_buckets v) (row_bucket_hash b) of
       Some i \<Rightarrow> (Ok, with_row_index (v\<lparr>ri_buckets := (ri_buckets v)[i := b]\<rparr>) db)
     | None \<Rightarrow> (Corruption ''row index table is full during resize'', db))"
  using v n probe_indices_pow2 [OF j, of "row_bucket_hash b"]
  by (simp add: PlaceExistingRowBucket_def Let_def RowBuckets_def RowIndexHeader_def first_vacant_def
      set_RowBucket_with row_bucket_hash_def cong: option.case_cong)

definition add_rows :: "nat \<Rightarrow> RowIndexFileHeader \<Rightarrow> RowIndexFileHeader" where
  "add_rows n h = h\<lparr>rih_itemCount := rih_itemCount h + of_nat n\<rparr>"

lemma add_rows_simps [simp]:
  "add_rows 0 h = h" "row_header_ok (add_rows n h) = row_header_ok h"
  "rih_bucketCount (add_rows n h) = rih_bucketCount h" "rih_shardCount (add_rows n h) = rih_shardCount h"
  "rih_itemCount (add_rows n h) = rih_itemCount h + of_nat n"
  by (simp_all add: add_rows_def)

lemma place_existing_rows_ok:
  assumes "mapped_data (rowIndexMap db) = Some v" and j: "j < 64"
    and "rih_bucketCount (ri_header v) = 2 ^ j" and "length (ri_buckets v) = 2 ^ j"
    and "place_all vacant_row row_bucket_hash bs (ri_buckets v) = Some slots"
  shows "place_existing_rows bs db =
    (Ok, with_row_index (v\<lparr>ri_header := add_rows (length bs) (ri_header v), ri_buckets := slots\<rparr>) db)"
  using assms
proof (induction bs arbitrary: db v)
  case Nil
  have "with_row_index v db = db" using Nil.prems(1) by (simp add: with_row_index_def)
  moreover have "slots = ri_buckets v" using Nil.prems(5) by simp
  ultimately show ?case by simp
next
  case (Cons b bs)
  then obtain i where i: "first_vacant vacant_row (ri_buckets v) (row_bucket_hash b) = Some i"
    by (auto split: option.splits)
  define w where "w = count_row (v\<lparr>ri_buckets := (ri_buckets v)[i := b]\<rparr>)"
  have step: "place_existing_rows (b # bs) db = place_existing_rows bs (with_row_index w db)"
    using Cons.prems(1)
    by (simp add: PlaceExistingRowBucket_first_vacant [OF Cons.prems(1-4)] i increment_row_with w_def)
  have "place_existing_rows bs (with_row_index w db) =
      (Ok, with_row_index (w\<lparr>ri_header := add_rows (length bs) (ri_header w), ri_buckets := slots\<rparr>) (with_row_index w db))"
    using Cons.prems i by (intro Cons.IH) (simp_all add: w_def)
  then show ?case
    unfolding step by (simp add: w_def count_row_def add_rows_def algebra_simps)
qed

subsection \<open>A new table\<close>

lemma pow2_le_56: "j \<le> 56 \<Longrightarrow> (2 :: nat) ^ j \<le> 72057594037927936"
  using power_increasing [of j 56 "2 :: nat"] by simp

lemma row_index_file_size:
  assumes "j \<le> 56"
  shows "unat (64 + 2 ^ j * 64 :: u64) = 64 + 64 * 2 ^ j"
proof -
  have p: "unat ((2 :: u64) ^ j) = 2 ^ j" using assms by simp
  have "unat ((2 :: u64) ^ j * 64) = 2 ^ j * 64"
    using unat_mult64 [of "2 ^ j" 64] pow2_le_56 [OF assms] by (simp only: p) simp
  then show ?thesis
    using unat_add64 [of 64 "2 ^ j * 64"] pow2_le_56 [OF assms] by simp
qed

lemma unmap_row_index_index_frame:
  "row_index_frame db (unmap_row_index db) \<and> rowIndexMap (unmap_row_index db) = Unmapped"
proof -
  define fs where "fs = (case (mapped_data (rowIndexMap db), rowIndexFile db) of
      (Some v, Some path) \<Rightarrow> if mapped_writable (rowIndexMap db)
        then set_file (filesys db) path (encode_row_index v) else filesys db
    | _ \<Rightarrow> filesys db)"
  have eq: "unmap_row_index db = db\<lparr>filesys := fs, rowIndexMap := Unmapped\<rparr>"
    by (auto simp: unmap_row_index_def fs_def split: option.split)
  moreover have "dirs fs = dirs (filesys db)"
    by (auto simp: fs_def split: option.split)
  moreover have "\<forall>path. rowIndexFile db \<noteq> Some path \<longrightarrow> files fs path = files (filesys db) path"
    by (auto simp: fs_def split: option.split)
  ultimately show ?thesis using row_index_frameI [OF eq] by simp
qed

lemma CreateEmptyRowIndex_ok:
  assumes "calls_ok os" and ipath: "rowIndexFile db = Some path" and j: "4 \<le> j" "j \<le> 56"
  shows "\<exists>db'. CreateEmptyRowIndex os db (2 ^ j) = Some (Ok, db') \<and> row_index_frame db db' \<and>
    rowIndexMap db' = \<lparr>mapped_data = Some (empty_row_index (2 ^ j) (rowShardCount (options db))),
      mapped_size = 64 + 2 ^ j * 64, mapped_writable = True\<rparr>"
proof -
  define sz where "sz = (64 + 2 ^ j * 64 :: u64)"
  define db1 where "db1 = unmap_row_index db"
  have fr: "row_index_frame db db1" by (simp add: db1_def unmap_row_index_index_frame)
  have same: "rowIndexFile db1 = Some path" "options db1 = options db"
    using row_index_frameD(1,5) [OF fr] ipath by simp_all
  have sz: "unat sz = 64 + 64 * 2 ^ j"
    using row_index_file_size [OF j(2)] by (simp add: sz_def)
  then have nz: "sz \<noteq> 0" by (metis add_is_0 unat_0 zero_neq_numeral)
  have "\<not> off_negative sz"
    using pow2_le_56 [OF j(2)] by (simp add: off_negative_def sz)
  then have trunc: "TruncateFile os (filesys db1) (Some path) sz =
      (Ok, set_file (filesys db1) path (resize_content (file_content (filesys db1) path) (unat sz)))"
    using assms(1) by (simp add: TruncateFile_def calls_ok_def)
  have n: "(unat sz - 64) div 64 = unat ((2 :: u64) ^ j)" using j by (simp add: sz)
  have round: "RoundUpPowerOfTwo (2 ^ j) = Some (2 ^ j)"
    using j by (intro RoundUpPowerOfTwo_pow2) simp_all
  define fs where "fs = set_file (filesys db1) path
      (resize_content (file_content (filesys db1) path) (unat sz))"
  define m where "m = \<lparr>mapped_data = Some (empty_row_index (2 ^ j) (rowShardCount (options db))),
      mapped_size = sz, mapped_writable = True\<rparr>"
  have "CreateEmptyRowIndex os db (2 ^ j) = Some (Ok, db1\<lparr>filesys := fs, rowIndexMap := m\<rparr>)"
    using assms(1) nz
    by (simp add: CreateEmptyRowIndex_def round Let_def trunc n calls_ok_def same
        MapWithProtection_def m_def empty_row_index_def fs_def flip: db1_def sz_def)
  moreover have "row_index_frame db1 (db1\<lparr>filesys := fs, rowIndexMap := m\<rparr>)"
    by (rule row_index_frameI [OF refl]) (simp_all add: fs_def same)
  ultimately show ?thesis
    using row_index_frame_trans [OF fr] by (auto simp: m_def sz_def)
qed

lemma place_all_subset:
  "place_all vacant hash bs slots = Some slots' \<Longrightarrow> set slots' \<subseteq> set slots \<union> set bs"
proof (induction bs arbitrary: slots)
  case (Cons b bs)
  then obtain i where "place_all vacant hash bs (slots[i := b]) = Some slots'"
    by (auto split: option.splits)
  from Cons.IH [OF this] show ?case using set_update_subset_insert [of slots i b] by auto
qed simp

text \<open>
  A resize keeps the rows, the item count and the sequence number, and the new table is well formed.
\<close>

lemma ResizeRowIndex_ok:
  assumes os: "calls_ok os" and ipath: "rowIndexFile db = Some path" and j: "4 \<le> j" "j \<le> 56"
    and v: "mapped_data (rowIndexMap db) = Some v" and ok: "row_index_ok shards v"
    and shards: "unat (rowShardCount (options db)) = length shards"
    and room: "length (occupied vacant_row (ri_buckets v)) < 2 ^ j"
  shows "\<exists>db' v'. ResizeRowIndex os db (2 ^ j) = Some (Ok, db') \<and> row_index_frame db db' \<and>
    mapped_data (rowIndexMap db') = Some v' \<and> mapped_writable (rowIndexMap db') \<and> row_index_ok shards v' \<and>
    length (ri_buckets v') = 2 ^ j \<and> rows_map shards (ri_buckets v') = rows_map shards (ri_buckets v) \<and>
    length (occupied vacant_row (ri_buckets v')) = length (occupied vacant_row (ri_buckets v)) \<and>
    rih_nextSequence (ri_header v') = rih_nextSequence (ri_header v)"
proof -
  let ?old = "occupied vacant_row (ri_buckets v)"
  have rt: "rows_table_ok shards (ri_buckets v)" and items: "unat (rih_itemCount (ri_header v)) = length ?old"
    using ok by (simp_all add: row_index_ok_def)
  have tab: "\<forall>b \<in> set (ri_buckets v). \<not> vacant_row b \<longrightarrow> row_bucket_ok shards b"
      "\<forall>b \<in> set (ri_buckets v). rib_reserved64 b = 0 \<and> rib_reserved65 b = 0"
      "unique_keys vacant_row (row_bucket_key shards) (ri_buckets v)"
    using rt by (simp_all add: rows_table_ok_def)
  have filled: "rib_state b = kRowBucketFilled \<longleftrightarrow> \<not> vacant_row b" if "b \<in> set (ri_buckets v)" for b
    using tab(1) that by (auto simp: row_bucket_ok_def row_bucket_at_def)
  have old: "filter (\<lambda>b. rib_state b = kRowBucketFilled)
      (map (\<lambda>index. RowBuckets db ! index) [0..<unat (rih_bucketCount (RowIndexHeader db))]) = ?old"
  proof -
    obtain k where "k \<le> 56" "rih_bucketCount (ri_header v) = 2 ^ k" "length (ri_buckets v) = 2 ^ k"
      using ok by (rule row_index_okD)
    then have "unat (rih_bucketCount (ri_header v)) = length (ri_buckets v)" by simp
    then have "map (\<lambda>index. RowBuckets db ! index) [0..<unat (rih_bucketCount (RowIndexHeader db))] = ri_buckets v"
      using v by (simp add: RowBuckets_def RowIndexHeader_def map_nth)
    then show ?thesis by (simp add: occupied_def filled cong: filter_cong)
  qed
  define e0 where "e0 = empty_row_index (2 ^ j) (rowShardCount (options db))"
  obtain db1 where c1: "CreateEmptyRowIndex os db (2 ^ j) = Some (Ok, db1)" and fr: "row_index_frame db db1"
    and m1: "rowIndexMap db1 = \<lparr>mapped_data = Some e0, mapped_size = 64 + 2 ^ j * 64, mapped_writable = True\<rparr>"
    using CreateEmptyRowIndex_ok [OF os ipath j] by (auto simp: e0_def)
  define e where "e = e0\<lparr>ri_header := (ri_header e0)\<lparr>rih_nextSequence := rih_nextSequence (ri_header v)\<rparr>\<rparr>"
  have e: "rih_bucketCount (ri_header e) = 2 ^ j" "ri_buckets e = replicate (2 ^ j) RowIndexBucket_default"
      "rih_itemCount (ri_header e) = 0" "row_header_ok (ri_header e)"
      "rih_nextSequence (ri_header e) = rih_nextSequence (ri_header v)"
      "unat (rih_shardCount (ri_header e)) = length shards"
    using j shards by (simp_all add: e_def e0_def empty_row_index_def) (simp add: RowIndexFileHeader_default_def)
  define db2 where "db2 = with_row_index e db1"
  have db2: "set_RowIndexHeader ((RowIndexHeader db1)\<lparr>rih_nextSequence := rih_nextSequence (RowIndexHeader db)\<rparr>) db1 = db2"
    using m1 v by (simp add: set_RowIndexHeader_with db2_def e_def RowIndexHeader_def)
  obtain slots where slots: "place_all vacant_row row_bucket_hash ?old (replicate (2 ^ j) RowIndexBucket_default) = Some slots"
      "length slots = 2 ^ j" "chained vacant_row row_bucket_hash slots"
      "mset (occupied vacant_row slots) = mset ?old"
    using row_index_table.rehash_ok [of "ri_buckets v" "2 ^ j"] room by auto
  define w where "w = e\<lparr>ri_header := add_rows (length ?old) (ri_header e), ri_buckets := slots\<rparr>"
  have place: "place_existing_rows ?old db2 = (Ok, with_row_index w db2)"
    unfolding w_def using j e slots
    by (intro place_existing_rows_ok [where j = j]) (simp_all add: db2_def)
  have res: "ResizeRowIndex os db (2 ^ j) = Some (Ok, with_row_index w db2)"
    by (simp add: ResizeRowIndex_def Let_def old c1 db2 place)
  have set: "set (occupied vacant_row slots) = set ?old"
    using slots(4) by (rule mset_eq_setD)
  have sub: "b \<in> set (ri_buckets v)" if "b \<in> set slots" "\<not> vacant_row b" for b
    using that set by (auto simp: set_occupied)
  have len: "length (occupied vacant_row slots) = length ?old"
    using slots(4) by (rule mset_eq_length)
  have un: "unique_keys vacant_row (row_bucket_key shards) slots"
    using tab(3) unique_keys_mset [OF slots(4), of "row_bucket_key shards"] by blast
  have "set slots \<subseteq> insert RowIndexBucket_default (set (ri_buckets v))"
    using place_all_subset [OF slots(1)] by (auto simp: set_occupied)
  then have reserved: "\<forall>b \<in> set slots. rib_reserved64 b = 0 \<and> rib_reserved65 b = 0"
    using tab(2) by (auto simp: RowIndexBucket_default_def)
  have "rows_table_ok shards slots"
    unfolding rows_table_ok_def using tab(1) sub slots(3) un reserved by auto
  moreover have "unat (of_nat (length ?old) :: u64) = length ?old"
    using room pow2_le_56 [OF j(2)] by (intro unat_of_nat64) (simp add: less_le_trans)
  ultimately have "row_index_ok shards w"
    unfolding row_index_ok_def using j slots(2) e room len by (auto simp: w_def)
  moreover have "rows_map shards slots = rows_map shards (ri_buckets v)"
    unfolding rows_map_def by (rule table_map_eqI [OF un tab(3) set])
  moreover have "row_index_frame db (with_row_index w db2)"
    using row_index_frame_trans [OF fr row_index_frame_with] by (simp add: db2_def)
  ultimately show ?thesis
    using res len slots(2) m1 e(5)
    by (intro exI [of _ "with_row_index w db2"] exI [of _ w]) (simp add: w_def db2_def add_rows_def)
qed

subsection \<open>Room for the next row\<close>

text \<open>
  Room for \<open>n\<close> more rows: the load factor is a number below 1, the counts are below the 53 bits a
  double holds exactly, and the table needs at most \<open>2 ^ 56\<close> buckets.
\<close>

definition row_capacity :: "DatabaseOptions \<Rightarrow> row_index \<Rightarrow> nat \<Rightarrow> bool" where
  "row_capacity opts v n \<longleftrightarrow>
     (\<exists>f. maxLoadFactor opts = Fin f \<and> f < 1 \<and>
        unat (rih_itemCount (ri_header v)) + n < 2 ^ 53 \<and>
        rat_of_nat (unat (rih_itemCount (ri_header v)) + n) \<le> f * 2 ^ 56)"

lemma row_capacity_mono:
  assumes "row_capacity opts v (Suc n)"
    and "unat (rih_itemCount (ri_header v')) \<le> Suc (unat (rih_itemCount (ri_header v)))"
  shows "row_capacity opts v' n" and "row_capacity opts v 1"
proof -
  obtain f where f: "maxLoadFactor opts = Fin f" "f < 1" "unat (rih_itemCount (ri_header v)) + Suc n < 2 ^ 53"
    "rat_of_nat (unat (rih_itemCount (ri_header v)) + Suc n) \<le> f * 2 ^ 56"
    using assms(1) by (auto simp: row_capacity_def)
  have le: "rat_of_nat m \<le> f * 2 ^ 56" if "m \<le> unat (rih_itemCount (ri_header v)) + Suc n" for m
    using that f(4) by (meson of_nat_le_iff order_trans)
  show "row_capacity opts v' n"
    unfolding row_capacity_def using f assms(2) by (intro exI [of _ f] conjI le) simp_all
  show "row_capacity opts v 1"
    unfolding row_capacity_def using f by (intro exI [of _ f] conjI le) simp_all
qed

lemma EnsureRowCapacity_ok:
  assumes os: "calls_ok os" and ipath: "rowIndexFile db = Some path"
    and v: "mapped_data (rowIndexMap db) = Some v" "mapped_writable (rowIndexMap db)"
    and ok: "row_index_ok shards v" and big: "16 \<le> B" "B \<le> length (ri_buckets v)"
    and shards: "unat (rowShardCount (options db)) = length shards"
    and cap: "row_capacity (options db) v 1"
  shows "\<exists>db' v'. EnsureRowCapacityForInsert os db = Some (Ok, db') \<and> row_index_frame db db' \<and>
    mapped_data (rowIndexMap db') = Some v' \<and> mapped_writable (rowIndexMap db') \<and> row_index_ok shards v' \<and>
    B \<le> length (ri_buckets v') \<and> rows_map shards (ri_buckets v') = rows_map shards (ri_buckets v) \<and>
    length (occupied vacant_row (ri_buckets v')) = length (occupied vacant_row (ri_buckets v)) \<and>
    length (occupied vacant_row (ri_buckets v')) + 1 < length (ri_buckets v')"
proof -
  let ?items = "rih_itemCount (ri_header v)"
  obtain f where f: "maxLoadFactor (options db) = Fin f" "f < 1" and small: "unat ?items + 1 < 2 ^ 53"
    and le: "rat_of_nat (unat ?items + 1) \<le> f * 2 ^ 56"
    using cap by (auto simp: row_capacity_def)
  obtain k where k: "k \<le> 56" "rih_bucketCount (ri_header v) = 2 ^ k" "length (ri_buckets v) = 2 ^ k"
    using ok by (rule row_index_okD)
  have items: "unat ?items = length (occupied vacant_row (ri_buckets v))" "unat ?items < 2 ^ k"
    using ok k(3) by (simp_all add: row_index_ok_def)
  have tot: "unat (?items + 1) = unat ?items + 1"
    using small unat_add_of_nat64 [of ?items 1] by simp
  define q where "q = rat_of_nat (unat ?items + 1) / 2 ^ k"
  have small': "unat (?items + 1) < 2 ^ 53" using small tot by simp
  have load: "ddiv (double_of_u64 (?items + 1)) (double_of_u64 (2 ^ k)) = Fin q"
    using k(1) small fl_of_nat [OF small'] fl_dyadic [OF small, of k] tot
    by (simp add: double_of_u64_def fl_pow2 q_def)
  have H: "RowIndexHeader db = ri_header v" using v by (simp add: RowIndexHeader_def)
  show ?thesis
  proof (cases "q \<le> f")
    case True
    then have "q < 1" using f(2) by simp
    then have "rat_of_nat (unat ?items + 1) < of_nat (2 ^ k)" by (simp add: q_def pos_divide_less_eq)
    then have "unat ?items + 1 < 2 ^ k" by (simp only: of_nat_less_iff)
    moreover have "EnsureRowCapacityForInsert os db = Some (Ok, db)"
      using True load by (auto simp: EnsureRowCapacityForInsert_def Let_def H f(1) k(2) dle_def mult.commute)
    ultimately show ?thesis
      using v ok items big k(3) by (intro exI [of _ db] exI [of _ v]) simp
  next
    case False
    have "k \<noteq> 56" using False le by (auto simp: q_def field_simps)
    then have k56: "Suc k \<le> 56" using k(1) by simp
    have "(2 :: nat) ^ 4 \<le> 2 ^ k" using order_trans [OF big] k(3) by simp
    then have k4: "4 \<le> Suc k" using power_le_imp_le_exp [of "2 :: nat" 4 k] by simp
    have "EnsureRowCapacityForInsert os db = ResizeRowIndex os db (2 ^ Suc k)"
      using False load by (simp add: EnsureRowCapacityForInsert_def Let_def H f(1) k(2) dle_def mult.commute)
    moreover have "length (occupied vacant_row (ri_buckets v)) < 2 ^ Suc k" using items by simp
    ultimately show ?thesis
      using ResizeRowIndex_ok [OF os ipath k4 k56 v(1) ok shards] items big k(3) by auto
  qed
qed

end
