(* ===== verification/Row_Files.thy ===== *)
theory Row_Files
  imports Row_Growth
begin

text \<open>
  Opening the row value files and the row index, and the reconstruction of the row index from the
  blocks of every shard.
\<close>

subsection \<open>Paths\<close>

text \<open>\<open>operator/\<close> of \<open>std::filesystem::path\<close> for a relative right-hand side.\<close>

definition path_join :: "string \<Rightarrow> string \<Rightarrow> string" where
  "path_join dir name = (if dir = '''' \<or> last dir = CHR ''/'' then dir @ name else dir @ ''/'' @ name)"

text \<open>The decimal digits of a number, as \<open>operator<<\<close> prints it.\<close>

fun decimal :: "nat \<Rightarrow> string" where
  "decimal n = (if n < 10 then [char_of (48 + n)] else decimal (n div 10) @ [char_of (48 + n mod 10)])"

declare decimal.simps [simp del]

text \<open>\<open>std::setw(3) << std::setfill('0')\<close>\<close>

definition zero_padded :: "string \<Rightarrow> string" where
  "zero_padded digits = replicate (3 - length digits) (CHR ''0'') @ digits"

definition RowValuePath :: "string \<Rightarrow> u32 \<Rightarrow> string" where
  "RowValuePath dir shardId =
     path_join dir (''row_values-'' @ zero_padded (decimal (unat shardId)) @ ''.lumorv'')"

subsection \<open>The row value files\<close>

definition open_row_value_file :: "os \<Rightarrow> u32 \<Rightarrow> Impl \<Rightarrow> Status \<times> Impl" where
  "open_row_value_file os shardId db =
     (let path = RowValuePath (directory db) shardId; s = unat shardId;
          (status, fd, fs1) =
            (if readOnly db
             then (case OpenReadOnlyFile os (filesys db) path of (st, fd) \<Rightarrow> (st, fd, filesys db))
             else OpenReadWriteCreate os (filesys db) path)
      in if \<not> IsOk status then (status, db\<lparr>filesys := fs1\<rparr>)
         else
           let db1 = db\<lparr>filesys := fs1, rowValueFiles := (rowValueFiles db)[s := fd]\<rparr> in
           case GetFileSize os (filesys db1) (rowValueFiles db1 ! s) of
             Inl status \<Rightarrow> (status, db1)
           | Inr fileSize \<Rightarrow>
               if fileSize = 0 then
                 (if readOnly db1 then (Corruption ''row value file is empty'', db1)
                  else
                    let (status, fs2) = WriteAllAt os (filesys db1) (rowValueFiles db1 ! s)
                          (encode_RowValueFileHeader RowValueFileHeader_default) 0
                    in if \<not> IsOk status then (status, db1\<lparr>filesys := fs2\<rparr>)
                       else (Ok, db1\<lparr>filesys := fs2, rowAppendOffsets := (rowAppendOffsets db1)[s := 24]\<rparr>))
               else if fileSize < 24 then (Corruption ''row value file header is truncated'', db1)
               else case ReadAllAt os (filesys db1) (rowValueFiles db1 ! s) 24 0 of
                   Inl status \<Rightarrow> (status, db1)
                 | Inr bs \<Rightarrow>
                     let header = decode_RowValueFileHeader bs in
                     if \<not> MagicEquals (rf_magic header) kRowValueFileMagic \<or>
                        rf_version header \<noteq> of_nat kStorageVersion \<or> rf_headerSize header \<noteq> 24
                     then (Corruption ''row value file header is invalid'', db1)
                     else
                       let db2 = db1\<lparr>rowAppendOffsets := (rowAppendOffsets db1)[s := fileSize]\<rparr> in
                       if readOnly db2 then
                         (let (status, m) = MapWithProtection os (rowValueFiles db2 ! s)
                                (file_content (filesys db2) (the (rowValueFiles db2 ! s))) fileSize False
                          in (status, db2\<lparr>rowValueMaps := (rowValueMaps db2)[s := m]\<rparr>))
                       else (Ok, db2))"

fun open_row_value_files :: "os \<Rightarrow> u32 list \<Rightarrow> Impl \<Rightarrow> Status \<times> Impl" where
  "open_row_value_files os [] db = (Ok, db)"
| "open_row_value_files os (shardId # shardIds) db =
     (let (status, db1) = open_row_value_file os shardId db in
      if \<not> IsOk status then (status, db1) else open_row_value_files os shardIds db1)"

definition OpenRowValueFiles :: "os \<Rightarrow> Impl \<Rightarrow> Status \<times> Impl" where
  "OpenRowValueFiles os db =
     (let n = unat (rowShardCount (options db));
          db1 = db\<lparr>rowValueFiles := replicate n None, rowValueMaps := replicate n Unmapped,
                   rowAppendOffsets := replicate n 0\<rparr>
      in open_row_value_files os (map of_nat [0..<n]) db1)"

subsection \<open>Rebuilding the row index\<close>

text \<open>
  The scan of one shard; the result carries the next sequence number.  \<open>None\<close> is a scan that
  never ends.
\<close>

partial_function (option) rebuild_shard_loop ::
  "os \<Rightarrow> u32 \<Rightarrow> u64 \<Rightarrow> u64 \<Rightarrow> u64 \<Rightarrow> Impl \<Rightarrow> (Status \<times> u64 \<times> Impl) option" where
  "rebuild_shard_loop os shardId fileSize offset nextSequence db =
     (if \<not> offset < fileSize then Some (Ok, nextSequence, db)
      else case ReadAllAt os (filesys db) (rowValueFiles db ! unat shardId) 72 offset of
          Inl status \<Rightarrow> Some (status, nextSequence, db)
        | Inr bs \<Rightarrow>
            let blockHeader = decode_RowBlockHeader bs in
            if \<not> IsValidRowBlockHeader blockHeader
            then Some (Corruption ''row block header is invalid'', nextSequence, db)
            else if rb_blockSize blockHeader > fileSize - offset
            then Some (Corruption ''row block extends beyond file size'', nextSequence, db)
            else case ReadRowBlockColumn os db shardId offset blockHeader of
                Inl status \<Rightarrow> Some (status, nextSequence, db)
              | Inr column \<Rightarrow>
                  (case EnsureRowCapacityForInsert os db of
                     None \<Rightarrow> None
                   | Some r \<Rightarrow>
                       if \<not> IsOk (fst r) then Some (fst r, nextSequence, snd r)
                       else
                         let db1 = snd r in
                         case FindRowBucket os db1 column (rb_rowId blockHeader) (rb_columnHash blockHeader) of
                           None \<Rightarrow> None
                         | Some (Inl status) \<Rightarrow> Some (status, nextSequence, db1)
                         | Some (Inr lookup) \<Rightarrow>
                             let bucket = RowIndexBucket_default
                                   \<lparr>rib_state := kRowBucketFilled, rib_columnHash := rb_columnHash blockHeader,
                                    rib_rowId := rb_rowId blockHeader, rib_shardId := shardId,
                                    rib_blockOffset := offset, rib_blockSize := rb_blockSize blockHeader,
                                    rib_sequence := rb_sequence blockHeader\<rparr>;
                                 db2 = set_RowBucket (rlk_index lookup) bucket db1;
                                 db3 = (if \<not> rlk_found lookup then increment_rowItemCount db2 else db2)
                             in rebuild_shard_loop os shardId fileSize (offset + rb_blockSize blockHeader)
                                  (max nextSequence (rb_sequence blockHeader + 1)) db3))"

fun rebuild_shards :: "os \<Rightarrow> u32 list \<Rightarrow> u64 \<Rightarrow> Impl \<Rightarrow> (Status \<times> u64 \<times> Impl) option" where
  "rebuild_shards os [] nextSequence db = Some (Ok, nextSequence, db)"
| "rebuild_shards os (shardId # shardIds) nextSequence db =
     (case GetFileSize os (filesys db) (rowValueFiles db ! unat shardId) of
        Inl status \<Rightarrow> Some (status, nextSequence, db)
      | Inr fileSize \<Rightarrow>
          (case rebuild_shard_loop os shardId fileSize 24 nextSequence db of
             None \<Rightarrow> None
           | Some (status, nextSequence', db1) \<Rightarrow>
               if \<not> IsOk status then Some (status, nextSequence', db1)
               else rebuild_shards os shardIds nextSequence'
                      (db1\<lparr>rowAppendOffsets := (rowAppendOffsets db1)[unat shardId := fileSize]\<rparr>)))"

definition RebuildRowIndexFromValues :: "os \<Rightarrow> Impl \<Rightarrow> (Status \<times> Impl) option" where
  "RebuildRowIndexFromValues os db =
     (case rebuild_shards os (map of_nat [0..<length (rowValueFiles db)]) 1 db of
        None \<Rightarrow> None
      | Some (status, nextSequence, db1) \<Rightarrow>
          if \<not> IsOk status then Some (status, db1)
          else Some (Ok, set_RowIndexHeader ((RowIndexHeader db1)\<lparr>rih_nextSequence := nextSequence\<rparr>) db1))"

subsection \<open>The row index file\<close>

definition OpenRowIndexFile :: "os \<Rightarrow> Impl \<Rightarrow> (Status \<times> Impl) option" where
  "OpenRowIndexFile os db =
     (let (status, fd, fs1) =
        (if readOnly db
         then (case OpenReadOnlyFile os (filesys db) (rowIndexPath db) of (st, fd) \<Rightarrow> (st, fd, filesys db))
         else OpenReadWriteCreate os (filesys db) (rowIndexPath db))
      in if \<not> IsOk status then Some (status, db\<lparr>filesys := fs1\<rparr>)
         else
           let db1 = db\<lparr>filesys := fs1, rowIndexFile := fd\<rparr> in
           case GetFileSize os (filesys db1) (rowIndexFile db1) of
             Inl status \<Rightarrow> Some (status, db1)
           | Inr fileSize \<Rightarrow>
               if readOnly db1 \<and> fileSize = 0 then Some (Corruption ''row index file is empty'', db1)
               else
                 case
                   (if fileSize = 0 then Some (Ok, db1, True)
                    else
                      let (status, m) = MapWithProtection os (rowIndexFile db1)
                            (decode_row_index (file_content (filesys db1) (the (rowIndexFile db1))))
                            fileSize (\<not> readOnly db1);
                          db2 = db1\<lparr>rowIndexMap := m\<rparr>
                      in if \<not> IsOk status then Some (status, db2, False)
                         else map_option (\<lambda>valid. if \<not> valid then (Ok, db2\<lparr>rowIndexMap := Unmapped\<rparr>, True) else (Ok, db2, False))
                                (HasValidRowIndexLayout db2 fileSize)) of
                   None \<Rightarrow> None
                 | Some (status, db2, shouldRebuild) \<Rightarrow>
                    if \<not> IsOk status then Some (status, db2)
                    else if shouldRebuild then
                      (if readOnly db2 then Some (Corruption ''row index file must be valid in read-only mode'', db2)
                       else case CreateEmptyRowIndex os db2 (initialRowBucketCount (options db2)) of
                           None \<Rightarrow> None
                         | Some (status, db3) \<Rightarrow>
                             if \<not> IsOk status then Some (status, db3)
                             else RebuildRowIndexFromValues os db3)
                    else Some (Ok, db2))"

end
