(* ===== verification/Row_Log.thy ===== *)
theory Row_Log
  imports Row_Files
begin

text \<open>
  A row value file as a log of blocks.  Scanning the shards one after the other rebuilds an index
  that stands for the replay of their logs.
\<close>

subsection \<open>Blocks from an offset to the end\<close>

type_synonym row_block = "bytes \<times> RowBlockLayout"

fun blocks_from :: "bytes \<Rightarrow> nat \<Rightarrow> row_block list \<Rightarrow> bool" where
  "blocks_from c off [] \<longleftrightarrow> off = length c"
| "blocks_from c off ((column, L) # bs) \<longleftrightarrow>
     block_at c off column L \<and> layout_ok column (rb_rowId (rl_header L)) L \<and>
     blocks_from c (off + layout_size column L) bs"

definition row_block_key :: "row_block \<Rightarrow> bytes \<times> u64" where
  "row_block_key = (\<lambda>(column, L). (column, rb_rowId (rl_header L)))"

definition replay_rows ::
  "row_block list \<Rightarrow> (bytes \<times> u64 \<rightharpoonup> (bytes \<rightharpoonup> bytes)) \<Rightarrow> (bytes \<times> u64 \<rightharpoonup> (bytes \<rightharpoonup> bytes))" where
  "replay_rows bs m = fold (\<lambda>b m. m(row_block_key b \<mapsto> layout_map (snd b))) bs m"

lemma replay_rows_simps [simp]:
  "replay_rows [] m = m"
  "replay_rows (b # bs) m = replay_rows bs (m(row_block_key b \<mapsto> layout_map (snd b)))"
  by (simp_all add: replay_rows_def)

lemma replay_rows_append: "replay_rows (xs @ ys) m = replay_rows ys (replay_rows xs m)"
  by (simp add: replay_rows_def)

lemma replay_rows_other: "k \<notin> row_block_key ` set bs \<Longrightarrow> replay_rows bs m k = m k"
  by (induction bs arbitrary: m) auto

lemma replay_rows_cong: "m k = m' k \<Longrightarrow> replay_rows bs m k = replay_rows bs m' k"
proof (induction bs arbitrary: m m')
  case (Cons b bs)
  show ?case unfolding replay_rows_simps by (rule Cons.IH) (simp add: Cons.prems)
qed simp

text \<open>The next sequence number after a list of blocks.\<close>

definition next_sequence :: "row_block list \<Rightarrow> u64 \<Rightarrow> u64" where
  "next_sequence bs n = fold (\<lambda>b n. max n (rb_sequence (rl_header (snd b)) + 1)) bs n"

lemma next_sequence_simps [simp]:
  "next_sequence [] n = n"
  "next_sequence (b # bs) n = next_sequence bs (max n (rb_sequence (rl_header (snd b)) + 1))"
  by (simp_all add: next_sequence_def)

lemma next_sequence_append: "next_sequence (xs @ ys) n = next_sequence ys (next_sequence xs n)"
  by (simp add: next_sequence_def)

subsection \<open>One block\<close>

definition row_rebuild_state :: "nat \<Rightarrow> bytes list \<Rightarrow> row_index \<Rightarrow> Impl \<Rightarrow> bool" where
  "row_rebuild_state B S v db \<longleftrightarrow>
     row_files_apart db \<and> row_readable db \<and> shards_of db = S \<and> (\<forall>m \<in> set (rowValueMaps db). \<not> IsMapped m) \<and>
     unat (rowShardCount (options db)) = length S \<and>
     mapped_data (rowIndexMap db) = Some v \<and> mapped_writable (rowIndexMap db) \<and>
     16 \<le> B \<and> B \<le> length (ri_buckets v) \<and> row_index_ok S v"

lemma row_rebuild_stateD:
  assumes "row_rebuild_state B S v db"
  shows "row_files_apart db" "row_readable db" "shards_of db = S" "\<forall>m \<in> set (rowValueMaps db). \<not> IsMapped m"
    "unat (rowShardCount (options db)) = length S" "mapped_data (rowIndexMap db) = Some v"
    "mapped_writable (rowIndexMap db)" "B \<le> length (ri_buckets v)" "row_index_ok S v"
    "length (rowValueFiles db) = length S" "16 \<le> B"
  using assms by (auto simp: row_rebuild_state_def shards_of_def)

lemma row_rebuild_state_frame:
  assumes st: "row_rebuild_state B S v db" and fr: "row_index_frame db db'"
    and v': "mapped_data (rowIndexMap db') = Some v'" "mapped_writable (rowIndexMap db')"
      "B \<le> length (ri_buckets v')" "row_index_ok S v'"
  shows "row_rebuild_state B S v' db'"
proof -
  note d = row_rebuild_stateD [OF st]
  show ?thesis
    using d v' row_index_frame_shards [OF fr d(1)] row_index_frame_readable [OF fr d(1,2)]
      row_files_apart_frame [OF fr]
    by (simp add: row_rebuild_state_def row_index_frameD(3,5) [OF fr])
qed

lemma read_shard:
  assumes os: "reads_ok os" and st: "row_rebuild_state B S v db" and s: "s < length S"
    and off: "unat off + n \<le> length (S ! s)"
  shows "ReadAllAt os (filesys db) (rowValueFiles db ! s) n off = Inr (take n (drop (unat off) (S ! s)))"
proof -
  note d = row_rebuild_stateD [OF st]
  have s': "s < length (rowValueFiles db)" using s d(10) by simp
  then obtain path where path: "rowValueFiles db ! s = Some path"
    using d(1) unfolding row_files_apart_def by (metis nth_mem option.exhaust)
  have "\<not> (s < length (rowValueMaps db) \<and> IsMapped (rowValueMaps db ! s))" using d(4) by (meson nth_mem)
  then have c: "row_bytes db s = file_content (filesys db) path" by (auto simp: row_bytes_def path)
  have "row_bytes db s = S ! s" using s' by (simp flip: d(3))
  moreover have "length (row_bytes db s) < 2 ^ 63" using d(2) s' by (simp add: row_readable_def)
  ultimately show ?thesis
    using ReadAllAt_ok [OF os, of "filesys db" path n off] off
    by (simp add: path c read_result_def off_negative_def)
qed

lemma rebuild_block:
  assumes os: "calls_ok os" "reads_ok os" and st: "row_rebuild_state B S v db" and s: "unat shardId < length S"
    and blk: "block_at (S ! unat shardId) (unat off) column L" and lok: "layout_ok column (rb_rowId (rl_header L)) L"
    and cap: "row_capacity (options db) v (Suc n)"
  shows "\<exists>db' v'. rebuild_shard_loop os shardId (of_nat (length (S ! unat shardId))) off ns db =
      rebuild_shard_loop os shardId (of_nat (length (S ! unat shardId))) (of_nat (unat off + layout_size column L))
        (max ns (rb_sequence (rl_header L) + 1)) db' \<and>
    row_rebuild_state B S v' db' \<and> row_index_frame db db' \<and> row_capacity (options db') v' n \<and>
    rows_map S (ri_buckets v') = (rows_map S (ri_buckets v))(row_block_key (column, L) \<mapsto> layout_map L)"
proof -
  define c where "c = S ! unat shardId"
  define h where "h = rl_header L"
  define rowId where "rowId = rb_rowId h"
  note d = row_rebuild_stateD [OF st]
  have lok': "layout_ok column rowId L" using lok by (simp add: rowId_def h_def)
  note ld = layout_okD [OF lok']
  have sh: "unat shardId < length (rowValueFiles db)" using s d(10) by simp
  have cb: "row_bytes db (unat shardId) = c" using sh by (simp add: c_def flip: d(3))
  have len: "length c < 2 ^ 63" using d(2) sh cb unfolding row_readable_def by blast
  have le: "unat off + layout_size column L \<le> length c" using blk by (simp add: block_at_def c_def)
  have big: "72 \<le> layout_size column L" by (simp add: layout_size_def)
  have n: "unat (of_nat (length c) :: u64) = length c" using len by (intro unat_of_nat64) simp
  have lt: "off < of_nat (length c)" using le big by (simp add: word_less_nat_alt n)
  have hdr: "ReadAllAt os (filesys db) (rowValueFiles db ! unat shardId) 72 off = Inr (encode_RowBlockHeader h)"
    using read_shard [OF os(2) st s, of off 72] le big block_at_header(1) [OF blk lok'] by (simp add: h_def flip: c_def)
  have dec: "decode_RowBlockHeader (encode_RowBlockHeader h) = h"
    using decode_encode_RowBlockHeader [of h "[]"] by simp
  have size: "unat (rb_blockSize h) = layout_size column L" using ld(12) by (simp add: h_def)
  have fits: "\<not> rb_blockSize h > of_nat (length c) - off"
    using le by (simp add: word_less_nat_alt unat_sub64 n size)
  have adv: "off + rb_blockSize h = of_nat (unat off + layout_size column L)"
    by (simp add: size [symmetric])
  define b where "b = RowIndexBucket_default
    \<lparr>rib_state := kRowBucketFilled, rib_columnHash := rb_columnHash h, rib_rowId := rb_rowId h,
     rib_shardId := shardId, rib_blockOffset := off, rib_blockSize := rb_blockSize h, rib_sequence := rb_sequence h\<rparr>"
  have b: "rib_state b = kRowBucketFilled" "rib_shardId b = shardId" "rib_blockOffset b = off"
      "rib_columnHash b = HashString column" "rib_rowId b = rowId" "rib_blockSize b = rb_blockSize h"
      "rib_sequence b = rb_sequence h" "rib_reserved64 b = 0" "rib_reserved65 b = 0"
    using ld(6) by (simp_all add: b_def h_def rowId_def RowIndexBucket_default_def)
  have at: "row_bucket_at S b column L"
    using s blk lok' by (simp add: row_bucket_at_def b h_def)
  have col: "ReadRowBlockColumn os db shardId off h = Inr column"
    using ReadRowBlockColumn_ok [OF os(2) d(2), of b column L] at by (simp add: b h_def d(3))
  obtain path where path: "rowIndexFile db = Some path" using d(1) by (auto simp: row_files_apart_def)
  obtain db1 v1 where e: "EnsureRowCapacityForInsert os db = Some (Ok, db1)" "row_index_frame db db1"
    "mapped_data (rowIndexMap db1) = Some v1" "mapped_writable (rowIndexMap db1)" "row_index_ok S v1"
    "B \<le> length (ri_buckets v1)" "rows_map S (ri_buckets v1) = rows_map S (ri_buckets v)"
    "length (occupied vacant_row (ri_buckets v1)) = length (occupied vacant_row (ri_buckets v))"
    "length (occupied vacant_row (ri_buckets v1)) + 1 < length (ri_buckets v1)"
    using EnsureRowCapacity_ok [OF os(1) path d(6,7,9,11,8,5)] row_capacity_mono(2) [OF cap, of v] by auto
  have st1: "row_rebuild_state B S v1 db1" by (rule row_rebuild_state_frame [OF st e(2,3,4,6,5)])
  note d1 = row_rebuild_stateD [OF st1]
  have store: "set_RowBucket i b db1 = with_row_index (v1\<lparr>ri_buckets := (ri_buckets v1)[i := b]\<rparr>) db1" for i
    by (rule set_RowBucket_with [OF e(3)])
  have step: "\<exists>lookup v'. FindRowBucket os db1 column rowId (HashString column) = Some (Inr lookup) \<and>
      (let db2 = set_RowBucket (rlk_index lookup) b db1
       in if \<not> rlk_found lookup then increment_rowItemCount db2 else db2) = with_row_index v' db1 \<and>
      row_index_ok S v' \<and> length (ri_buckets v') = length (ri_buckets v1) \<and>
      length (occupied vacant_row (ri_buckets v')) \<le> Suc (length (occupied vacant_row (ri_buckets v1))) \<and>
      rows_map S (ri_buckets v') = (rows_map S (ri_buckets v1))((column, rowId) \<mapsto> layout_map L)"
  proof (cases rule: FindRowBucket_cases [OF os(2) d1(2) e(3), unfolded d1(3), OF e(5), where column = column and rowId = rowId])
    case (1 i M)
    then show ?thesis
      using row_replace [OF e(5) 1(1,2,3) at b(5)] occupied_update_taken [of i "ri_buckets v1" vacant_row b] at
      by (auto simp: store row_bucket_at_def)
  next
    case (2 i r)
    note i = first_vacant_SomeD [OF 2(1)]
    show ?thesis
      using 2 row_insert [OF e(5,9) 2(1) at b(5) 2(5)] occupied_update_vacant [of i "ri_buckets v1" vacant_row b, OF i(1,2)] at
      by (auto simp: store row_bucket_at_def increment_row_with)
  qed
  then obtain lookup v' where f: "FindRowBucket os db1 column rowId (HashString column) = Some (Inr lookup)"
      "(let db2 = set_RowBucket (rlk_index lookup) b db1
       in if \<not> rlk_found lookup then increment_rowItemCount db2 else db2) = with_row_index v' db1"
      "row_index_ok S v'" "length (ri_buckets v') = length (ri_buckets v1)"
      "length (occupied vacant_row (ri_buckets v')) \<le> Suc (length (occupied vacant_row (ri_buckets v1)))"
      "rows_map S (ri_buckets v') = (rows_map S (ri_buckets v1))((column, rowId) \<mapsto> layout_map L)"
    by blast
  have fr: "row_index_frame db (with_row_index v' db1)" by (rule row_index_frame_trans [OF e(2) row_index_frame_with])
  have hash: "rb_columnHash h = HashString column" "rb_rowId h = rowId" using ld(6) by (simp_all add: h_def rowId_def)
  have valid: "IsValidRowBlockHeader h" using layout_header_valid [OF lok'] by (simp add: h_def)
  have "rebuild_shard_loop os shardId (of_nat (length c)) off ns db =
      rebuild_shard_loop os shardId (of_nat (length c)) (off + rb_blockSize h) (max ns (rb_sequence h + 1)) (with_row_index v' db1)"
    using f(2) by (subst rebuild_shard_loop.simps)
      (simp add: Let_def lt hdr dec valid fits col e(1) hash f(1) flip: b_def [unfolded hash])
  moreover have "row_rebuild_state B S v' (with_row_index v' db1)"
    by (rule row_rebuild_state_frame [OF st fr]) (use e(4,6) f(3,4) in simp_all)
  moreover have "row_capacity (options (with_row_index v' db1)) v' n"
  proof -
    have "unat (rih_itemCount (ri_header v')) \<le> Suc (unat (rih_itemCount (ri_header v)))"
      using f(3,5) d(9) e(8) by (simp add: row_index_ok_def)
    from row_capacity_mono(1) [OF cap this] show ?thesis by (simp add: row_index_frameD(5) [OF e(2)])
  qed
  ultimately show ?thesis
    using fr f(6) e(7) adv
    by (intro exI [of _ "with_row_index v' db1"] exI [of _ v'])
      (simp add: row_block_key_def rowId_def flip: c_def h_def)
qed

subsection \<open>All shards\<close>

lemma rebuild_shard_loop_ok:
  assumes os: "calls_ok os" "reads_ok os" and s: "unat shardId < length S"
  shows "row_rebuild_state B S v db \<Longrightarrow> blocks_from (S ! unat shardId) off bs \<Longrightarrow>
    row_capacity (options db) v (length bs + n) \<Longrightarrow>
    \<exists>db' v'. rebuild_shard_loop os shardId (of_nat (length (S ! unat shardId))) (of_nat off) ns db =
        Some (Ok, next_sequence bs ns, db') \<and>
      row_rebuild_state B S v' db' \<and> row_index_frame db db' \<and> row_capacity (options db') v' n \<and>
      rows_map S (ri_buckets v') = replay_rows bs (rows_map S (ri_buckets v))"
proof (induction bs arbitrary: off db v ns)
  case Nil
  then have "rebuild_shard_loop os shardId (of_nat (length (S ! unat shardId))) (of_nat off) ns db = Some (Ok, ns, db)"
    by (subst rebuild_shard_loop.simps) simp
  then show ?case using Nil.prems by (intro exI [of _ db] exI [of _ v]) simp
next
  case (Cons b bs)
  obtain column L where b: "b = (column, L)" by (cases b)
  have blk: "block_at (S ! unat shardId) off column L" "layout_ok column (rb_rowId (rl_header L)) L"
    "blocks_from (S ! unat shardId) (off + layout_size column L) bs"
    using Cons.prems(2) by (simp_all add: b)
  note d = row_rebuild_stateD [OF Cons.prems(1)]
  have "unat shardId < length (rowValueFiles db)" using s d(10) by simp
  then have "length (row_bytes db (unat shardId)) < 2 ^ 63" "row_bytes db (unat shardId) = S ! unat shardId"
    using d(2) by (simp_all add: row_readable_def flip: d(3))
  then have "off < 2 ^ 64" using blk(1) by (simp add: block_at_def)
  then have off: "unat (of_nat off :: u64) = off" by (intro unat_of_nat64) simp
  have "row_capacity (options db) v (Suc (length bs + n))" using Cons.prems(3) by simp
  from rebuild_block [OF os Cons.prems(1) s, of "of_nat off", unfolded off, OF blk(1,2) this]
  obtain db1 v1 where 1: "rebuild_shard_loop os shardId (of_nat (length (S ! unat shardId))) (of_nat off) ns db =
      rebuild_shard_loop os shardId (of_nat (length (S ! unat shardId))) (of_nat (off + layout_size column L))
        (max ns (rb_sequence (rl_header L) + 1)) db1"
    "row_rebuild_state B S v1 db1" "row_index_frame db db1" "row_capacity (options db1) v1 (length bs + n)"
    "rows_map S (ri_buckets v1) = (rows_map S (ri_buckets v))(row_block_key (column, L) \<mapsto> layout_map L)"
    by blast
  from Cons.IH [OF 1(2) blk(3) 1(4)]
  obtain db' v' where 2: "rebuild_shard_loop os shardId (of_nat (length (S ! unat shardId))) (of_nat (off + layout_size column L))
        (max ns (rb_sequence (rl_header L) + 1)) db1 = Some (Ok, next_sequence bs (max ns (rb_sequence (rl_header L) + 1)), db')"
      "row_rebuild_state B S v' db'" "row_index_frame db1 db'" "row_capacity (options db') v' n"
      "rows_map S (ri_buckets v') = replay_rows bs (rows_map S (ri_buckets v1))"
    by blast
  show ?case
    using 2(2,4,5) row_index_frame_trans [OF 1(3) 2(3)]
    by (intro exI [of _ db'] exI [of _ v'] conjI) (simp_all only: 1(1,5) 2(1) b next_sequence_simps replay_rows_simps snd_conv)
qed

lemma rowAppendOffsets_update_state [simp]:
  "row_rebuild_state B S v (db\<lparr>rowAppendOffsets := offs\<rparr>) = row_rebuild_state B S v db"
proof -
  have "row_bytes (db\<lparr>rowAppendOffsets := offs\<rparr>) = row_bytes db" by (rule ext) (simp add: row_bytes_def)
  then show ?thesis
    by (simp add: row_rebuild_state_def row_files_apart_def row_readable_def shards_of_def)
qed

text \<open>What the rebuilding changes: the index and the append offsets.\<close>

definition rebuild_frame :: "Impl \<Rightarrow> Impl \<Rightarrow> bool" where
  "rebuild_frame db db' \<longleftrightarrow> row_index_frame (db\<lparr>rowAppendOffsets := rowAppendOffsets db'\<rparr>) db'"

lemma rebuild_frame_step:
  assumes "row_index_frame db db1" and "rebuild_frame (db1\<lparr>rowAppendOffsets := offs\<rparr>) db'"
  shows "rebuild_frame db db'"
proof -
  obtain fs m where 1: "db1 = db\<lparr>filesys := fs, rowIndexMap := m\<rparr>" "dirs fs = dirs (filesys db)"
      "\<forall>path. rowIndexFile db \<noteq> Some path \<longrightarrow> files fs path = files (filesys db) path"
    using assms(1) unfolding row_index_frame_def by blast
  have "row_index_frame (db\<lparr>rowAppendOffsets := rowAppendOffsets db'\<rparr>) (db1\<lparr>rowAppendOffsets := rowAppendOffsets db'\<rparr>)"
    using 1 by (intro row_index_frameI [where fs = fs and m = m]) simp_all
  from row_index_frame_trans [OF this] assms(2) show ?thesis by (simp add: rebuild_frame_def)
qed

lemma rebuild_shards_ok:
  assumes os: "calls_ok os" "reads_ok os"
  shows "row_rebuild_state B S v db \<Longrightarrow> list_all2 (\<lambda>t bs. unat t < length S \<and> blocks_from (S ! unat t) 24 bs) shardIds logs \<Longrightarrow>
    row_capacity (options db) v (length (concat logs)) \<Longrightarrow>
    length (rowAppendOffsets db) = length S \<Longrightarrow>
    \<exists>db' v'. rebuild_shards os shardIds ns db = Some (Ok, next_sequence (concat logs) ns, db') \<and>
      row_rebuild_state B S v' db' \<and> rebuild_frame db db' \<and>
      rows_map S (ri_buckets v') = replay_rows (concat logs) (rows_map S (ri_buckets v)) \<and>
      length (rowAppendOffsets db') = length S \<and>
      (\<forall>s < length S. rowAppendOffsets db' ! s =
         (if of_nat s \<in> set shardIds then of_nat (length (S ! s)) else rowAppendOffsets db ! s))"
proof (induction shardIds arbitrary: logs v db ns)
  case Nil
  then show ?case by (intro exI [of _ db] exI [of _ v]) (simp add: rebuild_frame_def)
next
  case (Cons t ts)
  obtain bs rest where logs: "logs = bs # rest" "unat t < length S" "blocks_from (S ! unat t) 24 bs"
      "list_all2 (\<lambda>t bs. unat t < length S \<and> blocks_from (S ! unat t) 24 bs) ts rest"
    using Cons.prems(2) by (auto simp: list_all2_Cons1)
  note d = row_rebuild_stateD [OF Cons.prems(1)]
  have t: "unat t < length (rowValueFiles db)" using logs(2) d(10) by simp
  have cap: "row_capacity (options db) v (length bs + length (concat rest))" using Cons.prems(3) by (simp add: logs(1))
  from rebuild_shard_loop_ok [OF os logs(2) Cons.prems(1) logs(3) cap]
  obtain db1 v1 where 1: "rebuild_shard_loop os t (of_nat (length (S ! unat t))) (of_nat 24) ns db =
      Some (Ok, next_sequence bs ns, db1)" "row_rebuild_state B S v1 db1" "row_index_frame db db1"
      "row_capacity (options db1) v1 (length (concat rest))"
      "rows_map S (ri_buckets v1) = replay_rows bs (rows_map S (ri_buckets v))"
    by blast
  obtain path where path: "rowValueFiles db ! unat t = Some path"
    using d(1) t unfolding row_files_apart_def by (metis nth_mem option.exhaust)
  have "\<not> (unat t < length (rowValueMaps db) \<and> IsMapped (rowValueMaps db ! unat t))" using d(4) by (meson nth_mem)
  then have "file_content (filesys db) path = row_bytes db (unat t)" by (auto simp: row_bytes_def path)
  then have c: "file_content (filesys db) path = S ! unat t" using t by (simp flip: d(3))
  have size: "GetFileSize os (filesys db) (rowValueFiles db ! unat t) = Inr (of_nat (length (S ! unat t)))"
    using os(1) by (simp add: GetFileSize_def calls_ok_def path c)
  define db2 where "db2 = db1\<lparr>rowAppendOffsets := (rowAppendOffsets db1)[unat t := of_nat (length (S ! unat t))]\<rparr>"
  have step: "rebuild_shards os (t # ts) ns db = rebuild_shards os ts (next_sequence bs ns) db2"
    using 1(1) by (simp add: size db2_def)
  have offs: "rowAppendOffsets db1 = rowAppendOffsets db" by (rule row_index_frameD(4) [OF 1(3)])
  have st2: "row_rebuild_state B S v1 db2" using 1(2) by (simp add: db2_def)
  have cap2: "row_capacity (options db2) v1 (length (concat rest))" using 1(4) by (simp add: db2_def)
  have len2: "length (rowAppendOffsets db2) = length S" using Cons.prems(4) by (simp add: db2_def offs)
  from Cons.IH [OF st2 logs(4) cap2 len2, of "next_sequence bs ns"]
  obtain db' v' where 2: "rebuild_shards os ts (next_sequence bs ns) db2 =
        Some (Ok, next_sequence (concat rest) (next_sequence bs ns), db')"
      "row_rebuild_state B S v' db'" "rebuild_frame db2 db'"
      "rows_map S (ri_buckets v') = replay_rows (concat rest) (rows_map S (ri_buckets v1))"
      "length (rowAppendOffsets db') = length S"
      "\<forall>s < length S. rowAppendOffsets db' ! s =
         (if of_nat s \<in> set ts then of_nat (length (S ! s)) else rowAppendOffsets db2 ! s)"
    by blast
  have small: "length S < 2 ^ 32" using unat_bound32 [of "rowShardCount (options db)"] d(5) by simp
  have "rowAppendOffsets db' ! s = (if of_nat s \<in> set (t # ts) then of_nat (length (S ! s)) else rowAppendOffsets db ! s)"
    if s: "s < length S" for s
  proof -
    have "unat (of_nat s :: u32) = s" using s small by (simp add: unat_of_nat take_bit_eq_mod)
    then have "of_nat s = t \<longleftrightarrow> s = unat t" by (auto simp: word_unat_eq_iff)
    then show ?thesis using 2(6) s Cons.prems(4) by (auto simp: db2_def offs nth_list_update)
  qed
  then show ?case
    using step 2 1(5) rebuild_frame_step [OF 1(3) 2(3) [unfolded db2_def]]
    by (intro exI [of _ db'] exI [of _ v']) (simp add: logs(1) replay_rows_append next_sequence_append)
qed

end
