(* ===== verification/Row_Recovery.thy ===== *)
theory Row_Recovery
  imports Row_Log
begin

text \<open>
  Opening the row files: fresh shards get a header, existing ones are checked, a valid row index is
  mapped as it is and any other is rebuilt from the shards.
\<close>

subsection \<open>Shard paths are distinct\<close>

definition decimal_value :: "string \<Rightarrow> nat" where
  "decimal_value s = foldl (\<lambda>n c. 10 * n + (of_char c - 48)) 0 s"

lemma decimal_value_snoc [simp]: "decimal_value (s @ [c]) = 10 * decimal_value s + (of_char c - 48)"
  by (simp add: decimal_value_def)

lemma decimal_value_decimal [simp]: "decimal_value (decimal n) = n"
proof (induction n rule: less_induct)
  case (less n)
  show ?case
  proof (cases "n < 10")
    case True
    then show ?thesis by (subst decimal.simps) (simp add: decimal_value_def)
  next
    case False
    have "decimal_value (decimal (n div 10)) = n div 10" using False by (intro less.IH) simp
    then show ?thesis using False by (subst decimal.simps) simp
  qed
qed

lemma decimal_value_padded [simp]: "decimal_value (zero_padded s) = decimal_value s"
proof -
  have "foldl (\<lambda>n c. 10 * n + (of_char c - 48)) (0 :: nat) (replicate k (CHR ''0'')) = 0" for k
    by (induction k) simp_all
  then show ?thesis by (simp add: decimal_value_def zero_padded_def)
qed

lemma RowValuePath_inject: "RowValuePath dir s = RowValuePath dir t \<longleftrightarrow> s = t"
proof
  assume "RowValuePath dir s = RowValuePath dir t"
  then have "zero_padded (decimal (unat s)) = zero_padded (decimal (unat t))"
    by (simp add: RowValuePath_def path_join_def split: if_splits)
  then have "decimal_value (zero_padded (decimal (unat s))) = decimal_value (zero_padded (decimal (unat t)))"
    by (rule arg_cong)
  then show "s = t" by (simp add: word_unat_eq_iff)
qed simp

subsection \<open>Opening the shards\<close>

definition row_value_header_ok :: "bytes \<Rightarrow> bool" where
  "row_value_header_ok c \<longleftrightarrow>
     24 \<le> length c \<and>
     (let h = decode_RowValueFileHeader (take 24 c) in
      rf_magic h = kRowValueFileMagic \<and> rf_version h = of_nat kStorageVersion \<and> rf_headerSize h = 24)"

definition fresh_shard :: bytes where
  "fresh_shard = encode_RowValueFileHeader RowValueFileHeader_default"

lemma length_fresh_shard: "length fresh_shard = 24"
  by (simp add: fresh_shard_def encode_RowValueFileHeader_def default_array_lengths)

lemma fresh_shard_ok: "row_value_header_ok fresh_shard"
proof -
  have "decode_RowValueFileHeader (encode_RowValueFileHeader RowValueFileHeader_default) = RowValueFileHeader_default"
    using decode_encode_RowValueFileHeader [of RowValueFileHeader_default "[]"] by (simp add: default_array_lengths)
  then show ?thesis
    using length_fresh_shard by (simp add: row_value_header_ok_def fresh_shard_def RowValueFileHeader_default_def)
qed

text \<open>A shard file before opening: absent, empty, or with a valid header; and after.\<close>

definition shard_openable :: "bytes \<Rightarrow> bool" where
  "shard_openable c \<longleftrightarrow> c = [] \<or> row_value_header_ok c \<and> length c < 2 ^ 63"

definition opened_shard :: "bytes \<Rightarrow> bytes" where
  "opened_shard c = (if c = [] then fresh_shard else c)"

lemma opened_shard_ok: "shard_openable c \<Longrightarrow> row_value_header_ok (opened_shard c) \<and> length (opened_shard c) < 2 ^ 63"
  using fresh_shard_ok length_fresh_shard by (auto simp: shard_openable_def opened_shard_def)

lemma open_row_value_file_ok:
  assumes os: "calls_ok os" "reads_ok os" and rw: "\<not> readOnly db"
    and path: "path = RowValuePath (directory db) shardId" and s: "unat shardId < length (rowValueFiles db)"
    and c: "c = file_content (filesys db) path" and ok: "shard_openable c"
    and wr: "c = [] \<Longrightarrow> writes_ok os"
  shows "open_row_value_file os shardId db =
    (Ok, db\<lparr>filesys := set_file (filesys db) path (opened_shard c),
            rowValueFiles := (rowValueFiles db)[unat shardId := Some path],
            rowAppendOffsets := (rowAppendOffsets db)[unat shardId := of_nat (length (opened_shard c))]\<rparr>)"
proof -
  define fs where "fs = (if files (filesys db) path = None then set_file (filesys db) path [] else filesys db)"
  have fd: "OpenReadWriteCreate os (filesys db) path = (Ok, Some path, fs)"
    using os by (simp add: OpenReadWriteCreate_def calls_ok_def fs_def)
  have cfs: "file_content fs path = c" "files fs path = Some c"
    using c by (auto simp: fs_def file_content_def split: option.splits)
  have stat: "GetFileSize os fs (Some path) = Inr (of_nat (length c))"
    using os by (simp add: GetFileSize_def calls_ok_def cfs)
  have setfs: "set_file fs path d = set_file (filesys db) path d" for d by (simp add: fs_def)
  show ?thesis
  proof (cases "c = []")
    case True
    have "WriteAllAt os fs (Some path) fresh_shard 0 = (Ok, set_file fs path fresh_shard)"
      using WriteAllAt_end [OF wr [OF True] cfs(2), of 0 fresh_shard] True by (simp add: length_fresh_shard)
    then show ?thesis
      using True rw s stat
      by (simp add: open_row_value_file_def Let_def fd path [symmetric] opened_shard_def length_fresh_shard setfs
          flip: fresh_shard_def)
  next
    case False
    then have hdr: "row_value_header_ok c" and len: "length c < 2 ^ 63" using ok by (simp_all add: shard_openable_def)
    have n: "unat (of_nat (length c) :: u64) = length c" using len by (intro unat_of_nat64) simp
    have c24: "24 \<le> length c" using hdr by (simp add: row_value_header_ok_def)
    have big: "\<not> (of_nat (length c) :: u64) < 24" "(of_nat (length c) :: u64) \<noteq> 0"
      using c24 n by (auto simp: word_less_nat_alt)
    have read: "ReadAllAt os fs (Some path) 24 0 = Inr (take 24 c)"
      using ReadAllAt_within [OF os(2) cfs(2) len, of 0 24] c24 by simp
    have same: "set_file (filesys db) path c = fs" using set_file_same [OF cfs(2)] setfs by simp
    show ?thesis
      using False rw s stat big hdr
      by (simp add: open_row_value_file_def Let_def fd path [symmetric] opened_shard_def read same
          MagicEquals_def row_value_header_ok_def)
  qed
qed

text \<open>All shards in turn.\<close>

definition shard_path :: "Impl \<Rightarrow> nat \<Rightarrow> string" where
  "shard_path db s = RowValuePath (directory db) (of_nat s)"

definition shard_contents :: "Impl \<Rightarrow> bytes list" where
  "shard_contents db =
     map (\<lambda>s. opened_shard (file_content (filesys db) (shard_path db s))) [0..<unat (rowShardCount (options db))]"

lemma shard_path_inject:
  "s < unat (rowShardCount (options db)) \<Longrightarrow> t < unat (rowShardCount (options db)) \<Longrightarrow>
    shard_path db s = shard_path db t \<longleftrightarrow> s = t"
proof -
  assume "s < unat (rowShardCount (options db))" and "t < unat (rowShardCount (options db))"
  then have "s < 4294967296" "t < 4294967296" using unat_bound32 [of "rowShardCount (options db)"] by linarith+
  then have "(of_nat s :: u32) = of_nat t \<longleftrightarrow> s = t"
    by (simp add: word_unat_eq_iff unat_of_nat take_bit_eq_mod)
  then show ?thesis by (simp add: shard_path_def RowValuePath_inject)
qed

lemma open_row_value_files_append:
  "open_row_value_files os (xs @ ys) db =
    (let (status, db1) = open_row_value_files os xs db in
     if \<not> IsOk status then (status, db1) else open_row_value_files os ys db1)"
  by (induction xs arbitrary: db) (auto simp: Let_def split: prod.split)

lemma replicate_update: "m < n \<Longrightarrow> length xs = m \<Longrightarrow>
    (xs @ replicate (n - m) d)[m := x] = (xs @ [x]) @ replicate (n - Suc m) d"
  by (simp add: list_update_append Suc_diff_Suc flip: replicate_Suc) (metis Suc_diff_Suc list_update_code(2) replicate_Suc)

lemma OpenRowValueFiles_ok:
  assumes os: "calls_ok os" "reads_ok os" and rw: "\<not> readOnly db"
    and ok: "\<And>s. s < unat (rowShardCount (options db)) \<Longrightarrow>
      shard_openable (file_content (filesys db) (shard_path db s)) \<and>
      (file_content (filesys db) (shard_path db s) = [] \<longrightarrow> writes_ok os)"
  defines "n \<equiv> unat (rowShardCount (options db))"
  shows "\<exists>fs. OpenRowValueFiles os db = (Ok, db\<lparr>filesys := fs, rowValueFiles := map (\<lambda>s. Some (shard_path db s)) [0..<n],
      rowValueMaps := replicate n Unmapped, rowAppendOffsets := map (\<lambda>c. of_nat (length c)) (shard_contents db)\<rparr>) \<and>
    dirs fs = dirs (filesys db) \<and>
    (\<forall>s < n. files fs (shard_path db s) = Some (shard_contents db ! s)) \<and>
    (\<forall>p. p \<notin> shard_path db ` {..<n} \<longrightarrow> files fs p = files (filesys db) p)"
proof -
  define db1 where "db1 = db\<lparr>rowValueFiles := replicate n None, rowValueMaps := replicate n Unmapped,
                   rowAppendOffsets := replicate n 0\<rparr>"
  have "\<exists>fs. open_row_value_files os (map of_nat [0..<m]) db1 = (Ok, db1\<lparr>filesys := fs,
        rowValueFiles := map (\<lambda>s. Some (shard_path db s)) [0..<m] @ replicate (n - m) None,
        rowAppendOffsets := map (\<lambda>c. of_nat (length c)) (take m (shard_contents db)) @ replicate (n - m) 0\<rparr>) \<and>
      dirs fs = dirs (filesys db) \<and> (\<forall>s < m. files fs (shard_path db s) = Some (shard_contents db ! s)) \<and>
      (\<forall>p. p \<notin> shard_path db ` {..<m} \<longrightarrow> files fs p = files (filesys db) p)"
    if "m \<le> n" for m
    using that
  proof (induction m)
    case 0
    show ?case by (intro exI [of _ "filesys db"]) (simp add: db1_def)
  next
    case (Suc m)
    then obtain fs where fs: "open_row_value_files os (map of_nat [0..<m]) db1 = (Ok, db1\<lparr>filesys := fs,
        rowValueFiles := map (\<lambda>s. Some (shard_path db s)) [0..<m] @ replicate (n - m) None,
        rowAppendOffsets := map (\<lambda>c. of_nat (length c)) (take m (shard_contents db)) @ replicate (n - m) 0\<rparr>)"
      "dirs fs = dirs (filesys db)" "\<forall>s < m. files fs (shard_path db s) = Some (shard_contents db ! s)"
      "\<forall>p. p \<notin> shard_path db ` {..<m} \<longrightarrow> files fs p = files (filesys db) p"
      by auto
    have m: "m < n" "m < unat (rowShardCount (options db))" using Suc.prems by (simp_all add: n_def)
    have um: "unat (of_nat m :: u32) = m"
      using less_trans [OF m(2) unat_bound32] by (simp add: unat_of_nat take_bit_eq_mod)
    define c where "c = file_content (filesys db) (shard_path db m)"
    have sc: "shard_contents db ! m = opened_shard c" "length (shard_contents db) = n"
      using m by (simp_all add: shard_contents_def c_def n_def)
    have "shard_path db m \<notin> shard_path db ` {..<m}"
      using shard_path_inject [of m db] m(2) by (auto simp: image_iff)
    then have cfs: "file_content fs (shard_path db m) = c" using fs(4) by (simp add: c_def file_content_def)
    define db2 where "db2 = db1\<lparr>filesys := fs,
        rowValueFiles := map (\<lambda>s. Some (shard_path db s)) [0..<m] @ replicate (n - m) None,
        rowAppendOffsets := map (\<lambda>c. of_nat (length c)) (take m (shard_contents db)) @ replicate (n - m) 0\<rparr>"
    define fs' where "fs' = set_file fs (shard_path db m) (opened_shard c)"
    have "open_row_value_file os (of_nat m) db2 =
      (Ok, db2\<lparr>filesys := fs', rowValueFiles := (rowValueFiles db2)[m := Some (shard_path db m)],
            rowAppendOffsets := (rowAppendOffsets db2)[m := of_nat (length (opened_shard c))]\<rparr>)"
      using open_row_value_file_ok [OF os, of db2 "shard_path db m" "of_nat m" c] rw ok [OF m(2)] m um cfs
      by (simp add: db2_def db1_def shard_path_def c_def fs'_def)
    moreover have "(rowValueFiles db2)[m := Some (shard_path db m)] =
        map (\<lambda>s. Some (shard_path db s)) [0..<Suc m] @ replicate (n - Suc m) None"
      using m(1) by (simp add: db2_def replicate_update)
    moreover have "(rowAppendOffsets db2)[m := of_nat (length (opened_shard c))] =
        map (\<lambda>c. of_nat (length c)) (take (Suc m) (shard_contents db)) @ replicate (n - Suc m) 0"
      using m(1) sc by (simp add: db2_def replicate_update take_Suc_conv_app_nth)
    ultimately have "open_row_value_files os (map of_nat [0..<Suc m]) db1 = (Ok, db1\<lparr>filesys := fs',
        rowValueFiles := map (\<lambda>s. Some (shard_path db s)) [0..<Suc m] @ replicate (n - Suc m) None,
        rowAppendOffsets := map (\<lambda>c. of_nat (length c)) (take (Suc m) (shard_contents db)) @ replicate (n - Suc m) 0\<rparr>)"
      using fs(1) by (simp add: open_row_value_files_append flip: db2_def) (simp add: db2_def)
    moreover have "\<forall>s < Suc m. files fs' (shard_path db s) = Some (shard_contents db ! s)"
      using fs(3) sc(1) shard_path_inject [of _ db m] m(2) by (auto simp: fs'_def less_Suc_eq)
    ultimately show ?case
      using fs(2,4) by (intro exI [of _ fs']) (simp add: fs'_def lessThan_Suc)
  qed
  from this [of n] obtain fs where fs: "open_row_value_files os (map of_nat [0..<n]) db1 = (Ok, db1\<lparr>filesys := fs,
        rowValueFiles := map (\<lambda>s. Some (shard_path db s)) [0..<n],
        rowAppendOffsets := map (\<lambda>c. of_nat (length c)) (shard_contents db)\<rparr>)" and
      rest: "dirs fs = dirs (filesys db)" "\<forall>s < n. files fs (shard_path db s) = Some (shard_contents db ! s)"
      "\<forall>p. p \<notin> shard_path db ` {..<n} \<longrightarrow> files fs p = files (filesys db) p"
    by (auto simp: shard_contents_def n_def)
  have "OpenRowValueFiles os db = (Ok, db1\<lparr>filesys := fs, rowValueFiles := map (\<lambda>s. Some (shard_path db s)) [0..<n],
        rowAppendOffsets := map (\<lambda>c. of_nat (length c)) (shard_contents db)\<rparr>)"
    by (simp add: OpenRowValueFiles_def Let_def n_def [symmetric] fs flip: db1_def)
  then show ?thesis using rest by (intro exI [of _ fs]) (simp add: db1_def)
qed

subsection \<open>Rebuilding\<close>

text \<open>
  The logs of all shards, and an open row store whose index is their replay.  The flag \<open>open_\<close> is
  set by the caller once all files are open.
\<close>

definition shard_logs :: "bytes list \<Rightarrow> row_block list list \<Rightarrow> bool" where
  "shard_logs S logs \<longleftrightarrow> list_all2 (\<lambda>c bs. row_value_header_ok c \<and> blocks_from c 24 bs) S logs"

text \<open>The files of a row store that has just been opened, before its index is.\<close>

definition row_shards_open :: "bytes list \<Rightarrow> Impl \<Rightarrow> bool" where
  "row_shards_open S db \<longleftrightarrow>
     \<not> readOnly db \<and> 0 < length S \<and> unat (rowShardCount (options db)) = length S \<and>
     rowValueFiles db = map (\<lambda>s. Some (shard_path db s)) [0..<length S] \<and>
     rowValueMaps db = replicate (length S) Unmapped \<and>
     rowAppendOffsets db = map (\<lambda>c. of_nat (length c)) S \<and> rowPendingInsertCount db = 0 \<and>
     (\<forall>s < length S. files (filesys db) (shard_path db s) = Some (S ! s) \<and> length (S ! s) < 2 ^ 63)"

lemma row_shards_open_bytes:
  assumes "row_shards_open S db"
  shows "s < length S \<Longrightarrow> row_bytes db s = S ! s" and "shards_of db = S" and "row_readable db"
    and "length (rowValueFiles db) = length S" and "None \<notin> set (rowValueFiles db)"
    and "distinct (rowValueFiles db)" and "\<forall>m \<in> set (rowValueMaps db). \<not> IsMapped m"
proof -
  have n: "length S = unat (rowShardCount (options db))" using assms by (simp add: row_shards_open_def)
  show b: "row_bytes db s = S ! s" if "s < length S" for s
    using assms that by (simp add: row_shards_open_def row_bytes_def Unmapped_def IsMapped_def file_content_Some)
  show len: "length (rowValueFiles db) = length S" using assms by (simp add: row_shards_open_def)
  show "shards_of db = S" unfolding shards_of_def len using b by (intro nth_equalityI) simp_all
  show "None \<notin> set (rowValueFiles db)" using assms by (auto simp: row_shards_open_def)
  show "\<forall>m \<in> set (rowValueMaps db). \<not> IsMapped m"
    using assms by (auto simp: row_shards_open_def Unmapped_def IsMapped_def)
  show "distinct (rowValueFiles db)"
    using assms shard_path_inject [of _ db] n
    by (auto simp: row_shards_open_def distinct_map inj_on_def)
  show "row_readable db"
    unfolding row_readable_def len using b assms
    by (auto simp: row_shards_open_def Unmapped_def IsMapped_def)
qed

text \<open>With an index in order the store is open.\<close>

lemma row_ok_opened:
  assumes db: "row_shards_open S db" and path: "rowIndexFile db = Some path" "Some path \<notin> set (rowValueFiles db)"
    and v: "mapped_data (rowIndexMap db) = Some v" "mapped_writable (rowIndexMap db)" and ok: "row_index_ok S v"
  shows "row_ok (db\<lparr>opened := True\<rparr>)" and "rows (db\<lparr>opened := True\<rparr>) = rows_map S (ri_buckets v)"
    and "shards_of (db\<lparr>opened := True\<rparr>) = S"
proof -
  have b: "row_bytes (db\<lparr>opened := True\<rparr>) = row_bytes db" by (rule ext) (simp add: row_bytes_def)
  note d = row_shards_open_bytes [OF db]
  show sh: "shards_of (db\<lparr>opened := True\<rparr>) = S" using d(2) by (simp add: shards_of_def b)
  have "unat (of_nat (length (S ! s)) :: u64) = length (S ! s)" if "s < length S" for s
    using db that by (intro unat_of_nat64) (auto simp: row_shards_open_def)
  moreover have "length S < 4294967296" using db unat_bound32 [of "rowShardCount (options db)"] by (simp add: row_shards_open_def)
  ultimately show "row_ok (db\<lparr>opened := True\<rparr>)"
    using db path v ok d(1,4,5,6,7)
    unfolding row_ok_def row_core_ok_def sh b by (simp add: row_shards_open_def)
  show "rows (db\<lparr>opened := True\<rparr>) = rows_map S (ri_buckets v)"
    unfolding rows_def sh using v(1) by (simp add: RowBuckets_def)
qed

lemma row_shards_open_frame:
  assumes db: "row_shards_open S db" and fr: "rebuild_frame db db'" and apart: "row_files_apart db"
    and offs: "rowAppendOffsets db' = rowAppendOffsets db"
  shows "row_shards_open S db'"
proof -
  have fr': "row_index_frame db db'" using fr offs by (simp add: rebuild_frame_def)
  obtain fs m where eq: "db' = db\<lparr>filesys := fs, rowIndexMap := m\<rparr>"
    using fr' by (auto simp: row_index_frame_def)
  have "Some (shard_path db s) \<in> set (rowValueFiles db)" if "s < length S" for s
    using db that by (auto simp: row_shards_open_def)
  then have "rowIndexFile db \<noteq> Some (shard_path db s)" if "s < length S" for s
    using apart that unfolding row_files_apart_def by metis
  then have "files fs (shard_path db s) = files (filesys db) (shard_path db s)" if "s < length S" for s
    using row_index_frameD(9) [OF fr', of "shard_path db s"] that by (simp add: eq)
  then show ?thesis using db by (simp add: row_shards_open_def eq shard_path_def)
qed

lemma RebuildRowIndex_ok:
  assumes os: "calls_ok os" "reads_ok os" and db: "row_shards_open S db"
    and path: "rowIndexFile db = Some path" "Some path \<notin> set (rowValueFiles db)"
    and v: "mapped_data (rowIndexMap db) = Some v" "mapped_writable (rowIndexMap db)" "16 \<le> length (ri_buckets v)"
    and ok: "row_index_ok S v" and fresh: "rows_map S (ri_buckets v) = (\<lambda>_. None)"
    and logs: "shard_logs S logs" and cap: "row_capacity (options db) v (length (concat logs))"
  shows "\<exists>db' v'. RebuildRowIndexFromValues os db = Some (Ok, db') \<and> row_index_frame db db' \<and> row_shards_open S db' \<and>
    mapped_data (rowIndexMap db') = Some v' \<and> mapped_writable (rowIndexMap db') \<and> row_index_ok S v' \<and>
    rows_map S (ri_buckets v') = replay_rows (concat logs) (\<lambda>_. None) \<and>
    rih_nextSequence (ri_header v') = next_sequence (concat logs) 1 \<and> length (ri_buckets v) \<le> length (ri_buckets v')"
proof -
  note d = row_shards_open_bytes [OF db]
  have n: "unat (rowShardCount (options db)) = length S" using db by (simp add: row_shards_open_def)
  have apart: "row_files_apart db" using d(5) path by (simp add: row_files_apart_def)
  have st: "row_rebuild_state (length (ri_buckets v)) S v db"
    using apart d(2,3,7) v ok n by (simp add: row_rebuild_state_def)
  have small: "length S < 4294967296" using n unat_bound32 [of "rowShardCount (options db)"] by simp
  then have un: "unat (of_nat s :: u32) = s" if "s < length S" for s
    using that by (simp add: unat_of_nat take_bit_eq_mod)
  have ids: "list_all2 (\<lambda>t bs. unat t < length S \<and> blocks_from (S ! unat t) 24 bs) (map of_nat [0..<length S] :: u32 list) logs"
    using logs by (auto simp: shard_logs_def list_all2_conv_all_nth un)
  have offs: "length (rowAppendOffsets db) = length S" using db by (simp add: row_shards_open_def)
  from rebuild_shards_ok [OF os st ids cap offs, of 1]
  obtain db1 v1 where r: "rebuild_shards os (map of_nat [0..<length S]) 1 db = Some (Ok, next_sequence (concat logs) 1, db1)"
    "row_rebuild_state (length (ri_buckets v)) S v1 db1" "rebuild_frame db db1"
    "rows_map S (ri_buckets v1) = replay_rows (concat logs) (rows_map S (ri_buckets v))"
    "length (rowAppendOffsets db1) = length S"
    "\<forall>s < length S. rowAppendOffsets db1 ! s = (if of_nat s \<in> (set (map of_nat [0..<length S]) :: u32 set)
        then of_nat (length (S ! s)) else rowAppendOffsets db ! s)"
    by blast
  have same: "rowAppendOffsets db1 = rowAppendOffsets db"
    using r(5,6) db by (intro nth_equalityI) (simp_all add: row_shards_open_def)
  have fr: "row_index_frame db db1" using r(3) same by (simp add: rebuild_frame_def)
  note d1 = row_rebuild_stateD [OF r(2)]
  define v' where "v' = v1\<lparr>ri_header := (ri_header v1)\<lparr>rih_nextSequence := next_sequence (concat logs) 1\<rparr>\<rparr>"
  have "RebuildRowIndexFromValues os db = Some (Ok, with_row_index v' db1)"
    using r(1) d(4) d1(6) by (simp add: RebuildRowIndexFromValues_def set_RowIndexHeader_with RowIndexHeader_def v'_def)
  moreover have frv: "row_index_frame db (with_row_index v' db1)" by (rule row_index_frame_trans [OF fr row_index_frame_with])
  moreover have "row_shards_open S (with_row_index v' db1)"
    using frv same by (intro row_shards_open_frame [OF db _ apart]) (simp_all add: rebuild_frame_def)
  moreover have "row_index_ok S v'" using d1(9) by (simp add: row_index_ok_def v'_def)
  ultimately show ?thesis
    using r(4) fresh d1(7,8)
    by (intro exI [of _ "with_row_index v' db1"] exI [of _ v']) (simp add: v'_def)
qed

subsection \<open>A valid row index file\<close>

lemma row_index_file:
  assumes ok: "row_index_ok S v" and k: "rih_bucketCount (ri_header v) = 2 ^ k" "k \<le> 56"
  shows "length (encode_row_index v) = 64 + 64 * 2 ^ k"
    and "unat (of_nat (length (encode_row_index v)) :: u64) = 64 + 64 * 2 ^ k"
proof -
  obtain m where m: "m \<le> 56" "rih_bucketCount (ri_header v) = 2 ^ m" "length (ri_buckets v) = 2 ^ m"
    using ok by (rule row_index_okD)
  have "unat ((2 :: u64) ^ m) = unat ((2 :: u64) ^ k)" using m(2) k(1) by simp
  then have "length (ri_buckets v) = 2 ^ k" using m k(2) by simp
  moreover have "row_header_ok (ri_header v)" using ok by (simp add: row_index_ok_def)
  ultimately show len: "length (encode_row_index v) = 64 + 64 * 2 ^ k"
    using length_encode_row_index [of v] by (simp add: row_header_ok_def magic_defs)
  show "unat (of_nat (length (encode_row_index v)) :: u64) = 64 + 64 * 2 ^ k"
    unfolding len [symmetric] by (rule unat_of_nat64) (use pow2_le_56 [OF k(2)] in \<open>simp add: len\<close>)
qed

lemma HasValidRowIndexLayout_ok:
  assumes ok: "row_index_ok S v" and v: "mapped_data (rowIndexMap db) = Some v"
    and size: "fileSize = of_nat (length (encode_row_index v))"
    and shards: "unat (rowShardCount (options db)) = length S"
  shows "HasValidRowIndexLayout db fileSize = Some True"
proof -
  obtain k where k: "k \<le> 56" "rih_bucketCount (ri_header v) = 2 ^ k" "length (ri_buckets v) = 2 ^ k"
    using ok by (rule row_index_okD)
  have hdr: "row_header_ok (ri_header v)" and items: "unat (rih_itemCount (ri_header v)) =
      length (occupied vacant_row (ri_buckets v))" and rt: "rows_table_ok S (ri_buckets v)"
    and sc: "unat (rih_shardCount (ri_header v)) = length S"
    using ok by (simp_all add: row_index_ok_def)
  have fs: "unat fileSize = 64 + 64 * 2 ^ k"
    unfolding size by (rule row_index_file(2) [OF ok k(2,1)])
  have expected: "64 + rih_bucketCount (ri_header v) * 64 = fileSize"
  proof -
    have "unat (64 + 2 ^ k * 64 :: u64) = unat fileSize"
      unfolding fs by (rule row_index_file_size [OF k(1)])
    then show ?thesis unfolding k(2) by (metis of_nat_unat ucast_id)
  qed
  have filled: "rib_state b = kRowBucketFilled \<longleftrightarrow> \<not> vacant_row b" if "b \<in> set (ri_buckets v)" for b
    using rt that by (auto simp: rows_table_ok_def row_bucket_ok_def row_bucket_at_def)
  have states: "map rib_state (take (unat (rih_bucketCount (ri_header v))) (ri_buckets v)) = map rib_state (ri_buckets v)"
    using k by simp
  have "length (filter (\<lambda>state. state = kRowBucketFilled) (map rib_state (ri_buckets v))) =
      length (occupied vacant_row (ri_buckets v))"
    using filled by (simp add: occupied_def filter_map comp_def cong: filter_cong)
  then have count: "of_nat (length (filter (\<lambda>state. state = kRowBucketFilled) (map rib_state (ri_buckets v)))) =
      rih_itemCount (ri_header v)"
    using items by (metis of_nat_unat ucast_id)
  have each: "list_all (\<lambda>state. state = kRowBucketFilled \<or> state = kRowBucketEmpty) (map rib_state (ri_buckets v))"
    using filled by (auto simp: list_all_iff)
  have le: "\<not> rih_itemCount (ri_header v) > rih_bucketCount (ri_header v)"
  proof -
    have "unat (rih_itemCount (ri_header v)) \<le> unat (rih_bucketCount (ri_header v))"
      using items occupied_length_le [of vacant_row "ri_buckets v"] k by simp
    then show ?thesis by (simp add: not_less word_le_nat_alt)
  qed
  have big: "\<not> fileSize < 64" by (simp add: word_less_nat_alt fs)
  have nz: "rih_bucketCount (ri_header v) \<noteq> 0"
  proof
    assume "rih_bucketCount (ri_header v) = 0"
    then have "unat ((2 :: u64) ^ k) = 0" by (simp only: k(2) unat_0)
    then show False using k(1) by simp
  qed
  have mask: "rih_bucketCount (ri_header v) AND (rih_bucketCount (ri_header v) - 1) = 0"
    using k(1) pow2_and_pred [of k] by (simp add: k(2))
  have shard: "rih_shardCount (ri_header v) = rowShardCount (options db)"
    using sc shards by (simp add: word_unat_eq_iff)
  have H: "RowIndexHeader db = ri_header v" and B: "RowBuckets db = ri_buckets v"
    using v by (simp_all add: RowIndexHeader_def RowBuckets_def)
  show ?thesis
    unfolding HasValidRowIndexLayout_def Let_def H B states
    using hdr big nz mask expected le count each shard k by (simp add: MagicEquals_def row_header_ok_def)
qed

lemma OpenRowIndexFile_valid:
  assumes os: "calls_ok os" and stored: "files (filesys db) (rowIndexPath db) = Some (encode_row_index v)"
    and ok: "row_index_ok S v" and shards: "unat (rowShardCount (options db)) = length S"
  shows "OpenRowIndexFile os db = Some (Ok, db\<lparr>rowIndexFile := Some (rowIndexPath db), rowIndexMap :=
    \<lparr>mapped_data = Some v, mapped_size = of_nat (length (encode_row_index v)), mapped_writable = \<not> readOnly db\<rparr>\<rparr>)"
proof -
  define size where "size = (of_nat (length (encode_row_index v)) :: u64)"
  define db2 where "db2 = db\<lparr>rowIndexFile := Some (rowIndexPath db), rowIndexMap :=
    \<lparr>mapped_data = Some v, mapped_size = size, mapped_writable = \<not> readOnly db\<rparr>\<rparr>"
  obtain k where k: "k \<le> 56" "rih_bucketCount (ri_header v) = 2 ^ k" "length (ri_buckets v) = 2 ^ k"
    using ok by (rule row_index_okD)
  have hdr: "row_header_ok (ri_header v)" using ok by (simp add: row_index_ok_def)
  have "unat size = 64 + 64 * 2 ^ k"
    unfolding size_def by (rule row_index_file(2) [OF ok k(2,1)])
  then have nz: "size \<noteq> 0" by (metis add_is_0 unat_0 zero_neq_numeral)
  have dec: "decode_row_index (encode_row_index v) = v"
    using hdr by (intro decode_encode_row_index) (simp_all add: row_header_ok_def magic_defs)
  have content: "file_content (filesys db) (rowIndexPath db) = encode_row_index v"
    using stored by (rule file_content_Some)
  have valid: "HasValidRowIndexLayout db2 size = Some True"
    by (rule HasValidRowIndexLayout_ok [OF ok]) (simp_all add: db2_def size_def shards)
  have open_fd: "(if readOnly db
         then (case OpenReadOnlyFile os (filesys db) (rowIndexPath db) of (st, fd) \<Rightarrow> (st, fd, filesys db))
         else OpenReadWriteCreate os (filesys db) (rowIndexPath db)) = (Ok, Some (rowIndexPath db), filesys db)"
    using os stored by (simp add: OpenReadOnlyFile_def OpenReadWriteCreate_def calls_ok_def)
  show ?thesis
    using os nz valid
    by (simp add: OpenRowIndexFile_def open_fd GetFileSize_def calls_ok_def content dec MapWithProtection_def Let_def
        db2_def flip: size_def)
qed

subsection \<open>An unusable row index file\<close>

definition row_index_file_unusable :: "Impl \<Rightarrow> bool" where
  "row_index_file_unusable db \<longleftrightarrow>
     (case files (filesys db) (rowIndexPath db) of
        None \<Rightarrow> True
      | Some bs \<Rightarrow>
          bs = [] \<or>
          0 < length bs \<and> length bs < 2 ^ 63 \<and>
          HasValidRowIndexLayout (db\<lparr>rowIndexMap := \<lparr>mapped_data = Some (decode_row_index bs),
             mapped_size = of_nat (length bs), mapped_writable = True\<rparr>\<rparr>) (of_nat (length bs)) = Some False)"

lemma HasValidRowIndexLayout_cong:
  "rowIndexMap db = rowIndexMap db' \<Longrightarrow> rowShardCount (options db) = rowShardCount (options db') \<Longrightarrow>
    HasValidRowIndexLayout db n = HasValidRowIndexLayout db' n"
  by (simp add: HasValidRowIndexLayout_def RowIndexHeader_def RowBuckets_def Let_def)

lemma OpenRowIndexFile_rebuild_path:
  assumes os: "calls_ok os" and rw: "\<not> readOnly db" and unmapped: "rowIndexMap db = Unmapped"
    and bad: "row_index_file_unusable db"
  shows "\<exists>fs. OpenRowIndexFile os db =
      (case CreateEmptyRowIndex os (db\<lparr>filesys := fs, rowIndexFile := Some (rowIndexPath db)\<rparr>)
              (initialRowBucketCount (options db)) of
         None \<Rightarrow> None
       | Some (status, db3) \<Rightarrow> if \<not> IsOk status then Some (status, db3) else RebuildRowIndexFromValues os db3) \<and>
    dirs fs = dirs (filesys db) \<and> (\<forall>p. p \<noteq> rowIndexPath db \<longrightarrow> files fs p = files (filesys db) p)"
proof -
  define fs where "fs = (if files (filesys db) (rowIndexPath db) = None
      then set_file (filesys db) (rowIndexPath db) [] else filesys db)"
  have fd: "OpenReadWriteCreate os (filesys db) (rowIndexPath db) = (Ok, Some (rowIndexPath db), fs)"
    using os by (simp add: OpenReadWriteCreate_def calls_ok_def fs_def)
  define bs where "bs = file_content fs (rowIndexPath db)"
  have stat: "GetFileSize os fs (Some (rowIndexPath db)) = Inr (of_nat (length bs))"
    using os by (simp add: GetFileSize_def calls_ok_def bs_def)
  define db1 where "db1 = db\<lparr>filesys := fs, rowIndexFile := Some (rowIndexPath db)\<rparr>"
  have same: "db1\<lparr>rowIndexMap := Unmapped\<rparr> = db1" by (simp add: db1_def flip: unmapped)
  show ?thesis
  proof (cases "bs = []")
    case True
    then show ?thesis
      using rw stat
      by (intro exI [of _ fs]) (simp add: OpenRowIndexFile_def fd Let_def fs_def)
  next
    case False
    then have stored: "files (filesys db) (rowIndexPath db) = Some bs" "fs = filesys db"
      by (auto simp: bs_def fs_def file_content_def split: if_splits option.splits)
    have len: "length bs < 2 ^ 63" and inv: "HasValidRowIndexLayout (db\<lparr>rowIndexMap := \<lparr>mapped_data = Some (decode_row_index bs),
             mapped_size = of_nat (length bs), mapped_writable = True\<rparr>\<rparr>) (of_nat (length bs)) = Some False"
      using bad False by (simp_all add: row_index_file_unusable_def stored)
    have "unat (of_nat (length bs) :: u64) = length bs" using len by (intro unat_of_nat64) simp
    then have nz: "(of_nat (length bs) :: u64) \<noteq> 0" using False by (metis length_0_conv unat_0)
    have inv': "HasValidRowIndexLayout (db1\<lparr>rowIndexMap := \<lparr>mapped_data = Some (decode_row_index bs),
             mapped_size = of_nat (length bs), mapped_writable = True\<rparr>\<rparr>) (of_nat (length bs)) = Some False"
      using inv by (subst HasValidRowIndexLayout_cong) (simp_all add: db1_def)
    have "OpenRowIndexFile os db =
      (case CreateEmptyRowIndex os db1 (initialRowBucketCount (options db)) of
         None \<Rightarrow> None
       | Some (status, db3) \<Rightarrow> if \<not> IsOk status then Some (status, db3) else RebuildRowIndexFromValues os db3)"
      using rw stat nz inv' os same
      by (simp add: OpenRowIndexFile_def fd Let_def MapWithProtection_def calls_ok_def bs_def flip: db1_def)
        (simp add: db1_def)
    then show ?thesis
      by (intro exI [of _ fs]) (simp add: db1_def stored(2))
  qed
qed

subsection \<open>Opening the row files\<close>

text \<open>The two steps of \<open>OpenInternal\<close> that open the row store: shards first, then the index.\<close>

definition open_row_files :: "os \<Rightarrow> Impl \<Rightarrow> (Status \<times> Impl) option" where
  "open_row_files os db =
     (let (status, db1) = OpenRowValueFiles os db in
      if \<not> IsOk status then Some (status, db1) else OpenRowIndexFile os db1)"

text \<open>The files a row store can be opened on.\<close>

definition row_files_openable :: "os \<Rightarrow> Impl \<Rightarrow> bool" where
  "row_files_openable os db \<longleftrightarrow>
     \<not> readOnly db \<and> 0 < rowShardCount (options db) \<and> rowPendingInsertCount db = 0 \<and> rowIndexMap db = Unmapped \<and>
     (\<forall>s < unat (rowShardCount (options db)). rowIndexPath db \<noteq> shard_path db s \<and>
        shard_openable (file_content (filesys db) (shard_path db s)) \<and>
        (file_content (filesys db) (shard_path db s) = [] \<longrightarrow> writes_ok os))"

text \<open>What opening the row files may change.\<close>

definition row_open_frame :: "Impl \<Rightarrow> Impl \<Rightarrow> bool" where
  "row_open_frame db db' \<longleftrightarrow>
     (\<exists>fs fds maps offs ifd m. db' = db\<lparr>filesys := fs, rowValueFiles := fds, rowValueMaps := maps,
        rowAppendOffsets := offs, rowIndexFile := ifd, rowIndexMap := m\<rparr> \<and> dirs fs = dirs (filesys db) \<and>
        (\<forall>p. p \<noteq> rowIndexPath db \<and> p \<notin> shard_path db ` {..<unat (rowShardCount (options db))} \<longrightarrow>
           files fs p = files (filesys db) p))"

lemma row_open_frameI:
  assumes "db' = db\<lparr>filesys := fs, rowValueFiles := fds, rowValueMaps := maps,
        rowAppendOffsets := offs, rowIndexFile := ifd, rowIndexMap := m\<rparr>" and "dirs fs = dirs (filesys db)"
    and "\<And>p. p \<noteq> rowIndexPath db \<Longrightarrow> p \<notin> shard_path db ` {..<unat (rowShardCount (options db))} \<Longrightarrow>
           files fs p = files (filesys db) p"
  shows "row_open_frame db db'"
  unfolding row_open_frame_def
  by (rule exI [of _ fs], rule exI [of _ fds], rule exI [of _ maps], rule exI [of _ offs], rule exI [of _ ifd],
      rule exI [of _ m]) (use assms in simp)

lemma row_open_frame_index:
  assumes fr: "row_open_frame db db1" and ix: "row_index_frame db1 db2" and path: "rowIndexFile db1 = Some (rowIndexPath db)"
  shows "row_open_frame db db2"
proof -
  obtain fs fds maps offs ifd m where 1: "db1 = db\<lparr>filesys := fs, rowValueFiles := fds, rowValueMaps := maps,
        rowAppendOffsets := offs, rowIndexFile := ifd, rowIndexMap := m\<rparr>" "dirs fs = dirs (filesys db)"
      "\<forall>p. p \<noteq> rowIndexPath db \<and> p \<notin> shard_path db ` {..<unat (rowShardCount (options db))} \<longrightarrow>
           files fs p = files (filesys db) p"
    using fr unfolding row_open_frame_def by blast
  obtain fs' m' where 2: "db2 = db1\<lparr>filesys := fs', rowIndexMap := m'\<rparr>" "dirs fs' = dirs (filesys db1)"
      "\<forall>p. rowIndexFile db1 \<noteq> Some p \<longrightarrow> files fs' p = files (filesys db1) p"
    using ix unfolding row_index_frame_def by blast
  show ?thesis
    by (rule row_open_frameI [where fs = fs' and fds = fds and maps = maps and offs = offs and ifd = ifd and m = m'])
      (use 1 2 path in auto)
qed

lemma open_shards:
  assumes os: "calls_ok os" "reads_ok os" and db: "row_files_openable os db"
  shows "\<exists>fs db1. OpenRowValueFiles os db = (Ok, db1) \<and> row_shards_open (shard_contents db) db1 \<and>
    db1 = db\<lparr>filesys := fs, rowValueFiles := rowValueFiles db1, rowValueMaps := rowValueMaps db1,
      rowAppendOffsets := rowAppendOffsets db1\<rparr> \<and>
    Some (rowIndexPath db) \<notin> set (rowValueFiles db1) \<and> dirs fs = dirs (filesys db) \<and>
    (\<forall>p. p \<notin> shard_path db ` {..<unat (rowShardCount (options db))} \<longrightarrow> files fs p = files (filesys db) p)"
proof -
  define n where "n = unat (rowShardCount (options db))"
  have len: "length (shard_contents db) = n" by (simp add: shard_contents_def n_def)
  have ok: "shard_openable (file_content (filesys db) (shard_path db s)) \<and>
      (file_content (filesys db) (shard_path db s) = [] \<longrightarrow> writes_ok os)" if "s < unat (rowShardCount (options db))" for s
    using db that by (simp add: row_files_openable_def)
  have rw: "\<not> readOnly db" using db by (simp add: row_files_openable_def)
  obtain fs where o: "OpenRowValueFiles os db = (Ok, db\<lparr>filesys := fs, rowValueFiles := map (\<lambda>s. Some (shard_path db s)) [0..<n],
      rowValueMaps := replicate n Unmapped, rowAppendOffsets := map (\<lambda>c. of_nat (length c)) (shard_contents db)\<rparr>)"
    and d: "dirs fs = dirs (filesys db)" and fs: "\<forall>s < n. files fs (shard_path db s) = Some (shard_contents db ! s)"
    and other: "\<forall>p. p \<notin> shard_path db ` {..<n} \<longrightarrow> files fs p = files (filesys db) p"
    using OpenRowValueFiles_ok [OF os rw ok] unfolding n_def by blast
  define db1 where "db1 = db\<lparr>filesys := fs, rowValueFiles := map (\<lambda>s. Some (shard_path db s)) [0..<n],
      rowValueMaps := replicate n Unmapped, rowAppendOffsets := map (\<lambda>c. of_nat (length c)) (shard_contents db)\<rparr>"
  have "length (shard_contents db ! s) < 2 ^ 63" if "s < n" for s
    using opened_shard_ok [OF conjunct1 [OF ok]] that by (simp add: shard_contents_def n_def)
  moreover have "0 < n" using db by (simp add: row_files_openable_def n_def unat_gt_0 word_neq_0_conv)
  ultimately have "row_shards_open (shard_contents db) db1"
    using db fs len by (simp add: row_shards_open_def db1_def shard_path_def row_files_openable_def flip: n_def)
  moreover have "Some (rowIndexPath db) \<notin> set (rowValueFiles db1)"
    using db by (auto simp: db1_def row_files_openable_def n_def)
  ultimately show ?thesis
    using o d other by (intro exI [of _ fs] exI [of _ db1]) (simp add: db1_def n_def)
qed

text \<open>With a valid index file the rows are the ones the index describes.\<close>

lemma open_row_files_valid:
  assumes os: "calls_ok os" "reads_ok os" and db: "row_files_openable os db"
    and stored: "files (filesys db) (rowIndexPath db) = Some (encode_row_index v)"
    and ok: "row_index_ok (shard_contents db) v"
  shows "\<exists>db'. open_row_files os db = Some (Ok, db') \<and> row_ok (db'\<lparr>opened := True\<rparr>) \<and>
    rows (db'\<lparr>opened := True\<rparr>) = rows_map (shard_contents db) (ri_buckets v) \<and>
    shards_of (db'\<lparr>opened := True\<rparr>) = shard_contents db \<and> row_shards_open (shard_contents db) db' \<and>
    row_open_frame db db' \<and> rowIndexFile db' = Some (rowIndexPath db)"
proof -
  let ?S = "shard_contents db"
  obtain fs db1 where o: "OpenRowValueFiles os db = (Ok, db1)" and sh: "row_shards_open ?S db1"
    and d1: "db1 = db\<lparr>filesys := fs, rowValueFiles := rowValueFiles db1, rowValueMaps := rowValueMaps db1,
      rowAppendOffsets := rowAppendOffsets db1\<rparr>"
    and apart: "Some (rowIndexPath db) \<notin> set (rowValueFiles db1)" and dirs: "dirs fs = dirs (filesys db)"
    and other: "\<forall>p. p \<notin> shard_path db ` {..<unat (rowShardCount (options db))} \<longrightarrow> files fs p = files (filesys db) p"
    using open_shards [OF os db] by blast
  have f1: "filesys db1 = fs" "rowIndexPath db1 = rowIndexPath db" "readOnly db1 = readOnly db" "options db1 = options db"
    by (subst d1, simp)+
  have "rowIndexPath db \<notin> shard_path db ` {..<unat (rowShardCount (options db))}"
    using db by (auto simp: row_files_openable_def)
  then have st1: "files (filesys db1) (rowIndexPath db1) = Some (encode_row_index v)"
    using other stored by (simp add: f1)
  have n: "unat (rowShardCount (options db1)) = length ?S" using sh by (simp add: row_shards_open_def)
  define m where "m = \<lparr>mapped_data = Some v, mapped_size = of_nat (length (encode_row_index v)) :: u64, mapped_writable = True\<rparr>"
  define db2 where "db2 = db1\<lparr>rowIndexFile := Some (rowIndexPath db), rowIndexMap := m\<rparr>"
  have rw: "\<not> readOnly db" using db by (simp add: row_files_openable_def)
  have "OpenRowIndexFile os db1 = Some (Ok, db2)"
    using OpenRowIndexFile_valid [OF os(1) st1 ok n] rw by (simp add: db2_def m_def f1)
  then have run: "open_row_files os db = Some (Ok, db2)" by (simp add: open_row_files_def o)
  have sh2: "row_shards_open ?S db2" using sh by (simp add: row_shards_open_def db2_def shard_path_def)
  have "rowIndexFile db2 = Some (rowIndexPath db)" "Some (rowIndexPath db) \<notin> set (rowValueFiles db2)"
    "mapped_data (rowIndexMap db2) = Some v" "mapped_writable (rowIndexMap db2)"
    using apart by (simp_all add: db2_def m_def)
  note op = row_ok_opened [OF sh2 this ok]
  have "db2 = db\<lparr>filesys := fs, rowValueFiles := rowValueFiles db1, rowValueMaps := rowValueMaps db1,
      rowAppendOffsets := rowAppendOffsets db1, rowIndexFile := Some (rowIndexPath db), rowIndexMap := m\<rparr>"
    unfolding db2_def by (subst d1) simp
  from row_open_frameI [OF this dirs] other have "row_open_frame db db2" by blast
  then show ?thesis using run op sh2 by (auto simp: db2_def)
qed

text \<open>Without one they are the replay of the shards.\<close>

lemma open_row_files_rebuild:
  assumes os: "calls_ok os" "reads_ok os" and db: "row_files_openable os db"
    and bad: "row_index_file_unusable db" and logs: "shard_logs (shard_contents db) logs"
    and j: "initialRowBucketCount (options db) = 2 ^ j" "4 \<le> j" "j \<le> 56"
    and cap: "row_capacity (options db) (empty_row_index (2 ^ j) (rowShardCount (options db))) (length (concat logs))"
  shows "\<exists>db'. open_row_files os db = Some (Ok, db') \<and> row_ok (db'\<lparr>opened := True\<rparr>) \<and>
    rows (db'\<lparr>opened := True\<rparr>) = replay_rows (concat logs) (\<lambda>_. None) \<and>
    shards_of (db'\<lparr>opened := True\<rparr>) = shard_contents db \<and> row_shards_open (shard_contents db) db' \<and>
    rih_nextSequence (RowIndexHeader db') = next_sequence (concat logs) 1 \<and> 2 ^ j \<le> length (RowBuckets db') \<and>
    row_open_frame db db' \<and> rowIndexFile db' = Some (rowIndexPath db)"
proof -
  let ?S = "shard_contents db"
  obtain fs db1 where o: "OpenRowValueFiles os db = (Ok, db1)" and sh: "row_shards_open ?S db1"
    and d1: "db1 = db\<lparr>filesys := fs, rowValueFiles := rowValueFiles db1, rowValueMaps := rowValueMaps db1,
      rowAppendOffsets := rowAppendOffsets db1\<rparr>"
    and apart: "Some (rowIndexPath db) \<notin> set (rowValueFiles db1)" and dirs: "dirs fs = dirs (filesys db)"
    and other: "\<forall>p. p \<notin> shard_path db ` {..<unat (rowShardCount (options db))} \<longrightarrow> files fs p = files (filesys db) p"
    using open_shards [OF os db] by blast
  have f1: "filesys db1 = fs" "rowIndexPath db1 = rowIndexPath db" "readOnly db1 = readOnly db" "options db1 = options db"
    "rowIndexMap db1 = rowIndexMap db"
    by (subst d1, simp)+
  have "rowIndexPath db \<notin> shard_path db ` {..<unat (rowShardCount (options db))}"
    using db by (auto simp: row_files_openable_def)
  then have same: "files (filesys db1) (rowIndexPath db1) = files (filesys db) (rowIndexPath db)"
    using other by (simp add: f1)
  have "HasValidRowIndexLayout (db1\<lparr>rowIndexMap := m\<rparr>) k = HasValidRowIndexLayout (db\<lparr>rowIndexMap := m\<rparr>) k" for m k
    by (rule HasValidRowIndexLayout_cong) (simp_all add: f1)
  then have bad1: "row_index_file_unusable db1" using bad same by (simp add: row_index_file_unusable_def cong: option.case_cong)
  have pre: "\<not> readOnly db1" "rowIndexMap db1 = Unmapped" using db by (simp_all add: row_files_openable_def f1)
  obtain fs2 where r: "OpenRowIndexFile os db1 =
      (case CreateEmptyRowIndex os (db1\<lparr>filesys := fs2, rowIndexFile := Some (rowIndexPath db1)\<rparr>)
              (initialRowBucketCount (options db1)) of
         None \<Rightarrow> None
       | Some (status, db3) \<Rightarrow> if \<not> IsOk status then Some (status, db3) else RebuildRowIndexFromValues os db3)"
    "\<forall>p. p \<noteq> rowIndexPath db1 \<longrightarrow> files fs2 p = files (filesys db1) p" "dirs fs2 = dirs (filesys db1)"
    using OpenRowIndexFile_rebuild_path [OF os(1) pre bad1] by blast
  define db2 where "db2 = db1\<lparr>filesys := fs2, rowIndexFile := Some (rowIndexPath db1)\<rparr>"
  have "Some (shard_path db1 s) \<in> set (rowValueFiles db1)" if "s < length ?S" for s
    using sh that by (auto simp: row_shards_open_def)
  then have "shard_path db1 s \<noteq> rowIndexPath db1" if "s < length ?S" for s
    using apart that f1(2) by metis
  then have sh2: "row_shards_open ?S db2" using sh r(2) by (simp add: row_shards_open_def db2_def shard_path_def)
  have path2: "rowIndexFile db2 = Some (rowIndexPath db)" "Some (rowIndexPath db) \<notin> set (rowValueFiles db2)"
    using apart by (simp_all add: db2_def f1)
  define e where "e = empty_row_index (2 ^ j) (rowShardCount (options db))"
  obtain db3 where c3: "CreateEmptyRowIndex os db2 (2 ^ j) = Some (Ok, db3)" and fr: "row_index_frame db2 db3"
    and m3: "rowIndexMap db3 = \<lparr>mapped_data = Some e, mapped_size = 64 + 2 ^ j * 64, mapped_writable = True\<rparr>"
    using CreateEmptyRowIndex_ok [OF os(1) path2(1) j(2,3)] by (auto simp: e_def db2_def f1)
  have apart2: "row_files_apart db2" using row_shards_open_bytes(5) [OF sh2] path2 by (simp add: row_files_apart_def)
  have sh3: "row_shards_open ?S db3"
    using fr by (intro row_shards_open_frame [OF sh2 _ apart2]) (simp_all add: rebuild_frame_def row_index_frameD(4) [OF fr])
  have path3: "rowIndexFile db3 = Some (rowIndexPath db)" "Some (rowIndexPath db) \<notin> set (rowValueFiles db3)"
    using path2 by (simp_all add: row_index_frameD(1,2) [OF fr])
  have n: "unat (rowShardCount (options db)) = length ?S" by (simp add: shard_contents_def)
  have eok: "row_index_ok ?S e" unfolding e_def by (rule empty_row_index_ok [OF j(3) n])
  have "(2 :: nat) ^ 4 \<le> 2 ^ j" using j by (intro power_increasing) simp_all
  then have big: "16 \<le> length (ri_buckets e)" using j by (simp add: e_def empty_row_index_def)
  have cap3: "row_capacity (options db3) e (length (concat logs))"
    using cap by (simp add: e_def row_index_frameD(5) [OF fr] db2_def f1)
  have m3': "mapped_data (rowIndexMap db3) = Some e" "mapped_writable (rowIndexMap db3)" by (simp_all add: m3)
  have fresh: "rows_map ?S (ri_buckets e) = (\<lambda>_. None)" by (simp add: e_def)
  from RebuildRowIndex_ok [OF os sh3 path3 m3' big eok fresh logs cap3]
  obtain db' v' where b: "RebuildRowIndexFromValues os db3 = Some (Ok, db')" "row_index_frame db3 db'" "row_shards_open ?S db'"
    "mapped_data (rowIndexMap db') = Some v'" "mapped_writable (rowIndexMap db')" "row_index_ok ?S v'"
    "rows_map ?S (ri_buckets v') = replay_rows (concat logs) (\<lambda>_. None)"
    "rih_nextSequence (ri_header v') = next_sequence (concat logs) 1" "length (ri_buckets e) \<le> length (ri_buckets v')"
    by blast
  have "length (ri_buckets e) = 2 ^ j" using j by (simp add: e_def empty_row_index_def)
  then have size: "2 ^ j \<le> length (ri_buckets v')" using b(9) by simp
  have path': "rowIndexFile db' = Some (rowIndexPath db)" "Some (rowIndexPath db) \<notin> set (rowValueFiles db')"
    using path3 by (simp_all add: row_index_frameD(1,2) [OF b(2)])
  have "open_row_files os db = Some (Ok, db')"
    using r(1) c3 b(1) j(1) by (simp add: open_row_files_def o f1 flip: db2_def) (simp add: db2_def f1)
  moreover have "RowIndexHeader db' = ri_header v'" "RowBuckets db' = ri_buckets v'"
    using b(4) by (simp_all add: RowIndexHeader_def RowBuckets_def)
  moreover have "row_open_frame db db'"
  proof -
    have "db2 = db\<lparr>filesys := fs2, rowValueFiles := rowValueFiles db1, rowValueMaps := rowValueMaps db1,
        rowAppendOffsets := rowAppendOffsets db1, rowIndexFile := Some (rowIndexPath db), rowIndexMap := rowIndexMap db\<rparr>"
      unfolding db2_def f1(2) by (subst d1) simp
    moreover have "dirs fs2 = dirs (filesys db)" using r(3) dirs by (simp add: f1)
    moreover have "files fs2 p = files (filesys db) p"
      if "p \<noteq> rowIndexPath db" "p \<notin> shard_path db ` {..<unat (rowShardCount (options db))}" for p
      using that r(2) other by (simp add: f1)
    ultimately have "row_open_frame db db2" by (rule row_open_frameI)
    from row_open_frame_index [OF this row_index_frame_trans [OF fr b(2)] path2(1)] show ?thesis .
  qed
  ultimately show ?thesis using row_ok_opened [OF b(3) path' b(4,5,6)] b(3,7,8) size path'(1) by auto
qed

end
