(* ===== verification/Row_Theorems.thy ===== *)
theory Row_Theorems
  imports Row_Writes Object_Theorems
begin

text \<open>
  The correctness statements of the row blocks and the row API, each with a run on a concrete
  database: one shard, an empty row index of sixteen buckets, and system calls that are
  interrupted and cut short.
\<close>

subsection \<open>A concrete database\<close>

definition sample_row_file :: bytes where
  "sample_row_file = encode_RowValueFileHeader RowValueFileHeader_default"

definition sample_row_db :: Impl where
  "sample_row_db = sample_db
     \<lparr>filesys := set_file (set_file (filesys sample_db) ''d/row_values-000.lumorv'' sample_row_file) ''d/row_index.dat'' [],
      rowIndexFile := Some ''d/row_index.dat'',
      rowIndexMap := \<lparr>mapped_data = Some (empty_row_index 16 1), mapped_size = 1088, mapped_writable = True\<rparr>,
      rowValueFiles := [Some ''d/row_values-000.lumorv''], rowValueMaps := [Unmapped],
      rowAppendOffsets := [of_nat (length sample_row_file)]\<rparr>"

lemma length_sample_row_file: "length sample_row_file = 24"
  by (simp add: sample_row_file_def encode_RowValueFileHeader_def default_array_lengths)

lemma sample_row_bytes: "row_bytes sample_row_db 0 = sample_row_file"
  by (simp add: row_bytes_def sample_row_db_def Unmapped_def IsMapped_def)

lemma sample_row_ok: "row_ok sample_row_db"
proof -
  have "row_index_ok (shards_of sample_row_db) (empty_row_index 16 1)"
    using empty_row_index_ok [of 4 1 "shards_of sample_row_db"] by (simp add: sample_row_db_def)
  moreover have "length (row_bytes sample_row_db 0) = 24" by (simp add: sample_row_bytes length_sample_row_file)
  ultimately show ?thesis
    unfolding row_ok_def row_core_ok_def
    by (simp add: sample_row_db_def sample_db_def Unmapped_def IsMapped_def length_sample_row_file)
qed

lemma rows_sample: "rows sample_row_db = (\<lambda>_. None)"
  by (simp add: rows_def RowBuckets_def) (simp add: sample_row_db_def)

lemma sample_slot_free: "row_slot_free sample_row_db"
proof -
  have "double_of_u64 1 = Fin 1" "double_of_u64 16 = Fin 16"
    using fl_pow2 [of 0] fl_pow2 [of 4] by (simp_all add: double_of_u64_def)
  moreover have "fl (1 / 16) = 1 / 16" using fl_dyadic [of 1 4] by simp
  ultimately show ?thesis
    using default_load_factor
    by (simp add: row_slot_free_def ReserveRowIndexInsertSlot_def Let_def RowIndexHeader_def sample_row_db_def
        sample_db_def empty_row_index_def RowIndexFileHeader_default_def DatabaseOptions_default_def)
qed

lemma sample_row_fits:
  assumes "entries \<noteq> []" and "length entries \<le> 100" and "length column \<le> 100"
    and "key_bytes_total entries + length (values_of entries) \<le> 10000"
  shows "row_write_fits sample_row_db column entries"
proof -
  have "rat_of_nat (length entries) \<le> 100"
    using assms(2) by (metis of_nat_le_iff of_nat_numeral)
  moreover have "(100 :: rat) \<le> fl (4 / 5) * (2 ^ 31 - 1)" using default_load_factor(2) by simp
  ultimately have "rat_of_nat (length entries) \<le> fl (4 / 5) * (2 ^ 31 - 1)" by (rule order_trans)
  moreover have "unat (of_nat (length sample_row_file) :: u64) < 2 ^ 62" by (simp add: length_sample_row_file)
  ultimately show ?thesis
    using assms default_load_factor
    by (simp add: row_write_fits_def row_fits_def sample_row_db_def sample_db_def DatabaseOptions_default_def)
qed

definition sample_row :: "RowStructEntry list" where
  "sample_row = [\<lparr>re_key = [1], re_bytes = [10]\<rparr>, \<lparr>re_key = [2], re_bytes = []\<rparr>, \<lparr>re_key = [1], re_bytes = [11, 12]\<rparr>]"

lemma sample_row_fit: "row_write_fits sample_row_db [7] sample_row"
  by (rule sample_row_fits) (simp_all add: sample_row_def key_bytes_total_def values_of_def)

lemma choppy_reads: "reads_ok choppy_os" "writes_ok choppy_os"
  using choppy_writes_ok by (simp_all add: reads_ok_def choppy_os_def)

subsection \<open>Row blocks\<close>

text \<open>C35. The block that is laid out for a list of entries decodes to the row they make: distinct
  keys, one value per key, and the last entry of a key wins.\<close>

theorem row_block_roundtrip:
  assumes "maxLoadFactor (options db) = Fin f" and "row_fits f column entries"
    and "BuildRowBlockLayout db column rowId entries sequence (HashString column) = Some (Inr layout)"
  shows "\<exists>keys vals. DecodeRowBlockEntries (concat (block_slices column layout)) column rowId = Some (Inr (keys, vals)) \<and>
    distinct keys \<and> length vals = length keys \<and> map_of (zip keys vals) = row_map entries"
proof -
  obtain L where L: "BuildRowBlockLayout db column rowId entries sequence (HashString column) = Some (Inr L)"
    "layout_ok column rowId L" "layout_map L = row_map entries"
    by (rule BuildRowBlockLayout_ok [OF assms(1,2)])
  then have "layout = L" using assms(3) by simp
  moreover have "zip (map fst (layout_entries L)) (map snd (layout_entries L)) = layout_entries L"
    by (rule zip_map_fst_snd)
  ultimately show ?thesis
    using DecodeRowBlockEntries_ok [OF L(2)] layout_entries_map [OF L(2)] L(3)
    by (simp add: block_bytes_def)
qed

lemma row_block_roundtrip_witness:
  "\<exists>layout keys vals.
    BuildRowBlockLayout sample_row_db [7] 5 sample_row 1 (HashString [7]) = Some (Inr layout) \<and>
    DecodeRowBlockEntries (concat (block_slices [7] layout)) [7] 5 = Some (Inr (keys, vals)) \<and>
    map_of (zip keys vals) [1] = Some [11, 12] \<and> map_of (zip keys vals) [3] = None"
proof -
  have f: "maxLoadFactor (options sample_row_db) = Fin (fl (4 / 5))"
    by (simp add: sample_row_db_def sample_db_def DatabaseOptions_default_def)
  have fits: "row_fits (fl (4 / 5)) [7] sample_row" using sample_row_fit by (simp add: row_write_fits_def f)
  obtain L where L: "BuildRowBlockLayout sample_row_db [7] 5 sample_row 1 (HashString [7]) = Some (Inr L)"
    by (rule BuildRowBlockLayout_ok [OF f fits])
  show ?thesis
    using row_block_roundtrip [OF f fits L] L by (auto simp: row_map_def sample_row_def)
qed

text \<open>The table of a row block is large enough for every row that fits: laying it out never
  fails, and the header describes exactly the bytes that are written.\<close>

theorem row_layout_total:
  assumes "maxLoadFactor (options db) = Fin f" and "row_fits f column entries"
  shows "\<exists>layout. BuildRowBlockLayout db column rowId entries sequence (HashString column) = Some (Inr layout) \<and>
    IsValidRowBlockHeader (rl_header layout) \<and>
    unat (rb_blockSize (rl_header layout)) = length (concat (block_slices column layout)) \<and>
    decode_RowBlockHeader (concat (block_slices column layout)) = rl_header layout"
proof -
  obtain L where L: "BuildRowBlockLayout db column rowId entries sequence (HashString column) = Some (Inr L)"
    "layout_ok column rowId L"
    by (rule BuildRowBlockLayout_ok [OF assms])
  then show ?thesis
    using layout_header_valid [OF L(2)] layout_okD(12) [OF L(2)] length_block_bytes [OF L(2)]
      block_bytes_parts [of column L]
    by (simp add: block_bytes_def)
qed

lemma row_layout_total_witness:
  "\<exists>layout. BuildRowBlockLayout sample_row_db [7] 5 sample_row 1 (HashString [7]) = Some (Inr layout) \<and>
    IsValidRowBlockHeader (rl_header layout)"
proof -
  have f: "maxLoadFactor (options sample_row_db) = Fin (fl (4 / 5))"
    by (simp add: sample_row_db_def sample_db_def DatabaseOptions_default_def)
  have fits: "row_fits (fl (4 / 5)) [7] sample_row" using sample_row_fit by (simp add: row_write_fits_def f)
  show ?thesis using row_layout_total [OF f fits, of 5 1] by blast
qed

subsection \<open>The bounds check of the decoder\<close>

text \<open>
  \<open>DecodeRowBlockEntries\<close> compares \<open>keyOffset + keySize\<close> and \<open>valueOffset + valueSize\<close>, computed in 64
  bits, with the sizes of the header.  A bucket \<open>slips_through\<close> when the check passes only because one of the two
  sums wraps around; it is \<open>skipped_or_inside\<close> when the decoder goes on to the next bucket without harm.
\<close>

definition key_bucket_at :: "bytes \<Rightarrow> nat \<Rightarrow> RowKeyBucket" where
  "key_bucket_at block i = decode_RowKeyBucket (take 48 (drop (72 + 48 * i) block))"

definition check_passes :: "RowBlockHeader \<Rightarrow> RowKeyBucket \<Rightarrow> bool" where
  "check_passes h b \<longleftrightarrow> rk_keyOffset b + rk_keySize b \<le> rb_keyBytesSize h \<and> rk_valueOffset b + rk_valueSize b \<le> rb_valueBytesSize h"

definition sum_wraps :: "RowKeyBucket \<Rightarrow> bool" where
  "sum_wraps b \<longleftrightarrow> 2 ^ 64 \<le> unat (rk_keyOffset b) + unat (rk_keySize b) \<or> 2 ^ 64 \<le> unat (rk_valueOffset b) + unat (rk_valueSize b)"

definition slips_through :: "RowBlockHeader \<Rightarrow> RowKeyBucket \<Rightarrow> bool" where
  "slips_through h b \<longleftrightarrow> rk_state b = kBucketFilled \<and> check_passes h b \<and> sum_wraps b"

definition skipped_or_inside :: "RowBlockHeader \<Rightarrow> RowKeyBucket \<Rightarrow> bool" where
  "skipped_or_inside h b \<longleftrightarrow> rk_state b = kBucketEmpty \<or>
     rk_state b = kBucketFilled \<and> unat (rk_keyOffset b) + unat (rk_keySize b) \<le> unat (rb_keyBytesSize h) \<and>
       unat (rk_valueOffset b) + unat (rk_valueSize b) \<le> unat (rb_valueBytesSize h)"

text \<open>A block whose header the decoder accepts and whose parts fill it exactly.\<close>

definition header_accepted :: "bytes \<Rightarrow> bytes \<Rightarrow> u64 \<Rightarrow> bool" where
  "header_accepted block column rowId \<longleftrightarrow>
     (let h = decode_RowBlockHeader block; buckets = 48 * unat (rb_bucketCount h)
      in IsValidRowBlockHeader h \<and> rb_rowId h = rowId \<and> rb_columnHash h = HashString column \<and>
         unat (rb_blockSize h) = length block \<and>
         length block = 72 + buckets + unat (rb_columnSize h) + unat (rb_keyBytesSize h) + unat (rb_valueBytesSize h) \<and>
         take (unat (rb_columnSize h)) (drop (72 + buckets) block) = column)"

lemma wrapped_sum_passes:
  fixes a b c :: u64
  assumes "a + b \<le> c"
  shows "unat a + unat b \<le> unat c \<longleftrightarrow> unat a + unat b < 2 ^ 64"
proof -
  have c: "unat c < 18446744073709551616" by (rule unat_bound64)
  have le: "unat (a + b) \<le> unat c" using assms by (simp add: word_le_nat_alt)
  have "unat a + unat b < 18446744073709551616 \<Longrightarrow> unat (a + b) = unat a + unat b" by (rule unat_add64)
  with le c have "unat a + unat b \<le> unat c \<longleftrightarrow> unat a + unat b < 18446744073709551616" by linarith
  then show ?thesis by simp
qed

lemma exact_sum_passes:
  fixes a b c :: u64
  assumes "unat a + unat b \<le> unat c"
  shows "a + b \<le> c"
proof -
  have c: "unat c < 18446744073709551616" by (rule unat_bound64)
  then have "unat (a + b) = unat a + unat b" using assms by (intro unat_add64) linarith
  then show ?thesis using assms by (simp add: word_le_nat_alt)
qed

lemma skipped_or_inside_iff:
  assumes "rk_state b = kBucketFilled" "kBucketEmpty \<noteq> kBucketFilled"
  shows "skipped_or_inside h b \<longleftrightarrow> check_passes h b \<and> \<not> sum_wraps b"
  using assms wrapped_sum_passes [of "rk_keyOffset b" "rk_keySize b"] wrapped_sum_passes [of "rk_valueOffset b" "rk_valueSize b"]
    exact_sum_passes [of "rk_keyOffset b" "rk_keySize b"] exact_sum_passes [of "rk_valueOffset b" "rk_valueSize b"]
  unfolding skipped_or_inside_def check_passes_def sum_wraps_def by (metis not_le)

lemma first_at_head:
  assumes "k < n"
  shows "(\<exists>i. k \<le> i \<and> i < n \<and> P i \<and> (\<forall>j. k \<le> j \<and> j < i \<longrightarrow> Q j)) \<longleftrightarrow>
    P k \<or> Q k \<and> (\<exists>i. Suc k \<le> i \<and> i < n \<and> P i \<and> (\<forall>j. Suc k \<le> j \<and> j < i \<longrightarrow> Q j))" (is "?L \<longleftrightarrow> ?R")
proof
  assume ?L
  then obtain i where i: "k \<le> i" "i < n" "P i" "\<forall>j. k \<le> j \<and> j < i \<longrightarrow> Q j" by blast
  show ?R
  proof (cases "i = k")
    case False
    then have "Suc k \<le> i" "Q k" using i by simp_all
    then show ?R using i by (intro disjI2 conjI exI [of _ i]) simp_all
  qed (use i in simp)
next
  assume ?R
  then show ?L
  proof
    assume "P k"
    then show ?L using assms by (intro exI [of _ k]) auto
  next
    assume "Q k \<and> (\<exists>i. Suc k \<le> i \<and> i < n \<and> P i \<and> (\<forall>j. Suc k \<le> j \<and> j < i \<longrightarrow> Q j))"
    then obtain i where i: "Q k" "Suc k \<le> i" "i < n" "P i" "\<forall>j. Suc k \<le> j \<and> j < i \<longrightarrow> Q j" by blast
    have "Q j" if "k \<le> j" "j < i" for j using i that by (cases "j = k") simp_all
    then show ?L using i by (intro exI [of _ i]) simp
  qed
qed

lemma decode_entries_loop_undefined:
  fixes block h ko vo n
  defines "b \<equiv> key_bucket_at block"
  assumes size: "length block = 72 + 48 * n + cs + unat (rb_keyBytesSize h) + unat (rb_valueBytesSize h)"
    and ko: "unat ko = 72 + 48 * n + cs" and vo: "unat vo = 72 + 48 * n + cs + unat (rb_keyBytesSize h)"
    and bound: "length block < 2 ^ 64" and k: "k \<le> n"
  shows "decode_entries_loop block h ko vo [k..<n] = None \<longleftrightarrow>
    (\<exists>i. k \<le> i \<and> i < n \<and> slips_through h (b i) \<and> (\<forall>j. k \<le> j \<and> j < i \<longrightarrow> skipped_or_inside h (b j)))"
  using k
proof (induction "n - k" arbitrary: k)
  case (Suc m)
  have k: "k < n" using Suc.hyps(2) by simp
  let ?rest = "decode_entries_loop block h ko vo [Suc k..<n]"
  have IH: "?rest = None \<longleftrightarrow> (\<exists>i. Suc k \<le> i \<and> i < n \<and> slips_through h (b i) \<and> (\<forall>j. Suc k \<le> j \<and> j < i \<longrightarrow> skipped_or_inside h (b j)))"
    using Suc k by auto
  have ne: "kBucketEmpty \<noteq> kBucketFilled" by simp
  have split: "(\<exists>i. k \<le> i \<and> i < n \<and> slips_through h (b i) \<and> (\<forall>j. k \<le> j \<and> j < i \<longrightarrow> skipped_or_inside h (b j))) \<longleftrightarrow>
      slips_through h (b k) \<or> skipped_or_inside h (b k) \<and> ?rest = None"
    unfolding IH by (rule first_at_head [OF k])
  have bucket: "slice_at block (72 + 48 * k) 48 = Some (take 48 (drop (72 + 48 * k) block))"
    using k size by (simp add: slice_at_def)
  have b: "decode_RowKeyBucket (take 48 (drop (72 + 48 * k) block)) = b k" by (simp add: b_def key_bucket_at_def)
  have up: "[k..<n] = k # [Suc k..<n]" using k by (rule upt_conv_Cons)
  show ?case
  proof (cases "rk_state (b k) = kBucketFilled")
    case False
    then show ?thesis
      unfolding split up by (simp add: bucket b Let_def slips_through_def skipped_or_inside_def)
  next
    case filled: True
    note iff = skipped_or_inside_iff [OF filled ne, of h]
    show ?thesis
    proof (cases "check_passes h (b k)")
      case False
      then have "rb_keyBytesSize h < rk_keyOffset (b k) + rk_keySize (b k) \<or> rb_valueBytesSize h < rk_valueOffset (b k) + rk_valueSize (b k)"
        by (auto simp: check_passes_def)
      then show ?thesis unfolding split up using False iff filled by (simp add: bucket b Let_def slips_through_def)
    next
      case passes: True
      then have "\<not> rb_keyBytesSize h < rk_keyOffset (b k) + rk_keySize (b k)" "\<not> rb_valueBytesSize h < rk_valueOffset (b k) + rk_valueSize (b k)"
        by (auto simp: check_passes_def)
      note step = this
      show ?thesis
      proof (cases "sum_wraps (b k)")
        case True
        then have "2 ^ 64 \<le> unat (rk_keyOffset (b k)) + unat (rk_keySize (b k)) \<or>
            2 ^ 64 \<le> unat (rk_valueOffset (b k)) + unat (rk_valueSize (b k))" by (simp add: sum_wraps_def)
        then have "slice_at block (unat ko + unat (rk_keyOffset (b k))) (unat (rk_keySize (b k))) = None \<or>
            slice_at block (unat vo + unat (rk_valueOffset (b k))) (unat (rk_valueSize (b k))) = None"
          using bound unfolding slice_at_def by auto
        then have "decode_entries_loop block h ko vo [k..<n] = None"
          unfolding up using step filled ne by (auto simp: bucket b Let_def split: option.split)
        then show ?thesis unfolding split using True passes filled by (simp add: slips_through_def)
      next
        case False
        then have inside: "skipped_or_inside h (b k)" using iff passes by simp
        then have "unat (rk_keyOffset (b k)) + unat (rk_keySize (b k)) \<le> unat (rb_keyBytesSize h)"
          "unat (rk_valueOffset (b k)) + unat (rk_valueSize (b k)) \<le> unat (rb_valueBytesSize h)"
          using filled ne by (auto simp: skipped_or_inside_def)
        then obtain x y where "slice_at block (unat ko + unat (rk_keyOffset (b k))) (unat (rk_keySize (b k))) = Some x"
            "slice_at block (unat vo + unat (rk_valueOffset (b k))) (unat (rk_valueSize (b k))) = Some y"
          using size ko vo by (simp add: slice_at_def)
        then have "decode_entries_loop block h ko vo [k..<n] = None \<longleftrightarrow> ?rest = None"
          unfolding up using step filled ne by (simp add: bucket b Let_def)
        then show ?thesis unfolding split using inside False by (simp add: slips_through_def)
      qed
    qed
  qed
qed simp

text \<open>A block of one bucket whose key offset wraps the bounds check of \<open>DecodeRowBlockEntries\<close>.\<close>

definition wrapping_block :: bytes where
  "wrapping_block =
     encode_RowBlockHeader (RowBlockHeader_default\<lparr>rb_columnHash := HashString [], rb_itemCount := 1,
       rb_bucketCount := 1, rb_blockSize := 120\<rparr>) @
     encode_RowKeyBucket (RowKeyBucket_default\<lparr>rk_state := kBucketFilled, rk_keyOffset := - 1, rk_keySize := 1\<rparr>)"

text \<open>C37. The bounds check of \<open>DecodeRowBlockEntries\<close> adds offset and size in 64 bits.  On a block with an accepted header, whose
  parts fill the block exactly, the decoder reads outside the block (undefined behaviour) if and only if one of its buckets is filled
  and passes the check although one of its two sums wraps around, and no bucket before it ends the decoding with an error.\<close>

theorem decode_bounds_check_wraps:
  assumes "header_accepted block column rowId"
  shows "DecodeRowBlockEntries block column rowId = None \<longleftrightarrow>
    (\<exists>i < unat (rb_bucketCount (decode_RowBlockHeader block)).
       slips_through (decode_RowBlockHeader block) (key_bucket_at block i) \<and>
       (\<forall>j < i. skipped_or_inside (decode_RowBlockHeader block) (key_bucket_at block j)))"
proof -
  define h where "h = decode_RowBlockHeader block"
  define n where "n = unat (rb_bucketCount h)"
  define cs where "cs = unat (rb_columnSize h)"
  have H: "IsValidRowBlockHeader h" "rb_rowId h = rowId" "rb_columnHash h = HashString column" "unat (rb_blockSize h) = length block"
    "length block = 72 + 48 * n + cs + unat (rb_keyBytesSize h) + unat (rb_valueBytesSize h)"
    "take cs (drop (72 + 48 * n) block) = column"
    using assms by (simp_all add: header_accepted_def Let_def h_def n_def cs_def)
  have lt: "length block < 2 ^ 64" using H(4) unat_bound64 [of "rb_blockSize h"] by simp
  define co where "co = (72 + ucast (rb_bucketCount h) * 48 :: u64)"
  define ko where "ko = co + ucast (rb_columnSize h)"
  define vo where "vo = ko + rb_keyBytesSize h"
  have n32: "n < 4294967296" unfolding n_def by (rule unat_bound32)
  have "unat (ucast (rb_bucketCount h) * 48 :: u64) = 48 * n"
    by (subst unat_mult64) (simp_all add: n_def mult.commute, use n32 in \<open>unfold n_def, linarith\<close>)
  then have co: "unat co = 72 + 48 * n" using n32 unat_add64 [of 72 "ucast (rb_bucketCount h) * 48"] by (simp add: co_def)
  then have ko: "unat ko = 72 + 48 * n + cs"
    using lt H(5) unat_add64 [of co "ucast (rb_columnSize h)"] by (simp add: ko_def cs_def)
  then have vo: "unat vo = 72 + 48 * n + cs + unat (rb_keyBytesSize h)"
    using lt H(5) unat_add64 [of ko "rb_keyBytesSize h"] by (simp add: vo_def)
  have col: "slice_at block (unat co) cs = Some column" using H(5,6) by (simp add: slice_at_def co)
  have "DecodeRowBlockEntries block column rowId = None \<longleftrightarrow> decode_entries_loop block h ko vo [0..<n] = None"
    unfolding DecodeRowBlockEntries_def Let_def h_def [symmetric] co_def [symmetric] ko_def [symmetric] vo_def [symmetric]
      n_def [symmetric] cs_def [symmetric] col
    using H(1-5) by (auto split: option.split sum.split)
  also note decode_entries_loop_undefined [OF H(5) ko vo lt, of 0]
  finally show ?thesis by (simp add: h_def n_def)
qed

lemma decode_bounds_check_wraps_witness:
  "header_accepted wrapping_block [] 0 \<and> DecodeRowBlockEntries wrapping_block [] 0 = None"
proof -
  let ?h = "RowBlockHeader_default\<lparr>rb_columnHash := HashString [], rb_itemCount := 1, rb_bucketCount := 1, rb_blockSize := 120 :: u64\<rparr>"
  let ?b = "RowKeyBucket_default\<lparr>rk_state := kBucketFilled, rk_keyOffset := - 1, rk_keySize := 1\<rparr>"
  have res: "length (rk_reserved ?b) = 7" by (simp add: default_array_lengths)
  have len: "length wrapping_block = 120"
    using length_encode_RowKeyBucket [OF res] by (simp add: wrapping_block_def)
  have hdr: "decode_RowBlockHeader wrapping_block = ?h" by (simp add: wrapping_block_def)
  have "take 48 (drop 72 wrapping_block) = encode_RowKeyBucket ?b"
    using length_encode_RowKeyBucket [OF res] by (simp add: wrapping_block_def)
  then have b: "key_bucket_at wrapping_block 0 = ?b"
    using decode_encode_RowKeyBucket [OF res, of "[]"] by (simp add: key_bucket_at_def)
  have accepted: "header_accepted wrapping_block [] 0"
    by (simp add: header_accepted_def hdr Let_def len IsValidRowBlockHeader_def RowBlockHeader_default_def)
  have "18446744073709551615 \<le> unat (- 1 :: u64)"
    using unat_add64 [of "- 1" 1] by (simp add: not_less [symmetric]) blast
  then have "slips_through ?h ?b"
    by (simp add: slips_through_def check_passes_def sum_wraps_def RowBlockHeader_default_def RowKeyBucket_default_def)
  then show ?thesis
    using decode_bounds_check_wraps [OF accepted] accepted b by (auto simp: hdr)
qed

subsection \<open>The row API\<close>

text \<open>C14. \<open>PutRowStructs\<close> replaces the whole row by the map of its entries, or leaves every row as it
  was: whatever errors the writes meet, and with an OK status when they meet none and the index
  has a free slot.  The store stays well formed and no other file changes.\<close>

theorem PutRowStructs_replaces_row:
  assumes "reads_ok os" and "row_ok db" and "row_write_fits db column entries"
  shows "\<exists>status db'. PutRowStructs os db column rowId entries = Some (status, db') \<and> row_ok db' \<and> row_frame db db' \<and>
    rows db' = (if IsOk status then (rows db)((column, rowId) \<mapsto> row_map entries) else rows db) \<and>
    (writes_ok os \<and> row_slot_free db \<longrightarrow> IsOk status)"
proof -
  from WriteRowStructs_atomic [OF assms, where rsv = True and rowId = rowId] show ?thesis by (auto simp: PutRowStructs_def)
qed

lemma PutRowStructs_replaces_row_witness:
  "\<exists>status db'. PutRowStructs choppy_os sample_row_db [7] 5 sample_row = Some (status, db') \<and> IsOk status \<and>
    rows db' ([7], 5) = Some (row_map sample_row)"
  using PutRowStructs_replaces_row [OF choppy_reads(1) sample_row_ok sample_row_fit, of 5]
    choppy_reads(2) sample_slot_free
  by auto

text \<open>C15. \<open>PutRowStruct\<close> changes one key of one row and keeps all other keys and rows.\<close>

theorem PutRowStruct_updates_cell:
  assumes "reads_ok os" and "writes_ok os" and "row_ok db" and "put_row_fits os db column rowId key v"
  shows "\<exists>db'. PutRowStruct os db column rowId key v = Some (Ok, db') \<and> row_ok db' \<and> row_frame db db' \<and>
    rows db' = (rows db)((column, rowId) \<mapsto> (row_or_empty (rows db (column, rowId)))(key \<mapsto> v))"
  using PutRowStruct_ok [OF assms] by blast

lemma sample_put_fits:
  assumes "FitsUint32 (length key)" and "length key + length v \<le> 10000"
  shows "put_row_fits choppy_os sample_row_db [7] 5 key v"
proof -
  have load: "LoadRowEntries choppy_os sample_row_db [7] 5 (HashString [7]) = Some (Inr (False, [], []))"
    using LoadRowEntries_ok [OF choppy_reads(1) row_ok_readable [OF sample_row_ok], of "[7]" 5] rows_sample by auto
  have "row_write_fits sample_row_db [7] (row_entries [key] [v])"
    by (rule sample_row_fits) (use assms in \<open>simp_all add: row_entries_def key_bytes_total_def values_of_def\<close>)
  then show ?thesis
    using assms sample_slot_free by (simp add: put_row_fits_def load replace_or_add_def)
qed

lemma PutRowStruct_updates_cell_witness:
  "\<exists>db'. PutRowStruct choppy_os sample_row_db [7] 5 [1] [10] = Some (Ok, db') \<and>
    rows db' ([7], 5) = Some [[1] \<mapsto> [10]]"
  using PutRowStruct_updates_cell [OF choppy_reads sample_row_ok sample_put_fits, of "[1]" "[10]"]
  by (auto simp: rows_sample row_or_empty_def FitsUint32_def)

text \<open>C16. \<open>GetRowStruct\<close> returns the value of the key in the row, "row not found" when there is no
  such row, and "key not found in row" when the row lacks the key.\<close>

theorem GetRowStruct_refines_rows:
  assumes "reads_ok os" and "rows_readable db"
  shows "GetRowStruct os db column rowId key = Some (row_result (rows db (column, rowId)) key)"
  using assms by (rule GetRowStruct_ok)

lemma GetRowStruct_refines_rows_witness:
  "GetRowStruct choppy_os sample_row_db [7] 5 [1] = Some (Inl (NotFound ''row not found''))"
  using GetRowStruct_refines_rows [OF choppy_reads(1) row_ok_readable [OF sample_row_ok], of "[7]" 5 "[1]"]
  by (simp add: rows_sample row_result_def)

text \<open>After any sequence of single-key row writes, every read returns the last value written to
  its cell, or what the store held before when the sequence does not write it.\<close>

theorem row_history_last_write_wins:
  assumes "reads_ok os" and "writes_ok os" and "row_ok db" and "cells_fit os db kvs"
  shows "\<exists>db'. put_cells os db kvs = Some db' \<and> row_ok db' \<and>
    get_cell os db' k = (case map_of (rev kvs) k of Some v \<Rightarrow> Some v | None \<Rightarrow> get_cell os db k)"
proof -
  from row_store.lookup_after_write [of os db kvs k] assms obtain db' where
    "put_cells os db kvs = Some db'" "row_ok db'" "get_cell os db' k = put_all kvs (get_cell os db) k"
    by blast
  then show ?thesis by (auto simp: put_all_map_of map_add_def)
qed

lemma row_history_last_write_wins_witness:
  "\<exists>db'. put_cells choppy_os sample_row_db [(([7], 5, [1]), [10])] = Some db' \<and>
    get_cell choppy_os db' ([7], 5, [1]) = Some [10]"
proof -
  have fits: "cells_fit choppy_os sample_row_db [(([7], 5, [1]), [10])]"
    using sample_put_fits [of "[1]" "[10]"]
    by (simp add: FitsUint32_def split: option.split)
  show ?thesis
    using row_history_last_write_wins [OF choppy_reads sample_row_ok fits, of "([7], 5, [1])"] by auto
qed

text \<open>A row index without a free slot refuses \<open>PutRowStructs\<close> before anything changes, also when
  the row exists and its bucket would only be replaced; \<open>PutRowStruct\<close> on that row is not refused.\<close>

theorem full_row_index_refuses:
  assumes "opened db" and "\<not> readOnly db" and "FitsUint32 (length column)" and "entries \<noteq> []"
    and "\<not> row_slot_free db"
  shows "PutRowStructs os db column rowId entries =
    Some (InvalidArgument ''row index capacity exceeded; increase initialRowBucketCount'', db)"
proof -
  have "ReserveRowIndexInsertSlot db =
      (InvalidArgument ''row index capacity exceeded; increase initialRowBucketCount'', db)"
    using assms(5) by (auto simp: row_slot_free_def ReserveRowIndexInsertSlot_def Let_def split: if_splits)
  then show ?thesis
    using assms(1-4) by (simp add: PutRowStructs_def WriteRowStructs_append_row)
qed

text \<open>The sample database with a load factor that admits no row.\<close>

definition tight_row_db :: Impl where
  "tight_row_db = sample_row_db\<lparr>options := DatabaseOptions_default\<lparr>maxLoadFactor := Fin (1 / 100)\<rparr>\<rparr>"

lemma full_row_index_refuses_witness:
  "PutRowStructs choppy_os tight_row_db [7] 5 sample_row =
    Some (InvalidArgument ''row index capacity exceeded; increase initialRowBucketCount'', tight_row_db)"
proof (rule full_row_index_refuses)
  have "double_of_u64 1 = Fin 1" "double_of_u64 16 = Fin 16"
    using fl_pow2 [of 0] fl_pow2 [of 4] by (simp_all add: double_of_u64_def)
  moreover have "fl (1 / 16) = 1 / 16" using fl_dyadic [of 1 4] by simp
  ultimately show "\<not> row_slot_free tight_row_db"
    by (simp add: tight_row_db_def row_slot_free_def ReserveRowIndexInsertSlot_def Let_def RowIndexHeader_def
        sample_row_db_def sample_db_def empty_row_index_def RowIndexFileHeader_default_def DatabaseOptions_default_def)
qed (simp_all add: tight_row_db_def sample_row_db_def sample_db_def FitsUint32_def sample_row_def)

definition separate_files :: "Impl \<Rightarrow> bool" where
  "separate_files db \<longleftrightarrow>
     valueFile db \<notin> set (rowValueFiles db) \<and> indexFile db \<notin> set (rowValueFiles db) \<and>
     valueFile db \<noteq> rowIndexFile db \<and> indexFile db \<noteq> rowIndexFile db"

lemma row_frame_objects:
  assumes ok: "object_ok db" and sep: "separate_files db" and fr: "row_frame db db'"
  shows "same_objects db db' \<and> object_ok db' \<and> objects db' = objects db \<and> separate_files db'"
proof -
  obtain fs m offs where d: "db' = db\<lparr>filesys := fs, rowIndexMap := m, rowAppendOffsets := offs\<rparr>"
    and keep: "\<forall>path. Some path \<notin> set (rowValueFiles db) \<longrightarrow> files fs path = files (filesys db) path"
    using fr unfolding row_frame_def by blast
  obtain v vp ip where o: "opened db" "\<not> readOnly db" "mapped_data (valueMap db) = None"
    "valueFile db = Some vp" "indexFile db = Some ip" "vp \<noteq> ip" "mapped_writable (indexMap db)"
    "unat (appendOffset db) \<le> length (value_bytes db)" "length (value_bytes db) < 2 ^ 63"
    "mapped_data (indexMap db) = Some v" "16 \<le> length (oi_buckets v)"
    "object_index_ok (take (unat (appendOffset db)) (value_bytes db)) v"
    "value_bytes db = file_content (filesys db) vp" "value_readable db"
    using ok by (rule object_okD)
  have "files fs vp = files (filesys db) vp" using keep sep o(4) by (simp add: separate_files_def)
  then have "value_bytes db' = value_bytes db" using o(3,4) by (simp add: d value_bytes_def file_content_def)
  then have "same_objects db db'" by (simp add: same_objects_def d)
  moreover have "separate_files db'" using sep by (simp add: separate_files_def d)
  ultimately show ?thesis using same_objects ok by blast
qed

lemma object_frame_rows:
  assumes ok: "row_ok db" and sep: "separate_files db" and fr: "object_frame db db'"
  shows "same_rows db db' \<and> row_ok db' \<and> rows db' = rows db \<and> separate_files db'"
proof -
  obtain fs m off where d: "db' = db\<lparr>filesys := fs, indexMap := m, appendOffset := off\<rparr>"
    and keep: "\<forall>path. indexFile db \<noteq> Some path \<and> valueFile db \<noteq> Some path \<longrightarrow> files fs path = files (filesys db) path"
    using fr unfolding object_frame_def by blast
  have rb: "row_bytes db' s = row_bytes db s" if s: "s < length (rowValueFiles db)" for s
  proof -
    obtain path where p: "rowValueFiles db ! s = Some path"
      using ok s unfolding row_ok_def row_core_ok_def by (metis nth_mem option.exhaust)
    then have "files fs path = files (filesys db) path"
      using keep sep nth_mem [OF s] unfolding separate_files_def by metis
    then show ?thesis by (simp add: row_bytes_def d p file_content_def)
  qed
  then have "same_rows db db'" by (simp add: same_rows_def d)
  moreover have "separate_files db'" using sep by (simp add: separate_files_def d)
  ultimately show ?thesis using same_rows ok by blast
qed

text \<open>Row writes and object writes do not disturb each other: when the files of the two stores
  are distinct, a row write keeps the objects and an object write keeps the rows.\<close>

theorem stores_are_independent:
  assumes "os_ok os" and "object_ok db" and "row_ok db" and "separate_files db"
    and "row_write_fits db column entries" and "write_fits db column sentries"
  shows "(\<exists>status db'. PutRowStructs os db column rowId entries = Some (status, db') \<and> object_ok db' \<and> row_ok db' \<and>
        objects db' = objects db \<and> (row_slot_free db \<longrightarrow> rows db' = (rows db)((column, rowId) \<mapsto> row_map entries))) \<and>
    (\<exists>db'. PutStructs os db column sentries = Some (Ok, db') \<and> object_ok db' \<and> row_ok db' \<and> rows db' = rows db \<and>
        objects db' = store_entries column sentries (objects db))"
proof
  have os: "reads_ok os" "writes_ok os" using assms(1) by (simp_all add: os_ok_def)
  obtain status db' where w: "PutRowStructs os db column rowId entries = Some (status, db')" "row_ok db'" "row_frame db db'"
      "rows db' = (if IsOk status then (rows db)((column, rowId) \<mapsto> row_map entries) else rows db)"
      "row_slot_free db \<longrightarrow> IsOk status"
    using WriteRowStructs_atomic [OF os(1) assms(3,5), where rsv = True and rowId = rowId] os(2)
    by (auto simp: PutRowStructs_def)
  then show "\<exists>status db'. PutRowStructs os db column rowId entries = Some (status, db') \<and> object_ok db' \<and> row_ok db' \<and>
        objects db' = objects db \<and> (row_slot_free db \<longrightarrow> rows db' = (rows db)((column, rowId) \<mapsto> row_map entries))"
    using row_frame_objects [OF assms(2,4) w(3)] by (intro exI [of _ status] exI [of _ db']) simp
  show "\<exists>db'. PutStructs os db column sentries = Some (Ok, db') \<and> object_ok db' \<and> row_ok db' \<and> rows db' = rows db \<and>
        objects db' = store_entries column sentries (objects db)"
    using object_put_ok [OF assms(1,2,6)] object_frame_rows [OF assms(3,4)] by blast
qed

lemma sample_row_objects: "object_ok sample_row_db" "separate_files sample_row_db"
  "objects sample_row_db = (\<lambda>_. None)"
proof -
  obtain v vp ip where o: "opened sample_db" "\<not> readOnly sample_db" "mapped_data (valueMap sample_db) = None"
    "valueFile sample_db = Some vp" "indexFile sample_db = Some ip" "vp \<noteq> ip" "mapped_writable (indexMap sample_db)"
    "unat (appendOffset sample_db) \<le> length (value_bytes sample_db)" "length (value_bytes sample_db) < 2 ^ 63"
    "mapped_data (indexMap sample_db) = Some v" "16 \<le> length (oi_buckets v)"
    "object_index_ok (take (unat (appendOffset sample_db)) (value_bytes sample_db)) v"
    "value_bytes sample_db = file_content (filesys sample_db) vp" "value_readable sample_db"
    using sample_db_ok by (rule object_okD)
  have vp: "vp = ''d/values.dat''" using o(4) by (simp add: sample_db_def)
  have vb: "value_bytes sample_row_db = value_bytes sample_db"
    using o(3,4) by (simp add: sample_row_db_def value_bytes_def vp)
  show "objects sample_row_db = (\<lambda>_. None)"
    using objects_sample unfolding objects_def vb by (simp add: sample_row_db_def Buckets_def)
  show "object_ok sample_row_db" using o unfolding object_ok_def vb by (simp add: sample_row_db_def)
  show "separate_files sample_row_db" by (simp add: separate_files_def sample_row_db_def sample_db_def)
qed

lemma stores_are_independent_witness:
  "(\<exists>status db'. PutRowStructs choppy_os sample_row_db [7] 5 sample_row = Some (status, db') \<and>
      rows db' = [([7], 5) \<mapsto> row_map sample_row] \<and> objects db' = (\<lambda>_. None)) \<and>
   (\<exists>db'. PutStructs choppy_os sample_row_db [7] sample_entries = Some (Ok, db') \<and> rows db' = (\<lambda>_. None))"
proof -
  have "write_fits sample_row_db [7] sample_entries"
    using sample_entries_fit by (simp add: write_fits_def sample_row_db_def)
  from stores_are_independent [OF choppy_os_ok sample_row_objects(1) sample_row_ok sample_row_objects(2) sample_row_fit this, of 5]
  show ?thesis
    using sample_slot_free sample_row_objects(3) by (auto simp: rows_sample)
qed

end
