(* ===== verification/Row_Durability.thy ===== *)
theory Row_Durability
  imports Row_Recovery Row_Theorems Recovery_Theorems
begin

text \<open>
  The shards of an open row store are logs whose replay is the stored rows, every write that
  succeeds keeps them so, and therefore the rows survive closing and reopening, with or without
  the row index file.
\<close>

subsection \<open>The log invariant\<close>

definition row_shard :: "nat \<Rightarrow> bytes \<times> u64 \<Rightarrow> nat" where
  "row_shard n = (\<lambda>(column, rowId). unat (MixHashes (HashString column) rowId) mod n)"

definition logs_placed :: "row_block list list \<Rightarrow> bool" where
  "logs_placed logs \<longleftrightarrow> (\<forall>s < length logs. \<forall>b \<in> set (logs ! s). row_shard (length logs) (row_block_key b) = s)"

text \<open>
  No shard has a hole: a failed row write moves the append offset past bytes that were never
  written, which ends this invariant (and, on a later rebuild, the readability of the file).
\<close>

definition row_log_ok :: "Impl \<Rightarrow> bool" where
  "row_log_ok db \<longleftrightarrow>
     (\<exists>logs. shard_logs (shards_of db) logs \<and> logs_placed logs \<and> rows db = replay_rows (concat logs) (\<lambda>_. None)) \<and>
     (\<forall>s < length (rowValueFiles db). unat (rowAppendOffsets db ! s) = length (row_bytes db s))"

lemma replay_rows_upd:
  "k \<notin> row_block_key ` set bs \<Longrightarrow> replay_rows bs (m(k \<mapsto> x)) = (replay_rows bs m)(k \<mapsto> x)"
proof (induction bs arbitrary: m)
  case (Cons b bs)
  then have twist: "m(k \<mapsto> x, row_block_key b \<mapsto> layout_map (snd b)) = m(row_block_key b \<mapsto> layout_map (snd b), k \<mapsto> x)"
    by (intro fun_upd_twist) auto
  show ?case unfolding replay_rows_simps twist by (rule Cons.IH) (use Cons.prems in simp)
qed simp

lemma blocks_from_snoc:
  "blocks_from c off bs \<Longrightarrow> layout_ok column (rb_rowId (rl_header L)) L \<Longrightarrow>
    blocks_from (c @ block_bytes column L) off (bs @ [(column, L)])"
proof (induction bs arbitrary: off)
  case Nil
  then show ?case using length_block_bytes [OF Nil.prems(2)] by (simp add: block_at_def)
next
  case (Cons b bs)
  obtain d M where b: "b = (d, M)" by (cases b)
  have parts: "block_at c off d M" "layout_ok d (rb_rowId (rl_header M)) M" "blocks_from c (off + layout_size d M) bs"
    using Cons.prems(1) by (simp_all add: b)
  have "block_at (c @ block_bytes column L) off d M"
    by (rule block_at_extend [OF parts(1)]) simp
  moreover have "blocks_from (c @ block_bytes column L) (off + layout_size d M) (bs @ [(column, L)])"
    by (rule Cons.IH [OF parts(3) Cons.prems(2)])
  ultimately show ?case using parts(2) by (simp only: b append_Cons blocks_from.simps)
qed

lemma row_value_header_ok_append: "row_value_header_ok c \<Longrightarrow> row_value_header_ok (c @ d)"
  by (simp add: row_value_header_ok_def)

lemma ShardForRow_shard:
  assumes "0 < length (rowValueFiles db)" and "length (rowValueFiles db) < 2 ^ 32"
  shows "unat (ShardForRow db (HashString column) rowId) = row_shard (length (rowValueFiles db)) (column, rowId)"
proof -
  have "unat (MixHashes (HashString column) rowId) mod length (rowValueFiles db) < 2 ^ 32"
    using assms mod_less_divisor [OF assms(1), of "unat (MixHashes (HashString column) rowId)"] by linarith
  then show ?thesis by (simp add: ShardForRow_def row_shard_def unat_of_nat take_bit_eq_mod)
qed

text \<open>Appending one block to the log of the shard it belongs to.\<close>

lemma logs_append:
  assumes logs: "shard_logs S logs" and placed: "logs_placed logs" and s: "s < length S"
    and L: "layout_ok column (rb_rowId (rl_header L)) L" "row_shard (length S) (row_block_key (column, L)) = s"
  defines "logs' \<equiv> logs[s := logs ! s @ [(column, L)]]"
  shows "shard_logs (S[s := S ! s @ block_bytes column L]) logs'" and "logs_placed logs'"
    and "replay_rows (concat logs') m = (replay_rows (concat logs) m)(row_block_key (column, L) \<mapsto> layout_map L)"
proof -
  have len: "length logs = length S" using list_all2_lengthD [OF logs [unfolded shard_logs_def]] by simp
  have each: "row_value_header_ok (S ! t) \<and> blocks_from (S ! t) 24 (logs ! t)" if "t < length S" for t
    using list_all2_nthD [OF logs [unfolded shard_logs_def] that] .
  show "shard_logs (S[s := S ! s @ block_bytes column L]) logs'"
    unfolding shard_logs_def list_all2_conv_all_nth
  proof (intro conjI allI impI)
    show "length (S[s := S ! s @ block_bytes column L]) = length logs'" using len by (simp add: logs'_def)
    fix t
    assume t: "t < length (S[s := S ! s @ block_bytes column L])"
    show "row_value_header_ok (S[s := S ! s @ block_bytes column L] ! t)"
      using t each row_value_header_ok_append by (cases "t = s") simp_all
    show "blocks_from (S[s := S ! s @ block_bytes column L] ! t) 24 (logs' ! t)"
    proof (cases "t = s")
      case True
      then show ?thesis using blocks_from_snoc [OF conjunct2 [OF each [OF s]] L(1)] s len by (simp add: logs'_def)
    next
      case False
      then show ?thesis using t each len by (simp add: logs'_def)
    qed
  qed
  show "logs_placed logs'"
    unfolding logs_placed_def
  proof (intro allI impI ballI)
    fix t b
    assume t: "t < length logs'" "b \<in> set (logs' ! t)"
    show "row_shard (length logs') (row_block_key b) = t"
    proof (cases "t = s \<and> b = (column, L)")
      case True
      then show ?thesis using L(2) len by (simp add: logs'_def)
    next
      case False
      then have "b \<in> set (logs ! t)" using t s len by (cases "t = s") (auto simp: logs'_def)
      then show ?thesis using placed t(1) by (simp add: logs_placed_def logs'_def)
    qed
  qed
  have s': "s < length logs" using s len by simp
  have "row_block_key (column, L) \<notin> row_block_key ` set (concat (drop (Suc s) logs))"
  proof
    assume "row_block_key (column, L) \<in> row_block_key ` set (concat (drop (Suc s) logs))"
    then obtain bs b where bs: "bs \<in> set (drop (Suc s) logs)" "b \<in> set bs" "row_block_key b = row_block_key (column, L)"
      by auto
    then obtain t where "t < length (drop (Suc s) logs)" "drop (Suc s) logs ! t = bs"
      by (meson in_set_conv_nth)
    then have t: "Suc s + t < length logs" "b \<in> set (logs ! (Suc s + t))" using bs(2) by simp_all
    then have "row_shard (length logs) (row_block_key b) = Suc s + t"
      using placed unfolding logs_placed_def by blast
    then show False using bs(3) L(2) len by simp
  qed
  note upd = replay_rows_upd [OF this]
  have "logs' = take s logs @ (logs ! s @ [(column, L)]) # drop (Suc s) logs"
    unfolding logs'_def by (rule upd_conv_take_nth_drop [OF s'])
  moreover have "logs = take s logs @ logs ! s # drop (Suc s) logs" by (rule id_take_nth_drop [OF s'])
  then have "concat logs = concat (take s logs) @ logs ! s @ concat (drop (Suc s) logs)"
    by (metis concat.simps(2) concat_append)
  ultimately show "replay_rows (concat logs') m = (replay_rows (concat logs) m)(row_block_key (column, L) \<mapsto> layout_map L)"
    by (simp add: replay_rows_append upd)
qed

text \<open>A row write that succeeds keeps the log invariant.\<close>

lemma row_log_append:
  assumes core: "row_core_ok db" and logged: "row_log_ok db" and fr: "row_frame db db'"
    and app: "row_appended db db' column rowId m" and rows': "rows db' = (rows db)((column, rowId) \<mapsto> m)"
  shows "row_log_ok db'"
proof -
  have d: "0 < length (rowValueFiles db)" "length (rowValueFiles db) < 2 ^ 32"
    "length (rowAppendOffsets db) = length (rowValueFiles db)"
    using core by (simp_all add: row_core_ok_def)
  obtain logs where logs: "shard_logs (shards_of db) logs" "logs_placed logs" "rows db = replay_rows (concat logs) (\<lambda>_. None)"
    and offs: "\<And>s. s < length (rowValueFiles db) \<Longrightarrow> unat (rowAppendOffsets db ! s) = length (row_bytes db s)"
    using logged by (auto simp: row_log_ok_def)
  obtain L s where L: "s = unat (ShardForRow db (HashString column) rowId)" "s < length (rowValueFiles db)"
      "layout_ok column rowId L" "layout_map L = m" "layout_size column L < 2 ^ 62" "unat (rowAppendOffsets db ! s) < 2 ^ 62"
      "shards_of db' = (shards_of db)
          [s := overwrite (shards_of db ! s) (unat (rowAppendOffsets db ! s)) (block_bytes column L)]"
      "rowAppendOffsets db' = (rowAppendOffsets db)[s := rowAppendOffsets db ! s + rb_blockSize (rl_header L)]"
    using app unfolding row_appended_def by blast
  note ld = layout_okD [OF L(3)]
  have key: "row_block_key (column, L) = (column, rowId)" using ld by (simp add: row_block_key_def)
  have files': "rowValueFiles db' = rowValueFiles db" using fr by (auto simp: row_frame_def)
  have grown: "shards_of db' = (shards_of db)[s := shards_of db ! s @ block_bytes column L]"
    using L(2,7) offs by simp
  have s: "s < length (shards_of db)" using L(2) by simp
  have lay: "layout_ok column (rb_rowId (rl_header L)) L" using L(3) key by (simp add: row_block_key_def)
  have shard: "row_shard (length (shards_of db)) (row_block_key (column, L)) = s"
    using ShardForRow_shard [OF d(1,2)] L(1) key by simp
  note la = logs_append [OF logs(1,2) s lay shard]
  have "rows db' = replay_rows (concat (logs[s := logs ! s @ [(column, L)]])) (\<lambda>_. None)"
    unfolding la(3) rows' logs(3) key L(4) ..
  moreover have "unat (rowAppendOffsets db' ! t) = length (row_bytes db' t)" if t: "t < length (rowValueFiles db')" for t
  proof -
    have bytes: "row_bytes db' t = shards_of db' ! t" using t by simp
    have size: "unat (rb_blockSize (rl_header L)) = length (block_bytes column L)"
      using ld(12) length_block_bytes [OF L(3)] by simp
    have "length (block_bytes column L) < 2 ^ 62" using L(5) length_block_bytes [OF L(3)] by simp
    then have "unat (rowAppendOffsets db ! s + rb_blockSize (rl_header L)) = length (row_bytes db s) + length (block_bytes column L)"
      using L(6) offs [OF L(2)] size by (simp add: unat_add64)
    then show ?thesis
      unfolding bytes grown using t offs d(3) L(2) by (cases "t = s") (simp_all add: files' L(8))
  qed
  ultimately show ?thesis
    using la(1,2) grown unfolding row_log_ok_def by metis
qed

end
