(* ===== verification/Lifecycle.thy ===== *)
theory Lifecycle
  imports Row_Durability
begin

text \<open>
  Opening, flushing and closing a database: the option checks, the four files in their order, and
  the release of everything that was opened when a step fails.
\<close>

subsection \<open>Flush and Close\<close>

fun sync_files :: "os \<Rightarrow> string option list \<Rightarrow> Status" where
  "sync_files os [] = Ok"
| "sync_files os (fd # fds) =
     (let status = SyncFile os fd in if \<not> IsOk status then status else sync_files os fds)"

definition Flush :: "os \<Rightarrow> Impl \<Rightarrow> Status" where
  "Flush os db =
     (if readOnly db then Ok
      else if \<not> IsMapped (indexMap db) then Ok
      else
        let status = SyncFile os (valueFile db) in
        if \<not> IsOk status then status
        else
          let status = sync_files os (rowValueFiles db) in
          if \<not> IsOk status then status
          else
            let status = SyncMapping os (the (rowIndexFile db)) (rowIndexMap db) in
            if \<not> IsOk status then status
            else
              let status = (if rowIndexFile db \<noteq> None then SyncFile os (rowIndexFile db) else Ok) in
              if \<not> IsOk status then status
              else
                let status = SyncMapping os (the (indexFile db)) (indexMap db) in
                if \<not> IsOk status then status
                else SyncFile os (indexFile db))"

definition Close :: "os \<Rightarrow> Impl \<Rightarrow> Status \<times> Impl" where
  "Close os db =
     (if \<not> opened db \<and> valueFile db = None \<and> indexFile db = None then (Ok, db)
      else (Flush os db, (CloseFiles db)\<lparr>opened := False, readOnly := False\<rparr>))"

subsection \<open>Opening\<close>

text \<open>The file names below the database directory.\<close>

definition set_paths :: "Impl \<Rightarrow> Impl" where
  "set_paths db = db
     \<lparr>valuePath := path_join (directory db) ''values.lumov'',
      indexPath := path_join (directory db) ''index.lumoi'',
      rowIndexPath := path_join (directory db) ''row_index.lumori''\<rparr>"

text \<open>The four files in their order; a step that fails closes what was opened.\<close>

definition open_files :: "os \<Rightarrow> Impl \<Rightarrow> (Status \<times> Impl) option" where
  "open_files os db =
     (case OpenValueFile os db of
        None \<Rightarrow> None
      | Some (status, db1) \<Rightarrow>
          if \<not> IsOk status then Some (status, CloseFiles db1)
          else case OpenIndexFile os db1 of
              None \<Rightarrow> None
            | Some (status, db2) \<Rightarrow>
                if \<not> IsOk status then Some (status, CloseFiles db2)
                else
                  let (status, db3) = OpenRowValueFiles os db2 in
                  if \<not> IsOk status then Some (status, CloseFiles db3)
                  else case OpenRowIndexFile os db3 of
                      None \<Rightarrow> None
                    | Some (status, db4) \<Rightarrow>
                        if \<not> IsOk status then Some (status, CloseFiles db4)
                        else Some (Ok, db4\<lparr>opened := True\<rparr>))"

text \<open>The directory has to exist for a read-only open and is made otherwise.\<close>

definition prepare_directory :: "os \<Rightarrow> Impl \<Rightarrow> Status \<times> fs" where
  "prepare_directory os db =
     (if readOnly db
      then (if \<not> dirs (filesys db) (directory db)
            then InvalidArgument (''database directory does not exist: '' @ directory db) else Ok,
            filesys db)
      else EnsureDirectory os (filesys db) (directory db))"

definition OpenInternal ::
  "os \<Rightarrow> Impl \<Rightarrow> string \<Rightarrow> DatabaseOptions \<Rightarrow> bool \<Rightarrow> (Status \<times> Impl) option" where
  "OpenInternal os db dir opts read_only =
     (let (status, db0) = (if opened db then Close os db else (Ok, db)) in
      if \<not> IsOk status then Some (status, db0)
      else if dle (maxLoadFactor opts) (Fin 0) \<or> dge (maxLoadFactor opts) (Fin (fl (95 / 100)))
      then Some (InvalidArgument ''maxLoadFactor must be in (0.0, 0.95)'', db0)
      else
        let db1 = db0\<lparr>directory := dir, options := opts, readOnly := read_only, rowPendingInsertCount := 0\<rparr> in
        case RoundUpPowerOfTwo (initialBucketCount (options db1)) of
          None \<Rightarrow> None
        | Some bucketCount \<Rightarrow>
            (case RoundUpPowerOfTwo (initialRowBucketCount (options db1)) of
               None \<Rightarrow> None
             | Some rowBucketCount \<Rightarrow>
                 let db2 = db1\<lparr>options := (options db1)
                       \<lparr>initialBucketCount := bucketCount, initialRowBucketCount := rowBucketCount\<rparr>\<rparr>
                 in if rowShardCount (options db2) = 0
                    then Some (InvalidArgument ''rowShardCount must be greater than zero'', db2)
                    else
                      let (status, fs) = prepare_directory os db2 in
                      if \<not> IsOk status then Some (status, db2\<lparr>filesys := fs\<rparr>)
                         else open_files os (set_paths (db2\<lparr>filesys := fs\<rparr>))))"

definition Open :: "os \<Rightarrow> Impl \<Rightarrow> string \<Rightarrow> DatabaseOptions \<Rightarrow> (Status \<times> Impl) option" where
  "Open os db dir opts = OpenInternal os db dir opts False"

definition OpenReadOnly :: "os \<Rightarrow> Impl \<Rightarrow> string \<Rightarrow> DatabaseOptions \<Rightarrow> (Status \<times> Impl) option" where
  "OpenReadOnly os db dir opts = OpenInternal os db dir opts True"

text \<open>The state of a newly constructed \<open>Impl\<close>, which sees the files of the process.\<close>

definition Impl_default :: "fs \<Rightarrow> Impl" where
  "Impl_default fs =
     \<lparr>filesys = fs, directory = '''', valuePath = '''', indexPath = '''', rowIndexPath = '''',
      options = DatabaseOptions_default, valueFile = None, indexFile = None, rowIndexFile = None,
      valueMap = Unmapped, indexMap = Unmapped, rowIndexMap = Unmapped, rowValueFiles = [], rowValueMaps = [],
      rowAppendOffsets = [], rowPendingInsertCount = 0, appendOffset = 0, opened = False, readOnly = False\<rparr>"

subsection \<open>The invariant of an open database\<close>

definition paths_set :: "Impl \<Rightarrow> bool" where
  "paths_set db \<longleftrightarrow>
     valuePath db = path_join (directory db) ''values.lumov'' \<and>
     indexPath db = path_join (directory db) ''index.lumoi'' \<and>
     rowIndexPath db = path_join (directory db) ''row_index.lumori''"

lemma path_join_inject [simp]: "path_join dir a = path_join dir b \<longleftrightarrow> a = b"
  by (simp add: path_join_def)

lemma paths_distinct:
  assumes "paths_set db"
  shows "valuePath db \<noteq> indexPath db" "valuePath db \<noteq> rowIndexPath db" "indexPath db \<noteq> rowIndexPath db"
    "valuePath db \<noteq> shard_path db s" "indexPath db \<noteq> shard_path db s" "rowIndexPath db \<noteq> shard_path db s"
  using assms by (simp_all add: paths_set_def shard_path_def RowValuePath_def)

text \<open>
  Both stores are in order, no failed write has left a tail or a hole, and the open files are the
  files of the directory.
\<close>

definition database_ok :: "Impl \<Rightarrow> bool" where
  "database_ok db \<longleftrightarrow>
     object_ok db \<and> object_log_ok db \<and> no_tail db \<and> row_ok db \<and> row_log_ok db \<and>
     paths_set db \<and> dirs (filesys db) (directory db) \<and>
     valueFile db = Some (valuePath db) \<and> indexFile db = Some (indexPath db) \<and>
     rowIndexFile db = Some (rowIndexPath db) \<and> 0 < rowShardCount (options db) \<and>
     rowValueFiles db = map (\<lambda>s. Some (shard_path db s)) [0..<unat (rowShardCount (options db))]"

text \<open>
  Without the order of the blocks in the shard files, which several threads may have mixed: enough for
  closing the database and reading it again, though not for rebuilding its row index.
\<close>

definition database_sound :: "Impl \<Rightarrow> bool" where
  "database_sound db \<longleftrightarrow>
     object_ok db \<and> object_log_ok db \<and> no_tail db \<and> row_ok db \<and>
     (\<forall>s < unat (rowShardCount (options db)). row_value_header_ok (row_bytes db s)) \<and>
     paths_set db \<and> dirs (filesys db) (directory db) \<and>
     valueFile db = Some (valuePath db) \<and> indexFile db = Some (indexPath db) \<and>
     rowIndexFile db = Some (rowIndexPath db) \<and> 0 < rowShardCount (options db) \<and>
     rowValueFiles db = map (\<lambda>s. Some (shard_path db s)) [0..<unat (rowShardCount (options db))]"

lemma database_ok_sound:
  assumes "database_ok db"
  shows "database_sound db"
proof -
  obtain logs where logs: "shard_logs (shards_of db) logs" using assms by (auto simp: database_ok_def row_log_ok_def)
  have "length (rowValueFiles db) = unat (rowShardCount (options db))" using assms by (simp add: database_ok_def)
  then have "row_value_header_ok (row_bytes db s)" if "s < unat (rowShardCount (options db))" for s
    using list_all2_nthD [OF logs [unfolded shard_logs_def], of s] that by simp
  then show ?thesis using assms by (simp add: database_ok_def database_sound_def)
qed

subsection \<open>The files a database can be opened on\<close>

definition object_index_usable :: "Impl \<Rightarrow> (bytes \<times> bytes \<times> bytes) list \<Rightarrow> bool" where
  "object_index_usable db rs \<longleftrightarrow>
     (\<exists>v. files (filesys db) (indexPath db) = Some (encode_object_index v) \<and>
        object_index_ok (value_contents db) v \<and> 16 \<le> length (oi_buckets v) \<and>
        object_map (value_contents db) (oi_buckets v) = replay rs (\<lambda>_. None))"

definition object_index_lost :: "Impl \<Rightarrow> (bytes \<times> bytes \<times> bytes) list \<Rightarrow> bool" where
  "object_index_lost db rs \<longleftrightarrow>
     index_file_unusable db \<and>
     (\<exists>j. initialBucketCount (options db) = 2 ^ j \<and> 4 \<le> j \<and> j \<le> 58 \<and>
        index_capacity (options db) (empty_index (2 ^ j)) (length rs))"

definition row_index_usable :: "Impl \<Rightarrow> row_block list list \<Rightarrow> bool" where
  "row_index_usable db logs \<longleftrightarrow>
     (\<exists>v. files (filesys db) (rowIndexPath db) = Some (encode_row_index v) \<and>
        row_index_ok (shard_contents db) v \<and>
        rows_map (shard_contents db) (ri_buckets v) = replay_rows (concat logs) (\<lambda>_. None))"

definition row_index_lost :: "Impl \<Rightarrow> row_block list list \<Rightarrow> bool" where
  "row_index_lost db logs \<longleftrightarrow>
     row_index_file_unusable db \<and>
     (\<exists>j. initialRowBucketCount (options db) = 2 ^ j \<and> 4 \<le> j \<and> j \<le> 56 \<and>
        row_capacity (options db) (empty_row_index (2 ^ j) (rowShardCount (options db))) (length (concat logs)))"

text \<open>The value files hold the logs; each index file is valid or of no use at all.\<close>

definition stored_logs :: "os \<Rightarrow> Impl \<Rightarrow> (bytes \<times> bytes \<times> bytes) list \<Rightarrow> row_block list list \<Rightarrow> bool" where
  "stored_logs os db rs logs \<longleftrightarrow>
     object_files_openable os db \<and> row_files_openable os db \<and> paths_set db \<and> dirs (filesys db) (directory db) \<and>
     records_from (value_contents db) 24 = Some rs \<and> shard_logs (shard_contents db) logs \<and> logs_placed logs \<and>
     (object_index_usable db rs \<or> object_index_lost db rs) \<and>
     (row_index_usable db logs \<or> row_index_lost db logs)"

subsection \<open>Opening brings the logs back\<close>

lemma open_objects:
  assumes os: "calls_ok os" "reads_ok os" and db: "object_files_openable os db"
    and rs: "records_from (value_contents db) 24 = Some rs"
    and ix: "object_index_usable db rs \<or> object_index_lost db rs"
  shows "\<exists>db'. open_object_files os db = Some (Ok, db') \<and> object_ok (db'\<lparr>opened := True\<rparr>) \<and>
    objects (db'\<lparr>opened := True\<rparr>) = replay rs (\<lambda>_. None) \<and> object_log_ok (db'\<lparr>opened := True\<rparr>) \<and>
    log_bytes (db'\<lparr>opened := True\<rparr>) = value_contents db \<and> object_open_frame db db' \<and>
    valueFile db' = Some (valuePath db) \<and> indexFile db' = Some (indexPath db) \<and> no_tail db'"
proof -
  have "\<exists>db'. open_object_files os db = Some (Ok, db') \<and> object_ok (db'\<lparr>opened := True\<rparr>) \<and>
    objects (db'\<lparr>opened := True\<rparr>) = replay rs (\<lambda>_. None) \<and> log_bytes db' = value_contents db \<and>
    object_open_frame db db' \<and>
    valueFile db' = Some (valuePath db) \<and> indexFile db' = Some (indexPath db) \<and> no_tail db'"
    using ix
  proof
    assume "object_index_usable db rs"
    then show ?thesis unfolding object_index_usable_def using open_object_files_valid [OF os db] by metis
  next
    assume "object_index_lost db rs"
    then show ?thesis unfolding object_index_lost_def using open_object_files_rebuild [OF os db _ rs] by blast
  qed
  moreover have "value_header_ok (value_contents db)" using db by (simp add: object_files_openable_def)
  ultimately show ?thesis using rs by (auto simp: object_log_ok_def)
qed

lemma open_rows:
  assumes os: "calls_ok os" "reads_ok os" and db: "row_files_openable os db"
    and logs: "shard_logs (shard_contents db) logs" "logs_placed logs"
    and ix: "row_index_usable db logs \<or> row_index_lost db logs"
  shows "\<exists>db'. open_row_files os db = Some (Ok, db') \<and> row_ok (db'\<lparr>opened := True\<rparr>) \<and>
    rows (db'\<lparr>opened := True\<rparr>) = replay_rows (concat logs) (\<lambda>_. None) \<and> row_log_ok (db'\<lparr>opened := True\<rparr>) \<and>
    shards_of (db'\<lparr>opened := True\<rparr>) = shard_contents db \<and> (row_index_lost db logs \<longrightarrow> unat (initialRowBucketCount (options db)) \<le> length (RowBuckets db')) \<and>
    row_open_frame db db' \<and> row_shards_open (shard_contents db) db' \<and> rowIndexFile db' = Some (rowIndexPath db)"
proof -
  obtain db' where r: "open_row_files os db = Some (Ok, db')" "row_ok (db'\<lparr>opened := True\<rparr>)"
    "rows (db'\<lparr>opened := True\<rparr>) = replay_rows (concat logs) (\<lambda>_. None)" "shards_of (db'\<lparr>opened := True\<rparr>) = shard_contents db"
    "row_shards_open (shard_contents db) db'" "row_open_frame db db'" "rowIndexFile db' = Some (rowIndexPath db)"
    "row_index_lost db logs \<longrightarrow> unat (initialRowBucketCount (options db)) \<le> length (RowBuckets db')"
  proof (cases "row_index_lost db logs")
    case False
    then obtain v where "files (filesys db) (rowIndexPath db) = Some (encode_row_index v)"
        "row_index_ok (shard_contents db) v"
        "rows_map (shard_contents db) (ri_buckets v) = replay_rows (concat logs) (\<lambda>_. None)"
      using ix unfolding row_index_usable_def by blast
    then show ?thesis using open_row_files_valid [OF os db] that False by (metis (no_types))
  next
    case True
    then obtain j where j: "row_index_file_unusable db" "initialRowBucketCount (options db) = 2 ^ j" "4 \<le> j" "j \<le> 56"
        "row_capacity (options db) (empty_row_index (2 ^ j) (rowShardCount (options db))) (length (concat logs))"
      unfolding row_index_lost_def by blast
    moreover have "unat (initialRowBucketCount (options db)) = 2 ^ j" using calculation(2,4) by (simp add: unat_pow2)
    ultimately show ?thesis using open_row_files_rebuild [OF os db _ logs(1)] that by metis
  qed
  have "unat (rowAppendOffsets db' ! s) = length (row_bytes (db'\<lparr>opened := True\<rparr>) s)"
    if s: "s < length (rowValueFiles db')" for s
  proof -
    let ?S = "shard_contents db"
    have n: "s < length ?S" using s row_shards_open_bytes(4) [OF r(5)] by simp
    have "row_bytes (db'\<lparr>opened := True\<rparr>) s = row_bytes db' s" by (simp add: row_bytes_def)
    then have "row_bytes (db'\<lparr>opened := True\<rparr>) s = ?S ! s"
      using row_shards_open_bytes(1) [OF r(5) n] by simp
    moreover have "rowAppendOffsets db' ! s = of_nat (length (?S ! s))" "length (?S ! s) < 2 ^ 63"
      using r(5) n by (simp_all add: row_shards_open_def)
    ultimately show ?thesis by (simp add: unat_of_nat64)
  qed
  then have "row_log_ok (db'\<lparr>opened := True\<rparr>)"
    unfolding row_log_ok_def r(3,4) using logs by auto
  then show ?thesis using r by blast
qed

text \<open>The two halves do not meet: each leaves the files and the state of the other alone.\<close>

lemma object_open_frame_rows:
  assumes fr: "object_open_frame db db'" and paths: "paths_set db"
  shows "directory db' = directory db" "options db' = options db" "rowIndexPath db' = rowIndexPath db"
    "valuePath db' = valuePath db" "indexPath db' = indexPath db" "dirs (filesys db') = dirs (filesys db)"
    "readOnly db' = readOnly db" "opened db' = opened db"
    "shard_contents db' = shard_contents db" "row_files_openable os db' = row_files_openable os db"
    "row_index_usable db' logs = row_index_usable db logs" "row_index_lost db' logs = row_index_lost db logs"
proof -
  obtain fs fd ifd m off where d: "db' = db\<lparr>filesys := fs, valueFile := fd, indexFile := ifd, indexMap := m, appendOffset := off\<rparr>"
      "dirs fs = dirs (filesys db)" "\<forall>p. p \<noteq> valuePath db \<and> p \<noteq> indexPath db \<longrightarrow> files fs p = files (filesys db) p"
    using fr unfolding object_open_frame_def by blast
  note pd = paths_distinct [OF paths]
  show f: "directory db' = directory db" "options db' = options db" "rowIndexPath db' = rowIndexPath db"
    "valuePath db' = valuePath db" "indexPath db' = indexPath db" "dirs (filesys db') = dirs (filesys db)"
    "readOnly db' = readOnly db" "opened db' = opened db"
    by (simp_all add: d)
  have sp: "shard_path db' s = shard_path db s" for s by (simp add: shard_path_def f)
  have fs: "files (filesys db') (shard_path db s) = files (filesys db) (shard_path db s)"
    "files (filesys db') (rowIndexPath db) = files (filesys db) (rowIndexPath db)" for s
    using d(3) pd(4,5) [of s] pd(2,3) by (simp_all add: d(1))
  then have fc: "file_content (filesys db') (shard_path db s) = file_content (filesys db) (shard_path db s)" for s
    by (simp add: file_content_def)
  show sc: "shard_contents db' = shard_contents db" by (simp add: shard_contents_def f sp fc)
  have pm: "rowPendingInsertCount db' = rowPendingInsertCount db" "rowIndexMap db' = rowIndexMap db" by (simp_all add: d)
  show "row_files_openable os db' = row_files_openable os db"
    by (simp add: row_files_openable_def f sp fc pm)
  show "row_index_usable db' logs = row_index_usable db logs" by (simp add: row_index_usable_def f fs sc)
  have "HasValidRowIndexLayout (db'\<lparr>rowIndexMap := m\<rparr>) k = HasValidRowIndexLayout (db\<lparr>rowIndexMap := m\<rparr>) k" for m k
    by (rule HasValidRowIndexLayout_cong) (simp_all add: f)
  then show "row_index_lost db' logs = row_index_lost db logs"
    by (simp add: row_index_lost_def row_index_file_unusable_def f fs cong: option.case_cong)
qed

lemma row_open_frame_objects:
  assumes fr: "row_open_frame db db'" and paths: "paths_set db"
    and vf: "valueFile db = Some (valuePath db)"
  shows "same_objects db db'" "directory db' = directory db" "options db' = options db" "paths_set db'"
    "valuePath db' = valuePath db" "indexPath db' = indexPath db" "rowIndexPath db' = rowIndexPath db"
    "dirs (filesys db') = dirs (filesys db)" "valueFile db' = valueFile db" "indexFile db' = indexFile db"
proof -
  obtain fs fds maps offs ifd m where d: "db' = db\<lparr>filesys := fs, rowValueFiles := fds, rowValueMaps := maps,
        rowAppendOffsets := offs, rowIndexFile := ifd, rowIndexMap := m\<rparr>" "dirs fs = dirs (filesys db)"
      "\<forall>p. p \<noteq> rowIndexPath db \<and> p \<notin> shard_path db ` {..<unat (rowShardCount (options db))} \<longrightarrow>
           files fs p = files (filesys db) p"
    using fr unfolding row_open_frame_def by blast
  show "directory db' = directory db" "options db' = options db" "paths_set db'"
    "valuePath db' = valuePath db" "indexPath db' = indexPath db" "rowIndexPath db' = rowIndexPath db"
    "dirs (filesys db') = dirs (filesys db)" "valueFile db' = valueFile db" "indexFile db' = indexFile db"
    using paths d(2) by (simp_all add: d(1) paths_set_def)
  have "valuePath db \<notin> shard_path db ` {..<unat (rowShardCount (options db))}"
    using paths_distinct(4) [OF paths] by auto
  then have "files fs (valuePath db) = files (filesys db) (valuePath db)"
    using d(3) paths_distinct(2) [OF paths] by simp
  then have "value_bytes db' = value_bytes db"
    by (simp add: value_bytes_def d(1) vf file_content_def cong: option.case_cong)
  then show "same_objects db db'" by (simp add: same_objects_def d(1))
qed

lemma row_open_frame_opened:
  assumes "row_open_frame db db'"
  shows "row_open_frame (db\<lparr>opened := True\<rparr>) (db'\<lparr>opened := True\<rparr>)"
proof -
  obtain fs fds maps offs ifd m where d: "db' = db\<lparr>filesys := fs, rowValueFiles := fds, rowValueMaps := maps,
        rowAppendOffsets := offs, rowIndexFile := ifd, rowIndexMap := m\<rparr>" "dirs fs = dirs (filesys db)"
      "\<forall>p. p \<noteq> rowIndexPath db \<and> p \<notin> shard_path db ` {..<unat (rowShardCount (options db))} \<longrightarrow>
           files fs p = files (filesys db) p"
    using assms unfolding row_open_frame_def by blast
  show ?thesis
    by (rule row_open_frameI [where fs = fs and fds = fds and maps = maps and offs = offs and ifd = ifd and m = m])
      (use d in \<open>auto simp: shard_path_def\<close>)
qed

text \<open>All four files: on stored logs an open succeeds and yields the two maps the logs replay to.\<close>

lemma open_files_ok:
  assumes os: "calls_ok os" "reads_ok os" and db: "stored_logs os db rs logs"
  shows "\<exists>db'. open_files os db = Some (Ok, db') \<and> database_ok db' \<and>
    objects db' = replay rs (\<lambda>_. None) \<and> rows db' = replay_rows (concat logs) (\<lambda>_. None) \<and>
    options db' = options db \<and> directory db' = directory db \<and>
    value_bytes db' = value_contents db \<and> shards_of db' = shard_contents db \<and>
    (row_index_lost db logs \<longrightarrow> unat (initialRowBucketCount (options db)) \<le> length (RowBuckets db'))"
proof -
  have paths: "paths_set db" using db by (simp add: stored_logs_def)
  obtain db1 where a: "open_object_files os db = Some (Ok, db1)" "object_ok (db1\<lparr>opened := True\<rparr>)"
    "objects (db1\<lparr>opened := True\<rparr>) = replay rs (\<lambda>_. None)" "object_log_ok (db1\<lparr>opened := True\<rparr>)"
    "object_open_frame db db1" "valueFile db1 = Some (valuePath db)" "indexFile db1 = Some (indexPath db)" "no_tail db1"
    "log_bytes (db1\<lparr>opened := True\<rparr>) = value_contents db"
    using open_objects [OF os, of db rs] db unfolding stored_logs_def by blast
  note f = object_open_frame_rows [OF a(5) paths]
  have paths1: "paths_set db1" using paths f by (simp add: paths_set_def)
  obtain db2 where b: "open_row_files os db1 = Some (Ok, db2)" "row_ok (db2\<lparr>opened := True\<rparr>)"
    "rows (db2\<lparr>opened := True\<rparr>) = replay_rows (concat logs) (\<lambda>_. None)" "row_log_ok (db2\<lparr>opened := True\<rparr>)"
    "row_open_frame db1 db2" "row_shards_open (shard_contents db1) db2" "rowIndexFile db2 = Some (rowIndexPath db1)"
    "shards_of (db2\<lparr>opened := True\<rparr>) = shard_contents db" "row_index_lost db logs \<longrightarrow> unat (initialRowBucketCount (options db)) \<le> length (RowBuckets db2)"
    using open_rows [OF os, of db1 logs] db unfolding stored_logs_def f by blast
  have vf: "valueFile db1 = Some (valuePath db1)" using a(6) f by simp
  define db' where "db' = db2\<lparr>opened := True\<rparr>"
  have "paths_set (db1\<lparr>opened := True\<rparr>)" using paths1 by (simp add: paths_set_def)
  note same = row_open_frame_objects(1) [OF row_open_frame_opened [OF b(5)] this, folded db'_def, simplified, OF vf]
  note g = row_open_frame_objects(2-) [OF b(5) paths1 vf]
  obtain sv dbv where v: "OpenValueFile os db = Some (sv, dbv)" "IsOk sv" "OpenIndexFile os dbv = Some (Ok, db1)"
    using a(1) by (auto simp: open_object_files_def split: option.splits if_splits)
  obtain sr dbr where r: "OpenRowValueFiles os db1 = (sr, dbr)" "IsOk sr" "OpenRowIndexFile os dbr = Some (Ok, db2)"
    using b(1) by (auto simp: open_row_files_def split: prod.splits if_splits)
  have "open_files os db = Some (Ok, db')"
    by (simp add: open_files_def v r db'_def)
  moreover have o: "object_ok db'" "object_log_ok db'" "objects db' = replay rs (\<lambda>_. None)"
    using a(2,3,4) by (simp_all add: same_objects [OF same] object_log_ok_def)
  moreover have "no_tail (db1\<lparr>opened := True\<rparr>)" using a(8) by (simp add: no_tail_def value_bytes_def cong: option.case_cong)
  then have nt: "no_tail db'" by (simp add: same_objects [OF same])
  moreover have "value_bytes db' = value_contents db"
    using same_objects(3) [OF same] a(9) nt by (simp add: log_bytes_def no_tail_def)
  moreover have "RowBuckets db' = RowBuckets db2" by (simp add: db'_def RowBuckets_def)
  moreover have "paths_set db'" "dirs (filesys db') (directory db')" "valueFile db' = Some (valuePath db')"
    "indexFile db' = Some (indexPath db')" "rowIndexFile db' = Some (rowIndexPath db')"
    "options db' = options db" "directory db' = directory db"
    using paths db a(6,7) b(7) f g by (simp_all add: db'_def paths_set_def stored_logs_def)
  moreover have "rowValueFiles db' = map (\<lambda>s. Some (shard_path db' s)) [0..<unat (rowShardCount (options db'))]"
    "0 < unat (rowShardCount (options db'))"
    using b(6) by (simp_all add: row_shards_open_def db'_def shard_path_def)
  ultimately show ?thesis using b(2-4,8,9) by (intro exI [of _ db']) (simp add: database_ok_def db'_def unat_gt_0 word_neq_0_conv)
qed

subsection \<open>What closing leaves behind\<close>

text \<open>The value files of a closed database, in a state that is about to open them again.\<close>

definition values_at_rest :: "Impl \<Rightarrow> Impl \<Rightarrow> bool" where
  "values_at_rest db db0 \<longleftrightarrow>
     \<not> readOnly db0 \<and> paths_set db0 \<and> directory db0 = directory db \<and> dirs (filesys db0) (directory db) \<and>
     rowShardCount (options db0) = rowShardCount (options db) \<and>
     indexMap db0 = Unmapped \<and> valueMap db0 = Unmapped \<and> rowIndexMap db0 = Unmapped \<and>
     rowPendingInsertCount db0 = 0 \<and>
     files (filesys db0) (valuePath db) = Some (value_bytes db) \<and>
     (\<forall>s < unat (rowShardCount (options db)). files (filesys db0) (shard_path db s) = Some (row_bytes db s))"

lemma sound_CloseFiles:
  assumes db: "database_sound db" and v: "mapped_data (indexMap db) = Some v" and w: "mapped_data (rowIndexMap db) = Some w"
  shows "files (filesys (CloseFiles db)) =
      (files (filesys db))(rowIndexPath db \<mapsto> encode_row_index w, indexPath db \<mapsto> encode_object_index v)"
    and "dirs (filesys (CloseFiles db)) = dirs (filesys db)"
    and "indexMap (CloseFiles db) = Unmapped" "valueMap (CloseFiles db) = Unmapped"
    "rowIndexMap (CloseFiles db) = Unmapped" "rowPendingInsertCount (CloseFiles db) = 0"
    "valueFile (CloseFiles db) = None" "indexFile (CloseFiles db) = None" "rowIndexFile (CloseFiles db) = None"
proof -
  have f: "indexFile db = Some (indexPath db)" "mapped_writable (indexMap db)"
    "rowIndexFile db = Some (rowIndexPath db)" "mapped_writable (rowIndexMap db)"
    using db by (auto simp: database_sound_def object_ok_def row_ok_def row_core_ok_def)
  have "unmap_row_index (db\<lparr>rowValueMaps := []\<rparr>) = db\<lparr>rowValueMaps := [],
      filesys := set_file (filesys db) (rowIndexPath db) (encode_row_index w), rowIndexMap := Unmapped\<rparr>"
    using f w by (simp add: unmap_row_index_def)
  then show "files (filesys (CloseFiles db)) =
      (files (filesys db))(rowIndexPath db \<mapsto> encode_row_index w, indexPath db \<mapsto> encode_object_index v)"
    and "dirs (filesys (CloseFiles db)) = dirs (filesys db)"
    and "indexMap (CloseFiles db) = Unmapped" "valueMap (CloseFiles db) = Unmapped"
    "rowIndexMap (CloseFiles db) = Unmapped" "rowPendingInsertCount (CloseFiles db) = 0"
    "valueFile (CloseFiles db) = None" "indexFile (CloseFiles db) = None" "rowIndexFile (CloseFiles db) = None"
    using f v by (simp_all add: CloseFiles_def Let_def unmap_index_def set_file_def)
qed

lemmas CloseFiles_files = sound_CloseFiles [OF database_ok_sound]

text \<open>The two value stores of an open database are on their files, with content in the right form.\<close>

lemma sound_value_bytes:
  assumes db: "database_sound db"
  shows "files (filesys db) (valuePath db) = Some (value_bytes db)" "value_bytes db \<noteq> []"
    "value_header_ok (value_bytes db)" "length (value_bytes db) < 2 ^ 63" "log_bytes db = value_bytes db"
proof -
  show log: "log_bytes db = value_bytes db" using db by (simp add: database_sound_def log_bytes_def no_tail_def)
  show hdr: "value_header_ok (value_bytes db)" using db log by (simp add: database_sound_def object_log_ok_def)
  then show ne: "value_bytes db \<noteq> []" by (auto simp: value_header_ok_def)
  show "length (value_bytes db) < 2 ^ 63" using db by (simp add: database_sound_def object_ok_def)
  have "mapped_data (valueMap db) = None" "valueFile db = Some (valuePath db)"
    using db by (simp_all add: database_sound_def object_ok_def)
  then have "value_bytes db = file_content (filesys db) (valuePath db)" by (simp add: value_bytes_def)
  with ne show "files (filesys db) (valuePath db) = Some (value_bytes db)"
    by (auto simp: file_content_def split: option.splits)
qed

lemmas database_value_bytes = sound_value_bytes [OF database_ok_sound]

lemma sound_row_bytes:
  assumes db: "database_sound db" and s: "s < unat (rowShardCount (options db))"
  shows "files (filesys db) (shard_path db s) = Some (row_bytes db s)" "row_bytes db s \<noteq> []"
    "row_value_header_ok (row_bytes db s)" "length (row_bytes db s) < 2 ^ 63"
proof -
  have n: "length (rowValueFiles db) = unat (rowShardCount (options db))" "rowValueFiles db ! s = Some (shard_path db s)"
    using db s by (simp_all add: database_sound_def)
  have core: "row_core_ok db" using db by (simp add: database_sound_def row_ok_def)
  show hdr: "row_value_header_ok (row_bytes db s)" using db s by (simp add: database_sound_def)
  then show ne: "row_bytes db s \<noteq> []" by (auto simp: row_value_header_ok_def)
  show "length (row_bytes db s) < 2 ^ 63" using core s n(1) unfolding row_core_ok_def by (metis le_less_trans)
  have "\<not> (s < length (rowValueMaps db) \<and> IsMapped (rowValueMaps db ! s))"
    using core by (auto simp: row_core_ok_def)
  then have "row_bytes db s = file_content (filesys db) (shard_path db s)" using n by (auto simp: row_bytes_def)
  with ne show "files (filesys db) (shard_path db s) = Some (row_bytes db s)"
    by (auto simp: file_content_def split: option.splits)
qed

lemmas database_row_bytes = sound_row_bytes [OF database_ok_sound]

lemma values_at_rest_contents:
  assumes db: "database_ok db" and rest: "values_at_rest db db0"
  shows "value_contents db0 = value_bytes db" and "shard_contents db0 = shards_of db"
    and "object_files_openable os db0" and "row_files_openable os db0"
proof -
  have p: "valuePath db0 = valuePath db" "indexPath db0 = indexPath db" "rowIndexPath db0 = rowIndexPath db"
    using db rest by (simp_all add: database_ok_def values_at_rest_def paths_set_def)
  have sp: "shard_path db0 s = shard_path db s" for s using rest by (simp add: shard_path_def values_at_rest_def)
  have n: "rowShardCount (options db0) = rowShardCount (options db)" "0 < rowShardCount (options db)"
    "length (rowValueFiles db) = unat (rowShardCount (options db))"
    using db rest by (simp_all add: values_at_rest_def database_ok_def)
  have fc: "file_content (filesys db0) (valuePath db) = value_bytes db"
    "s < unat (rowShardCount (options db)) \<Longrightarrow> file_content (filesys db0) (shard_path db s) = row_bytes db s" for s
    using rest by (simp_all add: values_at_rest_def file_content_Some)
  note vb = database_value_bytes [OF db] and rb = database_row_bytes [OF db]
  show vc: "value_contents db0 = value_bytes db" using vb(2) by (simp add: value_contents_def p fc)
  show "shard_contents db0 = shards_of db"
    unfolding shard_contents_def shards_of_def n(1,3)
    by (rule map_cong) (simp_all add: sp fc opened_shard_def rb(2))
  have paths: "paths_set db" using db by (simp add: database_ok_def)
  note pd = paths_distinct [OF paths]
  show "object_files_openable os db0"
    using rest vb pd(1) by (simp add: object_files_openable_def values_at_rest_def vc p fc) (simp add: Unmapped_def)
  show "row_files_openable os db0"
    using rest rb pd(6) n by (simp add: row_files_openable_def values_at_rest_def p sp fc shard_openable_def)
qed

subsection \<open>Open\<close>

text \<open>The options \<open>OpenInternal\<close> accepts, and the state in which it opens the first file.\<close>

definition options_ok :: "DatabaseOptions \<Rightarrow> bool" where
  "options_ok opts \<longleftrightarrow>
     \<not> dle (maxLoadFactor opts) (Fin 0) \<and> \<not> dge (maxLoadFactor opts) (Fin (fl (95 / 100))) \<and>
     rowShardCount opts \<noteq> 0 \<and> unat (initialBucketCount opts) \<le> 2 ^ 63 \<and> unat (initialRowBucketCount opts) \<le> 2 ^ 63"

definition rounded_options :: "DatabaseOptions \<Rightarrow> DatabaseOptions" where
  "rounded_options opts = opts
     \<lparr>initialBucketCount := the (RoundUpPowerOfTwo (initialBucketCount opts)),
      initialRowBucketCount := the (RoundUpPowerOfTwo (initialRowBucketCount opts))\<rparr>"

definition start_open :: "Impl \<Rightarrow> string \<Rightarrow> DatabaseOptions \<Rightarrow> bool \<Rightarrow> Impl" where
  "start_open db dir opts read_only = set_paths (db
     \<lparr>filesys := (filesys db)\<lparr>dirs := (dirs (filesys db))(dir := True)\<rparr>, directory := dir,
      options := rounded_options opts, readOnly := read_only, rowPendingInsertCount := 0\<rparr>)"

lemma opening_simps [simp]:
  "files (filesys (start_open db dir opts ro)) = files (filesys db)" "dirs (filesys (start_open db dir opts ro)) dir"
  "directory (start_open db dir opts ro) = dir" "options (start_open db dir opts ro) = rounded_options opts"
  "readOnly (start_open db dir opts ro) = ro" "rowPendingInsertCount (start_open db dir opts ro) = 0"
  "indexMap (start_open db dir opts ro) = indexMap db" "valueMap (start_open db dir opts ro) = valueMap db"
  "rowIndexMap (start_open db dir opts ro) = rowIndexMap db" "paths_set (start_open db dir opts ro)"
  "rowShardCount (rounded_options opts) = rowShardCount opts"
  by (simp_all add: start_open_def set_paths_def rounded_options_def paths_set_def)

lemma RoundUp_Some: "unat v \<le> 2 ^ 63 \<Longrightarrow> RoundUpPowerOfTwo v = Some (the (RoundUpPowerOfTwo v))"
  by (rule RoundUpPowerOfTwo_cases [of v]) simp_all

lemma OpenInternal_starts:
  assumes os: "calls_ok os" and closed: "\<not> opened db" and opts: "options_ok opts"
    and dir: "dirs (filesys db) dir \<or> \<not> ro \<and> files (filesys db) dir = None"
  shows "OpenInternal os db dir opts ro = open_files os (start_open db dir opts ro)"
proof -
  have same: "fs\<lparr>dirs := (dirs fs)(dir := True)\<rparr> = fs" if "dirs fs dir" for fs :: fs
    using that by (cases fs) (simp add: fun_upd_idem)
  obtain b rb where r: "RoundUpPowerOfTwo (initialBucketCount opts) = Some b"
      "RoundUpPowerOfTwo (initialRowBucketCount opts) = Some rb"
    using RoundUp_Some [of "initialBucketCount opts"] RoundUp_Some [of "initialRowBucketCount opts"] opts
    unfolding options_ok_def by blast
  have "EnsureDirectory os (filesys db) dir = (Ok, (filesys db)\<lparr>dirs := (dirs (filesys db))(dir := True)\<rparr>)" if "\<not> ro"
    using os dir that same [of "filesys db"] by (auto simp: EnsureDirectory_def calls_ok_def)
  then show ?thesis
    using closed opts dir r same [of "filesys db"]
    by (cases ro; cases db) (auto simp: OpenInternal_def prepare_directory_def options_ok_def start_open_def rounded_options_def)
qed

lemma Open_stored:
  assumes os: "calls_ok os" "reads_ok os" and closed: "\<not> opened db" and opts: "options_ok opts"
    and dir: "dirs (filesys db) dir \<or> files (filesys db) dir = None"
    and stored: "stored_logs os (start_open db dir opts False) rs logs"
  shows "\<exists>db'. Open os db dir opts = Some (Ok, db') \<and> database_ok db' \<and>
    objects db' = replay rs (\<lambda>_. None) \<and> rows db' = replay_rows (concat logs) (\<lambda>_. None) \<and>
    options db' = rounded_options opts \<and> directory db' = dir \<and>
    value_bytes db' = value_contents (start_open db dir opts False) \<and>
    shards_of db' = shard_contents (start_open db dir opts False) \<and>
    (row_index_lost (start_open db dir opts False) logs \<longrightarrow> unat (initialRowBucketCount (rounded_options opts)) \<le> length (RowBuckets db'))"
  using open_files_ok [OF os stored] OpenInternal_starts [OF os(1) closed opts, of dir False] dir
  by (simp add: Open_def)

text \<open>The index files of the database as they are, or of no use.\<close>

definition index_intact :: "Impl \<Rightarrow> Impl \<Rightarrow> bool" where
  "index_intact db db0 \<longleftrightarrow>
     (\<exists>v. mapped_data (indexMap db) = Some v \<and> files (filesys db0) (indexPath db) = Some (encode_object_index v))"

definition row_index_intact :: "Impl \<Rightarrow> Impl \<Rightarrow> bool" where
  "row_index_intact db db0 \<longleftrightarrow>
     (\<exists>v. mapped_data (rowIndexMap db) = Some v \<and> files (filesys db0) (rowIndexPath db) = Some (encode_row_index v))"

lemma values_at_rest_stored:
  assumes db: "database_ok db" and rest: "values_at_rest db db0"
    and records: "records_from (value_bytes db) 24 = Some rs"
    and logs: "shard_logs (shards_of db) logs" "logs_placed logs" "rows db = replay_rows (concat logs) (\<lambda>_. None)"
    and index: "index_intact db db0 \<or> object_index_lost db0 rs"
    and row_index: "row_index_intact db db0 \<or> row_index_lost db0 logs"
  shows "stored_logs os db0 rs logs" and "objects db = replay rs (\<lambda>_. None)"
proof -
  note c = values_at_rest_contents [OF db rest]
  have p: "indexPath db0 = indexPath db" "rowIndexPath db0 = rowIndexPath db" "paths_set db0"
      "dirs (filesys db0) (directory db0)"
    using db rest by (simp_all add: database_ok_def values_at_rest_def paths_set_def)
  show o: "objects db = replay rs (\<lambda>_. None)"
    using db records database_value_bytes(5) [OF db] by (auto simp: database_ok_def object_log_ok_def)
  have "object_index_usable db0 rs" if ii: "index_intact db db0"
  proof -
    have ok: "object_ok db" "no_tail db" using db by (simp_all add: database_ok_def)
    obtain v where v: "mapped_data (indexMap db) = Some v" "16 \<le> length (oi_buckets v)"
      "object_index_ok (value_bytes db) v"
      using ok by (auto simp: object_ok_def no_tail_def)
    have "objects db = object_map (value_bytes db) (oi_buckets v)"
      using object_ok_readable(2) [OF ok(1)] v(1) ok(2) by (simp add: Buckets_def no_tail_def)
    then show ?thesis using ii v o c(1) p by (auto simp: object_index_usable_def index_intact_def)
  qed
  moreover have "row_index_usable db0 logs" if ii: "row_index_intact db db0"
  proof -
    obtain v where v: "mapped_data (rowIndexMap db) = Some v" "row_index_ok (shards_of db) v"
      using db by (auto simp: database_ok_def row_ok_def row_core_ok_def)
    then have "rows db = rows_map (shards_of db) (ri_buckets v)" by (simp add: rows_def RowBuckets_def)
    then show ?thesis using ii v logs(3) c(2) p by (auto simp: row_index_usable_def row_index_intact_def)
  qed
  ultimately show "stored_logs os db0 rs logs"
    using c(3,4) p records logs index row_index by (simp add: stored_logs_def c(1,2)) blast
qed

end
