(* ===== verification/Database_Theorems.thy ===== *)
theory Database_Theorems
  imports Lifecycle
begin

text \<open>
  The life of a whole database: a directory without files opens as the empty database, closing and
  opening brings back both maps, also without the index files, and every way an open can end leaves
  the object either open or with nothing open.
\<close>

subsection \<open>Options\<close>

lemma fl_95_percent: "fl (95 / 100) < 1" "9 / 10 < fl (95 / 100)"
proof -
  have one: "\<lfloor>20 / 19 :: rat\<rfloor> = 1" by (simp add: floor_eq_iff)
  have len: "bitlen 1 = 1" using compute_bitlen [of 1] by simp
  have whole: "\<lfloor>19 / 20 * 9007199254740992 :: rat\<rfloor> = 8556839292003942" by (simp add: floor_eq_iff)
  have "round_even (19 / 20 * 9007199254740992) = 8556839292003942"
    unfolding round_even_def whole Let_def by simp
  then have "fl (95 / 100) = 8556839292003942 / 9007199254740992"
    by (simp add: fl_def round53_def Let_def one len)
  then show "fl (95 / 100) < 1" "9 / 10 < fl (95 / 100)" by simp_all
qed

text \<open>
  Options under which \<open>n\<close> more records fit an index: a finite load factor, and table sizes below
  the largest the files can have.
\<close>

definition options_fit :: "DatabaseOptions \<Rightarrow> nat \<Rightarrow> bool" where
  "options_fit opts n \<longleftrightarrow>
     options_ok opts \<and> unat (initialBucketCount opts) \<le> 2 ^ 58 \<and> unat (initialRowBucketCount opts) \<le> 2 ^ 56 \<and>
     (case maxLoadFactor opts of Fin f \<Rightarrow> n < 2 ^ 53 \<and> rat_of_nat n \<le> f * 2 ^ 56 | _ \<Rightarrow> False)"

lemma options_fit_mono: "options_fit opts n \<Longrightarrow> m \<le> n \<Longrightarrow> options_fit opts m"
  by (auto simp: options_fit_def split: double.splits)

lemma options_fitD:
  assumes "options_fit opts n"
  obtains f j rj where "maxLoadFactor opts = Fin f" "0 < f" "f < 1" "n < 2 ^ 53" "rat_of_nat n \<le> f * 2 ^ 56"
    "rat_of_nat n \<le> f * 2 ^ 58"
    "initialBucketCount (rounded_options opts) = 2 ^ j" "4 \<le> j" "j \<le> 58"
    "initialRowBucketCount (rounded_options opts) = 2 ^ rj" "4 \<le> rj" "rj \<le> 56"
proof -
  have fit: "options_ok opts" "unat (initialBucketCount opts) \<le> 2 ^ 58" "unat (initialRowBucketCount opts) \<le> 2 ^ 56"
    using assms by (simp_all add: options_fit_def)
  have top: "\<exists>j. RoundUpPowerOfTwo x = Some (2 ^ j) \<and> 4 \<le> j \<and> j \<le> k" if "unat x \<le> 2 ^ k" "4 \<le> k" "k \<le> 63" for x k
  proof -
    have "unat x \<le> 2 ^ 63" using that(1,3) power_increasing [of k 63 "2 :: nat"] by linarith
    then obtain j where j: "4 \<le> j" "RoundUpPowerOfTwo x = Some (2 ^ j)" "j = 4 \<or> 2 ^ (j - 1) < unat x"
      by (rule RoundUpPowerOfTwo_cases)
    have "j \<le> k" using j(3)
    proof
      assume "2 ^ (j - 1) < unat x"
      then have "(2 :: nat) ^ (j - 1) < 2 ^ k" using that(1) by (rule less_le_trans)
      then have "j - 1 < k" using power_strict_increasing_iff [of "2 :: nat"] by simp
      then show ?thesis by simp
    qed (use that(2) in simp)
    with j show ?thesis by blast
  qed
  obtain f where f: "maxLoadFactor opts = Fin f" "n < 2 ^ 53" "rat_of_nat n \<le> f * 2 ^ 56"
    using assms by (auto simp: options_fit_def split: double.splits)
  have pos: "0 < f" and below: "f < fl (95 / 100)" using fit(1) f(1) by (auto simp: options_ok_def dle_def)
  have "f < 1" using below fl_95_percent(1) by (rule less_trans)
  moreover have "rat_of_nat n \<le> f * 2 ^ 58"
    by (rule order_trans [OF f(3)]) (use pos in \<open>simp add: mult_left_mono\<close>)
  moreover obtain j where "RoundUpPowerOfTwo (initialBucketCount opts) = Some (2 ^ j)" "4 \<le> j" "j \<le> 58"
    using top [OF fit(2)] by auto
  moreover obtain rj where "RoundUpPowerOfTwo (initialRowBucketCount opts) = Some (2 ^ rj)" "4 \<le> rj" "rj \<le> 56"
    using top [OF fit(3)] by auto
  ultimately show ?thesis using that [of f j rj] f pos by (simp add: rounded_options_def)
qed

lemma maxLoadFactor_rounded [simp]: "maxLoadFactor (rounded_options opts) = maxLoadFactor opts"
  by (simp add: rounded_options_def)

text \<open>An index file of no use can then be rebuilt from the logs.\<close>

lemma object_index_lostI:
  assumes "options_fit opts (length rs)" and "options db = rounded_options opts" and "index_file_unusable db"
  shows "object_index_lost db rs"
  using assms(1)
proof (rule options_fitD)
  fix f j
  assume "maxLoadFactor opts = Fin f" "f < 1" "length rs < 2 ^ 53" "rat_of_nat (length rs) \<le> f * 2 ^ 58"
    "initialBucketCount (rounded_options opts) = 2 ^ j" "4 \<le> j" "j \<le> 58"
  then show ?thesis
    using assms(2,3) unfolding object_index_lost_def
    by (auto simp: index_capacity_def empty_index_def IndexFileHeader_default_def intro!: exI [of _ j])
qed

lemma row_index_lostI:
  assumes "options_fit opts (length (concat logs))" and "options db = rounded_options opts"
    and "row_index_file_unusable db"
  shows "row_index_lost db logs"
  using assms(1)
proof (rule options_fitD)
  fix f j
  assume "maxLoadFactor opts = Fin f" "f < 1" "length (concat logs) < 2 ^ 53"
    "rat_of_nat (length (concat logs)) \<le> f * 2 ^ 56"
    "initialRowBucketCount (rounded_options opts) = 2 ^ j" "4 \<le> j" "j \<le> 56"
  then show ?thesis
    using assms(2,3) unfolding row_index_lost_def
    by (auto simp: row_capacity_def empty_row_index_def RowIndexFileHeader_default_def intro!: exI [of _ j])
qed

text \<open>A log has no more records than bytes.\<close>

lemma length_records_from: "records_from c off = Some rs \<Longrightarrow> length rs \<le> length c - off"
proof (induction c off arbitrary: rs rule: records_from.induct)
  case (1 c off)
  show ?case
  proof (cases "length c \<le> off")
    case False
    with "1.prems" obtain r ts where r: "record_at c off = Some r" "records_from c (record_end c off) = Some ts"
      "rs = r # ts"
      by (auto simp: records_from.simps [of c off] split: option.splits)
    have "off < record_end c off" by (rule record_end_less)
    with "1.IH" [OF False r(1,2)] False r(3) show ?thesis by simp
  qed (use "1.prems" in \<open>simp add: records_from.simps [of c off]\<close>)
qed

lemma length_blocks_from: "blocks_from c off bs \<Longrightarrow> off + length bs \<le> length c"
proof (induction bs arbitrary: off)
  case (Cons b bs)
  obtain column L where b: "b = (column, L)" by (cases b)
  have "off + layout_size column L + length bs \<le> length c" using Cons by (simp add: b)
  then show ?case by (simp add: layout_size_def)
qed simp

lemma length_shard_logs: "shard_logs S logs \<Longrightarrow> length (concat logs) \<le> sum_list (map length S)"
  unfolding shard_logs_def
proof (induction rule: list_all2_induct)
  case (Cons c S bs logs)
  then show ?case using length_blocks_from [of c 24 bs] by simp
qed simp

subsection \<open>A new database\<close>

text \<open>An object with nothing open: newly constructed, or closed.\<close>

definition all_closed :: "Impl \<Rightarrow> bool" where
  "all_closed db \<longleftrightarrow>
     \<not> opened db \<and> valueFile db = None \<and> indexFile db = None \<and> rowIndexFile db = None \<and> rowValueFiles db = [] \<and>
     valueMap db = Unmapped \<and> indexMap db = Unmapped \<and> rowIndexMap db = Unmapped"

lemma records_fresh: "records_from fresh_value_file 24 = Some []"
  using records_from_end [of fresh_value_file] by (simp add: fresh_value_file(1))

text \<open>The directory is there without any of the files, or can be made.\<close>

definition no_files :: "fs \<Rightarrow> string \<Rightarrow> bool" where
  "no_files fs dir \<longleftrightarrow> (\<forall>name. files fs (path_join dir name) = None) \<and> (dirs fs dir \<or> files fs dir = None)"

lemma no_files_stored:
  assumes os: "os_ok os" and db: "all_closed db" and dir: "no_files (filesys db) dir" and opts: "options_fit opts 0"
  defines "logs \<equiv> replicate (unat (rowShardCount opts)) []"
  shows "stored_logs os (start_open db dir opts False) [] logs"
    and "value_contents (start_open db dir opts False) = fresh_value_file"
    and "shard_contents (start_open db dir opts False) = replicate (unat (rowShardCount opts)) fresh_shard"
    and "row_index_lost (start_open db dir opts False) logs"
proof -
  let ?db = "start_open db dir opts False"
  have p: "valuePath ?db = path_join dir ''values.lumov''" "indexPath ?db = path_join dir ''index.lumoi''"
    "rowIndexPath ?db = path_join dir ''row_index.lumori''"
    by (simp_all add: start_open_def set_paths_def)
  have none: "files (filesys db) (path_join dir name) = None" for name using dir by (simp add: no_files_def)
  have nsp: "files (filesys db) (shard_path ?db s) = None" for s using none by (simp add: shard_path_def RowValuePath_def)
  have fc: "file_content (filesys ?db) (valuePath ?db) = []" "file_content (filesys ?db) (shard_path ?db s) = []" for s
    using none nsp by (simp_all add: file_content_def p)
  have w: "writes_ok os" using os by (simp add: os_ok_def)
  show vc: "value_contents ?db = fresh_value_file" by (simp add: value_contents_def fc)
  have "options_ok opts" using opts by (simp add: options_fit_def)
  then have n: "0 < rowShardCount opts" by (simp add: options_ok_def word_neq_0_conv)
  show sc: "shard_contents ?db = replicate (unat (rowShardCount opts)) fresh_shard"
    by (simp add: shard_contents_def fc opened_shard_def map_replicate_const)
  have pd: "paths_set ?db" by simp
  note pd = paths_distinct [OF pd]
  have "object_files_openable os ?db"
    using db w pd(1) fresh_value_file
    by (simp add: object_files_openable_def vc fc all_closed_def) (simp add: Unmapped_def)
  moreover have "row_files_openable os ?db"
    using db w n pd(6) by (simp add: row_files_openable_def fc all_closed_def shard_openable_def)
  moreover have "shard_logs (shard_contents ?db) logs"
    using fresh_shard_ok length_fresh_shard
    by (simp add: shard_logs_def logs_def sc list_all2_conv_all_nth)
  moreover have "logs_placed logs" by (simp add: logs_placed_def logs_def)
  moreover have "index_file_unusable ?db" "row_index_file_unusable ?db"
    using none by (simp_all add: index_file_unusable_def row_index_file_unusable_def p)
  then have lost: "object_index_lost ?db []" "row_index_lost ?db logs"
    using opts by (auto intro!: object_index_lostI row_index_lostI simp: logs_def)
  then show "row_index_lost ?db logs" by simp
  ultimately show "stored_logs os ?db [] logs" using vc records_fresh lost by (simp add: stored_logs_def)
qed

lemma Open_empty:
  assumes "os_ok os" and "all_closed db" and "no_files (filesys db) dir" and "options_fit opts 0"
  shows "\<exists>db'. Open os db dir opts = Some (Ok, db') \<and> database_ok db' \<and>
    objects db' = (\<lambda>_. None) \<and> rows db' = (\<lambda>_. None) \<and>
    value_bytes db' = fresh_value_file \<and>
    shards_of db' = replicate (unat (rowShardCount opts)) fresh_shard \<and> 16 \<le> length (RowBuckets db') \<and>
    unat (initialRowBucketCount (rounded_options opts)) \<le> length (RowBuckets db') \<and>
    options db' = rounded_options opts \<and> directory db' = dir"
proof -
  have os: "calls_ok os" "reads_ok os" "\<not> opened db" "options_ok opts"
    "dirs (filesys db) dir \<or> files (filesys db) dir = None"
    using assms by (simp_all add: os_ok_def all_closed_def options_fit_def no_files_def)
  note fresh = no_files_stored [OF assms]
  have big: "16 \<le> unat (initialRowBucketCount (rounded_options opts))"
    using assms(4)
  proof (rule options_fitD)
    fix rj assume rj: "initialRowBucketCount (rounded_options opts) = 2 ^ rj" "4 \<le> rj" "rj \<le> 56"
    have "(2 :: nat) ^ 4 \<le> 2 ^ rj" using rj(2) by (intro power_increasing) simp_all
    then show ?thesis using rj by (simp add: unat_pow2)
  qed
  from Open_stored [OF os fresh(1)] fresh(2-4)
  show ?thesis using big by (auto simp: replay_rows_def concat_replicate_trivial)
qed

text \<open>C4. Opening a directory that holds no database creates an empty one: the value files hold just
  their headers, both maps are empty and the whole invariant holds.\<close>

theorem Open_creates_empty_database:
  assumes "os_ok os" and "all_closed db" and "no_files (filesys db) dir" and "options_fit opts 0"
  shows "\<exists>db'. Open os db dir opts = Some (Ok, db') \<and> database_ok db' \<and>
    objects db' = (\<lambda>_. None) \<and> rows db' = (\<lambda>_. None) \<and>
    value_bytes db' = fresh_value_file \<and>
    shards_of db' = replicate (unat (rowShardCount opts)) fresh_shard \<and> 16 \<le> length (RowBuckets db') \<and>
    options db' = rounded_options opts \<and> directory db' = dir"
  using Open_empty [OF assms] by blast

lemma default_options_fit: "options_fit DatabaseOptions_default 1000000"
proof -
  have "fl (4 / 5) < fl (95 / 100)" using fl_95_percent(2) by (simp add: fl_four_fifths)
  moreover have "0 < fl (4 / 5)" by (simp add: fl_four_fifths)
  moreover have "rat_of_nat 1000000 \<le> fl (4 / 5) * 2 ^ 56" by (simp add: fl_four_fifths)
  ultimately show ?thesis
    by (simp add: options_fit_def options_ok_def DatabaseOptions_default_def dle_def)
qed

definition empty_fs :: fs where
  "empty_fs = \<lparr>files = (\<lambda>_. None), dirs = (\<lambda>_. False)\<rparr>"

lemma Impl_default_closed: "all_closed (Impl_default fs)"
  by (simp add: all_closed_def Impl_default_def)

lemma empty_fs_start:
  "no_files (filesys (Impl_default empty_fs)) ''data''" "options_fit DatabaseOptions_default 0"
  using options_fit_mono [OF default_options_fit] by (simp_all add: no_files_def Impl_default_def empty_fs_def)

lemma Open_creates_empty_database_witness:
  "\<exists>db. Open choppy_os (Impl_default empty_fs) ''data'' DatabaseOptions_default = Some (Ok, db) \<and>
     database_ok db \<and> objects db = (\<lambda>_. None) \<and> rows db = (\<lambda>_. None)"
  using Open_creates_empty_database [OF choppy_os_ok Impl_default_closed empty_fs_start] by blast

subsection \<open>Closing and opening again\<close>

lemma sound_maps:
  assumes "database_sound db"
  obtains v w where "mapped_data (indexMap db) = Some v" "mapped_data (rowIndexMap db) = Some w"
  using assms by (auto simp: database_sound_def object_ok_def row_ok_def row_core_ok_def)

lemmas database_maps = sound_maps [OF database_ok_sound]

lemma sound_Close:
  assumes db: "database_sound db"
  shows "Close os db = (Flush os db, (CloseFiles db)\<lparr>opened := False, readOnly := False\<rparr>)"
    and "all_closed (snd (Close os db))" and "dirs (filesys (snd (Close os db))) = dirs (filesys db)"
proof -
  obtain v w where m: "mapped_data (indexMap db) = Some v" "mapped_data (rowIndexMap db) = Some w"
    using db by (rule sound_maps)
  have "opened db" using db by (simp add: database_sound_def object_ok_def)
  then show c: "Close os db = (Flush os db, (CloseFiles db)\<lparr>opened := False, readOnly := False\<rparr>)" by (simp add: Close_def)
  have "rowValueFiles (CloseFiles db) = []" by (simp add: CloseFiles_def Let_def unmap_index_def split: option.splits)
  then show "all_closed (snd (Close os db))" using sound_CloseFiles [OF db m] by (simp add: c all_closed_def)
  show "dirs (filesys (snd (Close os db))) = dirs (filesys db)" using sound_CloseFiles [OF db m] by (simp add: c)
qed

lemmas Close_database = sound_Close [OF database_ok_sound]

lemma sound_at_rest:
  fixes os :: os
  assumes db: "database_sound db" and n: "rowShardCount opts = rowShardCount (options db)"
  defines "db0 \<equiv> start_open (snd (Close os db)) (directory db) opts False"
  shows "values_at_rest db db0" "index_intact db db0" "row_index_intact db db0"
proof -
  obtain v w where m: "mapped_data (indexMap db) = Some v" "mapped_data (rowIndexMap db) = Some w"
    using db by (rule sound_maps)
  note c = sound_CloseFiles [OF db m]
  have fs: "files (filesys db0) = (files (filesys db))(rowIndexPath db \<mapsto> encode_row_index w, indexPath db \<mapsto> encode_object_index v)"
    by (simp add: db0_def sound_Close [OF db] c)
  have paths: "paths_set db" using db by (simp add: database_sound_def)
  note pd = paths_distinct [OF paths]
  show "index_intact db db0" using m by (simp add: index_intact_def fs)
  show "row_index_intact db db0" using m pd(3) by (simp add: row_index_intact_def fs)
  have "s < unat (rowShardCount (options db)) \<Longrightarrow> files (filesys db0) (shard_path db s) = Some (row_bytes db s)" for s
    using sound_row_bytes(1) [OF db] pd(5) [of s] pd(6) [of s] by (simp add: fs)
  moreover have "files (filesys db0) (valuePath db) = Some (value_bytes db)"
    using sound_value_bytes(1) [OF db] pd(1,2) by (simp add: fs)
  moreover have "dirs (filesys db0) (directory db)" by (simp add: db0_def)
  ultimately show "values_at_rest db db0"
    using n by (simp add: values_at_rest_def) (simp add: db0_def sound_Close [OF db] c)
qed

lemmas Close_at_rest = sound_at_rest [OF database_ok_sound]

lemma database_logs:
  assumes db: "database_ok db"
  obtains rs logs where "records_from (value_bytes db) 24 = Some rs" "length rs \<le> length (value_bytes db)"
    "shard_logs (shards_of db) logs" "logs_placed logs" "rows db = replay_rows (concat logs) (\<lambda>_. None)"
    "length (concat logs) \<le> sum_list (map length (shards_of db))"
proof -
  obtain rs where "records_from (value_bytes db) 24 = Some rs"
    using db database_value_bytes(5) [OF db] by (auto simp: database_ok_def object_log_ok_def)
  moreover obtain logs where "shard_logs (shards_of db) logs" "logs_placed logs" "rows db = replay_rows (concat logs) (\<lambda>_. None)"
    using db by (auto simp: database_ok_def row_log_ok_def)
  ultimately show ?thesis
    using that [of rs logs] length_records_from [of "value_bytes db" 24 rs] length_shard_logs [of "shards_of db" logs]
    by (simp del: length_concat)
qed

lemma restart:
  assumes "calls_ok os" and "reads_ok os" and "database_ok db" and "options_ok opts"
    and "rowShardCount opts = rowShardCount (options db)"
  shows "\<exists>db'. Open os (snd (Close os db)) (directory db) opts = Some (Ok, db') \<and> database_ok db' \<and>
    objects db' = objects db \<and> rows db' = rows db"
proof -
  define db0 where "db0 = snd (Close os db)"
  have db0: "snd (Close os db) = db0" by (simp add: db0_def)
  note rest = Close_at_rest [OF assms(3,5), of os, unfolded db0]
  obtain rs logs where l: "records_from (value_bytes db) 24 = Some rs" "shard_logs (shards_of db) logs"
    "logs_placed logs" "rows db = replay_rows (concat logs) (\<lambda>_. None)"
    using assms(3) by (rule database_logs)
  note st = values_at_rest_stored [OF assms(3) rest(1) l disjI1 [OF rest(2)] disjI1 [OF rest(3)]]
  have "\<not> opened db0" using Close_database(2) [OF assms(3), of os] db0 by (simp add: all_closed_def)
  moreover have "dirs (filesys db0) (directory db)"
    using Close_database(3) [OF assms(3), of os] assms(3) db0 by (simp add: database_ok_def)
  ultimately show ?thesis using Open_stored [OF assms(1,2) _ assms(4) _ st(1)] st(2) l(4) db0 by metis
qed

text \<open>C2. Closing a database and opening its directory again, with any acceptable options for the same
  number of shards, gives back exactly the objects and the rows that were stored; that the flush of
  the close may have failed does not matter as long as the files keep what was written.\<close>

theorem Close_Open_roundtrip:
  assumes "calls_ok os" and "reads_ok os" and "database_ok db" and "options_ok opts"
    and "rowShardCount opts = rowShardCount (options db)" and "Close os db = (status, db0)"
  shows "\<exists>db'. Open os db0 (directory db) opts = Some (Ok, db') \<and> database_ok db' \<and>
    objects db' = objects db \<and> rows db' = rows db"
  using restart [OF assms(1-5)] assms(6) by simp

text \<open>The files of the database after a crash or an accident that spared the value files.\<close>

definition value_files_kept :: "Impl \<Rightarrow> Impl \<Rightarrow> bool" where
  "value_files_kept db db0 \<longleftrightarrow>
     all_closed db0 \<and> dirs (filesys db0) (directory db) \<and>
     files (filesys db0) (valuePath db) = Some (value_bytes db) \<and>
     (\<forall>s < unat (rowShardCount (options db)). files (filesys db0) (shard_path db s) = Some (row_bytes db s))"

text \<open>C3. Both index files are redundant: whatever has become of them, deleted, emptied or damaged so that
  their layout is refused, opening the directory rebuilds them from the value files and gives back
  exactly the objects and the rows that were stored.\<close>

theorem Open_rebuilds_lost_indexes:
  assumes "calls_ok os" and "reads_ok os" and "database_ok db" and "value_files_kept db db0"
    and "options_fit opts (max (length (value_bytes db)) (sum_list (map length (shards_of db))))"
    and "rowShardCount opts = rowShardCount (options db)"
    and "index_file_unusable (start_open db0 (directory db) opts False)"
    and "row_index_file_unusable (start_open db0 (directory db) opts False)"
  shows "\<exists>db'. Open os db0 (directory db) opts = Some (Ok, db') \<and> database_ok db' \<and>
    objects db' = objects db \<and> rows db' = rows db"
proof -
  let ?db0 = "start_open db0 (directory db) opts False"
  obtain rs logs where l: "records_from (value_bytes db) 24 = Some rs" "shard_logs (shards_of db) logs"
    "logs_placed logs" "rows db = replay_rows (concat logs) (\<lambda>_. None)" and
    n: "length rs \<le> length (value_bytes db)" "length (concat logs) \<le> sum_list (map length (shards_of db))"
    using assms(3) by (rule database_logs)
  have rest: "values_at_rest db ?db0"
    using assms(4,6) by (simp add: values_at_rest_def value_files_kept_def all_closed_def)
  have "options_fit opts (length rs)" "options_fit opts (length (concat logs))"
    using options_fit_mono [OF assms(5)] n by (simp_all del: length_concat)
  then have "object_index_lost ?db0 rs" "row_index_lost ?db0 logs"
    using assms(7,8) by (simp_all add: object_index_lostI row_index_lostI del: length_concat)
  note st = values_at_rest_stored [OF assms(3) rest l disjI2 disjI2, OF this]
  have "\<not> opened db0" "dirs (filesys db0) (directory db)" using assms(4) by (simp_all add: value_files_kept_def all_closed_def)
  moreover have "options_ok opts" using assms(5) by (simp add: options_fit_def)
  ultimately show ?thesis using Open_stored [OF assms(1,2) _ _ _ st(1)] st(2) l(4) by metis
qed

subsection \<open>Writing\<close>

lemma database_separate:
  assumes "database_ok db"
  shows "separate_files db"
proof -
  have "paths_set db" using assms by (simp add: database_ok_def)
  note pd = paths_distinct [OF this]
  have "valuePath db \<noteq> shard_path db s" "indexPath db \<noteq> shard_path db s" for s using pd by blast+
  then show ?thesis using assms pd(2,3) by (auto simp: database_ok_def separate_files_def)
qed

lemma database_ok_object_write:
  assumes db: "database_ok db" and ok: "object_ok db'" "object_log_ok db'" "no_tail db'" and fr: "object_frame db db'"
  shows "database_ok db' \<and> rows db' = rows db \<and> options db' = options db \<and> directory db' = directory db"
proof -
  have row: "row_ok db" using db by (simp add: database_ok_def)
  note r = object_frame_rows [OF row database_separate [OF db] fr]
  have same: "same_rows db db'" using r by blast
  obtain fs m off where d: "db' = db\<lparr>filesys := fs, indexMap := m, appendOffset := off\<rparr>" "dirs fs = dirs (filesys db)"
    using fr unfolding object_frame_def by blast
  have "row_log_ok db'"
    using db same unfolding database_ok_def row_log_ok_def same_rows(1,3) [OF same] by (simp add: same_rows_def)
  moreover have "paths_set db'" "shard_path db' = shard_path db"
    using db by (simp_all add: d(1) database_ok_def paths_set_def shard_path_def fun_eq_iff)
  ultimately show ?thesis using db ok r by (simp add: database_ok_def d)
qed

lemma database_ok_row_write:
  assumes db: "database_ok db" and ok: "row_ok db'" "row_log_ok db'" and fr: "row_frame db db'"
  shows "database_ok db' \<and> objects db' = objects db \<and> options db' = options db \<and> directory db' = directory db"
proof -
  have obj: "object_ok db" using db by (simp add: database_ok_def)
  note r = row_frame_objects [OF obj database_separate [OF db] fr]
  have same: "same_objects db db'" using r by blast
  obtain fs m offs where d: "db' = db\<lparr>filesys := fs, rowIndexMap := m, rowAppendOffsets := offs\<rparr>" "dirs fs = dirs (filesys db)"
    using fr unfolding row_frame_def by blast
  have "object_log_ok db'" "no_tail db'"
    using db same_objects [OF same] by (simp_all add: database_ok_def object_log_ok_def)
  moreover have "paths_set db'" "shard_path db' = shard_path db"
    using db by (simp_all add: d(1) database_ok_def paths_set_def shard_path_def fun_eq_iff)
  ultimately show ?thesis using db ok r by (simp add: database_ok_def d)
qed

lemma database_put_objects:
  assumes os: "os_ok os" and db: "database_ok db" and fits: "write_fits db column entries"
  shows "\<exists>db'. PutStructs os db column entries = Some (Ok, db') \<and> database_ok db' \<and>
    objects db' = store_entries column entries (objects db) \<and> rows db' = rows db \<and>
    options db' = options db \<and> directory db' = directory db"
proof -
  have ok: "object_ok db" "object_log_ok db" "no_tail db" using db by (simp_all add: database_ok_def)
  obtain db' where w: "PutStructs os db column entries = Some (Ok, db')" "object_ok db'"
    "object_frame db db'" "objects db' = store_entries column entries (objects db)"
    "log_bytes db' = log_bytes db @ entries_bytes column entries" "no_tail db'"
    using object_put_ok [OF os ok(1) fits] ok(3) by blast
  have "object_log_ok db'"
    using log_append [OF ok(2) w(4,5)] fits length_log_bytes [OF ok(1)] by (simp add: write_fits_def)
  then show ?thesis using w database_ok_object_write [OF db w(2) _ w(6,3)] by blast
qed

lemma database_put_cell:
  assumes os: "os_ok os" and db: "database_ok db" and fits: "put_row_fits os db column rowId key v"
  shows "\<exists>db'. PutRowStruct os db column rowId key v = Some (Ok, db') \<and> database_ok db' \<and>
    rows db' = (rows db)((column, rowId) \<mapsto> (row_or_empty (rows db (column, rowId)))(key \<mapsto> v)) \<and>
    objects db' = objects db \<and> options db' = options db \<and> directory db' = directory db"
proof -
  have ok: "row_ok db" "row_log_ok db" "row_core_ok db" using db by (simp_all add: database_ok_def row_ok_def)
  have rw: "reads_ok os" "writes_ok os" using os by (simp_all add: os_ok_def)
  obtain db' where w: "PutRowStruct os db column rowId key v = Some (Ok, db')" "row_ok db'" "row_frame db db'"
    "rows db' = (rows db)((column, rowId) \<mapsto> (row_or_empty (rows db (column, rowId)))(key \<mapsto> v))"
    "row_appended db db' column rowId ((row_or_empty (rows db (column, rowId)))(key \<mapsto> v))"
    using PutRowStruct_ok [OF rw ok(1) fits] by blast
  have "row_log_ok db'" by (rule row_log_append [OF ok(3,2) w(3,5,4)])
  then show ?thesis using w database_ok_row_write [OF db w(2) _ w(3)] by blast
qed

lemma database_put_row:
  assumes os: "os_ok os" and db: "database_ok db" and fits: "row_write_fits db column entries" and slot: "row_slot_free db"
  shows "\<exists>db'. PutRowStructs os db column rowId entries = Some (Ok, db') \<and> database_ok db' \<and>
    rows db' = (rows db)((column, rowId) \<mapsto> row_map entries) \<and>
    objects db' = objects db \<and> options db' = options db \<and> directory db' = directory db"
proof -
  have ok: "row_ok db" "row_log_ok db" "row_core_ok db" using db by (simp_all add: database_ok_def row_ok_def)
  have rw: "reads_ok os" "writes_ok os" using os by (simp_all add: os_ok_def)
  obtain db' where w: "PutRowStructs os db column rowId entries = Some (Ok, db')" "row_ok db'" "row_frame db db'"
    "rows db' = (rows db)((column, rowId) \<mapsto> row_map entries)"
    "row_appended db db' column rowId (row_map entries)"
    using WriteRowStructs_atomic [OF rw(1) ok(1) fits, where rsv = True and rowId = rowId] rw(2) slot
    by (auto simp: PutRowStructs_def)
  have "row_log_ok db'" by (rule row_log_append [OF ok(3,2) w(3,5,4)])
  then show ?thesis using w database_ok_row_write [OF db w(2) _ w(3)] by blast
qed

subsection \<open>The counters\<close>

lemma object_count:
  assumes ok: "object_ok db" and v: "mapped_data (indexMap db) = Some v"
  shows "unat (ih_itemCount (oi_header v)) = card (dom (objects db))"
proof -
  let ?c = "take (unat (appendOffset db)) (value_bytes db)"
  have t: "object_table_ok ?c (oi_buckets v)" "unat (ih_itemCount (oi_header v)) = length (occupied vacant_bucket (oi_buckets v))"
    using ok v by (auto simp: object_ok_def object_index_ok_def)
  have "objects db = object_map ?c (oi_buckets v)"
    using object_ok_readable(2) [OF ok] v by (simp add: Buckets_def)
  then show ?thesis using t by (simp add: object_map_def table_map_card object_table_ok_def)
qed

lemma row_count:
  assumes ok: "row_ok db" and v: "mapped_data (rowIndexMap db) = Some v"
  shows "unat (rih_itemCount (ri_header v)) = card (dom (rows db))"
proof -
  have "row_index_ok (shards_of db) v" using ok v by (auto simp: row_ok_def row_core_ok_def)
  then have t: "rows_table_ok (shards_of db) (ri_buckets v)"
    "unat (rih_itemCount (ri_header v)) = length (occupied vacant_row (ri_buckets v))"
    by (simp_all add: row_index_ok_def)
  have "rows db = rows_map (shards_of db) (ri_buckets v)" using v by (simp add: rows_def RowBuckets_def)
  then show ?thesis using t by (simp add: rows_map_def table_map_card rows_table_ok_def)
qed

lemma counters:
  assumes "database_ok db"
  shows "unat (EntryCount db) = card (dom (objects db))" and "unat (RowCount db) = card (dom (rows db))"
    and "EntryCount db < BucketCount db" and "RowCount db < RowBucketCount db"
proof -
  obtain v w where m: "mapped_data (indexMap db) = Some v" "mapped_data (rowIndexMap db) = Some w"
    using assms by (rule database_maps)
  have ok: "object_ok db" "row_ok db" using assms by (simp_all add: database_ok_def)
  show "unat (EntryCount db) = card (dom (objects db))" "unat (RowCount db) = card (dom (rows db))"
    using object_count [OF ok(1) m(1)] row_count [OF ok(2) m(2)] m
    by (simp_all add: EntryCount_def RowCount_def IsMapped_def IndexHeader_def RowIndexHeader_def)
  obtain c where "object_index_ok c v" using ok(1) m(1) by (auto simp: object_ok_def)
  then obtain k where k: "k \<le> 58" "ih_bucketCount (oi_header v) = 2 ^ k" "unat (ih_itemCount (oi_header v)) < 2 ^ k"
    by (auto simp: object_index_ok_def)
  moreover have "unat ((2 :: u64) ^ k) = 2 ^ k" using k(1) by (intro unat_pow2) simp
  ultimately show "EntryCount db < BucketCount db"
    using m by (simp add: EntryCount_def BucketCount_def IsMapped_def IndexHeader_def word_less_nat_alt)
  have "row_index_ok (shards_of db) w" using ok(2) m(2) by (auto simp: row_ok_def row_core_ok_def)
  then obtain l where l: "l \<le> 56" "rih_bucketCount (ri_header w) = 2 ^ l" "unat (rih_itemCount (ri_header w)) < 2 ^ l"
    by (auto simp: row_index_ok_def)
  moreover have "unat ((2 :: u64) ^ l) = 2 ^ l" using l(1) by (intro unat_pow2) simp
  ultimately show "RowCount db < RowBucketCount db"
    using m by (simp add: RowCount_def RowBucketCount_def IsMapped_def RowIndexHeader_def word_less_nat_alt)
qed

text \<open>C7. The counters are exact: \<open>EntryCount\<close> is the number of stored objects and \<open>RowCount\<close> the number
  of stored rows, each below the size of its table.\<close>

theorem counters_are_exact:
  assumes "database_ok db"
  shows "unat (EntryCount db) = card (dom (objects db)) \<and> unat (RowCount db) = card (dom (rows db)) \<and>
    EntryCount db < BucketCount db \<and> RowCount db < RowBucketCount db"
  using counters [OF assms] by simp

end
