(* ===== verification/Histories.thy ===== *)
theory Histories
  imports Database_Theorems
begin

text \<open>
  Whole histories of a database: batches of objects, rows, cells of rows and restarts (a close
  followed by an open of the same directory), in any order.  The abstract state is the pair of the
  two maps; a restart does not change it.
\<close>

datatype operation =
    Store_Objects bytes "StructEntry list"
  | Store_Row bytes u64 "RowStructEntry list"
  | Store_Cell bytes u64 bytes bytes
  | Restart DatabaseOptions

text \<open>One call on the database; \<open>None\<close> when it hangs or does not succeed.\<close>

definition succeed :: "(Status \<times> Impl) option \<Rightarrow> Impl option" where
  "succeed r = (case r of Some (status, db) \<Rightarrow> if IsOk status then Some db else None | None \<Rightarrow> None)"

lemma succeed_Ok [simp]: "succeed (Some (Ok, db)) = Some db"
  by (simp add: succeed_def)

fun operate :: "os \<Rightarrow> Impl \<Rightarrow> operation \<Rightarrow> Impl option" where
  "operate os db (Store_Objects column entries) = succeed (PutStructs os db column entries)"
| "operate os db (Store_Row column rowId entries) = succeed (PutRowStructs os db column rowId entries)"
| "operate os db (Store_Cell column rowId key v) = succeed (PutRowStruct os db column rowId key v)"
| "operate os db (Restart opts) = succeed (Open os (snd (Close os db)) (directory db) opts)"

fun operation_fits :: "os \<Rightarrow> Impl \<Rightarrow> operation \<Rightarrow> bool" where
  "operation_fits os db (Store_Objects column entries) \<longleftrightarrow> write_fits db column entries"
| "operation_fits os db (Store_Row column rowId entries) \<longleftrightarrow> row_write_fits db column entries \<and> row_slot_free db"
| "operation_fits os db (Store_Cell column rowId key v) \<longleftrightarrow> put_row_fits os db column rowId key v"
| "operation_fits os db (Restart opts) \<longleftrightarrow> options_ok opts \<and> rowShardCount opts = rowShardCount (options db)"

type_synonym stored_maps = "(bytes \<times> bytes \<rightharpoonup> bytes) \<times> (bytes \<times> u64 \<rightharpoonup> (bytes \<rightharpoonup> bytes))"

fun operation_spec :: "operation \<Rightarrow> stored_maps \<Rightarrow> stored_maps" where
  "operation_spec (Store_Objects column entries) (os, rs) = (store_entries column entries os, rs)"
| "operation_spec (Store_Row column rowId entries) (os, rs) = (os, rs((column, rowId) \<mapsto> row_map entries))"
| "operation_spec (Store_Cell column rowId key v) (os, rs) =
     (os, rs((column, rowId) \<mapsto> (row_or_empty (rs (column, rowId)))(key \<mapsto> v)))"
| "operation_spec (Restart opts) (os, rs) = (os, rs)"

definition stored_maps :: "Impl \<Rightarrow> stored_maps" where
  "stored_maps db = (objects db, rows db)"

lemma operate_refines:
  assumes os: "os_ok os" and db: "database_ok db" and fits: "operation_fits os db op"
  shows "\<exists>db'. operate os db op = Some db' \<and> database_ok db' \<and>
    stored_maps db' = operation_spec op (stored_maps db)"
proof (cases op)
  case (Store_Objects column entries)
  then show ?thesis using database_put_objects [OF os db, of column entries] fits by (auto simp: stored_maps_def)
next
  case (Store_Row column rowId entries)
  then show ?thesis using database_put_row [OF os db, of column entries rowId] fits by (auto simp: stored_maps_def)
next
  case (Store_Cell column rowId key v)
  then show ?thesis using database_put_cell [OF os db, of column rowId key v] fits by (auto simp: stored_maps_def)
next
  case (Restart opts)
  then obtain db' where "Open os (snd (Close os db)) (directory db) opts = Some (Ok, db')" "database_ok db'"
      "objects db' = objects db" "rows db' = rows db"
    using restart [OF _ _ db] os fits by (auto simp: os_ok_def)
  then show ?thesis by (simp add: Restart stored_maps_def)
qed

interpretation database: refinement
  "\<lambda>db. os_ok os \<and> database_ok db" stored_maps "operation_fits os" "operate os" operation_spec for os
  by unfold_locales (use operate_refines in blast)

text \<open>C1. Every history of object batches, rows, cells and restarts that fits the formats succeeds,
  keeps the invariant of the whole database, and leaves exactly the two maps that the operations
  define one after the other; restarts in between change nothing.\<close>

theorem history_refines_maps:
  assumes "os_ok os" and "database_ok db" and "steps_fit (operation_fits os) (operate os) db ops"
  shows "\<exists>db'. run_steps (operate os) db ops = Some db' \<and> database_ok db' \<and>
    (objects db', rows db') = fold operation_spec ops (objects db, rows db)"
  using database.run_refines [of os db ops] assms by (auto simp: stored_maps_def)

subsection \<open>Concrete runs\<close>

text \<open>A database just created, with the default options, takes the sample batch and the first cell.\<close>

definition just_created :: "Impl \<Rightarrow> bool" where
  "just_created db \<longleftrightarrow> database_ok db \<and> objects db = (\<lambda>_. None) \<and> rows db = (\<lambda>_. None) \<and>
     value_bytes db = fresh_value_file \<and> shards_of db = replicate 8 fresh_shard \<and> 16 \<le> length (RowBuckets db) \<and>
     options db = rounded_options DatabaseOptions_default"

lemma just_createdI:
  obtains db where "Open choppy_os (Impl_default empty_fs) ''data'' DatabaseOptions_default = Some (Ok, db)"
    "just_created db" "directory db = ''data''"
proof -
  have "unat (rowShardCount DatabaseOptions_default) = 8" by (simp add: DatabaseOptions_default_def)
  then show ?thesis
    using Open_empty [OF choppy_os_ok Impl_default_closed empty_fs_start] that by (auto simp: just_created_def)
qed

lemma default_load: "maxLoadFactor (rounded_options DatabaseOptions_default) = Fin (fl (4 / 5))"
  by (simp add: DatabaseOptions_default_def)

lemma just_created_slot:
  assumes "just_created db"
  shows "row_slot_free db"
proof -
  have db: "database_ok db" "16 \<le> length (RowBuckets db)" "rows db = (\<lambda>_. None)"
    "maxLoadFactor (options db) = Fin (fl (4 / 5))"
    using assms default_load by (simp_all add: just_created_def)
  obtain w where w: "mapped_data (rowIndexMap db) = Some w" using db(1) by (rule database_maps)
  have row: "row_ok db" using db(1) by (simp add: database_ok_def)
  then have "row_index_ok (shards_of db) w" "rowPendingInsertCount db = 0"
    using w by (auto simp: row_ok_def row_core_ok_def)
  then obtain k where k: "k \<le> 56" "rih_bucketCount (ri_header w) = 2 ^ k" "length (ri_buckets w) = 2 ^ k"
    by (auto elim: row_index_okD)
  have "unat (rih_itemCount (ri_header w)) = 0" using row_count [OF row w] db(3) by simp
  then have items: "rih_itemCount (ri_header w) = 0" by (simp add: unat_eq_0)
  have "(2 :: nat) ^ 4 \<le> 2 ^ k" using db(2) k(3) w by (simp add: RowBuckets_def)
  then have "4 \<le> k" using power_le_imp_le_exp [of "2 :: nat" 4 k] by simp
  then have "(2 :: rat) ^ 4 \<le> 2 ^ k" by (intro power_increasing) simp_all
  then have small: "1 / (2 :: rat) ^ k \<le> 1 / 16" by (simp add: field_simps)
  have "unat ((2 :: u64) ^ k) = 2 ^ k" using k(1) by simp
  then have "double_of_u64 (2 ^ k) = Fin (2 ^ k)" using fl_pow2 [of k] by (simp add: double_of_u64_def)
  moreover have "double_of_u64 1 = Fin 1" using fl_pow2 [of 0] by (simp add: double_of_u64_def)
  moreover have "fl (1 / 2 ^ k) = 1 / 2 ^ k" using fl_dyadic [of 1 k] by simp
  ultimately have "ddiv (double_of_u64 1) (double_of_u64 (2 ^ k)) = Fin (1 / 2 ^ k)" by simp
  moreover have "1 / (2 :: rat) ^ k \<le> fl (4 / 5)" by (rule order_trans [OF small]) (simp add: fl_four_fifths)
  ultimately show ?thesis
    using \<open>rowPendingInsertCount db = 0\<close> w items k(2) db(4)
    by (simp add: row_slot_free_def ReserveRowIndexInsertSlot_def RowIndexHeader_def)
qed

lemma just_created_fits:
  assumes "just_created db"
  shows "write_fits db [7] sample_entries" and "put_row_fits choppy_os db [7] 5 [1] [10]"
proof -
  have db: "database_ok db" "maxLoadFactor (options db) = Fin (fl (4 / 5))" "objects db = (\<lambda>_. None)" "rows db = (\<lambda>_. None)"
    using assms default_load by (simp_all add: just_created_def)
  have ok: "object_ok db" "row_ok db" "no_tail db" "row_log_ok db" using db(1) by (simp_all add: database_ok_def)
  obtain v w where m: "mapped_data (indexMap db) = Some v" using db(1) by (rule database_maps)
  have "unat (ih_itemCount (oi_header v)) = 0" using object_count [OF ok(1) m] db(3) by simp
  moreover have "unat (appendOffset db) = 24"
    using ok(3) assms by (simp add: no_tail_def just_created_def fresh_value_file(1))
  moreover have "(3 :: rat) \<le> fl (4 / 5) * 2 ^ 58" using default_load_factor(2) by simp
  ultimately show "write_fits db [7] sample_entries"
    using m db(2) default_load_factor(1) sample_entries_fit
    by (simp add: write_fits_def index_capacity_def sample_entries_def entries_bytes_def length_entry_record)
  have load: "LoadRowEntries choppy_os db [7] 5 (HashString [7]) = Some (Inr (False, [], []))"
    using LoadRowEntries_ok [OF choppy_reads(1) row_ok_readable [OF ok(2)], of "[7]" 5] db(4) by auto
  have "unat (rowAppendOffsets db ! s) = 24" if "s < length (rowValueFiles db)" for s
  proof -
    have "unat (rowAppendOffsets db ! s) = length (row_bytes db s)" using ok(4) that by (simp add: row_log_ok_def)
    moreover have shards: "shards_of db = replicate 8 fresh_shard" using assms by (simp add: just_created_def)
    moreover have "row_bytes db s = shards_of db ! s" using that by simp
    moreover have "s < 8" using that arg_cong [OF shards, of length] by simp
    ultimately show ?thesis by (simp add: length_fresh_shard del: shards_of_simps)
  qed
  moreover have "length (rowAppendOffsets db) = length (rowValueFiles db)" using ok(2) by (simp add: row_ok_def row_core_ok_def)
  ultimately have "\<forall>off \<in> set (rowAppendOffsets db). unat off < 2 ^ 62" by (auto simp: in_set_conv_nth)
  moreover have "(1 :: rat) \<le> fl (4 / 5) * (2 ^ 31 - 1)" using default_load_factor(2) by simp
  ultimately have "row_write_fits db [7] (row_entries [[1]] [[10]])"
    using db(2) default_load_factor
    by (simp add: row_write_fits_def row_fits_def row_entries_def key_bytes_total_def values_of_def)
  then show "put_row_fits choppy_os db [7] 5 [1] [10]"
    using just_created_slot [OF assms] by (simp add: put_row_fits_def load replace_or_add_def FitsUint32_def)
qed

lemma default_restart: "options_ok DatabaseOptions_default"
  using default_options_fit by (simp add: options_fit_def)

lemma just_created_options: "just_created db \<Longrightarrow> rowShardCount DatabaseOptions_default = rowShardCount (options db)"
  by (simp add: just_created_def)

lemma history_refines_maps_witness:
  "\<exists>db db'. Open choppy_os (Impl_default empty_fs) ''data'' DatabaseOptions_default = Some (Ok, db) \<and>
    run_steps (operate choppy_os) db [Store_Cell [7] 5 [1] [10], Restart DatabaseOptions_default] = Some db' \<and>
    rows db' = [([7], 5) \<mapsto> [[1] \<mapsto> [10]]] \<and> objects db' = (\<lambda>_. None)"
proof -
  obtain db where db: "Open choppy_os (Impl_default empty_fs) ''data'' DatabaseOptions_default = Some (Ok, db)" "just_created db"
    by (rule just_createdI)
  have ok: "database_ok db" using db(2) by (simp add: just_created_def)
  obtain t where t: "PutRowStruct choppy_os db [7] 5 [1] [10] = Some (Ok, t)" "options t = options db"
    using database_put_cell [OF choppy_os_ok ok just_created_fits(2) [OF db(2)]] by blast
  have "steps_fit (operation_fits choppy_os) (operate choppy_os) db [Store_Cell [7] 5 [1] [10], Restart DatabaseOptions_default]"
    using just_created_fits(2) [OF db(2)] t default_restart just_created_options [OF db(2)]
    by (simp split: option.split)
  from history_refines_maps [OF choppy_os_ok ok this] db show ?thesis
    by (auto simp: just_created_def row_or_empty_def)
qed

text \<open>The created database with a batch of objects, closed again.\<close>

lemma closed_sample:
  obtains db db1 status db0 where
    "Open choppy_os (Impl_default empty_fs) ''data'' DatabaseOptions_default = Some (Ok, db)"
    "PutStructs choppy_os db [7] sample_entries = Some (Ok, db1)" "database_ok db1" "directory db1 = ''data''"
    "objects db1 = store_entries [7] sample_entries (\<lambda>_. None)" "Close choppy_os db1 = (status, db0)"
    "rowShardCount DatabaseOptions_default = rowShardCount (options db1)"
    "length (value_bytes db1) \<le> 10000" "sum_list (map length (shards_of db1)) \<le> 10000"
proof -
  obtain db where db: "Open choppy_os (Impl_default empty_fs) ''data'' DatabaseOptions_default = Some (Ok, db)"
      "just_created db" "directory db = ''data''"
    by (rule just_createdI)
  have ok: "database_ok db" "objects db = (\<lambda>_. None)" using db(2) by (simp_all add: just_created_def)
  have obj: "object_ok db" "no_tail db" "row_ok db" using ok(1) by (simp_all add: database_ok_def)
  note fits = just_created_fits(1) [OF db(2)]
  obtain db1 where w: "PutStructs choppy_os db [7] sample_entries = Some (Ok, db1)" "database_ok db1"
      "objects db1 = store_entries [7] sample_entries (\<lambda>_. None)" "options db1 = options db" "directory db1 = directory db"
    using database_put_objects [OF choppy_os_ok ok(1) fits] ok(2) by auto
  have fr: "object_frame db db1" "log_bytes db1 = log_bytes db @ entries_bytes [7] sample_entries"
    using object_put_ok [OF choppy_os_ok obj(1) fits] w(1) by auto
  have "same_rows db db1" using object_frame_rows [OF obj(3) database_separate [OF ok(1)] fr(1)] by blast
  then have "shards_of db1 = replicate 8 fresh_shard" using same_rows(1) db(2) by (simp add: just_created_def)
  then have "sum_list (map length (shards_of db1)) \<le> 10000" by (simp add: length_fresh_shard sum_list_replicate)
  moreover have "log_bytes db1 = value_bytes db1" "log_bytes db = value_bytes db"
    using database_value_bytes(5) w(2) ok(1) by blast+
  then have "length (value_bytes db1) \<le> 10000"
    using arg_cong [OF fr(2), of length] db(2)
    by (simp add: just_created_def fresh_value_file(1) entries_bytes_def sample_entries_def length_entry_record)
  ultimately show ?thesis
    using that [of db db1 "fst (Close choppy_os db1)" "snd (Close choppy_os db1)"] db w just_created_options [OF db(2)] by simp
qed

lemma Close_Open_roundtrip_witness:
  "\<exists>db db1 status db0 db2. Open choppy_os (Impl_default empty_fs) ''data'' DatabaseOptions_default = Some (Ok, db) \<and>
    PutStructs choppy_os db [7] sample_entries = Some (Ok, db1) \<and> Close choppy_os db1 = (status, db0) \<and>
    Open choppy_os db0 ''data'' DatabaseOptions_default = Some (Ok, db2) \<and> objects db2 ([7], [1]) = Some [11, 12]"
proof -
  obtain db db1 status db0 where r:
    "Open choppy_os (Impl_default empty_fs) ''data'' DatabaseOptions_default = Some (Ok, db)"
    "PutStructs choppy_os db [7] sample_entries = Some (Ok, db1)" "database_ok db1" "directory db1 = ''data''"
    "objects db1 = store_entries [7] sample_entries (\<lambda>_. None)" "Close choppy_os db1 = (status, db0)"
    "rowShardCount DatabaseOptions_default = rowShardCount (options db1)"
    by (rule closed_sample)
  from Close_Open_roundtrip [OF choppy_calls r(3) default_restart r(7,6)] r
  show ?thesis by (auto simp: sample_entries_def)
qed

text \<open>The same database with both index files deleted after the close.\<close>

definition without_indexes :: "Impl \<Rightarrow> Impl \<Rightarrow> Impl" where
  "without_indexes db db0 = db0\<lparr>filesys := (filesys db0)
     \<lparr>files := (files (filesys db0))(indexPath db := None, rowIndexPath db := None)\<rparr>\<rparr>"

lemma without_indexes_kept:
  assumes db: "database_ok db" and c: "Close os db = (status, db0)"
  shows "value_files_kept db (without_indexes db db0)"
    and "index_file_unusable (start_open (without_indexes db db0) (directory db) opts False)"
    and "row_index_file_unusable (start_open (without_indexes db db0) (directory db) opts False)"
proof -
  have db0: "snd (Close os db) = db0" by (simp add: c)
  note rest = Close_at_rest(1) [OF db refl, of os, unfolded db0]
  have "paths_set db" using db by (simp add: database_ok_def)
  note pd = paths_distinct [OF this]
  have "all_closed db0" "dirs (filesys db0) (directory db)"
    using Close_database(2,3) [OF db, of os] db db0 by (simp_all add: database_ok_def)
  then show "value_files_kept db (without_indexes db db0)"
    using rest pd(1,2) pd(5,6) [symmetric]
    by (simp add: value_files_kept_def values_at_rest_def without_indexes_def all_closed_def)
  have "indexPath (start_open (without_indexes db db0) (directory db) opts False) = indexPath db"
    "rowIndexPath (start_open (without_indexes db db0) (directory db) opts False) = rowIndexPath db"
    using \<open>paths_set db\<close> by (simp_all add: start_open_def set_paths_def paths_set_def)
  then show "index_file_unusable (start_open (without_indexes db db0) (directory db) opts False)"
    and "row_index_file_unusable (start_open (without_indexes db db0) (directory db) opts False)"
    by (simp_all add: index_file_unusable_def row_index_file_unusable_def) (simp_all add: without_indexes_def)
qed

lemma Open_rebuilds_lost_indexes_witness:
  "\<exists>db db1 status db0 db2. Open choppy_os (Impl_default empty_fs) ''data'' DatabaseOptions_default = Some (Ok, db) \<and>
    PutStructs choppy_os db [7] sample_entries = Some (Ok, db1) \<and> Close choppy_os db1 = (status, db0) \<and>
    Open choppy_os (without_indexes db1 db0) ''data'' DatabaseOptions_default = Some (Ok, db2) \<and>
    objects db2 ([7], [1]) = Some [11, 12]"
proof -
  obtain db db1 status db0 where r:
    "Open choppy_os (Impl_default empty_fs) ''data'' DatabaseOptions_default = Some (Ok, db)"
    "PutStructs choppy_os db [7] sample_entries = Some (Ok, db1)" "database_ok db1" "directory db1 = ''data''"
    "objects db1 = store_entries [7] sample_entries (\<lambda>_. None)" "Close choppy_os db1 = (status, db0)"
    "rowShardCount DatabaseOptions_default = rowShardCount (options db1)"
    "length (value_bytes db1) \<le> 10000" "sum_list (map length (shards_of db1)) \<le> 10000"
    by (rule closed_sample)
  have "options_fit DatabaseOptions_default (max (length (value_bytes db1)) (sum_list (map length (shards_of db1))))"
    by (rule options_fit_mono [OF default_options_fit]) (use r(8,9) in linarith)
  from Open_rebuilds_lost_indexes [OF choppy_calls r(3) without_indexes_kept(1) [OF r(3,6)] this r(7)
      without_indexes_kept(2,3) [OF r(3,6)]] r
  show ?thesis by (auto simp: sample_entries_def)
qed

lemma counters_are_exact_witness:
  "\<exists>db. Open choppy_os (Impl_default empty_fs) ''data'' DatabaseOptions_default = Some (Ok, db) \<and> EntryCount db = 0"
proof -
  obtain db where db: "Open choppy_os (Impl_default empty_fs) ''data'' DatabaseOptions_default = Some (Ok, db)" "just_created db"
    by (rule just_createdI)
  have "unat (EntryCount db) = 0" using counters_are_exact [of db] db(2) by (simp add: just_created_def)
  then show ?thesis using db(1) by (auto simp: unat_eq_0)
qed

end
