(* ===== verification/Open_Outcomes.thy ===== *)
theory Open_Outcomes
  imports Database_Theorems
begin

text \<open>
  The ways an open can end, on any system and any files: no step before the last one marks the
  database open, so it ends open with status OK, or with everything closed and an error.
\<close>

subsection \<open>No step touches the flags, the options or the paths\<close>

definition same_flags :: "Impl \<Rightarrow> Impl \<Rightarrow> bool" where
  "same_flags db db' \<longleftrightarrow> opened db' = opened db \<and> readOnly db' = readOnly db \<and> directory db' = directory db \<and>
     options db' = options db \<and> valuePath db' = valuePath db \<and> indexPath db' = indexPath db \<and> rowIndexPath db' = rowIndexPath db"

lemma same_flags_refl [simp]: "same_flags db db"
  by (simp add: same_flags_def)

lemma same_flags_trans: "same_flags a b \<Longrightarrow> same_flags b c \<Longrightarrow> same_flags a c"
  by (simp add: same_flags_def)

lemma same_flags_steps [simp]:
  "same_flags db (set_Bucket i b db') = same_flags db db'" "same_flags db (set_IndexHeader h db') = same_flags db db'"
  "same_flags db (increment_itemCount db') = same_flags db db'"
  "same_flags db (set_RowBucket i rb db') = same_flags db db'" "same_flags db (set_RowIndexHeader rh db') = same_flags db db'"
  "same_flags db (increment_rowItemCount db') = same_flags db db'"
  by (simp_all add: same_flags_def set_Bucket_def set_IndexHeader_def increment_itemCount_def
      set_RowBucket_def set_RowIndexHeader_def increment_rowItemCount_def)

lemma same_flags_fields [simp]:
  "same_flags db (db'\<lparr>filesys := fs\<rparr>) = same_flags db db'" "same_flags db (db'\<lparr>indexMap := m\<rparr>) = same_flags db db'"
  "same_flags db (db'\<lparr>rowIndexMap := rm\<rparr>) = same_flags db db'" "same_flags db (db'\<lparr>appendOffset := off\<rparr>) = same_flags db db'"
  "same_flags db (db'\<lparr>rowAppendOffsets := offs\<rparr>) = same_flags db db'"
  "same_flags db (db'\<lparr>valueFile := fd\<rparr>) = same_flags db db'" "same_flags db (db'\<lparr>indexFile := fd\<rparr>) = same_flags db db'"
  "same_flags db (db'\<lparr>rowIndexFile := fd\<rparr>) = same_flags db db'" "same_flags db (db'\<lparr>valueMap := vm\<rparr>) = same_flags db db'"
  "same_flags db (db'\<lparr>rowValueFiles := fds\<rparr>) = same_flags db db'" "same_flags db (db'\<lparr>rowValueMaps := vms\<rparr>) = same_flags db db'"
  "same_flags (db'\<lparr>filesys := fs\<rparr>) db = same_flags db' db" "same_flags (db'\<lparr>indexMap := m\<rparr>) db = same_flags db' db"
  "same_flags (db'\<lparr>rowIndexMap := rm\<rparr>) db = same_flags db' db" "same_flags (db'\<lparr>appendOffset := off\<rparr>) db = same_flags db' db"
  "same_flags (db'\<lparr>rowAppendOffsets := offs\<rparr>) db = same_flags db' db"
  "same_flags (db'\<lparr>valueFile := fd\<rparr>) db = same_flags db' db" "same_flags (db'\<lparr>indexFile := fd\<rparr>) db = same_flags db' db"
  "same_flags (db'\<lparr>rowIndexFile := fd\<rparr>) db = same_flags db' db" "same_flags (db'\<lparr>valueMap := vm\<rparr>) db = same_flags db' db"
  "same_flags (db'\<lparr>rowValueFiles := fds\<rparr>) db = same_flags db' db" "same_flags (db'\<lparr>rowValueMaps := vms\<rparr>) db = same_flags db' db"
  by (simp_all add: same_flags_def)

lemma same_flags_unmap [simp]:
  "same_flags db (unmap_index db') = same_flags db db'" "same_flags db (unmap_row_index db') = same_flags db db'"
  by (simp_all add: unmap_index_def unmap_row_index_def split: option.split)

lemma CreateEmptyIndex_flags: "CreateEmptyIndex os db n = Some (status, db') \<Longrightarrow> same_flags db db'"
  by (auto simp: CreateEmptyIndex_def Let_def split: option.splits prod.splits if_splits)

lemma place_existing_all_flags: "same_flags db (snd (place_existing_all bs db))"
proof (induction bs arbitrary: db)
  case (Cons b bs)
  obtain status db1 where p: "PlaceExistingBucket db b = (status, db1)" by fastforce
  then have "same_flags db (increment_itemCount db1)"
    by (auto simp: PlaceExistingBucket_def Let_def split: option.splits)
  then show ?case using same_flags_trans [OF _ Cons.IH] by (simp add: p)
qed simp

lemma EnsureCapacityForInsert_flags: "EnsureCapacityForInsert os db n = Some (status, db') \<Longrightarrow> same_flags db db'"
proof -
  assume "EnsureCapacityForInsert os db n = Some (status, db')"
  then consider "db' = db" | k where "ResizeIndex os db k = Some (status, db')"
    by (auto simp: EnsureCapacityForInsert_def Let_def split: option.splits if_splits)
  then show ?thesis
  proof cases
    case 2
    then obtain st db1 where c: "CreateEmptyIndex os db k = Some (st, db1)"
      and r: "db' = db1 \<or> (\<exists>bs h. db' = snd (place_existing_all bs (set_IndexHeader h db1)))"
      by (auto simp: ResizeIndex_def Let_def split: option.splits if_splits) (metis snd_conv)
    have "same_flags db1 db'" using r place_existing_all_flags same_flags_trans same_flags_steps(2) same_flags_refl by metis
    then show ?thesis using CreateEmptyIndex_flags [OF c] same_flags_trans by blast
  qed simp
qed

lemma rebuild_loop_flags:
  assumes "rebuild_loop os fileSize off db = Some r"
  shows "same_flags db (snd r)"
proof (rule rebuild_loop.raw_induct [where P = "\<lambda>_ _ _ db r. same_flags db (snd r)", OF _ assms], goal_cases)
  case (1 loop os fileSize off db r)
  have step: "loop os fileSize off' db2 = Some r \<Longrightarrow> same_flags db1 db2 \<Longrightarrow> same_flags db db1 \<Longrightarrow> same_flags db (snd r)"
    for off' db1 db2
    using 1(1) same_flags_trans by blast
  show ?case
    using 1(2)
    by (auto simp: Let_def split: if_splits sum.splits option.splits dest: EnsureCapacityForInsert_flags elim!: step)
qed

lemma MigrateLegacyValueFile_flags: "MigrateLegacyValueFile os db n = Some (status, db') \<Longrightarrow> same_flags db db'"
  by (auto simp: MigrateLegacyValueFile_def Let_def split: option.splits prod.splits if_splits)

lemma OpenValueFile_flags: "OpenValueFile os db = Some (status, db') \<Longrightarrow> same_flags db db'"
  by (auto simp: OpenValueFile_def Let_def split: option.splits prod.splits if_splits sum.splits
      dest!: MigrateLegacyValueFile_flags)

lemma RebuildIndexFromValues_flags: "RebuildIndexFromValues os db = Some (status, db') \<Longrightarrow> same_flags db db'"
  by (auto simp: RebuildIndexFromValues_def split: option.splits sum.splits prod.splits if_splits dest!: rebuild_loop_flags)

lemma OpenIndexFile_flags: "OpenIndexFile os db = Some (status, db') \<Longrightarrow> same_flags db db'"
  by (auto simp: OpenIndexFile_def Let_def split: option.splits prod.splits if_splits sum.splits
      dest!: CreateEmptyIndex_flags RebuildIndexFromValues_flags intro: same_flags_trans)

text \<open>The row files in the same way.\<close>

lemma open_row_value_file_flags: "same_flags db (snd (open_row_value_file os s db))"
  by (cases "readOnly db") (simp_all add: open_row_value_file_def Let_def split: prod.split sum.split if_split)

lemma open_row_value_files_flags: "same_flags db (snd (open_row_value_files os ids db))"
proof (induction ids arbitrary: db)
  case (Cons s ids)
  obtain status db1 where p: "open_row_value_file os s db = (status, db1)" by fastforce
  then have "same_flags db db1" using open_row_value_file_flags [of db os s] by simp
  then show ?case using same_flags_trans [OF _ Cons.IH] by (simp add: p)
qed simp

lemma OpenRowValueFiles_flags: "OpenRowValueFiles os db = (status, db') \<Longrightarrow> same_flags db db'"
  using open_row_value_files_flags [of "db\<lparr>rowValueFiles := fds, rowValueMaps := ms, rowAppendOffsets := offs\<rparr>" os ids
      for fds ms offs ids]
  by (simp add: OpenRowValueFiles_def Let_def) (metis snd_conv)

lemma CreateEmptyRowIndex_flags: "CreateEmptyRowIndex os db n = Some (status, db') \<Longrightarrow> same_flags db db'"
  by (auto simp: CreateEmptyRowIndex_def Let_def split: option.splits prod.splits if_splits)

lemma place_existing_rows_flags: "same_flags db (snd (place_existing_rows bs db))"
proof (induction bs arbitrary: db)
  case (Cons b bs)
  obtain status db1 where p: "PlaceExistingRowBucket db b = (status, db1)" by fastforce
  then have "same_flags db (increment_rowItemCount db1)"
    by (auto simp: PlaceExistingRowBucket_def Let_def split: option.splits)
  then show ?case using same_flags_trans [OF _ Cons.IH] by (simp add: p)
qed simp

lemma EnsureRowCapacityForInsert_flags: "EnsureRowCapacityForInsert os db = Some (status, db') \<Longrightarrow> same_flags db db'"
proof -
  assume "EnsureRowCapacityForInsert os db = Some (status, db')"
  then consider "db' = db" | k where "ResizeRowIndex os db k = Some (status, db')"
    by (auto simp: EnsureRowCapacityForInsert_def Let_def split: if_splits)
  then show ?thesis
  proof cases
    case 2
    then obtain st db1 where c: "CreateEmptyRowIndex os db k = Some (st, db1)"
      and r: "db' = db1 \<or> (\<exists>bs h. db' = snd (place_existing_rows bs (set_RowIndexHeader h db1)))"
      by (auto simp: ResizeRowIndex_def Let_def split: option.splits if_splits) (metis snd_conv)
    have "same_flags db1 db'" using r place_existing_rows_flags same_flags_trans same_flags_steps(5) same_flags_refl by metis
    then show ?thesis using CreateEmptyRowIndex_flags [OF c] same_flags_trans by blast
  qed simp
qed

lemma rebuild_shard_loop_flags:
  assumes "rebuild_shard_loop os shardId fileSize off ns db = Some r"
  shows "same_flags db (snd (snd r))"
proof (rule rebuild_shard_loop.raw_induct [where P = "\<lambda>_ _ _ _ _ db r. same_flags db (snd (snd r))", OF _ assms], goal_cases)
  case (1 loop os shardId fileSize off ns db r)
  have step: "loop os shardId fileSize off' ns' db2 = Some r \<Longrightarrow> same_flags db1 db2 \<Longrightarrow> same_flags db db1 \<Longrightarrow>
      same_flags db (snd (snd r))" for off' ns' db1 db2
    using 1(1) same_flags_trans by blast
  show ?case
    using 1(2)
    by (auto simp: Let_def split: if_splits sum.splits option.splits dest: EnsureRowCapacityForInsert_flags elim!: step)
qed

lemma rebuild_shards_flags: "rebuild_shards os ids ns db = Some (status, n', db') \<Longrightarrow> same_flags db db'"
proof (induction ids arbitrary: ns db)
  case (Cons s ids)
  show ?case
    using Cons.prems
    by (auto split: sum.splits option.splits if_splits dest!: Cons.IH rebuild_shard_loop_flags)
      (blast intro: same_flags_trans)
qed simp

lemma RebuildRowIndexFromValues_flags: "RebuildRowIndexFromValues os db = Some (status, db') \<Longrightarrow> same_flags db db'"
  by (auto simp: RebuildRowIndexFromValues_def split: option.splits prod.splits if_splits dest!: rebuild_shards_flags)

lemma OpenRowIndexFile_flags: "OpenRowIndexFile os db = Some (status, db') \<Longrightarrow> same_flags db db'"
  by (auto simp: OpenRowIndexFile_def Let_def split: option.splits prod.splits if_splits sum.splits
      dest!: CreateEmptyRowIndex_flags RebuildRowIndexFromValues_flags intro: same_flags_trans)

subsection \<open>Open or closed\<close>

lemma CloseFiles_closed:
  shows "all_closed ((CloseFiles db)\<lparr>opened := False, readOnly := False\<rparr>)" and "\<not> opened db \<Longrightarrow> all_closed (CloseFiles db)"
proof -
  have "opened (unmap_index db) = opened db" "opened (unmap_row_index db) = opened db" for db
    by (simp_all add: unmap_index_def unmap_row_index_def split: option.split)
  moreover have "rowIndexFile (unmap_index db) = rowIndexFile db" "rowValueFiles (unmap_index db) = rowValueFiles db"
    "rowIndexMap (unmap_index db) = rowIndexMap db" "rowIndexMap (unmap_row_index db) = Unmapped"
    "indexMap (unmap_index db) = Unmapped" for db
    by (simp_all add: unmap_index_def unmap_row_index_def split: option.split)
  ultimately show "all_closed ((CloseFiles db)\<lparr>opened := False, readOnly := False\<rparr>)"
    and "\<not> opened db \<Longrightarrow> all_closed (CloseFiles db)"
    by (simp_all add: all_closed_def CloseFiles_def Let_def)
qed

definition open_outcome :: "bool \<Rightarrow> Status \<Rightarrow> Impl \<Rightarrow> bool" where
  "open_outcome ro status db \<longleftrightarrow>
     (if IsOk status then status = Ok \<and> opened db \<and> readOnly db = ro else all_closed db)"

lemma open_files_outcome:
  assumes r: "open_files os db = Some (status, db')" and closed: "\<not> opened db"
  shows "open_outcome (readOnly db) status db'"
proof -
  have err: "open_outcome ro st (CloseFiles b)" if "\<not> IsOk st" "same_flags db b" for ro st b
    using that closed CloseFiles_closed(2) [of b] by (simp add: open_outcome_def same_flags_def)
  obtain s1 db1 where 1: "OpenValueFile os db = Some (s1, db1)" using r by (auto simp: open_files_def split: option.splits)
  note f1 = OpenValueFile_flags [OF 1]
  show ?thesis
  proof (cases "IsOk s1")
    case False
    then show ?thesis using r err [OF False f1] by (auto simp: open_files_def 1)
  next
    case ok1: True
    obtain s2 db2 where 2: "OpenIndexFile os db1 = Some (s2, db2)"
      using r ok1 by (auto simp: open_files_def 1 split: option.splits)
    note f2 = same_flags_trans [OF f1 OpenIndexFile_flags [OF 2]]
    show ?thesis
    proof (cases "IsOk s2")
      case False
      then show ?thesis using r ok1 err [OF False f2] by (auto simp: open_files_def 1 2)
    next
      case ok2: True
      obtain s3 db3 where 3: "OpenRowValueFiles os db2 = (s3, db3)" by fastforce
      note f3 = same_flags_trans [OF f2 OpenRowValueFiles_flags [OF 3]]
      show ?thesis
      proof (cases "IsOk s3")
        case False
        then show ?thesis using r ok1 ok2 err [OF False f3] by (auto simp: open_files_def 1 2 3)
      next
        case ok3: True
        obtain s4 db4 where 4: "OpenRowIndexFile os db3 = Some (s4, db4)"
          using r ok1 ok2 ok3 by (auto simp: open_files_def 1 2 3 split: option.splits)
        note f4 = same_flags_trans [OF f3 OpenRowIndexFile_flags [OF 4]]
        show ?thesis
          using r ok1 ok2 ok3 err [of s4 db4] f4
          by (auto simp: open_files_def 1 2 3 4 open_outcome_def same_flags_def split: if_splits)
      qed
    qed
  qed
qed

lemma OpenInternal_outcome:
  assumes r: "OpenInternal os db dir opts ro = Some (status, db')" and "opened db \<or> all_closed db"
  shows "open_outcome ro status db'"
proof -
  obtain st db0 where c: "(if opened db then Close os db else (Ok, db)) = (st, db0)" by fastforce
  have closed: "all_closed db0"
  proof (cases "opened db")
    case True
    then have "db0 = (CloseFiles db)\<lparr>opened := False, readOnly := False\<rparr>" using c by (simp add: Close_def)
    then show ?thesis by (simp add: CloseFiles_closed(1))
  qed (use c assms(2) in simp)
  show ?thesis
  proof (cases "IsOk st \<and> \<not> (dle (maxLoadFactor opts) (Fin 0) \<or> dge (maxLoadFactor opts) (Fin (fl (95 / 100))))")
    case False
    then have "\<not> IsOk status \<and> db' = db0" using r by (cases "IsOk st") (auto simp: OpenInternal_def c)
    then show ?thesis using closed by (simp add: open_outcome_def)
  next
    case pass: True
    define db1 where "db1 = db0\<lparr>directory := dir, options := opts, readOnly := ro, rowPendingInsertCount := 0\<rparr>"
    obtain n rn where n: "RoundUpPowerOfTwo (initialBucketCount opts) = Some n"
        "RoundUpPowerOfTwo (initialRowBucketCount opts) = Some rn"
      using r pass by (simp add: OpenInternal_def c Let_def db1_def split: option.splits)
    define db2 where "db2 = db1\<lparr>options := opts\<lparr>initialBucketCount := n, initialRowBucketCount := rn\<rparr>\<rparr>"
    obtain ps fs where prep: "prepare_directory os db2 = (ps, fs)" by fastforce
    have run: "Some (status, db') =
        (if rowShardCount (options db2) = 0 then Some (InvalidArgument ''rowShardCount must be greater than zero'', db2)
         else if \<not> IsOk ps then Some (ps, db2\<lparr>filesys := fs\<rparr>) else open_files os (set_paths (db2\<lparr>filesys := fs\<rparr>)))"
      using r pass n prep by (auto simp: OpenInternal_def c Let_def db2_def db1_def split: if_splits)
    have d2: "\<not> opened db2" "readOnly db2 = ro" using closed by (simp_all add: db2_def db1_def all_closed_def)
    have closed2: "all_closed (db2\<lparr>filesys := fs\<rparr>)" "all_closed db2" for fs
      using closed by (simp_all add: db2_def db1_def all_closed_def)
    have "open_outcome ro status db'" if "open_files os (set_paths (db2\<lparr>filesys := fs\<rparr>)) = Some (status, db')"
      using open_files_outcome [OF that] d2 by (simp add: set_paths_def)
    then show ?thesis
      using run closed2 by (auto simp: open_outcome_def split: if_splits)
  qed
qed

end
