(* ===== verification/Scan_Termination.thy ===== *)
theory Scan_Termination
  imports Row_Files Value_File
begin

text \<open>
  The scans that rebuild an index end, whatever the system calls answer: a scan stops at the first error, and
  on its way it moves forward as long as no header it meets describes a record, or a block, of size 0.  (That
  sum is taken in 64 bits, so a damaged header can wrap it to 0, and then the scan stays where it is for ever.)
  On the way the table stays small enough for the growth loop to end.
\<close>

lemma ReadAllAt_Inr:
  assumes "ReadAllAt os fs (Some path) n off = Inr bs" and "length (file_content fs path) < 2 ^ 63"
  shows "bs = take n (drop (unat off) (file_content fs path)) \<and> length bs = n"
  using assms pread_loop_sound by (simp add: ReadAllAt_def)

lemma unat_add1_le: "unat (x + 1 :: u64) \<le> Suc (unat x)"
proof (cases "unat x + 1 < 18446744073709551616")
  case True
  then show ?thesis using unat_add64 [of x 1] by simp
next
  case False
  have "unat (x + 1) < 18446744073709551616" by (rule unat_bound64)
  then show ?thesis using False by linarith
qed

lemma length_filter_update_le: "length (filter P (xs[i := x])) \<le> Suc (length (filter P xs))"
proof (cases "i < length xs")
  case True
  then show ?thesis using length_filter_update [OF True, of P x] by (auto split: if_splits)
qed (simp add: list_update_beyond)

lemma set_update_cases: "b \<in> set (xs[i := x]) \<Longrightarrow> b = x \<or> b \<in> set xs"
  using set_update_subset_insert [of xs i x] by blast

subsection \<open>The object index while it is rebuilt\<close>

text \<open>A mapped table of \<open>2 ^ k\<close> buckets with at most \<open>m\<close> items.\<close>

definition table_within :: "nat \<Rightarrow> Impl \<Rightarrow> bool" where
  "table_within m db \<longleftrightarrow>
     (\<exists>v k. mapped_data (indexMap db) = Some v \<and> 4 \<le> k \<and> k \<le> 58 \<and>
        ih_bucketCount (oi_header v) = 2 ^ k \<and> length (oi_buckets v) = 2 ^ k \<and>
        unat (ih_itemCount (oi_header v)) \<le> m \<and> length (occupied vacant_bucket (oi_buckets v)) \<le> m)"

lemma table_within_mono: "table_within m db \<Longrightarrow> m \<le> n \<Longrightarrow> table_within n db"
  unfolding table_within_def by (meson order_trans)

lemma table_within_set:
  assumes "table_within m db"
  shows "table_within (Suc m) (set_Bucket i b db)" and "table_within (Suc m) (increment_itemCount (set_Bucket i b db))"
proof -
  obtain v k where v: "mapped_data (indexMap db) = Some v" "4 \<le> k" "k \<le> 58" "ih_bucketCount (oi_header v) = 2 ^ k"
      "length (oi_buckets v) = 2 ^ k" "unat (ih_itemCount (oi_header v)) \<le> m" "length (occupied vacant_bucket (oi_buckets v)) \<le> m"
    using assms unfolding table_within_def by blast
  have n: "length (occupied vacant_bucket ((oi_buckets v)[i := b])) \<le> Suc m"
    using length_filter_update_le [of "\<lambda>b. \<not> vacant_bucket b" "oi_buckets v" i b] v(7) by (simp add: occupied_def)
  show "table_within (Suc m) (set_Bucket i b db)"
    unfolding table_within_def set_Bucket_def using v n
    by (intro exI [of _ "v\<lparr>oi_buckets := (oi_buckets v)[i := b]\<rparr>"] exI [of _ k]) simp
  have "unat (ih_itemCount (oi_header v) + 1) \<le> Suc m"
    using unat_add1_le [of "ih_itemCount (oi_header v)"] v(6) by simp
  then show "table_within (Suc m) (increment_itemCount (set_Bucket i b db))"
    unfolding table_within_def set_Bucket_def increment_itemCount_def set_IndexHeader_def using v n
    by (intro exI [of _ "v\<lparr>oi_buckets := (oi_buckets v)[i := b], oi_header := (oi_header v)\<lparr>ih_itemCount := ih_itemCount (oi_header v) + 1\<rparr>\<rparr>"]
        exI [of _ k]) (simp add: IndexHeader_def)
qed

lemma index_frame_updates [simp]:
  "index_frame db (set_Bucket i b db)" "index_frame db (set_IndexHeader h db)" "index_frame db (increment_itemCount db)"
proof -
  show b: "index_frame db (set_IndexHeader h db)" for h
    unfolding set_IndexHeader_def
    by (rule index_frameI [where fs = "filesys db" and m = "(indexMap db)\<lparr>mapped_data := map_option (\<lambda>v. v\<lparr>oi_header := h\<rparr>) (mapped_data (indexMap db))\<rparr>"]) simp_all
  show "index_frame db (set_Bucket i b db)"
    unfolding set_Bucket_def
    by (rule index_frameI [where fs = "filesys db" and m = "(indexMap db)\<lparr>mapped_data :=
       map_option (\<lambda>v. v\<lparr>oi_buckets := (oi_buckets v)[i := b]\<rparr>) (mapped_data (indexMap db))\<rparr>"]) simp_all
  show "index_frame db (increment_itemCount db)" unfolding increment_itemCount_def by (rule b)
qed

lemma place_existing_all_within:
  "table_within m db \<Longrightarrow> index_frame db (snd (place_existing_all bs db)) \<and>
    table_within (m + length bs) (snd (place_existing_all bs db))"
proof (induction bs arbitrary: db m)
  case (Cons b bs)
  obtain st db1 where p: "PlaceExistingBucket db b = (st, db1)" by fastforce
  then consider "\<not> IsOk st" "db1 = db" | i where "db1 = set_Bucket i b db"
    by (auto simp: PlaceExistingBucket_def Let_def split: option.splits)
  then show ?case
  proof cases
    case 1
    then show ?thesis using Cons.prems table_within_mono [OF Cons.prems] by (simp add: p)
  next
    case (2 i)
    have fr: "index_frame db db1" "index_frame db (increment_itemCount db1)"
      using index_frame_trans [OF index_frame_updates(1) index_frame_updates(3)] by (simp_all add: 2)
    have "table_within (Suc m) db1" "table_within (Suc m) (increment_itemCount db1)"
      using table_within_set [OF Cons.prems] by (simp_all add: 2)
    then show ?thesis
      using fr Cons.IH [of "Suc m" "increment_itemCount db1"] index_frame_trans [OF fr(2)]
        table_within_mono [of "Suc m" db1 "Suc (m + length bs)"]
      by (simp add: p Let_def)
  qed
qed simp

lemma CreateEmptyIndex_total:
  assumes j: "4 \<le> j" "j \<le> 58"
  shows "\<exists>st db'. CreateEmptyIndex os db (2 ^ j) = Some (st, db') \<and> (IsOk st \<longrightarrow> index_frame db db' \<and> table_within 0 db')"
proof -
  define sz where "sz = (64 + 2 ^ j * 16 :: u64)"
  define db1 where "db1 = unmap_index db"
  have fr: "index_frame db db1" by (simp add: db1_def unmap_index_frame)
  obtain st fs where t: "TruncateFile os (filesys db1) (indexFile db1) sz = (st, fs)" by fastforce
  have n: "(unat sz - 64) div 16 = unat ((2 :: u64) ^ j)" using index_file_size [OF j(2)] j by (simp add: sz_def)
  obtain st2 m where mp: "MapWithProtection os (indexFile db1) (empty_index (2 ^ j)) sz True = (st2, m)" by fastforce
  have run: "CreateEmptyIndex os db (2 ^ j) =
      (if \<not> IsOk st then Some (st, db1\<lparr>filesys := fs\<rparr>) else Some (st2, db1\<lparr>filesys := fs, indexMap := m\<rparr>))"
    using mp by (simp add: CreateEmptyIndex_def RoundUpPowerOfTwo_pow2 [OF j] Let_def t n empty_index_def flip: db1_def sz_def)
  have "index_frame db (db1\<lparr>filesys := fs, indexMap := m\<rparr>) \<and> table_within 0 (db1\<lparr>filesys := fs, indexMap := m\<rparr>)"
    if ok: "IsOk st" "IsOk st2"
  proof -
    have "dirs fs = dirs (filesys db1) \<and> (\<forall>path. indexFile db1 \<noteq> Some path \<longrightarrow> files fs path = files (filesys db1) path)"
      using t ok(1) by (auto simp: TruncateFile_def set_file_def split: option.splits if_splits)
    then have "index_frame db1 (db1\<lparr>filesys := fs, indexMap := m\<rparr>)"
      by (intro index_frameI [where fs = fs and m = m]) simp_all
    moreover have "mapped_data m = Some (empty_index (2 ^ j))"
      using mp ok(2) by (auto simp: MapWithProtection_def split: option.splits if_splits)
    then have "table_within 0 (db1\<lparr>filesys := fs, indexMap := m\<rparr>)"
      unfolding table_within_def using j
      by (intro exI [of _ "empty_index (2 ^ j)"] exI [of _ j])
        (simp add: empty_index_def occupied_def, simp add: IndexFileHeader_default_def)
    ultimately show ?thesis using index_frame_trans [OF fr] by blast
  qed
  then show ?thesis using run by auto
qed

lemma ResizeIndex_total:
  assumes t: "table_within m db" and j: "4 \<le> j" "j \<le> 58"
  shows "\<exists>st db'. ResizeIndex os db (2 ^ j) = Some (st, db') \<and> (IsOk st \<longrightarrow> index_frame db db' \<and> table_within m db')"
proof -
  obtain v k where v: "mapped_data (indexMap db) = Some v" "4 \<le> k" "k \<le> 58" "ih_bucketCount (oi_header v) = 2 ^ k"
      "length (oi_buckets v) = 2 ^ k" "unat (ih_itemCount (oi_header v)) \<le> m" "length (occupied vacant_bucket (oi_buckets v)) \<le> m"
    using t unfolding table_within_def by blast
  let ?old = "occupied vacant_bucket (oi_buckets v)"
  have old: "filter (\<lambda>bucket. ib_hash bucket \<noteq> 0) (map (\<lambda>index. Buckets db ! index) [0..<unat (ih_bucketCount (IndexHeader db))]) = ?old"
    using v occupied_by_index [of vacant_bucket "oi_buckets v"] by (simp add: Buckets_def IndexHeader_def)
  obtain st db1 where c: "CreateEmptyIndex os db (2 ^ j) = Some (st, db1)" "IsOk st \<Longrightarrow> index_frame db db1 \<and> table_within 0 db1"
    using CreateEmptyIndex_total [OF j, of os db] by blast
  show ?thesis
  proof (cases "IsOk st")
    case False
    then show ?thesis by (simp add: ResizeIndex_def Let_def old c)
  next
    case True
    define db2 where "db2 = set_IndexHeader ((IndexHeader db1)\<lparr>ih_nextSequence := ih_nextSequence (IndexHeader db)\<rparr>) db1"
    have fr: "index_frame db db2"
      using c(2) [OF True] index_frame_trans [OF _ index_frame_updates(2)] by (simp add: db2_def)
    obtain w j' where w: "mapped_data (indexMap db1) = Some w" "4 \<le> j'" "j' \<le> 58" "ih_bucketCount (oi_header w) = 2 ^ j'"
        "length (oi_buckets w) = 2 ^ j'" "unat (ih_itemCount (oi_header w)) \<le> 0" "length (occupied vacant_bucket (oi_buckets w)) \<le> 0"
      using c(2) [OF True] unfolding table_within_def by blast
    have "table_within 0 db2"
      unfolding table_within_def db2_def set_IndexHeader_def using w
      by (intro exI [of _ "w\<lparr>oi_header := (oi_header w)\<lparr>ih_nextSequence := ih_nextSequence (IndexHeader db)\<rparr>\<rparr>"] exI [of _ j'])
        (simp add: IndexHeader_def)
    note P = place_existing_all_within [OF this, of ?old]
    have "ResizeIndex os db (2 ^ j) = Some (place_existing_all ?old db2)"
      using True by (simp add: ResizeIndex_def Let_def old c db2_def)
    moreover have "index_frame db (snd (place_existing_all ?old db2))" using P index_frame_trans [OF fr] by blast
    moreover have "table_within m (snd (place_existing_all ?old db2))" using P v(7) table_within_mono by fastforce
    ultimately show ?thesis by (metis prod.collapse)
  qed
qed

text \<open>Room for up to \<open>n\<close> items.\<close>

definition items_fit :: "DatabaseOptions \<Rightarrow> nat \<Rightarrow> bool" where
  "items_fit opts n \<longleftrightarrow> (\<exists>f. maxLoadFactor opts = Fin f \<and> f < 1 \<and> n < 2 ^ 53 \<and> rat_of_nat n \<le> f * 2 ^ 56)"

lemma items_fit_mono: "items_fit opts n \<Longrightarrow> m \<le> n \<Longrightarrow> items_fit opts m"
  unfolding items_fit_def by (meson le_less_trans of_nat_le_iff order_trans)

lemma EnsureCapacityForInsert_total:
  assumes t: "table_within m db" and fit: "items_fit (options db) (Suc m)"
  shows "\<exists>st db'. EnsureCapacityForInsert os db 1 = Some (st, db') \<and> (IsOk st \<longrightarrow> index_frame db db' \<and> table_within m db')"
proof -
  obtain v k where v: "mapped_data (indexMap db) = Some v" "4 \<le> k" "k \<le> 58" "ih_bucketCount (oi_header v) = 2 ^ k"
      "length (oi_buckets v) = 2 ^ k" "unat (ih_itemCount (oi_header v)) \<le> m" "length (occupied vacant_bucket (oi_buckets v)) \<le> m"
    using t unfolding table_within_def by blast
  obtain f where f: "maxLoadFactor (options db) = Fin f" "f < 1" "Suc m < 2 ^ 53" "rat_of_nat (Suc m) \<le> f * 2 ^ 56"
    using fit by (auto simp: items_fit_def)
  let ?items = "ih_itemCount (oi_header v) + 1"
  have le: "unat ?items \<le> Suc m" using unat_add1_le [of "ih_itemCount (oi_header v)"] v(6) by simp
  then have small: "unat ?items < 2 ^ 53" using f(3) by simp
  have "rat_of_nat (unat ?items) \<le> f * 2 ^ 56" using le f(4) by (meson of_nat_le_iff order_trans)
  moreover have "0 \<le> f"
  proof (rule ccontr)
    assume "\<not> 0 \<le> f"
    then have "f * 2 ^ 56 < 0" by (simp add: mult_neg_pos)
    with f(4) show False by (meson leD of_nat_0_le_iff order_trans)
  qed
  ultimately have cap: "rat_of_nat (unat ?items) \<le> f * 2 ^ 58" by (simp add: order_trans)
  obtain j where j: "k \<le> j" "j \<le> 58" "capacity_loop ?items (Fin f) (2 ^ k) = Some (2 ^ j)"
    using capacity_loop_step [OF v(3) f(2) small cap] by blast
  have H: "IndexHeader db = oi_header v" using v(1) by (simp add: IndexHeader_def)
  show ?thesis
  proof (cases "(2 :: u64) ^ j = 2 ^ k")
    case True
    then show ?thesis using j(3) t by (simp add: EnsureCapacityForInsert_def Let_def H f(1) v(4))
  next
    case False
    then have "EnsureCapacityForInsert os db 1 = ResizeIndex os db (2 ^ j)"
      using j(3) by (simp add: EnsureCapacityForInsert_def Let_def H f(1) v(4))
    then show ?thesis using ResizeIndex_total [OF t _ j(2), of os] j(1) v(2) by simp
  qed
qed

subsection \<open>The scan of the value file\<close>

text \<open>The offsets the scan visits, and the size it reads there, summed up in 64 bits as in the code.\<close>

definition scanned_record_size :: "bytes \<Rightarrow> nat \<Rightarrow> u64" where
  "scanned_record_size c off =
     (let h = header_at c off in 24 + ucast (vr_columnSize h) + ucast (vr_keySize h) + vr_valueSize h)"

inductive record_walk :: "bytes \<Rightarrow> nat \<Rightarrow> bool" for c :: bytes where
  first_record: "record_walk c 24"
| next_record: "record_walk c off \<Longrightarrow> off + 24 \<le> length c \<Longrightarrow> IsValidRecordHeader (header_at c off) \<Longrightarrow>
    record_walk c (off + unat (scanned_record_size c off))"

definition records_advance :: "bytes \<Rightarrow> bool" where
  "records_advance c \<longleftrightarrow>
     (\<forall>off. record_walk c off \<and> off + 24 \<le> length c \<and> IsValidRecordHeader (header_at c off) \<longrightarrow> scanned_record_size c off \<noteq> 0)"

lemma rebuild_loop_total:
  assumes path: "valueFile db0 = Some path" "indexFile db0 \<noteq> Some path" and c: "c = file_content (filesys db0) path"
    and len: "length c < 2 ^ 53" and adv: "records_advance c" and fr: "index_frame db0 db" and walk: "record_walk c (unat off)"
    and t: "table_within m db" and fit: "items_fit (options db0) (m + (length c - unat off))"
  shows "\<exists>st db'. rebuild_loop os (of_nat (length c)) off db = Some (st, db') \<and> (IsOk st \<longrightarrow> index_frame db0 db')"
  using fr walk t fit
proof (induction "length c - unat off" arbitrary: off db m rule: less_induct)
  case less
  have un: "unat (of_nat (length c) :: u64) = length c" using len by (simp add: unat_of_nat64)
  have same: "valueFile db = Some path" "indexFile db = indexFile db0" "options db = options db0"
    using index_frameD(1,2,5) [OF less.prems(1)] path(1) by simp_all
  have content: "file_content (filesys db) path = c"
    using index_frameD(8) [OF less.prems(1) path(2)] by (simp add: c file_content_def)
  show ?case
  proof (cases "off < of_nat (length c)")
    case False
    then show ?thesis using less.prems(1) by (subst rebuild_loop.simps) simp
  next
    case lt: True
    then have less_c: "unat off < length c" using un by (simp add: word_less_nat_alt)
    show ?thesis
    proof (cases "ReadAllAt os (filesys db) (Some path) 24 off")
      case (Inl st)
      then have "rebuild_loop os (of_nat (length c)) off db = Some (st, db)"
        using lt by (subst rebuild_loop.simps) (simp add: same(1))
      then show ?thesis using less.prems(1) by simp
    next
      case (Inr bs)
      have "bs = take 24 (drop (unat off) c) \<and> length bs = 24"
        by (rule ReadAllAt_Inr [OF Inr, unfolded content]) (use len in simp)
      then have bs: "bs = take 24 (drop (unat off) c)" "length bs = 24" by blast+
      have in_c: "unat off + 24 \<le> length c" using bs by simp
      let ?h = "header_at c (unat off)" and ?size = "scanned_record_size c (unat off)"
      have h: "decode_ValueRecordHeader bs = ?h" by (simp add: header_at_def bs(1))
      have size: "24 + ucast (vr_columnSize ?h) + ucast (vr_keySize ?h) + vr_valueSize ?h = ?size"
        by (simp add: scanned_record_size_def Let_def)
      note unfold = rebuild_loop.simps [of os "of_nat (length c)" off db]
      show ?thesis
      proof (cases "IsValidRecordHeader ?h \<and> \<not> ?size > of_nat (length c) - off \<and> (\<exists>ck. ReadRecordColumnKey os db off ?h = Inr ck)")
        case False
        then have "\<exists>st. rebuild_loop os (of_nat (length c)) off db = Some (st, db)"
          using lt unfolding unfold same(1) Inr sum.case h Let_def size
          by (cases "ReadRecordColumnKey os db off ?h") auto
        then show ?thesis using less.prems(1) by auto
      next
        case True
        then obtain ck where ok: "IsValidRecordHeader ?h" "\<not> ?size > of_nat (length c) - off" "ReadRecordColumnKey os db off ?h = Inr ck"
          by blast
        have sub: "unat (of_nat (length c) - off) = length c - unat off" using less_c un by (simp add: unat_sub64)
        have size_le: "unat ?size \<le> length c - unat off" using ok(2) sub by (simp add: word_less_nat_alt)
        have "?size \<noteq> 0" using adv less.prems(2) in_c ok(1) unfolding records_advance_def by blast
        then have size_pos: "0 < unat ?size" by (simp add: unat_gt_0)
        have next_off: "unat (off + ?size) = unat off + unat ?size"
          using size_le len less_c by (intro unat_add64) simp
        have fit1: "items_fit (options db) (Suc m)"
          using items_fit_mono [OF less.prems(4)] less_c same(3) by simp
        obtain st db1 where e: "EnsureCapacityForInsert os db 1 = Some (st, db1)"
            "IsOk st \<Longrightarrow> index_frame db db1 \<and> table_within m db1"
          using EnsureCapacityForInsert_total [OF less.prems(3) fit1, of os] by blast
        show ?thesis
        proof (cases "IsOk st")
          case False
          then have "rebuild_loop os (of_nat (length c)) off db = Some (st, db1)"
            using lt ok e(1) unfolding unfold same(1) Inr sum.case h Let_def size by simp
          then show ?thesis using False by simp
        next
          case ok1: True
          have fr1: "index_frame db0 db1" using e(2) [OF ok1] index_frame_trans [OF less.prems(1)] by blast
          show ?thesis
          proof (cases "FindBucket os db1 (fst ck) (snd ck) (HashString (fst ck)) (HashString (snd ck))")
            case (Inl st')
            then have "rebuild_loop os (of_nat (length c)) off db = Some (st', db1)"
              using lt ok e(1) ok1 unfolding unfold same(1) Inr sum.case h Let_def size by simp
            then show ?thesis using fr1 by simp
          next
            case found: (Inr lookup)
            define db2 where "db2 = set_Bucket (lookup_index lookup)
              \<lparr>ib_hash = ObjectIndexHash (HashString (fst ck)) (HashString (snd ck)), ib_recordOffset = off\<rparr> db1"
            define db3 where "db3 = (if \<not> lookup_found lookup then increment_itemCount db2 else db2)"
            have run: "rebuild_loop os (of_nat (length c)) off db = rebuild_loop os (of_nat (length c)) (off + ?size) db3"
              using lt ok e(1) ok1 found unfolding unfold same(1) Inr sum.case h Let_def size by (simp add: db2_def db3_def)
            have "index_frame db1 db2" by (simp add: db2_def)
            then have "index_frame db1 db3" using index_frame_trans [OF _ index_frame_updates(3)] by (simp add: db3_def)
            then have fr3: "index_frame db0 db3" by (rule index_frame_trans [OF fr1])
            have t3: "table_within (Suc m) db3"
              using table_within_set [of m db1] e(2) [OF ok1] by (simp add: db3_def db2_def)
            have walk3: "record_walk c (unat (off + ?size))"
              unfolding next_off by (rule next_record [OF less.prems(2) in_c ok(1)])
            have fit3: "items_fit (options db0) (Suc m + (length c - unat (off + ?size)))"
              using size_pos size_le less_c by (intro items_fit_mono [OF less.prems(4)]) (simp add: next_off)
            have "length c - unat (off + ?size) < length c - unat off" using size_pos less_c by (simp add: next_off)
            from less.hyps [OF this fr3 walk3 t3 fit3] show ?thesis by (simp only: run)
          qed
        qed
      qed
    qed
  qed
qed

text \<open>The same lemma for \<open>OpenIndexFile\<close>: what it needs is said of the value file it may have to scan.\<close>

lemma set_file_other: "p \<noteq> path \<Longrightarrow> files (set_file fs path c) p = files fs p"
  by (simp add: set_file_def)

lemma OpenReadWriteCreate_files:
  assumes "OpenReadWriteCreate os fs path = (st, fd, fs')"
  shows "\<And>p. p \<noteq> path \<Longrightarrow> files fs' p = files fs p" and "file_content fs' p = file_content fs p"
    and "IsOk st \<Longrightarrow> fd = Some path"
  using assms by (auto simp: OpenReadWriteCreate_def set_file_def file_content_def split: option.splits if_splits)

lemma index_frame_others:
  assumes "index_frame db db'" and "indexFile db = Some path" and "p \<noteq> path"
  shows "files (filesys db') p = files (filesys db) p"
  using index_frameD(8) [OF assms(1)] assms(2,3) by simp

text \<open>The check of the layout stays inside the mapping when its product does not wrap.\<close>

definition index_in_bounds :: "bytes \<Rightarrow> bool" where
  "index_in_bounds c \<longleftrightarrow> (64 \<le> length c \<longrightarrow> 64 + 16 * unat (ih_bucketCount (decode_IndexFileHeader c)) < 2 ^ 64)"

definition row_index_in_bounds :: "bytes \<Rightarrow> bool" where
  "row_index_in_bounds c \<longleftrightarrow> (64 \<le> length c \<longrightarrow> 64 + 64 * unat (rih_bucketCount (decode_RowIndexFileHeader c)) < 2 ^ 64)"

lemma unat_of_nat_le64: "unat (of_nat n :: u64) \<le> n"
  by (simp add: unat_of_nat take_bit_eq_mod)

lemma HasValidIndexLayout_defined:
  assumes m: "mapped_data (indexMap db) = Some (decode_object_index c)" and c: "index_in_bounds c"
  shows "\<exists>b. HasValidIndexLayout db (of_nat (length c)) = Some b"
proof (rule ccontr)
  define n where "n = ih_bucketCount (decode_IndexFileHeader c)"
  assume "\<not> ?thesis"
  then have none: "HasValidIndexLayout db (of_nat (length c)) = None" by simp
  then have h: "\<not> of_nat (length c) < (64 :: u64)" "64 + n * 16 = of_nat (length c)" "(length c - 64) div 16 < unat n"
    using m by (auto simp: HasValidIndexLayout_def Let_def IndexHeader_def Buckets_def decode_object_index_def n_def split: if_splits)
  have le: "unat (of_nat (length c) :: u64) \<le> length c" by (rule unat_of_nat_le64)
  then have "64 \<le> length c" using h(1) by (simp add: word_less_nat_alt)
  then have b: "64 + 16 * unat n < 2 ^ 64" using c by (simp add: index_in_bounds_def n_def)
  then have "unat (n * 16) = unat n * 16" by (subst unat_mult64) simp_all
  then have "unat (64 + n * 16) = 64 + unat n * 16" using b by (subst unat_add64) simp_all
  then have "64 + unat n * 16 \<le> length c" using le by (simp only: h(2))
  then have "unat n \<le> (length c - 64) div 16" by simp
  then show False using h(3) by simp
qed

lemma HasValidRowIndexLayout_defined:
  assumes m: "mapped_data (rowIndexMap db) = Some (decode_row_index c)" and c: "row_index_in_bounds c"
  shows "\<exists>b. HasValidRowIndexLayout db (of_nat (length c)) = Some b"
proof (rule ccontr)
  define n where "n = rih_bucketCount (decode_RowIndexFileHeader c)"
  assume "\<not> ?thesis"
  then have none: "HasValidRowIndexLayout db (of_nat (length c)) = None" by simp
  then have h: "\<not> of_nat (length c) < (64 :: u64)" "64 + n * 64 = of_nat (length c)" "(length c - 64) div 64 < unat n"
    using m by (auto simp: HasValidRowIndexLayout_def Let_def RowIndexHeader_def RowBuckets_def decode_row_index_def n_def split: if_splits)
  have le: "unat (of_nat (length c) :: u64) \<le> length c" by (rule unat_of_nat_le64)
  then have "64 \<le> length c" using h(1) by (simp add: word_less_nat_alt)
  then have b: "64 + 64 * unat n < 2 ^ 64" using c by (simp add: row_index_in_bounds_def n_def)
  then have "unat (n * 64) = unat n * 64" by (subst unat_mult64) simp_all
  then have "unat (64 + n * 64) = 64 + unat n * 64" using b by (subst unat_add64) simp_all
  then have "64 + unat n * 64 \<le> length c" using le by (simp only: h(2))
  then have "unat n \<le> (length c - 64) div 64" by simp
  then show False using h(3) by simp
qed

lemma MapWithProtection_view: "MapWithProtection os fd view n w = (st, m) \<Longrightarrow> IsOk st \<Longrightarrow> mapped_data m = Some view"
  by (auto simp: MapWithProtection_def split: option.splits if_splits)

lemma OpenIndexFile_total:
  assumes path: "valueFile db = Some path" "path \<noteq> indexPath db" and c: "c = file_content (filesys db) path"
    and bounds: "index_in_bounds (file_content (filesys db) (indexPath db))"
    and rw: "readOnly db \<or> length c < 2 ^ 53 \<and> records_advance c \<and> items_fit (options db) (length c - 24) \<and>
      (\<exists>j. initialBucketCount (options db) = 2 ^ j \<and> 4 \<le> j \<and> j \<le> 58)"
  shows "\<exists>st db'. OpenIndexFile os db = Some (st, db') \<and>
    (IsOk st \<longrightarrow> (\<forall>p. p \<noteq> indexPath db \<longrightarrow> files (filesys db') p = files (filesys db) p))"
proof -
  obtain st fd fs1 where o: "(if readOnly db
      then (case OpenReadOnlyFile os (filesys db) (indexPath db) of (st, fd) \<Rightarrow> (st, fd, filesys db))
      else OpenReadWriteCreate os (filesys db) (indexPath db)) = (st, fd, fs1)" by (metis prod_cases3)
  have others: "p \<noteq> indexPath db \<Longrightarrow> files fs1 p = files (filesys db) p" for p
    using o OpenReadWriteCreate_files(1) by (auto split: if_splits prod.splits)
  have content: "file_content fs1 (indexPath db) = file_content (filesys db) (indexPath db)"
    using o OpenReadWriteCreate_files(2) by (auto split: if_splits prod.splits)
  define db1 where "db1 = db\<lparr>filesys := fs1, indexFile := fd\<rparr>"
  show ?thesis
  proof (cases "IsOk st")
    case False
    then show ?thesis by (simp add: OpenIndexFile_def o)
  next
    case st: True
    have fd: "fd = Some (indexPath db)"
      using o st OpenReadWriteCreate_files(3) by (auto simp: OpenReadOnlyFile_def split: if_splits prod.splits option.splits)
    note OI = OpenIndexFile_def [of os db, unfolded o Let_def prod.case]
    show ?thesis
    proof (cases "GetFileSize os fs1 fd")
      case (Inl e)
      then show ?thesis using others by (simp add: OI st)
    next
      case (Inr fileSize)
      define mapped where "mapped = MapWithProtection os fd (decode_object_index (file_content fs1 (the fd))) fileSize (\<not> readOnly db)"
      define db2 where "db2 = (if fileSize = 0 then db1 else if HasValidIndexLayout (db1\<lparr>indexMap := snd mapped\<rparr>) fileSize = Some False
        then db1\<lparr>indexMap := Unmapped\<rparr> else db1\<lparr>indexMap := snd mapped\<rparr>)"
      have quiet: "\<And>p. p \<noteq> indexPath db \<Longrightarrow> files (filesys db2) p = files (filesys db) p"
        using others by (simp add: db2_def db1_def)
      consider db' st' where "OpenIndexFile os db = Some (st', db')" "\<not> IsOk st'"
        | "OpenIndexFile os db = Some (Ok, db2)"
        | "\<not> readOnly db" "OpenIndexFile os db = (case CreateEmptyIndex os db2 (initialBucketCount (options db)) of
            None \<Rightarrow> None | Some (status, db3) \<Rightarrow> if \<not> IsOk status then Some (status, db3) else RebuildIndexFromValues os db3)"
      proof (cases "fileSize = 0")
        case True
        then show ?thesis using st Inr that by (cases "readOnly db") (simp_all add: OI db2_def db1_def)
      next
        case nz: False
        obtain ms m where m: "mapped = (ms, m)" by fastforce
        note m' = m [unfolded mapped_def]
        show ?thesis
        proof (cases "IsOk ms")
          case False
          then show ?thesis using st Inr nz m' that(1) by (simp add: OI)
        next
          case ok: True
          have size: "fileSize = of_nat (length (file_content (filesys db) (indexPath db)))"
            using Inr fd content by (auto simp: GetFileSize_def split: option.splits)
          have "mapped_data m = Some (decode_object_index (file_content (filesys db) (indexPath db)))"
            using MapWithProtection_view [OF m' ok] fd content by simp
          then obtain valid where hv: "HasValidIndexLayout (db1\<lparr>indexMap := m\<rparr>) fileSize = Some valid"
            using HasValidIndexLayout_defined [OF _ bounds, of "db1\<lparr>indexMap := m\<rparr>"] size by auto
          show ?thesis
          proof (cases valid)
            case True
            then show ?thesis using st Inr nz m' ok that(2) hv by (simp add: OI db2_def db1_def m)
          next
            case False
            then show ?thesis using st Inr nz m' ok that hv by (cases "readOnly db") (simp_all add: OI db2_def db1_def m)
          qed
        qed
      qed
      then show ?thesis
      proof cases
        case 1
        then show ?thesis by simp
      next
        case 2
        then show ?thesis using quiet by simp
      next
        case 3
        then obtain j where rw: "length c < 2 ^ 53" "records_advance c" "items_fit (options db) (length c - 24)"
            "initialBucketCount (options db) = 2 ^ j" "4 \<le> j" "j \<le> 58" using rw by blast
        obtain st3 db3 where create: "CreateEmptyIndex os db2 (2 ^ j) = Some (st3, db3)"
            "IsOk st3 \<Longrightarrow> index_frame db2 db3 \<and> table_within 0 db3"
          using CreateEmptyIndex_total [OF rw(5,6), of os db2] by blast
        have run: "OpenIndexFile os db = (if \<not> IsOk st3 then Some (st3, db3) else RebuildIndexFromValues os db3)"
          by (simp add: 3 rw(4) create(1))
        show ?thesis
        proof (cases "IsOk st3")
          case False
          then show ?thesis by (simp add: run)
        next
          case ok3: True
          have fr: "index_frame db2 db3" and t: "table_within 0 db3" using create(2) [OF ok3] by blast+
          have f2: "valueFile db2 = Some path" "indexFile db2 = Some (indexPath db)" "options db2 = options db"
            using path(1) fd by (simp_all add: db2_def db1_def)
          have f3: "valueFile db3 = Some path" "indexFile db3 = Some (indexPath db)" "options db3 = options db"
            using index_frameD(1,2,5) [OF fr] f2 by simp_all
          have o3: "\<And>p. p \<noteq> indexPath db \<Longrightarrow> files (filesys db3) p = files (filesys db) p"
            using index_frame_others [OF fr f2(2)] quiet by simp
          then have c3: "c = file_content (filesys db3) path" using path(2) by (simp add: c file_content_def)
          have ip: "indexFile db3 \<noteq> Some path" using path(2) f3(2) by simp
          have un: "unat (24 :: u64) = 24" by simp
          obtain st4 db4 where loop: "rebuild_loop os (of_nat (length c)) 24 db3 = Some (st4, db4)" "IsOk st4 \<longrightarrow> index_frame db3 db4"
            using rebuild_loop_total [OF f3(1) ip c3 rw(1,2) index_frame_refl _ t, of 24 os] first_record [of c] rw(3) f3(3)
            unfolding un by auto
          have "(\<exists>e. RebuildIndexFromValues os db3 = Some (e, db3) \<and> \<not> IsOk e) \<or>
              RebuildIndexFromValues os db3 = (if \<not> IsOk st4 then Some (st4, db4) else Some (Ok, db4\<lparr>appendOffset := of_nat (length c)\<rparr>))"
            using loop(1)
            by (auto simp: RebuildIndexFromValues_def GetFileSize_def f3(1) c3 [symmetric] split: option.split)
          moreover have "files (filesys db4) p = files (filesys db) p" if "IsOk st4" "p \<noteq> indexPath db" for p
            using index_frame_others [OF _ f3(2) that(2)] loop(2) that o3 by simp
          ultimately show ?thesis using ok3 by (auto simp: run)
        qed
      qed
    qed
  qed
qed

subsection \<open>The value file\<close>

definition legacy_value_file :: "bytes \<Rightarrow> bool" where
  "legacy_value_file c \<longleftrightarrow>
     (let h = decode_ValueFileHeader (take 24 c)
      in 24 \<le> length c \<and> MagicEquals (vf_magic h) kLegacyValueFileMagic \<and> vf_version h = of_nat kStorageVersion \<and> vf_headerSize h = 24)"

lemma WriteAllAt_short:
  assumes "WriteAllAt os fs (Some path) data 0 = (st, fs')" and "file_content fs path = []"
  shows "\<And>p. p \<noteq> path \<Longrightarrow> files fs' p = files fs p" and "length (file_content fs' path) \<le> length data"
proof -
  obtain st1 content where w: "pwrite_loop (pwrite_replies os path (length data) 0) [] data 0 = (st1, content)" by fastforce
  then have fs': "fs' = set_file fs path content" using assms by (simp add: WriteAllAt_def)
  then show "\<And>p. p \<noteq> path \<Longrightarrow> files fs' p = files fs p" by (simp add: set_file_def)
  obtain k where "k \<le> length data" "content = overwrite [] 0 (take k data)"
    using pwrite_loop_prefix [of "[]" 0 data "pwrite_replies os path (length data) 0"] w by (auto simp: wrote_prefix_def)
  then have "length content \<le> length data" by (auto simp: overwrite_def)
  then show "length (file_content fs' path) \<le> length data" by (simp add: fs' set_file_def file_content_def)
qed

text \<open>A file that is opened keeps its bytes, or was empty and gets a header.\<close>

definition kept_or_new :: "bytes \<Rightarrow> bytes \<Rightarrow> bool" where
  "kept_or_new c c' \<longleftrightarrow> c' = c \<or> length c' \<le> 24"

lemma OpenValueFile_total:
  assumes c: "c = file_content (filesys db) (valuePath db)"
    and rw: "readOnly db \<or> length c < 2 ^ 53 \<and> \<not> legacy_value_file c"
  shows "\<exists>st db'. OpenValueFile os db = Some (st, db') \<and>
    (IsOk st \<longrightarrow> valueFile db' = Some (valuePath db) \<and>
       (\<forall>p. p \<noteq> valuePath db \<longrightarrow> files (filesys db') p = files (filesys db) p) \<and>
       (\<not> readOnly db \<longrightarrow> kept_or_new c (file_content (filesys db') (valuePath db))))"
proof -
  obtain st fd fs1 where o: "(if readOnly db
      then (case OpenReadOnlyFile os (filesys db) (valuePath db) of (st, fd) \<Rightarrow> (st, fd, filesys db))
      else OpenReadWriteCreate os (filesys db) (valuePath db)) = (st, fd, fs1)" by (metis prod_cases3)
  have others: "p \<noteq> valuePath db \<Longrightarrow> files fs1 p = files (filesys db) p" for p
    using o OpenReadWriteCreate_files(1) by (auto split: if_splits prod.splits)
  have c1: "file_content fs1 (valuePath db) = c"
    using o OpenReadWriteCreate_files(2) c by (auto split: if_splits prod.splits)
  show ?thesis
  proof (cases "IsOk st")
    case False
    then show ?thesis by (simp add: OpenValueFile_def o)
  next
    case st: True
    have fd: "fd = Some (valuePath db)"
      using o st OpenReadWriteCreate_files(3) by (auto simp: OpenReadOnlyFile_def split: if_splits prod.splits option.splits)
    note OV = OpenValueFile_def [of os db, unfolded o Let_def prod.case]
    show ?thesis
    proof (cases "GetFileSize os fs1 fd")
      case (Inl e)
      then show ?thesis using others c1 st fd by (simp add: OV kept_or_new_def)
    next
      case (Inr fileSize)
      then have size: "fileSize = of_nat (length c)" using fd c1 by (auto simp: GetFileSize_def split: option.splits)
      show ?thesis
      proof (cases "fileSize = 0")
        case zero: True
        show ?thesis
        proof (cases "readOnly db")
          case True
          then show ?thesis using Inr zero st others by (simp add: OV)
        next
          case False
          then have "length c < 2 ^ 53" using rw by blast
          then have "unat (of_nat (length c) :: u64) = length c" by (simp add: unat_of_nat64)
          then have "c = []" using zero size by simp
          then have c0: "file_content fs1 (valuePath db) = []" using c1 by simp
          obtain st2 fs2 where w: "WriteAllAt os fs1 (Some (valuePath db)) (encode_ValueFileHeader ValueFileHeader_default) 0 = (st2, fs2)"
            by fastforce
          note W = WriteAllAt_short [OF w c0]
          have "OpenValueFile os db = (if \<not> IsOk st2 then Some (st2, db\<lparr>filesys := fs2, valueFile := fd\<rparr>)
              else Some (Ok, db\<lparr>filesys := fs2, valueFile := fd, appendOffset := 24\<rparr>))"
            using Inr zero st False w fd by (simp add: OV)
          then show ?thesis using W others fd by (auto simp: kept_or_new_def)
        qed
      next
        case nz: False
        have ans: "?thesis" if "\<exists>st db'. OpenValueFile os db = Some (st, db') \<and> filesys db' = fs1 \<and> valueFile db' = fd"
          using that others c1 fd by (auto simp: kept_or_new_def)
        show ?thesis
        proof (cases "fileSize < 24 \<or> (\<exists>e. ReadAllAt os fs1 fd 24 0 = Inl e)")
          case True
          then have "\<exists>st db'. OpenValueFile os db = Some (st, db') \<and> filesys db' = fs1 \<and> valueFile db' = fd"
            using Inr nz st by (auto simp: OV)
          then show ?thesis by (rule ans)
        next
          case False
          then obtain bs where r: "ReadAllAt os fs1 fd 24 0 = Inr bs" by (meson sumE)
          have small: "\<not> fileSize < 24" using False by blast
          let ?h = "decode_ValueFileHeader bs"
          show ?thesis
          proof (cases "readOnly db")
            case True
            then have "\<exists>st db'. OpenValueFile os db = Some (st, db') \<and> filesys db' = fs1 \<and> valueFile db' = fd"
              using Inr nz st small r by (auto simp: OV split: prod.split)
            then show ?thesis by (rule ans)
          next
            case rw': False
            then have len: "length c < 2 ^ 53" and new: "\<not> legacy_value_file c" using rw by blast+
            have "bs = take 24 (drop (unat (0 :: u64)) (file_content fs1 (valuePath db))) \<and> length bs = 24"
              by (rule ReadAllAt_Inr [OF r [unfolded fd]]) (use len c1 in simp)
            then have "bs = take 24 c \<and> length bs = 24" unfolding c1 unat_0 drop_0 .
            then have bs: "bs = take 24 c" "length bs = 24" by blast+
            have "24 \<le> length c" using bs by simp
            then have "\<not> (MagicEquals (vf_magic ?h) kLegacyValueFileMagic \<and> vf_version ?h = of_nat kStorageVersion \<and> vf_headerSize ?h = 24)"
              using new unfolding legacy_value_file_def Let_def bs(1) by blast
            then have "\<exists>st db'. OpenValueFile os db = Some (st, db') \<and> filesys db' = fs1 \<and> valueFile db' = fd"
              using Inr nz st small r rw' by (auto simp: OV)
            then show ?thesis by (rule ans)
          qed
        qed
      qed
    qed
  qed
qed

subsection \<open>The row index while it is rebuilt\<close>

text \<open>The same for the row index; no bucket is in the state "writing", so that no search retries.\<close>

definition rows_within :: "nat \<Rightarrow> Impl \<Rightarrow> bool" where
  "rows_within m db \<longleftrightarrow>
     (\<exists>v k. mapped_data (rowIndexMap db) = Some v \<and> 4 \<le> k \<and> k \<le> 56 \<and>
        rih_bucketCount (ri_header v) = 2 ^ k \<and> length (ri_buckets v) = 2 ^ k \<and>
        unat (rih_itemCount (ri_header v)) \<le> m \<and> length (filter (\<lambda>b. rib_state b = kRowBucketFilled) (ri_buckets v)) \<le> m \<and>
        (\<forall>b \<in> set (ri_buckets v). rib_state b = kRowBucketEmpty \<or> rib_state b = kRowBucketFilled))"

lemma rows_within_mono: "rows_within m db \<Longrightarrow> m \<le> n \<Longrightarrow> rows_within n db"
  unfolding rows_within_def by (meson order_trans)

lemma rows_within_set:
  assumes "rows_within m db" and b: "rib_state b = kRowBucketFilled"
  shows "rows_within (Suc m) (set_RowBucket i b db)" and "rows_within (Suc m) (increment_rowItemCount (set_RowBucket i b db))"
proof -
  let ?filled = "\<lambda>b. rib_state b = kRowBucketFilled"
  obtain v k where v: "mapped_data (rowIndexMap db) = Some v" "4 \<le> k" "k \<le> 56" "rih_bucketCount (ri_header v) = 2 ^ k"
      "length (ri_buckets v) = 2 ^ k" "unat (rih_itemCount (ri_header v)) \<le> m" "length (filter ?filled (ri_buckets v)) \<le> m"
      "\<forall>b \<in> set (ri_buckets v). rib_state b = kRowBucketEmpty \<or> ?filled b"
    using assms unfolding rows_within_def by blast
  have n: "length (filter ?filled ((ri_buckets v)[i := b])) \<le> Suc m"
    using length_filter_update_le [of ?filled "ri_buckets v" i b] v(7) by simp
  have st: "\<forall>b' \<in> set ((ri_buckets v)[i := b]). rib_state b' = kRowBucketEmpty \<or> ?filled b'"
    using v(8) b set_update_cases [of _ "ri_buckets v" i b] by blast
  show "rows_within (Suc m) (set_RowBucket i b db)"
    unfolding rows_within_def set_RowBucket_def using v(1-6) n st
    by (intro exI [of _ "v\<lparr>ri_buckets := (ri_buckets v)[i := b]\<rparr>"] exI [of _ k]) simp
  have "unat (rih_itemCount (ri_header v) + 1) \<le> Suc m"
    using unat_add1_le [of "rih_itemCount (ri_header v)"] v(6) by simp
  then show "rows_within (Suc m) (increment_rowItemCount (set_RowBucket i b db))"
    unfolding rows_within_def set_RowBucket_def increment_rowItemCount_def set_RowIndexHeader_def using v(1-6) n st
    by (intro exI [of _ "v\<lparr>ri_buckets := (ri_buckets v)[i := b], ri_header := (ri_header v)\<lparr>rih_itemCount := rih_itemCount (ri_header v) + 1\<rparr>\<rparr>"]
        exI [of _ k]) (simp add: RowIndexHeader_def)
qed

lemma row_index_frame_updates [simp]:
  "row_index_frame db (set_RowBucket i b db)" "row_index_frame db (set_RowIndexHeader h db)"
  "row_index_frame db (increment_rowItemCount db)"
proof -
  show b: "row_index_frame db (set_RowIndexHeader h db)" for h
    unfolding set_RowIndexHeader_def
    by (rule row_index_frameI [where fs = "filesys db" and m = "(rowIndexMap db)\<lparr>mapped_data :=
       map_option (\<lambda>v. v\<lparr>ri_header := h\<rparr>) (mapped_data (rowIndexMap db))\<rparr>"]) simp_all
  show "row_index_frame db (set_RowBucket i b db)"
    unfolding set_RowBucket_def
    by (rule row_index_frameI [where fs = "filesys db" and m = "(rowIndexMap db)\<lparr>mapped_data :=
       map_option (\<lambda>v. v\<lparr>ri_buckets := (ri_buckets v)[i := b]\<rparr>) (mapped_data (rowIndexMap db))\<rparr>"]) simp_all
  show "row_index_frame db (increment_rowItemCount db)" unfolding increment_rowItemCount_def by (rule b)
qed

lemma place_existing_rows_within:
  "rows_within m db \<Longrightarrow> \<forall>b \<in> set bs. rib_state b = kRowBucketFilled \<Longrightarrow>
    row_index_frame db (snd (place_existing_rows bs db)) \<and> rows_within (m + length bs) (snd (place_existing_rows bs db))"
proof (induction bs arbitrary: db m)
  case (Cons b bs)
  have b: "rib_state b = kRowBucketFilled" using Cons.prems(2) by simp
  obtain st db1 where p: "PlaceExistingRowBucket db b = (st, db1)" by fastforce
  then consider "\<not> IsOk st" "db1 = db" | i where "db1 = set_RowBucket i b db"
    by (auto simp: PlaceExistingRowBucket_def Let_def split: option.splits)
  then show ?case
  proof cases
    case 1
    then show ?thesis using rows_within_mono [OF Cons.prems(1)] by (simp add: p)
  next
    case (2 i)
    have fr: "row_index_frame db db1" "row_index_frame db (increment_rowItemCount db1)"
      using row_index_frame_trans [OF row_index_frame_updates(1) row_index_frame_updates(3)] by (simp_all add: 2)
    have "rows_within (Suc m) db1" "rows_within (Suc m) (increment_rowItemCount db1)"
      using rows_within_set [OF Cons.prems(1) b] by (simp_all add: 2)
    then show ?thesis
      using fr Cons.IH [of "Suc m" "increment_rowItemCount db1"] row_index_frame_trans [OF fr(2)] Cons.prems(2)
        rows_within_mono [of "Suc m" db1 "Suc (m + length bs)"]
      by (simp add: p Let_def)
  qed
qed simp

lemma CreateEmptyRowIndex_total:
  assumes j: "4 \<le> j" "j \<le> 56"
  shows "\<exists>st db'. CreateEmptyRowIndex os db (2 ^ j) = Some (st, db') \<and> (IsOk st \<longrightarrow> row_index_frame db db' \<and> rows_within 0 db')"
proof -
  define sz where "sz = (64 + 2 ^ j * 64 :: u64)"
  define db1 where "db1 = unmap_row_index db"
  have fr: "row_index_frame db db1" by (simp add: db1_def unmap_row_index_index_frame)
  obtain st fs where t: "TruncateFile os (filesys db1) (rowIndexFile db1) sz = (st, fs)" by fastforce
  have n: "(unat sz - 64) div 64 = unat ((2 :: u64) ^ j)" using row_index_file_size [OF j(2)] j by (simp add: sz_def)
  let ?e = "empty_row_index (2 ^ j) (rowShardCount (options db1))"
  obtain st2 m where mp: "MapWithProtection os (rowIndexFile db1) ?e sz True = (st2, m)" by fastforce
  have r: "RoundUpPowerOfTwo (2 ^ j) = Some (2 ^ j)" using j by (intro RoundUpPowerOfTwo_pow2) simp_all
  have run: "CreateEmptyRowIndex os db (2 ^ j) =
      (if \<not> IsOk st then Some (st, db1\<lparr>filesys := fs\<rparr>) else Some (st2, db1\<lparr>filesys := fs, rowIndexMap := m\<rparr>))"
    using mp by (simp add: CreateEmptyRowIndex_def r Let_def t n empty_row_index_def flip: db1_def sz_def)
  have "row_index_frame db (db1\<lparr>filesys := fs, rowIndexMap := m\<rparr>) \<and> rows_within 0 (db1\<lparr>filesys := fs, rowIndexMap := m\<rparr>)"
    if ok: "IsOk st" "IsOk st2"
  proof -
    have "dirs fs = dirs (filesys db1) \<and> (\<forall>path. rowIndexFile db1 \<noteq> Some path \<longrightarrow> files fs path = files (filesys db1) path)"
      using t ok(1) by (auto simp: TruncateFile_def set_file_def split: option.splits if_splits)
    then have "row_index_frame db1 (db1\<lparr>filesys := fs, rowIndexMap := m\<rparr>)"
      by (intro row_index_frameI [where fs = fs and m = m]) simp_all
    moreover have "mapped_data m = Some ?e"
      using mp ok(2) by (auto simp: MapWithProtection_def split: option.splits if_splits)
    then have "rows_within 0 (db1\<lparr>filesys := fs, rowIndexMap := m\<rparr>)"
      unfolding rows_within_def using j
      by (intro exI [of _ ?e] exI [of _ j])
        (simp add: empty_row_index_def RowIndexBucket_default_def, simp add: RowIndexFileHeader_default_def)
    ultimately show ?thesis using row_index_frame_trans [OF fr] by blast
  qed
  then show ?thesis using run by auto
qed

lemma ResizeRowIndex_total:
  assumes t: "rows_within m db" and j: "4 \<le> j" "j \<le> 56"
  shows "\<exists>st db'. ResizeRowIndex os db (2 ^ j) = Some (st, db') \<and> (IsOk st \<longrightarrow> row_index_frame db db' \<and> rows_within m db')"
proof -
  let ?filled = "\<lambda>b. rib_state b = kRowBucketFilled"
  obtain v k where v: "mapped_data (rowIndexMap db) = Some v" "4 \<le> k" "k \<le> 56" "rih_bucketCount (ri_header v) = 2 ^ k"
      "length (ri_buckets v) = 2 ^ k" "unat (rih_itemCount (ri_header v)) \<le> m" "length (filter ?filled (ri_buckets v)) \<le> m"
    using t unfolding rows_within_def by blast
  let ?old = "filter ?filled (ri_buckets v)"
  have "map (\<lambda>index. ri_buckets v ! index) [0..<2 ^ k] = ri_buckets v"
    using map_nth [of "ri_buckets v"] by (simp only: v(5))
  then have old: "filter ?filled (map (\<lambda>index. RowBuckets db ! index) [0..<unat (rih_bucketCount (RowIndexHeader db))]) = ?old"
    using v by (simp add: RowBuckets_def RowIndexHeader_def)
  obtain st db1 where c: "CreateEmptyRowIndex os db (2 ^ j) = Some (st, db1)" "IsOk st \<Longrightarrow> row_index_frame db db1 \<and> rows_within 0 db1"
    using CreateEmptyRowIndex_total [OF j, of os db] by blast
  show ?thesis
  proof (cases "IsOk st")
    case False
    then show ?thesis by (simp add: ResizeRowIndex_def Let_def old c)
  next
    case True
    define db2 where "db2 = set_RowIndexHeader ((RowIndexHeader db1)\<lparr>rih_nextSequence := rih_nextSequence (RowIndexHeader db)\<rparr>) db1"
    have fr: "row_index_frame db db2"
      using c(2) [OF True] row_index_frame_trans [OF _ row_index_frame_updates(2)] by (simp add: db2_def)
    obtain w j' where w: "mapped_data (rowIndexMap db1) = Some w" "4 \<le> j'" "j' \<le> 56" "rih_bucketCount (ri_header w) = 2 ^ j'"
        "length (ri_buckets w) = 2 ^ j'" "unat (rih_itemCount (ri_header w)) \<le> 0" "length (filter ?filled (ri_buckets w)) \<le> 0"
        "\<forall>b \<in> set (ri_buckets w). rib_state b = kRowBucketEmpty \<or> ?filled b"
      using c(2) [OF True] unfolding rows_within_def by blast
    have "rows_within 0 db2"
      unfolding rows_within_def db2_def set_RowIndexHeader_def using w
      by (intro exI [of _ "w\<lparr>ri_header := (ri_header w)\<lparr>rih_nextSequence := rih_nextSequence (RowIndexHeader db)\<rparr>\<rparr>"] exI [of _ j'])
        (simp add: RowIndexHeader_def)
    note P = place_existing_rows_within [OF this, of ?old]
    have "ResizeRowIndex os db (2 ^ j) = Some (place_existing_rows ?old db2)"
      using True by (simp add: ResizeRowIndex_def Let_def old c db2_def)
    moreover have "row_index_frame db (snd (place_existing_rows ?old db2))" using P row_index_frame_trans [OF fr] by simp
    moreover have "rows_within m (snd (place_existing_rows ?old db2))" using P v(7) rows_within_mono by fastforce
    ultimately show ?thesis by (metis prod.collapse)
  qed
qed

lemma EnsureRowCapacityForInsert_total:
  assumes t: "rows_within m db" and fit: "items_fit (options db) (Suc m)"
  shows "\<exists>st db'. EnsureRowCapacityForInsert os db = Some (st, db') \<and> (IsOk st \<longrightarrow> row_index_frame db db' \<and> rows_within m db')"
proof -
  obtain v k where v: "mapped_data (rowIndexMap db) = Some v" "4 \<le> k" "k \<le> 56" "rih_bucketCount (ri_header v) = 2 ^ k"
      "length (ri_buckets v) = 2 ^ k" "unat (rih_itemCount (ri_header v)) \<le> m"
    using t unfolding rows_within_def by blast
  obtain f where f: "maxLoadFactor (options db) = Fin f" "f < 1" "Suc m < 2 ^ 53" "rat_of_nat (Suc m) \<le> f * 2 ^ 56"
    using fit by (auto simp: items_fit_def)
  let ?items = "rih_itemCount (ri_header v) + 1"
  have le: "unat ?items \<le> Suc m" using unat_add1_le [of "rih_itemCount (ri_header v)"] v(6) by simp
  then have small: "unat ?items < 2 ^ 53" using f(3) by simp
  have cap: "rat_of_nat (unat ?items) \<le> f * 2 ^ 56" using le f(4) by (meson of_nat_le_iff order_trans)
  define q where "q = rat_of_nat (unat ?items) / 2 ^ k"
  have load: "ddiv (double_of_u64 ?items) (double_of_u64 (2 ^ k)) = Fin q"
    using v(3) fl_of_nat [OF small] fl_dyadic [OF small, of k] by (simp add: double_of_u64_def fl_pow2 q_def)
  have H: "RowIndexHeader db = ri_header v" using v(1) by (simp add: RowIndexHeader_def)
  show ?thesis
  proof (cases "q \<le> f")
    case True
    then have "EnsureRowCapacityForInsert os db = Some (Ok, db)"
      using load by (auto simp: EnsureRowCapacityForInsert_def Let_def H f(1) v(4) dle_def)
    then show ?thesis using t by simp
  next
    case False
    have "k \<noteq> 56" using False cap by (auto simp: q_def field_simps)
    then have k: "Suc k \<le> 56" "4 \<le> Suc k" using v(2,3) by simp_all
    have "EnsureRowCapacityForInsert os db = ResizeRowIndex os db (2 ^ Suc k)"
      using False load by (simp add: EnsureRowCapacityForInsert_def Let_def H f(1) v(4) dle_def mult.commute)
    then show ?thesis using ResizeRowIndex_total [OF t k(2,1), of os] by simp
  qed
qed

lemma FindRowBucket_total:
  assumes t: "rows_within m db"
  shows "\<exists>r. FindRowBucket os db column rowId columnHash = Some r"
proof -
  obtain v k where v: "mapped_data (rowIndexMap db) = Some v" "k \<le> 56" "rih_bucketCount (ri_header v) = 2 ^ k"
      "length (ri_buckets v) = 2 ^ k" "\<forall>b \<in> set (ri_buckets v). rib_state b = kRowBucketEmpty \<or> rib_state b = kRowBucketFilled"
    using t unfolding rows_within_def by blast
  have H: "RowIndexHeader db = ri_header v" "RowBuckets db = ri_buckets v" using v(1) by (simp_all add: RowIndexHeader_def RowBuckets_def)
  have "find_row_pass os db column rowId columnHash is \<noteq> Retry" if "set is \<subseteq> {..<2 ^ k}" for "is"
    using that
  proof (induction "is")
    case (Cons i "is")
    have "RowBuckets db ! i \<in> set (ri_buckets v)" using Cons.prems v(4) by (simp add: H)
    then have "rib_state (RowBuckets db ! i) = kRowBucketEmpty \<or> rib_state (RowBuckets db ! i) = kRowBucketFilled" using v(5) by blast
    then show ?case
      using Cons by (auto simp: LoadRowBucketSnapshot_def Let_def split: sum.splits option.splits)
  qed simp
  then have "find_row_pass os db column rowId columnHash (probe_indices (MixHashes columnHash rowId AND (2 ^ k - 1)) (2 ^ k)) \<noteq> Retry"
    using probe_indices_pow2 [of k "MixHashes columnHash rowId"] v(2) by simp
  then show ?thesis
    by (subst FindRowBucket_def, subst find_row_retry.simps) (auto simp: H v(3) Let_def split: attempt.split)
qed

subsection \<open>The scan of the shards\<close>

inductive block_walk :: "bytes \<Rightarrow> nat \<Rightarrow> bool" for c :: bytes where
  first_block: "block_walk c 24"
| next_block: "block_walk c off \<Longrightarrow> off + 72 \<le> length c \<Longrightarrow> IsValidRowBlockHeader (block_header c off) \<Longrightarrow>
    block_walk c (off + unat (rb_blockSize (block_header c off)))"

definition blocks_advance :: "bytes \<Rightarrow> bool" where
  "blocks_advance c \<longleftrightarrow>
     (\<forall>off. block_walk c off \<and> off + 72 \<le> length c \<and> IsValidRowBlockHeader (block_header c off) \<longrightarrow>
        rb_blockSize (block_header c off) \<noteq> 0)"

lemma rebuild_shard_loop_total:
  assumes path: "rowValueFiles db0 ! unat s = Some path" "rowIndexFile db0 \<noteq> Some path" and c: "c = file_content (filesys db0) path"
    and len: "length c < 2 ^ 53" and adv: "blocks_advance c" and fr: "row_index_frame db0 db" and walk: "block_walk c (unat off)"
    and t: "rows_within m db" and fit: "items_fit (options db0) (m + (length c - unat off))"
  shows "\<exists>st ns' db'. rebuild_shard_loop os s (of_nat (length c)) off ns db = Some (st, ns', db') \<and>
    (IsOk st \<longrightarrow> row_index_frame db0 db' \<and> rows_within (m + (length c - unat off)) db')"
  using fr walk t fit
proof (induction "length c - unat off" arbitrary: off ns db m rule: less_induct)
  case less
  have un: "unat (of_nat (length c) :: u64) = length c" using len by (simp add: unat_of_nat64)
  have same: "rowValueFiles db ! unat s = Some path" "rowIndexFile db = rowIndexFile db0" "options db = options db0"
    using row_index_frameD(1,2,5) [OF less.prems(1)] path(1) by simp_all
  have content: "file_content (filesys db) path = c"
    using row_index_frameD(9) [OF less.prems(1) path(2)] by (simp add: c file_content_def)
  show ?case
  proof (cases "off < of_nat (length c)")
    case False
    then show ?thesis using less.prems(1) rows_within_mono [OF less.prems(3)] by (subst rebuild_shard_loop.simps) simp
  next
    case lt: True
    then have less_c: "unat off < length c" using un by (simp add: word_less_nat_alt)
    show ?thesis
    proof (cases "ReadAllAt os (filesys db) (Some path) 72 off")
      case (Inl st)
      then have "rebuild_shard_loop os s (of_nat (length c)) off ns db = Some (st, ns, db)"
        using lt by (subst rebuild_shard_loop.simps) (simp add: same(1))
      then show ?thesis using less.prems(1) rows_within_mono [OF less.prems(3)] by simp
    next
      case (Inr bs)
      have "bs = take 72 (drop (unat off) c) \<and> length bs = 72"
        by (rule ReadAllAt_Inr [OF Inr, unfolded content]) (use len in simp)
      then have bs: "bs = take 72 (drop (unat off) c)" "length bs = 72" by blast+
      have in_c: "unat off + 72 \<le> length c" using bs by simp
      let ?h = "block_header c (unat off)" and ?size = "rb_blockSize (block_header c (unat off))"
      have h: "decode_RowBlockHeader bs = ?h" by (simp add: block_header_def bs(1))
      note unfold = rebuild_shard_loop.simps [of os s "of_nat (length c)" off ns db]
      show ?thesis
      proof (cases "IsValidRowBlockHeader ?h \<and> \<not> ?size > of_nat (length c) - off \<and> (\<exists>col. ReadRowBlockColumn os db s off ?h = Inr col)")
        case False
        then have "\<exists>st. rebuild_shard_loop os s (of_nat (length c)) off ns db = Some (st, ns, db)"
          using lt unfolding unfold same(1) Inr sum.case h Let_def
          by (cases "ReadRowBlockColumn os db s off ?h") auto
        then show ?thesis using less.prems(1) rows_within_mono [OF less.prems(3)] by auto
      next
        case True
        then obtain col where ok: "IsValidRowBlockHeader ?h" "\<not> ?size > of_nat (length c) - off" "ReadRowBlockColumn os db s off ?h = Inr col"
          by blast
        have sub: "unat (of_nat (length c) - off) = length c - unat off" using less_c un by (simp add: unat_sub64)
        have size_le: "unat ?size \<le> length c - unat off" using ok(2) sub by (simp add: word_less_nat_alt)
        have "?size \<noteq> 0" using adv less.prems(2) in_c ok(1) unfolding blocks_advance_def by blast
        then have size_pos: "0 < unat ?size" by (simp add: unat_gt_0)
        have next_off: "unat (off + ?size) = unat off + unat ?size"
          using size_le len less_c by (intro unat_add64) simp
        have fit1: "items_fit (options db) (Suc m)"
          using items_fit_mono [OF less.prems(4)] less_c same(3) by simp
        obtain st db1 where e: "EnsureRowCapacityForInsert os db = Some (st, db1)"
            "IsOk st \<Longrightarrow> row_index_frame db db1 \<and> rows_within m db1"
          using EnsureRowCapacityForInsert_total [OF less.prems(3) fit1, of os] by blast
        show ?thesis
        proof (cases "IsOk st")
          case False
          then have "rebuild_shard_loop os s (of_nat (length c)) off ns db = Some (st, ns, db1)"
            using lt ok e(1) unfolding unfold same(1) Inr sum.case h Let_def by simp
          then show ?thesis using False by simp
        next
          case ok1: True
          have fr1: "row_index_frame db0 db1" and t1: "rows_within m db1"
            using e(2) [OF ok1] row_index_frame_trans [OF less.prems(1)] by blast+
          obtain found where f: "FindRowBucket os db1 col (rb_rowId ?h) (rb_columnHash ?h) = Some found"
            using FindRowBucket_total [OF t1] by blast
          show ?thesis
          proof (cases found)
            case (Inl st')
            then have "rebuild_shard_loop os s (of_nat (length c)) off ns db = Some (st', ns, db1)"
              using lt ok e(1) ok1 f unfolding unfold same(1) Inr sum.case h Let_def by simp
            then show ?thesis using fr1 rows_within_mono [OF t1] by simp
          next
            case found: (Inr lookup)
            define bucket where "bucket = RowIndexBucket_default
              \<lparr>rib_state := kRowBucketFilled, rib_columnHash := rb_columnHash ?h, rib_rowId := rb_rowId ?h, rib_shardId := s,
               rib_blockOffset := off, rib_blockSize := ?size, rib_sequence := rb_sequence ?h\<rparr>"
            define db2 where "db2 = set_RowBucket (rlk_index lookup) bucket db1"
            define db3 where "db3 = (if \<not> rlk_found lookup then increment_rowItemCount db2 else db2)"
            have run: "rebuild_shard_loop os s (of_nat (length c)) off ns db =
                rebuild_shard_loop os s (of_nat (length c)) (off + ?size) (max ns (rb_sequence ?h + 1)) db3"
              using lt ok e(1) ok1 f found unfolding unfold same(1) Inr sum.case h Let_def by (simp add: db2_def db3_def bucket_def)
            have "row_index_frame db1 db2" by (simp add: db2_def)
            then have "row_index_frame db1 db3" using row_index_frame_trans [OF _ row_index_frame_updates(3)] by (simp add: db3_def)
            then have fr3: "row_index_frame db0 db3" by (rule row_index_frame_trans [OF fr1])
            have "rib_state bucket = kRowBucketFilled" by (simp add: bucket_def)
            then have t3: "rows_within (Suc m) db3"
              using rows_within_set [OF t1] by (simp add: db3_def db2_def)
            have walk3: "block_walk c (unat (off + ?size))"
              unfolding next_off by (rule next_block [OF less.prems(2) in_c ok(1)])
            have fit3: "items_fit (options db0) (Suc m + (length c - unat (off + ?size)))"
              using size_pos size_le less_c by (intro items_fit_mono [OF less.prems(4)]) (simp add: next_off)
            have "length c - unat (off + ?size) < length c - unat off" using size_pos less_c by (simp add: next_off)
            note IH = less.hyps [OF this fr3 walk3 t3 fit3, of "max ns (rb_sequence ?h + 1)"]
            have "Suc m + (length c - unat (off + ?size)) \<le> m + (length c - unat off)"
              using size_pos size_le less_c by (simp add: next_off)
            then show ?thesis using IH rows_within_mono unfolding run by blast
          qed
        qed
      qed
    qed
  qed
qed

text \<open>What the scan needs of a shard file, and how many blocks it may find.\<close>

definition shard_scannable :: "bytes \<Rightarrow> bool" where
  "shard_scannable c \<longleftrightarrow> length c < 2 ^ 53 \<and> blocks_advance c"

definition scan_frame :: "Impl \<Rightarrow> Impl \<Rightarrow> bool" where
  "scan_frame db db' \<longleftrightarrow>
     rowValueFiles db' = rowValueFiles db \<and> rowIndexFile db' = rowIndexFile db \<and> options db' = options db \<and>
     (\<forall>path. rowIndexFile db \<noteq> Some path \<longrightarrow> files (filesys db') path = files (filesys db) path)"

lemma scan_frame_trans: "scan_frame a b \<Longrightarrow> scan_frame b c \<Longrightarrow> scan_frame a c"
  by (simp add: scan_frame_def)

lemma row_index_frame_scan: "row_index_frame db db' \<Longrightarrow> scan_frame db (db'\<lparr>rowAppendOffsets := offs\<rparr>)"
  using row_index_frameD [of db db'] by (simp add: scan_frame_def)

lemma rebuild_shards_total:
  assumes fr: "scan_frame db0 db" and t: "rows_within m db"
    and shards: "\<And>s. s \<in> set ids \<Longrightarrow> \<exists>path. rowValueFiles db0 ! unat s = Some path \<and> rowIndexFile db0 \<noteq> Some path \<and>
      shard_scannable (file_content (filesys db0) path)"
    and fit: "items_fit (options db0) (m + sum_list (map (\<lambda>s. length (file_content (filesys db0) (the (rowValueFiles db0 ! unat s))) - 24) ids))"
  shows "\<exists>st ns' db'. rebuild_shards os ids ns db = Some (st, ns', db')"
  using fr t shards fit
proof (induction ids arbitrary: ns db m)
  case (Cons s ids)
  obtain path where path: "rowValueFiles db0 ! unat s = Some path" "rowIndexFile db0 \<noteq> Some path"
      and scan: "shard_scannable (file_content (filesys db0) path)"
    using Cons.prems(3) [of s] by auto
  define c where "c = file_content (filesys db0) path"
  have p: "rowValueFiles db ! unat s = Some path" "rowIndexFile db \<noteq> Some path" "options db = options db0"
    using path Cons.prems(1) by (simp_all add: scan_frame_def)
  have c': "c = file_content (filesys db) path"
    using path(2) Cons.prems(1) by (simp add: scan_frame_def c_def file_content_def)
  have len: "length c < 2 ^ 53" "blocks_advance c" using scan by (simp_all add: shard_scannable_def c_def)
  let ?rest = "sum_list (map (\<lambda>s. length (file_content (filesys db0) (the (rowValueFiles db0 ! unat s))) - 24) ids)"
  have fit: "items_fit (options db0) (m + (length c - 24) + ?rest)" using Cons.prems(4) by (simp add: path(1) c_def add.assoc)
  show ?case
  proof (cases "GetFileSize os (filesys db) (Some path)")
    case (Inl st)
    then show ?thesis by (simp add: p(1))
  next
    case (Inr fileSize)
    then have size: "fileSize = of_nat (length c)" by (auto simp: GetFileSize_def c' split: option.splits)
    have "items_fit (options db) (m + (length c - unat (24 :: u64)))" using items_fit_mono [OF fit] p(3) by simp
    moreover have "block_walk c (unat (24 :: u64))" using first_block [of c] by simp
    ultimately obtain st ns' db1 where loop: "rebuild_shard_loop os s (of_nat (length c)) 24 ns db = Some (st, ns', db1)"
        "IsOk st \<Longrightarrow> row_index_frame db db1 \<and> rows_within (m + (length c - 24)) db1"
      using rebuild_shard_loop_total [OF p(1,2) c' len row_index_frame_refl _ Cons.prems(2), of 24 os ns] by auto
    show ?thesis
    proof (cases "IsOk st")
      case False
      then show ?thesis using Inr loop(1) by (simp add: p(1) size)
    next
      case True
      define db2 where "db2 = db1\<lparr>rowAppendOffsets := (rowAppendOffsets db1)[unat s := fileSize]\<rparr>"
      have fr2: "scan_frame db0 db2"
        using scan_frame_trans [OF Cons.prems(1) row_index_frame_scan] loop(2) [OF True] by (simp add: db2_def)
      have t2: "rows_within (m + (length c - 24)) db2" using loop(2) [OF True] by (simp add: db2_def rows_within_def)
      from Cons.IH [OF fr2 t2 Cons.prems(3) fit, of ns']
      show ?thesis using Inr loop(1) True by (simp add: p(1) size db2_def)
    qed
  qed
qed simp

subsection \<open>Opening the row files\<close>

lemma kept_or_new_trans: "kept_or_new a b \<Longrightarrow> kept_or_new b c \<Longrightarrow> kept_or_new a c"
  by (auto simp: kept_or_new_def)

lemma kept_or_new_refl [simp]: "kept_or_new c c"
  by (simp add: kept_or_new_def)

lemma kept_or_new_length: "kept_or_new c c' \<Longrightarrow> length c' - 24 \<le> length c - 24"
  by (auto simp: kept_or_new_def)

lemma kept_row_index_in_bounds: "kept_or_new c c' \<Longrightarrow> row_index_in_bounds c \<Longrightarrow> row_index_in_bounds c'"
  by (auto simp: kept_or_new_def row_index_in_bounds_def)

lemma record_walk_ge: "record_walk c off \<Longrightarrow> 24 \<le> off"
  by (induction rule: record_walk.induct) simp_all

lemma block_walk_ge: "block_walk c off \<Longrightarrow> 24 \<le> off"
  by (induction rule: block_walk.induct) simp_all

lemma kept_records_advance: "kept_or_new c c' \<Longrightarrow> records_advance c \<Longrightarrow> records_advance c'"
  unfolding kept_or_new_def records_advance_def using record_walk_ge [of c'] by fastforce

lemma kept_shard_scannable: "kept_or_new c c' \<Longrightarrow> shard_scannable c \<Longrightarrow> shard_scannable c'"
  unfolding kept_or_new_def shard_scannable_def blocks_advance_def using block_walk_ge [of c'] by fastforce

lemma open_row_value_file_setup:
  "open_row_value_file os s db = (st, db') \<Longrightarrow> readOnly db' = readOnly db \<and> directory db' = directory db"
  by (auto simp: open_row_value_file_def Let_def split: prod.splits sum.splits if_splits)

lemma open_row_value_files_read_only:
  "readOnly db \<Longrightarrow> open_row_value_files os ids db = (st, db') \<Longrightarrow> filesys db' = filesys db"
proof (induction ids arbitrary: db)
  case (Cons s ids)
  obtain st1 db1 where 1: "open_row_value_file os s db = (st1, db1)" by fastforce
  have same: "readOnly db1" "filesys db1 = filesys db"
    using 1 Cons.prems(1) open_row_value_file_setup [OF 1]
    by (auto simp: open_row_value_file_def Let_def split: prod.splits sum.splits if_splits)
  then show ?case using Cons.prems(2) Cons.IH [of db1] 1 by (auto split: if_splits)
qed simp

lemma OpenRowValueFiles_read_only: "readOnly db \<Longrightarrow> OpenRowValueFiles os db = (st, db') \<Longrightarrow> filesys db' = filesys db"
  unfolding OpenRowValueFiles_def Let_def by (drule open_row_value_files_read_only [rotated]) simp_all

lemma open_row_value_file_outcome:
  assumes r: "open_row_value_file os s db = (st, db')" "IsOk st" and rw: "\<not> readOnly db"
    and len: "length (file_content (filesys db) (RowValuePath (directory db) s)) < 2 ^ 53"
    and s: "unat s < length (rowValueFiles db)"
  shows "rowValueFiles db' = (rowValueFiles db)[unat s := Some (RowValuePath (directory db) s)] \<and>
    (\<forall>p. p \<noteq> RowValuePath (directory db) s \<longrightarrow> files (filesys db') p = files (filesys db) p) \<and>
    (\<forall>p. kept_or_new (file_content (filesys db) p) (file_content (filesys db') p))"
proof -
  define path where "path = RowValuePath (directory db) s"
  obtain st1 fd fs1 where o: "OpenReadWriteCreate os (filesys db) path = (st1, fd, fs1)" by (metis prod_cases3)
  note O = OpenReadWriteCreate_files [OF o]
  note OR = open_row_value_file_def [of os s db, folded path_def]
  have st1: "IsOk st1" using r rw by (auto simp: OR o Let_def split: if_splits)
  have fd: "fd = Some path" by (rule O(3) [OF st1])
  have upd: "(rowValueFiles db)[unat s := Some path] ! unat s = Some path" using s by simp
  obtain fileSize where size: "GetFileSize os fs1 (Some path) = Inr fileSize"
    using r rw st1 by (auto simp: OR o Let_def fd upd GetFileSize_def split: sum.splits option.splits)
  have sz: "fileSize = of_nat (length (file_content (filesys db) path))"
    using size O(2) by (auto simp: GetFileSize_def split: option.splits)
  show ?thesis
  proof (cases "fileSize = 0")
    case True
    have "unat (of_nat (length (file_content (filesys db) path)) :: u64) = length (file_content (filesys db) path)"
      using len by (simp add: path_def unat_of_nat64)
    then have "file_content (filesys db) path = []" using True sz by simp
    then have c0: "file_content fs1 path = []" using O(2) by simp
    obtain st2 fs2 where w: "WriteAllAt os fs1 (Some path) (encode_RowValueFileHeader RowValueFileHeader_default) 0 = (st2, fs2)"
      by fastforce
    note W = WriteAllAt_short [OF w c0]
    have d: "rowValueFiles db' = (rowValueFiles db)[unat s := Some path]" "filesys db' = fs2"
      using r rw st1 size True w by (auto simp: OR o Let_def fd upd split: if_splits)
    have "kept_or_new (file_content (filesys db) p) (file_content (filesys db') p)" for p
    proof (cases "p = path")
      case True
      then show ?thesis using W(2) by (simp add: kept_or_new_def d)
    next
      case False
      then have "files (filesys db') p = files (filesys db) p" using W(1) O(1) by (simp add: d)
      then show ?thesis by (simp add: file_content_def)
    qed
    then show ?thesis using W(1) O(1) d by (simp add: path_def)
  next
    case False
    then have d: "rowValueFiles db' = (rowValueFiles db)[unat s := Some path]" "filesys db' = fs1"
      using r rw st1 size by (auto simp: OR o Let_def fd upd split: if_splits sum.splits)
    then show ?thesis using O(1,2) by (simp add: path_def)
  qed
qed

lemma open_row_value_files_outcome:
  assumes "open_row_value_files os ids db = (st, db')" "IsOk st" "\<not> readOnly db"
    and "\<forall>s \<in> set ids. unat s < length (rowValueFiles db) \<and>
      length (file_content (filesys db) (RowValuePath (directory db) s)) < 2 ^ 53"
  shows "length (rowValueFiles db') = length (rowValueFiles db) \<and>
    (\<forall>s \<in> set ids. rowValueFiles db' ! unat s = Some (RowValuePath (directory db) s)) \<and>
    (\<forall>n. n \<notin> unat ` set ids \<longrightarrow> rowValueFiles db' ! n = rowValueFiles db ! n) \<and>
    (\<forall>p. p \<notin> RowValuePath (directory db) ` set ids \<longrightarrow> files (filesys db') p = files (filesys db) p) \<and>
    (\<forall>p. kept_or_new (file_content (filesys db) p) (file_content (filesys db') p))"
  using assms
proof (induction ids arbitrary: db)
  case (Cons s ids)
  obtain st1 db1 where 1: "open_row_value_file os s db = (st1, db1)" by fastforce
  have st1: "IsOk st1" using Cons.prems(1,2) 1 by (auto split: if_splits)
  have s: "unat s < length (rowValueFiles db)" "length (file_content (filesys db) (RowValuePath (directory db) s)) < 2 ^ 53"
    using Cons.prems(4) by simp_all
  note S = open_row_value_file_outcome [OF 1 st1 Cons.prems(3) s(2,1)]
  have same: "readOnly db1 = readOnly db" "directory db1 = directory db" using open_row_value_file_setup [OF 1] by blast+
  have rest: "open_row_value_files os ids db1 = (st, db')" using Cons.prems(1) 1 st1 by simp
  have len: "length (file_content (filesys db1) p) < 2 ^ 53" if "length (file_content (filesys db) p) < 2 ^ 53" for p
    using S that by (auto simp: kept_or_new_def dest!: spec [of _ p])
  have "\<forall>s \<in> set ids. unat s < length (rowValueFiles db1) \<and>
      length (file_content (filesys db1) (RowValuePath (directory db1) s)) < 2 ^ 53"
    using Cons.prems(4) S len by (simp add: same)
  from Cons.IH [OF rest Cons.prems(2) _ this] have IH:
    "length (rowValueFiles db') = length (rowValueFiles db1)"
    "\<forall>s \<in> set ids. rowValueFiles db' ! unat s = Some (RowValuePath (directory db) s)"
    "\<forall>n. n \<notin> unat ` set ids \<longrightarrow> rowValueFiles db' ! n = rowValueFiles db1 ! n"
    "\<forall>p. p \<notin> RowValuePath (directory db) ` set ids \<longrightarrow> files (filesys db') p = files (filesys db1) p"
    "\<forall>p. kept_or_new (file_content (filesys db1) p) (file_content (filesys db') p)"
    using Cons.prems(3) same by simp_all
  have "rowValueFiles db' ! unat s = Some (RowValuePath (directory db) s)"
  proof (cases "unat s \<in> unat ` set ids")
    case True
    then obtain s' where s': "s' \<in> set ids" "unat s = unat s'" by blast
    have "s = s'" using s'(2) by (rule word_unat_eq_iff [THEN iffD2])
    then have "s \<in> set ids" using s'(1) by simp
    then show ?thesis using IH(2) by blast
  next
    case False
    then show ?thesis using IH(3) S s(1) by simp
  qed
  moreover have "kept_or_new (file_content (filesys db) p) (file_content (filesys db') p)" for p
    using S IH(5) kept_or_new_trans by blast
  ultimately show ?case using IH S by auto
qed simp

lemma of_nat_unat32: "n < unat (k :: u32) \<Longrightarrow> unat (of_nat n :: u32) = n"
  using less_trans [of n "unat k" 4294967296] by (simp add: unat_of_nat take_bit_eq_mod)

lemma OpenRowValueFiles_outcome:
  assumes r: "OpenRowValueFiles os db = (st, db')" "IsOk st" "\<not> readOnly db"
    and len: "\<And>s. s < unat (rowShardCount (options db)) \<Longrightarrow>
      length (file_content (filesys db) (RowValuePath (directory db) (of_nat s))) < 2 ^ 53"
  shows "length (rowValueFiles db') = unat (rowShardCount (options db)) \<and>
    (\<forall>s < unat (rowShardCount (options db)). rowValueFiles db' ! s = Some (RowValuePath (directory db) (of_nat s))) \<and>
    (\<forall>p. kept_or_new (file_content (filesys db) p) (file_content (filesys db') p))"
proof -
  define n where "n = unat (rowShardCount (options db))"
  define db1 where "db1 = db\<lparr>rowValueFiles := replicate n None, rowValueMaps := replicate n Unmapped, rowAppendOffsets := replicate n 0\<rparr>"
  have un: "unat (of_nat s :: u32) = s" if "s < n" for s using of_nat_unat32 that unfolding n_def by blast
  have run: "open_row_value_files os (map of_nat [0..<n]) db1 = (st, db')"
    using r(1) by (simp add: OpenRowValueFiles_def Let_def n_def db1_def)
  have ids: "\<forall>s \<in> set (map of_nat [0..<n]). unat s < length (rowValueFiles db1) \<and>
      length (file_content (filesys db1) (RowValuePath (directory db1) s)) < 2 ^ 53"
    using len un by (auto simp: db1_def n_def)
  have "\<not> readOnly db1" using r(3) by (simp add: db1_def)
  from open_row_value_files_outcome [OF run r(2) this ids]
  have R: "length (rowValueFiles db') = n" "\<forall>s \<in> set (map of_nat [0..<n]). rowValueFiles db' ! unat s = Some (RowValuePath (directory db) s)"
    "\<forall>p. kept_or_new (file_content (filesys db) p) (file_content (filesys db') p)"
    by (simp_all add: db1_def)
  have "rowValueFiles db' ! s = Some (RowValuePath (directory db) (of_nat s))" if "s < n" for s
    using R(2) un [OF that] that by force
  then show ?thesis using R(1,3) by (simp add: n_def)
qed

lemma OpenRowIndexFile_total:
  assumes bounds: "row_index_in_bounds (file_content (filesys db) (rowIndexPath db))"
    and rw: "readOnly db \<or> (\<exists>j. initialRowBucketCount (options db) = 2 ^ j \<and> 4 \<le> j \<and> j \<le> 56) \<and>
      length (rowValueFiles db) < 2 ^ 32 \<and>
      (\<forall>s < length (rowValueFiles db). \<exists>path. rowValueFiles db ! s = Some path \<and> path \<noteq> rowIndexPath db \<and>
         shard_scannable (file_content (filesys db) path)) \<and>
      items_fit (options db) (sum_list (map (\<lambda>s. length (file_content (filesys db) (the (rowValueFiles db ! s))) - 24) [0..<length (rowValueFiles db)]))"
  shows "\<exists>st db'. OpenRowIndexFile os db = Some (st, db')"
proof -
  obtain st fd fs1 where o: "(if readOnly db
      then (case OpenReadOnlyFile os (filesys db) (rowIndexPath db) of (st, fd) \<Rightarrow> (st, fd, filesys db))
      else OpenReadWriteCreate os (filesys db) (rowIndexPath db)) = (st, fd, fs1)" by (metis prod_cases3)
  have others: "p \<noteq> rowIndexPath db \<Longrightarrow> files fs1 p = files (filesys db) p" for p
    using o OpenReadWriteCreate_files(1) by (auto split: if_splits prod.splits)
  have content: "file_content fs1 (rowIndexPath db) = file_content (filesys db) (rowIndexPath db)"
    using o OpenReadWriteCreate_files(2) by (auto split: if_splits prod.splits)
  define db1 where "db1 = db\<lparr>filesys := fs1, rowIndexFile := fd\<rparr>"
  note OI = OpenRowIndexFile_def [of os db, unfolded o Let_def prod.case]
  show ?thesis
  proof (cases "IsOk st")
    case False
    then show ?thesis by (simp add: OI)
  next
    case st: True
    have fd: "fd = Some (rowIndexPath db)"
      using o st OpenReadWriteCreate_files(3) by (auto simp: OpenReadOnlyFile_def split: if_splits prod.splits option.splits)
    show ?thesis
    proof (cases "GetFileSize os fs1 fd")
      case (Inl e)
      then show ?thesis by (simp add: OI st)
    next
      case (Inr fileSize)
      define mapped where "mapped = MapWithProtection os fd (decode_row_index (file_content fs1 (the fd))) fileSize (\<not> readOnly db)"
      define db2 where "db2 = (if fileSize = 0 then db1 else db1\<lparr>rowIndexMap := Unmapped\<rparr>)"
      consider db' st' where "OpenRowIndexFile os db = Some (st', db')"
        | "\<not> readOnly db" "OpenRowIndexFile os db = (case CreateEmptyRowIndex os db2 (initialRowBucketCount (options db)) of
            None \<Rightarrow> None | Some (status, db3) \<Rightarrow> if \<not> IsOk status then Some (status, db3) else RebuildRowIndexFromValues os db3)"
      proof (cases "fileSize = 0")
        case True
        then show ?thesis using st Inr that by (cases "readOnly db") (simp_all add: OI db2_def db1_def)
      next
        case nz: False
        obtain ms m where m: "mapped = (ms, m)" by fastforce
        note m' = m [unfolded mapped_def]
        show ?thesis
        proof (cases "IsOk ms")
          case False
          then show ?thesis using st Inr nz m' that(1) by (simp add: OI)
        next
          case ok: True
          have size: "fileSize = of_nat (length (file_content (filesys db) (rowIndexPath db)))"
            using Inr fd content by (auto simp: GetFileSize_def split: option.splits)
          have "mapped_data m = Some (decode_row_index (file_content (filesys db) (rowIndexPath db)))"
            using MapWithProtection_view [OF m' ok] fd content by simp
          then obtain valid where hv: "HasValidRowIndexLayout (db1\<lparr>rowIndexMap := m\<rparr>) fileSize = Some valid"
            using HasValidRowIndexLayout_defined [OF _ bounds, of "db1\<lparr>rowIndexMap := m\<rparr>"] size by auto
          show ?thesis
          proof (cases valid)
            case True
            then show ?thesis using st Inr nz m' ok that(1) hv by (simp add: OI db1_def)
          next
            case False
            then show ?thesis using st Inr nz m' ok that hv by (cases "readOnly db") (simp_all add: OI db2_def db1_def)
          qed
        qed
      qed
      then show ?thesis
      proof cases
        case 2
        then obtain j where rw: "length (rowValueFiles db) < 2 ^ 32" "\<And>s. s < length (rowValueFiles db) \<Longrightarrow> \<exists>path.
              rowValueFiles db ! s = Some path \<and> path \<noteq> rowIndexPath db \<and> shard_scannable (file_content (filesys db) path)"
            "items_fit (options db) (sum_list (map (\<lambda>s. length (file_content (filesys db) (the (rowValueFiles db ! s))) - 24) [0..<length (rowValueFiles db)]))"
            "initialRowBucketCount (options db) = 2 ^ j" "4 \<le> j" "j \<le> 56" using rw by blast
        obtain st3 db3 where create: "CreateEmptyRowIndex os db2 (2 ^ j) = Some (st3, db3)"
            "IsOk st3 \<Longrightarrow> row_index_frame db2 db3 \<and> rows_within 0 db3"
          using CreateEmptyRowIndex_total [OF rw(5,6), of os db2] by blast
        have run: "OpenRowIndexFile os db = (if \<not> IsOk st3 then Some (st3, db3) else RebuildRowIndexFromValues os db3)"
          by (simp add: 2 rw(4) create(1))
        show ?thesis
        proof (cases "IsOk st3")
          case False
          then show ?thesis by (simp add: run)
        next
          case ok3: True
          have fr: "row_index_frame db2 db3" and t: "rows_within 0 db3" using create(2) [OF ok3] by blast+
          have f2: "rowValueFiles db2 = rowValueFiles db" "rowIndexFile db2 = Some (rowIndexPath db)" "options db2 = options db"
            "filesys db2 = fs1" using fd by (simp_all add: db2_def db1_def)
          have f3: "rowValueFiles db3 = rowValueFiles db" "rowIndexFile db3 = Some (rowIndexPath db)" "options db3 = options db"
            using row_index_frameD(1,2,5) [OF fr] f2 by simp_all
          have o3: "file_content (filesys db3) p = file_content (filesys db) p" if "p \<noteq> rowIndexPath db" for p
            using row_index_frameD(9) [OF fr, of p] f2 others that by (simp add: file_content_def)
          let ?ids = "map of_nat [0..<length (rowValueFiles db3)] :: u32 list"
          have un: "unat (of_nat s :: u32) = s" if "s < length (rowValueFiles db)" for s
            using that rw(1) by (simp add: unat_of_nat take_bit_eq_mod)
          have shards: "\<exists>path. rowValueFiles db3 ! unat s = Some path \<and> rowIndexFile db3 \<noteq> Some path \<and>
              shard_scannable (file_content (filesys db3) path)" if s: "s \<in> set ?ids" for s
          proof -
            obtain k where k: "k < length (rowValueFiles db)" "s = of_nat k" using s f3(1) by auto
            obtain path where "rowValueFiles db ! k = Some path" "path \<noteq> rowIndexPath db" "shard_scannable (file_content (filesys db) path)"
              using rw(2) [OF k(1)] by blast
            then show ?thesis using o3 un [OF k(1)] by (simp add: f3 k(2))
          qed
          have "map (\<lambda>s. length (file_content (filesys db3) (the (rowValueFiles db3 ! unat s))) - 24) ?ids =
              map (\<lambda>s. length (file_content (filesys db) (the (rowValueFiles db ! s))) - 24) [0..<length (rowValueFiles db)]"
          proof -
            have "length (file_content (filesys db3) (the (rowValueFiles db3 ! unat (of_nat k :: u32)))) - 24 =
                length (file_content (filesys db) (the (rowValueFiles db ! k))) - 24" if k: "k < length (rowValueFiles db)" for k
            proof -
              obtain path where "rowValueFiles db ! k = Some path" "path \<noteq> rowIndexPath db" using rw(2) [OF k] by blast
              then show ?thesis using o3 un [OF k] by (simp add: f3)
            qed
            then show ?thesis by (simp add: f3(1))
          qed
          then have fit: "items_fit (options db3) (0 + sum_list (map (\<lambda>s. length (file_content (filesys db3) (the (rowValueFiles db3 ! unat s))) - 24) ?ids))"
            using rw(3) f3(3) by simp
          have "scan_frame db3 db3" by (simp add: scan_frame_def)
          then obtain st4 ns4 db4 where "rebuild_shards os ?ids 1 db3 = Some (st4, ns4, db4)"
            using rebuild_shards_total [OF _ t shards fit, of os 1] by blast
          then show ?thesis using ok3 by (simp add: run RebuildRowIndexFromValues_def)
        qed
      qed simp
    qed
  qed
qed

end
