(* ===== verification/Open_Termination.thy ===== *)
theory Open_Termination
  imports Open_Outcomes Scan_Termination Histories
begin

text \<open>
  Every open ends.  For a read-only open nothing is asked of the files.  A read-write open may have to rebuild an
  index, and its scans end when no header on their way gives a size that wraps to 0; a value file
  in the first format is the matter of \<open>Migration\<close>.
\<close>

subsection \<open>The steps of an open\<close>

lemma options_fit_items: "options_fit opts n \<Longrightarrow> items_fit (rounded_options opts) n"
  by (erule options_fitD) (auto simp: items_fit_def rounded_options_def)

text \<open>What the files of a directory must be for the scans of a read-write open to end.\<close>

definition scans_end :: "fs \<Rightarrow> string \<Rightarrow> DatabaseOptions \<Rightarrow> bool" where
  "scans_end fs dir opts \<longleftrightarrow>
     (let log = file_content fs (path_join dir ''values.lumov'');
          shards = map (\<lambda>s. file_content fs (RowValuePath dir (of_nat s))) [0..<unat (rowShardCount opts)]
      in \<not> legacy_value_file log \<and> records_advance log \<and> list_all blocks_advance shards \<and>
         options_fit opts (length log) \<and> options_fit opts (sum_list (map length shards)))"

lemma member_le_sum_list_nat: "x \<in> set xs \<Longrightarrow> f x \<le> (sum_list (map f xs) :: nat)"
  by (induction xs) auto

text \<open>The index files that are there do not claim more buckets than 64 bits can count bytes for.\<close>

definition indexes_in_bounds :: "fs \<Rightarrow> string \<Rightarrow> bool" where
  "indexes_in_bounds fs dir \<longleftrightarrow>
     index_in_bounds (file_content fs (path_join dir ''index.lumoi'')) \<and>
     row_index_in_bounds (file_content fs (path_join dir ''row_index.lumori''))"

lemma open_files_total:
  assumes paths: "paths_set db" and opts: "options db = rounded_options opts" and bounds: "indexes_in_bounds (filesys db) (directory db)"
    and rw: "readOnly db \<or> scans_end (filesys db) (directory db) opts"
  shows "\<exists>st db'. open_files os db = Some (st, db')"
proof -
  define log where "log = file_content (filesys db) (valuePath db)"
  define n where "n = unat (rowShardCount opts)"
  define shard where "shard s = file_content (filesys db) (RowValuePath (directory db) (of_nat s))" for s :: nat
  have log: "log = file_content (filesys db) (path_join (directory db) ''values.lumov'')" using paths by (simp add: log_def paths_set_def)
  have rw: "readOnly db \<or> \<not> legacy_value_file log \<and> records_advance log \<and> (\<forall>s < n. blocks_advance (shard s)) \<and>
      options_fit opts (length log) \<and> options_fit opts (sum_list (map (\<lambda>s. length (shard s)) [0..<n]))"
    using rw unfolding scans_end_def Let_def log [symmetric] by (auto simp: n_def shard_def comp_def list_all_iff)
  have fit53: "m < 2 ^ 53" if "options_fit opts m" for m using that by (auto elim: options_fitD)
  have pd: "valuePath db \<noteq> indexPath db" "valuePath db \<noteq> rowIndexPath db" "indexPath db \<noteq> rowIndexPath db"
    "\<And>s. RowValuePath (directory db) s \<noteq> valuePath db" "\<And>s. RowValuePath (directory db) s \<noteq> indexPath db"
    "\<And>s. RowValuePath (directory db) s \<noteq> rowIndexPath db"
    using paths by (simp_all add: paths_set_def RowValuePath_def)
  obtain s1 db1 where 1: "OpenValueFile os db = Some (s1, db1)" and R1: "IsOk s1 \<Longrightarrow> valueFile db1 = Some (valuePath db) \<and>
      (\<forall>p. p \<noteq> valuePath db \<longrightarrow> files (filesys db1) p = files (filesys db) p) \<and>
      (\<not> readOnly db \<longrightarrow> kept_or_new log (file_content (filesys db1) (valuePath db)))"
    using OpenValueFile_total [OF log_def, of os] rw fit53 by blast
  show ?thesis
  proof (cases "IsOk s1")
    case False
    then show ?thesis by (simp add: open_files_def 1)
  next
    case ok1: True
    note f1 = OpenValueFile_flags [OF 1, unfolded same_flags_def]
    define c where "c = file_content (filesys db1) (valuePath db)"
    have ready: "readOnly db1 \<or> length c < 2 ^ 53 \<and> records_advance c \<and> items_fit (options db1) (length c - 24) \<and>
      (\<exists>j. initialBucketCount (options db1) = 2 ^ j \<and> 4 \<le> j \<and> j \<le> 58)"
    proof (cases "readOnly db")
      case False
      then have d: "records_advance log" "options_fit opts (length log)" "kept_or_new log c" using rw R1 [OF ok1] by (auto simp: c_def)
      have "items_fit (options db) (length c - 24)"
        using items_fit_mono [OF options_fit_items [OF d(2)]] kept_or_new_length [OF d(3)] by (simp add: opts)
      moreover have "length c < 2 ^ 53" using d(3) fit53 [OF d(2)] by (auto simp: kept_or_new_def)
      moreover have "\<exists>j. initialBucketCount (options db) = 2 ^ j \<and> 4 \<le> j \<and> j \<le> 58"
        unfolding opts by (rule options_fitD [OF d(2)]) blast
      ultimately show ?thesis using kept_records_advance [OF d(3,1)] f1 by simp
    qed (use f1 in simp)
    have v1: "valueFile db1 = Some (valuePath db)" "valuePath db \<noteq> indexPath db1" using R1 [OF ok1] f1 pd(1) by simp_all
    have ib: "index_in_bounds (file_content (filesys db1) (indexPath db1))"
      using bounds R1 [OF ok1] f1 pd(1) paths by (simp add: indexes_in_bounds_def file_content_def paths_set_def)
    obtain s2 db2 where 2: "OpenIndexFile os db1 = Some (s2, db2)" and R2: "IsOk s2 \<Longrightarrow>
        \<forall>p. p \<noteq> indexPath db1 \<longrightarrow> files (filesys db2) p = files (filesys db1) p"
      using OpenIndexFile_total [OF v1 c_def ib ready, of os] by blast
    show ?thesis
    proof (cases "IsOk s2")
      case False
      then show ?thesis by (simp add: open_files_def 1 2 ok1)
    next
      case ok2: True
      note f2 = OpenIndexFile_flags [OF 2, unfolded same_flags_def]
      obtain s3 db3 where 3: "OpenRowValueFiles os db2 = (s3, db3)" by fastforce
      show ?thesis
      proof (cases "IsOk s3")
        case False
        then show ?thesis by (simp add: open_files_def 1 2 3 ok1 ok2)
      next
        case ok3: True
        note f3 = OpenRowValueFiles_flags [OF 3, unfolded same_flags_def]
        have "file_content (filesys db2) (rowIndexPath db) = file_content (filesys db) (rowIndexPath db)"
          using R1 [OF ok1] R2 [OF ok2] f1 pd(2,3) by (simp add: file_content_def)
        then have rb2: "row_index_in_bounds (file_content (filesys db2) (rowIndexPath db))"
          using bounds paths by (simp add: indexes_in_bounds_def paths_set_def)
        have rb: "row_index_in_bounds (file_content (filesys db3) (rowIndexPath db3))" if "\<not> readOnly db \<Longrightarrow>
            kept_or_new (file_content (filesys db2) (rowIndexPath db)) (file_content (filesys db3) (rowIndexPath db))"
          using that rb2 kept_row_index_in_bounds OpenRowValueFiles_read_only [OF _ 3] f1 f2 f3 by (cases "readOnly db") auto
        have "(\<not> readOnly db \<longrightarrow> kept_or_new (file_content (filesys db2) (rowIndexPath db)) (file_content (filesys db3) (rowIndexPath db))) \<and>
          (readOnly db3 \<or> (\<exists>j. initialRowBucketCount (options db3) = 2 ^ j \<and> 4 \<le> j \<and> j \<le> 56) \<and>
            length (rowValueFiles db3) < 2 ^ 32 \<and>
            (\<forall>s < length (rowValueFiles db3). \<exists>path. rowValueFiles db3 ! s = Some path \<and> path \<noteq> rowIndexPath db3 \<and>
               shard_scannable (file_content (filesys db3) path)) \<and>
            items_fit (options db3) (sum_list (map (\<lambda>s. length (file_content (filesys db3) (the (rowValueFiles db3 ! s))) - 24) [0..<length (rowValueFiles db3)])))"
        proof (cases "readOnly db")
          case False
          then have d: "\<And>s. s < n \<Longrightarrow> blocks_advance (shard s)" "options_fit opts (sum_list (map (\<lambda>s. length (shard s)) [0..<n]))"
            using rw by blast+
          have same: "options db2 = rounded_options opts" "directory db2 = directory db" "\<not> readOnly db2" using f1 f2 opts False by simp_all
          have files2: "file_content (filesys db2) (RowValuePath (directory db) s) = file_content (filesys db) (RowValuePath (directory db) s)" for s
            using R1 [OF ok1] R2 [OF ok2] f1 pd(4,5) by (simp add: file_content_def)
          have count: "rowShardCount (options db2) = rowShardCount opts" by (simp add: same rounded_options_def)
          have len: "length (shard s) < 2 ^ 53" if "s < n" for s
          proof -
            have "length (shard s) \<le> sum_list (map (\<lambda>s. length (shard s)) [0..<n])"
              using that by (intro member_le_sum_list_nat [where f = "\<lambda>s. length (shard s)"]) simp
            then show ?thesis using fit53 [OF d(2)] by simp
          qed
          have R3: "length (rowValueFiles db3) = n" "\<And>s. s < n \<Longrightarrow> rowValueFiles db3 ! s = Some (RowValuePath (directory db) (of_nat s))"
            "\<And>p. kept_or_new (file_content (filesys db2) p) (file_content (filesys db3) p)"
            using OpenRowValueFiles_outcome [OF 3 ok3 same(3)] len files2 by (simp_all add: count n_def [symmetric] same(2) shard_def)
          have kept: "kept_or_new (shard s) (file_content (filesys db3) (RowValuePath (directory db) (of_nat s)))" for s
            using R3(3) [of "RowValuePath (directory db) (of_nat s)"] by (simp add: files2 shard_def)
          have "shard_scannable (file_content (filesys db3) (RowValuePath (directory db) (of_nat s)))" if "s < n" for s
            using kept_shard_scannable [OF kept] d(1) len that by (simp add: shard_scannable_def)
          moreover have "sum_list (map (\<lambda>s. length (file_content (filesys db3) (the (rowValueFiles db3 ! s))) - 24) [0..<n]) \<le>
              sum_list (map (\<lambda>s. length (shard s)) [0..<n])"
          proof (rule sum_list_mono)
            fix s assume "s \<in> set [0..<n]"
            then show "length (file_content (filesys db3) (the (rowValueFiles db3 ! s))) - 24 \<le> length (shard s)"
              using kept_or_new_length [OF kept [of s]] R3(2) [of s] by simp
          qed
          then have "items_fit (options db3) (sum_list (map (\<lambda>s. length (file_content (filesys db3) (the (rowValueFiles db3 ! s))) - 24) [0..<n]))"
            using items_fit_mono [OF options_fit_items [OF d(2)]] f3 same(1) by simp
          moreover have "\<exists>j. initialRowBucketCount (options db3) = 2 ^ j \<and> 4 \<le> j \<and> j \<le> 56"
            unfolding conjunct1 [OF conjunct2 [OF conjunct2 [OF conjunct2 [OF f3]]]] same(1) by (rule options_fitD [OF d(2)]) blast
          moreover have "n < 2 ^ 32" using unat_bound32 [of "rowShardCount opts"] by (simp add: n_def)
          moreover have "rowIndexPath db3 = rowIndexPath db" using f1 f2 f3 by simp
          ultimately show ?thesis using R3(1,2,3) pd(6) by simp
        qed (use f1 f2 f3 in simp)
        then obtain s4 db4 where "OpenRowIndexFile os db3 = Some (s4, db4)"
          using OpenRowIndexFile_total [OF rb, of os] by blast
        then show ?thesis using ok1 ok2 ok3 by (cases "IsOk s4") (simp_all add: open_files_def 1 2 3)
      qed
    qed
  qed
qed

subsection \<open>The files of a database\<close>

text \<open>The files a database leaves behind when it is closed satisfy what a read-write open asks for.\<close>

lemma database_records_advance:
  assumes rs: "records_from c 24 = Some rs" and len: "length c < 2 ^ 63"
  shows "records_advance c"
proof -
  have step: "scanned_record_size c off \<noteq> 0 \<and> (\<exists>rs. records_from c (off + unat (scanned_record_size c off)) = Some rs)"
    if r: "records_from c off = Some rs" and off: "off + 24 \<le> length c" for off rs
  proof -
    let ?h = "header_at c off"
    obtain x rest where x: "record_at c off = Some x" "records_from c (record_end c off) = Some rest"
      using r off by (subst (asm) records_from.simps) (auto split: if_splits option.splits)
    have e: "record_end c off \<le> length c" using x(1) by (auto simp: record_at_def Let_def split: if_splits)
    have sum: "off + 24 + unat (vr_columnSize ?h) + unat (vr_keySize ?h) + unat (vr_valueSize ?h) \<le> length c"
      using e by (simp add: record_end_def Let_def)
    have "unat (24 + ucast (vr_columnSize ?h) :: u64) = 24 + unat (vr_columnSize ?h)"
      by (subst unat_add64) (use sum len in simp_all)
    then have "unat (24 + ucast (vr_columnSize ?h) + ucast (vr_keySize ?h) :: u64) = 24 + unat (vr_columnSize ?h) + unat (vr_keySize ?h)"
      by (subst unat_add64) (use sum len in simp_all)
    then have u: "unat (scanned_record_size c off) = 24 + unat (vr_columnSize ?h) + unat (vr_keySize ?h) + unat (vr_valueSize ?h)"
      unfolding scanned_record_size_def Let_def by (subst unat_add64) (use sum len in simp_all)
    then have "scanned_record_size c off \<noteq> 0" by (metis add_is_0 unat_0 zero_neq_numeral)
    moreover have "off + unat (scanned_record_size c off) = record_end c off" using u by (simp add: record_end_def Let_def)
    ultimately show ?thesis using x(2) by metis
  qed
  have "\<exists>rs. records_from c off = Some rs" if "record_walk c off" for off
    using that by induction (use rs step in blast)+
  then show ?thesis using step unfolding records_advance_def by blast
qed

lemma database_blocks_advance:
  assumes bs: "blocks_from c 24 bs"
  shows "blocks_advance c"
proof -
  have step: "rb_blockSize (block_header c off) \<noteq> 0 \<and> (\<exists>bs. blocks_from c (off + unat (rb_blockSize (block_header c off))) bs)"
    if r: "blocks_from c off bs" and off: "off + 72 \<le> length c" for off bs
  proof -
    obtain column L rest where b: "block_at c off column L" "layout_ok column (rb_rowId (rl_header L)) L"
        "blocks_from c (off + layout_size column L) rest"
      using r off by (cases bs) auto
    have hd: "block_header c off = rl_header L" by (rule block_at_header(2) [OF b(1,2)])
    have size: "unat (rb_blockSize (rl_header L)) = layout_size column L" by (rule layout_okD(12) [OF b(2)])
    moreover have "0 < layout_size column L" by (simp add: layout_size_def)
    ultimately have "rb_blockSize (rl_header L) \<noteq> 0" by (metis less_numeral_extra(3) unat_0)
    then show ?thesis using b(3) size hd by auto
  qed
  have "\<exists>bs. blocks_from c off bs" if "block_walk c off" for off
    using that by induction (use bs step in blast)+
  then show ?thesis using step unfolding blocks_advance_def by blast
qed

lemma stored_index_in_bounds:
  "object_index_ok c v \<Longrightarrow> index_in_bounds (encode_object_index v)" "row_index_ok S w \<Longrightarrow> row_index_in_bounds (encode_row_index w)"
proof -
  assume ok: "object_index_ok c v"
  then obtain k where k: "k \<le> 58" "ih_bucketCount (oi_header v) = 2 ^ k" by (rule object_index_okD)
  have "decode_object_index (encode_object_index v) = v"
    using ok by (intro decode_encode_object_index) (simp_all add: object_index_ok_def index_header_ok_def magic_defs)
  then have "decode_IndexFileHeader (encode_object_index v) = oi_header v" by (metis decode_object_index_def object_index.select_convs(1))
  then show "index_in_bounds (encode_object_index v)" using k pow2_le_58 [OF k(1)] by (simp add: index_in_bounds_def)
next
  assume ok: "row_index_ok S w"
  then obtain k where k: "k \<le> 56" "rih_bucketCount (ri_header w) = 2 ^ k" by (rule row_index_okD)
  have "decode_row_index (encode_row_index w) = w"
    using ok by (intro decode_encode_row_index) (simp_all add: row_index_ok_def row_header_ok_def magic_defs)
  then have "decode_RowIndexFileHeader (encode_row_index w) = ri_header w" by (metis decode_row_index_def row_index.select_convs(1))
  then show "row_index_in_bounds (encode_row_index w)" using k pow2_le_56 [OF k(1)] by (simp add: row_index_in_bounds_def)
qed

lemma database_scans_end:
  assumes db: "database_ok db" and n: "rowShardCount opts = rowShardCount (options db)"
    and fit: "options_fit opts (length (value_bytes db))" "options_fit opts (sum_list (map length (shards_of db)))"
  shows "scans_end (filesys (snd (Close os db))) (directory db) opts" and "indexes_in_bounds (filesys (snd (Close os db))) (directory db)"
proof -
  note sound = database_ok_sound [OF db]
  note rest = sound_at_rest(1) [OF sound n, of os, unfolded values_at_rest_def]
  have v: "files (filesys (snd (Close os db))) (valuePath db) = Some (value_bytes db)"
    and s: "\<And>s. s < unat (rowShardCount (options db)) \<Longrightarrow> files (filesys (snd (Close os db))) (shard_path db s) = Some (row_bytes db s)"
    using rest by (simp_all add: start_open_def set_paths_def)
  have path: "valuePath db = path_join (directory db) ''values.lumov''" using sound by (simp add: database_sound_def paths_set_def)
  have log: "file_content (filesys (snd (Close os db))) (path_join (directory db) ''values.lumov'') = value_bytes db"
    using v by (simp add: file_content_def path)
  have count: "length (rowValueFiles db) = unat (rowShardCount opts)" using sound n by (simp add: database_sound_def)
  have shards: "map (\<lambda>s. file_content (filesys (snd (Close os db))) (RowValuePath (directory db) (of_nat s)))
      [0..<unat (rowShardCount opts)] = shards_of db"
    using s unfolding shards_of_def count by (simp add: file_content_def shard_path_def n)
  note vb = sound_value_bytes [OF sound]
  obtain rs where "records_from (value_bytes db) 24 = Some rs"
    using sound vb(5) by (auto simp: database_sound_def object_log_ok_def)
  then have "records_advance (value_bytes db)" using database_records_advance vb(4) by blast
  moreover have "\<not> legacy_value_file (value_bytes db)"
    using vb(3) by (simp add: value_header_ok_def legacy_value_file_def Let_def MagicEquals_def kValueFileMagic_def kLegacyValueFileMagic_def)
  moreover have "list_all blocks_advance (shards_of db)"
  proof -
    obtain logs where "shard_logs (shards_of db) logs" using db by (auto simp: database_ok_def row_log_ok_def)
    then have "list_all2 (\<lambda>c bs. row_value_header_ok c \<and> blocks_from c 24 bs) (shards_of db) logs" by (simp add: shard_logs_def)
    then show ?thesis unfolding list_all_iff
      using database_blocks_advance by (metis (no_types, lifting) in_set_conv_nth list_all2_conv_all_nth)
  qed
  ultimately show "scans_end (filesys (snd (Close os db))) (directory db) opts" using fit by (simp add: scans_end_def Let_def log shards)
  obtain v w where m: "mapped_data (indexMap db) = Some v" "mapped_data (rowIndexMap db) = Some w"
    using sound by (rule sound_maps)
  have paths: "indexPath db = path_join (directory db) ''index.lumoi''" "rowIndexPath db = path_join (directory db) ''row_index.lumori''"
    using sound by (simp_all add: database_sound_def paths_set_def)
  have stored: "files (filesys (snd (Close os db))) (indexPath db) = Some (encode_object_index v)"
    "files (filesys (snd (Close os db))) (rowIndexPath db) = Some (encode_row_index w)"
    using sound_at_rest(2,3) [OF sound n, of os] m by (simp_all add: index_intact_def row_index_intact_def start_open_def set_paths_def)
  have ok: "object_index_ok (value_bytes db) v" "row_index_ok (shards_of db) w"
    using sound m by (auto simp: database_sound_def object_ok_def no_tail_def row_ok_def row_core_ok_def)
  have "index_in_bounds (encode_object_index v)" "row_index_in_bounds (encode_row_index w)"
    using stored_index_in_bounds ok by blast+
  then show "indexes_in_bounds (filesys (snd (Close os db))) (directory db)"
    using stored by (simp add: indexes_in_bounds_def file_content_def paths)
qed

subsection \<open>Every open ends\<close>

text \<open>The files at the moment an open looks at them: an open database is closed first.\<close>

definition files_at_open :: "os \<Rightarrow> Impl \<Rightarrow> fs" where
  "files_at_open os db = filesys (if opened db then snd (Close os db) else db)"

lemma OpenInternal_total:
  assumes counts: "unat (initialBucketCount opts) \<le> 2 ^ 63" "unat (initialRowBucketCount opts) \<le> 2 ^ 63"
    and files: "options_ok opts \<Longrightarrow> indexes_in_bounds (files_at_open os db) dir"
    and rw: "options_ok opts \<Longrightarrow> \<not> ro \<Longrightarrow> scans_end (files_at_open os db) dir opts"
  shows "\<exists>st db'. OpenInternal os db dir opts ro = Some (st, db')"
proof -
  obtain st db0 where c: "(if opened db then Close os db else (Ok, db)) = (st, db0)" by fastforce
  have fs0: "files_at_open os db = filesys db0" using c by (auto simp: files_at_open_def split: if_splits)
  show ?thesis
  proof (cases "IsOk st \<and> options_ok opts")
    case False
    then show ?thesis
      using counts RoundUp_Some [OF counts(1)] RoundUp_Some [OF counts(2)]
      by (auto simp: OpenInternal_def c Let_def options_ok_def split: option.splits prod.splits)
  next
    case True
    then have ok: "options_ok opts" "IsOk st" by blast+
    obtain n rn where n: "RoundUpPowerOfTwo (initialBucketCount opts) = Some n" "RoundUpPowerOfTwo (initialRowBucketCount opts) = Some rn"
      using RoundUp_Some [OF counts(1)] RoundUp_Some [OF counts(2)] by blast
    define db1 where "db1 = db0\<lparr>directory := dir, options := opts, readOnly := ro, rowPendingInsertCount := 0\<rparr>"
    define db2 where "db2 = db1\<lparr>options := opts\<lparr>initialBucketCount := n, initialRowBucketCount := rn\<rparr>\<rparr>"
    have db2: "options db2 = rounded_options opts" "filesys db2 = filesys db0" "readOnly db2 = ro" "directory db2 = dir"
      by (simp_all add: db2_def db1_def rounded_options_def n)
    obtain ps fs where prep: "prepare_directory os db2 = (ps, fs)" by fastforce
    have run: "OpenInternal os db dir opts ro =
        (if \<not> IsOk ps then Some (ps, db2\<lparr>filesys := fs\<rparr>) else open_files os (set_paths (db2\<lparr>filesys := fs\<rparr>)))"
      using ok prep n by (simp add: OpenInternal_def c Let_def options_ok_def db2_def db1_def)
    have "files fs = files (filesys db0)"
      using prep by (auto simp: prepare_directory_def EnsureDirectory_def db2 split: if_splits option.splits)
    then have same: "file_content fs = file_content (filesys db0)" by (simp add: file_content_def fun_eq_iff)
    let ?d = "set_paths (db2\<lparr>filesys := fs\<rparr>)"
    have "paths_set ?d" "options ?d = rounded_options opts" "readOnly ?d = ro" "directory ?d = dir" "filesys ?d = fs"
      by (simp_all add: paths_set_def set_paths_def db2)
    moreover have "ro \<or> scans_end fs dir opts" "indexes_in_bounds fs dir"
      using rw files ok(1) by (auto simp: fs0 scans_end_def indexes_in_bounds_def same)
    ultimately have "\<exists>st db'. open_files os ?d = Some (st, db')" by (intro open_files_total [of _ opts]) simp_all
    then show ?thesis by (auto simp: run)
  qed
qed

text \<open>C5. Every open ends, and one that fails leaves nothing open: whatever the system calls answer, an open of a database
  that was open or closed returns status OK, with the database open in the mode asked for, or an error, with
  every file closed and every mapping gone.  The initial bucket counts are at most \<open>2 ^ 63\<close> (beyond that the rounding
  loop never ends).  When the options are accepted, the sizes of the stored indexes do not wrap (\<open>indexes_in_bounds\<close>;
  where one does, the check of its layout reads behind the mapping), and for a read-write open the scans get
  through the value files (\<open>scans_end\<close>: current format, no record or block size on the way that wraps to 0, and
  options that fit their length).  The files of every database are like that (\<open>database_scans_end\<close>).\<close>

theorem Open_succeeds_or_closes:
  assumes "opened db \<or> all_closed db"
    and "unat (initialBucketCount opts) \<le> 2 ^ 63" and "unat (initialRowBucketCount opts) \<le> 2 ^ 63"
    and "options_ok opts \<Longrightarrow> indexes_in_bounds (files_at_open os db) dir"
    and "options_ok opts \<Longrightarrow> \<not> ro \<Longrightarrow> scans_end (files_at_open os db) dir opts"
  shows "\<exists>status db'. OpenInternal os db dir opts ro = Some (status, db') \<and>
    (if IsOk status then status = Ok \<and> opened db' \<and> readOnly db' = ro else all_closed db')"
proof -
  obtain status db' where r: "OpenInternal os db dir opts ro = Some (status, db')" using OpenInternal_total [OF assms(2-5)] by blast
  then show ?thesis using OpenInternal_outcome [OF r assms(1)] by (auto simp: open_outcome_def)
qed

text \<open>A system on which mapping a file always fails; the files are those of a database that was just closed.\<close>

definition no_mmap_os :: os where
  "no_mmap_os = choppy_os\<lparr>mmap_error := \<lambda>_ _. Some ''Cannot allocate memory''\<rparr>"

lemma Open_succeeds_or_closes_witness:
  "\<exists>db status db'. database_ok db \<and> Open no_mmap_os db ''data'' DatabaseOptions_default = Some (status, db') \<and>
     (if IsOk status then status = Ok \<and> opened db' \<and> \<not> readOnly db' else all_closed db')"
proof -
  obtain db db1 status db0 where r: "database_ok db1" "directory db1 = ''data''"
    "rowShardCount DatabaseOptions_default = rowShardCount (options db1)"
    "length (value_bytes db1) \<le> 10000" "sum_list (map length (shards_of db1)) \<le> 10000"
    by (rule closed_sample)
  have opened: "opened db1" using r(1) by (simp add: database_ok_def object_ok_def)
  have "scans_end (filesys (snd (Close no_mmap_os db1))) ''data'' DatabaseOptions_default"
    "indexes_in_bounds (filesys (snd (Close no_mmap_os db1))) ''data''"
    using database_scans_end [OF r(1,3), of no_mmap_os] options_fit_mono [OF default_options_fit] r(2,4,5) by simp_all
  then have "scans_end (files_at_open no_mmap_os db1) ''data'' DatabaseOptions_default" "indexes_in_bounds (files_at_open no_mmap_os db1) ''data''" using opened by (simp_all add: files_at_open_def)
  moreover have "unat (initialBucketCount DatabaseOptions_default) \<le> 2 ^ 63" "unat (initialRowBucketCount DatabaseOptions_default) \<le> 2 ^ 63"
    by (simp_all add: DatabaseOptions_default_def)
  ultimately obtain status' db' where "OpenInternal no_mmap_os db1 ''data'' DatabaseOptions_default False = Some (status', db')"
      "if IsOk status' then status' = Ok \<and> opened db' \<and> readOnly db' = False else all_closed db'"
    using Open_succeeds_or_closes [of db1 DatabaseOptions_default no_mmap_os "''data''" False] opened by blast
  then show ?thesis
    using r(1) by (intro exI [of _ db1] exI [of _ status'] exI [of _ db']) (simp add: Open_def)
qed

end
