(* ===== verification/Read_Only.thy ===== *)
theory Read_Only
  imports Histories
begin

text \<open>
  Opening for reading only: the value files and the index files are mapped, nothing is created,
  rebuilt or written, and the two maps are the stored ones.
\<close>

subsection \<open>The row value files\<close>

definition mapped_shard :: "bytes \<Rightarrow> bytes MappedFile" where
  "mapped_shard c = \<lparr>mapped_data = Some c, mapped_size = of_nat (length c), mapped_writable = False\<rparr>"

lemma open_row_value_file_ro:
  assumes os: "calls_ok os" "reads_ok os" and ro: "readOnly db"
    and path: "path = RowValuePath (directory db) shardId" and s: "unat shardId < length (rowValueFiles db)"
    and stored: "files (filesys db) path = Some c" and hdr: "row_value_header_ok c" and len: "length c < 2 ^ 63"
  shows "open_row_value_file os shardId db =
    (Ok, db\<lparr>rowValueFiles := (rowValueFiles db)[unat shardId := Some path],
            rowAppendOffsets := (rowAppendOffsets db)[unat shardId := of_nat (length c)],
            rowValueMaps := (rowValueMaps db)[unat shardId := mapped_shard c]\<rparr>)"
proof -
  have n: "unat (of_nat (length c) :: u64) = length c" using len by (intro unat_of_nat64) simp
  have c24: "24 \<le> length c" using hdr by (simp add: row_value_header_ok_def)
  have big: "\<not> (of_nat (length c) :: u64) < 24" "(of_nat (length c) :: u64) \<noteq> 0"
    using c24 n by (auto simp: word_less_nat_alt)
  have content: "file_content (filesys db) path = c" using stored by (rule file_content_Some)
  have fd: "OpenReadOnlyFile os (filesys db) path = (Ok, Some path)"
    using os(1) stored by (simp add: OpenReadOnlyFile_def calls_ok_def)
  have stat: "GetFileSize os (filesys db) (Some path) = Inr (of_nat (length c))"
    using os(1) by (simp add: GetFileSize_def calls_ok_def content)
  have read: "ReadAllAt os (filesys db) (Some path) 24 0 = Inr (take 24 c)"
    using ReadAllAt_within [OF os(2) stored len, of 0 24] c24 by simp
  have map: "MapWithProtection os (Some path) c (of_nat (length c)) False = (Ok, mapped_shard c)"
    using os(1) big by (simp add: MapWithProtection_def calls_ok_def mapped_shard_def)
  show ?thesis
    using ro s big hdr
    by (simp add: open_row_value_file_def Let_def fd stat read path [symmetric] content map
        MagicEquals_def row_value_header_ok_def)
qed

definition shards_on_disk :: "Impl \<Rightarrow> bytes list \<Rightarrow> bool" where
  "shards_on_disk db S \<longleftrightarrow>
     length S = unat (rowShardCount (options db)) \<and>
     (\<forall>s < length S. files (filesys db) (shard_path db s) = Some (S ! s) \<and> row_value_header_ok (S ! s) \<and>
        length (S ! s) < 2 ^ 63)"

lemma OpenRowValueFiles_ro:
  assumes os: "calls_ok os" "reads_ok os" and ro: "readOnly db" and disk: "shards_on_disk db S"
  shows "OpenRowValueFiles os db = (Ok, db\<lparr>rowValueFiles := map (\<lambda>s. Some (shard_path db s)) [0..<length S],
      rowValueMaps := map mapped_shard S, rowAppendOffsets := map (\<lambda>c. of_nat (length c)) S\<rparr>)"
proof -
  define n where "n = unat (rowShardCount (options db))"
  have len: "length S = n" using disk by (simp add: shards_on_disk_def n_def)
  define db1 where "db1 m = db\<lparr>rowValueFiles := map (\<lambda>s. Some (shard_path db s)) [0..<m] @ replicate (n - m) None,
      rowValueMaps := map mapped_shard (take m S) @ replicate (n - m) Unmapped,
      rowAppendOffsets := map (\<lambda>c. of_nat (length c)) (take m S) @ replicate (n - m) 0\<rparr>" for m
  have "open_row_value_files os (map of_nat [0..<m]) (db1 0) = (Ok, db1 m)" if "m \<le> n" for m
    using that
  proof (induction m)
    case (Suc m)
    have m: "m < n" using Suc.prems by simp
    have um: "unat (of_nat m :: u32) = m"
      using less_trans [OF m [unfolded n_def] unat_bound32] by (simp add: unat_of_nat take_bit_eq_mod)
    have c: "files (filesys (db1 m)) (shard_path db m) = Some (S ! m)" "row_value_header_ok (S ! m)"
      "length (S ! m) < 2 ^ 63"
      using disk m by (simp_all add: shards_on_disk_def n_def db1_def)
    have "open_row_value_file os (of_nat m) (db1 m) = (Ok, db1 (Suc m))"
      using open_row_value_file_ro [OF os _ _ _ c, of "of_nat m"] ro m um len
      by (simp add: db1_def shard_path_def replicate_update take_Suc_conv_app_nth)
    then show ?case using Suc by (simp add: open_row_value_files_append)
  qed simp
  from this [of n] show ?thesis
    by (simp add: OpenRowValueFiles_def Let_def n_def [symmetric] db1_def len)
qed

subsection \<open>Flushing\<close>

lemma Flush_ok:
  assumes os: "calls_ok os" and db: "database_sound db"
  shows "Flush os db = Ok"
proof -
  obtain v w where m: "mapped_data (indexMap db) = Some v" "mapped_data (rowIndexMap db) = Some w"
    using db by (rule sound_maps)
  have wr: "mapped_writable (indexMap db)" "mapped_writable (rowIndexMap db)"
    using db by (auto simp: database_sound_def object_ok_def row_ok_def row_core_ok_def)
  have rows: "sync_files os (map (\<lambda>s. Some (f s)) ss) = Ok" for f and ss :: "nat list"
    using os by (induction ss) (simp_all add: SyncFile_def calls_ok_def)
  have "indexFile db = Some (indexPath db)" "valueFile db = Some (valuePath db)" "rowIndexFile db = Some (rowIndexPath db)"
    "rowValueFiles db = map (\<lambda>s. Some (shard_path db s)) [0..<unat (rowShardCount (options db))]"
    using db by (simp_all add: database_sound_def)
  then show ?thesis using os m wr by (simp add: Flush_def rows SyncFile_def SyncMapping_def calls_ok_def Let_def)
qed

subsection \<open>Opening\<close>

lemma OpenReadOnly_sound:
  assumes os: "calls_ok os" "reads_ok os" and db: "database_sound db" and opts: "options_ok opts"
    and n: "rowShardCount opts = rowShardCount (options db)" and c: "Close os db = (status, db0)"
  shows "\<exists>db'. OpenReadOnly os db0 (directory db) opts = Some (Ok, db') \<and> opened db' \<and> readOnly db' \<and>
    object_readable db' \<and> rows_readable db' \<and> objects db' = objects db \<and> rows db' = rows db \<and>
    files (filesys db') = files (filesys db0) \<and> files (filesys (snd (Close os db'))) = files (filesys db0) \<and>
    dirs (filesys (snd (Close os db'))) (directory db)"
proof -
  have db0: "snd (Close os db) = db0" by (simp add: c)
  define x where "x = start_open db0 (directory db) opts True"
  have same: "files (filesys x) = files (filesys (start_open db0 (directory db) opts False))" by (simp add: x_def)
  note rest = sound_at_rest [OF db n, of os, unfolded db0]
  have paths: "paths_set db" "paths_set x" using db by (simp_all add: database_sound_def x_def)
  have p: "valuePath x = valuePath db" "indexPath x = indexPath db" "rowIndexPath x = rowIndexPath db"
    "directory x = directory db" "readOnly x"
    using paths by (simp_all add: paths_set_def x_def)
  obtain v w where m: "mapped_data (indexMap db) = Some v" "mapped_data (rowIndexMap db) = Some w"
    using db by (rule sound_maps)
  define c where "c = value_bytes db"
  define S where "S = shards_of db"
  have fv: "files (filesys x) (valuePath x) = Some c" "files (filesys x) (indexPath x) = Some (encode_object_index v)"
    "files (filesys x) (rowIndexPath x) = Some (encode_row_index w)"
    using rest m p same by (simp_all add: values_at_rest_def index_intact_def row_index_intact_def c_def)
  note vb = sound_value_bytes [OF db, folded c_def]
  have lenS: "length S = unat (rowShardCount (options x))" "length S = unat (rowShardCount (options db))"
    using db n by (simp_all add: S_def x_def database_sound_def)
  have sp: "shard_path x = shard_path db" using p by (simp add: shard_path_def fun_eq_iff)
  have disk: "shards_on_disk x S"
    unfolding shards_on_disk_def
  proof (intro conjI allI impI)
    fix s assume s: "s < length S"
    then have rb: "S ! s = row_bytes db s" by (simp add: S_def)
    show "files (filesys x) (shard_path x s) = Some (S ! s)"
      using rest(1) s same by (simp add: values_at_rest_def sp rb lenS(2))
    show "row_value_header_ok (S ! s)" "length (S ! s) < 2 ^ 63"
      using sound_row_bytes(3,4) [OF db] s by (simp_all add: rb lenS(2))
  qed (use lenS in simp)
  have ok: "object_ok db" "row_ok db" "no_tail db" using db by (simp_all add: database_sound_def)
  have oi: "object_index_ok c v" using ok(1,3) m by (auto simp: object_ok_def no_tail_def c_def)
  have ri: "row_index_ok S w" using ok(2) m by (auto simp: row_ok_def row_core_ok_def S_def)
  define x1 where "x1 = x\<lparr>valueFile := Some (valuePath x), appendOffset := of_nat (length c),
    valueMap := \<lparr>mapped_data = Some c, mapped_size = of_nat (length c), mapped_writable = False\<rparr>\<rparr>"
  have o1: "OpenValueFile os x = Some (Ok, x1)"
    using OpenValueFile_valid [OF os fv(1) vb(3,4)] p by (simp add: x1_def)
  define x2 where "x2 = x1\<lparr>indexFile := Some (indexPath x), indexMap :=
    \<lparr>mapped_data = Some v, mapped_size = of_nat (length (encode_object_index v)), mapped_writable = False\<rparr>\<rparr>"
  have "files (filesys x1) (indexPath x1) = Some (encode_object_index v)" using fv by (simp add: x1_def)
  from OpenIndexFile_valid [OF os(1) this oi] have o2: "OpenIndexFile os x1 = Some (Ok, x2)"
    using p by (simp add: x2_def x1_def)
  define x3 where "x3 = x2\<lparr>rowValueFiles := map (\<lambda>s. Some (shard_path x2 s)) [0..<length S],
      rowValueMaps := map mapped_shard S, rowAppendOffsets := map (\<lambda>c. of_nat (length c)) S\<rparr>"
  have "shards_on_disk x2 S" "readOnly x2" using disk p by (simp_all add: shards_on_disk_def x2_def x1_def shard_path_def)
  then have o3: "OpenRowValueFiles os x2 = (Ok, x3)" unfolding x3_def by (intro OpenRowValueFiles_ro [OF os])
  define x4 where "x4 = x3\<lparr>rowIndexFile := Some (rowIndexPath x), rowIndexMap :=
    \<lparr>mapped_data = Some w, mapped_size = of_nat (length (encode_row_index w)), mapped_writable = False\<rparr>\<rparr>"
  have "files (filesys x3) (rowIndexPath x3) = Some (encode_row_index w)" "unat (rowShardCount (options x3)) = length S"
    using fv lenS by (simp_all add: x3_def x2_def x1_def)
  from OpenRowIndexFile_valid [OF os(1) this(1) ri this(2)] have o4: "OpenRowIndexFile os x3 = Some (Ok, x4)"
    using p by (simp add: x4_def x3_def x2_def x1_def)
  define db' where "db' = x4\<lparr>opened := True\<rparr>"
  have "\<not> opened db0" "dirs (filesys db0) (directory db)"
    using sound_Close(2,3) [OF db, of os] db db0 by (simp_all add: database_sound_def all_closed_def)
  then have run: "OpenReadOnly os db0 (directory db) opts = Some (Ok, db')"
    using OpenInternal_starts [OF os(1) _ opts, of db0 "directory db" True] o1 o2 o3 o4
    by (simp add: OpenReadOnly_def open_files_def db'_def flip: x_def)
  have bytes: "value_bytes db' = c" by (simp add: value_bytes_def db'_def x4_def x3_def x2_def x1_def)
  have un: "unat (of_nat (length c) :: u64) = length c" using vb(4) by (intro unat_of_nat64) simp
  have "object_readable db'"
    using oi un vb(4) unfolding object_readable_def bytes
    by (simp add: value_readable_def bytes) (simp add: db'_def x4_def x3_def x2_def x1_def)
  moreover have "objects db' = objects db"
    using m unfolding objects_def bytes by (simp add: c_def Buckets_def) (simp add: db'_def x4_def x3_def x2_def x1_def)
  moreover have len': "length (rowValueFiles db') = length S" by (simp add: db'_def x4_def x3_def)
  have rb: "row_bytes db' s = S ! s" "unat (mapped_size (rowValueMaps db' ! s)) = length (S ! s)"
    "s < length (rowValueMaps db')" "IsMapped (rowValueMaps db' ! s)" "length (S ! s) < 2 ^ 63" if "s < length S" for s
  proof -
    show l: "length (S ! s) < 2 ^ 63" using disk that by (simp add: shards_on_disk_def)
    have "unat (of_nat (length (S ! s)) :: u64) = length (S ! s)" using l by (intro unat_of_nat64) simp
    then show "unat (mapped_size (rowValueMaps db' ! s)) = length (S ! s)"
      using that by (simp add: db'_def x4_def x3_def mapped_shard_def)
    show "s < length (rowValueMaps db')" "IsMapped (rowValueMaps db' ! s)"
      using that by (simp_all add: db'_def x4_def x3_def mapped_shard_def IsMapped_def)
    then show "row_bytes db' s = S ! s"
      using that by (simp add: row_bytes_def) (simp add: db'_def x4_def x3_def mapped_shard_def)
  qed
  have shards: "shards_of db' = S" unfolding shards_of_def len' using rb(1) by (intro nth_equalityI) simp_all
  have rm: "mapped_data (rowIndexMap db') = Some w" by (simp add: db'_def x4_def)
  have "row_readable db'" using rb unfolding row_readable_def len' by simp
  then have "rows_readable db'" using ri rm shards by (simp add: rows_readable_def) (simp add: db'_def)
  moreover have "rows db' = rows db" using m rm by (simp add: rows_def shards RowBuckets_def) (simp add: S_def)
  moreover have "opened db'" "readOnly db'" "files (filesys db') = files (filesys db0)"
    using p by (simp_all add: db'_def x4_def x3_def x2_def x1_def) (simp add: x_def)
  moreover have "\<not> mapped_writable (rowIndexMap db')" "\<not> mapped_writable (indexMap db')"
    by (simp_all add: db'_def x4_def x3_def x2_def)
  then have fs: "filesys (CloseFiles db') = filesys db'"
    by (simp add: CloseFiles_def Let_def unmap_index_def unmap_row_index_def split: option.split)
  have "dirs (filesys db') (directory db)"
    using p by (simp add: db'_def x4_def x3_def x2_def x1_def) (simp add: x_def)
  then have "files (filesys (snd (Close os db'))) = files (filesys db0)" "dirs (filesys (snd (Close os db'))) (directory db)"
    using calculation fs by (simp_all add: Close_def)
  ultimately show ?thesis using run by blast
qed

lemmas OpenReadOnly_maps = OpenReadOnly_sound [OF _ _ database_ok_sound]

lemma read_only_refuses:
  assumes "opened db" and "readOnly db"
  shows "PutStructs os db column entries = Some (InvalidArgument ''database is read-only'', db)"
    and "PutUniqueStructs os db column entries = Some (InvalidArgument ''database is read-only'', db)"
    and "PutStruct os db column key v = Some (InvalidArgument ''database is read-only'', db)"
    and "Put os db key v = Some (InvalidArgument ''database is read-only'', db)"
    and "PutRowStructs os db column rowId rentries = Some (InvalidArgument ''database is read-only'', db)"
    and "PutRowStruct os db column rowId key v = Some (InvalidArgument ''database is read-only'', db)"
  using assms
  by (simp_all add: Put_def PutStruct_def PutStructs_def PutUniqueStructs_def WriteStructs_def PutRowStructs_def WriteRowStructs_def PutRowStruct_def)

text \<open>C6. A closed database opened for reading only shows the stored objects and rows, refuses every
  write (\<open>Put\<close>, \<open>PutStruct\<close>, \<open>PutStructs\<close>, \<open>PutUniqueStructs\<close>, \<open>PutRowStruct\<close>, \<open>PutRowStructs\<close>) without a change, and closing it again leaves every file as it was.\<close>

theorem read_only_view:
  assumes "calls_ok os" and "reads_ok os" and "database_ok db" and "options_ok opts"
    and "rowShardCount opts = rowShardCount (options db)" and "Close os db = (status, db0)"
  shows "\<exists>db'. OpenReadOnly os db0 (directory db) opts = Some (Ok, db') \<and>
    (\<forall>column key. GetStruct os db' column key = lookup_result (objects db (column, key))) \<and>
    (\<forall>column rowId key. GetRowStruct os db' column rowId key = Some (row_result (rows db (column, rowId)) key)) \<and>
    (\<forall>column entries. PutStructs os db' column entries = Some (InvalidArgument ''database is read-only'', db')) \<and>
    (\<forall>column entries. PutUniqueStructs os db' column entries = Some (InvalidArgument ''database is read-only'', db')) \<and>
    (\<forall>column key v. PutStruct os db' column key v = Some (InvalidArgument ''database is read-only'', db')) \<and>
    (\<forall>key v. Put os db' key v = Some (InvalidArgument ''database is read-only'', db')) \<and>
    (\<forall>column rowId entries. PutRowStructs os db' column rowId entries = Some (InvalidArgument ''database is read-only'', db')) \<and>
    (\<forall>column rowId key v. PutRowStruct os db' column rowId key v = Some (InvalidArgument ''database is read-only'', db')) \<and>
    files (filesys (snd (Close os db'))) = files (filesys db0)"
proof -
  obtain db' where r: "OpenReadOnly os db0 (directory db) opts = Some (Ok, db')" "opened db'" "readOnly db'"
    "object_readable db'" "rows_readable db'" "objects db' = objects db" "rows db' = rows db"
    "files (filesys (snd (Close os db'))) = files (filesys db0)"
    using OpenReadOnly_maps [OF assms] by blast
  have "GetStruct os db' column key = lookup_result (objects db (column, key))" for column key
    using GetStruct_ok [OF assms(2) r(4)] by (simp add: r(6))
  moreover have "GetRowStruct os db' column rowId key = Some (row_result (rows db (column, rowId)) key)" for column rowId key
    using GetRowStruct_ok [OF assms(2) r(5)] by (simp add: r(7))
  ultimately show ?thesis
    using r(1,8) read_only_refuses [OF r(2,3)] by (intro exI [of _ db']) simp
qed

lemma read_only_view_witness:
  "\<exists>db db1 status db0 db2. Open choppy_os (Impl_default empty_fs) ''data'' DatabaseOptions_default = Some (Ok, db) \<and>
    PutStructs choppy_os db [7] sample_entries = Some (Ok, db1) \<and> Close choppy_os db1 = (status, db0) \<and>
    OpenReadOnly choppy_os db0 ''data'' DatabaseOptions_default = Some (Ok, db2) \<and>
    GetStruct choppy_os db2 [7] [1] = Inr [11, 12] \<and> GetStruct choppy_os db2 [7] [3] = Inl (NotFound ''key not found'')"
proof -
  obtain db db1 status db0 where r:
    "Open choppy_os (Impl_default empty_fs) ''data'' DatabaseOptions_default = Some (Ok, db)"
    "PutStructs choppy_os db [7] sample_entries = Some (Ok, db1)" "database_ok db1" "directory db1 = ''data''"
    "objects db1 = store_entries [7] sample_entries (\<lambda>_. None)" "Close choppy_os db1 = (status, db0)"
    "rowShardCount DatabaseOptions_default = rowShardCount (options db1)"
    by (rule closed_sample)
  from read_only_view [OF choppy_calls r(3) default_restart r(7,6)] r
  show ?thesis by (auto simp: sample_entries_def)
qed

end
