(* ===== verification/Diagnostics.thy ===== *)
theory Diagnostics
  imports Row_Files "HOL-Library.RBT" "HOL-Library.List_Lexorder"
begin

text \<open>
  The statistics per column and the textual dumps.  The statistics are collected in a \<open>std::map\<close>,
  kept here as the red-black tree of the library; the text written to the output stream is a
  string, and what was written before an error stays written.
\<close>

subsection \<open>Text\<close>

definition hex_digit :: "nat \<Rightarrow> char" where
  "hex_digit n = ''0123456789abcdef'' ! n"

definition escape_byte :: "8 word \<Rightarrow> string" where
  "escape_byte b =
     (if b = 92 then [CHR 0x5C, CHR 0x5C]
      else if b = 34 then [CHR 0x5C, CHR 0x22]
      else if b = 10 then [CHR 0x5C, CHR ''n'']
      else if b = 13 then [CHR 0x5C, CHR ''r'']
      else if b = 9 then [CHR 0x5C, CHR ''t'']
      else if b \<ge> 0x20 \<and> b \<le> 0x7e then [char_of (unat b)]
      else [CHR 0x5C, CHR ''x'', hex_digit (unat (drop_bit 4 b)), hex_digit (unat (b AND 0x0f))])"

definition EscapeText :: "bytes \<Rightarrow> string" where
  "EscapeText value = [CHR 0x22] @ concat (map escape_byte value) @ [CHR 0x22]"

definition HexBytes :: "bytes \<Rightarrow> string" where
  "HexBytes bs = ''0x'' @ concat (map (\<lambda>b. [hex_digit (unat (drop_bit 4 b)), hex_digit (unat (b AND 0x0f))]) bs)"

text \<open>\<open>operator<<\<close> of an unsigned integer.\<close>

definition number :: "u64 \<Rightarrow> string" where
  "number n = decimal (unat n)"

subsection \<open>Statistics\<close>

record ColumnStats =
  cs_column :: bytes
  cs_objectCount :: u64
  cs_rowCount :: u64

definition ColumnStats_default :: ColumnStats where
  "ColumnStats_default = \<lparr>cs_column = [], cs_objectCount = 0, cs_rowCount = 0\<rparr>"

type_synonym stats_map = "(bytes, ColumnStats) rbt"

text \<open>\<open>columns[column]\<close>, then the updates of the entry.\<close>

definition tally :: "bytes \<Rightarrow> u64 \<Rightarrow> u64 \<Rightarrow> stats_map \<Rightarrow> stats_map" where
  "tally column objs rws columns =
     (let entry = (case RBT.lookup columns column of None \<Rightarrow> ColumnStats_default | Some c \<Rightarrow> c)
      in RBT.insert column
           (entry\<lparr>cs_column := column, cs_objectCount := cs_objectCount entry + objs,
                  cs_rowCount := cs_rowCount entry + rws\<rparr>) columns)"

fun count_objects :: "os \<Rightarrow> Impl \<Rightarrow> nat list \<Rightarrow> stats_map \<Rightarrow> Status + stats_map" where
  "count_objects os db [] columns = Inr columns"
| "count_objects os db (index # indices) columns =
     (let bucket = Buckets db ! index in
      if ib_hash bucket = 0 then count_objects os db indices columns
      else case ReadValueAt os db 24 (ib_recordOffset bucket) of
          Inl status \<Rightarrow> Inl status
        | Inr bs \<Rightarrow>
            let recordHeader = decode_ValueRecordHeader bs in
            if \<not> IsValidRecordHeader recordHeader
            then Inl (Corruption ''object index points to an invalid value record'')
            else case ReadRecordColumnKey os db (ib_recordOffset bucket) recordHeader of
                Inl status \<Rightarrow> Inl status
              | Inr (column, key) \<Rightarrow> count_objects os db indices (tally column 1 0 columns))"

fun count_rows :: "os \<Rightarrow> Impl \<Rightarrow> nat list \<Rightarrow> stats_map \<Rightarrow> (Status + stats_map) option" where
  "count_rows os db [] columns = Some (Inr columns)"
| "count_rows os db (index # indices) columns =
     (case LoadFilledRowBucketSnapshotIfPresent db index of
        None \<Rightarrow> None
      | Some (Inl status) \<Rightarrow> Some (Inl status)
      | Some (Inr bucket) \<Rightarrow>
          if rib_state bucket \<noteq> kRowBucketFilled then count_rows os db indices columns
          else if unat (rib_shardId bucket) \<ge> length (rowValueFiles db)
          then Some (Inl (Corruption ''row index points to an invalid shard''))
          else case ReadRowValueAt os db (rib_shardId bucket) 72 (rib_blockOffset bucket) of
              Inl status \<Rightarrow> Some (Inl status)
            | Inr bs \<Rightarrow>
                let blockHeader = decode_RowBlockHeader bs in
                if \<not> IsValidRowBlockHeader blockHeader \<or> rb_blockSize blockHeader \<noteq> rib_blockSize bucket \<or>
                   rb_columnHash blockHeader \<noteq> rib_columnHash bucket \<or> rb_rowId blockHeader \<noteq> rib_rowId bucket
                then Some (Inl (Corruption ''row index points to an invalid row block''))
                else case ReadRowBlockColumn os db (rib_shardId bucket) (rib_blockOffset bucket) blockHeader of
                    Inl status \<Rightarrow> Some (Inl status)
                  | Inr column \<Rightarrow> count_rows os db indices (tally column (ucast (rb_itemCount blockHeader)) 1 columns))"

definition GetColumnStats :: "os \<Rightarrow> Impl \<Rightarrow> (Status + ColumnStats list) option" where
  "GetColumnStats os db =
     (if \<not> opened db then Some (Inl (NotOpen ''database is not open''))
      else case count_objects os db [0..<unat (ih_bucketCount (IndexHeader db))] RBT.empty of
          Inl status \<Rightarrow> Some (Inl status)
        | Inr columns \<Rightarrow>
            (case count_rows os db [0..<unat (rih_bucketCount (RowIndexHeader db))] columns of
               None \<Rightarrow> None
             | Some (Inl status) \<Rightarrow> Some (Inl status)
             | Some (Inr columns) \<Rightarrow> Some (Inr (map snd (RBT.entries columns)))))"

text \<open>One line of the statistics.\<close>

definition stats_line :: "ColumnStats \<Rightarrow> string" where
  "stats_line columnStats =
     ''column='' @ EscapeText (cs_column columnStats) @ '' objects='' @ number (cs_objectCount columnStats) @
     '' rows='' @ number (cs_rowCount columnStats) @ [CHR 0x0A]"

definition DumpColumnStats :: "os \<Rightarrow> Impl \<Rightarrow> string \<Rightarrow> (Status \<times> string) option" where
  "DumpColumnStats os db output =
     (case GetColumnStats os db of
        None \<Rightarrow> None
      | Some (Inl status) \<Rightarrow> Some (status, output)
      | Some (Inr stats) \<Rightarrow>
          Some (Ok, output @ ''LumoDB column statistics'' @ [CHR 0x0A] @ concat (map stats_line stats)))"

subsection \<open>Dumps\<close>

record DumpValue =
  dv_column :: bytes
  dv_rowId :: "u64 option"
  dv_key :: bytes
  dv_bytes :: bytes

text \<open>
  The deserializer is a parameter; an empty \<open>std::function\<close> is \<open>None\<close>.  \<open>deserialized_text\<close> is the
  optional end of a line, or the status of a deserializer that failed.
\<close>

type_synonym DumpDeserializer = "(DumpValue \<Rightarrow> Status \<times> bytes) option"

definition deserialized_text :: "DumpDeserializer \<Rightarrow> DumpValue \<Rightarrow> Status + string" where
  "deserialized_text deserialize v =
     (case deserialize of
        None \<Rightarrow> Inr ''''
      | Some run \<Rightarrow>
          let (status, text) = run v in
          if \<not> IsOk status then Inl status else Inr ('' deserialized='' @ EscapeText text))"

definition object_line :: "nat \<Rightarrow> IndexBucket \<Rightarrow> ValueRecordHeader \<Rightarrow> bytes \<Rightarrow> bytes \<Rightarrow> bytes \<Rightarrow> string" where
  "object_line index bucket recordHeader column key val =
     (let valueOffset = ib_recordOffset bucket + 24 + ucast (vr_columnSize recordHeader) + ucast (vr_keySize recordHeader);
          recordSize = 24 + ucast (vr_columnSize recordHeader) + ucast (vr_keySize recordHeader) + vr_valueSize recordHeader
      in ''  object bucket='' @ decimal index @ '' column='' @ EscapeText column @ '' key='' @ EscapeText key @
         '' column_hash='' @ number (HashString column) @ '' key_hash='' @ number (HashString key) @
         '' index_hash='' @ number (ib_hash bucket) @ '' record_offset='' @ number (ib_recordOffset bucket) @
         '' value_offset='' @ number valueOffset @ '' value_size='' @ number (vr_valueSize recordHeader) @
         '' record_size='' @ number recordSize @ '' value_hex='' @ HexBytes val)"

text \<open>The lines of the objects; the result is the status and the whole output so far.\<close>

fun dump_objects ::
  "os \<Rightarrow> Impl \<Rightarrow> bytes option \<Rightarrow> DumpDeserializer \<Rightarrow> nat list \<Rightarrow> string \<Rightarrow> Status \<times> string" where
  "dump_objects os db columnFilter deserialize [] output = (Ok, output)"
| "dump_objects os db columnFilter deserialize (index # indices) output =
     (let bucket = Buckets db ! index in
      if ib_hash bucket = 0 then dump_objects os db columnFilter deserialize indices output
      else case ReadValueAt os db 24 (ib_recordOffset bucket) of
          Inl status \<Rightarrow> (status, output)
        | Inr bs \<Rightarrow>
            let recordHeader = decode_ValueRecordHeader bs in
            if \<not> IsValidRecordHeader recordHeader
            then (Corruption ''object index points to an invalid value record'', output)
            else case ReadRecordColumnKey os db (ib_recordOffset bucket) recordHeader of
                Inl status \<Rightarrow> (status, output)
              | Inr (column, key) \<Rightarrow>
                  if columnFilter \<noteq> None \<and> columnFilter \<noteq> Some column
                  then dump_objects os db columnFilter deserialize indices output
                  else
                    let valueOffset = ib_recordOffset bucket + 24 + ucast (vr_columnSize recordHeader) +
                          ucast (vr_keySize recordHeader)
                    in case ReadValueAt os db (unat (vr_valueSize recordHeader)) valueOffset of
                        Inl status \<Rightarrow> (status, output)
                      | Inr val \<Rightarrow>
                          (case deserialized_text deserialize
                                  \<lparr>dv_column = column, dv_rowId = None, dv_key = key, dv_bytes = val\<rparr> of
                             Inl status \<Rightarrow> (status, output)
                           | Inr text \<Rightarrow>
                               dump_objects os db columnFilter deserialize indices
                                 (output @ object_line index bucket recordHeader column key val @ text @ [CHR 0x0A])))"

definition row_line :: "nat \<Rightarrow> RowIndexBucket \<Rightarrow> RowBlockHeader \<Rightarrow> bytes \<Rightarrow> string" where
  "row_line index bucket blockHeader column =
     ''  row bucket='' @ decimal index @ '' column='' @ EscapeText column @ '' row_id='' @ number (rib_rowId bucket) @
     '' sequence='' @ number (rib_sequence bucket) @ '' column_hash='' @ number (rib_columnHash bucket) @
     '' shard='' @ decimal (unat (rib_shardId bucket)) @ '' block_offset='' @ number (rib_blockOffset bucket) @
     '' block_size='' @ number (rib_blockSize bucket) @
     '' object_count='' @ decimal (unat (rb_itemCount blockHeader)) @ [CHR 0x0A]"

fun dump_entries :: "DumpDeserializer \<Rightarrow> bytes \<Rightarrow> u64 \<Rightarrow> (bytes \<times> bytes) list \<Rightarrow> string \<Rightarrow> Status \<times> string" where
  "dump_entries deserialize column rowId [] output = (Ok, output)"
| "dump_entries deserialize column rowId ((key, val) # entries) output =
     (case deserialized_text deserialize
             \<lparr>dv_column = column, dv_rowId = Some rowId, dv_key = key, dv_bytes = val\<rparr> of
        Inl status \<Rightarrow> (status, output)
      | Inr text \<Rightarrow>
          dump_entries deserialize column rowId entries
            (output @ ''    key='' @ EscapeText key @ '' value_size='' @ decimal (length val) @
             '' value_hex='' @ HexBytes val @ text @ [CHR 0x0A]))"

text \<open>
  The lines of the rows.  \<open>None\<close> is a snapshot that never settles, or a damaged block whose column
  lies outside the block, which the code reads all the same.
\<close>

fun dump_rows ::
  "os \<Rightarrow> Impl \<Rightarrow> bytes option \<Rightarrow> DumpDeserializer \<Rightarrow> nat list \<Rightarrow> string \<Rightarrow> (Status \<times> string) option" where
  "dump_rows os db columnFilter deserialize [] output = Some (Ok, output)"
| "dump_rows os db columnFilter deserialize (index # indices) output =
     (case LoadFilledRowBucketSnapshotIfPresent db index of
        None \<Rightarrow> None
      | Some (Inl status) \<Rightarrow> Some (status, output)
      | Some (Inr bucket) \<Rightarrow>
          if rib_state bucket \<noteq> kRowBucketFilled then dump_rows os db columnFilter deserialize indices output
          else case LoadRowBlock os db bucket of
              Inl status \<Rightarrow> Some (status, output)
            | Inr block \<Rightarrow>
                if length block < 72 then Some (Corruption ''row block is truncated'', output)
                else
                  let blockHeader = decode_RowBlockHeader block in
                  if \<not> IsValidRowBlockHeader blockHeader \<or> unat (rb_blockSize blockHeader) \<noteq> length block \<or>
                     rb_columnHash blockHeader \<noteq> rib_columnHash bucket \<or> rb_rowId blockHeader \<noteq> rib_rowId bucket
                  then Some (Corruption ''row index points to an invalid row block'', output)
                  else
                    let columnOffset = 72 + ucast (rb_bucketCount blockHeader) * 48 :: u64 in
                    case slice_at block (unat columnOffset) (unat (rb_columnSize blockHeader)) of
                        None \<Rightarrow> None
                      | Some column \<Rightarrow>
                          if columnFilter \<noteq> None \<and> columnFilter \<noteq> Some column
                          then dump_rows os db columnFilter deserialize indices output
                          else case DecodeRowBlockEntries block column (rib_rowId bucket) of
                              None \<Rightarrow> None
                            | Some (Inl status) \<Rightarrow> Some (status, output)
                            | Some (Inr (keys, vals)) \<Rightarrow>
                                let (status, output) = dump_entries deserialize column (rib_rowId bucket) (zip keys vals)
                                      (output @ row_line index bucket blockHeader column)
                                in if \<not> IsOk status then Some (status, output)
                                   else dump_rows os db columnFilter deserialize indices output)"

definition DumpInternal ::
  "os \<Rightarrow> Impl \<Rightarrow> string \<Rightarrow> bytes option \<Rightarrow> DumpDeserializer \<Rightarrow> (Status \<times> string) option" where
  "DumpInternal os db output columnFilter deserialize =
     (if \<not> opened db then Some (NotOpen ''database is not open'', output)
      else
        let output = output @
              (case columnFilter of
                 Some column \<Rightarrow> ''LumoDB column dump column='' @ EscapeText column @ [CHR 0x0A] @
                   ''object_index: buckets='' @ number (BucketCount db) @ [CHR 0x0A]
               | None \<Rightarrow> ''LumoDB dump'' @ [CHR 0x0A] @
                   ''object_index: entries='' @ number (EntryCount db) @ '' buckets='' @ number (BucketCount db) @
                   [CHR 0x0A]) @
              ''objects:'' @ [CHR 0x0A];
            (status, output) = dump_objects os db columnFilter deserialize
              [0..<unat (ih_bucketCount (IndexHeader db))] output
        in if \<not> IsOk status then Some (status, output)
           else
             let output = output @
                   (case columnFilter of
                      Some column \<Rightarrow> ''row_index: buckets='' @ number (RowBucketCount db) @
                        '' shards='' @ decimal (length (rowValueFiles db)) @ [CHR 0x0A]
                    | None \<Rightarrow> ''row_index: rows='' @ number (RowCount db) @ '' buckets='' @ number (RowBucketCount db) @
                        '' shards='' @ decimal (length (rowValueFiles db)) @
                        '' next_sequence='' @ number (rih_nextSequence (RowIndexHeader db)) @ [CHR 0x0A]) @
                   ''rows:'' @ [CHR 0x0A]
             in case dump_rows os db columnFilter deserialize
                       [0..<unat (rih_bucketCount (RowIndexHeader db))] output of
                 None \<Rightarrow> None
               | Some (status, output) \<Rightarrow>
                   if \<not> IsOk status then Some (status, output)
                   else
                     let output = output @ ''column_statistics:'' @ [CHR 0x0A] in
                     case GetColumnStats os db of
                         None \<Rightarrow> None
                       | Some (Inl status) \<Rightarrow> Some (status, output)
                       | Some (Inr stats) \<Rightarrow>
                           Some (Ok, output @ concat (map (\<lambda>columnStats. ''  '' @ stats_line columnStats)
                             (filter (\<lambda>columnStats. columnFilter = None \<or> columnFilter = Some (cs_column columnStats)) stats))))"

definition Dump :: "os \<Rightarrow> Impl \<Rightarrow> string \<Rightarrow> (Status \<times> string) option" where
  "Dump os db output = DumpInternal os db output None None"

definition DumpColumn :: "os \<Rightarrow> Impl \<Rightarrow> string \<Rightarrow> bytes \<Rightarrow> DumpDeserializer \<Rightarrow> (Status \<times> string) option" where
  "DumpColumn os db output column deserialize = DumpInternal os db output (Some column) deserialize"

end
