(* ===== verification/Diagnostics_Theorems.thy ===== *)
theory Diagnostics_Theorems
  imports Diagnostics Histories
begin

text \<open>
  What the diagnostics show: the statistics count exactly the stored objects and rows of every
  column, and quoted text can be read back, so no stored name can forge a line of a dump.
\<close>

subsection \<open>Quoting\<close>

definition hex_value :: "char \<Rightarrow> nat" where
  "hex_value c = (let n = of_char c in if n < 58 then n - 48 else n - 87)"

text \<open>Reading one quoted byte back.\<close>

definition unescape_byte :: "string \<Rightarrow> (8 word \<times> string) option" where
  "unescape_byte s =
     (case s of
        [] \<Rightarrow> None
      | c # rest \<Rightarrow>
          if c = CHR 0x22 then None
          else if c \<noteq> CHR 0x5C then Some (of_nat (of_char c), rest)
          else (case rest of
                  [] \<Rightarrow> None
                | d # rest \<Rightarrow>
                    if d = CHR ''n'' then Some (10, rest)
                    else if d = CHR ''r'' then Some (13, rest)
                    else if d = CHR ''t'' then Some (9, rest)
                    else if d = CHR ''x'' then
                      (case rest of h # l # rest \<Rightarrow> Some (of_nat (16 * hex_value h + hex_value l), rest) | _ \<Rightarrow> None)
                    else Some (of_nat (of_char d), rest)))"

lemma unescape_byte_append: "unescape_byte s = Some (b, r) \<Longrightarrow> unescape_byte (s @ rest) = Some (b, r @ rest)"
  by (auto simp: unescape_byte_def split: list.splits if_splits)

definition printable :: "char \<Rightarrow> bool" where
  "printable c \<longleftrightarrow> (let n = of_char c :: nat in 0x20 \<le> n \<and> n \<le> 0x7e)"

lemma hex_digits: "n < 16 \<Longrightarrow> hex_value (hex_digit n) = n \<and> printable (hex_digit n)"
proof -
  assume "n < 16"
  moreover have "\<forall>m \<in> set [0..<16]. hex_value (hex_digit m) = m \<and> printable (hex_digit m)" by code_simp
  ultimately show ?thesis by simp
qed

lemma byte_bound: "unat (b :: 8 word) < 256"
  using unsigned_less [of b, where 'a = nat] by simp

lemma nibbles:
  fixes b :: "8 word"
  shows "16 * unat (drop_bit 4 b) + unat (b AND 0x0f) = unat b" and "unat (drop_bit 4 b) < 16" and "unat (b AND 0x0f) < 16"
proof -
  have "b AND 0x0f = take_bit 4 b" by (simp add: take_bit_eq_mask mask_eq_exp_minus_1)
  then have "unat (b AND 0x0f) = take_bit 4 (unat b)" by (simp only: unsigned_take_bit_eq)
  then have lo: "unat (b AND 0x0f) = unat b mod 16" by (simp only: take_bit_eq_mod) simp
  have "unat (drop_bit 4 b) = drop_bit 4 (unat b)" by (rule unat_drop_bit_eq)
  then have hi: "unat (drop_bit 4 b) = unat b div 16" by (simp only: drop_bit_eq_div) simp
  show "16 * unat (drop_bit 4 b) + unat (b AND 0x0f) = unat b" unfolding lo hi by simp
  show "unat (drop_bit 4 b) < 16" unfolding hi using byte_bound [of b] by (simp add: div_less_iff_less_mult)
  show "unat (b AND 0x0f) < 16" unfolding lo by simp
qed

lemma escaped_byte:
  "unescape_byte (escape_byte b) = Some (b, []) \<and> list_all printable (escape_byte b)"
proof -
  have code: "of_char (char_of (unat b) :: char) = unat b" using byte_bound [of b] by (simp add: of_char_of)
  have neq: "char_of (unat b) \<noteq> c" if "b \<noteq> of_nat (of_char c)" for c :: char
    using that code by (metis of_nat_unat ucast_id)
  have "b \<noteq> of_nat (of_char (CHR 0x22 :: char))" if "b \<noteq> 34" using that by simp
  moreover have "b \<noteq> of_nat (of_char (CHR 0x5C :: char))" if "b \<noteq> 92" using that by simp
  ultimately have plain: "char_of (unat b) \<noteq> (CHR 0x22 :: char)" "char_of (unat b) \<noteq> (CHR 0x5C :: char)"
    if "b \<noteq> 34" "b \<noteq> 92" using that neq by blast+
  have range: "0x20 \<le> unat b \<and> unat b \<le> 0x7e" if "b \<ge> 0x20 \<and> b \<le> 0x7e" using that by (simp add: word_le_nat_alt)
  have hex: "of_nat (16 * hex_value (hex_digit (unat (drop_bit 4 b))) + hex_value (hex_digit (unat (b AND 0x0f)))) = b"
    using hex_digits nibbles [of b] by simp
  have letters: "printable (CHR 0x5C)" "printable (CHR 0x22)" "printable (CHR ''n'')" "printable (CHR ''r'')"
    "printable (CHR ''t'')" "printable (CHR ''x'')"
    by (simp_all add: printable_def)
  show ?thesis
    using plain range hex letters hex_digits nibbles(2,3) [of b]
    by (auto simp: escape_byte_def unescape_byte_def code printable_def Let_def)
qed

text \<open>Reading a quoted text back, up to the closing quote.\<close>

function unescape_text :: "string \<Rightarrow> bytes option" where
  "unescape_text s =
     (if s = [CHR 0x22] then Some []
      else case unescape_byte s of
          None \<Rightarrow> None
        | Some (b, rest) \<Rightarrow> map_option ((#) b) (unescape_text rest))"
  by pat_completeness auto
termination
  by (relation "measure length") (auto simp: unescape_byte_def split: list.splits if_splits)

declare unescape_text.simps [simp del]

lemma unescape_text_escaped: "unescape_text (concat (map escape_byte bs) @ [CHR 0x22]) = Some bs"
proof (induction bs)
  case Nil
  show ?case by (simp add: unescape_text.simps)
next
  case (Cons b bs)
  have s: "unescape_byte (escape_byte b @ concat (map escape_byte bs) @ [CHR 0x22]) =
      Some (b, concat (map escape_byte bs) @ [CHR 0x22])"
    using unescape_byte_append [OF conjunct1 [OF escaped_byte]] by simp
  moreover have "unescape_byte [CHR 0x22] = None" by (simp add: unescape_byte_def)
  ultimately have "escape_byte b @ concat (map escape_byte bs) @ [CHR 0x22] \<noteq> [CHR 0x22]" by force
  then show ?case using s Cons.IH by (simp add: unescape_text.simps [of "escape_byte b @ _"])
qed

text \<open>\<open>EscapeText\<close> loses nothing and lets nothing through: the quoted text can be read back to the
  very bytes, and it holds printable ASCII characters only, so no name or value can break a line of
  a dump or pass for another one.\<close>

theorem EscapeText_faithful:
  "unescape_text (tl (EscapeText bs)) = Some bs \<and> list_all printable (EscapeText bs)"
proof -
  have "list_all printable (concat (map escape_byte bs))"
    using escaped_byte by (induction bs) simp_all
  then show ?thesis using unescape_text_escaped [of bs] by (simp add: EscapeText_def printable_def)
qed

subsection \<open>Tallies\<close>

lemma lookup_tally:
  "RBT.lookup (tally column n r columns) c =
     (if c = column
      then (let e = (case RBT.lookup columns column of None \<Rightarrow> ColumnStats_default | Some e \<Rightarrow> e)
            in Some \<lparr>cs_column = column, cs_objectCount = cs_objectCount e + n, cs_rowCount = cs_rowCount e + r\<rparr>)
      else RBT.lookup columns c)"
  by (simp add: tally_def Let_def)

definition tally_all :: "(bytes \<times> u64 \<times> u64) list \<Rightarrow> stats_map \<Rightarrow> stats_map" where
  "tally_all ts columns = fold (\<lambda>(c, n, r). tally c n r) ts columns"

lemma tally_all_simps [simp]:
  "tally_all [] columns = columns" "tally_all ((c, n, r) # ts) columns = tally_all ts (tally c n r columns)"
  "tally_all (ts @ us) columns = tally_all us (tally_all ts columns)"
  by (simp_all add: tally_all_def)

definition tallied :: "(bytes \<times> u64 \<times> u64) list \<Rightarrow> bytes \<Rightarrow> ColumnStats" where
  "tallied ts c =
     (let sel = filter (\<lambda>t. fst t = c) ts
      in \<lparr>cs_column = c, cs_objectCount = sum_list (map (fst \<circ> snd) sel), cs_rowCount = sum_list (map (snd \<circ> snd) sel)\<rparr>)"

lemma lookup_tally_all:
  "RBT.lookup (tally_all ts RBT.empty) c = (if c \<in> fst ` set ts then Some (tallied ts c) else None)"
proof (induction ts rule: rev_induct)
  case (snoc t ts)
  obtain d n r where t: "t = (d, n, r)" by (cases t)
  have none: "filter (\<lambda>t. fst t = d) ts = []" if "d \<notin> fst ` set ts" using that by (auto simp: filter_empty_conv)
  show ?case
    using snoc.IH none by (auto simp: t lookup_tally tallied_def ColumnStats_default_def Let_def)
qed simp

lemma tally_entries:
  "map snd (RBT.entries (tally_all ts RBT.empty)) = map (tallied ts) (sorted_list_of_set (fst ` set ts))"
proof -
  let ?m = "tally_all ts RBT.empty"
  have "set (RBT.keys ?m) = fst ` set ts" unfolding RBT.lookup_keys [symmetric] dom_def lookup_tally_all by simp
  then have keys: "RBT.keys ?m = sorted_list_of_set (fst ` set ts)"
    by (intro sorted_distinct_set_unique) simp_all
  have "snd e = tallied ts (fst e)" if "e \<in> set (RBT.entries ?m)" for e
  proof -
    have "RBT.lookup ?m (fst e) = Some (snd e)" using that by (simp add: RBT.lookup_in_tree)
    then show ?thesis by (simp add: lookup_tally_all split: if_splits)
  qed
  then have "map snd (RBT.entries ?m) = map (tallied ts) (map fst (RBT.entries ?m))" by simp
  also have "map fst (RBT.entries ?m) = RBT.keys ?m" by (simp add: RBT.keys_def_alt)
  finally show ?thesis using keys by simp
qed

subsection \<open>The scan of the object index\<close>

lemma occupied_Cons [simp]: "occupied vacant (b # bs) = (if vacant b then occupied vacant bs else b # occupied vacant bs)"
  by (simp add: occupied_def)

lemma occupied_Nil [simp]: "occupied vacant [] = []"
  by (simp add: occupied_def)

lemma count_objects_ok:
  assumes os: "reads_ok os" and readable: "value_readable db"
    and ok: "\<forall>i \<in> set is. \<not> vacant_bucket (Buckets db ! i) \<longrightarrow> bucket_record (value_bytes db) (Buckets db ! i) \<noteq> None"
  shows "count_objects os db is columns = Inr (tally_all
    (map (\<lambda>b. (fst (bucket_key (value_bytes db) b), 1, 0)) (occupied vacant_bucket (map ((!) (Buckets db)) is))) columns)"
  using ok
proof (induction "is" arbitrary: columns)
  case (Cons i "is")
  define b where "b = Buckets db ! i"
  show ?case
  proof (cases "vacant_bucket b")
    case False
    then obtain c k v where rec: "bucket_record (value_bytes db) b = Some (c, k, v)"
      using Cons.prems by (auto simp: b_def)
    note rec' = rec [unfolded bucket_record_def]
    have len: "length (value_bytes db) < 2 ^ 63" using readable by (simp add: value_readable_def)
    note r = record_at_bounds [OF rec' len]
    have "unat (ib_recordOffset b) + 24 \<le> length (value_bytes db)" using r(1) by simp
    note read = ReadValueAt_ok [OF os readable this]
    have h: "decode_ValueRecordHeader (take 24 (drop (unat (ib_recordOffset b)) (value_bytes db))) =
        header_at (value_bytes db) (unat (ib_recordOffset b))"
      by (simp add: header_at_def)
    show ?thesis
      using Cons False ReadRecordColumnKey_ok [OF os readable rec'] r(5) rec
      by (simp add: b_def [symmetric] read h bucket_key_def Let_def)
  qed (use Cons in \<open>simp add: b_def\<close>)
qed simp

subsection \<open>The scan of the row index\<close>

definition row_tally :: "bytes list \<Rightarrow> RowIndexBucket \<Rightarrow> bytes \<times> u64 \<times> u64" where
  "row_tally S b = (fst (row_bucket_key S b), of_nat (card (dom (row_bucket_row S b))), 1)"

lemma layout_card: "layout_ok column rowId L \<Longrightarrow> card (dom (layout_map L)) = unat (rb_itemCount (rl_header L))"
  using layout_okD(1,9) [of column rowId L]
  by (simp add: layout_map_def row_table_map_def row_table_ok_def table_map_card)

lemma LoadIfPresent:
  "row_bucket_at S b c L \<Longrightarrow> RowBuckets db ! i = b \<Longrightarrow> LoadFilledRowBucketSnapshotIfPresent db i = Some (Inr b)"
  "vacant_row (RowBuckets db ! i) \<Longrightarrow> LoadFilledRowBucketSnapshotIfPresent db i = Some (Inr RowIndexBucket_default)"
  using LoadRowBucketSnapshot_filled [of S b c L db i] LoadRowBucketSnapshot_empty [of db i]
  by (simp_all add: LoadFilledRowBucketSnapshotIfPresent.simps)

lemma count_rows_ok:
  assumes os: "reads_ok os" and readable: "row_readable db"
    and ok: "\<forall>i \<in> set is. \<not> vacant_row (RowBuckets db ! i) \<longrightarrow> row_bucket_ok (shards_of db) (RowBuckets db ! i)"
  shows "count_rows os db is columns = Some (Inr (tally_all
    (map (row_tally (shards_of db)) (occupied vacant_row (map ((!) (RowBuckets db)) is))) columns))"
  using ok
proof (induction "is" arbitrary: columns)
  case (Cons i "is")
  define b where "b = RowBuckets db ! i"
  show ?case
  proof (cases "vacant_row b")
    case True
    then show ?thesis using Cons LoadIfPresent(2) [of db i] by (simp add: b_def RowIndexBucket_default_def)
  next
    case False
    then obtain c L where at: "row_bucket_at (shards_of db) b c L"
      using Cons.prems by (auto simp: b_def row_bucket_ok_def)
    have s: "unat (rib_shardId b) < length (rowValueFiles db)" "rib_state b = kRowBucketFilled"
      and blk: "block_at (row_bytes db (unat (rib_shardId b))) (unat (rib_blockOffset b)) c L"
      and lay: "layout_ok c (rib_rowId b) L" and h: "rib_columnHash b = HashString c"
      and bsz: "rib_blockSize b = rb_blockSize (rl_header L)"
      using at by (auto simp: row_bucket_at_def)
    note d = layout_okD [OF lay]
    have le: "unat (rib_blockOffset b) + 72 \<le> length (row_bytes db (unat (rib_shardId b)))"
      using blk by (simp add: block_at_def layout_size_def)
    have hdr: "ReadRowValueAt os db (rib_shardId b) 72 (rib_blockOffset b) = Inr (encode_RowBlockHeader (rl_header L))"
      using ReadRowValueAt_ok [OF os readable s(1) refl le] block_at_header(1) [OF blk lay] by simp
    have dec: "decode_RowBlockHeader (encode_RowBlockHeader (rl_header L)) = rl_header L"
      using decode_encode_RowBlockHeader [of "rl_header L" "[]"] by simp
    have "of_nat (card (dom (layout_map L))) = (ucast (rb_itemCount (rl_header L)) :: u64)"
      by (simp add: layout_card [OF lay])
    then have t: "row_tally (shards_of db) b = (c, ucast (rb_itemCount (rl_header L)), 1)"
      using row_bucket_atD(1,2) [OF at] by (simp add: row_tally_def)
    show ?thesis
      using Cons False s layout_header_valid [OF lay] d(5,6) h bsz ReadRowBlockColumn_ok [OF os readable at]
        LoadIfPresent(1) [OF at b_def [symmetric]]
      by (simp add: b_def [symmetric] hdr dec t Let_def)
  qed
qed simp

subsection \<open>Exact statistics\<close>

text \<open>What the statistics of a column should be, of the two stored maps.\<close>

definition column_stats :: "stored_maps \<Rightarrow> bytes \<Rightarrow> ColumnStats" where
  "column_stats m column =
     (let keys = {key. fst m (column, key) \<noteq> None}; rowIds = {rowId. snd m (column, rowId) \<noteq> None}
      in \<lparr>cs_column = column,
          cs_objectCount = of_nat (card keys + (\<Sum>rowId \<in> rowIds. card (dom (the (snd m (column, rowId)))))),
          cs_rowCount = of_nat (card rowIds)\<rparr>)"

definition stored_columns :: "stored_maps \<Rightarrow> bytes set" where
  "stored_columns m = fst ` dom (fst m) \<union> fst ` dom (snd m)"

lemma table_dom: "dom (table_map vacant key val slots) = key ` set (occupied vacant slots)"
  by (auto simp: table_map_def dom_map_of_conv_image_fst image_image)

lemma fixed_first: "{k \<in> A. fst k = c} = Pair c ` {r. (c, r) \<in> A}"
  by force

lemma table_column_sum:
  assumes u: "unique_keys vacant key slots" and f: "\<And>b. b \<in> set (occupied vacant slots) \<Longrightarrow> f b = F (key b)"
  shows "sum_list (map f (filter (\<lambda>b. fst (key b) = c) (occupied vacant slots))) =
    (\<Sum>r \<in> {r. table_map vacant key val slots (c, r) \<noteq> None}. F (c, r))"
proof -
  let ?bs = "filter (\<lambda>b. fst (key b) = c) (occupied vacant slots)" and ?R = "{r. table_map vacant key val slots (c, r) \<noteq> None}"
  have "distinct (map key ?bs)" using u by (simp add: unique_keys_def distinct_map_filter)
  moreover have "set (map key ?bs) = {k \<in> dom (table_map vacant key val slots). fst k = c}"
    by (auto simp: table_dom)
  then have "set (map key ?bs) = Pair c ` ?R" unfolding fixed_first by (simp add: domIff)
  moreover have "map f ?bs = map F (map key ?bs)" using f by simp
  ultimately have "sum_list (map f ?bs) = (\<Sum>k \<in> Pair c ` ?R. F k)"
    by (metis sum.distinct_set_conv_list)
  also have "\<dots> = (\<Sum>r \<in> ?R. F (c, r))" by (subst sum.reindex) (simp_all add: inj_on_def)
  finally show ?thesis .
qed

lemma table_columns: "fst ` dom (table_map vacant key val slots) = (\<lambda>b. fst (key b)) ` set (occupied vacant slots)"
  by (simp add: table_dom image_image)

lemma GetColumnStats_ok:
  assumes os: "reads_ok os" and obj: "object_readable db" and row: "rows_readable db"
  shows "GetColumnStats os db = Some (Inr (map (column_stats (stored_maps db))
    (sorted_list_of_set (stored_columns (stored_maps db)))))"
proof -
  define c where "c = value_bytes db"
  define S where "S = shards_of db"
  obtain v where v: "mapped_data (indexMap db) = Some v" "object_index_ok c v" "opened db" "value_readable db"
    using obj by (auto simp: object_readable_def c_def)
  obtain w where w: "mapped_data (rowIndexMap db) = Some w" "row_index_ok S w" "row_readable db"
    using row by (auto simp: rows_readable_def S_def)
  have tv: "object_table_ok c (oi_buckets v)" using v(2) by (simp add: object_index_ok_def)
  have tw: "rows_table_ok S (ri_buckets w)" using w(2) by (simp add: row_index_ok_def)
  have B: "Buckets db = oi_buckets v" "RowBuckets db = ri_buckets w" using v(1) w(1) by (simp_all add: Buckets_def RowBuckets_def)
  obtain k where k: "k \<le> 58" "ih_bucketCount (oi_header v) = 2 ^ k" "length (oi_buckets v) = 2 ^ k"
    using v(2) by (rule object_index_okD)
  obtain l where l: "l \<le> 56" "rih_bucketCount (ri_header w) = 2 ^ l" "length (ri_buckets w) = 2 ^ l"
    using w(2) by (rule row_index_okD)
  have n: "unat (ih_bucketCount (IndexHeader db)) = length (oi_buckets v)"
    "unat (rih_bucketCount (RowIndexHeader db)) = length (ri_buckets w)"
    using v(1) w(1) k l by (simp_all add: IndexHeader_def RowIndexHeader_def)
  define obs where "obs = occupied vacant_bucket (oi_buckets v)"
  define rbs where "rbs = occupied vacant_row (ri_buckets w)"
  define ts where "ts = map (\<lambda>b. (fst (bucket_key c b), 1, 0)) obs @ map (row_tally S) rbs"
  have "count_objects os db [0..<length (oi_buckets v)] RBT.empty =
      Inr (tally_all (map (\<lambda>b. (fst (bucket_key c b), 1, 0)) obs) RBT.empty)"
    using count_objects_ok [OF os v(4), of "[0..<length (oi_buckets v)]" RBT.empty] tv
    by (simp add: B map_nth obs_def object_table_ok_def flip: c_def)
  moreover have "count_rows os db [0..<length (ri_buckets w)] columns = Some (Inr (tally_all (map (row_tally S) rbs) columns))" for columns
    using count_rows_ok [OF os w(3), of "[0..<length (ri_buckets w)]" columns] tw
    by (simp add: B map_nth rbs_def rows_table_ok_def flip: S_def)
  moreover have "tally_all (map (row_tally S) rbs) (tally_all (map (\<lambda>b. (fst (bucket_key c b), 1, 0)) obs) RBT.empty) =
      tally_all ts RBT.empty"
    by (simp add: ts_def)
  ultimately have run: "GetColumnStats os db = Some (Inr (map (tallied ts) (sorted_list_of_set (fst ` set ts))))"
    using v(3) by (simp add: GetColumnStats_def n tally_entries)
  have o: "objects db = table_map vacant_bucket (bucket_key c) (bucket_value c) (oi_buckets v)"
    by (simp add: objects_def object_map_def B c_def)
  have r: "rows db = table_map vacant_row (row_bucket_key S) (row_bucket_row S) (ri_buckets w)"
    by (simp add: rows_def rows_map_def B S_def)
  have uo: "unique_keys vacant_bucket (bucket_key c) (oi_buckets v)" using tv by (simp add: object_table_ok_def)
  have ur: "unique_keys vacant_row (row_bucket_key S) (ri_buckets w)" using tw by (simp add: rows_table_ok_def)
  have cols: "fst ` set ts = stored_columns (stored_maps db)"
    by (simp add: ts_def stored_columns_def stored_maps_def o r table_columns obs_def rbs_def image_Un image_image row_tally_def)
  have "tallied ts column = column_stats (stored_maps db) column" for column
  proof -
    let ?ob = "filter (\<lambda>b. fst (bucket_key c b) = column) obs" and ?rb = "filter (\<lambda>b. fst (row_bucket_key S b) = column) rbs"
    have sel: "filter (\<lambda>t. fst t = column) ts = map (\<lambda>b. (column, 1, 0)) ?ob @ map (row_tally S) ?rb"
      by (simp add: ts_def filter_map comp_def row_tally_def)
    have "sum_list (map (\<lambda>_. 1 :: u64) ?ob) = (\<Sum>key \<in> {key. objects db (column, key) \<noteq> None}. 1)"
      unfolding o obs_def by (rule table_column_sum [OF uo]) simp
    then have no: "sum_list (map (\<lambda>_. 1 :: u64) ?ob) = of_nat (card {key. objects db (column, key) \<noteq> None})" by simp
    have "sum_list (map (\<lambda>_. 1 :: u64) ?rb) = (\<Sum>rowId \<in> {rowId. rows db (column, rowId) \<noteq> None}. 1)"
      unfolding r rbs_def by (rule table_column_sum [OF ur]) simp
    then have nr: "sum_list (map (\<lambda>_. 1 :: u64) ?rb) = of_nat (card {rowId. rows db (column, rowId) \<noteq> None})" by simp
    have "row_bucket_row S b = the (rows db (row_bucket_key S b))" if "b \<in> set (occupied vacant_row (ri_buckets w))" for b
      using table_map_Some [OF ur, of "row_bucket_row S" "row_bucket_key S b" "row_bucket_row S b"] that by (auto simp: r)
    then have "sum_list (map (\<lambda>b. of_nat (card (dom (row_bucket_row S b))) :: u64) ?rb) =
        (\<Sum>rowId \<in> {rowId. rows db (column, rowId) \<noteq> None}. of_nat (card (dom (the (rows db (column, rowId))))))"
      unfolding r rbs_def
      by (intro table_column_sum [OF ur, where F = "\<lambda>k. of_nat (card (dom (the (table_map vacant_row (row_bucket_key S)
          (row_bucket_row S) (ri_buckets w) k))))"]) simp
    then show ?thesis
      using no nr by (simp add: tallied_def sel column_stats_def stored_maps_def Let_def comp_def row_tally_def)
  qed
  then show ?thesis using run cols by simp
qed

text \<open>C36. The statistics are exact and in order: one entry per column that holds an object or a row, sorted
  by column, with the number of its objects plus the keys of its rows, and the number of its rows;
  \<open>DumpColumnStats\<close> prints exactly these, whether the database is open for writing or read-only.\<close>

theorem column_statistics_exact:
  assumes "reads_ok os" and "object_readable db" and "rows_readable db"
  shows "GetColumnStats os db =
      Some (Inr (map (column_stats (stored_maps db)) (sorted_list_of_set (stored_columns (stored_maps db))))) \<and>
    DumpColumnStats os db output = Some (Ok, output @ ''LumoDB column statistics'' @ [CHR 0x0A] @
      concat (map (\<lambda>column. stats_line (column_stats (stored_maps db) column))
        (sorted_list_of_set (stored_columns (stored_maps db)))))"
  using GetColumnStats_ok [OF assms] by (simp add: DumpColumnStats_def comp_def)

lemma database_readable: "database_ok db \<Longrightarrow> object_readable db \<and> rows_readable db"
  by (simp add: database_ok_def object_ok_readable row_ok_readable)

lemma column_statistics_exact_witness:
  "\<exists>db db'. Open choppy_os (Impl_default empty_fs) ''data'' DatabaseOptions_default = Some (Ok, db) \<and>
    PutRowStruct choppy_os db [7] 5 [1] [10] = Some (Ok, db') \<and>
    GetColumnStats choppy_os db' = Some (Inr [\<lparr>cs_column = [7], cs_objectCount = 1, cs_rowCount = 1\<rparr>])"
proof -
  obtain db where db: "Open choppy_os (Impl_default empty_fs) ''data'' DatabaseOptions_default = Some (Ok, db)" "just_created db"
    by (rule just_createdI)
  have ok: "database_ok db" using db(2) by (simp add: just_created_def)
  obtain t where t: "PutRowStruct choppy_os db [7] 5 [1] [10] = Some (Ok, t)" "database_ok t"
      "rows t = (rows db)(([7], 5) \<mapsto> (row_or_empty (rows db ([7], 5)))([1] \<mapsto> [10]))" "objects t = objects db"
    using database_put_cell [OF choppy_os_ok ok just_created_fits(2) [OF db(2)]] by blast
  have maps: "stored_maps t = ((\<lambda>_. None), [([7], 5) \<mapsto> [[1] \<mapsto> [10]]])"
    using t(3,4) db(2) by (simp add: stored_maps_def just_created_def row_or_empty_def)
  have "{rowId. \<exists>y. [([7] :: bytes, 5 :: u64) \<mapsto> [[1 :: byte] \<mapsto> [10 :: byte]]] ([7], rowId) = Some y} = {5}" by auto
  then have "column_stats (stored_maps t) [7] = \<lparr>cs_column = [7], cs_objectCount = 1, cs_rowCount = 1\<rparr>"
    unfolding maps column_stats_def by (simp add: Let_def)
  moreover have "stored_columns (stored_maps t) = {[7]}" unfolding maps by (simp add: stored_columns_def)
  ultimately show ?thesis
    using column_statistics_exact [OF choppy_reads(1), of t] database_readable [OF t(2)] db(1) t(1) by auto
qed

end
