(* ===== verification/Database_Facade.thy ===== *)
theory Database_Facade
  imports Lifecycle Diagnostics
begin

text \<open>
  The class \<open>Database\<close>: a pointer to an \<open>Impl\<close>, null after a move.  Every member forwards to the
  \<open>Impl\<close>, and answers with "not open" or 0 when there is none; only the opens make a new one.
\<close>

type_synonym Database = "Impl option"

definition Database_new :: "fs \<Rightarrow> Database" where
  "Database_new fs = Some (Impl_default fs)"

text \<open>The destructor closes the \<open>Impl\<close>; what remains are the files.\<close>

definition Database_delete :: "os \<Rightarrow> Database \<Rightarrow> fs option" where
  "Database_delete os this = map_option (\<lambda>impl. filesys (snd (Close os impl))) this"

text \<open>Move construction: the new object and the one moved from.\<close>

definition Database_move :: "Database \<Rightarrow> Database \<times> Database" where
  "Database_move other = (other, None)"

text \<open>Move assignment of another object: the files the target leaves behind, then the two objects.\<close>

definition Database_move_assign :: "os \<Rightarrow> Database \<Rightarrow> Database \<Rightarrow> fs option \<times> Database \<times> Database" where
  "Database_move_assign os this other = (Database_delete os this, other, None)"

definition not_open :: Status where
  "not_open = NotOpen ''database is not open''"

definition forward :: "(Impl \<Rightarrow> (Status \<times> Impl) option) \<Rightarrow> Database \<Rightarrow> (Status \<times> Database) option" where
  "forward run this =
     (case this of
        None \<Rightarrow> Some (not_open, None)
      | Some impl \<Rightarrow> map_option (\<lambda>(status, impl). (status, Some impl)) (run impl))"

definition ask :: "(Impl \<Rightarrow> Status + 'a) \<Rightarrow> Database \<Rightarrow> Status + 'a" where
  "ask query this = (case this of None \<Rightarrow> Inl not_open | Some impl \<Rightarrow> query impl)"

definition Database_Open :: "os \<Rightarrow> fs \<Rightarrow> Database \<Rightarrow> string \<Rightarrow> DatabaseOptions \<Rightarrow> (Status \<times> Database) option" where
  "Database_Open os fs this dir opts =
     (let impl = (case this of None \<Rightarrow> Impl_default fs | Some impl \<Rightarrow> impl)
      in map_option (\<lambda>(status, impl). (status, Some impl)) (Open os impl dir opts))"

definition Database_OpenReadOnly :: "os \<Rightarrow> fs \<Rightarrow> Database \<Rightarrow> string \<Rightarrow> DatabaseOptions \<Rightarrow> (Status \<times> Database) option" where
  "Database_OpenReadOnly os fs this dir opts =
     (let impl = (case this of None \<Rightarrow> Impl_default fs | Some impl \<Rightarrow> impl)
      in map_option (\<lambda>(status, impl). (status, Some impl)) (OpenReadOnly os impl dir opts))"

definition Database_Close :: "os \<Rightarrow> Database \<Rightarrow> Status \<times> Database" where
  "Database_Close os this =
     (case this of None \<Rightarrow> (Ok, None) | Some impl \<Rightarrow> (case Close os impl of (status, impl) \<Rightarrow> (status, Some impl)))"

definition Database_Flush :: "os \<Rightarrow> Database \<Rightarrow> Status" where
  "Database_Flush os this = (case this of None \<Rightarrow> Ok | Some impl \<Rightarrow> Flush os impl)"

definition Database_Put :: "os \<Rightarrow> Database \<Rightarrow> bytes \<Rightarrow> bytes \<Rightarrow> (Status \<times> Database) option" where
  "Database_Put os this key v = forward (\<lambda>impl. Put os impl key v) this"

definition Database_Get :: "os \<Rightarrow> Database \<Rightarrow> bytes \<Rightarrow> Status + bytes" where
  "Database_Get os this key = ask (\<lambda>impl. Get os impl key) this"

definition Database_PutStruct :: "os \<Rightarrow> Database \<Rightarrow> bytes \<Rightarrow> bytes \<Rightarrow> bytes \<Rightarrow> (Status \<times> Database) option" where
  "Database_PutStruct os this column key v = forward (\<lambda>impl. PutStruct os impl column key v) this"

definition Database_PutStructs :: "os \<Rightarrow> Database \<Rightarrow> bytes \<Rightarrow> StructEntry list \<Rightarrow> (Status \<times> Database) option" where
  "Database_PutStructs os this column entries = forward (\<lambda>impl. PutStructs os impl column entries) this"

definition Database_PutUniqueStructs :: "os \<Rightarrow> Database \<Rightarrow> bytes \<Rightarrow> StructEntry list \<Rightarrow> (Status \<times> Database) option" where
  "Database_PutUniqueStructs os this column entries = forward (\<lambda>impl. PutUniqueStructs os impl column entries) this"

definition Database_GetStruct :: "os \<Rightarrow> Database \<Rightarrow> bytes \<Rightarrow> bytes \<Rightarrow> Status + bytes" where
  "Database_GetStruct os this column key = ask (\<lambda>impl. GetStruct os impl column key) this"

definition Database_PutRowStruct ::
  "os \<Rightarrow> Database \<Rightarrow> bytes \<Rightarrow> u64 \<Rightarrow> bytes \<Rightarrow> bytes \<Rightarrow> (Status \<times> Database) option" where
  "Database_PutRowStruct os this column rowId key v = forward (\<lambda>impl. PutRowStruct os impl column rowId key v) this"

definition Database_PutRowStructs ::
  "os \<Rightarrow> Database \<Rightarrow> bytes \<Rightarrow> u64 \<Rightarrow> RowStructEntry list \<Rightarrow> (Status \<times> Database) option" where
  "Database_PutRowStructs os this column rowId entries = forward (\<lambda>impl. PutRowStructs os impl column rowId entries) this"

text \<open>The queries that may spin keep their \<open>option\<close>.\<close>

definition Database_GetRowStruct :: "os \<Rightarrow> Database \<Rightarrow> bytes \<Rightarrow> u64 \<Rightarrow> bytes \<Rightarrow> (Status + bytes) option" where
  "Database_GetRowStruct os this column rowId key =
     (case this of None \<Rightarrow> Some (Inl not_open) | Some impl \<Rightarrow> GetRowStruct os impl column rowId key)"

definition Database_GetMany :: "os \<Rightarrow> Database \<Rightarrow> bytes \<Rightarrow> bytes list \<Rightarrow> Status + bytes list" where
  "Database_GetMany os this column keys = ask (\<lambda>impl. GetMany os impl column keys) this"

definition Database_GetColumnStats :: "os \<Rightarrow> Database \<Rightarrow> (Status + ColumnStats list) option" where
  "Database_GetColumnStats os this =
     (case this of None \<Rightarrow> Some (Inl not_open) | Some impl \<Rightarrow> GetColumnStats os impl)"

definition Database_DumpColumnStats :: "os \<Rightarrow> Database \<Rightarrow> string \<Rightarrow> (Status \<times> string) option" where
  "Database_DumpColumnStats os this output =
     (case this of None \<Rightarrow> Some (not_open, output) | Some impl \<Rightarrow> DumpColumnStats os impl output)"

definition Database_Dump :: "os \<Rightarrow> Database \<Rightarrow> string \<Rightarrow> (Status \<times> string) option" where
  "Database_Dump os this output =
     (case this of None \<Rightarrow> Some (not_open, output) | Some impl \<Rightarrow> Dump os impl output)"

definition Database_DumpColumn ::
  "os \<Rightarrow> Database \<Rightarrow> string \<Rightarrow> bytes \<Rightarrow> DumpDeserializer \<Rightarrow> (Status \<times> string) option" where
  "Database_DumpColumn os this output column deserialize =
     (case this of None \<Rightarrow> Some (not_open, output) | Some impl \<Rightarrow> DumpColumn os impl output column deserialize)"

definition Database_IsOpen :: "Database \<Rightarrow> bool" where
  "Database_IsOpen this = (case this of None \<Rightarrow> False | Some impl \<Rightarrow> IsOpen impl)"

definition Database_EntryCount :: "Database \<Rightarrow> u64" where
  "Database_EntryCount this = (case this of None \<Rightarrow> 0 | Some impl \<Rightarrow> EntryCount impl)"

definition Database_BucketCount :: "Database \<Rightarrow> u64" where
  "Database_BucketCount this = (case this of None \<Rightarrow> 0 | Some impl \<Rightarrow> BucketCount impl)"

definition Database_RowCount :: "Database \<Rightarrow> u64" where
  "Database_RowCount this = (case this of None \<Rightarrow> 0 | Some impl \<Rightarrow> RowCount impl)"

definition Database_RowBucketCount :: "Database \<Rightarrow> u64" where
  "Database_RowBucketCount this = (case this of None \<Rightarrow> 0 | Some impl \<Rightarrow> RowBucketCount impl)"

end
