(* ===== verification/Row_Race.thy ===== *)
theory Row_Race
  imports Row_Writes
begin

text \<open>
  Several threads on one row index: \<open>InsertOrUpdateRowBucket\<close> and \<open>FindRowBucket\<close> with the helpers
  they call (\<open>LoadRowBucketSnapshot\<close>, \<open>StoreRowBucketData\<close>) of src/src/lumodb/database.cpp as the
  steps of a thread.  Every load, store and compare-and-exchange of a shared word is one step, so
  that any two threads interleave between any two of them; the steps of all threads form one
  sequence (the model is sequentially consistent: the orders \<open>memory_order_relaxed\<close>,
  \<open>memory_order_acquire\<close> and \<open>memory_order_release\<close> of the source are not told apart).  A thread
  arrives when its call starts; by then its own row block is in the shard file, as \<open>WriteRowStructs\<close>
  arranges.  The rest of the program may run between any two steps, but it leaves the buckets alone, the
  bytes that were in the files at the start, and the blocks of the calls that have arrived; Writer_Race shows
  that \<open>WriteRowStructs\<close> keeps to this.
\<close>

subsection \<open>Threads\<close>

text \<open>The fields of a bucket in the order in which they are loaded and stored.\<close>

datatype bucket_field = ShardId | ColumnHash | RowId | BlockOffset | BlockSize | Sequence

definition all_fields :: "bucket_field list" where
  "all_fields = [ShardId, ColumnHash, RowId, BlockOffset, BlockSize, Sequence]"

fun copy_field :: "bucket_field \<Rightarrow> RowIndexBucket \<Rightarrow> RowIndexBucket \<Rightarrow> RowIndexBucket" where
  "copy_field ShardId src dst = dst\<lparr>rib_shardId := rib_shardId src\<rparr>"
| "copy_field ColumnHash src dst = dst\<lparr>rib_columnHash := rib_columnHash src\<rparr>"
| "copy_field RowId src dst = dst\<lparr>rib_rowId := rib_rowId src\<rparr>"
| "copy_field BlockOffset src dst = dst\<lparr>rib_blockOffset := rib_blockOffset src\<rparr>"
| "copy_field BlockSize src dst = dst\<lparr>rib_blockSize := rib_blockSize src\<rparr>"
| "copy_field Sequence src dst = dst\<lparr>rib_sequence := rib_sequence src\<rparr>"

text \<open>The call a thread runs.\<close>

datatype job =
    Insert bytes RowBucketData
  | Find bytes u64 u64

fun job_column :: "job \<Rightarrow> bytes" where
  "job_column (Insert column data) = column"
| "job_column (Find column rowId columnHash) = column"

fun job_rowId :: "job \<Rightarrow> u64" where
  "job_rowId (Insert column data) = rd_rowId data"
| "job_rowId (Find column rowId columnHash) = rowId"

fun job_columnHash :: "job \<Rightarrow> u64" where
  "job_columnHash (Insert column data) = rd_columnHash data"
| "job_columnHash (Find column rowId columnHash) = columnHash"

text \<open>
  Where a thread stands.  The first argument is the number of the probe; \<open>Loading\<close> and \<open>Storing\<close>
  carry the fields that are still to be copied, \<open>Taking\<close> the state the exchange expects, \<open>Storing\<close>
  whether the bucket was empty.
\<close>

datatype pc =
    Probing nat
  | Loading nat "bucket_field list" RowIndexBucket
  | Comparing nat RowIndexBucket
  | Taking nat u32
  | Storing nat "bucket_field list" bool
  | Inserted bool
  | Found RowBucketLookup
  | Failed Status

fun finished :: "pc \<Rightarrow> bool" where
  "finished (Inserted inserted) = True"
| "finished (Found lookup) = True"
| "finished (Failed status) = True"
| "finished _ = False"

definition probe_at :: "u64 \<Rightarrow> job \<Rightarrow> nat \<Rightarrow> nat" where
  "probe_at bucketCount job probe =
     probe_indices (MixHashes (job_columnHash job) (job_rowId job) AND (bucketCount - 1)) bucketCount ! probe"

text \<open>The head of the probe loop; a retry starts it again.\<close>

definition probe_from :: "u64 \<Rightarrow> nat \<Rightarrow> pc" where
  "probe_from bucketCount probe =
     (if probe < unat bucketCount then Probing probe
      else Failed (Corruption ''row index table is full''))"

definition on_empty :: "job \<Rightarrow> nat \<Rightarrow> nat \<Rightarrow> pc" where
  "on_empty job probe index =
     (case job of
        Insert _ _ \<Rightarrow> Taking probe kRowBucketEmpty
      | Find _ _ _ \<Rightarrow> Found \<lparr>rlk_index = index, rlk_found = False, rlk_bucket = RowIndexBucket_default,
                            rlk_blockHeader = RowBlockHeader_default\<rparr>)"

definition on_match :: "job \<Rightarrow> nat \<Rightarrow> nat \<Rightarrow> RowIndexBucket \<Rightarrow> RowBlockHeader \<Rightarrow> pc" where
  "on_match job probe index snapshot blockHeader =
     (case job of
        Insert _ _ \<Rightarrow> Taking probe kRowBucketFilled
      | Find _ _ _ \<Rightarrow> Found \<lparr>rlk_index = index, rlk_found = True, rlk_bucket = snapshot,
                            rlk_blockHeader = blockHeader\<rparr>)"

fun thread_step :: "os \<Rightarrow> job \<Rightarrow> Impl \<Rightarrow> pc \<Rightarrow> pc \<times> Impl" where
  "thread_step os job db (Probing probe) =
     (let bucketCount = rih_bucketCount (RowIndexHeader db);
          index = probe_at bucketCount job probe;
          state = rib_state (RowBuckets db ! index)
      in if state = kRowBucketEmpty then (on_empty job probe index, db)
         else if state = kRowBucketWriting then (probe_from bucketCount 0, db)
         else if state \<noteq> kRowBucketFilled
         then (Failed (Corruption ''row index bucket state is invalid''), db)
         else (Loading probe all_fields (RowIndexBucket_default\<lparr>rib_state := kRowBucketFilled\<rparr>), db))"
| "thread_step os job db (Loading probe (f # fs) snapshot) =
     (let index = probe_at (rih_bucketCount (RowIndexHeader db)) job probe
      in (Loading probe fs (copy_field f (RowBuckets db ! index) snapshot), db))"
| "thread_step os job db (Loading probe [] snapshot) =
     (let bucketCount = rih_bucketCount (RowIndexHeader db);
          stateAfter = rib_state (RowBuckets db ! probe_at bucketCount job probe)
      in (if stateAfter \<noteq> kRowBucketFilled then probe_from bucketCount 0 else Comparing probe snapshot, db))"
| "thread_step os job db (Comparing probe snapshot) =
     (let bucketCount = rih_bucketCount (RowIndexHeader db); index = probe_at bucketCount job probe
      in if rib_columnHash snapshot \<noteq> job_columnHash job \<or> rib_rowId snapshot \<noteq> job_rowId job
         then (probe_from bucketCount (Suc probe), db)
         else case RowBlockMatches os db snapshot (job_column job) (job_rowId job) of
             Inl status \<Rightarrow> (Failed status, db)
           | Inr None \<Rightarrow> (probe_from bucketCount (Suc probe), db)
           | Inr (Some blockHeader) \<Rightarrow> (on_match job probe index snapshot blockHeader, db))"
| "thread_step os job db (Taking probe expected) =
     (let bucketCount = rih_bucketCount (RowIndexHeader db);
          index = probe_at bucketCount job probe;
          bucket = RowBuckets db ! index
      in if rib_state bucket \<noteq> expected then (probe_from bucketCount 0, db)
         else (Storing probe all_fields (expected = kRowBucketEmpty),
               set_RowBucket index (bucket\<lparr>rib_state := kRowBucketWriting\<rparr>) db))"
| "thread_step os job db (Storing probe (f # fs) inserted) =
     (case job of
        Insert column data \<Rightarrow>
          (let index = probe_at (rih_bucketCount (RowIndexHeader db)) job probe
           in (Storing probe fs inserted,
               set_RowBucket index (copy_field f (data_bucket data) (RowBuckets db ! index)) db))
      | Find column rowId columnHash \<Rightarrow> (Storing probe (f # fs) inserted, db))"
| "thread_step os job db (Storing probe [] inserted) =
     (let index = probe_at (rih_bucketCount (RowIndexHeader db)) job probe
      in (Inserted inserted,
          set_RowBucket index ((RowBuckets db ! index)\<lparr>rib_state := kRowBucketFilled\<rparr>) db))"
| "thread_step os job db done = (done, db)"

subsection \<open>Interleavings\<close>

record race =
  race_db :: Impl
  race_threads :: "(job \<times> pc) list"

text \<open>
  What a caller has done before the call: the column hash is the hash of the column, and the data of
  an insertion points to a block of the row in the shard of the row.
\<close>

definition job_ready :: "Impl \<Rightarrow> job \<Rightarrow> bool" where
  "job_ready db job \<longleftrightarrow>
     (case job of
        Insert column data \<Rightarrow>
          rd_shardId data = ShardForRow db (rd_columnHash data) (rd_rowId data) \<and>
          (\<exists>L. row_bucket_at (shards_of db) (data_bucket data) column L)
      | Find column rowId columnHash \<Rightarrow> columnHash = HashString column)"

text \<open>
  The bytes of the shard files that are written for good: those there at the start, and the blocks of
  the calls that have arrived.
\<close>

fun job_range :: "job \<Rightarrow> nat \<Rightarrow> nat set" where
  "job_range (Insert column data) s =
     (if s = unat (rd_shardId data)
      then {unat (rd_blockOffset data) ..< unat (rd_blockOffset data) + unat (rd_blockSize data)} else {})"
| "job_range (Find column rowId columnHash) s = {}"

definition written :: "Impl \<Rightarrow> (job \<times> pc) list \<Rightarrow> nat \<Rightarrow> nat set" where
  "written db threads s = {..<length (row_bytes db s)} \<union> (\<Union>job \<in> fst ` set threads. job_range job s)"

definition keeps_bytes :: "(nat \<Rightarrow> nat set) \<Rightarrow> bytes list \<Rightarrow> bytes list \<Rightarrow> bool" where
  "keeps_bytes W shards shards' \<longleftrightarrow>
     length shards' = length shards \<and>
     (\<forall>s < length shards. \<forall>p \<in> W s. p < length (shards ! s) \<longrightarrow>
        p < length (shards' ! s) \<and> shards' ! s ! p = shards ! s ! p)"

text \<open>What the rest of the program may do: everything but the buckets and those bytes may change.\<close>

definition world_moves :: "(nat \<Rightarrow> nat set) \<Rightarrow> Impl \<Rightarrow> Impl \<Rightarrow> bool" where
  "world_moves W db db' \<longleftrightarrow>
     RowBuckets db' = RowBuckets db \<and> rih_bucketCount (RowIndexHeader db') = rih_bucketCount (RowIndexHeader db) \<and>
     rowValueFiles db' = rowValueFiles db \<and> mapped_data (rowIndexMap db') \<noteq> None \<and> row_readable db' \<and>
     keeps_bytes W (shards_of db) (shards_of db')"

inductive race_step :: "os \<Rightarrow> Impl \<Rightarrow> race \<Rightarrow> race \<Rightarrow> bool" for os start where
  turn: "t < length (race_threads s) \<Longrightarrow> race_threads s ! t = (job, pc) \<Longrightarrow> \<not> finished pc \<Longrightarrow>
    thread_step os job (race_db s) pc = (pc', db') \<Longrightarrow>
    race_step os start s \<lparr>race_db = db', race_threads = (race_threads s)[t := (job, pc')]\<rparr>"
| arrive: "job_ready (race_db s) job \<Longrightarrow>
    race_step os start s \<lparr>race_db = race_db s,
      race_threads = race_threads s @ [(job, probe_from (rih_bucketCount (RowIndexHeader (race_db s))) 0)]\<rparr>"
| world: "world_moves (written start (race_threads s)) (race_db s) db' \<Longrightarrow>
    race_step os start s \<lparr>race_db = db', race_threads = race_threads s\<rparr>"

inductive_cases race_stepE: "race_step os start s s'"

abbreviation race_run :: "os \<Rightarrow> Impl \<Rightarrow> race \<Rightarrow> race \<Rightarrow> bool" where
  "race_run os start \<equiv> (race_step os start)\<^sup>*\<^sup>*"

text \<open>
  A race starts from a row store in order, with no call in flight and every row in the shard its
  hash selects.
\<close>

definition race_start :: "Impl \<Rightarrow> bool" where
  "race_start db \<longleftrightarrow>
     row_readable db \<and> (\<exists>v. mapped_data (rowIndexMap db) = Some v \<and> row_index_ok (shards_of db) v) \<and>
     (\<forall>b \<in> set (RowBuckets db). \<not> vacant_row b \<longrightarrow>
        rib_shardId b = ShardForRow db (rib_columnHash b) (rib_rowId b))"

definition reachable :: "os \<Rightarrow> Impl \<Rightarrow> race \<Rightarrow> bool" where
  "reachable os db s \<longleftrightarrow> race_run os db \<lparr>race_db = db, race_threads = []\<rparr> s"

end
