(* ===== verification/Row_Race_Invariant.thy ===== *)
theory Row_Race_Invariant
  imports Row_Race
begin

text \<open>
  The invariant of racing row index calls.  A bucket in use belongs to one key for good; the table
  of these keys, and the set of buckets that have been filled once, are the two history variables
  of the invariant.
\<close>

subsection \<open>Keys, fields and versions\<close>

type_synonym row_key = "bytes \<times> u64"

definition job_key :: "job \<Rightarrow> row_key" where
  "job_key job = (job_column job, job_rowId job)"

definition key_shard :: "Impl \<Rightarrow> row_key \<Rightarrow> u32" where
  "key_shard db k = ShardForRow db (HashString (fst k)) (snd k)"

definition version_at :: "Impl \<Rightarrow> row_key \<Rightarrow> u64 \<Rightarrow> RowBlockLayout \<Rightarrow> bool" where
  "version_at db k off L \<longleftrightarrow>
     unat (key_shard db k) < length (rowValueFiles db) \<and>
     block_at (shards_of db ! unat (key_shard db k)) (unat off) (fst k) L \<and> layout_ok (fst k) (snd k) L"

text \<open>A version whose bytes are among those written for good, the set \<open>W\<close>.\<close>

definition version_in :: "(nat \<Rightarrow> nat set) \<Rightarrow> Impl \<Rightarrow> row_key \<Rightarrow> u64 \<Rightarrow> RowBlockLayout \<Rightarrow> bool" where
  "version_in W db k off L \<longleftrightarrow>
     version_at db k off L \<and> {unat off ..< unat off + layout_size (fst k) L} \<subseteq> W (unat (key_shard db k))"

definition settled :: "(nat \<Rightarrow> nat set) \<Rightarrow> job \<Rightarrow> bool" where
  "settled W job \<longleftrightarrow> (\<forall>s. job_range job s \<subseteq> W s)"

fun field_ok :: "(nat \<Rightarrow> nat set) \<Rightarrow> Impl \<Rightarrow> row_key \<Rightarrow> RowIndexBucket \<Rightarrow> bucket_field \<Rightarrow> bool" where
  "field_ok W db k b ShardId = (rib_shardId b = key_shard db k)"
| "field_ok W db k b ColumnHash = (rib_columnHash b = HashString (fst k))"
| "field_ok W db k b RowId = (rib_rowId b = snd k)"
| "field_ok W db k b BlockOffset = (\<exists>L. version_in W db k (rib_blockOffset b) L)"
| "field_ok W db k b BlockSize = True"
| "field_ok W db k b Sequence = True"

fun field_eq :: "RowIndexBucket \<Rightarrow> RowIndexBucket \<Rightarrow> bucket_field \<Rightarrow> bool" where
  "field_eq a b ShardId = (rib_shardId a = rib_shardId b)"
| "field_eq a b ColumnHash = (rib_columnHash a = rib_columnHash b)"
| "field_eq a b RowId = (rib_rowId a = rib_rowId b)"
| "field_eq a b BlockOffset = (rib_blockOffset a = rib_blockOffset b)"
| "field_eq a b BlockSize = (rib_blockSize a = rib_blockSize b)"
| "field_eq a b Sequence = (rib_sequence a = rib_sequence b)"

lemma copy_field_simps [simp]:
  "rib_state (copy_field f a b) = rib_state b"
  "rib_reserved64 (copy_field f a b) = rib_reserved64 b"
  "rib_reserved65 (copy_field f a b) = rib_reserved65 b"
  by (cases f; simp)+

lemma field_ok_copy: "field_ok W db k (copy_field f a b) g = field_ok W db k (if g = f then a else b) g"
  by (cases f; cases g) simp_all

lemma field_eq_copy: "field_eq (copy_field f a b) c g = field_eq (if g = f then a else b) c g"
  by (cases f; cases g) simp_all

lemma field_ok_state [simp]: "field_ok W db k (b\<lparr>rib_state := st\<rparr>) f = field_ok W db k b f"
  by (cases f) simp_all

lemma field_eq_state [simp]: "field_eq (b\<lparr>rib_state := st\<rparr>) c f = field_eq b c f"
  by (cases f) simp_all

lemma field_eq_refl [simp]: "field_eq b b f"
  by (cases f) simp_all

lemma in_all_fields [simp]: "f \<in> set all_fields"
  by (cases f) (simp_all add: all_fields_def)

lemma fields_eqI:
  assumes eq: "\<forall>f. field_eq a b f" and "rib_state a = rib_state b"
    and "rib_reserved64 a = rib_reserved64 b" "rib_reserved65 a = rib_reserved65 b"
  shows "a = b"
  using assms(2-) eq [rule_format, of ShardId] eq [rule_format, of ColumnHash] eq [rule_format, of RowId]
    eq [rule_format, of BlockOffset] eq [rule_format, of BlockSize] eq [rule_format, of Sequence]
  by simp

lemma data_bucket_reserved [simp]:
  "rib_reserved64 (data_bucket d) = 0" "rib_reserved65 (data_bucket d) = 0"
  "rib_state (data_bucket d) = kRowBucketFilled" "rib_shardId (data_bucket d) = rd_shardId d"
  "rib_columnHash (data_bucket d) = rd_columnHash d" "rib_rowId (data_bucket d) = rd_rowId d"
  "rib_blockOffset (data_bucket d) = rd_blockOffset d" "rib_blockSize (data_bucket d) = rd_blockSize d"
  by (simp_all add: data_bucket_def StoreRowBucketData_def RowIndexBucket_default_def)

lemma field_ok_whole:
  assumes at: "row_bucket_at (shards_of db) b c L" and "rib_rowId b = r"
    and "rib_shardId b = key_shard db (c, r)"
    and range: "{unat (rib_blockOffset b) ..< unat (rib_blockOffset b) + unat (rib_blockSize b)} \<subseteq> W (unat (rib_shardId b))"
  shows "field_ok W db (c, r) b f"
proof -
  have "unat (rib_blockSize b) = layout_size c L" using at layout_okD(12) by (auto simp: row_bucket_at_def)
  then have "version_in W db (c, r) (rib_blockOffset b) L"
    using assms by (auto simp: version_in_def version_at_def row_bucket_at_def)
  then show ?thesis using assms by (cases f) (auto simp: row_bucket_at_def)
qed

lemma job_ready_hash: "job_ready db job \<Longrightarrow> job_columnHash job = HashString (job_column job)"
  by (cases job) (auto simp: job_ready_def row_bucket_at_def)

lemma job_ready_data:
  assumes "job_ready db (Insert c d)" and "settled W (Insert c d)"
  shows "field_ok W db (c, rd_rowId d) (data_bucket d) f" and "\<exists>L. row_bucket_at (shards_of db) (data_bucket d) c L"
proof -
  obtain L where L: "row_bucket_at (shards_of db) (data_bucket d) c L"
      and s: "rd_shardId d = ShardForRow db (rd_columnHash d) (rd_rowId d)"
    using assms by (auto simp: job_ready_def)
  have "rd_columnHash d = HashString c" using L by (simp add: row_bucket_at_def)
  then have "rib_shardId (data_bucket d) = key_shard db (c, rd_rowId d)" using s by (simp add: key_shard_def)
  moreover have "{unat (rd_blockOffset d) ..< unat (rd_blockOffset d) + unat (rd_blockSize d)} \<subseteq> W (unat (rd_shardId d))"
    using assms(2) [unfolded settled_def, rule_format, of "unat (rd_shardId d)"] by simp
  ultimately show "field_ok W db (c, rd_rowId d) (data_bucket d) f" by (intro field_ok_whole [OF L]) simp_all
  show "\<exists>L. row_bucket_at (shards_of db) (data_bucket d) c L" using L by blast
qed

subsection \<open>Comparing a snapshot that may be torn\<close>

text \<open>
  A snapshot of a bucket of the key \<open>k\<close> may mix two versions.  The comparison with the block it
  points to then either fails, or tells the key rightly and delivers the header of a version of the
  row.
\<close>

lemma RowBlockMatches_cong:
  assumes "rib_shardId a = rib_shardId b" "rib_columnHash a = rib_columnHash b"
    and "rib_blockOffset a = rib_blockOffset b" "rib_blockSize a = rib_blockSize b"
  shows "RowBlockMatches os db a column rowId = RowBlockMatches os db b column rowId"
  by (simp only: RowBlockMatches_def assms)

lemma RowBlockMatches_mixed:
  assumes os: "reads_ok os" and readable: "row_readable db" and ok: "\<forall>f. field_ok W db k b f"
    and r: "snd k = rowId"
  obtains L where "version_in W db k (rib_blockOffset b) L"
    and "RowBlockMatches os db b column rowId =
      (if rib_blockSize b \<noteq> rb_blockSize (rl_header L)
       then Inl (Corruption ''row index points to an invalid row block'')
       else Inr (if fst k = column then Some (rl_header L) else None))"
proof -
  obtain c where k: "k = (c, rowId)" using r by (cases k) simp
  note fo = ok [rule_format, of ShardId] ok [rule_format, of ColumnHash] ok [rule_format, of RowId]
    ok [rule_format, of BlockOffset]
  obtain L where L: "version_in W db k (rib_blockOffset b) L" using fo(4) by auto
  have len: "unat (rib_blockOffset b) + 72 \<le> length (row_bytes db (unat (rib_shardId b)))"
      and s: "unat (rib_shardId b) < length (rowValueFiles db)"
      and blk: "block_at (row_bytes db (unat (rib_shardId b))) (unat (rib_blockOffset b)) c L"
      and lay: "layout_ok c rowId L"
    using L fo(1) k by (auto simp: version_in_def version_at_def block_at_def layout_size_def)
  have hdr: "ReadRowValueAt os db (rib_shardId b) 72 (rib_blockOffset b) = Inr (encode_RowBlockHeader (rl_header L))"
    using ReadRowValueAt_ok [OF os readable s refl len] block_at_header(1) [OF blk lay] by simp
  have dec: "decode_RowBlockHeader (encode_RowBlockHeader (rl_header L)) = rl_header L"
    using decode_encode_RowBlockHeader [of "rl_header L" "[]"] by simp
  have torn: "RowBlockMatches os db b column rowId = Inl (Corruption ''row index points to an invalid row block'')"
    if "rib_blockSize b \<noteq> rb_blockSize (rl_header L)"
    using s that by (auto simp: RowBlockMatches_def hdr dec Let_def)
  have whole: "RowBlockMatches os db b column rowId = Inr (if c = column then Some (rl_header L) else None)"
    if sz: "rib_blockSize b = rb_blockSize (rl_header L)"
  proof -
    define b' where "b' = b\<lparr>rib_state := kRowBucketFilled, rib_sequence := rb_sequence (rl_header L),
      rib_reserved64 := 0, rib_reserved65 := 0\<rparr>"
    have at: "row_bucket_at (shards_of db) b' c L"
      using L fo k sz by (auto simp: version_in_def version_at_def row_bucket_at_def b'_def)
    have "RowBlockMatches os db b column rowId = RowBlockMatches os db b' column rowId"
      by (rule RowBlockMatches_cong) (simp_all add: b'_def)
    also have "\<dots> = Inr (if c = column then Some (rl_header L) else None)"
      by (rule RowBlockMatches_ok [OF os readable at]) (use fo k in \<open>simp add: b'_def\<close>)
    finally show ?thesis .
  qed
  show ?thesis using that [OF L] torn whole k by auto
qed

subsection \<open>The invariant of the table\<close>

abbreviation bucket_count :: "Impl \<Rightarrow> u64" where
  "bucket_count db \<equiv> rih_bucketCount (RowIndexHeader db)"

abbreviation used :: "Impl \<Rightarrow> nat \<Rightarrow> bool" where
  "used db i \<equiv> i < length (RowBuckets db) \<and> \<not> vacant_row (RowBuckets db ! i)"

definition table_shape :: "Impl \<Rightarrow> bool" where
  "table_shape db \<longleftrightarrow>
     mapped_data (rowIndexMap db) \<noteq> None \<and>
     (\<exists>k \<le> 56. bucket_count db = 2 ^ k \<and> length (RowBuckets db) = 2 ^ k)"

definition path_of :: "Impl \<Rightarrow> row_key \<Rightarrow> nat list" where
  "path_of db k = probe_path (row_hash k) (length (RowBuckets db))"

text \<open>
  \<open>K i\<close> is the key of the bucket \<open>i\<close>, \<open>E\<close> the set of the buckets that have been filled once: their
  fields may be read at any time.
\<close>

definition table_inv :: "(nat \<Rightarrow> nat set) \<Rightarrow> Impl \<Rightarrow> (nat \<Rightarrow> row_key) \<Rightarrow> nat set \<Rightarrow> bool" where
  "table_inv W db K E \<longleftrightarrow>
     row_readable db \<and> table_shape db \<and>
     (\<forall>i < length (RowBuckets db).
        rib_state (RowBuckets db ! i) \<in> {kRowBucketEmpty, kRowBucketFilled, kRowBucketWriting} \<and>
        rib_reserved64 (RowBuckets db ! i) = 0 \<and> rib_reserved65 (RowBuckets db ! i) = 0 \<and>
        (rib_state (RowBuckets db ! i) = kRowBucketFilled \<longrightarrow>
           i \<in> E \<and> (\<exists>L. row_bucket_at (shards_of db) (RowBuckets db ! i) (fst (K i)) L)) \<and>
        (\<not> vacant_row (RowBuckets db ! i) \<longrightarrow>
           (\<forall>j \<in> probed_before (path_of db (K i)) i. \<not> vacant_row (RowBuckets db ! j)))) \<and>
     (\<forall>i \<in> E. used db i \<and> (\<forall>f. field_ok W db (K i) (RowBuckets db ! i) f)) \<and>
     inj_on K {i. used db i}"

text \<open>What every step keeps: buckets in use stay in use, with their keys; files grow.\<close>

definition grows ::
  "(nat \<Rightarrow> nat set) \<Rightarrow> Impl \<Rightarrow> (nat \<Rightarrow> row_key) \<Rightarrow> nat set \<Rightarrow>
   (nat \<Rightarrow> nat set) \<Rightarrow> Impl \<Rightarrow> (nat \<Rightarrow> row_key) \<Rightarrow> nat set \<Rightarrow> bool" where
  "grows W db K E W' db' K' E' \<longleftrightarrow>
     length (RowBuckets db') = length (RowBuckets db) \<and> bucket_count db' = bucket_count db \<and>
     rowValueFiles db' = rowValueFiles db \<and> keeps_bytes W (shards_of db) (shards_of db') \<and> W \<le> W' \<and>
     (\<forall>i. used db i \<longrightarrow> used db' i \<and> K' i = K i) \<and> E \<subseteq> E'"

lemma keeps_bytes_refl [simp]: "keeps_bytes W S S"
  by (simp add: keeps_bytes_def)

lemma keeps_bytes_trans: "keeps_bytes W S T \<Longrightarrow> W \<le> W' \<Longrightarrow> keeps_bytes W' T U \<Longrightarrow> keeps_bytes W S U"
  unfolding keeps_bytes_def le_fun_def by (metis subsetD)

lemma block_at_keeps:
  assumes blk: "block_at (S ! s) off c L" and s: "s < length S" and keep: "keeps_bytes W S T"
    and W: "{off ..< off + layout_size c L} \<subseteq> W s"
  shows "block_at (T ! s) off c L"
proof -
  have len: "off + layout_size c L \<le> length (S ! s)" using blk by (simp add: block_at_def)
  have at: "p < length (T ! s) \<and> T ! s ! p = S ! s ! p" if "off \<le> p" "p < off + layout_size c L" for p
    using keep s W that len unfolding keeps_bytes_def by (meson atLeastLessThan_iff less_le_trans subsetD)
  have len': "off + layout_size c L \<le> length (T ! s)"
  proof (cases "layout_size c L")
    case 0
    then show ?thesis by (simp add: layout_size_def)
  next
    case (Suc n)
    then show ?thesis using at [of "off + n"] by simp
  qed
  have "take (layout_size c L) (drop off (T ! s)) = take (layout_size c L) (drop off (S ! s))"
    by (rule nth_equalityI) (use len len' at in auto)
  then show ?thesis using blk len' by (simp add: block_at_def)
qed

lemma row_bucket_keeps:
  assumes at: "row_bucket_at S b c L" and keep: "keeps_bytes W S T"
    and W: "{unat (rib_blockOffset b) ..< unat (rib_blockOffset b) + unat (rib_blockSize b)} \<subseteq> W (unat (rib_shardId b))"
  shows "row_bucket_at T b c L"
proof -
  have "unat (rib_blockSize b) = layout_size c L" using at layout_okD(12) by (auto simp: row_bucket_at_def)
  then have "block_at (T ! unat (rib_shardId b)) (unat (rib_blockOffset b)) c L"
    using at W by (intro block_at_keeps [OF _ _ keep]) (simp_all add: row_bucket_at_def)
  then show ?thesis using at keep by (simp add: row_bucket_at_def keeps_bytes_def)
qed

lemma grows_refl [simp]: "grows W db K E W db K E"
  by (simp add: grows_def)

lemma version_in_grows:
  assumes "grows W db K E W' db' K' E'" and "version_in W db k off L"
  shows "version_in W' db' k off L"
proof -
  have e: "keeps_bytes W (shards_of db) (shards_of db')" and f: "rowValueFiles db' = rowValueFiles db" and W: "W \<le> W'"
    using assms(1) by (simp_all add: grows_def)
  have v: "version_at db k off L" and r: "{unat off ..< unat off + layout_size (fst k) L} \<subseteq> W (unat (key_shard db k))"
    using assms(2) by (simp_all add: version_in_def)
  have s: "unat (key_shard db k) < length (shards_of db)" using v by (simp add: version_at_def)
  have shard: "key_shard db' k = key_shard db k" by (simp add: key_shard_def ShardForRow_def f)
  moreover have "block_at (shards_of db' ! unat (key_shard db k)) (unat off) (fst k) L"
    using v block_at_keeps [OF _ s e r] unfolding version_at_def by blast
  moreover have "W (unat (key_shard db k)) \<subseteq> W' (unat (key_shard db k))" using W by (simp add: le_fun_def)
  ultimately show ?thesis using v f r by (simp add: version_in_def version_at_def)
qed

lemma field_ok_grows:
  assumes "grows W db K E W' db' K' E'" and "field_ok W db k b f"
  shows "field_ok W' db' k b f"
proof -
  have "key_shard db' k = key_shard db k" using assms(1) by (simp add: grows_def key_shard_def ShardForRow_def)
  then show ?thesis using assms version_in_grows [OF assms(1)] by (cases f) (simp_all, blast)
qed

lemma length_probe_path [simp]: "length (probe_path h n) = n"
  by (simp add: probe_path_def)

lemma probe_path_distinct: "distinct (probe_path h n)"
  by (rule card_distinct) simp

lemma probed_before_nth:
  assumes "p < length xs" and "distinct xs"
  shows "probed_before xs (xs ! p) = (\<lambda>q. xs ! q) ` {..<p}"
proof -
  have "takeWhile (\<lambda>j. j \<noteq> xs ! p) xs = take p xs"
    using assms by (intro takeWhile_eq_take_P_nth) (auto simp: nth_eq_iff_index_eq)
  then show ?thesis using nth_image [of p xs] assms(1) by (simp add: lessThan_atLeast0)
qed

lemma path_of_simps [simp]:
  "length (path_of db k) = length (RowBuckets db)" "distinct (path_of db k)"
  "set (path_of db k) = {..<length (RowBuckets db)}"
  by (simp_all add: path_of_def probe_path_distinct)

lemma probe_at_path:
  assumes shape: "table_shape db" and ready: "job_ready db job" and p: "p < length (RowBuckets db)"
  shows "probe_at (bucket_count db) job p = path_of db (job_key job) ! p" and "probe_at (bucket_count db) job p < length (RowBuckets db)"
proof -
  obtain k where k: "k \<le> 56" "bucket_count db = 2 ^ k" "length (RowBuckets db) = 2 ^ k"
    using shape by (auto simp: table_shape_def)
  have h: "MixHashes (job_columnHash job) (job_rowId job) = row_hash (job_key job)"
    by (simp add: row_hash_def job_key_def job_ready_hash [OF ready])
  show eq: "probe_at (bucket_count db) job p = path_of db (job_key job) ! p"
    using k probe_indices_pow2 [of k] by (simp add: probe_at_def path_of_def h)
  show "probe_at (bucket_count db) job p < length (RowBuckets db)"
    using nth_mem [of p "path_of db (job_key job)"] p unfolding eq path_of_simps by simp
qed

lemma unat_bucket_count: "table_shape db \<Longrightarrow> unat (bucket_count db) = length (RowBuckets db)"
  by (auto simp: table_shape_def)

lemma table_invD:
  assumes "table_inv W db K E"
  shows "row_readable db" and "table_shape db"
    and "i < length (RowBuckets db) \<Longrightarrow>
      rib_state (RowBuckets db ! i) \<in> {kRowBucketEmpty, kRowBucketFilled, kRowBucketWriting}"
    and "i < length (RowBuckets db) \<Longrightarrow> rib_reserved64 (RowBuckets db ! i) = 0"
    and "i < length (RowBuckets db) \<Longrightarrow> rib_reserved65 (RowBuckets db ! i) = 0"
    and "i < length (RowBuckets db) \<Longrightarrow> rib_state (RowBuckets db ! i) = kRowBucketFilled \<Longrightarrow> i \<in> E"
    and "i < length (RowBuckets db) \<Longrightarrow> rib_state (RowBuckets db ! i) = kRowBucketFilled \<Longrightarrow>
      \<exists>L. row_bucket_at (shards_of db) (RowBuckets db ! i) (fst (K i)) L"
    and "used db i \<Longrightarrow> j \<in> probed_before (path_of db (K i)) i \<Longrightarrow> \<not> vacant_row (RowBuckets db ! j)"
    and "i \<in> E \<Longrightarrow> used db i" and "i \<in> E \<Longrightarrow> field_ok W db (K i) (RowBuckets db ! i) f"
    and "used db i \<Longrightarrow> used db j \<Longrightarrow> K i = K j \<Longrightarrow> i = j"
proof -
  show "row_readable db" "table_shape db" using assms by (simp_all add: table_inv_def)
  show "i < length (RowBuckets db) \<Longrightarrow>
      rib_state (RowBuckets db ! i) \<in> {kRowBucketEmpty, kRowBucketFilled, kRowBucketWriting}"
    using assms unfolding table_inv_def by blast
  show "i < length (RowBuckets db) \<Longrightarrow> rib_reserved64 (RowBuckets db ! i) = 0"
    "i < length (RowBuckets db) \<Longrightarrow> rib_reserved65 (RowBuckets db ! i) = 0"
    using assms unfolding table_inv_def by blast+
  show "i < length (RowBuckets db) \<Longrightarrow> rib_state (RowBuckets db ! i) = kRowBucketFilled \<Longrightarrow> i \<in> E"
    "i < length (RowBuckets db) \<Longrightarrow> rib_state (RowBuckets db ! i) = kRowBucketFilled \<Longrightarrow>
      \<exists>L. row_bucket_at (shards_of db) (RowBuckets db ! i) (fst (K i)) L"
    using assms unfolding table_inv_def by blast+
  show "used db i \<Longrightarrow> j \<in> probed_before (path_of db (K i)) i \<Longrightarrow> \<not> vacant_row (RowBuckets db ! j)"
    using assms unfolding table_inv_def by blast
  show "i \<in> E \<Longrightarrow> used db i" "i \<in> E \<Longrightarrow> field_ok W db (K i) (RowBuckets db ! i) f"
    using assms unfolding table_inv_def by blast+
  show "used db i \<Longrightarrow> used db j \<Longrightarrow> K i = K j \<Longrightarrow> i = j"
    using assms unfolding table_inv_def inj_on_def by blast
qed

lemma set_RowBucket_shape:
  assumes "table_shape db"
  shows "RowBuckets (set_RowBucket i b db) = (RowBuckets db)[i := b]"
    and "RowIndexHeader (set_RowBucket i b db) = RowIndexHeader db"
    and "shards_of (set_RowBucket i b db) = shards_of db"
    and "row_readable (set_RowBucket i b db) = row_readable db"
    and "rowValueFiles (set_RowBucket i b db) = rowValueFiles db"
    and "table_shape (set_RowBucket i b db)"
    and "filesys (set_RowBucket i b db) = filesys db"
proof -
  obtain v where v: "mapped_data (rowIndexMap db) = Some v" using assms by (auto simp: table_shape_def)
  then have B: "RowBuckets db = ri_buckets v" and H: "RowIndexHeader db = ri_header v"
    by (simp_all add: RowBuckets_def RowIndexHeader_def)
  show "RowBuckets (set_RowBucket i b db) = (RowBuckets db)[i := b]"
    "RowIndexHeader (set_RowBucket i b db) = RowIndexHeader db"
    "shards_of (set_RowBucket i b db) = shards_of db" "row_readable (set_RowBucket i b db) = row_readable db"
    "rowValueFiles (set_RowBucket i b db) = rowValueFiles db" "filesys (set_RowBucket i b db) = filesys db"
    by (simp_all add: set_RowBucket_with [OF v] B H)
  show "table_shape (set_RowBucket i b db)"
    using assms by (simp add: table_shape_def set_RowBucket_with [OF v] B H)
qed

lemma set_RowBucket_version [simp]:
  "table_shape db \<Longrightarrow> version_in W (set_RowBucket i b db) k off L = version_in W db k off L"
  by (simp add: set_RowBucket_shape key_shard_def version_in_def version_at_def ShardForRow_def)

lemma set_RowBucket_field_ok [simp]:
  assumes "table_shape db"
  shows "field_ok W (set_RowBucket i b db) k b' f = field_ok W db k b' f"
proof -
  have "version_in W (set_RowBucket i b db) k off = version_in W db k off" for off
    using assms by (intro ext) simp
  then show ?thesis using assms by (cases f) (simp_all add: set_RowBucket_shape key_shard_def ShardForRow_def)
qed

text \<open>The one way a step changes the table: the bucket \<open>i\<close> becomes, or stays, a bucket of the key \<open>k\<close>.\<close>

lemma table_update:
  assumes inv: "table_inv W db K E" and i: "i < length (RowBuckets db)"
    and state: "rib_state b \<in> {kRowBucketFilled, kRowBucketWriting}"
    and res: "rib_reserved64 b = 0" "rib_reserved65 b = 0"
    and key: "used db i \<Longrightarrow> K i = k"
    and chain: "\<And>j. j \<in> probed_before (path_of db k) i \<Longrightarrow> \<not> vacant_row (RowBuckets db ! j)"
    and fresh: "\<And>j. used db j \<Longrightarrow> j \<noteq> i \<Longrightarrow> K j \<noteq> k"
    and filled: "rib_state b = kRowBucketFilled \<Longrightarrow> i \<in> E' \<and> (\<exists>L. row_bucket_at (shards_of db) b (fst k) L)"
    and E': "E \<subseteq> E'" "E' \<subseteq> insert i E"
    and fields: "\<And>f. i \<in> E' \<Longrightarrow> field_ok W db k b f"
  shows "table_inv W (set_RowBucket i b db) (K(i := k)) E'"
    and "grows W db K E W (set_RowBucket i b db) (K(i := k)) E'"
proof -
  note D = table_invD [OF inv] and S = set_RowBucket_shape [OF table_invD(2) [OF inv]]
  have b: "\<not> vacant_row b" using state by auto
  have nv: "used (set_RowBucket i b db) j \<longleftrightarrow> used db j \<or> j = i" for j
    using i b by (auto simp: S nth_list_update)
  have path: "path_of (set_RowBucket i b db) k' = path_of db k'" for k' by (simp add: path_of_def S)
  show "grows W db K E W (set_RowBucket i b db) (K(i := k)) E'"
    unfolding grows_def nv using E'(1) key by (auto simp: S)
  have st: "rib_state (RowBuckets (set_RowBucket i b db) ! j) \<in> {kRowBucketEmpty, kRowBucketFilled, kRowBucketWriting}"
    if "j < length (RowBuckets db)" for j
    using D(3) [OF that] state that by (cases "j = i") (auto simp: S nth_list_update)
  have re: "rib_reserved64 (RowBuckets (set_RowBucket i b db) ! j) = 0 \<and> rib_reserved65 (RowBuckets (set_RowBucket i b db) ! j) = 0"
    if "j < length (RowBuckets db)" for j
    using D(4,5) [OF that] res that by (cases "j = i") (simp_all add: S)
  have fi: "j \<in> E' \<and> (\<exists>L. row_bucket_at (shards_of db) (RowBuckets (set_RowBucket i b db) ! j) (fst ((K(i := k)) j)) L)"
    if "j < length (RowBuckets db)" "rib_state (RowBuckets (set_RowBucket i b db) ! j) = kRowBucketFilled" for j
    using D(6,7) [OF that(1)] filled that E'(1) by (cases "j = i") (auto simp: S)
  have ch: "\<not> vacant_row (RowBuckets (set_RowBucket i b db) ! l)"
    if "used (set_RowBucket i b db) j" and l: "l \<in> probed_before (path_of db ((K(i := k)) j)) j" for j l
  proof -
    have ln: "l < length (RowBuckets db)" using l unfolding path_of_def by (rule probed_before_less)
    have "\<not> vacant_row (RowBuckets db ! l)"
      using l D(8) [of j l] chain [of l] that(1) [unfolded nv] by (cases "j = i") auto
    then show ?thesis using nv [of l] ln by simp
  qed
  have fld: "used (set_RowBucket i b db) j \<and> (\<forall>f. field_ok W db ((K(i := k)) j) (RowBuckets (set_RowBucket i b db) ! j) f)"
    if "j \<in> E'" for j
    using that D(9,10) [of j] fields E'(2) nv [of j] i by (cases "j = i") (auto simp: S)
  have inj: "inj_on (K(i := k)) {j. used (set_RowBucket i b db) j}"
    unfolding nv inj_on_def using D(11) fresh by auto
  show "table_inv W (set_RowBucket i b db) (K(i := k)) E'"
    unfolding table_inv_def S(4) path set_RowBucket_field_ok [OF D(2)] S(3)
    using D(1) S(6) st re fi ch fld inj by (simp add: S(1))
qed

subsection \<open>The invariant of a thread\<close>

definition spot :: "Impl \<Rightarrow> job \<Rightarrow> nat \<Rightarrow> nat" where
  "spot db job p = path_of db (job_key job) ! p"

text \<open>The buckets probed so far belong to other keys, for good.\<close>

definition passed :: "Impl \<Rightarrow> (nat \<Rightarrow> row_key) \<Rightarrow> job \<Rightarrow> nat \<Rightarrow> bool" where
  "passed db K job p \<longleftrightarrow> (\<forall>q < p. used db (spot db job q) \<and> K (spot db job q) \<noteq> job_key job)"

fun inserts :: "job \<Rightarrow> bool" where
  "inserts (Insert column data) = True"
| "inserts (Find column rowId columnHash) = False"

fun job_bucket :: "job \<Rightarrow> RowIndexBucket" where
  "job_bucket (Insert column data) = data_bucket data"
| "job_bucket (Find column rowId columnHash) = RowIndexBucket_default"

definition lookup_ok :: "(nat \<Rightarrow> nat set) \<Rightarrow> Impl \<Rightarrow> row_key \<Rightarrow> RowBucketLookup \<Rightarrow> bool" where
  "lookup_ok W db k r \<longleftrightarrow>
     rlk_found r \<longrightarrow> (\<exists>L. version_in W db k (rib_blockOffset (rlk_bucket r)) L \<and> rlk_blockHeader r = rl_header L \<and>
       rib_shardId (rlk_bucket r) = key_shard db k \<and> rib_blockSize (rlk_bucket r) = rb_blockSize (rl_header L))"

definition failure_ok :: "Impl \<Rightarrow> Status \<Rightarrow> bool" where
  "failure_ok db status \<longleftrightarrow>
     status = Corruption ''row index points to an invalid row block'' \<or>
     status = Corruption ''row index table is full'' \<and> (\<forall>i < length (RowBuckets db). used db i)"

fun thread_ok :: "(nat \<Rightarrow> nat set) \<Rightarrow> Impl \<Rightarrow> (nat \<Rightarrow> row_key) \<Rightarrow> nat set \<Rightarrow> job \<Rightarrow> pc \<Rightarrow> bool" where
  "thread_ok W db K E job (Probing p) \<longleftrightarrow> p < length (RowBuckets db) \<and> passed db K job p"
| "thread_ok W db K E job (Loading p fs snapshot) \<longleftrightarrow>
     p < length (RowBuckets db) \<and> passed db K job p \<and> spot db job p \<in> E \<and>
     (\<forall>f. f \<notin> set fs \<longrightarrow> field_ok W db (K (spot db job p)) snapshot f)"
| "thread_ok W db K E job (Comparing p snapshot) \<longleftrightarrow>
     p < length (RowBuckets db) \<and> passed db K job p \<and> spot db job p \<in> E \<and>
     (\<forall>f. field_ok W db (K (spot db job p)) snapshot f)"
| "thread_ok W db K E job (Taking p expected) \<longleftrightarrow>
     inserts job \<and> p < length (RowBuckets db) \<and> passed db K job p \<and>
     (expected = kRowBucketEmpty \<or>
      expected = kRowBucketFilled \<and> spot db job p \<in> E \<and> K (spot db job p) = job_key job)"
| "thread_ok W db K E job (Storing p fs inserted) \<longleftrightarrow>
     inserts job \<and> p < length (RowBuckets db) \<and> passed db K job p \<and>
     rib_state (RowBuckets db ! spot db job p) = kRowBucketWriting \<and> K (spot db job p) = job_key job \<and>
     (\<forall>f. f \<notin> set fs \<longrightarrow> field_eq (RowBuckets db ! spot db job p) (job_bucket job) f)"
| "thread_ok W db K E job (Inserted inserted) \<longleftrightarrow> inserts job"
| "thread_ok W db K E job (Found r) \<longleftrightarrow> lookup_ok W db (job_key job) r"
| "thread_ok W db K E job (Failed status) \<longleftrightarrow> failure_ok db status"

fun owned :: "Impl \<Rightarrow> job \<Rightarrow> pc \<Rightarrow> nat option" where
  "owned db job (Storing p fs inserted) = Some (spot db job p)"
| "owned db job _ = None"

lemma spot_grows: "grows W db K E W' db' K' E' \<Longrightarrow> spot db' job p = spot db job p"
  by (simp add: grows_def spot_def path_of_def)

lemma owned_grows: "grows W db K E W' db' K' E' \<Longrightarrow> owned db' job pc = owned db job pc"
  by (cases pc) (simp_all add: spot_grows)

lemma spot_less: "p < length (RowBuckets db) \<Longrightarrow> spot db job p < length (RowBuckets db)"
  unfolding spot_def by (metis nth_mem path_of_simps(1,3) lessThan_iff)

lemma spot_inj: "p < length (RowBuckets db) \<Longrightarrow> q < length (RowBuckets db) \<Longrightarrow> spot db job p = spot db job q \<longleftrightarrow> p = q"
  by (simp add: spot_def nth_eq_iff_index_eq)

lemma spot_ex: "i < length (RowBuckets db) \<Longrightarrow> \<exists>p < length (RowBuckets db). spot db job p = i"
  unfolding spot_def by (metis in_set_conv_nth path_of_simps(1,3) lessThan_iff)

lemma spot_before:
  "p < length (RowBuckets db) \<Longrightarrow> probed_before (path_of db (job_key job)) (spot db job p) = spot db job ` {..<p}"
  using probed_before_nth [of p "path_of db (job_key job)"] by (simp add: spot_def [abs_def])

lemma passed_grows: "grows W db K E W' db' K' E' \<Longrightarrow> passed db K job p \<Longrightarrow> passed db' K' job p"
  unfolding passed_def spot_grows by (simp add: grows_def)

text \<open>A step of another thread keeps the invariant of a thread that does not own the changed bucket.\<close>

lemma thread_ok_grows:
  assumes inv: "table_inv W db K E" and g: "grows W db K E W' db' K' E'" and ok: "thread_ok W db K E job pc"
    and own: "\<And>i. owned db job pc = Some i \<Longrightarrow> RowBuckets db' ! i = RowBuckets db ! i"
  shows "thread_ok W' db' K' E' job pc"
proof -
  note ps = passed_grows [OF g] and fo = field_ok_grows [OF g] and sp = spot_grows [OF g]
  have len: "length (RowBuckets db') = length (RowBuckets db)" and E: "E \<subseteq> E'"
    and keep: "\<And>i. used db i \<Longrightarrow> used db' i \<and> K' i = K i"
    using g by (simp_all add: grows_def)
  have est: "i \<in> E' \<and> K' i = K i" if "i \<in> E" for i
    using keep [OF table_invD(9) [OF inv that]] E that by blast
  have shard: "key_shard db' k = key_shard db k" for k
    using g by (simp add: grows_def key_shard_def ShardForRow_def)
  show ?thesis
  proof (cases pc)
    case (Storing p fs inserted)
    then have "used db (spot db job p)" using ok spot_less by auto
    then show ?thesis using Storing ok own keep ps by (simp add: len sp)
  next
    case (Comparing p snapshot)
    then show ?thesis using ok ps est fo [of "K (spot db job p)" snapshot] by (simp add: len sp) blast
  next
    case (Found r)
    then show ?thesis using ok version_in_grows [OF g] unfolding Found by (simp add: lookup_ok_def shard) blast
  next
    case (Failed st)
    then show ?thesis using ok keep len by (auto simp: failure_ok_def)
  qed (use ok ps fo est in \<open>auto simp: len sp simp del: split_paired_All\<close>)
qed

subsection \<open>One step of a thread\<close>

text \<open>
  What a step of a thread has to deliver: the invariants hold again, for some history variables that
  only grew; it took or changed a bucket only if it owned it or nobody did.
\<close>

definition step_sound :: "(nat \<Rightarrow> nat set) \<Rightarrow> Impl \<Rightarrow> (nat \<Rightarrow> row_key) \<Rightarrow> nat set \<Rightarrow> job \<Rightarrow> pc \<Rightarrow> Impl \<Rightarrow> pc \<Rightarrow> bool" where
  "step_sound W db K E job pc db' pc' \<longleftrightarrow>
     (\<exists>K' E'. table_inv W db' K' E' \<and> grows W db K E W db' K' E' \<and> thread_ok W db' K' E' job pc') \<and>
     (\<forall>i < length (RowBuckets db).
        (RowBuckets db' ! i \<noteq> RowBuckets db ! i \<or> owned db' job pc' = Some i \<longrightarrow>
           owned db job pc = Some i \<or> rib_state (RowBuckets db ! i) \<noteq> kRowBucketWriting) \<and>
        (rib_state (RowBuckets db' ! i) = kRowBucketWriting \<longrightarrow>
           owned db' job pc' = Some i \<or>
           rib_state (RowBuckets db ! i) = kRowBucketWriting \<and> owned db job pc \<noteq> Some i))"

lemma step_sound_still:
  assumes "table_inv W db K E" and "thread_ok W db K E job pc'" and "owned db job pc' = None" and "owned db job pc = None"
  shows "step_sound W db K E job pc db pc'"
proof -
  have "\<exists>K' E'. table_inv W db K' E' \<and> grows W db K E W db K' E' \<and> thread_ok W db K' E' job pc'"
    using assms(1,2) grows_refl by blast
  then show ?thesis using assms(3,4) by (simp add: step_sound_def)
qed

lemma probe_from_ok:
  assumes "table_shape db" and "passed db K job p"
  shows "thread_ok W db K E job (probe_from (bucket_count db) p)" and "owned db job (probe_from (bucket_count db) p) = None"
proof -
  have full: "used db i" if "length (RowBuckets db) \<le> p" "i < length (RowBuckets db)" for i
    using spot_ex [OF that(2), of job] assms(2) that(1) unfolding passed_def by (metis less_le_trans)
  then show "thread_ok W db K E job (probe_from (bucket_count db) p)"
    using assms by (auto simp: probe_from_def unat_bucket_count failure_ok_def)
  show "owned db job (probe_from (bucket_count db) p) = None" by (simp add: probe_from_def)
qed

lemma passed_0 [simp]: "passed db K job 0"
  by (simp add: passed_def)

lemma step_sound_probe:
  assumes "table_inv W db K E" and "passed db K job p" and "owned db job pc = None"
  shows "step_sound W db K E job pc db (probe_from (bucket_count db) p)"
  by (intro step_sound_still probe_from_ok table_invD(2)) (rule assms)+

lemma ready_spot:
  "table_inv W db K E \<Longrightarrow> job_ready db job \<Longrightarrow> p < length (RowBuckets db) \<Longrightarrow>
    probe_at (bucket_count db) job p = spot db job p"
  by (simp add: probe_at_path [OF table_invD(2)] spot_def)

end
