(* ===== verification/Row_Race_Safety.thy ===== *)
theory Row_Race_Safety
  imports Row_Race_Invariant
begin

text \<open>
  Every step of every thread keeps the invariant, and what follows for the calls: a bucket is
  written by one thread at a time, no bucket is ever seen half written in the table, no row gets two
  buckets, a lookup never misses a row that was in the index when it started.
\<close>

subsection \<open>Steps that read\<close>

lemma probing_step:
  assumes inv: "table_inv W db K E" and ok: "thread_ok W db K E job (Probing p)" and ready: "job_ready db job"
    and step: "thread_step os job db (Probing p) = (pc', db')"
  shows "step_sound W db K E job (Probing p) db' pc'"
proof -
  have p: "p < length (RowBuckets db)" "passed db K job p" using ok by simp_all
  note sp = ready_spot [OF inv ready p(1)] and D = table_invD [OF inv]
  have state: "rib_state (RowBuckets db ! spot db job p) \<in> {kRowBucketEmpty, kRowBucketFilled, kRowBucketWriting}"
    by (rule D(3)) (rule spot_less [OF p(1)])
  have empty: "thread_ok W db K E job (on_empty job p i) \<and> owned db job (on_empty job p i) = None" for i
    using p by (cases job) (simp_all add: on_empty_def lookup_ok_def)
  have still: "step_sound W db K E job (Probing p) db pc" if "thread_ok W db K E job pc \<and> owned db job pc = None" for pc
    using step_sound_still [OF inv] that by simp
  consider "rib_state (RowBuckets db ! spot db job p) = kRowBucketEmpty"
    | "rib_state (RowBuckets db ! spot db job p) = kRowBucketWriting"
    | "rib_state (RowBuckets db ! spot db job p) = kRowBucketFilled"
    using state by blast
  then show ?thesis
  proof cases
    case 1
    then show ?thesis using step sp empty still by (auto simp: Let_def)
  next
    case 2
    then show ?thesis using step sp step_sound_probe [OF inv passed_0, of job "Probing p"] by (auto simp: Let_def)
  next
    case 3
    then have "spot db job p \<in> E" using D(6) spot_less [OF p(1)] by blast
    then have "thread_ok W db K E job (Loading p all_fields (RowIndexBucket_default\<lparr>rib_state := kRowBucketFilled\<rparr>))"
      using p by simp
    then show ?thesis using step sp 3 still by (auto simp: Let_def)
  qed
qed

lemma loading_step:
  assumes inv: "table_inv W db K E" and ok: "thread_ok W db K E job (Loading p fs b)" and ready: "job_ready db job"
    and step: "thread_step os job db (Loading p fs b) = (pc', db')"
  shows "step_sound W db K E job (Loading p fs b) db' pc'"
proof (cases fs)
  case Nil
  show ?thesis
  proof (cases "rib_state (RowBuckets db ! spot db job p) = kRowBucketFilled")
    case True
    have "step_sound W db K E job (Loading p fs b) db (Comparing p b)"
      by (rule step_sound_still [OF inv]) (use ok [unfolded Nil thread_ok.simps] in \<open>simp; blast\<close>, simp_all)
    then show ?thesis using step Nil True ok ready_spot [OF inv ready] by (auto simp: Let_def)
  next
    case False
    then show ?thesis
      using step Nil ok ready_spot [OF inv ready] step_sound_probe [OF inv passed_0, of job "Loading p fs b"]
      by (auto simp: Let_def)
  qed
next
  case (Cons f gs)
  have e: "spot db job p \<in> E" and p: "p < length (RowBuckets db)" using ok by simp_all
  have "step_sound W db K E job (Loading p fs b) db (Loading p gs (copy_field f (RowBuckets db ! spot db job p) b))"
    by (rule step_sound_still [OF inv]) (use ok Cons table_invD(10) [OF inv e] in \<open>auto simp: field_ok_copy\<close>)
  then show ?thesis using step Cons ready_spot [OF inv ready p] by (auto simp: Let_def)
qed

lemma comparing_step:
  assumes os: "reads_ok os" and inv: "table_inv W db K E" and ok: "thread_ok W db K E job (Comparing p b)" and ready: "job_ready db job"
    and step: "thread_step os job db (Comparing p b) = (pc', db')"
  shows "step_sound W db K E job (Comparing p b) db' pc'"
proof -
  let ?i = "spot db job p"
  have p: "p < length (RowBuckets db)" "passed db K job p" and e: "?i \<in> E" and fo: "\<forall>f. field_ok W db (K ?i) b f"
    using ok by simp_all
  note f = fo [rule_format, of ColumnHash] fo [rule_format, of RowId] fo [rule_format, of ShardId]
  have onward: "step_sound W db K E job (Comparing p b) db (probe_from (bucket_count db) (Suc p))" if "K ?i \<noteq> job_key job"
    by (rule step_sound_probe [OF inv]) (use that p table_invD(9) [OF inv e] in \<open>auto simp: passed_def less_Suc_eq\<close>)
  show ?thesis
  proof (cases "rib_columnHash b \<noteq> job_columnHash job \<or> rib_rowId b \<noteq> job_rowId job")
    case True
    then have "K ?i \<noteq> job_key job" using f job_ready_hash [OF ready] by (auto simp: job_key_def)
    then show ?thesis using onward step True by (auto simp: Let_def)
  next
    case same: False
    then have r: "snd (K ?i) = job_rowId job" using f by simp
    obtain L where L: "version_in W db (K ?i) (rib_blockOffset b) L"
      and m: "RowBlockMatches os db b (job_column job) (job_rowId job) =
        (if rib_blockSize b \<noteq> rb_blockSize (rl_header L)
         then Inl (Corruption ''row index points to an invalid row block'')
         else Inr (if fst (K ?i) = job_column job then Some (rl_header L) else None))"
      by (rule RowBlockMatches_mixed [OF os table_invD(1) [OF inv] fo r])
    have key: "K ?i = job_key job \<longleftrightarrow> fst (K ?i) = job_column job"
      using r by (auto simp: job_key_def prod_eq_iff)
    have failed: "step_sound W db K E job (Comparing p b) db (Failed (Corruption ''row index points to an invalid row block''))"
      by (rule step_sound_still [OF inv]) (simp_all add: failure_ok_def)
    have hit: "step_sound W db K E job (Comparing p b) db (on_match job p ?i b (rl_header L))"
      if "K ?i = job_key job" "rib_blockSize b = rb_blockSize (rl_header L)"
      by (rule step_sound_still [OF inv]; cases job)
        (use that p e L f in \<open>auto simp: on_match_def lookup_ok_def\<close>)
    show ?thesis
      using step same m key failed hit onward ready_spot [OF inv ready p(1)] by (auto simp: Let_def split: if_splits)
  qed
qed

subsection \<open>Steps that write\<close>

text \<open>A step that changes one bucket, free or its own.\<close>

lemma step_sound_write:
  assumes inv: "table_inv W db K E" and p: "p < length (RowBuckets db)"
    and inv': "table_inv W (set_RowBucket (spot db job p) b db) K' E'"
    and grows: "grows W db K E W (set_RowBucket (spot db job p) b db) K' E'"
    and ok: "thread_ok W (set_RowBucket (spot db job p) b db) K' E' job pc'"
    and before: "owned db job pc = Some (spot db job p) \<or>
      rib_state (RowBuckets db ! spot db job p) \<noteq> kRowBucketWriting \<and> owned db job pc = None"
    and after: "owned db job pc' = Some (spot db job p) \<or> owned db job pc' = None \<and> rib_state b \<noteq> kRowBucketWriting"
  shows "step_sound W db K E job pc (set_RowBucket (spot db job p) b db) pc'"
proof -
  have o: "owned (set_RowBucket (spot db job p) b db) job pc' = owned db job pc'" by (rule owned_grows [OF grows])
  have B: "RowBuckets (set_RowBucket (spot db job p) b db) = (RowBuckets db)[spot db job p := b]"
    by (rule set_RowBucket_shape [OF table_invD(2) [OF inv]])
  have "\<exists>K' E'. table_inv W (set_RowBucket (spot db job p) b db) K' E' \<and>
      grows W db K E W (set_RowBucket (spot db job p) b db) K' E' \<and> thread_ok W (set_RowBucket (spot db job p) b db) K' E' job pc'"
    using inv' grows ok by blast
  then show ?thesis
    unfolding step_sound_def o B using before after spot_less [OF p, of job]
    by (auto simp: nth_list_update)
qed

lemma passed_chain:
  assumes inv: "table_inv W db K E" and p: "p < length (RowBuckets db)" "passed db K job p"
  shows "\<And>j. j \<in> probed_before (path_of db (job_key job)) (spot db job p) \<Longrightarrow> \<not> vacant_row (RowBuckets db ! j)"
    and "\<And>j. used db j \<Longrightarrow> K j = job_key job \<Longrightarrow> used db (spot db job p)"
proof -
  show "\<not> vacant_row (RowBuckets db ! j)" if "j \<in> probed_before (path_of db (job_key job)) (spot db job p)" for j
    using that p(2) unfolding spot_before [OF p(1)] by (auto simp: passed_def)
  fix j assume j: "used db j" "K j = job_key job"
  obtain q where q: "q < length (RowBuckets db)" "j = spot db job q"
    using spot_ex [of j db job] j(1) by blast
  have "p \<le> q" using p(2) q(2) j by (auto simp: passed_def not_less [symmetric])
  then consider "p = q" | "p < q" by linarith
  then show "used db (spot db job p)"
  proof cases
    case 2
    then have "spot db job p \<in> probed_before (path_of db (K j)) j" using q j spot_before [OF q(1)] by auto
    then show ?thesis using table_invD(8) [OF inv j(1)] spot_less [OF p(1)] by blast
  qed (use j q in simp)
qed

lemma taking_step:
  assumes inv: "table_inv W db K E" and ok: "thread_ok W db K E job (Taking p st)" and ready: "job_ready db job"
    and step: "thread_step os job db (Taking p st) = (pc', db')"
  shows "step_sound W db K E job (Taking p st) db' pc'"
proof -
  let ?i = "spot db job p" let ?b = "(RowBuckets db ! spot db job p)\<lparr>rib_state := kRowBucketWriting\<rparr>"
  let ?db = "set_RowBucket ?i ?b db" and ?K = "K(?i := job_key job)"
  have p: "p < length (RowBuckets db)" "passed db K job p" and ins: "inserts job"
    and st: "st = kRowBucketEmpty \<or> st = kRowBucketFilled \<and> ?i \<in> E \<and> K ?i = job_key job"
    using ok by simp_all
  note i = spot_less [OF p(1), of job] and D = table_invD [OF inv] and S = set_RowBucket_shape [OF table_invD(2) [OF inv]]
  show ?thesis
  proof (cases "rib_state (RowBuckets db ! ?i) = st")
    case False
    then show ?thesis
      using step ready_spot [OF inv ready p(1)] step_sound_probe [OF inv passed_0, of job "Taking p st"]
      by (auto simp: Let_def)
  next
    case True
    have E: "?i \<in> E \<longrightarrow> st = kRowBucketFilled" using D(9) [of ?i] True st by auto
    have keyed: "K ?i = job_key job" if "used db ?i" using that True st by auto
    have fresh: "K j \<noteq> job_key job" if "used db j" "j \<noteq> ?i" for j
      using passed_chain(2) [OF inv p that(1)] D(11) [OF that(1)] that(2) keyed by auto
    have upd: "table_inv W ?db ?K E" "grows W db K E W ?db ?K E"
      using table_update [OF inv i, of ?b "job_key job" E, OF _ _ _ keyed passed_chain(1) [OF inv p] fresh]
        D(4,5) [OF i] D(9,10) [of ?i] keyed by auto
    have "thread_ok W ?db ?K E job (Storing p all_fields (st = kRowBucketEmpty))"
      using p passed_grows [OF upd(2)] ins i spot_grows [OF upd(2)] by (simp add: S)
    then have "step_sound W db K E job (Taking p st) ?db (Storing p all_fields (st = kRowBucketEmpty))"
      by (intro step_sound_write [OF inv p(1) upd]) (use True st in auto)
    then show ?thesis using step True ready_spot [OF inv ready p(1)] by (auto simp: Let_def)
  qed
qed

lemma storing_step:
  assumes inv: "table_inv W db K E" and ok: "thread_ok W db K E job (Storing p fs new)" and ready: "job_ready db job" and settled: "settled W job"
    and step: "thread_step os job db (Storing p fs new) = (pc', db')"
  shows "step_sound W db K E job (Storing p fs new) db' pc'"
proof -
  let ?i = "spot db job p"
  obtain c d where job: "job = Insert c d" using ok by (cases job) auto
  have p: "p < length (RowBuckets db)" "passed db K job p" and w: "rib_state (RowBuckets db ! ?i) = kRowBucketWriting"
    and key: "K ?i = (c, rd_rowId d)" "job_key job = K ?i"
    and eq: "\<And>f. f \<notin> set fs \<Longrightarrow> field_eq (RowBuckets db ! ?i) (data_bucket d) f"
    using ok by (auto simp: job job_key_def)
  note i = spot_less [OF p(1), of job] and D = table_invD [OF inv] and S = set_RowBucket_shape [OF table_invD(2) [OF inv]]
    and data = job_ready_data [OF ready [unfolded job] settled [unfolded job]] and sp = ready_spot [OF inv ready p(1)]
  have used: "used db ?i" using i w by auto
  have chain: "\<not> vacant_row (RowBuckets db ! j)" if "j \<in> probed_before (path_of db (K ?i)) ?i" for j
    using D(8) [OF used] that by blast
  have fresh: "K j \<noteq> K ?i" if "used db j" "j \<noteq> ?i" for j using D(11) [OF that(1) used] that(2) by blast
  have id: "K(?i := K ?i) = K" by simp
  show ?thesis
  proof (cases fs)
    case (Cons f gs)
    let ?b = "copy_field f (data_bucket d) (RowBuckets db ! ?i)" let ?db = "set_RowBucket ?i ?b db"
    have fld: "field_ok W db (K ?i) ?b g" if "?i \<in> E" for g
      using D(10) [OF that] data(1) key by (simp add: field_ok_copy)
    have upd: "table_inv W ?db K E" "grows W db K E W ?db K E"
      using table_update [OF inv i, of ?b "K ?i" E, OF _ _ _ _ chain fresh] D(4,5) [OF i] w fld unfolding id by auto
    have "thread_ok W ?db K E job (Storing p gs new)"
      using p passed_grows [OF upd(2)] spot_grows [OF upd(2)] i key eq w Cons job
      by (auto simp: S field_eq_copy)
    then have "step_sound W db K E job (Storing p fs new) ?db (Storing p gs new)"
      by (intro step_sound_write [OF inv p(1) upd]) simp_all
    then show ?thesis using step Cons sp job by (auto simp: Let_def)
  next
    case Nil
    let ?b = "(RowBuckets db ! ?i)\<lparr>rib_state := kRowBucketFilled\<rparr>" let ?db = "set_RowBucket ?i ?b db"
    have b: "?b = data_bucket d"
      by (rule fields_eqI) (use eq Nil D(4,5) [OF i] in auto)
    have upd: "table_inv W ?db K (insert ?i E)" "grows W db K E W ?db K (insert ?i E)"
      using table_update [OF inv i, of ?b "K ?i" "insert ?i E", OF _ _ _ _ chain fresh] data key
      unfolding id b by auto
    have "thread_ok W ?db K (insert ?i E) job (Inserted new)" using job by simp
    then have "step_sound W db K E job (Storing p fs new) ?db (Inserted new)"
      by (intro step_sound_write [OF inv p(1) upd]) simp_all
    then show ?thesis using step Nil sp by (auto simp: Let_def)
  qed
qed

lemma step_keeps:
  assumes "reads_ok os" and "table_inv W db K E" and "thread_ok W db K E job pc" and "job_ready db job" and "settled W job" and "\<not> finished pc"
    and "thread_step os job db pc = (pc', db')"
  shows "step_sound W db K E job pc db' pc'"
  using assms probing_step loading_step comparing_step taking_step storing_step by (cases pc) auto

subsection \<open>The invariant of a race\<close>

definition owner :: "race \<Rightarrow> nat \<Rightarrow> nat option" where
  "owner s t = owned (race_db s) (fst (race_threads s ! t)) (snd (race_threads s ! t))"

definition race_inv :: "(nat \<Rightarrow> nat set) \<Rightarrow> (nat \<Rightarrow> row_key) \<Rightarrow> nat set \<Rightarrow> race \<Rightarrow> bool" where
  "race_inv W K E s \<longleftrightarrow>
     table_inv W (race_db s) K E \<and>
     (\<forall>t < length (race_threads s).
        job_ready (race_db s) (fst (race_threads s ! t)) \<and> settled W (fst (race_threads s ! t)) \<and>
        thread_ok W (race_db s) K E (fst (race_threads s ! t)) (snd (race_threads s ! t)) \<and>
        (\<forall>u < length (race_threads s). owner s t \<noteq> None \<longrightarrow> owner s u = owner s t \<longrightarrow> u = t)) \<and>
     (\<forall>i < length (RowBuckets (race_db s)). rib_state (RowBuckets (race_db s) ! i) = kRowBucketWriting \<longrightarrow>
        (\<exists>t < length (race_threads s). owner s t = Some i))"

lemma race_invD:
  assumes "race_inv W K E s"
  shows "table_inv W (race_db s) K E"
    and "t < length (race_threads s) \<Longrightarrow> job_ready (race_db s) (fst (race_threads s ! t))"
    and "t < length (race_threads s) \<Longrightarrow>
      thread_ok W (race_db s) K E (fst (race_threads s ! t)) (snd (race_threads s ! t))"
    and "t < length (race_threads s) \<Longrightarrow> u < length (race_threads s) \<Longrightarrow> owner s t = Some i \<Longrightarrow> owner s u = Some i \<Longrightarrow> u = t"
    and "i < length (RowBuckets (race_db s)) \<Longrightarrow> rib_state (RowBuckets (race_db s) ! i) = kRowBucketWriting \<Longrightarrow>
      \<exists>t < length (race_threads s). owner s t = Some i"
    and "t < length (race_threads s) \<Longrightarrow> settled W (fst (race_threads s ! t))"
  using assms unfolding race_inv_def by simp_all

lemma job_ready_grows:
  assumes "grows W db K E W' db' K' E'" and "job_ready db job" and "settled W job"
  shows "job_ready db' job"
proof (cases job)
  case (Insert c d)
  have e: "keeps_bytes W (shards_of db) (shards_of db')" and f: "rowValueFiles db' = rowValueFiles db"
    using assms(1) by (simp_all add: grows_def)
  obtain L where "row_bucket_at (shards_of db) (data_bucket d) c L" using assms(2) Insert by (auto simp: job_ready_def)
  then have "row_bucket_at (shards_of db') (data_bucket d) c L"
    using assms(3) [unfolded settled_def, rule_format, of "unat (rd_shardId d)"] Insert by (intro row_bucket_keeps [OF _ e]) simp_all
  then show ?thesis using assms(2) Insert f by (auto simp: job_ready_def ShardForRow_def)
next
  case Find
  then show ?thesis using assms(2) by (simp add: job_ready_def)
qed

lemma settled_mono: "settled W job \<Longrightarrow> W \<le> W' \<Longrightarrow> settled W' job"
  unfolding settled_def le_fun_def by blast

lemma grows_trans:
  assumes "grows W a K E W' b K' E'" and "grows W' b K' E' W'' c K'' E''"
  shows "grows W a K E W'' c K'' E''"
proof -
  have "keeps_bytes W (shards_of a) (shards_of c)"
    using assms keeps_bytes_trans unfolding grows_def by blast
  moreover have "W \<le> W''" using assms unfolding grows_def by (meson order_trans)
  ultimately show ?thesis using assms unfolding grows_def by (metis order_trans)
qed

lemma owned_writing:
  assumes "thread_ok W db K E job pc" and "owned db job pc = Some i"
  shows "i < length (RowBuckets db) \<and> rib_state (RowBuckets db ! i) = kRowBucketWriting"
  using assms spot_less by (cases pc) auto

lemma turn_keeps:
  assumes os: "reads_ok os" and inv: "race_inv W K E s" and t: "t < length (race_threads s)"
    and th: "race_threads s ! t = (job, pc)" and run: "\<not> finished pc"
    and step: "thread_step os job (race_db s) pc = (pc', db')"
  shows "\<exists>K' E'. race_inv W K' E' \<lparr>race_db = db', race_threads = (race_threads s)[t := (job, pc')]\<rparr> \<and>
    grows W (race_db s) K E W db' K' E'"
proof -
  let ?db = "race_db s" and ?s = "\<lparr>race_db = db', race_threads = (race_threads s)[t := (job, pc')]\<rparr>"
  note D = race_invD [OF inv]
  have ready: "job_ready ?db job" and ok: "thread_ok W ?db K E job pc" and own: "owner s t = owned ?db job pc"
    using D(2,3) [OF t] th by (simp_all add: owner_def)
  have sound: "step_sound W ?db K E job pc db' pc'" by (rule step_keeps [OF os D(1) ok ready D(6) [OF t, unfolded th fst_conv] run step])
  then obtain K' E' where tab: "table_inv W db' K' E'" and g: "grows W ?db K E W db' K' E'"
      and ok': "thread_ok W db' K' E' job pc'"
    unfolding step_sound_def by blast
  have taken: "owned ?db job pc = Some i \<or> rib_state (RowBuckets ?db ! i) \<noteq> kRowBucketWriting"
    if "i < length (RowBuckets ?db)" "RowBuckets db' ! i \<noteq> RowBuckets ?db ! i \<or> owned db' job pc' = Some i" for i
    using sound that unfolding step_sound_def by blast
  have left: "owned db' job pc' = Some i \<or> rib_state (RowBuckets ?db ! i) = kRowBucketWriting \<and> owned ?db job pc \<noteq> Some i"
    if "i < length (RowBuckets ?db)" "rib_state (RowBuckets db' ! i) = kRowBucketWriting" for i
    using sound that unfolding step_sound_def by blast
  have len: "length (RowBuckets db') = length (RowBuckets ?db)" using g by (simp add: grows_def)
  have same: "owner ?s u = (if u = t then owned db' job pc' else owner s u)" if "u < length (race_threads s)" for u
    using that t owned_grows [OF g] by (simp add: owner_def)
  have other: "RowBuckets db' ! i = RowBuckets ?db ! i \<and> owned db' job pc' \<noteq> Some i"
    if u: "u < length (race_threads s)" "u \<noteq> t" "owner s u = Some i" for u i
  proof -
    have w: "i < length (RowBuckets ?db)" "rib_state (RowBuckets ?db ! i) = kRowBucketWriting"
      using owned_writing [OF D(3) [OF u(1)]] u(3) by (auto simp: owner_def)
    have "owned ?db job pc \<noteq> Some i" using D(4) [OF t u(1) _ u(3)] u(2) own by auto
    then show ?thesis using taken [OF w(1)] w(2) by blast
  qed
  have threads: "job_ready db' (fst (race_threads ?s ! u)) \<and> settled W (fst (race_threads ?s ! u)) \<and>
      thread_ok W db' K' E' (fst (race_threads ?s ! u)) (snd (race_threads ?s ! u))"
    if u: "u < length (race_threads s)" for u
  proof (cases "u = t")
    case True
    then show ?thesis using job_ready_grows [OF g ready D(6) [OF t, unfolded th fst_conv]] D(6) [OF t, unfolded th fst_conv] ok' t by simp
  next
    case False
    have "thread_ok W db' K' E' (fst (race_threads s ! u)) (snd (race_threads s ! u))"
      by (rule thread_ok_grows [OF D(1) g D(3) [OF u]]) (use other [OF u False] in \<open>simp add: owner_def\<close>)
    then show ?thesis using False job_ready_grows [OF g D(2) [OF u] D(6) [OF u]] D(6) [OF u] by simp
  qed
  have unique: "v = u" if "u < length (race_threads s)" "v < length (race_threads s)"
      "owner ?s u \<noteq> None" "owner ?s v = owner ?s u" for u v
    using that D(4) [OF that(1,2)] other [OF that(1)] other [OF that(2)] unfolding same [OF that(1)] same [OF that(2)]
    by (auto split: if_splits)
  have owned': "\<exists>u < length (race_threads s). owner ?s u = Some i"
    if i: "i < length (RowBuckets ?db)" "rib_state (RowBuckets db' ! i) = kRowBucketWriting" for i
  proof (cases "owned db' job pc' = Some i")
    case True
    then show ?thesis using t same [OF t] by auto
  next
    case False
    then have w: "rib_state (RowBuckets ?db ! i) = kRowBucketWriting" "owned ?db job pc \<noteq> Some i" using left [OF i] by auto
    obtain u where u: "u < length (race_threads s)" "owner s u = Some i" using D(5) [OF i(1) w(1)] by blast
    moreover have "u \<noteq> t" using u w own by auto
    ultimately show ?thesis using same by auto
  qed
  have "race_inv W K' E' ?s"
    unfolding race_inv_def using tab threads unique owned' len by simp
  then show ?thesis using g by blast
qed

lemma filesys_frame [simp]:
  "RowBuckets (db\<lparr>filesys := fs\<rparr>) = RowBuckets db" "RowIndexHeader (db\<lparr>filesys := fs\<rparr>) = RowIndexHeader db"
  by (simp_all add: RowBuckets_def RowIndexHeader_def)

lemma world_moves_grows: "world_moves W db db' \<Longrightarrow> W \<le> W' \<Longrightarrow> grows W db K E W' db' K E"
  by (simp add: world_moves_def grows_def)

lemma filled_range:
  assumes inv: "table_inv W db K E" and i: "i < length (RowBuckets db)" "rib_state (RowBuckets db ! i) = kRowBucketFilled"
  shows "{unat (rib_blockOffset (RowBuckets db ! i)) ..<
      unat (rib_blockOffset (RowBuckets db ! i)) + unat (rib_blockSize (RowBuckets db ! i))}
    \<subseteq> W (unat (rib_shardId (RowBuckets db ! i)))"
proof -
  let ?b = "RowBuckets db ! i"
  obtain L where L: "row_bucket_at (shards_of db) ?b (fst (K i)) L" using table_invD(7) [OF inv i] by blast
  note fo = table_invD(10) [OF inv table_invD(6) [OF inv i]]
  obtain M where M: "version_in W db (K i) (rib_blockOffset ?b) M" using fo [of BlockOffset] by auto
  have shard: "rib_shardId ?b = key_shard db (K i)" using fo [of ShardId] by simp
  have L': "block_at (shards_of db ! unat (rib_shardId ?b)) (unat (rib_blockOffset ?b)) (fst (K i)) L"
      "layout_ok (fst (K i)) (rib_rowId ?b) L" "rib_blockSize ?b = rb_blockSize (rl_header L)"
    using L unfolding row_bucket_at_def by blast+
  have M': "block_at (shards_of db ! unat (rib_shardId ?b)) (unat (rib_blockOffset ?b)) (fst (K i)) M"
      "layout_ok (fst (K i)) (snd (K i)) M"
    using M unfolding shard version_in_def version_at_def by blast+
  have "rl_header L = rl_header M" using block_at_header(2) [OF L'(1,2)] block_at_header(2) [OF M'] by simp
  then have "unat (rib_blockSize ?b) = layout_size (fst (K i)) M" using L'(3) layout_okD(12) [OF M'(2)] by simp
  then show ?thesis using M shard by (simp add: version_in_def)
qed

lemma table_inv_moves:
  assumes inv: "table_inv W db K E" and moves: "world_moves W db db'" and W: "W \<le> W'"
  shows "table_inv W' db' K E"
proof -
  note g = world_moves_grows [OF moves W, of K E]
  have B: "RowBuckets db' = RowBuckets db" "bucket_count db' = bucket_count db" "row_readable db'" "mapped_data (rowIndexMap db') \<noteq> None"
    and keep: "keeps_bytes W (shards_of db) (shards_of db')"
    using moves by (simp_all add: world_moves_def)
  have "path_of db' k = path_of db k" for k by (simp add: path_of_def B)
  moreover have "table_shape db'" using table_invD(2) [OF inv] B by (simp add: table_shape_def)
  moreover have "field_ok W' db' k b f" if "field_ok W db k b f" for k b f by (rule field_ok_grows [OF g that])
  moreover have "row_bucket_at (shards_of db') (RowBuckets db ! i) c L"
    if "row_bucket_at (shards_of db) (RowBuckets db ! i) c L" "i < length (RowBuckets db)" for i c L
  proof (rule row_bucket_keeps [OF that(1) keep filled_range [OF inv that(2)]])
    show "rib_state (RowBuckets db ! i) = kRowBucketFilled" using that(1) by (simp add: row_bucket_at_def)
  qed
  ultimately show ?thesis using inv B(3) unfolding table_inv_def B(1) by (simp only:) blast
qed

lemma race_inv_moves:
  assumes inv: "race_inv W K E s" and moves: "world_moves W (race_db s) db'" and W: "W \<le> W'"
  shows "race_inv W' K E \<lparr>race_db = db', race_threads = race_threads s\<rparr>"
proof -
  let ?s = "\<lparr>race_db = db', race_threads = race_threads s\<rparr>"
  note D = race_invD [OF inv] and g = world_moves_grows [OF moves W, of K E]
  have own: "owner ?s t = owner s t" for t using owned_grows [OF g] by (simp add: owner_def)
  have B: "RowBuckets db' = RowBuckets (race_db s)" using moves by (simp add: world_moves_def)
  have "job_ready db' (fst (race_threads s ! t)) \<and> settled W' (fst (race_threads s ! t)) \<and>
      thread_ok W' db' K E (fst (race_threads s ! t)) (snd (race_threads s ! t))" if t: "t < length (race_threads s)" for t
    using job_ready_grows [OF g D(2) [OF t] D(6) [OF t]] settled_mono [OF D(6) [OF t] W]
      thread_ok_grows [OF D(1) g D(3) [OF t]] by (simp add: B)
  then show ?thesis
    using table_inv_moves [OF D(1) moves W] D(4,5) unfolding race_inv_def own by (auto simp: B)
qed

lemma world_stays: "race_inv W K E s \<Longrightarrow> world_moves W (race_db s) (race_db s)"
  using table_invD(1,2) [OF race_invD(1)] by (auto simp: world_moves_def table_shape_def)

lemma race_inv_arrive:
  assumes inv: "race_inv W K E s" and ready: "job_ready (race_db s) job" and settled: "settled W job"
  shows "race_inv W K E \<lparr>race_db = race_db s,
      race_threads = race_threads s @ [(job, probe_from (bucket_count (race_db s)) 0)]\<rparr>"
    (is "race_inv W K E ?s")
proof -
  note D = race_invD [OF inv]
  have new: "thread_ok W (race_db s) K E job (probe_from (bucket_count (race_db s)) 0)"
      "owned (race_db s) job (probe_from (bucket_count (race_db s)) 0) = None"
    using probe_from_ok [OF table_invD(2) [OF D(1)] passed_0] by simp_all
  have old: "owner ?s t = owner s t" if "t < length (race_threads s)" for t
    using that by (simp add: owner_def nth_append)
  have newest: "owner ?s (length (race_threads s)) = None" using new(2) by (simp add: owner_def)
  have threads: "job_ready (race_db s) (fst (race_threads ?s ! t)) \<and> settled W (fst (race_threads ?s ! t)) \<and>
      thread_ok W (race_db s) K E (fst (race_threads ?s ! t)) (snd (race_threads ?s ! t))"
    if "t < Suc (length (race_threads s))" for t
    using that ready settled new(1) D(2,3,6) [of t] by (cases "t = length (race_threads s)") (simp_all add: nth_append)
  have unique: "u = t" if "t < Suc (length (race_threads s))" "u < Suc (length (race_threads s))"
      "owner ?s t \<noteq> None" "owner ?s u = owner ?s t" for t u
    using that D(4) [of t u] newest by (cases "t = length (race_threads s)"; cases "u = length (race_threads s)") (auto simp: old)
  have "\<exists>t < Suc (length (race_threads s)). owner ?s t = Some i"
    if "i < length (RowBuckets (race_db s))" "rib_state (RowBuckets (race_db s) ! i) = kRowBucketWriting" for i
    using D(5) [OF that] old less_SucI by metis
  then show ?thesis
    unfolding race_inv_def using D(1) threads unique by simp
qed

lemma written_turn: "threads ! t = (job, pc) \<Longrightarrow> written db (threads[t := (job, pc')]) = written db threads"
proof -
  assume "threads ! t = (job, pc)"
  then have "map fst (threads[t := (job, pc')]) = map fst threads"
    by (cases "t < length threads") (simp_all add: map_update list_update_same_conv list_update_beyond)
  then have "fst ` set (threads[t := (job, pc')]) = fst ` set threads" by (metis set_map)
  then show ?thesis by (intro ext) (simp add: written_def)
qed

lemma written_mono: "written db threads \<le> written db (threads @ [(job, pc)])"
  by (auto simp: le_fun_def written_def)

lemma written_settled: "settled (written db (threads @ [(job, pc)])) job"
  by (auto simp: settled_def written_def)

lemma step_race_inv:
  assumes "reads_ok os" and "race_step os db s s'" and inv: "race_inv (written db (race_threads s)) K E s"
  shows "\<exists>K' E'. race_inv (written db (race_threads s')) K' E' s' \<and>
    grows (written db (race_threads s)) (race_db s) K E (written db (race_threads s')) (race_db s') K' E'"
  using assms(2)
proof cases
  case (turn t job pc pc' db')
  then show ?thesis using turn_keeps [OF assms(1) inv turn(2-5)] written_turn [OF turn(3)] by auto
next
  case (arrive job)
  have W: "written db (race_threads s) \<le> written db (race_threads s')" using written_mono arrive(1) by simp
  have still: "world_moves (written db (race_threads s)) (race_db s) (race_db s)" by (rule world_stays [OF inv])
  have "race_inv (written db (race_threads s')) K E s'"
    using race_inv_arrive [OF race_inv_moves [OF inv still W], of job] arrive(2) written_settled arrive(1) by simp
  then show ?thesis using world_moves_grows [OF still W, of K E] arrive(1) by auto
next
  case (world db')
  then show ?thesis using race_inv_moves [OF inv world(2) order_refl] world_moves_grows [OF world(2) order_refl, of K E] by auto
qed

lemma run_race_inv:
  assumes "reads_ok os" and "race_run os db s s'" and "race_inv (written db (race_threads s)) K E s"
  shows "\<exists>K' E'. race_inv (written db (race_threads s')) K' E' s' \<and>
    grows (written db (race_threads s)) (race_db s) K E (written db (race_threads s')) (race_db s') K' E'"
  using assms(2)
proof (induction rule: rtranclp_induct)
  case base
  then show ?case using assms(3) grows_refl by blast
next
  case (step s' s'')
  then show ?case using step_race_inv [OF assms(1) step.hyps(2)] grows_trans by blast
qed

text \<open>The keys of a table at rest.\<close>

definition start_keys :: "Impl \<Rightarrow> nat \<Rightarrow> row_key" where
  "start_keys db i = row_bucket_key (shards_of db) (RowBuckets db ! i)"

lemma start_race_inv:
  assumes "race_start db"
  shows "race_inv (written db []) (start_keys db) {i. used db i} \<lparr>race_db = db, race_threads = []\<rparr>"
proof -
  obtain v where v: "mapped_data (rowIndexMap db) = Some v" and ok: "row_index_ok (shards_of db) v"
      and readable: "row_readable db"
      and place: "\<forall>b \<in> set (RowBuckets db). \<not> vacant_row b \<longrightarrow> rib_shardId b = ShardForRow db (rib_columnHash b) (rib_rowId b)"
    using assms unfolding race_start_def by blast
  have B: "RowBuckets db = ri_buckets v" and H: "RowIndexHeader db = ri_header v"
    using v by (simp_all add: RowBuckets_def RowIndexHeader_def)
  have tab: "rows_table_ok (shards_of db) (ri_buckets v)" using ok by (simp add: row_index_ok_def)
  have at: "\<exists>L. row_bucket_at (shards_of db) (RowBuckets db ! i) (fst (start_keys db i)) L \<and> snd (start_keys db i) = rib_rowId (RowBuckets db ! i)"
    if "used db i" for i
  proof -
    have "row_bucket_ok (shards_of db) (RowBuckets db ! i)" using tab that B by (auto simp: rows_table_ok_def)
    then obtain c L where "row_bucket_at (shards_of db) (RowBuckets db ! i) c L" by (auto simp: row_bucket_ok_def)
    then show ?thesis using row_bucket_atD(1) [of "shards_of db" "RowBuckets db ! i" c L] by (auto simp: start_keys_def)
  qed
  have fld: "field_ok (written db []) db (start_keys db i) (RowBuckets db ! i) f" if i: "used db i" for i f
  proof -
    obtain L where L: "row_bucket_at (shards_of db) (RowBuckets db ! i) (fst (start_keys db i)) L"
        and r: "snd (start_keys db i) = rib_rowId (RowBuckets db ! i)" using at [OF i] by blast
    have "rib_shardId (RowBuckets db ! i) = ShardForRow db (rib_columnHash (RowBuckets db ! i)) (rib_rowId (RowBuckets db ! i))"
      using place i by simp
    then have "rib_shardId (RowBuckets db ! i) = key_shard db (start_keys db i)"
      using L r by (simp add: key_shard_def row_bucket_at_def)
    moreover have "unat (rib_blockSize (RowBuckets db ! i)) = layout_size (fst (start_keys db i)) L"
      using L layout_okD(12) by (auto simp: row_bucket_at_def)
    then have "{unat (rib_blockOffset (RowBuckets db ! i)) ..<
        unat (rib_blockOffset (RowBuckets db ! i)) + unat (rib_blockSize (RowBuckets db ! i))}
      \<subseteq> written db [] (unat (rib_shardId (RowBuckets db ! i)))"
      using L by (auto simp: row_bucket_at_def block_at_def written_def)
    ultimately show ?thesis using field_ok_whole [OF L r [symmetric]] by simp
  qed
  have states: "rib_state (RowBuckets db ! i) \<in> {kRowBucketEmpty, kRowBucketFilled, kRowBucketWriting}"
    if "i < length (RowBuckets db)" for i
    using at [of i] that by (auto simp: row_bucket_at_def)
  have calm: "rib_state (RowBuckets db ! i) \<noteq> kRowBucketWriting" if "i < length (RowBuckets db)" for i
    using at [of i] that by (auto simp: row_bucket_at_def)
  have res: "rib_reserved64 (RowBuckets db ! i) = 0 \<and> rib_reserved65 (RowBuckets db ! i) = 0" if "i < length (RowBuckets db)" for i
    using tab that B by (auto simp: rows_table_ok_def)
  have shape: "table_shape db" using ok v by (auto simp: table_shape_def row_index_ok_def B H)
  have hash: "row_bucket_hash (RowBuckets db ! i) = row_hash (start_keys db i)" if "used db i" for i
    using rows_table_keyed [OF tab] that by (auto simp: keyed_def start_keys_def B)
  have chain: "\<not> vacant_row (RowBuckets db ! j)" if "used db i" "j \<in> probed_before (path_of db (start_keys db i)) i" for i j
    using tab that hash [OF that(1)] by (auto simp: rows_table_ok_def chained_def path_of_def B)
  have inj: "inj_on (start_keys db) {i. used db i}"
    unfolding inj_on_def start_keys_def
    using tab unique_keys_index [of vacant_row "row_bucket_key (shards_of db)" "ri_buckets v"] by (auto simp: rows_table_ok_def B)
  have "table_inv (written db []) db (start_keys db) {i. used db i}"
    unfolding table_inv_def using readable shape states res at chain fld inj by auto
  then show ?thesis using calm by (simp add: race_inv_def)
qed

lemma reachable_inv:
  assumes "reads_ok os" and "race_start db" and "reachable os db s"
  obtains K E where "race_inv (written db (race_threads s)) K E s"
    and "grows (written db []) db (start_keys db) {i. used db i} (written db (race_threads s)) (race_db s) K E"
  using run_race_inv [OF assms(1) assms(3) [unfolded reachable_def], of "start_keys db" "{i. used db i}"] start_race_inv [OF assms(2)] by auto

end
