(* ===== verification/Row_Race_Theorems.thy ===== *)
theory Row_Race_Theorems
  imports Row_Race_Safety
begin

text \<open>
  The correctness of racing row index calls: mutual exclusion on a bucket, what the index holds when
  no bucket is being written, what lookups return, how calls can fail.
\<close>

subsection \<open>What a step does to the threads and to the table\<close>

fun fresh :: "pc \<Rightarrow> bool" where
  "fresh (Storing p fs new) = new"
| "fresh (Inserted new) = new"
| "fresh _ = False"

lemma probe_from_not [simp]:
  "probe_from n p \<noteq> Inserted new" "probe_from n p \<noteq> Found r" "\<not> fresh (probe_from n p)"
  by (simp_all add: probe_from_def)

lemma on_empty_match_not [simp]:
  "on_empty job p i \<noteq> Inserted new" "on_match job p i b h \<noteq> Inserted new" "\<not> fresh (on_empty job p i)" "\<not> fresh (on_match job p i b h)"
  by (cases job; simp add: on_empty_def on_match_def)+

text \<open>
  Only three kinds of steps write: a bucket is taken, a field of an own bucket is stored, an own
  bucket is published.
\<close>

lemma thread_step_effect:
  assumes inv: "table_inv W db K E" and ok: "thread_ok W db K E job pc" and ready: "job_ready db job" and run: "\<not> finished pc"
    and step: "thread_step os job db pc = (pc', db')"
  obtains (still) "db' = db" "\<not> fresh pc'" "\<not> fresh pc" "\<And>new. pc' \<noteq> Inserted new"
  | (take_empty) i where "db' = set_RowBucket i ((RowBuckets db ! i)\<lparr>rib_state := kRowBucketWriting\<rparr>) db"
      "i < length (RowBuckets db)" "vacant_row (RowBuckets db ! i)" "\<not> fresh pc" "fresh pc'" "\<And>new. pc' \<noteq> Inserted new"
  | (change) i b where "db' = set_RowBucket i b db" "i < length (RowBuckets db)" "\<not> vacant_row (RowBuckets db ! i)"
      "rib_state b = kRowBucketWriting" "fresh pc' = fresh pc" "\<And>new. pc' \<noteq> Inserted new"
  | (publish) c d new i where "job = Insert c d" "pc' = Inserted new" "fresh pc = new"
      "db' = set_RowBucket i (data_bucket d) db"
      "i < length (RowBuckets db)" "rib_state (RowBuckets db ! i) = kRowBucketWriting" "K i = job_key job"
proof (cases pc)
  case (Taking p st)
  have p: "p < length (RowBuckets db)" using ok Taking by simp
  note i = spot_less [OF p, of job] and sp = ready_spot [OF inv ready p]
  show ?thesis
  proof (cases "rib_state (RowBuckets db ! spot db job p) = st")
    case True
    have "st = kRowBucketEmpty \<or> st = kRowBucketFilled" using ok Taking by auto
    then show ?thesis
    proof
      assume st: "st = kRowBucketEmpty"
      show ?thesis by (rule take_empty [OF _ i]) (use st Taking True step sp in \<open>auto simp: Let_def\<close>)
    next
      assume st: "st = kRowBucketFilled"
      show ?thesis
        by (rule change [of "spot db job p" "(RowBuckets db ! spot db job p)\<lparr>rib_state := kRowBucketWriting\<rparr>"])
          (use st Taking True step sp i in \<open>auto simp: Let_def\<close>)
    qed
  next
    case False
    show ?thesis by (rule still) (use False Taking step sp in \<open>auto simp: Let_def\<close>)
  qed
next
  case (Storing p fs new)
  have p: "p < length (RowBuckets db)" using ok Storing by simp
  note i = spot_less [OF p, of job] and sp = ready_spot [OF inv ready p]
  obtain c d where job: "job = Insert c d" using ok Storing by (cases job) auto
  have w: "rib_state (RowBuckets db ! spot db job p) = kRowBucketWriting" and k: "K (spot db job p) = job_key job"
    using ok Storing by auto
  show ?thesis
  proof (cases fs)
    case Nil
    have "(RowBuckets db ! spot db job p)\<lparr>rib_state := kRowBucketFilled\<rparr> = data_bucket d"
      by (rule fields_eqI) (use ok Storing Nil job table_invD(4,5) [OF inv i] in auto)
    then show ?thesis using publish [OF job _ _ _ i w k] step Storing Nil sp by (auto simp: Let_def)
  next
    case (Cons f gs)
    show ?thesis
      by (rule change [of "spot db job p" "copy_field f (data_bucket d) (RowBuckets db ! spot db job p)"])
        (use Storing Cons job step sp i w in \<open>auto simp: Let_def\<close>)
  qed
next
  case (Probing p)
  show ?thesis by (rule still) (use Probing step in \<open>auto simp: Let_def split: if_splits\<close>)
next
  case (Loading p fs b)
  show ?thesis by (cases fs; rule still) (use Loading step in \<open>auto simp: Let_def split: if_splits\<close>)
next
  case (Comparing p b)
  show ?thesis by (rule still) (use Comparing step in \<open>auto simp: Let_def split: if_splits sum.splits option.splits\<close>)
qed (use run in simp_all)

subsection \<open>Where the contents of the table come from\<close>

definition inserted_jobs :: "race \<Rightarrow> job set" where
  "inserted_jobs s = {job. \<exists>new. (job, Inserted new) \<in> set (race_threads s)}"

definition fresh_count :: "race \<Rightarrow> nat" where
  "fresh_count s = length (filter (\<lambda>x. fresh (snd x)) (race_threads s))"

definition traced :: "Impl \<Rightarrow> (nat \<Rightarrow> row_key) \<Rightarrow> race \<Rightarrow> bool" where
  "traced db0 K s \<longleftrightarrow>
     (\<forall>job \<in> inserted_jobs s. \<exists>i. used (race_db s) i \<and> K i = job_key job) \<and>
     (\<forall>i < length (RowBuckets (race_db s)). rib_state (RowBuckets (race_db s) ! i) = kRowBucketFilled \<longrightarrow>
        (\<exists>c d. Insert c d \<in> inserted_jobs s \<and> K i = job_key (Insert c d) \<and> RowBuckets (race_db s) ! i = data_bucket d) \<or>
        used db0 i \<and> RowBuckets (race_db s) ! i = RowBuckets db0 ! i \<and>
          (\<forall>job \<in> inserted_jobs s. job_key job \<noteq> K i)) \<and>
     length (occupied vacant_row (RowBuckets (race_db s))) =
       length (occupied vacant_row (RowBuckets db0)) + fresh_count s"

lemma update_set_other: "t < length xs \<Longrightarrow> y \<noteq> xs ! t \<Longrightarrow> y \<in> set (xs[t := x]) \<longleftrightarrow> y \<in> set xs \<or> y = x"
  by (auto simp: in_set_conv_nth nth_list_update)

lemma inserted_jobs_turn:
  assumes "t < length (race_threads s)" and "race_threads s ! t = (job, pc)" and "\<not> finished pc"
  shows "inserted_jobs \<lparr>race_db = db', race_threads = (race_threads s)[t := (job, pc')]\<rparr> =
    inserted_jobs s \<union> (if \<exists>new. pc' = Inserted new then {job} else {})"
proof -
  have "(j, Inserted new) \<in> set ((race_threads s)[t := (job, pc')]) \<longleftrightarrow>
      (j, Inserted new) \<in> set (race_threads s) \<or> j = job \<and> pc' = Inserted new" for j new
  proof -
    have "(j, Inserted new) \<noteq> race_threads s ! t" using assms(2,3) by auto
    from update_set_other [OF assms(1) this, of "(job, pc')"] show ?thesis by auto
  qed
  then show ?thesis by (auto simp: inserted_jobs_def)
qed

lemma fresh_count_turn:
  assumes "t < length (race_threads s)" and "race_threads s ! t = (job, pc)"
  shows "fresh_count \<lparr>race_db = db', race_threads = (race_threads s)[t := (job, pc')]\<rparr> + (if fresh pc then 1 else 0) =
    fresh_count s + (if fresh pc' then 1 else 0)"
  using length_filter_update [OF assms(1), of "\<lambda>x. fresh (snd x)" "(job, pc')"] assms(2) by (simp add: fresh_count_def)

lemma turn_traced:
  assumes inv: "race_inv W K E s" and t: "t < length (race_threads s)" and th: "race_threads s ! t = (job, pc)"
    and run: "\<not> finished pc" and step: "thread_step os job (race_db s) pc = (pc', db')"
    and g: "grows W (race_db s) K E W db' K' E'" and tr: "traced db0 K s"
    and inv': "race_inv W K' E' \<lparr>race_db = db', race_threads = (race_threads s)[t := (job, pc')]\<rparr>"
  shows "traced db0 K' \<lparr>race_db = db', race_threads = (race_threads s)[t := (job, pc')]\<rparr>"
    (is "traced db0 K' ?s")
proof -
  let ?db = "race_db s"
  note D = race_invD [OF inv] and ij = inserted_jobs_turn [OF t th run] and fc = fresh_count_turn [OF t th, of db' pc']
  have ready: "job_ready ?db job" and ok: "thread_ok W ?db K E job pc" using D(2,3) [OF t] th by simp_all
  have keep: "used db' i \<and> K' i = K i" if "used ?db i" for i using g that by (simp add: grows_def)
  have tr1: "\<exists>i. used ?db i \<and> K i = job_key j" if "j \<in> inserted_jobs s" for j using tr that by (simp add: traced_def)
  have tr1': "\<exists>i. used db' i \<and> K' i = job_key j" if "j \<in> inserted_jobs s" for j using tr1 [OF that] keep by metis
  have tr2: "(\<exists>c d. Insert c d \<in> inserted_jobs s \<and> K i = job_key (Insert c d) \<and> RowBuckets ?db ! i = data_bucket d) \<or>
        used db0 i \<and> RowBuckets ?db ! i = RowBuckets db0 ! i \<and> (\<forall>job \<in> inserted_jobs s. job_key job \<noteq> K i)"
    if "i < length (RowBuckets ?db)" "rib_state (RowBuckets ?db ! i) = kRowBucketFilled" for i
    using tr that by (simp add: traced_def)
  have tr3: "length (occupied vacant_row (RowBuckets ?db)) = length (occupied vacant_row (RowBuckets db0)) + fresh_count s"
    using tr by (simp add: traced_def)
  note S = set_RowBucket_shape [OF table_invD(2) [OF D(1)]]
  note len = occupied_update_vacant [of _ "RowBuckets ?db" vacant_row] occupied_update_taken [of _ "RowBuckets ?db" vacant_row]
  have old: "(\<exists>c d. Insert c d \<in> inserted_jobs s \<and> K' i = job_key (Insert c d) \<and> RowBuckets db' ! i = data_bucket d) \<or>
        used db0 i \<and> RowBuckets db' ! i = RowBuckets db0 ! i \<and> (\<forall>job \<in> inserted_jobs s. job_key job \<noteq> K' i)"
    if "i < length (RowBuckets ?db)" "rib_state (RowBuckets db' ! i) = kRowBucketFilled" "RowBuckets db' ! i = RowBuckets ?db ! i" for i
    using tr2 [OF that(1)] that keep [of i] by auto
  have lenB: "length (RowBuckets db') = length (RowBuckets ?db)" using g by (simp add: grows_def)
  have tracedI: "traced db0 K' ?s"
    if "\<And>job. job \<in> inserted_jobs ?s \<Longrightarrow> \<exists>i. used db' i \<and> K' i = job_key job"
      and "\<And>j. j < length (RowBuckets ?db) \<Longrightarrow> rib_state (RowBuckets db' ! j) = kRowBucketFilled \<Longrightarrow>
        (\<exists>c d. Insert c d \<in> inserted_jobs ?s \<and> K' j = job_key (Insert c d) \<and> RowBuckets db' ! j = data_bucket d) \<or>
        used db0 j \<and> RowBuckets db' ! j = RowBuckets db0 ! j \<and> (\<forall>job \<in> inserted_jobs ?s. job_key job \<noteq> K' j)"
      and "length (occupied vacant_row (RowBuckets db')) = length (occupied vacant_row (RowBuckets db0)) + fresh_count ?s"
    unfolding traced_def race.simps lenB by (intro conjI ballI allI impI) (use that lenB in auto)
  have unpublished: "traced db0 K' ?s"
    if "\<And>new. pc' \<noteq> Inserted new"
      and "\<And>j. j < length (RowBuckets ?db) \<Longrightarrow> rib_state (RowBuckets db' ! j) = kRowBucketFilled \<Longrightarrow>
        RowBuckets db' ! j = RowBuckets ?db ! j"
      and "length (occupied vacant_row (RowBuckets db')) + (if fresh pc then 1 else 0) =
        length (occupied vacant_row (RowBuckets ?db)) + (if fresh pc' then 1 else 0)"
  proof (rule tracedI)
    note hyps = that
    have same: "inserted_jobs ?s = inserted_jobs s" using ij hyps(1) by simp
    show "\<exists>i. used db' i \<and> K' i = job_key job" if "job \<in> inserted_jobs ?s" for job using tr1' that unfolding same by blast
    show "(\<exists>c d. Insert c d \<in> inserted_jobs ?s \<and> K' j = job_key (Insert c d) \<and> RowBuckets db' ! j = data_bucket d) \<or>
        used db0 j \<and> RowBuckets db' ! j = RowBuckets db0 ! j \<and> (\<forall>job \<in> inserted_jobs ?s. job_key job \<noteq> K' j)"
      if j: "j < length (RowBuckets ?db)" "rib_state (RowBuckets db' ! j) = kRowBucketFilled" for j
      using old [OF j hyps(2) [OF j]] unfolding same .
    show "length (occupied vacant_row (RowBuckets db')) = length (occupied vacant_row (RowBuckets db0)) + fresh_count ?s"
      using hyps(3) tr3 fc by linarith
  qed
  show ?thesis
  proof (cases rule: thread_step_effect [OF D(1) ok ready run step, case_names still take_empty change publish])
    case still
    show ?thesis by (rule unpublished) (use still in simp_all)
  next
    case (take_empty i)
    have "RowBuckets db' ! j = RowBuckets ?db ! j" if "rib_state (RowBuckets db' ! j) = kRowBucketFilled" "j < length (RowBuckets ?db)" for j
      using that take_empty(1,2) by (cases "j = i") (simp_all add: S)
    moreover have "length (occupied vacant_row (RowBuckets db')) = Suc (length (occupied vacant_row (RowBuckets ?db)))"
      using len(1) [of i] take_empty(1-3) by (simp add: S)
    ultimately show ?thesis by (intro unpublished) (use take_empty(4-6) in simp_all)
  next
    case (change i b)
    have "RowBuckets db' ! j = RowBuckets ?db ! j" if "rib_state (RowBuckets db' ! j) = kRowBucketFilled" "j < length (RowBuckets ?db)" for j
      using that change(1,2,4) by (cases "j = i") (simp_all add: S)
    moreover have "length (occupied vacant_row (RowBuckets db')) = length (occupied vacant_row (RowBuckets ?db))"
      using len(2) [of i b] change(1-4) by (simp add: S)
    ultimately show ?thesis by (intro unpublished) (use change(5,6) in simp_all)
  next
    case (publish c d new i)
    have ui: "used ?db i" using publish by auto
    have b: "RowBuckets db' ! i = data_bucket d" using publish by (simp add: S)
    have occ: "length (occupied vacant_row (RowBuckets db')) = length (occupied vacant_row (RowBuckets ?db))"
      using len(2) [of i "data_bucket d"] publish by (simp add: S)
    have ijs: "inserted_jobs ?s = insert job (inserted_jobs s)" using ij publish by auto
    have other: "K' j \<noteq> job_key job" if "used ?db j" "j \<noteq> i" for j
      using table_invD(11) [OF D(1) that(1) ui] that publish keep [OF that(1)] by auto
    show ?thesis
    proof (rule tracedI)
      show "\<exists>i. used db' i \<and> K' i = job_key j" if "j \<in> inserted_jobs ?s" for j
        using that tr1' keep [OF ui] publish(7) unfolding ijs by auto
      show "length (occupied vacant_row (RowBuckets db')) = length (occupied vacant_row (RowBuckets db0)) + fresh_count ?s"
        using tr3 fc occ publish(2,3) by simp
      fix j assume j: "j < length (RowBuckets ?db)" "rib_state (RowBuckets db' ! j) = kRowBucketFilled"
      show "(\<exists>c d. Insert c d \<in> inserted_jobs ?s \<and> K' j = job_key (Insert c d) \<and> RowBuckets db' ! j = data_bucket d) \<or>
        used db0 j \<and> RowBuckets db' ! j = RowBuckets db0 ! j \<and> (\<forall>job \<in> inserted_jobs ?s. job_key job \<noteq> K' j)"
      proof (cases "j = i")
        case True
        then show ?thesis using publish(1,7) b keep [OF ui] ijs by auto
      next
        case False
        then have same: "RowBuckets db' ! j = RowBuckets ?db ! j" using publish(4) by (simp add: S)
        then have "used ?db j" using j by auto
        then show ?thesis using old [OF j same] other [OF _ False] unfolding ijs by auto
      qed
    qed
  qed
qed

lemma moves_traced:
  assumes B: "RowBuckets db' = RowBuckets (race_db s)" and "traced db0 K s"
  shows "traced db0 K \<lparr>race_db = db', race_threads = race_threads s\<rparr>"
proof -
  have "inserted_jobs \<lparr>race_db = db', race_threads = race_threads s\<rparr> = inserted_jobs s"
    "fresh_count \<lparr>race_db = db', race_threads = race_threads s\<rparr> = fresh_count s"
    by (simp_all add: inserted_jobs_def fresh_count_def)
  then show ?thesis using assms(2) by (simp add: traced_def B)
qed

lemma arrive_traced:
  assumes "traced db0 K s"
  shows "traced db0 K \<lparr>race_db = race_db s, race_threads = race_threads s @ [(job, probe_from n 0)]\<rparr>"
proof -
  have "inserted_jobs \<lparr>race_db = race_db s, race_threads = race_threads s @ [(job, probe_from n 0)]\<rparr> = inserted_jobs s"
    by (simp add: inserted_jobs_def) (metis probe_from_not(1))
  moreover have "fresh_count \<lparr>race_db = race_db s, race_threads = race_threads s @ [(job, probe_from n 0)]\<rparr> = fresh_count s"
    by (simp add: fresh_count_def)
  ultimately show ?thesis using assms by (simp add: traced_def)
qed

lemma run_traced:
  assumes os: "reads_ok os" and "race_run os db s s'" and "race_inv (written db (race_threads s)) K E s" and "traced db0 K s"
  shows "\<exists>K' E'. race_inv (written db (race_threads s')) K' E' s' \<and>
    grows (written db (race_threads s)) (race_db s) K E (written db (race_threads s')) (race_db s') K' E' \<and> traced db0 K' s'"
  using assms(2)
proof (induction rule: rtranclp_induct)
  case base
  then show ?case using assms(3,4) grows_refl by blast
next
  case (step s' s'')
  then obtain K' E' where I: "race_inv (written db (race_threads s')) K' E' s'"
    "grows (written db (race_threads s)) (race_db s) K E (written db (race_threads s')) (race_db s') K' E'" "traced db0 K' s'" by blast
  from step.hyps(2) show ?case
  proof cases
    case (turn t job pc pc' db')
    obtain K'' E'' where J: "race_inv (written db (race_threads s')) K'' E'' s''"
        "grows (written db (race_threads s')) (race_db s') K' E' (written db (race_threads s')) db' K'' E''"
      using turn_keeps [OF os I(1) turn(2-5)] turn(1) by blast
    have W: "written db (race_threads s'') = written db (race_threads s')" using written_turn [OF turn(3)] turn(1) by simp
    have "traced db0 K'' s''" using turn_traced [OF I(1) turn(2-5) J(2) I(3)] J(1) turn(1) by simp
    then show ?thesis using J grows_trans [OF I(2) J(2)] turn(1) unfolding W by auto
  next
    case (arrive job)
    let ?W = "written db (race_threads s')" and ?W' = "written db (race_threads s'')"
    have W: "?W \<le> ?W'" using written_mono arrive(1) by simp
    have still: "world_moves ?W (race_db s') (race_db s')" by (rule world_stays [OF I(1)])
    have "race_inv ?W' K' E' s''"
      using race_inv_arrive [OF race_inv_moves [OF I(1) still W], of job] arrive(2) written_settled arrive(1) by simp
    moreover have "traced db0 K' s''" using arrive_traced [OF I(3), of job] arrive(1) by simp
    ultimately show ?thesis
      using grows_trans [OF I(2) world_moves_grows [OF still W]] arrive(1) by auto
  next
    case (world db')
    have "traced db0 K' s''" using moves_traced [OF _ I(3), of db'] world by (simp add: world_moves_def)
    then show ?thesis
      using race_inv_moves [OF I(1) world(2) order_refl] grows_trans [OF I(2) world_moves_grows [OF world(2) order_refl]] world(1) by auto
  qed
qed

lemma start_traced:
  assumes "race_start db"
  shows "traced db (start_keys db) \<lparr>race_db = db, race_threads = []\<rparr>"
proof -
  have "used db i" if "i < length (RowBuckets db)" "rib_state (RowBuckets db ! i) = kRowBucketFilled" for i
    using that by auto
  then show ?thesis by (simp add: traced_def inserted_jobs_def fresh_count_def)
qed

text \<open>Everything known of a reachable race.\<close>

lemma reachable_traced:
  assumes "reads_ok os" and "race_start db" and "reachable os db s"
  obtains K E where "race_inv (written db (race_threads s)) K E s"
    and "grows (written db []) db (start_keys db) {i. used db i} (written db (race_threads s)) (race_db s) K E" and "traced db K s"
  using run_traced [OF assms(1) assms(3) [unfolded reachable_def], of "start_keys db" "{i. used db i}" db]
    start_race_inv [OF assms(2)] start_traced [OF assms(2)] by auto

subsection \<open>The table between the writes\<close>

lemma bucket_whole:
  assumes inv: "table_inv W db K E" and i: "i < length (RowBuckets db)" "rib_state (RowBuckets db ! i) = kRowBucketFilled"
  obtains L where "row_bucket_at (shards_of db) (RowBuckets db ! i) (fst (K i)) L" and "row_bucket_key (shards_of db) (RowBuckets db ! i) = K i"
    and "row_bucket_hash (RowBuckets db ! i) = row_hash (K i)"
proof -
  obtain L where L: "row_bucket_at (shards_of db) (RowBuckets db ! i) (fst (K i)) L" using table_invD(7) [OF inv i] by blast
  have "rib_rowId (RowBuckets db ! i) = snd (K i)"
    using table_invD(10) [OF inv table_invD(6) [OF inv i], of RowId] by simp
  then show ?thesis using that [OF L] row_bucket_atD(1,3) [OF L] by simp
qed

lemma quiet_table:
  assumes inv: "race_inv W K E s" and quiet: "\<forall>t < length (race_threads s). owner s t = None"
  shows "rows_table_ok (shards_of (race_db s)) (RowBuckets (race_db s))"
    and "\<And>i. used (race_db s) i \<Longrightarrow> rib_state (RowBuckets (race_db s) ! i) = kRowBucketFilled"
proof -
  let ?db = "race_db s" and ?bs = "RowBuckets (race_db s)"
  note D = race_invD [OF inv] and T = table_invD [OF D(1)]
  show filled: "rib_state (?bs ! i) = kRowBucketFilled" if "used ?db i" for i
    using T(3) [of i] D(5) [of i] that quiet by auto
  have whole: "row_bucket_ok (shards_of ?db) (?bs ! i) \<and> row_bucket_key (shards_of ?db) (?bs ! i) = K i \<and>
      row_bucket_hash (?bs ! i) = row_hash (K i)" if "used ?db i" for i
    using bucket_whole [OF D(1) conjunct1 [OF that] filled [OF that]] row_bucket_ok_def by metis
  have res: "\<forall>b \<in> set ?bs. rib_reserved64 b = 0 \<and> rib_reserved65 b = 0" using T(4,5) by (auto simp: in_set_conv_nth)
  have ok: "\<forall>b \<in> set ?bs. \<not> vacant_row b \<longrightarrow> row_bucket_ok (shards_of ?db) b" using whole by (auto simp: in_set_conv_nth)
  have ch: "chained vacant_row row_bucket_hash ?bs"
    unfolding chained_def using whole T(8) by (simp add: path_of_def)
  have un: "unique_keys vacant_row (row_bucket_key (shards_of ?db)) ?bs"
    by (rule unique_keysI) (use whole T(11) in auto)
  show "rows_table_ok (shards_of ?db) ?bs" using ok res ch un by (simp add: rows_table_ok_def)
qed

lemma quiet_fresh_count:
  assumes "\<forall>t < length (race_threads s). owner s t = None"
  shows "fresh_count s = length (filter (\<lambda>x. snd x = Inserted True) (race_threads s))"
proof -
  have "fresh (snd x) = (snd x = Inserted True)" if "x \<in> set (race_threads s)" for x
  proof -
    obtain t where "t < length (race_threads s)" "race_threads s ! t = x" using \<open>x \<in> _\<close> by (auto simp: in_set_conv_nth)
    then have "owned (race_db s) (fst x) (snd x) = None" using assms by (auto simp: owner_def)
    then show ?thesis by (cases "snd x") auto
  qed
  then have "filter (\<lambda>x. fresh (snd x)) (race_threads s) = filter (\<lambda>x. snd x = Inserted True) (race_threads s)"
    by (rule filter_cong [OF refl])
  then show ?thesis by (simp add: fresh_count_def)
qed

lemma quiet_rows:
  assumes inv: "race_inv W K E s" and quiet: "\<forall>t < length (race_threads s). owner s t = None"
  shows "rows (race_db s) k = Some r \<longleftrightarrow>
    (\<exists>i. used (race_db s) i \<and> K i = k \<and> row_bucket_row (shards_of (race_db s)) (RowBuckets (race_db s) ! i) = r)"
proof -
  let ?db = "race_db s"
  note Q = quiet_table [OF inv quiet] and D = race_invD(1) [OF inv]
  have key: "row_bucket_key (shards_of ?db) (RowBuckets ?db ! i) = K i" if "used ?db i" for i
    by (rule bucket_whole [OF D conjunct1 [OF that] Q(2) [OF that]]) blast
  have un: "unique_keys vacant_row (row_bucket_key (shards_of ?db)) (RowBuckets ?db)" using Q(1) by (simp add: rows_table_ok_def)
  show ?thesis
    unfolding rows_def rows_map_def table_map_Some [OF un] Bex_def in_occupied_nth using key by metis
qed

lemma start_quiet: "\<forall>t < length (race_threads \<lparr>race_db = db, race_threads = []\<rparr>). owner \<lparr>race_db = db, race_threads = []\<rparr> t = None"
  by simp

subsection \<open>The properties of racing calls\<close>

text \<open>C26. A bucket of the row index is written by one call at a time: in every state the threads can reach,
  a bucket is in the state "writing" exactly while one, and only one, of the inserting threads owns
  it, and every bucket in the state "filled" holds a complete version of one row, never a mixture
  of two.\<close>

theorem writers_exclude_each_other:
  assumes "reads_ok os" and "race_start db" and "reachable os db s" and "i < length (RowBuckets (race_db s))"
  shows "(rib_state (RowBuckets (race_db s) ! i) = kRowBucketWriting \<longleftrightarrow>
      (\<exists>!t. t < length (race_threads s) \<and> owner s t = Some i)) \<and>
    (\<forall>t < length (race_threads s). \<forall>u < length (race_threads s). owner s t = Some i \<longrightarrow> owner s u = Some i \<longrightarrow> t = u) \<and>
    (rib_state (RowBuckets (race_db s) ! i) = kRowBucketFilled \<longrightarrow>
      row_bucket_ok (shards_of (race_db s)) (RowBuckets (race_db s) ! i))"
proof -
  obtain K E where inv: "race_inv (written db (race_threads s)) K E s" by (rule reachable_inv [OF assms(1-3)])
  note D = race_invD [OF inv]
  have "rib_state (RowBuckets (race_db s) ! i) = kRowBucketWriting" if "t < length (race_threads s)" "owner s t = Some i" for t
    using owned_writing [OF D(3) [OF that(1)]] that(2) by (simp add: owner_def)
  moreover have "row_bucket_ok (shards_of (race_db s)) (RowBuckets (race_db s) ! i)"
    if "rib_state (RowBuckets (race_db s) ! i) = kRowBucketFilled"
    using table_invD(7) [OF D(1) assms(4) that] by (auto simp: row_bucket_ok_def)
  ultimately show ?thesis using D(4,5) assms(4) by blast
qed

lemma quiet_race:
  assumes "reads_ok os" and "race_start db" and "reachable os db s"
    and "\<forall>t < length (race_threads s). owner s t = None"
  shows "rows_table_ok (shards_of (race_db s)) (RowBuckets (race_db s)) \<and>
    (\<forall>k. if k \<in> job_key ` inserted_jobs s
         then \<exists>c d. Insert c d \<in> inserted_jobs s \<and> job_key (Insert c d) = k \<and>
           rows (race_db s) k =
             Some (row_bucket_row (shards_of (race_db s)) (data_bucket d))
         else rows (race_db s) k = rows db k) \<and>
    length (occupied vacant_row (RowBuckets (race_db s))) =
      length (occupied vacant_row (RowBuckets db)) + length (filter (\<lambda>x. snd x = Inserted True) (race_threads s))"
proof (intro conjI allI)
  obtain K E where inv: "race_inv (written db (race_threads s)) K E s"
      and g: "grows (written db []) db (start_keys db) {i. used db i} (written db (race_threads s)) (race_db s) K E"
      and tr: "traced db K s" by (rule reachable_traced [OF assms(1-3)])
  let ?db = "race_db s"
  note Q = quiet_table [OF inv assms(4)] and R = quiet_rows [OF inv assms(4)]
    and R0 = quiet_rows [OF start_race_inv [OF assms(2)] start_quiet, simplified]
  have keep: "used ?db i \<and> K i = start_keys db i" if "used db i" for i using g that by (simp add: grows_def)
  have ext: "keeps_bytes (written db []) (shards_of db) (shards_of ?db)" using g by (simp add: grows_def)
  note start = start_race_inv [OF assms(2)]
  have origin: "(\<exists>c d. Insert c d \<in> inserted_jobs s \<and> K i = job_key (Insert c d) \<and> RowBuckets ?db ! i = data_bucket d) \<or>
      used db i \<and> RowBuckets ?db ! i = RowBuckets db ! i \<and> K i \<notin> job_key ` inserted_jobs s" if "used ?db i" for i
  proof -
    have "(\<exists>c d. Insert c d \<in> inserted_jobs s \<and> K i = job_key (Insert c d) \<and> RowBuckets ?db ! i = data_bucket d) \<or>
        used db i \<and> RowBuckets ?db ! i = RowBuckets db ! i \<and> (\<forall>job \<in> inserted_jobs s. job_key job \<noteq> K i)"
      using tr Q(2) [OF that] conjunct1 [OF that] unfolding traced_def by blast
    then show ?thesis by (auto simp: image_iff)
  qed
  show "rows_table_ok (shards_of ?db) (RowBuckets ?db)" by (rule Q(1))
  show "length (occupied vacant_row (RowBuckets ?db)) =
      length (occupied vacant_row (RowBuckets db)) + length (filter (\<lambda>x. snd x = Inserted True) (race_threads s))"
    using tr quiet_fresh_count [OF assms(4)] by (simp add: traced_def)
  fix k
  show "if k \<in> job_key ` inserted_jobs s
     then \<exists>c d. Insert c d \<in> inserted_jobs s \<and> job_key (Insert c d) = k \<and>
       rows ?db k = Some (row_bucket_row (shards_of ?db) (data_bucket d))
     else rows ?db k = rows db k"
  proof (cases "k \<in> job_key ` inserted_jobs s")
    case True
    then obtain i where i: "used ?db i" "K i = k" using tr unfolding traced_def by blast
    then show ?thesis using origin [OF i(1)] True R [of k] by fastforce
  next
    case False
    have row: "row_bucket_row (shards_of ?db) (RowBuckets db ! i) = row_bucket_row (shards_of db) (RowBuckets db ! i)" if "used db i" for i
    proof -
      have i: "i < length (RowBuckets db)" and filled: "rib_state (RowBuckets db ! i) = kRowBucketFilled"
        using quiet_table(2) [OF start start_quiet] that by simp_all
      note tab = race_invD(1) [OF start, simplified]
      obtain L where at: "row_bucket_at (shards_of db) (RowBuckets db ! i) (fst (start_keys db i)) L"
        by (rule bucket_whole [OF tab i filled])
      show ?thesis
        using row_bucket_atD(2) [OF at] row_bucket_atD(2) [OF row_bucket_keeps [OF at ext filled_range [OF tab i filled]]]
        by simp
    qed
    have "rows ?db k = Some r \<longleftrightarrow> rows db k = Some r" for r
    proof
      assume "rows ?db k = Some r"
      then obtain i where i: "used ?db i" "K i = k" "row_bucket_row (shards_of ?db) (RowBuckets ?db ! i) = r" using R by blast
      then have "used db i" "RowBuckets ?db ! i = RowBuckets db ! i" using origin [OF i(1)] False by auto
      then show "rows db k = Some r" using R0 keep row i by metis
    next
      assume "rows db k = Some r"
      then obtain i where i: "used db i" "start_keys db i = k" "row_bucket_row (shards_of db) (RowBuckets db ! i) = r" using R0 by blast
      then have u: "used ?db i" "K i = k" using keep by auto
      then have "RowBuckets ?db ! i = RowBuckets db ! i" using origin [OF u(1)] False by auto
      then show "rows ?db k = Some r" using R u row i by metis
    qed
    then show ?thesis using False by (metis option.exhaust)
  qed
qed

text \<open>C25. Whatever the interleaving, racing insertions leave a row index in order that stands for the right
  map: when no bucket is being written, a row that calls inserted successfully has the contents one
  of these calls wrote, every other row has the contents it had at the start, no row has two buckets, and the
  table has grown by exactly as many buckets as calls reported a new one, which is what
  \<open>WriteRowStructs\<close> adds to the item count.\<close>

theorem racing_writes_refine_rows:
  assumes "reads_ok os" and "race_start db" and "reachable os db s"
    and "\<forall>t < length (race_threads s). owner s t = None"
  shows "rows_table_ok (shards_of (race_db s)) (RowBuckets (race_db s)) \<and>
    (\<forall>k. if k \<in> job_key ` inserted_jobs s
         then \<exists>c d. Insert c d \<in> inserted_jobs s \<and> job_key (Insert c d) = k \<and>
           rows (race_db s) k =
             Some (row_bucket_row (shards_of (race_db s)) (data_bucket d))
         else rows (race_db s) k = rows db k) \<and>
    length (occupied vacant_row (RowBuckets (race_db s))) =
      length (occupied vacant_row (RowBuckets db)) + length (filter (\<lambda>x. snd x = Inserted True) (race_threads s))"
  by (rule quiet_race [OF assms])

lemma lookup_step_hit:
  assumes inv: "table_inv W db K E" and ok: "thread_ok W db K E (Find c r h) pc" and ready: "job_ready db (Find c r h)"
    and run: "\<not> finished pc" and step: "thread_step os (Find c r h) db pc = (Found lookup, db')"
    and present: "used db i" "K i = (c, r)"
  shows "rlk_found lookup"
proof (cases pc)
  case (Probing p)
  have p: "p < length (RowBuckets db)" "passed db K (Find c r h) p" using ok Probing by simp_all
  have "used db (spot db (Find c r h) p)"
    by (rule passed_chain(2) [OF inv p present(1)]) (simp add: present(2) job_key_def)
  then show ?thesis using step Probing ready_spot [OF inv ready p(1)] by (auto simp: Let_def split: if_splits)
next
  case (Loading p fs b)
  then show ?thesis using step by (cases fs) (auto simp: Let_def split: if_splits)
next
  case (Comparing p b)
  then show ?thesis using step
    by (auto simp: Let_def on_match_def split: if_splits sum.splits option.splits)
next
  case (Storing p fs new)
  then show ?thesis using ok by simp
next
  case (Taking p st)
  then show ?thesis using ok by simp
qed (use run in simp_all)

text \<open>C28. A lookup never misses a row: when a complete version of the row is in the index at some time during the
  lookup, then however many threads write meanwhile, the lookup does not report the row absent.\<close>

theorem lookup_never_misses:
  assumes "reads_ok os" and "race_start db" and "reachable os db s"
    and "b \<in> set (RowBuckets (race_db s))" and "rib_state b = kRowBucketFilled"
    and "row_bucket_key (shards_of (race_db s)) b = (column, rowId)"
    and "t < length (race_threads s)" and "race_threads s ! t = (Find column rowId columnHash, pc)" and "\<not> finished pc"
    and "race_run os db s s'" and "race_threads s' ! t = (Find column rowId columnHash, Found lookup)"
  shows "rlk_found lookup"
proof -
  obtain K E where inv: "race_inv (written db (race_threads s)) K E s" by (rule reachable_inv [OF assms(1-3)])
  obtain i where i: "i < length (RowBuckets (race_db s))" "RowBuckets (race_db s) ! i = b"
    using assms(4) by (auto simp: in_set_conv_nth)
  have present: "used (race_db s) i \<and> K i = (column, rowId)"
    by (rule bucket_whole [OF race_invD(1) [OF inv] i(1)]) (use assms(5,6) i in auto)
  have "\<exists>K' E' pc'. race_inv (written db (race_threads s')) K' E' s' \<and> used (race_db s') i \<and> K' i = (column, rowId) \<and> t < length (race_threads s') \<and>
      race_threads s' ! t = (Find column rowId columnHash, pc') \<and> (\<forall>lookup. pc' = Found lookup \<longrightarrow> rlk_found lookup)"
    using assms(10)
  proof (induction rule: rtranclp_induct)
    case base
    then show ?case using inv present assms(7-9) by fastforce
  next
    case (step s' s'')
    then obtain K' E' pc' where I: "race_inv (written db (race_threads s')) K' E' s'" "used (race_db s') i" "K' i = (column, rowId)" "t < length (race_threads s')"
      "race_threads s' ! t = (Find column rowId columnHash, pc')" "\<forall>lookup. pc' = Found lookup \<longrightarrow> rlk_found lookup" by blast
    obtain K'' E'' where J: "race_inv (written db (race_threads s'')) K'' E'' s''"
        "grows (written db (race_threads s')) (race_db s') K' E' (written db (race_threads s'')) (race_db s'') K'' E''"
      using step_race_inv [OF assms(1) step.hyps(2) I(1)] by blast
    have still: "used (race_db s'') i \<and> K'' i = (column, rowId)" using J(2) I(2,3) by (simp add: grows_def)
    have "t < length (race_threads s'') \<and> (\<exists>pc''. race_threads s'' ! t = (Find column rowId columnHash, pc'') \<and>
        (\<forall>lookup. pc'' = Found lookup \<longrightarrow> rlk_found lookup))"
      using step.hyps(2)
    proof cases
      case (turn u job pc pc'' db')
      show ?thesis
      proof (cases "u = t")
        case True
        then have job: "job = Find column rowId columnHash" using turn(3) I(5) by simp
        have "thread_ok (written db (race_threads s')) (race_db s') K' E' job pc" "job_ready (race_db s') job"
          using race_invD(2,3) [OF I(1) turn(2)] turn(3) by simp_all
        then have "rlk_found lookup" if "pc'' = Found lookup" for lookup
          using lookup_step_hit [OF race_invD(1) [OF I(1)] _ _ turn(4) _ I(2,3)] turn(5) that job by blast
        then show ?thesis using turn(1) True I(4) job by simp
      next
        case False
        then show ?thesis using turn(1) I(4-6) by simp
      qed
    next
      case (arrive job)
      then show ?thesis using I(4-6) by (simp add: nth_append)
    next
      case (world db')
      then show ?thesis using I(4-6) by simp
    qed
    then show ?case using J(1) still by blast
  qed
  then show ?thesis using assms(11) by auto
qed

text \<open>C29. A lookup that finds its row has found one version of it, whole: although the fields of the bucket are
  loaded one by one while other threads may overwrite them, the bucket and the header it returns belong to
  one complete block of the row, and reading any key through them, as \<open>GetRowStruct\<close> does, gives the
  value of the key in that version.\<close>

theorem lookup_reads_one_version:
  assumes "reads_ok os" and "race_start db" and "reachable os db s"
    and "(Find column rowId columnHash, Found lookup) \<in> set (race_threads s)" and "rlk_found lookup"
  shows "\<exists>L. version_at (race_db s) (column, rowId) (rib_blockOffset (rlk_bucket lookup)) L \<and>
    (\<forall>key. FindValueInRowBlockAt os (race_db s) (rlk_bucket lookup) (rlk_blockHeader lookup) key =
      row_lookup (layout_map L key))"
proof -
  obtain K E where inv: "race_inv (written db (race_threads s)) K E s" by (rule reachable_inv [OF assms(1-3)])
  note D = race_invD [OF inv]
  obtain t where "t < length (race_threads s)" "race_threads s ! t = (Find column rowId columnHash, Found lookup)"
    using assms(4) by (auto simp: in_set_conv_nth)
  then have "lookup_ok (written db (race_threads s)) (race_db s) (column, rowId) lookup" using D(3) [of t] by (simp add: job_key_def)
  then obtain L where L: "version_at (race_db s) (column, rowId) (rib_blockOffset (rlk_bucket lookup)) L"
      "rlk_blockHeader lookup = rl_header L" "rib_shardId (rlk_bucket lookup) = key_shard (race_db s) (column, rowId)"
      "rib_blockSize (rlk_bucket lookup) = rb_blockSize (rl_header L)"
    using assms(5) by (auto simp: lookup_ok_def version_in_def)
  have s: "unat (rib_shardId (rlk_bucket lookup)) < length (rowValueFiles (race_db s))"
      and blk: "block_at (row_bytes (race_db s) (unat (rib_shardId (rlk_bucket lookup)))) (unat (rib_blockOffset (rlk_bucket lookup))) column L"
      and lay: "layout_ok column rowId L"
    using L(1,3) by (auto simp: version_at_def)
  show ?thesis
    using L(1) FindValueInRowBlockAt_ok [OF assms(1) table_invD(1) [OF D(1)] s blk lay L(4)] L(2) by auto
qed

text \<open>A racing call can fail in two ways only: its snapshot was torn by a concurrent update and points to a
  block of another size, or every bucket of the index is taken.  The three other corruption reports of
  the searching code (bad state, bad shard, empty bucket) and I/O errors do not arise.\<close>

theorem racing_failures:
  assumes "reads_ok os" and "race_start db" and "reachable os db s" and "(job, Failed status) \<in> set (race_threads s)"
  shows "status = Corruption ''row index points to an invalid row block'' \<or>
    status = Corruption ''row index table is full'' \<and> (\<forall>b \<in> set (RowBuckets (race_db s)). \<not> vacant_row b)"
proof -
  obtain K E where inv: "race_inv (written db (race_threads s)) K E s" by (rule reachable_inv [OF assms(1-3)])
  obtain t where "t < length (race_threads s)" "race_threads s ! t = (job, Failed status)"
    using assms(4) by (auto simp: in_set_conv_nth)
  then have "failure_ok (race_db s) status" using race_invD(3) [OF inv, of t] by simp
  then show ?thesis by (auto simp: failure_ok_def in_set_conv_nth)
qed

end
