(* ===== verification/Writer_Race.thy ===== *)
theory Writer_Race
  imports Row_Race_Theorems
begin

text \<open>
  Any number of calls of \<open>WriteRowStructs\<close> and \<open>FindRowBucket\<close> at once: the steps of a writer
  (src/src/lumodb/database.cpp) before, during and after its call of \<open>InsertOrUpdateRowBucket\<close>, whose
  steps are those of Row_Race.  Every access to an atomic counter is one step: the two loads and the
  exchange that reserve a slot, the sequence number, the append offset, the item count, the release.
  The transfer of a block is one step too, with every outcome that the file layer has; between its
  system calls other writers would touch other bytes only.
\<close>

subsection \<open>A call of \<open>WriteRowStructs\<close>\<close>

datatype stage =
    Load_Items
  | Load_Pending u64
  | Exchange u64
  | Take_Sequence
  | Append_Block u64 RowBlockLayout
  | Transfer_Block u64 RowBlockLayout u64
  | Indexing
  | Count_Item
  | Release_Slot Status
  | Returned Status

text \<open>
  The arguments of the call, its local state, and the thread of Row_Race that runs its call of
  \<open>InsertOrUpdateRowBucket\<close>, once there is one.
\<close>

record writer =
  w_column :: bytes
  w_rowId :: u64
  w_entries :: "RowStructEntry list"
  w_reserve :: bool
  w_call :: "nat option"
  w_stage :: stage

definition first_stage :: "Impl \<Rightarrow> bytes \<Rightarrow> RowStructEntry list \<Rightarrow> bool \<Rightarrow> stage" where
  "first_stage db column entries reserveInsertSlot =
     (if \<not> opened db then Returned (NotOpen ''database is not open'')
      else if readOnly db then Returned (InvalidArgument ''database is read-only'')
      else if \<not> FitsUint32 (length column) then Returned (InvalidArgument ''column must fit in uint32 length'')
      else if entries = [] then Returned (InvalidArgument ''row entries must not be empty'')
      else if reserveInsertSlot then Load_Items else Take_Sequence)"

text \<open>Every way out releases the slot, if one was reserved.\<close>

definition leave :: "writer \<Rightarrow> Status \<Rightarrow> stage" where
  "leave w status = (if w_reserve w then Release_Slot status else Returned status)"

definition slot_refused :: "Impl \<Rightarrow> u64 \<Rightarrow> u64 \<Rightarrow> bool" where
  "slot_refused db itemCount pending \<longleftrightarrow>
     dgt (ddiv (double_of_u64 (itemCount + pending + 1)) (double_of_u64 (rih_bucketCount (RowIndexHeader db))))
       (maxLoadFactor (options db))"

definition writer_shard :: "Impl \<Rightarrow> writer \<Rightarrow> u32" where
  "writer_shard db w = ShardForRow db (HashString (w_column w)) (w_rowId w)"

definition writer_bucket :: "Impl \<Rightarrow> writer \<Rightarrow> u64 \<Rightarrow> RowBlockLayout \<Rightarrow> u64 \<Rightarrow> RowBucketData" where
  "writer_bucket db w sequence layout blockOffset =
     \<lparr>rd_columnHash = HashString (w_column w), rd_rowId = w_rowId w, rd_shardId = writer_shard db w,
      rd_blockOffset = blockOffset, rd_blockSize = rb_blockSize (rl_header layout), rd_sequence = sequence\<rparr>"

fun stage_step :: "os \<Rightarrow> race \<Rightarrow> writer \<Rightarrow> stage \<Rightarrow> (writer \<times> race) option" where
  "stage_step os r w Load_Items =
     Some (w\<lparr>w_stage := Load_Pending (rih_itemCount (RowIndexHeader (race_db r)))\<rparr>, r)"
| "stage_step os r w (Load_Pending itemCount) =
     (let pending = rowPendingInsertCount (race_db r)
      in if slot_refused (race_db r) itemCount pending
         then Some (w\<lparr>w_stage := Returned (InvalidArgument
                ''row index capacity exceeded; increase initialRowBucketCount'')\<rparr>, r)
         else Some (w\<lparr>w_stage := Exchange pending\<rparr>, r))"
| "stage_step os r w (Exchange pending) =
     (if rowPendingInsertCount (race_db r) \<noteq> pending then Some (w\<lparr>w_stage := Load_Items\<rparr>, r)
      else Some (w\<lparr>w_stage := Take_Sequence\<rparr>,
                 r\<lparr>race_db := (race_db r)\<lparr>rowPendingInsertCount := pending + 1\<rparr>\<rparr>))"
| "stage_step os r w Take_Sequence =
     (let (sequence, db) = NextRowSequence (race_db r)
      in case BuildRowBlockLayout db (w_column w) (w_rowId w) (w_entries w) sequence (HashString (w_column w)) of
          None \<Rightarrow> None
        | Some (Inl status) \<Rightarrow> Some (w\<lparr>w_stage := leave w status\<rparr>, r\<lparr>race_db := db\<rparr>)
        | Some (Inr layout) \<Rightarrow> Some (w\<lparr>w_stage := Append_Block sequence layout\<rparr>, r\<lparr>race_db := db\<rparr>))"
| "stage_step os r w (Append_Block sequence layout) =
     (let db = race_db r; shardId = writer_shard db w; blockOffset = rowAppendOffsets db ! unat shardId
      in Some (w\<lparr>w_stage := Transfer_Block sequence layout blockOffset\<rparr>,
               r\<lparr>race_db := db\<lparr>rowAppendOffsets := (rowAppendOffsets db)
                   [unat shardId := blockOffset + rb_blockSize (rl_header layout)]\<rparr>\<rparr>))"
| "stage_step os r w (Transfer_Block sequence layout blockOffset) =
     (let db = race_db r;
          (status, fs) = WriteVAllAt os (filesys db) (rowValueFiles db ! unat (writer_shard db w))
                           (block_slices (w_column w) layout) blockOffset
      in if \<not> IsOk status then Some (w\<lparr>w_stage := leave w status\<rparr>, r\<lparr>race_db := db\<lparr>filesys := fs\<rparr>\<rparr>)
         else Some (w\<lparr>w_stage := Indexing, w_call := Some (length (race_threads r))\<rparr>,
                    \<lparr>race_db = db\<lparr>filesys := fs\<rparr>,
                     race_threads = race_threads r @
                       [(Insert (w_column w) (writer_bucket db w sequence layout blockOffset),
                         probe_from (rih_bucketCount (RowIndexHeader db)) 0)]\<rparr>))"
| "stage_step os r w Indexing =
     (case w_call w of
        None \<Rightarrow> None
      | Some t \<Rightarrow>
          (case snd (race_threads r ! t) of
             Inserted inserted \<Rightarrow> Some (w\<lparr>w_stage := if inserted then Count_Item else leave w Ok\<rparr>, r)
           | Failed status \<Rightarrow> Some (w\<lparr>w_stage := leave w status\<rparr>, r)
           | _ \<Rightarrow> None))"
| "stage_step os r w Count_Item =
     Some (w\<lparr>w_stage := leave w Ok\<rparr>, r\<lparr>race_db := increment_rowItemCount (race_db r)\<rparr>)"
| "stage_step os r w (Release_Slot status) =
     Some (w\<lparr>w_stage := Returned status\<rparr>, r\<lparr>race_db := ReleaseRowIndexInsertSlot (race_db r)\<rparr>)"
| "stage_step os r w (Returned status) = None"

definition writer_step :: "os \<Rightarrow> race \<Rightarrow> writer \<Rightarrow> (writer \<times> race) option" where
  "writer_step os r w = stage_step os r w (w_stage w)"

subsection \<open>Interleavings of writers and lookups\<close>

record store =
  st_race :: race
  st_writers :: "writer list"

text \<open>A row that fits the formats, and files of the sizes that the program can hold.\<close>

definition call_fits :: "Impl \<Rightarrow> bytes \<Rightarrow> RowStructEntry list \<Rightarrow> bool" where
  "call_fits db column entries \<longleftrightarrow>
     (case maxLoadFactor (options db) of Fin f \<Rightarrow> row_fits f column entries | _ \<Rightarrow> False)"

definition small_files :: "store \<Rightarrow> bool" where
  "small_files s \<longleftrightarrow> (\<forall>off \<in> set (rowAppendOffsets (race_db (st_race s))). unat off < 2 ^ 62)"

text \<open>\<open>PutRowStruct\<close> writes without a reservation only after a lookup that found the row.\<close>

definition row_found :: "race \<Rightarrow> bytes \<Rightarrow> u64 \<Rightarrow> bool" where
  "row_found r column rowId \<longleftrightarrow>
     (\<exists>columnHash lookup. (Find column rowId columnHash, Found lookup) \<in> set (race_threads r) \<and> rlk_found lookup)"

inductive store_step :: "os \<Rightarrow> store \<Rightarrow> store \<Rightarrow> bool" for os where
  index: "t < length (race_threads (st_race s)) \<Longrightarrow> race_threads (st_race s) ! t = (job, pc) \<Longrightarrow> \<not> finished pc \<Longrightarrow>
    thread_step os job (race_db (st_race s)) pc = (pc', db') \<Longrightarrow>
    store_step os s (s\<lparr>st_race := \<lparr>race_db = db', race_threads = (race_threads (st_race s))[t := (job, pc')]\<rparr>\<rparr>)"
| lookup: "store_step os s (s\<lparr>st_race := \<lparr>race_db = race_db (st_race s),
      race_threads = race_threads (st_race s) @ [(Find column rowId (HashString column),
        probe_from (rih_bucketCount (RowIndexHeader (race_db (st_race s)))) 0)]\<rparr>\<rparr>)"
| call: "call_fits (race_db (st_race s)) column entries \<Longrightarrow>
    reserve \<or> row_found (st_race s) column rowId \<Longrightarrow>
    store_step os s (s\<lparr>st_writers := st_writers s @ [\<lparr>w_column = column, w_rowId = rowId, w_entries = entries,
      w_reserve = reserve, w_call = None, w_stage = first_stage (race_db (st_race s)) column entries reserve\<rparr>]\<rparr>)"
| advance: "v < length (st_writers s) \<Longrightarrow> writer_step os (st_race s) (st_writers s ! v) = Some (w', r') \<Longrightarrow>
    store_step os s \<lparr>st_race = r', st_writers = (st_writers s)[v := w']\<rparr>"
| spurious: "v < length (st_writers s) \<Longrightarrow> w_stage (st_writers s ! v) = Exchange pending \<Longrightarrow>
    store_step os s (s\<lparr>st_writers := (st_writers s)[v := (st_writers s ! v)\<lparr>w_stage := Load_Items\<rparr>]\<rparr>)"

text \<open>The last rule is the failure without a reason that \<open>compare_exchange_weak\<close> may have.\<close>

inductive_cases store_stepE: "store_step os s s'"

definition store_move :: "os \<Rightarrow> store \<Rightarrow> store \<Rightarrow> bool" where
  "store_move os s s' \<longleftrightarrow> store_step os s s' \<and> small_files s'"

abbreviation store_run :: "os \<Rightarrow> store \<Rightarrow> store \<Rightarrow> bool" where
  "store_run os \<equiv> (store_move os)\<^sup>*\<^sup>*"

definition store_start :: "Impl \<Rightarrow> bool" where
  "store_start db \<longleftrightarrow>
     row_ok db \<and> (\<forall>off \<in> set (rowAppendOffsets db). unat off < 2 ^ 62) \<and>
     (\<forall>b \<in> set (RowBuckets db). \<not> vacant_row b \<longrightarrow>
        rib_shardId b = ShardForRow db (rib_columnHash b) (rib_rowId b))"

definition store_reachable :: "os \<Rightarrow> Impl \<Rightarrow> store \<Rightarrow> bool" where
  "store_reachable os db s \<longleftrightarrow>
     store_run os \<lparr>st_race = \<lparr>race_db = db, race_threads = []\<rparr>, st_writers = []\<rparr> s"

end
