(* ===== verification/Writer_Race_Invariant.thy ===== *)
theory Writer_Race_Invariant
  imports Writer_Race
begin

text \<open>
  The invariant of concurrent writers: the blocks of two calls never overlap, the writers and the index
  calls they made match, and the two counters count what they should.
\<close>

subsection \<open>What a call owns and what it has done\<close>

fun stage_range :: "Impl \<Rightarrow> writer \<Rightarrow> stage \<Rightarrow> nat \<Rightarrow> nat set" where
  "stage_range db w (Transfer_Block sequence layout off) s =
     (if s = unat (writer_shard db w) then {unat off ..< unat off + layout_size (w_column w) layout} else {})"
| "stage_range db w _ s = {}"

text \<open>The bytes of the shard \<open>s\<close> that are the block of a call, from the fetch of its offset on.\<close>

definition claim :: "race \<Rightarrow> writer \<Rightarrow> nat \<Rightarrow> nat set" where
  "claim r w s =
     (case w_call w of
        Some t \<Rightarrow> job_range (fst (race_threads r ! t)) s
      | None \<Rightarrow> stage_range (race_db r) w (w_stage w) s)"

definition layout_for :: "writer \<Rightarrow> u64 \<Rightarrow> RowBlockLayout \<Rightarrow> bool" where
  "layout_for w sequence layout \<longleftrightarrow>
     layout_ok (w_column w) (w_rowId w) layout \<and> layout_map layout = row_map (w_entries w) \<and>
     rb_sequence (rl_header layout) = sequence \<and> layout_size (w_column w) layout < 2 ^ 62"

text \<open>The outcome of a call against that of its index call.\<close>

definition outcome_ok :: "race \<Rightarrow> writer \<Rightarrow> Status \<Rightarrow> bool" where
  "outcome_ok r w status \<longleftrightarrow>
     (case w_call w of
        None \<Rightarrow> \<not> IsOk status
      | Some t \<Rightarrow> if IsOk status then \<exists>new. snd (race_threads r ! t) = Inserted new
                  else snd (race_threads r ! t) = Failed status)"

fun stage_ok :: "race \<Rightarrow> writer \<Rightarrow> stage \<Rightarrow> bool" where
  "stage_ok r w (Append_Block sequence layout) \<longleftrightarrow> w_call w = None \<and> layout_for w sequence layout"
| "stage_ok r w (Transfer_Block sequence layout off) \<longleftrightarrow>
     w_call w = None \<and> layout_for w sequence layout \<and> unat off + layout_size (w_column w) layout < 2 ^ 63"
| "stage_ok r w Take_Sequence \<longleftrightarrow> w_call w = None"
| "stage_ok r w Indexing \<longleftrightarrow> w_call w \<noteq> None"
| "stage_ok r w Count_Item \<longleftrightarrow> (\<exists>t. w_call w = Some t \<and> snd (race_threads r ! t) = Inserted True)"
| "stage_ok r w (Release_Slot status) \<longleftrightarrow> w_reserve w \<and> outcome_ok r w status"
| "stage_ok r w (Returned status) \<longleftrightarrow> outcome_ok r w status"
| "stage_ok r w _ \<longleftrightarrow> w_reserve w \<and> w_call w = None"

definition call_for :: "race \<Rightarrow> writer \<Rightarrow> nat \<Rightarrow> bool" where
  "call_for r w t \<longleftrightarrow>
     t < length (race_threads r) \<and>
     (\<exists>d L. fst (race_threads r ! t) = Insert (w_column w) d \<and> rd_rowId d = w_rowId w \<and>
        row_bucket_at (shards_of (race_db r)) (data_bucket d) (w_column w) L \<and> layout_map L = row_map (w_entries w))"

definition writer_ok :: "Impl \<Rightarrow> race \<Rightarrow> writer \<Rightarrow> bool" where
  "writer_ok start r w \<longleftrightarrow>
     call_fits start (w_column w) (w_entries w) \<and> stage_ok r w (w_stage w) \<and> (\<forall>t. w_call w = Some t \<longrightarrow> call_for r w t)"

text \<open>The slots and items a call stands for.\<close>

fun holds_slot :: "stage \<Rightarrow> bool" where
  "holds_slot Load_Items = False"
| "holds_slot (Load_Pending itemCount) = False"
| "holds_slot (Exchange pending) = False"
| "holds_slot (Returned status) = False"
| "holds_slot _ = True"

fun past_count :: "stage \<Rightarrow> bool" where
  "past_count (Release_Slot status) = True"
| "past_count (Returned status) = True"
| "past_count _ = False"

definition holding :: "writer \<Rightarrow> bool" where
  "holding w \<longleftrightarrow> w_reserve w \<and> holds_slot (w_stage w)"

definition new_row :: "race \<Rightarrow> writer \<Rightarrow> bool" where
  "new_row r w \<longleftrightarrow> (\<exists>t. w_call w = Some t \<and> snd (race_threads r ! t) = Inserted True)"

definition counted :: "race \<Rightarrow> writer \<Rightarrow> bool" where
  "counted r w \<longleftrightarrow> new_row r w \<and> past_count (w_stage w)"

subsection \<open>The invariant\<close>

definition frame_ok :: "Impl \<Rightarrow> Impl \<Rightarrow> bool" where
  "frame_ok start db \<longleftrightarrow>
     opened db \<and> \<not> readOnly db \<and> options db = options start \<and> rowValueFiles db = rowValueFiles start \<and>
     rowValueMaps db = rowValueMaps start \<and> length (rowAppendOffsets db) = length (rowValueFiles start) \<and>
     mapped_data (rowIndexMap db) \<noteq> None \<and>
     (\<forall>s < length (rowValueFiles start). length (row_bytes db s) \<le> unat (rowAppendOffsets db ! s) \<and>
        length (row_bytes start s) \<le> unat (rowAppendOffsets db ! s) \<and> unat (rowAppendOffsets db ! s) < 2 ^ 62)"

definition claims_ok :: "Impl \<Rightarrow> race \<Rightarrow> writer list \<Rightarrow> bool" where
  "claims_ok start r ws \<longleftrightarrow>
     (\<forall>v < length ws. \<forall>s < length (rowValueFiles start).
        claim r (ws ! v) s \<subseteq> {length (row_bytes start s) ..< unat (rowAppendOffsets (race_db r) ! s)} \<and>
        (\<forall>u < length ws. u \<noteq> v \<longrightarrow> claim r (ws ! v) s \<inter> claim r (ws ! u) s = {}))"

definition calls_ok :: "race \<Rightarrow> writer list \<Rightarrow> bool" where
  "calls_ok r ws \<longleftrightarrow>
     (\<forall>v < length ws. \<forall>u < length ws. \<forall>t. w_call (ws ! v) = Some t \<longrightarrow> w_call (ws ! u) = Some t \<longrightarrow> u = v) \<and>
     (\<forall>t < length (race_threads r). inserts (fst (race_threads r ! t)) \<longrightarrow> (\<exists>v < length ws. w_call (ws ! v) = Some t))"

definition counts_ok :: "Impl \<Rightarrow> race \<Rightarrow> writer list \<Rightarrow> bool" where
  "counts_ok start r ws \<longleftrightarrow>
     rowPendingInsertCount (race_db r) = of_nat (length (filter holding ws)) \<and>
     rih_itemCount (RowIndexHeader (race_db r)) =
       rih_itemCount (RowIndexHeader start) + of_nat (length (filter (counted r) ws))"

text \<open>\<open>r0\<close> is an earlier state of the index, from which the present one was reached.\<close>

definition store_inv :: "os \<Rightarrow> Impl \<Rightarrow> race \<Rightarrow> store \<Rightarrow> bool" where
  "store_inv os start r0 s \<longleftrightarrow>
     reachable os start r0 \<and> race_run os start r0 (st_race s) \<and> frame_ok start (race_db (st_race s)) \<and>
     claims_ok start (st_race s) (st_writers s) \<and> calls_ok (st_race s) (st_writers s) \<and>
     counts_ok start (st_race s) (st_writers s) \<and> (\<forall>w \<in> set (st_writers s). writer_ok start (st_race s) w)"

lemma store_invD:
  assumes "store_inv os start r0 s"
  shows "reachable os start (st_race s)" and "frame_ok start (race_db (st_race s))"
    and "claims_ok start (st_race s) (st_writers s)" and "calls_ok (st_race s) (st_writers s)"
    and "counts_ok start (st_race s) (st_writers s)"
    and "w \<in> set (st_writers s) \<Longrightarrow> writer_ok start (st_race s) w"
proof -
  have "reachable os start r0" "race_run os start r0 (st_race s)" using assms by (simp_all add: store_inv_def)
  then show "reachable os start (st_race s)" unfolding reachable_def by (rule rtranclp_trans)
qed (use assms in \<open>simp_all add: store_inv_def\<close>)

lemma store_inv_run:
  assumes "store_inv os start r0 s" and "race_run os start (st_race s) r'"
  shows "reachable os start r0 \<and> race_run os start r0 r'"
  using assms rtranclp_trans [of "race_step os start" r0 "st_race s" r'] by (simp add: store_inv_def)

text \<open>The bytes written for good are those of the start and the claims of the calls that reached the index.\<close>

lemma written_claims:
  assumes inv: "store_inv os start r0 s" and n: "n < length (rowValueFiles start)" and p: "p \<in> written start (race_threads (st_race s)) n"
  shows "p < length (row_bytes start n) \<or>
    (\<exists>v < length (st_writers s). w_call (st_writers s ! v) \<noteq> None \<and> p \<in> claim (st_race s) (st_writers s ! v) n)"
proof (cases "p < length (row_bytes start n)")
  case False
  then obtain t where t: "t < length (race_threads (st_race s))" "p \<in> job_range (fst (race_threads (st_race s) ! t)) n"
    using p by (auto simp: written_def in_set_conv_nth)
  then have "inserts (fst (race_threads (st_race s) ! t))" by (cases "fst (race_threads (st_race s) ! t)") auto
  then obtain v where "v < length (st_writers s)" "w_call (st_writers s ! v) = Some t"
    using store_invD(4) [OF inv] t(1) unfolding calls_ok_def by blast
  then show ?thesis using t(2) by (auto simp: claim_def)
qed simp

lemma written_below:
  assumes "store_inv os start r0 s" and "n < length (rowValueFiles start)" and "p \<in> written start (race_threads (st_race s)) n"
  shows "p < unat (rowAppendOffsets (race_db (st_race s)) ! n)"
proof -
  note D = store_invD [OF assms(1)]
  show ?thesis
    using written_claims [OF assms]
  proof
    assume "p < length (row_bytes start n)"
    then show ?thesis using D(2) assms(2) unfolding frame_ok_def by (meson less_le_trans)
  next
    assume "\<exists>v < length (st_writers s). w_call (st_writers s ! v) \<noteq> None \<and> p \<in> claim (st_race s) (st_writers s ! v) n"
    then show ?thesis using D(3) assms(2) unfolding claims_ok_def by (meson atLeastLessThan_iff subsetD)
  qed
qed

text \<open>A block that is being transferred lies apart from them.\<close>

lemma transfer_apart:
  assumes inv: "store_inv os start r0 s" and n: "n < length (rowValueFiles start)"
    and v: "v < length (st_writers s)" "w_call (st_writers s ! v) = None"
  shows "claim (st_race s) (st_writers s ! v) n \<inter> written start (race_threads (st_race s)) n = {}"
proof -
  note C = store_invD(3) [OF inv, unfolded claims_ok_def, rule_format, OF v(1) n]
  have "p \<notin> written start (race_threads (st_race s)) n" if p: "p \<in> claim (st_race s) (st_writers s ! v) n" for p
  proof
    assume "p \<in> written start (race_threads (st_race s)) n"
    from written_claims [OF inv n this] show False
    proof
      assume "p < length (row_bytes start n)"
      moreover have "length (row_bytes start n) \<le> p" using C p by (meson atLeastLessThan_iff subsetD)
      ultimately show False by simp
    next
      assume "\<exists>u < length (st_writers s). w_call (st_writers s ! u) \<noteq> None \<and> p \<in> claim (st_race s) (st_writers s ! u) n"
      then obtain u where "u < length (st_writers s)" "w_call (st_writers s ! u) \<noteq> None" "p \<in> claim (st_race s) (st_writers s ! u) n"
        by blast
      moreover from this v(2) have "u \<noteq> v" by auto
      ultimately show False using C p by blast
    qed
  qed
  then show ?thesis by blast
qed

end
