(* ===== verification/Writer_Race_Safety.thy ===== *)
theory Writer_Race_Safety
  imports Writer_Race_Invariant
begin

text \<open>
  Every step of every writer and every lookup keeps the invariant, and is on the index a step, or
  no step, of Row_Race.
\<close>

subsection \<open>What a step means to the other calls\<close>

definition race_moves :: "Impl \<Rightarrow> race \<Rightarrow> race \<Rightarrow> bool" where
  "race_moves start r r' \<longleftrightarrow>
     length (race_threads r) \<le> length (race_threads r') \<and>
     (\<forall>t < length (race_threads r). fst (race_threads r' ! t) = fst (race_threads r ! t) \<and>
        (finished (snd (race_threads r ! t)) \<longrightarrow> race_threads r' ! t = race_threads r ! t)) \<and>
     rowValueFiles (race_db r') = rowValueFiles (race_db r) \<and>
     keeps_bytes (written start (race_threads r)) (shards_of (race_db r)) (shards_of (race_db r'))"

lemma race_movesD:
  assumes "race_moves start r r'" and "t < length (race_threads r)"
  shows "t < length (race_threads r')" and "fst (race_threads r' ! t) = fst (race_threads r ! t)"
    and "finished (snd (race_threads r ! t)) \<Longrightarrow> race_threads r' ! t = race_threads r ! t"
  using assms by (auto simp: race_moves_def)

lemma call_for_moves:
  assumes moves: "race_moves start r r'" and call: "call_for r w t"
  shows "call_for r' w t"
proof -
  obtain d L where t: "t < length (race_threads r)" and f: "fst (race_threads r ! t) = Insert (w_column w) d"
      and d: "rd_rowId d = w_rowId w" and at: "row_bucket_at (shards_of (race_db r)) (data_bucket d) (w_column w) L"
      and L: "layout_map L = row_map (w_entries w)"
    using call by (auto simp: call_for_def)
  have "job_range (Insert (w_column w) d) s \<subseteq> written start (race_threads r) s" for s
    using t f by (force simp: written_def in_set_conv_nth)
  from this [of "unat (rd_shardId d)"]
  have "row_bucket_at (shards_of (race_db r')) (data_bucket d) (w_column w) L"
    using moves by (intro row_bucket_keeps [OF at]) (simp_all add: race_moves_def)
  then show ?thesis using race_movesD [OF moves t] f d L by (auto simp: call_for_def)
qed

lemma outcome_moves:
  assumes moves: "race_moves start r r'" and calls: "\<forall>t. w_call w = Some t \<longrightarrow> t < length (race_threads r)"
    and ok: "outcome_ok r w st"
  shows "outcome_ok r' w st"
proof (cases "w_call w")
  case (Some t)
  have "finished (snd (race_threads r ! t))" using ok Some by (auto simp: outcome_ok_def split: if_splits)
  then show ?thesis using race_movesD(3) [OF moves, of t] calls ok Some by (simp add: outcome_ok_def)
qed (use ok in \<open>simp add: outcome_ok_def\<close>)

lemma writer_ok_moves:
  assumes moves: "race_moves start r r'" and ok: "writer_ok start r w"
  shows "writer_ok start r' w"
proof -
  have calls: "\<forall>t. w_call w = Some t \<longrightarrow> t < length (race_threads r)"
    using ok by (auto simp: writer_ok_def call_for_def)
  have "stage_ok r' w (w_stage w)"
  proof (cases "w_stage w")
    case Count_Item
    then obtain t where t: "w_call w = Some t" "snd (race_threads r ! t) = Inserted True" using ok by (auto simp: writer_ok_def)
    then have "race_threads r' ! t = race_threads r ! t" using race_movesD(3) [OF moves] calls by simp
    then show ?thesis using Count_Item t by simp
  qed (use ok outcome_moves [OF moves calls] in \<open>auto simp: writer_ok_def\<close>)
  then show ?thesis using ok call_for_moves [OF moves] by (simp add: writer_ok_def)
qed

lemma counted_moves:
  assumes moves: "race_moves start r r'" and ok: "writer_ok start r w"
  shows "counted r' w = counted r w"
proof (cases "past_count (w_stage w)")
  case True
  then obtain st where st: "outcome_ok r w st" using ok by (cases "w_stage w") (auto simp: writer_ok_def)
  have "new_row r' w = new_row r w"
  proof (cases "w_call w")
    case (Some t)
    then have "finished (snd (race_threads r ! t))" using st by (auto simp: outcome_ok_def split: if_splits)
    moreover have "t < length (race_threads r)" using ok Some by (simp add: writer_ok_def call_for_def)
    ultimately show ?thesis using race_movesD(3) [OF moves] Some by (simp add: new_row_def)
  qed (simp add: new_row_def)
  then show ?thesis by (simp add: counted_def)
qed (simp add: counted_def)

lemma claim_moves:
  assumes moves: "race_moves start r r'" and ok: "writer_ok start r w"
  shows "claim r' w s = claim r w s"
proof (cases "w_call w")
  case None
  have "writer_shard (race_db r') w = writer_shard (race_db r) w"
    using moves by (simp add: race_moves_def writer_shard_def ShardForRow_def)
  then have "stage_range (race_db r') w (w_stage w) s = stage_range (race_db r) w (w_stage w) s" by (cases "w_stage w") simp_all
  then show ?thesis using None by (simp add: claim_def)
next
  case (Some t)
  then have "t < length (race_threads r)" using ok by (simp add: writer_ok_def call_for_def)
  then show ?thesis using race_movesD(2) [OF moves] Some by (simp add: claim_def)
qed

subsection \<open>Putting the invariant together after a step\<close>

text \<open>A step of the index, or the arrival of a lookup: the writers stay as they are.\<close>

lemma store_inv_race:
  assumes inv: "store_inv os start r0 s" and run: "race_run os start (st_race s) r'"
    and moves: "race_moves start (st_race s) r'" and frame: "frame_ok start (race_db r')"
    and offs: "rowAppendOffsets (race_db r') = rowAppendOffsets (race_db (st_race s))"
    and calls: "\<And>t. t < length (race_threads r') \<Longrightarrow> length (race_threads (st_race s)) \<le> t \<Longrightarrow> \<not> inserts (fst (race_threads r' ! t))"
    and counts: "rowPendingInsertCount (race_db r') = rowPendingInsertCount (race_db (st_race s))"
      "rih_itemCount (RowIndexHeader (race_db r')) = rih_itemCount (RowIndexHeader (race_db (st_race s)))"
  shows "store_inv os start r0 (s\<lparr>st_race := r'\<rparr>)"
proof -
  note D = store_invD [OF inv]
  let ?ws = "st_writers s"
  have w: "writer_ok start (st_race s) (?ws ! v)" if "v < length ?ws" for v using D(6) that by simp
  note store_inv_run [OF inv run]
  moreover have "claims_ok start r' ?ws"
    using D(3) claim_moves [OF moves w] unfolding claims_ok_def offs by simp
  moreover have "calls_ok r' ?ws"
    unfolding calls_ok_def
  proof (intro conjI allI impI)
    fix t assume t: "t < length (race_threads r')" "inserts (fst (race_threads r' ! t))"
    then have old: "t < length (race_threads (st_race s))" using calls not_less by blast
    then show "\<exists>v < length ?ws. w_call (?ws ! v) = Some t"
      using D(4) t(2) race_movesD(2) [OF moves old] unfolding calls_ok_def by simp
  qed (use D(4) in \<open>auto simp: calls_ok_def\<close>)
  moreover have "filter (counted r') ?ws = filter (counted (st_race s)) ?ws"
    by (rule filter_cong [OF refl]) (use counted_moves [OF moves D(6)] in blast)
  then have "counts_ok start r' ?ws" using D(5) counts by (simp add: counts_ok_def)
  ultimately show ?thesis using frame writer_ok_moves [OF moves D(6)] by (simp add: store_inv_def)
qed

lemma count_shift:
  fixes a :: u64
  assumes "a + x = b + y" and "m + x = n + y" and "b = c + n"
  shows "a = c + m"
proof -
  have "a + x = (c + m) + x" using assms by (simp add: add.assoc)
  then show ?thesis by simp
qed

text \<open>A step of the writer \<open>v\<close>.\<close>

lemma count_update:
  assumes "v < length xs"
  shows "(of_nat (length (filter P (xs[v := x]))) :: u64) + of_bool (P (xs ! v)) = of_nat (length (filter P xs)) + of_bool (P x)"
proof -
  have "length (filter P (xs[v := x])) + of_bool (P (xs ! v)) = length (filter P xs) + of_bool (P x)"
    using length_filter_update [OF assms, of P x] by (simp split: if_splits)
  then show ?thesis by (metis of_nat_add of_nat_of_bool)
qed

lemma store_inv_advance:
  assumes inv: "store_inv os start r0 s" and v: "v < length (st_writers s)"
    and run: "race_run os start (st_race s) r'"
    and moves: "race_moves start (st_race s) r'" and frame: "frame_ok start (race_db r')" and ok: "writer_ok start r' w'"
    and offs: "\<And>n. n < length (rowValueFiles start) \<Longrightarrow>
      unat (rowAppendOffsets (race_db (st_race s)) ! n) \<le> unat (rowAppendOffsets (race_db r') ! n)"
    and claims: "\<And>n. n < length (rowValueFiles start) \<Longrightarrow> claim r' w' n \<subseteq> claim (st_race s) (st_writers s ! v) n \<union>
      {unat (rowAppendOffsets (race_db (st_race s)) ! n) ..< unat (rowAppendOffsets (race_db r') ! n)}"
    and calls: "w_call w' = w_call (st_writers s ! v) \<and>
        (\<forall>t < length (race_threads r'). length (race_threads (st_race s)) \<le> t \<longrightarrow> \<not> inserts (fst (race_threads r' ! t))) \<or>
      w_call (st_writers s ! v) = None \<and> w_call w' = Some (length (race_threads (st_race s))) \<and>
        length (race_threads r') = Suc (length (race_threads (st_race s)))"
    and pending: "rowPendingInsertCount (race_db r') + of_bool (holding (st_writers s ! v)) =
      rowPendingInsertCount (race_db (st_race s)) + of_bool (holding w')"
    and items: "rih_itemCount (RowIndexHeader (race_db r')) + of_bool (counted (st_race s) (st_writers s ! v)) =
      rih_itemCount (RowIndexHeader (race_db (st_race s))) + of_bool (counted r' w')"
  shows "store_inv os start r0 \<lparr>st_race = r', st_writers = (st_writers s)[v := w']\<rparr>"
proof -
  note D = store_invD [OF inv]
  let ?r = "st_race s" and ?ws = "st_writers s"
  let ?ws' = "?ws[v := w']"
  have w: "writer_ok start ?r (?ws ! u)" if "u < length ?ws" for u using D(6) that by simp
  have same: "claim r' (?ws' ! u) n = claim ?r (?ws ! u) n" if "u < length ?ws" "u \<noteq> v" for u n
    using claim_moves [OF moves w [OF that(1)]] that by simp
  have old: "claim ?r (?ws ! u) n \<subseteq> {length (row_bytes start n) ..< unat (rowAppendOffsets (race_db ?r) ! n)}"
      "\<And>u'. u' < length ?ws \<Longrightarrow> u' \<noteq> u \<Longrightarrow> claim ?r (?ws ! u) n \<inter> claim ?r (?ws ! u') n = {}"
    if "u < length ?ws" "n < length (rowValueFiles start)" for u n
    using D(3) that unfolding claims_ok_def by blast+
  have "claims_ok start r' ?ws'"
    unfolding claims_ok_def
  proof (intro allI impI conjI)
    fix u n assume un: "u < length ?ws'" "n < length (rowValueFiles start)"
    have base: "length (row_bytes start n) \<le> unat (rowAppendOffsets (race_db ?r) ! n)"
      using D(2) un(2) by (simp add: frame_ok_def)
    show "claim r' (?ws' ! u) n \<subseteq> {length (row_bytes start n) ..< unat (rowAppendOffsets (race_db r') ! n)}"
      using old(1) [of u n] un same [of u n] claims [OF un(2)] offs [OF un(2)] base by (cases "u = v") fastforce+
    fix u' assume u': "u' < length ?ws'" "u' \<noteq> u"
    have apart: "claim r' (?ws' ! v) n \<inter> claim r' (?ws' ! x) n = {}" if "x < length ?ws" "x \<noteq> v" for x
    proof -
      have "claim ?r (?ws ! v) n \<inter> claim ?r (?ws ! x) n = {}" by (rule old(2) [OF v un(2) that])
      moreover have "claim r' (?ws' ! v) n = claim r' w' n" using v by simp
      ultimately show ?thesis using claims [OF un(2)] old(1) [OF that(1) un(2)] unfolding same [OF that] by fastforce
    qed
    show "claim r' (?ws' ! u) n \<inter> claim r' (?ws' ! u') n = {}"
    proof (cases "u = v \<or> u' = v")
      case True
      then show ?thesis using apart [of u] apart [of u'] un(1) u' by auto
    next
      case False
      then show ?thesis using same [of u n] same [of u' n] old(2) [of u n u'] un u' by simp
    qed
  qed
  moreover have "calls_ok r' ?ws'"
    unfolding calls_ok_def
  proof (intro conjI allI impI)
    fix u u' t
    assume a: "u < length ?ws'" "u' < length ?ws'" "w_call (?ws' ! u) = Some t" "w_call (?ws' ! u') = Some t"
    have less: "t < length (race_threads ?r)" if "x < length ?ws" "w_call (?ws ! x) = Some t" for x
      using w [OF that(1)] that(2) by (simp add: writer_ok_def call_for_def)
    have one: "x = y" if "x < length ?ws" "y < length ?ws" "w_call (?ws ! x) = Some t" "w_call (?ws ! y) = Some t" for x y
      using D(4) that unfolding calls_ok_def by blast
    show "u' = u"
      using a calls less [of u] less [of u'] one [of u u'] v by (cases "u = v"; cases "u' = v") auto
  next
    fix t assume t: "t < length (race_threads r')" "inserts (fst (race_threads r' ! t))"
    show "\<exists>u < length ?ws'. w_call (?ws' ! u) = Some t"
    proof (cases "t < length (race_threads ?r)")
      case True
      then obtain u where "u < length ?ws" "w_call (?ws ! u) = Some t"
        using D(4) t(2) race_movesD(2) [OF moves True] unfolding calls_ok_def by auto
      then show ?thesis using calls by (intro exI [of _ u]) (cases "u = v", auto)
    next
      case False
      then show ?thesis using calls t v by (intro exI [of _ v]) (auto simp: less_Suc_eq)
    qed
  qed
  moreover have "counts_ok start r' ?ws'"
  proof -
    have h: "(of_nat (length (filter holding ?ws')) :: u64) + of_bool (holding (?ws ! v)) =
        of_nat (length (filter holding ?ws)) + of_bool (holding w')" by (rule count_update [OF v])
    have p: "rowPendingInsertCount (race_db r') = of_nat (length (filter holding ?ws'))"
      using count_shift [OF pending h, of 0] D(5) by (simp add: counts_ok_def)
    have "counted r' x = counted ?r x" if "x \<in> set ?ws" for x using counted_moves [OF moves D(6) [OF that]] .
    then have "filter (counted r') ?ws = filter (counted ?r) ?ws" "counted r' (?ws ! v) = counted ?r (?ws ! v)"
      using v by (simp_all cong: filter_cong)
    then have c: "(of_nat (length (filter (counted r') ?ws')) :: u64) + of_bool (counted ?r (?ws ! v)) =
        of_nat (length (filter (counted ?r) ?ws)) + of_bool (counted r' w')"
      using count_update [OF v, of "counted r'" w'] by simp
    have "rih_itemCount (RowIndexHeader (race_db r')) =
        rih_itemCount (RowIndexHeader start) + of_nat (length (filter (counted r') ?ws'))"
      using count_shift [OF items c] D(5) by (simp add: counts_ok_def)
    with p show ?thesis by (simp add: counts_ok_def)
  qed
  moreover have "writer_ok start r' x" if x: "x \<in> set ?ws'" for x
    using set_update_subset_insert [of ?ws v w'] x ok writer_ok_moves [OF moves D(6)] by blast
  moreover note store_inv_run [OF inv run]
  ultimately show ?thesis using frame by (simp add: store_inv_def)
qed

subsection \<open>Steps that leave the files alone\<close>

definition still_db :: "Impl \<Rightarrow> Impl \<Rightarrow> bool" where
  "still_db db db' \<longleftrightarrow>
     RowBuckets db' = RowBuckets db \<and> bucket_count db' = bucket_count db \<and> rowValueFiles db' = rowValueFiles db \<and>
     rowValueMaps db' = rowValueMaps db \<and> filesys db' = filesys db \<and> opened db' = opened db \<and> readOnly db' = readOnly db \<and>
     options db' = options db \<and> mapped_data (rowIndexMap db') \<noteq> None"

lemma still_db_bytes:
  assumes "still_db db db'"
  shows "row_bytes db' n = row_bytes db n" and "shards_of db' = shards_of db" and "row_readable db' = row_readable db"
    and "ShardForRow db' h i = ShardForRow db h i"
proof -
  show b: "row_bytes db' n = row_bytes db n" for n using assms by (simp add: still_db_def row_bytes_def)
  show "shards_of db' = shards_of db" using assms b by (simp add: still_db_def shards_of_def)
  show "row_readable db' = row_readable db" using assms b by (simp add: still_db_def row_readable_def)
  show "ShardForRow db' h i = ShardForRow db h i" using assms by (simp add: still_db_def ShardForRow_def)
qed

lemma store_start_race: "store_start db \<Longrightarrow> race_start db"
  using row_core_ok_readable [of db] unfolding store_start_def race_start_def row_ok_def
  by (auto simp: rows_readable_def row_core_ok_def)

lemma store_inv_table:
  assumes "reads_ok os" and "store_start start" and "store_inv os start r0 s"
  obtains K E where "race_inv (written start (race_threads (st_race s))) K E (st_race s)"
    and "row_readable (race_db (st_race s))" and "table_shape (race_db (st_race s))"
proof -
  obtain K E where inv: "race_inv (written start (race_threads (st_race s))) K E (st_race s)"
    by (rule reachable_inv [OF assms(1) store_start_race [OF assms(2)] store_invD(1) [OF assms(3)]])
  then show ?thesis using that table_invD(1,2) [OF race_invD(1) [OF inv]] by blast
qed

lemma race_world:
  "world_moves (written start (race_threads r)) (race_db r) db' \<Longrightarrow> race_run os start r (r\<lparr>race_db := db'\<rparr>)"
  using r_into_rtranclp [of "race_step os start", OF race_step.world [of start r db' os]] by (cases r) simp

lemma race_moves_world:
  "keeps_bytes (written start (race_threads r)) (shards_of (race_db r)) (shards_of db') \<Longrightarrow>
    rowValueFiles db' = rowValueFiles (race_db r) \<Longrightarrow> race_moves start r (r\<lparr>race_db := db'\<rparr>)"
  by (simp add: race_moves_def)

lemma still_world:
  assumes "still_db (race_db r) db'" and "row_readable (race_db r)"
  shows "race_run os start r (r\<lparr>race_db := db'\<rparr>)" and "race_moves start r (r\<lparr>race_db := db'\<rparr>)"
proof -
  note B = still_db_bytes [OF assms(1)]
  show "race_run os start r (r\<lparr>race_db := db'\<rparr>)"
    by (rule race_world) (use assms B in \<open>simp add: world_moves_def still_db_def\<close>)
  show "race_moves start r (r\<lparr>race_db := db'\<rparr>)"
    by (rule race_moves_world) (use assms B in \<open>simp_all add: still_db_def\<close>)
qed

lemma frame_still:
  assumes "frame_ok start db" and "still_db db db'" and "rowAppendOffsets db' = rowAppendOffsets db"
  shows "frame_ok start db'"
  using assms still_db_bytes [OF assms(2)] by (simp add: frame_ok_def still_db_def)

lemma store_inv_still:
  assumes os: "reads_ok os" and start: "store_start start" and inv: "store_inv os start r0 s" and v: "v < length (st_writers s)"
    and still: "still_db (race_db (st_race s)) db'" and offs: "rowAppendOffsets db' = rowAppendOffsets (race_db (st_race s))"
    and ok: "writer_ok start (st_race s) w'" and call: "w_call w' = w_call (st_writers s ! v)"
    and range: "\<And>n. stage_range db' w' (w_stage w') n = {}"
    and pending: "rowPendingInsertCount db' + of_bool (holding (st_writers s ! v)) =
      rowPendingInsertCount (race_db (st_race s)) + of_bool (holding w')"
    and items: "rih_itemCount (RowIndexHeader db') + of_bool (counted (st_race s) (st_writers s ! v)) =
      rih_itemCount (RowIndexHeader (race_db (st_race s))) + of_bool (counted (st_race s) w')"
  shows "store_inv os start r0 \<lparr>st_race = (st_race s)\<lparr>race_db := db'\<rparr>, st_writers = (st_writers s)[v := w']\<rparr>"
proof -
  obtain K E where "row_readable (race_db (st_race s))" by (rule store_inv_table [OF os start inv])
  note W = still_world [OF still this]
  show ?thesis
  proof (rule store_inv_advance [OF inv v W])
    show "frame_ok start (race_db ((st_race s)\<lparr>race_db := db'\<rparr>))"
      using frame_still [OF store_invD(2) [OF inv] still offs] by simp
    show "writer_ok start ((st_race s)\<lparr>race_db := db'\<rparr>) w'" by (rule writer_ok_moves [OF W(2) ok])
    show "claim ((st_race s)\<lparr>race_db := db'\<rparr>) w' n \<subseteq> claim (st_race s) (st_writers s ! v) n \<union>
        {unat (rowAppendOffsets (race_db (st_race s)) ! n)..<unat (rowAppendOffsets (race_db ((st_race s)\<lparr>race_db := db'\<rparr>)) ! n)}" for n
      by (cases "w_call w'") (use range call in \<open>simp_all add: claim_def\<close>)
    show "rih_itemCount (RowIndexHeader (race_db ((st_race s)\<lparr>race_db := db'\<rparr>))) + of_bool (counted (st_race s) (st_writers s ! v)) =
        rih_itemCount (RowIndexHeader (race_db (st_race s))) + of_bool (counted ((st_race s)\<lparr>race_db := db'\<rparr>) w')"
      using items by (simp add: counted_def new_row_def)
  qed (use offs call pending in auto)
qed

text \<open>The changes that the steps of a writer make.\<close>

lemma still_pending: "mapped_data (rowIndexMap db) \<noteq> None \<Longrightarrow> still_db db (db\<lparr>rowPendingInsertCount := n\<rparr>)"
  by (simp add: still_db_def RowBuckets_def RowIndexHeader_def)

lemma still_refl: "mapped_data (rowIndexMap db) \<noteq> None \<Longrightarrow> still_db db db"
  by (simp add: still_db_def)

lemma still_header:
  assumes "mapped_data (rowIndexMap db) \<noteq> None" and "rih_bucketCount h = bucket_count db"
  shows "still_db db (set_RowIndexHeader h db)" and "RowIndexHeader (set_RowIndexHeader h db) = h"
    and "rowPendingInsertCount (set_RowIndexHeader h db) = rowPendingInsertCount db"
    and "rowAppendOffsets (set_RowIndexHeader h db) = rowAppendOffsets db"
proof -
  obtain v where v: "mapped_data (rowIndexMap db) = Some v" using assms(1) by blast
  have "RowBuckets db = ri_buckets v" using v by (simp add: RowBuckets_def)
  then show "still_db db (set_RowIndexHeader h db)" "RowIndexHeader (set_RowIndexHeader h db) = h"
    "rowPendingInsertCount (set_RowIndexHeader h db) = rowPendingInsertCount db"
    "rowAppendOffsets (set_RowIndexHeader h db) = rowAppendOffsets db"
    using assms(2) by (simp_all add: set_RowIndexHeader_with [OF v] still_db_def)
qed

lemma leave_simps [simp]:
  "stage_range db w (leave u st) n = {}" "past_count (leave u st)" "holds_slot (leave w st) = w_reserve w"
  "holding (w\<lparr>w_stage := leave w st\<rparr>) = w_reserve w"
  by (simp_all add: leave_def holding_def)

lemma outcome_ok_stage [simp]: "outcome_ok r (w\<lparr>w_stage := g\<rparr>) st = outcome_ok r w st"
  by (simp add: outcome_ok_def)

lemma layout_for_stage [simp]: "layout_for (w\<lparr>w_stage := g\<rparr>) q L = layout_for w q L"
  by (simp add: layout_for_def)

lemma call_for_stage [simp]: "call_for r (w\<lparr>w_stage := g\<rparr>) t = call_for r w t"
  by (simp add: call_for_def)

lemma new_row_stage [simp]: "new_row r (w\<lparr>w_stage := g\<rparr>) = new_row r w"
  by (simp add: new_row_def)

lemma stage_ok_stage [simp]: "stage_ok r (w\<lparr>w_stage := g\<rparr>) h = stage_ok r w h"
  by (cases h) simp_all

lemma writer_ok_stage: "writer_ok start r w \<Longrightarrow> stage_ok r w g \<Longrightarrow> writer_ok start r (w\<lparr>w_stage := g\<rparr>)"
  by (simp add: writer_ok_def)

lemma stage_ok_leave: "outcome_ok r w st \<Longrightarrow> stage_ok r w (leave w st)"
  by (simp add: leave_def)

lemma failed_not_ok:
  assumes "failure_ok db status"
  shows "\<not> IsOk status"
  using assms by (auto simp: failure_ok_def Corruption_def IsOk_def)

text \<open>A step that only moves the call to its next stage.\<close>

lemma keep_stage:
  assumes os: "reads_ok os" and start: "store_start start" and inv: "store_inv os start r0 s" and v: "v < length (st_writers s)"
    and w: "st_writers s ! v = w" and r': "r' = st_race s" and w': "w' = w\<lparr>w_stage := g\<rparr>" and g: "stage_ok (st_race s) w g"
    and range: "\<And>n. stage_range (race_db (st_race s)) w' g n = {}"
    and counts: "holding w' = holding w" "counted (st_race s) w' = counted (st_race s) w"
  shows "store_inv os start r0 \<lparr>st_race = r', st_writers = (st_writers s)[v := w']\<rparr>"
proof -
  let ?r = "st_race s"
  have ok: "writer_ok start ?r w" using store_invD(6) [OF inv] v w by force
  have mapped: "mapped_data (rowIndexMap (race_db ?r)) \<noteq> None" using store_invD(2) [OF inv] by (simp add: frame_ok_def)
  have "?r\<lparr>race_db := race_db ?r\<rparr> = ?r" by simp
  then show ?thesis
    using store_inv_still [OF os start inv v still_refl [OF mapped], of w'] w r' w' range counts writer_ok_stage [OF ok g] by simp
qed

lemma pending_stage:
  assumes os: "reads_ok os" and start: "store_start start" and inv: "store_inv os start r0 s" and v: "v < length (st_writers s)"
    and w: "st_writers s ! v = w" and step: "writer_step os (st_race s) w = Some (w', r')"
    and stage: "w_stage w = Load_Pending itemCount"
  shows "store_inv os start r0 \<lparr>st_race = r', st_writers = (st_writers s)[v := w']\<rparr>"
proof -
  let ?r = "st_race s"
  have ok: "writer_ok start ?r w" using store_invD(6) [OF inv] v w by force
  have mapped: "mapped_data (rowIndexMap (race_db ?r)) \<noteq> None" using store_invD(2) [OF inv] by (simp add: frame_ok_def)
  note here = keep_stage [OF os start inv v w]
  have w': "w_reserve w" "w_call w = None" using ok stage by (simp_all add: writer_ok_def)
  show ?thesis
  proof (cases "slot_refused (race_db ?r) itemCount (rowPendingInsertCount (race_db ?r))")
    case True
    show ?thesis
      by (rule here) (use step w' stage True in
          \<open>auto simp: writer_step_def holding_def counted_def new_row_def outcome_ok_def InvalidArgument_def IsOk_def Let_def\<close>)
  next
    case False
    show ?thesis
      by (rule here) (use step w' stage False in \<open>auto simp: writer_step_def holding_def counted_def Let_def\<close>)
  qed
qed

lemma exchange_stage:
  assumes os: "reads_ok os" and start: "store_start start" and inv: "store_inv os start r0 s" and v: "v < length (st_writers s)"
    and w: "st_writers s ! v = w" and step: "writer_step os (st_race s) w = Some (w', r')"
    and stage: "w_stage w = Exchange pending"
  shows "store_inv os start r0 \<lparr>st_race = r', st_writers = (st_writers s)[v := w']\<rparr>"
proof -
  let ?r = "st_race s"
  have ok: "writer_ok start ?r w" using store_invD(6) [OF inv] v w by force
  have mapped: "mapped_data (rowIndexMap (race_db ?r)) \<noteq> None" using store_invD(2) [OF inv] by (simp add: frame_ok_def)
  note put = store_inv_still [OF os start inv v, unfolded w]
  note here = keep_stage [OF os start inv v w]
  have w': "w_reserve w" "w_call w = None" using ok stage by (simp_all add: writer_ok_def)
  show ?thesis
  proof (cases "rowPendingInsertCount (race_db ?r) = pending")
    case True
    have "w' = w\<lparr>w_stage := Take_Sequence\<rparr>" "r' = ?r\<lparr>race_db := (race_db ?r)\<lparr>rowPendingInsertCount := pending + 1\<rparr>\<rparr>"
      using step stage True by (simp_all add: writer_step_def)
    then show ?thesis
      using put [OF still_pending [OF mapped], of "pending + 1" w'] True stage w' writer_ok_stage [OF ok, of Take_Sequence]
      by (simp add: holding_def counted_def RowIndexHeader_def)
  next
    case False
    show ?thesis
      by (rule here) (use step w' stage False in \<open>auto simp: writer_step_def holding_def counted_def\<close>)
  qed
qed

lemma sequence_stage:
  assumes os: "reads_ok os" and start: "store_start start" and inv: "store_inv os start r0 s" and v: "v < length (st_writers s)"
    and w: "st_writers s ! v = w" and step: "writer_step os (st_race s) w = Some (w', r')"
    and stage: "w_stage w = Take_Sequence"
  shows "store_inv os start r0 \<lparr>st_race = r', st_writers = (st_writers s)[v := w']\<rparr>"
proof -
  let ?r = "st_race s"
  have ok: "writer_ok start ?r w" using store_invD(6) [OF inv] v w by force
  have mapped: "mapped_data (rowIndexMap (race_db ?r)) \<noteq> None" using store_invD(2) [OF inv] by (simp add: frame_ok_def)
  note put = store_inv_still [OF os start inv v, unfolded w]
  let ?h = "RowIndexHeader (race_db ?r)"
  let ?db = "set_RowIndexHeader (?h\<lparr>rih_nextSequence := rih_nextSequence ?h + 1\<rparr>) (race_db ?r)"
  note H = still_header [OF mapped, of "?h\<lparr>rih_nextSequence := rih_nextSequence ?h + 1\<rparr>", simplified]
  have opts: "options ?db = options start"
    using H(1) store_invD(2) [OF inv] by (simp add: still_db_def frame_ok_def)
  obtain f where f: "maxLoadFactor (options ?db) = Fin f" "row_fits f (w_column w) (w_entries w)"
    using ok unfolding opts by (auto simp: writer_ok_def call_fits_def split: double.splits)
  obtain L where L: "BuildRowBlockLayout ?db (w_column w) (w_rowId w) (w_entries w) (rih_nextSequence ?h) (HashString (w_column w)) = Some (Inr L)"
    "layout_for w (rih_nextSequence ?h) L"
    using BuildRowBlockLayout_ok [OF f(1,2), of "w_rowId w" "rih_nextSequence ?h"] unfolding layout_for_def by metis
  have "w' = w\<lparr>w_stage := Append_Block (rih_nextSequence ?h) L\<rparr>" "r' = ?r\<lparr>race_db := ?db\<rparr>"
    using step stage L(1) by (simp_all add: writer_step_def NextRowSequence_def Let_def)
  moreover have "w_call w = None" using ok stage by (simp add: writer_ok_def)
  ultimately show ?thesis
    using put [OF H(1), of w'] H(2-4) stage L(2) writer_ok_stage [OF ok, of "Append_Block (rih_nextSequence ?h) L"]
    by (simp add: holding_def counted_def)
qed

lemma index_stage:
  assumes os: "reads_ok os" and start: "store_start start" and inv: "store_inv os start r0 s" and v: "v < length (st_writers s)"
    and w: "st_writers s ! v = w" and step: "writer_step os (st_race s) w = Some (w', r')"
    and stage: "w_stage w = Indexing"
  shows "store_inv os start r0 \<lparr>st_race = r', st_writers = (st_writers s)[v := w']\<rparr>"
proof -
  let ?r = "st_race s"
  have ok: "writer_ok start ?r w" using store_invD(6) [OF inv] v w by force
  have mapped: "mapped_data (rowIndexMap (race_db ?r)) \<noteq> None" using store_invD(2) [OF inv] by (simp add: frame_ok_def)
  note here = keep_stage [OF os start inv v w]
  obtain t where t: "w_call w = Some t" using ok stage by (auto simp: writer_ok_def)
  obtain K E where race: "race_inv (written start (race_threads ?r)) K E ?r" by (rule store_inv_table [OF os start inv])
  have "t < length (race_threads ?r)" using ok t by (simp add: writer_ok_def call_for_def)
  then have fail: "failure_ok (race_db ?r) status" if "snd (race_threads ?r ! t) = Failed status" for status
    using race_invD(3) [OF race, of t] that by simp
  show ?thesis
  proof (cases "snd (race_threads ?r ! t)")
    case (Inserted new)
    then have ok': "outcome_ok ?r w Ok" using t by (simp add: outcome_ok_def Ok_def IsOk_def)
    show ?thesis
    proof (cases new)
      case True
      show ?thesis
        by (rule here [where g = Count_Item]) (use step t stage Inserted True in \<open>auto simp: writer_step_def holding_def counted_def\<close>)
    next
      case False
      show ?thesis
        by (rule here [where g = "leave w Ok"], insert step t stage Inserted False stage_ok_leave [OF ok'])
          (auto simp: writer_step_def holding_def counted_def new_row_def)
    qed
  next
    case (Failed status)
    then have ok': "outcome_ok ?r w status" using t failed_not_ok [OF fail] by (simp add: outcome_ok_def)
    show ?thesis
      by (rule here [where g = "leave w status"], insert step t stage Failed stage_ok_leave [OF ok'])
        (auto simp: writer_step_def holding_def counted_def new_row_def)
  qed (use step t stage in \<open>simp_all add: writer_step_def\<close>)
qed

lemma count_stage:
  assumes os: "reads_ok os" and start: "store_start start" and inv: "store_inv os start r0 s" and v: "v < length (st_writers s)"
    and w: "st_writers s ! v = w" and step: "writer_step os (st_race s) w = Some (w', r')"
    and stage: "w_stage w = Count_Item"
  shows "store_inv os start r0 \<lparr>st_race = r', st_writers = (st_writers s)[v := w']\<rparr>"
proof -
  let ?r = "st_race s"
  have ok: "writer_ok start ?r w" using store_invD(6) [OF inv] v w by force
  have mapped: "mapped_data (rowIndexMap (race_db ?r)) \<noteq> None" using store_invD(2) [OF inv] by (simp add: frame_ok_def)
  note put = store_inv_still [OF os start inv v, unfolded w]
  let ?h = "RowIndexHeader (race_db ?r)"
  obtain t where t: "w_call w = Some t" "snd (race_threads ?r ! t) = Inserted True" using ok stage by (auto simp: writer_ok_def)
  note H = still_header [OF mapped, of "?h\<lparr>rih_itemCount := rih_itemCount ?h + 1\<rparr>", simplified]
  have "w' = w\<lparr>w_stage := leave w Ok\<rparr>" "r' = ?r\<lparr>race_db := increment_rowItemCount (race_db ?r)\<rparr>"
    using step stage by (simp_all add: writer_step_def)
  moreover have "outcome_ok ?r w Ok" using t by (auto simp: outcome_ok_def Ok_def IsOk_def intro: exI [of _ True])
  ultimately show ?thesis
    using put [OF H(1), of w'] H(2-4) stage t writer_ok_stage [OF ok stage_ok_leave, of Ok]
    by (simp add: counted_def new_row_def increment_rowItemCount_def) (simp add: holding_def)
qed

lemma release_stage:
  assumes os: "reads_ok os" and start: "store_start start" and inv: "store_inv os start r0 s" and v: "v < length (st_writers s)"
    and w: "st_writers s ! v = w" and step: "writer_step os (st_race s) w = Some (w', r')"
    and stage: "w_stage w = Release_Slot st"
  shows "store_inv os start r0 \<lparr>st_race = r', st_writers = (st_writers s)[v := w']\<rparr>"
proof -
  let ?r = "st_race s"
  have ok: "writer_ok start ?r w" using store_invD(6) [OF inv] v w by force
  have mapped: "mapped_data (rowIndexMap (race_db ?r)) \<noteq> None" using store_invD(2) [OF inv] by (simp add: frame_ok_def)
  note put = store_inv_still [OF os start inv v, unfolded w]
  have "w' = w\<lparr>w_stage := Returned st\<rparr>" "r' = ?r\<lparr>race_db := ReleaseRowIndexInsertSlot (race_db ?r)\<rparr>"
    using step stage by (simp_all add: writer_step_def)
  then show ?thesis
    using put [OF still_pending [OF mapped], of "rowPendingInsertCount (race_db ?r) - 1" w'] stage ok
      writer_ok_stage [OF ok, of "Returned st"]
    by (simp add: holding_def counted_def RowIndexHeader_def ReleaseRowIndexInsertSlot_def writer_ok_def)
qed

text \<open>The steps that neither append nor transfer.\<close>

lemma local_stage:
  assumes os: "reads_ok os" and start: "store_start start" and inv: "store_inv os start r0 s" and v: "v < length (st_writers s)"
    and w: "st_writers s ! v = w" and step: "writer_step os (st_race s) w = Some (w', r')"
    and stage: "\<And>q L off. w_stage w \<noteq> Append_Block q L \<and> w_stage w \<noteq> Transfer_Block q L off"
  shows "store_inv os start r0 \<lparr>st_race = r', st_writers = (st_writers s)[v := w']\<rparr>"
proof (cases "w_stage w")
  case Load_Items
  have "writer_ok start (st_race s) w" using store_invD(6) [OF inv] v w by force
  then show ?thesis
    by (intro keep_stage [OF os start inv v w])
      (use step Load_Items in \<open>auto simp: writer_step_def writer_ok_def holding_def counted_def\<close>)
next
  case Load_Pending
  then show ?thesis by (rule pending_stage [OF os start inv v w step])
next
  case Exchange
  then show ?thesis by (rule exchange_stage [OF os start inv v w step])
next
  case Take_Sequence
  then show ?thesis by (rule sequence_stage [OF os start inv v w step])
next
  case Indexing
  then show ?thesis by (rule index_stage [OF os start inv v w step])
next
  case Count_Item
  then show ?thesis by (rule count_stage [OF os start inv v w step])
next
  case Release_Slot
  then show ?thesis by (rule release_stage [OF os start inv v w step])
qed (use step stage in \<open>simp_all add: writer_step_def\<close>)

subsection \<open>Appending and transferring\<close>

lemma overwrite_nth:
  assumes "p < length c" and "p < off \<or> off + length bs \<le> p"
  shows "p < length (overwrite c off bs) \<and> overwrite c off bs ! p = c ! p"
proof (cases "bs = []")
  case False
  have "overwrite c off bs ! p = c ! p" if "p < off" using that assms(1) False by (simp add: overwrite_def nth_append)
  moreover have "overwrite c off bs ! p = c ! p" if p: "off + length bs \<le> p"
  proof -
    have "off \<le> p" "\<not> p - off < length bs" using p by linarith+
    then show ?thesis using p assms(1) False by (simp add: overwrite_def nth_append)
  qed
  ultimately show ?thesis using assms length_overwrite_ge [of c off bs] by force
qed (use assms in simp)

lemma length_overwrite_le:
  assumes "length bs \<le> m"
  shows "length (overwrite c off bs) \<le> max (length c) (off + m)"
  using assms by (cases "bs = []") (simp_all add: length_overwrite)

lemma layout_shard:
  assumes "store_start start" and "frame_ok start db"
  shows "unat (writer_shard db w) < length (rowValueFiles start)" and "\<And>t. \<not> (t < length (rowValueMaps db) \<and> IsMapped (rowValueMaps db ! t))"
    and "\<And>t. t < length (rowValueFiles start) \<Longrightarrow> rowValueFiles db ! t \<noteq> None" and "distinct (rowValueFiles db)"
proof -
  have core: "row_core_ok start" using assms(1) by (simp add: store_start_def row_ok_def)
  have F: "rowValueFiles db = rowValueFiles start" "rowValueMaps db = rowValueMaps start" using assms(2) by (simp_all add: frame_ok_def)
  show "unat (writer_shard db w) < length (rowValueFiles start)"
    using shard_index [of db] core by (simp add: writer_shard_def F row_core_ok_def)
  show "\<not> (t < length (rowValueMaps db) \<and> IsMapped (rowValueMaps db ! t))" for t
    using core unfolding F row_core_ok_def by (meson nth_mem)
  show "rowValueFiles db ! t \<noteq> None" if "t < length (rowValueFiles start)" for t
    using core that unfolding F row_core_ok_def by (metis nth_mem)
  show "distinct (rowValueFiles db)" using core by (simp add: F row_core_ok_def)
qed

lemma append_stage:
  assumes os: "reads_ok os" and start: "store_start start" and inv: "store_inv os start r0 s" and v: "v < length (st_writers s)"
    and w: "st_writers s ! v = w" and step: "writer_step os (st_race s) w = Some (w', r')" and stage: "w_stage w = Append_Block q L"
    and small: "small_files \<lparr>st_race = r', st_writers = (st_writers s)[v := w']\<rparr>"
  shows "store_inv os start r0 \<lparr>st_race = r', st_writers = (st_writers s)[v := w']\<rparr>"
proof -
  let ?r = "st_race s" let ?db = "race_db ?r" let ?n = "unat (writer_shard ?db w)" let ?sz = "rb_blockSize (rl_header L)"
  define off where "off = rowAppendOffsets ?db ! ?n"
  define db' where "db' = ?db\<lparr>rowAppendOffsets := (rowAppendOffsets ?db)[?n := off + ?sz]\<rparr>"
  have frame: "frame_ok start ?db" by (rule store_invD(2) [OF inv])
  have ok: "writer_ok start ?r w" using store_invD(6) [OF inv] v w by force
  have none: "w_call w = None" and L: "layout_for w q L" using ok stage by (simp_all add: writer_ok_def)
  have w': "w' = w\<lparr>w_stage := Transfer_Block q L off\<rparr>" and r': "r' = ?r\<lparr>race_db := db'\<rparr>"
    using step stage by (simp_all add: writer_step_def Let_def db'_def off_def)
  have n: "?n < length (rowValueFiles start)" by (rule layout_shard(1) [OF start frame])
  have len: "length (rowAppendOffsets ?db) = length (rowValueFiles start)" using frame by (simp add: frame_ok_def)
  have sz: "unat ?sz = layout_size (w_column w) L" "layout_size (w_column w) L < 2 ^ 62"
    using L layout_okD(12) by (auto simp: layout_for_def)
  have off: "unat off < 2 ^ 62" using frame n by (simp add: frame_ok_def off_def)
  have sum: "unat (off + ?sz) = unat off + layout_size (w_column w) L"
    using unat_add64 [of off ?sz] off sz by simp
  have offs: "rowAppendOffsets db' ! k = (if k = ?n then off + ?sz else rowAppendOffsets ?db ! k)" if "k < length (rowValueFiles start)" for k
    using n len by (simp add: db'_def)
  have bound: "unat (rowAppendOffsets db' ! k) < 2 ^ 62" if "k < length (rowValueFiles start)" for k
    using small that len unfolding small_files_def r' by (simp add: db'_def)
  have still: "still_db ?db db'" using frame by (simp add: still_db_def db'_def RowBuckets_def RowIndexHeader_def frame_ok_def)
  obtain K E where "row_readable ?db" by (rule store_inv_table [OF os start inv])
  note W = still_world [OF still this]
  have up: "unat (rowAppendOffsets ?db ! k) \<le> unat (rowAppendOffsets db' ! k)" if "k < length (rowValueFiles start)" for k
    using offs [OF that] sum by (simp add: off_def [symmetric])
  have grown: "length (row_bytes db' k) \<le> unat (rowAppendOffsets db' ! k) \<and> length (row_bytes start k) \<le> unat (rowAppendOffsets db' ! k)"
    if k: "k < length (rowValueFiles start)" for k
  proof -
    have "length (row_bytes ?db k) \<le> unat (rowAppendOffsets ?db ! k)" "length (row_bytes start k) \<le> unat (rowAppendOffsets ?db ! k)"
      using frame k by (simp_all add: frame_ok_def)
    then show ?thesis using up [OF k] unfolding still_db_bytes(1) [OF still] by linarith
  qed
  have len': "length (rowAppendOffsets db') = length (rowValueFiles start)" using len by (simp add: db'_def)
  have shard: "writer_shard db' w' = writer_shard ?db w" by (simp add: writer_shard_def w' db'_def ShardForRow_def)
  show ?thesis
  proof (rule store_inv_advance [OF inv v W [folded r']])
    show "frame_ok start (race_db r')"
      using frame still grown bound len' by (simp add: r' frame_ok_def still_db_def)
    have "writer_ok start ?r w'"
      unfolding w' by (rule writer_ok_stage [OF ok]) (use none L off sz(2) in simp)
    then show "writer_ok start r' w'" by (rule writer_ok_moves [OF W(2) [folded r']])
    show "unat (rowAppendOffsets ?db ! k) \<le> unat (rowAppendOffsets (race_db r') ! k)" if "k < length (rowValueFiles start)" for k
      using up [OF that] by (simp add: r')
    show "claim r' w' k \<subseteq> claim ?r (st_writers s ! v) k \<union> {unat (rowAppendOffsets ?db ! k)..<unat (rowAppendOffsets (race_db r') ! k)}"
      if "k < length (rowValueFiles start)" for k
      using none offs [OF that] sum shard by (auto simp: r' claim_def w' off_def)
  qed (use none stage in \<open>auto simp: r' w' w holding_def counted_def new_row_def db'_def RowIndexHeader_def\<close>)
qed

text \<open>A transfer changes the bytes of its own block only, whatever its outcome.\<close>

lemma transfer_files:
  assumes start: "store_start start" and frame: "frame_ok start db" and n: "n < length (rowValueFiles start)"
    and L: "layout_ok c i L" and below: "unat off + layout_size c L \<le> unat (rowAppendOffsets db ! n)"
    and apart: "{unat off ..< unat off + layout_size c L} \<inter> W n = {}"
    and shape: "table_shape db"
    and wr: "WriteVAllAt os (filesys db) (rowValueFiles db ! n) (block_slices c L) off = (st, fs)"
  shows "world_moves W db (db\<lparr>filesys := fs\<rparr>)" and "frame_ok start (db\<lparr>filesys := fs\<rparr>)"
    and "IsOk st \<Longrightarrow> block_at (row_bytes (db\<lparr>filesys := fs\<rparr>) n) (unat off) c L"
proof -
  let ?db = "db\<lparr>filesys := fs\<rparr>" and ?data = "block_bytes c L"
  note S = layout_shard(2-4) [OF start frame]
  have F: "rowValueFiles db = rowValueFiles start" using frame by (simp add: frame_ok_def)
  obtain path where path: "rowValueFiles db ! n = Some path" using S(2) [OF n] by blast
  have bytes: "row_bytes db t = file_content (filesys db) (the (rowValueFiles db ! t))"
      "row_bytes ?db t = file_content fs (the (rowValueFiles db ! t))" for t
    using S(1) [of t] by (auto simp: row_bytes_def)
  have pre: "wrote_prefix (row_bytes db n) (unat off) ?data st (row_bytes ?db n)"
    and other: "\<And>q. q \<noteq> path \<Longrightarrow> files fs q = files (filesys db) q"
    using WriteVAllAt_prefix [OF wr [unfolded path]] by (simp_all add: bytes path block_bytes_def)
  have size: "length ?data = layout_size c L" by (rule length_block_bytes [OF L])
  obtain k where k: "row_bytes ?db n = overwrite (row_bytes db n) (unat off) (take k ?data)"
    using pre by (auto simp: wrote_prefix_def)
  have keep: "row_bytes ?db t = row_bytes db t" if t: "t < length (rowValueFiles start)" "t \<noteq> n" for t
  proof -
    have "rowValueFiles db ! t \<noteq> Some path" using S(3) t n path F by (metis nth_eq_iff_index_eq)
    then show ?thesis using other S(2) [OF t(1)] by (auto simp: bytes file_content_def)
  qed
  have lens: "length (row_bytes ?db t) \<le> unat (rowAppendOffsets db ! t)" if t: "t < length (rowValueFiles start)" for t
  proof (cases "t = n")
    case True
    have "length (row_bytes ?db n) \<le> max (length (row_bytes db n)) (unat off + length ?data)"
      unfolding k by (rule length_overwrite_le) simp
    moreover have "length (row_bytes db n) \<le> unat (rowAppendOffsets db ! n)" using frame n by (simp add: frame_ok_def)
    ultimately show ?thesis using True below size by simp
  next
    case False
    then show ?thesis using keep [OF t] frame t by (simp add: frame_ok_def)
  qed
  show "frame_ok start ?db" using frame lens by (simp add: frame_ok_def)
  have fine: "p < length (row_bytes ?db t) \<and> row_bytes ?db t ! p = row_bytes db t ! p"
    if t: "t < length (rowValueFiles start)" "p \<in> W t" "p < length (row_bytes db t)" for t p
  proof (cases "t = n")
    case True
    have "p < unat off \<or> unat off + layout_size c L \<le> p" using apart t(2) True by (meson atLeastLessThan_iff disjoint_iff not_less)
    then have "p < unat off \<or> unat off + length (take k ?data) \<le> p" using size by auto
    then show ?thesis using overwrite_nth t(3) True k by metis
  qed (use keep [OF t(1)] t(3) in simp)
  have "row_readable ?db"
    unfolding row_readable_def
  proof (intro allI impI conjI)
    fix t assume "t < length (rowValueFiles ?db)"
    then have t: "t < length (rowValueFiles start)" by (simp add: F)
    have "unat (rowAppendOffsets db ! t) < 2 ^ 62" using frame t by (simp add: frame_ok_def)
    then show "length (row_bytes ?db t) < 2 ^ 63" using lens [OF t] by simp
    show "if t < length (rowValueMaps ?db) \<and> IsMapped (rowValueMaps ?db ! t)
         then unat (mapped_size (rowValueMaps ?db ! t)) = length (row_bytes ?db t) else rowValueFiles ?db ! t \<noteq> None"
      using S(1) [of t] S(2) [OF t] by auto
  qed
  then show "world_moves W db ?db"
    using fine shape F by (simp add: world_moves_def keeps_bytes_def RowBuckets_def RowIndexHeader_def table_shape_def)
  have ne: "?data \<noteq> []" using size by (auto simp: layout_size_def)
  show "block_at (row_bytes ?db n) (unat off) c L" if "IsOk st"
    unfolding wrote_prefix_ok [OF pre that] block_at_def
    using overwrite_read [of ?data "unat off" "row_bytes db n"] length_overwrite [OF ne, of "row_bytes db n" "unat off"] size by simp
qed

lemma transfer_claim:
  assumes inv: "store_inv os start r0 s" and v: "v < length (st_writers s)" and stage: "w_stage (st_writers s ! v) = Transfer_Block q L off"
    and n: "n = unat (writer_shard (race_db (st_race s)) (st_writers s ! v))" "n < length (rowValueFiles start)"
  shows "unat off + layout_size (w_column (st_writers s ! v)) L \<le> unat (rowAppendOffsets (race_db (st_race s)) ! n)"
    and "{unat off ..< unat off + layout_size (w_column (st_writers s ! v)) L} \<inter> written start (race_threads (st_race s)) n = {}"
    and "w_call (st_writers s ! v) = None" and "layout_for (st_writers s ! v) q L"
proof -
  let ?w = "st_writers s ! v"
  have "writer_ok start (st_race s) ?w" using store_invD(6) [OF inv] v by simp
  then show none: "w_call ?w = None" and "layout_for ?w q L" using stage by (simp_all add: writer_ok_def)
  have c: "claim (st_race s) ?w n = {unat off ..< unat off + layout_size (w_column ?w) L}"
    using none stage n(1) by (simp add: claim_def)
  show "{unat off ..< unat off + layout_size (w_column ?w) L} \<inter> written start (race_threads (st_race s)) n = {}"
    using transfer_apart [OF inv n(2) v none] by (simp only: c)
  have "{unat off ..< unat off + layout_size (w_column ?w) L} \<subseteq> {length (row_bytes start n) ..< unat (rowAppendOffsets (race_db (st_race s)) ! n)}"
    using store_invD(3) [OF inv] v n(2) unfolding claims_ok_def c [symmetric] by blast
  moreover have "layout_size (w_column ?w) L \<noteq> 0" by (simp add: layout_size_def)
  ultimately show "unat off + layout_size (w_column ?w) L \<le> unat (rowAppendOffsets (race_db (st_race s)) ! n)"
    by (simp add: atLeastLessThan_subset_iff)
qed

lemma writer_bucket_at:
  assumes "layout_for w q L" and "block_at (row_bytes db (unat (writer_shard db w))) (unat off) (w_column w) L"
    and "unat (writer_shard db w) < length (rowValueFiles db)"
  shows "row_bucket_at (shards_of db) (data_bucket (writer_bucket db w q L off)) (w_column w) L"
    and "job_ready db (Insert (w_column w) (writer_bucket db w q L off))"
proof -
  let ?d = "writer_bucket db w q L off"
  show at: "row_bucket_at (shards_of db) (data_bucket ?d) (w_column w) L"
    using assms by (simp add: row_bucket_at_def writer_bucket_def layout_for_def data_bucket_def StoreRowBucketData_def RowIndexBucket_default_def)
  have "rd_shardId ?d = ShardForRow db (rd_columnHash ?d) (rd_rowId ?d)" by (simp add: writer_bucket_def writer_shard_def)
  then show "job_ready db (Insert (w_column w) ?d)" using at by (auto simp: job_ready_def)
qed

lemma transfer_stage:
  assumes os: "reads_ok os" and start: "store_start start" and inv: "store_inv os start r0 s" and v: "v < length (st_writers s)"
    and w: "st_writers s ! v = w" and step: "writer_step os (st_race s) w = Some (w', r')" and stage: "w_stage w = Transfer_Block q L off"
  shows "store_inv os start r0 \<lparr>st_race = r', st_writers = (st_writers s)[v := w']\<rparr>"
proof -
  let ?r = "st_race s" let ?db = "race_db ?r" let ?n = "unat (writer_shard ?db w)"
  obtain st fs where wr: "WriteVAllAt os (filesys ?db) (rowValueFiles ?db ! ?n) (block_slices (w_column w) L) off = (st, fs)"
    by fastforce
  define db' where "db' = ?db\<lparr>filesys := fs\<rparr>"
  have frame: "frame_ok start ?db" by (rule store_invD(2) [OF inv])
  have ok: "writer_ok start ?r w" using store_invD(6) [OF inv] v w by force
  have n: "?n < length (rowValueFiles start)" by (rule layout_shard(1) [OF start frame])
  note C = transfer_claim [OF inv v stage [folded w], unfolded w, OF refl n]
  have L: "layout_ok (w_column w) (w_rowId w) L" using C(4) by (simp add: layout_for_def)
  obtain K E where shape: "table_shape ?db" by (rule store_inv_table [OF os start inv])
  note T = transfer_files [where W = "written start (race_threads ?r)", OF start frame n L C(1,2) shape wr, folded db'_def]
  note run = race_world [OF T(1), of os]
  have keep: "keeps_bytes (written start (race_threads ?r)) (shards_of ?db) (shards_of db')" using T(1) by (simp add: world_moves_def)
  have fld: "rowValueFiles db' = rowValueFiles ?db" "rowAppendOffsets db' = rowAppendOffsets ?db" "RowIndexHeader db' = RowIndexHeader ?db"
    "rowPendingInsertCount db' = rowPendingInsertCount ?db" by (simp_all add: db'_def RowIndexHeader_def)
  have shard: "writer_shard db' w = writer_shard ?db w" by (simp add: writer_shard_def ShardForRow_def fld)
  show ?thesis
  proof (cases "IsOk st")
    case False
    have w': "w' = w\<lparr>w_stage := leave w st\<rparr>" and r': "r' = ?r\<lparr>race_db := db'\<rparr>"
      using step stage wr False by (simp_all add: writer_step_def Let_def db'_def)
    have moves: "race_moves start ?r r'" unfolding r' by (rule race_moves_world [OF keep fld(1)])
    have "outcome_ok ?r w st" using C(3) False by (simp add: outcome_ok_def)
    note ok' = writer_ok_moves [OF moves writer_ok_stage [OF ok stage_ok_leave [OF this], folded w']]
    show ?thesis
    proof (rule store_inv_advance [OF inv v run [folded r'] moves _ ok'])
      show "claim r' w' k \<subseteq> claim ?r (st_writers s ! v) k \<union> {unat (rowAppendOffsets ?db ! k)..<unat (rowAppendOffsets (race_db r') ! k)}" for k
        using C(3) by (simp add: w' claim_def)
    qed (use T(2) C(3) stage in \<open>auto simp: r' w' w fld holding_def counted_def new_row_def\<close>)
  next
    case True
    let ?d = "writer_bucket ?db w q L off"
    let ?th = "(Insert (w_column w) ?d, probe_from (bucket_count ?db) 0)"
    have w': "w' = w\<lparr>w_stage := Indexing, w_call := Some (length (race_threads ?r))\<rparr>"
      and r': "r' = \<lparr>race_db = db', race_threads = race_threads ?r @ [?th]\<rparr>"
      using step stage wr True by (simp_all add: writer_step_def Let_def db'_def)
    have d: "writer_bucket db' w q L off = ?d" by (simp add: writer_bucket_def shard)
    have files: "rowValueFiles ?db = rowValueFiles start" using frame by (simp add: frame_ok_def)
    note B = writer_bucket_at [OF C(4), of db' off, unfolded shard d]
    have at: "row_bucket_at (shards_of db') (data_bucket ?d) (w_column w) L" "job_ready db' (Insert (w_column w) ?d)"
      using B T(3) [OF True] n fld(1) files by simp_all
    have "race_step os start (?r\<lparr>race_db := db'\<rparr>) r'"
      using race_step.arrive [of "?r\<lparr>race_db := db'\<rparr>" "Insert (w_column w) ?d" os start] at(2) by (simp add: r' fld)
    with run have run': "race_run os start ?r r'" by (rule rtranclp.rtrancl_into_rtrancl)
    have moves: "race_moves start ?r r'" using keep by (simp add: race_moves_def r' nth_append fld)
    have "call_for r' w' (length (race_threads ?r))"
      using at(1) C(4) by (auto simp: call_for_def r' w' layout_for_def writer_bucket_def)
    then have ok': "writer_ok start r' w'" using ok by (simp add: writer_ok_def w')
    have fresh: "probe_from (bucket_count ?db) 0 \<noteq> Inserted True" by simp
    have size: "unat (rb_blockSize (rl_header L)) = layout_size (w_column w) L" by (rule layout_okD(12) [OF L])
    show ?thesis
    proof (rule store_inv_advance [OF inv v run' moves _ ok'])
      show "claim r' w' k \<subseteq> claim ?r (st_writers s ! v) k \<union> {unat (rowAppendOffsets ?db ! k)..<unat (rowAppendOffsets (race_db r') ! k)}" for k
        using C(3) stage size by (simp add: w' r' w claim_def writer_bucket_def)
    qed (use T(2) C(3) stage fresh in \<open>auto simp: r' w' w fld holding_def counted_def new_row_def\<close>)
  qed
qed

subsection \<open>Every step keeps the invariant\<close>

lemma thread_step_writes:
  assumes step: "thread_step os job db pc = (pc', db')"
  shows "db' = db \<or> (\<exists>i b. db' = set_RowBucket i b db)"
proof (cases "(os, job, db, pc)" rule: thread_step.cases)
  case (3 _ job _ p b)
  then show ?thesis using step by (auto simp: Let_def split: if_splits)
qed (use step in \<open>auto simp: Let_def split: if_splits job.splits sum.splits option.splits\<close>)

lemma thread_step_frame:
  assumes shape: "table_shape db" and step: "thread_step os job db pc = (pc', db')"
  shows "\<exists>v. db' = with_row_index v db" and "RowIndexHeader db' = RowIndexHeader db"
proof -
  obtain v where v: "mapped_data (rowIndexMap db) = Some v" using shape by (auto simp: table_shape_def)
  have "db = with_row_index v db" using v by (simp add: with_row_index_def)
  moreover have "\<exists>u. set_RowBucket i b db = with_row_index u db" for i b unfolding set_RowBucket_with [OF v] by blast
  ultimately show "\<exists>v. db' = with_row_index v db" "RowIndexHeader db' = RowIndexHeader db"
    using thread_step_writes [OF step] set_RowBucket_shape(2) [OF shape] by metis+
qed

lemma index_step:
  assumes os: "reads_ok os" and start: "store_start start" and inv: "store_inv os start r0 s"
    and t: "t < length (race_threads (st_race s))" and th: "race_threads (st_race s) ! t = (job, pc)" and go: "\<not> finished pc"
    and step: "thread_step os job (race_db (st_race s)) pc = (pc', db')"
  shows "store_inv os start r0 (s\<lparr>st_race := \<lparr>race_db = db', race_threads = (race_threads (st_race s))[t := (job, pc')]\<rparr>\<rparr>)"
proof -
  let ?r = "st_race s" let ?r' = "\<lparr>race_db = db', race_threads = (race_threads ?r)[t := (job, pc')]\<rparr>"
  obtain K E where shape: "table_shape (race_db ?r)" by (rule store_inv_table [OF os start inv])
  note F = thread_step_frame [OF shape step]
  obtain v where v: "db' = with_row_index v (race_db ?r)" using F(1) by blast
  show ?thesis
  proof (rule store_inv_race [OF inv])
    show "race_run os start ?r ?r'" using race_step.turn [OF t th go step] by (rule r_into_rtranclp)
    show "race_moves start ?r ?r'" using th go t by (auto simp: race_moves_def nth_list_update v)
    show "frame_ok start (race_db ?r')"
      using store_invD(2) [OF inv] by (simp add: frame_ok_def v)
  qed (use F(2) v in simp_all)
qed

lemma lookup_step:
  assumes os: "reads_ok os" and start: "store_start start" and inv: "store_inv os start r0 s"
  shows "store_inv os start r0 (s\<lparr>st_race := \<lparr>race_db = race_db (st_race s), race_threads = race_threads (st_race s) @
    [(Find c i (HashString c), probe_from (bucket_count (race_db (st_race s))) 0)]\<rparr>\<rparr>)"
proof -
  let ?r = "st_race s"
  have "job_ready (race_db ?r) (Find c i (HashString c))" by (simp add: job_ready_def)
  note run = race_step.arrive [OF this, of os start]
  show ?thesis
    by (rule store_inv_race [OF inv r_into_rtranclp [of "race_step os start", OF run]])
      (use store_invD(2) [OF inv] in \<open>auto simp: race_moves_def nth_append less_Suc_eq\<close>)
qed

lemma first_stage_ok:
  assumes "w_call w = None" and "w_reserve w \<or> \<not> reserve" and "w_reserve w = reserve"
  shows "stage_ok r w (first_stage db c es reserve)" and "\<not> (reserve \<and> holds_slot (first_stage db c es reserve))"
    and "stage_range db' w (first_stage db c es reserve) n = {}"
  using assms by (simp_all add: first_stage_def outcome_ok_def NotOpen_def InvalidArgument_def IsOk_def)

lemma call_step:
  assumes inv: "store_inv os start r0 s" and fits: "call_fits (race_db (st_race s)) c es"
  shows "store_inv os start r0 (s\<lparr>st_writers := st_writers s @ [\<lparr>w_column = c, w_rowId = i, w_entries = es,
      w_reserve = reserve, w_call = None, w_stage = first_stage (race_db (st_race s)) c es reserve\<rparr>]\<rparr>)"
proof -
  let ?r = "st_race s" and ?ws = "st_writers s"
  let ?w = "\<lparr>w_column = c, w_rowId = i, w_entries = es, w_reserve = reserve, w_call = None,
    w_stage = first_stage (race_db (st_race s)) c es reserve\<rparr>"
  note D = store_invD [OF inv]
  note S = first_stage_ok [of ?w reserve, simplified]
  have "options (race_db ?r) = options start" using D(2) by (simp add: frame_ok_def)
  then have ok: "writer_ok start ?r ?w" using fits S(1) by (simp add: writer_ok_def call_fits_def)
  have none: "claim ?r ?w n = {}" for n using S(3) by (simp add: claim_def)
  have "claims_ok start ?r (?ws @ [?w])"
    using D(3) none unfolding claims_ok_def by (auto simp: nth_append less_Suc_eq)
  moreover have "calls_ok ?r (?ws @ [?w])"
    using D(4) unfolding calls_ok_def by (auto simp: nth_append less_Suc_eq)
  moreover have "\<not> holding ?w" "\<not> counted ?r ?w" using S(2) by (auto simp: holding_def counted_def new_row_def)
  then have "counts_ok start ?r (?ws @ [?w])" using D(5) by (simp add: counts_ok_def)
  ultimately show ?thesis using D(2,6) ok store_inv_run [OF inv rtranclp.rtrancl_refl] by (simp add: store_inv_def)
qed

lemma store_move_keeps:
  assumes os: "reads_ok os" and start: "store_start start" and inv: "store_inv os start r0 s" and move: "store_move os s s'"
  shows "store_inv os start r0 s'"
proof -
  have step: "store_step os s s'" and small: "small_files s'" using move by (simp_all add: store_move_def)
  from step show ?thesis
  proof cases
    case (index t job pc pc' db')
    then show ?thesis using index_step [OF os start inv] by blast
  next
    case (lookup c i)
    then show ?thesis using lookup_step [OF os start inv] by blast
  next
    case (call c es reserve i)
    then show ?thesis using call_step [OF inv] by blast
  next
    case (advance v w' r')
    show ?thesis
    proof (cases "\<exists>q L off. w_stage (st_writers s ! v) = Append_Block q L \<or> w_stage (st_writers s ! v) = Transfer_Block q L off")
      case True
      then show ?thesis
        using append_stage [OF os start inv advance(2) refl advance(3)] transfer_stage [OF os start inv advance(2) refl advance(3)]
          small advance(1) by auto
    next
      case False
      then show ?thesis using local_stage [OF os start inv advance(2) refl advance(3)] advance(1) by auto
    qed
  next
    case (spurious v pending)
    let ?w = "st_writers s ! v"
    have ok: "writer_ok start (st_race s) ?w" using store_invD(6) [OF inv] spurious(2) by simp
    have mapped: "mapped_data (rowIndexMap (race_db (st_race s))) \<noteq> None" using store_invD(2) [OF inv] by (simp add: frame_ok_def)
    have eq: "s\<lparr>st_writers := ws\<rparr> = \<lparr>st_race = st_race s, st_writers = ws\<rparr>" for ws by (cases s) simp
    have "w_reserve ?w" "w_call ?w = None" using ok spurious(3) by (simp_all add: writer_ok_def)
    then have "store_inv os start r0 \<lparr>st_race = st_race s, st_writers = (st_writers s)[v := ?w\<lparr>w_stage := Load_Items\<rparr>]\<rparr>"
      using store_inv_still [OF os start inv spurious(2) still_refl [OF mapped], of "?w\<lparr>w_stage := Load_Items\<rparr>"] spurious
        writer_ok_stage [OF ok, of Load_Items] by (simp add: holding_def counted_def)
    then show ?thesis unfolding spurious(1) eq .
  qed
qed

lemma start_store_inv:
  assumes start: "store_start db"
  shows "store_inv os db \<lparr>race_db = db, race_threads = []\<rparr> \<lparr>st_race = \<lparr>race_db = db, race_threads = []\<rparr>, st_writers = []\<rparr>"
proof -
  have core: "row_core_ok db" "rowPendingInsertCount db = 0" using start by (simp_all add: store_start_def row_ok_def)
  have "unat (rowAppendOffsets db ! n) < 2 ^ 62" if "n < length (rowValueFiles db)" for n
    using start core(1) that by (simp add: store_start_def row_core_ok_def)
  then have "frame_ok db db" using core(1) by (auto simp: frame_ok_def row_core_ok_def)
  then show ?thesis
    using core(2) by (simp add: store_inv_def reachable_def claims_ok_def calls_ok_def counts_ok_def)
qed

lemma store_run_keeps:
  assumes "reads_ok os" and "store_start start" and "store_run os s s'" and "store_inv os start r0 s"
  shows "store_inv os start r0 s'"
  using assms(3)
proof (induction rule: rtranclp_induct)
  case base
  then show ?case by (rule assms(4))
next
  case (step s' s'')
  then show ?case using store_move_keeps [OF assms(1,2)] by blast
qed

lemma store_reachable_inv:
  assumes "reads_ok os" and "store_start db" and "store_reachable os db s"
  shows "store_inv os db (st_race s) s"
  using store_run_keeps [OF assms(1,2) assms(3) [unfolded store_reachable_def] start_store_inv [OF assms(2)]]
    store_invD(1) by (simp add: store_inv_def)

end
