(* ===== verification/Writer_Race_Theorems.thy ===== *)
theory Writer_Race_Theorems
  imports Writer_Race_Safety
begin

text \<open>
  The correctness of concurrent \<open>WriteRowStructs\<close>: blocks never overlap, complete blocks never change,
  and when all calls have returned the store holds what successful calls wrote.
\<close>

subsection \<open>The index under concurrent writers\<close>

text \<open>C21. Concurrent calls of \<open>WriteRowStructs\<close> use the row index as Row_Race assumes: seen at the index, every run of
  writers and lookups is a run of racing calls of \<open>InsertOrUpdateRowBucket\<close> and \<open>FindRowBucket\<close>, in which each
  insertion points to a complete block of its row, and nothing else the writers do touches a bucket, a
  byte that was there at the start, or the block of a call that has reached the index.\<close>

theorem writers_keep_to_the_race:
  assumes "reads_ok os" and "store_start db" and "store_reachable os db s" and "store_run os s s'"
  shows "race_start db \<and> reachable os db (st_race s) \<and> race_run os db (st_race s) (st_race s')"
proof -
  note inv = store_reachable_inv [OF assms(1-3)]
  have "store_inv os db (st_race s) s'" by (rule store_run_keeps [OF assms(1,2,4) inv])
  then show ?thesis using store_start_race [OF assms(2)] store_invD(1) [OF inv] by (simp add: store_inv_def)
qed

subsection \<open>Blocks\<close>

text \<open>C20. The append offsets keep the blocks of concurrent calls apart: from the moment a call has fetched its offset, its
  block lies behind the bytes of the start and in front of the append offset of its shard, it overlaps
  no block of another call, and once the block is complete (the call has reached the index) no byte of it ever changes.\<close>

theorem blocks_stay_apart:
  assumes "reads_ok os" and "store_start db" and "store_reachable os db s" and "store_run os s s'"
    and "v < length (st_writers s)" and "n < length (rowValueFiles db)"
  shows "claim (st_race s) (st_writers s ! v) n \<subseteq>
      {length (row_bytes db n) ..< unat (rowAppendOffsets (race_db (st_race s)) ! n)} \<and>
    (\<forall>u < length (st_writers s). u \<noteq> v \<longrightarrow>
      claim (st_race s) (st_writers s ! v) n \<inter> claim (st_race s) (st_writers s ! u) n = {}) \<and>
    (w_call (st_writers s ! v) \<noteq> None \<longrightarrow> (\<forall>p \<in> claim (st_race s) (st_writers s ! v) n.
      p < length (row_bytes (race_db (st_race s)) n) \<and> p < length (row_bytes (race_db (st_race s')) n) \<and>
      row_bytes (race_db (st_race s')) n ! p = row_bytes (race_db (st_race s)) n ! p))"
proof (intro conjI impI ballI)
  let ?r = "st_race s" and ?w = "st_writers s ! v"
  note inv = store_reachable_inv [OF assms(1-3)] and D = store_invD [OF store_reachable_inv [OF assms(1-3)]]
  show "claim ?r ?w n \<subseteq> {length (row_bytes db n) ..< unat (rowAppendOffsets (race_db ?r) ! n)}"
    and "\<forall>u < length (st_writers s). u \<noteq> v \<longrightarrow> claim ?r ?w n \<inter> claim ?r (st_writers s ! u) n = {}"
    using D(3) assms(5,6) unfolding claims_ok_def by blast+
  fix p assume "w_call ?w \<noteq> None" and p: "p \<in> claim ?r ?w n"
  then obtain t where t: "w_call ?w = Some t" "p \<in> job_range (fst (race_threads ?r ! t)) n" by (auto simp: claim_def)
  have "writer_ok db ?r ?w" using D(6) assms(5) by simp
  then have "call_for ?r ?w t" using t(1) by (simp add: writer_ok_def)
  then obtain d L where call: "t < length (race_threads ?r)" "fst (race_threads ?r ! t) = Insert (w_column ?w) d"
      "row_bucket_at (shards_of (race_db ?r)) (data_bucket d) (w_column ?w) L" by (auto simp: call_for_def)
  have F: "rowValueFiles (race_db ?r) = rowValueFiles db" using D(2) by (simp add: frame_ok_def)
  have n: "n = unat (rd_shardId d)" "p < unat (rd_blockOffset d) + unat (rd_blockSize d)" using t(2) call(2) by (auto split: if_splits)
  have "unat (rb_blockSize (rl_header L)) = layout_size (w_column ?w) L" using call(3) layout_okD(12) by (auto simp: row_bucket_at_def)
  then show here: "p < length (row_bytes (race_db ?r) n)"
    using call(3) n by (auto simp: row_bucket_at_def block_at_def)
  obtain K E where "race_inv (written db (race_threads ?r)) K E ?r"
    by (rule reachable_inv [OF assms(1) store_start_race [OF assms(2)] D(1)])
  moreover have "race_run os db ?r (st_race s')"
    using store_run_keeps [OF assms(1,2,4) inv] by (simp add: store_inv_def)
  ultimately have "keeps_bytes (written db (race_threads ?r)) (shards_of (race_db ?r)) (shards_of (race_db (st_race s')))"
    using run_race_inv [OF assms(1)] by (fastforce simp: grows_def)
  moreover have "p \<in> written db (race_threads ?r) n"
    using t(2) call(1) nth_mem [OF call(1)] by (force simp: written_def)
  moreover have "rowValueFiles (race_db (st_race s')) = rowValueFiles db"
    using store_invD(2) [OF store_run_keeps [OF assms(1,2,4) inv]] by (simp add: frame_ok_def)
  ultimately show "p < length (row_bytes (race_db (st_race s')) n)"
    and "row_bytes (race_db (st_race s')) n ! p = row_bytes (race_db ?r) n ! p"
    using here assms(6) F by (auto simp: keeps_bytes_def)
qed

subsection \<open>When all calls have returned\<close>

fun returned_ok :: "stage \<Rightarrow> bool" where
  "returned_ok (Returned status) = IsOk status"
| "returned_ok _ = False"

definition succeeded :: "store \<Rightarrow> bytes \<times> u64 \<Rightarrow> writer \<Rightarrow> bool" where
  "succeeded s k w \<longleftrightarrow> w \<in> set (st_writers s) \<and> (w_column w, w_rowId w) = k \<and> returned_ok (w_stage w)"

lemma succeededE:
  assumes "succeeded s k w"
  obtains st where "w \<in> set (st_writers s)" and "k = (w_column w, w_rowId w)" and "w_stage w = Returned st" and "IsOk st"
  using assms by (cases "w_stage w") (auto simp: succeeded_def)

lemma caller:
  assumes "calls_ok r ws" and "t < length (race_threads r)" and "race_threads r ! t = (job, pc)" and "inserts job"
  obtains v where "v < length ws" and "w_call (ws ! v) = Some t"
proof -
  have "inserts (fst (race_threads r ! t))" using assms(3,4) by simp
  then show ?thesis using that assms(1,2) unfolding calls_ok_def by blast
qed

lemma returned_quiet:
  assumes inv: "store_inv os db r0 s" and "reads_ok os" and "store_start db"
    and returned: "\<forall>w \<in> set (st_writers s). \<exists>st. w_stage w = Returned st" and t: "t < length (race_threads (st_race s))"
  shows "owner (st_race s) t = None"
proof (rule ccontr)
  assume own: "owner (st_race s) t \<noteq> None"
  obtain job pc where th: "race_threads (st_race s) ! t = (job, pc)" by fastforce
  then obtain p fs new where pc: "pc = Storing p fs new" using own by (cases pc) (auto simp: owner_def)
  obtain K E where race: "race_inv (written db (race_threads (st_race s))) K E (st_race s)"
    by (rule store_inv_table [OF assms(2,3,1)])
  have "inserts job" using race_invD(3) [OF race t] th pc by simp
  then obtain v where v: "v < length (st_writers s)" "w_call (st_writers s ! v) = Some t"
    by (rule caller [OF store_invD(4) [OF inv] t th])
  have w: "st_writers s ! v \<in> set (st_writers s)" using v(1) by simp
  obtain st where "w_stage (st_writers s ! v) = Returned st" using returned w by blast
  then have "outcome_ok (st_race s) (st_writers s ! v) st" using store_invD(6) [OF inv w] by (simp add: writer_ok_def)
  then show False using v(2) th pc by (auto simp: outcome_ok_def split: if_splits)
qed

lemma inserted_writer:
  assumes inv: "store_inv os db r0 s" and returned: "\<forall>w \<in> set (st_writers s). \<exists>st. w_stage w = Returned st"
    and job: "Insert c d \<in> inserted_jobs (st_race s)"
  shows "\<exists>w. succeeded s (c, rd_rowId d) w \<and> row_bucket_row (shards_of (race_db (st_race s))) (data_bucket d) = row_map (w_entries w)"
proof -
  obtain new t where t: "t < length (race_threads (st_race s))" "race_threads (st_race s) ! t = (Insert c d, Inserted new)"
    using job by (auto simp: inserted_jobs_def in_set_conv_nth)
  obtain v where v: "v < length (st_writers s)" "w_call (st_writers s ! v) = Some t"
    by (rule caller [OF store_invD(4) [OF inv] t]) simp_all
  let ?w = "st_writers s ! v"
  have w: "?w \<in> set (st_writers s)" using v(1) by simp
  have ok: "writer_ok db (st_race s) ?w" by (rule store_invD(6) [OF inv w])
  then obtain L where L: "c = w_column ?w" "rd_rowId d = w_rowId ?w"
      "row_bucket_at (shards_of (race_db (st_race s))) (data_bucket d) c L" "layout_map L = row_map (w_entries ?w)"
    using v(2) t(2) by (auto simp: writer_ok_def call_for_def)
  obtain st where st: "w_stage ?w = Returned st" using returned w by blast
  then have "outcome_ok (st_race s) ?w st" using ok by (simp add: writer_ok_def)
  then have "IsOk st" using v(2) t(2) by (auto simp: outcome_ok_def split: if_splits)
  then show ?thesis using w st L row_bucket_atD(2) [OF L(3)] by (intro exI [of _ ?w]) (simp add: succeeded_def)
qed

lemma succeeded_inserted:
  assumes inv: "store_inv os db r0 s" and w: "succeeded s k w"
  shows "k \<in> job_key ` inserted_jobs (st_race s)"
proof -
  obtain st where st: "w_stage w = Returned st" "IsOk st" and "w \<in> set (st_writers s)" and k: "k = (w_column w, w_rowId w)"
    using w by (rule succeededE)
  then have ok: "writer_ok db (st_race s) w" using store_invD(6) [OF inv] by blast
  then obtain t new where t: "w_call w = Some t" "snd (race_threads (st_race s) ! t) = Inserted new"
    using st by (cases "w_call w") (auto simp: writer_ok_def outcome_ok_def)
  then obtain d where "t < length (race_threads (st_race s))" "race_threads (st_race s) ! t = (Insert (w_column w) d, Inserted new)"
      "rd_rowId d = w_rowId w"
    using ok by (auto simp: writer_ok_def call_for_def prod_eq_iff)
  then have "Insert (w_column w) d \<in> inserted_jobs (st_race s)" "job_key (Insert (w_column w) d) = k"
    using k nth_mem unfolding inserted_jobs_def by (fastforce, simp add: job_key_def)
  then show ?thesis by (metis imageI)
qed

lemma new_rows_threads:
  assumes inv: "store_inv os db r0 s" and "reads_ok os" and "store_start db"
  shows "length (filter (new_row (st_race s)) (st_writers s)) = length (filter (\<lambda>x. snd x = Inserted True) (race_threads (st_race s)))"
proof -
  let ?r = "st_race s" and ?ws = "st_writers s"
  let ?A = "{v. v < length ?ws \<and> new_row ?r (?ws ! v)}" and ?B = "{t. t < length (race_threads ?r) \<and> snd (race_threads ?r ! t) = Inserted True}"
  have ok: "writer_ok db ?r (?ws ! v)" if "v < length ?ws" for v using store_invD(6) [OF inv] that by simp
  obtain one: "\<And>v u t. v < length ?ws \<Longrightarrow> u < length ?ws \<Longrightarrow> w_call (?ws ! v) = Some t \<Longrightarrow> w_call (?ws ! u) = Some t \<Longrightarrow> u = v"
    using store_invD(4) [OF inv] unfolding calls_ok_def by blast
  obtain K E where race: "race_inv (written db (race_threads ?r)) K E ?r" by (rule store_inv_table [OF assms(2,3,1)])
  have "bij_betw (\<lambda>v. the (w_call (?ws ! v))) ?A ?B"
    unfolding bij_betw_def
  proof
    show "inj_on (\<lambda>v. the (w_call (?ws ! v))) ?A"
    proof (rule inj_onI)
      fix v u assume a: "v \<in> ?A" "u \<in> ?A" "the (w_call (?ws ! v)) = the (w_call (?ws ! u))"
      then obtain t where "w_call (?ws ! v) = Some t" "w_call (?ws ! u) = Some t" by (auto simp: new_row_def)
      then show "v = u" using one a(1,2) by blast
    qed
    show "(\<lambda>v. the (w_call (?ws ! v))) ` ?A = ?B"
    proof
      show "(\<lambda>v. the (w_call (?ws ! v))) ` ?A \<subseteq> ?B"
        using ok by (auto simp: new_row_def writer_ok_def call_for_def)
      show "?B \<subseteq> (\<lambda>v. the (w_call (?ws ! v))) ` ?A"
      proof
        fix t assume t: "t \<in> ?B"
        obtain job pc where th: "race_threads ?r ! t = (job, pc)" by fastforce
        have "inserts job" using race_invD(3) [OF race, of t] t th by simp
        then obtain v where v: "v < length ?ws" "w_call (?ws ! v) = Some t"
          using caller [OF store_invD(4) [OF inv] _ th] t by blast
        then show "t \<in> (\<lambda>v. the (w_call (?ws ! v))) ` ?A" using t by (force simp: new_row_def)
      qed
    qed
  qed
  then have "card ?A = card ?B" by (rule bij_betw_same_card)
  then show ?thesis by (simp add: length_filter_conv_card)
qed

lemma returned_rows:
  assumes "reads_ok os" and "store_start db" and "store_reachable os db s"
    and "\<forall>w \<in> set (st_writers s). \<exists>st. w_stage w = Returned st"
  shows "rows_table_ok (shards_of (race_db (st_race s))) (RowBuckets (race_db (st_race s))) \<and>
    (\<forall>k. if \<exists>w. succeeded s k w then \<exists>w. succeeded s k w \<and> rows (race_db (st_race s)) k = Some (row_map (w_entries w))
         else rows (race_db (st_race s)) k = rows db k) \<and>
    unat (rih_itemCount (RowIndexHeader (race_db (st_race s)))) =
      length (occupied vacant_row (RowBuckets (race_db (st_race s)))) \<and>
    rowPendingInsertCount (race_db (st_race s)) = 0"
proof -
  let ?r = "st_race s" and ?ws = "st_writers s"
  note inv = store_reachable_inv [OF assms(1-3)] and D = store_invD [OF store_reachable_inv [OF assms(1-3)]]
  note start = store_start_race [OF assms(2)]
  have quiet: "\<forall>t < length (race_threads ?r). owner ?r t = None"
    using returned_quiet [OF inv assms(1,2,4)] by blast
  note Q = quiet_race [OF assms(1) start D(1) quiet]
  have rows: "if \<exists>w. succeeded s k w then \<exists>w. succeeded s k w \<and> rows (race_db ?r) k = Some (row_map (w_entries w))
      else rows (race_db ?r) k = rows db k" for k
  proof (cases "k \<in> job_key ` inserted_jobs ?r")
    case True
    then obtain c d where d: "Insert c d \<in> inserted_jobs ?r" "job_key (Insert c d) = k"
        "rows (race_db ?r) k = Some (row_bucket_row (shards_of (race_db ?r)) (data_bucket d))" using Q by meson
    obtain w where "succeeded s (c, rd_rowId d) w" "row_bucket_row (shards_of (race_db ?r)) (data_bucket d) = row_map (w_entries w)"
      using inserted_writer [OF inv assms(4) d(1)] by blast
    moreover have "k = (c, rd_rowId d)" using d(2) by (simp add: job_key_def)
    ultimately show ?thesis using d(3) by auto
  next
    case False
    then have "\<not> (\<exists>w. succeeded s k w)" using succeeded_inserted [OF inv, of k] by blast
    moreover have "rows (race_db ?r) k = rows db k" using Q False by meson
    ultimately show ?thesis by (simp only: if_False)
  qed
  have past: "past_count (w_stage w) \<and> \<not> holding w" if "w \<in> set ?ws" for w
    using assms(4) that by (auto simp: holding_def)
  then have "filter (counted ?r) ?ws = filter (new_row ?r) ?ws" "filter holding ?ws = []"
    by (auto intro!: filter_cong simp: counted_def filter_empty_conv)
  then have items: "rih_itemCount (RowIndexHeader (race_db ?r)) = rih_itemCount (RowIndexHeader db) +
      of_nat (length (filter (\<lambda>x. snd x = Inserted True) (race_threads ?r)))"
    and pending: "rowPendingInsertCount (race_db ?r) = 0"
    using D(5) new_rows_threads [OF inv assms(1,2)] by (simp_all add: counts_ok_def)
  obtain v where v: "mapped_data (rowIndexMap db) = Some v" "row_index_ok (shards_of db) v"
    using start unfolding race_start_def by blast
  have "unat (rih_itemCount (RowIndexHeader db)) = length (occupied vacant_row (RowBuckets db))"
    using v by (simp add: row_index_ok_def RowIndexHeader_def RowBuckets_def)
  then have "rih_itemCount (RowIndexHeader db) = of_nat (length (occupied vacant_row (RowBuckets db)))"
    by (metis of_nat_unat ucast_id)
  then have count: "rih_itemCount (RowIndexHeader (race_db ?r)) = of_nat (length (occupied vacant_row (RowBuckets (race_db ?r))))"
    using items Q by simp
  obtain K E where "table_shape (race_db ?r)" by (rule store_inv_table [OF assms(1,2) inv])
  then obtain k where k: "k \<le> 56" "length (RowBuckets (race_db ?r)) = 2 ^ k" by (auto simp: table_shape_def)
  have "(2 :: nat) ^ k \<le> 2 ^ 56" using k(1) by (intro power_increasing) simp_all
  moreover have "length (occupied vacant_row (RowBuckets (race_db ?r))) \<le> length (RowBuckets (race_db ?r))"
    by (simp add: occupied_def)
  ultimately have "length (occupied vacant_row (RowBuckets (race_db ?r))) < 2 ^ 64" using k(2) by simp
  then have "unat (rih_itemCount (RowIndexHeader (race_db ?r))) = length (occupied vacant_row (RowBuckets (race_db ?r)))"
    unfolding count by (simp add: unat_of_nat64)
  then show ?thesis using Q rows pending by blast
qed

text \<open>C18. When all concurrent writers have returned, the store is in order and holds what they wrote: a row that some
  call wrote successfully has exactly the entries of one of these calls, never a mixture; every other row has its old
  contents; the item count is the number of rows in the index, no slot is left reserved, and no bucket is left
  in the state "writing".\<close>

theorem concurrent_writes_refine_rows:
  assumes "reads_ok os" and "store_start db" and "store_reachable os db s"
    and "\<forall>w \<in> set (st_writers s). \<exists>st. w_stage w = Returned st"
  shows "rows_table_ok (shards_of (race_db (st_race s))) (RowBuckets (race_db (st_race s))) \<and>
    (\<forall>k. if \<exists>w. succeeded s k w then \<exists>w. succeeded s k w \<and> rows (race_db (st_race s)) k = Some (row_map (w_entries w))
         else rows (race_db (st_race s)) k = rows db k) \<and>
    unat (rih_itemCount (RowIndexHeader (race_db (st_race s)))) =
      length (occupied vacant_row (RowBuckets (race_db (st_race s)))) \<and>
    rowPendingInsertCount (race_db (st_race s)) = 0"
  by (rule returned_rows [OF assms])

end
