(* ===== verification/Row_Race_Progress.thy ===== *)
theory Row_Race_Progress
  imports Row_Race_Theorems
begin

text \<open>
  Progress: a call that runs alone finishes, in a bounded number of steps and with the result of the
  sequential model of Row_Index; and from every state that racing calls can reach all of them can
  finish, because no call ever waits for a bucket that nobody will publish.
\<close>

subsection \<open>Runs of one thread\<close>

fun solo :: "os \<Rightarrow> job \<Rightarrow> nat \<Rightarrow> pc \<times> Impl \<Rightarrow> pc \<times> Impl" where
  "solo os job 0 x = x"
| "solo os job (Suc n) (pc, db) =
     (if finished pc then (pc, db) else solo os job n (thread_step os job db pc))"

lemma solo_finished [simp]: "finished pc \<Longrightarrow> solo os job n (pc, db) = (pc, db)"
  by (cases n) simp_all

lemma solo_add: "solo os job (m + n) x = solo os job n (solo os job m x)"
proof (induction m arbitrary: x)
  case (Suc m)
  then show ?case by (cases x) auto
qed simp

lemma solo_mono:
  assumes "solo os job m x = (pc, db)" and "finished pc" and "m \<le> n"
  shows "solo os job n x = (pc, db)"
proof -
  have "solo os job (m + (n - m)) x = (pc, db)" by (simp only: solo_add assms(1)) (simp add: assms(2))
  then show ?thesis using assms(3) by simp
qed

lemma solo_loading:
  "solo os job (length fs) (Loading p fs b, db) =
    (Loading p [] (fold (\<lambda>f. copy_field f (RowBuckets db ! probe_at (bucket_count db) job p)) fs b), db)"
  by (induction fs arbitrary: b) (simp_all add: Let_def)

text \<open>Stores of an owner, with nobody else running.\<close>

lemma solo_storing:
  assumes shape: "table_shape db" and i: "probe_at (bucket_count db) (Insert c d) p = i" "i < length (RowBuckets db)"
  shows "solo os (Insert c d) (length fs) (Storing p fs new, db) =
    (Storing p [] new, set_RowBucket i (fold (\<lambda>f. copy_field f (data_bucket d)) fs (RowBuckets db ! i)) db)"
  using assms
proof (induction fs arbitrary: db)
  case Nil
  have "set_RowBucket i (RowBuckets db ! i) db = db"
  proof -
    obtain v where v: "mapped_data (rowIndexMap db) = Some v" using Nil.prems(1) by (auto simp: table_shape_def)
    then have "v\<lparr>ri_buckets := (ri_buckets v)[i := RowBuckets db ! i]\<rparr> = v" by (simp add: RowBuckets_def)
    then show ?thesis using v by (simp add: set_RowBucket_with with_row_index_def)
  qed
  then show ?case by simp
next
  case (Cons f fs)
  let ?db = "set_RowBucket i (copy_field f (data_bucket d) (RowBuckets db ! i)) db"
  note S = set_RowBucket_shape [OF Cons.prems(1)]
  have "solo os (Insert c d) (length fs) (Storing p fs new, ?db) =
      (Storing p [] new, set_RowBucket i (fold (\<lambda>f. copy_field f (data_bucket d)) fs (RowBuckets ?db ! i)) ?db)"
    by (rule Cons.IH) (use Cons.prems in \<open>simp_all add: S\<close>)
  moreover have "set_RowBucket i b ?db = set_RowBucket i b db" for b
  proof -
    obtain v where v: "mapped_data (rowIndexMap db) = Some v" using Cons.prems(1) by (auto simp: table_shape_def)
    show ?thesis by (simp add: set_RowBucket_with [OF v] set_RowBucket_with [OF with_row_index_simps(1)])
  qed
  ultimately show ?case using Cons.prems(2,3) by (simp add: Let_def S(1))
qed

lemma set_RowBucket_twice:
  assumes "table_shape db"
  shows "set_RowBucket i b (set_RowBucket i a db) = set_RowBucket i b db"
proof -
  obtain v where v: "mapped_data (rowIndexMap db) = Some v" using assms by (auto simp: table_shape_def)
  show ?thesis by (simp add: set_RowBucket_with [OF v] set_RowBucket_with [OF with_row_index_simps(1)])
qed

lemma copy_all:
  "fold (\<lambda>f. copy_field f a) all_fields b = b\<lparr>rib_shardId := rib_shardId a, rib_columnHash := rib_columnHash a,
     rib_rowId := rib_rowId a, rib_blockOffset := rib_blockOffset a, rib_blockSize := rib_blockSize a,
     rib_sequence := rib_sequence a\<rparr>"
  by (simp add: all_fields_def)

lemma store_all:
  "(fold (\<lambda>f. copy_field f (data_bucket d)) all_fields b)\<lparr>rib_state := st\<rparr> = (StoreRowBucketData b d)\<lparr>rib_state := st\<rparr>"
  by (simp add: copy_all StoreRowBucketData_def data_bucket_def RowIndexBucket_default_def)

lemma length_all_fields [simp]: "length all_fields = 6"
  by (simp add: all_fields_def)

text \<open>The three stretches of a call: a snapshot, a step to the next bucket, a publication.\<close>

lemma solo_snapshot:
  assumes p: "i = probe_at (bucket_count db) job p" and filled: "rib_state (RowBuckets db ! i) = kRowBucketFilled"
  shows "\<exists>b. LoadRowBucketSnapshot db i = Inr (kFilled, b) \<and> solo os job 8 (Probing p, db) = (Comparing p b, db)"
proof -
  let ?init = "RowIndexBucket_default\<lparr>rib_state := kRowBucketFilled\<rparr>"
  let ?b = "fold (\<lambda>f. copy_field f (RowBuckets db ! i)) all_fields ?init"
  have load: "solo os job 6 (Loading p all_fields ?init, db) = (Loading p [] ?b, db)"
    using solo_loading [of os job all_fields p ?init db] unfolding p length_all_fields .
  have "solo os job (1 + (6 + 1)) (Probing p, db) = solo os job (6 + 1) (Loading p all_fields ?init, db)"
    unfolding solo_add [of os job 1] using filled p by (simp add: Let_def)
  also have "\<dots> = solo os job 1 (Loading p [] ?b, db)" unfolding solo_add load ..
  also have "\<dots> = (Comparing p ?b, db)" using filled p by (simp add: Let_def)
  finally have "solo os job 8 (Probing p, db) = (Comparing p ?b, db)" by simp
  moreover have "LoadRowBucketSnapshot db i = Inr (kFilled, ?b)"
    using filled by (simp add: LoadRowBucketSnapshot_def Let_def copy_all)
  ultimately show ?thesis by blast
qed

lemma solo_publish:
  assumes shape: "table_shape db" and i: "i = probe_at (bucket_count db) (Insert c d) p" "i < length (RowBuckets db)"
    and st: "rib_state (RowBuckets db ! i) = st"
  shows "solo os (Insert c d) 8 (Taking p st, db) = (Inserted (st = kRowBucketEmpty), publish_row_bucket i d db)"
proof -
  let ?db = "set_RowBucket i ((RowBuckets db ! i)\<lparr>rib_state := kRowBucketWriting\<rparr>) db"
  note S = set_RowBucket_shape [OF shape]
  let ?c = "fold (\<lambda>f. copy_field f (data_bucket d)) all_fields ((RowBuckets db ! i)\<lparr>rib_state := kRowBucketWriting\<rparr>)"
  have at: "probe_at (bucket_count ?db) (Insert c d) p = i" "i < length (RowBuckets ?db)" using i by (simp_all add: S)
  have store: "solo os (Insert c d) 6 (Storing p all_fields (st = kRowBucketEmpty), ?db) =
      (Storing p [] (st = kRowBucketEmpty), set_RowBucket i ?c ?db)"
    using solo_storing [OF S(6) at, of os all_fields] i(2) by (simp add: S)
  have "solo os (Insert c d) (1 + (6 + 1)) (Taking p st, db) = solo os (Insert c d) (6 + 1) (Storing p all_fields (st = kRowBucketEmpty), ?db)"
    unfolding solo_add [of os _ 1] using st i by (simp add: Let_def)
  also have "\<dots> = solo os (Insert c d) 1 (Storing p [] (st = kRowBucketEmpty), set_RowBucket i ?c ?db)"
    unfolding solo_add store ..
  also have "\<dots> = (Inserted (st = kRowBucketEmpty), set_RowBucket i (?c\<lparr>rib_state := kRowBucketFilled\<rparr>) db)"
    using i by (simp add: Let_def S set_RowBucket_twice [OF shape])
  also have "?c\<lparr>rib_state := kRowBucketFilled\<rparr> = (StoreRowBucketData (RowBuckets db ! i) d)\<lparr>rib_state := kRowBucketFilled\<rparr>"
    unfolding store_all by (simp add: StoreRowBucketData_def)
  finally show ?thesis by (simp add: publish_row_bucket_def)
qed

subsection \<open>A whole call alone\<close>

definition job_probes :: "Impl \<Rightarrow> job \<Rightarrow> nat list" where
  "job_probes db job =
     probe_indices (MixHashes (job_columnHash job) (job_rowId job) AND (bucket_count db - 1)) (bucket_count db)"

definition calm :: "Impl \<Rightarrow> bool" where
  "calm db \<longleftrightarrow> (\<forall>i < length (RowBuckets db). rib_state (RowBuckets db ! i) \<in> {kRowBucketEmpty, kRowBucketFilled})"

lemma job_probes_simps:
  assumes "table_shape db"
  shows "length (job_probes db job) = length (RowBuckets db)"
    and "p < length (RowBuckets db) \<Longrightarrow> probe_at (bucket_count db) job p < length (RowBuckets db)"
    and "p < length (RowBuckets db) \<Longrightarrow>
      drop p (job_probes db job) = probe_at (bucket_count db) job p # drop (Suc p) (job_probes db job)"
proof -
  obtain k where k: "k \<le> 56" "bucket_count db = 2 ^ k" "length (RowBuckets db) = 2 ^ k"
    using assms by (auto simp: table_shape_def)
  have path: "job_probes db job = probe_path (MixHashes (job_columnHash job) (job_rowId job)) (2 ^ k)"
    using k(1) by (simp add: job_probes_def k(2) probe_indices_pow2)
  show len: "length (job_probes db job) = length (RowBuckets db)" by (simp add: path k(3))
  have at: "probe_at (bucket_count db) job p = job_probes db job ! p" by (simp add: probe_at_def job_probes_def)
  show "p < length (RowBuckets db) \<Longrightarrow> probe_at (bucket_count db) job p < length (RowBuckets db)"
    unfolding at using nth_mem [of p "job_probes db job"] len by (simp add: path k(3))
  show "p < length (RowBuckets db) \<Longrightarrow>
      drop p (job_probes db job) = probe_at (bucket_count db) job p # drop (Suc p) (job_probes db job)"
    unfolding at using len by (simp add: Cons_nth_drop_Suc)
qed

lemma probe_from_less: "table_shape db \<Longrightarrow> p < length (RowBuckets db) \<Longrightarrow> probe_from (bucket_count db) p = Probing p"
  by (simp add: probe_from_def unat_bucket_count)

lemma solo_find:
  assumes shape: "table_shape db" and calm: "calm db" and p: "p \<le> length (RowBuckets db)"
  shows "\<exists>res. find_row_pass os db c r h (drop p (job_probes db (Find c r h))) = Done res \<and>
    solo os (Find c r h) (9 * (length (RowBuckets db) - p)) (probe_from (bucket_count db) p, db) =
      (case res of Inl status \<Rightarrow> Failed status | Inr lookup \<Rightarrow> Found lookup, db)"
  using p
proof (induction "length (RowBuckets db) - p" arbitrary: p)
  case 0
  then show ?case using job_probes_simps(1) [OF shape] by (simp add: probe_from_def unat_bucket_count [OF shape])
next
  case (Suc m)
  let ?n = "length (RowBuckets db)" and ?job = "Find c r h"
  define i where "i = probe_at (bucket_count db) ?job p"
  have p: "p < ?n" and m: "m = ?n - Suc p" using Suc.hyps(2) by simp_all
  note drop = job_probes_simps(3) [OF shape p, of ?job, folded i_def] and start = probe_from_less [OF shape p]
  have i: "i < ?n" using job_probes_simps(2) [OF shape p] by (simp add: i_def)
  have n: "9 * (?n - p) = 9 + 9 * (?n - Suc p)" using p by simp
  obtain res where IH: "find_row_pass os db c r h (drop (Suc p) (job_probes db ?job)) = Done res"
      "solo os ?job (9 * (?n - Suc p)) (probe_from (bucket_count db) (Suc p), db) =
        (case res of Inl status \<Rightarrow> Failed status | Inr lookup \<Rightarrow> Found lookup, db)"
    using Suc.hyps(1) [OF m Suc_leI [OF p]] by blast
  consider (empty) "rib_state (RowBuckets db ! i) = kRowBucketEmpty" | (filled) "rib_state (RowBuckets db ! i) = kRowBucketFilled"
    using calm i by (auto simp: calm_def)
  then show ?case
  proof cases
    case empty
    have "solo os ?job 1 (Probing p, db) = (on_empty ?job p i, db)" using empty by (simp add: Let_def i_def)
    then have "solo os ?job (9 * (?n - p)) (Probing p, db) = (on_empty ?job p i, db)"
      by (rule solo_mono) (use p in \<open>simp_all add: on_empty_def\<close>)
    then show ?thesis using LoadRowBucketSnapshot_empty [of db i] empty by (simp add: start drop on_empty_def)
  next
    case filled
    obtain b where b: "LoadRowBucketSnapshot db i = Inr (kFilled, b)" "solo os ?job 8 (Probing p, db) = (Comparing p b, db)"
      using solo_snapshot [OF i_def filled] by blast
    have nine: "solo os ?job 9 (Probing p, db) = solo os ?job 1 (Comparing p b, db)"
      using solo_add [of os ?job 8 1 "(Probing p, db)"] b(2) by simp
    have run: "solo os ?job (9 * (?n - p)) (Probing p, db) = solo os ?job (9 * (?n - Suc p)) (thread_step os ?job db (Comparing p b))"
      unfolding n solo_add nine by simp
    show ?thesis
    proof (cases "rib_columnHash b \<noteq> h \<or> rib_rowId b \<noteq> r")
      case True
      then show ?thesis using run b(1) IH by (simp add: start drop Let_def)
    next
      case False
      then show ?thesis
        using run b(1) IH i_def
        by (cases "RowBlockMatches os db b c r") (auto simp: start drop Let_def on_match_def split: option.splits)
    qed
  qed
qed

text \<open>The comparison of a whole bucket does not fail.\<close>

definition sound_blocks :: "os \<Rightarrow> Impl \<Rightarrow> bytes \<Rightarrow> u64 \<Rightarrow> u64 \<Rightarrow> bool" where
  "sound_blocks os db c h r \<longleftrightarrow>
     (\<forall>i < length (RowBuckets db). \<forall>b. LoadRowBucketSnapshot db i = Inr (kFilled, b) \<longrightarrow>
        rib_columnHash b = h \<longrightarrow> rib_rowId b = r \<longrightarrow> (\<exists>m. RowBlockMatches os db b c r = Inr m))"

lemma solo_insert:
  assumes shape: "table_shape db" and calm: "calm db" and sound: "sound_blocks os db c (rd_columnHash d) (rd_rowId d)"
    and p: "p \<le> length (RowBuckets db)"
  shows "\<exists>status new db'. insert_row_pass os db c d (drop p (job_probes db (Insert c d))) = Done (status, new, db') \<and>
    solo os (Insert c d) (9 * (length (RowBuckets db) - p) + 8) (probe_from (bucket_count db) p, db) =
      (if status = Ok then Inserted new else Failed status, db')"
  using p
proof (induction "length (RowBuckets db) - p" arbitrary: p)
  case 0
  then show ?case using job_probes_simps(1) [OF shape] by (simp add: probe_from_def unat_bucket_count [OF shape] Ok_def Corruption_def) blast
next
  case (Suc m)
  let ?n = "length (RowBuckets db)" and ?job = "Insert c d"
  define i where "i = probe_at (bucket_count db) ?job p"
  have p: "p < ?n" and m: "m = ?n - Suc p" using Suc.hyps(2) by simp_all
  note drop = job_probes_simps(3) [OF shape p, of ?job, folded i_def] and start = probe_from_less [OF shape p]
  have i: "i < ?n" using job_probes_simps(2) [OF shape p] by (simp add: i_def)
  have n: "9 * (?n - p) + 8 = 9 + (9 * (?n - Suc p) + 8)" "9 * (?n - p) + 8 = (9 + 8) + 9 * (?n - Suc p)" using p by simp_all
  obtain status new db' where IH: "insert_row_pass os db c d (drop (Suc p) (job_probes db ?job)) = Done (status, new, db')"
      "solo os ?job (9 * (?n - Suc p) + 8) (probe_from (bucket_count db) (Suc p), db) =
        (if status = Ok then Inserted new else Failed status, db')"
    using Suc.hyps(1) [OF m Suc_leI [OF p]] by blast
  consider (empty) "rib_state (RowBuckets db ! i) = kRowBucketEmpty" | (filled) "rib_state (RowBuckets db ! i) = kRowBucketFilled"
    using calm i by (auto simp: calm_def)
  then show ?case
  proof cases
    case empty
    have "solo os ?job 1 (Probing p, db) = (Taking p kRowBucketEmpty, db)" using empty by (simp add: Let_def i_def on_empty_def)
    then have "solo os ?job (1 + 8) (Probing p, db) = (Inserted True, publish_row_bucket i d db)"
      unfolding solo_add using solo_publish [OF shape i_def i empty, of os] by simp
    then have "solo os ?job (9 * (?n - p) + 8) (Probing p, db) = (Inserted True, publish_row_bucket i d db)"
      by (rule solo_mono) (use p in simp_all)
    then show ?thesis using LoadRowBucketSnapshot_empty [of db i] empty by (simp add: start drop) blast
  next
    case filled
    obtain b where b: "LoadRowBucketSnapshot db i = Inr (kFilled, b)" "solo os ?job 8 (Probing p, db) = (Comparing p b, db)"
      using solo_snapshot [OF i_def filled] by blast
    have nine: "solo os ?job 9 (Probing p, db) = thread_step os ?job db (Comparing p b)"
      using solo_add [of os ?job 8 1 "(Probing p, db)"] b(2) by (cases "thread_step os ?job db (Comparing p b)") simp
    have run: "solo os ?job (9 * (?n - p) + 8) (Probing p, db) = solo os ?job (9 * (?n - Suc p) + 8) (thread_step os ?job db (Comparing p b))"
      unfolding n(1) solo_add [of os ?job 9] nine ..
    show ?thesis
    proof (cases "rib_columnHash b = rd_columnHash d \<and> rib_rowId b = rd_rowId d")
      case False
      then show ?thesis using run b(1) IH by (auto simp: start drop Let_def)
    next
      case True
      then obtain found where found: "RowBlockMatches os db b c (rd_rowId d) = Inr found" using sound i b(1) by (auto simp: sound_blocks_def)
      show ?thesis
      proof (cases found)
        case None
        then show ?thesis using run b(1) IH found True by (simp add: start drop Let_def)
      next
        case (Some hdr)
        then have "thread_step os ?job db (Comparing p b) = (Taking p kRowBucketFilled, db)"
          using found True by (simp add: Let_def on_match_def)
        then have "solo os ?job (9 + 8) (Probing p, db) = (Inserted False, publish_row_bucket i d db)"
          unfolding solo_add nine using solo_publish [OF shape i_def i filled, of os] by simp
        then have "solo os ?job (9 * (?n - p) + 8) (Probing p, db) = (Inserted False, publish_row_bucket i d db)"
          by (rule solo_mono) (use p in simp_all)
        then show ?thesis using b(1) found True Some by (simp add: start drop) blast
      qed
    qed
  qed
qed

lemma calm_table:
  assumes inv: "race_inv W K E s" and quiet: "\<forall>t < length (race_threads s). owner s t = None"
  shows "calm (race_db s)"
  using table_invD(3) [OF race_invD(1) [OF inv]] race_invD(5) [OF inv] quiet unfolding calm_def by fastforce

lemma sound_blocks_table:
  assumes os: "reads_ok os" and inv: "table_inv W db K E"
  shows "sound_blocks os db c (HashString c) r"
  unfolding sound_blocks_def
proof (intro allI impI)
  fix i b
  assume i: "i < length (RowBuckets db)" and load: "LoadRowBucketSnapshot db i = Inr (kFilled, b)"
    and "rib_columnHash b = HashString c" and r: "rib_rowId b = r"
  have filled: "rib_state (RowBuckets db ! i) = kRowBucketFilled"
    using load by (auto simp: LoadRowBucketSnapshot_def Let_def split: if_splits)
  obtain L where "row_bucket_at (shards_of db) (RowBuckets db ! i) (fst (K i)) L" using table_invD(7) [OF inv i filled] by blast
  from RowBlockMatches_ok [OF os table_invD(1) [OF inv] this] LoadRowBucketSnapshot_filled [OF this refl]
  show "\<exists>m. RowBlockMatches os db b c r = Inr m" using load r by auto
qed

lemma pass_retry:
  "find_row_pass os db c r h (drop 0 (job_probes db (Find c r h))) = Done res \<Longrightarrow> FindRowBucket os db c r h = Some res"
  "insert_row_pass os db c d (drop 0 (job_probes db (Insert c d))) = Done res' \<Longrightarrow> InsertOrUpdateRowBucket os db c d = Some res'"
  by (simp_all add: FindRowBucket_def InsertOrUpdateRowBucket_def job_probes_def find_row_retry_done insert_row_retry_done Let_def)

text \<open>A call that runs alone is the sequential call: starting on a table at rest it finishes within nine steps
  per bucket and eight more, with the result, the "inserted" flag and the table that the sequential model of
  \<open>InsertOrUpdateRowBucket\<close> computes, and likewise for \<open>FindRowBucket\<close>.\<close>

theorem lone_calls_are_sequential:
  assumes "reads_ok os" and "race_start db" and "job_ready db job"
  shows "case job of
      Insert c d \<Rightarrow> \<exists>status new db'. InsertOrUpdateRowBucket os db c d = Some (status, new, db') \<and>
        solo os job (9 * length (RowBuckets db) + 8) (probe_from (bucket_count db) 0, db) =
          (if status = Ok then Inserted new else Failed status, db')
    | Find c r h \<Rightarrow> \<exists>res. FindRowBucket os db c r h = Some res \<and>
        solo os job (9 * length (RowBuckets db) + 8) (probe_from (bucket_count db) 0, db) =
          (case res of Inl status \<Rightarrow> Failed status | Inr lookup \<Rightarrow> Found lookup, db)"
proof -
  note inv = start_race_inv [OF assms(2)]
  have tab: "table_inv (written db []) db (start_keys db) {i. used db i}" using race_invD(1) [OF inv] by simp
  have calm: "calm db" using calm_table [OF inv start_quiet] by simp
  note shape = table_invD(2) [OF tab]
  show ?thesis
  proof (cases job)
    case (Insert c d)
    have "rd_columnHash d = HashString c" using job_ready_hash [OF assms(3)] Insert by simp
    then have sound: "sound_blocks os db c (rd_columnHash d) (rd_rowId d)" using sound_blocks_table [OF assms(1) tab] by simp
    show ?thesis using solo_insert [OF shape calm sound, of 0] pass_retry(2) Insert by auto
  next
    case (Find c r h)
    obtain res where res: "find_row_pass os db c r h (drop 0 (job_probes db (Find c r h))) = Done res"
      "solo os (Find c r h) (9 * length (RowBuckets db)) (probe_from (bucket_count db) 0, db) =
        (case res of Inl status \<Rightarrow> Failed status | Inr lookup \<Rightarrow> Found lookup, db)"
      using solo_find [OF shape calm, of 0 os c r h] by auto
    have "solo os (Find c r h) (9 * length (RowBuckets db) + 8) (probe_from (bucket_count db) 0, db) =
        (case res of Inl status \<Rightarrow> Failed status | Inr lookup \<Rightarrow> Found lookup, db)"
      by (rule solo_mono [OF res(2)]) (auto split: sum.splits)
    then show ?thesis using pass_retry(1) [OF res(1)] Find by auto
  qed
qed

subsection \<open>Every call can finish\<close>

definition finishes :: "os \<Rightarrow> job \<Rightarrow> pc \<Rightarrow> Impl \<Rightarrow> bool" where
  "finishes os job pc db \<longleftrightarrow> (\<exists>n. finished (fst (solo os job n (pc, db))))"

lemma finishes_after:
  assumes "solo os job m (pc, db) = (pc', db')" and "finishes os job pc' db'"
  shows "finishes os job pc db"
  using assms solo_add [of os job m] unfolding finishes_def by metis

lemma finishes_step: "\<not> finished pc \<Longrightarrow> thread_step os job db pc = (pc', db') \<Longrightarrow> finishes os job pc' db' \<Longrightarrow> finishes os job pc db"
  by (rule finishes_after [of _ _ 1]) simp_all

lemma finishes_done: "finished pc \<Longrightarrow> finishes os job pc db"
  unfolding finishes_def by (rule exI [of _ 0]) simp

lemma finishes_storing:
  assumes "table_shape db" and "probe_at (bucket_count db) (Insert c d) p < length (RowBuckets db)"
  shows "finishes os (Insert c d) (Storing p fs new) db"
  by (rule finishes_after [OF solo_storing [OF assms(1) refl assms(2)]], rule finishes_step [OF _ _ finishes_done])
    (simp, simp add: Let_def, simp)

lemma finishes_probe:
  assumes os: "reads_ok os" and inv: "table_inv W db K E" and calm: "calm db" and ready: "job_ready db job"
  shows "finishes os job (probe_from (bucket_count db) p) db"
proof (cases "p < length (RowBuckets db)")
  case True
  note shape = table_invD(2) [OF inv]
  show ?thesis
  proof (cases job)
    case (Insert c d)
    have "rd_columnHash d = HashString c" using job_ready_hash [OF ready] Insert by simp
    then have sound: "sound_blocks os db c (rd_columnHash d) (rd_rowId d)" using sound_blocks_table [OF os inv] by simp
    obtain status new db' where "solo os (Insert c d) (9 * (length (RowBuckets db) - p) + 8) (probe_from (bucket_count db) p, db) =
        (if status = Ok then Inserted new else Failed status, db')"
      using solo_insert [OF shape calm sound less_imp_le [OF True]] by blast
    then show ?thesis unfolding Insert by (rule finishes_after) (simp add: finishes_done)
  next
    case (Find c r h)
    obtain res where "solo os (Find c r h) (9 * (length (RowBuckets db) - p)) (probe_from (bucket_count db) p, db) =
        (case res of Inl status \<Rightarrow> Failed status | Inr lookup \<Rightarrow> Found lookup, db)"
      using solo_find [OF shape calm less_imp_le [OF True]] by blast
    then show ?thesis unfolding Find by (rule finishes_after) (auto intro: finishes_done split: sum.splits)
  qed
next
  case False
  then show ?thesis using table_invD(2) [OF inv] by (simp add: probe_from_def unat_bucket_count finishes_done)
qed

lemma finishes_calm:
  assumes os: "reads_ok os" and inv: "table_inv W db K E" and calm: "calm db" and ready: "job_ready db job" and ok: "thread_ok W db K E job pc"
  shows "finishes os job pc db"
proof -
  note retry = finishes_probe [OF os inv calm ready] and shape = table_invD(2) [OF inv]
  have taking: "finishes os job (Taking p st) db" if p: "p < length (RowBuckets db)" and ins: "inserts job" for p st
  proof -
    obtain c d where job: "job = Insert c d" using ins by (cases job) auto
    note i = job_probes_simps(2) [OF shape p, of job]
    show ?thesis
    proof (cases "rib_state (RowBuckets db ! probe_at (bucket_count db) job p) = st")
      case True
      show ?thesis
        unfolding job by (rule finishes_after [OF solo_publish [OF shape refl i [unfolded job] True [unfolded job]] finishes_done]) simp
    next
      case False
      show ?thesis by (rule finishes_step [OF _ _ retry [of 0]]) (use False in \<open>simp_all add: Let_def\<close>)
    qed
  qed
  have comparing: "finishes os job (Comparing p b) db" if p: "p < length (RowBuckets db)" for p b
  proof -
    let ?pc = "fst (thread_step os job db (Comparing p b))"
    have step: "thread_step os job db (Comparing p b) = (?pc, db)"
      by (auto simp: Let_def split: if_split sum.split option.split)
    have "?pc = probe_from (bucket_count db) (Suc p) \<or> finished ?pc \<or> ?pc = Taking p kRowBucketFilled \<and> inserts job"
      by (cases job) (auto simp: Let_def on_match_def split: if_split sum.split option.split)
    then have "finishes os job ?pc db"
    proof (elim disjE conjE)
      assume "?pc = probe_from (bucket_count db) (Suc p)"
      then show ?thesis using retry [of "Suc p"] by (simp only:)
    next
      assume "finished ?pc"
      then show ?thesis by (rule finishes_done)
    next
      assume "?pc = Taking p kRowBucketFilled" "inserts job"
      then show ?thesis using taking [OF p, of kRowBucketFilled] by (simp only:)
    qed
    then show ?thesis by (rule finishes_step [OF _ step, rotated]) simp
  qed
  have loaded: "finishes os job (Loading p [] b) db" if "p < length (RowBuckets db)" for p b
  proof (cases "rib_state (RowBuckets db ! probe_at (bucket_count db) job p) = kRowBucketFilled")
    case True
    show ?thesis by (rule finishes_step [OF _ _ comparing [OF that, of b]]) (use True in \<open>simp_all add: Let_def\<close>)
  next
    case False
    show ?thesis by (rule finishes_step [OF _ _ retry [of 0]]) (use False in \<open>simp_all add: Let_def\<close>)
  qed
  show ?thesis
  proof (cases pc)
    case (Probing p)
    then show ?thesis using retry [of p] probe_from_less [OF shape] ok by simp
  next
    case (Loading p fs b)
    then show ?thesis using finishes_after [OF solo_loading loaded] ok by simp
  next
    case (Storing p fs new)
    then have p: "p < length (RowBuckets db)" "inserts job" using ok by simp_all
    then obtain c d where job: "job = Insert c d" by (cases job) auto
    show ?thesis
      unfolding Storing job by (rule finishes_storing [OF shape job_probes_simps(2) [OF shape p(1)]])
  next
    case (Comparing p b)
    then show ?thesis using comparing ok by simp
  next
    case (Taking p st)
    then show ?thesis using taking ok by simp
  qed (simp_all add: finishes_done)
qed

lemma solo_run:
  assumes "t < length (race_threads s)" and "race_threads s ! t = (job, pc)"
    and "solo os job n (pc, race_db s) = (pc', db')"
  shows "race_run os start s \<lparr>race_db = db', race_threads = (race_threads s)[t := (job, pc')]\<rparr>"
  using assms
proof (induction n arbitrary: s pc)
  case 0
  then have "(race_threads s)[t := (job, pc')] = race_threads s" by (metis list_update_id solo.simps(1) prod.inject)
  then show ?case using 0 by (cases s) simp
next
  case (Suc n)
  show ?case
  proof (cases "finished pc")
    case True
    then have "(race_threads s)[t := (job, pc')] = race_threads s" using Suc.prems by (metis list_update_id solo_finished prod.inject)
    then show ?thesis using Suc.prems True by (cases s) simp
  next
    case False
    obtain pc1 db1 where step: "thread_step os job (race_db s) pc = (pc1, db1)" by fastforce
    let ?s = "\<lparr>race_db = db1, race_threads = (race_threads s)[t := (job, pc1)]\<rparr>"
    have "race_step os start s ?s" by (rule race_step.turn [OF Suc.prems(1,2) False step])
    moreover have "race_run os start ?s \<lparr>race_db = db', race_threads = (race_threads ?s)[t := (job, pc')]\<rparr>"
      by (rule Suc.IH) (use Suc.prems False step in simp_all)
    ultimately show ?thesis by simp
  qed
qed

lemma some_thread_finishes:
  assumes os: "reads_ok os" and inv: "race_inv W K E s"
    and some: "t < length (race_threads s)" "\<not> finished (snd (race_threads s ! t))"
  shows "\<exists>u < length (race_threads s). \<not> finished (snd (race_threads s ! u)) \<and>
    finishes os (fst (race_threads s ! u)) (snd (race_threads s ! u)) (race_db s)"
proof (cases "\<forall>u < length (race_threads s). owner s u = None")
  case True
  show ?thesis
    using finishes_calm [OF os race_invD(1) [OF inv] calm_table [OF inv True] race_invD(2,3) [OF inv some(1)]] some by blast
next
  case False
  then obtain u i where u: "u < length (race_threads s)" "owner s u = Some i" by auto
  obtain job pc where th: "race_threads s ! u = (job, pc)" by fastforce
  then obtain p fs new where pc: "pc = Storing p fs new" using u(2) by (cases pc) (auto simp: owner_def)
  have ok: "thread_ok W (race_db s) K E job pc" using race_invD(3) [OF inv u(1)] th by simp
  then obtain c d where job: "job = Insert c d" using pc by (cases job) auto
  have "p < length (RowBuckets (race_db s))" using ok pc by simp
  note shape = table_invD(2) [OF race_invD(1) [OF inv]]
  have "finishes os job pc (race_db s)"
    unfolding pc job by (rule finishes_storing [OF shape job_probes_simps(2) [OF shape \<open>p < _\<close>]])
  then show ?thesis using u(1) th pc by force
qed

definition unfinished :: "race \<Rightarrow> nat" where
  "unfinished s = length (filter (\<lambda>x. \<not> finished (snd x)) (race_threads s))"

lemma finish_one:
  assumes os: "reads_ok os" and inv: "race_inv W K E s" and some: "unfinished s \<noteq> 0"
  shows "\<exists>s'. race_run os start s s' \<and> map fst (race_threads s') = map fst (race_threads s) \<and> unfinished s = Suc (unfinished s')"
proof -
  obtain x where "x \<in> set (race_threads s)" "\<not> finished (snd x)"
    using some unfolding unfinished_def by (auto simp: filter_empty_conv)
  then obtain t where "t < length (race_threads s)" "\<not> finished (snd (race_threads s ! t))" by (auto simp: in_set_conv_nth)
  from some_thread_finishes [OF os inv this] obtain u n where u: "u < length (race_threads s)" "\<not> finished (snd (race_threads s ! u))"
      "finished (fst (solo os (fst (race_threads s ! u)) n (snd (race_threads s ! u), race_db s)))"
    unfolding finishes_def by blast
  obtain job pc where th: "race_threads s ! u = (job, pc)" by fastforce
  obtain pc' db' where run: "solo os job n (pc, race_db s) = (pc', db')" by fastforce
  let ?s = "\<lparr>race_db = db', race_threads = (race_threads s)[u := (job, pc')]\<rparr>"
  have "race_run os start s ?s" by (rule solo_run [OF u(1) th run])
  moreover have "map fst (race_threads ?s) = map fst (race_threads s)"
    using th u(1) by (simp add: map_update) (metis fst_conv list_update_id nth_map)
  moreover have "unfinished s = Suc (unfinished ?s)"
    using length_filter_update [OF u(1), of "\<lambda>x. \<not> finished (snd x)" "(job, pc')"] u(2,3) th run
    by (simp add: unfinished_def)
  ultimately show ?thesis by blast
qed

text \<open>C27. Racing calls never get stuck: from every state they can reach, there is a continuation in which every call
  that has started finishes.  A thread that meets a bucket in the state "writing" waits for a thread that
  can publish it by running alone, and the retry loops end as soon as nobody else writes.\<close>

theorem racing_calls_can_finish:
  assumes "reads_ok os" and "race_start db" and "reachable os db s"
  shows "\<exists>s'. race_run os db s s' \<and> map fst (race_threads s') = map fst (race_threads s) \<and>
    (\<forall>x \<in> set (race_threads s'). finished (snd x))"
  using assms(3)
proof (induction "unfinished s" arbitrary: s)
  case 0
  then have "\<forall>x \<in> set (race_threads s). finished (snd x)" by (simp add: unfinished_def filter_empty_conv)
  then show ?case by blast
next
  case (Suc n)
  obtain K E where inv: "race_inv (written db (race_threads s)) K E s" by (rule reachable_inv [OF assms(1,2) Suc.prems])
  obtain s1 where s1: "race_run os db s s1" "map fst (race_threads s1) = map fst (race_threads s)" "unfinished s = Suc (unfinished s1)"
    using finish_one [OF assms(1) inv] Suc.hyps(2) by force
  have "reachable os db s1" using Suc.prems s1(1) unfolding reachable_def by (rule rtranclp_trans)
  moreover have "n = unfinished s1" using Suc.hyps(2) s1(3) by simp
  ultimately obtain s2 where "race_run os db s1 s2" "map fst (race_threads s2) = map fst (race_threads s1)"
      "\<forall>x \<in> set (race_threads s2). finished (snd x)" using Suc.hyps(1) [of s1] by blast
  then show ?case using s1 rtranclp_trans [of "race_step os db" s s1 s2] by auto
qed

end
