(* ===== verification/Writer_Race_Alone.thy ===== *)
theory Writer_Race_Alone
  imports Writer_Race_Theorems Row_Race_Progress
begin

text \<open>
  A call of \<open>WriteRowStructs\<close> that runs alone, in a store where every other call has returned, does
  what the sequential model of Row_Api computes.
\<close>

subsection \<open>Runs of one call\<close>

abbreviation short_shards :: "Impl \<Rightarrow> bool" where
  "short_shards db \<equiv> \<forall>off \<in> set (rowAppendOffsets db). unat off < 2 ^ 62"

text \<open>The call \<open>w\<close> at the stage \<open>g\<close>, between the calls before it and those after it.\<close>

abbreviation lone :: "Impl \<Rightarrow> (job \<times> pc) list \<Rightarrow> writer list \<times> writer list \<Rightarrow> writer \<Rightarrow> stage \<Rightarrow> store" where
  "lone db ts ws w g \<equiv>
     \<lparr>st_race = \<lparr>race_db = db, race_threads = ts\<rparr>, st_writers = fst ws @ w\<lparr>w_stage := g\<rparr> # snd ws\<rparr>"

lemma lone_step:
  assumes "stage_step os \<lparr>race_db = db, race_threads = ts\<rparr> (w\<lparr>w_stage := g\<rparr>) g =
      Some (w'\<lparr>w_stage := h\<rparr>, \<lparr>race_db = db', race_threads = ts'\<rparr>)"
    and "short_shards db'"
  shows "store_run os (lone db ts ws w g) (lone db' ts' ws w' h)"
proof -
  have "store_step os (lone db ts ws w g) (lone db' ts' ws w' h)"
    using store_step.advance [of "length (fst ws)" "lone db ts ws w g" os "w'\<lparr>w_stage := h\<rparr>" "\<lparr>race_db = db', race_threads = ts'\<rparr>"] assms(1)
    by (simp add: writer_step_def)
  then have "store_move os (lone db ts ws w g) (lone db' ts' ws w' h)"
    using assms(2) by (simp add: store_move_def small_files_def)
  then show ?thesis by (rule r_into_rtranclp [of "store_move os"])
qed

lemma lone_leave:
  assumes "short_shards db"
  shows "store_run os (lone db ts ws w (leave w st))
    (lone (if w_reserve w then ReleaseRowIndexInsertSlot db else db) ts ws w (Returned st))"
proof (cases "w_reserve w")
  case True
  then show ?thesis
    using lone_step [where w = w and w' = w and g = "Release_Slot st" and h = "Returned st" and db = db and ts = ts and ts' = ts
        and db' = "ReleaseRowIndexInsertSlot db" and os = os and ws = ws] assms
    by (simp add: leave_def ReleaseRowIndexInsertSlot_def)
qed (simp add: leave_def)

text \<open>The steps of its call of \<open>InsertOrUpdateRowBucket\<close>.\<close>

lemma thread_step_offsets:
  "thread_step os job db pc = (pc', db') \<Longrightarrow> rowAppendOffsets db' = rowAppendOffsets db"
  using thread_step_writes [of os job db pc pc' db'] by (auto simp: set_RowBucket_def with_row_index_def)

lemma lone_index:
  assumes "solo os job n (pc, db) = (pc', db')" and "short_shards db"
  shows "store_run os (lone db (ts @ [(job, pc)]) ws w g) (lone db' (ts @ [(job, pc')]) ws w g) \<and>
    rowAppendOffsets db' = rowAppendOffsets db"
  using assms
proof (induction n arbitrary: pc db)
  case (Suc n)
  show ?case
  proof (cases "finished pc")
    case False
    obtain pc1 db1 where step: "thread_step os job db pc = (pc1, db1)" by fastforce
    note offs = thread_step_offsets [OF step]
    have "store_step os (lone db (ts @ [(job, pc)]) ws w g) (lone db1 (ts @ [(job, pc1)]) ws w g)"
      using store_step.index [of "length ts" "lone db (ts @ [(job, pc)]) ws w g" job pc os pc1 db1] False step by simp
    then have "store_move os (lone db (ts @ [(job, pc)]) ws w g) (lone db1 (ts @ [(job, pc1)]) ws w g)"
      using Suc.prems(2) offs by (simp add: store_move_def small_files_def)
    moreover have "store_run os (lone db1 (ts @ [(job, pc1)]) ws w g) (lone db' (ts @ [(job, pc')]) ws w g) \<and>
        rowAppendOffsets db' = rowAppendOffsets db1"
      by (rule Suc.IH) (use Suc.prems False step offs in simp_all)
    ultimately show ?thesis using converse_rtranclp_into_rtranclp [of "store_move os"] offs by simp
  next
    case True
    then have "pc' = pc" "db' = db" using Suc.prems(1) by simp_all
    then show ?thesis by simp
  qed
qed simp

definition idle :: "(job \<times> pc) list \<Rightarrow> bool" where
  "idle ts \<longleftrightarrow> (\<forall>x \<in> set ts. \<forall>p fs new. snd x \<noteq> Storing p fs new)"

lemma idle_owner: "idle ts \<Longrightarrow> t < length ts \<Longrightarrow> owner \<lparr>race_db = db, race_threads = ts\<rparr> t = None"
  using nth_mem [of t ts] by (cases "snd (ts ! t)") (auto simp: idle_def owner_def)

lemma lone_insert:
  assumes os: "reads_ok os" and start: "store_start start"
    and inv: "store_inv os start r0 (lone db (ts @ [(Insert c d, probe_from (bucket_count db) 0)]) ws w g)"
    and idle: "idle ts" and h: "rd_columnHash d = HashString c"
    and run: "InsertOrUpdateRowBucket os db c d = Some (st, new, db')" and small: "short_shards db"
  shows "store_run os (lone db (ts @ [(Insert c d, probe_from (bucket_count db) 0)]) ws w g)
      (lone db' (ts @ [(Insert c d, if IsOk st then Inserted new else Failed st)]) ws w g) \<and>
    rowAppendOffsets db' = rowAppendOffsets db \<and> (IsOk st \<longrightarrow> st = Ok)"
proof -
  let ?ts = "ts @ [(Insert c d, probe_from (bucket_count db) 0)]" and ?pc = "if st = Ok then Inserted new else Failed st"
  obtain K E where race: "race_inv (written start ?ts) K E \<lparr>race_db = db, race_threads = ?ts\<rparr>"
    using store_inv_table [OF os start inv, simplified] by blast
  note tab = race_invD(1) [OF race, simplified]
  have "idle ?ts" using idle by (auto simp: idle_def probe_from_def)
  then have calm: "calm db" using calm_table [OF race] idle_owner by simp
  have sound: "sound_blocks os db c (rd_columnHash d) (rd_rowId d)" using sound_blocks_table [OF os tab] h by simp
  obtain st' new' db'' where solo: "insert_row_pass os db c d (drop 0 (job_probes db (Insert c d))) = Done (st', new', db'')"
      "solo os (Insert c d) (9 * length (RowBuckets db) + 8) (probe_from (bucket_count db) 0, db) =
        (if st' = Ok then Inserted new' else Failed st', db'')"
    using solo_insert [OF table_invD(2) [OF tab] calm sound, of 0] by auto
  have "(st', new', db'') = (st, new, db')" using pass_retry(2) [OF solo(1)] run by simp
  then have moves: "store_run os (lone db ?ts ws w g) (lone db' (ts @ [(Insert c d, ?pc)]) ws w g)"
      "rowAppendOffsets db' = rowAppendOffsets db"
    using lone_index [OF solo(2) small] by auto
  have ok: "IsOk st \<longleftrightarrow> st = Ok"
  proof (cases "st = Ok")
    case False
    have inv': "store_inv os start r0 (lone db' (ts @ [(Insert c d, ?pc)]) ws w g)"
      by (rule store_run_keeps [OF os start moves(1) inv])
    obtain K' E' where "race_inv (written start (ts @ [(Insert c d, ?pc)])) K' E' \<lparr>race_db = db', race_threads = ts @ [(Insert c d, ?pc)]\<rparr>"
      using store_inv_table [OF os start inv', simplified] by blast
    from race_invD(3) [OF this, of "length ts"] False have "failure_ok db' st" by simp
    then show ?thesis using failed_not_ok False by blast
  qed simp
  then show ?thesis using moves by (simp cong: if_cong)
qed

lemma insert_row_pass_offsets:
  "insert_row_pass os db c d probes = Done (st, new, db') \<Longrightarrow> rowAppendOffsets db' = rowAppendOffsets db"
  by (induction probes)
    (auto simp: Let_def publish_row_bucket_def set_RowBucket_def split: sum.splits option.splits if_splits prod.splits)

lemma InsertOrUpdateRowBucket_offsets:
  assumes "InsertOrUpdateRowBucket os db c d = Some (st, new, db')"
  shows "rowAppendOffsets db' = rowAppendOffsets db"
proof -
  have retry: "rowAppendOffsets (snd (snd r)) = rowAppendOffsets db" if "insert_row_retry os db c d probes = Some r" for probes r
  proof (rule insert_row_retry.raw_induct [where P = "\<lambda>_ db _ _ _ r. rowAppendOffsets (snd (snd r)) = rowAppendOffsets db", OF _ that], goal_cases)
    case (1 retry os db c d probes r)
    then show ?case using insert_row_pass_offsets [of os db c d probes] by (cases r) (auto split: attempt.splits)
  qed
  then show ?thesis using assms by (fastforce simp: InsertOrUpdateRowBucket_def Let_def)
qed

lemma writer_data_simps [simp]:
  "writer_shard db (w\<lparr>w_stage := g\<rparr>) = writer_shard db w"
  "writer_bucket db (w\<lparr>w_stage := g\<rparr>) q L off = writer_bucket db w q L off"
  "leave (w\<lparr>w_stage := g\<rparr>) st = leave w st"
  "leave (w\<lparr>w_call := t\<rparr>) st = leave w st"
  by (simp_all add: writer_shard_def writer_bucket_def leave_def)

text \<open>Up to its way out, a call does what \<open>append_row\<close> does.\<close>

lemma lone_body:
  assumes os: "reads_ok os" and start: "store_start start" and inv: "store_inv os start r0 (lone db ts ws w Take_Sequence)"
    and idle: "idle ts" and none: "w_call w = None"
    and run: "append_row os db (w_column w) (w_rowId w) (w_entries w) = Some (st, db')"
    and small: "short_shards db" "short_shards db'"
  shows "\<exists>ts' call. (\<forall>x \<in> set ts'. finished (snd x)) \<and> store_run os (lone db ts ws w Take_Sequence)
    (lone db' (ts @ ts') ws (w\<lparr>w_call := call\<rparr>) (leave w st))"
proof -
  let ?c = "w_column w" and ?r = "\<lambda>db ts. \<lparr>race_db = db, race_threads = ts\<rparr>"
  obtain q db2 where seq: "NextRowSequence db = (q, db2)" by fastforce
  then have small2: "short_shards db2" using small(1) by (auto simp: NextRowSequence_def Let_def set_RowIndexHeader_def)
  consider (refused) e where "BuildRowBlockLayout db2 ?c (w_rowId w) (w_entries w) q (HashString ?c) = Some (Inl e)"
    | (built) L where "BuildRowBlockLayout db2 ?c (w_rowId w) (w_entries w) q (HashString ?c) = Some (Inr L)"
  proof (cases "BuildRowBlockLayout db2 ?c (w_rowId w) (w_entries w) q (HashString ?c)")
    case None
    then show ?thesis using run seq by (simp add: append_row_def)
  next
    case (Some x)
    then show ?thesis using refused built by (cases x) blast+
  qed
  then show ?thesis
  proof cases
    case refused
    then have "st = e" "db' = db2" using run seq by (simp_all add: append_row_def)
    moreover have "store_run os (lone db ts ws w Take_Sequence) (lone db2 ts ws w (leave w e))"
      by (rule lone_step) (use refused seq small2 in simp_all)
    ultimately show ?thesis by (intro exI [of _ "[]"] exI [of _ None]) (simp add: none [symmetric])
  next
    case built
    let ?s = "ShardForRow db2 (HashString ?c) (w_rowId w)"
    define off where "off = rowAppendOffsets db2 ! unat ?s"
    define db3 where "db3 = db2\<lparr>rowAppendOffsets := (rowAppendOffsets db2)[unat ?s := off + rb_blockSize (rl_header L)]\<rparr>"
    have shard: "writer_shard db2 w = ?s" "writer_shard db3 w = ?s" by (simp_all add: writer_shard_def db3_def ShardForRow_def)
    obtain e fs where wr: "WriteVAllAt os (filesys db2) (rowValueFiles db2 ! unat ?s) (block_slices ?c L) off = (e, fs)" by fastforce
    define db4 where "db4 = db3\<lparr>filesys := fs\<rparr>"
    have ap: "appended db2 (unat ?s) (rb_blockSize (rl_header L)) fs = db4" by (simp add: appended_def db4_def db3_def off_def)
    have to2: "store_run os (lone db ts ws w Take_Sequence) (lone db2 ts ws w (Append_Block q L))"
      by (rule lone_step) (use built seq small2 in simp_all)
    have small3: "short_shards db3" if "rowAppendOffsets db' = rowAppendOffsets db3" using small(2) that by simp
    have to3: "store_run os (lone db2 ts ws w (Append_Block q L)) (lone db3 ts ws w (Transfer_Block q L off))" if "short_shards db3"
      by (rule lone_step) (use that in \<open>simp_all add: shard db3_def off_def Let_def\<close>)
    have wr3: "WriteVAllAt os (filesys db3) (rowValueFiles db3 ! unat ?s) (block_slices ?c L) off = (e, fs)"
      using wr by (simp add: db3_def)
    show ?thesis
    proof (cases "IsOk e")
      case False
      then have r: "st = e" "db' = db4" using run seq built wr by (simp_all add: append_row_def Let_def ap off_def [symmetric])
      then have "short_shards db3" using small(2) by (simp add: db4_def)
      note to3' = to3 [OF this]
      have "store_run os (lone db3 ts ws w (Transfer_Block q L off)) (lone db4 ts ws w (leave w e))"
        by (rule lone_step) (use wr3 False small(2) r in \<open>simp_all add: shard db4_def Let_def\<close>)
      from rtranclp_trans [OF rtranclp_trans [OF to2 to3'] this]
      show ?thesis using r by (intro exI [of _ "[]"] exI [of _ None]) (simp add: none [symmetric])
    next
      case True
      let ?d = "writer_bucket db3 w q L off" and ?pc = "probe_from (bucket_count db4) 0"
      let ?w = "w\<lparr>w_call := Some (length ts)\<rparr>"
      have d: "?d = \<lparr>rd_columnHash = HashString ?c, rd_rowId = w_rowId w, rd_shardId = ?s, rd_blockOffset = off,
          rd_blockSize = rb_blockSize (rl_header L), rd_sequence = q\<rparr>" by (simp add: writer_bucket_def shard)
      obtain i new db5 where ins: "InsertOrUpdateRowBucket os db4 ?c ?d = Some (i, new, db5)"
        and r: "(st, db') = (if \<not> IsOk i then (i, db5) else (Ok, if new then increment_rowItemCount db5 else db5))"
        using run seq built wr True unfolding d
        by (auto simp: append_row_def Let_def ap off_def [symmetric] split: option.splits if_splits)
      have offs: "rowAppendOffsets db' = rowAppendOffsets db3"
        using r InsertOrUpdateRowBucket_offsets [OF ins]
        by (auto simp: db4_def increment_rowItemCount_def set_RowIndexHeader_def Let_def split: if_splits)
      note small3' = small3 [OF offs]
      have small4: "short_shards db4" using small3' by (simp add: db4_def)
      have small5: "short_shards db5" using small4 InsertOrUpdateRowBucket_offsets [OF ins] by simp
      have to4: "store_run os (lone db3 ts ws w (Transfer_Block q L off)) (lone db4 (ts @ [(Insert ?c ?d, ?pc)]) ws ?w Indexing)"
        by (rule lone_step) (use wr3 True small4 in \<open>simp_all add: shard db4_def Let_def\<close>)
      have upto4: "store_run os (lone db ts ws w Take_Sequence) (lone db4 (ts @ [(Insert ?c ?d, ?pc)]) ws ?w Indexing)"
        by (rule rtranclp_trans [OF to2 rtranclp_trans [OF to3 [OF small3'] to4]])
      have inv4: "store_inv os start r0 (lone db4 (ts @ [(Insert ?c ?d, ?pc)]) ws ?w Indexing)"
        by (rule store_run_keeps [OF os start upto4 inv])
      let ?ts = "ts @ [(Insert ?c ?d, if IsOk i then Inserted new else Failed i)]"
      have to5: "store_run os (lone db4 (ts @ [(Insert ?c ?d, ?pc)]) ws ?w Indexing) (lone db5 ?ts ws ?w Indexing)" and i: "IsOk i \<longrightarrow> i = Ok"
        using lone_insert [OF os start inv4 idle _ ins small4] by (simp_all add: writer_bucket_def)
      have to6: "store_run os (lone db5 ?ts ws ?w Indexing) (lone db' ?ts ws ?w (leave ?w st))"
      proof (cases "IsOk i \<and> new")
        case True
        have "store_run os (lone db5 ?ts ws ?w Indexing) (lone db5 ?ts ws ?w Count_Item)"
          by (rule lone_step) (use True small5 in simp_all)
        moreover have "store_run os (lone db5 ?ts ws ?w Count_Item) (lone db' ?ts ws ?w (leave ?w st))"
          by (rule lone_step) (use True r small(2) in simp_all)
        ultimately show ?thesis by (rule rtranclp_trans)
      next
        case False
        show ?thesis by (rule lone_step) (use False r i small5 in \<open>auto split: if_splits\<close>)
      qed
      from rtranclp_trans [OF rtranclp_trans [OF upto4 to5] to6]
      show ?thesis by (intro exI [of _ "[(Insert ?c ?d, if IsOk i then Inserted new else Failed i)]"] exI [of _ "Some (length ts)"]) simp
    qed
  qed
qed

lemma lone_append:
  assumes os: "reads_ok os" and start: "store_start start" and inv: "store_inv os start r0 (lone db ts ws w Take_Sequence)"
    and idle: "idle ts" and none: "w_call w = None"
    and run: "append_row os db (w_column w) (w_rowId w) (w_entries w) = Some (st, db')"
    and small: "short_shards db" "short_shards db'"
  shows "\<exists>ts' call. (\<forall>x \<in> set ts'. finished (snd x)) \<and> store_run os (lone db ts ws w Take_Sequence)
    (lone (if w_reserve w then ReleaseRowIndexInsertSlot db' else db') (ts @ ts') ws (w\<lparr>w_call := call\<rparr>) (Returned st))"
proof -
  obtain ts' call where fin: "\<forall>x \<in> set ts'. finished (snd x)"
    and to: "store_run os (lone db ts ws w Take_Sequence) (lone db' (ts @ ts') ws (w\<lparr>w_call := call\<rparr>) (leave w st))"
    using lone_body [OF assms] by blast
  have "store_run os (lone db' (ts @ ts') ws (w\<lparr>w_call := call\<rparr>) (leave w st))
      (lone (if w_reserve w then ReleaseRowIndexInsertSlot db' else db') (ts @ ts') ws (w\<lparr>w_call := call\<rparr>) (Returned st))"
    using lone_leave [OF small(2), of os "ts @ ts'" ws "w\<lparr>w_call := call\<rparr>" st] by simp
  from rtranclp_trans [OF to this] fin show ?thesis by blast
qed

subsection \<open>A whole call\<close>

lemma lone_reserve:
  assumes "ReserveRowIndexInsertSlot db = (st, db')" and "short_shards db"
  shows "store_run os (lone db ts ws w Load_Items) (lone db' ts ws w (if IsOk st then Take_Sequence else Returned st)) \<and>
    rowAppendOffsets db' = rowAppendOffsets db"
proof -
  let ?items = "rih_itemCount (RowIndexHeader db)" and ?pending = "rowPendingInsertCount db"
  have r: "(st, db') = (if slot_refused db ?items ?pending
      then (InvalidArgument ''row index capacity exceeded; increase initialRowBucketCount'', db)
      else (Ok, db\<lparr>rowPendingInsertCount := ?pending + 1\<rparr>))"
    using assms(1) by (simp only: ReserveRowIndexInsertSlot_def slot_refused_def Let_def)
  have load: "store_run os (lone db ts ws w Load_Items) (lone db ts ws w (Load_Pending ?items))"
    by (rule lone_step) (use assms(2) in simp_all)
  show ?thesis
  proof (cases "slot_refused db ?items ?pending")
    case True
    then have st: "st = InvalidArgument ''row index capacity exceeded; increase initialRowBucketCount''" "db' = db" using r by simp_all
    have "store_run os (lone db ts ws w (Load_Pending ?items)) (lone db ts ws w (Returned st))"
      by (rule lone_step) (use True assms(2) st in \<open>simp_all add: Let_def\<close>)
    with load have "store_run os (lone db ts ws w Load_Items) (lone db ts ws w (Returned st))" by (rule rtranclp_trans)
    then show ?thesis using st by simp
  next
    case False
    then have st: "st = Ok" "db' = db\<lparr>rowPendingInsertCount := ?pending + 1\<rparr>" using r by simp_all
    have turn: "store_run os (lone db ts ws w (Load_Pending ?items)) (lone db ts ws w (Exchange ?pending))"
      by (rule lone_step) (use False assms(2) in \<open>simp_all add: Let_def\<close>)
    have "store_run os (lone db ts ws w (Exchange ?pending)) (lone db' ts ws w Take_Sequence)"
      by (rule lone_step) (use assms(2) st in simp_all)
    from rtranclp_trans [OF load rtranclp_trans [OF turn this]]
    have "store_run os (lone db ts ws w Load_Items) (lone db' ts ws w Take_Sequence)" .
    then show ?thesis using st by simp
  qed
qed

lemma lone_write:
  assumes "reads_ok os" and "store_start db" and "store_reachable os db s" and "idle (race_threads (st_race s))"
    and "call_fits db column entries" and "reserve \<or> row_found (st_race s) column rowId"
    and "WriteRowStructs os (race_db (st_race s)) column rowId entries reserve = Some (status, db')"
    and "\<forall>off \<in> set (rowAppendOffsets db'). unat off < 2 ^ 62"
  shows "\<exists>w threads. store_run os s
      \<lparr>st_race = \<lparr>race_db = db', race_threads = race_threads (st_race s) @ threads\<rparr>, st_writers = st_writers s @ [w]\<rparr> \<and>
    w_column w = column \<and> w_rowId w = rowId \<and> w_entries w = entries \<and> w_stage w = Returned status \<and>
    (\<forall>x \<in> set threads. finished (snd x))"
proof -
  let ?db = "race_db (st_race s)" and ?ts = "race_threads (st_race s)" and ?ws = "st_writers s"
  note inv = store_reachable_inv [OF assms(1-3)] and D = store_invD [OF store_reachable_inv [OF assms(1-3)]]
  have s: "s = \<lparr>st_race = \<lparr>race_db = ?db, race_threads = ?ts\<rparr>, st_writers = ?ws\<rparr>" by (cases s; cases "st_race s") simp
  note idle = assms(4)
  have frame: "opened ?db" "\<not> readOnly ?db" "options ?db = options db" "length (rowAppendOffsets ?db) = length (rowValueFiles db)"
      "\<forall>n < length (rowValueFiles db). unat (rowAppendOffsets ?db ! n) < 2 ^ 62"
    using D(2) by (simp_all add: frame_ok_def)
  have short: "short_shards ?db" using frame(4,5) by (auto simp: in_set_conv_nth)
  have fits: "call_fits ?db column entries" using assms(5) frame(3) by (simp add: call_fits_def)
  define w where "w = \<lparr>w_column = column, w_rowId = rowId, w_entries = entries, w_reserve = reserve, w_call = None,
    w_stage = first_stage ?db column entries reserve\<rparr>"
  have w: "w_column w = column" "w_rowId w = rowId" "w_entries w = entries" "w_reserve w = reserve" "w_call w = None"
      "w\<lparr>w_stage := first_stage ?db column entries reserve\<rparr> = w" by (simp_all add: w_def)
  have "store_step os s (lone ?db ?ts (?ws, []) w (first_stage ?db column entries reserve))"
    using store_step.call [OF fits assms(6), of os] unfolding w(6) by (subst (asm) (2) s) (simp add: w_def)
  then have arrive: "store_run os s (lone ?db ?ts (?ws, []) w (first_stage ?db column entries reserve))"
    using short by (intro r_into_rtranclp [of "store_move os"]) (simp add: store_move_def small_files_def)
  have finish: ?thesis if "store_run os s (lone db' (?ts @ ts') (?ws, []) (w\<lparr>w_call := c\<rparr>) (Returned status))"
      and "\<forall>x \<in> set ts'. finished (snd x)" for ts' c
    using that w by (intro exI [of _ "w\<lparr>w_call := c, w_stage := Returned status\<rparr>"] exI [of _ ts']) simp
  have refused: ?thesis if "store_run os s (lone db' ?ts (?ws, []) w (Returned status))"
  proof -
    have "w\<lparr>w_call := None\<rparr> = w" by (simp add: w_def)
    then show ?thesis using finish [of "[]" None] that by simp
  qed
  show ?thesis
  proof (cases "FitsUint32 (length column) \<and> entries \<noteq> []")
    case False
    then have st: "first_stage ?db column entries reserve = Returned status" "db' = ?db"
      using assms(7) frame(1,2) by (auto simp: first_stage_def WriteRowStructs_def split: if_splits)
    then have "store_run os s (lone db' ?ts (?ws, []) w (Returned status))" using arrive by (simp only: st)
    then show ?thesis by (rule refused)
  next
    case True
    obtain st1 db1 where r: "(if reserve then ReserveRowIndexInsertSlot ?db else (Ok, ?db)) = (st1, db1)" by fastforce
    have res: "store_run os (lone ?db ?ts (?ws, []) w (first_stage ?db column entries reserve))
          (lone db1 ?ts (?ws, []) w (if IsOk st1 then Take_Sequence else Returned st1)) \<and> rowAppendOffsets db1 = rowAppendOffsets ?db"
      using r True frame(1,2) lone_reserve [OF _ short, of st1 db1 os ?ts "(?ws, [])" w] by (cases reserve) (auto simp: first_stage_def)
    note eq = WriteRowStructs_append_row [OF frame(1,2) conjunct1 [OF True] conjunct2 [OF True], of os rowId reserve]
    show ?thesis
    proof (cases "IsOk st1")
      case False
      then have "status = st1" "db' = db1" using assms(7) eq r by simp_all
      then show ?thesis using rtranclp_trans [OF arrive conjunct1 [OF res]] False by (intro refused) simp
    next
      case True
      have to1: "store_run os s (lone db1 ?ts (?ws, []) w Take_Sequence)"
        using rtranclp_trans [OF arrive conjunct1 [OF res]] True by simp
      obtain d where d: "append_row os db1 column rowId entries = Some (status, d)" "db' = (if reserve then ReleaseRowIndexInsertSlot d else d)"
        using assms(7) eq r True by auto
      have "short_shards d" using assms(8) d(2) by (auto simp: ReleaseRowIndexInsertSlot_def split: if_splits)
      moreover have "short_shards db1" using short res by simp
      moreover have "append_row os db1 (w_column w) (w_rowId w) (w_entries w) = Some (status, d)" using d(1) w by simp
      ultimately obtain ts' c where fin: "\<forall>x \<in> set ts'. finished (snd x)" and run: "store_run os (lone db1 ?ts (?ws, []) w Take_Sequence)
          (lone (if w_reserve w then ReleaseRowIndexInsertSlot d else d) (?ts @ ts') (?ws, []) (w\<lparr>w_call := c\<rparr>) (Returned status))"
        using lone_append [OF assms(1,2) store_run_keeps [OF assms(1,2) to1 inv] idle w(5)] by blast
      from rtranclp_trans [OF to1 run] show ?thesis using fin by (intro finish) (simp_all only: w(4) d(2))
    qed
  qed
qed

text \<open>C22. A call of \<open>WriteRowStructs\<close> that is not interrupted is the sequential call: in every store that concurrent calls
  have reached, whatever other calls are in the middle of their work, as long as none is just storing into a bucket,
  the steps of one more call lead to the status and to the database that the sequential model of \<open>WriteRowStructs\<close>
  computes there, and leave the other calls as they were.\<close>

theorem uninterrupted_write_is_sequential:
  assumes "reads_ok os" and "store_start db" and "store_reachable os db s" and "idle (race_threads (st_race s))"
    and "call_fits db column entries" and "reserve \<or> row_found (st_race s) column rowId"
    and "WriteRowStructs os (race_db (st_race s)) column rowId entries reserve = Some (status, db')"
    and "\<forall>off \<in> set (rowAppendOffsets db'). unat off < 2 ^ 62"
  shows "\<exists>w threads. store_run os s
      \<lparr>st_race = \<lparr>race_db = db', race_threads = race_threads (st_race s) @ threads\<rparr>, st_writers = st_writers s @ [w]\<rparr> \<and>
    w_column w = column \<and> w_rowId w = rowId \<and> w_entries w = entries \<and> w_stage w = Returned status \<and>
    (\<forall>x \<in> set threads. finished (snd x))"
  by (rule lone_write [OF assms])

end
