(* ===== verification/Row_Race_Samples.thy ===== *)
theory Row_Race_Samples
  imports Row_Race_Progress Histories
begin

text \<open>
  A concrete race on a fresh database: two insertions of the same row with values of different lengths
  and a lookup of it.  It shows that the properties of racing calls speak about races that exist, and
  that a lookup can report corruption although the table is in order all the time.
\<close>

subsection \<open>The block of a row with one key\<close>

lemma filter_replicate_update:
  "i < n \<Longrightarrow> \<not> P a \<Longrightarrow> P x \<Longrightarrow> filter P ((replicate n a)[i := x]) = [x]"
proof (induction n arbitrary: i)
  case 0
  then show ?case by simp
next
  case (Suc n)
  then show ?case by (cases i) simp_all
qed

lemma assign_values_shape:
  "assign_values entries slots off = (buckets, ves, n) \<Longrightarrow>
    length buckets = length slots \<and>
    ves = map (\<lambda>s. entries ! snd s) (filter (\<lambda>s. rk_state (fst s) \<noteq> kBucketEmpty) slots)"
proof (induction slots arbitrary: off buckets ves n)
  case Nil
  then show ?case by simp
next
  case (Cons s slots)
  obtain b i where s: "s = (b, i)" by fastforce
  show ?case
  proof (cases "rk_state b = kBucketEmpty")
    case True
    obtain bs vs m where r: "assign_values entries slots off = (bs, vs, m)" by (metis prod_cases3)
    then show ?thesis using Cons.prems Cons.IH [OF r] True s by auto
  next
    case False
    let ?off = "off + of_nat (length (re_bytes (entries ! i)))"
    obtain bs vs m where r: "assign_values entries slots ?off = (bs, vs, m)" by (metis prod_cases3)
    then show ?thesis using Cons.prems Cons.IH [OF r] False s by (auto simp: Let_def)
  qed
qed

definition one_key_buckets :: "rat \<Rightarrow> u64" where
  "one_key_buckets f = the (RoundUpPowerOfTwo (the (u64_of_double (ddiv (double_of_u64 1) (Fin f))) + 1))"

lemma one_entry_size:
  assumes f: "maxLoadFactor (options db) = Fin f" and fits: "row_fits f c [e]"
    and L: "BuildRowBlockLayout db c r [e] sq h = Some (Inr L)"
  shows "layout_size c L = 72 + 48 * unat (one_key_buckets f) + length c + length (re_key e) + length (re_bytes e)"
    and "unat (one_key_buckets f) \<le> 2 ^ 31"
proof -
  have f01: "0 < f" "f < 1" and n: "rat_of_nat 1 \<le> f * (2 ^ 31 - 1)" using fits by (simp_all add: row_fits_def)
  obtain q j where q: "u64_of_double (ddiv (double_of_u64 (of_nat 1)) (Fin f)) = Some q"
    "RoundUpPowerOfTwo (q + 1) = Some (2 ^ j)" "j \<le> 31" "1 < (2 :: nat) ^ j"
    by (rule row_bucket_count [OF f01 n])
  have B: "one_key_buckets f = 2 ^ j" using q(1,2) by (simp add: one_key_buckets_def)
  have u: "unat ((2 :: u64) ^ j) = 2 ^ j" using q(3) by simp
  let ?n = "2 ^ j :: nat"
  let ?init = "\<lparr>bd_keyBuckets = replicate ?n RowKeyBucket_default, bd_keyBytes = [],
      bd_selectedEntries = replicate ?n 1, bd_itemCount = 0 :: u32\<rparr>"
  obtain b where b: "place_row_key r (2 ^ j) 0 e ?init = Some b"
    and b': "let (buckets, ves, m) = assign_values [e] (zip (bd_keyBuckets b) (bd_selectedEntries b)) 0
       in rl_keyBuckets L = buckets \<and> rl_keyBytes L = bd_keyBytes b \<and> rl_valueEntries L = ves"
    using L q(1,2) by (auto simp: BuildRowBlockLayout_def f u split: option.splits if_splits prod.splits)
  let ?probes = "probe_indices (MixHashes (HashString (re_key e)) r AND (2 ^ j - 1)) (2 ^ j)"
  have probes: "set ?probes = {..<?n}" using q(3) by (simp add: probe_indices_pow2)
  define P where "P = (\<lambda>i. rk_state (replicate ?n RowKeyBucket_default ! i) = kBucketEmpty \<or>
    row_key_matches [] (replicate ?n RowKeyBucket_default ! i) (HashString (re_key e)) (re_key e))"
  obtain i where i: "find P ?probes = Some i"
    using b by (cases "find P ?probes") (simp_all add: place_row_key_def Let_def P_def [symmetric])
  have i': "i < ?n" using find_SomeD [OF i] probes by simp
  have eb: "b = ?init\<lparr>bd_keyBytes := re_key e,
        bd_keyBuckets := (replicate ?n RowKeyBucket_default)[i := RowKeyBucket_default
          \<lparr>rk_state := kBucketFilled, rk_keyHash := HashString (re_key e), rk_keyOffset := 0,
           rk_keySize := of_nat (length (re_key e))\<rparr>],
        bd_selectedEntries := (replicate ?n 1)[i := 0], bd_itemCount := 1\<rparr>"
    using b i i' by (simp add: place_row_key_def Let_def P_def [symmetric]) (simp add: RowKeyBucket_default_def)
  obtain buckets ves m where av: "assign_values [e] (zip (bd_keyBuckets b) (bd_selectedEntries b)) 0 = (buckets, ves, m)"
    by (metis prod_cases3)
  have z: "zip (bd_keyBuckets b) (bd_selectedEntries b) =
      (replicate ?n (RowKeyBucket_default, 1))[i := (RowKeyBucket_default\<lparr>rk_state := kBucketFilled, rk_keyHash := HashString (re_key e),
        rk_keyOffset := 0, rk_keySize := of_nat (length (re_key e))\<rparr>, 0)]"
    using i' by (simp add: eb zip_update zip_replicate)
  have "length buckets = ?n \<and> ves = [e]"
    using assign_values_shape [OF av] i' unfolding z
    by (simp add: filter_replicate_update RowKeyBucket_default_def kBucketFilled_def kBucketEmpty_def)
  then show "layout_size c L = 72 + 48 * unat (one_key_buckets f) + length c + length (re_key e) + length (re_bytes e)"
    using b' av eb by (simp add: layout_size_def layout_values_def values_of_def B u)
  have "(2 :: nat) ^ j \<le> 2 ^ 31" using q(3) by (intro power_increasing) simp_all
  then show "unat (one_key_buckets f) \<le> 2 ^ 31" by (simp only: B u)
qed

subsection \<open>Two versions of a row in a shard\<close>

definition files_grow :: "Impl \<Rightarrow> fs \<Rightarrow> bool" where
  "files_grow db fs \<longleftrightarrow>
     row_readable (db\<lparr>filesys := fs\<rparr>) \<and> shards_extend (shards_of db) (shards_of (db\<lparr>filesys := fs\<rparr>))"

lemma files_grow_world:
  assumes grow: "files_grow db fs" and "mapped_data (rowIndexMap db) \<noteq> None"
  shows "world_moves W db (db\<lparr>filesys := fs\<rparr>)"
proof -
  have "p < length (shards_of (db\<lparr>filesys := fs\<rparr>) ! s) \<and> shards_of (db\<lparr>filesys := fs\<rparr>) ! s ! p = shards_of db ! s ! p"
    if "s < length (shards_of db)" "p < length (shards_of db ! s)" for s p
  proof -
    have "take (length (shards_of db ! s)) (shards_of (db\<lparr>filesys := fs\<rparr>) ! s) = shards_of db ! s"
      using grow that(1) unfolding files_grow_def shards_extend_def by (meson list_all2_nthD)
    then show ?thesis using that(2) by (metis length_take min_less_iff_conj nth_take)
  qed
  then show ?thesis
    using assms by (simp add: world_moves_def keeps_bytes_def files_grow_def RowBuckets_def RowIndexHeader_def del: shards_of_simps(2))
qed

lemma append_files:
  assumes db: "row_core_ok db" and s: "s < length (rowValueFiles db)" and small: "length (row_bytes db s) + length bs < 2 ^ 63"
  defines "fs \<equiv> set_file (filesys db) (the (rowValueFiles db ! s)) (row_bytes db s @ bs)"
  shows "files_grow db fs" and "shards_of (db\<lparr>filesys := fs\<rparr>) = (shards_of db)[s := row_bytes db s @ bs]"
proof -
  have unmapped: "\<not> (t < length (rowValueMaps db) \<and> IsMapped (rowValueMaps db ! t))" for t
    using db unfolding row_core_ok_def by (meson nth_mem)
  have opened: "rowValueFiles db ! t \<noteq> None" if "t < length (rowValueFiles db)" for t
    using db that unfolding row_core_ok_def by (metis nth_mem)
  have apart: "the (rowValueFiles db ! t) \<noteq> the (rowValueFiles db ! s)" if "t < length (rowValueFiles db)" "t \<noteq> s" for t
    using db that s opened [OF that(1)] opened [OF s] unfolding row_core_ok_def by (metis nth_eq_iff_index_eq option.expand)
  have bytes: "row_bytes (db\<lparr>filesys := fs\<rparr>) t = (if t = s then row_bytes db s @ bs else row_bytes db t)"
    if "t < length (rowValueFiles db)" for t
    using unmapped [of t] apart [OF that] unmapped [of s] by (auto simp: row_bytes_def fs_def set_file_def file_content_def)
  show shards: "shards_of (db\<lparr>filesys := fs\<rparr>) = (shards_of db)[s := row_bytes db s @ bs]"
    by (rule nth_equalityI) (simp_all add: bytes nth_list_update)
  have "length (row_bytes db t) < 2 ^ 63" if "t < length (rowValueFiles db)" for t
    using db that unfolding row_core_ok_def by (meson le_less_trans)
  then have "row_readable (db\<lparr>filesys := fs\<rparr>)"
    unfolding row_readable_def using bytes small unmapped opened by auto
  moreover have "shards_extend (shards_of db) (shards_of (db\<lparr>filesys := fs\<rparr>))"
    unfolding shards shards_extend_def using s by (auto simp: list_all2_conv_all_nth nth_list_update)
  ultimately show "files_grow db fs" by (simp add: files_grow_def)
qed

abbreviation sample_version :: "Impl \<Rightarrow> RowBucketData \<Rightarrow> RowBlockLayout \<Rightarrow> bytes \<Rightarrow> bool" where
  "sample_version db d L v \<equiv>
     rd_rowId d = 5 \<and> job_ready db (Insert [7] d) \<and> row_bucket_at (shards_of db) (data_bucket d) [7] L \<and>
     layout_map L = [[1] \<mapsto> v]"

lemma race_sample:
  obtains db fs d1 d2 L1 L2 where "race_start db" "row_core_ok db" "\<forall>b \<in> set (RowBuckets db). vacant_row b"
    "16 \<le> length (RowBuckets db)" "files_grow db fs"
    "sample_version (db\<lparr>filesys := fs\<rparr>) d1 L1 [10]" "sample_version (db\<lparr>filesys := fs\<rparr>) d2 L2 [10, 11]"
    "rb_blockSize (rl_header L1) \<noteq> rb_blockSize (rl_header L2)"
proof -
  obtain db where jc: "just_created db" by (rule just_createdI)
  have db: "row_ok db" "row_core_ok db" "maxLoadFactor (options db) = Fin (fl (4 / 5))" "rows db = (\<lambda>_. None)"
    "shards_of db = replicate 8 fresh_shard" "16 \<le> length (RowBuckets db)"
    using jc default_load by (simp_all add: just_created_def database_ok_def row_ok_def)
  have len: "length (rowValueFiles db) = 8" using arg_cong [OF db(5), of length] by simp
  obtain v where v: "mapped_data (rowIndexMap db) = Some v" "row_index_ok (shards_of db) v"
    using db(2) unfolding row_core_ok_def by blast
  have empty: "\<forall>b \<in> set (RowBuckets db). vacant_row b"
  proof (rule ccontr)
    assume "\<not> ?thesis"
    then obtain b where "b \<in> set (occupied vacant_row (RowBuckets db))" by (auto simp: set_occupied)
    moreover have "rows db (row_bucket_key (shards_of db) b) = None" using db(4) by simp
    ultimately show False unfolding rows_def rows_map_def table_map_None by blast
  qed
  have readable: "row_readable db" using row_ok_readable [OF db(1)] by (simp add: rows_readable_def)
  have start: "race_start db" unfolding race_start_def using readable v empty by auto
  define e where "e v = \<lparr>re_key = [1], re_bytes = v\<rparr>" for v :: bytes
  have "(1 :: rat) \<le> fl (4 / 5) * (2 ^ 31 - 1)" using default_load_factor(2) by simp
  then have fits: "row_fits (fl (4 / 5)) [7] [e v]" if "length v < 100" for v
    using default_load_factor that by (simp add: row_fits_def e_def key_bytes_total_def values_of_def)
  have layout: "\<exists>L. layout_ok [7] 5 L \<and> layout_map L = [[1] \<mapsto> v] \<and>
      layout_size [7] L = 74 + 48 * unat (one_key_buckets (fl (4 / 5))) + length v" if "length v < 100" for v
  proof -
    note f = fits [OF that]
    obtain L where "BuildRowBlockLayout db [7] 5 [e v] 0 (HashString [7]) = Some (Inr L)" "layout_ok [7] 5 L"
      "layout_map L = row_map [e v]" by (rule BuildRowBlockLayout_ok [OF db(3) f])
    then show ?thesis using one_entry_size(1) [OF db(3) f] by (auto simp: e_def row_map_def)
  qed
  obtain L1 L2 where L: "layout_ok [7] 5 L1" "layout_map L1 = [[1] \<mapsto> [10]]" "layout_ok [7] 5 L2" "layout_map L2 = [[1] \<mapsto> [10, 11]]"
      "layout_size [7] L1 = 75 + 48 * unat (one_key_buckets (fl (4 / 5)))" "layout_size [7] L2 = 76 + 48 * unat (one_key_buckets (fl (4 / 5)))"
    using layout [of "[10]"] layout [of "[10, 11]"] by auto
  obtain L0 where "BuildRowBlockLayout db [7] 5 [e []] 0 (HashString [7]) = Some (Inr L0)"
    by (rule BuildRowBlockLayout_ok [OF db(3) fits [of "[]"]]) simp_all
  then have cnt: "unat (one_key_buckets (fl (4 / 5))) \<le> 2 ^ 31" using one_entry_size(2) [OF db(3) fits [of "[]"]] by simp
  define s where "s = unat (ShardForRow db (HashString [7]) 5)"
  have s: "s < length (rowValueFiles db)" unfolding s_def by (rule shard_index) (simp_all add: len)
  have fresh: "row_bytes db s = fresh_shard" using db(5) s len by (metis nth_replicate shards_of_simps(2))
  let ?bs = "block_bytes [7] L1 @ block_bytes [7] L2"
  have lens: "length (block_bytes [7] L1) = layout_size [7] L1" "length (block_bytes [7] L2) = layout_size [7] L2"
    using length_block_bytes L(1,3) by blast+
  define fs where "fs = set_file (filesys db) (the (rowValueFiles db ! s)) (row_bytes db s @ ?bs)"
  have "length (row_bytes db s) + length ?bs < 2 ^ 63"
    using cnt by (simp add: fresh length_fresh_shard lens L(5,6))
  note grow = append_files [OF db(2) s this, folded fs_def]
  let ?db = "db\<lparr>filesys := fs\<rparr>"
  have shard: "shards_of ?db ! s = fresh_shard @ ?bs" using grow(2) s fresh by simp
  define d where "d off L = \<lparr>rd_columnHash = HashString [7], rd_rowId = 5, rd_shardId = ShardForRow db (HashString [7]) 5,
    rd_blockOffset = off, rd_blockSize = rb_blockSize (rl_header L), rd_sequence = rb_sequence (rl_header L)\<rparr>" for off :: u64 and L :: RowBlockLayout
  have at: "row_bucket_at (shards_of ?db) (data_bucket (d off L)) [7] L"
    if "layout_ok [7] 5 L" "block_at (fresh_shard @ ?bs) (unat off) [7] L" for off L
    using that s shard len
    by (simp add: row_bucket_at_def d_def data_bucket_def StoreRowBucketData_def RowIndexBucket_default_def s_def del: shards_of_simps(2))
  have ready: "job_ready ?db (Insert [7] (d off L))" if "row_bucket_at (shards_of ?db) (data_bucket (d off L)) [7] L" for off L
    unfolding job_ready_def using that by (auto simp: d_def ShardForRow_def)
  have at1: "block_at (fresh_shard @ ?bs) (unat (24 :: u64)) [7] L1"
    by (simp add: block_at_def lens length_fresh_shard)
  have off2: "unat (of_nat (24 + layout_size [7] L1) :: u64) = 24 + layout_size [7] L1"
    by (rule unat_of_nat64) (use cnt L(5) in simp)
  have at2: "block_at (fresh_shard @ ?bs) (unat (of_nat (24 + layout_size [7] L1) :: u64)) [7] L2"
    unfolding off2 by (simp add: block_at_def lens length_fresh_shard)
  have "unat (rb_blockSize (rl_header L1)) \<noteq> unat (rb_blockSize (rl_header L2))"
    using layout_okD(12) [OF L(1)] layout_okD(12) [OF L(3)] L(5,6) by simp
  then have "rb_blockSize (rl_header L1) \<noteq> rb_blockSize (rl_header L2)" by auto
  then show ?thesis
    using that [OF start db(2) empty db(6) grow(1), of "d 24 L1" L1 "d (of_nat (24 + layout_size [7] L1)) L2" L2]
      at [OF L(1) at1] at [OF L(3) at2] ready L(2,4) by (simp add: d_def)
qed

subsection \<open>A torn snapshot\<close>

lemma publish_set:
  assumes "table_shape db" and "rib_reserved64 (RowBuckets db ! i) = 0" "rib_reserved65 (RowBuckets db ! i) = 0"
  shows "publish_row_bucket i d db = set_RowBucket i (data_bucket d) db"
proof -
  obtain v where v: "mapped_data (rowIndexMap db) = Some v" using assms(1) by (auto simp: table_shape_def)
  have B: "RowBuckets db = ri_buckets v" using v by (simp add: RowBuckets_def)
  show ?thesis using publish_row_bucket_with [OF v, of i d] assms(2,3) by (simp add: B set_RowBucket_with [OF v])
qed

lemma job_ready_set: "table_shape db \<Longrightarrow> job_ready (set_RowBucket i b db) job = job_ready db job"
  by (cases job) (simp_all add: job_ready_def set_RowBucket_shape ShardForRow_def)

lemma arrive_same:
  "job_ready db job \<Longrightarrow> race_step os start \<lparr>race_db = db, race_threads = ts\<rparr>
    \<lparr>race_db = db, race_threads = ts @ [(job, probe_from (bucket_count db) 0)]\<rparr>"
  using race_step.arrive [of "\<lparr>race_db = db, race_threads = ts\<rparr>" job] by simp

lemma solo_race:
  assumes "solo os job n (pc, db) = (pc', db')" and "t < length ts" and "ts ! t = (job, pc)"
  shows "race_run os start \<lparr>race_db = db, race_threads = ts\<rparr> \<lparr>race_db = db', race_threads = ts[t := (job, pc')]\<rparr>"
  using solo_run [of t "\<lparr>race_db = db, race_threads = ts\<rparr>" job pc os n pc' db'] assms by simp

text \<open>A matching insertion, and a lookup, that run alone on a table whose first probe is the row.\<close>

lemma solo_hit:
  assumes os: "reads_ok os" and shape: "table_shape db" and readable: "row_readable db"
    and n: "0 < length (RowBuckets db)" and i: "i = probe_at (bucket_count db) job 0" "i < length (RowBuckets db)"
    and at: "row_bucket_at (shards_of db) (RowBuckets db ! i) (job_column job) L"
    and key: "rib_rowId (RowBuckets db ! i) = job_rowId job" "job_columnHash job = HashString (job_column job)"
  shows "solo os job 9 (Probing 0, db) = (on_match job 0 i (RowBuckets db ! i) (rl_header L), db)"
proof -
  have filled: "rib_state (RowBuckets db ! i) = kRowBucketFilled" and h: "rib_columnHash (RowBuckets db ! i) = HashString (job_column job)"
    using at by (simp_all add: row_bucket_at_def)
  obtain b where b: "LoadRowBucketSnapshot db i = Inr (kFilled, b)" "solo os job 8 (Probing 0, db) = (Comparing 0 b, db)"
    using solo_snapshot [OF i(1) filled] by blast
  have "b = RowBuckets db ! i" using b(1) LoadRowBucketSnapshot_filled [OF at refl] by simp
  then have "thread_step os job db (Comparing 0 b) = (on_match job 0 i (RowBuckets db ! i) (rl_header L), db)"
    using RowBlockMatches_ok [OF os readable at key(1), of "job_column job"] key h i(1) by (simp add: Let_def)
  then show ?thesis using solo_add [of os job 8 1 "(Probing 0, db)"] b(2) by simp
qed

lemma torn_comparison:
  assumes os: "reads_ok os" and inv: "table_inv W db K E" and job: "job_ready db job"
    and b: "\<forall>f. field_ok W db (job_key job) b f" and at: "version_at db (job_key job) (rib_blockOffset b) L"
    and size: "rib_blockSize b \<noteq> rb_blockSize (rl_header L)"
  shows "thread_step os job db (Comparing p b) = (Failed (Corruption ''row index points to an invalid row block''), db)"
proof -
  obtain M where M: "version_in W db (job_key job) (rib_blockOffset b) M"
    and m: "RowBlockMatches os db b (job_column job) (job_rowId job) =
      (if rib_blockSize b \<noteq> rb_blockSize (rl_header M)
       then Inl (Corruption ''row index points to an invalid row block'')
       else Inr (if fst (job_key job) = job_column job then Some (rl_header M) else None))"
    by (rule RowBlockMatches_mixed [OF os table_invD(1) [OF inv] b]) (simp add: job_key_def)
  have "rl_header M = rl_header L" using block_at_header(2) M at by (metis version_in_def version_at_def)
  then show ?thesis
    using m size b [rule_format, of ColumnHash] b [rule_format, of RowId] job_ready_hash [OF job] by (simp add: job_key_def)
qed

abbreviation sample_lookup :: job where
  "sample_lookup \<equiv> Find [7] 5 (HashString [7])"

lemma sample_race:
  obtains db D mid s d1 d2 b lookup where "race_start db" "reachable choppy_os db mid" "race_run choppy_os db mid s"
    "race_threads mid = [(Insert [7] d1, Inserted True), (sample_lookup, Loading 0 [BlockSize, Sequence] b),
      (Insert [7] d2, Probing 0), (sample_lookup, Probing 0)]"
    "race_threads s = [(Insert [7] d1, Inserted True),
      (sample_lookup, Failed (Corruption ''row index points to an invalid row block'')),
      (Insert [7] d2, Inserted False), (sample_lookup, Found lookup)]"
    "rlk_found lookup" "rows (race_db s) ([7], 5) = Some [[1] \<mapsto> [10, 11]]"
    "\<exists>b \<in> set (RowBuckets (race_db mid)). rib_state b = kRowBucketFilled \<and> row_bucket_key (shards_of (race_db mid)) b = ([7], 5)"
    "race_start D" "job_ready D (Insert [7] d1)"
proof -
  let ?os = choppy_os
  obtain db fs d1 d2 L1 L2 where start: "race_start db" "row_core_ok db" "\<forall>b \<in> set (RowBuckets db). vacant_row b"
      "16 \<le> length (RowBuckets db)" "files_grow db fs"
    and v1: "sample_version (db\<lparr>filesys := fs\<rparr>) d1 L1 [10]" and v2: "sample_version (db\<lparr>filesys := fs\<rparr>) d2 L2 [10, 11]"
    and sizes: "rb_blockSize (rl_header L1) \<noteq> rb_blockSize (rl_header L2)"
    by (rule race_sample)
  define D where "D = db\<lparr>filesys := fs\<rparr>"
  let ?A = "Insert [7] d1" and ?B = "Insert [7] d2" and ?F = sample_lookup and ?s0 = "\<lparr>race_db = db, race_threads = []\<rparr>"
  note v1' = v1 [folded D_def] and v2' = v2 [folded D_def]
  have tab0: "table_inv (written db []) db (start_keys db) {i. used db i}" using race_invD(1) [OF start_race_inv [OF start(1)]] by simp
  have "mapped_data (rowIndexMap db) \<noteq> None" using table_invD(2) [OF tab0] by (simp add: table_shape_def)
  then have moves: "world_moves (written db []) db D" unfolding D_def by (rule files_grow_world [OF start(5)])
  have tab: "table_inv (written db []) D (start_keys db) {i. used db i}" by (rule table_inv_moves [OF tab0 moves order_refl])
  note shape = table_invD(2) [OF tab] and readable = table_invD(1) [OF tab] and S = set_RowBucket_shape [OF table_invD(2) [OF tab]]
  have vacant: "\<forall>b \<in> set (RowBuckets D). vacant_row b" using start(3) by (simp add: D_def)
  have n: "0 < length (RowBuckets D)" unfolding D_def filesys_frame using start(4) by linarith
  have hash: "rd_columnHash d1 = HashString [7]" "rd_columnHash d2 = HashString [7]"
    using job_ready_hash v1' v2' by fastforce+
  define i where "i = probe_at (bucket_count D) ?F 0"
  have iA: "i = probe_at (bucket_count D) ?A 0" and iB: "i = probe_at (bucket_count D) ?B 0"
    using hash v1' v2' by (simp_all add: i_def probe_at_def)
  have i: "i < length (RowBuckets D)" unfolding i_def by (rule job_probes_simps(2) [OF shape n])
  have start_pc: "probe_from (bucket_count D) 0 = Probing 0" by (rule probe_from_less [OF shape n])
  have empty: "rib_state (RowBuckets D ! i) = kRowBucketEmpty" using vacant i by simp
  have res: "rib_reserved64 (RowBuckets D ! i) = 0" "rib_reserved65 (RowBuckets D ! i) = 0"
    using table_invD(4,5) [OF tab i] by simp_all
  \<comment> \<open>the first insertion runs alone\<close>
  define D1 where "D1 = set_RowBucket i (data_bucket d1) D"
  have "solo ?os ?A 1 (Probing 0, D) = (Taking 0 kRowBucketEmpty, D)" using empty by (simp add: Let_def iA [symmetric] on_empty_def)
  then have "solo ?os ?A (1 + 8) (Probing 0, D) = (Inserted True, publish_row_bucket i d1 D)"
    unfolding solo_add using solo_publish [OF shape iA i empty, of ?os] by simp
  then have runA: "solo ?os ?A (1 + 8) (Probing 0, D) = (Inserted True, D1)" by (simp only: publish_set [OF shape res] D1_def)
  note shape1 = S(6) [of i "data_bucket d1", folded D1_def] and S1 = S [of i "data_bucket d1", folded D1_def]
  have move: "race_step ?os db ?s0 \<lparr>race_db = D, race_threads = []\<rparr>"
    using race_step.world [of db ?s0 D ?os] moves by simp
  have readyA: "job_ready D ?A" using v1' by blast
  have to0: "race_run ?os db ?s0 \<lparr>race_db = D, race_threads = [(?A, Probing 0)]\<rparr>"
    using converse_rtranclp_into_rtranclp [of "race_step ?os db", OF move r_into_rtranclp [of "race_step ?os db", OF arrive_same [OF readyA]]]
      start_pc by simp
  have to1: "race_run ?os db ?s0 \<lparr>race_db = D1, race_threads = [(?A, Inserted True)]\<rparr>"
    using rtranclp_trans [OF to0] solo_race [OF runA, of 0 "[(?A, Probing 0)]"] by simp
  \<comment> \<open>a lookup loads four fields\<close>
  have r1: "row_readable D1" using S1(4) readable by simp
  have b1: "RowBuckets D1 ! i = data_bucket d1" using i by (simp add: S1)
  have cnt1: "bucket_count D1 = bucket_count D" by (simp add: S1)
  define b where "b = RowIndexBucket_default\<lparr>rib_state := kRowBucketFilled, rib_shardId := rd_shardId d1, rib_columnHash := rd_columnHash d1,
    rib_rowId := rd_rowId d1, rib_blockOffset := rd_blockOffset d1\<rparr>"
  have runF: "solo ?os ?F 5 (Probing 0, D1) = (Loading 0 [BlockSize, Sequence] b, D1)"
    by (simp add: eval_nat_numeral Let_def all_fields_def cnt1 i_def [symmetric] b1 b_def)
  have readyF: "job_ready D1 ?F" by (simp add: job_ready_def)
  have to2: "race_run ?os db ?s0 \<lparr>race_db = D1, race_threads = [(?A, Inserted True), (?F, Loading 0 [BlockSize, Sequence] b)]\<rparr>"
  proof (rule rtranclp_trans)
    show "race_run ?os db ?s0 \<lparr>race_db = D1, race_threads = [(?A, Inserted True), (?F, Probing 0)]\<rparr>"
      using rtranclp.rtrancl_into_rtrancl [OF to1 arrive_same [OF readyF]] start_pc by (simp add: cnt1)
    show "race_run ?os db \<lparr>race_db = D1, race_threads = [(?A, Inserted True), (?F, Probing 0)]\<rparr>
        \<lparr>race_db = D1, race_threads = [(?A, Inserted True), (?F, Loading 0 [BlockSize, Sequence] b)]\<rparr>"
      using solo_race [OF runF, of 1 "[(?A, Inserted True), (?F, Probing 0)]"] by simp
  qed
  \<comment> \<open>the second insertion and a second lookup arrive\<close>
  have readyB: "job_ready D1 ?B" using job_ready_set [OF shape] v2' by (simp add: D1_def)
  define mid where "mid = \<lparr>race_db = D1, race_threads = [(?A, Inserted True), (?F, Loading 0 [BlockSize, Sequence] b), (?B, Probing 0), (?F, Probing 0)]\<rparr>"
  have to_mid: "reachable ?os db mid"
  proof -
    have "race_run ?os db ?s0 \<lparr>race_db = D1, race_threads = [(?A, Inserted True), (?F, Loading 0 [BlockSize, Sequence] b), (?B, Probing 0)]\<rparr>"
      using rtranclp.rtrancl_into_rtrancl [OF to2 arrive_same [OF readyB]] start_pc by (simp add: cnt1)
    from rtranclp.rtrancl_into_rtrancl [OF this arrive_same [OF readyF]] show ?thesis
      using start_pc by (simp add: reachable_def mid_def cnt1)
  qed
  \<comment> \<open>the second insertion runs alone\<close>
  define D2 where "D2 = set_RowBucket i (data_bucket d2) D"
  have at1: "row_bucket_at (shards_of D1) (RowBuckets D1 ! i) (job_column ?B) L1" using v1' i by (simp add: S1)
  have hitB: "solo ?os ?B 9 (Probing 0, D1) = (Taking 0 kRowBucketFilled, D1)"
    using solo_hit [OF choppy_reads(1) shape1 r1 _ _ _ at1] n i v1' v2' hash by (simp add: b1 S1 iB on_match_def)
  have runB: "solo ?os ?B (9 + 8) (Probing 0, D1) = (Inserted False, D2)"
  proof -
    have "solo ?os ?B 8 (Taking 0 kRowBucketFilled, D1) = (Inserted False, publish_row_bucket i d2 D1)"
      using solo_publish [OF shape1, of i "[7]" d2 0 kRowBucketFilled ?os] i by (simp add: S1 iB)
    moreover have "publish_row_bucket i d2 D1 = D2"
      using publish_set [OF shape1, of i d2] b1 by (simp add: D1_def D2_def set_RowBucket_twice [OF shape])
    ultimately show ?thesis unfolding solo_add hitB by simp
  qed
  let ?s3 = "\<lparr>race_db = D2, race_threads = [(?A, Inserted True), (?F, Loading 0 [BlockSize, Sequence] b), (?B, Inserted False), (?F, Probing 0)]\<rparr>"
  have to3: "race_run ?os db mid ?s3"
    using solo_race [OF runB, of 2 "race_threads mid"] by (simp add: mid_def)
  have re3: "reachable ?os db ?s3" using to_mid to3 unfolding reachable_def by (rule rtranclp_trans)
  note S2 = S [of i "data_bucket d2", folded D2_def]
  have b2: "RowBuckets D2 ! i = data_bucket d2" and cnt2: "bucket_count D2 = bucket_count D" using i by (simp_all add: S2)
  let ?W = "written db (race_threads ?s3)"
  obtain K E where inv: "race_inv ?W K E ?s3" by (rule reachable_inv [OF choppy_reads(1) start(1) re3])
  note tab2 = race_invD(1) [OF inv, simplified]
  \<comment> \<open>the first lookup goes on\<close>
  define torn where "torn = b\<lparr>rib_blockSize := rib_blockSize (data_bucket d2), rib_sequence := rib_sequence (data_bucket d2)\<rparr>"
  have readyA2: "job_ready D2 ?A" and readyF2: "job_ready D2 ?F"
    using job_ready_set [OF shape] v1' by (simp_all add: D2_def job_ready_def)
  have "settled ?W ?A" using race_invD(6) [OF inv, of 0] by simp
  then have fields: "field_ok ?W D2 (job_key ?F) torn f" for f
    using job_ready_data(1) [OF readyA2, of ?W f] v1' by (cases f) (simp_all add: torn_def b_def job_key_def)
  have version: "version_at D2 (job_key ?F) (rib_blockOffset torn) L1"
    using v1' readyA2 fields [of ShardId] by (auto simp: version_at_def row_bucket_at_def S2 job_key_def torn_def b_def)
  have differ: "rib_blockSize torn \<noteq> rb_blockSize (rl_header L1)"
    using v2' sizes by (auto simp: torn_def row_bucket_at_def)
  have "solo ?os ?F 3 (Loading 0 [BlockSize, Sequence] b, D2) = (Comparing 0 torn, D2)"
    by (simp add: eval_nat_numeral Let_def cnt2 i_def [symmetric] b2 torn_def)
  then have runF2: "solo ?os ?F (3 + 1) (Loading 0 [BlockSize, Sequence] b, D2) =
      (Failed (Corruption ''row index points to an invalid row block''), D2)"
    unfolding solo_add using torn_comparison [OF choppy_reads(1) tab2 readyF2 _ version differ] fields by simp
  let ?s4 = "\<lparr>race_db = D2, race_threads = [(?A, Inserted True), (?F, Failed (Corruption ''row index points to an invalid row block'')),
    (?B, Inserted False), (?F, Probing 0)]\<rparr>"
  have to4: "race_run ?os db mid ?s4"
    using to3 solo_race [OF runF2, of 1 "race_threads ?s3"] rtranclp_trans [of "race_step ?os db" mid ?s3 ?s4] by simp
  \<comment> \<open>the second lookup runs alone\<close>
  have at2: "row_bucket_at (shards_of D2) (RowBuckets D2 ! i) (job_column ?F) L2" using v2' i by (simp add: S2)
  define lookup where "lookup = \<lparr>rlk_index = i, rlk_found = True, rlk_bucket = data_bucket d2, rlk_blockHeader = rl_header L2\<rparr>"
  have runG: "solo ?os ?F 9 (Probing 0, D2) = (Found lookup, D2)"
    using solo_hit [OF choppy_reads(1) S2(6) _ _ _ _ at2] n i v2' readable by (simp add: b2 S2 i_def on_match_def lookup_def)
  define s where "s = \<lparr>race_db = D2, race_threads = [(?A, Inserted True), (?F, Failed (Corruption ''row index points to an invalid row block'')),
    (?B, Inserted False), (?F, Found lookup)]\<rparr>"
  have to_s: "race_run ?os db mid s"
    using to4 solo_race [OF runG, of 3 "race_threads ?s4"] rtranclp_trans [of "race_step ?os db" mid ?s4 s] by (simp add: s_def)
  \<comment> \<open>the table at the end\<close>
  obtain K' E' where inv': "race_inv (written db (race_threads s)) K' E' s"
    by (rule reachable_inv [OF choppy_reads(1) start(1)]) (use rtranclp_trans [OF to_mid [unfolded reachable_def] to_s] in \<open>simp add: reachable_def\<close>)
  have quiet: "\<forall>t < length (race_threads s). owner s t = None" by (auto simp: s_def owner_def less_Suc_eq)
  have filled: "i < length (RowBuckets (race_db s))" "rib_state (RowBuckets (race_db s) ! i) = kRowBucketFilled"
    using i by (simp_all add: s_def S2 b2 del: shards_of_simps)
  have "K' i = ([7], 5)"
    by (rule bucket_whole [OF race_invD(1) [OF inv'] filled])
      (use row_bucket_atD(1) [OF at2] v2' in \<open>simp add: s_def b2\<close>)
  then have rows: "rows (race_db s) ([7], 5) = Some [[1] \<mapsto> [10, 11]]"
    unfolding quiet_rows [OF inv' quiet] using filled row_bucket_atD(2) [OF at2] v2' by (intro exI [of _ i]) (simp add: s_def)
  have present: "\<exists>b \<in> set (RowBuckets (race_db mid)). rib_state b = kRowBucketFilled \<and> row_bucket_key (shards_of (race_db mid)) b = ([7], 5)"
    using row_bucket_atD(1) [OF at1] v1' i nth_mem [of i "RowBuckets D1"] by (intro bexI [of _ "RowBuckets D1 ! i"]) (simp_all add: mid_def b1 S1)
  have startD: "race_start D"
  proof -
    obtain v where v: "mapped_data (rowIndexMap db) = Some v" "row_index_ok (shards_of db) v"
      using start(1) unfolding race_start_def by blast
    have "row_index_ok (shards_of D) v" using row_index_extend [OF v(2)] start(5) by (simp add: files_grow_def D_def)
    then show ?thesis using v(1) readable vacant by (simp add: race_start_def D_def)
  qed
  have threads_mid: "race_threads mid = [(?A, Inserted True), (?F, Loading 0 [BlockSize, Sequence] b), (?B, Probing 0), (?F, Probing 0)]"
    by (simp add: mid_def)
  have threads_s: "race_threads s = [(?A, Inserted True), (?F, Failed (Corruption ''row index points to an invalid row block'')),
    (?B, Inserted False), (?F, Found lookup)]" by (simp add: s_def)
  show ?thesis
    by (rule that [OF start(1) to_mid to_s threads_mid threads_s _ rows present startD]) (use v1' in \<open>simp_all add: lookup_def\<close>)
qed

subsection \<open>The properties at this race\<close>

text \<open>C30. A lookup can report corruption although nothing is corrupt: \<open>LoadRowBucketSnapshot\<close> checks the state of the
  bucket before and after it loads the fields, but an update that begins and ends in between leaves the
  state "filled" both times and mixes two versions.  In the race of this theory the table is in order
  at the end, the row has its last value, and yet a lookup of the row has failed with
  "row index points to an invalid row block".\<close>

theorem torn_snapshot_reports_corruption:
  "\<exists>db s. race_start db \<and> reachable choppy_os db s \<and> rows_table_ok (shards_of (race_db s)) (RowBuckets (race_db s)) \<and>
    rows (race_db s) ([7], 5) = Some [[1] \<mapsto> [10, 11]] \<and>
    (sample_lookup, Failed (Corruption ''row index points to an invalid row block'')) \<in> set (race_threads s)"
proof -
  obtain db D mid s d1 d2 b lookup where r: "race_start db" "reachable choppy_os db mid" "race_run choppy_os db mid s"
    "race_threads s = [(Insert [7] d1, Inserted True), (sample_lookup, Failed (Corruption ''row index points to an invalid row block'')),
      (Insert [7] d2, Inserted False), (sample_lookup, Found lookup)]"
    "rows (race_db s) ([7], 5) = Some [[1] \<mapsto> [10, 11]]"
    by (rule sample_race)
  have reach: "reachable choppy_os db s" using r(2,3) unfolding reachable_def by (rule rtranclp_trans)
  obtain K E where "race_inv (written db (race_threads s)) K E s" by (rule reachable_inv [OF choppy_reads(1) r(1) reach])
  moreover have "\<forall>t < length (race_threads s). owner s t = None" by (auto simp: r(4) owner_def less_Suc_eq)
  ultimately have "rows_table_ok (shards_of (race_db s)) (RowBuckets (race_db s))" by (rule quiet_table(1))
  then show ?thesis using r(1,4,5) reach by (intro exI [of _ db] exI [of _ s]) simp
qed

lemma finished_sample:
  obtains db mid s d1 d2 lookup where "race_start db" "reachable choppy_os db mid" "reachable choppy_os db s" "race_run choppy_os db mid s"
    "race_threads s = [(Insert [7] d1, Inserted True), (sample_lookup, Failed (Corruption ''row index points to an invalid row block'')),
      (Insert [7] d2, Inserted False), (sample_lookup, Found lookup)]"
    "rlk_found lookup" "\<forall>t < length (race_threads s). owner s t = None"
    "length (race_threads mid) = 4" "race_threads mid ! 3 = (sample_lookup, Probing 0)"
    "\<exists>b \<in> set (RowBuckets (race_db mid)). rib_state b = kRowBucketFilled \<and> row_bucket_key (shards_of (race_db mid)) b = ([7], 5)"
    "\<exists>x \<in> set (race_threads mid). \<not> finished (snd x)"
proof -
  obtain db D mid s d1 d2 b lookup where r: "race_start db" "reachable choppy_os db mid" "race_run choppy_os db mid s"
    "race_threads mid = [(Insert [7] d1, Inserted True), (sample_lookup, Loading 0 [BlockSize, Sequence] b),
      (Insert [7] d2, Probing 0), (sample_lookup, Probing 0)]"
    "race_threads s = [(Insert [7] d1, Inserted True), (sample_lookup, Failed (Corruption ''row index points to an invalid row block'')),
      (Insert [7] d2, Inserted False), (sample_lookup, Found lookup)]" "rlk_found lookup"
    "\<exists>b \<in> set (RowBuckets (race_db mid)). rib_state b = kRowBucketFilled \<and> row_bucket_key (shards_of (race_db mid)) b = ([7], 5)"
    by (rule sample_race)
  have "reachable choppy_os db s" using r(2,3) unfolding reachable_def by (rule rtranclp_trans)
  moreover have "\<forall>t < length (race_threads s). owner s t = None" by (auto simp: r(5) owner_def less_Suc_eq)
  ultimately show ?thesis using that [OF r(1,2) _ r(3,5,6)] r(4,7) by simp
qed

lemma writers_exclude_each_other_witness:
  "\<exists>db s b. race_start db \<and> reachable choppy_os db s \<and> b \<in> set (RowBuckets (race_db s)) \<and>
    row_bucket_key (shards_of (race_db s)) b = ([7], 5) \<and> row_bucket_ok (shards_of (race_db s)) b"
proof -
  obtain db mid b where r: "race_start db" "reachable choppy_os db mid" "b \<in> set (RowBuckets (race_db mid))"
      "rib_state b = kRowBucketFilled" "row_bucket_key (shards_of (race_db mid)) b = ([7], 5)"
    by (rule finished_sample) blast
  then obtain i where i: "i < length (RowBuckets (race_db mid))" "RowBuckets (race_db mid) ! i = b" by (auto simp: in_set_conv_nth)
  have "row_bucket_ok (shards_of (race_db mid)) b"
    using writers_exclude_each_other [OF choppy_reads(1) r(1,2) i(1)] r(4) i(2) by simp
  then show ?thesis using r by blast
qed

lemma racing_writes_refine_rows_witness:
  "\<exists>db s. race_start db \<and> reachable choppy_os db s \<and> length (race_threads s) = 4 \<and> (\<exists>rowId. rows (race_db s) ([7], rowId) \<noteq> None) \<and>
    length (occupied vacant_row (RowBuckets (race_db s))) = Suc (length (occupied vacant_row (RowBuckets db)))"
proof -
  obtain db s d1 d2 lookup where r: "race_start db" "reachable choppy_os db s"
    "race_threads s = [(Insert [7] d1, Inserted True), (sample_lookup, Failed (Corruption ''row index points to an invalid row block'')),
      (Insert [7] d2, Inserted False), (sample_lookup, Found lookup)]" "\<forall>t < length (race_threads s). owner s t = None"
    by (rule finished_sample) blast
  note w = racing_writes_refine_rows [OF choppy_reads(1) r(1,2,4)]
  have "job_key (Insert [7] d1) \<in> job_key ` inserted_jobs s" by (auto simp: inserted_jobs_def r(3))
  then have "rows (race_db s) (job_key (Insert [7] d1)) \<noteq> None"
    using conjunct1 [OF conjunct2 [OF w], rule_format, of "job_key (Insert [7] d1)"] by auto
  then have "rows (race_db s) ([7], rd_rowId d1) \<noteq> None" by (simp add: job_key_def)
  then have "\<exists>rowId. rows (race_db s) ([7], rowId) \<noteq> None" ..
  then show ?thesis using r(1,2,3) w by (intro exI [of _ db] exI [of _ s]) simp
qed

lemma lookup_never_misses_witness:
  "\<exists>db mid s lookup. race_start db \<and> reachable choppy_os db mid \<and> race_threads mid ! 3 = (sample_lookup, Probing 0) \<and>
    race_run choppy_os db mid s \<and> race_threads s ! 3 = (sample_lookup, Found lookup) \<and> rlk_found lookup"
proof -
  obtain db mid s d1 d2 lookup b where r: "race_start db" "reachable choppy_os db mid" "race_run choppy_os db mid s"
    "race_threads s = [(Insert [7] d1, Inserted True), (sample_lookup, Failed (Corruption ''row index points to an invalid row block'')),
      (Insert [7] d2, Inserted False), (sample_lookup, Found lookup)]"
    "length (race_threads mid) = 4" "race_threads mid ! 3 = (sample_lookup, Probing 0)"
    "b \<in> set (RowBuckets (race_db mid))" "rib_state b = kRowBucketFilled" "row_bucket_key (shards_of (race_db mid)) b = ([7], 5)"
    by (rule finished_sample) blast
  have "rlk_found lookup"
    by (rule lookup_never_misses [OF choppy_reads(1) r(1,2,7-9) _ r(6) _ r(3)]) (simp_all add: r(4,5))
  then show ?thesis using r(1-3,4,6) by (intro exI [of _ db] exI [of _ mid] exI [of _ s] exI [of _ lookup]) simp
qed

lemma lookup_reads_one_version_witness:
  "\<exists>db s lookup L. race_start db \<and> reachable choppy_os db s \<and> (sample_lookup, Found lookup) \<in> set (race_threads s) \<and>
    (\<forall>key. FindValueInRowBlockAt choppy_os (race_db s) (rlk_bucket lookup) (rlk_blockHeader lookup) key = row_lookup (layout_map L key))"
proof -
  obtain db s lookup where r: "race_start db" "reachable choppy_os db s" "rlk_found lookup" "(sample_lookup, Found lookup) \<in> set (race_threads s)"
    by (rule finished_sample) auto
  show ?thesis using lookup_reads_one_version [OF choppy_reads(1) r(1,2,4,3)] r by blast
qed

lemma racing_failures_witness:
  "\<exists>db s status. race_start db \<and> reachable choppy_os db s \<and> (sample_lookup, Failed status) \<in> set (race_threads s) \<and>
    (status = Corruption ''row index points to an invalid row block'' \<or> status = Corruption ''row index table is full'')"
proof -
  obtain db s status where r: "race_start db" "reachable choppy_os db s" "(sample_lookup, Failed status) \<in> set (race_threads s)"
    by (rule finished_sample) auto
  show ?thesis using racing_failures [OF choppy_reads(1) r] r by blast
qed

lemma racing_calls_can_finish_witness:
  "\<exists>db s s'. race_start db \<and> reachable choppy_os db s \<and> (\<exists>x \<in> set (race_threads s). \<not> finished (snd x)) \<and>
    race_run choppy_os db s s' \<and> (\<forall>x \<in> set (race_threads s'). finished (snd x))"
proof -
  obtain db s where r: "race_start db" "reachable choppy_os db s" "\<exists>x \<in> set (race_threads s). \<not> finished (snd x)"
    by (rule finished_sample) auto
  show ?thesis using racing_calls_can_finish [OF choppy_reads(1) r(1,2)] r by blast
qed

lemma lone_calls_are_sequential_witness:
  "\<exists>db d status new db'. race_start db \<and> job_ready db (Insert [7] d) \<and>
    InsertOrUpdateRowBucket choppy_os db [7] d = Some (status, new, db') \<and>
    solo choppy_os (Insert [7] d) (9 * length (RowBuckets db) + 8) (probe_from (bucket_count db) 0, db) =
      (if status = Ok then Inserted new else Failed status, db')"
proof -
  obtain D d where r: "race_start D" "job_ready D (Insert [7] d)" by (rule sample_race) auto
  obtain status new db' where "InsertOrUpdateRowBucket choppy_os D [7] d = Some (status, new, db')"
    "solo choppy_os (Insert [7] d) (9 * length (RowBuckets D) + 8) (probe_from (bucket_count D) 0, D) =
      (if status = Ok then Inserted new else Failed status, db')"
    using lone_calls_are_sequential [OF choppy_reads(1) r] by auto
  then show ?thesis using r by blast
qed

end
