(* ===== verification/Writer_Race_Samples.thy ===== *)
theory Writer_Race_Samples
  imports Writer_Race_Alone Row_Race_Samples
begin

text \<open>
  A concrete run of two concurrent calls of \<open>WriteRowStructs\<close> on an index with room for one row: the first
  call loads the item count, the second call runs from start to end, the first call goes on.  Both
  succeed, although the load factor admits one row only.
\<close>

subsection \<open>The size of a row with one key\<close>

lemma update_member:
  assumes "y \<in> set (xs[i := f (xs ! i)])"
  shows "y \<in> set xs \<or> (\<exists>x \<in> set xs. y = f x)"
proof -
  obtain j where j: "j < length xs" "y = xs[i := f (xs ! i)] ! j" using assms by (auto simp: in_set_conv_nth)
  then show ?thesis using nth_mem by (cases "j = i") auto
qed

lemma append_row_short:
  assumes f: "maxLoadFactor (options db) = Fin f" and fits: "row_fits f c [e]"
    and run: "append_row os db c r [e] = Some (st, db')"
    and small: "length c + length (re_key e) + length (re_bytes e) \<le> 1000"
    and offs: "\<forall>off \<in> set (rowAppendOffsets db). unat off < n" "n \<le> 2 ^ 61"
  shows "\<forall>off \<in> set (rowAppendOffsets db'). unat off < n + 2 ^ 37"
proof -
  obtain q db2 where seq: "NextRowSequence db = (q, db2)" by fastforce
  then have db2: "rowAppendOffsets db2 = rowAppendOffsets db" "options db2 = options db"
    by (auto simp: NextRowSequence_def Let_def set_RowIndexHeader_def)
  obtain L where L: "BuildRowBlockLayout db2 c r [e] q (HashString c) = Some (Inr L)" "layout_ok c r L"
    by (rule BuildRowBlockLayout_ok [of db2 f c "[e]" r q]) (use f fits db2 in simp_all)
  have "layout_size c L = 72 + 48 * unat (one_key_buckets f) + length c + length (re_key e) + length (re_bytes e)"
      "unat (one_key_buckets f) \<le> 2 ^ 31"
    using one_entry_size [of db2 f c e r q "HashString c" L] f fits db2 L(1) by simp_all
  then have size: "unat (rb_blockSize (rl_header L)) < 2 ^ 37" using small layout_okD(12) [OF L(2)] by simp
  let ?s = "unat (ShardForRow db2 (HashString c) r)"
  have "rowAppendOffsets db' = (rowAppendOffsets db)[?s := rowAppendOffsets db ! ?s + rb_blockSize (rl_header L)]"
    using run seq L(1) InsertOrUpdateRowBucket_offsets
    by (auto simp: append_row_def appended_def Let_def db2(1) increment_rowItemCount_def set_RowIndexHeader_def
        split: prod.splits option.splits if_splits)
  then have offs': "off \<in> set (rowAppendOffsets db) \<or> (\<exists>o' \<in> set (rowAppendOffsets db). off = o' + rb_blockSize (rl_header L))"
    if "off \<in> set (rowAppendOffsets db')" for off
    using that update_member [where f = "\<lambda>o'. o' + rb_blockSize (rl_header L)"] by simp
  have grow: "unat (off + rb_blockSize (rl_header L)) < n + 2 ^ 37" if "unat off < n" for off :: u64
    using size that unat_plus_simple [of off "rb_blockSize (rl_header L)"] offs(2) by (simp add: unat_word_ariths)
  show ?thesis
  proof
    fix off assume "off \<in> set (rowAppendOffsets db')"
    from offs' [OF this] show "unat off < n + 2 ^ 37" using offs(1) grow by (auto intro: trans_less_add1)
  qed
qed

subsection \<open>An index with room for one row, or two\<close>

definition slots_db :: "nat \<Rightarrow> Impl" where
  "slots_db m = sample_row_db\<lparr>options := DatabaseOptions_default\<lparr>maxLoadFactor := Fin (of_nat m / 16)\<rparr>\<rparr>"

abbreviation one_row_db :: Impl where
  "one_row_db \<equiv> slots_db 1"

lemma row_ok_options: "row_ok (db\<lparr>options := o'\<rparr>) = row_ok db"
proof -
  have bytes: "row_bytes (db\<lparr>options := o'\<rparr>) s = row_bytes db s" for s by (simp add: row_bytes_def)
  then have "shards_of (db\<lparr>options := o'\<rparr>) = shards_of db" by (simp add: shards_of_def)
  then show ?thesis by (simp add: row_ok_def row_core_ok_def bytes)
qed

lemma slots_start: "store_start (slots_db m)"
proof -
  have "RowBuckets (slots_db m) = ri_buckets (empty_row_index 16 1)" by (simp add: slots_db_def RowBuckets_def sample_row_db_def)
  then have "vacant_row b" if "b \<in> set (RowBuckets (slots_db m))" for b
    using that by (auto simp: empty_row_index_def RowIndexBucket_default_def)
  moreover have "row_ok (slots_db m)" using sample_row_ok by (simp add: slots_db_def row_ok_options)
  moreover have "\<forall>off \<in> set (rowAppendOffsets (slots_db m)). unat off < 2 ^ 62"
    by (simp add: slots_db_def sample_row_db_def length_sample_row_file)
  ultimately show ?thesis unfolding store_start_def by blast
qed

lemma slots_header:
  "bucket_count (slots_db m) = 16" "rih_itemCount (RowIndexHeader (slots_db m)) = 0" "rowPendingInsertCount (slots_db m) = 0"
  by (simp_all add: slots_db_def RowIndexHeader_def sample_row_db_def sample_db_def empty_row_index_def RowIndexFileHeader_default_def)

lemma slots_flags:
  "maxLoadFactor (options (slots_db m)) = Fin (of_nat m / 16)" "options (slots_db m) = DatabaseOptions_default\<lparr>maxLoadFactor := Fin (of_nat m / 16)\<rparr>"
  "rows (slots_db m) = (\<lambda>_. None)" "rowAppendOffsets (slots_db m) = [24]" "length (rowValueFiles (slots_db m)) = 1"
proof -
  show "rows (slots_db m) = (\<lambda>_. None)"
    using rows_sample by (simp add: rows_def slots_db_def RowBuckets_def sample_row_db_def)
qed (simp_all add: slots_db_def sample_row_db_def length_sample_row_file)

lemmas one_row_start = slots_start [of 1]
lemmas one_row_flags = slots_flags [of 1, simplified]

lemma slots_refused:
  assumes "maxLoadFactor (options db) = Fin (of_nat m / 16)" and "bucket_count db = 16" and "items + pending = of_nat n" and "n < 16"
  shows "slot_refused db items pending \<longleftrightarrow> m \<le> n"
proof -
  have "double_of_u64 16 = Fin 16" using fl_pow2 [of 4] by (simp add: double_of_u64_def)
  moreover have "double_of_u64 (items + pending + 1) = Fin (of_nat (Suc n))"
  proof -
    have eq: "items + pending + 1 = of_nat (Suc n)" using assms(3) by simp
    have u: "unat (of_nat (Suc n) :: u64) = Suc n" by (rule unat_of_nat64) (use assms(4) in simp)
    have "fl (rat_of_nat (Suc n)) = rat_of_nat (Suc n)" using fl_dyadic [of "Suc n" 0] assms(4) by simp
    then show ?thesis unfolding eq double_of_u64_def u by simp
  qed
  moreover have "fl (rat_of_nat (Suc n) / 16) = rat_of_nat (Suc n) / 16"
    using fl_dyadic [of "Suc n" 4] assms(4) by simp
  moreover have "rat_of_nat m < 1 + rat_of_nat n \<longleftrightarrow> m \<le> n"
    using of_nat_less_iff [of m "Suc n", where 'a = rat] by (simp add: less_Suc_eq_le)
  ultimately show ?thesis using assms(1,2) by (simp add: slot_refused_def)
qed

abbreviation one_entry :: "RowStructEntry list" where
  "one_entry \<equiv> [\<lparr>re_key = [1], re_bytes = [10]\<rparr>]"

lemma one_entry_fits: "0 < m \<Longrightarrow> m < 16 \<Longrightarrow> row_fits (of_nat m / 16) [7] one_entry"
  by (simp add: row_fits_def key_bytes_total_def values_of_def)

lemmas one_row_fits = one_entry_fits [of 1, simplified]

lemma store_bucket_count:
  assumes "reads_ok os" and "store_start db" and "store_reachable os db s"
  shows "bucket_count (race_db (st_race s)) = bucket_count db"
proof -
  note start = store_start_race [OF assms(2)]
  have "race_run os db \<lparr>race_db = db, race_threads = []\<rparr> (st_race s)"
    using store_invD(1) [OF store_reachable_inv [OF assms]] by (simp add: reachable_def)
  from run_race_inv [OF assms(1) this] start_race_inv [OF start] show ?thesis by (fastforce simp: grows_def)
qed

subsection \<open>Two concurrent calls\<close>

lemma first_write:
  assumes m: "0 < m" "m < 16"
  obtains db1 d where "WriteRowStructs choppy_os (slots_db m) [7] 6 one_entry True = Some (Ok, db1)" "row_ok db1"
    "rows db1 = [([7], 6) \<mapsto> row_map one_entry]" "options db1 = options (slots_db m)"
    "\<forall>off \<in> set (rowAppendOffsets db1). unat off < 2 ^ 38"
    "append_row choppy_os ((slots_db m)\<lparr>rowPendingInsertCount := 1\<rparr>) [7] 6 one_entry = Some (Ok, d)"
    "db1 = ReleaseRowIndexInsertSlot d"
proof -
  have start: "row_ok (slots_db m)" using slots_start by (simp add: store_start_def)
  have fits: "row_write_fits (slots_db m) [7] one_entry"
    using one_entry_fits [OF m] by (simp add: row_write_fits_def slots_flags)
  note H = slots_header [of m]
  have "\<not> slot_refused (slots_db m) 0 0" using slots_refused [OF slots_flags(1) H(1), of 0 0 0] m by simp
  then have res: "ReserveRowIndexInsertSlot (slots_db m) = (Ok, (slots_db m)\<lparr>rowPendingInsertCount := 1\<rparr>)"
    using H by (simp add: ReserveRowIndexInsertSlot_def slot_refused_def Let_def)
  obtain db1 where W: "WriteRowStructs choppy_os (slots_db m) [7] 6 one_entry True = Some (Ok, db1)" "row_ok db1" "row_frame (slots_db m) db1"
      "rows db1 = (rows (slots_db m))(([7], 6) \<mapsto> row_map one_entry)"
    using WriteRowStructs_atomic [OF choppy_reads(1) start fits, of True 6] choppy_reads(2) res
    by (fastforce simp: row_slot_free_def)
  have op: "opened (slots_db m)" "\<not> readOnly (slots_db m)" using start by (simp_all add: row_ok_def row_core_ok_def)
  obtain d where d: "append_row choppy_os ((slots_db m)\<lparr>rowPendingInsertCount := 1\<rparr>) [7] 6 one_entry = Some (Ok, d)"
      "db1 = ReleaseRowIndexInsertSlot d"
    using W(1) res by (auto simp: WriteRowStructs_append_row [OF op] FitsUint32_def)
  have "\<forall>off \<in> set (rowAppendOffsets d). unat off < 2 ^ 37 + 2 ^ 37"
    by (rule append_row_short [OF _ one_entry_fits [OF m] d(1)]) (simp_all add: slots_flags)
  then have "\<forall>off \<in> set (rowAppendOffsets db1). unat off < 2 ^ 38" by (simp add: d(2) ReleaseRowIndexInsertSlot_def)
  moreover have "options db1 = options (slots_db m)" using W(3) by (auto simp: row_frame_def)
  ultimately show ?thesis using that [OF W(1,2)] W slots_flags(3) d by simp
qed

lemma row_items:
  assumes "row_ok db" and "bucket_count db = 16"
  shows "unat (rih_itemCount (RowIndexHeader db)) = card (dom (rows db))" "length (RowBuckets db) = 16"
    "length (occupied vacant_row (RowBuckets db)) = card (dom (rows db))"
proof -
  obtain v where v: "mapped_data (rowIndexMap db) = Some v" "row_index_ok (shards_of db) v"
    using assms(1) by (auto simp: row_ok_def row_core_ok_def)
  have B: "RowBuckets db = ri_buckets v" "RowIndexHeader db = ri_header v" using v(1) by (simp_all add: RowBuckets_def RowIndexHeader_def)
  obtain k where k: "k \<le> 56" "rih_bucketCount (ri_header v) = 2 ^ k" "length (ri_buckets v) = 2 ^ k"
    using v(2) by (rule row_index_okD)
  have "unat (rih_bucketCount (ri_header v)) = 2 ^ k" using k(1,2) by simp
  then show "length (RowBuckets db) = 16" using assms(2) k(3) B by simp
  show items: "unat (rih_itemCount (RowIndexHeader db)) = card (dom (rows db))" using row_count [OF assms(1) v(1)] B by simp
  then show "length (occupied vacant_row (RowBuckets db)) = card (dom (rows db))" using v(2) B by (simp add: row_index_ok_def)
qed

definition first_call :: writer where
  "first_call = \<lparr>w_column = [7], w_rowId = 5, w_entries = one_entry, w_reserve = True, w_call = None, w_stage = Load_Items\<rparr>"

lemma first_call_simps [simp]:
  "w_column first_call = [7]" "w_rowId first_call = 5" "w_entries first_call = one_entry" "w_reserve first_call"
  "w_call first_call = None"
  by (simp_all add: first_call_def)

definition second_call :: writer where
  "second_call = first_call\<lparr>w_rowId := 6\<rparr>"

lemma second_call_simps [simp]:
  "w_column second_call = [7]" "w_rowId second_call = 6" "w_entries second_call = one_entry" "w_reserve second_call"
  "w_call second_call = None"
  by (simp_all add: second_call_def)

lemma call_arrives:
  assumes "opened db" and "\<not> readOnly db" and "call_fits db [7] one_entry" and "short_shards db"
    and w: "w \<in> {first_call, second_call}"
  shows "store_run os \<lparr>st_race = \<lparr>race_db = db, race_threads = ts\<rparr>, st_writers = ws\<rparr> (lone db ts (ws, []) w Load_Items)"
proof -
  have "store_step os \<lparr>st_race = \<lparr>race_db = db, race_threads = ts\<rparr>, st_writers = ws\<rparr> (lone db ts (ws, []) w Load_Items)"
    using store_step.call [of "\<lparr>st_race = \<lparr>race_db = db, race_threads = ts\<rparr>, st_writers = ws\<rparr>" "[7]" one_entry True "w_rowId w" os] assms
    by (auto simp: first_stage_def FitsUint32_def first_call_def second_call_def)
  then show ?thesis
    using assms(4) by (intro r_into_rtranclp [of "store_move os"]) (simp add: store_move_def small_files_def)
qed

text \<open>The first call, held up between its loads and its exchange.\<close>

definition held_up :: store where
  "held_up = lone one_row_db [] ([], []) first_call (Exchange 0)"

lemma held_up_reachable: "store_reachable choppy_os one_row_db held_up"
proof -
  let ?lone = "lone one_row_db [] ([], []) first_call"
  have short: "short_shards one_row_db" by (simp add: one_row_flags)
  have op: "opened one_row_db" "\<not> readOnly one_row_db" using one_row_start by (simp_all add: store_start_def row_ok_def row_core_ok_def)
  note H = slots_header [of 1]
  have free: "\<not> slot_refused one_row_db 0 0" using slots_refused [OF slots_flags(1) H(1), of 0 0 0] by simp
  let ?s0 = "\<lparr>st_race = \<lparr>race_db = one_row_db, race_threads = []\<rparr>, st_writers = []\<rparr>"
  have "store_run choppy_os ?s0 (?lone Load_Items)"
    using call_arrives [OF op _ short, of first_call choppy_os "[]" "[]"] one_row_fits by (simp add: call_fits_def one_row_flags(1))
  moreover have load: "store_run choppy_os (?lone Load_Items) (?lone (Load_Pending 0))"
    by (rule lone_step) (use short H in simp_all)
  moreover have "store_run choppy_os (?lone (Load_Pending 0)) (?lone (Exchange 0))"
    by (rule lone_step) (use short H free in \<open>simp_all add: Let_def\<close>)
  ultimately show ?thesis unfolding store_reachable_def held_up_def by (meson rtranclp_trans)
qed

text \<open>Then the second call runs, and then the first call goes on.\<close>

lemma overshoot_run:
  obtains db1 s1 s2 where "WriteRowStructs choppy_os one_row_db [7] 6 one_entry True = Some (Ok, db1)"
    "\<forall>off \<in> set (rowAppendOffsets db1). unat off < 2 ^ 62"
    "store_run choppy_os held_up s1" "race_db (st_race s1) = db1" "store_run choppy_os s1 s2"
    "length (st_writers s1) = 2" "length (st_writers s2) = 2" "w_stage (st_writers s1 ! 1) = Returned Ok"
    "\<forall>w \<in> set (st_writers s2). w_stage w = Returned Ok"
    "row_ok (race_db (st_race s2))"
    "rows (race_db (st_race s2)) = [([7], 6) \<mapsto> row_map one_entry, ([7], 5) \<mapsto> row_map one_entry]"
    "options (race_db (st_race s2)) = options one_row_db"
    "WriteRowStructs choppy_os db1 [7] 5 one_entry True =
      Some (InvalidArgument ''row index capacity exceeded; increase initialRowBucketCount'', db1)"
proof -
  let ?os = choppy_os
  obtain db1 where W: "WriteRowStructs ?os one_row_db [7] 6 one_entry True = Some (Ok, db1)" and ok1: "row_ok db1"
      and rows1: "rows db1 = [([7], 6) \<mapsto> row_map one_entry]" and o1: "options db1 = options one_row_db"
      and short1: "\<forall>off \<in> set (rowAppendOffsets db1). unat off < 2 ^ 38"
    using first_write [of 1] by auto
  have small1: "short_shards db1" using short1 by force
  have fits0: "call_fits one_row_db [7] one_entry" using one_row_fits by (simp add: call_fits_def one_row_flags(1))
  obtain w ts where s1: "store_run ?os held_up (lone db1 ts ([], [w]) first_call (Exchange 0))"
      and w: "w_stage w = Returned Ok" and fin: "\<forall>x \<in> set ts. finished (snd x)"
    using lone_write [OF choppy_reads(1) one_row_start held_up_reachable _ fits0, of True 6 Ok db1] W small1
    by (auto simp: held_up_def idle_def)
  let ?s1 = "lone db1 ts ([], [w]) first_call (Exchange 0)"
  have reach1: "store_reachable ?os one_row_db ?s1"
    using held_up_reachable s1 unfolding store_reachable_def by (rule rtranclp_trans)
  have cnt: "bucket_count db1 = 16" using store_bucket_count [OF choppy_reads(1) one_row_start reach1]
    by (simp add: slots_db_def RowIndexHeader_def sample_row_db_def empty_row_index_def)
  note items = row_items [OF ok1 cnt]
  have pend: "rowPendingInsertCount db1 = 0" and core: "row_core_ok db1" using ok1 by (simp_all add: row_ok_def)
  let ?db = "db1\<lparr>rowPendingInsertCount := 1\<rparr>"
  have to2: "store_run ?os ?s1 (lone ?db ts ([], [w]) first_call Take_Sequence)"
    by (rule lone_step) (use pend small1 in simp_all)
  have fits: "row_write_fits ?db [7] one_entry"
    using one_row_fits small1 by (simp add: row_write_fits_def o1 one_row_flags(1))
  have room: "length (occupied vacant_row (RowBuckets ?db)) + 1 < length (RowBuckets ?db)"
    using items rows1 by (simp add: RowBuckets_def)
  obtain d where d: "append_row ?os ?db [7] 5 one_entry = Some (Ok, d)" "row_core_ok d" "row_frame ?db d"
      "rows d = (rows ?db)(([7], 5) \<mapsto> row_map one_entry)"
    using append_row_ok [OF choppy_reads(1) row_core_ok_pending [THEN iffD2, OF core] fits, of 5] room choppy_reads(2) by fastforce
  have short2: "\<forall>off \<in> set (rowAppendOffsets d). unat off < 2 ^ 38 + 2 ^ 37"
    by (rule append_row_short [OF _ one_row_fits d(1)]) (use o1 short1 in \<open>simp_all add: one_row_flags(1)\<close>)
  then have small2: "short_shards d" by force
  have reach2: "store_reachable ?os one_row_db (lone ?db ts ([], [w]) first_call Take_Sequence)"
    using reach1 to2 unfolding store_reachable_def by (rule rtranclp_trans)
  have idle: "idle ts" using fin by (auto simp: idle_def)
  obtain ts' call where s2: "store_run ?os (lone ?db ts ([], [w]) first_call Take_Sequence)
      (lone (ReleaseRowIndexInsertSlot d) (ts @ ts') ([], [w]) (first_call\<lparr>w_call := call\<rparr>) (Returned Ok))"
    using lone_append [OF choppy_reads(1) one_row_start store_reachable_inv [OF choppy_reads(1) one_row_start reach2] idle, of Ok d]
      d(1) small1 small2 by auto
  let ?s2 = "lone (ReleaseRowIndexInsertSlot d) (ts @ ts') ([], [w]) (first_call\<lparr>w_call := call\<rparr>) (Returned Ok)"
  note rel = release_frame [OF d(3) pend]
  have "row_ok (ReleaseRowIndexInsertSlot d)" using d(2) rel(2) row_core_ok_pending by (simp add: row_ok_def rel(3))
  moreover have "rows (ReleaseRowIndexInsertSlot d) = [([7], 6) \<mapsto> row_map one_entry, ([7], 5) \<mapsto> row_map one_entry]"
    using d(4) rows1 by (simp add: rel(3) rows_pending)
  moreover have "options (ReleaseRowIndexInsertSlot d) = options one_row_db" using rel(1) o1 by (auto simp: row_frame_def)
  moreover have "WriteRowStructs ?os db1 [7] 5 one_entry True =
      Some (InvalidArgument ''row index capacity exceeded; increase initialRowBucketCount'', db1)"
  proof -
    have "rih_itemCount (RowIndexHeader db1) + rowPendingInsertCount db1 = of_nat 1"
    proof -
      have "unat (rih_itemCount (RowIndexHeader db1)) = 1" using items(1) rows1 by simp
      then have "rih_itemCount (RowIndexHeader db1) = of_nat 1" by (metis of_nat_unat ucast_id)
      then show ?thesis using pend by simp
    qed
    then have "slot_refused db1 (rih_itemCount (RowIndexHeader db1)) (rowPendingInsertCount db1)"
      using slots_refused [OF _ cnt, of 1 _ _ 1] o1 by (simp add: one_row_flags(1))
    moreover have "opened db1" "\<not> readOnly db1" using core by (simp_all add: row_core_ok_def)
    ultimately show ?thesis
      by (simp add: WriteRowStructs_append_row FitsUint32_def ReserveRowIndexInsertSlot_def slot_refused_def Let_def)
  qed
  ultimately show ?thesis
    using that [OF W small1 s1 _ rtranclp_trans [OF to2 s2]] w by simp
qed

text \<open>C23. The load factor is not a bound when calls run at once: \<open>ReserveRowIndexInsertSlot\<close> loads the item count before it
  loads the pending count, so a call that is held up in between may count a row of another call neither as an item nor
  as pending.  Here two calls succeed on an index whose load factor admits one row, the index holds more rows than the
  load factor allows, and the first call would have been refused if it had started after the second.\<close>

theorem reservation_overshoots:
  "\<exists>db s db1. store_start db \<and> store_reachable choppy_os db s \<and>
    map w_stage (st_writers s) = [Returned Ok, Returned Ok] \<and>
    dgt (ddiv (double_of_u64 (rih_itemCount (RowIndexHeader (race_db (st_race s)))))
          (double_of_u64 (bucket_count (race_db (st_race s))))) (maxLoadFactor (options db)) \<and>
    WriteRowStructs choppy_os db [7] 6 one_entry True = Some (Ok, db1) \<and>
    WriteRowStructs choppy_os db1 [7] 5 one_entry True =
      Some (InvalidArgument ''row index capacity exceeded; increase initialRowBucketCount'', db1)"
proof -
  obtain db1 s1 s2 where W: "WriteRowStructs choppy_os one_row_db [7] 6 one_entry True = Some (Ok, db1)"
    and s: "store_run choppy_os held_up s1" "store_run choppy_os s1 s2" "length (st_writers s1) = 2"
      "length (st_writers s2) = 2" "\<forall>w \<in> set (st_writers s2). w_stage w = Returned Ok" "row_ok (race_db (st_race s2))"
      "rows (race_db (st_race s2)) = [([7], 6) \<mapsto> row_map one_entry, ([7], 5) \<mapsto> row_map one_entry]"
    and refused: "WriteRowStructs choppy_os db1 [7] 5 one_entry True =
      Some (InvalidArgument ''row index capacity exceeded; increase initialRowBucketCount'', db1)"
    by (rule overshoot_run)
  have reach: "store_reachable choppy_os one_row_db s2"
    using held_up_reachable s(1,2) unfolding store_reachable_def by (meson rtranclp_trans)
  have cnt: "bucket_count (race_db (st_race s2)) = 16" using store_bucket_count [OF choppy_reads(1) one_row_start reach]
    by (simp add: slots_db_def RowIndexHeader_def sample_row_db_def empty_row_index_def)
  have "unat (rih_itemCount (RowIndexHeader (race_db (st_race s2)))) = 2" using row_items(1) [OF s(6) cnt] s(7) by simp
  then have "double_of_u64 (rih_itemCount (RowIndexHeader (race_db (st_race s2)))) = Fin 2"
    using fl_pow2 [of 1] by (simp add: double_of_u64_def)
  moreover have "double_of_u64 (bucket_count (race_db (st_race s2))) = Fin 16" using fl_pow2 [of 4] by (simp add: cnt double_of_u64_def)
  moreover have "fl (2 / 16) = 2 / 16" using fl_dyadic [of 2 4] by simp
  ultimately have "dgt (ddiv (double_of_u64 (rih_itemCount (RowIndexHeader (race_db (st_race s2)))))
      (double_of_u64 (bucket_count (race_db (st_race s2))))) (maxLoadFactor (options one_row_db))"
    by (simp add: one_row_flags(1))
  moreover have "map w_stage (st_writers s2) = [Returned Ok, Returned Ok]"
    using s(4,5) by (auto simp: length_Suc_conv numeral_2_eq_2)
  ultimately show ?thesis using one_row_start reach W refused
    by (intro exI [of _ one_row_db] exI [of _ s2] exI [of _ db1] conjI)
qed

subsection \<open>A row counted twice\<close>

text \<open>C24. A call can be refused although there is room for its row: a call adds its row to the item count before it releases
  its slot, so in between the row counts twice.  Here the load factor admits two rows, one call has stored its row and
  not yet released its slot, and a second call is refused; once both have returned the same call succeeds.\<close>

theorem reservation_counts_twice:
  "\<exists>db s db'. store_start db \<and> store_reachable choppy_os db s \<and> rows db = (\<lambda>_. None) \<and>
    map w_stage (st_writers s) = [Returned Ok,
      Returned (InvalidArgument ''row index capacity exceeded; increase initialRowBucketCount'')] \<and>
    WriteRowStructs choppy_os (race_db (st_race s)) [7] 5 one_entry True = Some (Ok, db')"
proof -
  let ?os = choppy_os and ?db = "slots_db 2"
  let ?db1 = "?db\<lparr>rowPendingInsertCount := 1\<rparr>" and ?refusal = "InvalidArgument ''row index capacity exceeded; increase initialRowBucketCount''"
  obtain db1 d where W: "WriteRowStructs ?os ?db [7] 6 one_entry True = Some (Ok, db1)" "row_ok db1" "rows db1 = [([7], 6) \<mapsto> row_map one_entry]"
      "options db1 = options ?db" "\<forall>off \<in> set (rowAppendOffsets db1). unat off < 2 ^ 38"
      and d: "append_row ?os ?db1 [7] 6 one_entry = Some (Ok, d)" "db1 = ReleaseRowIndexInsertSlot d"
    using first_write [of 2] by auto
  note start = slots_start [of 2] and flags = slots_flags [of 2, simplified] and H = slots_header [of 2]
  have op: "opened ?db" "\<not> readOnly ?db" using start by (simp_all add: store_start_def row_ok_def row_core_ok_def)
  have fits: "call_fits ?db [7] one_entry" using one_entry_fits [of 2] by (simp add: call_fits_def flags(1))
  have short: "short_shards ?db" "short_shards ?db1" by (simp_all add: flags(4))
  have short1: "short_shards db1" using W(5) by force
  then have shortd: "short_shards d" by (simp add: d(2) ReleaseRowIndexInsertSlot_def)
  have dd: "opened d" "\<not> readOnly d" "options d = options ?db" "RowIndexHeader d = RowIndexHeader db1" "rowPendingInsertCount d = 1"
    using W(2,4) d(2) by (auto simp: ReleaseRowIndexInsertSlot_def row_ok_def row_core_ok_def RowIndexHeader_def)
  let ?s0 = "\<lparr>st_race = \<lparr>race_db = ?db, race_threads = []\<rparr>, st_writers = []\<rparr>"
  \<comment> \<open>the first call, up to its release\<close>
  have "\<not> slot_refused ?db 0 0" using slots_refused [OF slots_flags(1) H(1), of 0 0 0] by simp
  then have "ReserveRowIndexInsertSlot ?db = (Ok, ?db1)"
    using H by (simp add: ReserveRowIndexInsertSlot_def slot_refused_def Let_def)
  from rtranclp_trans [OF call_arrives [OF op fits short(1), of second_call ?os "[]" "[]"] conjunct1 [OF lone_reserve [OF this short(1)]]]
  have to1: "store_run ?os ?s0 (lone ?db1 [] ([], []) second_call Take_Sequence)" by simp
  then have reach1: "store_reachable ?os ?db (lone ?db1 [] ([], []) second_call Take_Sequence)" by (simp add: store_reachable_def)
  obtain ts call where body: "store_run ?os (lone ?db1 [] ([], []) second_call Take_Sequence)
      (lone d ts ([], []) (second_call\<lparr>w_call := call\<rparr>) (Release_Slot Ok))"
    using lone_body [OF choppy_reads(1) start store_reachable_inv [OF choppy_reads(1) start reach1], of Ok d] d(1) short(2) shortd
    by (auto simp: idle_def leave_def)
  let ?B = "second_call\<lparr>w_call := call, w_stage := Release_Slot Ok\<rparr>"
  \<comment> \<open>the other call arrives and is refused\<close>
  have arrive: "store_run ?os (lone d ts ([], []) (second_call\<lparr>w_call := call\<rparr>) (Release_Slot Ok)) (lone d ts ([?B], []) first_call Load_Items)"
    using call_arrives [OF dd(1,2) _ shortd, of first_call ?os ts "[?B]"] fits by (simp add: call_fits_def dd(3))
  have reach2: "store_reachable ?os ?db (lone d ts ([?B], []) first_call Load_Items)"
    unfolding store_reachable_def by (rule rtranclp_trans [OF to1 rtranclp_trans [OF body arrive]])
  have cnt: "bucket_count d = 16" using store_bucket_count [OF choppy_reads(1) start reach2] H(1) by simp
  have items: "rih_itemCount (RowIndexHeader d) = 1"
  proof -
    have "unat (rih_itemCount (RowIndexHeader db1)) = 1" using row_items(1) [OF W(2)] W(3) cnt dd(4) by simp
    then have "rih_itemCount (RowIndexHeader db1) = of_nat 1" by (metis of_nat_unat ucast_id)
    then show ?thesis by (simp add: dd(4))
  qed
  have "slot_refused d 1 1" using slots_refused [of d 2 1 1 2] cnt flags(1) by (simp add: dd(3))
  then have "ReserveRowIndexInsertSlot d = (?refusal, d)"
    using items dd(5) by (simp add: ReserveRowIndexInsertSlot_def slot_refused_def Let_def)
  from conjunct1 [OF lone_reserve [OF this shortd, of ?os ts "([?B], [])" first_call]]
  have refuse: "store_run ?os (lone d ts ([?B], []) first_call Load_Items) (lone d ts ([?B], []) first_call (Returned ?refusal))" by simp
  \<comment> \<open>the first call returns\<close>
  let ?A = "first_call\<lparr>w_stage := Returned ?refusal\<rparr>"
  have "store_run ?os (lone d ts ([], [?A]) (second_call\<lparr>w_call := call\<rparr>) (Release_Slot Ok))
      (lone db1 ts ([], [?A]) (second_call\<lparr>w_call := call\<rparr>) (Returned Ok))"
    by (rule lone_step) (use short1 in \<open>simp_all add: d(2)\<close>)
  then have release: "store_run ?os (lone d ts ([?B], []) first_call (Returned ?refusal))
      (lone db1 ts ([], [?A]) (second_call\<lparr>w_call := call\<rparr>) (Returned Ok))" by simp
  have reach: "store_reachable ?os ?db (lone db1 ts ([], [?A]) (second_call\<lparr>w_call := call\<rparr>) (Returned Ok))"
    using reach2 rtranclp_trans [OF refuse release] unfolding store_reachable_def by (rule rtranclp_trans)
  \<comment> \<open>now there is room\<close>
  have "\<not> slot_refused db1 1 0" using slots_refused [of db1 2 1 0 1] cnt flags(1) W(4) dd(4) by simp
  then have "row_slot_free db1"
    using items dd(4) W(2) by (simp add: row_slot_free_def ReserveRowIndexInsertSlot_def slot_refused_def Let_def row_ok_def)
  moreover have "row_write_fits db1 [7] one_entry"
    using one_entry_fits [of 2] short1 by (simp add: row_write_fits_def W(4) flags(1))
  ultimately obtain db' where "WriteRowStructs ?os db1 [7] 5 one_entry True = Some (Ok, db')"
    using WriteRowStructs_atomic [OF choppy_reads(1) W(2), of "[7]" one_entry True 5] choppy_reads(2) by fastforce
  then show ?thesis using start reach flags(3)
    by (intro exI [of _ ?db] exI [of _ "lone db1 ts ([], [?A]) (second_call\<lparr>w_call := call\<rparr>) (Returned Ok)"] exI [of _ db']) simp
qed

subsection \<open>Uses of the properties of concurrent writers\<close>

lemma uninterrupted_write_is_sequential_witness:
  "\<exists>s db1 w threads. WriteRowStructs choppy_os one_row_db [7] 6 one_entry True = Some (Ok, db1) \<and>
    store_run choppy_os held_up s \<and> race_db (st_race s) = db1 \<and> race_threads (st_race s) = threads \<and>
    st_writers s = [first_call\<lparr>w_stage := Exchange 0\<rparr>, w] \<and> w_rowId w = 6 \<and> w_stage w = Returned Ok"
proof -
  obtain db1 where W: "WriteRowStructs choppy_os one_row_db [7] 6 one_entry True = Some (Ok, db1)"
    and small: "\<forall>off \<in> set (rowAppendOffsets db1). unat off < 2 ^ 62"
    by (rule overshoot_run)
  have "idle (race_threads (st_race held_up))" by (simp add: held_up_def idle_def)
  moreover have "call_fits one_row_db [7] one_entry" using one_row_fits by (simp add: call_fits_def one_row_flags(1))
  moreover have "WriteRowStructs choppy_os (race_db (st_race held_up)) [7] 6 one_entry True = Some (Ok, db1)"
    using W by (simp add: held_up_def)
  ultimately obtain w threads where "store_run choppy_os held_up
      \<lparr>st_race = \<lparr>race_db = db1, race_threads = race_threads (st_race held_up) @ threads\<rparr>, st_writers = st_writers held_up @ [w]\<rparr>"
      "w_rowId w = 6" "w_stage w = Returned Ok"
    using uninterrupted_write_is_sequential [OF choppy_reads(1) one_row_start held_up_reachable _ _ _ _ small, of "[7]" one_entry True 6 Ok]
    by blast
  then show ?thesis using W by (intro exI conjI) (assumption | simp add: held_up_def)+
qed

lemma writers_keep_to_the_race_witness:
  "\<exists>(s :: store) (s' :: store). reachable choppy_os one_row_db (st_race s) \<and> race_run choppy_os one_row_db (st_race s) (st_race s') \<and>
    rows (race_db (st_race s)) = (\<lambda>_. None) \<and>
    rows (race_db (st_race s')) = [([7], 6) \<mapsto> row_map one_entry, ([7], 5) \<mapsto> row_map one_entry]"
proof -
  obtain s1 s2 where s: "store_run choppy_os held_up s1" "store_run choppy_os s1 s2"
      "rows (race_db (st_race s2)) = [([7], 6) \<mapsto> row_map one_entry, ([7], 5) \<mapsto> row_map one_entry]"
    by (rule overshoot_run)
  have "rows (race_db (st_race held_up)) = (\<lambda>_. None)" by (simp add: held_up_def one_row_flags(3))
  then show ?thesis
    using writers_keep_to_the_race [OF choppy_reads(1) one_row_start held_up_reachable rtranclp_trans [OF s(1,2)]] s(3)
    by (intro exI [of _ held_up] exI [of _ s2]) simp
qed

lemma blocks_stay_apart_witness:
  "\<exists>s s'. store_run choppy_os s s' \<and> w_call (st_writers s ! 1) \<noteq> None \<and>
    claim (st_race s) (st_writers s ! 1) 0 \<inter> claim (st_race s) (st_writers s ! 0) 0 = {} \<and>
    (\<forall>p \<in> claim (st_race s) (st_writers s ! 1) 0.
      row_bytes (race_db (st_race s')) 0 ! p = row_bytes (race_db (st_race s)) 0 ! p)"
proof -
  obtain s1 s2 where s: "store_run choppy_os held_up s1" "store_run choppy_os s1 s2" "length (st_writers s1) = 2"
      "w_stage (st_writers s1 ! 1) = Returned Ok"
    by (rule overshoot_run)
  have reach: "store_reachable choppy_os one_row_db s1"
    using held_up_reachable s(1) unfolding store_reachable_def by (rule rtranclp_trans)
  have "writer_ok one_row_db (st_race s1) (st_writers s1 ! 1)"
    using store_invD(6) [OF store_reachable_inv [OF choppy_reads(1) one_row_start reach]] s(3) by simp
  then have "w_call (st_writers s1 ! 1) \<noteq> None" using s(4) by (cases "w_call (st_writers s1 ! 1)") (auto simp: writer_ok_def outcome_ok_def)
  moreover have "claim (st_race s1) (st_writers s1 ! 1) 0 \<inter> claim (st_race s1) (st_writers s1 ! 0) 0 = {}"
    and "\<forall>p \<in> claim (st_race s1) (st_writers s1 ! 1) 0.
      row_bytes (race_db (st_race s2)) 0 ! p = row_bytes (race_db (st_race s1)) 0 ! p"
    using blocks_stay_apart [OF choppy_reads(1) one_row_start reach s(2), of 1 0] s(3) one_row_flags(5) calculation by auto
  ultimately show ?thesis using s(2) by (intro exI [of _ s1] exI [of _ s2]) simp
qed

lemma concurrent_writes_refine_rows_witness:
  "\<exists>s w. store_reachable choppy_os one_row_db s \<and> length (st_writers s) = 2 \<and>
    succeeded s ([7], 5) w \<and> rows (race_db (st_race s)) ([7], 5) = Some (row_map (w_entries w)) \<and>
    rowPendingInsertCount (race_db (st_race s)) = 0"
proof -
  obtain s1 s2 where s: "store_run choppy_os held_up s1" "store_run choppy_os s1 s2" "length (st_writers s2) = 2"
      "\<forall>w \<in> set (st_writers s2). w_stage w = Returned Ok"
      "rows (race_db (st_race s2)) = [([7], 6) \<mapsto> row_map one_entry, ([7], 5) \<mapsto> row_map one_entry]"
    by (rule overshoot_run)
  have reach: "store_reachable choppy_os one_row_db s2"
    using held_up_reachable s(1,2) unfolding store_reachable_def by (meson rtranclp_trans)
  have returned: "\<forall>w \<in> set (st_writers s2). \<exists>st. w_stage w = Returned st" using s(4) by blast
  note refine = concurrent_writes_refine_rows [OF choppy_reads(1) one_row_start reach returned]
  have "rows one_row_db ([7], 5) = None" by (simp add: one_row_flags(3))
  then have "\<exists>w. succeeded s2 ([7], 5) w \<and> rows (race_db (st_race s2)) ([7], 5) = Some (row_map (w_entries w))"
    using conjunct1 [OF conjunct2 [OF refine], THEN spec, of "([7], 5)"] s(5) by (simp split: if_splits)
  then show ?thesis using refine reach s(3) by blast
qed

end
