(* ===== verification/File_Handles.thy ===== *)
theory File_Handles
  imports File_IO
begin

text \<open>
  Ownership of descriptors and mappings: the classes \<open>FileDescriptor\<close> and \<open>MappedFile\<close> of file.h as
  objects with constructors, moves, assignments and destructors.  The process keeps the table of open
  descriptors and of mapped regions, and counts the calls of \<open>close\<close> and \<open>munmap\<close> on something that is
  not open.  The other theories take a descriptor for the path it was opened on, with one owner;
  here this is proved of the classes that provide it.
\<close>

subsection \<open>The process\<close>

record process =
  open_descriptors :: "int set"
  mapped_regions :: "(u64 \<times> u64) set"
  bad_releases :: nat

definition close_fd :: "int \<Rightarrow> process \<Rightarrow> process" where
  "close_fd fd p =
     (if fd \<in> open_descriptors p then p\<lparr>open_descriptors := open_descriptors p - {fd}\<rparr>
      else p\<lparr>bad_releases := Suc (bad_releases p)\<rparr>)"

definition munmap :: "u64 \<Rightarrow> u64 \<Rightarrow> process \<Rightarrow> process" where
  "munmap addr n p =
     (if (addr, n) \<in> mapped_regions p then p\<lparr>mapped_regions := mapped_regions p - {(addr, n)}\<rparr>
      else p\<lparr>bad_releases := Suc (bad_releases p)\<rparr>)"

subsection \<open>\<open>FileDescriptor\<close>\<close>

record FileDescriptor =
  fd_raw :: int

definition FileDescriptor_new :: "int \<Rightarrow> FileDescriptor" where
  "FileDescriptor_new fd = \<lparr>fd_raw = fd\<rparr>"

definition FileDescriptor_default :: FileDescriptor where
  "FileDescriptor_default = FileDescriptor_new (- 1)"

definition IsValid :: "FileDescriptor \<Rightarrow> bool" where
  "IsValid this \<longleftrightarrow> fd_raw this \<ge> 0"

definition Release :: "FileDescriptor \<Rightarrow> int \<times> FileDescriptor" where
  "Release this = (fd_raw this, this\<lparr>fd_raw := - 1\<rparr>)"

definition Reset :: "int \<Rightarrow> FileDescriptor \<Rightarrow> process \<Rightarrow> FileDescriptor \<times> process" where
  "Reset fd this p =
     (this\<lparr>fd_raw := fd\<rparr>, if fd_raw this \<ge> 0 then close_fd (fd_raw this) p else p)"

definition FileDescriptor_delete :: "FileDescriptor \<Rightarrow> process \<Rightarrow> process" where
  "FileDescriptor_delete this p = snd (Reset (- 1) this p)"

text \<open>Move construction and move assignment return the object and the one moved from.\<close>

definition FileDescriptor_move :: "FileDescriptor \<Rightarrow> FileDescriptor \<times> FileDescriptor" where
  "FileDescriptor_move other = (let (fd, other') = Release other in (FileDescriptor_new fd, other'))"

definition FileDescriptor_assign ::
  "FileDescriptor \<Rightarrow> FileDescriptor \<Rightarrow> process \<Rightarrow> FileDescriptor \<times> FileDescriptor \<times> process" where
  "FileDescriptor_assign this other p =
     (let (fd, other') = Release other; (this', p') = Reset fd this p in (this', other', p'))"

subsection \<open>\<open>MappedFile\<close>\<close>

record Mapping =
  mp_data :: u64
  mp_size :: u64
  mp_writable :: bool

definition Mapping_default :: Mapping where
  "Mapping_default = \<lparr>mp_data = 0, mp_size = 0, mp_writable = False\<rparr>"

definition Unmap :: "Mapping \<Rightarrow> process \<Rightarrow> Mapping \<times> process" where
  "Unmap this p =
     (this\<lparr>mp_data := 0, mp_size := 0, mp_writable := False\<rparr>,
      if mp_data this \<noteq> 0 then munmap (mp_data this) (mp_size this) p else p)"

definition Mapping_delete :: "Mapping \<Rightarrow> process \<Rightarrow> process" where
  "Mapping_delete this p = snd (Unmap this p)"

definition Mapping_move :: "Mapping \<Rightarrow> Mapping \<times> Mapping" where
  "Mapping_move other =
     (\<lparr>mp_data = mp_data other, mp_size = mp_size other, mp_writable = mp_writable other\<rparr>,
      other\<lparr>mp_data := 0, mp_size := 0, mp_writable := False\<rparr>)"

definition Mapping_assign :: "Mapping \<Rightarrow> Mapping \<Rightarrow> process \<Rightarrow> Mapping \<times> Mapping \<times> process" where
  "Mapping_assign this other p =
     (let (this1, p') = Unmap this p
      in (this1\<lparr>mp_data := mp_data other, mp_size := mp_size other, mp_writable := mp_writable other\<rparr>,
          other\<lparr>mp_data := 0, mp_size := 0, mp_writable := False\<rparr>, p'))"

text \<open>
  \<open>Map\<close> and \<open>MapReadOnly\<close>; the address the system call returns is an argument, \<open>None\<close> when it fails.
\<close>

definition MapRegion :: "u64 option \<Rightarrow> string \<Rightarrow> u64 \<Rightarrow> bool \<Rightarrow> Mapping \<Rightarrow> process \<Rightarrow> Status \<times> Mapping \<times> process" where
  "MapRegion mapped errno n writable this p =
     (let (this1, p1) = Unmap this p in
      if n = 0 then (InvalidArgument ''cannot mmap an empty file'', this1, p1)
      else case mapped of
          None \<Rightarrow> (IoError (ErrnoMessage ''mmap'' errno), this1, p1)
        | Some addr \<Rightarrow>
            (Ok, this1\<lparr>mp_data := addr, mp_size := n, mp_writable := writable\<rparr>,
             p1\<lparr>mapped_regions := insert (addr, n) (mapped_regions p1)\<rparr>))"

subsection \<open>A program that uses the classes\<close>

text \<open>
  Objects live at numbered places; a place holds nothing before its constructor and after its
  destructor.  An object assigned to itself stays as it is, as the sources check.
\<close>

record heap =
  descriptors :: "nat \<Rightarrow> FileDescriptor option"
  mappings :: "nat \<Rightarrow> Mapping option"
  process :: process

datatype handle_op =
    Construct_Descriptor nat
  | Open_Descriptor nat int
  | Reset_Descriptor nat
  | Move_Descriptor nat nat
  | Assign_Descriptor nat nat
  | Destroy_Descriptor nat
  | Construct_Mapping nat
  | Map_Mapping nat "u64 option" string u64 bool
  | Unmap_Mapping nat
  | Move_Mapping nat nat
  | Assign_Mapping nat nat
  | Destroy_Mapping nat

text \<open>
  One statement; \<open>None\<close> is a statement that C++ does not allow (an object that does not live, or is made
  twice) or an answer the system does not give (a descriptor or an address in use).
\<close>

fun handle_step :: "handle_op \<Rightarrow> heap \<Rightarrow> heap option" where
  "handle_step (Construct_Descriptor i) h =
     (if descriptors h i = None then Some (h\<lparr>descriptors := (descriptors h)(i \<mapsto> FileDescriptor_default)\<rparr>) else None)"
| "handle_step (Open_Descriptor i fd) h =
     (case descriptors h i of
        None \<Rightarrow> None
      | Some this \<Rightarrow>
          if fd < 0 then Some h
          else if fd \<in> open_descriptors (process h) then None
          else
            let opened = (process h)\<lparr>open_descriptors := insert fd (open_descriptors (process h))\<rparr>;
                (this', p) = Reset fd this opened
            in Some (h\<lparr>descriptors := (descriptors h)(i \<mapsto> this'), process := p\<rparr>))"
| "handle_step (Reset_Descriptor i) h =
     (case descriptors h i of
        None \<Rightarrow> None
      | Some this \<Rightarrow>
          let (this', p) = Reset (- 1) this (process h)
          in Some (h\<lparr>descriptors := (descriptors h)(i \<mapsto> this'), process := p\<rparr>))"
| "handle_step (Move_Descriptor i j) h =
     (case descriptors h j of
        None \<Rightarrow> None
      | Some other \<Rightarrow>
          if descriptors h i \<noteq> None then None
          else
            let (this', other') = FileDescriptor_move other
            in Some (h\<lparr>descriptors := (descriptors h)(j \<mapsto> other', i \<mapsto> this')\<rparr>))"
| "handle_step (Assign_Descriptor i j) h =
     (case (descriptors h i, descriptors h j) of
        (Some this, Some other) \<Rightarrow>
          if i = j then Some h
          else
            let (this', other', p) = FileDescriptor_assign this other (process h)
            in Some (h\<lparr>descriptors := (descriptors h)(j \<mapsto> other', i \<mapsto> this'), process := p\<rparr>)
      | _ \<Rightarrow> None)"
| "handle_step (Destroy_Descriptor i) h =
     (case descriptors h i of
        None \<Rightarrow> None
      | Some this \<Rightarrow>
          Some (h\<lparr>descriptors := (descriptors h)(i := None), process := FileDescriptor_delete this (process h)\<rparr>))"
| "handle_step (Construct_Mapping i) h =
     (if mappings h i = None then Some (h\<lparr>mappings := (mappings h)(i \<mapsto> Mapping_default)\<rparr>) else None)"
| "handle_step (Map_Mapping i mapped errno n writable) h =
     (case mappings h i of
        None \<Rightarrow> None
      | Some this \<Rightarrow>
          if \<exists>addr. mapped = Some addr \<and> (addr = 0 \<or> addr \<in> fst ` mapped_regions (snd (Unmap this (process h))))
          then None
          else
            let (status, this', p) = MapRegion mapped errno n writable this (process h)
            in Some (h\<lparr>mappings := (mappings h)(i \<mapsto> this'), process := p\<rparr>))"
| "handle_step (Unmap_Mapping i) h =
     (case mappings h i of
        None \<Rightarrow> None
      | Some this \<Rightarrow>
          let (this', p) = Unmap this (process h)
          in Some (h\<lparr>mappings := (mappings h)(i \<mapsto> this'), process := p\<rparr>))"
| "handle_step (Move_Mapping i j) h =
     (case mappings h j of
        None \<Rightarrow> None
      | Some other \<Rightarrow>
          if mappings h i \<noteq> None then None
          else
            let (this', other') = Mapping_move other
            in Some (h\<lparr>mappings := (mappings h)(j \<mapsto> other', i \<mapsto> this')\<rparr>))"
| "handle_step (Assign_Mapping i j) h =
     (case (mappings h i, mappings h j) of
        (Some this, Some other) \<Rightarrow>
          if i = j then Some h
          else
            let (this', other', p) = Mapping_assign this other (process h)
            in Some (h\<lparr>mappings := (mappings h)(j \<mapsto> other', i \<mapsto> this'), process := p\<rparr>)
      | _ \<Rightarrow> None)"
| "handle_step (Destroy_Mapping i) h =
     (case mappings h i of
        None \<Rightarrow> None
      | Some this \<Rightarrow>
          Some (h\<lparr>mappings := (mappings h)(i := None), process := Mapping_delete this (process h)\<rparr>))"

fun handle_run :: "handle_op list \<Rightarrow> heap \<Rightarrow> heap option" where
  "handle_run [] h = Some h"
| "handle_run (s # ss) h = (case handle_step s h of None \<Rightarrow> None | Some h' \<Rightarrow> handle_run ss h')"

definition empty_heap :: heap where
  "empty_heap = \<lparr>descriptors = Map.empty, mappings = Map.empty,
     process = \<lparr>open_descriptors = {}, mapped_regions = {}, bad_releases = 0\<rparr>\<rparr>"

subsection \<open>One owner per resource\<close>

text \<open>
  \<open>held\<close> gives the resource an object holds.  \<open>sole_owner\<close> says that the resources in use are those held
  by live objects, and no two objects hold the same one.
\<close>

definition holding :: "('o \<Rightarrow> 'r option) \<Rightarrow> 'o option \<Rightarrow> 'r set" where
  "holding held v = (case v of None \<Rightarrow> {} | Some x \<Rightarrow> set_option (held x))"

definition sole_owner :: "('o \<Rightarrow> 'r option) \<Rightarrow> (nat \<Rightarrow> 'o option) \<Rightarrow> 'r set \<Rightarrow> bool" where
  "sole_owner held objs R \<longleftrightarrow>
     R = (\<Union>i. holding held (objs i)) \<and>
     (\<forall>i j. i \<noteq> j \<longrightarrow> holding held (objs i) \<inter> holding held (objs j) = {})"

locale resource_owner =
  fixes held :: "'o \<Rightarrow> 'r option"
    and empty :: 'o
  assumes held_empty: "held empty = None"
begin

lemma update:
  assumes "sole_owner held objs R" and "holding held v \<inter> (R - holding held (objs i)) = {}"
  shows "sole_owner held (objs(i := v)) ((R - holding held (objs i)) \<union> holding held v)"
proof -
  have R: "R = (\<Union>j. holding held (objs j))" and apart: "\<And>j k. j \<noteq> k \<Longrightarrow> holding held (objs j) \<inter> holding held (objs k) = {}"
    using assms(1) unfolding sole_owner_def by auto
  have rest: "R - holding held (objs i) = (\<Union>j \<in> - {i}. holding held (objs j))" (is "_ = ?rest")
    unfolding R using apart by fastforce
  have others: "holding held (objs k) \<subseteq> ?rest" if "k \<noteq> i" for k using that by blast
  have "(\<Union>j. holding held ((objs(i := v)) j)) = holding held v \<union> ?rest"
    by (auto split: if_splits)
  moreover have "holding held ((objs(i := v)) j) \<inter> holding held ((objs(i := v)) k) = {}" if jk: "j \<noteq> k" for j k
    using apart [OF jk] others [of j] others [of k] assms(2) jk unfolding rest
    by (cases "j = i"; cases "k = i") (simp_all, blast+)
  ultimately show ?thesis unfolding sole_owner_def rest by blast
qed

lemma construct: "sole_owner held objs R \<Longrightarrow> objs i = None \<Longrightarrow> sole_owner held (objs(i \<mapsto> empty)) R"
  using update [of objs R "Some empty" i] by (simp add: holding_def held_empty)

lemma acquire:
  "sole_owner held objs R \<Longrightarrow> objs i = Some x \<Longrightarrow> held y = Some r \<Longrightarrow> r \<notin> R \<Longrightarrow>
    sole_owner held (objs(i \<mapsto> y)) (insert r (R - set_option (held x)))"
  using update [of objs R "Some y" i] by (simp add: holding_def)

lemma drop:
  "sole_owner held objs R \<Longrightarrow> objs i = Some x \<Longrightarrow> held y = None \<Longrightarrow> sole_owner held (objs(i \<mapsto> y)) (R - set_option (held x))"
  using update [of objs R "Some y" i] by (simp add: holding_def)

lemma destroy:
  "sole_owner held objs R \<Longrightarrow> objs i = Some x \<Longrightarrow> sole_owner held (objs(i := None)) (R - set_option (held x))"
  using update [of objs R None i] by (simp add: holding_def)

lemma transfer:
  assumes own: "sole_owner held objs R" and j: "objs j = Some y" "held y' = None" and x: "held x = held y" and ij: "i \<noteq> j"
  shows "sole_owner held (objs(j \<mapsto> y', i \<mapsto> x)) (R - holding held (objs i))"
proof -
  have sub: "set_option (held y) \<subseteq> R" and apart: "set_option (held y) \<inter> holding held (objs i) = {}"
  proof -
    have y: "holding held (objs j) = set_option (held y)" by (simp add: holding_def j(1))
    show "set_option (held y) \<subseteq> R" using own unfolding sole_owner_def y [symmetric] by blast
    show "set_option (held y) \<inter> holding held (objs i) = {}" using own ij unfolding sole_owner_def y [symmetric] by blast
  qed
  have one: "sole_owner held (objs(j \<mapsto> y')) (R - set_option (held y))" by (rule drop [OF own j])
  have "sole_owner held ((objs(j \<mapsto> y'))(i \<mapsto> x)) ((R - set_option (held y) - holding held (objs i)) \<union> set_option (held y))"
    using update [OF one, of "Some x" i] ij x by (auto simp: holding_def)
  also have "(R - set_option (held y) - holding held (objs i)) \<union> set_option (held y) = R - holding held (objs i)"
    using sub apart by blast
  finally show ?thesis .
qed

lemma held_in_use: "sole_owner held objs R \<Longrightarrow> objs i = Some x \<Longrightarrow> held x = Some r \<Longrightarrow> r \<in> R"
proof -
  assume own: "sole_owner held objs R" and "objs i = Some x" "held x = Some r"
  then have "r \<in> holding held (objs i)" by (simp add: holding_def)
  then show "r \<in> R" using own unfolding sole_owner_def by blast
qed

end

definition held_descriptor :: "FileDescriptor \<Rightarrow> int option" where
  "held_descriptor d = (if IsValid d then Some (fd_raw d) else None)"

definition held_region :: "Mapping \<Rightarrow> (u64 \<times> u64) option" where
  "held_region m = (if mp_data m \<noteq> 0 then Some (mp_data m, mp_size m) else None)"

interpretation descriptor_owner: resource_owner held_descriptor FileDescriptor_default
  by unfold_locales (simp add: held_descriptor_def IsValid_def FileDescriptor_default_def FileDescriptor_new_def)

interpretation region_owner: resource_owner held_region Mapping_default
  by unfold_locales (simp add: held_region_def Mapping_default_def)

definition handles_ok :: "heap \<Rightarrow> bool" where
  "handles_ok h \<longleftrightarrow>
     sole_owner held_descriptor (descriptors h) (open_descriptors (process h)) \<and>
     sole_owner held_region (mappings h) (mapped_regions (process h)) \<and> bad_releases (process h) = 0"

lemma handles_okD:
  assumes "handles_ok h"
  shows "sole_owner held_descriptor (descriptors h) (open_descriptors (process h))"
    and "sole_owner held_region (mappings h) (mapped_regions (process h))" and "bad_releases (process h) = 0"
  using assms by (simp_all add: handles_ok_def)

text \<open>\<open>Reset\<close> and \<open>Unmap\<close> release what the object held, and only that.\<close>

lemma Reset_process:
  assumes "sole_owner held_descriptor objs (open_descriptors p)" and "objs i = Some this"
  shows "snd (Reset fd this p) = p\<lparr>open_descriptors := open_descriptors p - set_option (held_descriptor this)\<rparr>"
  using descriptor_owner.held_in_use [OF assms]
  by (auto simp: Reset_def close_fd_def held_descriptor_def IsValid_def)

lemma Unmap_process:
  assumes "sole_owner held_region objs (mapped_regions p)" and "objs i = Some this"
  shows "snd (Unmap this p) = p\<lparr>mapped_regions := mapped_regions p - set_option (held_region this)\<rparr>"
  using region_owner.held_in_use [OF assms]
  by (auto simp: Unmap_def munmap_def held_region_def)

lemma released [simp]:
  "held_descriptor (this\<lparr>fd_raw := - 1\<rparr>) = None" "held_descriptor (FileDescriptor_new fd) = (if fd \<ge> 0 then Some fd else None)"
  "fst (Reset fd this p) = this\<lparr>fd_raw := fd\<rparr>" "fst (Unmap m p) = Mapping_default"
  "held_region Mapping_default = None" "snd (Release d) = d\<lparr>fd_raw := - 1\<rparr>" "fst (Release d) = fd_raw d"
  by (simp_all add: held_descriptor_def held_region_def IsValid_def FileDescriptor_new_def Reset_def Unmap_def
      Mapping_default_def Release_def)

lemma Mapping_move_swaps: "Mapping_move m = (m, Mapping_default)"
  by (cases m) (simp add: Mapping_move_def Mapping_default_def)

lemma Mapping_assign_swaps: "Mapping_assign d m p = (m, Mapping_default, snd (Unmap d p))"
  by (cases m) (simp add: Mapping_assign_def Mapping_default_def Unmap_def)

lemma descriptor_step:
  assumes inv: "handles_ok h" and step: "handle_step s h = Some h'"
    and s: "s = Construct_Descriptor i \<or> s = Open_Descriptor i fd \<or> s = Reset_Descriptor i \<or> s = Move_Descriptor i j \<or>
      s = Assign_Descriptor i j \<or> s = Destroy_Descriptor i"
  shows "handles_ok h'"
proof -
  note H = handles_okD [OF inv]
  from s show ?thesis
  proof (elim disjE)
    assume "s = Construct_Descriptor i"
    then show ?thesis using step H descriptor_owner.construct [OF H(1), of i] by (auto simp: handles_ok_def split: if_splits)
  next
    assume s: "s = Open_Descriptor i fd"
    show ?thesis
    proof (cases "fd < 0")
      case True
      then show ?thesis using step s inv by (auto split: option.splits)
    next
      case False
      then obtain d where d: "descriptors h i = Some d" "fd \<notin> open_descriptors (process h)"
        using step s by (auto split: option.splits if_splits)
      let ?p = "(process h)\<lparr>open_descriptors := insert fd (open_descriptors (process h))\<rparr>"
      have "held_descriptor d = None \<or> held_descriptor d = Some (fd_raw d) \<and> fd_raw d \<in> open_descriptors (process h)"
        using descriptor_owner.held_in_use [OF H(1) d(1)] by (auto simp: held_descriptor_def)
      then have "snd (Reset fd d ?p) = ?p\<lparr>open_descriptors := insert fd (open_descriptors (process h) - set_option (held_descriptor d))\<rparr>"
        using d(2) by (auto simp: Reset_def close_fd_def held_descriptor_def IsValid_def insert_Diff_if split: if_splits)
      moreover have "sole_owner held_descriptor ((descriptors h)(i \<mapsto> d\<lparr>fd_raw := fd\<rparr>))
          (insert fd (open_descriptors (process h) - set_option (held_descriptor d)))"
        by (rule descriptor_owner.acquire [OF H(1) d(1) _ d(2)]) (use False in \<open>simp add: held_descriptor_def IsValid_def\<close>)
      ultimately show ?thesis
        using step s d False H by (auto simp: handles_ok_def Let_def split: prod.splits) (metis fst_conv snd_conv released(3))
    qed
  next
    assume s: "s = Reset_Descriptor i"
    then obtain d where d: "descriptors h i = Some d" using step by (auto split: option.splits)
    show ?thesis
      using step s d Reset_process [OF H(1) d, of "- 1"] descriptor_owner.drop [OF H(1) d, of "d\<lparr>fd_raw := - 1\<rparr>"] H
      by (auto simp: handles_ok_def Reset_def)
  next
    assume s: "s = Move_Descriptor i j"
    then obtain other where o: "descriptors h j = Some other" "descriptors h i = None" using step by (auto split: option.splits if_splits)
    then have "i \<noteq> j" by auto
    then show ?thesis
      using step s o descriptor_owner.transfer [OF H(1) o(1), of "other\<lparr>fd_raw := - 1\<rparr>" "FileDescriptor_new (fd_raw other)" i] H
      by (auto simp: handles_ok_def FileDescriptor_move_def Release_def held_descriptor_def IsValid_def FileDescriptor_new_def holding_def)
  next
    assume s: "s = Assign_Descriptor i j"
    show ?thesis
    proof (cases "i = j")
      case True
      then show ?thesis using step s inv by (auto split: option.splits)
    next
      case False
      obtain d other where o: "descriptors h i = Some d" "descriptors h j = Some other"
        using step s by (auto split: option.splits)
      show ?thesis
        using step s o False Reset_process [OF H(1) o(1), of "fd_raw other"]
          descriptor_owner.transfer [OF H(1) o(2), of "other\<lparr>fd_raw := - 1\<rparr>" "d\<lparr>fd_raw := fd_raw other\<rparr>" i] H
        by (auto simp: handles_ok_def FileDescriptor_assign_def Release_def Reset_def held_descriptor_def IsValid_def holding_def)
    qed
  next
    assume s: "s = Destroy_Descriptor i"
    then obtain d where d: "descriptors h i = Some d" using step by (auto split: option.splits)
    show ?thesis
      using step s d Reset_process [OF H(1) d, of "- 1"] descriptor_owner.destroy [OF H(1) d] H
      by (auto simp: handles_ok_def FileDescriptor_delete_def)
  qed
qed

lemma mapping_step:
  assumes inv: "handles_ok h" and step: "handle_step s h = Some h'"
    and s: "s = Construct_Mapping i \<or> s = Map_Mapping i mapped errno n w \<or> s = Unmap_Mapping i \<or> s = Move_Mapping i j \<or>
      s = Assign_Mapping i j \<or> s = Destroy_Mapping i"
  shows "handles_ok h'"
proof -
  note H = handles_okD [OF inv]
  have unmap: "Unmap m (process h) =
      (Mapping_default, (process h)\<lparr>mapped_regions := mapped_regions (process h) - set_option (held_region m)\<rparr>)"
    if "mappings h k = Some m" for k m
    using Unmap_process [OF H(2) that] released(4) [of m "process h"] by (metis prod.collapse)
  from s show ?thesis
  proof (elim disjE)
    assume "s = Construct_Mapping i"
    then show ?thesis using step H region_owner.construct [OF H(2), of i] by (auto simp: handles_ok_def split: if_splits)
  next
    assume s: "s = Map_Mapping i mapped errno n w"
    then obtain m where m: "mappings h i = Some m"
        "\<And>a. mapped = Some a \<Longrightarrow> a \<noteq> 0 \<and> a \<notin> fst ` mapped_regions (snd (Unmap m (process h)))"
      using step by (auto split: option.splits if_splits)
    have h': "h' = (let (status, m', p) = MapRegion mapped errno n w m (process h)
        in h\<lparr>mappings := (mappings h)(i \<mapsto> m'), process := p\<rparr>)"
      using step s m(1) by (simp add: Let_def case_prod_beta split: if_splits)
    have dropped: "sole_owner held_region ((mappings h)(i \<mapsto> Mapping_default)) (mapped_regions (process h) - set_option (held_region m))"
      by (rule region_owner.drop [OF H(2) m(1)]) simp
    show ?thesis
    proof (cases "n = 0 \<or> mapped = None")
      case True
      then have "\<exists>status. MapRegion mapped errno n w m (process h) = (status, Unmap m (process h))"
        by (cases "n = 0") (auto simp: MapRegion_def unmap [OF m(1)])
      then obtain status where "MapRegion mapped errno n w m (process h) = (status, Unmap m (process h))" ..
      then show ?thesis using dropped H by (simp add: h' handles_ok_def unmap [OF m(1)])
    next
      case False
      then obtain a where a: "mapped = Some a" "n \<noteq> 0" by auto
      have new: "(a, n) \<notin> mapped_regions (process h) - set_option (held_region m)" "a \<noteq> 0"
        using m(2) [OF a(1)] unfolding unmap [OF m(1)] by force+
      let ?m = "Mapping_default\<lparr>mp_data := a, mp_size := n, mp_writable := w\<rparr>"
      have "sole_owner held_region (((mappings h)(i \<mapsto> Mapping_default))(i \<mapsto> ?m))
          (insert (a, n) (mapped_regions (process h) - set_option (held_region m)))"
        using region_owner.acquire [OF dropped _ _ new(1), of i Mapping_default ?m] new(2)
        by (simp add: held_region_def [of ?m])
      then show ?thesis using a H by (simp add: h' handles_ok_def MapRegion_def unmap [OF m(1)])
    qed
  next
    assume s: "s = Unmap_Mapping i"
    then obtain m where m: "mappings h i = Some m" using step by (auto split: option.splits)
    show ?thesis using step s m region_owner.drop [OF H(2) m, of Mapping_default] H by (auto simp: handles_ok_def unmap)
  next
    assume s: "s = Move_Mapping i j"
    then obtain m where m: "mappings h j = Some m" "mappings h i = None" using step by (auto split: option.splits if_splits)
    then have "i \<noteq> j" by auto
    then show ?thesis
      using step s m H region_owner.transfer [OF H(2) m(1), of Mapping_default m i]
      by (auto simp: handles_ok_def Mapping_move_swaps holding_def)
  next
    assume s: "s = Assign_Mapping i j"
    show ?thesis
    proof (cases "i = j")
      case True
      then show ?thesis using step s inv by (auto split: option.splits)
    next
      case False
      obtain d m where o: "mappings h i = Some d" "mappings h j = Some m" using step s by (auto split: option.splits)
      show ?thesis
        using step s o False H region_owner.transfer [OF H(2) o(2), of Mapping_default m i]
        by (auto simp: handles_ok_def Mapping_assign_swaps unmap [OF o(1)] holding_def)
    qed
  next
    assume s: "s = Destroy_Mapping i"
    then obtain m where m: "mappings h i = Some m" using step by (auto split: option.splits)
    show ?thesis using step s m region_owner.destroy [OF H(2) m] H by (auto simp: handles_ok_def Mapping_delete_def unmap)
  qed
qed

lemma handle_step_keeps: "handles_ok h \<Longrightarrow> handle_step s h = Some h' \<Longrightarrow> handles_ok h'"
  by (cases s) (blast intro: descriptor_step mapping_step)+

lemma handle_run_keeps: "handles_ok h \<Longrightarrow> handle_run ss h = Some h' \<Longrightarrow> handles_ok h'"
  by (induction ss arbitrary: h) (auto split: option.splits dest: handle_step_keeps)

lemma empty_heap_ok: "handles_ok empty_heap"
  by (simp add: handles_ok_def empty_heap_def sole_owner_def holding_def)

subsection \<open>No leak and no second release\<close>

lemma sole_ownerD:
  assumes "sole_owner held objs R"
  shows "r \<in> R \<longleftrightarrow> (\<exists>!i. \<exists>x. objs i = Some x \<and> held x = Some r)"
proof -
  have held: "r \<in> holding held (objs i) \<longleftrightarrow> (\<exists>x. objs i = Some x \<and> held x = Some r)" for i
    by (auto simp: holding_def split: option.splits)
  show ?thesis
    using assms unfolding sole_owner_def held [symmetric] by blast
qed

lemma held_descriptor_Some: "held_descriptor d = Some fd \<longleftrightarrow> IsValid d \<and> fd_raw d = fd"
  by (simp add: held_descriptor_def)

lemma held_region_Some: "held_region m = Some (addr, n) \<longleftrightarrow> mp_data m \<noteq> 0 \<and> mp_data m = addr \<and> mp_size m = n"
  by (simp add: held_region_def)

text \<open>C40. The descriptors open in the process are those that a live \<open>FileDescriptor\<close> holds, and the regions
  mapped are those that a live \<open>MappedFile\<close> holds, each held by exactly one object: whatever a program
  does with the two classes (opening, mapping, resetting, moving, assigning, destroying, in any order), nothing
  leaks, nothing is closed or unmapped twice, and when no object is left nothing is open.\<close>

theorem handles_have_one_owner:
  assumes "handle_run ops empty_heap = Some h"
  shows "bad_releases (process h) = 0 \<and>
    (fd \<in> open_descriptors (process h) \<longleftrightarrow>
      (\<exists>!i. \<exists>d. descriptors h i = Some d \<and> IsValid d \<and> fd_raw d = fd)) \<and>
    ((addr, n) \<in> mapped_regions (process h) \<longleftrightarrow>
      (\<exists>!i. \<exists>m. mappings h i = Some m \<and> mp_data m \<noteq> 0 \<and> mp_data m = addr \<and> mp_size m = n)) \<and>
    (descriptors h = Map.empty \<longrightarrow> open_descriptors (process h) = {}) \<and>
    (mappings h = Map.empty \<longrightarrow> mapped_regions (process h) = {})"
proof -
  note H = handles_okD [OF handle_run_keeps [OF empty_heap_ok assms]]
  have "fd \<in> open_descriptors (process h) \<longleftrightarrow> (\<exists>!i. \<exists>d. descriptors h i = Some d \<and> IsValid d \<and> fd_raw d = fd)"
    using sole_ownerD [OF H(1), of fd] by (simp only: held_descriptor_Some)
  moreover have "(addr, n) \<in> mapped_regions (process h) \<longleftrightarrow>
      (\<exists>!i. \<exists>m. mappings h i = Some m \<and> mp_data m \<noteq> 0 \<and> mp_data m = addr \<and> mp_size m = n)"
    using sole_ownerD [OF H(2), of "(addr, n)"] by (simp only: held_region_Some)
  moreover have "descriptors h = Map.empty \<longrightarrow> open_descriptors (process h) = {}"
    "mappings h = Map.empty \<longrightarrow> mapped_regions (process h) = {}"
    using H(1,2) by (simp_all add: sole_owner_def holding_def)
  ultimately show ?thesis using H(3) by (intro conjI)
qed

text \<open>
  A run: a file is opened, its descriptor moved and then assigned over another open one; the file is mapped
  twice by one object, and everything is destroyed.
\<close>

definition sample_handles :: "handle_op list" where
  "sample_handles =
     [Construct_Descriptor 0, Open_Descriptor 0 3, Move_Descriptor 1 0, Open_Descriptor 0 4, Assign_Descriptor 0 1,
      Construct_Mapping 0, Map_Mapping 0 (Some 4096) [] 64 True, Map_Mapping 0 (Some 8192) [] 128 True,
      Move_Mapping 1 0, Destroy_Mapping 0]"

lemma handles_have_one_owner_witness:
  "\<exists>h. handle_run sample_handles empty_heap = Some h \<and> bad_releases (process h) = 0 \<and>
     open_descriptors (process h) = {3} \<and> mapped_regions (process h) = {(8192, 128)} \<and>
     (\<exists>!i. \<exists>d. descriptors h i = Some d \<and> IsValid d \<and> fd_raw d = 3) \<and>
     (\<exists>!i. \<exists>m. mappings h i = Some m \<and> mp_data m \<noteq> 0 \<and> mp_data m = 8192 \<and> mp_size m = 128)"
proof -
  obtain h where run: "handle_run sample_handles empty_heap = Some h"
    and fds: "open_descriptors (process h) = {3}" and regions: "mapped_regions (process h) = {(8192, 128)}"
    by (simp add: sample_handles_def empty_heap_def FileDescriptor_default_def FileDescriptor_new_def
        FileDescriptor_move_def FileDescriptor_assign_def Release_def Reset_def close_fd_def Mapping_default_def
        MapRegion_def Unmap_def munmap_def Mapping_move_def Mapping_delete_def)
  show ?thesis
    using run fds regions handles_have_one_owner [OF run, of 3 8192 128] by blast
qed

end
