(* ===== verification/Writer_Race_Durability.thy ===== *)
theory Writer_Race_Durability
  imports Writer_Race_Theorems Read_Only
begin

text \<open>
  Concurrent row writers as a part of the whole database: they touch the shard files and the row index
  and nothing else, so when all calls have returned the database is sound again, and what they wrote is
  there after closing and opening.
\<close>

subsection \<open>What concurrent writers may touch\<close>

definition race_frame :: "Impl \<Rightarrow> Impl \<Rightarrow> bool" where
  "race_frame db d \<longleftrightarrow>
     (\<exists>fs m offs pending. d = db\<lparr>filesys := fs, rowIndexMap := m, rowAppendOffsets := offs, rowPendingInsertCount := pending\<rparr> \<and>
        dirs fs = dirs (filesys db) \<and>
        (\<forall>path. Some path \<notin> set (rowValueFiles db) \<longrightarrow> files fs path = files (filesys db) path) \<and>
        mapped_writable m = mapped_writable (rowIndexMap db)) \<and>
     (\<exists>n q. RowIndexHeader d = (RowIndexHeader db)\<lparr>rih_itemCount := n, rih_nextSequence := q\<rparr>)"

lemma race_frame_refl: "race_frame db db"
  unfolding race_frame_def
  by (intro conjI exI [of _ "filesys db"] exI [of _ "rowIndexMap db"] exI [of _ "rowAppendOffsets db"]
      exI [of _ "rowPendingInsertCount db"] exI [of _ "rih_itemCount (RowIndexHeader db)"]
      exI [of _ "rih_nextSequence (RowIndexHeader db)"]) simp_all

lemma race_frame_trans:
  assumes "race_frame db d" and "race_frame d e"
  shows "race_frame db e"
proof -
  obtain fs m offs p n q where d: "d = db\<lparr>filesys := fs, rowIndexMap := m, rowAppendOffsets := offs, rowPendingInsertCount := p\<rparr>"
    "dirs fs = dirs (filesys db)" "\<forall>path. Some path \<notin> set (rowValueFiles db) \<longrightarrow> files fs path = files (filesys db) path"
    "mapped_writable m = mapped_writable (rowIndexMap db)"
    "RowIndexHeader d = (RowIndexHeader db)\<lparr>rih_itemCount := n, rih_nextSequence := q\<rparr>"
    using assms(1) unfolding race_frame_def by blast
  obtain fs' m' offs' p' n' q' where e: "e = d\<lparr>filesys := fs', rowIndexMap := m', rowAppendOffsets := offs', rowPendingInsertCount := p'\<rparr>"
    "dirs fs' = dirs (filesys d)" "\<forall>path. Some path \<notin> set (rowValueFiles d) \<longrightarrow> files fs' path = files (filesys d) path"
    "mapped_writable m' = mapped_writable (rowIndexMap d)"
    "RowIndexHeader e = (RowIndexHeader d)\<lparr>rih_itemCount := n', rih_nextSequence := q'\<rparr>"
    using assms(2) unfolding race_frame_def by blast
  have "e = db\<lparr>filesys := fs', rowIndexMap := m', rowAppendOffsets := offs', rowPendingInsertCount := p'\<rparr>" using d(1) e(1) by simp
  moreover have "dirs fs' = dirs (filesys db)" "mapped_writable m' = mapped_writable (rowIndexMap db)"
    using e(2,4) d(2,4) by (simp_all add: d(1))
  moreover have "\<forall>path. Some path \<notin> set (rowValueFiles db) \<longrightarrow> files fs' path = files (filesys db) path"
    using e(3) d(3) by (simp add: d(1))
  moreover have "RowIndexHeader e = (RowIndexHeader db)\<lparr>rih_itemCount := n', rih_nextSequence := q'\<rparr>" using e(5) d(5) by simp
  ultimately show ?thesis unfolding race_frame_def by blast
qed

lemma race_frame_map:
  assumes "mapped_writable m = mapped_writable (rowIndexMap db)"
    and "RowIndexHeader (db\<lparr>rowIndexMap := m\<rparr>) = (RowIndexHeader db)\<lparr>rih_itemCount := n, rih_nextSequence := q\<rparr>"
  shows "race_frame db (db\<lparr>rowIndexMap := m\<rparr>)"
  unfolding race_frame_def
  by (intro conjI exI [of _ "filesys db"] exI [of _ m] exI [of _ "rowAppendOffsets db"]
      exI [of _ "rowPendingInsertCount db"] exI [of _ n] exI [of _ q]) (use assms in simp_all)

lemma race_frame_bucket: "race_frame db (set_RowBucket i b db)"
  unfolding set_RowBucket_def
  by (rule race_frame_map [where n = "rih_itemCount (RowIndexHeader db)" and q = "rih_nextSequence (RowIndexHeader db)"])
    (simp, cases "mapped_data (rowIndexMap db)", simp_all add: RowIndexHeader_def)

lemma race_frame_header:
  "mapped_data (rowIndexMap db) \<noteq> None \<Longrightarrow> race_frame db (set_RowIndexHeader ((RowIndexHeader db)\<lparr>rih_itemCount := n, rih_nextSequence := q\<rparr>) db)"
  unfolding set_RowIndexHeader_def
  by (rule race_frame_map [where n = n and q = q]) (auto simp: RowIndexHeader_def)

lemma race_frame_counters:
  "race_frame db (db\<lparr>rowAppendOffsets := offs\<rparr>)" "race_frame db (db\<lparr>rowPendingInsertCount := pending\<rparr>)"
  unfolding race_frame_def
  by (rule conjI, intro exI [of _ "filesys db"] exI [of _ "rowIndexMap db"] exI [of _ offs]
      exI [of _ "rowPendingInsertCount db"], simp,
      intro exI [of _ "rih_itemCount (RowIndexHeader db)"] exI [of _ "rih_nextSequence (RowIndexHeader db)"],
      simp add: RowIndexHeader_def,
      rule conjI, intro exI [of _ "filesys db"] exI [of _ "rowIndexMap db"] exI [of _ "rowAppendOffsets db"]
      exI [of _ pending], simp,
      intro exI [of _ "rih_itemCount (RowIndexHeader db)"] exI [of _ "rih_nextSequence (RowIndexHeader db)"],
      simp add: RowIndexHeader_def)

lemma race_frame_files:
  assumes "WriteVAllAt os (filesys db) (Some path) slices off = (st, fs)" and "Some path \<in> set (rowValueFiles db)"
  shows "race_frame db (db\<lparr>filesys := fs\<rparr>)"
proof -
  have "\<forall>p. p \<noteq> path \<longrightarrow> files fs p = files (filesys db) p" "dirs fs = dirs (filesys db)"
    using WriteVAllAt_prefix [OF assms(1)] WriteVAllAt_dirs [OF assms(1)] by auto
  then show ?thesis
    unfolding race_frame_def
    by (intro conjI exI [of _ fs] exI [of _ "rowIndexMap db"] exI [of _ "rowAppendOffsets db"]
      exI [of _ "rowPendingInsertCount db"] exI [of _ "rih_itemCount (RowIndexHeader db)"]
      exI [of _ "rih_nextSequence (RowIndexHeader db)"]) (use assms(2) in \<open>auto simp: RowIndexHeader_def\<close>)
qed

lemma thread_step_race_frame:
  assumes "thread_step os job db pc = (pc', db')"
  shows "race_frame db db'"
  using assms race_frame_refl race_frame_bucket
  by (cases "(os, job, db, pc)" rule: thread_step.cases)
    (auto simp: Let_def split: if_splits sum.splits option.splits job.splits)

lemma stage_step_race_frame:
  assumes step: "stage_step os r w g = Some (w', r')" and mapped: "mapped_data (rowIndexMap (race_db r)) \<noteq> None"
    and shard: "unat (writer_shard (race_db r) w) < length (rowValueFiles (race_db r))" "None \<notin> set (rowValueFiles (race_db r))"
  shows "race_frame (race_db r) (race_db r')"
proof (cases g)
  case Take_Sequence
  obtain q d where "NextRowSequence (race_db r) = (q, d)" by fastforce
  then have d: "race_db r' = set_RowIndexHeader ((RowIndexHeader (race_db r))\<lparr>rih_itemCount := rih_itemCount (RowIndexHeader (race_db r)),
      rih_nextSequence := rih_nextSequence (RowIndexHeader (race_db r)) + 1\<rparr>) (race_db r)"
    using step Take_Sequence by (auto simp: NextRowSequence_def Let_def split: option.splits sum.splits)
  show ?thesis unfolding d by (rule race_frame_header [OF mapped])
next
  case (Transfer_Block q L off)
  let ?fd = "rowValueFiles (race_db r) ! unat (writer_shard (race_db r) w)"
  have mem: "?fd \<in> set (rowValueFiles (race_db r))" using shard(1) by simp
  then obtain path where path: "?fd = Some path" using shard(2) by (metis option.exhaust)
  obtain st fs where wr: "WriteVAllAt os (filesys (race_db r)) (Some path) (block_slices (w_column w) L) off = (st, fs)" by fastforce
  have "race_db r' = (race_db r)\<lparr>filesys := fs\<rparr>"
    using step Transfer_Block wr path by (auto simp: Let_def split: if_splits)
  then show ?thesis using race_frame_files [OF wr] mem path by simp
next
  case Count_Item
  have d: "race_db r' = set_RowIndexHeader ((RowIndexHeader (race_db r))\<lparr>rih_itemCount := rih_itemCount (RowIndexHeader (race_db r)) + 1,
      rih_nextSequence := rih_nextSequence (RowIndexHeader (race_db r))\<rparr>) (race_db r)"
    using step Count_Item by (auto simp: increment_rowItemCount_def)
  show ?thesis unfolding d by (rule race_frame_header [OF mapped])
next
  case Indexing
  then show ?thesis using step race_frame_refl by (auto split: option.splits pc.splits)
qed (use step race_frame_refl race_frame_counters in \<open>auto simp: Let_def ReleaseRowIndexInsertSlot_def split: if_splits\<close>)

lemma store_step_race_frame:
  assumes os: "reads_ok os" and start: "store_start db" and inv: "store_inv os db r0 s" and step: "store_step os s s'"
  shows "race_frame (race_db (st_race s)) (race_db (st_race s'))"
  using step
proof cases
  case (index t job pc pc' db')
  then show ?thesis using thread_step_race_frame by simp
next
  case (advance v w' r')
  have frame: "frame_ok db (race_db (st_race s))" by (rule store_invD(2) [OF inv])
  have "rowValueFiles (race_db (st_race s)) = rowValueFiles db" "mapped_data (rowIndexMap (race_db (st_race s))) \<noteq> None"
    using frame by (simp_all add: frame_ok_def)
  moreover have "None \<notin> set (rowValueFiles db)" using start by (simp add: store_start_def row_ok_def row_core_ok_def)
  ultimately show ?thesis
    using stage_step_race_frame [OF advance(3) [unfolded writer_step_def]] layout_shard(1) [OF start frame] advance(1) by simp
qed (simp_all add: race_frame_refl)

lemma store_run_race_frame:
  assumes os: "reads_ok os" and start: "store_start db" and run: "store_reachable os db s"
  shows "race_frame db (race_db (st_race s))"
proof -
  let ?s0 = "\<lparr>st_race = \<lparr>race_db = db, race_threads = []\<rparr>, st_writers = []\<rparr>"
  have "store_run os ?s0 s" using run by (simp add: store_reachable_def)
  then show ?thesis
  proof (induction rule: rtranclp_induct)
    case base
    show ?case by (simp add: race_frame_refl)
  next
    case (step s1 s2)
    have inv: "store_inv os db (st_race s1) s1" using step.hyps(1) by (intro store_reachable_inv [OF os start]) (simp add: store_reachable_def)
    have "store_step os s1 s2" using step.hyps(2) by (simp add: store_move_def)
    from race_frame_trans [OF step.IH store_step_race_frame [OF os start inv this]] show ?case .
  qed
qed

subsection \<open>The database after concurrent writers\<close>

lemma race_row_frame:
  assumes fr: "race_frame db d" and pending: "rowPendingInsertCount d = rowPendingInsertCount db"
  shows "row_frame db d"
proof -
  obtain fs m offs p where d: "d = db\<lparr>filesys := fs, rowIndexMap := m, rowAppendOffsets := offs, rowPendingInsertCount := p\<rparr>"
    "dirs fs = dirs (filesys db)" "\<forall>path. Some path \<notin> set (rowValueFiles db) \<longrightarrow> files fs path = files (filesys db) path"
    using fr unfolding race_frame_def by blast
  have "p = rowPendingInsertCount db" using pending by (simp add: d(1))
  then have "d = db\<lparr>filesys := fs, rowIndexMap := m, rowAppendOffsets := offs\<rparr>" by (simp add: d(1))
  then show ?thesis using d(2,3) unfolding row_frame_def by blast
qed

text \<open>The index has an empty bucket, so that a search for a row that is not there ends.\<close>

definition has_vacancy :: "Impl \<Rightarrow> bool" where
  "has_vacancy db \<longleftrightarrow> length (occupied vacant_row (RowBuckets db)) < length (RowBuckets db)"

text \<open>
  The index is never full when there were fewer calls than empty buckets at the start, however many of
  them passed the load factor at the same time: each call fills at most one bucket.
\<close>

lemma few_rows_leave_vacancy:
  assumes os: "reads_ok os" and start: "store_start db" and run: "store_reachable os db s"
    and returned: "\<forall>w \<in> set (st_writers s). \<exists>st. w_stage w = Returned st"
    and rows: "card (dom (rows (race_db (st_race s)))) < length (RowBuckets db)"
  shows "has_vacancy (race_db (st_race s))"
proof -
  let ?d = "race_db (st_race s)"
  have table: "rows_table_ok (shards_of ?d) (RowBuckets ?d)" using returned_rows [OF os start run returned] by blast
  have le: "length (occupied vacant_row (RowBuckets ?d)) = card (dom (rows ?d))"
    using table by (simp add: rows_def rows_map_def table_map_card rows_table_ok_def)
  obtain K E where "grows (written db []) db (start_keys db) {i. used db i} (written db (race_threads (st_race s))) ?d K E"
    by (rule reachable_traced [OF os store_start_race [OF start] store_invD(1) [OF store_reachable_inv [OF os start run]]])
  then have "length (RowBuckets ?d) = length (RowBuckets db)" by (simp add: grows_def)
  then show ?thesis using le rows by (simp add: has_vacancy_def)
qed

lemma few_calls_leave_vacancy:
  assumes os: "reads_ok os" and start: "store_start db" and run: "store_reachable os db s"
    and returned: "\<forall>w \<in> set (st_writers s). \<exists>st. w_stage w = Returned st"
    and few: "card (dom (rows db)) + length (st_writers s) < length (RowBuckets db)"
  shows "has_vacancy (race_db (st_race s))"
proof -
  let ?new = "(\<lambda>w. (w_column w, w_rowId w)) ` set (st_writers s)"
  have R: "if \<exists>w. succeeded s k w then \<exists>w. succeeded s k w \<and> rows (race_db (st_race s)) k = Some (row_map (w_entries w))
      else rows (race_db (st_race s)) k = rows db k" for k
    using returned_rows [OF os start run returned] by blast
  have fin: "finite (dom (rows db))"
    by (simp add: rows_def rows_map_def table_map_def finite_dom_map_of)
  have "k \<in> dom (rows db) \<union> ?new" if k: "k \<in> dom (rows (race_db (st_race s)))" for k
  proof (cases "\<exists>w. succeeded s k w")
    case True
    then obtain w where "succeeded s k w" by blast
    then show ?thesis by (auto simp: succeeded_def)
  next
    case False
    with R [of k] have "rows (race_db (st_race s)) k = rows db k" by simp
    then show ?thesis using k by auto
  qed
  then have "dom (rows (race_db (st_race s))) \<subseteq> dom (rows db) \<union> ?new" by blast
  then have "card (dom (rows (race_db (st_race s)))) \<le> card (dom (rows db) \<union> ?new)" using fin by (intro card_mono) simp_all
  also have "\<dots> \<le> card (dom (rows db)) + card ?new" by (rule card_Un_le)
  also have "card ?new \<le> length (st_writers s)" by (meson card_image_le card_length finite_set le_trans)
  finally show ?thesis using few by (intro few_rows_leave_vacancy [OF os start run returned]) simp
qed

lemma returned_row_ok:
  assumes os: "reads_ok os" and start: "store_start db" and run: "store_reachable os db s"
    and returned: "\<forall>w \<in> set (st_writers s). \<exists>st. w_stage w = Returned st" and room: "has_vacancy (race_db (st_race s))"
  shows "row_ok (race_db (st_race s))" "row_frame db (race_db (st_race s))"
proof -
  let ?d = "race_db (st_race s)"
  note R = returned_rows [OF assms(1-4)] and inv = store_reachable_inv [OF os start run]
  note fr = store_run_race_frame [OF os start run] and frame = store_invD(2) [OF store_reachable_inv [OF os start run]]
  have ok: "row_ok db" using start by (simp add: store_start_def)
  have pending: "rowPendingInsertCount ?d = 0" using R by blast
  then show "row_frame db ?d" using race_row_frame [OF fr] ok by (simp add: row_ok_def)
  obtain fs m offs p n q where d: "?d = db\<lparr>filesys := fs, rowIndexMap := m, rowAppendOffsets := offs, rowPendingInsertCount := p\<rparr>"
    "mapped_writable m = mapped_writable (rowIndexMap db)"
    "RowIndexHeader ?d = (RowIndexHeader db)\<lparr>rih_itemCount := n, rih_nextSequence := q\<rparr>"
    using fr unfolding race_frame_def by blast
  have same: "rowIndexFile ?d = rowIndexFile db" "rowValueFiles ?d = rowValueFiles db" "rowValueMaps ?d = rowValueMaps db"
    "mapped_writable (rowIndexMap ?d) = mapped_writable (rowIndexMap db)" using d(2) by (simp_all add: d(1))
  obtain v where v: "mapped_data (rowIndexMap db) = Some v" "row_index_ok (shards_of db) v"
    using ok by (auto simp: row_ok_def row_core_ok_def)
  obtain v' where v': "mapped_data (rowIndexMap ?d) = Some v'" using frame by (auto simp: frame_ok_def)
  have H: "RowIndexHeader db = ri_header v" "RowIndexHeader ?d = ri_header v'" "RowBuckets ?d = ri_buckets v'"
    using v(1) v' by (simp_all add: RowIndexHeader_def RowBuckets_def)
  have head: "row_header_ok (ri_header v')" "rih_shardCount (ri_header v') = rih_shardCount (ri_header v)"
    using v(2) d(3) unfolding H by (simp_all add: row_index_ok_def)
  obtain K E where "table_shape ?d" by (rule store_inv_table [OF os start inv])
  then have shape: "\<exists>k \<le> 56. rih_bucketCount (ri_header v') = 2 ^ k \<and> length (ri_buckets v') = 2 ^ k" using H by (simp add: table_shape_def)
  have "length (shards_of ?d) = length (shards_of db)" by (simp add: same)
  then have "row_index_ok (shards_of ?d) v'"
    using R v(2) head shape room H unfolding row_index_ok_def has_vacancy_def by simp
  then have index: "\<exists>v. mapped_data (rowIndexMap ?d) = Some v \<and> row_index_ok (shards_of ?d) v" using v' by blast
  have core: "row_core_ok db" using ok by (simp add: row_ok_def)
  have "\<forall>s < length (rowValueFiles ?d). length (row_bytes ?d s) \<le> unat (rowAppendOffsets ?d ! s) \<and> unat (rowAppendOffsets ?d ! s) < 2 ^ 63"
    using frame same(2) unfolding frame_ok_def by (auto intro: order_less_trans)
  moreover have "opened ?d" "\<not> readOnly ?d" "length (rowAppendOffsets ?d) = length (rowValueFiles ?d)"
    using frame same(2) by (simp_all add: frame_ok_def)
  ultimately have "row_core_ok ?d" using core index unfolding row_core_ok_def same by blast
  then show "row_ok ?d" using pending by (simp add: row_ok_def)
qed

lemma returned_headers:
  assumes os: "reads_ok os" and start: "store_start db" and run: "store_reachable os db s"
    and n: "n < length (rowValueFiles db)" and header: "row_value_header_ok (row_bytes db n)"
  shows "row_value_header_ok (row_bytes (race_db (st_race s)) n)"
proof -
  let ?d = "race_db (st_race s)"
  obtain K E where "grows (written db []) db (start_keys db) {i. used db i} (written db (race_threads (st_race s))) ?d K E"
    by (rule reachable_traced [OF os store_start_race [OF start] store_invD(1) [OF store_reachable_inv [OF os start run]]])
  then have keep: "keeps_bytes (written db []) (shards_of db) (shards_of ?d)" and files: "rowValueFiles ?d = rowValueFiles db"
    by (simp_all add: grows_def)
  let ?c = "row_bytes db n" and ?c' = "row_bytes ?d n"
  have bytes: "p < length ?c' \<and> ?c' ! p = ?c ! p" if "p < length ?c" for p
    using keep n that files unfolding keeps_bytes_def by (auto simp: written_def)
  have len: "length ?c \<le> length ?c'"
  proof (rule ccontr)
    assume "\<not> ?thesis"
    then have "length ?c' < length ?c" by simp
    from bytes [OF this] show False by simp
  qed
  have "take 24 ?c' = take 24 ?c"
    by (rule nth_equalityI) (use header len bytes in \<open>auto simp: row_value_header_ok_def\<close>)
  then show ?thesis using header len by (simp add: row_value_header_ok_def)
qed

lemma returned_sound:
  assumes db: "database_ok db" and os: "reads_ok os" and start: "store_start db" and run: "store_reachable os db s"
    and returned: "\<forall>w \<in> set (st_writers s). \<exists>st. w_stage w = Returned st" and room: "has_vacancy (race_db (st_race s))"
  shows "database_sound (race_db (st_race s))" "objects (race_db (st_race s)) = objects db"
    "options (race_db (st_race s)) = options db" "directory (race_db (st_race s)) = directory db"
proof -
  let ?d = "race_db (st_race s)"
  note row = returned_row_ok [OF os start run returned room]
  have sound: "database_sound db" by (rule database_ok_sound [OF db])
  have obj: "object_ok db" using sound by (simp add: database_sound_def)
  note r = row_frame_objects [OF obj database_separate [OF db] row(2)]
  then have same: "same_objects db ?d" and objs: "objects ?d = objects db" "object_ok ?d" by blast+
  show "objects ?d = objects db" by (rule objs(1))
  obtain fs m offs where d: "?d = db\<lparr>filesys := fs, rowIndexMap := m, rowAppendOffsets := offs\<rparr>" "dirs fs = dirs (filesys db)"
    using row(2) unfolding row_frame_def by blast
  show "options ?d = options db" "directory ?d = directory db" by (simp_all add: d(1))
  have "object_log_ok ?d" "no_tail ?d" using sound same_objects [OF same] by (simp_all add: database_sound_def object_log_ok_def)
  moreover have "paths_set ?d" "shard_path ?d = shard_path db"
    using sound by (simp_all add: d(1) database_sound_def paths_set_def shard_path_def fun_eq_iff)
  moreover have "length (rowValueFiles db) = unat (rowShardCount (options db))" using sound by (simp add: database_sound_def)
  then have "\<forall>n < unat (rowShardCount (options ?d)). row_value_header_ok (row_bytes ?d n)"
    using returned_headers [OF os start run] sound by (simp add: database_sound_def d(1))
  moreover have "valueFile ?d = valueFile db" "indexFile ?d = indexFile db" "rowIndexFile ?d = rowIndexFile db"
    "valuePath ?d = valuePath db" "indexPath ?d = indexPath db" "rowIndexPath ?d = rowIndexPath db" "rowValueFiles ?d = rowValueFiles db"
    "options ?d = options db" "directory ?d = directory db" "dirs (filesys ?d) = dirs (filesys db)"
    by (simp_all add: d)
  ultimately show "database_sound ?d" using sound row(1) objs(2) unfolding database_sound_def by simp
qed

text \<open>C19. What concurrent writers have written survives a restart: when all calls have returned and the row index still
  has an empty bucket, closing the database succeeds, and opening it again for reading, with accepted options and the same shard
  count, gives every row exactly as the writers left it and every object as it was before them.  The empty bucket is there whenever
  there were fewer calls than empty buckets at the start (\<open>few_calls_leave_vacancy\<close>); in a full index the search for a row
  that is not there reports corruption instead of its absence.\<close>

theorem concurrent_writes_survive_restart:
  assumes "File_IO.calls_ok os" and "reads_ok os" and "database_ok db" and "store_start db" and "store_reachable os db s"
    and "\<forall>w \<in> set (st_writers s). \<exists>st. w_stage w = Returned st" and "has_vacancy (race_db (st_race s))"
    and "options_ok opts" and "rowShardCount opts = rowShardCount (options db)"
    and "Close os (race_db (st_race s)) = (status, db0)"
  shows "status = Ok \<and> (\<exists>db'. OpenReadOnly os db0 (directory db) opts = Some (Ok, db') \<and>
    (\<forall>column rowId key. GetRowStruct os db' column rowId key =
       Some (row_result (rows (race_db (st_race s)) (column, rowId)) key)) \<and>
    (\<forall>column key. GetStruct os db' column key = lookup_result (objects db (column, key))))"
proof -
  note d = returned_sound [OF assms(3,2,4-7)]
  have n: "rowShardCount opts = rowShardCount (options (race_db (st_race s)))" using assms(9) d(3) by simp
  have "status = Ok" using sound_Close(1) [OF d(1), of os] Flush_ok [OF assms(1) d(1)] assms(10) by simp
  moreover obtain db' where r: "OpenReadOnly os db0 (directory db) opts = Some (Ok, db')" "object_readable db'" "rows_readable db'"
    "objects db' = objects db" "rows db' = rows (race_db (st_race s))"
    using OpenReadOnly_sound [OF assms(1,2) d(1) assms(8) n assms(10)] d(2,4) by auto
  ultimately show ?thesis
    using GetStruct_ok [OF assms(2) r(2)] GetRowStruct_ok [OF assms(2) r(3)] r(1,4,5) by auto
qed

end
