(* ===== verification/Benchmark.thy ===== *)
theory Benchmark
  imports Read_Only Database_Facade
begin

text \<open>
  The benchmark driver \<open>src/bench/benchmark.cpp\<close>, a client of the class \<open>Database\<close>: its options, the
  payloads it makes with \<open>std::mt19937_64\<close>, the run in object mode, and the parts of the run in row
  mode that a single thread executes.  Measured times are a parameter; the text it prints is not
  modelled.  \<open>None\<close> is undefined behaviour or a call that does not return, as in the rest of the
  development; a run that leaves through \<open>std::exit\<close>, or through an exception that nothing catches,
  is an \<open>Inl\<close>.
\<close>

datatype failure = Exit string | Uncaught string

subsection \<open>The generator \<open>std::mt19937_64\<close>\<close>

text \<open>The state is the window of the last 312 words, the oldest first.\<close>

type_synonym generator = "u64 list"

definition mt_temper :: "u64 \<Rightarrow> u64" where
  "mt_temper x =
     (let z1 = x XOR (drop_bit 29 x AND 0x5555555555555555);
          z2 = z1 XOR (push_bit 17 z1 AND 0x71D67FFFEDA60000);
          z3 = z2 XOR (push_bit 37 z2 AND 0xFFF7EEE000000000)
      in z3 XOR drop_bit 43 z3)"

fun mt_seed_words :: "nat \<Rightarrow> u64 \<Rightarrow> nat \<Rightarrow> u64 list" where
  "mt_seed_words 0 x i = []"
| "mt_seed_words (Suc n) x i = x # mt_seed_words n (6364136223846793005 * (x XOR drop_bit 62 x) + of_nat (Suc i)) (Suc i)"

definition mt_seed :: "u64 \<Rightarrow> generator" where
  "mt_seed seed = mt_seed_words 312 seed 0"

definition mt_next :: "generator \<Rightarrow> u64 \<times> generator" where
  "mt_next g =
     (let y = (g ! 0 AND 0xFFFFFFFF80000000) OR (g ! 1 AND 0x7FFFFFFF);
          x = (g ! 156) XOR drop_bit 1 y XOR (if y AND 1 = 1 then 0xB5026F5AA96619E9 else 0)
      in (mt_temper x, tl g @ [x]))"

subsection \<open>Arithmetic on \<open>double\<close> beyond the load factors\<close>

fun dmul :: "double \<Rightarrow> double \<Rightarrow> double" where
  "dmul (Fin x) (Fin y) = Fin (fl (x * y))"
| "dmul NaN _ = NaN"
| "dmul _ NaN = NaN"
| "dmul PInf y = (if y = Fin 0 then NaN else if dgt y (Fin 0) then PInf else NInf)"
| "dmul NInf y = (if y = Fin 0 then NaN else if dgt y (Fin 0) then NInf else PInf)"
| "dmul (Fin x) PInf = (if x = 0 then NaN else if 0 < x then PInf else NInf)"
| "dmul (Fin x) NInf = (if x = 0 then NaN else if 0 < x then NInf else PInf)"

text \<open>Rounding to an integer is exact.\<close>

fun dceil :: "double \<Rightarrow> double" where
  "dceil (Fin x) = Fin (of_int \<lceil>x\<rceil>)"
| "dceil x = x"

fun dfloor :: "double \<Rightarrow> double" where
  "dfloor (Fin x) = Fin (of_int \<lfloor>x\<rfloor>)"
| "dfloor x = x"

definition dmin :: "double \<Rightarrow> double \<Rightarrow> double" where
  "dmin a b = (if dgt a b then b else a)"

subsection \<open>Options\<close>

datatype BenchmarkMode = kObject | kRowParallel

record BenchmarkOptions =
  bo_directory :: string
  bo_sizesGb :: "double list"
  bo_mode :: BenchmarkMode
  bo_payloadSize :: u64
  bo_objectBatchSize :: u64
  bo_rowEntries :: u64
  bo_readCount :: u64
  bo_threads :: u32
  bo_shards :: u32
  bo_keepData :: bool

text \<open>The number of processors and the directory for temporary files are those of the machine.\<close>

definition BenchmarkOptions_default :: "string \<Rightarrow> u32 \<Rightarrow> BenchmarkOptions" where
  "BenchmarkOptions_default temp_directory hardware_concurrency =
     \<lparr>bo_directory = path_join temp_directory ''lumodb-bench'', bo_sizesGb = [Fin 1, Fin 5, Fin 10],
      bo_mode = kObject, bo_payloadSize = 4096, bo_objectBatchSize = 1, bo_rowEntries = 64,
      bo_readCount = 100, bo_threads = max 1 hardware_concurrency, bo_shards = 8, bo_keepData = False\<rparr>"

definition bench_RoundUpPowerOfTwo :: "u64 \<Rightarrow> u64 option" where
  "bench_RoundUpPowerOfTwo value = round_up_loop 16 value"

definition ParseMode :: "string \<Rightarrow> failure + BenchmarkMode" where
  "ParseMode txt =
     (if txt = ''object'' then Inr kObject
      else if txt = ''row-parallel'' then Inr kRowParallel
      else Inl (Exit (''unknown mode: '' @ txt)))"

text \<open>
  \<open>std::stoull\<close> in base 10: white space, a sign, digits; what follows them is ignored.  It throws when
  there is no digit or when the number does not fit; a minus sign negates modulo \<open>2 ^ 64\<close>.
\<close>

definition is_space :: "char \<Rightarrow> bool" where
  "is_space c \<longleftrightarrow> c \<in> {CHR '' '', CHR 0x09, CHR 0x0A, CHR 0x0B, CHR 0x0C, CHR 0x0D}"

definition is_digit :: "char \<Rightarrow> bool" where
  "is_digit c \<longleftrightarrow> (of_char c :: nat) \<in> {48..57}"

definition stoull :: "string \<Rightarrow> failure + u64" where
  "stoull txt =
     (let s = dropWhile is_space txt;
          negative = (s \<noteq> [] \<and> hd s = CHR ''-'');
          s' = (if s \<noteq> [] \<and> hd s \<in> {CHR ''-'', CHR ''+''} then tl s else s);
          ds = takeWhile is_digit s';
          n = decimal_value ds
      in if ds = [] then Inl (Uncaught ''stoull: invalid argument'')
         else if 2 ^ 64 \<le> n then Inl (Uncaught ''stoull: out of range'')
         else Inr (if negative then - of_nat n else of_nat n))"

text \<open>\<open>std::getline\<close> with a comma: no item after a final comma, none at all in an empty text.\<close>

fun comma_items :: "string \<Rightarrow> string \<Rightarrow> string list" where
  "comma_items [] item = (if item = [] then [] else [item])"
| "comma_items (c # cs) item =
     (if c = CHR '','' then item # comma_items cs [] else comma_items cs (item @ [c]))"

text \<open>\<open>stod\<close> reads a number in the locale of the process and is a parameter.\<close>

fun parse_items :: "(string \<Rightarrow> failure + double) \<Rightarrow> string list \<Rightarrow> failure + double list" where
  "parse_items stod [] = Inr []"
| "parse_items stod (item # items) =
     (case stod item of
        Inl e \<Rightarrow> Inl e
      | Inr x \<Rightarrow> map_sum id (\<lambda>xs. x # xs) (parse_items stod items))"

definition ParseSizes :: "(string \<Rightarrow> failure + double) \<Rightarrow> string \<Rightarrow> failure + double list" where
  "ParseSizes stod txt = parse_items stod (comma_items txt [])"

definition with_value :: "('a \<Rightarrow> BenchmarkOptions) \<Rightarrow> failure + 'a \<Rightarrow> failure + BenchmarkOptions" where
  "with_value store parsed = map_sum id store parsed"

text \<open>One argument with its value; \<open>stoul\<close> is \<open>stoull\<close> where \<open>unsigned long\<close> has 64 bits.\<close>

definition parse_value ::
  "(string \<Rightarrow> failure + double) \<Rightarrow> BenchmarkOptions \<Rightarrow> string \<Rightarrow> string \<Rightarrow> failure + BenchmarkOptions" where
  "parse_value stod opts arg v =
     (if arg = ''--dir'' then Inr (opts\<lparr>bo_directory := v\<rparr>)
      else if arg = ''--sizes'' then with_value (\<lambda>x. opts\<lparr>bo_sizesGb := x\<rparr>) (ParseSizes stod v)
      else if arg = ''--mode'' then with_value (\<lambda>x. opts\<lparr>bo_mode := x\<rparr>) (ParseMode v)
      else if arg = ''--payload-size'' then with_value (\<lambda>x. opts\<lparr>bo_payloadSize := x\<rparr>) (stoull v)
      else if arg = ''--object-batch-size'' then with_value (\<lambda>x. opts\<lparr>bo_objectBatchSize := x\<rparr>) (stoull v)
      else if arg = ''--row-entries'' then with_value (\<lambda>x. opts\<lparr>bo_rowEntries := x\<rparr>) (stoull v)
      else if arg = ''--read-count'' then with_value (\<lambda>x. opts\<lparr>bo_readCount := x\<rparr>) (stoull v)
      else if arg = ''--threads'' then with_value (\<lambda>x. opts\<lparr>bo_threads := ucast x\<rparr>) (stoull v)
      else with_value (\<lambda>x. opts\<lparr>bo_shards := ucast x\<rparr>) (stoull v))"

definition value_arguments :: "string list" where
  "value_arguments = [''--dir'', ''--sizes'', ''--mode'', ''--payload-size'', ''--object-batch-size'',
     ''--row-entries'', ''--read-count'', ''--threads'', ''--shards'']"

fun parse_loop :: "(string \<Rightarrow> failure + double) \<Rightarrow> BenchmarkOptions \<Rightarrow> string list \<Rightarrow> failure + BenchmarkOptions" where
  "parse_loop stod opts [] = Inr opts"
| "parse_loop stod opts (arg # args) =
     (if arg \<in> set value_arguments then
        (case args of
           [] \<Rightarrow> Inl (Exit (''missing value for '' @ arg))
         | v # rest \<Rightarrow>
             (case parse_value stod opts arg v of
                Inl e \<Rightarrow> Inl e
              | Inr opts' \<Rightarrow> parse_loop stod opts' rest))
      else if arg = ''--keep'' then parse_loop stod (opts\<lparr>bo_keepData := True\<rparr>) args
      else Inl (Exit (''unknown argument: '' @ arg)))"

definition ParseArgs :: "(string \<Rightarrow> failure + double) \<Rightarrow> BenchmarkOptions \<Rightarrow> string list \<Rightarrow> failure + BenchmarkOptions" where
  "ParseArgs stod defaults args =
     (case parse_loop stod defaults args of
        Inl e \<Rightarrow> Inl e
      | Inr opts \<Rightarrow>
          if bo_objectBatchSize opts = 0 \<or> bo_rowEntries opts = 0 \<or> bo_threads opts = 0 \<or> bo_shards opts = 0
          then Inl (Exit ''object-batch-size, row-entries, threads, and shards must be greater than zero'')
          else Inr opts)"

subsection \<open>Keys and payloads\<close>

definition text_bytes :: "string \<Rightarrow> bytes" where
  "text_bytes txt = map (\<lambda>c. of_nat (of_char c)) txt"

definition KeyForIndex :: "u64 \<Rightarrow> bytes" where
  "KeyForIndex index = text_bytes (''key-'' @ decimal (unat index))"

fun random_bytes :: "nat \<Rightarrow> generator \<Rightarrow> bytes" where
  "random_bytes 0 g = []"
| "random_bytes (Suc n) g = (let (r, g') = mt_next g in ucast (r AND 0xFF) # random_bytes n g')"

definition MakeFlatBufferPayload :: "u64 \<Rightarrow> u64 \<Rightarrow> bytes" where
  "MakeFlatBufferPayload sz seed =
     (if sz = 0 then []
      else
        let payload = random_bytes (unat sz) (mt_seed seed); marker = text_bytes ''LUMO''
        in take (length payload) marker @ drop (length marker) payload)"

subsection \<open>Percentiles\<close>

text \<open>The index of a percentile in the sorted durations; \<open>None\<close> reads beyond their end.\<close>

definition percentile_offset :: "u64 \<Rightarrow> double \<Rightarrow> u64 option" where
  "percentile_offset sz p = u64_of_double (dmin (double_of_u64 (sz - 1)) (dfloor (dmul (double_of_u64 sz) p)))"

definition percentile :: "int list \<Rightarrow> double \<Rightarrow> int option" where
  "percentile durations p =
     (case percentile_offset (of_nat (length durations)) p of
        None \<Rightarrow> None
      | Some offset \<Rightarrow> if unat offset < length durations then Some (durations ! unat offset) else None)"

definition PrintReadPercentiles :: "int list \<Rightarrow> (int \<times> int \<times> int) option" where
  "PrintReadPercentiles readDurations =
     (let durations = sort readDurations
      in case (percentile durations (Fin (1 / 2)), percentile durations (Fin (fl (95 / 100))),
               percentile durations (Fin (fl (99 / 100)))) of
          (Some p50, Some p95, Some p99) \<Rightarrow> Some (p50, p95, p99)
        | _ \<Rightarrow> None)"

subsection \<open>The plan of a run\<close>

definition target_bytes :: "double \<Rightarrow> u64 option" where
  "target_bytes sizeGb = u64_of_double (dceil (dmul (dmul (dmul sizeGb (Fin 1024)) (Fin 1024)) (Fin 1024)))"

text \<open>A payload size of 0 divides by zero.\<close>

definition object_count :: "BenchmarkOptions \<Rightarrow> double \<Rightarrow> u64 option" where
  "object_count opts sizeGb =
     (case target_bytes sizeGb of
        None \<Rightarrow> None
      | Some targetBytes \<Rightarrow>
          if bo_payloadSize opts = 0 then None
          else Some (max 1 ((targetBytes + bo_payloadSize opts - 1) div bo_payloadSize opts)))"

definition run_directory :: "BenchmarkOptions \<Rightarrow> string \<Rightarrow> double \<Rightarrow> string option" where
  "run_directory opts prefix sizeGb =
     map_option (\<lambda>n. path_join (bo_directory opts) (prefix @ decimal (unat n))) (u64_of_double (dmul sizeGb (Fin 1000)))"

text \<open>\<open>static_cast<uint64_t>(count / maxLoadFactor) + 1\<close>, rounded up\<close>

definition planned_buckets :: "u64 \<Rightarrow> u64 option" where
  "planned_buckets n =
     Option.bind (u64_of_double (ddiv (double_of_u64 n) (maxLoadFactor DatabaseOptions_default)))
       (\<lambda>buckets. bench_RoundUpPowerOfTwo (buckets + 1))"

text \<open>\<open>std::filesystem::remove_all\<close> and \<open>create_directories\<close>, which throw when they fail.\<close>

definition below :: "string \<Rightarrow> string \<Rightarrow> bool" where
  "below dir path \<longleftrightarrow> path = dir \<or> take (length dir + 1) path = dir @ ''/''"

definition remove_all :: "os \<Rightarrow> fs \<Rightarrow> string \<Rightarrow> failure + fs" where
  "remove_all os fs dir =
     (case remove_error os dir of
        Some e \<Rightarrow> Inl (Uncaught (''remove_all: '' @ e))
      | None \<Rightarrow> Inr (fs\<lparr>files := (\<lambda>path. if below dir path then None else files fs path),
                     dirs := (\<lambda>path. dirs fs path \<and> \<not> below dir path)\<rparr>))"

definition create_directories :: "os \<Rightarrow> fs \<Rightarrow> string \<Rightarrow> failure + fs" where
  "create_directories os fs dir =
     (case EnsureDirectory os fs dir of
        (status, fs') \<Rightarrow> if IsOk status then Inr fs' else Inl (Uncaught (status_message status)))"

definition fresh_directory :: "os \<Rightarrow> fs \<Rightarrow> BenchmarkOptions \<Rightarrow> string \<Rightarrow> failure + fs" where
  "fresh_directory os fs opts dir =
     (case (if bo_keepData opts then Inr fs else remove_all os fs dir) of
        Inl e \<Rightarrow> Inl e
      | Inr fs' \<Rightarrow> create_directories os fs' dir)"

subsection \<open>Object mode\<close>

definition StructA :: bytes where
  "StructA = text_bytes ''StructA''"

definition batch_entries :: "BenchmarkOptions \<Rightarrow> u64 \<Rightarrow> u64 \<Rightarrow> StructEntry list" where
  "batch_entries opts firstObject batchCount =
     map (\<lambda>offset. \<lparr>se_key = KeyForIndex (firstObject + of_nat offset),
                    se_bytes = MakeFlatBufferPayload (bo_payloadSize opts) (firstObject + of_nat offset)\<rparr>)
       [0..<unat batchCount]"

definition failed_with :: "string \<Rightarrow> Status \<Rightarrow> failure + 'a" where
  "failed_with what status = Inl (Exit (what @ '' failed: '' @ status_message status))"

partial_function (option) write_batches ::
  "os \<Rightarrow> BenchmarkOptions \<Rightarrow> u64 \<Rightarrow> u64 \<Rightarrow> Database \<Rightarrow> (failure + Database) option" where
  "write_batches os opts objectCount firstObject database =
     (if \<not> firstObject < objectCount then Some (Inr database)
      else
        let batchCount = min (bo_objectBatchSize opts) (objectCount - firstObject)
        in case Database_PutUniqueStructs os database StructA (batch_entries opts firstObject batchCount) of
            None \<Rightarrow> None
          | Some (status, database') \<Rightarrow>
              if \<not> IsOk status then Some (failed_with ''write'' status)
              else write_batches os opts objectCount (firstObject + bo_objectBatchSize opts) database')"

text \<open>The reads, as many as asked for; the last value read stays in \<open>v\<close>.\<close>

fun read_objects :: "os \<Rightarrow> Database \<Rightarrow> u64 \<Rightarrow> nat \<Rightarrow> generator \<Rightarrow> bytes \<Rightarrow> failure + bytes" where
  "read_objects os database objectCount 0 g v = Inr v"
| "read_objects os database objectCount (Suc n) g v =
     (let (r, g') = mt_next g; objectIndex = r mod objectCount
      in case Database_GetStruct os database StructA (KeyForIndex objectIndex) of
          Inl status \<Rightarrow> failed_with ''read'' status
        | Inr v' \<Rightarrow> read_objects os database objectCount n g' v')"

text \<open>\<open>elapsed i\<close> is the measured time of the read \<open>i\<close>.\<close>

definition read_durations :: "(nat \<Rightarrow> int) \<Rightarrow> BenchmarkOptions \<Rightarrow> int list" where
  "read_durations elapsed opts = map elapsed [0..<unat (bo_readCount opts)]"

definition close_database :: "os \<Rightarrow> Database \<Rightarrow> failure + Database" where
  "close_database os database =
     (case Database_Close os database of
        (status, database') \<Rightarrow> if IsOk status then Inr database' else failed_with ''close'' status)"

text \<open>The part after the writes: close, reopen for reading, read, report, close.\<close>

definition read_phase ::
  "os \<Rightarrow> fs \<Rightarrow> BenchmarkOptions \<Rightarrow> string \<Rightarrow> DatabaseOptions \<Rightarrow> (Database \<Rightarrow> (failure + bytes) option) \<Rightarrow>
     (nat \<Rightarrow> int) \<Rightarrow> Database \<Rightarrow> (failure + bytes \<times> (int \<times> int \<times> int) \<times> Database) option" where
  "read_phase os fs opts runDirectory databaseOptions reads elapsed database =
     (case close_database os database of
        Inl e \<Rightarrow> Some (Inl e)
      | Inr database1 \<Rightarrow>
          (case Database_OpenReadOnly os fs database1 runDirectory databaseOptions of
             None \<Rightarrow> None
           | Some (status, database2) \<Rightarrow>
               if \<not> IsOk status then Some (failed_with ''read-only open'' status)
               else case reads database2 of
                   None \<Rightarrow> None
                 | Some (Inl e) \<Rightarrow> Some (Inl e)
                 | Some (Inr v) \<Rightarrow>
                     (case PrintReadPercentiles (read_durations elapsed opts) of
                        None \<Rightarrow> None
                      | Some percentiles \<Rightarrow>
                          Some (map_sum id (\<lambda>database3. (v, percentiles, database3)) (close_database os database2)))))"

definition RunObjectMode ::
  "os \<Rightarrow> fs \<Rightarrow> BenchmarkOptions \<Rightarrow> double \<Rightarrow> (nat \<Rightarrow> int) \<Rightarrow>
     (failure + bytes \<times> (int \<times> int \<times> int) \<times> Database) option" where
  "RunObjectMode os fs opts sizeGb elapsed =
     (case (object_count opts sizeGb, run_directory opts ''size-'' sizeGb) of
        (Some objectCount, Some runDirectory) \<Rightarrow>
          (case fresh_directory os fs opts runDirectory of
             Inl e \<Rightarrow> Some (Inl e)
           | Inr fs' \<Rightarrow>
               (case planned_buckets objectCount of
                  None \<Rightarrow> None
                | Some buckets \<Rightarrow>
                    let databaseOptions = DatabaseOptions_default\<lparr>initialBucketCount := buckets\<rparr>
                    in case Database_Open os fs' (Database_new fs') runDirectory databaseOptions of
                        None \<Rightarrow> None
                      | Some (status, database) \<Rightarrow>
                          if \<not> IsOk status then Some (failed_with ''open'' status)
                          else case write_batches os opts objectCount 0 database of
                              None \<Rightarrow> None
                            | Some (Inl e) \<Rightarrow> Some (Inl e)
                            | Some (Inr database') \<Rightarrow>
                                read_phase os fs' opts runDirectory databaseOptions
                                  (\<lambda>db. Some (read_objects os db objectCount (unat (bo_readCount opts)) (mt_seed 42) []))
                                  elapsed database'))
      | _ \<Rightarrow> None)"

end
