(* ===== verification/Benchmark_Theorems.thy ===== *)
theory Benchmark_Theorems
  imports Benchmark Histories
begin

text \<open>
  The benchmark as a client of the database: its keys are distinct, its plan fits the formats, and a run in
  object mode on a sound system goes through to the end and reads back the payloads it wrote.
\<close>

subsection \<open>Keys and payloads\<close>

lemma char_small: "of_char c < (256 :: nat)"
proof -
  have "of_char c mod 256 = (of_char c :: nat)" by (metis char_of_eq_iff char_of_mod_256 of_char_mod_256)
  then show ?thesis by (metis mod_less_divisor zero_less_numeral)
qed

lemma text_bytes_inject: "text_bytes s = text_bytes t \<longleftrightarrow> s = t"
proof -
  have "inj (\<lambda>c. of_nat (of_char c) :: byte)"
  proof (rule injI)
    fix c d assume "(of_nat (of_char c) :: byte) = of_nat (of_char d)"
    then have "unat (of_nat (of_char c) :: byte) = unat (of_nat (of_char d) :: byte)" by simp
    then have "(of_char c :: nat) = of_char d"
      using char_small [of c] char_small [of d] by (simp add: unat_of_nat take_bit_eq_mod)
    then show "c = d" by simp
  qed
  then show ?thesis by (simp add: text_bytes_def inj_map_eq_map)
qed

lemma KeyForIndex_inject: "KeyForIndex i = KeyForIndex j \<longleftrightarrow> i = j"
proof
  assume "KeyForIndex i = KeyForIndex j"
  then have "decimal_value (decimal (unat i)) = decimal_value (decimal (unat j))"
    by (simp add: KeyForIndex_def text_bytes_inject)
  then show "i = j" by (simp add: word_unat_eq_iff)
qed simp

lemma length_decimal: "n < 10 ^ k \<Longrightarrow> 0 < k \<Longrightarrow> length (decimal n) \<le> k"
proof (induction k arbitrary: n)
  case (Suc k)
  show ?case
  proof (cases "n < 10")
    case False
    then have "0 < k" using Suc.prems(1) by (cases k) simp_all
    moreover have "n div 10 < 10 ^ k" using Suc.prems(1) by simp
    ultimately have "length (decimal (n div 10)) \<le> k" using Suc.IH by blast
    then show ?thesis using False by (subst decimal.simps) simp
  qed (subst decimal.simps, simp)
qed simp

lemma length_KeyForIndex: "length (KeyForIndex i) \<le> 24"
proof -
  have "unat i < 10 ^ 20" by (rule order_less_trans [OF unat_bound64]) simp
  then have "length (decimal (unat i)) \<le> 20" by (rule length_decimal) simp
  then show ?thesis by (simp add: KeyForIndex_def text_bytes_def)
qed

lemma length_random_bytes: "length (random_bytes n g) = n"
  by (induction n g rule: random_bytes.induct) (simp_all add: Let_def split: prod.split)

lemma length_MakeFlatBufferPayload: "length (MakeFlatBufferPayload sz seed) = unat sz"
  by (auto simp: MakeFlatBufferPayload_def Let_def length_random_bytes text_bytes_def min_def)

subsection \<open>The plan\<close>

lemma planned_buckets_ok:
  assumes n: "0 < unat n" "unat n < 2 ^ 40"
  obtains j where "planned_buckets n = Some (2 ^ j)" "4 \<le> j" "j \<le> 43" "unat n < 2 ^ j"
proof -
  define m where "m = unat n"
  note n = n [folded m_def]
  let ?f = "fl (4 / 5)" and ?x = "of_nat m / fl (4 / 5) :: rat"
  have f: "1 / 2 \<le> ?f" "?f < 1" by (simp_all add: fl_four_fifths)
  have x: "1 \<le> ?x" "?x \<le> of_nat (2 * m)"
  proof -
    have "(1 :: rat) \<le> of_nat m" using n(1) by (metis Suc_leI One_nat_def of_nat_1 of_nat_le_iff)
    then show "1 \<le> ?x" using f by (simp add: le_divide_eq)
    have "?x \<le> of_nat m / (1 / 2)" using f(1) by (intro divide_left_mono) simp_all
    then show "?x \<le> of_nat (2 * m)" by simp
  qed
  have q: "0 \<le> fl ?x" "fl ?x \<le> of_nat (2 * m)"
  proof -
    have "of_nat 1 \<le> fl ?x" using x(1) by (intro fl_ge_nat) simp_all
    then show "0 \<le> fl ?x" by (rule order_trans [rotated]) simp
    show "fl ?x \<le> of_nat (2 * m)" by (rule fl_le_nat [OF x]) (use n(2) in simp)
  qed
  have "rat_of_nat (2 * m) < of_nat (2 ^ 41)" using n(2) by (simp only: of_nat_less_iff) simp
  then have big: "fl ?x < 2 ^ 64" using q(2) by simp
  let ?q = "of_nat (nat \<lfloor>fl ?x\<rfloor>) :: u64"
  have "nat \<lfloor>fl ?x\<rfloor> \<le> 2 * m" using q by (simp add: nat_le_iff floor_le_iff)
  then have uq: "unat ?q = nat \<lfloor>fl ?x\<rfloor>" "unat ?q \<le> 2 * m" using n(2) unat_of_nat64 [of "nat \<lfloor>fl ?x\<rfloor>"] by simp_all
  have v: "unat (?q + 1) = unat ?q + 1" "unat (?q + 1) \<le> 2 ^ 41" using uq(2) n(2) unat_add64 [of ?q 1] by simp_all
  obtain j where j: "4 \<le> j" "bench_RoundUpPowerOfTwo (?q + 1) = Some (2 ^ j)" "j = 4 \<or> 2 ^ (j - 1) < unat (?q + 1)"
    "unat (?q + 1) \<le> 2 ^ j"
    using round_up_loop_pow2 [of 4 "?q + 1"] v(2) by (auto simp: bench_RoundUpPowerOfTwo_def)
  have "j \<le> 43"
  proof (rule ccontr)
    assume "\<not> j \<le> 43"
    then have "2 ^ 41 \<le> (2 :: nat) ^ (j - 1)" by (intro power_increasing) simp_all
    then show False using j(3) v(2) \<open>\<not> j \<le> 43\<close> by simp
  qed
  moreover have "m < 2 ^ j"
  proof -
    have "of_nat m * ?f \<le> of_nat m * 1" using f by (intro mult_left_mono) simp_all
    then have "of_nat m \<le> ?x" using f by (simp add: le_divide_eq)
    then have "of_nat m \<le> fl ?x" using n by (intro fl_ge_nat) simp_all
    then have "int m \<le> \<lfloor>fl ?x\<rfloor>" by (simp add: le_floor_iff)
    then have "m \<le> unat ?q" using uq(1) by simp
    then show ?thesis using j(4) v(1) by simp
  qed
  moreover have "double_of_u64 n = Fin (of_nat m)" using fl_of_nat [of m] n(2) by (simp add: double_of_u64_def m_def)
  then have "planned_buckets n = Some (2 ^ j)"
    using q(1) big j(2) f by (simp add: planned_buckets_def DatabaseOptions_default_def)
  ultimately show ?thesis using that j(1) by (simp add: m_def)
qed

subsection \<open>The directory of a run\<close>

lemma decimal_last: "last (decimal n) = char_of (48 + n mod 10)" "decimal n \<noteq> []"
  by (cases "n < 10"; subst decimal.simps; simp)+

lemma decimal_no_slash: "last (decimal n) \<noteq> CHR ''/''"
proof
  assume "last (decimal n) = CHR ''/''"
  then have "of_char (char_of (48 + n mod 10) :: char) = (of_char (CHR ''/'') :: nat)" by (simp add: decimal_last(1))
  moreover have "48 + n mod 10 < 256" using mod_less_divisor [of 10 n] by linarith
  then have "of_char (char_of (48 + n mod 10) :: char) = 48 + n mod 10" by (simp only: of_char_of mod_less)
  ultimately show False by simp
qed

lemma run_directory_below:
  assumes "run_directory opts prefix sizeGb = Some dir"
  shows "below dir (path_join dir name)" "below dir dir"
proof -
  obtain n where "dir = path_join (bo_directory opts) (prefix @ decimal n)"
    using assms by (auto simp: run_directory_def)
  then have "last dir \<noteq> CHR ''/''" "dir \<noteq> []" by (auto simp: path_join_def decimal_no_slash decimal_last(2))
  then show "below dir (path_join dir name)" by (simp add: below_def path_join_def)
qed (simp add: below_def)

lemma fresh_directory_ok:
  assumes os: "calls_ok os" and "\<not> bo_keepData opts" and dir: "run_directory opts prefix sizeGb = Some dir"
  obtains fs' where "fresh_directory os fs opts dir = Inr fs'" "no_files fs' dir"
proof -
  note b = run_directory_below [OF dir]
  let ?fs = "fs\<lparr>files := (\<lambda>path. if below dir path then None else files fs path),
                 dirs := (\<lambda>path. dirs fs path \<and> \<not> below dir path)\<rparr>"
  have "remove_all os fs dir = Inr ?fs" using os by (simp add: remove_all_def calls_ok_def)
  moreover have "create_directories os ?fs dir = Inr (?fs\<lparr>dirs := (dirs ?fs)(dir := True)\<rparr>)"
    using os b(2) by (simp add: create_directories_def EnsureDirectory_def calls_ok_def)
  ultimately have "fresh_directory os fs opts dir = Inr (?fs\<lparr>dirs := (dirs ?fs)(dir := True)\<rparr>)"
    using assms(2) by (simp add: fresh_directory_def)
  moreover have "no_files (?fs\<lparr>dirs := (dirs ?fs)(dir := True)\<rparr>) dir" using b(1) by (simp add: no_files_def)
  ultimately show ?thesis by (rule that)
qed

subsection \<open>Closing\<close>

lemma close_database_ok:
  assumes "calls_ok os" and "database_sound db"
  shows "close_database os (Some db) = Inr (Some (snd (Close os db)))"
  using sound_Close(1) [OF assms(2), of os] Flush_ok [OF assms] by (simp add: close_database_def Database_Close_def)

lemma close_read_only:
  assumes "opened db" and "readOnly db"
  shows "close_database os (Some db) = Inr (Some (snd (Close os db)))"
  using assms by (simp add: close_database_def Database_Close_def Close_def Flush_def)

subsection \<open>Writing the objects\<close>

definition object_entry :: "BenchmarkOptions \<Rightarrow> nat \<Rightarrow> StructEntry" where
  "object_entry opts i =
     \<lparr>se_key = KeyForIndex (of_nat i), se_bytes = MakeFlatBufferPayload (bo_payloadSize opts) (of_nat i)\<rparr>"

lemma batch_entries_nat:
  "batch_entries opts (of_nat k) c = map (object_entry opts) [k..<k + unat c]"
proof -
  have "[k..<k + unat c] = map (\<lambda>i. i + k) [0..<unat c]" by (simp add: map_add_upt add.commute)
  then show ?thesis by (simp add: batch_entries_def object_entry_def comp_def add.commute)
qed

text \<open>The objects after the first \<open>n\<close> are written.\<close>

definition benchmark_objects :: "BenchmarkOptions \<Rightarrow> nat \<Rightarrow> (bytes \<times> bytes \<rightharpoonup> bytes)" where
  "benchmark_objects opts n = store_entries StructA (map (object_entry opts) [0..<n]) (\<lambda>_. None)"

lemma store_entries_append: "store_entries column (es @ fs) m = store_entries column fs (store_entries column es m)"
  by (simp add: store_entries_def)

lemma benchmark_objects_step:
  "store_entries StructA (map (object_entry opts) [k..<k + c]) (benchmark_objects opts k) = benchmark_objects opts (k + c)"
  by (simp only: benchmark_objects_def store_entries_append [symmetric] map_append [symmetric] upt_add_eq_append [of 0 k c] zero_le)

lemma benchmark_objects_Suc:
  "benchmark_objects opts (Suc n) = (benchmark_objects opts n)((StructA, KeyForIndex (of_nat n)) \<mapsto>
     MakeFlatBufferPayload (bo_payloadSize opts) (of_nat n))"
  using benchmark_objects_step [of opts n 1] by (simp add: object_entry_def)

lemma of_nat_inject64: "i < 2 ^ 64 \<Longrightarrow> j < 2 ^ 64 \<Longrightarrow> (of_nat i :: u64) = of_nat j \<longleftrightarrow> i = j"
  using unat_of_nat64 [of i] unat_of_nat64 [of j] by (simp add: word_unat_eq_iff)

lemma benchmark_objects_lookup:
  assumes "i < 2 ^ 64" and "n < 2 ^ 64"
  shows "benchmark_objects opts n (StructA, KeyForIndex (of_nat i)) =
    (if i < n then Some (MakeFlatBufferPayload (bo_payloadSize opts) (of_nat i)) else None)"
  using assms(2)
proof (induction n)
  case (Suc n)
  then show ?case using of_nat_inject64 [of i n] assms(1) by (auto simp: benchmark_objects_Suc KeyForIndex_inject less_Suc_eq)
qed (simp add: benchmark_objects_def)

lemma benchmark_objects_card: "n < 2 ^ 64 \<Longrightarrow> finite (dom (benchmark_objects opts n)) \<and> card (dom (benchmark_objects opts n)) = n"
proof (induction n)
  case (Suc n)
  then have "benchmark_objects opts n (StructA, KeyForIndex (of_nat n)) = None" by (simp add: benchmark_objects_lookup)
  then have "(StructA, KeyForIndex (of_nat n)) \<notin> dom (benchmark_objects opts n)" by (simp add: domIff)
  then show ?case using Suc by (simp add: benchmark_objects_Suc del: fun_upd_apply)
qed (simp add: benchmark_objects_def)

lemma length_object_entries:
  "length (entries_bytes StructA (map (object_entry opts) is)) \<le> length is * (unat (bo_payloadSize opts) + 55)"
proof (induction "is")
  case (Cons i "is")
  have "length (entry_record StructA (object_entry opts i)) \<le> unat (bo_payloadSize opts) + 55"
    using length_KeyForIndex [of "of_nat i"]
    by (simp add: length_entry_record object_entry_def length_MakeFlatBufferPayload StructA_def text_bytes_def)
  then show ?case using Cons by (simp add: entries_bytes_def)
qed (simp add: entries_bytes_def)

lemma distinct_object_keys: "k + c < 2 ^ 64 \<Longrightarrow> distinct (map se_key (map (object_entry opts) [k..<k + c]))"
  by (auto simp: distinct_map object_entry_def inj_on_def KeyForIndex_inject of_nat_inject64)

lemma object_column_fits: "FitsUint32 (length StructA)" "list_all (\<lambda>e. FitsUint32 (length (se_key e))) (map (object_entry opts) is)"
proof -
  have "FitsUint32 (length (KeyForIndex i))" for i using length_KeyForIndex [of i] by (simp add: FitsUint32_def)
  then show "list_all (\<lambda>e. FitsUint32 (length (se_key e))) (map (object_entry opts) is)"
    by (simp add: list_all_iff object_entry_def)
qed (simp add: StructA_def text_bytes_def FitsUint32_def)

text \<open>The analogue of \<open>database_put_objects\<close> for a write that promises new keys.\<close>

lemma database_put_unique:
  assumes os: "os_ok os" and db: "database_ok db" and fits: "write_fits db column entries"
    and fresh: "fresh_keys column entries (objects db)"
  obtains db' where "PutUniqueStructs os db column entries = Some (Ok, db')" "database_ok db'"
    "objects db' = store_entries column entries (objects db)" "value_bytes db' = value_bytes db @ entries_bytes column entries"
    "options db' = options db" "directory db' = directory db"
proof -
  have ok: "object_ok db" "object_log_ok db" "no_tail db" using db by (simp_all add: database_ok_def)
  have rw: "calls_ok os" "reads_ok os" "writes_ok os" using os by (simp_all add: os_ok_def)
  obtain db' where w: "PutUniqueStructs os db column entries = Some (Ok, db')" "object_ok db'"
    "object_frame db db'" "objects db' = store_entries column entries (objects db)"
    "log_bytes db' = log_bytes db @ entries_bytes column entries" "no_tail db'"
    using WriteStructs_atomic [OF rw(1,2) ok(1) fits fresh, of True] rw(3) ok(3) by (auto simp: PutUniqueStructs_def)
  have "object_log_ok db'"
    using log_append [OF ok(2) w(4,5)] fits length_log_bytes [OF ok(1)] by (simp add: write_fits_def)
  note d = database_ok_object_write [OF db w(2) this w(6,3)]
  then have "database_ok db'" by blast
  then have "value_bytes db' = value_bytes db @ entries_bytes column entries"
    using w(5) database_value_bytes(5) [OF db] database_value_bytes(5) by simp
  then show ?thesis using that w(1,4) d by blast
qed

text \<open>A database that holds the first \<open>k\<close> objects and has room for the rest.\<close>

definition holds_objects :: "BenchmarkOptions \<Rightarrow> Impl \<Rightarrow> nat \<Rightarrow> bool" where
  "holds_objects opts db k \<longleftrightarrow>
     database_ok db \<and> objects db = benchmark_objects opts k \<and> maxLoadFactor (options db) = Fin (fl (4 / 5)) \<and>
     length (value_bytes db) \<le> 24 + k * (unat (bo_payloadSize opts) + 55)"

definition run_fits :: "BenchmarkOptions \<Rightarrow> nat \<Rightarrow> bool" where
  "run_fits opts n \<longleftrightarrow> n < 2 ^ 40 \<and> n * (unat (bo_payloadSize opts) + 55) < 2 ^ 62"

lemma one_batch:
  assumes os: "os_ok os" and db: "holds_objects opts db k" and fits: "run_fits opts (k + c)"
  obtains db' where "PutUniqueStructs os db StructA (map (object_entry opts) [k..<k + c]) = Some (Ok, db')"
    "holds_objects opts db' (k + c)" "options db' = options db" "directory db' = directory db"
proof -
  let ?es = "map (object_entry opts) [k..<k + c]"
  let ?m = "unat (bo_payloadSize opts) + 55"
  have d: "database_ok db" "objects db = benchmark_objects opts k" "maxLoadFactor (options db) = Fin (fl (4 / 5))"
    "length (value_bytes db) \<le> 24 + k * ?m"
    using db by (simp_all add: holds_objects_def)
  have n: "k + c < 2 ^ 40" "(k + c) * ?m < 2 ^ 62" using fits by (simp_all add: run_fits_def)
  have len: "length (entries_bytes StructA ?es) \<le> c * ?m" using length_object_entries [of opts "[k..<k + c]"] by simp
  obtain v w where m: "mapped_data (indexMap db) = Some v" using d(1) by (rule database_maps)
  have obj: "object_ok db" "no_tail db" using d(1) by (simp_all add: database_ok_def)
  have card: "unat (ih_itemCount (oi_header v)) = k"
    using object_count [OF obj(1) m] benchmark_objects_card [of k opts] n(1) by (simp add: d(2))
  have "rat_of_nat (k + c) \<le> of_nat (2 ^ 40)" using n(1) by (simp only: of_nat_le_iff less_imp_le)
  then have "rat_of_nat (k + c) \<le> fl (4 / 5) * 2 ^ 58" by (simp add: fl_four_fifths)
  then have cap: "index_capacity (options db) v c"
    using n(1) d(3) unfolding index_capacity_def card by (intro exI [of _ "fl (4 / 5)"]) (simp add: fl_four_fifths)
  have "unat (appendOffset db) + length (entries_bytes StructA ?es) < 2 ^ 63"
    using obj(2) d(4) len n(2) by (simp add: no_tail_def add_mult_distrib)
  then have "write_fits db StructA ?es" using object_column_fits cap m by (simp add: write_fits_def)
  moreover have "fresh_keys StructA ?es (objects db)"
    using distinct_object_keys [of k c opts] n(1) unfolding fresh_keys_def d(2)
    by (auto simp: object_entry_def benchmark_objects_lookup)
  ultimately obtain db' where p: "PutUniqueStructs os db StructA ?es = Some (Ok, db')" "database_ok db'"
    "objects db' = store_entries StructA ?es (objects db)" "value_bytes db' = value_bytes db @ entries_bytes StructA ?es"
    "options db' = options db" "directory db' = directory db"
    by (rule database_put_unique [OF os d(1)])
  have "holds_objects opts db' (k + c)"
    using p(2-5) d len by (simp add: holds_objects_def benchmark_objects_step add_mult_distrib)
  then show ?thesis using that p(1,5,6) by blast
qed

lemma object_batch_count:
  assumes "k < n" and "n < 2 ^ 64"
  shows "unat (min b (of_nat n - of_nat k :: u64)) = min (unat b) (n - k)"
proof -
  have "unat (of_nat n - of_nat k :: u64) = n - k"
    using assms by (simp add: unat_sub_if_size unat_of_nat64 word_size)
  then show ?thesis by (simp add: min_def word_le_nat_alt)
qed

lemma write_batches_ok:
  assumes os: "os_ok os" and fits: "run_fits opts n" and b: "0 < bo_objectBatchSize opts"
    and db: "holds_objects opts db k" and k: "k < n" "k = 0 \<or> unat (bo_objectBatchSize opts) \<le> k"
  shows "\<exists>db'. write_batches os opts (of_nat n) (of_nat k) (Some db) = Some (Inr (Some db')) \<and>
    holds_objects opts db' n \<and> options db' = options db \<and> directory db' = directory db"
  using db k
proof (induction "n - k" arbitrary: db k rule: less_induct)
  case less
  let ?b = "bo_objectBatchSize opts"
  define c where "c = min (unat ?b) (n - k)"
  have n: "n < 2 ^ 40" using fits by (simp add: run_fits_def)
  have pos: "0 < unat ?b" using b by (simp add: word_less_nat_alt)
  have un: "unat (of_nat n :: u64) = n" "unat (of_nat k :: u64) = k" using n less.prems(2) by (simp_all add: unat_of_nat64)
  have c: "k + c \<le> n" "0 < c" using less.prems(2) pos by (auto simp: c_def)
  have "run_fits opts (k + c)" using fits c(1) unfolding run_fits_def
    by (meson le_less_trans mult_le_mono1)
  then obtain db1 where w: "PutUniqueStructs os db StructA (map (object_entry opts) [k..<k + c]) = Some (Ok, db1)"
    "holds_objects opts db1 (k + c)" "options db1 = options db" "directory db1 = directory db"
    by (rule one_batch [OF os less.prems(1)])
  have "batch_entries opts (of_nat k) (min ?b (of_nat n - of_nat k)) = map (object_entry opts) [k..<k + c]"
    using object_batch_count [OF less.prems(2), of ?b] n by (simp add: batch_entries_nat c_def)
  moreover have "(of_nat k :: u64) < of_nat n" using less.prems(2) un by (simp add: word_less_nat_alt)
  ultimately have step: "write_batches os opts (of_nat n) (of_nat k) (Some db) =
      write_batches os opts (of_nat n) (of_nat k + ?b) (Some db1)"
    using w(1) by (simp add: write_batches.simps [of os opts "of_nat n" "of_nat k"] Database_PutUniqueStructs_def forward_def)
  show ?case
  proof (cases "unat ?b < n - k")
    case True
    then have kc: "k + c < n" "c = unat ?b" by (simp_all add: c_def)
    have "(of_nat k + ?b :: u64) = of_nat (k + c)" by (simp add: kc(2))
    moreover have "n - (k + c) < n - k" using c(2) kc(1) by simp
    ultimately show ?thesis using less.hyps [OF _ w(2) kc(1)] kc(2) step w(3,4) by auto
  next
    case False
    then have kn: "k + c = n" using less.prems(2) by (simp add: c_def)
    have "k + unat ?b < 2 ^ 64" using less.prems(2,3) n unat_bound64 [of ?b] by auto
    then have "unat (of_nat k + ?b) = k + unat ?b" using un(2) by (subst unat_add64) simp_all
    then have "\<not> of_nat k + ?b < of_nat n" using False less.prems(2) un(1) by (simp add: word_less_nat_alt)
    then show ?thesis using w kn by (simp add: step write_batches.simps [of os opts "of_nat n" "of_nat k + ?b"])
  qed
qed

subsection \<open>Reading them back\<close>

lemma read_objects_ok:
  assumes os: "reads_ok os" and db: "object_readable db" "objects db = benchmark_objects opts n" and n: "0 < n" "n < 2 ^ 40"
    and v: "k = 0 \<longrightarrow> (\<exists>i < n. v = MakeFlatBufferPayload (bo_payloadSize opts) (of_nat i))"
  shows "\<exists>i < n. read_objects os (Some db) (of_nat n) k g v = Inr (MakeFlatBufferPayload (bo_payloadSize opts) (of_nat i))"
  using v
proof (induction k arbitrary: g v)
  case (Suc k)
  obtain r g' where r: "mt_next g = (r, g')" by fastforce
  define i where "i = unat (r mod of_nat n)"
  have "unat (of_nat n :: u64) = n" using n(2) by (simp add: unat_of_nat64)
  then have i: "i < n" using n(1) by (simp add: i_def unat_mod)
  have ri: "r mod of_nat n = of_nat i" by (metis i_def of_nat_unat ucast_id)
  then have "objects db (StructA, KeyForIndex (r mod of_nat n)) = Some (MakeFlatBufferPayload (bo_payloadSize opts) (of_nat i))"
    using n(2) i unfolding ri by (simp add: db(2) benchmark_objects_lookup)
  then have "Database_GetStruct os (Some db) StructA (KeyForIndex (r mod of_nat n)) =
      Inr (MakeFlatBufferPayload (bo_payloadSize opts) (of_nat i))"
    using GetStruct_ok [OF os db(1)] by (simp add: Database_GetStruct_def ask_def)
  moreover have "\<exists>j < n. read_objects os (Some db) (of_nat n) k g' (MakeFlatBufferPayload (bo_payloadSize opts) (of_nat i)) =
      Inr (MakeFlatBufferPayload (bo_payloadSize opts) (of_nat j))"
    by (rule Suc.IH) (use i in blast)
  ultimately show ?case by (simp add: r)
qed simp

subsection \<open>Percentiles\<close>

lemma fl_nonneg: "0 \<le> x \<Longrightarrow> 0 \<le> fl x"
proof -
  have "0 \<le> round_even y" if "0 \<le> y" for y using round_even_ge [of 0 y] that by simp
  then show "0 \<le> x \<Longrightarrow> 0 \<le> fl x" by (simp add: fl_def round53_def Let_def)
qed

lemma percentile_offset_ok:
  assumes m: "0 < m" "m < 2 ^ 53" and p: "0 \<le> p"
  obtains offset where "percentile_offset (of_nat m) (Fin p) = Some offset" "unat offset < m"
proof -
  have un: "unat (of_nat m :: u64) = m" using m by (simp add: unat_of_nat64)
  have last: "unat (of_nat m - 1 :: u64) = m - 1" using un m(1) by (simp add: unat_sub_if_size word_size)
  have d: "double_of_u64 (of_nat m) = Fin (of_nat m)" "double_of_u64 (of_nat m - 1) = Fin (of_nat (m - 1))"
    using fl_of_nat [of m] fl_of_nat [of "m - 1"] m by (simp_all only: double_of_u64_def un last less_imp_diff_less)
  define y :: rat where "y = min (of_nat (m - 1)) (of_int \<lfloor>fl (of_nat m * p)\<rfloor>)"
  have "0 \<le> fl (of_nat m * p)" using p by (simp add: fl_nonneg)
  then have y: "0 \<le> y" "y \<le> of_nat (m - 1)" by (simp_all add: y_def)
  have "dmin (double_of_u64 (of_nat m - 1)) (dfloor (dmul (double_of_u64 (of_nat m)) (Fin p))) = Fin y"
    by (simp add: d dmin_def min_def y_def)
  moreover have "rat_of_nat (m - 1) < of_nat (2 ^ 64)" using m(2) by (simp only: of_nat_less_iff) simp
  then have "y < 2 ^ 64" using y(2) by simp
  ultimately have "percentile_offset (of_nat m) (Fin p) = Some (of_nat (nat \<lfloor>y\<rfloor>))"
    using y(1) by (simp add: percentile_offset_def)
  moreover have "nat \<lfloor>y\<rfloor> \<le> m - 1" using y by (metis floor_mono floor_of_nat nat_le_iff)
  then have "unat (of_nat (nat \<lfloor>y\<rfloor>) :: u64) < m" using m by (simp add: unat_of_nat64)
  ultimately show ?thesis by (rule that)
qed

lemma percentile_ok:
  assumes "0 < length ds" "length ds < 2 ^ 53" and "0 \<le> p"
  obtains d where "percentile ds (Fin p) = Some d" "d \<in> set ds"
proof -
  obtain offset where "percentile_offset (of_nat (length ds)) (Fin p) = Some offset" "unat offset < length ds"
    by (rule percentile_offset_ok [OF assms])
  then show ?thesis using that [of "ds ! unat offset"] by (simp add: percentile_def)
qed

lemma PrintReadPercentiles_ok:
  assumes "0 < length ds" "length ds < 2 ^ 53"
  obtains p50 p95 p99 where "PrintReadPercentiles ds = Some (p50, p95, p99)" "{p50, p95, p99} \<subseteq> set ds"
proof -
  have len: "0 < length (sort ds)" "length (sort ds) < 2 ^ 53" using assms by simp_all
  have p: "0 \<le> fl (95 / 100)" "0 \<le> fl (99 / 100)" "0 \<le> 1 / (2 :: rat)" by (simp_all add: fl_nonneg)
  obtain a where a: "percentile (sort ds) (Fin (1 / 2)) = Some a" "a \<in> set ds" by (rule percentile_ok [OF len p(3)]) simp
  obtain b where b: "percentile (sort ds) (Fin (fl (95 / 100))) = Some b" "b \<in> set ds" by (rule percentile_ok [OF len p(1)]) simp
  obtain c where c: "percentile (sort ds) (Fin (fl (99 / 100))) = Some c" "c \<in> set ds" by (rule percentile_ok [OF len p(2)]) simp
  show ?thesis using that [of a b c] a b c by (simp add: PrintReadPercentiles_def Let_def)
qed

subsection \<open>A run in object mode\<close>

lemma planned_options:
  assumes "4 \<le> j" "j \<le> 43"
  defines "dbo \<equiv> DatabaseOptions_default\<lparr>initialBucketCount := 2 ^ j\<rparr>"
  shows "options_ok dbo" "options_fit dbo 0" "maxLoadFactor (rounded_options dbo) = Fin (fl (4 / 5))"
    "rowShardCount (rounded_options dbo) = rowShardCount dbo"
proof -
  have u: "unat ((2 :: u64) ^ j) = 2 ^ j" using assms(2) by (intro unat_pow2) simp
  then have nz: "(2 :: u64) ^ j \<noteq> 0" by (metis unat_0 power_not_zero zero_neq_numeral)
  have le: "(2 :: nat) ^ j \<le> 2 ^ 58" using assms(2) by (intro power_increasing) simp_all
  have "options_fit DatabaseOptions_default 0" using options_fit_mono [OF default_options_fit] by simp
  then show fit: "options_fit dbo 0" using nz u le by (simp add: options_fit_def options_ok_def dbo_def)
  then show "options_ok dbo" by (simp add: options_fit_def)
  show "maxLoadFactor (rounded_options dbo) = Fin (fl (4 / 5))" by (simp add: dbo_def DatabaseOptions_default_def)
  show "rowShardCount (rounded_options dbo) = rowShardCount dbo" by (simp add: rounded_options_def)
qed

text \<open>A later process finds the database in the files a closed one has left.\<close>

lemma reopen_files:
  assumes os: "calls_ok os" "reads_ok os" and db: "database_ok db" and opts: "options_ok opts"
    and n: "rowShardCount opts = rowShardCount (options db)"
    and fs: "files fs = files (filesys (snd (Close os db)))" "dirs fs (directory db)"
  shows "\<exists>db'. Open os (Impl_default fs) (directory db) opts = Some (Ok, db') \<and> database_ok db' \<and>
    objects db' = objects db \<and> rows db' = rows db"
proof -
  let ?x = "start_open (Impl_default fs) (directory db) opts False"
  note old = Close_at_rest [OF db n, of os]
  have same: "files (filesys ?x) = files (filesys (start_open (snd (Close os db)) (directory db) opts False))"
    by (simp add: fs(1) Impl_default_def)
  have rest: "values_at_rest db ?x"
    using old(1) same n unfolding values_at_rest_def by (simp add: Impl_default_def)
  have intact: "index_intact db ?x" "row_index_intact db ?x"
    using old(2,3) unfolding index_intact_def row_index_intact_def same .
  obtain rs logs where l: "records_from (value_bytes db) 24 = Some rs" "shard_logs (shards_of db) logs"
    "logs_placed logs" "rows db = replay_rows (concat logs) (\<lambda>_. None)"
    using db by (rule database_logs)
  note st = values_at_rest_stored [OF db rest l disjI1 [OF intact(1)] disjI1 [OF intact(2)]]
  have "\<not> opened (Impl_default fs)" "dirs (filesys (Impl_default fs)) (directory db)"
    using fs(2) by (simp_all add: Impl_default_def)
  then show ?thesis using Open_stored [OF os _ opts _ st(1)] st(2) l(4) by metis
qed

lemma read_phase_ok:
  assumes os: "os_ok os" and db: "database_sound db" "directory db = dir" and opts: "options_ok dbo"
      "rowShardCount dbo = rowShardCount (options db)"
    and count: "0 < unat (bo_readCount opts)" "unat (bo_readCount opts) < 2 ^ 53"
    and reads: "\<And>db'. opened db' \<Longrightarrow> object_readable db' \<Longrightarrow> rows_readable db' \<Longrightarrow> objects db' = objects db \<Longrightarrow> rows db' = rows db \<Longrightarrow>
      \<exists>v. reads (Some db') = Some (Inr v) \<and> good v"
  shows "\<exists>v p50 p95 p99 db'. read_phase os fs opts dir dbo reads elapsed (Some db) = Some (Inr (v, (p50, p95, p99), Some db')) \<and>
    good v \<and> {p50, p95, p99} \<subseteq> elapsed ` {..<unat (bo_readCount opts)} \<and>
    files (filesys db') = files (filesys (snd (Close os db))) \<and> dirs (filesys db') dir"
proof -
  have rw: "calls_ok os" "reads_ok os" using os by (simp_all add: os_ok_def)
  define db0 where "db0 = snd (Close os db)"
  obtain db1 where r: "OpenReadOnly os db0 dir dbo = Some (Ok, db1)" "opened db1" "readOnly db1"
    "object_readable db1" "rows_readable db1" "objects db1 = objects db" "rows db1 = rows db"
    "files (filesys (snd (Close os db1))) = files (filesys db0)" "dirs (filesys (snd (Close os db1))) dir"
    using OpenReadOnly_sound [OF rw db(1) opts, of "fst (Close os db)" db0] db(2) by (auto simp: db0_def)
  obtain v where v: "reads (Some db1) = Some (Inr v)" "good v" using reads [OF r(2,4-7)] by blast
  have len: "0 < length (read_durations elapsed opts)" "length (read_durations elapsed opts) < 2 ^ 53"
    using count by (simp_all add: read_durations_def)
  obtain p50 p95 p99 where p: "PrintReadPercentiles (read_durations elapsed opts) = Some (p50, p95, p99)"
    "{p50, p95, p99} \<subseteq> set (read_durations elapsed opts)"
    by (rule PrintReadPercentiles_ok [OF len])
  have "read_phase os fs opts dir dbo reads elapsed (Some db) = Some (Inr (v, (p50, p95, p99), Some (snd (Close os db1))))"
    using close_database_ok [OF rw(1) db(1)] close_read_only [OF r(2,3), of os] r(1) v(1) p(1)
    by (simp add: read_phase_def Database_OpenReadOnly_def db0_def)
  moreover have "{p50, p95, p99} \<subseteq> elapsed ` {..<unat (bo_readCount opts)}"
    using p(2) by (simp add: read_durations_def atLeast0LessThan)
  ultimately show ?thesis using v(2) r(8,9) by (auto simp: db0_def)
qed

lemma object_run_completes:
  assumes "os_ok os" and "\<not> bo_keepData opts" and "0 < bo_objectBatchSize opts"
    and "0 < unat (bo_readCount opts)" and "unat (bo_readCount opts) < 2 ^ 53"
    and "object_count opts sizeGb = Some n" and "run_directory opts ''size-'' sizeGb = Some dir" and "run_fits opts (unat n)"
  shows "\<exists>i p50 p95 p99 db. RunObjectMode os fs opts sizeGb elapsed =
      Some (Inr (MakeFlatBufferPayload (bo_payloadSize opts) (of_nat i), (p50, p95, p99), Some db)) \<and>
    i < unat n \<and> {p50, p95, p99} \<subseteq> elapsed ` {..<unat (bo_readCount opts)} \<and>
    (\<exists>db'. Open os (Impl_default (filesys db)) dir DatabaseOptions_default = Some (Ok, db') \<and> objects db' = benchmark_objects opts (unat n))"
proof -
  have rw: "calls_ok os" "reads_ok os" using assms(1) by (simp_all add: os_ok_def)
  have n: "0 < unat n" "unat n < 2 ^ 40"
  proof -
    have "1 \<le> n" using assms(6) by (auto simp: object_count_def split: option.splits if_splits)
    then show "0 < unat n" by (simp add: word_le_nat_alt)
    show "unat n < 2 ^ 40" using assms(8) by (simp add: run_fits_def)
  qed
  have un: "of_nat (unat n) = n" by simp
  obtain fs' where fs': "fresh_directory os fs opts dir = Inr fs'" "no_files fs' dir"
    by (rule fresh_directory_ok [OF rw(1) assms(2,7)])
  obtain j where j: "planned_buckets n = Some (2 ^ j)" "4 \<le> j" "j \<le> 43" "unat n < 2 ^ j"
    by (rule planned_buckets_ok [OF n])
  define dbo where "dbo = DatabaseOptions_default\<lparr>initialBucketCount := 2 ^ j\<rparr>"
  note o = planned_options [OF j(2,3), folded dbo_def]
  have "no_files (filesys (Impl_default fs')) dir" using fs'(2) by (simp add: Impl_default_def)
  from Open_empty [OF assms(1) Impl_default_closed this o(2)]
  obtain db where db: "Open os (Impl_default fs') dir dbo = Some (Ok, db)" "database_ok db" "objects db = (\<lambda>_. None)"
    "value_bytes db = fresh_value_file" "options db = rounded_options dbo" "directory db = dir"
    by blast
  have holds: "holds_objects opts db 0"
    using db o(3) by (simp add: holds_objects_def benchmark_objects_def fresh_value_file(1))
  obtain db1 where w: "write_batches os opts n 0 (Some db) = Some (Inr (Some db1))"
    "holds_objects opts db1 (unat n)" "options db1 = options db" "directory db1 = directory db"
    using write_batches_ok [OF assms(1,8,3) holds n(1)] by auto
  have db1: "database_ok db1" "objects db1 = benchmark_objects opts (unat n)" "directory db1 = dir"
    "rowShardCount dbo = rowShardCount (options db1)"
    using w(2-4) db(5,6) o(4) by (simp_all add: holds_objects_def)
  let ?reads = "\<lambda>d. Some (read_objects os d n (unat (bo_readCount opts)) (mt_seed 42) [])"
  let ?good = "\<lambda>v. \<exists>i < unat n. v = MakeFlatBufferPayload (bo_payloadSize opts) (of_nat i)"
  have reads: "\<exists>v. ?reads (Some d) = Some (Inr v) \<and> ?good v" if "object_readable d" "objects d = objects db1" for d
  proof -
    have "unat (bo_readCount opts) = 0 \<longrightarrow> ?good []" using assms(4) by simp
    from read_objects_ok [OF rw(2) that(1) trans [OF that(2) db1(2)] n this, of "mt_seed 42"]
    obtain i where "i < unat n" "read_objects os (Some d) n (unat (bo_readCount opts)) (mt_seed 42) [] =
        Inr (MakeFlatBufferPayload (bo_payloadSize opts) (of_nat i))"
      unfolding un by blast
    then show ?thesis by auto
  qed
  obtain v p50 p95 p99 db2 where
    r: "read_phase os fs' opts dir dbo ?reads elapsed (Some db1) = Some (Inr (v, (p50, p95, p99), Some db2))" "?good v"
      "{p50, p95, p99} \<subseteq> elapsed ` {..<unat (bo_readCount opts)}" "files (filesys db2) = files (filesys (snd (Close os db1)))"
      "dirs (filesys db2) dir"
    using read_phase_ok [OF assms(1) database_ok_sound [OF db1(1)] db1(3) o(1) db1(4) assms(4,5), of ?reads ?good fs' elapsed] reads by blast
  have run: "RunObjectMode os fs opts sizeGb elapsed = Some (Inr (v, (p50, p95, p99), Some db2))"
    using assms(6,7) fs'(1) j(1) db(1) w(1) r(1)
    by (simp add: RunObjectMode_def Database_Open_def Database_new_def dbo_def)
  have "options_ok DatabaseOptions_default" using default_options_fit by (simp add: options_fit_def)
  moreover have "rowShardCount DatabaseOptions_default = rowShardCount (options db1)" using db1(4) by (simp add: dbo_def)
  ultimately obtain db' where "Open os (Impl_default (filesys db2)) dir DatabaseOptions_default = Some (Ok, db')"
    "objects db' = benchmark_objects opts (unat n)"
    using reopen_files [OF rw db1(1) _ _ r(4)] r(5) by (auto simp: db1(2,3))
  then show ?thesis using run r(2,3) by auto
qed

text \<open>C34. A run of the benchmark in object mode on a system without errors, whose objects fit the formats, without
  \<open>--keep\<close> and with a read count that is neither 0 nor \<open>2 ^ 53\<close> or more, ends: every write, both closings, the reopening and every read succeed, the last value read is the
  payload of one of its objects, the percentiles are measured times, and the files it leaves behind
  open again as a database with exactly the objects it made.\<close>

theorem object_benchmark_completes:
  assumes "os_ok os" and "\<not> bo_keepData opts" and "0 < bo_objectBatchSize opts"
    and "0 < unat (bo_readCount opts)" and "unat (bo_readCount opts) < 2 ^ 53"
    and "object_count opts sizeGb = Some n" and "run_directory opts ''size-'' sizeGb = Some dir" and "run_fits opts (unat n)"
  shows "\<exists>i p50 p95 p99 db. RunObjectMode os fs opts sizeGb elapsed =
      Some (Inr (MakeFlatBufferPayload (bo_payloadSize opts) (of_nat i), (p50, p95, p99), Some db)) \<and>
    i < unat n \<and> {p50, p95, p99} \<subseteq> elapsed ` {..<unat (bo_readCount opts)} \<and>
    (\<exists>db'. Open os (Impl_default (filesys db)) dir DatabaseOptions_default = Some (Ok, db') \<and> objects db' = benchmark_objects opts (unat n))"
  by (rule object_run_completes [OF assms])

lemma one_gigabyte:
  defines "opts \<equiv> BenchmarkOptions_default ''/tmp'' 4"
  shows "object_count opts (Fin 1) = Some 262144" "run_directory opts ''size-'' (Fin 1) = Some ''/tmp/lumodb-bench/size-1000''"
    "run_fits opts 262144"
proof -
  have f: "fl 1024 = 1024" "fl 1048576 = 1048576" "fl 1073741824 = 1073741824" "fl 1000 = 1000"
    using fl_of_nat [of 1024] fl_of_nat [of 1048576] fl_of_nat [of 1073741824] fl_of_nat [of 1000] by simp_all
  show "object_count opts (Fin 1) = Some 262144"
    by (simp add: object_count_def target_bytes_def f opts_def BenchmarkOptions_default_def)
  show "run_directory opts ''size-'' (Fin 1) = Some ''/tmp/lumodb-bench/size-1000''"
    by (simp add: run_directory_def f opts_def BenchmarkOptions_default_def path_join_def decimal.simps char_of_def bit_Suc_0_iff)
  show "run_fits opts 262144" by (simp add: run_fits_def opts_def BenchmarkOptions_default_def)
qed

lemma object_benchmark_completes_witness:
  "\<exists>i db. RunObjectMode choppy_os empty_fs (BenchmarkOptions_default ''/tmp'' 4) (Fin 1) (\<lambda>_. 7) =
      Some (Inr (MakeFlatBufferPayload 4096 (of_nat i), (7, 7, 7), Some db)) \<and> i < 262144 \<and>
    (\<exists>db'. Open choppy_os (Impl_default (filesys db)) ''/tmp/lumodb-bench/size-1000'' DatabaseOptions_default = Some (Ok, db') \<and>
      objects db' = benchmark_objects (BenchmarkOptions_default ''/tmp'' 4) 262144)"
proof -
  let ?o = "BenchmarkOptions_default ''/tmp'' 4"
  have o: "\<not> bo_keepData ?o" "0 < bo_objectBatchSize ?o" "0 < unat (bo_readCount ?o)" "unat (bo_readCount ?o) < 2 ^ 53"
    "bo_payloadSize ?o = 4096"
    by (simp_all add: BenchmarkOptions_default_def)
  have fits: "run_fits ?o (unat (262144 :: u64))" using one_gigabyte(3) by simp
  from object_benchmark_completes [OF choppy_os_ok o(1-4) one_gigabyte(1,2) fits, of empty_fs "\<lambda>_. 7"]
  show ?thesis unfolding o(5) by auto
qed

end
