(* ===== verification/Benchmark_Rows.thy ===== *)
theory Benchmark_Rows
  imports Benchmark_Theorems Writer_Race_Samples
begin

text \<open>
  The row mode of the benchmark (\<open>RunRowParallelMode\<close> in src/bench/benchmark.cpp): threads that take row
  numbers from a shared counter, make the entries of the row and write them.  A step of a thread is an access to the counter,
  the arrival of its call of \<open>PutRowStructs\<close>, whose steps are those of Writer_Race, the return of the call, or the
  report of an error under the mutex.
\<close>

subsection \<open>The plan\<close>

definition row_count :: "BenchmarkOptions \<Rightarrow> u64 \<Rightarrow> u64 option" where
  "row_count opts objectCount =
     (if bo_rowEntries opts = 0 then None else Some ((objectCount + bo_rowEntries opts - 1) div bo_rowEntries opts))"

definition row_options :: "BenchmarkOptions \<Rightarrow> u64 \<Rightarrow> DatabaseOptions option" where
  "row_options opts rowCount =
     map_option (\<lambda>buckets. DatabaseOptions_default\<lparr>initialBucketCount := 16, initialRowBucketCount := buckets,
       rowShardCount := bo_shards opts\<rparr>) (planned_buckets rowCount)"

definition row_batch :: "BenchmarkOptions \<Rightarrow> u64 \<Rightarrow> u64 \<Rightarrow> RowStructEntry list" where
  "row_batch opts objectCount rowId =
     (let firstObject = rowId * bo_rowEntries opts;
          rowObjectCount = min (bo_rowEntries opts) (objectCount - firstObject)
      in map (\<lambda>entryIndex. \<lparr>re_key = KeyForIndex (firstObject + of_nat entryIndex),
              re_bytes = MakeFlatBufferPayload (bo_payloadSize opts) (firstObject + of_nat entryIndex)\<rparr>)
           [0..<unat rowObjectCount])"

subsection \<open>The threads\<close>

text \<open>Where a thread is, and what it shares with the others beside the store.\<close>

datatype worker = At_Loop | Prepared u64 | Writing nat | Reporting string | Ended

record driver =
  dr_store :: store
  dr_nextRow :: u64
  dr_errorMessage :: string
  dr_workers :: "worker list"

definition arrival :: "race \<Rightarrow> bytes \<Rightarrow> u64 \<Rightarrow> RowStructEntry list \<Rightarrow> writer" where
  "arrival r column rowId entries =
     \<lparr>w_column = column, w_rowId = rowId, w_entries = entries, w_reserve = True, w_call = None,
      w_stage = first_stage (race_db r) column entries True\<rparr>"

fun worker_step :: "BenchmarkOptions \<Rightarrow> u64 \<Rightarrow> u64 \<Rightarrow> driver \<Rightarrow> worker \<Rightarrow> (worker \<times> driver) option" where
  "worker_step opts objectCount rowCount d At_Loop =
     (let rowId = dr_nextRow d
      in Some (if \<not> rowId < rowCount then Ended else Prepared rowId, d\<lparr>dr_nextRow := rowId + 1\<rparr>))"
| "worker_step opts objectCount rowCount d (Prepared rowId) =
     (let s = dr_store d
      in Some (Writing (length (st_writers s)),
               d\<lparr>dr_store := s\<lparr>st_writers := st_writers s @
                   [arrival (st_race s) StructA rowId (row_batch opts objectCount rowId)]\<rparr>\<rparr>))"
| "worker_step opts objectCount rowCount d (Writing v) =
     (case w_stage (st_writers (dr_store d) ! v) of
        Returned rowStatus \<Rightarrow> Some (if \<not> IsOk rowStatus then Reporting (status_message rowStatus) else At_Loop, d)
      | _ \<Rightarrow> None)"
| "worker_step opts objectCount rowCount d (Reporting message) =
     Some (Ended, if dr_errorMessage d = '''' then d\<lparr>dr_errorMessage := message\<rparr> else d)"
| "worker_step opts objectCount rowCount d Ended = None"

text \<open>
  The second rule runs a step of a call in progress.  It also admits lookups by other threads, which
  the benchmark has none of.
\<close>

inductive driver_step :: "os \<Rightarrow> BenchmarkOptions \<Rightarrow> u64 \<Rightarrow> u64 \<Rightarrow> driver \<Rightarrow> driver \<Rightarrow> bool" for os opts objectCount rowCount where
  worker: "t < length (dr_workers d) \<Longrightarrow> worker_step opts objectCount rowCount d (dr_workers d ! t) = Some (w', d') \<Longrightarrow>
    driver_step os opts objectCount rowCount d (d'\<lparr>dr_workers := (dr_workers d)[t := w']\<rparr>)"
| inside: "store_step os (dr_store d) s' \<Longrightarrow> length (st_writers s') = length (st_writers (dr_store d)) \<Longrightarrow>
    driver_step os opts objectCount rowCount d (d\<lparr>dr_store := s'\<rparr>)"

inductive_cases driver_stepE: "driver_step os opts objectCount rowCount d d'"

text \<open>As for concurrent writers, the files have the sizes the program can hold.\<close>

definition driver_move :: "os \<Rightarrow> BenchmarkOptions \<Rightarrow> u64 \<Rightarrow> u64 \<Rightarrow> driver \<Rightarrow> driver \<Rightarrow> bool" where
  "driver_move os opts objectCount rowCount d d' \<longleftrightarrow>
     driver_step os opts objectCount rowCount d d' \<and> small_files (dr_store d')"

definition driver_start :: "BenchmarkOptions \<Rightarrow> Impl \<Rightarrow> driver" where
  "driver_start opts database =
     \<lparr>dr_store = \<lparr>st_race = \<lparr>race_db = database, race_threads = []\<rparr>, st_writers = []\<rparr>, dr_nextRow = 0,
      dr_errorMessage = '''', dr_workers = replicate (unat (bo_threads opts)) At_Loop\<rparr>"

definition driver_reachable :: "os \<Rightarrow> BenchmarkOptions \<Rightarrow> u64 \<Rightarrow> u64 \<Rightarrow> Impl \<Rightarrow> driver \<Rightarrow> bool" where
  "driver_reachable os opts objectCount rowCount database d \<longleftrightarrow>
     (driver_move os opts objectCount rowCount)\<^sup>*\<^sup>* (driver_start opts database) d"

text \<open>All threads have been joined.\<close>

definition joined :: "driver \<Rightarrow> bool" where
  "joined d \<longleftrightarrow> list_all (\<lambda>w. w = Ended) (dr_workers d)"

subsection \<open>The run\<close>

fun read_cells :: "os \<Rightarrow> Database \<Rightarrow> BenchmarkOptions \<Rightarrow> u64 \<Rightarrow> nat \<Rightarrow> generator \<Rightarrow> bytes \<Rightarrow> (failure + bytes) option" where
  "read_cells os database opts objectCount 0 g v = Some (Inr v)"
| "read_cells os database opts objectCount (Suc n) g v =
     (let (r, g') = mt_next g; objectIndex = r mod objectCount; rowId = objectIndex div bo_rowEntries opts
      in case Database_GetRowStruct os database StructA rowId (KeyForIndex objectIndex) of
          None \<Rightarrow> None
        | Some (Inl status) \<Rightarrow> Some (failed_with ''read'' status)
        | Some (Inr v') \<Rightarrow> read_cells os database opts objectCount n g' v')"

text \<open>Up to the start of the threads.\<close>

definition row_mode_open ::
  "os \<Rightarrow> fs \<Rightarrow> BenchmarkOptions \<Rightarrow> string \<Rightarrow> DatabaseOptions \<Rightarrow> (failure + fs \<times> Database) option" where
  "row_mode_open os fs opts runDirectory databaseOptions =
     (case fresh_directory os fs opts runDirectory of
        Inl e \<Rightarrow> Some (Inl e)
      | Inr fs' \<Rightarrow>
          (case Database_Open os fs' (Database_new fs') runDirectory databaseOptions of
             None \<Rightarrow> None
           | Some (status, database) \<Rightarrow>
               if \<not> IsOk status then Some (failed_with ''open'' status) else Some (Inr (fs', database))))"

text \<open>After the threads have been joined.\<close>

definition row_mode_finish ::
  "os \<Rightarrow> fs \<Rightarrow> BenchmarkOptions \<Rightarrow> u64 \<Rightarrow> string \<Rightarrow> DatabaseOptions \<Rightarrow> (nat \<Rightarrow> int) \<Rightarrow> driver \<Rightarrow>
     (failure + bytes \<times> (int \<times> int \<times> int) \<times> Database) option" where
  "row_mode_finish os fs opts objectCount runDirectory databaseOptions elapsed d =
     (if dr_errorMessage d \<noteq> '''' then Some (Inl (Exit (''write failed: '' @ dr_errorMessage d)))
      else read_phase os fs opts runDirectory databaseOptions
             (\<lambda>database. read_cells os database opts objectCount (unat (bo_readCount opts)) (mt_seed 42) [])
             elapsed (Some (race_db (st_race (dr_store d)))))"

text \<open>
  The outcomes that the interleavings of the threads admit.  \<open>None\<close> is undefined behaviour or a run that does not end: an open
  that hangs, or threads that have got to a state from which no continuation joins all of them, because one is stuck or
  can only go on for ever.  A run that such a continuation is open to at every moment, and that never takes one, is a
  scheduler that starves a thread; it is not counted as an outcome.
\<close>

inductive RunRowParallelMode ::
  "os \<Rightarrow> fs \<Rightarrow> BenchmarkOptions \<Rightarrow> double \<Rightarrow> (nat \<Rightarrow> int) \<Rightarrow>
     (failure + bytes \<times> (int \<times> int \<times> int) \<times> Database) option \<Rightarrow> bool" for os fs opts sizeGb elapsed where
  undefined_plan:
    "object_count opts sizeGb = None \<or> run_directory opts ''row-size-'' sizeGb = None \<Longrightarrow>
     RunRowParallelMode os fs opts sizeGb elapsed None"
| undefined_options:
    "object_count opts sizeGb = Some objectCount \<Longrightarrow> run_directory opts ''row-size-'' sizeGb = Some runDirectory \<Longrightarrow>
     Option.bind (row_count opts objectCount) (row_options opts) = None \<Longrightarrow>
     RunRowParallelMode os fs opts sizeGb elapsed None"
| undefined_open:
    "object_count opts sizeGb = Some objectCount \<Longrightarrow> run_directory opts ''row-size-'' sizeGb = Some runDirectory \<Longrightarrow>
     row_count opts objectCount = Some rowCount \<Longrightarrow> row_options opts rowCount = Some databaseOptions \<Longrightarrow>
     row_mode_open os fs opts runDirectory databaseOptions = None \<or>
       row_mode_open os fs opts runDirectory databaseOptions = Some (Inr (fs', None)) \<Longrightarrow>
     RunRowParallelMode os fs opts sizeGb elapsed None"
| not_opened:
    "object_count opts sizeGb = Some objectCount \<Longrightarrow> run_directory opts ''row-size-'' sizeGb = Some runDirectory \<Longrightarrow>
     row_count opts objectCount = Some rowCount \<Longrightarrow> row_options opts rowCount = Some databaseOptions \<Longrightarrow>
     row_mode_open os fs opts runDirectory databaseOptions = Some (Inl e) \<Longrightarrow>
     RunRowParallelMode os fs opts sizeGb elapsed (Some (Inl e))"
| never_joined:
    "object_count opts sizeGb = Some objectCount \<Longrightarrow> run_directory opts ''row-size-'' sizeGb = Some runDirectory \<Longrightarrow>
     row_count opts objectCount = Some rowCount \<Longrightarrow> row_options opts rowCount = Some databaseOptions \<Longrightarrow>
     row_mode_open os fs opts runDirectory databaseOptions = Some (Inr (fs', Some database)) \<Longrightarrow>
     driver_reachable os opts objectCount rowCount database d \<Longrightarrow>
     \<forall>d'. (driver_move os opts objectCount rowCount)\<^sup>*\<^sup>* d d' \<longrightarrow> \<not> joined d' \<Longrightarrow>
     RunRowParallelMode os fs opts sizeGb elapsed None"
| ran:
    "object_count opts sizeGb = Some objectCount \<Longrightarrow> run_directory opts ''row-size-'' sizeGb = Some runDirectory \<Longrightarrow>
     row_count opts objectCount = Some rowCount \<Longrightarrow> row_options opts rowCount = Some databaseOptions \<Longrightarrow>
     row_mode_open os fs opts runDirectory databaseOptions = Some (Inr (fs', Some database)) \<Longrightarrow>
     driver_reachable os opts objectCount rowCount database d \<Longrightarrow> joined d \<Longrightarrow>
     RunRowParallelMode os fs opts sizeGb elapsed
       (row_mode_finish os fs' opts objectCount runDirectory databaseOptions elapsed d)"

end
