(* ===== verification/Benchmark_Row_Theorems.thy ===== *)
theory Benchmark_Row_Theorems
  imports Benchmark_Rows
begin

text \<open>
  The threads of the row benchmark leave no row out: when they have been joined without an error message, the
  store holds every row of the plan with all of its entries.  An error never goes unnoticed, because
  every failed call carries a message.
\<close>

subsection \<open>Every error has a message\<close>

definition said :: "Status \<Rightarrow> bool" where
  "said status \<longleftrightarrow> IsOk status \<or> status_message status \<noteq> ''''"

fun stage_said :: "stage \<Rightarrow> bool" where
  "stage_said (Release_Slot status) = said status"
| "stage_said (Returned status) = said status"
| "stage_said _ = True"

lemma said_simps [simp]:
  "said Ok" "said (NotFound m) \<longleftrightarrow> m \<noteq> ''''" "said (InvalidArgument m) \<longleftrightarrow> m \<noteq> ''''" "said (IoError m) \<longleftrightarrow> m \<noteq> ''''"
  "said (Corruption m) \<longleftrightarrow> m \<noteq> ''''" "said (NotOpen m) \<longleftrightarrow> m \<noteq> ''''"
  by (simp_all add: said_def) (simp_all add: NotFound_def InvalidArgument_def IoError_def Corruption_def NotOpen_def)

lemma stage_said_leave [simp]: "stage_said (leave w status) \<longleftrightarrow> said status"
  by (simp add: leave_def)

lemma BuildRowBlockLayout_said:
  "BuildRowBlockLayout db column rowId entries sequence columnHash = Some (Inl status) \<Longrightarrow> said status"
  by (auto simp: BuildRowBlockLayout_def Let_def split: if_splits option.splits prod.splits)

lemma ErrnoMessage_nonempty: "ErrnoMessage call e \<noteq> ''''"
  by (simp add: ErrnoMessage_def)

lemma WriteVAllAt_said: "said (fst (WriteVAllAt os fs fd slices off))"
proof -
  have "said (fst (pwritev_loop replies n content vectors off'))" for replies n content vectors off'
  proof (induction replies n content vectors off' rule: pwritev_loop.induct)
    case (1 replies n content vectors off')
    then show ?case
      by (subst pwritev_loop.simps) (auto simp: ErrnoMessage_nonempty split: sys_result.splits prod.splits)
  qed
  then show ?thesis
    by (simp add: WriteVAllAt_def Let_def ErrnoMessage_nonempty split: option.split prod.split) (metis fst_conv)
qed

lemma first_stage_said: "stage_said (first_stage db column entries reserve)"
  by (simp add: first_stage_def)

lemma failed_said:
  assumes inv: "store_inv os db r0 s" and "reads_ok os" and "store_start db"
    and t: "t < length (race_threads (st_race s))" "snd (race_threads (st_race s) ! t) = Failed status"
  shows "said status"
proof -
  obtain K E where race: "race_inv (written db (race_threads (st_race s))) K E (st_race s)"
    by (rule store_inv_table [OF assms(2,3,1)])
  have "failure_ok (race_db (st_race s)) status" using race_invD(3) [OF race t(1)] by (simp add: t(2))
  then show ?thesis by (auto simp: failure_ok_def)
qed

lemma stage_step_said:
  assumes step: "stage_step os r w g = Some (w', r')" and g: "stage_said g"
    and failed: "\<And>t status. w_call w = Some t \<Longrightarrow> snd (race_threads r ! t) = Failed status \<Longrightarrow> said status"
  shows "stage_said (w_stage w') \<and> w_column w' = w_column w \<and> w_rowId w' = w_rowId w \<and> w_entries w' = w_entries w"
proof (cases g)
  case (Take_Sequence)
  then show ?thesis using step BuildRowBlockLayout_said
    by (auto simp: Let_def split: prod.splits option.splits sum.splits)
next
  case (Transfer_Block sequence layout blockOffset)
  let ?W = "WriteVAllAt os (filesys (race_db r)) (rowValueFiles (race_db r) ! unat (writer_shard (race_db r) w))
    (block_slices (w_column w) layout) blockOffset"
  have "said (fst ?W)" by (rule WriteVAllAt_said)
  then show ?thesis using step Transfer_Block by (auto simp: Let_def case_prod_beta split: if_splits)
next
  case Indexing
  then show ?thesis using step failed by (auto split: option.splits pc.splits)
qed (use step g in \<open>auto simp: Let_def split: if_splits\<close>)

lemma store_step_said:
  assumes inv: "store_inv os db r0 s" and "reads_ok os" and "store_start db"
    and step: "store_step os s s'" and said: "\<forall>w \<in> set (st_writers s). stage_said (w_stage w)"
  shows "\<forall>w \<in> set (st_writers s'). stage_said (w_stage w)"
  using step
proof cases
  case (advance v w' r')
  let ?w = "st_writers s ! v"
  have w: "?w \<in> set (st_writers s)" using advance(2) by simp
  have "writer_ok db (st_race s) ?w" by (rule store_invD(6) [OF inv w])
  then have "said status" if "w_call ?w = Some t" "snd (race_threads (st_race s) ! t) = Failed status" for t status
    using that failed_said [OF inv assms(2,3)] by (auto simp: writer_ok_def call_for_def)
  then have "stage_said (w_stage w')"
    using stage_step_said advance(3) said w unfolding writer_step_def by blast
  then show ?thesis using said set_update_subset_insert [of "st_writers s" v w'] by (auto simp: advance(1))
next
  case (spurious v pending)
  then show ?thesis using said set_update_subset_insert [of "st_writers s" v] by fastforce
qed (use said first_stage_said in auto)

lemma store_run_said:
  assumes os: "reads_ok os" and start: "store_start db" and run: "store_reachable os db s"
  shows "\<forall>w \<in> set (st_writers s). stage_said (w_stage w)"
proof -
  let ?s0 = "\<lparr>st_race = \<lparr>race_db = db, race_threads = []\<rparr>, st_writers = []\<rparr>"
  have "store_run os ?s0 s" using run by (simp add: store_reachable_def)
  then show ?thesis
  proof (induction rule: rtranclp_induct)
    case (step s1 s2)
    have "store_inv os db (st_race s1) s1" using step.hyps(1) by (intro store_reachable_inv [OF os start]) (simp add: store_reachable_def)
    then show ?case using store_step_said [OF _ os start] step.hyps(2) step.IH unfolding store_move_def by blast
  qed simp
qed

subsection \<open>What a step of the store leaves alone\<close>

lemma store_step_writers:
  assumes step: "store_step os s s'" and len: "length (st_writers s') = length (st_writers s)" and v: "v < length (st_writers s)"
  shows "w_column (st_writers s' ! v) = w_column (st_writers s ! v) \<and> w_rowId (st_writers s' ! v) = w_rowId (st_writers s ! v) \<and>
    w_entries (st_writers s' ! v) = w_entries (st_writers s ! v) \<and>
    (\<forall>status. w_stage (st_writers s ! v) = Returned status \<longrightarrow> w_stage (st_writers s' ! v) = Returned status)"
  using step
proof cases
  case (advance u w' r')
  have args: "w_column w' = w_column (st_writers s ! u) \<and> w_rowId w' = w_rowId (st_writers s ! u) \<and>
      w_entries w' = w_entries (st_writers s ! u)"
    using advance(3) unfolding writer_step_def
    by (cases "w_stage (st_writers s ! u)") (auto simp: Let_def split: if_splits prod.splits option.splits sum.splits pc.splits)
  have "w_stage (st_writers s ! u) \<noteq> Returned status" for status using advance(3) by (auto simp: writer_step_def)
  then show ?thesis using args advance(1) v by (cases "u = v") simp_all
next
  case (spurious u pending)
  then show ?thesis using v by (auto simp: nth_list_update)
qed (use len in auto)

subsection \<open>The invariant of the threads\<close>

text \<open>An error that has been met and not been forgotten.\<close>

definition errored :: "driver \<Rightarrow> bool" where
  "errored d \<longleftrightarrow> dr_errorMessage d \<noteq> '''' \<or> (\<exists>message. message \<noteq> '''' \<and> Reporting message \<in> set (dr_workers d))"

fun accounted :: "driver \<Rightarrow> nat \<Rightarrow> stage \<Rightarrow> bool" where
  "accounted d v (Returned status) \<longleftrightarrow> Writing v \<in> set (dr_workers d) \<or> IsOk status \<or> errored d"
| "accounted d v _ \<longleftrightarrow> Writing v \<in> set (dr_workers d)"

definition planned_write :: "BenchmarkOptions \<Rightarrow> u64 \<Rightarrow> u64 \<Rightarrow> writer \<Rightarrow> bool" where
  "planned_write opts objectCount rowCount w \<longleftrightarrow>
     w_column w = StructA \<and> w_rowId w < rowCount \<and> w_entries w = row_batch opts objectCount (w_rowId w)"

definition driver_inv :: "os \<Rightarrow> BenchmarkOptions \<Rightarrow> u64 \<Rightarrow> u64 \<Rightarrow> Impl \<Rightarrow> driver \<Rightarrow> bool" where
  "driver_inv os opts objectCount rowCount db d \<longleftrightarrow>
     store_reachable os db (dr_store d) \<and> length (dr_workers d) = unat (bo_threads opts) \<and>
     (\<forall>w \<in> set (st_writers (dr_store d)). planned_write opts objectCount rowCount w) \<and>
     (\<forall>rowId. Prepared rowId \<in> set (dr_workers d) \<longrightarrow> rowId < rowCount) \<and>
     (\<forall>rowId < rowCount. rowId < dr_nextRow d \<longrightarrow>
        Prepared rowId \<in> set (dr_workers d) \<or> (\<exists>w \<in> set (st_writers (dr_store d)). w_rowId w = rowId)) \<and>
     (\<forall>v < length (st_writers (dr_store d)). accounted d v (w_stage (st_writers (dr_store d) ! v))) \<and>
     (\<forall>v. Writing v \<in> set (dr_workers d) \<longrightarrow> v < length (st_writers (dr_store d))) \<and>
     (\<forall>message. Reporting message \<in> set (dr_workers d) \<longrightarrow> message \<noteq> '''') \<and>
     (Ended \<in> set (dr_workers d) \<longrightarrow> errored d \<or> rowCount \<le> dr_nextRow d) \<and>
     unat (dr_nextRow d) \<le> unat rowCount + length (filter (\<lambda>w. w = Ended) (dr_workers d))"

lemma driver_invD:
  assumes "driver_inv os opts objectCount rowCount db d"
  shows "store_reachable os db (dr_store d)" "length (dr_workers d) = unat (bo_threads opts)"
    "\<And>w. w \<in> set (st_writers (dr_store d)) \<Longrightarrow> planned_write opts objectCount rowCount w"
    "\<And>rowId. Prepared rowId \<in> set (dr_workers d) \<Longrightarrow> rowId < rowCount"
    "\<And>rowId. rowId < rowCount \<Longrightarrow> rowId < dr_nextRow d \<Longrightarrow>
       Prepared rowId \<in> set (dr_workers d) \<or> (\<exists>w \<in> set (st_writers (dr_store d)). w_rowId w = rowId)"
    "\<And>v. v < length (st_writers (dr_store d)) \<Longrightarrow> accounted d v (w_stage (st_writers (dr_store d) ! v))"
    "\<And>v. Writing v \<in> set (dr_workers d) \<Longrightarrow> v < length (st_writers (dr_store d))"
    "\<And>message. Reporting message \<in> set (dr_workers d) \<Longrightarrow> message \<noteq> ''''"
    "Ended \<in> set (dr_workers d) \<Longrightarrow> errored d \<or> rowCount \<le> dr_nextRow d"
    "unat (dr_nextRow d) \<le> unat rowCount + length (filter (\<lambda>w. w = Ended) (dr_workers d))"
  using assms unfolding driver_inv_def by blast+

lemma update_keeps:
  assumes "t < length xs" and "x \<in> set xs" and "x \<noteq> xs ! t"
  shows "x \<in> set (xs[t := y])"
  using assms by (metis in_set_conv_nth length_list_update nth_list_update_neq)

lemma update_cases: "x \<in> set (xs[t := y]) \<Longrightarrow> x = y \<or> x \<in> set xs"
  using set_update_subset_insert by fastforce

lemma accounted_mono:
  assumes "accounted d v g" and "Writing v \<in> set (dr_workers d) \<Longrightarrow> Writing v \<in> set (dr_workers d')" and "errored d \<Longrightarrow> errored d'"
  shows "accounted d' v g"
  using assms by (cases g) auto

text \<open>One lemma for each of the four steps of a thread, and one for the calls in progress.\<close>

lemma worker_takes:
  assumes inv: "driver_inv os opts objectCount rowCount db d" and t: "t < length (dr_workers d)" "dr_workers d ! t = At_Loop"
    and small: "unat rowCount < 2 ^ 63"
  shows "driver_inv os opts objectCount rowCount db
    (d\<lparr>dr_nextRow := dr_nextRow d + 1,
       dr_workers := (dr_workers d)[t := if \<not> dr_nextRow d < rowCount then Ended else Prepared (dr_nextRow d)]\<rparr>)"
    (is "driver_inv _ _ _ _ _ ?d")
proof -
  note D = driver_invD [OF inv]
  let ?x = "if \<not> dr_nextRow d < rowCount then Ended else Prepared (dr_nextRow d)"
  have keep: "x \<in> set (dr_workers ?d)" if "x \<in> set (dr_workers d)" "x \<noteq> At_Loop" for x
    using update_keeps [OF t(1) that(1)] that(2) t(2) by simp
  have new: "?x \<in> set (dr_workers ?d)" using t(1) by (simp add: set_update_memI)
  have err: "errored d \<Longrightarrow> errored ?d" using keep unfolding errored_def by auto
  have ended: "length (filter (\<lambda>w. w = Ended) (dr_workers ?d)) =
      length (filter (\<lambda>w. w = Ended) (dr_workers d)) + (if dr_nextRow d < rowCount then 0 else 1)"
    using length_filter_update [OF t(1), of "\<lambda>w. w = Ended" ?x] t(2) by simp
  have "length (filter (\<lambda>w. w = Ended) (dr_workers d)) \<le> unat (bo_threads opts)" using D(2) by (metis length_filter_le)
  also have "\<dots> < 2 ^ 32" using unat_bound32 [of "bo_threads opts"] by simp
  finally have un: "unat (dr_nextRow d + 1) = unat (dr_nextRow d) + 1"
    using D(10) small unat_add64 [of "dr_nextRow d" 1] by simp
  show ?thesis
    unfolding driver_inv_def
  proof (intro conjI allI impI ballI)
    fix rowId assume r: "rowId < rowCount" "rowId < dr_nextRow ?d"
    show "Prepared rowId \<in> set (dr_workers ?d) \<or> (\<exists>w \<in> set (st_writers (dr_store ?d)). w_rowId w = rowId)"
    proof (cases "rowId < dr_nextRow d")
      case True
      then show ?thesis using D(5) [OF r(1)] keep by auto
    next
      case False
      then have "rowId = dr_nextRow d" using r(2) un by (simp add: word_less_nat_alt word_unat_eq_iff)
      then show ?thesis using new r(1) by simp
    qed
  next
    fix v assume "v < length (st_writers (dr_store ?d))"
    then show "accounted ?d v (w_stage (st_writers (dr_store ?d) ! v))"
      using accounted_mono [OF D(6) keep err] by simp
  next
    assume "Ended \<in> set (dr_workers ?d)"
    then have "?x = Ended \<or> Ended \<in> set (dr_workers d)" using update_cases by fastforce
    then show "errored ?d \<or> rowCount \<le> dr_nextRow ?d"
      using D(9) err un by (auto simp: word_less_nat_alt word_le_nat_alt split: if_splits)
  next
    show "unat (dr_nextRow ?d) \<le> unat rowCount + length (filter (\<lambda>w. w = Ended) (dr_workers ?d))"
      using ended un D(10) by (auto simp: word_less_nat_alt)
  qed (use D update_cases in \<open>(fastforce split: if_splits)+\<close>)
qed

lemma worker_calls:
  assumes inv: "driver_inv os opts objectCount rowCount db d" and t: "t < length (dr_workers d)" "dr_workers d ! t = Prepared rowId"
    and run: "store_reachable os db s'"
    and s': "s' = (dr_store d)\<lparr>st_writers := st_writers (dr_store d) @
      [arrival (st_race (dr_store d)) StructA rowId (row_batch opts objectCount rowId)]\<rparr>"
  shows "driver_inv os opts objectCount rowCount db
    (d\<lparr>dr_store := s', dr_workers := (dr_workers d)[t := Writing (length (st_writers (dr_store d)))]\<rparr>)"
    (is "driver_inv _ _ _ _ _ ?d")
proof -
  note D = driver_invD [OF inv]
  let ?n = "length (st_writers (dr_store d))"
  have keep: "x \<in> set (dr_workers ?d)" if "x \<in> set (dr_workers d)" "x \<noteq> Prepared rowId" for x
    using update_keeps [OF t(1) that(1)] that(2) t(2) by simp
  have new: "Writing ?n \<in> set (dr_workers ?d)" using t(1) by (simp add: set_update_memI)
  have err: "errored d \<Longrightarrow> errored ?d" using keep unfolding errored_def by auto
  have mem: "Prepared rowId \<in> set (dr_workers d)" using nth_mem [OF t(1)] t(2) by simp
  have ws: "st_writers s' = st_writers (dr_store d) @
      [arrival (st_race (dr_store d)) StructA rowId (row_batch opts objectCount rowId)]" by (simp add: s')
  show ?thesis
    unfolding driver_inv_def
  proof (intro conjI allI impI ballI)
    show "store_reachable os db (dr_store ?d)" using run by simp
    fix w assume "w \<in> set (st_writers (dr_store ?d))"
    then show "planned_write opts objectCount rowCount w"
      using D(3) D(4) [OF mem] by (auto simp: ws planned_write_def arrival_def)
  next
    fix r assume "r < rowCount" "r < dr_nextRow ?d"
    then show "Prepared r \<in> set (dr_workers ?d) \<or> (\<exists>w \<in> set (st_writers (dr_store ?d)). w_rowId w = r)"
      using D(5) [of r] keep by (cases "r = rowId") (auto simp: ws arrival_def)
  next
    fix v assume v: "v < length (st_writers (dr_store ?d))"
    show "accounted ?d v (w_stage (st_writers (dr_store ?d) ! v))"
    proof (cases "v = ?n")
      case True
      have "accounted ?d ?n g" for g using new by (cases g) simp_all
      then show ?thesis using True by blast
    next
      case False
      then have "v < ?n" using v by (simp add: ws)
      then show ?thesis using accounted_mono [OF D(6) keep err] by (simp add: ws nth_append)
    qed
  next
    fix v assume "Writing v \<in> set (dr_workers ?d)"
    then show "v < length (st_writers (dr_store ?d))" using D(7) [of v] update_cases by (fastforce simp: ws)
  next
    assume "Ended \<in> set (dr_workers ?d)"
    then have "Ended \<in> set (dr_workers d)" using update_cases by fastforce
    then show "errored ?d \<or> rowCount \<le> dr_nextRow ?d" using D(9) err by auto
  next
    have "length (filter (\<lambda>w. w = Ended) (dr_workers ?d)) = length (filter (\<lambda>w. w = Ended) (dr_workers d))"
      using length_filter_update [OF t(1), of "\<lambda>w. w = Ended"] t(2) by simp
    then show "unat (dr_nextRow ?d) \<le> unat rowCount + length (filter (\<lambda>w. w = Ended) (dr_workers ?d))" using D(10) by simp
  qed (use D update_cases in fastforce)+
qed

lemma worker_returns:
  assumes inv: "driver_inv os opts objectCount rowCount db d" and t: "t < length (dr_workers d)" "dr_workers d ! t = Writing v"
    and st: "w_stage (st_writers (dr_store d) ! v) = Returned status" and said: "said status"
  shows "driver_inv os opts objectCount rowCount db
    (d\<lparr>dr_workers := (dr_workers d)[t := if \<not> IsOk status then Reporting (status_message status) else At_Loop]\<rparr>)"
    (is "driver_inv _ _ _ _ _ ?d")
proof -
  note D = driver_invD [OF inv]
  let ?x = "if \<not> IsOk status then Reporting (status_message status) else At_Loop"
  have keep: "x \<in> set (dr_workers ?d)" if "x \<in> set (dr_workers d)" "x \<noteq> Writing v" for x
    using update_keeps [OF t(1) that(1)] that(2) t(2) by simp
  have new: "?x \<in> set (dr_workers ?d)" using t(1) by (simp add: set_update_memI)
  have err: "errored d \<Longrightarrow> errored ?d" using keep unfolding errored_def by auto
  have failed: "IsOk status \<or> errored ?d" using new said unfolding errored_def said_def by (auto split: if_splits)
  show ?thesis
    unfolding driver_inv_def
  proof (intro conjI allI impI ballI)
    fix r assume "r < rowCount" "r < dr_nextRow ?d"
    then show "Prepared r \<in> set (dr_workers ?d) \<or> (\<exists>w \<in> set (st_writers (dr_store ?d)). w_rowId w = r)"
      using D(5) [of r] keep by auto
  next
    fix u assume u: "u < length (st_writers (dr_store ?d))"
    show "accounted ?d u (w_stage (st_writers (dr_store ?d) ! u))"
    proof (cases "u = v")
      case False
      then show ?thesis using accounted_mono [OF D(6) keep err] u by simp
    qed (use st failed in simp)
  next
    fix u assume "Writing u \<in> set (dr_workers ?d)"
    then show "u < length (st_writers (dr_store ?d))" using D(7) [of u] update_cases by (fastforce split: if_splits)
  next
    fix message assume "Reporting message \<in> set (dr_workers ?d)"
    then have "?x = Reporting message \<or> Reporting message \<in> set (dr_workers d)" using update_cases by fastforce
    then show "message \<noteq> ''''" using D(8) said by (auto simp: said_def split: if_splits)
  next
    assume "Ended \<in> set (dr_workers ?d)"
    then have "Ended \<in> set (dr_workers d)" using update_cases by (fastforce split: if_splits)
    then show "errored ?d \<or> rowCount \<le> dr_nextRow ?d" using D(9) err by auto
  next
    have "length (filter (\<lambda>w. w = Ended) (dr_workers ?d)) = length (filter (\<lambda>w. w = Ended) (dr_workers d))"
      using length_filter_update [OF t(1), of "\<lambda>w. w = Ended"] t(2) by simp
    then show "unat (dr_nextRow ?d) \<le> unat rowCount + length (filter (\<lambda>w. w = Ended) (dr_workers ?d))" using D(10) by simp
  next
    fix r assume "Prepared r \<in> set (dr_workers ?d)"
    then show "r < rowCount" using D(4) [of r] update_cases by (fastforce split: if_splits)
  qed (use D in simp_all)
qed

lemma worker_reports:
  assumes inv: "driver_inv os opts objectCount rowCount db d" and t: "t < length (dr_workers d)" "dr_workers d ! t = Reporting message"
  shows "driver_inv os opts objectCount rowCount db
    (d\<lparr>dr_errorMessage := if dr_errorMessage d = '''' then message else dr_errorMessage d, dr_workers := (dr_workers d)[t := Ended]\<rparr>)"
    (is "driver_inv _ _ _ _ _ ?d")
proof -
  note D = driver_invD [OF inv]
  have keep: "x \<in> set (dr_workers ?d)" if "x \<in> set (dr_workers d)" "x \<noteq> Reporting message" for x
    using update_keeps [OF t(1) that(1)] that(2) t(2) by simp
  have "message \<noteq> ''''" using D(8) nth_mem [OF t(1)] t(2) by simp
  then have err: "errored ?d" by (simp add: errored_def)
  show ?thesis
    unfolding driver_inv_def
  proof (intro conjI allI impI ballI)
    fix r assume "r < rowCount" "r < dr_nextRow ?d"
    then show "Prepared r \<in> set (dr_workers ?d) \<or> (\<exists>w \<in> set (st_writers (dr_store ?d)). w_rowId w = r)"
      using D(5) [of r] keep by auto
  next
    fix u assume "u < length (st_writers (dr_store ?d))"
    then show "accounted ?d u (w_stage (st_writers (dr_store ?d) ! u))" using accounted_mono [OF D(6) keep err] by simp
  next
    have "length (filter (\<lambda>w. w = Ended) (dr_workers ?d)) = length (filter (\<lambda>w. w = Ended) (dr_workers d)) + 1"
      using length_filter_update [OF t(1), of "\<lambda>w. w = Ended"] t(2) by simp
    then show "unat (dr_nextRow ?d) \<le> unat rowCount + length (filter (\<lambda>w. w = Ended) (dr_workers ?d))" using D(10) by simp
  next
    fix u assume "Writing u \<in> set (dr_workers ?d)"
    then show "u < length (st_writers (dr_store ?d))" using D(7) [of u] update_cases by fastforce
  next
    fix m assume "Reporting m \<in> set (dr_workers ?d)"
    then show "m \<noteq> ''''" using D(8) [of m] update_cases by fastforce
  next
    fix r assume "Prepared r \<in> set (dr_workers ?d)"
    then show "r < rowCount" using D(4) [of r] update_cases by fastforce
  qed (use D err in simp_all)
qed

lemma inside_keeps:
  assumes inv: "driver_inv os opts objectCount rowCount db d" and step: "store_step os (dr_store d) s'"
    and len: "length (st_writers s') = length (st_writers (dr_store d))" and run: "store_reachable os db s'"
  shows "driver_inv os opts objectCount rowCount db (d\<lparr>dr_store := s'\<rparr>)"
    (is "driver_inv _ _ _ _ _ ?d")
proof -
  note D = driver_invD [OF inv] and W = store_step_writers [OF step len]
  let ?ws = "st_writers (dr_store d)"
  have err: "errored ?d = errored d" by (simp add: errored_def)
  show ?thesis
    unfolding driver_inv_def
  proof (intro conjI allI impI ballI)
    fix w assume "w \<in> set (st_writers (dr_store ?d))"
    then obtain v where v: "v < length ?ws" "w = st_writers s' ! v" using len by (auto simp: in_set_conv_nth)
    then show "planned_write opts objectCount rowCount w"
      using D(3) [of "?ws ! v"] W [of v] by (simp add: planned_write_def)
  next
    fix r assume "r < rowCount" "r < dr_nextRow ?d"
    then consider "Prepared r \<in> set (dr_workers d)" | v where "v < length ?ws" "w_rowId (?ws ! v) = r"
      using D(5) [of r] by (auto simp: in_set_conv_nth)
    then show "Prepared r \<in> set (dr_workers ?d) \<or> (\<exists>w \<in> set (st_writers (dr_store ?d)). w_rowId w = r)"
    proof cases
      case 2
      then have "st_writers s' ! v \<in> set (st_writers s')" "w_rowId (st_writers s' ! v) = r" using W [of v] len by simp_all
      then show ?thesis by auto
    qed simp
  next
    fix v assume "v < length (st_writers (dr_store ?d))"
    then have v: "v < length ?ws" using len by simp
    show "accounted ?d v (w_stage (st_writers (dr_store ?d) ! v))"
    proof (cases "Writing v \<in> set (dr_workers d)")
      case True
      then have "accounted ?d v g" for g by (cases g) simp_all
      then show ?thesis by blast
    next
      case False
      then obtain status where "w_stage (?ws ! v) = Returned status" "IsOk status \<or> errored d"
        using D(6) [OF v] by (cases "w_stage (?ws ! v)") auto
      then show ?thesis using W [OF v] err by auto
    qed
  qed (use D run err len in simp_all)
qed

lemma driver_move_keeps:
  assumes os: "reads_ok os" and start: "store_start db" and inv: "driver_inv os opts objectCount rowCount db d"
    and fits: "\<And>rowId. rowId < rowCount \<Longrightarrow> call_fits db StructA (row_batch opts objectCount rowId)"
    and small: "unat rowCount < 2 ^ 63" and move: "driver_move os opts objectCount rowCount d d'"
  shows "driver_inv os opts objectCount rowCount db d'"
proof -
  note D = driver_invD [OF inv]
  note S = store_reachable_inv [OF os start D(1)]
  have step: "driver_step os opts objectCount rowCount d d'" and files: "small_files (dr_store d')"
    using move by (simp_all add: driver_move_def)
  have extend: "store_reachable os db s'" if "store_step os (dr_store d) s'" "small_files s'" for s'
    using D(1) that unfolding store_reachable_def by (auto intro: rtranclp.rtrancl_into_rtrancl simp: store_move_def)
  from step show ?thesis
  proof cases
    case (worker t w' e)
    have mem: "dr_workers d ! t \<in> set (dr_workers d)" using worker(2) by simp
    show ?thesis
    proof (cases "dr_workers d ! t")
      case At_Loop
      then show ?thesis using worker_takes [OF inv worker(2) At_Loop small] worker(1,3) by (simp add: Let_def)
    next
      case (Prepared rowId)
      let ?s = "(dr_store d)\<lparr>st_writers := st_writers (dr_store d) @
        [arrival (st_race (dr_store d)) StructA rowId (row_batch opts objectCount rowId)]\<rparr>"
      have d': "d' = d\<lparr>dr_store := ?s, dr_workers := (dr_workers d)[t := Writing (length (st_writers (dr_store d)))]\<rparr>"
        using worker(1,3) Prepared by (auto simp: Let_def)
      have "options (race_db (st_race (dr_store d))) = options db" using store_invD(2) [OF S] by (simp add: frame_ok_def)
      then have "call_fits (race_db (st_race (dr_store d))) StructA (row_batch opts objectCount rowId)"
        using fits [OF D(4) [of rowId]] mem Prepared by (simp add: call_fits_def)
      then have "store_step os (dr_store d) ?s" unfolding arrival_def by (rule store_step.call) simp
      then have "store_reachable os db ?s" using extend files d' by simp
      from worker_calls [OF inv worker(2) Prepared this refl] show ?thesis unfolding d' .
    next
      case (Writing v)
      then obtain status where st: "w_stage (st_writers (dr_store d) ! v) = Returned status"
        using worker(3) by (auto split: stage.splits)
      have "st_writers (dr_store d) ! v \<in> set (st_writers (dr_store d))" using D(7) [of v] mem Writing by simp
      then have "said status" using store_run_said [OF os start D(1)] st by fastforce
      from worker_returns [OF inv worker(2) Writing st this] show ?thesis using worker(1,3) Writing st by simp
    next
      case (Reporting message)
      from worker_reports [OF inv worker(2) this] show ?thesis using worker(1,3) Reporting by (auto split: if_splits)
    next
      case Ended
      then show ?thesis using worker(3) by simp
    qed
  next
    case (inside s')
    then show ?thesis using inside_keeps [OF inv inside(2,3) extend [OF inside(2)]] files by simp
  qed
qed

subsection \<open>The rows of the plan\<close>

text \<open>The payloads and keys of a row fit a block.\<close>

definition row_run_fits :: "Impl \<Rightarrow> BenchmarkOptions \<Rightarrow> u64 \<Rightarrow> bool" where
  "row_run_fits db opts objectCount \<longleftrightarrow>
     unat objectCount < 2 ^ 40 \<and> unat (bo_rowEntries opts) < 2 ^ 32 \<and>
     unat (bo_rowEntries opts) * (unat (bo_payloadSize opts) + 24) < 2 ^ 60 \<and>
     (case maxLoadFactor (options db) of
        Fin f \<Rightarrow> 0 < f \<and> f < 1 \<and> rat_of_nat (unat (bo_rowEntries opts)) \<le> f * (2 ^ 31 - 1)
      | _ \<Rightarrow> False)"

lemma row_batch_length: "length (row_batch opts objectCount rowId) \<le> unat (bo_rowEntries opts)"
  by (simp add: row_batch_def Let_def) (metis min.cobounded1 word_le_nat_alt)

lemma row_batch_sizes:
  "\<forall>e \<in> set (row_batch opts objectCount rowId). length (re_key e) \<le> 24 \<and> length (re_bytes e) = unat (bo_payloadSize opts)"
  by (auto simp: row_batch_def Let_def length_KeyForIndex length_MakeFlatBufferPayload)

lemma entries_total:
  "\<forall>e \<in> set es. length (re_key e) \<le> 24 \<and> length (re_bytes e) = n \<Longrightarrow>
   key_bytes_total es + length (values_of es) \<le> length es * (n + 24)"
  by (induction es) (auto simp: key_bytes_total_def values_of_def)

lemma row_batch_fits:
  assumes "row_run_fits db opts objectCount"
  shows "call_fits db StructA (row_batch opts objectCount rowId)"
proof -
  let ?es = "row_batch opts objectCount rowId"
  obtain f where f: "maxLoadFactor (options db) = Fin f" "0 < f" "f < 1" "rat_of_nat (unat (bo_rowEntries opts)) \<le> f * (2 ^ 31 - 1)"
    using assms by (auto simp: row_run_fits_def split: double.splits)
  have "length ?es * (unat (bo_payloadSize opts) + 24) \<le> unat (bo_rowEntries opts) * (unat (bo_payloadSize opts) + 24)"
    using row_batch_length by (rule mult_le_mono1)
  also have "\<dots> < 2 ^ 60" using assms by (simp add: row_run_fits_def)
  finally have "key_bytes_total ?es + length (values_of ?es) < 2 ^ 60"
    using entries_total [OF row_batch_sizes, of opts objectCount rowId] by linarith
  moreover have "rat_of_nat (length ?es) \<le> f * (2 ^ 31 - 1)"
    by (rule order_trans [OF _ f(4)]) (simp only: of_nat_le_iff row_batch_length)
  moreover have "length StructA = 7" by (simp add: StructA_def text_bytes_def)
  ultimately show ?thesis using f(1-3) by (simp add: call_fits_def row_fits_def)
qed

lemma row_map_lookup:
  assumes "distinct (map re_key es)" and "e \<in> set es"
  shows "row_map es (re_key e) = Some (re_bytes e)"
  using assms
proof (induction es rule: rev_induct)
  case (snoc x es)
  have "re_key x \<noteq> re_key e" if "e \<in> set es" using snoc.prems(1) that by auto
  then show ?case using snoc by (auto simp: row_map_snoc)
qed simp

text \<open>Each object is a cell of the row its number selects.\<close>

lemma object_in_row:
  assumes i: "i < objectCount" and e: "0 < bo_rowEntries opts"
    and fits: "unat objectCount < 2 ^ 40" "unat (bo_rowEntries opts) < 2 ^ 32"
    and rowCount: "row_count opts objectCount = Some rowCount"
  shows "i div bo_rowEntries opts < rowCount"
    and "row_map (row_batch opts objectCount (i div bo_rowEntries opts)) (KeyForIndex i) =
      Some (MakeFlatBufferPayload (bo_payloadSize opts) i)"
proof -
  let ?e = "bo_rowEntries opts" and ?n = objectCount
  have pos: "0 < unat ?e" "unat i < unat ?n" using e i by (simp_all add: word_less_nat_alt)
  have add: "unat (?n + ?e - 1) = unat ?n + unat ?e - 1"
  proof -
    have "unat (?n + ?e) = unat ?n + unat ?e" using fits by (intro unat_add64) simp
    then show ?thesis using pos by (simp add: unat_sub_if_size word_size)
  qed
  have "rowCount = (?n + ?e - 1) div ?e" using rowCount e by (simp add: row_count_def split: if_splits)
  then have rc: "unat rowCount = (unat ?n + unat ?e - 1) div unat ?e" by (simp add: unat_div add)
  have "unat i div unat ?e < (unat ?n + unat ?e - 1) div unat ?e"
  proof -
    have "unat i + unat ?e \<le> unat ?n + unat ?e - 1" using pos by simp
    then have "(unat i + unat ?e) div unat ?e \<le> (unat ?n + unat ?e - 1) div unat ?e" by (rule div_le_mono)
    then show ?thesis using pos(1) by simp
  qed
  then show "i div ?e < rowCount" by (simp add: word_less_nat_alt unat_div rc)
  define k where "k = unat i mod unat ?e"
  define first where "first = (i div ?e) * ?e"
  have first: "unat first = unat i - k"
  proof -
    have "unat (i div ?e) * unat ?e = unat i - k" by (simp add: k_def unat_div minus_mod_eq_div_mult [symmetric])
    moreover have "unat i - k < 18446744073709551616" by (rule order_le_less_trans [OF diff_le_self unat_bound64])
    ultimately show ?thesis unfolding first_def by (subst unat_mult64) simp_all
  qed
  have k: "k < unat ?e" "k \<le> unat i" using pos(1) by (simp_all add: k_def)
  have sub: "unat (?n - first) = unat ?n - (unat i - k)" using pos(2) first by (simp add: unat_sub_if_size word_size)
  have bound: "k < unat (min ?e (?n - first))" using k pos(2) sub by (auto simp: min_def)
  have at: "first + of_nat k = i"
  proof -
    have "unat (first + of_nat k) = unat i" using first k unat_bound64 [of i] by (subst unat_add_of_nat64) simp_all
    then show ?thesis by (simp add: word_unat_eq_iff)
  qed
  let ?entry = "\<lambda>j. \<lparr>re_key = KeyForIndex (first + of_nat j), re_bytes = MakeFlatBufferPayload (bo_payloadSize opts) (first + of_nat j)\<rparr>"
  have es: "row_batch opts ?n (i div ?e) = map ?entry [0..<unat (min ?e (?n - first))]"
    by (simp add: row_batch_def Let_def first_def)
  define N where "N = unat (min ?e (?n - first))"
  have N: "N < 2 ^ 64" using unat_bound64 [of "min ?e (?n - first)"] by (simp add: N_def)
  have "inj_on (\<lambda>j. KeyForIndex (first + of_nat j)) {0..<N}"
  proof (rule inj_onI)
    fix x y assume "x \<in> {0..<N}" "y \<in> {0..<N}" "KeyForIndex (first + of_nat x) = KeyForIndex (first + of_nat y)"
    then have "(of_nat x :: u64) = of_nat y" "x < 2 ^ 64" "y < 2 ^ 64" using N by (simp_all add: KeyForIndex_inject)
    then show "x = y" by (simp only: of_nat_inject64)
  qed
  then have "distinct (map re_key (map ?entry [0..<unat (min ?e (?n - first))]))"
    by (simp add: distinct_map comp_def N_def)
  moreover have "?entry k \<in> set (map ?entry [0..<unat (min ?e (?n - first))])" using bound by auto
  ultimately have "row_map (row_batch opts ?n (i div ?e)) (re_key (?entry k)) = Some (re_bytes (?entry k))"
    unfolding es by (rule row_map_lookup)
  then show "row_map (row_batch opts ?n (i div ?e)) (KeyForIndex i) = Some (MakeFlatBufferPayload (bo_payloadSize opts) i)"
    by (simp add: at)
qed

subsection \<open>When the threads have been joined\<close>

lemma driver_start_inv:
  assumes "store_start db"
  shows "driver_inv os opts objectCount rowCount db (driver_start opts db)"
  by (simp add: driver_inv_def driver_start_def store_reachable_def)

lemma driver_reachable_inv:
  assumes os: "reads_ok os" and start: "store_start db" and fits: "row_run_fits db opts objectCount"
    and small: "unat rowCount < 2 ^ 63" and run: "driver_reachable os opts objectCount rowCount db d"
  shows "driver_inv os opts objectCount rowCount db d"
  using run unfolding driver_reachable_def
proof (induction rule: rtranclp_induct)
  case base
  show ?case by (rule driver_start_inv [OF start])
next
  case (step d1 d2)
  show ?case by (rule driver_move_keeps [OF os start step.IH row_batch_fits [OF fits] small step.hyps(2)])
qed

lemma joined_rows:
  assumes os: "reads_ok os" and start: "store_start db" and inv: "driver_inv os opts objectCount rowCount db d"
    and threads: "0 < bo_threads opts" and joined: "joined d" and no_error: "dr_errorMessage d = ''''"
  shows "rows (race_db (st_race (dr_store d))) = (\<lambda>(column, rowId).
      if column = StructA \<and> rowId < rowCount then Some (row_map (row_batch opts objectCount rowId)) else rows db (column, rowId))"
    and "rowPendingInsertCount (race_db (st_race (dr_store d))) = 0"
proof -
  note D = driver_invD [OF inv]
  let ?s = "dr_store d"
  have ended: "w = Ended" if "w \<in> set (dr_workers d)" for w using joined that by (simp add: joined_def list_all_iff)
  have "\<not> errored d" using no_error ended unfolding errored_def by blast
  moreover have "0 < length (dr_workers d)" using D(2) threads by (simp add: word_less_nat_alt)
  then have "dr_workers d ! 0 \<in> set (dr_workers d)" by (rule nth_mem)
  then have "Ended \<in> set (dr_workers d)" using ended by metis
  ultimately have all: "rowCount \<le> dr_nextRow d" and err: "\<not> errored d" using D(9) by simp_all
  have returned: "returned_ok (w_stage w)" if w: "w \<in> set (st_writers ?s)" for w
  proof -
    obtain v where v: "v < length (st_writers ?s)" "w = st_writers ?s ! v" using w by (auto simp: in_set_conv_nth)
    have "Writing v \<notin> set (dr_workers d)" using ended by blast
    then show ?thesis using D(6) [OF v(1)] v(2) err by (cases "w_stage w") simp_all
  qed
  then have "\<forall>w \<in> set (st_writers ?s). \<exists>st. w_stage w = Returned st" by (metis returned_ok.elims(2))
  note R = returned_rows [OF os start D(1) this]
  then show "rowPendingInsertCount (race_db (st_race ?s)) = 0" by blast
  have rows: "if \<exists>w. succeeded ?s k w then \<exists>w. succeeded ?s k w \<and> rows (race_db (st_race ?s)) k = Some (row_map (w_entries w))
      else rows (race_db (st_race ?s)) k = rows db k" for k
    using R by blast
  have planned: "column = StructA \<and> rowId < rowCount \<and> w_entries w = row_batch opts objectCount rowId"
    if "succeeded ?s (column, rowId) w" for column rowId w
    using that D(3) [of w] by (auto simp: succeeded_def planned_write_def)
  have written: "\<exists>w. succeeded ?s (StructA, rowId) w" if r: "rowId < rowCount" for rowId
  proof -
    have "rowId < dr_nextRow d" using r all by (rule less_le_trans)
    then obtain w where "w \<in> set (st_writers ?s)" "w_rowId w = rowId" using D(5) [OF r] ended by blast
    then show ?thesis using returned D(3) by (auto simp: succeeded_def planned_write_def)
  qed
  show "rows (race_db (st_race ?s)) = (\<lambda>(column, rowId).
      if column = StructA \<and> rowId < rowCount then Some (row_map (row_batch opts objectCount rowId)) else rows db (column, rowId))"
  proof (rule ext, clarify)
    fix column rowId
    show "rows (race_db (st_race ?s)) (column, rowId) = (if column = StructA \<and> rowId < rowCount
        then Some (row_map (row_batch opts objectCount rowId)) else rows db (column, rowId))"
    proof (cases "column = StructA \<and> rowId < rowCount")
      case True
      then have "\<exists>w. succeeded ?s (column, rowId) w" using written by blast
      with rows [of "(column, rowId)"] obtain w where "succeeded ?s (column, rowId) w"
        "rows (race_db (st_race ?s)) (column, rowId) = Some (row_map (w_entries w))" by (simp only: if_True) blast
      then show ?thesis using planned [of column rowId w] True by simp
    next
      case False
      then have "\<not> (\<exists>w. succeeded ?s (column, rowId) w)" using planned by blast
      then have "rows (race_db (st_race ?s)) (column, rowId) = rows db (column, rowId)"
        using rows [of "(column, rowId)"] by (simp only: if_False)
      then show ?thesis using False by (simp only: if_False)
    qed
  qed
qed

text \<open>C32. The threads of the row benchmark lose nothing: whatever their interleaving, when all of them have been
  joined and no error message was left, the store holds exactly the rows of the plan beside the rows it had, each with
  all of its entries; so every object of the benchmark is the cell of its row that the reading loop asks for, and no
  slot of the index is left reserved.\<close>

theorem row_benchmark_writes_all_rows:
  assumes "reads_ok os" and "store_start db" and "row_run_fits db opts objectCount"
    and "0 < bo_threads opts" and "row_count opts objectCount = Some rowCount"
    and "driver_reachable os opts objectCount rowCount db d" and "joined d" and "dr_errorMessage d = ''''"
  shows "rows (race_db (st_race (dr_store d))) = (\<lambda>(column, rowId).
      if column = StructA \<and> rowId < rowCount then Some (row_map (row_batch opts objectCount rowId)) else rows db (column, rowId)) \<and>
    (\<forall>i < objectCount. \<exists>row. rows (race_db (st_race (dr_store d))) (StructA, i div bo_rowEntries opts) = Some row \<and>
       row (KeyForIndex i) = Some (MakeFlatBufferPayload (bo_payloadSize opts) i)) \<and>
    rowPendingInsertCount (race_db (st_race (dr_store d))) = 0"
proof -
  have e: "0 < bo_rowEntries opts" using assms(5) by (simp add: row_count_def word_neq_0_conv split: if_splits)
  have fits: "unat objectCount < 2 ^ 40" "unat (bo_rowEntries opts) < 2 ^ 32" using assms(3) by (simp_all add: row_run_fits_def)
  have small: "unat rowCount < 2 ^ 63"
  proof -
    have "unat (objectCount + bo_rowEntries opts - 1) < 2 ^ 63"
    proof -
      have "unat (objectCount + bo_rowEntries opts) = unat objectCount + unat (bo_rowEntries opts)"
        using fits by (intro unat_add64) simp
      moreover have "0 < unat (bo_rowEntries opts)" using e by (simp add: word_less_nat_alt)
      ultimately show ?thesis using fits by (simp add: unat_sub_if_size word_size)
    qed
    moreover have "unat rowCount \<le> unat (objectCount + bo_rowEntries opts - 1)"
      using assms(5) by (auto simp: row_count_def unat_div split: if_splits)
    ultimately show ?thesis by simp
  qed
  note inv = driver_reachable_inv [OF assms(1-3) small assms(6)]
  note J = joined_rows [OF assms(1,2) inv assms(4,7,8)]
  show ?thesis unfolding J using object_in_row [OF _ e fits assms(5)] by auto
qed

subsection \<open>A run of one thread\<close>

lemma store_step_length: "store_step os s s' \<Longrightarrow> length (st_writers s) \<le> length (st_writers s')"
  by (erule store_stepE) simp_all

lemma driver_runs_call:
  assumes "store_run os s s'" and "length (st_writers s') = length (st_writers s)"
  shows "(driver_move os opts objectCount rowCount)\<^sup>*\<^sup>* (d\<lparr>dr_store := s\<rparr>) (d\<lparr>dr_store := s'\<rparr>)"
proof -
  have mono: "length (st_writers s) \<le> length (st_writers s1)" if "store_run os s s1" for s1
    using that by (induction rule: rtranclp_induct) (auto simp: store_move_def dest!: store_step_length)
  show ?thesis using assms
  proof (induction rule: rtranclp_induct)
    case (step s1 s2)
    have m: "store_step os s1 s2" "small_files s2" using step.hyps(2) by (simp_all add: store_move_def)
    have len: "length (st_writers s1) = length (st_writers s)" "length (st_writers s2) = length (st_writers s1)"
      using mono [OF step.hyps(1)] store_step_length [OF m(1)] step.prems by simp_all
    have "driver_step os opts objectCount rowCount (d\<lparr>dr_store := s1\<rparr>) ((d\<lparr>dr_store := s1\<rparr>)\<lparr>dr_store := s2\<rparr>)"
      by (rule driver_step.inside) (use m len in simp_all)
    then have "driver_move os opts objectCount rowCount (d\<lparr>dr_store := s1\<rparr>) (d\<lparr>dr_store := s2\<rparr>)"
      using m(2) by (simp add: driver_move_def)
    with step.IH [OF len(1)] show ?case by (rule rtranclp.rtrancl_into_rtrancl)
  qed simp
qed

lemma empty_rows_vacant:
  assumes "rows db = (\<lambda>_. None)"
  shows "\<forall>b \<in> set (RowBuckets db). vacant_row b"
proof (rule ccontr)
  assume "\<not> ?thesis"
  then obtain b where "b \<in> set (occupied vacant_row (RowBuckets db))" by (auto simp: set_occupied)
  moreover have "rows db (row_bucket_key (shards_of db) b) = None" using assms by simp
  ultimately show False unfolding rows_def rows_map_def table_map_None by blast
qed

text \<open>The call of the only thread runs from its arrival to its return.\<close>

lemma only_call:
  assumes os: "reads_ok os" "writes_ok os" and start: "store_start db" and empty: "rows db = (\<lambda>_. None)"
    and f: "maxLoadFactor (options db) = Fin f" and ef: "row_fits f StructA [e]" "length (re_key e) + length (re_bytes e) \<le> 900"
    and offs: "\<forall>off \<in> set (rowAppendOffsets db). unat off = 24" and free: "\<not> slot_refused db (rih_itemCount (RowIndexHeader db)) 0"
    and buckets: "1 < length (RowBuckets db)"
  defines "w \<equiv> arrival \<lparr>race_db = db, race_threads = []\<rparr> StructA 0 [e]"
  obtains s where "store_run os \<lparr>st_race = \<lparr>race_db = db, race_threads = []\<rparr>, st_writers = [w]\<rparr> s"
    "map w_stage (st_writers s) = [Returned Ok]" "small_files \<lparr>st_race = \<lparr>race_db = db, race_threads = []\<rparr>, st_writers = [w]\<rparr>"
proof -
  let ?db1 = "db\<lparr>rowPendingInsertCount := 1\<rparr>"
  have ok: "row_ok db" using start by (simp add: store_start_def)
  have pending: "rowPendingInsertCount db = 0" using ok by (simp add: row_ok_def)
  have short: "short_shards db" using offs by simp
  have op: "opened db" "\<not> readOnly db" using ok by (simp_all add: row_ok_def row_core_ok_def)
  have w: "w_column w = StructA" "w_rowId w = 0" "w_entries w = [e]" "w_reserve w" "w_call w = None"
    "w\<lparr>w_stage := Load_Items\<rparr> = w"
    using op by (simp_all add: w_def arrival_def first_stage_def FitsUint32_def StructA_def text_bytes_def)
  let ?lone = "\<lambda>db. lone db [] ([], []) w"
  have arrived: "?lone db Load_Items = \<lparr>st_race = \<lparr>race_db = db, race_threads = []\<rparr>, st_writers = [w]\<rparr>" by (simp add: w(6))
  let ?s0 = "\<lparr>st_race = \<lparr>race_db = db, race_threads = []\<rparr>, st_writers = []\<rparr>"
  have fits: "call_fits db StructA [e]" using f ef(1) by (simp add: call_fits_def)
  have "store_step os ?s0 (?lone db Load_Items)"
    using store_step.call [of ?s0 StructA "[e]" True 0 os] fits unfolding arrived by (simp add: w_def arrival_def)
  then have reach0: "store_reachable os db (?lone db Load_Items)"
    using short unfolding store_reachable_def by (intro r_into_rtranclp [of "store_move os"]) (simp add: store_move_def small_files_def)
  have "ReserveRowIndexInsertSlot db = (Ok, ?db1)"
    using free pending by (simp add: ReserveRowIndexInsertSlot_def slot_refused_def Let_def)
  from lone_reserve [OF this short, of os "[]" "([], [])" w]
  have run1: "store_run os (?lone db Load_Items) (?lone ?db1 Take_Sequence)" by simp
  then have reach1: "store_reachable os db (?lone ?db1 Take_Sequence)"
    using reach0 unfolding store_reachable_def by (meson rtranclp_trans)
  have core: "row_core_ok ?db1" using ok by (simp add: row_ok_def row_core_ok_pending)
  have wf: "row_write_fits ?db1 StructA [e]" using f ef(1) short by (simp add: row_write_fits_def)
  have "occupied vacant_row (RowBuckets db) = []" using empty_rows_vacant [OF empty] by (simp add: occupied_def)
  then have room: "length (occupied vacant_row (RowBuckets ?db1)) + 1 < length (RowBuckets ?db1)" using buckets by (simp add: RowBuckets_def)
  obtain st d where d: "append_row os ?db1 StructA 0 [e] = Some (st, d)" "st = Ok"
    using append_row_ok [OF os(1) core wf, of 0] room os(2) by fastforce
  have "\<forall>off \<in> set (rowAppendOffsets d). unat off < 2 ^ 37 + 2 ^ 37"
    by (rule append_row_short [OF _ ef(1) d(1)]) (use f ef(2) offs in \<open>simp_all add: StructA_def text_bytes_def\<close>)
  then have short2: "short_shards d" by force
  have "\<exists>ts' call. (\<forall>x \<in> set ts'. finished (snd x)) \<and> store_run os (?lone ?db1 Take_Sequence)
    (lone (if w_reserve w then ReleaseRowIndexInsertSlot d else d) ([] @ ts') ([], []) (w\<lparr>w_call := call\<rparr>) (Returned st))"
    by (rule lone_append [OF os(1) start store_reachable_inv [OF os(1) start reach1]])
      (use w d short short2 in \<open>simp_all add: idle_def\<close>)
  then obtain ts' call where run2: "store_run os (?lone ?db1 Take_Sequence)
      (lone (ReleaseRowIndexInsertSlot d) ts' ([], []) (w\<lparr>w_call := call\<rparr>) (Returned Ok))"
    using w(4) d(2) by auto
  from rtranclp_trans [OF run1 run2]
  have "store_run os \<lparr>st_race = \<lparr>race_db = db, race_threads = []\<rparr>, st_writers = [w]\<rparr>
      (lone (ReleaseRowIndexInsertSlot d) ts' ([], []) (w\<lparr>w_call := call\<rparr>) (Returned Ok))"
    unfolding arrived .
  from that [OF this] short show ?thesis by (simp add: small_files_def)
qed

lemma only_thread:
  assumes os: "reads_ok os" "writes_ok os" and start: "store_start db" and empty: "rows db = (\<lambda>_. None)"
    and f: "maxLoadFactor (options db) = Fin f" and ef: "row_fits f StructA [e]" "length (re_key e) + length (re_bytes e) \<le> 900"
    and offs: "\<forall>off \<in> set (rowAppendOffsets db). unat off = 24" and free: "\<not> slot_refused db (rih_itemCount (RowIndexHeader db)) 0"
    and buckets: "1 < length (RowBuckets db)"
    and plan: "unat (bo_threads opts) = 1" "row_batch opts n 0 = [e]"
  obtains d where "driver_reachable os opts n 1 db d" "joined d" "dr_errorMessage d = ''''"
proof -
  let ?M = "driver_move os opts n 1"
  let ?w = "arrival \<lparr>race_db = db, race_threads = []\<rparr> StructA 0 [e]"
  let ?s0 = "\<lparr>st_race = \<lparr>race_db = db, race_threads = []\<rparr>, st_writers = []\<rparr>"
  let ?s1 = "\<lparr>st_race = \<lparr>race_db = db, race_threads = []\<rparr>, st_writers = [?w]\<rparr>"
  obtain s where s: "store_run os ?s1 s" "map w_stage (st_writers s) = [Returned Ok]" "small_files ?s1"
    by (rule only_call [OF os start empty f ef offs free buckets])
  let ?d = "\<lambda>s n w. \<lparr>dr_store = s, dr_nextRow = n, dr_errorMessage = '''', dr_workers = [w]\<rparr>"
  have small: "small_files ?s0" "small_files ?s1" using s(3) by (simp_all add: small_files_def)
  have small2: "small_files s" using s(1) small(2) by (induction rule: rtranclp_induct) (simp_all add: store_move_def)
  have move: "?M (?d s1 m w) (?d s2 m' w')"
    if "worker_step opts n 1 (?d s1 m w) w = Some (w', ?d s2 m' w)" "small_files s2" for s1 s2 m m' w w'
    using driver_step.worker [of 0 "?d s1 m w" opts n 1 w' "?d s2 m' w" os] that by (simp add: driver_move_def)
  have begins: "driver_start opts db = ?d ?s0 0 At_Loop" using plan(1) by (simp add: driver_start_def)
  have "?M (?d ?s0 0 At_Loop) (?d ?s0 1 (Prepared 0))" by (rule move) (use small in simp_all)
  moreover have "?M (?d ?s0 1 (Prepared 0)) (?d ?s1 1 (Writing 0))" by (rule move) (use small plan(2) in simp_all)
  moreover have "?M\<^sup>*\<^sup>* (?d ?s1 1 (Writing 0)) (?d s 1 (Writing 0))"
    using driver_runs_call [OF s(1), of opts n 1 "?d ?s1 1 (Writing 0)"] s(2) by (auto simp: map_eq_Cons_conv)
  moreover have "w_stage (st_writers s ! 0) = Returned Ok" using s(2) by (cases "st_writers s") simp_all
  then have "?M (?d s 1 (Writing 0)) (?d s 1 At_Loop)" by (intro move) (use small2 in simp_all)
  moreover have "?M (?d s 1 At_Loop) (?d s 2 Ended)" by (rule move) (use small2 in simp_all)
  ultimately have "?M\<^sup>*\<^sup>* (?d ?s0 0 At_Loop) (?d s 2 Ended)"
    by (meson converse_rtranclp_into_rtranclp rtranclp.rtrancl_into_rtrancl)
  then have "driver_reachable os opts n 1 db (?d s 2 Ended)" by (simp only: driver_reachable_def begins)
  then show ?thesis by (rule that) (simp_all add: joined_def)
qed

definition small_bench :: BenchmarkOptions where
  "small_bench = (BenchmarkOptions_default ''/tmp'' 1)\<lparr>bo_payloadSize := 1, bo_rowEntries := 1, bo_threads := 1\<rparr>"

definition only_entry :: RowStructEntry where
  "only_entry = \<lparr>re_key = KeyForIndex 0, re_bytes = MakeFlatBufferPayload 1 0\<rparr>"

lemma small_bench_plan:
  "row_count small_bench 1 = Some 1" "row_batch small_bench 1 0 = [only_entry]" "unat (bo_threads small_bench) = 1"
  "0 < bo_threads small_bench" "row_run_fits one_row_db small_bench 1" "row_fits (1 / 16) StructA [only_entry]"
proof -
  show "row_count small_bench 1 = Some 1" by (simp add: row_count_def small_bench_def)
  show "row_batch small_bench 1 0 = [only_entry]" by (simp add: row_batch_def small_bench_def only_entry_def)
  show "unat (bo_threads small_bench) = 1" "0 < bo_threads small_bench" by (simp_all add: small_bench_def)
  show fits: "row_run_fits one_row_db small_bench 1" using one_row_flags(1) by (simp add: row_run_fits_def small_bench_def)
  show "row_fits (1 / 16) StructA [only_entry]"
    using row_batch_fits [OF fits, of 0] one_row_flags(1) \<open>row_batch small_bench 1 0 = [only_entry]\<close> by (simp add: call_fits_def)
qed

lemma small_bench_runs:
  obtains d where "driver_reachable choppy_os small_bench 1 1 one_row_db d" "joined d" "dr_errorMessage d = ''''"
proof -
  have empty: "rows one_row_db = (\<lambda>_. None)" and load: "maxLoadFactor (options one_row_db) = Fin (1 / 16)"
    by (simp_all add: one_row_flags)
  show ?thesis
  proof (rule only_thread [OF choppy_reads one_row_start empty load small_bench_plan(6)])
    note H = slots_header [of 1]
    show "\<not> slot_refused one_row_db (rih_itemCount (RowIndexHeader one_row_db)) 0"
      using slots_refused [OF slots_flags(1) H(1), of 0 0 0] H(2) by simp
    have "row_ok one_row_db" using one_row_start by (simp add: store_start_def)
    from row_items(2) [OF this H(1)] show "1 < length (RowBuckets one_row_db)" by simp
  qed (use that small_bench_plan(2,3) in
      \<open>simp_all add: one_row_flags only_entry_def length_MakeFlatBufferPayload KeyForIndex_def text_bytes_def decimal.simps\<close>)
qed

lemma row_benchmark_writes_all_rows_witness:
  "\<exists>d row. driver_reachable choppy_os small_bench 1 1 one_row_db d \<and> joined d \<and>
    rows (race_db (st_race (dr_store d))) (StructA, 0) = Some row \<and> row (KeyForIndex 0) = Some (MakeFlatBufferPayload 1 0)"
proof -
  obtain d where d: "driver_reachable choppy_os small_bench 1 1 one_row_db d" "joined d" "dr_errorMessage d = ''''"
    by (rule small_bench_runs)
  note all = row_benchmark_writes_all_rows [OF choppy_reads(1) one_row_start small_bench_plan(5,4,1) d]
  have "\<exists>row. rows (race_db (st_race (dr_store d))) (StructA, 0 div bo_rowEntries small_bench) = Some row \<and>
      row (KeyForIndex 0) = Some (MakeFlatBufferPayload (bo_payloadSize small_bench) 0)"
    using conjunct1 [OF conjunct2 [OF all]] by (rule allE [where x = 0]) simp
  then show ?thesis using d by (auto simp: small_bench_def)
qed

end
