(* ===== verification/Writer_Race_Progress.thy ===== *)
theory Writer_Race_Progress
  imports Writer_Race_Alone
begin

text \<open>
  Progress of concurrent row writers: from every state they can reach, all calls in progress can return, as long as
  the shard files have room for the blocks that are still to be appended.
\<close>

subsection \<open>The index calls in progress finish\<close>

definition all_finished :: "store \<Rightarrow> bool" where
  "all_finished s \<longleftrightarrow> (\<forall>x \<in> set (race_threads (st_race s)). finished (snd x))"

lemma thread_step_pending:
  "thread_step os job db pc = (pc', db') \<Longrightarrow> rowPendingInsertCount db' = rowPendingInsertCount db"
  using thread_step_writes [of os job db pc pc' db'] by (auto simp: set_RowBucket_def)

lemma store_solo:
  assumes "t < length (race_threads (st_race s))" and "race_threads (st_race s) ! t = (job, pc)"
    and "solo os job n (pc, race_db (st_race s)) = (pc', db')" and "small_files s"
  shows "store_run os s (s\<lparr>st_race := \<lparr>race_db = db', race_threads = (race_threads (st_race s))[t := (job, pc')]\<rparr>\<rparr>) \<and>
    rowAppendOffsets db' = rowAppendOffsets (race_db (st_race s)) \<and>
    rowPendingInsertCount db' = rowPendingInsertCount (race_db (st_race s))"
  using assms
proof (induction n arbitrary: s pc)
  case 0
  then have "(race_threads (st_race s))[t := (job, pc')] = race_threads (st_race s)" by (metis list_update_id solo.simps(1) prod.inject)
  then show ?case using 0 by (cases s; cases "st_race s") simp
next
  case (Suc n)
  show ?case
  proof (cases "finished pc")
    case True
    then have "(race_threads (st_race s))[t := (job, pc')] = race_threads (st_race s)"
      using Suc.prems by (metis list_update_id solo_finished prod.inject)
    then show ?thesis using Suc.prems True by (cases s; cases "st_race s") simp
  next
    case False
    obtain pc1 db1 where step: "thread_step os job (race_db (st_race s)) pc = (pc1, db1)" by fastforce
    note keep = thread_step_offsets [OF step] thread_step_pending [OF step]
    let ?s = "s\<lparr>st_race := \<lparr>race_db = db1, race_threads = (race_threads (st_race s))[t := (job, pc1)]\<rparr>\<rparr>"
    have small: "small_files ?s" using Suc.prems(4) keep by (simp add: small_files_def)
    have "store_move os s ?s"
      using store_step.index [OF Suc.prems(1,2) False step] small by (simp add: store_move_def)
    moreover have "store_run os ?s (?s\<lparr>st_race := \<lparr>race_db = db', race_threads = (race_threads (st_race ?s))[t := (job, pc')]\<rparr>\<rparr>) \<and>
        rowAppendOffsets db' = rowAppendOffsets (race_db (st_race ?s)) \<and>
        rowPendingInsertCount db' = rowPendingInsertCount (race_db (st_race ?s))"
      by (rule Suc.IH) (use Suc.prems False step small in simp_all)
    ultimately show ?thesis using keep converse_rtranclp_into_rtranclp [of "store_move os" s ?s] by simp
  qed
qed

lemma finish_threads:
  assumes os: "reads_ok os" and start: "store_start db"
  shows "store_reachable os db s \<Longrightarrow> small_files s \<Longrightarrow>
    \<exists>s'. store_run os s s' \<and> st_writers s' = st_writers s \<and> all_finished s' \<and>
      rowAppendOffsets (race_db (st_race s')) = rowAppendOffsets (race_db (st_race s)) \<and>
      rowPendingInsertCount (race_db (st_race s')) = rowPendingInsertCount (race_db (st_race s))"
proof (induction "unfinished (st_race s)" arbitrary: s)
  case 0
  then have "all_finished s" by (simp add: unfinished_def filter_empty_conv all_finished_def)
  then show ?case by blast
next
  case (Suc n)
  obtain K E where inv: "race_inv (written db (race_threads (st_race s))) K E (st_race s)"
    by (rule store_inv_table [OF os start store_reachable_inv [OF os start Suc.prems(1)]])
  obtain x where "x \<in> set (race_threads (st_race s))" "\<not> finished (snd x)"
    using Suc.hyps(2) unfolding unfinished_def by (metis (no_types, lifting) filter_empty_conv length_0_conv nat.distinct(1))
  then obtain t where "t < length (race_threads (st_race s))" "\<not> finished (snd (race_threads (st_race s) ! t))" by (auto simp: in_set_conv_nth)
  from some_thread_finishes [OF os inv this] obtain u n' where u: "u < length (race_threads (st_race s))"
      "\<not> finished (snd (race_threads (st_race s) ! u))"
      "finished (fst (solo os (fst (race_threads (st_race s) ! u)) n' (snd (race_threads (st_race s) ! u), race_db (st_race s))))"
    unfolding finishes_def by blast
  obtain job pc where th: "race_threads (st_race s) ! u = (job, pc)" by fastforce
  obtain pc' db' where run: "solo os job n' (pc, race_db (st_race s)) = (pc', db')" by fastforce
  let ?s = "s\<lparr>st_race := \<lparr>race_db = db', race_threads = (race_threads (st_race s))[u := (job, pc')]\<rparr>\<rparr>"
  note moves = store_solo [OF u(1) th run Suc.prems(2)]
  have "unfinished (st_race s) = Suc (unfinished (st_race ?s))"
    using length_filter_update [OF u(1), of "\<lambda>x. \<not> finished (snd x)" "(job, pc')"] u(2,3) th run
    by (simp add: unfinished_def)
  then have n: "n = unfinished (st_race ?s)" using Suc.hyps(2) by simp
  have "store_reachable os db ?s" using Suc.prems(1) moves unfolding store_reachable_def by (meson rtranclp_trans)
  moreover have "small_files ?s" using Suc.prems(2) moves by (simp add: small_files_def)
  ultimately obtain s' where "store_run os ?s s'" "st_writers s' = st_writers ?s" "all_finished s'"
      "rowAppendOffsets (race_db (st_race s')) = rowAppendOffsets (race_db (st_race ?s))"
      "rowPendingInsertCount (race_db (st_race s')) = rowPendingInsertCount (race_db (st_race ?s))"
    using Suc.hyps(1) [OF n] by blast
  then show ?case using moves rtranclp_trans [of "store_move os" s ?s s'] by auto
qed

subsection \<open>Only lookups find\<close>

definition insertions_insert :: "store \<Rightarrow> bool" where
  "insertions_insert s \<longleftrightarrow> (\<forall>x \<in> set (race_threads (st_race s)). \<forall>r. inserts (fst x) \<longrightarrow> snd x \<noteq> Found r)"

lemma thread_step_insert:
  assumes "thread_step os job db pc = (pc', db')" and "inserts job" and "\<forall>r. pc \<noteq> Found r"
  shows "pc' \<noteq> Found r"
  using assms
  by (cases "(os, job, db, pc)" rule: thread_step.cases)
    (auto simp: Let_def on_empty_def on_match_def probe_from_def split: if_splits sum.splits option.splits job.splits)

lemma stage_step_threads:
  assumes "stage_step os r w g = Some (w', r')"
  shows "race_threads r' = race_threads r \<or> (\<exists>c d n. race_threads r' = race_threads r @ [(Insert c d, probe_from n 0)])"
  using assms by (cases g) (auto simp: Let_def split: if_splits option.splits sum.splits prod.splits pc.splits)

lemma reachable_insertions:
  assumes "store_reachable os db s"
  shows "insertions_insert s"
  using assms unfolding store_reachable_def
proof (induction rule: rtranclp_induct)
  case (step s1 s2)
  have "store_step os s1 s2" using step.hyps(2) by (simp add: store_move_def)
  then show ?case
  proof cases
    case (index t job pc pc' db')
    have "pc' \<noteq> Found r" if "inserts job" for r
    proof (rule thread_step_insert [OF index(5) that])
      have "(job, pc) \<in> set (race_threads (st_race s1))" using index(2,3) by (metis nth_mem)
      then show "\<forall>r. pc \<noteq> Found r" using step.IH that by (force simp: insertions_insert_def)
    qed
    then show ?thesis
      using step.IH set_update_subset_insert [of "race_threads (st_race s1)" t "(job, pc')"]
      unfolding index(1) insertions_insert_def by fastforce
  next
    case (advance v w' r')
    from stage_step_threads [OF advance(3) [unfolded writer_step_def]] show ?thesis
    proof (elim disjE exE)
      fix c d n assume "race_threads r' = race_threads (st_race s1) @ [(Insert c d, probe_from n 0)]"
      moreover have "probe_from n 0 \<noteq> Found r" for r by (simp add: probe_from_def)
      ultimately show ?thesis using step.IH by (auto simp: insertions_insert_def advance(1))
    qed (use step.IH in \<open>simp add: insertions_insert_def advance(1)\<close>)
  qed (use step.IH in \<open>auto simp: insertions_insert_def\<close>)
qed (simp add: insertions_insert_def)

subsection \<open>Room for the blocks to come\<close>

definition block_bound :: "writer \<Rightarrow> nat" where
  "block_bound w = 72 + 48 * 2 ^ 31 + length (w_column w) + key_bytes_total (w_entries w) + length (values_of (w_entries w))"

fun to_append :: "stage \<Rightarrow> bool" where
  "to_append Load_Items = True"
| "to_append (Load_Pending itemCount) = True"
| "to_append (Exchange pending) = True"
| "to_append Take_Sequence = True"
| "to_append (Append_Block sequence layout) = True"
| "to_append _ = False"

text \<open>Every shard has room for \<open>b\<close> bytes for each block that has no place yet, below the offset \<open>n\<close>.\<close>

definition with_room :: "nat \<Rightarrow> nat \<Rightarrow> store \<Rightarrow> bool" where
  "with_room b n s \<longleftrightarrow>
     (\<forall>w \<in> set (st_writers s). block_bound w \<le> b \<and> (\<forall>q L. w_stage w = Append_Block q L \<longrightarrow> layout_size (w_column w) L \<le> b)) \<and>
     (\<forall>off \<in> set (rowAppendOffsets (race_db (st_race s))).
        unat off + b * length (filter (\<lambda>w. to_append (w_stage w)) (st_writers s)) \<le> n)"

lemma with_room_small: "with_room b n s \<Longrightarrow> n < 2 ^ 62 \<Longrightarrow> small_files s"
  by (fastforce simp: with_room_def small_files_def)

lemma to_append_leave [simp]: "\<not> to_append (leave w st)"
  by (simp add: leave_def)

lemma stage_step_data:
  assumes "stage_step os r w g = Some (w', r')"
  shows "block_bound w' = block_bound w" "w_column w' = w_column w" "w_rowId w' = w_rowId w" "w_entries w' = w_entries w"
  using assms
  by (cases g; auto simp: block_bound_def Let_def split: if_splits option.splits sum.splits prod.splits pc.splits)+

lemma filter_update_le:
  assumes "v < length ws" and "P w' \<longrightarrow> P (ws ! v)"
  shows "length (filter P (ws[v := w'])) \<le> length (filter P ws)"
    and "P (ws ! v) \<Longrightarrow> \<not> P w' \<Longrightarrow> Suc (length (filter P (ws[v := w']))) \<le> length (filter P ws)"
  using length_filter_update [OF assms(1), of P w'] assms(2) by (auto split: if_splits)

lemma with_room_update:
  assumes room: "with_room b n s" and v: "v < length (st_writers s)"
    and w': "block_bound w' = block_bound (st_writers s ! v)" "w_column w' = w_column (st_writers s ! v)"
      "to_append (w_stage w') \<longrightarrow> to_append (w_stage (st_writers s ! v))"
    and size: "\<And>q L. w_stage w' = Append_Block q L \<Longrightarrow> layout_size (w_column w') L \<le> b"
    and offs: "rowAppendOffsets (race_db r') = rowAppendOffsets (race_db (st_race s))"
  shows "with_room b n \<lparr>st_race = r', st_writers = (st_writers s)[v := w']\<rparr>"
proof -
  have here: "st_writers s ! v \<in> set (st_writers s)" using v by simp
  have "length (filter (\<lambda>w. to_append (w_stage w)) ((st_writers s)[v := w'])) \<le> length (filter (\<lambda>w. to_append (w_stage w)) (st_writers s))"
    by (rule filter_update_le(1) [OF v w'(3)])
  then have le: "b * length (filter (\<lambda>w. to_append (w_stage w)) ((st_writers s)[v := w'])) \<le> b * length (filter (\<lambda>w. to_append (w_stage w)) (st_writers s))"
    by (rule mult_le_mono2)
  have "unat off + b * length (filter (\<lambda>w. to_append (w_stage w)) ((st_writers s)[v := w'])) \<le> n"
    if "off \<in> set (rowAppendOffsets (race_db (st_race s)))" for off
  proof -
    have "unat off + b * length (filter (\<lambda>w. to_append (w_stage w)) (st_writers s)) \<le> n" using room that by (simp add: with_room_def)
    then show ?thesis using le by linarith
  qed
  moreover have "block_bound w \<le> b \<and> (\<forall>q L. w_stage w = Append_Block q L \<longrightarrow> layout_size (w_column w) L \<le> b)"
    if "w \<in> set ((st_writers s)[v := w'])" for w
  proof (cases "w = w'")
    case True
    then show ?thesis using room here w'(1) size by (simp add: with_room_def)
  next
    case False
    then have "w \<in> set (st_writers s)" using that set_update_subset_insert [of "st_writers s" v w'] by blast
    then show ?thesis using room by (simp add: with_room_def)
  qed
  ultimately show ?thesis using offs by (simp add: with_room_def)
qed

lemma with_room_advance:
  assumes os: "reads_ok os" and start: "store_start db" and inv: "store_inv os db r0 s" and room: "with_room b n s" "n < 2 ^ 62"
    and v: "v < length (st_writers s)" and step: "writer_step os (st_race s) (st_writers s ! v) = Some (w', r')"
  shows "with_room b n \<lparr>st_race = r', st_writers = (st_writers s)[v := w']\<rparr>"
proof -
  let ?w = "st_writers s ! v" and ?r = "st_race s"
  have here: "?w \<in> set (st_writers s)" using v by simp
  have ok: "writer_ok db ?r ?w" by (rule store_invD(6) [OF inv here])
  have frame: "frame_ok db (race_db ?r)" by (rule store_invD(2) [OF inv])
  have st: "stage_step os ?r ?w (w_stage ?w) = Some (w', r')" using step by (simp add: writer_step_def)
  note data = stage_step_data [OF st]
  note update = with_room_update [OF room(1) v data(1,2)]
  show ?thesis
  proof (cases "w_stage ?w")
    case Take_Sequence
    let ?h = "RowIndexHeader (race_db ?r)"
    let ?db = "set_RowIndexHeader (?h\<lparr>rih_nextSequence := rih_nextSequence ?h + 1\<rparr>) (race_db ?r)"
    have opts: "options ?db = options db" using frame by (simp add: frame_ok_def set_RowIndexHeader_def)
    obtain f where f: "maxLoadFactor (options ?db) = Fin f" "row_fits f (w_column ?w) (w_entries ?w)"
      using ok unfolding opts by (auto simp: writer_ok_def call_fits_def split: double.splits)
    obtain L where L: "BuildRowBlockLayout ?db (w_column ?w) (w_rowId ?w) (w_entries ?w) (rih_nextSequence ?h) (HashString (w_column ?w)) = Some (Inr L)"
      "layout_size (w_column ?w) L \<le> block_bound ?w"
      unfolding block_bound_def by (rule BuildRowBlockLayout_sized [OF f])
    have w': "w' = ?w\<lparr>w_stage := Append_Block (rih_nextSequence ?h) L\<rparr>" "race_db r' = ?db"
      using st Take_Sequence L(1) by (auto simp: NextRowSequence_def Let_def)
    have "layout_size (w_column ?w) L \<le> b" using L(2) room(1) here by (auto simp: with_room_def)
    then show ?thesis by (intro update) (use w' Take_Sequence in \<open>simp_all add: set_RowIndexHeader_def\<close>)
  next
    case (Append_Block q L)
    let ?P = "\<lambda>w. to_append (w_stage w)" and ?db = "race_db ?r" and ?sz = "rb_blockSize (rl_header L)"
    let ?k = "unat (writer_shard ?db ?w)"
    define off where "off = rowAppendOffsets ?db ! ?k"
    have w': "w' = ?w\<lparr>w_stage := Transfer_Block q L off\<rparr>" "rowAppendOffsets (race_db r') = (rowAppendOffsets ?db)[?k := off + ?sz]"
      using st Append_Block by (auto simp: Let_def off_def)
    have fewer: "Suc (length (filter ?P ((st_writers s)[v := w']))) \<le> length (filter ?P (st_writers s))"
      by (rule filter_update_le(2) [OF v]) (simp_all add: w' Append_Block)
    have L: "unat ?sz = layout_size (w_column ?w) L" "layout_size (w_column ?w) L \<le> b"
      using ok Append_Block layout_okD(12) room(1) here by (auto simp: writer_ok_def layout_for_def with_room_def)
    have len: "?k < length (rowAppendOffsets ?db)" using layout_shard(1) [OF start frame, of ?w] frame by (simp add: frame_ok_def)
    have bound: "unat x + b * length (filter ?P (st_writers s)) \<le> n" if "x \<in> set (rowAppendOffsets ?db)" for x
      using room(1) that by (simp add: with_room_def)
    have less: "b + b * length (filter ?P ((st_writers s)[v := w'])) \<le> b * length (filter ?P (st_writers s))"
      using mult_le_mono2 [OF fewer, of b] by simp
    have at: "off \<in> set (rowAppendOffsets ?db)" using len by (simp add: off_def)
    have sum: "unat (off + ?sz) = unat off + layout_size (w_column ?w) L"
      using unat_add64 [of off ?sz] bound [OF at] less L room(2) by simp
    have new: "unat (off + ?sz) + b * length (filter ?P ((st_writers s)[v := w'])) \<le> n"
      using bound [OF at] less L(2) unfolding sum by linarith
    have "unat x + b * length (filter ?P ((st_writers s)[v := w'])) \<le> n"
      if x: "x \<in> set ((rowAppendOffsets ?db)[?k := off + ?sz])" for x
    proof (cases "x = off + ?sz")
      case False
      then have "x \<in> set (rowAppendOffsets ?db)" using x set_update_subset_insert [of "rowAppendOffsets ?db" ?k "off + ?sz"] by blast
      from bound [OF this] show ?thesis using less by linarith
    qed (use new in simp)
    moreover have "block_bound w \<le> b \<and> (\<forall>q L. w_stage w = Append_Block q L \<longrightarrow> layout_size (w_column w) L \<le> b)"
      if "w \<in> set ((st_writers s)[v := w'])" for w
    proof (cases "w = w'")
      case True
      then show ?thesis using room(1) here data(1) by (simp add: with_room_def w'(1))
    next
      case False
      then have "w \<in> set (st_writers s)" using that set_update_subset_insert [of "st_writers s" v w'] by blast
      then show ?thesis using room(1) by (simp add: with_room_def)
    qed
    ultimately show ?thesis by (simp add: with_room_def w'(2))
  next
    case (Transfer_Block q L off)
    show ?thesis
      by (rule update) (use st Transfer_Block in \<open>auto simp: Let_def leave_def split: if_splits prod.splits\<close>)
  next
    case Indexing
    show ?thesis
      by (rule update) (use st Indexing in \<open>auto simp: leave_def split: if_splits option.splits pc.splits\<close>)
  next
    case Count_Item
    show ?thesis
      by (rule update) (use st Count_Item in \<open>auto simp: leave_def increment_rowItemCount_def set_RowIndexHeader_def Let_def split: if_splits\<close>)
  qed (rule update; use st in \<open>auto simp: Let_def ReleaseRowIndexInsertSlot_def split: if_splits\<close>)+
qed

subsection \<open>Every call can return\<close>

text \<open>How far a call is from its return.  An exchange that is bound to fail is further than the start of the loop.\<close>

fun stage_rank :: "Impl \<Rightarrow> stage \<Rightarrow> nat" where
  "stage_rank db Load_Items = 9"
| "stage_rank db (Load_Pending itemCount) = 8"
| "stage_rank db (Exchange pending) = (if rowPendingInsertCount db = pending then 7 else 10)"
| "stage_rank db Take_Sequence = 6"
| "stage_rank db (Append_Block sequence layout) = 5"
| "stage_rank db (Transfer_Block sequence layout off) = 4"
| "stage_rank db Indexing = 3"
| "stage_rank db Count_Item = 2"
| "stage_rank db (Release_Slot status) = 1"
| "stage_rank db (Returned status) = 0"

lemma stage_rank_pending: "rowPendingInsertCount d = rowPendingInsertCount db \<Longrightarrow> stage_rank d g = stage_rank db g"
  by (cases g) simp_all

lemma writer_step_enabled:
  assumes os: "reads_ok os" and start: "store_start db" and reach: "store_reachable os db s"
    and fin: "all_finished s" and v: "v < length (st_writers s)" and busy: "\<And>st. w_stage (st_writers s ! v) \<noteq> Returned st"
  obtains w' r' where "writer_step os (st_race s) (st_writers s ! v) = Some (w', r')"
    "stage_rank (race_db r') (w_stage w') < stage_rank (race_db (st_race s)) (w_stage (st_writers s ! v))"
proof -
  let ?w = "st_writers s ! v" and ?r = "st_race s"
  note inv = store_reachable_inv [OF os start reach]
  have here: "?w \<in> set (st_writers s)" using v by simp
  have ok: "writer_ok db ?r ?w" by (rule store_invD(6) [OF inv here])
  have rank_leave: "stage_rank d (leave w st) < 2" for d w st by (simp add: leave_def)
  have "\<exists>w' r'. stage_step os ?r ?w (w_stage ?w) = Some (w', r') \<and>
      stage_rank (race_db r') (w_stage w') < stage_rank (race_db ?r) (w_stage ?w)"
  proof (cases "w_stage ?w")
    case Take_Sequence
    let ?h = "RowIndexHeader (race_db ?r)"
    let ?db = "set_RowIndexHeader (?h\<lparr>rih_nextSequence := rih_nextSequence ?h + 1\<rparr>) (race_db ?r)"
    have opts: "options ?db = options db" using store_invD(2) [OF inv] by (simp add: frame_ok_def set_RowIndexHeader_def)
    obtain f where f: "maxLoadFactor (options ?db) = Fin f" "row_fits f (w_column ?w) (w_entries ?w)"
      using ok unfolding opts by (auto simp: writer_ok_def call_fits_def split: double.splits)
    obtain L where "BuildRowBlockLayout ?db (w_column ?w) (w_rowId ?w) (w_entries ?w) (rih_nextSequence ?h) (HashString (w_column ?w)) = Some (Inr L)"
      by (rule BuildRowBlockLayout_ok [OF f])
    then show ?thesis using Take_Sequence by (simp add: NextRowSequence_def Let_def)
  next
    case (Transfer_Block q L off)
    obtain st fs where "WriteVAllAt os (filesys (race_db ?r)) (rowValueFiles (race_db ?r) ! unat (writer_shard (race_db ?r) ?w))
        (block_slices (w_column ?w) L) off = (st, fs)" by fastforce
    then show ?thesis using Transfer_Block by (auto simp: Let_def leave_def)
  next
    case Indexing
    then obtain t where t: "w_call ?w = Some t" "call_for ?r ?w t" using ok by (auto simp: writer_ok_def)
    then have th: "race_threads ?r ! t \<in> set (race_threads ?r)" "inserts (fst (race_threads ?r ! t))" by (auto simp: call_for_def)
    then have "finished (snd (race_threads ?r ! t))" "\<And>r. snd (race_threads ?r ! t) \<noteq> Found r"
      using fin reachable_insertions [OF reach] by (auto simp: all_finished_def insertions_insert_def)
    then show ?thesis using Indexing t(1) by (cases "snd (race_threads ?r ! t)") (auto simp: leave_def)
  qed (use busy in \<open>auto simp: Let_def leave_def\<close>)
  with that show ?thesis unfolding writer_step_def by blast
qed

lemma finish_writer:
  assumes os: "reads_ok os" and start: "store_start db" and n: "n < 2 ^ 62"
  shows "store_reachable os db s \<Longrightarrow> with_room b n s \<Longrightarrow> v < length (st_writers s) \<Longrightarrow>
    \<exists>s' w'. store_run os s s' \<and> st_writers s' = (st_writers s)[v := w'] \<and> (\<exists>st. w_stage w' = Returned st) \<and> with_room b n s'"
proof (induction "stage_rank (race_db (st_race s)) (w_stage (st_writers s ! v))" arbitrary: s rule: less_induct)
  case less
  show ?case
  proof (cases "\<exists>st. w_stage (st_writers s ! v) = Returned st")
    case True
    have "st_writers s = (st_writers s)[v := st_writers s ! v]" by simp
    then show ?thesis using True less.prems(2) by blast
  next
    case False
    obtain s1 where s1: "store_run os s s1" "st_writers s1 = st_writers s" "all_finished s1"
      "rowAppendOffsets (race_db (st_race s1)) = rowAppendOffsets (race_db (st_race s))"
      "rowPendingInsertCount (race_db (st_race s1)) = rowPendingInsertCount (race_db (st_race s))"
      using finish_threads [OF os start less.prems(1) with_room_small [OF less.prems(2) n]] by blast
    have reach1: "store_reachable os db s1" using less.prems(1) s1(1) unfolding store_reachable_def by (rule rtranclp_trans)
    have room1: "with_room b n s1" using less.prems(2) s1(2,4) by (simp add: with_room_def)
    have v1: "v < length (st_writers s1)" using less.prems(3) s1(2) by simp
    obtain w' r' where step: "writer_step os (st_race s1) (st_writers s1 ! v) = Some (w', r')"
      "stage_rank (race_db r') (w_stage w') < stage_rank (race_db (st_race s1)) (w_stage (st_writers s1 ! v))"
      by (rule writer_step_enabled [OF os start reach1 s1(3) v1]) (use False s1(2) in auto)
    let ?s2 = "\<lparr>st_race = r', st_writers = (st_writers s1)[v := w']\<rparr>"
    have room2: "with_room b n ?s2"
      by (rule with_room_advance [OF os start store_reachable_inv [OF os start reach1] room1 n v1 step(1)])
    have move: "store_move os s1 ?s2"
      using store_step.advance [OF v1 step(1)] with_room_small [OF room2 n] by (simp add: store_move_def)
    then have run2: "store_run os s ?s2" by (rule rtranclp.rtrancl_into_rtrancl [OF s1(1)])
    then have reach2: "store_reachable os db ?s2" using less.prems(1) unfolding store_reachable_def by (meson rtranclp_trans)
    have "stage_rank (race_db (st_race ?s2)) (w_stage (st_writers ?s2 ! v)) < stage_rank (race_db (st_race s)) (w_stage (st_writers s ! v))"
      using step(2) v1 s1(2) stage_rank_pending [OF s1(5)] by simp
    from less.hyps [OF this reach2 room2] obtain s' w'' where "store_run os ?s2 s'" "st_writers s' = (st_writers ?s2)[v := w'']"
        "\<exists>st. w_stage w'' = Returned st" "with_room b n s'"
      using v1 by auto
    then show ?thesis using run2 s1(2) rtranclp_trans [of "store_move os" s ?s2 s'] by auto
  qed
qed

definition busy_calls :: "writer list \<Rightarrow> nat" where
  "busy_calls ws = length (filter (\<lambda>w. \<forall>st. w_stage w \<noteq> Returned st) ws)"

lemma finish_writers:
  assumes os: "reads_ok os" and start: "store_start db" and n: "n < 2 ^ 62"
  shows "store_reachable os db s \<Longrightarrow> with_room b n s \<Longrightarrow>
    \<exists>s'. store_run os s s' \<and> length (st_writers s') = length (st_writers s) \<and>
      (\<forall>w \<in> set (st_writers s'). \<exists>st. w_stage w = Returned st)"
proof (induction "busy_calls (st_writers s)" arbitrary: s rule: less_induct)
  case less
  show ?case
  proof (cases "\<forall>w \<in> set (st_writers s). \<exists>st. w_stage w = Returned st")
    case False
    then obtain v where v: "v < length (st_writers s)" "\<forall>st. w_stage (st_writers s ! v) \<noteq> Returned st" by (auto simp: in_set_conv_nth)
    obtain s1 w' where s1: "store_run os s s1" "st_writers s1 = (st_writers s)[v := w']" "\<exists>st. w_stage w' = Returned st" "with_room b n s1"
      using finish_writer [OF os start n less.prems v(1)] by blast
    have "busy_calls (st_writers s1) < busy_calls (st_writers s)"
      using length_filter_update [OF v(1), of "\<lambda>w. \<forall>st. w_stage w \<noteq> Returned st" w'] s1(3) v(2)
      unfolding busy_calls_def s1(2) by auto
    moreover have "store_reachable os db s1" using less.prems(1) s1(1) unfolding store_reachable_def by (rule rtranclp_trans)
    ultimately obtain s' where "store_run os s1 s'" "length (st_writers s') = length (st_writers s1)"
        "\<forall>w \<in> set (st_writers s'). \<exists>st. w_stage w = Returned st"
      using less.hyps s1(4) by blast
    then show ?thesis using s1(2) rtranclp_trans [OF s1(1), of s'] by auto
  qed blast
qed

lemma with_room_step:
  assumes os: "reads_ok os" and start: "store_start db" and inv: "store_inv os db r0 s" and room: "with_room b n s" "n < 2 ^ 62"
    and step: "store_step os s s'" and len: "length (st_writers s') = length (st_writers s)"
  shows "with_room b n s'"
  using step
proof cases
  case (index t job pc pc' db')
  then show ?thesis using room(1) thread_step_offsets [OF index(5)] by (simp add: with_room_def)
next
  case (advance v w' r')
  then show ?thesis using with_room_advance [OF os start inv room advance(2,3)] by simp
next
  case (spurious v pending)
  have "with_room b n \<lparr>st_race = st_race s, st_writers = (st_writers s)[v := (st_writers s ! v)\<lparr>w_stage := Load_Items\<rparr>]\<rparr>"
    by (rule with_room_update [OF room(1) spurious(2)]) (use spurious(3) in \<open>simp_all add: block_bound_def\<close>)
  then show ?thesis using spurious(1) by (simp add: with_room_def)
qed (use len room(1) in \<open>simp_all add: with_room_def\<close>)

lemma with_room_call:
  assumes "with_room b n s" and "block_bound w \<le> b" and "\<And>q L. w_stage w \<noteq> Append_Block q L"
  shows "with_room b (n + b) (s\<lparr>st_writers := st_writers s @ [w]\<rparr>)"
  using assms by (fastforce simp: with_room_def)

end
