(* ===== verification/Benchmark_Row_Progress.thy ===== *)
theory Benchmark_Row_Progress
  imports Benchmark_Row_Theorems Writer_Race_Progress
begin

text \<open>
  Progress of the benchmark in row mode: whatever its threads have done so far, they can still go on to the point where
  all of them are joined.
\<close>

subsection \<open>Room for the blocks of the plan\<close>

definition prepared :: "worker list \<Rightarrow> nat" where
  "prepared ws = length (filter (\<lambda>w. \<exists>rowId. w = Prepared rowId) ws)"

text \<open>\<open>b\<close> bounds the size of a block of the plan.\<close>

definition paced :: "nat \<Rightarrow> u64 \<Rightarrow> driver \<Rightarrow> bool" where
  "paced b rowCount d \<longleftrightarrow>
     with_room b (24 + b * length (st_writers (dr_store d))) (dr_store d) \<and>
     length (st_writers (dr_store d)) + prepared (dr_workers d) \<le> min (unat (dr_nextRow d)) (unat rowCount)"

lemma paced_room:
  assumes "paced b rowCount d" and "24 + b * unat rowCount < 2 ^ 62"
  shows "24 + b * length (st_writers (dr_store d)) < 2 ^ 62"
proof -
  have "length (st_writers (dr_store d)) \<le> unat rowCount" using assms(1) by (simp add: paced_def)
  then have "b * length (st_writers (dr_store d)) \<le> b * unat rowCount" by (rule mult_le_mono2)
  then show ?thesis using assms(2) by linarith
qed

lemma paced_start:
  assumes "\<forall>off \<in> set (rowAppendOffsets db). unat off = 24"
  shows "paced b rowCount (driver_start opts db)"
  using assms by (simp add: paced_def driver_start_def with_room_def prepared_def)

lemma next_row_step:
  assumes inv: "driver_inv os opts objectCount rowCount db d" and small: "unat rowCount < 2 ^ 63"
  shows "unat (dr_nextRow d + 1) = unat (dr_nextRow d) + 1"
proof -
  note D = driver_invD [OF inv]
  have "length (filter (\<lambda>w. w = Ended) (dr_workers d)) \<le> unat (bo_threads opts)" using D(2) by (metis length_filter_le)
  also have "\<dots> < 2 ^ 32" using unat_bound32 [of "bo_threads opts"] by simp
  finally show ?thesis using D(10) small unat_add64 [of "dr_nextRow d" 1] by simp
qed

lemma prepared_update:
  assumes "t < length ws"
  shows "prepared (ws[t := x]) + (if \<exists>r. ws ! t = Prepared r then 1 else 0) = prepared ws + (if \<exists>r. x = Prepared r then 1 else 0)"
  unfolding prepared_def by (rule length_filter_update [OF assms])

lemma paced_move:
  assumes os: "reads_ok os" and start: "store_start db" and inv: "driver_inv os opts objectCount rowCount db d"
    and small: "unat rowCount < 2 ^ 63" and paced: "paced b rowCount d" and fits: "24 + b * unat rowCount < 2 ^ 62"
    and plan: "\<And>w rowId. w_column w = StructA \<Longrightarrow> w_entries w = row_batch opts objectCount rowId \<Longrightarrow> block_bound w \<le> b"
    and step: "driver_step os opts objectCount rowCount d d'"
  shows "paced b rowCount d'"
  using step
proof cases
  case (worker t w' e)
  note P = prepared_update [OF worker(2), of w']
  have room: "with_room b (24 + b * length (st_writers (dr_store d))) (dr_store d)"
    and count: "length (st_writers (dr_store d)) + prepared (dr_workers d) \<le> min (unat (dr_nextRow d)) (unat rowCount)"
    using paced by (simp_all add: paced_def)
  show ?thesis
  proof (cases "dr_workers d ! t")
    case At_Loop
    then show ?thesis
      using worker(1,3) P room count next_row_step [OF inv small]
      by (auto simp: paced_def Let_def word_less_nat_alt split: if_splits)
  next
    case (Prepared rowId)
    let ?a = "arrival (st_race (dr_store d)) StructA rowId (row_batch opts objectCount rowId)"
    have "w_stage ?a \<noteq> Append_Block q L" for q L by (simp add: arrival_def first_stage_def)
    then have "with_room b (24 + b * length (st_writers (dr_store d)) + b) ((dr_store d)\<lparr>st_writers := st_writers (dr_store d) @ [?a]\<rparr>)"
      by (intro with_room_call [OF room] plan) (simp_all add: arrival_def)
    then show ?thesis using worker(1,3) P count Prepared by (auto simp: paced_def Let_def algebra_simps)
  next
    case (Writing v)
    then show ?thesis using worker(1,3) P room count by (auto simp: paced_def split: stage.splits if_splits)
  next
    case (Reporting message)
    then show ?thesis using worker(1,3) P room count by (auto simp: paced_def split: if_splits)
  next
    case Ended
    then show ?thesis using worker(3) by simp
  qed
next
  case (inside s')
  note sinv = store_reachable_inv [OF os start driver_invD(1) [OF inv]]
  have "with_room b (24 + b * length (st_writers (dr_store d))) s'"
    using with_room_step [OF os start sinv _ paced_room [OF paced fits] inside(2,3)] paced by (simp add: paced_def)
  then show ?thesis using inside paced by (simp add: paced_def)
qed

subsection \<open>All threads can be joined\<close>

fun worker_rank :: "worker \<Rightarrow> nat" where
  "worker_rank Ended = 0"
| "worker_rank At_Loop = 1"
| "worker_rank (Reporting message) = 2"
| "worker_rank (Writing v) = 3"
| "worker_rank (Prepared rowId) = 4"

definition driver_rank :: "u64 \<Rightarrow> driver \<Rightarrow> nat" where
  "driver_rank rowCount d = 5 * (unat rowCount - unat (dr_nextRow d)) + sum_list (map worker_rank (dr_workers d))"

lemma rank_update:
  assumes "t < length ws"
  shows "sum_list (map worker_rank (ws[t := x])) + worker_rank (ws ! t) = sum_list (map worker_rank ws) + worker_rank x"
  using assms
proof (induction ws arbitrary: t)
  case (Cons w ws)
  show ?case using Cons.IH [of "t - 1"] Cons.prems by (cases t) simp_all
qed simp

lemma worker_advances:
  assumes inv: "driver_inv os opts objectCount rowCount db d" and small: "unat rowCount < 2 ^ 63" "small_files (dr_store d)"
    and returned: "\<forall>w \<in> set (st_writers (dr_store d)). \<exists>st. w_stage w = Returned st" and busy: "\<not> joined d"
  shows "\<exists>d'. driver_move os opts objectCount rowCount d d' \<and> driver_rank rowCount d' < driver_rank rowCount d"
proof -
  obtain t where t: "t < length (dr_workers d)" "dr_workers d ! t \<noteq> Ended"
    using busy by (auto simp: joined_def list_all_iff in_set_conv_nth)
  have "\<exists>w' e. worker_step opts objectCount rowCount d (dr_workers d ! t) = Some (w', e) \<and> small_files (dr_store e) \<and>
      5 * (unat rowCount - unat (dr_nextRow e)) + worker_rank w' < 5 * (unat rowCount - unat (dr_nextRow d)) + worker_rank (dr_workers d ! t)"
  proof (cases "dr_workers d ! t")
    case At_Loop
    then show ?thesis using next_row_step [OF inv small(1)] small(2) by (auto simp: Let_def word_less_nat_alt)
  next
    case (Writing v)
    then have "Writing v \<in> set (dr_workers d)" using nth_mem [OF t(1)] by simp
    then have "st_writers (dr_store d) ! v \<in> set (st_writers (dr_store d))" using driver_invD(7) [OF inv] by simp
    then obtain st where "w_stage (st_writers (dr_store d) ! v) = Returned st" using returned by blast
    then show ?thesis using Writing small(2) by auto
  qed (use t(2) small(2) in \<open>auto simp: Let_def small_files_def\<close>)
  then obtain w' e where step: "worker_step opts objectCount rowCount d (dr_workers d ! t) = Some (w', e)" "small_files (dr_store e)"
      "5 * (unat rowCount - unat (dr_nextRow e)) + worker_rank w' < 5 * (unat rowCount - unat (dr_nextRow d)) + worker_rank (dr_workers d ! t)"
    by blast
  let ?d = "e\<lparr>dr_workers := (dr_workers d)[t := w']\<rparr>"
  have "driver_move os opts objectCount rowCount d ?d"
    using driver_step.worker [OF t(1) step(1)] step(2) by (simp add: driver_move_def)
  moreover have "driver_rank rowCount ?d < driver_rank rowCount d"
    using step(3) rank_update [OF t(1), of w'] by (simp add: driver_rank_def)
  ultimately show ?thesis by blast
qed

text \<open>From every state that the threads can reach there is a continuation in which all of them end.\<close>

lemma threads_can_be_joined:
  assumes os: "reads_ok os" and start: "store_start db" and offs: "\<forall>off \<in> set (rowAppendOffsets db). unat off = 24"
    and run_fits: "row_run_fits db opts objectCount" and small: "unat rowCount < 2 ^ 63" and fits: "24 + b * unat rowCount < 2 ^ 62"
    and plan: "\<And>w rowId. w_column w = StructA \<Longrightarrow> w_entries w = row_batch opts objectCount rowId \<Longrightarrow> block_bound w \<le> b"
    and run: "driver_reachable os opts objectCount rowCount db d"
  shows "\<exists>d'. (driver_move os opts objectCount rowCount)\<^sup>*\<^sup>* d d' \<and> joined d'"
proof -
  let ?M = "driver_move os opts objectCount rowCount"
  let ?I = "\<lambda>d. driver_inv os opts objectCount rowCount db d \<and> paced b rowCount d"
  have keep: "?I d2" if "?I d1" "?M\<^sup>*\<^sup>* d1 d2" for d1 d2
    using that(2,1)
  proof (induction rule: rtranclp_induct)
    case (step e1 e2)
    then have I: "driver_inv os opts objectCount rowCount db e1" "paced b rowCount e1" by blast+
    have "driver_inv os opts objectCount rowCount db e2"
      by (rule driver_move_keeps [OF os start I(1) row_batch_fits [OF run_fits] small step.hyps(2)])
    moreover have "paced b rowCount e2"
      by (rule paced_move [OF os start I(1) small I(2) fits plan]) (use step.hyps(2) in \<open>simp_all add: driver_move_def\<close>)
    ultimately show ?case by blast
  qed
  have "\<exists>d'. ?M\<^sup>*\<^sup>* d d' \<and> joined d'" if "?I d" for d
    using that
  proof (induction "driver_rank rowCount d" arbitrary: d rule: less_induct)
    case less
    then have I: "driver_inv os opts objectCount rowCount db d" "paced b rowCount d" by blast+
    note n = paced_room [OF I(2) fits]
    have room: "with_room b (24 + b * length (st_writers (dr_store d))) (dr_store d)" using I(2) by (simp add: paced_def)
    obtain s' where s': "store_run os (dr_store d) s'" "length (st_writers s') = length (st_writers (dr_store d))"
        "\<forall>w \<in> set (st_writers s'). \<exists>st. w_stage w = Returned st"
      using finish_writers [OF os start n driver_invD(1) [OF I(1)] room] by blast
    let ?d = "d\<lparr>dr_store := s'\<rparr>"
    have "d\<lparr>dr_store := dr_store d\<rparr> = d" by simp
    then have to: "?M\<^sup>*\<^sup>* d ?d" using driver_runs_call [OF s'(1,2), of opts objectCount rowCount d] by simp
    note I' = keep [OF less.prems to]
    have files: "small_files (dr_store ?d)"
      using with_room_small paced_room [OF _ fits] I' unfolding paced_def by blast
    show ?case
    proof (cases "joined ?d")
      case False
      obtain d2 where d2: "?M ?d d2" "driver_rank rowCount d2 < driver_rank rowCount ?d"
        using worker_advances [OF _ small files _ False, of os opts objectCount db] I' s'(3) by auto
      have "driver_rank rowCount d2 < driver_rank rowCount d" using d2(2) by (simp add: driver_rank_def)
      from less.hyps [OF this keep [OF I' r_into_rtranclp [of ?M, OF d2(1)]]]
      obtain d' where "?M\<^sup>*\<^sup>* d2 d'" "joined d'" by blast
      then show ?thesis using to d2(1) by (meson converse_rtranclp_into_rtranclp rtranclp_trans)
    qed (use to in blast)
  qed
  moreover have "?I (driver_start opts db)" using driver_start_inv [OF start] paced_start [OF offs] by blast
  then have "?I d" using keep run unfolding driver_reachable_def by blast
  ultimately show ?thesis by blast
qed

end
