(* ===== verification/Benchmark_Row_Runs.thy ===== *)
theory Benchmark_Row_Runs
  imports Benchmark_Row_Progress Writer_Race_Durability
begin

text \<open>
  Whole runs of the benchmark in row mode: whatever the interleaving of its threads, a run ends with the message of a
  failed write or reads back what it wrote.
\<close>

subsection \<open>The database the threads start on\<close>

lemma fresh_store_start:
  assumes db: "database_ok db" and "rows db = (\<lambda>_. None)" and shards: "shards_of db = replicate n fresh_shard"
  shows "store_start db" "\<forall>off \<in> set (rowAppendOffsets db). unat off = 24"
proof -
  have row: "row_ok db" "row_log_ok db" using db by (simp_all add: database_ok_def)
  then have len: "length (rowAppendOffsets db) = length (rowValueFiles db)" by (simp add: row_ok_def row_core_ok_def)
  show offs: "\<forall>off \<in> set (rowAppendOffsets db). unat off = 24"
  proof
    fix off assume "off \<in> set (rowAppendOffsets db)"
    then obtain k where k: "k < length (rowValueFiles db)" "off = rowAppendOffsets db ! k" using len by (auto simp: in_set_conv_nth)
    have "shards_of db ! k = row_bytes db k" "length (shards_of db) = length (rowValueFiles db)" using k(1) by (simp_all add: shards_of_def)
    then have "row_bytes db k = fresh_shard" using k(1) shards by (metis length_replicate nth_replicate)
    then show "unat off = 24" using row(2) k by (simp add: row_log_ok_def length_fresh_shard)
  qed
  show "store_start db"
    using row(1) offs empty_rows_vacant [OF assms(2)] by (simp add: store_start_def)
qed

lemma row_plan_options:
  assumes j: "4 \<le> j" "j \<le> 43" and shards: "bo_shards opts \<noteq> 0"
  defines "dbo \<equiv> DatabaseOptions_default\<lparr>initialBucketCount := 16, initialRowBucketCount := 2 ^ j, rowShardCount := bo_shards opts\<rparr>"
  shows "options_ok dbo" "options_fit dbo 0" "maxLoadFactor (rounded_options dbo) = Fin (fl (4 / 5))"
    "rowShardCount (rounded_options dbo) = rowShardCount dbo" "unat (initialRowBucketCount (rounded_options dbo)) = 2 ^ j"
proof -
  have u: "unat ((2 :: u64) ^ j) = 2 ^ j" using j(2) by (intro unat_pow2) simp
  then have nz: "(2 :: u64) ^ j \<noteq> 0" by (metis unat_0 power_not_zero zero_neq_numeral)
  have le: "(2 :: nat) ^ j \<le> 2 ^ 56" "(2 :: nat) ^ j \<le> 2 ^ 63" using j(2) by (intro power_increasing; simp)+
  have "options_fit DatabaseOptions_default 0" using options_fit_mono [OF default_options_fit] by simp
  then show fit: "options_fit dbo 0" using nz u le shards by (simp add: options_fit_def options_ok_def dbo_def)
  then show "options_ok dbo" by (simp add: options_fit_def)
  show "maxLoadFactor (rounded_options dbo) = Fin (fl (4 / 5))" by (simp add: dbo_def DatabaseOptions_default_def)
  show "rowShardCount (rounded_options dbo) = rowShardCount dbo" by (simp add: rounded_options_def)
  have "RoundUpPowerOfTwo (2 ^ j) = Some (2 ^ j)" by (rule RoundUpPowerOfTwo_pow2) (use j in simp_all)
  then show "unat (initialRowBucketCount (rounded_options dbo)) = 2 ^ j" by (simp add: rounded_options_def dbo_def u)
qed

lemma row_mode_opens:
  assumes os: "os_ok os" and keep: "\<not> bo_keepData opts" and dir: "run_directory opts prefix sizeGb = Some dir"
    and j: "4 \<le> j" "j \<le> 43" and shards: "bo_shards opts \<noteq> 0"
  defines "dbo \<equiv> DatabaseOptions_default\<lparr>initialBucketCount := 16, initialRowBucketCount := 2 ^ j, rowShardCount := bo_shards opts\<rparr>"
  obtains fs' db where "row_mode_open os fs opts dir dbo = Some (Inr (fs', Some db))" "database_ok db" "store_start db"
    "\<forall>off \<in> set (rowAppendOffsets db). unat off = 24" "rows db = (\<lambda>_. None)" "2 ^ j \<le> length (RowBuckets db)"
    "options db = rounded_options dbo" "directory db = dir"
proof -
  note o = row_plan_options [OF j shards, folded dbo_def]
  have c: "File_IO.calls_ok os" using os by (simp add: os_ok_def)
  obtain fs' where fs': "fresh_directory os fs opts dir = Inr fs'" "no_files fs' dir" by (rule fresh_directory_ok [OF c keep dir])
  have "no_files (filesys (Impl_default fs')) dir" using fs'(2) by (simp add: Impl_default_def)
  from Open_empty [OF os Impl_default_closed this o(2)]
  obtain db where db: "Open os (Impl_default fs') dir dbo = Some (Ok, db)" "database_ok db" "rows db = (\<lambda>_. None)"
    "shards_of db = replicate (unat (rowShardCount dbo)) fresh_shard" "2 ^ j \<le> length (RowBuckets db)"
    "options db = rounded_options dbo" "directory db = dir"
    unfolding o(5) by blast
  have "row_mode_open os fs opts dir dbo = Some (Inr (fs', Some db))"
    using fs'(1) db(1) by (simp add: row_mode_open_def Database_Open_def Database_new_def)
  then show ?thesis using that db fresh_store_start [OF db(2,3,4)] by blast
qed

subsection \<open>After the threads\<close>

lemma card_words_less: "card {r. r < (n :: u64)} = unat n"
proof -
  have "{r. r < n} = of_nat ` {..<unat n}"
  proof (intro set_eqI iffI)
    fix r assume "r \<in> {r. r < n}"
    then have "unat r < unat n" "r = of_nat (unat r)" by (simp_all add: word_less_nat_alt)
    then show "r \<in> of_nat ` {..<unat n}" by blast
  next
    fix r :: u64 assume "r \<in> of_nat ` {..<unat n}"
    then obtain k where k: "k < unat n" "r = of_nat k" by auto
    have "k < 18446744073709551616" by (rule order_less_trans [OF k(1) unat_bound64])
    then show "r \<in> {r. r < n}" using k by (simp add: word_less_nat_alt unat_of_nat64)
  qed
  moreover have "inj_on (of_nat :: nat \<Rightarrow> u64) {..<unat n}"
  proof (rule inj_onI)
    fix x y assume "x \<in> {..<unat n}" "y \<in> {..<unat n}" "(of_nat x :: u64) = of_nat y"
    moreover from this have "x < 18446744073709551616" "y < 18446744073709551616"
      by (auto intro: order_less_trans [OF _ unat_bound64])
    ultimately show "x = y" using of_nat_inject64 [of x y] by simp
  qed
  ultimately show ?thesis by (simp add: card_image)
qed

lemma planned_rows_vacancy:
  assumes os: "reads_ok os" and start: "store_start db" and run: "store_reachable os db s"
    and returned: "\<forall>w \<in> set (st_writers s). \<exists>st. w_stage w = Returned st"
    and rows: "dom (rows (race_db (st_race s))) \<subseteq> {c} \<times> {r. r < n}" and size: "unat n < length (RowBuckets db)"
  shows "has_vacancy (race_db (st_race s))"
proof -
  have "finite {r. r < n}" by simp
  then have "card (dom (rows (race_db (st_race s)))) \<le> card ({c} \<times> {r. r < n})" using rows by (intro card_mono) simp_all
  also have "\<dots> = unat n" by (simp add: card_cartesian_product card_words_less)
  finally show ?thesis using size by (intro few_rows_leave_vacancy [OF os start run returned]) simp
qed

lemma read_cells_ok:
  assumes os: "reads_ok os" and db: "rows_readable db" and n: "0 < n"
    and cells: "\<And>i. i < n \<Longrightarrow> \<exists>row. rows db (StructA, i div bo_rowEntries opts) = Some row \<and>
      row (KeyForIndex i) = Some (MakeFlatBufferPayload (bo_payloadSize opts) i)"
    and v: "k = 0 \<longrightarrow> (\<exists>i < n. v = MakeFlatBufferPayload (bo_payloadSize opts) i)"
  shows "\<exists>i < n. read_cells os (Some db) opts n k g v = Some (Inr (MakeFlatBufferPayload (bo_payloadSize opts) i))"
  using v
proof (induction k arbitrary: g v)
  case (Suc k)
  obtain r g' where r: "mt_next g = (r, g')" by fastforce
  have i: "r mod n < n" using n by (simp add: word_less_nat_alt unat_mod)
  obtain row where row: "rows db (StructA, (r mod n) div bo_rowEntries opts) = Some row"
      "row (KeyForIndex (r mod n)) = Some (MakeFlatBufferPayload (bo_payloadSize opts) (r mod n))"
    using cells [OF i] by blast
  then have "Database_GetRowStruct os (Some db) StructA ((r mod n) div bo_rowEntries opts) (KeyForIndex (r mod n)) =
      Some (Inr (MakeFlatBufferPayload (bo_payloadSize opts) (r mod n)))"
    using GetRowStruct_ok [OF os db] by (simp add: Database_GetRowStruct_def row_result_def row_lookup_def)
  moreover have "\<exists>j < n. read_cells os (Some db) opts n k g' (MakeFlatBufferPayload (bo_payloadSize opts) (r mod n)) =
      Some (Inr (MakeFlatBufferPayload (bo_payloadSize opts) j))"
    by (rule Suc.IH) (use i in blast)
  ultimately show ?case by (simp add: r Let_def)
qed simp

subsection \<open>What a run can end with\<close>

text \<open>The sizes of a plan that the formats and the doubles hold.\<close>

definition row_plan_fits :: "BenchmarkOptions \<Rightarrow> u64 \<Rightarrow> bool" where
  "row_plan_fits opts n \<longleftrightarrow>
     0 < unat n \<and> unat n < 2 ^ 40 \<and> 0 < unat (bo_rowEntries opts) \<and> unat (bo_rowEntries opts) \<le> 2 ^ 30 \<and>
     unat (bo_rowEntries opts) * (unat (bo_payloadSize opts) + 24) < 2 ^ 60 \<and> bo_shards opts \<noteq> 0 \<and>
     0 < bo_threads opts \<and> 0 < unat (bo_readCount opts) \<and> unat (bo_readCount opts) < 2 ^ 53 \<and>
     (unat n div unat (bo_rowEntries opts) + 1) * (2 ^ 37 + unat (bo_rowEntries opts) * (unat (bo_payloadSize opts) + 24)) < 2 ^ 61"

lemma row_plan_run_fits:
  assumes "row_plan_fits opts n" and "maxLoadFactor (options db) = Fin (fl (4 / 5))"
  shows "row_run_fits db opts n"
proof -
  have f: "1 / 2 \<le> fl (4 / 5)" "fl (4 / 5) < 1" by (simp_all add: fl_four_fifths)
  have "rat_of_nat (unat (bo_rowEntries opts)) \<le> of_nat (2 ^ 30)"
    using assms(1) by (simp only: row_plan_fits_def of_nat_le_iff)
  also have "\<dots> \<le> fl (4 / 5) * (2 ^ 31 - 1)" by (simp add: fl_four_fifths)
  finally show ?thesis using assms f by (simp add: row_run_fits_def row_plan_fits_def)
qed

lemma row_plan_count:
  assumes fits: "row_plan_fits opts n" and rowCount: "row_count opts n = Some rowCount"
  shows "0 < unat rowCount" "unat rowCount \<le> unat n" "unat rowCount < 2 ^ 40" "unat rowCount \<le> unat n div unat (bo_rowEntries opts) + 1"
proof -
  let ?e = "bo_rowEntries opts"
  have e: "0 < unat ?e" "unat ?e < 2 ^ 32" "unat n < 2 ^ 40" "0 < unat n" using fits by (simp_all add: row_plan_fits_def)
  have pos: "0 < ?e" "0 < n" using e by (simp_all add: word_less_nat_alt)
  have "0 div ?e < rowCount" by (rule object_in_row(1) [OF pos(2,1) e(3,2) rowCount])
  then show "0 < unat rowCount" by (simp add: word_less_nat_alt)
  have "unat (n + ?e) = unat n + unat ?e" using e by (intro unat_add64) simp
  then have add: "unat (n + ?e - 1) = unat n + unat ?e - 1" using e by (simp add: unat_sub_if_size word_size)
  have rc: "unat rowCount = (unat n + unat ?e - 1) div unat ?e"
    using rowCount pos(1) by (auto simp: row_count_def unat_div add split: if_splits)
  have "unat n + unat ?e - 1 < (unat n + 1) * unat ?e"
    using e(1,4) by (cases "unat ?e") (simp_all add: algebra_simps)
  then have "unat rowCount < unat n + 1" unfolding rc by (rule less_mult_imp_div_less)
  then show "unat rowCount \<le> unat n" by simp
  then show "unat rowCount < 2 ^ 40" using e(3) by simp
  have "unat rowCount \<le> (unat n + unat ?e) div unat ?e" unfolding rc by (rule div_le_mono) simp
  then show "unat rowCount \<le> unat n div unat ?e + 1" using e(1) by simp
qed

lemma joined_returned:
  assumes "driver_inv os opts objectCount rowCount db d" and "joined d"
  shows "\<forall>w \<in> set (st_writers (dr_store d)). \<exists>st. w_stage w = Returned st"
proof
  fix w assume "w \<in> set (st_writers (dr_store d))"
  then obtain v where v: "v < length (st_writers (dr_store d))" "w = st_writers (dr_store d) ! v" by (auto simp: in_set_conv_nth)
  have "Writing v \<notin> set (dr_workers d)" using assms(2) by (auto simp: joined_def list_all_iff)
  then show "\<exists>st. w_stage w = Returned st" using driver_invD(6) [OF assms(1) v(1)] v(2) by (cases "w_stage w") simp_all
qed

lemma row_run_rows:
  assumes os: "reads_ok os" and fits: "row_plan_fits opts n" and rowCount: "row_count opts n = Some rowCount"
    and db: "store_start db" "rows db = (\<lambda>_. None)" "unat rowCount < length (RowBuckets db)"
      "maxLoadFactor (options db) = Fin (fl (4 / 5))"
    and run: "driver_reachable os opts n rowCount db d" "joined d" "dr_errorMessage d = ''''"
  shows "store_reachable os db (dr_store d)" "\<forall>w \<in> set (st_writers (dr_store d)). \<exists>st. w_stage w = Returned st"
    "has_vacancy (race_db (st_race (dr_store d)))"
    "\<And>i. i < n \<Longrightarrow> \<exists>row. rows (race_db (st_race (dr_store d))) (StructA, i div bo_rowEntries opts) = Some row \<and>
       row (KeyForIndex i) = Some (MakeFlatBufferPayload (bo_payloadSize opts) i)"
proof -
  have plan: "unat n < 2 ^ 40" "0 < unat (bo_rowEntries opts)" "unat (bo_rowEntries opts) < 2 ^ 32" "0 < bo_threads opts"
    using fits by (simp_all add: row_plan_fits_def)
  have e: "0 < bo_rowEntries opts" using plan(2) by (simp add: word_less_nat_alt)
  have small: "unat rowCount < 2 ^ 63" using row_plan_count(3) [OF fits rowCount] by simp
  note inv = driver_reachable_inv [OF os db(1) row_plan_run_fits [OF fits db(4)] small run(1)]
  note J = joined_rows [OF os db(1) inv plan(4) run(2,3)]
  show reach: "store_reachable os db (dr_store d)" by (rule driver_invD(1) [OF inv])
  show returned: "\<forall>w \<in> set (st_writers (dr_store d)). \<exists>st. w_stage w = Returned st" by (rule joined_returned [OF inv run(2)])
  have "dom (rows (race_db (st_race (dr_store d)))) \<subseteq> {StructA} \<times> {r. r < rowCount}"
    unfolding J(1) db(2) by (auto split: if_splits)
  then show "has_vacancy (race_db (st_race (dr_store d)))" by (rule planned_rows_vacancy [OF os db(1) reach returned _ db(3)])
  show "\<exists>row. rows (race_db (st_race (dr_store d))) (StructA, i div bo_rowEntries opts) = Some row \<and>
       row (KeyForIndex i) = Some (MakeFlatBufferPayload (bo_payloadSize opts) i)" if "i < n" for i
    using object_in_row [OF that e plan(1,3) rowCount] unfolding J(1) by simp
qed

lemma row_run_reads:
  assumes os: "os_ok os" and fits: "row_plan_fits opts n" and rowCount: "row_count opts n = Some rowCount"
    and db: "database_ok db" "store_start db" "rows db = (\<lambda>_. None)" "unat rowCount < length (RowBuckets db)" "directory db = dir"
      "maxLoadFactor (options db) = Fin (fl (4 / 5))"
    and dbo: "options_ok dbo" "rowShardCount dbo = rowShardCount (options db)"
    and run: "driver_reachable os opts n rowCount db d" "joined d" "dr_errorMessage d = ''''"
  shows "\<exists>i p50 p95 p99 db'. row_mode_finish os fs opts n dir dbo elapsed d =
      Some (Inr (MakeFlatBufferPayload (bo_payloadSize opts) i, (p50, p95, p99), Some db')) \<and>
    i < n \<and> {p50, p95, p99} \<subseteq> elapsed ` {..<unat (bo_readCount opts)}"
proof -
  let ?d = "race_db (st_race (dr_store d))"
  have rw: "reads_ok os" using os by (simp add: os_ok_def)
  have plan: "0 < n" "0 < unat (bo_readCount opts)" "unat (bo_readCount opts) < 2 ^ 53"
    using fits by (simp_all add: row_plan_fits_def word_less_nat_alt)
  note R = row_run_rows [OF rw fits rowCount db(2-4,6) run]
  note S = returned_sound [OF db(1) rw db(2) R(1-3)]
  let ?reads = "\<lambda>x. read_cells os x opts n (unat (bo_readCount opts)) (mt_seed 42) []"
  let ?good = "\<lambda>v. \<exists>i < n. v = MakeFlatBufferPayload (bo_payloadSize opts) i"
  have reads: "\<exists>v. ?reads (Some x) = Some (Inr v) \<and> ?good v" if x: "rows_readable x" "rows x = rows ?d" for x
  proof -
    have "unat (bo_readCount opts) = 0 \<longrightarrow> ?good []" using plan(2) by simp
    from read_cells_ok [OF rw x(1) plan(1) R(4) [folded x(2)] this, of "mt_seed 42"] show ?thesis by blast
  qed
  have "options_ok dbo" "rowShardCount dbo = rowShardCount (options ?d)" "directory ?d = dir" using dbo db(5) S(3,4) by simp_all
  from read_phase_ok [OF os S(1) this(3,1,2) plan(2,3), of ?reads ?good fs elapsed] reads
  show ?thesis using run(3) unfolding row_mode_finish_def by (simp del: of_nat_unat) blast
qed

lemma row_plan_options_some:
  assumes "row_plan_fits opts n" and "row_count opts n = Some rowCount"
  obtains j where "row_options opts rowCount = Some (DatabaseOptions_default\<lparr>initialBucketCount := 16,
      initialRowBucketCount := 2 ^ j, rowShardCount := bo_shards opts\<rparr>)" "4 \<le> j" "j \<le> 43" "unat rowCount < 2 ^ j"
proof -
  obtain j where "planned_buckets rowCount = Some (2 ^ j)" "4 \<le> j" "j \<le> 43" "unat rowCount < 2 ^ j"
    by (rule planned_buckets_ok [OF row_plan_count(1,3) [OF assms]])
  with that show ?thesis by (simp add: row_options_def)
qed

lemma planned_block_bound:
  assumes "w_column w = StructA" and "w_entries w = row_batch opts n rowId"
  shows "block_bound w \<le> 2 ^ 37 + unat (bo_rowEntries opts) * (unat (bo_payloadSize opts) + 24)"
proof -
  have "length (w_entries w) * (unat (bo_payloadSize opts) + 24) \<le> unat (bo_rowEntries opts) * (unat (bo_payloadSize opts) + 24)"
    unfolding assms(2) using row_batch_length by (rule mult_le_mono1)
  then have "key_bytes_total (w_entries w) + length (values_of (w_entries w)) \<le> unat (bo_rowEntries opts) * (unat (bo_payloadSize opts) + 24)"
    if "key_bytes_total (w_entries w) + length (values_of (w_entries w)) \<le> length (w_entries w) * (unat (bo_payloadSize opts) + 24)"
    using that by (rule order_trans [rotated])
  moreover have "key_bytes_total (w_entries w) + length (values_of (w_entries w)) \<le> length (w_entries w) * (unat (bo_payloadSize opts) + 24)"
    unfolding assms(2) by (rule entries_total [OF row_batch_sizes])
  moreover have "length (w_column w) = 7" by (simp add: assms(1) StructA_def text_bytes_def)
  ultimately show ?thesis by (simp add: block_bound_def)
qed

lemma row_threads_joined:
  assumes os: "reads_ok os" and fits: "row_plan_fits opts n" and rowCount: "row_count opts n = Some rowCount"
    and db: "store_start db" "\<forall>off \<in> set (rowAppendOffsets db). unat off = 24" "maxLoadFactor (options db) = Fin (fl (4 / 5))"
    and run: "driver_reachable os opts n rowCount db d"
  shows "\<exists>d'. (driver_move os opts n rowCount)\<^sup>*\<^sup>* d d' \<and> joined d'"
proof -
  define b where "b = 2 ^ 37 + unat (bo_rowEntries opts) * (unat (bo_payloadSize opts) + 24)"
  have small: "unat rowCount < 2 ^ 63" using row_plan_count(3) [OF fits rowCount] by simp
  have "b * unat rowCount \<le> b * (unat n div unat (bo_rowEntries opts) + 1)" by (rule mult_le_mono2 [OF row_plan_count(4) [OF fits rowCount]])
  also have "\<dots> < 2 ^ 61" using fits by (simp add: row_plan_fits_def b_def mult.commute)
  finally have "24 + b * unat rowCount < 2 ^ 62" by simp
  from threads_can_be_joined [OF os db(1,2) row_plan_run_fits [OF fits db(3)] small this planned_block_bound [where opts = opts and n = n, folded b_def] run]
  show ?thesis .
qed

text \<open>The common part of every run: the database that the threads start on.\<close>

lemma row_run_start:
  assumes "os_ok os" and "\<not> bo_keepData opts" and "run_directory opts ''row-size-'' sizeGb = Some dir" and "row_plan_fits opts n"
  obtains rowCount dbo fs' db where "row_count opts n = Some rowCount" "row_options opts rowCount = Some dbo"
    "row_mode_open os fs opts dir dbo = Some (Inr (fs', Some db))"
    "database_ok db" "store_start db" "rows db = (\<lambda>_. None)" "unat rowCount < length (RowBuckets db)"
    "directory db = dir" "maxLoadFactor (options db) = Fin (fl (4 / 5))" "options_ok dbo"
    "rowShardCount dbo = rowShardCount (options db)" "\<forall>off \<in> set (rowAppendOffsets db). unat off = 24"
proof -
  have "bo_rowEntries opts \<noteq> 0" and shards: "bo_shards opts \<noteq> 0" using assms(4) by (auto simp: row_plan_fits_def)
  then obtain rowCount where rowCount: "row_count opts n = Some rowCount" by (simp add: row_count_def)
  obtain j where j: "row_options opts rowCount = Some (DatabaseOptions_default\<lparr>initialBucketCount := 16,
      initialRowBucketCount := 2 ^ j, rowShardCount := bo_shards opts\<rparr>)" "4 \<le> j" "j \<le> 43" "unat rowCount < 2 ^ j"
    by (rule row_plan_options_some [OF assms(4) rowCount])
  define dbo where "dbo = DatabaseOptions_default\<lparr>initialBucketCount := 16, initialRowBucketCount := 2 ^ j, rowShardCount := bo_shards opts\<rparr>"
  note o = row_plan_options [OF j(2,3) shards, folded dbo_def]
  obtain fs' db where db: "row_mode_open os fs opts dir dbo = Some (Inr (fs', Some db))" "database_ok db" "store_start db"
    "\<forall>off \<in> set (rowAppendOffsets db). unat off = 24" "rows db = (\<lambda>_. None)" "2 ^ j \<le> length (RowBuckets db)"
    "options db = rounded_options dbo" "directory db = dir"
    by (rule row_mode_opens [OF assms(1,2,3) j(2,3) shards, where fs = fs, folded dbo_def])
  have "maxLoadFactor (options db) = Fin (fl (4 / 5))" "rowShardCount dbo = rowShardCount (options db)"
    and "unat rowCount < length (RowBuckets db)" and "row_options opts rowCount = Some dbo"
    using o(3,4) db(6,7) j(1,4) by (simp_all add: dbo_def)
  with that rowCount db o(1) show ?thesis by blast
qed

lemma row_run_ends:
  assumes os: "os_ok os" and keep: "\<not> bo_keepData opts" and plan: "object_count opts sizeGb = Some n"
    "run_directory opts ''row-size-'' sizeGb = Some dir" "row_plan_fits opts n"
    and run: "RunRowParallelMode os fs opts sizeGb elapsed outcome"
  shows "(\<exists>message. message \<noteq> '''' \<and> outcome = Some (Inl (Exit (''write failed: '' @ message)))) \<or>
    (\<exists>i p50 p95 p99 db. outcome = Some (Inr (MakeFlatBufferPayload (bo_payloadSize opts) i, (p50, p95, p99), Some db)) \<and>
      i < n \<and> {p50, p95, p99} \<subseteq> elapsed ` {..<unat (bo_readCount opts)})"
proof -
  have rd: "reads_ok os" using os by (simp add: os_ok_def)
  obtain rowCount dbo fs' db where R: "row_count opts n = Some rowCount" "row_options opts rowCount = Some dbo"
    "row_mode_open os fs opts dir dbo = Some (Inr (fs', Some db))"
    "database_ok db" "store_start db" "rows db = (\<lambda>_. None)" "unat rowCount < length (RowBuckets db)"
    "directory db = dir" "maxLoadFactor (options db) = Fin (fl (4 / 5))" "options_ok dbo"
    "rowShardCount dbo = rowShardCount (options db)" "\<forall>off \<in> set (rowAppendOffsets db). unat off = 24"
    by (rule row_run_start [OF os keep plan(2,3)])
  note progress = row_threads_joined [OF rd plan(3) R(1,5,12,9)]
  from run obtain d where d: "driver_reachable os opts n rowCount db d" "joined d" "outcome = row_mode_finish os fs' opts n dir dbo elapsed d"
  proof cases
    case (never_joined n' dir' rowCount' dbo' fs'' db' d)
    have same: "n' = n" "dir' = dir" "rowCount' = rowCount" "dbo' = dbo" "db' = db"
      using never_joined(2,3,4,5,6) plan(1,2) R(1,2,3) by auto
    show ?thesis using progress never_joined(7,8) unfolding same by blast
  qed (use plan(1,2) R(1,2,3) in auto)
  show ?thesis
  proof (cases "dr_errorMessage d = ''''")
    case True
    show ?thesis
      unfolding d(3) by (rule disjI2, rule row_run_reads [OF os plan(3) R(1,4-11) d(1,2) True])
  next
    case False
    then show ?thesis using d(3) by (simp add: row_mode_finish_def)
  qed
qed

lemma row_run_exists:
  assumes os: "os_ok os" and keep: "\<not> bo_keepData opts" and plan: "object_count opts sizeGb = Some n"
    "run_directory opts ''row-size-'' sizeGb = Some dir" "row_plan_fits opts n"
  shows "\<exists>outcome. RunRowParallelMode os fs opts sizeGb elapsed outcome"
proof -
  have rd: "reads_ok os" using os by (simp add: os_ok_def)
  obtain rowCount dbo fs' db where R: "row_count opts n = Some rowCount" "row_options opts rowCount = Some dbo"
    "row_mode_open os fs opts dir dbo = Some (Inr (fs', Some db))"
    "database_ok db" "store_start db" "rows db = (\<lambda>_. None)" "unat rowCount < length (RowBuckets db)"
    "directory db = dir" "maxLoadFactor (options db) = Fin (fl (4 / 5))" "options_ok dbo"
    "rowShardCount dbo = rowShardCount (options db)" "\<forall>off \<in> set (rowAppendOffsets db). unat off = 24"
    by (rule row_run_start [OF os keep plan(2,3)])
  have "driver_reachable os opts n rowCount db (driver_start opts db)" by (simp add: driver_reachable_def)
  from row_threads_joined [OF rd plan(3) R(1,5,12,9) this]
  obtain d where "driver_reachable os opts n rowCount db d" "joined d" by (auto simp: driver_reachable_def)
  from RunRowParallelMode.ran [OF plan(1,2) R(1-3) this] show ?thesis by blast
qed

text \<open>C33. A run of the benchmark in row mode on a system without errors, for a plan that fits the formats, without
  \<open>--keep\<close> and with a read count that is neither 0 nor \<open>2 ^ 53\<close> or more, has an outcome, and every outcome it can have is
  one of two: the message of a write that was refused, or, after both closings and the reopening have succeeded, the
  payload of one of its objects as the last value read and percentiles that are measured times.  No interleaving of
  its threads leads to undefined behaviour or to a state from which the threads cannot all be joined, and no run fails to open, to
  reopen or to find a cell that it has written.\<close>

theorem row_benchmark_outcomes:
  assumes "os_ok os" and "\<not> bo_keepData opts" and "object_count opts sizeGb = Some n"
    and "run_directory opts ''row-size-'' sizeGb = Some dir" and "row_plan_fits opts n"
  shows "(\<exists>outcome. RunRowParallelMode os fs opts sizeGb elapsed outcome) \<and>
    (\<forall>outcome. RunRowParallelMode os fs opts sizeGb elapsed outcome \<longrightarrow>
      (\<exists>message. message \<noteq> '''' \<and> outcome = Some (Inl (Exit (''write failed: '' @ message)))) \<or>
      (\<exists>i p50 p95 p99 db. outcome = Some (Inr (MakeFlatBufferPayload (bo_payloadSize opts) i, (p50, p95, p99), Some db)) \<and>
        i < n \<and> {p50, p95, p99} \<subseteq> elapsed ` {..<unat (bo_readCount opts)}))"
  by (intro conjI allI impI, rule row_run_exists [OF assms], erule row_run_ends [OF assms])

subsection \<open>A run of one thread, from its options to its end\<close>

lemma fresh_slot_free:
  assumes ok: "row_ok db" and empty: "rows db = (\<lambda>_. None)" and size: "16 \<le> length (RowBuckets db)"
    and load: "maxLoadFactor (options db) = Fin (fl (4 / 5))"
  shows "\<not> slot_refused db (rih_itemCount (RowIndexHeader db)) 0"
proof -
  obtain v where v: "mapped_data (rowIndexMap db) = Some v" "row_index_ok (shards_of db) v"
    using ok by (auto simp: row_ok_def row_core_ok_def)
  have B: "RowBuckets db = ri_buckets v" "RowIndexHeader db = ri_header v" using v(1) by (simp_all add: RowBuckets_def RowIndexHeader_def)
  obtain k where k: "k \<le> 56" "rih_bucketCount (ri_header v) = 2 ^ k" "length (ri_buckets v) = 2 ^ k"
    using v(2) by (rule row_index_okD)
  have "unat (rih_itemCount (ri_header v)) = 0" using row_count [OF ok v(1)] empty by simp
  then have items: "rih_itemCount (ri_header v) = 0" by (simp add: unat_eq_0)
  have one: "double_of_u64 1 = Fin 1" using fl_pow2 [of 0] by (simp add: double_of_u64_def)
  have pow: "double_of_u64 (2 ^ k) = Fin (2 ^ k)"
    using unat_pow2 [of k] k(1) fl_pow2 [of k] by (simp add: double_of_u64_def)
  have "(2 :: nat) ^ 4 \<le> 2 ^ k" using size k(3) B by simp
  then have "rat_of_nat (2 ^ 4) \<le> of_nat (2 ^ k)" by (simp only: of_nat_le_iff)
  then have "1 / 2 ^ k \<le> (1 / 16 :: rat)" by (simp add: field_simps)
  also have "\<dots> \<le> fl (4 / 5)" by (simp add: fl_four_fifths)
  finally have "\<not> fl (4 / 5) < 1 / 2 ^ k" by simp
  moreover have "fl (1 / 2 ^ k) = 1 / 2 ^ k" using fl_dyadic [of 1 k] by simp
  ultimately show ?thesis using items B k(2) load one pow by (simp add: slot_refused_def)
qed

lemma small_bench_run:
  "object_count small_bench (Fin (1 / 2 ^ 30)) = Some 1"
  "run_directory small_bench ''row-size-'' (Fin (1 / 2 ^ 30)) = Some ''/tmp/lumodb-bench/row-size-0''"
  "row_plan_fits small_bench 1" "\<not> bo_keepData small_bench" "row_fits (fl (4 / 5)) StructA [only_entry]"
  "unat (bo_readCount small_bench) = 100"
proof -
  have f: "fl 1 = 1" "fl 1000 = 1000" "fl (125 / 134217728) = 125 / 134217728"
    "fl (1 / 1048576) = 1 / 1048576" "fl (1 / 1024) = 1 / 1024"
    using fl_of_nat [of 1] fl_of_nat [of 1000] fl_dyadic [of 125 27] fl_dyadic [of 1 20] fl_dyadic [of 1 10] by simp_all
  show "object_count small_bench (Fin (1 / 2 ^ 30)) = Some 1"
    by (simp add: object_count_def target_bytes_def f small_bench_def)
  show "run_directory small_bench ''row-size-'' (Fin (1 / 2 ^ 30)) = Some ''/tmp/lumodb-bench/row-size-0''"
    by (simp add: run_directory_def f small_bench_def BenchmarkOptions_default_def path_join_def decimal.simps char_of_def bit_Suc_0_iff)
  show "row_plan_fits small_bench 1" "\<not> bo_keepData small_bench" "unat (bo_readCount small_bench) = 100"
    by (simp_all add: row_plan_fits_def small_bench_def BenchmarkOptions_default_def)
  show "row_fits (fl (4 / 5)) StructA [only_entry]"
    by (simp add: row_fits_def fl_four_fifths only_entry_def key_bytes_total_def values_of_def StructA_def text_bytes_def
        length_MakeFlatBufferPayload KeyForIndex_def decimal.simps)
qed

lemma small_bench_thread:
  obtains fs' dbo db d where "row_options small_bench 1 = Some dbo"
    "row_mode_open choppy_os empty_fs small_bench ''/tmp/lumodb-bench/row-size-0'' dbo = Some (Inr (fs', Some db))"
    "database_ok db" "store_start db" "rows db = (\<lambda>_. None)" "unat (1 :: u64) < length (RowBuckets db)"
    "directory db = ''/tmp/lumodb-bench/row-size-0''" "maxLoadFactor (options db) = Fin (fl (4 / 5))"
    "options_ok dbo" "rowShardCount dbo = rowShardCount (options db)"
    "driver_reachable choppy_os small_bench 1 1 db d" "joined d" "dr_errorMessage d = ''''"
proof -
  let ?o = small_bench and ?dir = "''/tmp/lumodb-bench/row-size-0''"
  note os = choppy_os_ok choppy_reads
  note B = small_bench_run and plan = small_bench_plan(1)
  have shards: "bo_shards ?o \<noteq> 0" using B(3) by (simp add: row_plan_fits_def)
  obtain j where j: "row_options ?o 1 = Some (DatabaseOptions_default\<lparr>initialBucketCount := 16,
      initialRowBucketCount := 2 ^ j, rowShardCount := bo_shards ?o\<rparr>)" "4 \<le> j" "j \<le> 43" "unat (1 :: u64) < 2 ^ j"
    by (rule row_plan_options_some [OF B(3) plan])
  define dbo where "dbo = DatabaseOptions_default\<lparr>initialBucketCount := 16, initialRowBucketCount := 2 ^ j, rowShardCount := bo_shards ?o\<rparr>"
  note o = row_plan_options [OF j(2,3) shards, folded dbo_def]
  obtain fs' db where db: "row_mode_open choppy_os empty_fs ?o ?dir dbo = Some (Inr (fs', Some db))" "database_ok db" "store_start db"
    "\<forall>off \<in> set (rowAppendOffsets db). unat off = 24" "rows db = (\<lambda>_. None)" "2 ^ j \<le> length (RowBuckets db)"
    "options db = rounded_options dbo" "directory db = ?dir"
    by (rule row_mode_opens [OF os(1) B(4,2) j(2,3) shards, where fs = empty_fs, folded dbo_def])
  have load: "maxLoadFactor (options db) = Fin (fl (4 / 5))" "rowShardCount dbo = rowShardCount (options db)"
    using o(3,4) db(7) by simp_all
  have "(2 :: nat) ^ 4 \<le> 2 ^ j" using j(2) by (intro power_increasing) simp_all
  then have size: "16 \<le> length (RowBuckets db)" using db(6) by simp
  have ok: "row_ok db" using db(2) by (simp add: database_ok_def)
  have e: "length (re_key only_entry) + length (re_bytes only_entry) \<le> 900"
    by (simp add: only_entry_def length_MakeFlatBufferPayload KeyForIndex_def text_bytes_def decimal.simps)
  obtain d where d: "driver_reachable choppy_os ?o 1 1 db d" "joined d" "dr_errorMessage d = ''''"
    by (rule only_thread [OF os(2,3) db(3,5) load(1) B(5) e db(4) fresh_slot_free [OF ok db(5) size load(1)] _ small_bench_plan(3,2)])
      (use size in simp)
  have room: "unat (1 :: u64) < length (RowBuckets db)" using size by simp
  show ?thesis by (rule that [OF _ db(1-3,5) room db(8) load(1) o(1) load(2) d]) (use j(1) in \<open>simp add: dbo_def\<close>)
qed

lemma row_benchmark_outcomes_witness:
  "\<exists>db. RunRowParallelMode choppy_os empty_fs small_bench (Fin (1 / 2 ^ 30)) (\<lambda>_. 7)
      (Some (Inr (MakeFlatBufferPayload 1 0, (7, 7, 7), Some db)))"
proof -
  note os = choppy_os_ok and B = small_bench_run and plan = small_bench_plan(1)
  obtain fs' dbo db d where R: "row_options small_bench 1 = Some dbo"
    "row_mode_open choppy_os empty_fs small_bench ''/tmp/lumodb-bench/row-size-0'' dbo = Some (Inr (fs', Some db))"
    "database_ok db" "store_start db" "rows db = (\<lambda>_. None)" "unat (1 :: u64) < length (RowBuckets db)"
    "directory db = ''/tmp/lumodb-bench/row-size-0''" "maxLoadFactor (options db) = Fin (fl (4 / 5))"
    "options_ok dbo" "rowShardCount dbo = rowShardCount (options db)"
    "driver_reachable choppy_os small_bench 1 1 db d" "joined d" "dr_errorMessage d = ''''"
    by (rule small_bench_thread)
  obtain v t db' where "row_mode_finish choppy_os fs' small_bench 1 ''/tmp/lumodb-bench/row-size-0'' dbo (\<lambda>_. 7) d = Some (Inr (v, t, Some db'))"
    using row_run_reads [OF os B(3) plan R(3-13)] by blast
  with RunRowParallelMode.ran [OF B(1,2) plan R(1,2,11,12), of "\<lambda>_. 7"]
  have run: "RunRowParallelMode choppy_os empty_fs small_bench (Fin (1 / 2 ^ 30)) (\<lambda>_. 7) (Some (Inr (v, t, Some db')))" by simp
  from row_benchmark_outcomes [OF choppy_os_ok small_bench_run(4,1,2,3), THEN conjunct2, rule_format, OF run]
  obtain i where i: "v = MakeFlatBufferPayload (bo_payloadSize small_bench) i" "i < 1" "t = (7, 7, 7)" by auto
  have "i = 0" using i(2) by (simp add: word_less_nat_alt unat_eq_0)
  then show ?thesis using run i by (auto simp: small_bench_def)
qed

text \<open>What that thread has written is there after a restart.\<close>

lemma concurrent_writes_survive_restart_witness:
  "\<exists>db s db0 opts db'. store_reachable choppy_os db s \<and> Close choppy_os (race_db (st_race s)) = (Ok, db0) \<and>
    OpenReadOnly choppy_os db0 (directory db) opts = Some (Ok, db') \<and>
    GetRowStruct choppy_os db' StructA 0 (KeyForIndex 0) = Some (Inr (MakeFlatBufferPayload 1 0))"
proof -
  note plan = small_bench_plan(1) and rd = choppy_reads(1)
  have calls: "File_IO.calls_ok choppy_os" using choppy_os_ok by (simp add: os_ok_def)
  obtain dbo db d where R: "database_ok db" "store_start db" "rows db = (\<lambda>_. None)" "unat (1 :: u64) < length (RowBuckets db)"
    "maxLoadFactor (options db) = Fin (fl (4 / 5))" "options_ok dbo" "rowShardCount dbo = rowShardCount (options db)"
    "driver_reachable choppy_os small_bench 1 1 db d" "joined d" "dr_errorMessage d = ''''"
    by (rule small_bench_thread)
  note S = row_run_rows [OF rd small_bench_run(3) plan R(2-5,8-10)]
  obtain st db0 where c: "Close choppy_os (race_db (st_race (dr_store d))) = (st, db0)" by fastforce
  from concurrent_writes_survive_restart [OF calls rd R(1,2) S(1-3) R(6,7) c]
  obtain db' where st: "st = Ok" and ro: "OpenReadOnly choppy_os db0 (directory db) dbo = Some (Ok, db')"
    and get: "GetRowStruct choppy_os db' StructA 0 (KeyForIndex 0) = Some (row_result (rows (race_db (st_race (dr_store d))) (StructA, 0)) (KeyForIndex 0))"
    by blast
  obtain row where "rows (race_db (st_race (dr_store d))) (StructA, 0) = Some row"
    "row (KeyForIndex 0) = Some (MakeFlatBufferPayload 1 0)"
    using S(4) [of 0] by (auto simp: small_bench_def)
  with get have "GetRowStruct choppy_os db' StructA 0 (KeyForIndex 0) = Some (Inr (MakeFlatBufferPayload 1 0))"
    by (simp add: row_result_def row_lookup_def)
  with S(1) c [unfolded st] ro show ?thesis by blast
qed

end
