(* ===== verification/Benchmark_Main.thy ===== *)
theory Benchmark_Main
  imports Benchmark_Row_Runs
begin

text \<open>
  The function \<open>main\<close> of the benchmark: it parses its arguments and runs the mode they choose for every size, one after
  the other on the same file system.
\<close>

subsection \<open>The program\<close>

definition run_mode ::
  "os \<Rightarrow> BenchmarkOptions \<Rightarrow> double \<Rightarrow> (nat \<Rightarrow> int) \<Rightarrow> fs \<Rightarrow> (failure + bytes \<times> (int \<times> int \<times> int) \<times> Database) option \<Rightarrow> bool" where
  "run_mode os opts sizeGb elapsed fs outcome \<longleftrightarrow>
     (if bo_mode opts = kRowParallel then RunRowParallelMode os fs opts sizeGb elapsed outcome
      else outcome = RunObjectMode os fs opts sizeGb elapsed)"

text \<open>The database of a run is destroyed at its end, which leaves its files.  The times of the run for the size with
  number \<open>k\<close> are \<open>elapsed k\<close>.\<close>

inductive run_sizes ::
  "os \<Rightarrow> BenchmarkOptions \<Rightarrow> (nat \<Rightarrow> nat \<Rightarrow> int) \<Rightarrow> nat \<Rightarrow> fs \<Rightarrow> double list \<Rightarrow> (failure + fs) option \<Rightarrow> bool" for os opts elapsed where
  all_sizes: "run_sizes os opts elapsed k fs [] (Some (Inr fs))"
| undefined_size: "run_mode os opts sizeGb (elapsed k) fs None \<Longrightarrow> run_sizes os opts elapsed k fs (sizeGb # sizes) None"
| failed_size: "run_mode os opts sizeGb (elapsed k) fs (Some (Inl e)) \<Longrightarrow>
    run_sizes os opts elapsed k fs (sizeGb # sizes) (Some (Inl e))"
| next_size: "run_mode os opts sizeGb (elapsed k) fs (Some (Inr (v, percentiles, database))) \<Longrightarrow>
    Database_delete os database = Some fs' \<Longrightarrow> run_sizes os opts elapsed (Suc k) fs' sizes outcome \<Longrightarrow>
    run_sizes os opts elapsed k fs (sizeGb # sizes) outcome"

inductive_cases run_sizes_NilE: "run_sizes os opts elapsed k fs [] outcome"
inductive_cases run_sizes_ConsE: "run_sizes os opts elapsed k fs (sizeGb # sizes) outcome"

inductive bench_main ::
  "os \<Rightarrow> (string \<Rightarrow> failure + double) \<Rightarrow> BenchmarkOptions \<Rightarrow> string list \<Rightarrow> (nat \<Rightarrow> nat \<Rightarrow> int) \<Rightarrow> fs \<Rightarrow>
     (failure + fs) option \<Rightarrow> bool" for os stod defaults args elapsed fs where
  bad_arguments: "ParseArgs stod defaults args = Inl e \<Longrightarrow> bench_main os stod defaults args elapsed fs (Some (Inl e))"
| good_arguments: "ParseArgs stod defaults args = Inr opts \<Longrightarrow>
    run_sizes os opts elapsed 0 fs (bo_sizesGb opts) outcome \<Longrightarrow> bench_main os stod defaults args elapsed fs outcome"

inductive_cases bench_mainE: "bench_main os stod defaults args elapsed fs outcome"

subsection \<open>What the program ends with\<close>

definition size_fits :: "BenchmarkOptions \<Rightarrow> double \<Rightarrow> bool" where
  "size_fits opts sizeGb \<longleftrightarrow>
     (case object_count opts sizeGb of
        None \<Rightarrow> False
      | Some n \<Rightarrow>
          run_directory opts (if bo_mode opts = kRowParallel then ''row-size-'' else ''size-'') sizeGb \<noteq> None \<and>
          (if bo_mode opts = kRowParallel then row_plan_fits opts n else run_fits opts (unat n)))"

definition refused_write :: "failure \<Rightarrow> bool" where
  "refused_write e \<longleftrightarrow> (case e of Exit txt \<Rightarrow> take 14 txt = ''write failed: '' \<and> 14 < length txt | Uncaught _ \<Rightarrow> False)"

lemma ParseArgs_checked:
  assumes "ParseArgs stod defaults args = Inr opts"
  shows "0 < bo_objectBatchSize opts" "0 < bo_rowEntries opts" "0 < bo_threads opts" "bo_shards opts \<noteq> 0"
  using assms by (auto simp: ParseArgs_def word_neq_0_conv split: sum.splits if_splits)

lemma object_size:
  assumes os: "os_ok os" and keep: "\<not> bo_keepData opts" and batch: "0 < bo_objectBatchSize opts"
    and reads: "0 < unat (bo_readCount opts)" "unat (bo_readCount opts) < 2 ^ 53"
    and fits: "size_fits opts sizeGb" and mode: "bo_mode opts = kObject"
  obtains v t db where "RunObjectMode os fs opts sizeGb elapsed = Some (Inr (v, t, Some db))"
proof -
  obtain n dir where n: "object_count opts sizeGb = Some n" "run_directory opts ''size-'' sizeGb = Some dir" "run_fits opts (unat n)"
    using fits mode by (auto simp: size_fits_def split: option.splits)
  show ?thesis using object_run_completes [OF os keep batch reads n, of fs elapsed] that by blast
qed

lemma one_size_ends:
  assumes os: "os_ok os" and keep: "\<not> bo_keepData opts" and batch: "0 < bo_objectBatchSize opts"
    and reads: "0 < unat (bo_readCount opts)" "unat (bo_readCount opts) < 2 ^ 53"
    and fits: "size_fits opts sizeGb" and run: "run_mode os opts sizeGb elapsed fs outcome"
  shows "(\<exists>v t db. outcome = Some (Inr (v, t, Some db))) \<or>
    bo_mode opts = kRowParallel \<and> (\<exists>e. refused_write e \<and> outcome = Some (Inl e))"
proof (cases "bo_mode opts = kRowParallel")
  case True
  obtain n dir where n: "object_count opts sizeGb = Some n" "run_directory opts ''row-size-'' sizeGb = Some dir" "row_plan_fits opts n"
    using fits True by (auto simp: size_fits_def split: option.splits)
  have "RunRowParallelMode os fs opts sizeGb elapsed outcome" using run True by (simp add: run_mode_def)
  from row_run_ends [OF os keep n this] show ?thesis
  proof (elim disjE exE conjE)
    fix message :: string assume "message \<noteq> ''''" "outcome = Some (Inl (Exit (''write failed: '' @ message)))"
    moreover from this have "refused_write (Exit (''write failed: '' @ message))" by (simp add: refused_write_def)
    ultimately show ?thesis using True by blast
  qed blast
next
  case False
  then have mode: "bo_mode opts = kObject" by (cases "bo_mode opts") simp_all
  show ?thesis using object_size [OF os keep batch reads fits mode, of fs elapsed] run False unfolding run_mode_def by (metis (no_types))
qed

lemma all_sizes_end:
  assumes os: "os_ok os" and keep: "\<not> bo_keepData opts" and batch: "0 < bo_objectBatchSize opts"
    and reads: "0 < unat (bo_readCount opts)" "unat (bo_readCount opts) < 2 ^ 53"
    and fits: "\<forall>sizeGb \<in> set sizes. size_fits opts sizeGb" and run: "run_sizes os opts elapsed k fs sizes outcome"
  shows "(\<exists>fs'. outcome = Some (Inr fs')) \<or> bo_mode opts = kRowParallel \<and> (\<exists>e. refused_write e \<and> outcome = Some (Inl e))"
  using run fits
proof (induction rule: run_sizes.induct)
  case (undefined_size sizeGb k fs sizes)
  have "size_fits opts sizeGb" using undefined_size.prems by simp
  from one_size_ends [OF os keep batch reads this undefined_size.hyps] show ?case by simp
next
  case (failed_size sizeGb k fs e sizes)
  have "size_fits opts sizeGb" using failed_size.prems by simp
  from one_size_ends [OF os keep batch reads this failed_size.hyps] show ?case by simp
qed simp_all

lemma one_size_runs:
  assumes os: "os_ok os" and keep: "\<not> bo_keepData opts" and batch: "0 < bo_objectBatchSize opts"
    and reads: "0 < unat (bo_readCount opts)" "unat (bo_readCount opts) < 2 ^ 53" and fits: "size_fits opts sizeGb"
  shows "\<exists>outcome. run_mode os opts sizeGb elapsed fs outcome"
proof (cases "bo_mode opts = kRowParallel")
  case True
  obtain n dir where n: "object_count opts sizeGb = Some n" "run_directory opts ''row-size-'' sizeGb = Some dir" "row_plan_fits opts n"
    using fits True by (auto simp: size_fits_def split: option.splits)
  show ?thesis using row_run_exists [OF os keep n] True by (simp add: run_mode_def)
qed (simp add: run_mode_def)

lemma all_sizes_run:
  assumes os: "os_ok os" and keep: "\<not> bo_keepData opts" and batch: "0 < bo_objectBatchSize opts"
    and reads: "0 < unat (bo_readCount opts)" "unat (bo_readCount opts) < 2 ^ 53"
    and fits: "\<forall>sizeGb \<in> set sizes. size_fits opts sizeGb"
  shows "\<exists>outcome. run_sizes os opts elapsed k fs sizes outcome"
  using fits
proof (induction sizes arbitrary: k fs)
  case Nil
  show ?case using run_sizes.all_sizes by blast
next
  case (Cons sizeGb sizes)
  have fit: "size_fits opts sizeGb" using Cons.prems by simp
  obtain outcome where run: "run_mode os opts sizeGb (elapsed k) fs outcome" using one_size_runs [OF os keep batch reads fit] by blast
  from one_size_ends [OF os keep batch reads fit run] show ?case
  proof (elim disjE exE conjE)
    fix v t db assume o: "outcome = Some (Inr (v, t, Some db))"
    obtain rest where "run_sizes os opts elapsed (Suc k) (filesys (snd (Close os db))) sizes rest"
      using Cons.IH Cons.prems by fastforce
    then have "run_sizes os opts elapsed k fs (sizeGb # sizes) rest"
      using run_sizes.next_size [where k = k and elapsed = elapsed, OF run [unfolded o], of "filesys (snd (Close os db))"]
      by (simp add: Database_delete_def)
    then show ?thesis by blast
  next
    fix e assume "outcome = Some (Inl e)"
    then show ?thesis using run_sizes.failed_size [where k = k and elapsed = elapsed] run by blast
  qed
qed

text \<open>C31. The benchmark program, started with arguments it accepts, without \<open>--keep\<close> and with a read count that is neither 0 nor
  \<open>2 ^ 53\<close> or more, on a system without errors and for sizes that fit the formats, has an outcome, and every outcome
  is success or, in row mode only, the message of a write that was refused: it never ends with undefined behaviour or with
  another error, no call hangs, and its threads never get to a state from which they cannot all be joined.\<close>

theorem benchmark_program_ends:
  assumes "os_ok os" and "ParseArgs stod defaults args = Inr opts" and "\<not> bo_keepData opts"
    and "0 < unat (bo_readCount opts)" and "unat (bo_readCount opts) < 2 ^ 53" and "\<forall>sizeGb \<in> set (bo_sizesGb opts). size_fits opts sizeGb"
  shows "(\<exists>outcome. bench_main os stod defaults args elapsed fs outcome) \<and>
    (\<forall>outcome. bench_main os stod defaults args elapsed fs outcome \<longrightarrow>
       (\<exists>fs'. outcome = Some (Inr fs')) \<or> bo_mode opts = kRowParallel \<and> (\<exists>e. refused_write e \<and> outcome = Some (Inl e)))"
proof (intro conjI impI allI)
  note P = ParseArgs_checked [OF assms(2)]
  show "\<exists>outcome. bench_main os stod defaults args elapsed fs outcome"
    using all_sizes_run [OF assms(1,3) P(1) assms(4-6)] bench_main.good_arguments [OF assms(2)] by blast
  fix outcome assume "bench_main os stod defaults args elapsed fs outcome"
  then have "run_sizes os opts elapsed 0 fs (bo_sizesGb opts) outcome" using assms(2) by (auto elim: bench_mainE)
  from all_sizes_end [OF assms(1,3) P(1) assms(4-6) this]
  show "(\<exists>fs'. outcome = Some (Inr fs')) \<or> bo_mode opts = kRowParallel \<and> (\<exists>e. refused_write e \<and> outcome = Some (Inl e))" .
qed

lemma default_sizes_fit:
  "\<forall>sizeGb \<in> set (bo_sizesGb (BenchmarkOptions_default ''/tmp'' 4)). size_fits (BenchmarkOptions_default ''/tmp'' 4) sizeGb"
proof -
  have f: "fl 1024 = 1024" "fl 1048576 = 1048576" "fl 1073741824 = 1073741824" "fl 1000 = 1000"
    "fl 5120 = 5120" "fl 5242880 = 5242880" "fl 5368709120 = 5368709120" "fl 5000 = 5000"
    "fl 10240 = 10240" "fl 10485760 = 10485760" "fl 10737418240 = 10737418240" "fl 10000 = 10000"
    using fl_of_nat [of 1024] fl_of_nat [of 1048576] fl_of_nat [of 1073741824] fl_of_nat [of 1000]
      fl_of_nat [of 5120] fl_of_nat [of 5242880] fl_of_nat [of 5368709120] fl_of_nat [of 5000]
      fl_of_nat [of 10240] fl_of_nat [of 10485760] fl_of_nat [of 10737418240] fl_of_nat [of 10000] by simp_all
  show ?thesis
    by (simp add: size_fits_def object_count_def target_bytes_def run_directory_def run_fits_def f BenchmarkOptions_default_def)
qed

text \<open>The program without arguments.\<close>

lemma benchmark_program_ends_witness:
  "\<exists>fs'. bench_main choppy_os (\<lambda>_. Inl (Uncaught ''stod'')) (BenchmarkOptions_default ''/tmp'' 4) [] (\<lambda>_ _. 7) empty_fs (Some (Inr fs'))"
proof -
  let ?o = "BenchmarkOptions_default ''/tmp'' 4"
  have o: "ParseArgs (\<lambda>_. Inl (Uncaught ''stod'')) ?o [] = Inr ?o" "\<not> bo_keepData ?o" "0 < unat (bo_readCount ?o)"
    "unat (bo_readCount ?o) < 2 ^ 53" "bo_mode ?o = kObject"
    by (simp_all add: ParseArgs_def BenchmarkOptions_default_def)
  from benchmark_program_ends [OF choppy_os_ok o(1-4) default_sizes_fit, of "\<lambda>_ _. 7" empty_fs] o(5) show ?thesis by fastforce
qed

end
