(* ===== verification/Spec2Isabelle.thy ===== *)
theory Spec2Isabelle
  imports Migration Histories Open_Termination Read_Only Diagnostics_Theorems Database_Facade Writer_Race_Samples File_Handles Writer_Race_Durability Benchmark_Main
begin

text \<open>
  A verification development for LumoDB, an embedded key-value store in C++: objects addressed by
  (column, key) and rows addressed by (column, row id), whose cells are addressed by key.

  \<^bold>\<open>The program.\<close>  \<open>src/src/lumodb/database.cpp\<close> holds the class \<open>Database::Impl\<close> with all of the logic and the
  class \<open>Database\<close> that forwards to it; \<open>file.cpp\<close> wraps the system calls; \<open>storage_format.h\<close> fixes
  the structures on disk; \<open>hash.cpp\<close> the hash functions; \<open>status.h\<close> the error values.  Objects are
  appended to one value file and found through a memory-mapped open-addressing index; every write
  of a row appends one self-contained block (a small hash table of its own) to one of several shard files,
  found through a second mapped index, which several threads may use at once.  An index that is
  missing or damaged is rebuilt from the value files when the database is opened.

  \<^bold>\<open>Theories and the code they model.\<close>
  \<^item> Prelude: integer types, byte strings, shared lemmas on lists and words.
  \<^item> Status_Codes (\<open>status.h\<close>), Hashing (\<open>hash.cpp\<close>, \<open>ObjectIndexHash\<close>), Doubles (the \<open>double\<close> arithmetic of the
    load factors), Probing (\<open>RoundUpPowerOfTwo\<close> and the probe sequence of every table; the locale
    \<open>open_addressing\<close> with the laws of such a table, interpreted for the object index, the row index
    and the key table of a block), File_IO (\<open>file.cpp\<close>, \<open>file.h\<close>), Storage_Format (\<open>storage_format.h\<close>
    with the byte layout of every structure).
  \<^item> File_Handles: the classes \<open>FileDescriptor\<close> and \<open>MappedFile\<close> as objects that are made, moved, assigned and
    destroyed; the locale \<open>resource_owner\<close> is the contract both keep.
  \<^item> Db_State: the record \<open>Impl\<close>, one field per member of \<open>Database::Impl\<close>, with its accessors.
  \<^item> Object_Index, Object_Api, Object_Theorems: lookup, placement and growth of the object index;
    \<open>Put\<close>, \<open>PutStruct(s)\<close>, \<open>PutUniqueStructs\<close>, \<open>Get\<close>, \<open>GetStruct\<close>, \<open>GetMany\<close>.
  \<^item> Value_File, Recovery_Theorems, Migration: opening the value file, \<open>RebuildIndexFromValues\<close>,
    \<open>MigrateLegacyValueFile\<close>.
  \<^item> Row_Block, Row_Layout: \<open>BuildRowBlockLayout\<close>, \<open>DecodeRowBlockEntries\<close>, \<open>FindValueInRowBlockAt\<close>.
  \<^item> Row_Index, Row_Update, Row_Api, Row_Writes, Row_Theorems: the row index and the row operations, as a single thread
    runs them; Row_Growth, Row_Files, Row_Log, Row_Recovery, Row_Durability: creating, resizing, opening and rebuilding
    the row files.
  \<^item> Lifecycle, Database_Theorems, Histories, Read_Only: \<open>OpenInternal\<close>, \<open>Open\<close>, \<open>OpenReadOnly\<close>,
    \<open>Flush\<close>, \<open>Close\<close>, and the database as a whole; Open_Outcomes: how an open can end; Scan_Termination,
    Open_Termination: the scans that rebuild an index, and with them every open, end.
  \<^item> Diagnostics, Diagnostics_Theorems: \<open>GetColumnStats\<close>, \<open>DumpColumnStats\<close>, \<open>Dump\<close>, \<open>DumpColumn\<close>, \<open>EscapeText\<close>.
  \<^item> Database_Facade: the class \<open>Database\<close> of \<open>database.h\<close>.
  \<^item> Row_Race, Row_Race_Invariant, Row_Race_Safety, Row_Race_Theorems, Row_Race_Progress, Row_Race_Samples: any number of
    calls of \<open>InsertOrUpdateRowBucket\<close> and \<open>FindRowBucket\<close> at once, interleaved at every access to a
    shared word, while the rest of the program does what it likes to other bytes.
  \<^item> Writer_Race, Writer_Race_Invariant, Writer_Race_Safety, Writer_Race_Theorems, Writer_Race_Alone, Writer_Race_Samples: any
    number of calls of \<open>WriteRowStructs\<close> at once, one step per access to an atomic counter (the reservation
    loop, the sequence number, the append offset, the item count, the release), one for the transfer of a
    block, and the steps of Row_Race for the index; Writer_Race_Progress: from every state they reach all of them
    can be brought to their end; Writer_Race_Durability puts them back into the whole database,
    which can be closed and opened again afterwards.
  \<^item> Benchmark, Benchmark_Theorems, Benchmark_Rows, Benchmark_Row_Theorems, Benchmark_Row_Progress,
    Benchmark_Row_Runs, Benchmark_Main: the driver \<open>src/bench/benchmark.cpp\<close>, a client of all of
    this: its options, its payloads (\<open>std::mt19937_64\<close>), the run in object mode as a function, the run in row
    mode with its threads as steps over Writer_Race and its end as a relation between options and outcomes, and \<open>main\<close>.  An open
    that hangs or is undefined, and a state from which the threads cannot all be joined, are outcomes of that relation (\<open>None\<close>).
  \<^item> Interfaces: the locales \<open>keyed_store\<close> (what a client may rely on, whatever lies underneath; interpreted for
    the object API and the row API) and \<open>refinement\<close> (runs of a system against runs of its
    abstraction; interpreted for the database with restarts).

  \<^bold>\<open>State and results.\<close>  An operation takes the state \<open>Impl\<close> and returns it updated.  A \<open>Status\<close> is returned
  as in the source; a function with a result returns \<open>Status + 'a\<close>.  \<open>None\<close> around a result is a
  call that does not return (a loop that never ends) or whose behaviour C++ leaves undefined, so a
  theorem that says \<open>Some\<close> claims termination too.  The files are part of the state, and the system
  calls are a parameter, the record \<open>os\<close>: for each transfer it gives the replies (interrupted, short,
  failed), and for the other calls an optional error.  \<open>reads_ok\<close>, \<open>writes_ok\<close>, \<open>calls_ok\<close> say that
  no call fails; interruptions and short transfers remain, and the witnesses run on a system that has both.
  A mapped index is the typed view of its bytes; the bytes go back to the file when it is unmapped.  The one exception to
  the rule for undefined behaviour: the accessors of an index (\<open>IndexHeader\<close>, \<open>Buckets\<close>, \<open>RowIndexHeader\<close>,
  \<open>RowBuckets\<close>) have an unspecified value while it is not mapped, and no theorem depends on that value.

  \<^bold>\<open>What is proved.\<close>  The abstract state is the pair of maps \<open>objects\<close> and \<open>rows\<close>.  Every write
  refines an update of these maps or leaves them as they were, under every outcome of the data
  transfer (reads do not fail, nor do the other calls where an index may grow); every read is a lookup; a history of writes and restarts refines the same history of
  updates; a database without its index files, or with a legacy value file, opens with the same
  maps; a fresh directory opens empty; every open ends, whatever the system calls answer, on
  files of the current format without a size that wraps, and
  an open that fails leaves everything closed.  The file layer is sound under
  short and interrupted transfers and complete when none fails.  Blocks decode to the rows they were laid out for.
  For racing row index calls: a bucket has one writer at a time, no half-written bucket is published,
  no row gets two buckets, the table stands for the rows of the successful calls, a lookup never misses a row
  that is there and reads one version whole, all calls can finish from every reachable state, and a call that
  runs alone is the sequential one.  For concurrent row writers: their blocks never overlap, a complete block
  never changes, and when they have returned every row holds exactly what one of the successful calls wrote and the
  counters are right, also after a restart if the index is not full; a call that is not interrupted is the sequential one; the load factor, however, can be
  exceeded, and a call can be refused below it.  For the benchmark: a run in object mode goes through to the end and leaves
  exactly its objects; the threads of the row mode lose no row, from every state they reach they can all be joined, and every outcome of a run is
  the message of a refused write or a run that reads back what it wrote; the same holds of the program as a whole.  (A
  scheduler may keep a thread waiting for a bucket for ever; that every schedule ends is not claimed.)

  \<^bold>\<open>Bounds.\<close>  Integers have the width of the source and wrap as there; hypotheses such as \<open>write_fits\<close>,
  \<open>row_fits\<close> and \<open>options_fit\<close> keep sums of sizes and offsets below \<open>2 ^ 62\<close>, which every file the program can
  hold satisfies; \<open>small_files\<close> does so for the append offsets of concurrent writers.  No definition runs on fuel: unbounded loops are partial functions into \<open>option\<close>.

  \<^bold>\<open>Not modelled.\<close>  Weak memory: the steps of racing threads form one sequence, the orderings of the
  atomics are not told apart.  The transfer
  of a block is one step of a racing write, which is enough because no other call touches its bytes.  The contents of pages in a
  crash: files change as the calls say.  The text and the times the benchmark
  prints, \<open>std::stod\<close>, the tests and the generated FlatBuffers code: no logic of the program.
\<close>

end
